(* ===== verification/Prelude.thy ===== *)
theory Prelude
  imports Main "HOL-Library.Word" "HOL-Library.Monad_Syntax"
begin

text \<open>
  Vocabulary and automation shared by the component theories: C pointers, C strings, C integer
  division, the collections of proof rules, and the list lemmas several components use.
\<close>

section \<open>Collections of proof rules\<close>

named_theorems c_mem \<open>unfolding rules of the memory accessors\<close>
named_theorems inv_intros \<open>invariant-preservation lemmas\<close>

section \<open>Pointers and integers\<close>

text \<open>An address is a number; a pointer is an address or \<open>NULL\<close>.\<close>

type_synonym addr = nat
type_synonym ptr = "addr option"

text \<open>C's \<open>/\<close> on \<open>int\<close> truncates towards zero.\<close>

definition cdiv :: "int \<Rightarrow> int \<Rightarrow> int" where
  "cdiv a b = sgn a * sgn b * (\<bar>a\<bar> div \<bar>b\<bar>)"

lemma cdiv_nonneg: "0 \<le> a \<Longrightarrow> 0 < b \<Longrightarrow> cdiv a b = a div b"
  by (auto simp: cdiv_def sgn_if)

lemma nat_int_minus [simp]: "nat (int a - int b) = a - b"
  by linarith

lemma nat_int_minus2 [simp]: "b \<le> a \<Longrightarrow> nat (int n - (int a - int b)) = n - (a - b)"
  by linarith

section \<open>C strings\<close>

text \<open>The sign of \<open>strcmp\<close>: characters compare as \<open>unsigned char\<close>.\<close>

fun strcmp :: "string \<Rightarrow> string \<Rightarrow> int" where
  "strcmp [] [] = 0"
| "strcmp [] (d # t) = - 1"
| "strcmp (c # s) [] = 1"
| "strcmp (c # s) (d # t) =
     (if c = d then strcmp s t else if (of_char c :: nat) < of_char d then - 1 else 1)"

lemma strcmp_0 [simp]: "strcmp s t = 0 \<longleftrightarrow> s = t"
  by (induction s t rule: strcmp.induct) auto

lemma strcmp_same [simp]: "strcmp s s = 0"
  by (simp only: strcmp_0)

lemma strcmp_less_trans: "strcmp s t < 0 \<Longrightarrow> strcmp t u < 0 \<Longrightarrow> strcmp s u < 0"
proof (induction s u arbitrary: t rule: strcmp.induct)
  case (4 c s d u)
  then show ?case by (cases t) (auto split: if_splits)
next
  case 1
  then show ?case by (cases t) auto
next
  case (3 c s)
  then show ?case by (cases t) auto
qed simp

lemma strcmp_antisym: "strcmp s t > 0 \<longleftrightarrow> strcmp t s < 0"
  by (induction s t rule: strcmp.induct) auto

text \<open>\<open>tolower\<close> in the C locale.\<close>

definition tolower_c :: "char \<Rightarrow> char" where
  "tolower_c c = (if c \<in> set ''ABCDEFGHIJKLMNOPQRSTUVWXYZ'' then char_of (of_char c + 32 :: nat) else c)"

section \<open>Lists\<close>

lemma list_cases_snoc:
  obtains "xs = []" | ys y where "xs = ys @ [y]"
  by (cases xs rule: rev_cases) auto

lemma split_at_index:
  "i < length xs \<Longrightarrow> xs = take i xs @ xs ! i # drop (Suc i) xs"
  by (rule id_take_nth_drop)

lemma remove1_distinct_append:
  "x \<notin> set ys \<Longrightarrow> remove1 x (ys @ x # zs) = ys @ zs"
  by (induction ys) auto


section \<open>Sequences of fallible operations\<close>

text \<open>Run an operation for each element; run a producer \<open>k\<close> times and collect its results.\<close>

primrec runAll :: "('n \<Rightarrow> 'm \<Rightarrow> 'm option) \<Rightarrow> 'n list \<Rightarrow> 'm \<Rightarrow> 'm option" where
  "runAll f [] m = Some m"
| "runAll f (x # xs) m = do { m' \<leftarrow> f x m; runAll f xs m' }"

primrec collect :: "('m \<Rightarrow> ('r \<times> 'm) option) \<Rightarrow> nat \<Rightarrow> 'm \<Rightarrow> ('r list \<times> 'm) option" where
  "collect g 0 m = Some ([], m)"
| "collect g (Suc k) m = do {
     (r, m') \<leftarrow> g m;
     (rs, m'') \<leftarrow> collect g k m';
     Some (r # rs, m'') }"

section \<open>Interfaces\<close>

text \<open>
  A list of nodes used as a queue: \<open>add\<close> appends a node that exists and is not yet on the list,
  \<open>get\<close> takes the first one off.
\<close>

locale node_queue =
  fixes rep :: "'m \<Rightarrow> 'l \<Rightarrow> 'n list \<Rightarrow> bool"
    and live :: "'m \<Rightarrow> 'n \<Rightarrow> bool"
    and add :: "'l \<Rightarrow> 'n \<Rightarrow> 'm \<Rightarrow> 'm option"
    and get :: "'l \<Rightarrow> 'm \<Rightarrow> ('n option \<times> 'm) option"
  assumes add_ok: "rep m l xs \<Longrightarrow> n \<notin> set xs \<Longrightarrow> live m n \<Longrightarrow>
      \<exists>m'. add l n m = Some m' \<and> rep m' l (xs @ [n]) \<and> (\<forall>k. live m' k \<longleftrightarrow> live m k)"
    and get_empty: "rep m l [] \<Longrightarrow> get l m = Some (None, m)"
    and get_first: "rep m l (x # xs) \<Longrightarrow>
      \<exists>m'. get l m = Some (Some x, m') \<and> rep m' l xs \<and> (\<forall>k. live m' k \<longleftrightarrow> live m k)"
begin

lemma add_many:
  "rep m l xs \<Longrightarrow> distinct (xs @ ns) \<Longrightarrow> (\<forall>n \<in> set ns. live m n) \<Longrightarrow>
   \<exists>m'. runAll (add l) ns m = Some m' \<and> rep m' l (xs @ ns)"
proof (induction ns arbitrary: m xs)
  case Nil
  then show ?case by simp
next
  case (Cons n ns)
  then obtain m1 where 1: "add l n m = Some m1" "rep m1 l (xs @ [n])"
      "\<forall>k. live m1 k \<longleftrightarrow> live m k"
    using add_ok[of m l xs n] by auto
  then have "\<exists>m'. runAll (add l) ns m1 = Some m' \<and> rep m' l ((xs @ [n]) @ ns)"
    using Cons.prems by (intro Cons.IH) auto
  with 1 show ?case by auto
qed

lemma get_many:
  "rep m l (xs @ ys) \<Longrightarrow>
   \<exists>m'. collect (get l) (length xs) m = Some (map Some xs, m') \<and> rep m' l ys"
proof (induction xs arbitrary: m)
  case Nil
  then show ?case by simp
next
  case (Cons x xs)
  then obtain m1 where 1: "get l m = Some (Some x, m1)" "rep m1 l (xs @ ys)"
    using get_first[of m l x "xs @ ys"] by auto
  from Cons.IH[OF 1(2)] 1(1) show ?case by auto
qed

text \<open>First in, first out.\<close>

lemma fifo:
  assumes "rep m l []" and "distinct ns" and "\<forall>n \<in> set ns. live m n"
  shows "\<exists>m1 m2. runAll (add l) ns m = Some m1
           \<and> collect (get l) (length ns) m1 = Some (map Some ns, m2)
           \<and> get l m2 = Some (None, m2)"
proof -
  obtain m1 where 1: "runAll (add l) ns m = Some m1" "rep m1 l ns"
    using add_many[of m l "[]" ns] assms by auto
  then obtain m2 where "collect (get l) (length ns) m1 = Some (map Some ns, m2)" "rep m2 l []"
    using get_many[of m1 l ns "[]"] by auto
  with 1 get_empty show ?thesis by blast
qed

end

end
