(* ===== verification/EllLib.thy ===== *)
theory EllLib
  imports Prelude
begin

text \<open>
  \<open>base/src/libCom/ellLib/ellLib.c\<close>: the doubly linked lists every other part of the system is
  built on. The model is at the level of the pointers: a memory maps the addresses of list nodes
  to their two link fields and the addresses of list headers to first, last and count. Every
  read or write through \<open>NULL\<close> or through an address that holds no object makes the operation
  return \<open>None\<close>, and so does a pointer walk that never ends; the lemmas below show that this does
  not happen on a well-formed list, and relate each operation to the list of node addresses.
\<close>

section \<open>Memory\<close>

record ellnode =
  node_next :: ptr
  node_previous :: ptr

record elllist =
  head_next :: ptr
  head_previous :: ptr
  lcount :: int

record mem =
  nodes :: "addr \<rightharpoonup> ellnode"
  lists :: "addr \<rightharpoonup> elllist"

definition rdNode :: "mem \<Rightarrow> ptr \<Rightarrow> ellnode option" where
  "rdNode m p = (case p of None \<Rightarrow> None | Some a \<Rightarrow> nodes m a)"

definition updNode :: "(ellnode \<Rightarrow> ellnode) \<Rightarrow> ptr \<Rightarrow> mem \<Rightarrow> mem option" where
  "updNode f p m =
     (case p of None \<Rightarrow> None
      | Some a \<Rightarrow> (case nodes m a of None \<Rightarrow> None
                  | Some n \<Rightarrow> Some (m\<lparr>nodes := (nodes m)(a \<mapsto> f n)\<rparr>)))"

definition wrNext :: "ptr \<Rightarrow> ptr \<Rightarrow> mem \<Rightarrow> mem option" where
  "wrNext p v = updNode (\<lambda>n. n\<lparr>node_next := v\<rparr>) p"

definition wrPrevious :: "ptr \<Rightarrow> ptr \<Rightarrow> mem \<Rightarrow> mem option" where
  "wrPrevious p v = updNode (\<lambda>n. n\<lparr>node_previous := v\<rparr>) p"

definition updList :: "(elllist \<Rightarrow> elllist) \<Rightarrow> addr \<Rightarrow> mem \<Rightarrow> mem option" where
  "updList f l m =
     (case lists m l of None \<Rightarrow> None
      | Some h \<Rightarrow> Some (m\<lparr>lists := (lists m)(l \<mapsto> f h)\<rparr>))"

definition wrHeadNext :: "addr \<Rightarrow> ptr \<Rightarrow> mem \<Rightarrow> mem option" where
  "wrHeadNext l v = updList (\<lambda>h. h\<lparr>head_next := v\<rparr>) l"

definition wrHeadPrevious :: "addr \<Rightarrow> ptr \<Rightarrow> mem \<Rightarrow> mem option" where
  "wrHeadPrevious l v = updList (\<lambda>h. h\<lparr>head_previous := v\<rparr>) l"

definition addCount :: "addr \<Rightarrow> int \<Rightarrow> mem \<Rightarrow> mem option" where
  "addCount l d = updList (\<lambda>h. h\<lparr>lcount := lcount h + d\<rparr>) l"

section \<open>Operations\<close>

definition ellInit :: "addr \<Rightarrow> mem \<Rightarrow> mem option" where
  "ellInit plist m0 = do {
     m1 \<leftarrow> wrHeadNext plist None m0;
     m2 \<leftarrow> wrHeadPrevious plist None m1;
     updList (\<lambda>h. h\<lparr>lcount := 0\<rparr>) plist m2 }"

definition ellAdd :: "addr \<Rightarrow> addr \<Rightarrow> mem \<Rightarrow> mem option" where
  "ellAdd pList pNode m0 = do {
     m1 \<leftarrow> wrNext (Some pNode) None m0;
     h \<leftarrow> lists m1 pList;
     m2 \<leftarrow> wrPrevious (Some pNode) (head_previous h) m1;
     m3 \<leftarrow> (if lcount h \<noteq> 0 then wrNext (head_previous h) (Some pNode) m2
           else wrHeadNext pList (Some pNode) m2);
     m4 \<leftarrow> wrHeadPrevious pList (Some pNode) m3;
     addCount pList 1 m4 }"

definition ellConcat :: "addr \<Rightarrow> addr \<Rightarrow> mem \<Rightarrow> mem option" where
  "ellConcat pDstList pAddList m0 = do {
     a \<leftarrow> lists m0 pAddList;
     if lcount a = 0 then Some m0
     else do {
       d \<leftarrow> lists m0 pDstList;
       m4 \<leftarrow> (if lcount d = 0 then do {
                 m1 \<leftarrow> wrHeadNext pDstList (head_next a) m0;
                 m2 \<leftarrow> wrHeadPrevious pDstList (head_previous a) m1;
                 updList (\<lambda>h. h\<lparr>lcount := lcount a\<rparr>) pDstList m2 }
             else do {
                 m1 \<leftarrow> wrNext (head_previous d) (head_next a) m0;
                 m2 \<leftarrow> wrPrevious (head_next a) (head_previous d) m1;
                 m3 \<leftarrow> wrHeadPrevious pDstList (head_previous a) m2;
                 addCount pDstList (lcount a) m3 });
       m5 \<leftarrow> updList (\<lambda>h. h\<lparr>lcount := 0\<rparr>) pAddList m4;
       m6 \<leftarrow> wrHeadNext pAddList None m5;
       wrHeadPrevious pAddList None m6 } }"

definition ellCount :: "addr \<Rightarrow> mem \<Rightarrow> int option" where
  "ellCount pList m = do { h \<leftarrow> lists m pList; Some (lcount h) }"

definition ellDelete :: "addr \<Rightarrow> addr \<Rightarrow> mem \<Rightarrow> mem option" where
  "ellDelete pList pNode m0 = do {
     h \<leftarrow> lists m0 pList;
     n \<leftarrow> rdNode m0 (Some pNode);
     m1 \<leftarrow> (if head_previous h = Some pNode then wrHeadPrevious pList (node_previous n) m0
           else wrPrevious (node_next n) (node_previous n) m0);
     h1 \<leftarrow> lists m1 pList;
     n1 \<leftarrow> rdNode m1 (Some pNode);
     m2 \<leftarrow> (if head_next h1 = Some pNode then wrHeadNext pList (node_next n1) m1
           else wrNext (node_previous n1) (node_next n1) m1);
     addCount pList (- 1) m2 }"

text \<open>The counting loop of \<open>ellExtract\<close>: \<open>while (pnode != pEndNode)\<close>.\<close>

partial_function (option) walkCount :: "mem \<Rightarrow> ptr \<Rightarrow> ptr \<Rightarrow> int \<Rightarrow> int option" where
  "walkCount m p q c =
     (if p = q then Some c
      else do { n \<leftarrow> rdNode m p; walkCount m (node_next n) q (c + 1) })"

text \<open>\<open>ellExtract\<close> in its three steps: cut the nodes out, place them, adjust the counts.\<close>

definition extractCut :: "addr \<Rightarrow> addr \<Rightarrow> addr \<Rightarrow> mem \<Rightarrow> mem option" where
  "extractCut pSrcList pStartNode pEndNode m0 = do {
     s \<leftarrow> rdNode m0 (Some pStartNode);
     e \<leftarrow> rdNode m0 (Some pEndNode);
     m1 \<leftarrow> (if node_previous s \<noteq> None then wrNext (node_previous s) (node_next e) m0
           else wrHeadNext pSrcList (node_next e) m0);
     e1 \<leftarrow> rdNode m1 (Some pEndNode);
     s1 \<leftarrow> rdNode m1 (Some pStartNode);
     if node_next e1 \<noteq> None then do {
       m \<leftarrow> wrPrevious (node_next e1) (node_previous s1) m1;
       wrNext (Some pEndNode) None m }
     else wrHeadPrevious pSrcList (node_previous s1) m1 }"

definition extractPlace :: "addr \<Rightarrow> addr \<Rightarrow> addr \<Rightarrow> mem \<Rightarrow> mem option" where
  "extractPlace pStartNode pEndNode pDstList m2 = do {
     d \<leftarrow> lists m2 pDstList;
     m3 \<leftarrow> wrPrevious (Some pStartNode) (head_previous d) m2;
     m4 \<leftarrow> (if lcount d \<noteq> 0 then wrNext (head_previous d) (Some pStartNode) m3
           else wrHeadNext pDstList (Some pStartNode) m3);
     wrHeadPrevious pDstList (Some pEndNode) m4 }"

definition ellExtract :: "addr \<Rightarrow> addr \<Rightarrow> addr \<Rightarrow> addr \<Rightarrow> mem \<Rightarrow> mem option" where
  "ellExtract pSrcList pStartNode pEndNode pDstList m0 = do {
     m2 \<leftarrow> extractCut pSrcList pStartNode pEndNode m0;
     m5 \<leftarrow> extractPlace pStartNode pEndNode pDstList m2;
     c \<leftarrow> walkCount m5 (Some pStartNode) (Some pEndNode) 1;
     m6 \<leftarrow> addCount pSrcList (- c) m5;
     addCount pDstList c m6 }"

definition ellFirst :: "addr \<Rightarrow> mem \<Rightarrow> ptr option" where
  "ellFirst pList m = do { h \<leftarrow> lists m pList; Some (head_next h) }"

definition ellGet :: "addr \<Rightarrow> mem \<Rightarrow> (ptr \<times> mem) option" where
  "ellGet pList m = do {
     h \<leftarrow> lists m pList;
     case head_next h of
       None \<Rightarrow> Some (None, m)
     | Some n \<Rightarrow> do { m' \<leftarrow> ellDelete pList n m; Some (Some n, m') } }"

definition ellInsert :: "addr \<Rightarrow> ptr \<Rightarrow> addr \<Rightarrow> mem \<Rightarrow> mem option" where
  "ellInsert plist pPrev pNode m0 = do {
     m3 \<leftarrow> (if pPrev \<noteq> None then do {
              m1 \<leftarrow> wrPrevious (Some pNode) pPrev m0;
              p \<leftarrow> rdNode m1 pPrev;
              m2 \<leftarrow> wrNext (Some pNode) (node_next p) m1;
              wrNext pPrev (Some pNode) m2 }
           else do {
              m1 \<leftarrow> wrPrevious (Some pNode) None m0;
              h \<leftarrow> lists m1 plist;
              m2 \<leftarrow> wrNext (Some pNode) (head_next h) m1;
              wrHeadNext plist (Some pNode) m2 });
     n \<leftarrow> rdNode m3 (Some pNode);
     m4 \<leftarrow> (if node_next n = None then wrHeadPrevious plist (Some pNode) m3
           else wrPrevious (node_next n) (Some pNode) m3);
     addCount plist 1 m4 }"

definition ellLast :: "addr \<Rightarrow> mem \<Rightarrow> ptr option" where
  "ellLast pList m = do { h \<leftarrow> lists m pList; Some (head_previous h) }"

definition ellNext :: "ptr \<Rightarrow> mem \<Rightarrow> ptr option" where
  "ellNext pNode m = do { n \<leftarrow> rdNode m pNode; Some (node_next n) }"

definition ellPrevious :: "ptr \<Rightarrow> mem \<Rightarrow> ptr option" where
  "ellPrevious pNode m = do { n \<leftarrow> rdNode m pNode; Some (node_previous n) }"

fun walkNext :: "mem \<Rightarrow> ptr \<Rightarrow> nat \<Rightarrow> ptr option" where
  "walkNext m p 0 = Some p"
| "walkNext m p (Suc k) = do { n \<leftarrow> rdNode m p; walkNext m (node_next n) k }"

fun walkPrevious :: "mem \<Rightarrow> ptr \<Rightarrow> nat \<Rightarrow> ptr option" where
  "walkPrevious m p 0 = Some p"
| "walkPrevious m p (Suc k) = do { n \<leftarrow> rdNode m p; walkPrevious m (node_previous n) k }"

text \<open>The loop \<open>while(--nodeNum > 0)\<close> runs \<open>nodeNum - 1\<close> times when \<open>1 \<le> nodeNum\<close>.\<close>

definition ellNth :: "addr \<Rightarrow> int \<Rightarrow> mem \<Rightarrow> ptr option" where
  "ellNth pList nodeNum m = do {
     h \<leftarrow> lists m pList;
     if nodeNum < 1 \<or> lcount h = 0 then Some None
     else if nodeNum > cdiv (lcount h) 2 then
       (if nodeNum > lcount h then Some None
        else walkPrevious m (head_previous h) (nat (lcount h - nodeNum)))
     else walkNext m (head_next h) (nat (nodeNum - 1)) }"

fun stepNext :: "mem \<Rightarrow> ptr \<Rightarrow> nat \<Rightarrow> ptr option" where
  "stepNext m p 0 = Some p"
| "stepNext m None (Suc k) = Some None"
| "stepNext m (Some a) (Suc k) = do { n \<leftarrow> rdNode m (Some a); stepNext m (node_next n) k }"

fun stepPrevious :: "mem \<Rightarrow> ptr \<Rightarrow> nat \<Rightarrow> ptr option" where
  "stepPrevious m p 0 = Some p"
| "stepPrevious m None (Suc k) = Some None"
| "stepPrevious m (Some a) (Suc k) =
     do { n \<leftarrow> rdNode m (Some a); stepPrevious m (node_previous n) k }"

definition ellNStep :: "ptr \<Rightarrow> int \<Rightarrow> mem \<Rightarrow> ptr option" where
  "ellNStep pNode nStep m =
     (if nStep > 0 then stepNext m pNode (nat nStep)
      else stepPrevious m pNode (nat (- nStep)))"

partial_function (option) findLoop :: "mem \<Rightarrow> ptr \<Rightarrow> ptr \<Rightarrow> int \<Rightarrow> (ptr \<times> int) option" where
  "findLoop m got pNode c =
     (if got \<noteq> pNode \<and> got \<noteq> None
      then do { n \<leftarrow> rdNode m got; findLoop m (node_next n) pNode (c + 1) }
      else Some (got, c))"

definition ellFind :: "addr \<Rightarrow> ptr \<Rightarrow> mem \<Rightarrow> int option" where
  "ellFind pList pNode m = do {
     h \<leftarrow> lists m pList;
     (got, c) \<leftarrow> findLoop m (head_next h) pNode 1;
     Some (if got = None then - 1 else c) }"

partial_function (option) freeLoop :: "mem \<Rightarrow> ptr \<Rightarrow> mem option" where
  "freeLoop m nnode =
     (case nnode of
        None \<Rightarrow> Some m
      | Some a \<Rightarrow> do {
          n \<leftarrow> rdNode m nnode;
          freeLoop (m\<lparr>nodes := (nodes m)(a := None)\<rparr>) (node_next n) })"

definition ellFree :: "addr \<Rightarrow> mem \<Rightarrow> mem option" where
  "ellFree pList m0 = do {
     h \<leftarrow> lists m0 pList;
     m1 \<leftarrow> freeLoop m0 (head_next h);
     ellInit pList m1 }"

text \<open>
  \<open>ellVerify\<close> is a chain of \<open>assert\<close>s: \<open>Some True\<close> when all hold, \<open>Some False\<close> when one fails
  (the process aborts).
\<close>

partial_function (option) verifyLoop :: "mem \<Rightarrow> ptr \<Rightarrow> int \<Rightarrow> (bool \<times> ptr \<times> int) option" where
  "verifyLoop m pNode c = do {
     pNext \<leftarrow> ellNext pNode m;
     if pNext \<noteq> None then do {
       back \<leftarrow> ellPrevious pNext m;
       if back = pNode then verifyLoop m pNext (c + 1) else Some (False, pNode, c + 1) }
     else Some (True, pNode, c + 1) }"

definition ellVerify :: "addr \<Rightarrow> mem \<Rightarrow> bool option" where
  "ellVerify pList m = do {
     pFirst \<leftarrow> ellFirst pList m;
     (ok, pNode, c) \<leftarrow> (if pFirst \<noteq> None then do {
        back \<leftarrow> ellPrevious pFirst m;
        if back \<noteq> None then Some (False, pFirst, 0) else verifyLoop m pFirst 0 }
      else Some (True, pFirst, 0));
     pLast \<leftarrow> ellLast pList m;
     n \<leftarrow> ellCount pList m;
     Some (ok \<and> pNode = pLast \<and> c = n) }"


section \<open>Well-formed lists\<close>

definition firstP :: "addr list \<Rightarrow> ptr \<Rightarrow> ptr" where
  "firstP xs q = (case xs of [] \<Rightarrow> q | y # ys \<Rightarrow> Some y)"

definition lastP :: "ptr \<Rightarrow> addr list \<Rightarrow> ptr" where
  "lastP p xs = (if xs = [] then p else Some (last xs))"

text \<open>
  \<open>dseg h p xs q\<close>: the nodes \<open>xs\<close> are linked in this order, the first one's \<open>previous\<close> is \<open>p\<close>
  and the last one's \<open>next\<close> is \<open>q\<close>.
\<close>

fun dseg :: "(addr \<rightharpoonup> ellnode) \<Rightarrow> ptr \<Rightarrow> addr list \<Rightarrow> ptr \<Rightarrow> bool" where
  "dseg h p [] q = True"
| "dseg h p (x # xs) q =
     (h x = Some \<lparr>node_next = firstP xs q, node_previous = p\<rparr> \<and> dseg h (Some x) xs q)"

text \<open>\<open>ell m l xs\<close>: the header at \<open>l\<close> holds the list of the nodes \<open>xs\<close>.\<close>

definition ell :: "mem \<Rightarrow> addr \<Rightarrow> addr list \<Rightarrow> bool" where
  "ell m l xs \<longleftrightarrow>
     lists m l = Some \<lparr>head_next = firstP xs None, head_previous = lastP None xs,
                        lcount = int (length xs)\<rparr>
     \<and> dseg (nodes m) None xs None \<and> distinct xs"

text \<open>What an operation leaves alone: other headers, other nodes; no node appears or vanishes.\<close>

definition frame :: "mem \<Rightarrow> mem \<Rightarrow> addr set \<Rightarrow> addr set \<Rightarrow> bool" where
  "frame m m' L N \<longleftrightarrow>
     (\<forall>l. l \<notin> L \<longrightarrow> lists m' l = lists m l) \<and> (\<forall>a. a \<notin> N \<longrightarrow> nodes m' a = nodes m a)
     \<and> dom (nodes m') = dom (nodes m)"

lemmas mem_ops = rdNode_def updNode_def wrNext_def wrPrevious_def updList_def wrHeadNext_def
  wrHeadPrevious_def addCount_def

declare mem_ops [c_mem]

lemma firstP_simps [simp]:
  "firstP [] q = q" "firstP (x # xs) q = Some x"
  "firstP (xs @ ys) q = firstP xs (firstP ys q)"
  by (auto simp: firstP_def split: list.split)

lemma lastP_simps [simp]:
  "lastP p [] = p" "lastP p (xs @ [x]) = Some x" "lastP p (x # xs) = lastP (Some x) xs"
  "lastP p (xs @ ys) = lastP (lastP p xs) ys"
  by (auto simp: lastP_def)

lemma firstP_None [simp]: "firstP xs None = None \<longleftrightarrow> xs = []"
  by (cases xs) auto

lemma lastP_None [simp]: "lastP None xs = None \<longleftrightarrow> xs = []"
  by (auto simp: lastP_def)

lemma lastP_Some_dest: "lastP (Some y) xs = Some a \<Longrightarrow> a = y \<or> a \<in> set xs"
  by (auto simp: lastP_def split: if_splits)

lemma firstP_Some_dest: "firstP xs (Some y) = Some a \<Longrightarrow> a = y \<or> a \<in> set xs"
  by (auto simp: firstP_def split: list.splits)

lemmas link_dests = firstP_Some_dest lastP_Some_dest

lemma dseg_append [simp]:
  "dseg h p (xs @ ys) q \<longleftrightarrow> dseg h p xs (firstP ys q) \<and> dseg h (lastP p xs) ys q"
  by (induction xs arbitrary: p) auto

lemma dseg_upd [simp]: "a \<notin> set xs \<Longrightarrow> dseg (h(a := v)) p xs q = dseg h p xs q"
  by (induction xs arbitrary: p) auto

lemma dseg_cong: "(\<And>a. a \<in> set xs \<Longrightarrow> h a = h' a) \<Longrightarrow> dseg h p xs q = dseg h' p xs q"
  by (induction xs arbitrary: p) auto

lemma dseg_dom: "dseg h p xs q \<Longrightarrow> a \<in> set xs \<Longrightarrow> h a \<noteq> None"
  by (induction xs arbitrary: p) auto

lemma dseg_nth:
  "dseg h p xs q \<Longrightarrow> i < length xs \<Longrightarrow>
   h (xs ! i) = Some \<lparr>node_next = firstP (drop (Suc i) xs) q, node_previous = lastP p (take i xs)\<rparr>"
proof (induction xs arbitrary: p i)
  case (Cons x xs)
  then show ?case by (cases i) auto
qed simp

lemma ell_frame:
  assumes "ell m k ys" and "frame m m' L N" and "k \<notin> L" and "set ys \<inter> N = {}"
  shows "ell m' k ys"
proof -
  have "dseg (nodes m') None ys None = dseg (nodes m) None ys None"
    using assms by (intro dseg_cong) (auto simp: frame_def)
  then show ?thesis using assms by (auto simp: ell_def frame_def)
qed

lemma ell_unique: "ell m l xs \<Longrightarrow> ell m l ys \<Longrightarrow> xs = ys"
proof -
  have *: "dseg h p xs None \<Longrightarrow> dseg h p ys None \<Longrightarrow> firstP xs None = firstP ys None \<Longrightarrow> xs = ys"
    for h p xs ys
  proof (induction xs arbitrary: p ys)
    case Nil
    then show ?case by (cases ys) auto
  next
    case (Cons x xs)
    then show ?case by (cases ys) auto
  qed
  assume "ell m l xs" "ell m l ys"
  then show "xs = ys" using * by (auto simp: ell_def)
qed

section \<open>The operations on well-formed lists\<close>

lemma ellInit_spec:
  "lists m l \<noteq> None \<Longrightarrow> \<exists>m'. ellInit l m = Some m' \<and> ell m' l [] \<and> frame m m' {l} {}"
  by (auto simp: ellInit_def c_mem ell_def frame_def)

lemma ellAdd_spec:
  assumes "ell m l xs" and "n \<notin> set xs" and "nodes m n \<noteq> None"
  shows "\<exists>m'. ellAdd l n m = Some m' \<and> ell m' l (xs @ [n]) \<and> frame m m' {l} (insert n (set xs))"
proof (cases xs rule: rev_cases)
  case Nil
  then show ?thesis using assms
    by (auto simp: ellAdd_def c_mem ell_def frame_def)
next
  case (snoc ys y)
  then show ?thesis using assms
    by (auto simp: ellAdd_def c_mem ell_def frame_def)
qed

lemma ellDelete_spec:
  assumes "ell m l (xs @ n # ys)"
  shows "\<exists>m'. ellDelete l n m = Some m' \<and> ell m' l (xs @ ys)
              \<and> frame m m' {l} (set xs \<union> set ys)"
proof (cases xs rule: rev_cases; cases ys)
  fix y ys'
  assume "xs = []" "ys = y # ys'"
  then show ?thesis using assms
    by (auto simp: ellDelete_def c_mem ell_def frame_def dest: link_dests)
next
  fix xs' x
  assume "xs = xs' @ [x]" "ys = []"
  then show ?thesis using assms
    by (auto simp: ellDelete_def c_mem ell_def frame_def dest: link_dests)
next
  fix xs' x y ys'
  assume "xs = xs' @ [x]" "ys = y # ys'"
  then show ?thesis using assms by (auto simp: ellDelete_def c_mem ell_def frame_def dest: link_dests)
qed (use assms in \<open>auto simp: ellDelete_def c_mem ell_def frame_def dest: link_dests\<close>)


lemma ellGet_Nil: "ell m l [] \<Longrightarrow> ellGet l m = Some (None, m)"
  by (auto simp: ellGet_def ell_def)

lemma ellGet_Cons:
  assumes "ell m l (x # xs)"
  shows "\<exists>m'. ellGet l m = Some (Some x, m') \<and> ell m' l xs \<and> frame m m' {l} (set xs)"
proof -
  have h: "lists m l = Some \<lparr>head_next = Some x, head_previous = lastP None (x # xs),
      lcount = int (length (x # xs))\<rparr>"
    using assms by (simp add: ell_def)
  obtain m' where "ellDelete l x m = Some m'" "ell m' l xs" "frame m m' {l} (set xs)"
    using ellDelete_spec[of m l "[]" x xs] assms by auto
  with h show ?thesis by (simp add: ellGet_def)
qed

lemma ellInsert_head:
  assumes "ell m l xs" and "n \<notin> set xs" and "nodes m n \<noteq> None"
  shows "\<exists>m'. ellInsert l None n m = Some m' \<and> ell m' l (n # xs)
              \<and> frame m m' {l} (insert n (set xs))"
proof (cases xs)
  case Nil
  then show ?thesis using assms by (auto simp: ellInsert_def c_mem ell_def frame_def)
next
  case (Cons y ys)
  then show ?thesis using assms by (auto simp: ellInsert_def c_mem ell_def frame_def)
qed

lemma ellInsert_after:
  assumes "ell m l (xs @ p # ys)" and "n \<notin> set (xs @ p # ys)" and "nodes m n \<noteq> None"
  shows "\<exists>m'. ellInsert l (Some p) n m = Some m' \<and> ell m' l (xs @ p # n # ys)
              \<and> frame m m' {l} (insert n (set (p # ys)))"
proof (cases ys)
  case Nil
  then show ?thesis using assms by (auto simp: ellInsert_def c_mem ell_def frame_def)
next
  case (Cons y ys')
  then show ?thesis using assms by (auto simp: ellInsert_def c_mem ell_def frame_def)
qed

lemma ellConcat_spec:
  assumes "ell m d xs" and "ell m a ys" and "set xs \<inter> set ys = {}" and "a \<noteq> d"
  shows "\<exists>m'. ellConcat d a m = Some m' \<and> ell m' d (xs @ ys) \<and> ell m' a []
              \<and> frame m m' {a, d} (set xs \<union> set ys)"
proof (cases xs rule: rev_cases; cases ys)
  fix y ys'
  assume "xs = []" "ys = y # ys'"
  then show ?thesis using assms by (auto simp: ellConcat_def c_mem ell_def frame_def)
next
  fix xs' x y ys'
  assume "xs = xs' @ [x]" "ys = y # ys'"
  then show ?thesis using assms by (auto simp: ellConcat_def c_mem ell_def frame_def)
qed (use assms in \<open>auto simp: ellConcat_def c_mem ell_def frame_def\<close>)

lemma ellFirst_spec: "ell m l xs \<Longrightarrow> ellFirst l m = Some (firstP xs None)"
  by (simp add: ellFirst_def ell_def)

lemma ellLast_spec: "ell m l xs \<Longrightarrow> ellLast l m = Some (lastP None xs)"
  by (simp add: ellLast_def ell_def)

lemma ellCount_spec: "ell m l xs \<Longrightarrow> ellCount l m = Some (int (length xs))"
  by (simp add: ellCount_def ell_def)

lemma ellNext_spec: "ell m l (xs @ x # ys) \<Longrightarrow> ellNext (Some x) m = Some (firstP ys None)"
  by (simp add: ellNext_def c_mem ell_def)

lemma ellPrevious_spec: "ell m l (xs @ x # ys) \<Longrightarrow> ellPrevious (Some x) m = Some (lastP None xs)"
  by (simp add: ellPrevious_def c_mem ell_def)

subsection \<open>Walks\<close>

lemma walkNext_dseg:
  "dseg (nodes m) p xs q \<Longrightarrow> k \<le> length xs \<Longrightarrow>
   walkNext m (firstP xs q) k = Some (firstP (drop k xs) q)"
proof (induction xs arbitrary: p k)
  case (Cons x xs)
  then show ?case by (cases k) (auto simp: c_mem)
qed simp

lemma walkPrevious_dseg:
  "dseg (nodes m) p xs q \<Longrightarrow> k \<le> length xs \<Longrightarrow>
   walkPrevious m (lastP p xs) k = Some (lastP p (take (length xs - k) xs))"
proof (induction xs arbitrary: q k rule: rev_induct)
  case (snoc x xs)
  then show ?case by (cases k) (auto simp: c_mem)
qed simp

text \<open>\<open>nodeAt xs i\<close>: the \<open>i\<close>-th node counting from 1, \<open>NULL\<close> out of range.\<close>

definition nodeAt :: "addr list \<Rightarrow> int \<Rightarrow> ptr" where
  "nodeAt xs i = (if 1 \<le> i \<and> i \<le> int (length xs) then Some (xs ! (nat i - 1)) else None)"

lemma firstP_drop: "k < length xs \<Longrightarrow> firstP (drop k xs) q = Some (xs ! k)"
  by (simp add: firstP_def Cons_nth_drop_Suc[symmetric])

lemma lastP_take: "0 < k \<Longrightarrow> k \<le> length xs \<Longrightarrow> lastP p (take k xs) = Some (xs ! (k - 1))"
  by (auto simp: lastP_def last_conv_nth)

lemma ellNth_spec:
  assumes "ell m l xs"
  shows "ellNth l i m = Some (nodeAt xs i)"
proof -
  have h: "lists m l = Some \<lparr>head_next = firstP xs None, head_previous = lastP None xs,
      lcount = int (length xs)\<rparr>" and d: "dseg (nodes m) None xs None"
    using assms by (auto simp: ell_def)
  consider "i < 1 \<or> xs = []" | "1 \<le> i" "xs \<noteq> []" "i > int (length xs)"
    | "1 \<le> i" "xs \<noteq> []" "i \<le> int (length xs)" "i > int (length xs) div 2"
    | "1 \<le> i" "xs \<noteq> []" "i \<le> int (length xs)" "i \<le> int (length xs) div 2" by linarith
  then show ?thesis
  proof cases
    case 3
    let ?k = "nat (int (length xs) - i)"
    have "walkPrevious m (lastP None xs) ?k = Some (lastP None (take (length xs - ?k) xs))"
      using walkPrevious_dseg[OF d, of ?k] 3 by simp
    also have "length xs - ?k = nat i" using 3 by linarith
    also have "lastP None (take (nat i) xs) = Some (xs ! (nat i - 1))"
      using 3 by (intro lastP_take) auto
    finally show ?thesis using 3 h by (simp add: ellNth_def nodeAt_def cdiv_nonneg)
  next
    case 4
    have "nat (i - 1) < length xs" "nat (i - 1) = nat i - 1" using 4 by auto
    with 4 h show ?thesis using walkNext_dseg[OF d, of "nat (i - 1)"]
      by (simp add: ellNth_def nodeAt_def cdiv_nonneg firstP_drop)
  qed (use h in \<open>auto simp: ellNth_def nodeAt_def cdiv_nonneg\<close>)
qed

lemma stepNext_dseg:
  "dseg (nodes m) p xs None \<Longrightarrow> stepNext m (firstP xs None) k = Some (firstP (drop k xs) None)"
proof (induction xs arbitrary: p k)
  case Nil
  then show ?case by (cases k) auto
next
  case (Cons x xs)
  then show ?case by (cases k) (auto simp: c_mem)
qed

lemma stepPrevious_dseg:
  "dseg (nodes m) None xs q \<Longrightarrow>
   stepPrevious m (lastP None xs) k = Some (lastP None (take (length xs - k) xs))"
proof (induction xs arbitrary: q k rule: rev_induct)
  case Nil
  then show ?case by (cases k) auto
next
  case (snoc x xs)
  then show ?case by (cases k) (auto simp: c_mem)
qed

lemma ellNStep_spec:
  assumes e: "ell m l xs" and i: "i < length xs"
  shows "ellNStep (Some (xs ! i)) k m = Some (nodeAt xs (int i + 1 + k))"
proof -
  have d: "dseg (nodes m) None (take i xs @ xs ! i # drop (Suc i) xs) None"
    using e i by (simp add: ell_def id_take_nth_drop[symmetric])
  show ?thesis
  proof (cases "k > 0")
    case True
    have "dseg (nodes m) (lastP None (take i xs)) (drop i xs) None"
      using d i Cons_nth_drop_Suc[OF i] dseg_append by metis
    from stepNext_dseg[OF this, of "nat k"]
    have "stepNext m (Some (xs ! i)) (nat k) = Some (firstP (drop (i + nat k) xs) None)"
      using i by (simp add: firstP_drop add.commute)
    moreover have "firstP (drop (i + nat k) xs) None = nodeAt xs (int i + 1 + k)"
    proof (cases "i + nat k < length xs")
      case True
      moreover have "nat (int i + 1 + k) - 1 = i + nat k" using \<open>k > 0\<close> by linarith
      ultimately show ?thesis using \<open>k > 0\<close> by (auto simp: nodeAt_def firstP_drop)
    next
      case False
      then show ?thesis using \<open>k > 0\<close> by (auto simp: nodeAt_def)
    qed
    ultimately show ?thesis using True by (simp add: ellNStep_def)
  next
    case False
    have "dseg (nodes m) None (take (Suc i) xs) (firstP (drop (Suc i) xs) None)"
      using d i by (simp add: take_Suc_conv_app_nth)
    from stepPrevious_dseg[OF this, of "nat (- k)"]
    have "stepPrevious m (Some (xs ! i)) (nat (- k)) = Some (lastP None (take (Suc i - nat (- k)) xs))"
      using i by (simp add: lastP_take)
    moreover have "lastP None (take (Suc i - nat (- k)) xs) = nodeAt xs (int i + 1 + k)"
    proof (cases "nat (- k) \<le> i")
      case True
      moreover from this have "nat (int i + 1 + k) - 1 = Suc i - nat (- k) - 1"
        using False by linarith
      ultimately show ?thesis using i False by (auto simp: nodeAt_def lastP_take)
    next
      case c: False
      then show ?thesis using False by (auto simp: nodeAt_def)
    qed
    ultimately show ?thesis using False by (simp add: ellNStep_def)
  qed
qed


subsection \<open>Searching, freeing and verifying\<close>

lemma findLoop_absent:
  "dseg (nodes m) p xs None \<Longrightarrow> n \<notin> set xs \<Longrightarrow>
   findLoop m (firstP xs None) (Some n) c = Some (None, c + int (length xs))"
proof (induction xs arbitrary: p c)
  case Nil
  then show ?case by (simp add: findLoop.simps)
next
  case (Cons x xs)
  then show ?case
    by (subst findLoop.simps) (auto simp: c_mem algebra_simps)
qed

lemma findLoop_present:
  "dseg (nodes m) p (xs @ n # ys) None \<Longrightarrow> n \<notin> set xs \<Longrightarrow>
   findLoop m (firstP (xs @ n # ys) None) (Some n) c = Some (Some n, c + int (length xs))"
proof (induction xs arbitrary: p c)
  case Nil
  then show ?case by (simp add: findLoop.simps)
next
  case (Cons x xs)
  then show ?case
    by (subst findLoop.simps) (auto simp: c_mem algebra_simps)
qed

lemma ellFind_absent: "ell m l xs \<Longrightarrow> n \<notin> set xs \<Longrightarrow> ellFind l (Some n) m = Some (- 1)"
  using findLoop_absent[of m None xs n 1] by (auto simp: ellFind_def ell_def)

lemma ellFind_present:
  "ell m l (xs @ n # ys) \<Longrightarrow> ellFind l (Some n) m = Some (int (length xs) + 1)"
  using findLoop_present[of m None xs n ys 1] by (auto simp: ellFind_def ell_def)

lemma freeLoop_dseg:
  "dseg (nodes m) p xs None \<Longrightarrow> distinct xs \<Longrightarrow>
   freeLoop m (firstP xs None) = Some (m\<lparr>nodes := nodes m |` (- set xs)\<rparr>)"
proof (induction xs arbitrary: p m)
  case Nil
  then show ?case by (simp add: freeLoop.simps)
next
  case (Cons x xs)
  let ?m = "m\<lparr>nodes := (nodes m)(x := None)\<rparr>"
  have "freeLoop ?m (firstP xs None) = Some (?m\<lparr>nodes := nodes ?m |` (- set xs)\<rparr>)"
    using Cons.prems dseg_upd[of x xs] by (intro Cons.IH[of _ "Some x"]) (simp_all del: fun_upd_apply)
  moreover have "(nodes m)(x := None) |` (- set xs) = nodes m |` (- set (x # xs))"
    by (auto simp: restrict_map_def fun_eq_iff)
  ultimately show ?case using Cons.prems
    by (subst freeLoop.simps) (auto simp: c_mem)
qed

lemma ellFree_spec:
  assumes "ell m l xs"
  shows "\<exists>m'. ellFree l m = Some m' \<and> ell m' l []
              \<and> nodes m' = nodes m |` (- set xs) \<and> (\<forall>k. k \<noteq> l \<longrightarrow> lists m' k = lists m k)"
  using assms freeLoop_dseg[of m None xs]
  by (auto simp: ellFree_def ell_def ellInit_def updList_def wrHeadNext_def wrHeadPrevious_def)

lemma verifyLoop_dseg:
  "dseg (nodes m) p (x # xs) None \<Longrightarrow>
   verifyLoop m (Some x) c = Some (True, lastP (Some x) xs, c + int (length xs) + 1)"
proof (induction xs arbitrary: p x c)
  case Nil
  then show ?case by (subst verifyLoop.simps) (auto simp: ellNext_def c_mem)
next
  case (Cons y ys)
  then show ?case
    by (subst verifyLoop.simps) (auto simp: ellNext_def ellPrevious_def c_mem algebra_simps)
qed

lemma ellVerify_spec: "ell m l xs \<Longrightarrow> ellVerify l m = Some True"
  using verifyLoop_dseg[of m None "hd xs" "tl xs" 0]
  by (cases xs)
    (auto simp: ellVerify_def ell_def ellFirst_def ellLast_def ellCount_def ellPrevious_def c_mem)

subsection \<open>Extraction\<close>

lemma walkCount_dseg:
  "dseg (nodes m) p (xs @ [e]) q \<Longrightarrow> e \<notin> set xs \<Longrightarrow>
   walkCount m (firstP (xs @ [e]) q) (Some e) c = Some (c + int (length xs))"
proof (induction xs arbitrary: p c)
  case Nil
  then show ?case by (simp add: walkCount.simps)
next
  case (Cons x xs)
  then show ?case
    by (subst walkCount.simps) (auto simp: c_mem algebra_simps)
qed


lemma ends_cases:
  assumes "ys \<noteq> []"
  obtains a where "ys = [a]" | a mid b where "ys = a # mid @ [b]"
  using assms by (metis list.exhaust rev_exhaust)

lemma extractCut_spec:
  assumes e: "ell m s (xs @ ys @ zs)" and ne: "ys \<noteq> []"
  shows "\<exists>m2. extractCut s (hd ys) (last ys) m = Some m2
     \<and> lists m2 s = Some \<lparr>head_next = firstP (xs @ zs) None, head_previous = lastP None (xs @ zs),
                        lcount = int (length (xs @ ys @ zs))\<rparr>
     \<and> dseg (nodes m2) None (xs @ zs) None \<and> dseg (nodes m2) (lastP None xs) ys None
     \<and> frame m m2 {s} (set (xs @ ys @ zs))"
  using ne
proof (cases ys rule: ends_cases)
  case (1 a)
  then show ?thesis using e
    by (cases xs rule: rev_cases; cases zs; auto simp: extractCut_def c_mem ell_def frame_def)
next
  case (2 a mid b)
  then show ?thesis using e
    by (cases xs rule: rev_cases; cases zs; auto simp: extractCut_def c_mem ell_def frame_def)
qed

lemma extractPlace_spec:
  assumes e: "ell m d ws" and ne: "ys \<noteq> []" and ds: "dseg (nodes m) p ys None"
    and di: "distinct (ws @ ys)"
  shows "\<exists>m5. extractPlace (hd ys) (last ys) d m = Some m5
     \<and> lists m5 d = Some \<lparr>head_next = firstP (ws @ ys) None, head_previous = lastP None (ws @ ys),
                        lcount = int (length ws)\<rparr>
     \<and> dseg (nodes m5) None (ws @ ys) None \<and> frame m m5 {d} (set (ws @ ys))"
  using ne
proof (cases ys rule: ends_cases)
  case (1 a)
  then show ?thesis using e ds di
    by (cases ws rule: rev_cases; auto simp: extractPlace_def c_mem ell_def frame_def)
next
  case (2 a mid b)
  then show ?thesis using e ds di
    by (cases ws rule: rev_cases; auto simp: extractPlace_def c_mem ell_def frame_def)
qed

lemma ellExtract_spec:
  assumes e: "ell m s (xs @ ys @ zs)" and d: "ell m d ws" and ne: "ys \<noteq> []" and sd: "s \<noteq> d"
    and disj: "set (xs @ ys @ zs) \<inter> set ws = {}"
  shows "\<exists>m'. ellExtract s (hd ys) (last ys) d m = Some m'
              \<and> ell m' s (xs @ zs) \<and> ell m' d (ws @ ys)
              \<and> frame m m' {s, d} (set (xs @ ys @ zs) \<union> set ws)"
proof -
  obtain m2 where cut: "extractCut s (hd ys) (last ys) m = Some m2"
    and s2: "lists m2 s = Some \<lparr>head_next = firstP (xs @ zs) None,
        head_previous = lastP None (xs @ zs), lcount = int (length (xs @ ys @ zs))\<rparr>"
    and xz: "dseg (nodes m2) None (xs @ zs) None" and y2: "dseg (nodes m2) (lastP None xs) ys None"
    and f2: "frame m m2 {s} (set (xs @ ys @ zs))"
    using extractCut_spec[OF e ne] by blast
  have d2: "ell m2 d ws" using ell_frame[OF d f2] sd disj by auto
  have dist: "distinct (xs @ ys @ zs)" "distinct ws" using e d by (auto simp: ell_def)
  obtain m5 where place: "extractPlace (hd ys) (last ys) d m2 = Some m5"
    and d5: "lists m5 d = Some \<lparr>head_next = firstP (ws @ ys) None,
        head_previous = lastP None (ws @ ys), lcount = int (length ws)\<rparr>"
    and wy: "dseg (nodes m5) None (ws @ ys) None" and f5: "frame m2 m5 {d} (set (ws @ ys))"
    using extractPlace_spec[OF d2 ne y2] dist disj by auto
  have c: "walkCount m5 (Some (hd ys)) (Some (last ys)) 1 = Some (int (length ys))"
  proof -
    obtain us u where ys: "ys = us @ [u]" using ne by (cases ys rule: rev_cases) auto
    have "dseg (nodes m5) (lastP None ws) (us @ [u]) None" "u \<notin> set us"
      using wy dist ys by auto
    from walkCount_dseg[OF this, of 1] show ?thesis
      using ys by (cases us) auto
  qed
  have xz5: "dseg (nodes m5) None (xs @ zs) None"
    using xz f5 dist disj
    by (subst dseg_cong[where h' = "nodes m2"]) (auto simp: frame_def)
  have s5: "lists m5 s = lists m2 s" using f5 sd by (auto simp: frame_def)
  let ?ms = "m5\<lparr>lists := (lists m5)
      (s \<mapsto> \<lparr>head_next = firstP (xs @ zs) None, head_previous = lastP None (xs @ zs),
            lcount = int (length (xs @ zs))\<rparr>,
       d \<mapsto> \<lparr>head_next = firstP (ws @ ys) None, head_previous = lastP None (ws @ ys),
            lcount = int (length (ws @ ys))\<rparr>)\<rparr>"
  have "ellExtract s (hd ys) (last ys) d m = Some ?ms"
    using cut place c s2 s5 d5 sd by (simp add: ellExtract_def c_mem fun_upd_twist add.commute)
  moreover have "ell ?ms s (xs @ zs)" "ell ?ms d (ws @ ys)"
    using xz5 wy dist disj sd by (auto simp: ell_def)
  moreover have "frame m ?ms {s, d} (set (xs @ ys @ zs) \<union> set ws)"
    using f2 f5 by (auto simp: frame_def)
  ultimately show ?thesis by blast
qed


section \<open>The list as a queue\<close>

interpretation ellq: node_queue ell "\<lambda>m n. nodes m n \<noteq> None" ellAdd ellGet
proof
  fix m l xs n
  assume "ell m l xs" "n \<notin> set xs" "nodes m n \<noteq> None"
  from ellAdd_spec[OF this] show "\<exists>m'. ellAdd l n m = Some m' \<and> ell m' l (xs @ [n])
      \<and> (\<forall>k. (nodes m' k \<noteq> None) = (nodes m k \<noteq> None))"
    by (auto simp: frame_def dom_def set_eq_iff)
next
  fix m l x xs
  assume "ell m l (x # xs)"
  from ellGet_Cons[OF this] show "\<exists>m'. ellGet l m = Some (Some x, m') \<and> ell m' l xs
      \<and> (\<forall>k. (nodes m' k \<noteq> None) = (nodes m k \<noteq> None))"
    by (auto simp: frame_def dom_def set_eq_iff)
qed (rule ellGet_Nil)

section \<open>Properties\<close>

text \<open>A small memory: list 20 holds the nodes 1, 2, 3, 4, list 21 holds node 5, node 6 is free.\<close>

definition demoMem :: mem where
  "demoMem = \<lparr>
     nodes = [1 \<mapsto> \<lparr>node_next = Some 2, node_previous = None\<rparr>,
              2 \<mapsto> \<lparr>node_next = Some 3, node_previous = Some 1\<rparr>,
              3 \<mapsto> \<lparr>node_next = Some 4, node_previous = Some 2\<rparr>,
              4 \<mapsto> \<lparr>node_next = None, node_previous = Some 3\<rparr>,
              5 \<mapsto> \<lparr>node_next = None, node_previous = None\<rparr>,
              6 \<mapsto> \<lparr>node_next = None, node_previous = None\<rparr>],
     lists = [20 \<mapsto> \<lparr>head_next = Some 1, head_previous = Some 4, lcount = 4\<rparr>,
              21 \<mapsto> \<lparr>head_next = Some 5, head_previous = Some 5, lcount = 1\<rparr>,
              22 \<mapsto> \<lparr>head_next = None, head_previous = None, lcount = 0\<rparr>]\<rparr>"

lemma demo_lists:
  "ell demoMem 20 [1, 2, 3, 4]" "ell demoMem 21 [5]" "ell demoMem 22 []" "nodes demoMem 6 \<noteq> None"
  by (simp_all add: ell_def demoMem_def)

text \<open>Nodes added to an empty list with \<open>ellAdd\<close> come back from \<open>ellGet\<close> in the order they
  were added, the list is empty afterwards, and no call faults.\<close>

theorem ell_fifo:
  assumes "ell m l []" and "distinct ns" and "\<forall>n \<in> set ns. nodes m n \<noteq> None"
  shows "\<exists>m1 m2. runAll (ellAdd l) ns m = Some m1
           \<and> collect (ellGet l) (length ns) m1 = Some (map Some ns, m2)
           \<and> ellGet l m2 = Some (None, m2)"
  by (rule ellq.fifo[OF assms])

theorem ell_fifo_witness:
  "\<exists>m1 m2. runAll (ellAdd 22) [6, 5] demoMem = Some m1
     \<and> collect (ellGet 22) 2 m1 = Some ([Some 6, Some 5], m2) \<and> ellGet 22 m2 = Some (None, m2)"
  using ell_fifo[of demoMem 22 "[6, 5]", OF demo_lists(3)]
  by (simp add: demoMem_def numeral_2_eq_2)

text \<open>C1. \<open>ellExtract\<close> moves exactly the sublist from the start node to the end node to the end of
  the destination list, keeps the order of everything else, adjusts both counts, and touches no
  other list header and no node outside the two lists.\<close>

theorem ellExtract_moves_sublist:
  assumes "ell m src (xs @ ys @ zs)" and "ell m dst ws" and "ys \<noteq> []" and "src \<noteq> dst"
    and "set (xs @ ys @ zs) \<inter> set ws = {}"
  shows "\<exists>m'. ellExtract src (hd ys) (last ys) dst m = Some m'
              \<and> ell m' src (xs @ zs) \<and> ell m' dst (ws @ ys)
              \<and> frame m m' {src, dst} (set (xs @ ys @ zs) \<union> set ws)"
  by (rule ellExtract_spec[OF assms])

theorem ellExtract_moves_sublist_witness:
  "\<exists>m'. ellExtract 20 2 3 21 demoMem = Some m' \<and> ell m' 20 [1, 4] \<and> ell m' 21 [5, 2, 3]"
proof -
  have "ell demoMem 20 ([1] @ [2, 3] @ [4])" using demo_lists(1) by simp
  from ellExtract_moves_sublist[OF this demo_lists(2)] show ?thesis by auto
qed

text \<open>\<open>ellNth\<close> returns the node with the given number, counting from 1, and \<open>NULL\<close> for every
  number out of range, although it walks from whichever end of the list is nearer.\<close>

theorem ellNth_correct:
  assumes "ell m l xs"
  shows "ellNth l i m = Some (nodeAt xs i)"
  by (rule ellNth_spec[OF assms])

theorem ellNth_correct_witness:
  "ellNth 20 3 demoMem = Some (Some 3) \<and> ellNth 20 2 demoMem = Some (Some 2)
   \<and> ellNth 20 5 demoMem = Some None"
  using ellNth_correct[OF demo_lists(1), of 3] ellNth_correct[OF demo_lists(1), of 2]
    ellNth_correct[OF demo_lists(1), of 5]
  by (simp add: nodeAt_def numeral_2_eq_2)

lemma ell_determines_nodes:
  assumes "ell m l xs" and "ell m' l xs" and "a \<in> set xs"
  shows "nodes m' a = nodes m a"
proof -
  obtain i where "i < length xs" "a = xs ! i" using assms(3) by (auto simp: in_set_conv_nth)
  with assms(1,2) show ?thesis
    using dseg_nth[of "nodes m" None xs None i] dseg_nth[of "nodes m'" None xs None i]
    by (simp add: ell_def)
qed

text \<open>Deleting a node that was inserted after any node of a list gives the list back, with
  every link of the other nodes restored.\<close>

theorem ellDelete_undoes_ellInsert:
  assumes "ell m l (xs @ p # ys)" and "n \<notin> set (xs @ p # ys)" and "nodes m n \<noteq> None"
  shows "\<exists>m1 m2. ellInsert l (Some p) n m = Some m1 \<and> ell m1 l (xs @ p # n # ys)
           \<and> ellDelete l n m1 = Some m2 \<and> lists m2 = lists m
           \<and> (\<forall>a. a \<noteq> n \<longrightarrow> nodes m2 a = nodes m a)"
proof -
  obtain m1 where 1: "ellInsert l (Some p) n m = Some m1" "ell m1 l ((xs @ [p]) @ n # ys)"
      "frame m m1 {l} (insert n (set (p # ys)))"
    using ellInsert_after[OF assms] by auto
  obtain m2 where 2: "ellDelete l n m1 = Some m2" "ell m2 l ((xs @ [p]) @ ys)"
      "frame m1 m2 {l} (set (xs @ [p]) \<union> set ys)"
    using ellDelete_spec[OF 1(2)] by auto
  have "lists m2 k = lists m k" for k
    using 1(3) 2(2,3) assms(1) by (cases "k = l") (auto simp: frame_def ell_def)
  moreover have "nodes m2 a = nodes m a" if "a \<noteq> n" for a
  proof (cases "a \<in> set (xs @ p # ys)")
    case True
    then show ?thesis using ell_determines_nodes[of m l "xs @ p # ys" m2 a] assms(1) 2(2) by simp
  next
    case False
    then show ?thesis using that 1(3) 2(3) by (auto simp: frame_def)
  qed
  ultimately show ?thesis using 1 2 by auto
qed

theorem ellDelete_undoes_ellInsert_witness:
  "\<exists>m1 m2. ellInsert 20 (Some 2) 6 demoMem = Some m1 \<and> ell m1 20 [1, 2, 6, 3, 4]
     \<and> ellDelete 20 6 m1 = Some m2 \<and> lists m2 = lists demoMem"
proof -
  have "ell demoMem 20 ([1] @ 2 # [3, 4])" using demo_lists(1) by simp
  from ellDelete_undoes_ellInsert[OF this _ demo_lists(4)] show ?thesis by auto
qed

end
