(* ===== verification/RingBytes.thy ===== *)
theory RingBytes
  imports Prelude
begin

text \<open>
  \<open>base/src/libCom/ring/epicsRingBytes.c\<close>: the byte ring buffer between one writer and one
  reader. \<open>ring\<close> is \<open>ringPvt\<close>; the buffer is the list of its \<open>size\<close> bytes and \<open>memcpy\<close> is written
  with the two list functions below. \<open>rinv\<close> is the invariant between the indices and \<open>ring_list\<close>
  the bytes stored, oldest first; the operations are proved to be those of a bounded queue.
\<close>

record ring =
  nextPut :: int
  nextGet :: int
  rsize :: int
  buffer :: "char list"

definition copyOut :: "char list \<Rightarrow> int \<Rightarrow> int \<Rightarrow> char list" where
  "copyOut buf pos n = take (nat n) (drop (nat pos) buf)"

definition copyIn :: "char list \<Rightarrow> int \<Rightarrow> char list \<Rightarrow> char list" where
  "copyIn buf pos vs = take (nat pos) buf @ vs @ drop (nat pos + length vs) buf"

text \<open>The contents of freshly allocated memory are the parameter \<open>garbage\<close>.\<close>

definition epicsRingBytesCreate :: "(nat \<Rightarrow> char) \<Rightarrow> int \<Rightarrow> ring" where
  "epicsRingBytesCreate garbage sz =
     \<lparr>nextPut = 0, nextGet = 0, rsize = sz + 1, buffer = map garbage [0..<nat (sz + 1)]\<rparr>"

text \<open>The result: the count returned, the bytes stored through \<open>value\<close>, the ring.\<close>

definition epicsRingBytesGet :: "ring \<Rightarrow> int \<Rightarrow> int \<times> char list \<times> ring" where
  "epicsRingBytesGet r nbytes =
     (let g = nextGet r; p = nextPut r; sz = rsize r in
      if g \<le> p then
        let c = p - g;
            n = (if c < nbytes then c else nbytes)
        in (n, copyOut (buffer r) g n, r\<lparr>nextGet := g + n\<rparr>)
      else
        let c0 = sz - g;
            c = (if c0 > nbytes then nbytes else c0);
            v1 = copyOut (buffer r) g c;
            g' = g + c
        in if g' = sz then
             let l0 = nbytes - c;
                 nLeft = (if l0 > p then p else l0)
             in (c + nLeft, v1 @ copyOut (buffer r) 0 nLeft, r\<lparr>nextGet := nLeft\<rparr>)
           else (c, v1, r\<lparr>nextGet := g'\<rparr>))"

text \<open>The bytes at \<open>value\<close> are the list \<open>vs\<close>, and \<open>nbytes\<close> is its length.\<close>

definition epicsRingBytesPut :: "ring \<Rightarrow> char list \<Rightarrow> int \<times> ring" where
  "epicsRingBytesPut r vs =
     (let g = nextGet r; p = nextPut r; sz = rsize r; nbytes = int (length vs) in
      if p < g then
        let c = g - p - 1;
            n = (if nbytes > c then c else nbytes)
        in (n, r\<lparr>buffer := copyIn (buffer r) p (take (nat n) vs), nextPut := p + n\<rparr>)
      else if g = 0 then
        let c = sz - p - 1;
            n = (if nbytes > c then c else nbytes)
        in (n, r\<lparr>buffer := copyIn (buffer r) p (take (nat n) vs), nextPut := p + n\<rparr>)
      else
        let c0 = sz - p;
            c = (if c0 > nbytes then nbytes else c0);
            b1 = copyIn (buffer r) p (take (nat c) vs);
            p' = p + c
        in if p' = sz then
             let l0 = nbytes - c;
                 nLeft = (if l0 > g - 1 then g - 1 else l0)
             in (c + nLeft, r\<lparr>buffer := copyIn b1 0 (take (nat nLeft) (drop (nat c) vs)),
                               nextPut := nLeft\<rparr>)
           else (c, r\<lparr>buffer := b1, nextPut := p'\<rparr>))"


definition epicsRingBytesFlush :: "ring \<Rightarrow> ring" where
  "epicsRingBytesFlush r = r\<lparr>nextGet := 0, nextPut := 0\<rparr>"

definition epicsRingBytesFreeBytes :: "ring \<Rightarrow> int" where
  "epicsRingBytesFreeBytes r =
     (let n = nextGet r - nextPut r - 1 in if n < 0 then n + rsize r else n)"

definition epicsRingBytesUsedBytes :: "ring \<Rightarrow> int" where
  "epicsRingBytesUsedBytes r =
     (let n = nextPut r - nextGet r in if n < 0 then n + rsize r else n)"

definition epicsRingBytesSize :: "ring \<Rightarrow> int" where
  "epicsRingBytesSize r = rsize r - 1"

definition epicsRingBytesIsEmpty :: "ring \<Rightarrow> bool" where
  "epicsRingBytesIsEmpty r \<longleftrightarrow> nextPut r = nextGet r"

definition epicsRingBytesIsFull :: "ring \<Rightarrow> bool" where
  "epicsRingBytesIsFull r \<longleftrightarrow>
     (let c = (nextPut r - nextGet r) + 1 in c = 0 \<or> c = rsize r)"

section \<open>Invariant and abstraction\<close>

definition rinv :: "ring \<Rightarrow> bool" where
  "rinv r \<longleftrightarrow> 0 \<le> nextPut r \<and> nextPut r < rsize r \<and> 0 \<le> nextGet r \<and> nextGet r < rsize r
     \<and> length (buffer r) = nat (rsize r)"

definition ring_list :: "ring \<Rightarrow> char list" where
  "ring_list r =
     (if nextGet r \<le> nextPut r then copyOut (buffer r) (nextGet r) (nextPut r - nextGet r)
      else copyOut (buffer r) (nextGet r) (rsize r - nextGet r) @ copyOut (buffer r) 0 (nextPut r))"

text \<open>A ring over natural numbers, which the list lemmas work on.\<close>

definition mkRing :: "nat \<Rightarrow> nat \<Rightarrow> nat \<Rightarrow> char list \<Rightarrow> ring" where
  "mkRing P G S buf = \<lparr>nextPut = int P, nextGet = int G, rsize = int S, buffer = buf\<rparr>"

lemma rinv_mk [simp]: "rinv (mkRing P G S buf) \<longleftrightarrow> P < S \<and> G < S \<and> length buf = S"
  by (auto simp: rinv_def mkRing_def)

lemma rsize_mk [simp]: "rsize (mkRing P G S buf) = int S"
  by (simp add: mkRing_def)

lemma ring_list_mk [simp]:
  "ring_list (mkRing P G S buf) =
     (if G \<le> P then take (P - G) (drop G buf) else take (S - G) (drop G buf) @ take P buf)"
  by (simp add: ring_list_def copyOut_def mkRing_def)

lemma rinv_cases:
  assumes "rinv r"
  obtains P G S buf where "r = mkRing P G S buf" "P < S" "G < S" "length buf = S"
proof
  show "r = mkRing (nat (nextPut r)) (nat (nextGet r)) (nat (rsize r)) (buffer r)"
    using assms by (cases r) (simp add: rinv_def mkRing_def)
qed (use assms in \<open>auto simp: rinv_def\<close>)

lemma length_ring_list:
  assumes "rinv r"
  shows "int (length (ring_list r)) = epicsRingBytesUsedBytes r"
    and "epicsRingBytesFreeBytes r = epicsRingBytesSize r - int (length (ring_list r))"
proof -
  obtain P G S buf where r: "r = mkRing P G S buf" "P < S" "G < S" "length buf = S"
    using rinv_cases[OF assms] .
  have "epicsRingBytesUsedBytes r = (if G \<le> P then int P - int G else int P - int G + int S)"
    "epicsRingBytesFreeBytes r = (if P < G then int G - int P - 1 else int G - int P - 1 + int S)"
    "epicsRingBytesSize r = int S - 1"
    using r by (auto simp: mkRing_def epicsRingBytesUsedBytes_def epicsRingBytesFreeBytes_def
        epicsRingBytesSize_def Let_def)
  then show "int (length (ring_list r)) = epicsRingBytesUsedBytes r"
    and "epicsRingBytesFreeBytes r = epicsRingBytesSize r - int (length (ring_list r))"
    using r by auto
qed

section \<open>The operations refine a bounded queue\<close>

lemma create_spec:
  assumes "0 \<le> sz"
  shows "rinv (epicsRingBytesCreate garbage sz)" "ring_list (epicsRingBytesCreate garbage sz) = []"
    "epicsRingBytesSize (epicsRingBytesCreate garbage sz) = sz"
  using assms by (auto simp: epicsRingBytesCreate_def rinv_def ring_list_def copyOut_def
      epicsRingBytesSize_def)

lemma flush_spec:
  "rinv r \<Longrightarrow> rinv (epicsRingBytesFlush r) \<and> ring_list (epicsRingBytesFlush r) = []"
  by (auto simp: rinv_def epicsRingBytesFlush_def ring_list_def copyOut_def)

lemma empty_spec: "rinv r \<Longrightarrow> epicsRingBytesIsEmpty r \<longleftrightarrow> ring_list r = []"
  by (auto simp: rinv_def epicsRingBytesIsEmpty_def ring_list_def copyOut_def)

lemma full_spec:
  "rinv r \<Longrightarrow> epicsRingBytesIsFull r \<longleftrightarrow> int (length (ring_list r)) = epicsRingBytesSize r"
  by (auto simp: length_ring_list(1))
    (auto simp: rinv_def epicsRingBytesIsFull_def epicsRingBytesUsedBytes_def
      epicsRingBytesSize_def Let_def split: if_splits)

text \<open>\<open>epicsRingBytesGet\<close> in the three situations of the code.\<close>

lemma get_mk:
  assumes "P < S" "G < S" "length buf = S"
  shows "G \<le> P \<Longrightarrow> epicsRingBytesGet (mkRing P G S buf) (int n) =
      (let k = min n (P - G) in (int k, take k (drop G buf), mkRing P (G + k) S buf))"
    and "P < G \<Longrightarrow> n < S - G \<Longrightarrow> epicsRingBytesGet (mkRing P G S buf) (int n) =
      (int n, take n (drop G buf), mkRing P (G + n) S buf)"
    and "P < G \<Longrightarrow> S - G \<le> n \<Longrightarrow> epicsRingBytesGet (mkRing P G S buf) (int n) =
      (let k = min (n - (S - G)) P in (int (S - G + k), drop G buf @ take k buf, mkRing P k S buf))"
  using assms
  by (auto simp: epicsRingBytesGet_def copyOut_def Let_def mkRing_def min_def)

lemma get_spec:
  assumes "rinv r"
  shows "\<exists>r'. epicsRingBytesGet r (int n) = (int (length (take n (ring_list r))), take n (ring_list r), r')
           \<and> rinv r' \<and> ring_list r' = drop n (ring_list r) \<and> rsize r' = rsize r"
proof -
  obtain P G S buf where r: "r = mkRing P G S buf" "P < S" "G < S" "length buf = S"
    using rinv_cases[OF assms] .
  consider "G \<le> P" | "P < G" "n < S - G" | "P < G" "S - G \<le> n" by linarith
  then show ?thesis
  proof cases
    case 1
    then show ?thesis using r get_mk(1)[OF r(2-4) 1, of n]
      by (auto simp: Let_def drop_take min_def add.commute)
  next
    case 2
    then show ?thesis using r get_mk(2)[OF r(2-4) 2] by (auto simp: drop_take add.commute)
  next
    case 3
    then show ?thesis using r get_mk(3)[OF r(2-4) 3]
      by (auto simp: Let_def drop_take min_def)
  qed
qed

text \<open>\<open>epicsRingBytesPut\<close> in the situations of the code.\<close>

lemma put_mk1:
  assumes "P < G" "G < S" "length buf = S"
  shows "epicsRingBytesPut (mkRing P G S buf) vs =
      (let k = min (length vs) (G - P - 1)
       in (int k, mkRing (P + k) G S (take P buf @ take k vs @ drop (P + k) buf)))"
proof -
  obtain d where "G = Suc (P + d)" using assms(1) less_iff_Suc_add by auto
  then show ?thesis using assms
    by (cases "d < length vs")
      (simp_all add: epicsRingBytesPut_def copyIn_def Let_def mkRing_def)
qed

lemma put_mk2:
  assumes "P < S" "length buf = S"
  shows "epicsRingBytesPut (mkRing P 0 S buf) vs =
      (let k = min (length vs) (S - P - 1)
       in (int k, mkRing (P + k) 0 S (take P buf @ take k vs @ drop (P + k) buf)))"
proof -
  obtain d where "S = Suc (P + d)" using assms(1) less_iff_Suc_add by auto
  then show ?thesis using assms
    by (cases "d < length vs")
      (simp_all add: epicsRingBytesPut_def copyIn_def Let_def mkRing_def)
qed

lemma put_mk3:
  assumes "0 < G" "G \<le> P" "length vs < S - P" "length buf = S"
  shows "epicsRingBytesPut (mkRing P G S buf) vs =
      (int (length vs), mkRing (P + length vs) G S (take P buf @ vs @ drop (P + length vs) buf))"
proof -
  obtain d where "S = Suc (P + length vs + d)" using assms(3) less_iff_Suc_add
    by (metis add.commute less_diff_conv)
  then show ?thesis using assms
    by (simp add: epicsRingBytesPut_def copyIn_def Let_def mkRing_def)
qed

lemma put_mk4:
  assumes "0 < G" "G \<le> P" "P < S" "S - P \<le> length vs" "length buf = S"
  shows "epicsRingBytesPut (mkRing P G S buf) vs =
      (let k = min (length vs - (S - P)) (G - 1)
       in (int (S - P + k),
           mkRing k G S (take k (drop (S - P) vs) @ drop k (take P buf @ take (S - P) vs))))"
proof -
  obtain d where d: "S = P + d" using assms(3) less_imp_add_positive by blast
  obtain e where e: "length vs = d + e" using assms(4) d le_Suc_ex by auto
  obtain g where g: "G = Suc g" using assms(1) gr0_implies_Suc by auto
  show ?thesis using assms d e g
    by (cases "g < e"; cases "e = 0")
      (simp_all add: epicsRingBytesPut_def copyIn_def mkRing_def Let_def)
qed

lemma put_spec:
  assumes "rinv r"
  shows "\<exists>r'. epicsRingBytesPut r vs =
           (int (length (take (nat (epicsRingBytesFreeBytes r)) vs)), r')
         \<and> rinv r' \<and> ring_list r' = ring_list r @ take (nat (epicsRingBytesFreeBytes r)) vs
         \<and> rsize r' = rsize r"
proof -
  obtain P G S buf where r: "r = mkRing P G S buf" "P < S" "G < S" "length buf = S"
    using rinv_cases[OF assms] .
  have f: "nat (epicsRingBytesFreeBytes r) = S - 1 - length (ring_list r)"
    using length_ring_list(2)[OF assms] r by (simp add: epicsRingBytesSize_def)
  consider "P < G" | "G = 0" | "0 < G" "G \<le> P" "length vs < S - P"
    | "0 < G" "G \<le> P" "S - P \<le> length vs" by linarith
  then show ?thesis
  proof cases
    case 1
    have n: "nat (epicsRingBytesFreeBytes r) = G - P - 1" unfolding f using 1 r by simp
    show ?thesis unfolding n
      using put_mk1[OF 1 r(3,4), of vs] r(1-4) 1
      by (cases "length vs \<le> G - P - 1") (auto simp: Let_def)
  next
    case 2
    have n: "nat (epicsRingBytesFreeBytes r) = S - P - 1" unfolding f using 2 r by simp
    show ?thesis unfolding n
      using put_mk2[OF r(2,4), of vs] r(1-4) 2
      by (cases "length vs \<le> S - P - 1") (simp_all add: Let_def)
  next
    case 3
    have n: "nat (epicsRingBytesFreeBytes r) = S - 1 - (P - G)" unfolding f using 3 r by simp
    show ?thesis unfolding n using put_mk3[OF 3 r(4)] r(1-4) 3 by (auto simp: drop_take)
  next
    case 4
    have n: "nat (epicsRingBytesFreeBytes r) = (S - P) + (G - 1)" unfolding f using 4 r by simp
    have t: "take (S - P + k) vs = take (S - P) vs @ take k (drop (S - P) vs)" for k
      by (simp add: take_add)
    show ?thesis unfolding n t
      using put_mk4[OF 4(1,2) r(2) 4(3) r(4)] r(1-4) 4
      by (cases "length vs - (S - P) \<le> G - 1") (auto simp: Let_def drop_take)
  qed
qed


section \<open>The ring as a bounded queue\<close>

text \<open>A history of puts and gets: the bytes accepted, the bytes delivered, the final state.\<close>

datatype 'a qop = QPut "'a list" | QGet nat

fun qrun :: "('q \<Rightarrow> 'a list \<Rightarrow> int \<times> 'q) \<Rightarrow> ('q \<Rightarrow> int \<Rightarrow> int \<times> 'a list \<times> 'q) \<Rightarrow>
    'q \<Rightarrow> 'a qop list \<Rightarrow> 'a list \<times> 'a list \<times> 'q" where
  "qrun put get q [] = ([], [], q)"
| "qrun put get q (QPut vs # ops) =
     (let (n, q1) = put q vs; (a, d, q2) = qrun put get q1 ops in (take (nat n) vs @ a, d, q2))"
| "qrun put get q (QGet n # ops) =
     (let (_, vs, q1) = get q (int n); (a, d, q2) = qrun put get q1 ops in (a, vs @ d, q2))"

locale bounded_queue =
  fixes inv :: "'q \<Rightarrow> bool"
    and contents :: "'q \<Rightarrow> 'a list"
    and room :: "'q \<Rightarrow> nat"
    and capacity :: "'q \<Rightarrow> nat"
    and put :: "'q \<Rightarrow> 'a list \<Rightarrow> int \<times> 'q"
    and get :: "'q \<Rightarrow> int \<Rightarrow> int \<times> 'a list \<times> 'q"
  assumes put_ok: "inv q \<Longrightarrow> \<exists>q'. put q vs = (int (length (take (room q) vs)), q') \<and> inv q'
      \<and> contents q' = contents q @ take (room q) vs \<and> capacity q' = capacity q"
    and get_ok: "inv q \<Longrightarrow> \<exists>q'. get q (int n) =
        (int (length (take n (contents q))), take n (contents q), q') \<and> inv q'
      \<and> contents q' = drop n (contents q) \<and> capacity q' = capacity q"
    and room_ok: "inv q \<Longrightarrow> room q + length (contents q) = capacity q"
begin

lemma stream:
  assumes "inv q"
  shows "\<exists>a d q'. qrun put get q ops = (a, d, q') \<and> inv q' \<and> contents q @ a = d @ contents q'
           \<and> capacity q' = capacity q"
  using assms
proof (induction ops arbitrary: q)
  case Nil
  then show ?case by simp
next
  case (Cons op ops)
  show ?case
  proof (cases op)
    case (QPut vs)
    obtain q1 where 1: "put q vs = (int (length (take (room q) vs)), q1)" "inv q1"
      "contents q1 = contents q @ take (room q) vs" "capacity q1 = capacity q"
      using put_ok[OF Cons.prems] by blast
    obtain a d q2 where 2: "qrun put get q1 ops = (a, d, q2)" "inv q2"
      "contents q1 @ a = d @ contents q2" "capacity q2 = capacity q1"
      using Cons.IH[OF 1(2)] by blast
    have "take (nat (int (length (take (room q) vs)))) vs = take (room q) vs" by (simp add: min_def)
    then show ?thesis using QPut 1 2 by simp
  next
    case (QGet n)
    obtain q1 where 1: "get q (int n) =
        (int (length (take n (contents q))), take n (contents q), q1)" "inv q1"
      "contents q1 = drop n (contents q)" "capacity q1 = capacity q"
      using get_ok[OF Cons.prems] by blast
    obtain a d q2 where 2: "qrun put get q1 ops = (a, d, q2)" "inv q2"
      "contents q1 @ a = d @ contents q2" "capacity q2 = capacity q1"
      using Cons.IH[OF 1(2)] by blast
    have "contents q @ a = take n (contents q) @ d @ contents q2"
      using 1(3) 2(3) by (metis append_assoc append_take_drop_id)
    then show ?thesis using QGet 1 2 by simp
  qed
qed

end

interpretation ringq: bounded_queue rinv ring_list "\<lambda>r. nat (epicsRingBytesFreeBytes r)"
  "\<lambda>r. nat (epicsRingBytesSize r)" epicsRingBytesPut epicsRingBytesGet
proof
  fix q :: ring and vs n
  assume i: "rinv q"
  show "\<exists>q'. epicsRingBytesPut q vs = (int (length (take (nat (epicsRingBytesFreeBytes q)) vs)), q')
      \<and> rinv q' \<and> ring_list q' = ring_list q @ take (nat (epicsRingBytesFreeBytes q)) vs
      \<and> nat (epicsRingBytesSize q') = nat (epicsRingBytesSize q)"
    using put_spec[OF i, of vs] by (auto simp: epicsRingBytesSize_def)
  show "\<exists>q'. epicsRingBytesGet q (int n) =
        (int (length (take n (ring_list q))), take n (ring_list q), q') \<and> rinv q'
      \<and> ring_list q' = drop n (ring_list q) \<and> nat (epicsRingBytesSize q') = nat (epicsRingBytesSize q)"
    using get_spec[OF i, of n] by (auto simp: epicsRingBytesSize_def)
  show "nat (epicsRingBytesFreeBytes q) + length (ring_list q) = nat (epicsRingBytesSize q)"
  proof -
    have "0 \<le> epicsRingBytesFreeBytes q" "0 \<le> epicsRingBytesSize q"
      using i by (auto simp: rinv_def epicsRingBytesFreeBytes_def epicsRingBytesSize_def Let_def)
    then show ?thesis using length_ring_list(2)[OF i] by linarith
  qed
qed

section \<open>Properties\<close>

text \<open>C2. For every history of puts and gets on a new ring, the bytes delivered are, in order, a
  prefix of the bytes accepted, and the rest is still stored: nothing is lost, repeated or
  reordered across any number of wrap-arounds.\<close>

theorem ring_stream:
  assumes "0 \<le> sz"
  shows "\<exists>a d r. qrun epicsRingBytesPut epicsRingBytesGet (epicsRingBytesCreate garbage sz) ops = (a, d, r)
           \<and> a = d @ ring_list r \<and> int (length (ring_list r)) \<le> sz"
proof -
  let ?r0 = "epicsRingBytesCreate garbage sz"
  obtain a d r where 1: "qrun epicsRingBytesPut epicsRingBytesGet ?r0 ops = (a, d, r)" "rinv r"
    "ring_list ?r0 @ a = d @ ring_list r" "nat (epicsRingBytesSize r) = nat (epicsRingBytesSize ?r0)"
    using ringq.stream[OF create_spec(1)[OF assms]] by blast
  have "length (ring_list r) \<le> nat (epicsRingBytesSize r)"
    using ringq.room_ok[OF 1(2)] by linarith
  then show ?thesis using 1 create_spec(2,3)[OF assms] assms by auto
qed

theorem ring_stream_witness:
  "\<exists>a d r. qrun epicsRingBytesPut epicsRingBytesGet (epicsRingBytesCreate (\<lambda>_. CHR ''x'') 3)
       [QPut ''abc'', QGet 2, QPut ''de'', QGet 3] = (a, d, r) \<and> a = d @ ring_list r"
  using ring_stream[of 3 "\<lambda>_. CHR ''x''" "[QPut ''abc'', QGet 2, QPut ''de'', QGet 3]"] by auto

text \<open>\<open>epicsRingBytesPut\<close> accepts exactly as many bytes as \<open>epicsRingBytesFreeBytes\<close> reports (or
  all of them when they are fewer), in whichever of its three branches it runs, and appends them to
  the stored bytes.\<close>

theorem ring_put_accepts_free:
  assumes "rinv r"
  shows "\<exists>r'. epicsRingBytesPut r vs = (min (int (length vs)) (epicsRingBytesFreeBytes r), r')
           \<and> rinv r' \<and> ring_list r' = ring_list r @ take (nat (epicsRingBytesFreeBytes r)) vs
           \<and> epicsRingBytesUsedBytes r' = epicsRingBytesUsedBytes r
                + min (int (length vs)) (epicsRingBytesFreeBytes r)"
proof -
  have f: "0 \<le> epicsRingBytesFreeBytes r"
    using assms by (auto simp: rinv_def epicsRingBytesFreeBytes_def Let_def)
  obtain r' where r': "epicsRingBytesPut r vs =
      (int (length (take (nat (epicsRingBytesFreeBytes r)) vs)), r')" "rinv r'"
    "ring_list r' = ring_list r @ take (nat (epicsRingBytesFreeBytes r)) vs"
    using put_spec[OF assms, of vs] by blast
  then show ?thesis
    using f length_ring_list(1)[OF assms] length_ring_list(1)[OF r'(2)] by (auto simp: min_def)
qed

theorem ring_put_accepts_free_witness:
  "\<exists>r'. epicsRingBytesPut \<lparr>nextPut = 2, nextGet = 1, rsize = 3, buffer = ''xyz''\<rparr> ''ab'' = (1, r')
      \<and> ring_list r' = ''ya''"
proof -
  have i: "rinv \<lparr>nextPut = 2, nextGet = 1, rsize = 3, buffer = ''xyz''\<rparr>" by (simp add: rinv_def)
  show ?thesis
    using ring_put_accepts_free[OF i, of "''ab''"]
    by (auto simp: epicsRingBytesFreeBytes_def ring_list_def copyOut_def numeral_2_eq_2)
qed

end
