(* ===== verification/Allocators.thy ===== *)
theory Allocators
  imports Prelude
begin

text \<open>
  The two block allocators: \<open>base/src/libCom/freeList/freeListLib.c\<close> (blocks of one size, carved
  from chunks that are only given back on cleanup) and \<open>base/src/libCom/dbmf/dbmf.c\<close> (small items
  with a header that names their chunk, larger ones passed on to \<open>malloc\<close>). A block is its
  address; the word a free block stores (the next free block) lives in a memory of such words.
  What \<open>malloc\<close> and \<open>calloc\<close> return is an argument of the operations.
\<close>

section \<open>freeListLib.c\<close>

text \<open>\<open>chunks\<close> is the chain of \<open>allocMem\<close> nodes by the memory they hold, newest first.\<close>

record freelist =
  fl_size :: nat
  fl_nmalloc :: nat
  fl_head :: ptr
  fl_chunks :: "addr list"
  fl_nBlocksAvailable :: int
  fl_next :: "addr \<rightharpoonup> ptr"

text \<open>\<open>align\<close> is the worst-case alignment that \<open>adjustToWorstCaseAlignment\<close> measures.\<close>

definition adjustToWorstCaseAlignment :: "nat \<Rightarrow> nat \<Rightarrow> nat" where
  "adjustToWorstCaseAlignment align sz =
     (let adjust = align - sz mod align in if adjust \<noteq> align then sz + adjust else sz)"

definition freeListInitPvt :: "nat \<Rightarrow> nat \<Rightarrow> nat \<Rightarrow> freelist" where
  "freeListInitPvt align sz nm =
     \<lparr>fl_size = adjustToWorstCaseAlignment align sz, fl_nmalloc = nm, fl_head = None,
      fl_chunks = [], fl_nBlocksAvailable = 0, fl_next = Map.empty\<rparr>"

text \<open>The loop that threads \<open>k\<close> new blocks onto the free list.\<close>

fun carve :: "nat \<Rightarrow> addr \<Rightarrow> freelist \<Rightarrow> freelist" where
  "carve 0 p fl = fl"
| "carve (Suc k) p fl =
     carve k (p + fl_size fl) (fl\<lparr>fl_next := (fl_next fl)(p \<mapsto> fl_head fl), fl_head := Some p\<rparr>)"

text \<open>
  \<open>mem\<close> is what \<open>malloc\<close> returns for the chunk and \<open>node\<close> whether \<open>calloc\<close> of the \<open>allocMem\<close>
  succeeds. The result is the pointer returned; \<open>None\<close> outside is a fault. The chunk is asked for with
  \<open>nmalloc * size\<close>, a product of two \<open>int\<close>s: the model is of lists where it does not overflow.
\<close>

definition freeListMalloc :: "ptr \<Rightarrow> bool \<Rightarrow> freelist \<Rightarrow> (ptr \<times> freelist) option" where
  "freeListMalloc mem node fl =
     (if fl_head fl = None \<and> (mem = None \<or> \<not> node) then Some (None, fl)
      else
        let fl1 = (if fl_head fl = None
                   then let fl0 = carve (fl_nmalloc fl) (the mem) (fl\<lparr>fl_chunks := the mem # fl_chunks fl\<rparr>)
                        in fl0\<lparr>fl_nBlocksAvailable := fl_nBlocksAvailable fl0 + int (fl_nmalloc fl)\<rparr>
                   else fl)
        in case fl_head fl1 of
             None \<Rightarrow> None
           | Some b \<Rightarrow> (case fl_next fl1 b of
                None \<Rightarrow> None
              | Some nxt \<Rightarrow> Some (Some b, fl1\<lparr>fl_head := nxt,
                    fl_nBlocksAvailable := fl_nBlocksAvailable fl1 - 1\<rparr>)))"

text \<open>\<open>freeListCalloc\<close> also reports the range it clears: the address and its length.\<close>

definition freeListCalloc :: "ptr \<Rightarrow> bool \<Rightarrow> freelist \<Rightarrow> (ptr \<times> (addr \<times> nat) option \<times> freelist) option" where
  "freeListCalloc mem node fl = do {
     (ptemp, fl') \<leftarrow> freeListMalloc mem node fl;
     Some (ptemp, map_option (\<lambda>p. (p, fl_size fl')) ptemp, fl') }"

definition freeListFree :: "addr \<Rightarrow> freelist \<Rightarrow> freelist" where
  "freeListFree pmem fl =
     fl\<lparr>fl_next := (fl_next fl)(pmem \<mapsto> fl_head fl), fl_head := Some pmem,
        fl_nBlocksAvailable := fl_nBlocksAvailable fl + 1\<rparr>"

text \<open>The chunks given back to \<open>free\<close>, in order.\<close>

definition freeListCleanup :: "freelist \<Rightarrow> addr list" where
  "freeListCleanup fl = fl_chunks fl"

definition freeListItemsAvail :: "freelist \<Rightarrow> int" where
  "freeListItemsAvail fl = fl_nBlocksAvailable fl"

section \<open>dbmf.c\<close>

text \<open>\<open>d_next\<close> and \<open>d_chunk\<close> are the two fields of the item headers, by header address.\<close>

record dbmf =
  d_size :: nat
  d_allocSize :: nat
  d_chunkItems :: nat
  d_chunkSize :: nat
  d_nAlloc :: int
  d_nFree :: int
  d_nGtSize :: int
  d_freeList :: ptr
  d_chunkList :: "addr list"
  d_nNotFree :: "addr \<Rightarrow> int"
  d_next :: "addr \<rightharpoonup> ptr"
  d_chunk :: "addr \<rightharpoonup> addr option"

text \<open>\<open>sizeof(itemHeader)\<close> (two pointers) and \<open>sizeof(double)\<close>.\<close>

definition headerSize :: nat where "headerSize = 16"

definition doubleSize :: nat where "doubleSize = 8"

text \<open>\<open>pdbmfPvt\<close> is \<open>None\<close> until the first \<open>dbmfInit\<close>; a second one is refused.\<close>

definition dbmfInit :: "nat \<Rightarrow> nat \<Rightarrow> dbmf option \<Rightarrow> int \<times> dbmf option" where
  "dbmfInit sz items pvt =
     (case pvt of
        Some d \<Rightarrow> (- 1, Some d)
      | None \<Rightarrow>
          let s = sz + sz mod doubleSize in
          (0, Some \<lparr>d_size = s, d_allocSize = s + headerSize, d_chunkItems = items,
            d_chunkSize = (s + headerSize) * items, d_nAlloc = 0, d_nFree = 0, d_nGtSize = 0,
            d_freeList = None, d_chunkList = [], d_nNotFree = (\<lambda>_. 0),
            d_next = Map.empty, d_chunk = Map.empty\<rparr>))"

fun dbmfCarve :: "nat \<Rightarrow> addr \<Rightarrow> addr \<Rightarrow> dbmf \<Rightarrow> dbmf" where
  "dbmfCarve 0 c p d = d"
| "dbmfCarve (Suc k) c p d =
     dbmfCarve k c (p + d_allocSize d)
       (d\<lparr>d_chunk := (d_chunk d)(p \<mapsto> Some c), d_next := (d_next d)(p \<mapsto> d_freeList d),
          d_freeList := Some p, d_nFree := d_nFree d + 1\<rparr>)"

text \<open>A new chunk at \<open>mem\<close>: its control block sits after the items.\<close>

definition dbmfNewChunk :: "addr \<Rightarrow> dbmf \<Rightarrow> dbmf" where
  "dbmfNewChunk mem d =
     (let c = mem + d_chunkSize d in
      dbmfCarve (d_chunkItems d) c mem
        (d\<lparr>d_nNotFree := (d_nNotFree d)(c := 0), d_chunkList := d_chunkList d @ [c]\<rparr>))"

text \<open>
  \<open>mem\<close> is the result of \<open>malloc\<close> for a chunk, \<open>big\<close> the result of \<open>malloc\<close> for a large item (the
  code uses it unchecked, so \<open>NULL\<close> is a fault).
\<close>

definition dbmfMalloc1 :: "ptr \<Rightarrow> ptr \<Rightarrow> nat \<Rightarrow> dbmf \<Rightarrow> (ptr \<times> dbmf) option" where
  "dbmfMalloc1 mem big sz d0 =
     (if d_freeList d0 = None \<and> mem = None then Some (None, d0)
      else
        let d = (if d_freeList d0 = None then dbmfNewChunk (the mem) d0 else d0)
        in if sz \<le> d_size d then do {
             p \<leftarrow> d_freeList d;
             nxt \<leftarrow> d_next d p;
             hdr \<leftarrow> d_chunk d p;
             c \<leftarrow> hdr;
             Some (Some (p + headerSize),
               d\<lparr>d_freeList := nxt, d_nAlloc := d_nAlloc d + 1, d_nFree := d_nFree d - 1,
                 d_nNotFree := (d_nNotFree d)(c := d_nNotFree d c + 1)\<rparr>) }
           else do {
             p \<leftarrow> big;
             Some (Some (p + headerSize),
               d\<lparr>d_nAlloc := d_nAlloc d + 1, d_nGtSize := d_nGtSize d + 1,
                 d_chunk := (d_chunk d)(p \<mapsto> None)\<rparr>) })"

text \<open>\<open>dbmfMalloc\<close> initializes the module itself with the defaults 64 and 10.\<close>

definition dbmfMalloc :: "ptr \<Rightarrow> ptr \<Rightarrow> nat \<Rightarrow> dbmf option \<Rightarrow> (ptr \<times> dbmf option) option" where
  "dbmfMalloc mem big sz pvt = do {
     d \<leftarrow> (if pvt = None then snd (dbmfInit 64 10 pvt) else pvt);
     (p, d') \<leftarrow> dbmfMalloc1 mem big sz d;
     Some (p, Some d') }"

text \<open>The header is \<open>mem - sizeof(itemHeader)\<close>; a block without a readable header is a fault.\<close>

definition dbmfFree1 :: "addr \<Rightarrow> dbmf \<Rightarrow> dbmf option" where
  "dbmfFree1 m d =
     (let p = m - headerSize in
      case d_chunk d p of
        None \<Rightarrow> None
      | Some None \<Rightarrow> Some (d\<lparr>d_nAlloc := d_nAlloc d - 1, d_chunk := (d_chunk d)(p := None)\<rparr>)
      | Some (Some c) \<Rightarrow>
          Some (d\<lparr>d_nNotFree := (d_nNotFree d)(c := d_nNotFree d c - 1),
                  d_next := (d_next d)(p \<mapsto> d_freeList d), d_freeList := Some p,
                  d_nAlloc := d_nAlloc d - 1, d_nFree := d_nFree d + 1\<rparr>))"

definition dbmfFree :: "ptr \<Rightarrow> dbmf option \<Rightarrow> dbmf option option" where
  "dbmfFree mem pvt =
     (case (mem, pvt) of
        (Some m, Some d) \<Rightarrow> map_option Some (dbmfFree1 m d)
      | _ \<Rightarrow> Some pvt)"

text \<open>The chunks given back, and the new state: the headers in them are gone.\<close>

definition dbmfFreeChunks1 :: "dbmf \<Rightarrow> addr list \<times> dbmf" where
  "dbmfFreeChunks1 d =
     (if d_nFree d \<noteq> int (d_chunkItems d) * int (length (d_chunkList d)) then ([], d)
      else (map (\<lambda>c. c - d_chunkSize d) (d_chunkList d),
            d\<lparr>d_chunkList := [], d_nFree := 0, d_freeList := None,
              d_chunk := (\<lambda>p. case d_chunk d p of Some (Some c) \<Rightarrow> None | h \<Rightarrow> h)\<rparr>))"

definition dbmfFreeChunks :: "dbmf option \<Rightarrow> addr list \<times> dbmf option" where
  "dbmfFreeChunks pvt =
     (case pvt of
        None \<Rightarrow> ([], None)
      | Some d \<Rightarrow> let (cs, d') = dbmfFreeChunks1 d in (cs, Some d'))"

section \<open>The free chain\<close>

fun chain :: "(addr \<rightharpoonup> ptr) \<Rightarrow> ptr \<Rightarrow> addr list \<Rightarrow> bool" where
  "chain nx p [] \<longleftrightarrow> p = None"
| "chain nx p (x # xs) \<longleftrightarrow> p = Some x \<and> (\<exists>q. nx x = Some q \<and> chain nx q xs)"

lemma chain_upd [simp]: "a \<notin> set xs \<Longrightarrow> chain (nx(a := v)) p xs = chain nx p xs"
  by (induction xs arbitrary: p) auto

lemma chain_None [simp]: "chain nx None xs \<longleftrightarrow> xs = []"
  by (cases xs) auto

lemma chain_Some: "chain nx (Some a) xs \<longleftrightarrow> (\<exists>q ys. xs = a # ys \<and> nx a = Some q \<and> chain nx q ys)"
  by (cases xs) auto

text \<open>The blocks of a chunk at \<open>a\<close>, in the order the carving loop threads them.\<close>

definition blocks :: "nat \<Rightarrow> nat \<Rightarrow> addr \<Rightarrow> addr list" where
  "blocks sz k a = map (\<lambda>i. a + i * sz) [0..<k]"

lemma blocks_0 [simp]: "blocks sz 0 a = []"
  by (simp add: blocks_def)

lemma blocks_Suc: "blocks sz (Suc k) a = a # blocks sz k (a + sz)"
  by (simp add: blocks_def map_upt_Suc add.assoc del: upt_Suc)

lemma set_blocks: "set (blocks sz k a) = {a + i * sz |i. i < k}"
  by (auto simp: blocks_def)

lemma distinct_blocks: "0 < sz \<Longrightarrow> distinct (blocks sz k a)"
  by (auto simp: blocks_def distinct_map inj_on_def)

lemma blocks_apart:
  assumes "x \<in> set (blocks sz k a)" and "y \<in> set (blocks sz k a)" and "x \<noteq> y"
  shows "x + sz \<le> y \<or> y + sz \<le> x"
proof -
  obtain i j where x: "x = a + i * sz" and y: "y = a + j * sz" using assms by (auto simp: set_blocks)
  then have "i < j \<or> j < i" using assms(3) by auto
  then show ?thesis
  proof
    assume "i < j"
    then have "Suc i * sz \<le> j * sz" by (intro mult_le_mono1) simp
    then show ?thesis using x y by simp
  next
    assume "j < i"
    then have "Suc j * sz \<le> i * sz" by (intro mult_le_mono1) simp
    then show ?thesis using x y by simp
  qed
qed

lemma length_blocks [simp]: "length (blocks sz k a) = k"
  by (simp add: blocks_def)


section \<open>The interface of a block allocator\<close>

text \<open>
  A client's history: \<open>Alloc e\<close> asks for a block while the environment answers \<open>e\<close>, \<open>Free i\<close> gives
  back the \<open>i\<close>-th of the blocks held (nothing when there are fewer). \<open>env_ok\<close> says that every answer
  of the environment was possible in the state it was given in.
\<close>

datatype 'e aop = Alloc 'e | Free nat

fun arun :: "('e \<Rightarrow> 's \<Rightarrow> (ptr \<times> 's) option) \<Rightarrow> (addr \<Rightarrow> 's \<Rightarrow> 's option) \<Rightarrow>
    's \<Rightarrow> addr list \<Rightarrow> 'e aop list \<Rightarrow> (addr list \<times> 's) option" where
  "arun alloc free s held [] = Some (held, s)"
| "arun alloc free s held (Alloc e # ops) = do {
     (p, s') \<leftarrow> alloc e s;
     arun alloc free s' (case p of None \<Rightarrow> held | Some b \<Rightarrow> b # held) ops }"
| "arun alloc free s held (Free i # ops) =
     (if i < length held then do {
        s' \<leftarrow> free (held ! i) s;
        arun alloc free s' (take i held @ drop (Suc i) held) ops }
      else arun alloc free s held ops)"

fun env_ok :: "('e \<Rightarrow> 's \<Rightarrow> (ptr \<times> 's) option) \<Rightarrow> (addr \<Rightarrow> 's \<Rightarrow> 's option) \<Rightarrow> ('s \<Rightarrow> 'e \<Rightarrow> bool) \<Rightarrow>
    's \<Rightarrow> addr list \<Rightarrow> 'e aop list \<Rightarrow> bool" where
  "env_ok alloc free fresh s held [] \<longleftrightarrow> True"
| "env_ok alloc free fresh s held (Alloc e # ops) \<longleftrightarrow> fresh s e \<and>
     (case alloc e s of None \<Rightarrow> True
      | Some (p, s') \<Rightarrow>
          env_ok alloc free fresh s' (case p of None \<Rightarrow> held | Some b \<Rightarrow> b # held) ops)"
| "env_ok alloc free fresh s held (Free i # ops) \<longleftrightarrow>
     (if i < length held then
        (case free (held ! i) s of None \<Rightarrow> True
         | Some s' \<Rightarrow> env_ok alloc free fresh s' (take i held @ drop (Suc i) held) ops)
      else env_ok alloc free fresh s held ops)"

locale block_allocator =
  fixes inv :: "'s \<Rightarrow> addr set \<Rightarrow> bool"
    and fresh :: "'s \<Rightarrow> 'e \<Rightarrow> bool"
    and width :: "'s \<Rightarrow> addr \<Rightarrow> nat"
    and alloc :: "'e \<Rightarrow> 's \<Rightarrow> (ptr \<times> 's) option"
    and free :: "addr \<Rightarrow> 's \<Rightarrow> 's option"
  assumes alloc_ok: "inv s U \<Longrightarrow> fresh s e \<Longrightarrow> \<exists>p s'. alloc e s = Some (p, s')
      \<and> (case p of None \<Rightarrow> inv s' U | Some b \<Rightarrow> b \<notin> U \<and> inv s' (insert b U))"
    and free_ok: "inv s U \<Longrightarrow> b \<in> U \<Longrightarrow> \<exists>s'. free b s = Some s' \<and> inv s' (U - {b})"
    and apart: "inv s U \<Longrightarrow> x \<in> U \<Longrightarrow> y \<in> U \<Longrightarrow> x \<noteq> y \<Longrightarrow>
      x + width s x \<le> y \<or> y + width s y \<le> x"
begin

lemma run_safe:
  assumes "inv s (set held)" and "distinct held" and "env_ok alloc free fresh s held ops"
  shows "\<exists>held' s'. arun alloc free s held ops = Some (held', s') \<and> inv s' (set held') \<and> distinct held'"
  using assms
proof (induction ops arbitrary: s held)
  case Nil
  then show ?case by simp
next
  case (Cons op ops)
  show ?case
  proof (cases op)
    case (Alloc e)
    then have f: "fresh s e" using Cons.prems(3) by simp
    then obtain p s' where a: "alloc e s = Some (p, s')"
      and i: "case p of None \<Rightarrow> inv s' (set held) | Some b \<Rightarrow> b \<notin> set held \<and> inv s' (insert b (set held))"
      using alloc_ok[OF Cons.prems(1)] by blast
    let ?held = "case p of None \<Rightarrow> held | Some b \<Rightarrow> b # held"
    have "\<exists>held' s''. arun alloc free s' ?held ops = Some (held', s'') \<and> inv s'' (set held')
        \<and> distinct held'"
      using Cons.prems i a Alloc by (intro Cons.IH) (auto split: option.splits)
    then show ?thesis using Alloc a by auto
  next
    case (Free i)
    show ?thesis
    proof (cases "i < length held")
      case True
      obtain s' where fr: "free (held ! i) s = Some s'" "inv s' (set held - {held ! i})"
        using free_ok[OF Cons.prems(1)] True by (meson nth_mem)
      let ?rest = "take i held @ drop (Suc i) held"
      have split: "held = take i held @ held ! i # drop (Suc i) held"
        by (rule id_take_nth_drop[OF True])
      then have d: "distinct (take i held @ held ! i # drop (Suc i) held)"
        using Cons.prems(2) by simp
      then have "set ?rest = set (take i held @ held ! i # drop (Suc i) held) - {held ! i}"
        by auto
      then have r: "set ?rest = set held - {held ! i}" using split by simp
      have "distinct ?rest" using d by simp
      moreover have "env_ok alloc free fresh s' ?rest ops" using Cons.prems(3) Free True fr by simp
      ultimately have "\<exists>held' s''. arun alloc free s' ?rest ops = Some (held', s'')
          \<and> inv s'' (set held') \<and> distinct held'"
        using fr r by (intro Cons.IH) auto
      then show ?thesis using Free True fr by auto
    next
      case False
      have "env_ok alloc free fresh s held ops" using Cons.prems(3) Free False by simp
      from Cons.IH[OF Cons.prems(1,2) this] show ?thesis using Free False by simp
    qed
  qed
qed

text \<open>The blocks held at any time are pairwise distinct and do not overlap.\<close>

lemma run_disjoint:
  assumes "inv s {}" and "env_ok alloc free fresh s [] ops"
  shows "\<exists>held s'. arun alloc free s [] ops = Some (held, s') \<and> inv s' (set held) \<and> distinct held
           \<and> (\<forall>x \<in> set held. \<forall>y \<in> set held. x \<noteq> y \<longrightarrow> x + width s' x \<le> y \<or> y + width s' y \<le> x)"
proof -
  obtain held s' where r: "arun alloc free s [] ops = Some (held, s')" "inv s' (set held)" "distinct held"
    using run_safe[of s "[]" ops] assms by auto
  then show ?thesis using apart[OF r(2)] by blast
qed

end

section \<open>The free list as an allocator\<close>

definition fl_all :: "freelist \<Rightarrow> addr list" where
  "fl_all fl = concat (map (blocks (fl_size fl) (fl_nmalloc fl)) (fl_chunks fl))"

definition chunk_apart :: "nat \<Rightarrow> addr \<Rightarrow> addr \<Rightarrow> bool" where
  "chunk_apart len a b \<longleftrightarrow> a + len \<le> b \<or> b + len \<le> a"

text \<open>\<open>fl_inv fl U\<close>: every block of every chunk is either on the free chain or in \<open>U\<close>.\<close>

definition fl_inv :: "freelist \<Rightarrow> addr set \<Rightarrow> bool" where
  "fl_inv fl U \<longleftrightarrow> 0 < fl_size fl \<and> 0 < fl_nmalloc fl \<and>
     (\<exists>xs. chain (fl_next fl) (fl_head fl) xs \<and> distinct xs
         \<and> fl_nBlocksAvailable fl = int (length xs) \<and> set xs \<inter> U = {}
         \<and> set xs \<union> U = set (fl_all fl))
     \<and> pairwise (chunk_apart (fl_nmalloc fl * fl_size fl)) (set (fl_chunks fl))"

text \<open>\<open>malloc\<close> returns memory that overlaps no chunk already allocated.\<close>

definition fl_fresh :: "freelist \<Rightarrow> ptr \<times> bool \<Rightarrow> bool" where
  "fl_fresh fl e = (case fst e of None \<Rightarrow> True
     | Some a \<Rightarrow> list_all (\<lambda>c. chunk_apart (fl_nmalloc fl * fl_size fl) a c) (fl_chunks fl))"

lemma block_bounds:
  assumes "x \<in> set (blocks sz k a)"
  shows "a \<le> x" "x + sz \<le> a + k * sz"
proof -
  obtain i where "x = a + i * sz" "i < k" using assms by (auto simp: set_blocks)
  moreover from this have "Suc i * sz \<le> k * sz" by (intro mult_le_mono1) simp
  ultimately show "a \<le> x" "x + sz \<le> a + k * sz" by auto
qed

lemma blocks_chunks_apart:
  assumes "chunk_apart (k * sz) a b" and "x \<in> set (blocks sz k a)" and "y \<in> set (blocks sz k b)"
  shows "x + sz \<le> y \<or> y + sz \<le> x"
  using assms block_bounds[OF assms(2)] block_bounds[OF assms(3)]
  unfolding chunk_apart_def by linarith

lemma all_blocks_apart:
  assumes "pairwise (chunk_apart (k * sz)) C" and "a \<in> C" "b \<in> C"
    and "x \<in> set (blocks sz k a)" and "y \<in> set (blocks sz k b)" and "x \<noteq> y"
  shows "x + sz \<le> y \<or> y + sz \<le> x"
proof (cases "a = b")
  case True
  then show ?thesis using blocks_apart assms by blast
next
  case False
  then have "chunk_apart (k * sz) a b" using assms(1-3) by (auto simp: pairwise_def)
  then show ?thesis using blocks_chunks_apart assms by blast
qed

lemma carve_spec:
  assumes "chain (fl_next fl) (fl_head fl) xs" and "0 < fl_size fl"
    and "set (blocks (fl_size fl) k a) \<inter> set xs = {}"
  shows "chain (fl_next (carve k a fl)) (fl_head (carve k a fl)) (rev (blocks (fl_size fl) k a) @ xs)
     \<and> fl_size (carve k a fl) = fl_size fl \<and> fl_nmalloc (carve k a fl) = fl_nmalloc fl
     \<and> fl_chunks (carve k a fl) = fl_chunks fl
     \<and> fl_nBlocksAvailable (carve k a fl) = fl_nBlocksAvailable fl"
  using assms
proof (induction k arbitrary: a fl xs)
  case 0
  then show ?case by simp
next
  case (Suc k)
  let ?fl = "fl\<lparr>fl_next := (fl_next fl)(a \<mapsto> fl_head fl), fl_head := Some a\<rparr>"
  have "a \<notin> set (blocks (fl_size fl) k (a + fl_size fl))"
    using distinct_blocks[OF Suc.prems(2), of "Suc k" a] by (simp add: blocks_Suc)
  then have d: "set (blocks (fl_size ?fl) k (a + fl_size fl)) \<inter> set (a # xs) = {}"
    using Suc.prems(3) by (auto simp: blocks_Suc)
  have "a \<notin> set xs" using Suc.prems(3) by (auto simp: blocks_Suc)
  then have c: "chain (fl_next ?fl) (fl_head ?fl) (a # xs)"
    using Suc.prems(1) by simp
  have z: "0 < fl_size ?fl" using Suc.prems(2) by simp
  show ?case using Suc.IH[OF c z d] by (simp only: carve.simps blocks_Suc rev.simps append_assoc) simp
qed

lemma adjust_ge: "sz \<le> adjustToWorstCaseAlignment align sz"
  unfolding adjustToWorstCaseAlignment_def Let_def
  by (split if_split) (intro conjI impI le_add1 order_refl)

lemma fl_inv_init: "0 < sz \<Longrightarrow> 0 < nm \<Longrightarrow> fl_inv (freeListInitPvt align sz nm) {}"
  using adjust_ge[of sz align] by (simp add: fl_inv_def freeListInitPvt_def fl_all_def)

text \<open>Taking the head off a non-empty chain.\<close>

lemma malloc_take:
  assumes c: "chain (fl_next fl) (fl_head fl) (b # xs)" and d: "distinct (b # xs)"
    and n: "fl_nBlocksAvailable fl = int (length (b # xs))" and u: "set (b # xs) \<inter> U = {}"
    and a: "set (b # xs) \<union> U = set (fl_all fl)"
    and p: "pairwise (chunk_apart (fl_nmalloc fl * fl_size fl)) (set (fl_chunks fl))"
    and z: "0 < fl_size fl" "0 < fl_nmalloc fl"
  shows "\<exists>nxt. fl_head fl = Some b \<and> fl_next fl b = Some nxt
     \<and> fl_inv (fl\<lparr>fl_head := nxt, fl_nBlocksAvailable := fl_nBlocksAvailable fl - 1\<rparr>) (insert b U)"
proof -
  obtain nxt where 1: "fl_head fl = Some b" "fl_next fl b = Some nxt" "chain (fl_next fl) nxt xs"
    using c by auto
  have "set xs \<union> insert b U = set (fl_all fl)" using a by auto
  then have "fl_inv (fl\<lparr>fl_head := nxt, fl_nBlocksAvailable := fl_nBlocksAvailable fl - 1\<rparr>) (insert b U)"
    unfolding fl_inv_def using 1 d n u p z by (auto simp: fl_all_def intro!: exI[of _ xs])
  with 1 show ?thesis by blast
qed

lemma fl_alloc_ok:
  assumes i: "fl_inv fl U" and f: "fl_fresh fl (mem, node)"
  shows "\<exists>p fl'. freeListMalloc mem node fl = Some (p, fl') \<and> fl_size fl' = fl_size fl
      \<and> (case p of None \<Rightarrow> fl_inv fl' U | Some b \<Rightarrow> b \<notin> U \<and> fl_inv fl' (insert b U))"
proof -
  obtain xs where c: "chain (fl_next fl) (fl_head fl) xs" and d: "distinct xs"
    and n: "fl_nBlocksAvailable fl = int (length xs)" and u: "set xs \<inter> U = {}"
    and a: "set xs \<union> U = set (fl_all fl)"
    and p: "pairwise (chunk_apart (fl_nmalloc fl * fl_size fl)) (set (fl_chunks fl))"
    and z: "0 < fl_size fl" "0 < fl_nmalloc fl"
    using i by (auto simp: fl_inv_def)
  consider "fl_head fl = None" "mem = None \<or> \<not> node" | b where "fl_head fl = Some b"
    | m where "fl_head fl = None" "mem = Some m" node by (cases "fl_head fl"; cases mem) auto
  then show ?thesis
  proof cases
    case 1
    then show ?thesis using i by (simp add: freeListMalloc_def)
  next
    case (2 b)
    then obtain ys where xs: "xs = b # ys" using c by (auto simp: chain_Some)
    from malloc_take[OF c[unfolded xs] d[unfolded xs] n[unfolded xs] u[unfolded xs] a[unfolded xs] p z]
    show ?thesis using 2 u xs by (auto simp: freeListMalloc_def)
  next
    case (3 m)
    let ?sz = "fl_size fl" and ?k = "fl_nmalloc fl"
    let ?fl0 = "carve ?k m (fl\<lparr>fl_chunks := m # fl_chunks fl\<rparr>)"
    let ?fl1 = "?fl0\<lparr>fl_nBlocksAvailable := fl_nBlocksAvailable ?fl0 + int ?k\<rparr>"
    let ?new = "blocks ?sz ?k m"
    have xs: "xs = []" using c 3 by simp
    have old: "U = set (fl_all fl)" using a xs by simp
    have sep: "chunk_apart (?k * ?sz) m y" if "y \<in> set (fl_chunks fl)" for y
      using f 3 that by (auto simp: fl_fresh_def list_all_iff)
    have fresh: "x \<noteq> y" if xy: "x \<in> set ?new" "y \<in> U" for x y
    proof -
      obtain ch where ch: "ch \<in> set (fl_chunks fl)" "y \<in> set (blocks ?sz ?k ch)"
        using xy(2) old by (auto simp: fl_all_def)
      from blocks_chunks_apart[OF sep[OF ch(1)] xy(1) ch(2)] show ?thesis using z by auto
    qed
    have cv: "chain (fl_next ?fl0) (fl_head ?fl0) (rev ?new)" "fl_size ?fl0 = ?sz" "fl_nmalloc ?fl0 = ?k"
      "fl_chunks ?fl0 = m # fl_chunks fl" "fl_nBlocksAvailable ?fl0 = fl_nBlocksAvailable fl"
      using carve_spec[of "fl\<lparr>fl_chunks := m # fl_chunks fl\<rparr>" "[]" ?k m] 3 z by auto
    obtain b ys where new: "rev ?new = b # ys"
      using z by (metis length_blocks length_rev list.exhaust list.size(3) less_numeral_extra(3))
    have "length (b # ys) = ?k" using new by (metis length_blocks length_rev)
    then have nn: "fl_nBlocksAvailable ?fl1 = int (length (b # ys))"
      using cv(5) n xs by simp
    have b: "b \<in> set ?new" "set (b # ys) = set ?new" using new by (metis list.set_intros(1) set_rev)+
    have dd: "distinct (b # ys)" using distinct_blocks[OF z(1), of ?k m] new by (metis distinct_rev)
    have uu: "set (b # ys) \<inter> U = {}" using fresh b(2) by blast
    have aa: "set (b # ys) \<union> U = set (fl_all ?fl1)" using b(2) old cv by (simp add: fl_all_def)
    have pp: "pairwise (chunk_apart (fl_nmalloc ?fl1 * fl_size ?fl1)) (set (fl_chunks ?fl1))"
      using p sep cv by (auto simp: pairwise_insert chunk_apart_def)
    have cc: "chain (fl_next ?fl1) (fl_head ?fl1) (b # ys)" using cv(1) new by simp
    have zz: "0 < fl_size ?fl1" "0 < fl_nmalloc ?fl1" using z cv by simp_all
    obtain nxt where t: "fl_head ?fl1 = Some b" "fl_next ?fl1 b = Some nxt"
      "fl_inv (?fl1\<lparr>fl_head := nxt, fl_nBlocksAvailable := fl_nBlocksAvailable ?fl1 - 1\<rparr>) (insert b U)"
      using malloc_take[OF cc dd nn uu aa pp zz] by blast
    have "freeListMalloc mem node fl = Some (Some b,
        ?fl1\<lparr>fl_head := nxt, fl_nBlocksAvailable := fl_nBlocksAvailable ?fl1 - 1\<rparr>)"
      using 3 t(1,2) by (simp add: freeListMalloc_def Let_def)
    then show ?thesis using t(3) uu cv(2) by auto
  qed
qed

lemma fl_free_ok:
  assumes i: "fl_inv fl U" and b: "b \<in> U"
  shows "fl_inv (freeListFree b fl) (U - {b})"
proof -
  obtain xs where c: "chain (fl_next fl) (fl_head fl) xs" and d: "distinct xs"
    and n: "fl_nBlocksAvailable fl = int (length xs)" and u: "set xs \<inter> U = {}"
    and a: "set xs \<union> U = set (fl_all fl)"
    using i by (auto simp: fl_inv_def)
  have bx: "b \<notin> set xs" using u b by auto
  have "chain (fl_next (freeListFree b fl)) (fl_head (freeListFree b fl)) (b # xs)"
    using c bx by (simp add: freeListFree_def)
  moreover have "fl_all (freeListFree b fl) = fl_all fl" by (simp add: fl_all_def freeListFree_def)
  moreover have "set (b # xs) \<union> (U - {b}) = set (fl_all fl)" using a b by auto
  ultimately show ?thesis unfolding fl_inv_def using i bx d n u
    by (intro conjI exI[of _ "b # xs"]) (auto simp: fl_inv_def freeListFree_def)
qed

text \<open>The blocks of one free list all have its block size \<open>w\<close>.\<close>

interpretation flalloc: block_allocator "\<lambda>fl U. fl_inv fl U \<and> fl_size fl = w" fl_fresh
  "\<lambda>fl b. fl_size fl" "\<lambda>e fl. freeListMalloc (fst e) (snd e) fl" "\<lambda>b fl. Some (freeListFree b fl)"
  for w
proof
  fix fl U and e :: "ptr \<times> bool"
  assume i: "fl_inv fl U \<and> fl_size fl = w" and f: "fl_fresh fl e"
  obtain p s' where a: "freeListMalloc (fst e) (snd e) fl = Some (p, s')" "fl_size s' = fl_size fl"
    "case p of None \<Rightarrow> fl_inv s' U | Some b \<Rightarrow> b \<notin> U \<and> fl_inv s' (insert b U)"
    using fl_alloc_ok[of fl U "fst e" "snd e"] i f by auto
  then show "\<exists>p s'. freeListMalloc (fst e) (snd e) fl = Some (p, s')
      \<and> (case p of None \<Rightarrow> fl_inv s' U \<and> fl_size s' = w
         | Some b \<Rightarrow> b \<notin> U \<and> fl_inv s' (insert b U) \<and> fl_size s' = w)"
    using i by (cases p) auto
next
  fix fl U b
  assume "fl_inv fl U \<and> fl_size fl = w" "b \<in> U"
  then show "\<exists>s'. Some (freeListFree b fl) = Some s' \<and> fl_inv s' (U - {b}) \<and> fl_size s' = w"
    using fl_free_ok[of fl U b] by (simp add: freeListFree_def)
next
  fix fl U x y
  assume i: "fl_inv fl U \<and> fl_size fl = w" and xy: "x \<in> U" "y \<in> U" "x \<noteq> y"
  then have "x \<in> set (fl_all fl)" "y \<in> set (fl_all fl)" by (auto simp: fl_inv_def)
  then obtain a b where "a \<in> set (fl_chunks fl)" "b \<in> set (fl_chunks fl)"
    "x \<in> set (blocks (fl_size fl) (fl_nmalloc fl) a)" "y \<in> set (blocks (fl_size fl) (fl_nmalloc fl) b)"
    by (auto simp: fl_all_def)
  with i xy(3) show "x + fl_size fl \<le> y \<or> y + fl_size fl \<le> x"
    using all_blocks_apart[of "fl_nmalloc fl" "fl_size fl" "set (fl_chunks fl)" a b x y]
    by (auto simp: fl_inv_def)
qed

section \<open>The module dbmf as an allocator\<close>

text \<open>\<open>m\<close> bytes at \<open>a\<close> and \<open>n\<close> bytes at \<open>b\<close> do not overlap.\<close>

definition regions_apart :: "addr \<Rightarrow> nat \<Rightarrow> addr \<Rightarrow> nat \<Rightarrow> bool" where
  "regions_apart a m b n \<longleftrightarrow> a + m \<le> b \<or> b + n \<le> a"

lemma regions_apart_sym: "regions_apart a m b n \<Longrightarrow> regions_apart b n a m"
  by (auto simp: regions_apart_def)

text \<open>The headers of a chunk (named by its control block), and of the large items.\<close>

definition items :: "dbmf \<Rightarrow> addr \<Rightarrow> addr list" where
  "items d c = blocks (d_allocSize d) (d_chunkItems d) (c - d_chunkSize d)"

definition large :: "dbmf \<Rightarrow> addr set" where
  "large d = {p. d_chunk d p = Some None}"

definition small :: "dbmf \<Rightarrow> addr set" where
  "small d = (\<Union>c \<in> set (d_chunkList d). set (items d c))"

definition shape_ok :: "dbmf \<Rightarrow> bool" where
  "shape_ok d \<longleftrightarrow> 0 < d_chunkItems d \<and> d_allocSize d = d_size d + headerSize
     \<and> d_chunkSize d = d_allocSize d * d_chunkItems d"

text \<open>Chunks and large items lie apart, and every item header names its chunk.\<close>

definition layout_ok :: "dbmf \<Rightarrow> bool" where
  "layout_ok d \<longleftrightarrow> distinct (d_chunkList d)
     \<and> (\<forall>c \<in> set (d_chunkList d). d_chunkSize d \<le> c)
     \<and> (\<forall>c \<in> set (d_chunkList d). \<forall>p \<in> set (items d c). d_chunk d p = Some (Some c))
     \<and> (\<forall>c \<in> set (d_chunkList d). \<forall>c' \<in> set (d_chunkList d). c \<noteq> c' \<longrightarrow>
          regions_apart (c - d_chunkSize d) (d_chunkSize d) (c' - d_chunkSize d) (d_chunkSize d))
     \<and> (\<forall>c \<in> set (d_chunkList d). \<forall>p \<in> large d.
          regions_apart (c - d_chunkSize d) (d_chunkSize d) p (d_allocSize d))
     \<and> (\<forall>p \<in> large d. \<forall>q \<in> large d. p \<noteq> q \<longrightarrow> regions_apart p (d_allocSize d) q (d_allocSize d))"

text \<open>The free list \<open>xs\<close> and the headers \<open>H\<close> in use share out the items; the counters count them.\<close>

definition dbmf_ok :: "dbmf \<Rightarrow> addr list \<Rightarrow> addr set \<Rightarrow> bool" where
  "dbmf_ok d xs H \<longleftrightarrow> shape_ok d \<and> layout_ok d
     \<and> chain (d_next d) (d_freeList d) xs \<and> distinct xs \<and> d_nFree d = int (length xs)
     \<and> finite H \<and> d_nAlloc d = int (card H)
     \<and> set xs \<subseteq> small d \<and> set xs \<inter> H = {} \<and> set xs \<union> H = small d \<union> large d"

definition dbmf_inv :: "dbmf \<Rightarrow> addr set \<Rightarrow> bool" where
  "dbmf_inv d U \<longleftrightarrow> (\<exists>xs H. dbmf_ok d xs H \<and> U = (\<lambda>h. h + headerSize) ` H)"

text \<open>What \<open>malloc\<close> may answer: memory for a chunk and for a large item, apart from everything live.\<close>

definition free_region :: "dbmf \<Rightarrow> addr \<Rightarrow> nat \<Rightarrow> bool" where
  "free_region d a n \<longleftrightarrow>
     (\<forall>c \<in> set (d_chunkList d). regions_apart (c - d_chunkSize d) (d_chunkSize d) a n)
     \<and> (\<forall>p \<in> large d. regions_apart p (d_allocSize d) a n)"

definition dbmf_fresh :: "dbmf \<Rightarrow> ptr \<times> ptr \<times> nat \<Rightarrow> bool" where
  "dbmf_fresh d e = (case e of (mem, big, sz) \<Rightarrow>
     (\<forall>m. mem = Some m \<longrightarrow> free_region d m (d_chunkSize d))
     \<and> big \<noteq> None \<and> (\<forall>p. big = Some p \<longrightarrow> free_region d p (headerSize + sz))
     \<and> (\<forall>m p. mem = Some m \<longrightarrow> big = Some p \<longrightarrow> regions_apart m (d_chunkSize d) p (headerSize + sz)))"

lemma headerSize_pos [simp]: "0 < headerSize"
  by (simp add: headerSize_def)

lemma shape_pos: "shape_ok d \<Longrightarrow> 0 < d_allocSize d \<and> 0 < d_chunkSize d"
  by (simp add: shape_ok_def)

lemma items_in:
  assumes "shape_ok d" and "p \<in> set (items d c)"
  shows "c - d_chunkSize d \<le> p" "p + d_allocSize d \<le> c - d_chunkSize d + d_chunkSize d"
  using block_bounds[of p "d_allocSize d" "d_chunkItems d" "c - d_chunkSize d"] assms
  by (simp_all add: items_def shape_ok_def mult.commute)

lemma small_large_disjoint: "layout_ok d \<Longrightarrow> small d \<inter> large d = {}"
  by (auto simp: layout_ok_def small_def large_def)

lemma headers_apart:
  assumes "shape_ok d" "layout_ok d" "p \<in> small d \<union> large d" "q \<in> small d \<union> large d" "p \<noteq> q"
  shows "p + d_allocSize d \<le> q \<or> q + d_allocSize d \<le> p"
proof -
  have ss: ?thesis if pq: "p \<in> small d" "q \<in> small d"
  proof -
    obtain c c' where c: "c \<in> set (d_chunkList d)" "p \<in> set (items d c)"
      and c': "c' \<in> set (d_chunkList d)" "q \<in> set (items d c')" using pq by (auto simp: small_def)
    show ?thesis
    proof (cases "c = c'")
      case True
      then show ?thesis using blocks_apart c(2) c'(2) assms(5) by (auto simp: items_def)
    next
      case False
      then have "regions_apart (c - d_chunkSize d) (d_chunkSize d) (c' - d_chunkSize d) (d_chunkSize d)"
        using assms(2) c c' by (auto simp: layout_ok_def)
      then show ?thesis using items_in[OF assms(1) c(2)] items_in[OF assms(1) c'(2)]
        unfolding regions_apart_def by linarith
    qed
  qed
  have sl: "a + d_allocSize d \<le> b \<or> b + d_allocSize d \<le> a" if ab: "a \<in> small d" "b \<in> large d" for a b
  proof -
    obtain c where c: "c \<in> set (d_chunkList d)" "a \<in> set (items d c)" using ab by (auto simp: small_def)
    then have "regions_apart (c - d_chunkSize d) (d_chunkSize d) b (d_allocSize d)"
      using assms(2) ab by (auto simp: layout_ok_def)
    then show ?thesis using items_in[OF assms(1) c(2)] unfolding regions_apart_def by linarith
  qed
  have "regions_apart p (d_allocSize d) q (d_allocSize d)" if "p \<in> large d" "q \<in> large d"
    using that assms(2,5) by (simp add: layout_ok_def)
  then show ?thesis using ss sl[of p q] sl[of q p] assms(3,4) by (auto simp: regions_apart_def)
qed

lemma dbmfCarve_spec:
  assumes "chain (d_next d) (d_freeList d) xs" and "0 < d_allocSize d"
    and "set (blocks (d_allocSize d) k a) \<inter> set xs = {}"
  shows "chain (d_next (dbmfCarve k c a d)) (d_freeList (dbmfCarve k c a d))
        (rev (blocks (d_allocSize d) k a) @ xs)
     \<and> d_chunk (dbmfCarve k c a d) =
        (\<lambda>p. if p \<in> set (blocks (d_allocSize d) k a) then Some (Some c) else d_chunk d p)
     \<and> d_nFree (dbmfCarve k c a d) = d_nFree d + int k
     \<and> d_size (dbmfCarve k c a d) = d_size d \<and> d_allocSize (dbmfCarve k c a d) = d_allocSize d
     \<and> d_chunkItems (dbmfCarve k c a d) = d_chunkItems d
     \<and> d_chunkSize (dbmfCarve k c a d) = d_chunkSize d \<and> d_nAlloc (dbmfCarve k c a d) = d_nAlloc d
     \<and> d_chunkList (dbmfCarve k c a d) = d_chunkList d"
  using assms
proof (induction k arbitrary: a d xs)
  case 0
  then show ?case by simp
next
  case (Suc k)
  let ?d = "d\<lparr>d_chunk := (d_chunk d)(a \<mapsto> Some c), d_next := (d_next d)(a \<mapsto> d_freeList d),
      d_freeList := Some a, d_nFree := d_nFree d + 1\<rparr>"
  have n: "a \<notin> set (blocks (d_allocSize d) k (a + d_allocSize d))"
    using distinct_blocks[OF Suc.prems(2), of "Suc k" a] by (simp add: blocks_Suc)
  then have i: "set (blocks (d_allocSize ?d) k (a + d_allocSize d)) \<inter> set (a # xs) = {}"
    using Suc.prems(3) by (auto simp: blocks_Suc)
  have "a \<notin> set xs" using Suc.prems(3) by (auto simp: blocks_Suc)
  then have h: "chain (d_next ?d) (d_freeList ?d) (a # xs)" using Suc.prems(1) by simp
  have z: "0 < d_allocSize ?d" using Suc.prems(2) by simp
  show ?case using Suc.IH[OF h z i] n
    by (simp only: dbmfCarve.simps blocks_Suc rev.simps append_assoc) (auto simp: fun_eq_iff)
qed

lemma small_large_upd [simp]:
  "small (d\<lparr>d_freeList := f, d_nAlloc := a, d_nFree := n, d_nNotFree := k\<rparr>) = small d"
  "large (d\<lparr>d_freeList := f, d_nAlloc := a, d_nFree := n, d_nNotFree := k\<rparr>) = large d"
  "small (d\<lparr>d_nNotFree := k, d_next := x, d_freeList := f, d_nAlloc := a, d_nFree := n\<rparr>) = small d"
  "large (d\<lparr>d_nNotFree := k, d_next := x, d_freeList := f, d_nAlloc := a, d_nFree := n\<rparr>) = large d"
  by (simp_all add: small_def large_def items_def)

text \<open>The invariant reads only the layout: bookkeeping updates keep it.\<close>

lemma layout_upd [simp]:
  "layout_ok (d\<lparr>d_freeList := f, d_nAlloc := a, d_nFree := n, d_nNotFree := k\<rparr>) = layout_ok d"
  "shape_ok (d\<lparr>d_freeList := f, d_nAlloc := a, d_nFree := n, d_nNotFree := k\<rparr>) = shape_ok d"
  "layout_ok (d\<lparr>d_nNotFree := k, d_next := x, d_freeList := f, d_nAlloc := a, d_nFree := n\<rparr>) = layout_ok d"
  "shape_ok (d\<lparr>d_nNotFree := k, d_next := x, d_freeList := f, d_nAlloc := a, d_nFree := n\<rparr>) = shape_ok d"
  by (simp_all add: layout_ok_def shape_ok_def large_def items_def)

lemma new_chunk_ok:
  assumes ok: "dbmf_ok d [] H" and free: "free_region d m (d_chunkSize d)"
  shows "\<exists>xs. xs \<noteq> [] \<and> dbmf_ok (dbmfNewChunk m d) xs H \<and> d_size (dbmfNewChunk m d) = d_size d
           \<and> d_allocSize (dbmfNewChunk m d) = d_allocSize d
           \<and> large (dbmfNewChunk m d) = large d
           \<and> d_chunkSize (dbmfNewChunk m d) = d_chunkSize d
           \<and> d_chunkList (dbmfNewChunk m d) = d_chunkList d @ [m + d_chunkSize d]"
proof -
  let ?c = "m + d_chunkSize d" and ?n = "dbmfNewChunk m d"
  let ?d0 = "d\<lparr>d_nNotFree := (d_nNotFree d)(m + d_chunkSize d := 0),
      d_chunkList := d_chunkList d @ [m + d_chunkSize d]\<rparr>"
  let ?b = "blocks (d_allocSize d) (d_chunkItems d) m"
  have sh: "shape_ok d" and ly: "layout_ok d" and fl: "d_freeList d = None" "d_nFree d = 0"
    and H: "finite H" "d_nAlloc d = int (card H)" "H = small d \<union> large d"
    using ok by (auto simp: dbmf_ok_def)
  have z: "0 < d_allocSize d" "0 < d_chunkItems d" "0 < d_chunkSize d"
    "d_chunkSize d = d_allocSize d * d_chunkItems d"
    using sh by (auto simp: shape_ok_def)
  have b: "m \<le> p" "p + d_allocSize d \<le> m + d_chunkSize d" if "p \<in> set ?b" for p
    using block_bounds[OF that] z by (simp_all add: mult.commute)
  have new: "p \<notin> set ?b" if p: "p \<in> small d \<union> large d" for p
  proof
    assume pb: "p \<in> set ?b"
    show False
    proof (cases "p \<in> large d")
      case True
      then have "regions_apart p (d_allocSize d) m (d_chunkSize d)" using free by (simp add: free_region_def)
      then show False using b[OF pb] z unfolding regions_apart_def by linarith
    next
      case False
      then obtain c where c: "c \<in> set (d_chunkList d)" "p \<in> set (items d c)"
        using p by (auto simp: small_def)
      then have "regions_apart (c - d_chunkSize d) (d_chunkSize d) m (d_chunkSize d)"
        using free by (simp add: free_region_def)
      then show False using b[OF pb] items_in[OF sh c(2)] z unfolding regions_apart_def by linarith
    qed
  qed
  have cN: "?c \<notin> set (d_chunkList d)"
  proof
    assume "?c \<in> set (d_chunkList d)"
    then have "regions_apart m (d_chunkSize d) m (d_chunkSize d)"
      using free unfolding free_region_def by force
    then show False using z unfolding regions_apart_def by linarith
  qed
  have sp: "chain (d_next ?n) (d_freeList ?n) (rev ?b @ [])" "d_nFree ?n = int (d_chunkItems d)"
    "d_chunk ?n = (\<lambda>p. if p \<in> set ?b then Some (Some ?c) else d_chunk d p)"
    "d_size ?n = d_size d" "d_allocSize ?n = d_allocSize d" "d_chunkItems ?n = d_chunkItems d"
    "d_chunkSize ?n = d_chunkSize d" "d_nAlloc ?n = d_nAlloc d" "d_chunkList ?n = d_chunkList d @ [?c]"
    using dbmfCarve_spec[of ?d0 "[]" "d_chunkItems d" m ?c] fl z(1)
    by (simp_all add: dbmfNewChunk_def Let_def cong: if_cong)
  have it: "items ?n c = items d c" for c by (simp add: items_def sp)
  have ib: "items d ?c = ?b" by (simp add: items_def)
  have sm: "small ?n = small d \<union> set ?b" by (auto simp: small_def it sp ib)
  have la: "large ?n = large d" using new by (auto simp: large_def sp)
  have hd: "d_chunk d p = Some (Some c)" "p \<notin> set ?b"
    if "c \<in> set (d_chunkList d)" "p \<in> set (items d c)" for c p
    using that ly new[of p] by (auto simp: layout_ok_def small_def)
  have free': "\<forall>c \<in> set (d_chunkList d). regions_apart m (d_chunkSize d) (c - d_chunkSize d) (d_chunkSize d)"
    "\<forall>p \<in> large d. regions_apart m (d_chunkSize d) p (d_allocSize d)"
    using free by (auto simp: free_region_def intro: regions_apart_sym)
  have ly': "layout_ok ?n"
    unfolding layout_ok_def la it sp
    using ly cN free hd free'
    by (auto simp: layout_ok_def free_region_def ib)
  have "shape_ok ?n" using sh by (simp add: shape_ok_def sp)
  moreover have "distinct (rev ?b)" using distinct_blocks[OF z(1)] by simp
  moreover have "set ?b \<inter> H = {}" using new H(3) by blast
  ultimately have "dbmf_ok ?n (rev ?b) H" unfolding dbmf_ok_def
    using ly' sp H sm la by auto
  moreover have "rev ?b \<noteq> []" using z(2) by (metis length_blocks length_rev list.size(3) neq0_conv)
  ultimately show ?thesis using sp la by blast
qed

lemma take_item_ok:
  assumes ok: "dbmf_ok d (b # xs) H"
  shows "\<exists>nxt c. d_freeList d = Some b \<and> d_next d b = Some nxt \<and> d_chunk d b = Some (Some c) \<and> b \<notin> H
     \<and> dbmf_ok (d\<lparr>d_freeList := nxt, d_nAlloc := d_nAlloc d + 1, d_nFree := d_nFree d - 1,
           d_nNotFree := (d_nNotFree d)(c := d_nNotFree d c + 1)\<rparr>) xs (insert b H)"
proof -
  obtain nxt where n: "d_freeList d = Some b" "d_next d b = Some nxt" "chain (d_next d) nxt xs"
    using ok by (auto simp: dbmf_ok_def)
  obtain c where c: "d_chunk d b = Some (Some c)"
    using ok by (fastforce simp: dbmf_ok_def small_def layout_ok_def)
  have "b \<notin> H" using ok by (auto simp: dbmf_ok_def)
  moreover have "set xs \<union> insert b H = small d \<union> large d" using ok by (auto simp: dbmf_ok_def)
  ultimately show ?thesis using ok n c by (auto simp: dbmf_ok_def)
qed

lemma take_large_ok:
  assumes ok: "dbmf_ok d xs H" and f: "free_region d p (headerSize + sz)" and sz: "d_size d < sz"
  shows "p \<notin> H \<and> dbmf_ok (d\<lparr>d_nAlloc := d_nAlloc d + 1, d_nGtSize := d_nGtSize d + 1,
           d_chunk := (d_chunk d)(p \<mapsto> None)\<rparr>) xs (insert p H)"
proof -
  let ?n = "d\<lparr>d_nAlloc := d_nAlloc d + 1, d_nGtSize := d_nGtSize d + 1,
      d_chunk := (d_chunk d)(p \<mapsto> None)\<rparr>"
  have sh: "shape_ok d" and ly: "layout_ok d" using ok by (auto simp: dbmf_ok_def)
  have w: "d_allocSize d \<le> headerSize + sz" using sh sz by (simp add: shape_ok_def)
  have apart: "q + d_allocSize d \<le> p \<or> p + d_allocSize d \<le> q" if q: "q \<in> small d \<union> large d" for q
  proof (cases "q \<in> large d")
    case True
    then have "regions_apart q (d_allocSize d) p (headerSize + sz)" using f by (simp add: free_region_def)
    then show ?thesis using w unfolding regions_apart_def by linarith
  next
    case False
    then obtain c where c: "c \<in> set (d_chunkList d)" "q \<in> set (items d c)" using q by (auto simp: small_def)
    then have "regions_apart (c - d_chunkSize d) (d_chunkSize d) p (headerSize + sz)"
      using f by (simp add: free_region_def)
    then show ?thesis using items_in[OF sh c(2)] w unfolding regions_apart_def by linarith
  qed
  then have pn: "p \<notin> small d" "p \<notin> large d" using shape_pos[OF sh] by force+
  have it: "items ?n c = items d c" for c by (simp add: items_def)
  have sm: "small ?n = small d" by (simp add: small_def it)
  have la: "large ?n = insert p (large d)" by (auto simp: large_def)
  have cp: "\<forall>c \<in> set (d_chunkList d). regions_apart (c - d_chunkSize d) (d_chunkSize d) p (d_allocSize d)"
    using f w by (force simp: free_region_def regions_apart_def)
  have pq: "\<forall>q \<in> large d. regions_apart p (d_allocSize d) q (d_allocSize d)
      \<and> regions_apart q (d_allocSize d) p (d_allocSize d)"
    using apart by (auto simp: regions_apart_def)
  have hd: "d_chunk ?n q = Some (Some c)" if "c \<in> set (d_chunkList d)" "q \<in> set (items d c)" for c q
    using that ly pn by (auto simp: layout_ok_def small_def)
  have "layout_ok ?n"
    unfolding layout_ok_def it la using ly cp pq hd by (simp add: layout_ok_def)
  moreover have "shape_ok ?n" using sh by (simp add: shape_ok_def)
  moreover have "p \<notin> H" using ok pn by (auto simp: dbmf_ok_def)
  moreover have "p \<notin> set xs" using ok pn by (auto simp: dbmf_ok_def)
  ultimately show ?thesis unfolding dbmf_ok_def sm la using ok by (auto simp: dbmf_ok_def)
qed

lemma dbmf_invI: "dbmf_ok d xs H \<Longrightarrow> dbmf_inv d ((\<lambda>h. h + headerSize) ` H)"
  by (auto simp: dbmf_inv_def)

text \<open>
  What one \<open>dbmfMalloc\<close> changes of the layout: at most one chunk, at \<open>mem\<close>, and a large item only
  for a request that does not fit an item of a chunk.
\<close>

definition dbmf_grew :: "ptr \<Rightarrow> ptr \<Rightarrow> nat \<Rightarrow> dbmf \<Rightarrow> ptr \<Rightarrow> dbmf \<Rightarrow> bool" where
  "dbmf_grew mem big sz d p d' \<longleftrightarrow> d_size d' = d_size d \<and> d_chunkSize d' = d_chunkSize d
     \<and> (\<forall>c \<in> set (d_chunkList d'). c \<in> set (d_chunkList d) \<or> mem = Some (c - d_chunkSize d))
     \<and> (case p of None \<Rightarrow> d' = d
        | Some b \<Rightarrow> if sz \<le> d_size d then large d' = large d
                    else \<exists>q. big = Some q \<and> b = q + headerSize \<and> large d' = insert q (large d))"

lemma dbmf_alloc_ok:
  assumes i: "dbmf_inv d U" and f: "dbmf_fresh d (mem, big, sz)"
  shows "\<exists>p d'. dbmfMalloc1 mem big sz d = Some (p, d') \<and> dbmf_grew mem big sz d p d'
      \<and> (case p of None \<Rightarrow> dbmf_inv d' U | Some b \<Rightarrow> b \<notin> U \<and> dbmf_inv d' (insert b U))"
proof -
  obtain xs H where ok: "dbmf_ok d xs H" and U: "U = (\<lambda>h. h + headerSize) ` H"
    using i by (auto simp: dbmf_inv_def)
  show ?thesis
  proof (cases "d_freeList d = None \<and> mem = None")
    case True
    then show ?thesis using i by (simp add: dbmfMalloc1_def dbmf_grew_def)
  next
    case False
    let ?d = "if d_freeList d = None then dbmfNewChunk (the mem) d else d"
    have "\<exists>ys. ys \<noteq> [] \<and> dbmf_ok ?d ys H \<and> d_size ?d = d_size d \<and> d_chunkSize ?d = d_chunkSize d
        \<and> large ?d = large d
        \<and> (\<forall>c \<in> set (d_chunkList ?d). c \<in> set (d_chunkList d) \<or> mem = Some (c - d_chunkSize d))
        \<and> (\<forall>p. big = Some p \<longrightarrow> free_region ?d p (headerSize + sz))"
    proof (cases "d_freeList d = None")
      case True
      then obtain m where m: "mem = Some m" using False by auto
      have "xs = []" using ok True by (simp add: dbmf_ok_def)
      then show ?thesis using new_chunk_ok[of d H m] ok True m f
        by (fastforce simp: dbmf_fresh_def free_region_def)
    next
      case False
      then have "xs \<noteq> []" using ok by (auto simp: dbmf_ok_def)
      then show ?thesis using False ok f by (auto simp: dbmf_fresh_def)
    qed
    then obtain b ys where n: "dbmf_ok ?d (b # ys) H" "d_size ?d = d_size d" "d_chunkSize ?d = d_chunkSize d"
      "large ?d = large d"
      "\<forall>c \<in> set (d_chunkList ?d). c \<in> set (d_chunkList d) \<or> mem = Some (c - d_chunkSize d)"
      "\<forall>p. big = Some p \<longrightarrow> free_region ?d p (headerSize + sz)" by (metis neq_Nil_conv)
    show ?thesis
    proof (cases "sz \<le> d_size ?d")
      case True
      from take_item_ok[OF n(1)] obtain nxt c where t: "d_freeList ?d = Some b" "d_next ?d b = Some nxt"
        "d_chunk ?d b = Some (Some c)" "b \<notin> H"
        "dbmf_ok (?d\<lparr>d_freeList := nxt, d_nAlloc := d_nAlloc ?d + 1, d_nFree := d_nFree ?d - 1,
           d_nNotFree := (d_nNotFree ?d)(c := d_nNotFree ?d c + 1)\<rparr>) ys (insert b H)" by blast
      let ?r = "?d\<lparr>d_freeList := nxt, d_nAlloc := d_nAlloc ?d + 1, d_nFree := d_nFree ?d - 1,
           d_nNotFree := (d_nNotFree ?d)(c := d_nNotFree ?d c + 1)\<rparr>"
      have "dbmfMalloc1 mem big sz d = Some (Some (b + headerSize), ?r)"
        unfolding dbmfMalloc1_def Let_def using False True t(1-3) by simp
      moreover have "b + headerSize \<notin> U" using t(4) U by auto
      moreover have "dbmf_grew mem big sz d (Some (b + headerSize)) ?r"
        using n(2-5) True by (simp add: dbmf_grew_def)
      ultimately show ?thesis using dbmf_invI[OF t(5)] unfolding U by force
    next
      case gt: False
      obtain p where p: "big = Some p" using f by (auto simp: dbmf_fresh_def)
      then have t: "p \<notin> H" "dbmf_ok (?d\<lparr>d_nAlloc := d_nAlloc ?d + 1, d_nGtSize := d_nGtSize ?d + 1,
           d_chunk := (d_chunk ?d)(p \<mapsto> None)\<rparr>) (b # ys) (insert p H)"
        using take_large_ok[OF n(1), of p sz] n(6) gt by auto
      let ?r = "?d\<lparr>d_nAlloc := d_nAlloc ?d + 1, d_nGtSize := d_nGtSize ?d + 1,
           d_chunk := (d_chunk ?d)(p \<mapsto> None)\<rparr>"
      have "dbmfMalloc1 mem big sz d = Some (Some (p + headerSize), ?r)"
        unfolding dbmfMalloc1_def Let_def using False gt p by simp
      moreover have "p + headerSize \<notin> U" using t(1) U by auto
      moreover have "large ?r = insert p (large ?d)" by (auto simp: large_def)
      then have "dbmf_grew mem big sz d (Some (p + headerSize)) ?r"
        using n(2-5) gt p by (simp add: dbmf_grew_def)
      ultimately show ?thesis using dbmf_invI[OF t(2)] unfolding U by force
    qed
  qed
qed

lemma free_item_ok:
  assumes ok: "dbmf_ok d xs H" and h: "h \<in> H" "d_chunk d h = Some (Some c)"
  shows "dbmf_ok (d\<lparr>d_nNotFree := (d_nNotFree d)(c := d_nNotFree d c - 1),
      d_next := (d_next d)(h \<mapsto> d_freeList d), d_freeList := Some h,
      d_nAlloc := d_nAlloc d - 1, d_nFree := d_nFree d + 1\<rparr>) (h # xs) (H - {h})"
proof -
  have "h \<notin> set xs" "finite H" using ok h by (auto simp: dbmf_ok_def)
  moreover have "h \<in> small d" using ok h by (auto simp: dbmf_ok_def large_def)
  moreover have "0 < card H" using \<open>finite H\<close> h by (auto simp: card_gt_0_iff)
  ultimately show ?thesis using ok h(1) by (auto simp: dbmf_ok_def)
qed

lemma free_large_ok:
  assumes ok: "dbmf_ok d xs H" and h: "h \<in> H" "d_chunk d h = Some None"
  shows "dbmf_ok (d\<lparr>d_nAlloc := d_nAlloc d - 1, d_chunk := (d_chunk d)(h := None)\<rparr>) xs (H - {h})"
proof -
  let ?n = "d\<lparr>d_nAlloc := d_nAlloc d - 1, d_chunk := (d_chunk d)(h := None)\<rparr>"
  have it: "items ?n c = items d c" for c by (simp add: items_def)
  have sm: "small ?n = small d" by (simp add: small_def it)
  have la: "large ?n = large d - {h}" by (auto simp: large_def)
  have ns: "h \<notin> small d"
    using ok h small_large_disjoint[of d] by (auto simp: dbmf_ok_def large_def)
  have hd: "d_chunk ?n q = Some (Some c)" if "c \<in> set (d_chunkList d)" "q \<in> set (items d c)" for c q
    using that ok ns by (auto simp: layout_ok_def small_def dbmf_ok_def)
  have "layout_ok ?n"
    unfolding layout_ok_def it la using ok hd by (simp add: layout_ok_def dbmf_ok_def)
  moreover have "shape_ok ?n" using ok by (simp add: shape_ok_def dbmf_ok_def)
  moreover have "0 < card H" using ok h by (auto simp: dbmf_ok_def card_gt_0_iff)
  moreover have "set xs \<union> (H - {h}) = small d \<union> (large d - {h})"
    using ok h ns by (auto simp: dbmf_ok_def)
  ultimately show ?thesis unfolding dbmf_ok_def sm la using ok h by (auto simp: dbmf_ok_def)
qed

lemma dbmf_free_ok:
  assumes i: "dbmf_inv d U" and b: "b \<in> U"
  shows "\<exists>d'. dbmfFree1 b d = Some d' \<and> dbmf_inv d' (U - {b}) \<and> d_size d' = d_size d
      \<and> d_chunkSize d' = d_chunkSize d \<and> d_chunkList d' = d_chunkList d
      \<and> large d' = large d - {b - headerSize}"
proof -
  obtain xs H where ok: "dbmf_ok d xs H" and U: "U = (\<lambda>h. h + headerSize) ` H"
    using i by (auto simp: dbmf_inv_def)
  obtain h where h: "h \<in> H" "b = h + headerSize" using b U by auto
  have U': "U - {b} = (\<lambda>h. h + headerSize) ` (H - {h})" using U h by auto
  have "h \<in> small d \<or> h \<in> large d" using ok h by (auto simp: dbmf_ok_def)
  then consider "d_chunk d h = Some None" | c where "d_chunk d h = Some (Some c)"
    using ok by (fastforce simp: dbmf_ok_def small_def large_def layout_ok_def)
  then show ?thesis
  proof cases
    case 1
    then show ?thesis
      using dbmf_invI[OF free_large_ok[OF ok h(1) 1]] unfolding U'
      by (auto simp: dbmfFree1_def h(2) large_def)
  next
    case (2 c)
    then show ?thesis
      using dbmf_invI[OF free_item_ok[OF ok h(1) 2]] unfolding U'
      by (auto simp: dbmfFree1_def h(2) large_def)
  qed
qed

section \<open>The sizes asked for\<close>

text \<open>
  What a client relies on is the number of bytes it asked for. The module does not store it, so the
  history keeps it beside the module: \<open>A\<close> gives the size each live block was asked for with.
\<close>

type_synonym sized = "dbmf \<times> (addr \<rightharpoonup> nat)"

definition dbmfGrant :: "ptr \<times> ptr \<times> nat \<Rightarrow> sized \<Rightarrow> (ptr \<times> sized) option" where
  "dbmfGrant e s = do {
     (p, d') \<leftarrow> dbmfMalloc1 (fst e) (fst (snd e)) (snd (snd e)) (fst s);
     Some (p, d', case p of None \<Rightarrow> snd s | Some b \<Rightarrow> (snd s)(b \<mapsto> snd (snd e))) }"

definition dbmfRelease :: "addr \<Rightarrow> sized \<Rightarrow> sized option" where
  "dbmfRelease b s = do {
     d' \<leftarrow> dbmfFree1 b (fst s);
     Some (d', (snd s)(b := None)) }"

text \<open>The bytes a large item takes: its header and what was asked for.\<close>

definition extent :: "(addr \<rightharpoonup> nat) \<Rightarrow> addr \<Rightarrow> nat" where
  "extent A p = headerSize + the (A (p + headerSize))"

definition sized_ok :: "dbmf \<Rightarrow> (addr \<rightharpoonup> nat) \<Rightarrow> bool" where
  "sized_ok d A \<longleftrightarrow>
     (\<forall>p n. A (p + headerSize) = Some n \<longrightarrow> p \<notin> large d \<longrightarrow> n \<le> d_size d)
     \<and> (\<forall>p \<in> large d. d_size d < the (A (p + headerSize)))
     \<and> (\<forall>c \<in> set (d_chunkList d). \<forall>p \<in> large d.
          regions_apart (c - d_chunkSize d) (d_chunkSize d) p (extent A p))
     \<and> (\<forall>p \<in> large d. \<forall>q \<in> large d. p \<noteq> q \<longrightarrow> regions_apart p (extent A p) q (extent A q))"

definition sized_inv :: "sized \<Rightarrow> addr set \<Rightarrow> bool" where
  "sized_inv s U \<longleftrightarrow> dbmf_inv (fst s) U \<and> dom (snd s) = U \<and> sized_ok (fst s) (snd s)"

text \<open>
  What \<open>malloc\<close> may answer: \<open>n\<close> bytes at \<open>a\<close> that are apart from every chunk and every large item,
  as large as they were asked for.
\<close>

definition live_region :: "sized \<Rightarrow> addr \<Rightarrow> nat \<Rightarrow> bool" where
  "live_region s a n \<longleftrightarrow>
     (\<forall>c \<in> set (d_chunkList (fst s)).
        regions_apart (c - d_chunkSize (fst s)) (d_chunkSize (fst s)) a n)
     \<and> (\<forall>p \<in> large (fst s). regions_apart p (extent (snd s) p) a n)"

definition sized_fresh :: "sized \<Rightarrow> ptr \<times> ptr \<times> nat \<Rightarrow> bool" where
  "sized_fresh s e = (case e of (mem, big, sz) \<Rightarrow>
     (\<forall>m. mem = Some m \<longrightarrow> live_region s m (d_chunkSize (fst s)))
     \<and> big \<noteq> None \<and> (\<forall>p. big = Some p \<longrightarrow> live_region s p (headerSize + sz))
     \<and> (\<forall>m p. mem = Some m \<longrightarrow> big = Some p \<longrightarrow>
          regions_apart m (d_chunkSize (fst s)) p (headerSize + sz)))"

lemma regions_apart_mono: "regions_apart a m b n \<Longrightarrow> m' \<le> m \<Longrightarrow> n' \<le> n \<Longrightarrow> regions_apart a m' b n'"
  by (auto simp: regions_apart_def)

lemma inv_shape:
  assumes "dbmf_inv d U"
  shows "shape_ok d" "layout_ok d" "\<And>p. p \<in> large d \<Longrightarrow> p + headerSize \<in> U"
    "\<And>p. p + headerSize \<in> U \<Longrightarrow> p \<in> small d \<union> large d"
    "\<And>x. x \<in> U \<Longrightarrow> \<exists>p. x = p + headerSize"
proof -
  obtain xs H where ok: "dbmf_ok d xs H" and U: "U = (\<lambda>h. h + headerSize) ` H"
    using assms by (auto simp: dbmf_inv_def)
  then show "shape_ok d" "layout_ok d" by (simp_all add: dbmf_ok_def)
  then have "large d \<subseteq> H" using ok small_large_disjoint[of d] by (auto simp: dbmf_ok_def)
  then show "p + headerSize \<in> U" if "p \<in> large d" for p using that U by blast
  show "p \<in> small d \<union> large d" if "p + headerSize \<in> U" for p using that U ok by (auto simp: dbmf_ok_def)
  show "\<exists>p. x = p + headerSize" if "x \<in> U" for x using that U by auto
qed

lemma sized_fresh_dbmf:
  assumes i: "sized_inv s U" and f: "sized_fresh s e"
  shows "dbmf_fresh (fst s) e"
proof -
  have ext: "d_allocSize (fst s) \<le> extent (snd s) p" if "p \<in> large (fst s)" for p
    using i inv_shape(1)[of "fst s" U] that by (auto simp: sized_inv_def sized_ok_def extent_def shape_ok_def)
  have reg: "free_region (fst s) a n" if "live_region s a n" for a n
    using that ext unfolding free_region_def live_region_def by (meson regions_apart_mono order_refl)
  show ?thesis
    using f reg unfolding dbmf_fresh_def sized_fresh_def by (auto split: prod.splits)
qed

lemma sized_alloc_ok:
  assumes i: "sized_inv s U" and f: "sized_fresh s e"
  shows "\<exists>p s'. dbmfGrant e s = Some (p, s')
      \<and> (case p of None \<Rightarrow> sized_inv s' U | Some b \<Rightarrow> b \<notin> U \<and> sized_inv s' (insert b U))"
proof -
  obtain d A where s: "s = (d, A)" by (cases s)
  obtain mem big sz where e: "e = (mem, big, sz)" by (cases e) auto
  have di: "dbmf_inv d U" and dA: "dom A = U" and ok: "sized_ok d A"
    using i s by (auto simp: sized_inv_def)
  obtain p d' where a: "dbmfMalloc1 mem big sz d = Some (p, d')" and g: "dbmf_grew mem big sz d p d'"
    and inv': "case p of None \<Rightarrow> dbmf_inv d' U | Some b \<Rightarrow> b \<notin> U \<and> dbmf_inv d' (insert b U)"
    using dbmf_alloc_ok[OF di] sized_fresh_dbmf[OF i f] e s by fastforce
  show ?thesis
  proof (cases p)
    case None
    then show ?thesis using a g i s e by (simp add: dbmfGrant_def dbmf_grew_def)
  next
    case (Some b)
    let ?A = "A(b \<mapsto> sz)"
    have bU: "b \<notin> U" and ib: "dbmf_inv d' (insert b U)" using inv' Some by auto
    obtain h where h: "b = h + headerSize" using inv_shape(5)[OF ib] by auto
    have hl: "h \<notin> large d" using inv_shape(3)[OF di] bU h by auto
    have ext: "extent ?A q = (if q = h then headerSize + sz else extent A q)" for q
      by (simp add: extent_def h)
    have le: "d_size d' = d_size d" "d_chunkSize d' = d_chunkSize d" using g by (auto simp: dbmf_grew_def)
    have ch: "live_region s (c - d_chunkSize d) (d_chunkSize d)"
      if "c \<in> set (d_chunkList d')" "c \<notin> set (d_chunkList d)" for c
      using that g f s e by (auto simp: dbmf_grew_def sized_fresh_def)
    have old: "regions_apart (c - d_chunkSize d) (d_chunkSize d) q (extent A q)"
      if c: "c \<in> set (d_chunkList d')" and q: "q \<in> large d" for c q
    proof (cases "c \<in> set (d_chunkList d)")
      case True
      then show ?thesis using ok q by (simp add: sized_ok_def)
    next
      case False
      then show ?thesis using ch[OF c] q s by (simp add: live_region_def regions_apart_sym)
    qed
    have "sized_ok d' ?A"
    proof (cases "sz \<le> d_size d")
      case True
      then have "large d' = large d" using g Some by (simp add: dbmf_grew_def)
      then show ?thesis
        unfolding sized_ok_def ext le using ok old hl True h by (auto simp: sized_ok_def)
    next
      case False
      then have la: "large d' = insert h (large d)" and bg: "big = Some h"
        using g Some h by (auto simp: dbmf_grew_def)
      have new: "live_region s h (headerSize + sz)" using f e bg by (simp add: sized_fresh_def)
      have "regions_apart (c - d_chunkSize d) (d_chunkSize d) h (headerSize + sz)"
        if c: "c \<in> set (d_chunkList d')" for c
      proof (cases "c \<in> set (d_chunkList d)")
        case True
        then show ?thesis using new s by (simp add: live_region_def)
      next
        case False
        then have "mem = Some (c - d_chunkSize d)" using g c by (auto simp: dbmf_grew_def)
        then show ?thesis using f e bg s by (simp add: sized_fresh_def)
      qed
      moreover have "regions_apart q (extent A q) h (headerSize + sz)
          \<and> regions_apart h (headerSize + sz) q (extent A q)" if "q \<in> large d" for q
        using new that s by (simp add: live_region_def regions_apart_sym)
      ultimately show ?thesis
        unfolding sized_ok_def ext le la using ok old hl False h by (auto simp: sized_ok_def)
    qed
    then show ?thesis using a Some bU ib dA s e by (auto simp: dbmfGrant_def sized_inv_def)
  qed
qed

lemma sized_free_ok:
  assumes i: "sized_inv s U" and b: "b \<in> U"
  shows "\<exists>s'. dbmfRelease b s = Some s' \<and> sized_inv s' (U - {b})"
proof -
  obtain d A where s: "s = (d, A)" by (cases s)
  have di: "dbmf_inv d U" and dA: "dom A = U" and ok: "sized_ok d A"
    using i s by (auto simp: sized_inv_def)
  obtain d' where r: "dbmfFree1 b d = Some d'" "dbmf_inv d' (U - {b})" and d: "d_size d' = d_size d"
    "d_chunkSize d' = d_chunkSize d" "d_chunkList d' = d_chunkList d" "large d' = large d - {b - headerSize}"
    using dbmf_free_ok[OF di b] by auto
  obtain h where h: "b = h + headerSize" using inv_shape(5)[OF di b] by auto
  have ext: "extent (A(b := None)) q = extent A q" if "q \<noteq> h" for q
    using that by (simp add: extent_def h)
  have "sized_ok d' (A(b := None))"
    unfolding sized_ok_def d using ok ext by (auto simp: h sized_ok_def)
  then show ?thesis using r dA s by (auto simp: dbmfRelease_def sized_inv_def)
qed

lemma sized_apart:
  assumes i: "sized_inv s U" and xy: "x \<in> U" "y \<in> U" "x \<noteq> y"
  shows "x + the (snd s x) \<le> y \<or> y + the (snd s y) \<le> x"
proof -
  obtain d A where s: "s = (d, A)" by (cases s)
  have di: "dbmf_inv d U" and dA: "dom A = U" and ok: "sized_ok d A"
    using i s by (auto simp: sized_inv_def)
  note sh = inv_shape(1)[OF di] and ly = inv_shape(2)[OF di]
  obtain p q where p: "x = p + headerSize" and q: "y = q + headerSize"
    using inv_shape(5)[OF di] xy by meson
  have fit: "headerSize + the (A (r + headerSize)) \<le> d_allocSize d"
    if r: "r \<notin> large d" "r + headerSize \<in> U" for r
  proof -
    obtain n where "A (r + headerSize) = Some n" using r(2) dA by blast
    then show ?thesis using ok r(1) sh by (fastforce simp: sized_ok_def shape_ok_def)
  qed
  have sl: "a + headerSize + the (A (a + headerSize)) \<le> b \<or> b + extent A b \<le> a"
    if a: "a \<notin> large d" "a + headerSize \<in> U" and b: "b \<in> large d" for a b
  proof -
    obtain c where c: "c \<in> set (d_chunkList d)" "a \<in> set (items d c)"
      using a inv_shape(4)[OF di] by (auto simp: small_def)
    then have "regions_apart (c - d_chunkSize d) (d_chunkSize d) b (extent A b)"
      using ok b by (simp add: sized_ok_def)
    then show ?thesis using items_in[OF sh c(2)] fit[OF a] unfolding regions_apart_def by linarith
  qed
  consider "p \<in> large d" "q \<in> large d" | "p \<in> large d" "q \<notin> large d" | "p \<notin> large d" "q \<in> large d"
    | "p \<notin> large d" "q \<notin> large d" by blast
  then show ?thesis
  proof cases
    case 1
    then have "regions_apart p (extent A p) q (extent A q)" using ok xy(3) p q by (simp add: sized_ok_def)
    then show ?thesis by (auto simp: regions_apart_def extent_def p q s)
  next
    case 2
    then show ?thesis using sl[of q p] xy by (auto simp: extent_def p q s)
  next
    case 3
    then show ?thesis using sl[of p q] xy by (auto simp: extent_def p q s)
  next
    case 4
    have "p + d_allocSize d \<le> q \<or> q + d_allocSize d \<le> p"
      using headers_apart[OF sh ly] inv_shape(4)[OF di] xy p q by auto
    then show ?thesis using fit[of p] fit[of q] 4 xy p q by (auto simp: s)
  qed
qed

interpretation dbmfalloc: block_allocator sized_inv sized_fresh "\<lambda>s x. the (snd s x)" dbmfGrant dbmfRelease
  by unfold_locales (use sized_alloc_ok sized_free_ok sized_apart in blast)+

lemma dbmfInit_ok: "0 < n \<Longrightarrow> \<exists>d. dbmfInit sz n None = (0, Some d) \<and> dbmf_inv d {}
    \<and> d_allocSize d = sz + sz mod doubleSize + headerSize"
  by (auto simp: dbmfInit_def dbmf_inv_def dbmf_ok_def shape_ok_def layout_ok_def small_def large_def
      Let_def)

lemma card_small: "shape_ok d \<Longrightarrow> layout_ok d \<Longrightarrow>
    card (small d) = d_chunkItems d * length (d_chunkList d)"
proof -
  assume sh: "shape_ok d" and ly: "layout_ok d"
  have c: "card (set (items d c)) = d_chunkItems d" for c
    using shape_pos[OF sh] by (simp add: items_def distinct_card distinct_blocks)
  have "card (small d) = (\<Sum>c \<in> set (d_chunkList d). card (set (items d c)))"
    unfolding small_def
  proof (rule card_UN_disjoint)
    show "\<forall>c\<in>set (d_chunkList d). \<forall>c'\<in>set (d_chunkList d).
        c \<noteq> c' \<longrightarrow> set (items d c) \<inter> set (items d c') = {}"
    proof (intro ballI impI)
      fix c c'
      assume "c \<in> set (d_chunkList d)" "c' \<in> set (d_chunkList d)" and ne: "c \<noteq> c'"
      then have "\<forall>p \<in> set (items d c). d_chunk d p = Some (Some c)"
        "\<forall>p \<in> set (items d c'). d_chunk d p = Some (Some c')"
        using ly by (simp_all add: layout_ok_def)
      with ne show "set (items d c) \<inter> set (items d c') = {}" by fastforce
    qed
  qed auto
  then show ?thesis using ly by (simp add: c layout_ok_def distinct_card)
qed

text \<open>The counter test of \<open>dbmfFreeChunks\<close> holds exactly when no item of a chunk is in use.\<close>

lemma all_free_iff:
  assumes ok: "dbmf_ok d xs H"
  shows "d_nFree d = int (d_chunkItems d) * int (length (d_chunkList d)) \<longleftrightarrow> H \<inter> small d = {}"
proof -
  have sm: "finite (small d)" by (simp add: small_def)
  have card: "card (small d) = d_chunkItems d * length (d_chunkList d)"
    using ok by (auto simp: dbmf_ok_def card_small)
  have xs: "set xs \<subseteq> small d" "length xs = card (set xs)" "d_nFree d = int (length xs)"
    using ok by (auto simp: dbmf_ok_def distinct_card)
  have "d_nFree d = int (d_chunkItems d) * int (length (d_chunkList d)) \<longleftrightarrow> card (set xs) = card (small d)"
    using xs card by (simp flip: of_nat_mult)
  also have "\<dots> \<longleftrightarrow> set xs = small d" using xs(1) sm card_subset_eq by metis
  also have "\<dots> \<longleftrightarrow> H \<inter> small d = {}" using ok by (auto simp: dbmf_ok_def)
  finally show ?thesis .
qed

text \<open>Giving the chunks back drops exactly the items, and the invariant still holds for what is held.\<close>

lemma free_chunks_ok:
  assumes ok: "dbmf_ok d xs H" and all: "H \<inter> small d = {}"
  shows "dbmfFreeChunks1 d = (map (\<lambda>c. c - d_chunkSize d) (d_chunkList d), snd (dbmfFreeChunks1 d))
     \<and> dbmf_ok (snd (dbmfFreeChunks1 d)) [] H"
proof -
  let ?n = "snd (dbmfFreeChunks1 d)"
  have t: "d_nFree d = int (d_chunkItems d) * int (length (d_chunkList d))"
    using all_free_iff[OF ok] all by simp
  have n: "?n = d\<lparr>d_chunkList := [], d_nFree := 0, d_freeList := None,
      d_chunk := (\<lambda>p. case d_chunk d p of Some (Some c) \<Rightarrow> None | h \<Rightarrow> h)\<rparr>"
    using t by (simp add: dbmfFreeChunks1_def)
  have la: "large ?n = large d" by (auto simp: n large_def split: option.splits)
  have sm: "small ?n = {}" by (simp add: n small_def)
  have "H = large d" using ok all small_large_disjoint[of d] by (auto simp: dbmf_ok_def)
  moreover have "layout_ok ?n" using ok unfolding layout_ok_def la by (simp add: n dbmf_ok_def layout_ok_def)
  ultimately have "dbmf_ok ?n [] H" unfolding dbmf_ok_def la sm
    using ok by (simp add: n dbmf_ok_def shape_ok_def)
  then show ?thesis using t by (simp add: dbmfFreeChunks1_def)
qed

section \<open>Properties\<close>

text \<open>C3. Whatever sequence of \<open>freeListMalloc\<close> and \<open>freeListFree\<close> a client makes, and whichever of
  the underlying allocations fail, \<open>freeListLib\<close> never faults and the blocks held at any time are
  distinct and do not overlap: no block is handed out twice, across refills and reuse.\<close>

theorem freeList_blocks_disjoint:
  assumes "0 < sz" and "0 < nm"
    and "env_ok (\<lambda>e fl. freeListMalloc (fst e) (snd e) fl) (\<lambda>b fl. Some (freeListFree b fl)) fl_fresh
           (freeListInitPvt align sz nm) [] ops"
  shows "\<exists>held fl. arun (\<lambda>e fl. freeListMalloc (fst e) (snd e) fl) (\<lambda>b fl. Some (freeListFree b fl))
           (freeListInitPvt align sz nm) [] ops = Some (held, fl)
       \<and> distinct held \<and> (\<forall>x \<in> set held. \<forall>y \<in> set held. x \<noteq> y \<longrightarrow> x + sz \<le> y \<or> y + sz \<le> x)"
proof -
  let ?w = "fl_size (freeListInitPvt align sz nm)"
  have w: "sz \<le> ?w" by (simp add: freeListInitPvt_def adjust_ge)
  have i: "fl_inv (freeListInitPvt align sz nm) {} \<and> fl_size (freeListInitPvt align sz nm) = ?w"
    using fl_inv_init[OF assms(1,2)] by simp
  obtain held fl where r: "arun (\<lambda>e fl. freeListMalloc (fst e) (snd e) fl)
      (\<lambda>b fl. Some (freeListFree b fl)) (freeListInitPvt align sz nm) [] ops = Some (held, fl)"
    "distinct held" "\<forall>x \<in> set held. \<forall>y \<in> set held. x \<noteq> y \<longrightarrow> x + ?w \<le> y \<or> y + ?w \<le> x"
    using flalloc.run_disjoint[OF i assms(3)] by fastforce
  then have "\<forall>x \<in> set held. \<forall>y \<in> set held. x \<noteq> y \<longrightarrow> x + sz \<le> y \<or> y + sz \<le> x"
    using w by (meson add_left_mono order_trans)
  with r show ?thesis by blast
qed

theorem freeList_blocks_disjoint_witness:
  "\<exists>held fl. arun (\<lambda>e fl. freeListMalloc (fst e) (snd e) fl) (\<lambda>b fl. Some (freeListFree b fl))
       (freeListInitPvt 8 5 2) [] [Alloc (Some 1000, True), Alloc (None, True), Free 0,
         Alloc (None, True), Alloc (Some 3000, True)] = Some (held, fl) \<and> distinct held"
proof -
  have "env_ok (\<lambda>e fl. freeListMalloc (fst e) (snd e) fl) (\<lambda>b fl. Some (freeListFree b fl)) fl_fresh
       (freeListInitPvt 8 5 2) [] [Alloc (Some 1000, True), Alloc (None, True), Free 0,
         Alloc (None, True), Alloc (Some 3000, True)]"
    by (simp add: freeListInitPvt_def adjustToWorstCaseAlignment_def freeListMalloc_def freeListFree_def
        fl_fresh_def chunk_apart_def Let_def numeral_2_eq_2)
  from freeList_blocks_disjoint[OF _ _ this] show ?thesis by auto
qed

text \<open>C4. The same for \<open>dbmf\<close>: for every sequence of \<open>dbmfMalloc\<close> (items that fit a chunk and
  larger ones) and \<open>dbmfFree\<close> on the initialized module, provided \<open>malloc\<close> answers with memory that
  is apart from what is live and does not fail for a large item (the code does not check that), no
  call faults and any two live blocks are apart over the full number of bytes each was asked for.\<close>

theorem dbmf_blocks_disjoint:
  assumes "0 < n" and "dbmfInit sz n None = (0, Some d)"
    and "env_ok dbmfGrant dbmfRelease sized_fresh (d, Map.empty) [] ops"
  shows "\<exists>held d' A. arun dbmfGrant dbmfRelease (d, Map.empty) [] ops = Some (held, d', A)
       \<and> distinct held \<and> d_nAlloc d' = int (length held) \<and> dom A = set held
       \<and> (\<forall>x \<in> set held. \<forall>y \<in> set held. x \<noteq> y \<longrightarrow> x + the (A x) \<le> y \<or> y + the (A y) \<le> x)"
proof -
  have "dbmf_inv d {}" "large d = {}" using dbmfInit_ok[OF assms(1), of sz] assms(2)
    by (auto simp: dbmfInit_def large_def Let_def)
  then have i: "sized_inv (d, Map.empty) {}" by (simp add: sized_inv_def sized_ok_def)
  obtain held s where r: "arun dbmfGrant dbmfRelease (d, Map.empty) [] ops = Some (held, s)"
      "sized_inv s (set held)" "distinct held"
      "\<forall>x \<in> set held. \<forall>y \<in> set held. x \<noteq> y \<longrightarrow> x + the (snd s x) \<le> y \<or> y + the (snd s y) \<le> x"
    using dbmfalloc.run_disjoint[OF i assms(3)] by auto
  obtain d' A where s: "s = (d', A)" by (cases s)
  obtain xs H where ok: "dbmf_ok d' xs H" and U: "set held = (\<lambda>h. h + headerSize) ` H"
    using r(2) by (auto simp: sized_inv_def dbmf_inv_def s)
  then have "d_nAlloc d' = int (card (set held))" by (simp add: card_image dbmf_ok_def)
  with r show ?thesis by (auto simp: distinct_card s sized_inv_def)
qed

lemma dbmfCarve_num [simp]:
  "dbmfCarve (numeral k) c p d = dbmfCarve (pred_numeral k) c (p + d_allocSize d)
       (d\<lparr>d_chunk := (d_chunk d)(p \<mapsto> Some c), d_next := (d_next d)(p \<mapsto> d_freeList d),
          d_freeList := Some p, d_nFree := d_nFree d + 1\<rparr>)"
  by (simp add: numeral_eq_Suc)

theorem dbmf_blocks_disjoint_witness:
  "\<exists>held d' A. arun dbmfGrant dbmfRelease (the (snd (dbmfInit 8 2 None)), Map.empty) []
       [Alloc (Some 1000, Some 5000, 4), Alloc (None, Some 6000, 100), Free 1, Alloc (None, Some 7000, 8)]
     = Some (held, d', A) \<and> distinct held \<and> d_nAlloc d' = int (length held)
       \<and> (\<forall>x \<in> set held. \<forall>y \<in> set held. x \<noteq> y \<longrightarrow> x + the (A x) \<le> y \<or> y + the (A y) \<le> x)"
proof -
  let ?d0 = "the (snd (dbmfInit 8 2 None))"
  have f0: "sized_fresh (?d0, Map.empty) (Some 1000, Some 5000, 4)"
    by (simp add: sized_fresh_def live_region_def regions_apart_def large_def dbmfInit_def Let_def
        headerSize_def doubleSize_def)
  have "env_ok dbmfGrant dbmfRelease sized_fresh (?d0, Map.empty) [] [Alloc (Some 1000, Some 5000, 4),
         Alloc (None, Some 6000, 100), Free 1, Alloc (None, Some 7000, 8)]"
    using f0
    by (simp add: dbmfInit_def doubleSize_def headerSize_def dbmfMalloc1_def dbmfFree1_def dbmfNewChunk_def
        sized_fresh_def live_region_def regions_apart_def large_def extent_def dbmfGrant_def
        dbmfRelease_def Let_def)
  moreover have "dbmfInit 8 2 None = (0, Some (the (snd (dbmfInit 8 2 None))))"
    by (simp add: dbmfInit_def Let_def)
  ultimately show ?thesis using dbmf_blocks_disjoint[of 2 8] by fastforce
qed

text \<open>\<open>dbmfFreeChunks\<close> gives the chunks back exactly when no item of a chunk is in use; otherwise
  it changes nothing. Either way every block still held stays valid.\<close>

theorem dbmfFreeChunks_safe:
  assumes "dbmf_inv d U"
  shows "\<exists>freed d'. dbmfFreeChunks (Some d) = (freed, Some d') \<and> dbmf_inv d' U
       \<and> (if \<forall>u \<in> U. d_chunk d (u - headerSize) = Some None
          then freed = map (\<lambda>c. c - d_chunkSize d) (d_chunkList d) \<and> d_chunkList d' = []
          else freed = [] \<and> d' = d)"
proof -
  obtain xs H where ok: "dbmf_ok d xs H" and U: "U = (\<lambda>h. h + headerSize) ` H"
    using assms by (auto simp: dbmf_inv_def)
  have "(\<forall>u \<in> U. d_chunk d (u - headerSize) = Some None) \<longleftrightarrow> H \<subseteq> large d"
    by (auto simp: U large_def)
  also have "\<dots> \<longleftrightarrow> H \<inter> small d = {}"
    using ok small_large_disjoint[of d] by (auto simp: dbmf_ok_def)
  finally have iff: "(\<forall>u \<in> U. d_chunk d (u - headerSize) = Some None) \<longleftrightarrow> H \<inter> small d = {}" .
  show ?thesis
  proof (cases "H \<inter> small d = {}")
    case True
    from free_chunks_ok[OF ok True] have "dbmf_inv (snd (dbmfFreeChunks1 d)) U"
      using dbmf_invI U by blast
    moreover have "d_nFree d = int (d_chunkItems d) * int (length (d_chunkList d))"
      using all_free_iff[OF ok] True by simp
    ultimately show ?thesis using iff True by (simp add: dbmfFreeChunks_def dbmfFreeChunks1_def)
  next
    case False
    then have "d_nFree d \<noteq> int (d_chunkItems d) * int (length (d_chunkList d))"
      using all_free_iff[OF ok] by simp
    then show ?thesis using iff False assms by (auto simp: dbmfFreeChunks_def dbmfFreeChunks1_def)
  qed
qed

theorem dbmfFreeChunks_safe_witness:
  "\<exists>freed d'. dbmfFreeChunks (snd (dbmfInit 8 2 None)) = (freed, Some d') \<and> dbmf_inv d' {}"
proof -
  obtain d where "dbmfInit 8 2 None = (0, Some d)" "dbmf_inv d {}" using dbmfInit_ok[of 2 8] by auto
  with dbmfFreeChunks_safe[of d "{}"] show ?thesis by auto
qed

end
