(* ===== verification/GpHash.thy ===== *)
theory GpHash
  imports Prelude
begin

text \<open>
  The general purpose hash directory \<open>base/src/libCom/gpHash/gpHashLib.c\<close>: Pearson's hash, a table
  of lists of entries, and find, add, delete and free. A bucket is the list of its entries in list
  order (the lists are those of \<open>EllLib\<close>); an entry is found by name and \<open>pvtid\<close>. A C string is the
  list of its characters before the terminating NUL.
\<close>

unbundle bit_operations_syntax

section \<open>The hash\<close>

definition T :: "nat list" where
  "T = [
  39,159,180,252, 71,  6, 13,164,232, 35,226,155, 98,120,154, 69,
 157, 24,137, 29,147, 78,121, 85,112,  8,248,130, 55,117,190,160,
 176,131,228, 64,211,106, 38, 27,140, 30, 88,210,227,104, 84, 77,
  75,107,169,138,195,184, 70, 90, 61,166,  7,244,165,108,219, 51,
   9,139,209, 40, 31,202, 58,179,116, 33,207,146, 76, 60,242,124,
 254,197, 80,167,153,145,129,233,132, 48,246, 86,156,177, 36,187,
  45,  1, 96, 18, 19, 62,185,234, 99, 16,218, 95,128,224,123,253,
  42,109,  4,247, 72,  5,151,136,  0,152,148,127,204,133, 17, 14,
 182,217, 54,199,119,174, 82, 57,215, 41,114,208,206,110,239, 23,
 189, 15,  3, 22,188, 79,113,172, 28,  2,222, 21,251,225,237,105,
 102, 32, 56,181,126, 83,230, 53,158, 52, 59,213,118,100, 67,142,
 220,170,144,115,205, 26,125,168,249, 66,175, 97,255, 92,229, 91,
 214,236,178,243, 46, 44,201,250,135,186,150,221,163,216,162, 43,
  11,101, 34, 37,194, 25, 50, 12, 87,198,173,240,193,171,143,231,
 111,141,191,103, 74,245,223, 20,161,235,122, 63, 89,149, 73,238,
 134, 68, 93,183,241, 81,196, 49,192, 65,212, 94,203, 10,200, 47]"

text \<open>One step of the hash: the table entry at \<open>h ^ c\<close>.\<close>

definition tmix :: "8 word \<Rightarrow> char \<Rightarrow> 8 word" where
  "tmix h c = of_nat (T ! unat (h XOR of_char c))"

text \<open>The loop over the name, with \<open>h0\<close>, \<open>h1\<close> and the flag \<open>even\<close>.\<close>

fun hashLoop :: "string \<Rightarrow> 8 word \<Rightarrow> 8 word \<Rightarrow> bool \<Rightarrow> 8 word \<times> 8 word" where
  "hashLoop [] h0 h1 ev = (h0, h1)"
| "hashLoop (c # pname) h0 h1 ev =
     (if ev then hashLoop pname (tmix h0 c) h1 False
      else hashLoop pname h0 (tmix h1 c) True)"

definition hash :: "string \<Rightarrow> nat \<Rightarrow> int" where
  "hash pname nShift =
     (let (ind0, ind1) = hashLoop pname 0 0 True
      in push_bit nShift (uint ind1) XOR uint ind0)"

section \<open>The directory\<close>

record 'p gphentry =
  ge_name :: string
  ge_pvtid :: 'p
  ge_userPvt :: ptr

record 'p gph =
  tableSize :: int
  nShift :: nat
  paplist :: "'p gphentry list option list"

definition allowSize :: "int list" where
  "allowSize = [256,512,1024,2048,4096,8192,16384,32768,65536]"

text \<open>The loop over \<open>allowSize\<close>; the last match wins.\<close>

fun findSize :: "int \<Rightarrow> nat \<Rightarrow> int list \<Rightarrow> int \<times> nat \<Rightarrow> int \<times> nat" where
  "findSize sz i [] acc = acc"
| "findSize sz i (a # as) acc = findSize sz (Suc i) as (if sz = a then (sz, i) else acc)"

text \<open>\<open>None\<close> is \<open>*ppvt\<close> left unset.\<close>

definition gphInitPvt :: "int \<Rightarrow> 'p gph option" where
  "gphInitPvt sz =
     (let (ts, ns) = findSize sz 0 allowSize (0, 0) in
      if ts = 0 then None
      else Some \<lparr>tableSize = ts, nShift = ns, paplist = replicate (nat ts) None\<rparr>)"

text \<open>An access to \<open>paplist[i]\<close>; outside the array it is a fault.\<close>

definition bucket :: "'p gph \<Rightarrow> int \<Rightarrow> 'p gphentry list option option" where
  "bucket t i = (if 0 \<le> i \<and> nat i < length (paplist t) then Some (paplist t ! nat i) else None)"

definition setBucket :: "'p gph \<Rightarrow> int \<Rightarrow> 'p gphentry list \<Rightarrow> 'p gph" where
  "setBucket t i es = t\<lparr>paplist := (paplist t)[nat i := Some es]\<rparr>"

text \<open>The loops along a bucket: find the entry, or delete the first match.\<close>

fun gphSearch :: "string \<Rightarrow> 'p \<Rightarrow> 'p gphentry list \<Rightarrow> 'p gphentry option" where
  "gphSearch nm pv [] = None"
| "gphSearch nm pv (e # es) =
     (if nm = ge_name e \<and> pv = ge_pvtid e then Some e else gphSearch nm pv es)"

fun gphUnlink :: "string \<Rightarrow> 'p \<Rightarrow> 'p gphentry list \<Rightarrow> 'p gphentry list" where
  "gphUnlink nm pv [] = []"
| "gphUnlink nm pv (e # es) =
     (if nm = ge_name e \<and> pv = ge_pvtid e then es else e # gphUnlink nm pv es)"

definition gphFind :: "'p gph option \<Rightarrow> string \<Rightarrow> 'p \<Rightarrow> 'p gphentry option option" where
  "gphFind pvt nm pv =
     (case pvt of
        None \<Rightarrow> Some None
      | Some t \<Rightarrow> do {
          b \<leftarrow> bucket t (hash nm (nShift t));
          Some (case b of None \<Rightarrow> None | Some es \<Rightarrow> gphSearch nm pv es) })"

definition gphAdd :: "'p gph option \<Rightarrow> string \<Rightarrow> 'p \<Rightarrow> ('p gphentry option \<times> 'p gph option) option" where
  "gphAdd pvt nm pv =
     (case pvt of
        None \<Rightarrow> Some (None, None)
      | Some t \<Rightarrow> do {
          b \<leftarrow> bucket t (hash nm (nShift t));
          let es = (case b of None \<Rightarrow> [] | Some es \<Rightarrow> es);
          let t1 = setBucket t (hash nm (nShift t)) es;
          if gphSearch nm pv es \<noteq> None then Some (None, Some t1)
          else
            let e = \<lparr>ge_name = nm, ge_pvtid = pv, ge_userPvt = None\<rparr>
            in Some (Some e, Some (setBucket t1 (hash nm (nShift t)) (es @ [e]))) })"

definition gphDelete :: "'p gph option \<Rightarrow> string \<Rightarrow> 'p \<Rightarrow> 'p gph option option" where
  "gphDelete pvt nm pv =
     (case pvt of
        None \<Rightarrow> Some None
      | Some t \<Rightarrow> do {
          b \<leftarrow> bucket t (hash nm (nShift t));
          Some (Some (case b of None \<Rightarrow> t
                      | Some es \<Rightarrow> setBucket t (hash nm (nShift t)) (gphUnlink nm pv es))) })"

text \<open>The entries freed, bucket by bucket.\<close>

definition gphFreeMem :: "'p gph option \<Rightarrow> 'p gphentry list" where
  "gphFreeMem pvt =
     (case pvt of
        None \<Rightarrow> []
      | Some t \<Rightarrow> concat (map (\<lambda>b. case b of None \<Rightarrow> [] | Some es \<Rightarrow> es)
                          (take (nat (tableSize t)) (paplist t))))"

section \<open>Facts about the hash\<close>

lemma T_table: "length T = 256" "distinct T" "\<forall>x \<in> set T. x < 256"
  by (simp_all add: T_def)

lemma tmix_inj: "tmix h c = tmix h' c' \<Longrightarrow> h XOR of_char c = h' XOR of_char c'"
proof -
  assume eq: "tmix h c = tmix h' c'"
  have l: "unat (w :: 8 word) < length T" for w using unsigned_less[of w, where ?'a = nat] by (simp add: T_table)
  then have "T ! unat (w :: 8 word) < 256" for w using T_table(3) nth_mem by blast
  then have "unat (of_nat (T ! unat w) :: 8 word) = T ! unat w" for w :: "8 word"
    by (simp add: unat_of_nat)
  then have "T ! unat (h XOR of_char c) = T ! unat (h' XOR of_char c')"
    using eq unfolding tmix_def by metis
  then have "unat (h XOR of_char c) = unat (h' XOR of_char c')"
    using l T_table(2) by (simp add: nth_eq_iff_index_eq)
  then show ?thesis by (rule unsigned_word_eqI)
qed

lemma xor_cancel: "(a :: 8 word) XOR x = a XOR y \<longleftrightarrow> x = y"
  by (metis xor.assoc xor_self_eq xor.left_neutral)

lemma xor_cancel_int: "(a :: int) XOR x = a XOR y \<Longrightarrow> x = y"
  by (metis xor.assoc xor_self_eq xor.left_neutral)

lemma of_char_inj8: "(of_char c :: 8 word) = of_char d \<longleftrightarrow> c = d"
proof
  assume eq: "(of_char c :: 8 word) = of_char d"
  have "unat (of_char x :: 8 word) = of_char x" for x
  proof -
    have "unat (of_nat (of_char x) :: 8 word) = of_char x" by (simp only: unat_of_nat) simp
    then show ?thesis by (simp only: of_nat_of_char)
  qed
  then have "(of_char c :: nat) = of_char d" using eq by metis
  then show "c = d" by simp
qed simp

lemma tmix_left [simp]: "tmix h c = tmix h' c \<longleftrightarrow> h = h'"
  using tmix_inj[of h c h' c] by (metis xor.commute xor_cancel)

lemma tmix_right [simp]: "tmix h c = tmix h d \<longleftrightarrow> c = d"
  using tmix_inj[of h c h d] by (auto simp: xor_cancel of_char_inj8)

lemma hashLoop_inj [simp]:
  "hashLoop s h0 h1 e = hashLoop s h0' h1' e \<longleftrightarrow> h0 = h0' \<and> h1 = h1'"
  by (induction s arbitrary: h0 h1 h0' h1' e) auto

lemma hashLoop_append:
  "hashLoop (s @ t) h0 h1 e =
     (let (g0, g1) = hashLoop s h0 h1 e in hashLoop t g0 g1 (if even (length s) then e else \<not> e))"
  by (induction s arbitrary: h0 h1 e) auto

lemma hashLoop_snd:
  "fst (hashLoop s h0 h1 e) = fst (hashLoop s h0 h1' e)"
  "snd (hashLoop s h0 h1 e) = snd (hashLoop s h0' h1 e)"
  by (induction s arbitrary: h0 h1 h0' h1' e) auto

lemma hash_nonneg: "0 \<le> hash s n"
  by (auto simp: hash_def split: prod.splits)

lemma hash_less: "hash s n < 256 * 2 ^ n"
proof -
  obtain a b where ab: "hashLoop s 0 0 True = (a, b)" by force
  have a: "uint a < 256" "uint b < 256" using unsigned_less[of a, where ?'a = int] unsigned_less[of b, where ?'a = int] by simp_all
  have "uint b * 2 ^ n < 256 * 2 ^ n" using a by simp
  moreover have "(256 :: int) * 2 ^ n = 2 ^ (8 + n)" by (simp add: power_add)
  moreover have "uint a < 256 * 2 ^ n"
  proof -
    have "(1 :: int) \<le> 2 ^ n" by simp
    then show ?thesis using a by linarith
  qed
  ultimately have "push_bit n (uint b) XOR uint a < 2 ^ (8 + n)"
    by (intro XOR_upper) (simp_all add: push_bit_eq_mult)
  then show ?thesis using ab by (simp add: hash_def power_add)
qed

section \<open>The interface of a directory\<close>

text \<open>
  \<open>find\<close>, \<open>add\<close> and \<open>del\<close> work on the entry of one key; \<open>mk k\<close> is a fresh entry for \<open>k\<close>. The outer
  option of each result is a fault, which the laws exclude.
\<close>

datatype 'k top = TAdd 'k | TDel 'k

fun trun :: "('t \<Rightarrow> 'k \<Rightarrow> ('e option \<times> 't) option) \<Rightarrow> ('t \<Rightarrow> 'k \<Rightarrow> 't option) \<Rightarrow> 't \<Rightarrow> 'k top list \<Rightarrow> 't option"
where
  "trun add del t [] = Some t"
| "trun add del t (TAdd k # ops) = do { (r, t') \<leftarrow> add t k; trun add del t' ops }"
| "trun add del t (TDel k # ops) = do { t' \<leftarrow> del t k; trun add del t' ops }"

fun tkeys :: "'k set \<Rightarrow> 'k top list \<Rightarrow> 'k set" where
  "tkeys K [] = K"
| "tkeys K (TAdd k # ops) = tkeys (insert k K) ops"
| "tkeys K (TDel k # ops) = tkeys (K - {k}) ops"

locale name_table =
  fixes inv :: "'t \<Rightarrow> bool"
    and find :: "'t \<Rightarrow> 'k \<Rightarrow> 'e option option"
    and add :: "'t \<Rightarrow> 'k \<Rightarrow> ('e option \<times> 't) option"
    and del :: "'t \<Rightarrow> 'k \<Rightarrow> 't option"
    and mk :: "'k \<Rightarrow> 'e"
  assumes find_ok: "inv t \<Longrightarrow> find t k \<noteq> None"
    and add_ok: "inv t \<Longrightarrow> \<exists>t'. add t k = Some (if find t k = Some None then Some (mk k) else None, t')
        \<and> inv t' \<and> (\<forall>k'. find t' k' =
             (if k' = k \<and> find t k = Some None then Some (Some (mk k)) else find t k'))"
    and del_ok: "inv t \<Longrightarrow> \<exists>t'. del t k = Some t' \<and> inv t'
        \<and> (\<forall>k'. find t' k' = (if k' = k then Some None else find t k'))"
begin

lemma run_keys:
  assumes "inv t" and "\<forall>k. find t k = Some (if k \<in> K then Some (mk k) else None)"
  shows "\<exists>t'. trun add del t ops = Some t' \<and> inv t'
      \<and> (\<forall>k. find t' k = Some (if k \<in> tkeys K ops then Some (mk k) else None))"
  using assms
proof (induction ops arbitrary: t K)
  case Nil
  then show ?case by simp
next
  case (Cons op ops)
  show ?case
  proof (cases op)
    case (TAdd k)
    obtain r t1 where 1: "add t k = Some (r, t1)" "inv t1" "\<forall>k'. find t1 k' =
        (if k' = k \<and> find t k = Some None then Some (Some (mk k)) else find t k')"
      using add_ok[OF Cons.prems(1), of k] by blast
    have "\<forall>k'. find t1 k' = Some (if k' \<in> insert k K then Some (mk k') else None)"
      using 1(3) Cons.prems(2) by auto
    from Cons.IH[OF 1(2) this] show ?thesis using 1(1) TAdd by simp
  next
    case (TDel k)
    obtain t1 where 1: "del t k = Some t1" "inv t1"
      "\<forall>k'. find t1 k' = (if k' = k then Some None else find t k')"
      using del_ok[OF Cons.prems(1), of k] by blast
    have "\<forall>k'. find t1 k' = Some (if k' \<in> K - {k} then Some (mk k') else None)"
      using 1(3) Cons.prems(2) by auto
    from Cons.IH[OF 1(2) this] show ?thesis using 1(1) TDel by simp
  qed
qed

end

section \<open>The hash table as a directory\<close>

definition bucket_ok :: "nat \<Rightarrow> nat \<Rightarrow> 'p gphentry list \<Rightarrow> bool" where
  "bucket_ok ns i es \<longleftrightarrow> (\<forall>e \<in> set es. hash (ge_name e) ns = int i)
     \<and> distinct (map (\<lambda>e. (ge_name e, ge_pvtid e)) es)"

definition gph_inv :: "'p gph \<Rightarrow> bool" where
  "gph_inv t \<longleftrightarrow> tableSize t = 256 * 2 ^ nShift t \<and> length (paplist t) = nat (tableSize t)
     \<and> (\<forall>i es. i < length (paplist t) \<longrightarrow> paplist t ! i = Some es \<longrightarrow> bucket_ok (nShift t) i es)"

lemma gphSearch_Some:
  "gphSearch nm pv es = Some e \<Longrightarrow> e \<in> set es \<and> ge_name e = nm \<and> ge_pvtid e = pv"
  by (induction es) (auto split: if_splits)

lemma gphSearch_None: "gphSearch nm pv es = None \<longleftrightarrow> (nm, pv) \<notin> (\<lambda>e. (ge_name e, ge_pvtid e)) ` set es"
  by (induction es) auto

lemma gphSearch_append:
  "gphSearch nm pv (es @ fs) = (case gphSearch nm pv es of None \<Rightarrow> gphSearch nm pv fs | Some e \<Rightarrow> Some e)"
  by (induction es) auto

lemma set_gphUnlink: "set (gphUnlink nm pv es) \<subseteq> set es"
  by (induction es) auto

lemma distinct_gphUnlink:
  "distinct (map (\<lambda>e. (ge_name e, ge_pvtid e)) es) \<Longrightarrow>
   distinct (map (\<lambda>e. (ge_name e, ge_pvtid e)) (gphUnlink nm pv es))"
  using set_gphUnlink by (induction es) fastforce+

lemma gphSearch_Unlink:
  "distinct (map (\<lambda>e. (ge_name e, ge_pvtid e)) es) \<Longrightarrow>
   gphSearch nm' pv' (gphUnlink nm pv es) =
     (if (nm', pv') = (nm, pv) then None else gphSearch nm' pv' es)"
  by (induction es) (auto simp: gphSearch_None image_iff)

text \<open>Every name of the right table falls on a bucket.\<close>

lemma bucket_hash:
  assumes "gph_inv t"
  shows "bucket t (hash nm (nShift t)) = Some (paplist t ! nat (hash nm (nShift t)))"
    and "nat (hash nm (nShift t)) < length (paplist t)"
  using assms hash_nonneg[of nm "nShift t"] hash_less[of nm "nShift t"]
  by (auto simp: gph_inv_def bucket_def nat_less_iff)

definition entries :: "'p gph \<Rightarrow> string \<Rightarrow> 'p gphentry list" where
  "entries t nm = (case paplist t ! nat (hash nm (nShift t)) of None \<Rightarrow> [] | Some es \<Rightarrow> es)"

lemma gphFind_entries: "gph_inv t \<Longrightarrow> gphFind (Some t) nm pv = Some (gphSearch nm pv (entries t nm))"
  by (auto simp: gphFind_def bucket_hash entries_def split: option.splits)

lemma entries_ok: "gph_inv t \<Longrightarrow> bucket_ok (nShift t) (nat (hash nm (nShift t))) (entries t nm)"
proof (cases "paplist t ! nat (hash nm (nShift t))")
  case None
  then show ?thesis by (simp add: entries_def bucket_ok_def)
next
  case (Some es)
  assume i: "gph_inv t"
  show ?thesis using bucket_hash(2)[OF i, of nm] i Some by (simp add: entries_def gph_inv_def)
qed

text \<open>Replacing one bucket by a good one.\<close>

lemma setBucket_inv:
  assumes "gph_inv t" and "bucket_ok (nShift t) (nat (hash nm (nShift t))) es"
  shows "gph_inv (setBucket t (hash nm (nShift t)) es)"
  using assms bucket_hash(2)[OF assms(1), of nm]
  by (auto simp: gph_inv_def setBucket_def nth_list_update split: if_splits)

lemma setBucket_find:
  assumes i: "gph_inv t" and b: "bucket_ok (nShift t) (nat (hash nm (nShift t))) es"
  shows "gphFind (Some (setBucket t (hash nm (nShift t)) es)) nm' pv' =
    (if hash nm' (nShift t) = hash nm (nShift t) then Some (gphSearch nm' pv' es)
     else gphFind (Some t) nm' pv')"
proof -
  have "nat (hash nm' (nShift t)) = nat (hash nm (nShift t)) \<longleftrightarrow> hash nm' (nShift t) = hash nm (nShift t)"
    using hash_nonneg by (simp add: eq_nat_nat_iff)
  then have "entries (setBucket t (hash nm (nShift t)) es) nm' =
      (if hash nm' (nShift t) = hash nm (nShift t) then es else entries t nm')"
    using bucket_hash(2)[OF i, of nm] by (auto simp: entries_def setBucket_def nth_list_update)
  then show ?thesis
    by (simp add: gphFind_entries i setBucket_inv[OF i b])
qed

lemma same_bucket: "hash nm' n = hash nm n \<Longrightarrow> n = nShift t \<Longrightarrow> entries t nm' = entries t nm"
  by (simp add: entries_def)

lemma gphAdd_ok:
  assumes i: "gph_inv t"
  shows "\<exists>t'. gphAdd (Some t) nm pv =
        Some (if gphFind (Some t) nm pv = Some None
              then Some \<lparr>ge_name = nm, ge_pvtid = pv, ge_userPvt = None\<rparr> else None, Some t')
      \<and> gph_inv t' \<and> (\<forall>nm' pv'. gphFind (Some t') nm' pv' =
          (if (nm', pv') = (nm, pv) \<and> gphFind (Some t) nm pv = Some None
           then Some (Some \<lparr>ge_name = nm, ge_pvtid = pv, ge_userPvt = None\<rparr>)
           else gphFind (Some t) nm' pv'))"
proof -
  let ?h = "hash nm (nShift t)" and ?es = "entries t nm"
  let ?e = "\<lparr>ge_name = nm, ge_pvtid = pv, ge_userPvt = None\<rparr>"
  have b: "bucket_ok (nShift t) (nat ?h) ?es" by (rule entries_ok[OF i])
  have es: "(case paplist t ! nat ?h of None \<Rightarrow> [] | Some es \<Rightarrow> es) = ?es" by (simp add: entries_def)
  have add: "gphAdd (Some t) nm pv =
      (if gphSearch nm pv ?es \<noteq> None then Some (None, Some (setBucket t ?h ?es))
       else Some (Some ?e, Some (setBucket t ?h (?es @ [?e]))))"
    using bucket_hash[OF i, of nm] es by (simp add: gphAdd_def setBucket_def Let_def)
  show ?thesis
  proof (cases "gphSearch nm pv ?es")
    case None
    then have b': "bucket_ok (nShift t) (nat ?h) (?es @ [?e])"
      using b hash_nonneg[of nm "nShift t"] by (auto simp: bucket_ok_def gphSearch_None)
    have "gphFind (Some (setBucket t ?h (?es @ [?e]))) nm' pv' =
        (if (nm', pv') = (nm, pv) then Some (Some ?e) else gphFind (Some t) nm' pv')" for nm' pv'
    proof (cases "hash nm' (nShift t) = ?h")
      case True
      then have en: "entries t nm' = ?es" by (rule same_bucket) simp
      have "gphFind (Some (setBucket t ?h (?es @ [?e]))) nm' pv' = Some (gphSearch nm' pv' (?es @ [?e]))"
        using setBucket_find[OF i b', of nm' pv'] True by simp
      moreover have "gphFind (Some t) nm' pv' = Some (gphSearch nm' pv' ?es)"
        using gphFind_entries[OF i, of nm' pv'] en by simp
      ultimately show ?thesis using None by (auto simp: gphSearch_append split: option.splits)
    next
      case False
      then show ?thesis by (auto simp: setBucket_find[OF i b'])
    qed
    then show ?thesis using None setBucket_inv[OF i b'] by (simp add: add gphFind_entries[OF i])
  next
    case (Some e)
    have "gphFind (Some (setBucket t ?h ?es)) nm' pv' = gphFind (Some t) nm' pv'" for nm' pv'
      using same_bucket[of nm' "nShift t" nm t] by (simp add: setBucket_find[OF i b] gphFind_entries[OF i])
    then show ?thesis using Some setBucket_inv[OF i b] by (simp add: add gphFind_entries[OF i])
  qed
qed

lemma gphDelete_ok:
  assumes i: "gph_inv t"
  shows "\<exists>t'. gphDelete (Some t) nm pv = Some (Some t') \<and> gph_inv t' \<and> (\<forall>nm' pv'.
      gphFind (Some t') nm' pv' = (if (nm', pv') = (nm, pv) then Some None else gphFind (Some t) nm' pv'))"
proof -
  let ?h = "hash nm (nShift t)" and ?es = "entries t nm"
  have b: "bucket_ok (nShift t) (nat ?h) (gphUnlink nm pv ?es)"
    using entries_ok[OF i, of nm] set_gphUnlink[of nm pv ?es] distinct_gphUnlink[of ?es nm pv]
    by (auto simp: bucket_ok_def)
  show ?thesis
  proof (cases "paplist t ! nat ?h")
    case None
    then have d: "gphDelete (Some t) nm pv = Some (Some t)"
      using bucket_hash[OF i, of nm] by (simp add: gphDelete_def)
    have "gphFind (Some t) nm pv = Some None" using None by (simp add: gphFind_entries[OF i] entries_def)
    then show ?thesis using d i by auto
  next
    case (Some es)
    then have d: "gphDelete (Some t) nm pv = Some (Some (setBucket t ?h (gphUnlink nm pv ?es)))"
      using bucket_hash[OF i, of nm] by (simp add: gphDelete_def entries_def)
    have ds: "distinct (map (\<lambda>e. (ge_name e, ge_pvtid e)) ?es)"
      using entries_ok[OF i, of nm] by (simp add: bucket_ok_def)
    have "gphFind (Some (setBucket t ?h (gphUnlink nm pv ?es))) nm' pv' =
        (if (nm', pv') = (nm, pv) then Some None else gphFind (Some t) nm' pv')" for nm' pv'
      using same_bucket[of nm' "nShift t" nm t]
      by (auto simp: setBucket_find[OF i b] gphSearch_Unlink[OF ds] gphFind_entries[OF i])
    then show ?thesis using d setBucket_inv[OF i b] by auto
  qed
qed

lemma gphInit_ok:
  assumes "gphInitPvt sz = Some t"
  shows "gph_inv t" "gphFind (Some t) nm pv = Some None" "tableSize t = sz"
proof -
  show i: "gph_inv t" using assms
    by (auto simp: gphInitPvt_def allowSize_def gph_inv_def Let_def split: if_splits prod.splits)
  have "paplist t = replicate (nat (tableSize t)) None"
    using assms by (auto simp: gphInitPvt_def Let_def split: if_splits prod.splits)
  then have "entries t nm = []"
    using bucket_hash(2)[OF i, of nm] by (auto simp: entries_def)
  then show "gphFind (Some t) nm pv = Some None" by (simp add: gphFind_entries[OF i])
  show "tableSize t = sz" using assms
    by (auto simp: gphInitPvt_def allowSize_def Let_def split: if_splits prod.splits)
qed

text \<open>The directory on the model: keys are names with the private identifier.\<close>

definition gph_find :: "'p gph \<Rightarrow> string \<times> 'p \<Rightarrow> 'p gphentry option option" where
  "gph_find t k = gphFind (Some t) (fst k) (snd k)"

definition gph_add :: "'p gph \<Rightarrow> string \<times> 'p \<Rightarrow> ('p gphentry option \<times> 'p gph) option" where
  "gph_add t k = do { (r, t') \<leftarrow> gphAdd (Some t) (fst k) (snd k); t'' \<leftarrow> t'; Some (r, t'') }"

definition gph_del :: "'p gph \<Rightarrow> string \<times> 'p \<Rightarrow> 'p gph option" where
  "gph_del t k = do { t' \<leftarrow> gphDelete (Some t) (fst k) (snd k); t' }"

definition gph_entry :: "string \<times> 'p \<Rightarrow> 'p gphentry" where
  "gph_entry k = \<lparr>ge_name = fst k, ge_pvtid = snd k, ge_userPvt = None\<rparr>"

interpretation gphdir: name_table gph_inv gph_find gph_add gph_del gph_entry
proof
  fix t :: "'p gph" and k :: "string \<times> 'p"
  assume i: "gph_inv t"
  show "gph_find t k \<noteq> None" by (simp add: gph_find_def gphFind_entries[OF i])
  show "\<exists>t'. gph_add t k = Some (if gph_find t k = Some None then Some (gph_entry k) else None, t')
      \<and> gph_inv t' \<and> (\<forall>k'. gph_find t' k' =
        (if k' = k \<and> gph_find t k = Some None then Some (Some (gph_entry k)) else gph_find t k'))"
    using gphAdd_ok[OF i, of "fst k" "snd k"]
    by (auto simp: gph_find_def gph_add_def gph_entry_def prod_eq_iff)
  show "\<exists>t'. gph_del t k = Some t' \<and> gph_inv t'
      \<and> (\<forall>k'. gph_find t' k' = (if k' = k then Some None else gph_find t k'))"
    using gphDelete_ok[OF i, of "fst k" "snd k"] by (auto simp: gph_find_def gph_del_def prod_eq_iff)
qed

lemma hash_char_diff: "hash (xs @ a # ys) n = hash (xs @ b # ys) n \<Longrightarrow> a = b"
proof -
  assume eq: "hash (xs @ a # ys) n = hash (xs @ b # ys) n"
  obtain g0 g1 where g: "hashLoop xs 0 0 True = (g0, g1)" by force
  show "a = b"
  proof (cases "even (length xs)")
    case True
    let ?A = "hashLoop ys (tmix g0 a) g1 False" and ?B = "hashLoop ys (tmix g0 b) g1 False"
    have s: "snd ?A = snd ?B" by (rule hashLoop_snd)
    have "push_bit n (uint (snd ?A)) XOR uint (fst ?A) = push_bit n (uint (snd ?B)) XOR uint (fst ?B)"
      using eq g True by (simp add: hash_def hashLoop_append Let_def split_beta)
    then have "uint (fst ?A) = uint (fst ?B)" unfolding s by (rule xor_cancel_int)
    then have "?A = ?B" using s by (simp add: prod_eq_iff unsigned_word_eqI)
    then show ?thesis by simp
  next
    case False
    let ?A = "hashLoop ys g0 (tmix g1 a) True" and ?B = "hashLoop ys g0 (tmix g1 b) True"
    have s: "fst ?A = fst ?B" by (rule hashLoop_snd)
    have "push_bit n (uint (snd ?A)) XOR uint (fst ?A) = push_bit n (uint (snd ?B)) XOR uint (fst ?B)"
      using eq g False by (simp add: hash_def hashLoop_append Let_def split_beta)
    then have "uint (fst ?B) XOR push_bit n (uint (snd ?A)) = uint (fst ?B) XOR push_bit n (uint (snd ?B))"
      unfolding s by (simp only: xor.commute)
    then have "push_bit n (uint (snd ?A)) = push_bit n (uint (snd ?B))" by (rule xor_cancel_int)
    then have "uint (snd ?A) = uint (snd ?B)" by (simp add: push_bit_eq_mult)
    then have "?A = ?B" using s by (simp add: prod_eq_iff unsigned_word_eqI)
    then show ?thesis by simp
  qed
qed

section \<open>Properties\<close>

text \<open>C5. After any sequence of \<open>gphAdd\<close> and \<open>gphDelete\<close> on a new table, whatever its size and
  however the names collide, every operation stayed inside the bucket array and \<open>gphFind\<close> returns
  an entry exactly for the keys added and not deleted since, and the entry is the one of that key.\<close>

theorem gph_is_directory:
  assumes "gphInitPvt sz = Some t0"
  shows "\<exists>t. trun gph_add gph_del t0 ops = Some t
      \<and> (\<forall>nm pv. gphFind (Some t) nm pv =
           Some (if (nm, pv) \<in> tkeys {} ops
                 then Some \<lparr>ge_name = nm, ge_pvtid = pv, ge_userPvt = None\<rparr> else None))"
  using gphdir.run_keys[OF gphInit_ok(1)[OF assms], of "{}" ops] gphInit_ok(2)[OF assms]
  by (auto simp: gph_find_def gph_entry_def)

theorem gph_is_directory_witness:
  "\<exists>t. trun gph_add gph_del (the (gphInitPvt 256)) [TAdd (''ai'', 1::nat), TAdd (''ao'', 1), TDel (''ai'', 1)]
       = Some t \<and> gphFind (Some t) ''ao'' 1 = Some (Some \<lparr>ge_name = ''ao'', ge_pvtid = 1, ge_userPvt = None\<rparr>)
       \<and> gphFind (Some t) ''ai'' 1 = Some None"
proof -
  have "gphInitPvt 256 = Some (the (gphInitPvt 256 :: nat gph option))"
    by (simp add: gphInitPvt_def allowSize_def)
  from gph_is_directory[OF this, of "[TAdd (''ai'', 1::nat), TAdd (''ao'', 1), TDel (''ai'', 1)]"]
  show ?thesis by auto
qed

text \<open>The hash is a legal index for the table its shift belongs to, and no two names that differ
  in one character hash alike (the property Pearson's permutation table is there for).\<close>

theorem hash_range_and_spread:
  "0 \<le> hash nm n \<and> hash nm n < 256 * 2 ^ n
   \<and> (hash (xs @ a # ys) n = hash (xs @ b # ys) n \<longleftrightarrow> a = b)"
  using hash_nonneg hash_less hash_char_diff by blast

end
