(* ===== verification/Postfix.thy ===== *)
theory Postfix
  imports Prelude
begin

text \<open>
  The expression compiler \<open>base/src/libCom/calc/postfix.c\<close>: the element table, the lexer
  (\<open>find_element\<close>, \<open>get_element\<close>) and the operator-precedence translation \<open>postfix\<close>, with one
  definition per element type. The postfix buffer is a list of instructions in the order the code
  writes them; a constant carries the value of its eight bytes, which is what \<open>epicsScanDouble\<close>
  makes of its text, the parameter \<open>scan\<close>.
\<close>

section \<open>The element table\<close>

datatype (plugins only: code size) opcode = FETCH_A | FETCH_B | FETCH_C | FETCH_D | FETCH_E | FETCH_F | FETCH_G | FETCH_H
  | FETCH_I | FETCH_J | FETCH_K | FETCH_L | ACOS | ASIN | ATAN | COS | COSH | SIN | RIGHT_SHIFT
  | LEFT_SHIFT | SINH | TAN | TANH | COND_ELSE | ABS_VAL | UNARY_NEG | SQU_RT | EXP | CEIL | FLOOR
  | LOG_10 | LOG_E | RANDOM | ADD | SUB | MULT | DIV | EXPON | MODULO | BIT_OR | BIT_AND
  | BIT_EXCL_OR | GR_OR_EQ | GR_THAN | LESS_OR_EQ | LESS_THAN | NOT_EQ | EQUAL | REL_OR | REL_AND
  | REL_NOT | BIT_NOT | PAREN | MAX_CODE | MIN_CODE | COMMA | COND_IF | COND_END | CONSTANT | CONST_PI
  | CONST_D2R | CONST_R2D | NINT | ATAN2 | NO_CODE

datatype etype = OPERAND | UNARY_OPERATOR | BINARY_OPERATOR | EXPR_TERM | COND | CLOSE_PAREN
  | CONDITIONAL | ELSE_TYPE | SEPERATOR | TRASH | FLOAT_PT_CONST | MINUS_OPERATOR

record expression_element =
  element :: string
  in_stack_pri :: int
  in_coming_pri :: int
  el_type :: etype
  el_code :: opcode

abbreviation el :: "string \<Rightarrow> int \<Rightarrow> int \<Rightarrow> etype \<Rightarrow> opcode \<Rightarrow> expression_element" where
  "el s i c t k \<equiv> \<lparr>element = s, in_stack_pri = i, in_coming_pri = c, el_type = t, el_code = k\<rparr>"

definition elements :: "expression_element list" where
  "elements = [
   el ''ABS'' 7 8 UNARY_OPERATOR ABS_VAL, el ''NOT'' 7 8 UNARY_OPERATOR UNARY_NEG,
   el ''-'' 7 8 MINUS_OPERATOR UNARY_NEG, el ''SQRT'' 7 8 UNARY_OPERATOR SQU_RT,
   el ''SQR'' 7 8 UNARY_OPERATOR SQU_RT, el ''EXP'' 7 8 UNARY_OPERATOR EXP,
   el ''LOGE'' 7 8 UNARY_OPERATOR LOG_E, el ''LN'' 7 8 UNARY_OPERATOR LOG_E,
   el ''LOG'' 7 8 UNARY_OPERATOR LOG_10, el ''ACOS'' 7 8 UNARY_OPERATOR ACOS,
   el ''ASIN'' 7 8 UNARY_OPERATOR ASIN, el ''ATAN2'' 7 8 UNARY_OPERATOR ATAN2,
   el ''ATAN'' 7 8 UNARY_OPERATOR ATAN, el ''MAX'' 7 8 UNARY_OPERATOR MAX_CODE,
   el ''MIN'' 7 8 UNARY_OPERATOR MIN_CODE, el ''CEIL'' 7 8 UNARY_OPERATOR CEIL,
   el ''FLOOR'' 7 8 UNARY_OPERATOR FLOOR, el ''NINT'' 7 8 UNARY_OPERATOR NINT,
   el ''COSH'' 7 8 UNARY_OPERATOR COSH, el ''COS'' 7 8 UNARY_OPERATOR COS,
   el ''SINH'' 7 8 UNARY_OPERATOR SINH, el ''SIN'' 7 8 UNARY_OPERATOR SIN,
   el ''TANH'' 7 8 UNARY_OPERATOR TANH, el ''TAN'' 7 8 UNARY_OPERATOR TAN,
   el ''!'' 7 8 UNARY_OPERATOR REL_NOT, el ''~'' 7 8 UNARY_OPERATOR BIT_NOT,
   el ''RNDM'' 0 0 OPERAND RANDOM, el ''OR'' 1 1 BINARY_OPERATOR BIT_OR,
   el ''AND'' 2 2 BINARY_OPERATOR BIT_AND, el ''XOR'' 1 1 BINARY_OPERATOR BIT_EXCL_OR,
   el ''PI'' 0 0 OPERAND CONST_PI, el ''D2R'' 0 0 OPERAND CONST_D2R,
   el ''R2D'' 0 0 OPERAND CONST_R2D,
   el ''A'' 0 0 OPERAND FETCH_A, el ''B'' 0 0 OPERAND FETCH_B, el ''C'' 0 0 OPERAND FETCH_C,
   el ''D'' 0 0 OPERAND FETCH_D, el ''E'' 0 0 OPERAND FETCH_E, el ''F'' 0 0 OPERAND FETCH_F,
   el ''G'' 0 0 OPERAND FETCH_G, el ''H'' 0 0 OPERAND FETCH_H, el ''I'' 0 0 OPERAND FETCH_I,
   el ''J'' 0 0 OPERAND FETCH_J, el ''K'' 0 0 OPERAND FETCH_K, el ''L'' 0 0 OPERAND FETCH_L,
   el ''a'' 0 0 OPERAND FETCH_A, el ''b'' 0 0 OPERAND FETCH_B, el ''c'' 0 0 OPERAND FETCH_C,
   el ''d'' 0 0 OPERAND FETCH_D, el ''e'' 0 0 OPERAND FETCH_E, el ''f'' 0 0 OPERAND FETCH_F,
   el ''g'' 0 0 OPERAND FETCH_G, el ''h'' 0 0 OPERAND FETCH_H, el ''i'' 0 0 OPERAND FETCH_I,
   el ''j'' 0 0 OPERAND FETCH_J, el ''k'' 0 0 OPERAND FETCH_K, el ''l'' 0 0 OPERAND FETCH_L,
   el ''0'' 0 0 FLOAT_PT_CONST CONSTANT, el ''1'' 0 0 FLOAT_PT_CONST CONSTANT,
   el ''2'' 0 0 FLOAT_PT_CONST CONSTANT, el ''3'' 0 0 FLOAT_PT_CONST CONSTANT,
   el ''4'' 0 0 FLOAT_PT_CONST CONSTANT, el ''5'' 0 0 FLOAT_PT_CONST CONSTANT,
   el ''6'' 0 0 FLOAT_PT_CONST CONSTANT, el ''7'' 0 0 FLOAT_PT_CONST CONSTANT,
   el ''8'' 0 0 FLOAT_PT_CONST CONSTANT, el ''9'' 0 0 FLOAT_PT_CONST CONSTANT,
   el ''.'' 0 0 FLOAT_PT_CONST CONSTANT,
   el ''?'' 0 0 CONDITIONAL COND_IF, el '':'' 0 0 CONDITIONAL COND_ELSE,
   el ''('' 0 8 UNARY_OPERATOR PAREN, el ''^'' 6 6 BINARY_OPERATOR EXPON,
   el ''**'' 6 6 BINARY_OPERATOR EXPON, el ''+'' 4 4 BINARY_OPERATOR ADD,
   el ''*'' 5 5 BINARY_OPERATOR MULT, el ''/'' 5 5 BINARY_OPERATOR DIV,
   el ''%'' 5 5 BINARY_OPERATOR MODULO, el '','' 0 0 SEPERATOR COMMA,
   el '')'' 0 0 CLOSE_PAREN PAREN, el ''||'' 1 1 BINARY_OPERATOR REL_OR,
   el ''|'' 1 1 BINARY_OPERATOR BIT_OR, el ''&&'' 2 2 BINARY_OPERATOR REL_AND,
   el ''&'' 2 2 BINARY_OPERATOR BIT_AND, el ''>>'' 2 2 BINARY_OPERATOR RIGHT_SHIFT,
   el ''>='' 3 3 BINARY_OPERATOR GR_OR_EQ, el ''>'' 3 3 BINARY_OPERATOR GR_THAN,
   el ''<<'' 2 2 BINARY_OPERATOR LEFT_SHIFT, el ''<='' 3 3 BINARY_OPERATOR LESS_OR_EQ,
   el ''<'' 3 3 BINARY_OPERATOR LESS_THAN, el ''#'' 3 3 BINARY_OPERATOR NOT_EQ,
   el ''=='' 3 3 BINARY_OPERATOR EQUAL, el ''='' 3 3 BINARY_OPERATOR EQUAL]"

text \<open>
  The terminating entry of the table, all zero: \<open>pelement\<close> is left on it when nothing matches, and its
  type reads as \<open>OPERAND\<close>.
\<close>

definition noElement :: expression_element where
  "noElement = el [] 0 0 OPERAND NO_CODE"

section \<open>The lexer\<close>

text \<open>\<open>strncmp(pbuffer, e, strlen(e)) == 0\<close>.\<close>

definition startsWith :: "string \<Rightarrow> string \<Rightarrow> bool" where
  "startsWith pbuffer e \<longleftrightarrow> take (length e) pbuffer = e"

fun find_loop :: "string \<Rightarrow> expression_element list \<Rightarrow> expression_element option" where
  "find_loop pbuffer [] = None"
| "find_loop pbuffer (e # es) =
     (if startsWith pbuffer (element e) then Some e else find_loop pbuffer es)"

definition find_element :: "string \<Rightarrow> expression_element option" where
  "find_element pbuffer = find_loop pbuffer elements"

fun skipSpaces :: "string \<Rightarrow> nat \<Rightarrow> string \<times> nat" where
  "skipSpaces (c # s) n = (if c = CHR '' '' then skipSpaces s (n + 1) else (c # s, n))"
| "skipSpaces [] n = ([], n)"

text \<open>\<open>None\<close> is \<open>END\<close>; otherwise the element and \<open>no_bytes\<close>. The caller ignores \<open>UNKNOWN_ELEMENT\<close>.\<close>

definition get_element :: "string \<Rightarrow> (expression_element \<times> nat) option" where
  "get_element pinfix =
     (let (s, n) = skipSpaces pinfix 0 in
      if s = [] then None
      else case find_element s of
             Some e \<Rightarrow> Some (e, n + length (element e))
           | None \<Rightarrow> Some (noElement, n))"

section \<open>The translation\<close>

datatype 'd instr = Op opcode | Const 'd

record 'd pfstate =
  pf_in :: string
  pf_out :: "'d instr list"
  pf_stack :: "expression_element list"
  pf_operand_needed :: bool
  pf_new_expression :: bool

text \<open>
  The outcome of one element: go on, reject with \<open>*perror\<close>, or a fault (an operator written beyond
  \<open>stack[80]\<close>, or a move below it).
\<close>

datatype 'd pfstep = Go "'d pfstate" | Reject int | Fault

text \<open>\<open>stack[0]\<close> is never written, so \<open>79\<close> operators fit.\<close>

definition push :: "expression_element \<Rightarrow> 'd pfstate \<Rightarrow> 'd pfstep" where
  "push e st = (if 79 \<le> length (pf_stack st) then Fault else Go (st\<lparr>pf_stack := e # pf_stack st\<rparr>))"

text \<open>The loop that moves operators satisfying \<open>P\<close> from the stack to the output.\<close>

fun popWhile :: "(expression_element \<Rightarrow> bool) \<Rightarrow> expression_element list \<Rightarrow> 'd instr list \<Rightarrow>
    expression_element list \<times> 'd instr list" where
  "popWhile P [] out = ([], out)"
| "popWhile P (t # ts) out = (if P t then popWhile P ts (out @ [Op (el_code t)]) else (t # ts, out))"

definition popOps :: "(expression_element \<Rightarrow> bool) \<Rightarrow> 'd pfstate \<Rightarrow> 'd pfstate" where
  "popOps P st = (let (ts, out) = popWhile P (pf_stack st) (pf_out st)
                  in st\<lparr>pf_stack := ts, pf_out := out\<rparr>)"

definition emit :: "'d instr \<Rightarrow> 'd pfstate \<Rightarrow> 'd pfstate" where
  "emit i st = st\<lparr>pf_out := pf_out st @ [i]\<rparr>"

definition doOperand :: "expression_element \<Rightarrow> 'd pfstate \<Rightarrow> 'd pfstep" where
  "doOperand e st =
     (if \<not> pf_operand_needed st then Reject 5
      else Go ((emit (Op (el_code e)) st)\<lparr>pf_operand_needed := False, pf_new_expression := False\<rparr>))"

text \<open>The text of a constant: digits, points, and exponents with an optional sign.\<close>

definition isDigit :: "char \<Rightarrow> bool" where
  "isDigit c \<longleftrightarrow> c \<in> set ''0123456789''"

fun scanConst :: "string \<Rightarrow> string \<times> string" where
  "scanConst [] = ([], [])"
| "scanConst (c # s) =
     (if isDigit c \<or> c = CHR ''.''
      then (let (t, r) = scanConst s in (c # t, r))
      else if c = CHR ''E'' \<or> c = CHR ''e''
      then (case s of
              [] \<Rightarrow> ([c], [])
            | d # s' \<Rightarrow> if d = CHR ''+'' \<or> d = CHR ''-''
                        then (let (t, r) = scanConst s' in (c # d # t, r))
                        else (let (t, r) = scanConst s in (c # t, r)))
      else ([], c # s))"

text \<open>\<open>old\<close> is the input before the element was taken: \<open>pinfix -= no_bytes\<close>.\<close>

definition doConst :: "(string \<Rightarrow> 'd) \<Rightarrow> string \<Rightarrow> 'd pfstate \<Rightarrow> 'd pfstep" where
  "doConst scan old st =
     (if \<not> pf_operand_needed st then Reject 5
      else
        let (s, n) = skipSpaces old 0; (t, r) = scanConst s
        in Go ((emit (Const (scan (replicate n CHR '' '' @ t))) st)
               \<lparr>pf_in := r, pf_operand_needed := False, pf_new_expression := False\<rparr>))"

definition doBinary :: "expression_element \<Rightarrow> 'd pfstate \<Rightarrow> 'd pfstep" where
  "doBinary e st =
     (if pf_operand_needed st then Reject 4
      else push e ((popOps (\<lambda>t. in_stack_pri t \<ge> in_coming_pri e) st)\<lparr>pf_operand_needed := True\<rparr>))"

definition doUnary :: "expression_element \<Rightarrow> 'd pfstate \<Rightarrow> 'd pfstep" where
  "doUnary e st =
     (if \<not> pf_operand_needed st then Reject 5
      else push e ((popOps (\<lambda>t. in_stack_pri t \<ge> in_coming_pri e) st)\<lparr>pf_new_expression := False\<rparr>))"

definition doMinus :: "expression_element \<Rightarrow> 'd pfstate \<Rightarrow> 'd pfstep" where
  "doMinus e st =
     (if pf_operand_needed st
      then push (e\<lparr>in_stack_pri := 7, el_code := UNARY_NEG\<rparr>)
             ((popOps (\<lambda>t. in_stack_pri t \<ge> 8) st)\<lparr>pf_new_expression := False\<rparr>)
      else push (e\<lparr>in_stack_pri := 4, el_code := SUB\<rparr>)
             ((popOps (\<lambda>t. in_stack_pri t \<ge> 4) st)\<lparr>pf_operand_needed := True\<rparr>))"

text \<open>
  Pop down to the open parenthesis. On an empty stack the code reads \<open>stack[0].element[0]\<close>, which
  nothing has set: \<open>junk\<close>. \<open>None\<close> is the error exit, \<open>Some None\<close> a walk below the array.
\<close>

definition isParen :: "expression_element \<Rightarrow> bool" where
  "isParen e \<longleftrightarrow> (case element e of [] \<Rightarrow> False | c # _ \<Rightarrow> c = CHR ''('')"

fun popToParen :: "char \<Rightarrow> expression_element list \<Rightarrow> 'd instr list \<Rightarrow>
    (expression_element list \<times> 'd instr list) option option" where
  "popToParen junk [] out = (if junk = CHR ''('' then Some None else None)"
| "popToParen junk (t # ts) out =
     (if isParen t then Some (Some (t # ts, out))
      else if ts = [] then None
      else popToParen junk ts (out @ [Op (el_code t)]))"

definition doSeperator :: "char \<Rightarrow> 'd pfstate \<Rightarrow> 'd pfstep" where
  "doSeperator junk st =
     (if pf_operand_needed st then Reject 4
      else case popToParen junk (pf_stack st) (pf_out st) of
             None \<Rightarrow> Reject 6
           | Some None \<Rightarrow> Go (st\<lparr>pf_operand_needed := True\<rparr>)
           | Some (Some (ts, out)) \<Rightarrow> Go (st\<lparr>pf_stack := ts, pf_out := out, pf_operand_needed := True\<rparr>))"

definition doCloseParen :: "char \<Rightarrow> 'd pfstate \<Rightarrow> 'd pfstep" where
  "doCloseParen junk st =
     (if pf_operand_needed st then Reject 4
      else case popToParen junk (pf_stack st) (pf_out st) of
             None \<Rightarrow> Reject 6
           | Some None \<Rightarrow> Fault
           | Some (Some (ts, out)) \<Rightarrow> Go (st\<lparr>pf_stack := tl ts, pf_out := out\<rparr>))"

definition doConditional :: "expression_element \<Rightarrow> 'd pfstate \<Rightarrow> 'd pfstep" where
  "doConditional e st =
     (if pf_operand_needed st then Reject 4
      else
        let st1 = (emit (Op (el_code e)) (popOps (\<lambda>t. in_stack_pri t > in_coming_pri e) st))
                  \<lparr>pf_operand_needed := True\<rparr>
        in if element e = '':'' then push (e\<lparr>el_code := COND_END\<rparr>) st1 else Go st1)"

text \<open>Empty the operator stack; an open parenthesis left on it is error 6.\<close>

fun flushOps :: "expression_element list \<Rightarrow> 'd instr list \<Rightarrow> 'd instr list option" where
  "flushOps [] out = Some out"
| "flushOps (t # ts) out = (if isParen t then None else flushOps ts (out @ [Op (el_code t)]))"

definition doExprTerm :: "expression_element \<Rightarrow> 'd pfstate \<Rightarrow> 'd pfstep" where
  "doExprTerm e st =
     (if pf_operand_needed st \<and> \<not> pf_new_expression st then Reject 4
      else case flushOps (pf_stack st) (pf_out st) of
             None \<Rightarrow> Reject 6
           | Some out \<Rightarrow> Go (st\<lparr>pf_stack := [], pf_out := out @ [Op (el_code e)],
                                pf_operand_needed := True, pf_new_expression := True\<rparr>))"

definition doElement :: "(string \<Rightarrow> 'd) \<Rightarrow> char \<Rightarrow> expression_element \<Rightarrow> nat \<Rightarrow> 'd pfstate \<Rightarrow> 'd pfstep" where
  "doElement scan junk e n st0 =
     (let st = st0\<lparr>pf_in := drop n (pf_in st0)\<rparr> in
      case el_type e of
        OPERAND \<Rightarrow> doOperand e st
      | FLOAT_PT_CONST \<Rightarrow> doConst scan (pf_in st0) st
      | BINARY_OPERATOR \<Rightarrow> doBinary e st
      | UNARY_OPERATOR \<Rightarrow> doUnary e st
      | MINUS_OPERATOR \<Rightarrow> doMinus e st
      | SEPERATOR \<Rightarrow> doSeperator junk st
      | CLOSE_PAREN \<Rightarrow> doCloseParen junk st
      | CONDITIONAL \<Rightarrow> doConditional e st
      | EXPR_TERM \<Rightarrow> doExprTerm e st
      | _ \<Rightarrow> Reject 8)"

text \<open>Every step consumes input or satisfies the need for an operand.\<close>

lemma skipSpaces_shift: "skipSpaces s n = (fst (skipSpaces s 0), n + snd (skipSpaces s 0))"
proof (induction s arbitrary: n)
  case Nil
  then show ?case by simp
next
  case (Cons c s)
  show ?case
  proof (cases "c = CHR '' ''")
    case True
    then show ?thesis using Cons.IH[of "n + 1"] Cons.IH[of 1] by simp
  qed simp
qed

lemma skipSpaces_split: "skipSpaces s 0 = (r, n) \<Longrightarrow> s = replicate n CHR '' '' @ r"
proof (induction s arbitrary: r n)
  case Nil
  then show ?case by simp
next
  case (Cons c s)
  show ?case
  proof (cases "c = CHR '' ''")
    case True
    obtain r' n' where s: "skipSpaces s 0 = (r', n')" by force
    then have "r = r'" "n = Suc n'" using Cons.prems True skipSpaces_shift[of s 1] by auto
    then show ?thesis using Cons.IH[OF s] True by simp
  next
    case False
    then show ?thesis using Cons.prems by simp
  qed
qed

lemma elements_nonempty: "list_all (\<lambda>e. element e \<noteq> []) elements"
  by (simp add: elements_def)

lemma elements_const:
  "list_all (\<lambda>e. el_type e = FLOAT_PT_CONST \<longrightarrow> length (element e) = 1
     \<and> (isDigit (hd (element e)) \<or> hd (element e) = CHR ''.'')) elements"
  by (simp add: elements_def isDigit_def)

lemma find_loop_Some: "find_loop s es = Some e \<Longrightarrow> e \<in> set es \<and> startsWith s (element e)"
  by (induction es) (auto split: if_splits)

lemma find_element_Some:
  assumes "find_element s = Some e"
  shows "e \<in> set elements" "\<exists>r. s = element e @ r" "element e \<noteq> []"
proof -
  have e: "e \<in> set elements" "startsWith s (element e)"
    using assms find_loop_Some by (auto simp: find_element_def)
  show "e \<in> set elements" by (rule e)
  show "\<exists>r. s = element e @ r" using e(2) unfolding startsWith_def by (metis append_take_drop_id)
  show "element e \<noteq> []" using e(1) elements_nonempty by (simp add: list_all_iff)
qed

lemma scanConst_split: "scanConst s = (t, r) \<Longrightarrow> s = t @ r"
proof (induction "length s" arbitrary: s t r rule: less_induct)
  case less
  show ?case
  proof (cases s)
    case Nil
    then show ?thesis using less.prems by simp
  next
    case (Cons c u)
    obtain t1 r1 where 1: "scanConst u = (t1, r1)" by force
    then have u: "u = t1 @ r1" using less.hyps[of u] Cons by simp
    show ?thesis
    proof (cases u)
      case Nil
      then show ?thesis using less.prems Cons by (auto split: if_splits)
    next
      case (Cons d v)
      obtain t2 r2 where 2: "scanConst v = (t2, r2)" by force
      then have v: "t2 @ r2 = v" using less.hyps[of v] Cons \<open>s = c # u\<close> by simp
      have 1: "scanConst (d # v) = (t1, r1)" and uu: "t1 @ r1 = d # v" using 1 u Cons by simp_all
      have "(if isDigit c \<or> c = CHR ''.'' then (c # t1, r1)
             else if c = CHR ''E'' \<or> c = CHR ''e''
             then (if d = CHR ''+'' \<or> d = CHR ''-'' then (c # d # t2, r2) else (c # t1, r1))
             else ([], c # d # v)) = (t, r)"
        using less.prems unfolding \<open>s = c # u\<close> Cons scanConst.simps(2)[of c "d # v"] 1
        by (simp add: 2 cong: if_cong)
      then show ?thesis using \<open>s = c # u\<close> Cons uu v by (auto split: if_splits)
    qed
  qed
qed

definition pf_measure :: "'d pfstate \<Rightarrow> nat" where
  "pf_measure st = 2 * length (pf_in st) + (if pf_operand_needed st then 1 else 0)"

lemma push_Go: "push e st = Go st' \<Longrightarrow> st' = st\<lparr>pf_stack := e # pf_stack st\<rparr>"
  by (simp add: push_def split: if_splits)

lemma popOps_sel [simp]:
  "pf_in (popOps P st) = pf_in st" "pf_operand_needed (popOps P st) = pf_operand_needed st"
  "pf_in (emit i st) = pf_in st" "pf_operand_needed (emit i st) = pf_operand_needed st"
  by (simp_all add: popOps_def emit_def split: prod.splits)

text \<open>What a step leaves of the input: everything after the element, except after a constant.\<close>

lemma doElement_in:
  assumes "doElement scan junk e n st = Go st'" and "el_type e \<noteq> FLOAT_PT_CONST"
  shows "pf_in st' = drop n (pf_in st)"
  using assms
  by (auto simp: doElement_def Let_def doOperand_def doBinary_def doUnary_def doMinus_def doSeperator_def
      doCloseParen_def doConditional_def doExprTerm_def dest!: push_Go
      split: etype.splits if_splits option.splits)

lemma get_element_Some:
  assumes "get_element s = Some (e, n)"
  shows "(e = noElement \<and> n \<le> length s) \<or>
     (\<exists>k r. s = replicate k CHR '' '' @ element e @ r \<and> n = k + length (element e)
        \<and> e \<in> set elements \<and> element e \<noteq> [] \<and> skipSpaces s 0 = (element e @ r, k))"
proof -
  obtain u k where u: "skipSpaces s 0 = (u, k)" by force
  then have s: "s = replicate k CHR '' '' @ u" by (rule skipSpaces_split)
  show ?thesis
  proof (cases "find_element u")
    case None
    then show ?thesis using assms u s by (auto simp: get_element_def split: if_splits)
  next
    case (Some x)
    then have "x = e" "n = k + length (element x)"
      using assms u by (auto simp: get_element_def split: if_splits)
    then show ?thesis using find_element_Some[OF Some] s u by auto
  qed
qed

lemma doElement_decreases:
  assumes g: "get_element (pf_in st) = Some (e, n)" and d: "doElement scan junk e n st = Go st'"
  shows "pf_measure st' < pf_measure st"
proof -
  from get_element_Some[OF g] show ?thesis
  proof
    assume e: "e = noElement \<and> n \<le> length (pf_in st)"
    then show ?thesis using d
      by (auto simp: doElement_def noElement_def doOperand_def pf_measure_def split: if_splits)
  next
    assume "\<exists>k r. pf_in st = replicate k CHR '' '' @ element e @ r \<and> n = k + length (element e)
        \<and> e \<in> set elements \<and> element e \<noteq> [] \<and> skipSpaces (pf_in st) 0 = (element e @ r, k)"
    then obtain k r where s: "pf_in st = replicate k CHR '' '' @ element e @ r" "n = k + length (element e)"
      "e \<in> set elements" "element e \<noteq> []" "skipSpaces (pf_in st) 0 = (element e @ r, k)" by blast
    then have n: "0 < n" "n \<le> length (pf_in st)" by auto
    show ?thesis
    proof (cases "el_type e = FLOAT_PT_CONST")
      case False
      then have "length (pf_in st') < length (pf_in st)" using doElement_in[OF d] n by simp
      then show ?thesis by (auto simp: pf_measure_def)
    next
      case True
      then obtain c where c: "element e = [c]" "isDigit c \<or> c = CHR ''.''"
        using elements_const s(3) by (cases "element e") (auto simp: list_all_iff)
      obtain t u where tu: "scanConst r = (t, u)" by force
      then have sc: "scanConst (c # r) = (c # t, u)" using c(2) by simp
      have "pf_in st' = u" "\<not> pf_operand_needed st'"
        using d True s(5) c(1) sc by (auto simp: doElement_def doConst_def Let_def split: if_splits)
      moreover have "length u \<le> length r" using scanConst_split[OF tu] by simp
      ultimately show ?thesis using s(1) c(1) by (simp add: pf_measure_def)
    qed
  qed
qed

text \<open>The result: the code, a rejection with its error number, an input too long, or a fault.\<close>

datatype 'd pfresult = Compiled "'d instr list" | Rejected int | TooLong | PFault

definition pfEnd :: "'d pfstate \<Rightarrow> 'd pfresult" where
  "pfEnd st =
     (if pf_operand_needed st then Rejected 4
      else case flushOps (pf_stack st) (pf_out st) of
             None \<Rightarrow> Rejected 6
           | Some out \<Rightarrow> Compiled out)"

function pfLoop :: "(string \<Rightarrow> 'd) \<Rightarrow> char \<Rightarrow> 'd pfstate \<Rightarrow> 'd pfresult" where
  "pfLoop scan junk st =
     (case get_element (pf_in st) of
        None \<Rightarrow> pfEnd st
      | Some (e, n) \<Rightarrow> (case doElement scan junk e n st of
                         Go st' \<Rightarrow> pfLoop scan junk st'
                       | Reject k \<Rightarrow> Rejected k
                       | Fault \<Rightarrow> PFault))"
  by pat_completeness auto
termination
  by (relation "measure (\<lambda>(scan, junk, st). pf_measure st)") (auto intro: doElement_decreases)

declare pfLoop.simps [simp del]

definition toupper_c :: "char \<Rightarrow> char" where
  "toupper_c c = (if c \<in> set ''abcdefghijklmnopqrstuvwxyz'' then char_of (of_char c - 32 :: nat) else c)"

definition pfStart :: "string \<Rightarrow> 'd pfstate" where
  "pfStart infx = \<lparr>pf_in = infx, pf_out = [], pf_stack = [], pf_operand_needed = True,
                   pf_new_expression = True\<rparr>"

definition postfix :: "(string \<Rightarrow> 'd) \<Rightarrow> char \<Rightarrow> string \<Rightarrow> 'd pfresult" where
  "postfix scan junk pin =
     (if 100 \<le> length pin then TooLong
      else
        let infx = map toupper_c pin
        in if infx = [] then Compiled [] else pfLoop scan junk (pfStart infx))"

text \<open>The bytes \<open>postfix\<close> writes: a constant takes its opcode and eight bytes, the end mark one.\<close>

definition code_size :: "'d instr list \<Rightarrow> nat" where
  "code_size code = sum_list (map (\<lambda>i. case i of Op _ \<Rightarrow> 1 | Const _ \<Rightarrow> 9) code) + 1"

end
