(* ===== verification/CalcPerform.thy ===== *)
theory CalcPerform
  imports Postfix
begin

text \<open>
  The expression interpreter \<open>base/src/libCom/calc/calcPerform.c\<close>. The floating-point operations of C
  and its mathematics library are the record \<open>fpu\<close>, an argument of every definition; the control of
  the interpreter (the value stack, the skips of the conditional, the domain checks, the final
  checks) and the integer operations are the code's. The value stack is a list, top first;
  \<open>stack[0]\<close> holds no value, so 79 fit, and an operation that finds fewer values than it reads is a
  fault.
\<close>

unbundle bit_operations_syntax

section \<open>Numbers\<close>

text \<open>
  \<open>f_int\<close> is the conversion \<open>(int)x\<close>, \<open>f_of_int\<close> the one from \<open>int\<close>, \<open>f_badshift\<close> what the machine gives
  for a shift by a count outside \<open>0..31\<close>.
\<close>

record 'd fpu =
  f_add :: "'d \<Rightarrow> 'd \<Rightarrow> 'd"
  f_sub :: "'d \<Rightarrow> 'd \<Rightarrow> 'd"
  f_mult :: "'d \<Rightarrow> 'd \<Rightarrow> 'd"
  f_div :: "'d \<Rightarrow> 'd \<Rightarrow> 'd"
  f_lt :: "'d \<Rightarrow> 'd \<Rightarrow> bool"
  f_le :: "'d \<Rightarrow> 'd \<Rightarrow> bool"
  f_eq :: "'d \<Rightarrow> 'd \<Rightarrow> bool"
  f_neg :: "'d \<Rightarrow> 'd"
  f_int :: "'d \<Rightarrow> int"
  f_of_int :: "int \<Rightarrow> 'd"
  f_long :: "'d \<Rightarrow> int"
  f_half :: 'd
  f_pi :: 'd
  f_fun :: "opcode \<Rightarrow> 'd \<Rightarrow> 'd"
  f_atan2 :: "'d \<Rightarrow> 'd \<Rightarrow> 'd"
  f_badshift :: "int \<Rightarrow> int \<Rightarrow> int"
  f_isbad :: "'d \<Rightarrow> bool"

definition f_zero :: "'d fpu \<Rightarrow> 'd \<Rightarrow> bool" where
  "f_zero F x = f_eq F x (f_of_int F 0)"

definition f_bool :: "'d fpu \<Rightarrow> bool \<Rightarrow> 'd" where
  "f_bool F b = f_of_int F (if b then 1 else 0)"

text \<open>A 32-bit \<open>int\<close> result of a shift; C's \<open>%\<close> takes the sign of the dividend.\<close>

definition toInt :: "int \<Rightarrow> int" where
  "toInt i = sint (word_of_int i :: 32 word)"

definition toShort :: "int \<Rightarrow> int" where
  "toShort i = sint (word_of_int i :: 16 word)"

definition cmod :: "int \<Rightarrow> int \<Rightarrow> int" where
  "cmod a b = a - cdiv a b * b"

definition shiftRight :: "'d fpu \<Rightarrow> int \<Rightarrow> int \<Rightarrow> int" where
  "shiftRight F a n = (if 0 \<le> n \<and> n < 32 then drop_bit (nat n) a else f_badshift F a n)"

definition shiftLeft :: "'d fpu \<Rightarrow> int \<Rightarrow> int \<Rightarrow> int" where
  "shiftLeft F a n = (if 0 \<le> n \<and> n < 32 then toInt (push_bit (nat n) a) else f_badshift F a n)"

section \<open>The random numbers\<close>

definition randStep :: "16 word \<Rightarrow> 16 word" where
  "randStep seed = seed * (191 * 8 + 5) + 0x3141"

definition local_random :: "'d fpu \<Rightarrow> 16 word \<Rightarrow> 'd \<times> 16 word" where
  "local_random F seed =
     (let s = randStep seed in (f_div F (f_of_int F (uint s)) (f_of_int F 65535), s))"

section \<open>One instruction\<close>

text \<open>
  \<open>Fail\<close> is \<open>return(-1)\<close>; \<open>Bad\<close> is a fault. The operand below the top is the left one.
\<close>

datatype 'a outcome = Ok 'a | Fail | Bad

definition unary :: "('d \<Rightarrow> 'd outcome) \<Rightarrow> 'd list \<Rightarrow> 'd list outcome" where
  "unary f st =
     (case st of
        x # xs \<Rightarrow> (case f x of Ok r \<Rightarrow> Ok (r # xs) | Fail \<Rightarrow> Fail | Bad \<Rightarrow> Bad)
      | [] \<Rightarrow> Bad)"

definition binary :: "('d \<Rightarrow> 'd \<Rightarrow> 'd outcome) \<Rightarrow> 'd list \<Rightarrow> 'd list outcome" where
  "binary f st =
     (case st of
        y # x # xs \<Rightarrow> (case f x y of Ok r \<Rightarrow> Ok (r # xs) | Fail \<Rightarrow> Fail | Bad \<Rightarrow> Bad)
      | _ \<Rightarrow> Bad)"

definition pushVal :: "'d \<Rightarrow> 'd list \<Rightarrow> 'd list outcome" where
  "pushVal v st = (if 79 \<le> length st then Bad else Ok (v # st))"

text \<open>The operand instructions: arguments and constants; \<open>arg\<close> is \<open>parg\<close>.\<close>

definition fetch :: "'d fpu \<Rightarrow> (nat \<Rightarrow> 'd) \<Rightarrow> opcode \<Rightarrow> 'd option" where
  "fetch F arg k =
     (case k of
        FETCH_A \<Rightarrow> Some (arg 0) | FETCH_B \<Rightarrow> Some (arg 1) | FETCH_C \<Rightarrow> Some (arg 2)
      | FETCH_D \<Rightarrow> Some (arg 3) | FETCH_E \<Rightarrow> Some (arg 4) | FETCH_F \<Rightarrow> Some (arg 5)
      | FETCH_G \<Rightarrow> Some (arg 6) | FETCH_H \<Rightarrow> Some (arg 7) | FETCH_I \<Rightarrow> Some (arg 8)
      | FETCH_J \<Rightarrow> Some (arg 9) | FETCH_K \<Rightarrow> Some (arg 10) | FETCH_L \<Rightarrow> Some (arg 11)
      | CONST_PI \<Rightarrow> Some (f_pi F)
      | CONST_D2R \<Rightarrow> Some (f_div F (f_pi F) (f_of_int F 180))
      | CONST_R2D \<Rightarrow> Some (f_div F (f_of_int F 180) (f_pi F))
      | _ \<Rightarrow> None)"

text \<open>The one-operand instructions.\<close>

definition unaryFun :: "'d fpu \<Rightarrow> opcode \<Rightarrow> ('d \<Rightarrow> 'd outcome) option" where
  "unaryFun F k =
     (case k of
        ABS_VAL \<Rightarrow> Some (\<lambda>x. Ok (if f_lt F x (f_of_int F 0) then f_neg F x else x))
      | UNARY_NEG \<Rightarrow> Some (\<lambda>x. Ok (f_mult F (f_of_int F (- 1)) x))
      | SQU_RT \<Rightarrow> Some (\<lambda>x. if f_lt F x (f_of_int F 0) then Fail else Ok (f_fun F SQU_RT x))
      | NINT \<Rightarrow> Some (\<lambda>x. Ok (f_of_int F (f_long F
            (if f_le F (f_of_int F 0) x then f_add F x (f_half F) else f_sub F x (f_half F)))))
      | REL_NOT \<Rightarrow> Some (\<lambda>x. Ok (f_bool F (f_zero F x)))
      | BIT_NOT \<Rightarrow> Some (\<lambda>x. Ok (f_of_int F (NOT (f_int F x))))
      | _ \<Rightarrow> if k \<in> {EXP, LOG_10, LOG_E, ACOS, ASIN, ATAN, COS, SIN, TAN, COSH, SINH, TANH, CEIL, FLOOR}
             then Some (\<lambda>x. Ok (f_fun F k x)) else None)"

text \<open>\<open>EXPON\<close>: a negative base needs an exponent that equals its conversion to \<open>short\<close>.\<close>

definition expon :: "'d fpu \<Rightarrow> 'd \<Rightarrow> 'd \<Rightarrow> 'd outcome" where
  "expon F x y =
     (if f_zero F x then Ok x
      else if f_lt F x (f_of_int F 0)
      then
        let temp1 = toShort (f_int F y)
        in if \<not> f_zero F (f_sub F y (f_of_int F temp1)) then Fail
           else
             let r = f_fun F EXP (f_mult F y (f_fun F LOG_E (f_neg F x)))
             in Ok (if cmod temp1 2 > 0 then f_neg F r else r)
      else Ok (f_fun F EXP (f_mult F y (f_fun F LOG_E x))))"

text \<open>The two-operand instructions, on the left operand \<open>x\<close> and the right one \<open>y\<close> (the top).\<close>

definition binaryFun :: "'d fpu \<Rightarrow> opcode \<Rightarrow> ('d \<Rightarrow> 'd \<Rightarrow> 'd outcome) option" where
  "binaryFun F k =
     (case k of
        ADD \<Rightarrow> Some (\<lambda>x y. Ok (f_add F x y))
      | SUB \<Rightarrow> Some (\<lambda>x y. Ok (f_sub F x y))
      | MULT \<Rightarrow> Some (\<lambda>x y. Ok (f_mult F x y))
      | DIV \<Rightarrow> Some (\<lambda>x y. if f_zero F y then Fail else Ok (f_div F x y))
      | EXPON \<Rightarrow> Some (expon F)
      | MODULO \<Rightarrow> Some (\<lambda>x y. if f_int F y = 0 then Fail
                              else Ok (f_of_int F (cmod (f_int F x) (f_int F y))))
      | REL_OR \<Rightarrow> Some (\<lambda>x y. Ok (f_bool F (\<not> f_zero F x \<or> \<not> f_zero F y)))
      | REL_AND \<Rightarrow> Some (\<lambda>x y. Ok (f_bool F (\<not> f_zero F x \<and> \<not> f_zero F y)))
      | BIT_OR \<Rightarrow> Some (\<lambda>x y. Ok (f_of_int F (f_int F x OR f_int F y)))
      | BIT_AND \<Rightarrow> Some (\<lambda>x y. Ok (f_of_int F (f_int F x AND f_int F y)))
      | BIT_EXCL_OR \<Rightarrow> Some (\<lambda>x y. Ok (f_of_int F (f_int F x XOR f_int F y)))
      | GR_OR_EQ \<Rightarrow> Some (\<lambda>x y. Ok (f_bool F (f_le F y x)))
      | GR_THAN \<Rightarrow> Some (\<lambda>x y. Ok (f_bool F (f_lt F y x)))
      | LESS_OR_EQ \<Rightarrow> Some (\<lambda>x y. Ok (f_bool F (f_le F x y)))
      | LESS_THAN \<Rightarrow> Some (\<lambda>x y. Ok (f_bool F (f_lt F x y)))
      | NOT_EQ \<Rightarrow> Some (\<lambda>x y. Ok (f_bool F (\<not> f_eq F x y)))
      | EQUAL \<Rightarrow> Some (\<lambda>x y. Ok (f_bool F (f_eq F x y)))
      | RIGHT_SHIFT \<Rightarrow> Some (\<lambda>x y. Ok (f_of_int F (shiftRight F (f_int F x) (f_int F y))))
      | LEFT_SHIFT \<Rightarrow> Some (\<lambda>x y. Ok (f_of_int F (shiftLeft F (f_int F x) (f_int F y))))
      | MAX_CODE \<Rightarrow> Some (\<lambda>x y. Ok (if f_lt F x y then y else x))
      | MIN_CODE \<Rightarrow> Some (\<lambda>x y. Ok (if f_lt F y x then y else x))
      | ATAN2 \<Rightarrow> Some (\<lambda>x y. Ok (f_atan2 F y x))
      | _ \<Rightarrow> None)"

section \<open>The loop\<close>

text \<open>
  The skips look at the instruction after \<open>post\<close>; a constant is passed over whole. \<open>stop\<close> is the
  opcode that closes: \<open>COND_ELSE\<close> for a false condition, \<open>COND_END\<close> after a true branch. The result is
  what follows the closing instruction, or the end of the code.
\<close>

fun skipTo :: "opcode \<Rightarrow> nat \<Rightarrow> 'd instr list \<Rightarrow> 'd instr list" where
  "skipTo stop got_if [] = []"
| "skipTo stop got_if (Const c # post) = (if got_if = 0 then Const c # post else skipTo stop got_if post)"
| "skipTo stop got_if (Op k # post) =
     (if got_if = 0 then Op k # post
      else if k = COND_IF then skipTo stop (got_if + 1) post
      else if k = stop then skipTo stop (got_if - 1) post
      else skipTo stop got_if post)"

lemma skipTo_length: "length (skipTo stop n post) \<le> length post"
  by (induction stop n post rule: skipTo.induct) auto

lemma skipTo_less [simp]: "length (skipTo stop n post) < Suc (length post)"
  using skipTo_length[of stop n post] by simp

text \<open>The straight-line instructions; an opcode the \<open>switch\<close> does not know is only reported.\<close>

definition simpleOp :: "'d fpu \<Rightarrow> (nat \<Rightarrow> 'd) \<Rightarrow> opcode \<Rightarrow> 'd list \<Rightarrow> 'd list outcome" where
  "simpleOp F arg k st =
     (case fetch F arg k of
        Some v \<Rightarrow> pushVal v st
      | None \<Rightarrow> (case unaryFun F k of
          Some f \<Rightarrow> unary f st
        | None \<Rightarrow> (case binaryFun F k of
            Some f \<Rightarrow> binary f st
          | None \<Rightarrow> Ok st)))"

text \<open>The outcome comes with the seed, which a failing expression has moved on as well.\<close>

function exec :: "'d fpu \<Rightarrow> (nat \<Rightarrow> 'd) \<Rightarrow> 'd instr list \<Rightarrow> 'd list \<Rightarrow> 16 word \<Rightarrow>
    'd list outcome \<times> 16 word" where
  "exec F arg [] st seed = (Ok st, seed)"
| "exec F arg (Const c # post) st seed =
     (case pushVal c st of Ok st' \<Rightarrow> exec F arg post st' seed | Fail \<Rightarrow> (Fail, seed) | Bad \<Rightarrow> (Bad, seed))"
| "exec F arg (Op k # post) st seed =
     (if k = COND_IF then
        (case st of
           [] \<Rightarrow> (Bad, seed)
         | x # xs \<Rightarrow> exec F arg (if f_zero F x then skipTo COND_ELSE 1 post else post) xs seed)
      else if k = COND_ELSE then exec F arg (skipTo COND_END 1 post) st seed
      else if k = COND_END then exec F arg post st seed
      else if k = RANDOM then
        (let (v, seed') = local_random F seed in
         case pushVal v st of
           Ok st' \<Rightarrow> exec F arg post st' seed' | Fail \<Rightarrow> (Fail, seed') | Bad \<Rightarrow> (Bad, seed'))
      else
        (case simpleOp F arg k st of
           Ok st' \<Rightarrow> exec F arg post st' seed | Fail \<Rightarrow> (Fail, seed) | Bad \<Rightarrow> (Bad, seed)))"
  by pat_completeness auto
termination
  by (relation "measure (\<lambda>(F, arg, post, st, seed). length post)") auto

text \<open>
  \<open>calcPerform\<close>: the code \<open>postfix\<close> left (a rejected expression starts with \<open>BAD_EXPRESSION\<close>), run from
  the empty stack. The result is the status, the value stored in \<open>*presult\<close> if any, and the seed;
  \<open>None\<close> is a fault.
\<close>

definition calcPerform :: "'d fpu \<Rightarrow> (nat \<Rightarrow> 'd) \<Rightarrow> 'd instr list option \<Rightarrow> 16 word \<Rightarrow>
    (int \<times> 'd option \<times> 16 word) option" where
  "calcPerform F arg rpcl seed =
     (case rpcl of
        None \<Rightarrow> Some (- 1, None, seed)
      | Some post \<Rightarrow> (case exec F arg post [] seed of
            (Ok st, seed') \<Rightarrow>
              (case st of
                 [v] \<Rightarrow> Some (if f_isbad F v then - 1 else 0, Some v, seed')
               | _ \<Rightarrow> Some (- 1, None, seed'))
          | (Fail, seed') \<Rightarrow> Some (- 1, None, seed')
          | (Bad, _) \<Rightarrow> None))"

end
