(* ===== verification/CalcProofs.thy ===== *)
theory CalcProofs
  imports CalcPerform
begin

text \<open>
  What \<open>postfix\<close> and \<open>calcPerform\<close> promise together: expression trees, their text, their code and
  their value; the translation of the text of a tree is its code and running that code gives its
  value. Then the safety and the size of accepted code, for arbitrary input.
\<close>

section \<open>Lexing a printed token\<close>

definition blankTail :: "string \<Rightarrow> bool" where
  "blankTail r \<longleftrightarrow> (case r of [] \<Rightarrow> True | c # _ \<Rightarrow> c = CHR '' '')"

lemma blankTail_simps [simp]: "blankTail []" "blankTail (c # r) = (c = CHR '' '')"
  by (simp_all add: blankTail_def)

lemma lex_table:
  "list_all (\<lambda>e. find_loop (element e @ '' '') elements = Some e) elements"
  "list_all (\<lambda>e. find_loop (element e) elements = Some e) elements"
  "list_all (\<lambda>e. CHR '' '' \<notin> set (element e)) elements"
  by code_simp+

lemma startsWith_blank:
  assumes "CHR '' '' \<notin> set p"
  shows "startsWith (s @ '' '' @ r) p = startsWith (s @ '' '') p"
proof (cases "length p \<le> length s")
  case True
  then show ?thesis by (simp add: startsWith_def)
next
  case False
  have no: "\<not> startsWith (s @ '' '' @ t) p" for t
  proof
    assume "startsWith (s @ '' '' @ t) p"
    then have "p = s @ take (length p - length s) ('' '' @ t)"
      using False unfolding startsWith_def by (metis take_append take_all nat_le_linear)
    moreover obtain n where "length p - length s = Suc n" using False by (metis Suc_diff_Suc not_le)
    ultimately have "CHR '' '' \<in> set p" by simp
    then show False using assms by simp
  qed
  show ?thesis using no[of r] no[of "[]"] by simp
qed

lemma find_loop_blank:
  "list_all (\<lambda>e. CHR '' '' \<notin> set (element e)) es \<Longrightarrow> find_loop (s @ '' '' @ r) es = find_loop (s @ '' '') es"
  using startsWith_blank by (induction es) (auto simp del: append_Cons append_Nil)

lemma lex_token:
  assumes "e \<in> set elements" and "blankTail r"
  shows "get_element (CHR '' '' # element e @ r) = Some (e, Suc (length (element e)))"
proof -
  have ne: "element e \<noteq> []" using assms(1) elements_nonempty by (simp add: list_all_iff)
  have nb: "CHR '' '' \<notin> set (element e)" using assms(1) lex_table(3) by (simp add: list_all_iff)
  have "find_element (element e @ r) = Some e"
  proof (cases r)
    case Nil
    then show ?thesis using assms(1) lex_table(2) by (simp add: find_element_def list_all_iff)
  next
    case (Cons c r')
    then have r: "element e @ r = element e @ '' '' @ r'" using assms(2) by simp
    show ?thesis unfolding r find_element_def find_loop_blank[OF lex_table(3)]
      using assms(1) lex_table(1) by (simp add: list_all_iff)
  qed
  moreover have "skipSpaces (CHR '' '' # element e @ r) 0 = (element e @ r, 1)"
    using ne nb by (cases "element e") auto
  ultimately show ?thesis using ne by (simp add: get_element_def)
qed

section \<open>Expression trees\<close>

text \<open>
  \<open>Call\<close> is a two-argument function, \<open>Sub\<close> and \<open>Neg\<close> are the two uses of the minus sign. The text has
  one blank before every token.
\<close>

datatype expr = Var expression_element | Num string | Pre expression_element expr | Neg expr
  | Bin expression_element expr expr | Sub expr expr | Par expr | Call expression_element expr expr
  | If expr expr expr

abbreviation lparen :: expression_element where "lparen \<equiv> el ''('' 0 8 UNARY_OPERATOR PAREN"
abbreviation rparen :: expression_element where "rparen \<equiv> el '')'' 0 0 CLOSE_PAREN PAREN"
abbreviation comma :: expression_element where "comma \<equiv> el '','' 0 0 SEPERATOR COMMA"
abbreviation minus :: expression_element where "minus \<equiv> el ''-'' 7 8 MINUS_OPERATOR UNARY_NEG"
abbreviation quest :: expression_element where "quest \<equiv> el ''?'' 0 0 CONDITIONAL COND_IF"
abbreviation colon :: expression_element where "colon \<equiv> el '':'' 0 0 CONDITIONAL COND_ELSE"

definition tok :: "expression_element \<Rightarrow> string" where
  "tok e = CHR '' '' # element e"

fun show_expr :: "expr \<Rightarrow> string" where
  "show_expr (Var e) = tok e"
| "show_expr (Num s) = CHR '' '' # s"
| "show_expr (Pre e x) = tok e @ show_expr x"
| "show_expr (Neg x) = tok minus @ show_expr x"
| "show_expr (Bin e x y) = show_expr x @ tok e @ show_expr y"
| "show_expr (Sub x y) = show_expr x @ tok minus @ show_expr y"
| "show_expr (Par x) = tok lparen @ show_expr x @ tok rparen"
| "show_expr (Call e x y) = tok e @ tok lparen @ show_expr x @ tok comma @ show_expr y @ tok rparen"
| "show_expr (If c x y) = show_expr c @ tok quest @ show_expr x @ tok colon @ show_expr y"

fun compile :: "(string \<Rightarrow> 'd) \<Rightarrow> expr \<Rightarrow> 'd instr list" where
  "compile scan (Var e) = [Op (el_code e)]"
| "compile scan (Num s) = [Const (scan (CHR '' '' # s))]"
| "compile scan (Pre e x) = compile scan x @ [Op (el_code e)]"
| "compile scan (Neg x) = compile scan x @ [Op UNARY_NEG]"
| "compile scan (Bin e x y) = compile scan x @ compile scan y @ [Op (el_code e)]"
| "compile scan (Sub x y) = compile scan x @ compile scan y @ [Op SUB]"
| "compile scan (Par x) = compile scan x"
| "compile scan (Call e x y) = compile scan x @ compile scan y @ [Op (el_code e)]"
| "compile scan (If c x y) = compile scan c @ [Op COND_IF] @ compile scan x @ [Op COND_ELSE]
     @ compile scan y @ [Op COND_END]"

text \<open>Binding strength: conditional 0, binary operators 1 to 6, prefix operators 7, the rest 8.\<close>

fun level :: "expr \<Rightarrow> int" where
  "level (Pre e x) = 7"
| "level (Neg x) = 7"
| "level (Call e x y) = 7"
| "level (Bin e x y) = in_stack_pri e"
| "level (Sub x y) = 4"
| "level (If c x y) = 0"
| "level _ = 8"

definition two_arg :: "opcode list" where "two_arg = [MAX_CODE, MIN_CODE, ATAN2]"

definition upper_el :: "expression_element \<Rightarrow> bool" where
  "upper_el e \<longleftrightarrow> e \<in> set elements \<and> map toupper_c (element e) = element e"

text \<open>
  The trees whose shape agrees with the priorities: binary operators group to the left, a prefix
  operator binds tighter than any of them, a conditional is the weakest and groups to the right.
\<close>

fun wf_expr :: "expr \<Rightarrow> bool" where
  "wf_expr (Var e) \<longleftrightarrow> upper_el e \<and> el_type e = OPERAND"
| "wf_expr (Num s) \<longleftrightarrow> s \<noteq> [] \<and> list_all (\<lambda>c. isDigit c \<or> c = CHR ''.'') s"
| "wf_expr (Pre e x) \<longleftrightarrow> upper_el e \<and> el_type e = UNARY_OPERATOR \<and> e \<noteq> lparen
     \<and> el_code e \<notin> set two_arg \<and> wf_expr x \<and> 7 \<le> level x"
| "wf_expr (Neg x) \<longleftrightarrow> wf_expr x \<and> 7 \<le> level x"
| "wf_expr (Bin e x y) \<longleftrightarrow> upper_el e \<and> el_type e = BINARY_OPERATOR
     \<and> wf_expr x \<and> wf_expr y \<and> in_stack_pri e \<le> level x \<and> in_stack_pri e < level y"
| "wf_expr (Sub x y) \<longleftrightarrow> wf_expr x \<and> wf_expr y \<and> 4 \<le> level x \<and> 4 < level y"
| "wf_expr (Par x) \<longleftrightarrow> wf_expr x"
| "wf_expr (Call e x y) \<longleftrightarrow> upper_el e \<and> el_type e = UNARY_OPERATOR \<and> el_code e \<in> set two_arg
     \<and> wf_expr x \<and> wf_expr y"
| "wf_expr (If c x y) \<longleftrightarrow> wf_expr c \<and> wf_expr x \<and> wf_expr y \<and> 1 \<le> level c \<and> 1 \<le> level x"

text \<open>The operators still on the stack after the text of a tree, top first, and the code before them.\<close>

fun pend :: "expr \<Rightarrow> expression_element list" where
  "pend (Pre e x) = pend x @ [e]"
| "pend (Neg x) = pend x @ [minus\<lparr>in_stack_pri := 7, el_code := UNARY_NEG\<rparr>]"
| "pend (Bin e x y) = pend y @ [e]"
| "pend (Sub x y) = pend y @ [minus\<lparr>in_stack_pri := 4, el_code := SUB\<rparr>]"
| "pend (Call e x y) = [e]"
| "pend (If c x y) = pend y @ [colon\<lparr>el_code := COND_END\<rparr>]"
| "pend _ = []"

fun emitted :: "(string \<Rightarrow> 'd) \<Rightarrow> expr \<Rightarrow> 'd instr list" where
  "emitted scan (Pre e x) = emitted scan x"
| "emitted scan (Neg x) = emitted scan x"
| "emitted scan (Bin e x y) = compile scan x @ emitted scan y"
| "emitted scan (Sub x y) = compile scan x @ emitted scan y"
| "emitted scan (Call e x y) = compile scan x @ compile scan y"
| "emitted scan (If c x y) = compile scan c @ [Op COND_IF] @ compile scan x @ [Op COND_ELSE]
     @ emitted scan y"
| "emitted scan (Var e) = [Op (el_code e)]"
| "emitted scan (Num s) = [Const (scan (CHR '' '' # s))]"
| "emitted scan (Par x) = compile scan x"

abbreviation opcodes :: "expression_element list \<Rightarrow> 'd instr list" where
  "opcodes ts \<equiv> map (\<lambda>t. Op (el_code t)) ts"

lemma compile_pend: "compile scan x = emitted scan x @ opcodes (pend x)"
  by (induction x) auto

lemma elements_pri:
  "list_all (\<lambda>e. (el_type e = BINARY_OPERATOR \<longrightarrow> 1 \<le> in_stack_pri e \<and> in_stack_pri e \<le> 6
       \<and> in_coming_pri e = in_stack_pri e \<and> \<not> isParen e)
     \<and> (el_type e = UNARY_OPERATOR \<longrightarrow> in_coming_pri e = 8
       \<and> (e = lparen \<or> in_stack_pri e = 7 \<and> \<not> isParen e))) elements"
  by code_simp

lemma bin_el:
  "upper_el e \<Longrightarrow> el_type e = BINARY_OPERATOR \<Longrightarrow>
   1 \<le> in_stack_pri e \<and> in_stack_pri e \<le> 6 \<and> in_coming_pri e = in_stack_pri e \<and> \<not> isParen e"
  using elements_pri by (simp add: upper_el_def list_all_iff)

lemma un_el:
  "upper_el e \<Longrightarrow> el_type e = UNARY_OPERATOR \<Longrightarrow> e \<noteq> lparen \<Longrightarrow>
   in_stack_pri e = 7 \<and> in_coming_pri e = 8 \<and> \<not> isParen e"
  using elements_pri by (auto simp: upper_el_def list_all_iff)

lemma call_not_paren: "el_code e \<in> set two_arg \<Longrightarrow> e \<noteq> lparen"
  by (auto simp: two_arg_def)

lemma pend_ok:
  "wf_expr x \<Longrightarrow> \<forall>t \<in> set (pend x). level x \<le> in_stack_pri t \<and> 0 \<le> in_stack_pri t
      \<and> in_stack_pri t \<le> 7 \<and> \<not> isParen t"
proof (induction x)
  case (Pre e x)
  then show ?case using un_el[of e] by auto
next
  case (Bin e x y)
  then show ?case using bin_el[of e] by auto
next
  case (Call e x y)
  then show ?case using un_el[of e] call_not_paren[of e] by auto
next
  case (If c x y)
  then show ?case by (auto simp: isParen_def)
qed (auto simp: isParen_def)

section \<open>The translation of a printed tree\<close>

text \<open>The steps of the loop on one printed token.\<close>

lemma pfLoop_token:
  assumes "e \<in> set elements" and "blankTail r" and "pf_in st = tok e @ r"
  shows "pfLoop scan junk st =
    (case doElement scan junk e (length (tok e)) st of
       Go st' \<Rightarrow> pfLoop scan junk st' | Reject k \<Rightarrow> Rejected k | Fault \<Rightarrow> PFault)"
  using lex_token[OF assms(1,2)] assms(3) by (subst pfLoop.simps) (simp add: tok_def)

abbreviation pst :: "string \<Rightarrow> 'd instr list \<Rightarrow> expression_element list \<Rightarrow> bool \<Rightarrow> bool \<Rightarrow> 'd pfstate" where
  "pst s out ts need new \<equiv> \<lparr>pf_in = s, pf_out = out, pf_stack = ts, pf_operand_needed = need,
      pf_new_expression = new\<rparr>"

text \<open>Operators of at least the incoming priority are moved out, the ones below stay.\<close>

lemma popWhile_all:
  "\<forall>t \<in> set us. P t \<Longrightarrow> popWhile P (us @ ts) out = popWhile P ts (out @ opcodes us)"
  by (induction us arbitrary: out) auto

lemma popWhile_stop: "ts = [] \<or> \<not> P (hd ts) \<Longrightarrow> popWhile P ts out = (ts, out)"
  by (cases ts) auto

lemma popOps_pend:
  assumes "\<forall>t \<in> set us. P t" and "ts = [] \<or> \<not> P (hd ts)"
  shows "popOps P (pst s out (us @ ts) need new) = pst s (out @ opcodes us) ts need new"
  using assms by (simp add: popOps_def popWhile_all popWhile_stop)

lemma popToParen_pend:
  "\<forall>t \<in> set us. \<not> isParen t \<Longrightarrow>
   popToParen junk (us @ lparen # ts) out = Some (Some (lparen # ts, out @ opcodes us))"
  by (induction us arbitrary: out) (auto simp: isParen_def)

lemma flushOps_pend:
  "\<forall>t \<in> set us. \<not> isParen t \<Longrightarrow> flushOps us out = Some (out @ opcodes us)"
  by (induction us arbitrary: out) auto

text \<open>What the operator below a subexpression must not exceed for the subexpression to start there.\<close>

fun demand :: "expr \<Rightarrow> int" where
  "demand (Bin e x y) = in_stack_pri e"
| "demand (Sub x y) = 4"
| "demand (If c x y) = 1"
| "demand _ = 8"

definition above :: "expression_element list \<Rightarrow> expr \<Rightarrow> bool" where
  "above ts x \<longleftrightarrow> (\<forall>t \<in> set (take 1 ts). in_stack_pri t < demand x)"

lemma above_simps [simp]: "above [] x" "above (t # ts) x \<longleftrightarrow> in_stack_pri t < demand x"
  by (simp_all add: above_def)

lemma demand_level: "wf_expr x \<Longrightarrow> 0 \<le> level x \<and> level x \<le> demand x \<and> 1 \<le> demand x \<and> demand x \<le> 8
    \<and> (level x = 7 \<longrightarrow> demand x = 8)"
proof (cases x)
  case (Bin e a b)
  assume "wf_expr x"
  then show ?thesis using Bin bin_el[of e] by auto
qed auto

lemma above_le: "above ts x \<Longrightarrow> demand x \<le> demand y \<Longrightarrow> above ts y"
  by (cases ts) auto

lemma blank_show [simp]: "blankTail (show_expr x @ r)" "blankTail (tok e @ r)"
proof -
  show "blankTail (show_expr x @ r)" by (induction x arbitrary: r) (auto simp: tok_def)
  show "blankTail (tok e @ r)" by (simp add: tok_def)
qed

lemma show_length: "wf_expr x \<Longrightarrow> 2 * length (pend x) + 2 \<le> length (show_expr x)"
proof (induction x)
  case (Pre e x)
  then have "element e \<noteq> []" using elements_nonempty by (auto simp: upper_el_def list_all_iff)
  then show ?case using Pre by (cases "element e") (auto simp: tok_def)
next
  case (Bin e x y)
  then have "element e \<noteq> []" using elements_nonempty by (auto simp: upper_el_def list_all_iff)
  then show ?case using Bin by (cases "element e") (auto simp: tok_def)
next
  case (Var e)
  then have "element e \<noteq> []" using elements_nonempty by (auto simp: upper_el_def list_all_iff)
  then show ?case by (cases "element e") (auto simp: tok_def)
next
  case (Num s)
  then show ?case by (cases s) auto
qed (auto simp: tok_def)

lemma special_elements:
  "lparen \<in> set elements" "rparen \<in> set elements" "comma \<in> set elements" "minus \<in> set elements"
  "quest \<in> set elements" "colon \<in> set elements"
  by (simp_all add: elements_def)

lemma step_var:
  assumes "upper_el e" "el_type e = OPERAND" "blankTail r"
  shows "pfLoop scan junk (pst (tok e @ r) out ts True nw) =
    pfLoop scan junk (pst r (out @ [Op (el_code e)]) ts False False)"
  using assms pfLoop_token[of e r "pst (tok e @ r) out ts True nw" scan junk]
  by (simp add: upper_el_def doElement_def doOperand_def emit_def)

lemma step_prefix:
  assumes "e \<in> set elements" "el_type e = UNARY_OPERATOR" "blankTail r" "length ts < 79"
    and "\<forall>t \<in> set (take 1 ts). in_stack_pri t < 8" "in_coming_pri e = 8"
  shows "pfLoop scan junk (pst (tok e @ r) out ts True nw) = pfLoop scan junk (pst r out (e # ts) True False)"
proof -
  have "popOps (\<lambda>t. in_stack_pri t \<ge> 8) (pst r out ts True nw) = pst r out ts True nw"
    using popOps_pend[of "[]" "\<lambda>t. in_stack_pri t \<ge> 8" ts r out True nw] assms(5) by (cases ts) auto
  then show ?thesis
    using assms pfLoop_token[of e r "pst (tok e @ r) out ts True nw" scan junk]
    by (simp add: doElement_def doUnary_def push_def)
qed

lemma step_neg:
  assumes "blankTail r" "length ts < 79" and "\<forall>t \<in> set (take 1 ts). in_stack_pri t < 8"
  shows "pfLoop scan junk (pst (tok minus @ r) out ts True nw) =
    pfLoop scan junk (pst r out (minus\<lparr>in_stack_pri := 7, el_code := UNARY_NEG\<rparr> # ts) True False)"
proof -
  have "popOps (\<lambda>t. in_stack_pri t \<ge> 8) (pst r out ts True nw) = pst r out ts True nw"
    using popOps_pend[of "[]" "\<lambda>t. in_stack_pri t \<ge> 8" ts r out True nw] assms(3) by (cases ts) auto
  then show ?thesis
    using assms pfLoop_token[of minus r "pst (tok minus @ r) out ts True nw" scan junk] special_elements
    by (simp add: doElement_def doMinus_def push_def)
qed

lemma step_infix_op:
  assumes "upper_el e" "el_type e = BINARY_OPERATOR" "blankTail r" "length ts < 79"
    and "\<forall>t \<in> set us. in_stack_pri e \<le> in_stack_pri t"
    and "\<forall>t \<in> set (take 1 ts). in_stack_pri t < in_stack_pri e"
  shows "pfLoop scan junk (pst (tok e @ r) out (us @ ts) False nw) =
    pfLoop scan junk (pst r (out @ opcodes us) (e # ts) True nw)"
proof -
  have "popOps (\<lambda>t. in_stack_pri t \<ge> in_stack_pri e) (pst r out (us @ ts) False nw)
      = pst r (out @ opcodes us) ts False nw"
    using assms(5,6) by (intro popOps_pend) (cases ts; auto)+
  then show ?thesis
    using assms bin_el[of e] pfLoop_token[of e r "pst (tok e @ r) out (us @ ts) False nw" scan junk]
    by (simp add: upper_el_def doElement_def doBinary_def push_def)
qed

lemma step_sub:
  assumes "blankTail r" "length ts < 79" "\<forall>t \<in> set us. 4 \<le> in_stack_pri t"
    and "\<forall>t \<in> set (take 1 ts). in_stack_pri t < 4"
  shows "pfLoop scan junk (pst (tok minus @ r) out (us @ ts) False nw) =
    pfLoop scan junk (pst r (out @ opcodes us) (minus\<lparr>in_stack_pri := 4, el_code := SUB\<rparr> # ts) True nw)"
proof -
  have "popOps (\<lambda>t. in_stack_pri t \<ge> 4) (pst r out (us @ ts) False nw) = pst r (out @ opcodes us) ts False nw"
    using assms(3,4) by (intro popOps_pend) (cases ts; auto)+
  then show ?thesis
    using assms pfLoop_token[of minus r "pst (tok minus @ r) out (us @ ts) False nw" scan junk] special_elements
    by (simp add: doElement_def doMinus_def push_def)
qed

lemma step_cond:
  assumes "blankTail r" "length ts < 79" "\<forall>t \<in> set us. 1 \<le> in_stack_pri t"
    and "\<forall>t \<in> set (take 1 ts). in_stack_pri t < 1"
  shows "pfLoop scan junk (pst (tok quest @ r) out (us @ ts) False nw) =
      pfLoop scan junk (pst r (out @ opcodes us @ [Op COND_IF]) ts True nw)"
    and "pfLoop scan junk (pst (tok colon @ r) out (us @ ts) False nw) =
      pfLoop scan junk (pst r (out @ opcodes us @ [Op COND_ELSE]) (colon\<lparr>el_code := COND_END\<rparr> # ts) True nw)"
proof -
  have p: "popOps (\<lambda>t. in_stack_pri t > 0) (pst r out (us @ ts) False nw) = pst r (out @ opcodes us) ts False nw"
    using assms(3,4) by (intro popOps_pend) (cases ts; auto)+
  show "pfLoop scan junk (pst (tok quest @ r) out (us @ ts) False nw) =
      pfLoop scan junk (pst r (out @ opcodes us @ [Op COND_IF]) ts True nw)"
    using p assms pfLoop_token[of quest r "pst (tok quest @ r) out (us @ ts) False nw" scan junk]
      special_elements by (simp add: doElement_def doConditional_def push_def emit_def)
  show "pfLoop scan junk (pst (tok colon @ r) out (us @ ts) False nw) =
      pfLoop scan junk (pst r (out @ opcodes us @ [Op COND_ELSE]) (colon\<lparr>el_code := COND_END\<rparr> # ts) True nw)"
    using p assms pfLoop_token[of colon r "pst (tok colon @ r) out (us @ ts) False nw" scan junk]
      special_elements by (simp add: doElement_def doConditional_def push_def emit_def)
qed

lemma step_paren:
  assumes "blankTail r" "\<forall>t \<in> set us. \<not> isParen t"
  shows "pfLoop scan junk (pst (tok comma @ r) out (us @ lparen # ts) False nw) =
      pfLoop scan junk (pst r (out @ opcodes us) (lparen # ts) True nw)"
    and "pfLoop scan junk (pst (tok rparen @ r) out (us @ lparen # ts) False nw) =
      pfLoop scan junk (pst r (out @ opcodes us) ts False nw)"
  using popToParen_pend[OF assms(2), of junk ts out] assms special_elements
    pfLoop_token[of comma r "pst (tok comma @ r) out (us @ lparen # ts) False nw" scan junk]
    pfLoop_token[of rparen r "pst (tok rparen @ r) out (us @ lparen # ts) False nw" scan junk]
  by (simp_all add: doElement_def doSeperator_def doCloseParen_def)

lemma scanConst_digits:
  "list_all (\<lambda>c. isDigit c \<or> c = CHR ''.'') s \<Longrightarrow> blankTail r \<Longrightarrow> scanConst (s @ r) = (s, r)"
proof (induction s)
  case Nil
  then show ?case by (cases r) (auto simp: isDigit_def)
qed auto

lemma const_first:
  "list_all (\<lambda>c. filter (\<lambda>e. take 1 (element e) = [c]) elements = [el [c] 0 0 FLOAT_PT_CONST CONSTANT])
     ''0123456789.''"
  by code_simp

lemma find_loop_first:
  "list_all (\<lambda>e. element e \<noteq> []) es \<Longrightarrow>
   find_loop (c # r) es = find_loop (c # r) (filter (\<lambda>e. take 1 (element e) = [c]) es)"
proof (induction es)
  case (Cons e es)
  then show ?case by (cases "element e") (auto simp: startsWith_def)
qed simp

lemma step_num:
  assumes "s \<noteq> []" "list_all (\<lambda>c. isDigit c \<or> c = CHR ''.'') s" "blankTail r"
  shows "pfLoop scan junk (pst (CHR '' '' # s @ r) out ts True nw) =
    pfLoop scan junk (pst r (out @ [Const (scan (CHR '' '' # s))]) ts False False)"
proof -
  obtain c s' where s: "s = c # s'" using assms(1) by (cases s) auto
  then have c: "isDigit c \<or> c = CHR ''.''" using assms(2) by simp
  have "find_loop (c # s' @ r) elements = Some (el [c] 0 0 FLOAT_PT_CONST CONSTANT)"
    using c const_first unfolding find_loop_first[OF elements_nonempty]
    by (auto simp: isDigit_def list_all_iff startsWith_def)
  then have "get_element (CHR '' '' # s @ r) = Some (el [c] 0 0 FLOAT_PT_CONST CONSTANT, 2)"
    using c by (auto simp: s get_element_def find_element_def isDigit_def)
  moreover have "skipSpaces (CHR '' '' # s @ r) 0 = (s @ r, 1)" using c by (auto simp: s isDigit_def)
  ultimately show ?thesis
    using scanConst_digits[OF assms(2,3)]
    by (subst pfLoop.simps) (simp add: doElement_def doConst_def emit_def)
qed

text \<open>The loop on the text of a tree: the code in front, the pending operators on the stack.\<close>

lemma above_top: "above ts x \<Longrightarrow> demand x \<le> d \<Longrightarrow> \<forall>t \<in> set (take 1 ts). in_stack_pri t < d"
  by (auto simp: above_def)

lemma tok_length: "upper_el e \<Longrightarrow> 2 \<le> length (tok e)"
  using elements_nonempty by (cases "element e") (auto simp: tok_def upper_el_def list_all_iff)

lemma fits: "wf_expr x \<Longrightarrow> 2 * length ts + length (show_expr x) \<le> 159 \<Longrightarrow> length ts < 79"
  using show_length[of x] by simp

lemma simulate:
  "wf_expr x \<Longrightarrow> above ts x \<Longrightarrow> blankTail r \<Longrightarrow> 2 * length ts + length (show_expr x) \<le> 158 \<Longrightarrow>
   pfLoop scan junk (pst (show_expr x @ r) out ts True nw) =
   pfLoop scan junk (pst r (out @ emitted scan x) (pend x @ ts) False False)"
proof (induction x arbitrary: ts r out nw)
  case (Var e)
  then show ?case by (simp add: step_var)
next
  case (Num s)
  then show ?case by (simp add: step_num)
next
  case (Pre e x)
  then have e: "in_stack_pri e = 7" "in_coming_pri e = 8" using un_el[of e] by auto
  have a: "above (e # ts) x" using Pre.prems demand_level[of x] e by auto
  have l: "2 * length (e # ts) + length (show_expr x) \<le> 158"
    using Pre.prems tok_length[of e] by simp
  have "length ts < 79" using Pre.prems tok_length[of e] by simp
  moreover have "\<forall>t \<in> set (take 1 ts). in_stack_pri t < 8" using above_top[OF Pre.prems(2)] by simp
  ultimately show ?case
    using Pre.prems Pre.IH[of "e # ts" r out False] a l e
      step_prefix[of e "show_expr x @ r" ts scan junk out nw] by (simp add: upper_el_def)
next
  case (Neg x)
  let ?m = "minus\<lparr>in_stack_pri := 7, el_code := UNARY_NEG\<rparr>"
  have a: "above (?m # ts) x" using Neg.prems demand_level[of x] by auto
  have l: "2 * length (?m # ts) + length (show_expr x) \<le> 158" using Neg.prems by (simp add: tok_def)
  have "length ts < 79" using Neg.prems by (simp add: tok_def)
  moreover have "\<forall>t \<in> set (take 1 ts). in_stack_pri t < 8" using above_top[OF Neg.prems(2)] by simp
  ultimately show ?case
    using Neg.prems Neg.IH[of "?m # ts" r out False] a l
      step_neg[of "show_expr x @ r" ts scan junk out nw] by simp
next
  case (Bin e x y)
  have e: "1 \<le> in_stack_pri e" "in_stack_pri e \<le> 6" using bin_el[of e] Bin.prems by auto
  have ax: "above ts x" using Bin.prems demand_level[of x] by (intro above_le[OF Bin.prems(2)]) auto
  have ay: "above (e # ts) y" using Bin.prems demand_level[of y] by auto
  have t2: "2 \<le> length (tok e)" using Bin.prems tok_length by simp
  have lx: "2 * length ts + length (show_expr x) \<le> 158" using Bin.prems by simp
  have ly: "2 * length (e # ts) + length (show_expr y) \<le> 158" using Bin.prems t2 by simp
  have lt: "length ts < 79" using fits[of x ts] lx Bin.prems by simp
  have us: "\<forall>t \<in> set (pend x). in_stack_pri e \<le> in_stack_pri t" using pend_ok[of x] Bin.prems by force
  have top: "\<forall>t \<in> set (take 1 ts). in_stack_pri t < in_stack_pri e"
    using above_top[OF Bin.prems(2)] by simp
  show ?case
    using Bin.prems Bin.IH(1)[of ts "tok e @ show_expr y @ r" out nw] ax lx
      Bin.IH(2)[of "e # ts" r "out @ emitted scan x @ opcodes (pend x)" False] ay ly
      step_infix_op[of e "show_expr y @ r" ts "pend x" scan junk "out @ emitted scan x" False] lt us top
    by (simp add: compile_pend)
next
  case (Sub x y)
  let ?m = "minus\<lparr>in_stack_pri := 4, el_code := SUB\<rparr>"
  have ax: "above ts x" using Sub.prems demand_level[of x] by (intro above_le[OF Sub.prems(2)]) auto
  have ay: "above (?m # ts) y" using Sub.prems demand_level[of y] by auto
  have lx: "2 * length ts + length (show_expr x) \<le> 158" using Sub.prems by simp
  have ly: "2 * length (?m # ts) + length (show_expr y) \<le> 158" using Sub.prems by (simp add: tok_def)
  have lt: "length ts < 79" using fits[of x ts] lx Sub.prems by simp
  have us: "\<forall>t \<in> set (pend x). 4 \<le> in_stack_pri t" using pend_ok[of x] Sub.prems by force
  have top: "\<forall>t \<in> set (take 1 ts). in_stack_pri t < 4" using above_top[OF Sub.prems(2)] by simp
  show ?case
    using Sub.prems Sub.IH(1)[of ts "tok minus @ show_expr y @ r" out nw] ax lx
      Sub.IH(2)[of "?m # ts" r "out @ emitted scan x @ opcodes (pend x)" False] ay ly
      step_sub[of "show_expr y @ r" ts "pend x" scan junk "out @ emitted scan x" False] lt us top
    by (simp add: compile_pend)
next
  case (Par x)
  have a: "above (lparen # ts) x" using Par.prems demand_level[of x] by auto
  have l: "2 * length (lparen # ts) + length (show_expr x) \<le> 158" using Par.prems by (simp add: tok_def)
  have lt: "length ts < 79" using Par.prems by (simp add: tok_def)
  have top: "\<forall>t \<in> set (take 1 ts). in_stack_pri t < 8" using above_top[OF Par.prems(2)] by simp
  have us: "\<forall>t \<in> set (pend x). \<not> isParen t" using pend_ok[of x] Par.prems by simp
  have b: "blankTail (show_expr x @ tok rparen @ r)" "blankTail (tok rparen @ r)" by simp_all
  have w: "wf_expr x" "blankTail r" using Par.prems by simp_all
  have "pfLoop scan junk (pst (show_expr (Par x) @ r) out ts True nw) =
      pfLoop scan junk (pst (show_expr x @ tok rparen @ r) out (lparen # ts) True False)"
    using step_prefix[OF special_elements(1) _ b(1) lt top, of scan junk out nw] by simp
  also have "\<dots> = pfLoop scan junk (pst (tok rparen @ r) (out @ emitted scan x) (pend x @ lparen # ts) False False)"
    by (rule Par.IH[OF w(1) a b(2) l])
  also have "\<dots> = pfLoop scan junk (pst r ((out @ emitted scan x) @ opcodes (pend x)) ts False False)"
    by (rule step_paren(2)[OF w(2) us])
  finally show ?case by (simp add: compile_pend)
next
  case (Call e x y)
  have e: "e \<in> set elements" "el_type e = UNARY_OPERATOR" "in_stack_pri e = 7" "in_coming_pri e = 8"
    using un_el[of e] call_not_paren[of e] Call.prems by (auto simp: upper_el_def)
  have t2: "2 \<le> length (tok e)" using Call.prems tok_length by simp
  have ax: "above (lparen # e # ts) x" "above (lparen # e # ts) y"
    using Call.prems demand_level[of x] demand_level[of y] by auto
  have lx: "2 * length (lparen # e # ts) + length (show_expr x) \<le> 158"
    "2 * length (lparen # e # ts) + length (show_expr y) \<le> 158"
    using Call.prems t2 by (simp_all add: tok_def)
  have lt: "length ts < 79" "length (e # ts) < 79" using Call.prems t2 by (simp_all add: tok_def)
  have top: "\<forall>t \<in> set (take 1 ts). in_stack_pri t < 8" using above_top[OF Call.prems(2)] by simp
  have us: "\<forall>t \<in> set (pend x). \<not> isParen t" "\<forall>t \<in> set (pend y). \<not> isParen t"
    using pend_ok[of x] pend_ok[of y] Call.prems by simp_all
  have 1: "pfLoop scan junk (pst (show_expr (Call e x y) @ r) out ts True nw) =
      pfLoop scan junk (pst (show_expr x @ tok comma @ show_expr y @ tok rparen @ r) out (lparen # e # ts) True False)"
    using step_prefix[of e "tok lparen @ show_expr x @ tok comma @ show_expr y @ tok rparen @ r" ts scan junk out nw]
      step_prefix[of lparen "show_expr x @ tok comma @ show_expr y @ tok rparen @ r" "e # ts" scan junk out False]
      e lt top special_elements by simp
  have 2: "pfLoop scan junk (pst (show_expr x @ tok comma @ show_expr y @ tok rparen @ r) out (lparen # e # ts) True False)
      = pfLoop scan junk (pst (show_expr y @ tok rparen @ r) (out @ compile scan x) (lparen # e # ts) True False)"
    using Call.IH(1)[of "lparen # e # ts" "tok comma @ show_expr y @ tok rparen @ r" out False] Call.prems ax lx
      step_paren(1)[of "show_expr y @ tok rparen @ r" "pend x" scan junk "out @ emitted scan x" "e # ts" False] us
    by (simp add: compile_pend)
  show ?case unfolding 1 2
    using Call.IH(2)[of "lparen # e # ts" "tok rparen @ r" "out @ compile scan x" False] Call.prems ax lx
      step_paren(2)[of r "pend y" scan junk "out @ compile scan x @ emitted scan y" "e # ts" False] us
    by (simp add: compile_pend)
next
  case (If c x y)
  let ?m = "colon\<lparr>el_code := COND_END\<rparr>"
  have ac: "above ts c" using If.prems demand_level[of c] by (intro above_le[OF If.prems(2)]) auto
  have ax: "above ts x" using If.prems demand_level[of x] by (intro above_le[OF If.prems(2)]) auto
  have ay: "above (?m # ts) y" using If.prems demand_level[of y] by auto
  have lc: "2 * length ts + length (show_expr c) \<le> 158" "2 * length ts + length (show_expr x) \<le> 158"
    "2 * length (?m # ts) + length (show_expr y) \<le> 158" using If.prems by (simp_all add: tok_def)
  have lt: "length ts < 79" using fits[of c ts] lc If.prems by simp
  have uc: "\<forall>t \<in> set (pend c). 1 \<le> in_stack_pri t" using pend_ok[of c] If.prems by force
  have ux: "\<forall>t \<in> set (pend x). 1 \<le> in_stack_pri t" using pend_ok[of x] If.prems by force
  have top: "\<forall>t \<in> set (take 1 ts). in_stack_pri t < 1" using above_top[OF If.prems(2)] by simp
  have 1: "pfLoop scan junk (pst (show_expr (If c x y) @ r) out ts True nw) =
      pfLoop scan junk (pst (show_expr x @ tok colon @ show_expr y @ r) (out @ compile scan c @ [Op COND_IF]) ts True False)"
    using If.IH(1)[of ts "tok quest @ show_expr x @ tok colon @ show_expr y @ r" out nw] If.prems ac lc
      step_cond(1)[of "show_expr x @ tok colon @ show_expr y @ r" ts "pend c" scan junk "out @ emitted scan c" False]
      lt uc top by (simp add: compile_pend)
  have 2: "pfLoop scan junk (pst (show_expr x @ tok colon @ show_expr y @ r) (out @ compile scan c @ [Op COND_IF]) ts True False)
      = pfLoop scan junk (pst (show_expr y @ r)
          (out @ compile scan c @ [Op COND_IF] @ compile scan x @ [Op COND_ELSE]) (?m # ts) True False)"
    using If.IH(2)[of ts "tok colon @ show_expr y @ r" "out @ compile scan c @ [Op COND_IF]" False] If.prems ax lc
      step_cond(2)[of "show_expr y @ r" ts "pend x" scan junk "out @ compile scan c @ [Op COND_IF] @ emitted scan x" False]
      lt ux top by (simp add: compile_pend)
  show ?case unfolding 1 2
    using If.IH(3)[of "?m # ts" r "out @ compile scan c @ [Op COND_IF] @ compile scan x @ [Op COND_ELSE]" False]
      If.prems ay lc by simp
qed

lemma upper_show: "wf_expr x \<Longrightarrow> map toupper_c (show_expr x) = show_expr x"
proof (induction x)
  case (Num s)
  have "toupper_c c = c" if "isDigit c \<or> c = CHR ''.''" for c
    using that by (auto simp: isDigit_def toupper_c_def)
  then have "map toupper_c s = s" using Num by (auto simp: list_all_iff intro: map_idI)
  moreover have "toupper_c CHR '' '' = CHR '' ''" by (simp add: toupper_c_def)
  ultimately show ?case by simp
qed (simp_all add: tok_def toupper_c_def upper_el_def)

text \<open>The translation of the text of a tree is its code.\<close>

lemma postfix_show:
  assumes "wf_expr x" "length (show_expr x) < 100"
  shows "postfix scan junk (show_expr x) = Compiled (compile scan x)"
proof -
  have "show_expr x \<noteq> []" using show_length[OF assms(1)] by auto
  then have "postfix scan junk (show_expr x) = pfLoop scan junk (pst (show_expr x @ []) [] [] True True)"
    using assms(2) upper_show[OF assms(1)] by (simp add: postfix_def pfStart_def)
  also have "\<dots> = pfLoop scan junk (pst [] ([] @ emitted scan x) (pend x @ []) False False)"
    using assms by (intro simulate) auto
  also have "\<dots> = pfEnd (pst [] (emitted scan x) (pend x) False False)"
    by (subst pfLoop.simps) (simp add: get_element_def)
  also have "\<dots> = Compiled (emitted scan x @ opcodes (pend x))"
    using flushOps_pend[of "pend x" "emitted scan x"] pend_ok[OF assms(1)] by (simp add: pfEnd_def)
  finally show ?thesis using compile_pend[of scan x] by simp
qed

section \<open>The value of a tree\<close>

definition apply1 :: "('d \<Rightarrow> 'd outcome) option \<Rightarrow> 'd outcome \<times> 16 word \<Rightarrow> 'd outcome \<times> 16 word" where
  "apply1 f r = (case r of (Ok v, s) \<Rightarrow> ((case f of Some g \<Rightarrow> g v | None \<Rightarrow> Bad), s) | (k, s) \<Rightarrow> (k, s))"

text \<open>
  The value of an expression: left to right, one branch of a conditional. \<open>seed\<close> is the state of the
  random numbers; \<open>Fail\<close> an operation outside its domain.
\<close>

fun eval :: "'d fpu \<Rightarrow> (nat \<Rightarrow> 'd) \<Rightarrow> (string \<Rightarrow> 'd) \<Rightarrow> expr \<Rightarrow> 16 word \<Rightarrow> 'd outcome \<times> 16 word" where
  "eval F arg scan (Var e) seed =
     (if el_code e = RANDOM then (let (v, s) = local_random F seed in (Ok v, s))
      else ((case fetch F arg (el_code e) of Some v \<Rightarrow> Ok v | None \<Rightarrow> Bad), seed))"
| "eval F arg scan (Num s) seed = (Ok (scan (CHR '' '' # s)), seed)"
| "eval F arg scan (Pre e x) seed = apply1 (unaryFun F (el_code e)) (eval F arg scan x seed)"
| "eval F arg scan (Neg x) seed = apply1 (unaryFun F UNARY_NEG) (eval F arg scan x seed)"
| "eval F arg scan (Par x) seed = eval F arg scan x seed"
| "eval F arg scan (Bin e x y) seed =
     (case eval F arg scan x seed of
        (Ok u, s) \<Rightarrow> apply1 (map_option (\<lambda>f. f u) (binaryFun F (el_code e))) (eval F arg scan y s)
      | r \<Rightarrow> r)"
| "eval F arg scan (Sub x y) seed =
     (case eval F arg scan x seed of
        (Ok u, s) \<Rightarrow> apply1 (map_option (\<lambda>f. f u) (binaryFun F SUB)) (eval F arg scan y s)
      | r \<Rightarrow> r)"
| "eval F arg scan (Call e x y) seed =
     (case eval F arg scan x seed of
        (Ok u, s) \<Rightarrow> apply1 (map_option (\<lambda>f. f u) (binaryFun F (el_code e))) (eval F arg scan y s)
      | r \<Rightarrow> r)"
| "eval F arg scan (If c x y) seed =
     (case eval F arg scan c seed of
        (Ok b, s) \<Rightarrow> if f_zero F b then eval F arg scan y s else eval F arg scan x s
      | r \<Rightarrow> r)"

fun atoms :: "expr \<Rightarrow> nat" where
  "atoms (Var e) = 1"
| "atoms (Num s) = 1"
| "atoms (Pre e x) = atoms x"
| "atoms (Neg x) = atoms x"
| "atoms (Par x) = atoms x"
| "atoms (Bin e x y) = atoms x + atoms y"
| "atoms (Sub x y) = atoms x + atoms y"
| "atoms (Call e x y) = atoms x + atoms y"
| "atoms (If c x y) = atoms c + atoms x + atoms y"

lemma atoms_pos: "0 < atoms x"
  by (induction x) auto

lemma atoms_length: "wf_expr x \<Longrightarrow> 2 * atoms x \<le> length (show_expr x)"
proof (induction x)
  case (Var e)
  then show ?case using tok_length by simp
next
  case (Num s)
  then show ?case by (cases s) auto
qed auto

definition after :: "'d fpu \<Rightarrow> (nat \<Rightarrow> 'd) \<Rightarrow> 'd outcome \<times> 16 word \<Rightarrow> 'd instr list \<Rightarrow> 'd list \<Rightarrow>
    'd list outcome \<times> 16 word" where
  "after F arg r post st =
     (case r of (Ok v, s) \<Rightarrow> exec F arg post (v # st) s | (Fail, s) \<Rightarrow> (Fail, s) | (Bad, s) \<Rightarrow> (Bad, s))"

lemma table_codes:
  "list_all (\<lambda>e. (el_type e = OPERAND \<longrightarrow> el_code e = RANDOM
        \<or> el_code e \<in> {FETCH_A, FETCH_B, FETCH_C, FETCH_D, FETCH_E, FETCH_F, FETCH_G, FETCH_H, FETCH_I,
             FETCH_J, FETCH_K, FETCH_L, CONST_PI, CONST_D2R, CONST_R2D})) elements"
  "list_all (\<lambda>e. el_type e = UNARY_OPERATOR \<longrightarrow> e = lparen \<or> el_code e \<in> set two_arg
        \<or> el_code e \<in> {ABS_VAL, UNARY_NEG, SQU_RT, NINT, REL_NOT, BIT_NOT, EXP, LOG_10, LOG_E, ACOS, ASIN,
             ATAN, COS, SIN, TAN, COSH, SINH, TANH, CEIL, FLOOR}) elements"
  "list_all (\<lambda>e. el_type e = BINARY_OPERATOR \<longrightarrow>
        el_code e \<in> {ADD, SUB, MULT, DIV, EXPON, MODULO, REL_OR, REL_AND, BIT_OR, BIT_AND, BIT_EXCL_OR,
          GR_OR_EQ, GR_THAN, LESS_OR_EQ, LESS_THAN, NOT_EQ, EQUAL, RIGHT_SHIFT, LEFT_SHIFT}) elements"
  by code_simp+

lemma operand_code: "wf_expr (Var e) \<Longrightarrow> el_code e \<noteq> RANDOM \<Longrightarrow> \<exists>v. fetch F arg (el_code e) = Some v"
  using table_codes(1) by (auto simp: upper_el_def list_all_iff fetch_def)

lemma operand_not_cond: "wf_expr (Var e) \<Longrightarrow> el_code e \<notin> {COND_IF, COND_ELSE, COND_END}"
  using table_codes(1) by (force simp: upper_el_def list_all_iff)

lemma unary_code:
  "wf_expr (Pre e x) \<Longrightarrow> (\<exists>f. unaryFun F (el_code e) = Some f) \<and> fetch F arg (el_code e) = None
     \<and> el_code e \<notin> {COND_IF, COND_ELSE, COND_END, RANDOM}"
  using table_codes(2) by (fastforce simp: upper_el_def list_all_iff unaryFun_def fetch_def)

definition binary_codes :: "opcode list" where
  "binary_codes = [ADD, SUB, MULT, DIV, EXPON, MODULO, REL_OR, REL_AND, BIT_OR, BIT_AND, BIT_EXCL_OR,
     GR_OR_EQ, GR_THAN, LESS_OR_EQ, LESS_THAN, NOT_EQ, EQUAL, RIGHT_SHIFT, LEFT_SHIFT, MAX_CODE, MIN_CODE,
     ATAN2]"

lemma binary_code:
  "k \<in> set binary_codes \<Longrightarrow> (\<exists>f. binaryFun F k = Some f) \<and> unaryFun F k = None \<and> fetch F arg k = None
     \<and> k \<notin> {COND_IF, COND_ELSE, COND_END, RANDOM}"
  by (auto simp: binary_codes_def binaryFun_def unaryFun_def fetch_def)

lemma bin_is_binary: "upper_el e \<Longrightarrow> el_type e = BINARY_OPERATOR \<Longrightarrow> el_code e \<in> set binary_codes"
  using table_codes(3) by (auto simp: upper_el_def list_all_iff binary_codes_def)

lemma call_is_binary: "el_code e \<in> set two_arg \<Longrightarrow> el_code e \<in> set binary_codes"
  by (auto simp: two_arg_def binary_codes_def)

text \<open>A skip passes over the whole code of a tree.\<close>

lemma skip_op:
  "k \<noteq> COND_IF \<Longrightarrow> k \<noteq> stop \<Longrightarrow> skipTo stop (Suc n) (Op k # post) = skipTo stop (Suc n) post"
  by simp

lemma skip_compile:
  "wf_expr x \<Longrightarrow> skipTo COND_ELSE (Suc n) (compile scan x @ post) = skipTo COND_ELSE (Suc n) post
     \<and> skipTo COND_END (Suc n) (compile scan x @ post) = skipTo COND_END (Suc n) post"
proof (induction x arbitrary: n post)
  case (Var e)
  then show ?case using operand_not_cond by auto
next
  case (Pre e x)
  then show ?case using unary_code[of e x undefined undefined] by auto
next
  case (Bin e x y)
  then show ?case using binary_code[OF bin_is_binary, of e undefined undefined] by auto
next
  case (Call e x y)
  then show ?case using binary_code[OF call_is_binary, of e undefined undefined] by auto
qed auto

lemma skip_0: "skipTo stop 0 post = post"
proof (cases post)
  case (Cons i r)
  then show ?thesis by (cases i) auto
qed simp

text \<open>One operator instruction.\<close>

lemma exec_unary:
  assumes "unaryFun F k = Some f" "fetch F arg k = None" "k \<notin> {COND_IF, COND_ELSE, COND_END, RANDOM}"
  shows "exec F arg (Op k # post) (v # st) s = after F arg (f v, s) post st"
  using assms by (auto simp: simpleOp_def unary_def after_def split: outcome.splits)

lemma exec_binary:
  assumes "k \<in> set binary_codes"
  shows "exec F arg (Op k # post) (v # u # st) s =
    after F arg (apply1 (map_option (\<lambda>f. f u) (binaryFun F k)) (Ok v, s)) post st"
  using binary_code[OF assms, of F arg]
  by (auto simp: simpleOp_def binary_def after_def apply1_def split: outcome.splits)

lemma after_apply1:
  "after F arg (apply1 f (Fail, s)) post st = (Fail, s)"
  "after F arg (apply1 f (Bad, s)) post st = (Bad, s)"
  "after F arg (Fail, s) post st = (Fail, s)" "after F arg (Bad, s) post st = (Bad, s)"
  "after F arg (Ok v, s) post st = exec F arg post (v # st) s"
  by (simp_all add: after_def apply1_def)

lemma exec_two:
  assumes x: "exec F arg (c @ d @ Op k # post) st seed = after F arg r (d @ Op k # post) st"
    and y: "\<And>u s. exec F arg (d @ Op k # post) (u # st) s = after F arg (ry s) (Op k # post) (u # st)"
    and k: "k \<in> set binary_codes"
  shows "exec F arg (c @ d @ Op k # post) st seed =
    after F arg (case r of (Ok u, s) \<Rightarrow> apply1 (map_option (\<lambda>f. f u) (binaryFun F k)) (ry s) | q \<Rightarrow> q) post st"
proof -
  obtain o1 s1 where r: "r = (o1, s1)" by force
  show ?thesis
  proof (cases o1)
    case (Ok u)
    obtain o2 s2 where r2: "ry s1 = (o2, s2)" by force
    show ?thesis
      using x y[of u s1] exec_binary[OF k, of F arg post _ u st s2]
      by (cases o2) (simp_all add: r Ok r2 after_apply1)
  qed (use x in \<open>simp_all add: r after_apply1\<close>)
qed

lemma exec_compile:
  "wf_expr x \<Longrightarrow> length st + atoms x \<le> 79 \<Longrightarrow>
   exec F arg (compile scan x @ post) st seed = after F arg (eval F arg scan x seed) post st"
proof (induction x arbitrary: st seed post)
  case (Var e)
  have nc: "el_code e \<noteq> COND_IF" "el_code e \<noteq> COND_ELSE" "el_code e \<noteq> COND_END"
    using operand_not_cond[OF Var.prems(1)] by auto
  show ?case
  proof (cases "el_code e = RANDOM")
    case True
    then show ?thesis using Var.prems by (simp add: after_def pushVal_def Let_def split_beta)
  next
    case False
    then obtain v where "fetch F arg (el_code e) = Some v" using operand_code[OF Var.prems(1), where F = F and arg = arg] by blast
    then show ?thesis using Var.prems False nc by (simp add: after_def pushVal_def simpleOp_def)
  qed
next
  case (Num s)
  then show ?case by (simp add: after_def pushVal_def)
next
  case (Pre e x)
  obtain f where f: "unaryFun F (el_code e) = Some f" "fetch F arg (el_code e) = None"
    "el_code e \<notin> {COND_IF, COND_ELSE, COND_END, RANDOM}" using unary_code[OF Pre.prems(1), of F arg] by auto
  obtain o1 s1 where r: "eval F arg scan x seed = (o1, s1)" by force
  have "exec F arg (compile scan x @ Op (el_code e) # post) st seed
      = after F arg (o1, s1) (Op (el_code e) # post) st"
    using Pre.IH[of st "Op (el_code e) # post" seed] Pre.prems r by simp
  then show ?case using exec_unary[OF f] by (cases o1) (simp_all add: r after_apply1 apply1_def f(1))
next
  case (Neg x)
  have f: "unaryFun F UNARY_NEG = Some (\<lambda>x. Ok (f_mult F (f_of_int F (- 1)) x))" "fetch F arg UNARY_NEG = None"
    by (simp_all add: unaryFun_def fetch_def)
  obtain o1 s1 where r: "eval F arg scan x seed = (o1, s1)" by force
  have "exec F arg (compile scan x @ Op UNARY_NEG # post) st seed = after F arg (o1, s1) (Op UNARY_NEG # post) st"
    using Neg.IH[of st "Op UNARY_NEG # post" seed] Neg.prems r by simp
  then show ?case using exec_unary[OF f] by (cases o1) (simp_all add: r after_apply1 apply1_def f(1))
next
  case (Bin e x y)
  have k: "el_code e \<in> set binary_codes" using Bin.prems bin_is_binary by simp
  have "length (u # st) + atoms y \<le> 79" for u :: 'a using Bin.prems(2) atoms_pos[of x] by simp
  then show ?case
    using exec_two[OF Bin.IH(1)[of st "compile scan y @ Op (el_code e) # post" seed]
        Bin.IH(2)[of "_ # st" "Op (el_code e) # post"] k] Bin.prems by simp
next
  case (Sub x y)
  have k: "SUB \<in> set binary_codes" by (simp add: binary_codes_def)
  have "length (u # st) + atoms y \<le> 79" for u :: 'a using Sub.prems(2) atoms_pos[of x] by simp
  then show ?case
    using exec_two[OF Sub.IH(1)[of st "compile scan y @ Op SUB # post" seed]
        Sub.IH(2)[of "_ # st" "Op SUB # post"] k] Sub.prems by simp
next
  case (Par x)
  then show ?case by simp
next
  case (Call e x y)
  have k: "el_code e \<in> set binary_codes" using Call.prems(1) by (intro call_is_binary) simp
  have "length (u # st) + atoms y \<le> 79" for u :: 'a using Call.prems(2) atoms_pos[of x] by simp
  then show ?case
    using exec_two[OF Call.IH(1)[of st "compile scan y @ Op (el_code e) # post" seed]
        Call.IH(2)[of "_ # st" "Op (el_code e) # post"] k] Call.prems by simp
next
  case (If c x y)
  let ?else = "compile scan y @ Op COND_END # post"
  let ?then = "compile scan x @ Op COND_ELSE # ?else"
  obtain o1 s1 where r: "eval F arg scan c seed = (o1, s1)" by force
  have 1: "exec F arg (compile scan c @ Op COND_IF # ?then) st seed
      = after F arg (o1, s1) (Op COND_IF # ?then) st"
    using If.IH(1)[of st "Op COND_IF # ?then" seed] If.prems r by simp
  show ?case
  proof (cases o1)
    case (Ok b)
    have sk: "skipTo COND_ELSE 1 ?then = ?else" "skipTo COND_END 1 ?else = post"
      using skip_compile[of x 0 scan "Op COND_ELSE # ?else"] skip_compile[of y 0 scan "Op COND_END # post"]
        If.prems by (simp_all add: skip_0)
    show ?thesis
    proof (cases "f_zero F b")
      case True
      obtain o2 s2 where r2: "eval F arg scan y s1 = (o2, s2)" by force
      have "exec F arg ?else st s1 = after F arg (o2, s2) (Op COND_END # post) st"
        using If.IH(3)[of st "Op COND_END # post" s1] If.prems r2 by simp
      then show ?thesis using 1 True sk by (cases o2) (simp_all add: r Ok r2 after_apply1)
    next
      case False
      obtain o2 s2 where r2: "eval F arg scan x s1 = (o2, s2)" by force
      have "exec F arg ?then st s1 = after F arg (o2, s2) (Op COND_ELSE # ?else) st"
        using If.IH(2)[of st "Op COND_ELSE # ?else" s1] If.prems r2 by simp
      then show ?thesis using 1 False sk by (cases o2) (simp_all add: r Ok r2 after_apply1)
    qed
  qed (use 1 in \<open>simp_all add: r after_apply1\<close>)
qed

lemma unaryFun_not_Bad: "unaryFun F k = Some f \<Longrightarrow> f x \<noteq> Bad"
  by (auto simp: unaryFun_def split: opcode.splits if_splits)

lemma binaryFun_not_Bad: "binaryFun F k = Some f \<Longrightarrow> f x y \<noteq> Bad"
  by (auto simp: binaryFun_def expon_def Let_def split: opcode.splits if_splits)

lemma apply1_not_Bad:
  "fst r \<noteq> Bad \<Longrightarrow> (\<And>v. g v \<noteq> Bad) \<Longrightarrow> fst (apply1 (Some g) r) \<noteq> Bad"
  by (cases r; cases "fst r") (auto simp: apply1_def)

lemma bind_not_Bad:
  assumes "fst r \<noteq> Bad" "\<And>s. fst (ry s) \<noteq> Bad" "k \<in> set binary_codes"
  shows "fst (case r of (Ok u, s) \<Rightarrow> apply1 (map_option (\<lambda>f. f u) (binaryFun F k)) (ry s) | q \<Rightarrow> q) \<noteq> Bad"
proof -
  obtain f where "binaryFun F k = Some f" using binary_code[OF assms(3), of F] by auto
  then show ?thesis using assms binaryFun_not_Bad[of F k f]
    by (cases r; cases "fst r") (auto simp: apply1_not_Bad)
qed

lemma eval_not_Bad: "wf_expr x \<Longrightarrow> fst (eval F arg scan x seed) \<noteq> Bad"
proof (induction x arbitrary: seed)
  case (Var e)
  then show ?case using operand_code[OF Var.prems, where F = F and arg = arg] by (auto simp: split_beta)
next
  case (Pre e x)
  obtain f where f: "unaryFun F (el_code e) = Some f" using unary_code[OF Pre.prems, of F arg] by blast
  have "fst (apply1 (Some f) (eval F arg scan x seed)) \<noteq> Bad"
    using Pre.IH Pre.prems unaryFun_not_Bad[OF f] by (intro apply1_not_Bad) simp_all
  then show ?case by (simp add: f)
next
  case (Neg x)
  then show ?case by (auto simp: apply1_not_Bad unaryFun_def)
next
  case (Bin e x y)
  have k: "el_code e \<in> set binary_codes" using Bin.prems bin_is_binary by simp
  show ?case unfolding eval.simps using Bin by (intro bind_not_Bad[OF _ _ k]) auto
next
  case (Sub x y)
  have k: "SUB \<in> set binary_codes" by (simp add: binary_codes_def)
  show ?case unfolding eval.simps using Sub by (intro bind_not_Bad[OF _ _ k]) auto
next
  case (Call e x y)
  have k: "el_code e \<in> set binary_codes" using Call.prems(1) by (intro call_is_binary) simp
  show ?case unfolding eval.simps using Call by (intro bind_not_Bad[OF _ _ k]) auto
next
  case (If c x y)
  then show ?case using If.IH(1)[of seed]
    by (cases "eval F arg scan c seed"; cases "fst (eval F arg scan c seed)") auto
qed auto

text \<open>\<open>calcPerform\<close> on the code of a tree is the value of the tree.\<close>

lemma calcPerform_show:
  assumes "wf_expr x" "length (show_expr x) < 100"
  shows "calcPerform F arg (Some (compile scan x)) seed =
    Some (case eval F arg scan x seed of
            (Ok v, s) \<Rightarrow> (if f_isbad F v then - 1 else 0, Some v, s)
          | (_, s) \<Rightarrow> (- 1, None, s))"
proof -
  have "length ([] :: 'a list) + atoms x \<le> 79" using atoms_length[OF assms(1)] assms(2) by simp
  from exec_compile[OF assms(1) this, of F arg scan "[]" seed] show ?thesis
    using eval_not_Bad[OF assms(1), of F arg scan seed]
    by (cases "eval F arg scan x seed"; cases "fst (eval F arg scan x seed)")
      (auto simp: calcPerform_def after_def)
qed

section \<open>Arbitrary input: the shape of a step\<close>

text \<open>
  A configuration is the rest of the input, the code so far, the operator stack and whether an operand
  is needed. \<open>pstep\<close> is what one element can do to it.
\<close>

definition operand_codes :: "opcode list" where
  "operand_codes = [FETCH_A, FETCH_B, FETCH_C, FETCH_D, FETCH_E, FETCH_F, FETCH_G, FETCH_H, FETCH_I,
     FETCH_J, FETCH_K, FETCH_L, CONST_PI, CONST_D2R, CONST_R2D, RANDOM]"

definition unary_codes :: "opcode list" where
  "unary_codes = [ABS_VAL, UNARY_NEG, SQU_RT, NINT, REL_NOT, BIT_NOT, EXP, LOG_10, LOG_E, ACOS, ASIN,
     ATAN, COS, SIN, TAN, COSH, SINH, TANH, CEIL, FLOOR]"

definition infix_codes :: "opcode list" where
  "infix_codes = [ADD, SUB, MULT, DIV, EXPON, MODULO, REL_OR, REL_AND, BIT_OR, BIT_AND, BIT_EXCL_OR,
     GR_OR_EQ, GR_THAN, LESS_OR_EQ, LESS_THAN, NOT_EQ, EQUAL, RIGHT_SHIFT, LEFT_SHIFT]"

fun is_operand :: "'d instr \<Rightarrow> bool" where
  "is_operand (Const c) \<longleftrightarrow> True"
| "is_operand (Op k) \<longleftrightarrow> k \<in> set operand_codes"

definition noParen :: "expression_element list \<Rightarrow> bool" where
  "noParen us \<longleftrightarrow> (\<forall>u \<in> set us. \<not> isParen u)"

inductive pstep :: "string \<times> 'd instr list \<times> expression_element list \<times> bool \<Rightarrow>
    string \<times> 'd instr list \<times> expression_element list \<times> bool \<Rightarrow> bool" where
  p_operand: "w \<noteq> [] \<Longrightarrow> is_operand i \<Longrightarrow> pstep (w @ s, out, ts, True) (s, out @ [i], ts, False)"
| p_prefix: "w \<noteq> [] \<Longrightarrow> \<not> isParen e \<Longrightarrow> el_code e \<in> set unary_codes \<union> set two_arg \<Longrightarrow>
    pstep (w @ s, out, ts, True) (s, out, e # ts, True)"
| p_open: "w \<noteq> [] \<Longrightarrow> isParen e \<Longrightarrow> in_stack_pri e = 0 \<Longrightarrow>
    pstep (w @ s, out, ts, True) (s, out, e # ts, True)"
| p_infix: "w \<noteq> [] \<Longrightarrow> \<not> isParen e \<Longrightarrow> el_code e \<in> set infix_codes \<Longrightarrow> noParen us \<Longrightarrow>
    pstep (w @ s, out, us @ ts, False) (s, out @ opcodes us, e # ts, True)"
| p_sep: "w \<noteq> [] \<Longrightarrow> CHR '','' \<in> set w \<Longrightarrow> noParen us \<Longrightarrow>
    pstep (w @ s, out, us @ ts, False) (s, out @ opcodes us, ts, True)"
| p_close: "w \<noteq> [] \<Longrightarrow> noParen us \<Longrightarrow> isParen e \<Longrightarrow>
    pstep (w @ s, out, us @ e # ts, False) (s, out @ opcodes us, ts, False)"
| p_quest: "w \<noteq> [] \<Longrightarrow> noParen us \<Longrightarrow>
    pstep (w @ s, out, us @ ts, False) (s, out @ opcodes us @ [Op COND_IF], ts, True)"
| p_colon: "w \<noteq> [] \<Longrightarrow> noParen us \<Longrightarrow> \<not> isParen e \<Longrightarrow> el_code e = COND_END \<Longrightarrow>
    pstep (w @ s, out, us @ ts, False) (s, out @ opcodes us @ [Op COND_ELSE], e # ts, True)"

definition conf :: "'d pfstate \<Rightarrow> string \<times> 'd instr list \<times> expression_element list \<times> bool" where
  "conf st = (pf_in st, pf_out st, pf_stack st, pf_operand_needed st)"

text \<open>Stacked priorities: at most 7, and 0 for an open parenthesis.\<close>

definition parens_low :: "expression_element list \<Rightarrow> bool" where
  "parens_low ts \<longleftrightarrow> (\<forall>t \<in> set ts. in_stack_pri t \<le> 7 \<and> (isParen t \<longrightarrow> in_stack_pri t = 0))"

lemma popWhile_split:
  "popWhile P ts out = (ts', out') \<Longrightarrow>
   \<exists>us. ts = us @ ts' \<and> out' = out @ opcodes us \<and> (\<forall>u \<in> set us. P u)"
proof (induction P ts out rule: popWhile.induct)
  case (2 P t ts out)
  then show ?case
    by (cases "P t") (fastforce intro: exI[of _ "[]"] exI[of _ "t # us" for us])+
qed simp

lemma popOps_split:
  assumes "parens_low (pf_stack st)" and "\<And>t. P t \<Longrightarrow> in_stack_pri t > 0"
  shows "\<exists>us ts. pf_stack st = us @ ts \<and> noParen us
    \<and> popOps P st = st\<lparr>pf_stack := ts, pf_out := pf_out st @ opcodes us\<rparr>"
proof -
  obtain ts out where p: "popWhile P (pf_stack st) (pf_out st) = (ts, out)" by force
  obtain us where us: "pf_stack st = us @ ts" "out = pf_out st @ opcodes us" "\<forall>u \<in> set us. P u"
    using popWhile_split[OF p] by blast
  have "noParen us" using us(1,3) assms by (fastforce simp: noParen_def parens_low_def)
  then show ?thesis using us p by (auto simp: popOps_def)
qed

lemma popOps_none: "parens_low (pf_stack st) \<Longrightarrow> popOps (\<lambda>t. 8 \<le> in_stack_pri t) st = st"
  by (cases "pf_stack st") (auto simp: popOps_def parens_low_def)

lemma popToParen_junk: "popToParen junk ts out = Some None \<Longrightarrow> junk = CHR ''(''"
  by (induction junk ts out rule: popToParen.induct) (auto split: if_splits)

lemma popToParen_split:
  "popToParen junk ts out = Some (Some (ts', out')) \<Longrightarrow>
   \<exists>us e r. ts = us @ e # r \<and> ts' = e # r \<and> noParen us \<and> isParen e \<and> out' = out @ opcodes us"
proof (induction junk ts out rule: popToParen.induct)
  case (2 junk t ts out)
  show ?case
  proof (cases "isParen t")
    case True
    then show ?thesis using 2 by (auto simp: noParen_def intro: exI[of _ "[]"])
  next
    case False
    then have "ts \<noteq> []" "popToParen junk ts (out @ [Op (el_code t)]) = Some (Some (ts', out'))"
      using 2(2) by (auto split: if_splits)
    then obtain us e r where "ts = us @ e # r" "ts' = e # r" "noParen us" "isParen e"
      "out' = (out @ [Op (el_code t)]) @ opcodes us" using 2(1) False by blast
    then show ?thesis using False
      by (intro exI[of _ "t # us"] exI[of _ e] exI[of _ r]) (auto simp: noParen_def)
  qed
qed (auto split: if_splits)

lemma table_types:
  "list_all (\<lambda>e. el_type e \<in> {OPERAND, UNARY_OPERATOR, BINARY_OPERATOR, CLOSE_PAREN, CONDITIONAL, SEPERATOR,
      FLOAT_PT_CONST, MINUS_OPERATOR}
     \<and> (el_type e = OPERAND \<longrightarrow> el_code e \<in> set operand_codes)
     \<and> (el_type e = UNARY_OPERATOR \<longrightarrow> in_coming_pri e = 8 \<and>
          (isParen e \<and> in_stack_pri e = 0 \<or> \<not> isParen e \<and> in_stack_pri e = 7
             \<and> el_code e \<in> set unary_codes \<union> set two_arg))
     \<and> (el_type e = BINARY_OPERATOR \<longrightarrow> \<not> isParen e \<and> 1 \<le> in_coming_pri e \<and> in_stack_pri e \<le> 7
          \<and> el_code e \<in> set infix_codes)
     \<and> (el_type e = MINUS_OPERATOR \<longrightarrow> \<not> isParen e)
     \<and> (el_type e = SEPERATOR \<longrightarrow> CHR '','' \<in> set (element e))
     \<and> (el_type e = CONDITIONAL \<longrightarrow> \<not> isParen e \<and> in_stack_pri e = 0 \<and> in_coming_pri e = 0
          \<and> (if element e = '':'' then el_code e = COND_ELSE else el_code e = COND_IF))) elements"
  by code_simp

lemmas el_facts = table_types[unfolded list_all_iff, rule_format]

text \<open>Every step of the loop that goes on is one of these, and keeps the parentheses marked.\<close>

lemma doElement_pstep:
  assumes g: "get_element (pf_in st) = Some (e, n)" and d: "doElement scan junk e n st = Go st'"
    and known: "e \<noteq> noElement" and low: "parens_low (pf_stack st)" and junk: "junk \<noteq> CHR ''(''"
  shows "pstep (conf st) (conf st') \<and> parens_low (pf_stack st')"
proof -
  have "\<exists>k r. pf_in st = replicate k CHR '' '' @ element e @ r \<and> n = k + length (element e)
      \<and> e \<in> set elements \<and> element e \<noteq> [] \<and> skipSpaces (pf_in st) 0 = (element e @ r, k)"
    using get_element_Some[OF g] known by blast
  then obtain k r where s: "pf_in st = replicate k CHR '' '' @ element e @ r" "n = k + length (element e)"
    and e: "e \<in> set elements" and ne: "element e \<noteq> []" and sk: "skipSpaces (pf_in st) 0 = (element e @ r, k)"
    by blast
  let ?w = "replicate k CHR '' '' @ element e" and ?st = "st\<lparr>pf_in := r\<rparr>"
  have in_st: "pf_in st = ?w @ r" "?w \<noteq> []" "drop n (pf_in st) = r" using s ne by simp_all
  note f = el_facts[OF e]
  consider (op) "el_type e = OPERAND" | (const) "el_type e = FLOAT_PT_CONST"
    | (bin) "el_type e = BINARY_OPERATOR" | (un) "el_type e = UNARY_OPERATOR"
    | (mi) "el_type e = MINUS_OPERATOR" | (sep) "el_type e = SEPERATOR"
    | (close) "el_type e = CLOSE_PAREN" | (cond) "el_type e = CONDITIONAL"
    using f by auto
  then show ?thesis
  proof cases
    case op
    then have "pf_operand_needed st" "conf st' = (r, pf_out st @ [Op (el_code e)], pf_stack st, False)"
      using d in_st by (auto simp: doElement_def doOperand_def emit_def conf_def split: if_splits)
    then show ?thesis using p_operand[OF in_st(2), of "Op (el_code e)" r "pf_out st" "pf_stack st"] op f low in_st
      by (simp add: conf_def)
  next
    case const
    obtain t u where tu: "scanConst (element e @ r) = (t, u)" by force
    have c: "pf_operand_needed st" "pf_in st' = u" "pf_stack st' = pf_stack st" "\<not> pf_operand_needed st'"
      "\<exists>v. pf_out st' = pf_out st @ [Const v]"
      using d const sk tu by (auto simp: doElement_def doConst_def emit_def Let_def split: if_splits)
    obtain ch where ch: "element e = [ch]" "isDigit ch \<or> ch = CHR ''.''"
      using elements_const e const by (cases "element e") (auto simp: list_all_iff)
    obtain t' where "scanConst r = (t', u)" "t = ch # t'"
      using tu ch by (cases "scanConst r") auto
    then have "r = t' @ u" using scanConst_split by blast
    then have i: "pf_in st = (?w @ t') @ u" using in_st by simp
    obtain v where v: "pf_out st' = pf_out st @ [Const v]" using c(5) by blast
    have "pstep ((?w @ t') @ u, pf_out st, pf_stack st, True) (u, pf_out st @ [Const v], pf_stack st, False)"
      by (rule p_operand) (use ne in simp_all)
    then show ?thesis using c v i low by (simp add: conf_def)
  next
    case bin
    have nd: "\<not> pf_operand_needed st" using d bin by (auto simp: doElement_def doBinary_def split: if_splits)
    have pos: "in_stack_pri t > 0" if "in_stack_pri t \<ge> in_coming_pri e" for t using that f bin by auto
    obtain us ts where us: "pf_stack ?st = us @ ts" "noParen us"
      "popOps (\<lambda>t. in_stack_pri t \<ge> in_coming_pri e) ?st = ?st\<lparr>pf_stack := ts, pf_out := pf_out ?st @ opcodes us\<rparr>"
      using popOps_split[of ?st "\<lambda>t. in_stack_pri t \<ge> in_coming_pri e"] low pos by auto
    then have "conf st' = (r, pf_out st @ opcodes us, e # ts, True)"
      using d bin nd in_st(3) by (auto simp: doElement_def doBinary_def conf_def dest!: push_Go)
    then show ?thesis using p_infix[OF in_st(2), of e us r "pf_out st" ts] f bin us low nd in_st(1)
      by (auto simp: conf_def parens_low_def)
  next
    case un
    have nd: "pf_operand_needed st" using d un by (auto simp: doElement_def doUnary_def split: if_splits)
    have "conf st' = (r, pf_out st, e # pf_stack st, True)"
      using d un nd in_st(3) f low popOps_none[of ?st]
      by (auto simp: doElement_def doUnary_def conf_def dest!: push_Go)
    then show ?thesis
      using p_prefix[OF in_st(2), of e r "pf_out st" "pf_stack st"]
        p_open[OF in_st(2), of e r "pf_out st" "pf_stack st"] f un low nd in_st(1)
      by (auto simp: conf_def parens_low_def)
  next
    case mi
    show ?thesis
    proof (cases "pf_operand_needed st")
      case True
      let ?e = "e\<lparr>in_stack_pri := 7, el_code := UNARY_NEG\<rparr>"
      have "conf st' = (r, pf_out st, ?e # pf_stack st, True)"
        using d mi True in_st(3) low popOps_none[of ?st]
        by (auto simp: doElement_def doMinus_def conf_def dest!: push_Go)
      then show ?thesis
        using p_prefix[OF in_st(2), of ?e r "pf_out st" "pf_stack st"] f mi low True in_st(1)
        by (auto simp: conf_def parens_low_def isParen_def unary_codes_def)
    next
      case False
      let ?e = "e\<lparr>in_stack_pri := 4, el_code := SUB\<rparr>"
      obtain us ts where us: "pf_stack ?st = us @ ts" "noParen us"
        "popOps (\<lambda>t. in_stack_pri t \<ge> 4) ?st = ?st\<lparr>pf_stack := ts, pf_out := pf_out ?st @ opcodes us\<rparr>"
        using popOps_split[of ?st "\<lambda>t. in_stack_pri t \<ge> 4"] low by auto
      then have "conf st' = (r, pf_out st @ opcodes us, ?e # ts, True)"
        using d mi False in_st(3) by (auto simp: doElement_def doMinus_def conf_def dest!: push_Go)
      then show ?thesis using p_infix[OF in_st(2), of ?e us r "pf_out st" ts] f mi us low False in_st(1)
        by (auto simp: conf_def parens_low_def isParen_def infix_codes_def)
    qed
  next
    case sep
    then have nd: "\<not> pf_operand_needed st" using d by (auto simp: doElement_def doSeperator_def split: if_splits)
    obtain ts out where "popToParen junk (pf_stack st) (pf_out st) = Some (Some (ts, out))"
      "conf st' = (r, out, ts, True)"
      using d sep nd in_st(3) junk popToParen_junk[of junk "pf_stack st" "pf_out st"]
      by (auto simp: doElement_def doSeperator_def conf_def Let_def split: option.splits)
    then obtain us q rs where us: "pf_stack st = us @ q # rs" "ts = q # rs" "noParen us"
      "out = pf_out st @ opcodes us" "conf st' = (r, out, ts, True)"
      using popToParen_split by blast
    then show ?thesis using p_sep[OF in_st(2), of us r "pf_out st" "q # rs"] f sep low nd in_st(1)
      by (auto simp: conf_def parens_low_def)
  next
    case close
    then have nd: "\<not> pf_operand_needed st" using d by (auto simp: doElement_def doCloseParen_def split: if_splits)
    obtain ts out where "popToParen junk (pf_stack st) (pf_out st) = Some (Some (ts, out))"
      "conf st' = (r, out, tl ts, False)"
      using d close nd in_st(3)
      by (auto simp: doElement_def doCloseParen_def conf_def split: option.splits)
    then obtain us q rs where us: "pf_stack st = us @ q # rs" "tl ts = rs" "noParen us" "isParen q"
      "out = pf_out st @ opcodes us" "conf st' = (r, out, tl ts, False)"
      using popToParen_split by fastforce
    then show ?thesis using p_close[OF in_st(2), of us q r "pf_out st" rs] low nd in_st(1)
      by (auto simp: conf_def parens_low_def)
  next
    case cond
    then have nd: "\<not> pf_operand_needed st" using d by (auto simp: doElement_def doConditional_def split: if_splits)
    have zero: "in_coming_pri e = 0" "in_stack_pri e = 0" "\<not> isParen e" using f cond by auto
    obtain us ts where us: "pf_stack ?st = us @ ts" "noParen us"
      "popOps (\<lambda>t. in_stack_pri t > 0) ?st = ?st\<lparr>pf_stack := ts, pf_out := pf_out ?st @ opcodes us\<rparr>"
      using popOps_split[of ?st "\<lambda>t. in_stack_pri t > 0"] low by auto
    show ?thesis
    proof (cases "element e = '':''")
      case True
      let ?e = "e\<lparr>el_code := COND_END\<rparr>"
      have "conf st' = (r, pf_out st @ opcodes us @ [Op COND_ELSE], ?e # ts, True)"
        using d cond nd in_st(3) us zero True f
        by (auto simp: doElement_def doConditional_def emit_def conf_def dest!: push_Go)
      then show ?thesis using p_colon[OF in_st(2), of us ?e r "pf_out st" ts] us low nd in_st(1) zero
        by (auto simp: conf_def parens_low_def isParen_def)
    next
      case False
      have "conf st' = (r, pf_out st @ opcodes us @ [Op COND_IF], ts, True)"
        using d cond nd in_st(3) us zero False f
        by (auto simp: doElement_def doConditional_def emit_def conf_def)
      then show ?thesis using p_quest[OF in_st(2), of us r "pf_out st" ts] us low nd in_st(1)
        by (auto simp: conf_def parens_low_def)
    qed
  qed
qed

text \<open>An unknown element is read again and rejected: the second time no operand is needed.\<close>

lemma skipSpaces_again: "skipSpaces s n = (u, k) \<Longrightarrow> skipSpaces u 0 = (u, 0)"
  by (induction s n rule: skipSpaces.induct) (auto split: if_splits)

lemma unknown_rejected:
  assumes "get_element (pf_in st) = Some (noElement, n)"
  shows "pfLoop scan junk st = Rejected 5"
proof -
  obtain u k where u: "skipSpaces (pf_in st) 0 = (u, k)" by force
  have none: "noElement \<notin> set elements"
    using elements_nonempty by (force simp: noElement_def list_all_iff)
  then have f: "u \<noteq> []" "find_element u = None" "n = k"
    using assms u find_element_Some(1)[of u] by (auto simp: get_element_def split: if_splits option.splits)
  have dk: "drop k (pf_in st) = u" using skipSpaces_split[OF u] by simp
  have again: "get_element u = Some (noElement, 0)"
    using skipSpaces_again[OF u] f by (simp add: get_element_def)
  let ?st = "(emit (Op NO_CODE) (st\<lparr>pf_in := u\<rparr>))\<lparr>pf_operand_needed := False, pf_new_expression := False\<rparr>"
  have second: "pfLoop scan junk ?st = Rejected 5"
    by (subst pfLoop.simps) (simp add: again doElement_def noElement_def doOperand_def)
  show ?thesis
    by (subst pfLoop.simps) (simp add: assms doElement_def noElement_def[symmetric] doOperand_def f dk second,
        simp add: noElement_def doOperand_def f dk second)
qed

lemma pfLoop_reach:
  assumes "parens_low (pf_stack st)" and "junk \<noteq> CHR ''(''"
  shows "\<exists>stf. pstep\<^sup>*\<^sup>* (conf st) (conf stf) \<and> parens_low (pf_stack stf)
     \<and> (pfLoop scan junk st = pfEnd stf \<or> (\<exists>k. pfLoop scan junk st = Rejected k)
        \<or> pfLoop scan junk st = PFault \<and> (\<exists>e n. get_element (pf_in stf) = Some (e, n) \<and> e \<noteq> noElement
              \<and> doElement scan junk e n stf = Fault))"
  using assms
proof (induction scan junk st rule: pfLoop.induct)
  case (1 scan junk st)
  show ?case
  proof (cases "get_element (pf_in st)")
    case None
    then have "pfLoop scan junk st = pfEnd st" by (subst pfLoop.simps) simp
    then show ?thesis using 1(2) by blast
  next
    case (Some a)
    then obtain e n where g: "get_element (pf_in st) = Some (e, n)" by force
    show ?thesis
    proof (cases "e = noElement")
      case True
      then show ?thesis using unknown_rejected g 1(2) by blast
    next
      case known: False
      show ?thesis
      proof (cases "doElement scan junk e n st")
        case (Go st')
        then have step: "pfLoop scan junk st = pfLoop scan junk st'"
          by (subst pfLoop.simps) (simp add: g)
        have p: "pstep (conf st) (conf st')" "parens_low (pf_stack st')"
          using doElement_pstep[OF g Go known 1(2,3)] by auto
        from 1(1)[OF g refl Go p(2) 1(3)] p(1) show ?thesis
          unfolding step by (metis converse_rtranclp_into_rtranclp)
      next
        case (Reject k)
        then have "pfLoop scan junk st = Rejected k" by (subst pfLoop.simps) (simp add: g)
        then show ?thesis using 1(2) by blast
      next
        case Fault
        then have "pfLoop scan junk st = PFault" by (subst pfLoop.simps) (simp add: g)
        then show ?thesis using Fault g known 1(2) by blast
      qed
    qed
  qed
qed

end
