(* ===== verification/CalcSafety.thy ===== *)
theory CalcSafety
  imports CalcProofs
begin

text \<open>
  Consequences for arbitrary input of \<open>postfix\<close>: the operator stack does not overflow on inputs of up
  to 79 characters, accepted code has a bounded size and runs inside the value stack; and the
  properties of the calculation engine.
\<close>

section \<open>Invariants of the translation\<close>

definition bytes :: "'d instr list \<Rightarrow> nat" where
  "bytes code = sum_list (map (\<lambda>i. case i of Op _ \<Rightarrow> 1 | Const _ \<Rightarrow> 9) code)"

lemma bytes_simps [simp]:
  "bytes [] = 0" "bytes (a @ b) = bytes a + bytes b" "bytes (Op k # a) = 1 + bytes a"
  "bytes (Const c # a) = 9 + bytes a" "bytes (opcodes us) = length us"
  by (simp_all add: bytes_def comp_def) (induction us; simp)

definition pushes :: "'d instr list \<Rightarrow> nat" where
  "pushes code = length (filter is_operand code)"

lemma pushes_simps [simp]:
  "pushes [] = 0" "pushes (a @ b) = pushes a + pushes b"
  "pushes (i # a) = (if is_operand i then 1 else 0) + pushes a"
  by (simp_all add: pushes_def)

definition ops :: "expression_element list \<Rightarrow> expression_element list" where
  "ops ts = filter (\<lambda>t. \<not> isParen t) ts"

lemma ops_simps [simp]:
  "ops [] = []" "ops (a @ b) = ops a @ ops b" "ops (t # ts) = (if isParen t then ops ts else t # ops ts)"
  "noParen us \<Longrightarrow> ops us = us"
  by (simp_all add: ops_def noParen_def)

definition op_codes :: "opcode set" where
  "op_codes = set unary_codes \<union> set two_arg \<union> set infix_codes \<union> {COND_END}"

text \<open>Room, code size, operand count and the kinds of stacked operators, for an input of length \<open>n\<close>.\<close>

fun sizes_ok :: "nat \<Rightarrow> string \<times> 'd instr list \<times> expression_element list \<times> bool \<Rightarrow> bool" where
  "sizes_ok n (s, out, ts, need) \<longleftrightarrow>
     length ts + length s \<le> n
   \<and> 2 * bytes out + 2 * length (ops ts) + 11 * length s \<le> 11 * n + (if need then 0 else 7)
   \<and> 2 * pushes out + length s \<le> n + (if need then 0 else 1)
   \<and> (\<forall>t \<in> set (ops ts). el_code t \<in> op_codes)"

lemma op_code_no_operand: "k \<in> op_codes \<Longrightarrow> k \<notin> set operand_codes"
  by (auto simp: op_codes_def operand_codes_def unary_codes_def two_arg_def infix_codes_def)

lemma pushes_opcodes: "\<forall>t \<in> set us. el_code t \<in> op_codes \<Longrightarrow> pushes (opcodes us) = 0"
  using op_code_no_operand by (induction us) auto

lemma op_codes_in:
  "k \<in> set unary_codes \<Longrightarrow> k \<in> op_codes" "k \<in> set two_arg \<Longrightarrow> k \<in> op_codes"
  "k \<in> set infix_codes \<Longrightarrow> k \<in> op_codes" "COND_END \<in> op_codes"
  by (simp_all add: op_codes_def)

lemma len_pos: "w \<noteq> [] \<Longrightarrow> 1 \<le> length w"
  by (cases w) auto

lemma is_operand_bytes: "bytes [i] \<le> 9"
  by (cases i) auto

lemma sizes_step: "pstep c c' \<Longrightarrow> sizes_ok n c \<Longrightarrow> sizes_ok n c'"
proof (induction rule: pstep.induct)
  case (p_operand w i s out ts)
  then show ?case using len_pos[of w] is_operand_bytes[of i] by auto
next
  case (p_prefix w e s out ts)
  then show ?case using len_pos[of w] by (auto simp: op_codes_in)
next
  case (p_open w e s out ts)
  then show ?case using len_pos[of w] by auto
next
  case (p_infix w e us s out ts)
  then show ?case using len_pos[of w] by (auto simp: pushes_opcodes op_codes_in)
next
  case (p_sep w us s out ts)
  then show ?case using len_pos[of w] by (auto simp: pushes_opcodes)
next
  case (p_close w us e s out ts)
  then show ?case using len_pos[of w] by (auto simp: pushes_opcodes)
next
  case (p_quest w us s out ts)
  then show ?case using len_pos[of w] by (auto simp: operand_codes_def pushes_opcodes)
next
  case (p_colon w us e s out ts)
  then show ?case using len_pos[of w] by (auto simp: operand_codes_def op_codes_in pushes_opcodes)
qed

lemma invariant_steps:
  assumes "pstep\<^sup>*\<^sup>* c c'" and "P c" and "\<And>a b. pstep a b \<Longrightarrow> P a \<Longrightarrow> P b"
  shows "P c'"
  using assms by (induction rule: rtranclp_induct) auto

lemma start_conf: "conf (pfStart s) = (s, [], [], True)" "parens_low (pf_stack (pfStart s))"
  by (simp_all add: conf_def pfStart_def parens_low_def)

text \<open>What a run of \<open>postfix\<close> on a non-empty input of legal length ends in.\<close>

lemma postfix_reach:
  assumes "junk \<noteq> CHR ''(''" and "pin \<noteq> []" and "length pin < 100"
  shows "\<exists>stf. pstep\<^sup>*\<^sup>* (map toupper_c pin, [], [], True) (conf stf)
     \<and> (postfix scan junk pin = pfEnd stf \<or> (\<exists>k. postfix scan junk pin = Rejected k)
        \<or> postfix scan junk pin = PFault \<and> (\<exists>e n. get_element (pf_in stf) = Some (e, n) \<and> e \<noteq> noElement
              \<and> doElement scan junk e n stf = Fault))"
proof -
  have "postfix scan junk pin = pfLoop scan junk (pfStart (map toupper_c pin))"
    using assms(2,3) by (simp add: postfix_def)
  then show ?thesis
    using pfLoop_reach[OF start_conf(2) assms(1), where scan = scan] unfolding start_conf(1) by metis
qed

lemma sizes_start: "sizes_ok (length s) (s, [], [], True)"
  by simp

lemma sizes_reach: "pstep\<^sup>*\<^sup>* (s, [], [], True) c \<Longrightarrow> sizes_ok (length s) c"
  using invariant_steps[of "(s, [], [], True)" c "sizes_ok (length s)"] sizes_start sizes_step by blast

lemma flushOps_Some: "flushOps ts out = Some out' \<Longrightarrow> noParen ts \<and> out' = out @ opcodes ts"
proof (induction ts arbitrary: out)
  case (Cons t ts)
  then show ?case using Cons.IH[of "out @ [Op (el_code t)]"] by (auto simp: noParen_def split: if_splits)
qed (simp add: noParen_def)

lemma pfEnd_Compiled:
  assumes "pfEnd st = Compiled code"
  shows "\<not> pf_operand_needed st" "noParen (pf_stack st)" "code = pf_out st @ opcodes (pf_stack st)"
  using assms flushOps_Some[of "pf_stack st" "pf_out st"]
  by (auto simp: pfEnd_def split: if_splits option.splits)

lemma push_Fault: "push e st = Fault \<Longrightarrow> 79 \<le> length (pf_stack st)"
  by (simp add: push_def split: if_splits)

lemma popOps_length: "length (pf_stack (popOps P st)) \<le> length (pf_stack st)"
proof -
  have "length (fst (popWhile P ts out)) \<le> length ts" for ts and out :: "'a instr list"
    by (induction P ts out rule: popWhile.induct) auto
  from this[of "pf_stack st" "pf_out st"] show ?thesis by (auto simp: popOps_def split: prod.splits)
qed

lemma doElement_Fault:
  assumes "doElement scan junk e n st = Fault" and "junk \<noteq> CHR ''(''"
  shows "79 \<le> length (pf_stack st)"
proof -
  let ?st = "st\<lparr>pf_in := drop n (pf_in st)\<rparr>"
  have p: "79 \<le> length (pf_stack (popOps P ?st)) \<Longrightarrow> ?thesis" for P
    using popOps_length[of P ?st] by simp
  show ?thesis
    using assms p popToParen_junk[of junk "pf_stack st" "pf_out st"]
    by (auto simp: doElement_def Let_def doOperand_def doConst_def doBinary_def doUnary_def doMinus_def
        doSeperator_def doCloseParen_def doConditional_def doExprTerm_def emit_def dest!: push_Fault
        split: etype.splits if_splits option.splits prod.splits)
qed

section \<open>The depth of the value stack\<close>



text \<open>No conditional and no two-argument function: every stacked operator is a prefix or infix one.\<close>

definition plain_codes :: "opcode list" where
  "plain_codes = [COND_IF, COND_ELSE, COND_END, MAX_CODE, MIN_CODE, ATAN2]"

definition plain :: "'d instr list \<Rightarrow> bool" where
  "plain code \<longleftrightarrow> (\<forall>k \<in> set plain_codes. Op k \<notin> set code)"

lemma plain_simps [simp]:
  "plain []" "plain (a @ b) \<longleftrightarrow> plain a \<and> plain b" "plain (Const c # a) \<longleftrightarrow> plain a"
  "plain (Op k # a) \<longleftrightarrow> k \<notin> set plain_codes \<and> plain a"
  by (auto simp: plain_def)



definition infixes :: "expression_element list \<Rightarrow> nat" where
  "infixes ts = length (filter (\<lambda>t. el_code t \<in> set infix_codes) (ops ts))"

lemma infixes_simps [simp]:
  "infixes [] = 0" "infixes (a @ b) = infixes a + infixes b"
  "infixes (t # ts) = (if \<not> isParen t \<and> el_code t \<in> set infix_codes then 1 else 0) + infixes ts"
  by (simp_all add: infixes_def)












text \<open>Integer arithmetic as the floating-point unit of the witnesses.\<close>

definition intFpu :: "int fpu" where
  "intFpu = \<lparr>f_add = (+), f_sub = (-), f_mult = (*), f_div = cdiv, f_lt = (<), f_le = (\<le>), f_eq = (=),
     f_neg = uminus, f_int = toInt, f_of_int = id, f_long = id, f_half = 0, f_pi = 3,
     f_fun = (\<lambda>_ x. x), f_atan2 = (\<lambda>_ x. x), f_badshift = (\<lambda>a _. a), f_isbad = (\<lambda>_. False)\<rparr>"

definition demoScan :: "string \<Rightarrow> int" where
  "demoScan s = (if s = '' 1'' \<or> s = ''1'' then 1 else 2)"

section \<open>Properties\<close>

text \<open>C6. Translation and evaluation are correct together: for every expression tree whose shape agrees
  with the operator priorities (binary operators group to the left, prefix operators bind tightest,
  the conditional is weakest and groups to the right), \<open>postfix\<close> accepts the printed text and
  \<open>calcPerform\<close> on the code it produces returns the value of the tree, evaluating exactly one branch
  of every conditional; a failing operation gives status -1.\<close>

theorem postfix_calcPerform_correct:
  assumes "wf_expr x" and "length (show_expr x) < 100"
  shows "\<exists>code. postfix scan junk (show_expr x) = Compiled code
     \<and> calcPerform F arg (Some code) seed =
        Some (case eval F arg scan x seed of
                (Ok v, s) \<Rightarrow> (if f_isbad F v then - 1 else 0, Some v, s)
              | (_, s) \<Rightarrow> (- 1, None, s))"
  using postfix_show[OF assms] calcPerform_show[OF assms] by blast

theorem postfix_calcPerform_correct_witness:
  "\<exists>code. postfix demoScan CHR ''x'' '' A - B * ( C ? 1 : 2 )'' = Compiled code
     \<and> calcPerform intFpu (\<lambda>i. int i + 1) (Some code) 0 = Some (0, Some (- 1), 0)"
proof -
  let ?A = "el ''A'' 0 0 OPERAND FETCH_A" and ?B = "el ''B'' 0 0 OPERAND FETCH_B"
    and ?C = "el ''C'' 0 0 OPERAND FETCH_C" and ?m = "el ''*'' 5 5 BINARY_OPERATOR MULT"
  let ?x = "Sub (Var ?A) (Bin ?m (Var ?B) (Par (If (Var ?C) (Num ''1'') (Num ''2''))))"
  have w: "wf_expr ?x" by (simp add: upper_el_def elements_def toupper_c_def isDigit_def)
  have t: "show_expr ?x = '' A - B * ( C ? 1 : 2 )''" by (simp add: tok_def)
  have "length (show_expr ?x) < 100" unfolding t by simp
  moreover have "eval intFpu (\<lambda>i. int i + 1) demoScan ?x 0 = (Ok (- 1), 0)" by code_simp
  moreover have "\<not> f_isbad intFpu (- 1)" by (simp add: intFpu_def)
  ultimately show ?thesis
    using postfix_calcPerform_correct[OF w, of demoScan "CHR ''x''" intFpu "\<lambda>i. int i + 1" 0]
    unfolding t by simp
qed

text \<open>\<open>stack[0]\<close> is never set, but read. When it holds an open parenthesis, a closing parenthesis too many is taken to match it, and the stack pointer moves
  below the array.\<close>

lemma postfix_junk_fault: "postfix (\<lambda>_. ()) CHR ''('' ''A)'' = PFault"
  by code_simp

lemma pf_no_fault:
  assumes "length pin \<le> 79" and "junk \<noteq> CHR ''(''"
  shows "postfix scan junk pin \<noteq> PFault"
proof (cases "pin = []")
  case True
  then show ?thesis by (simp add: postfix_def)
next
  case False
  obtain stf where r: "pstep\<^sup>*\<^sup>* (map toupper_c pin, [], [], True) (conf stf)"
    and o: "postfix scan junk pin = pfEnd stf \<or> (\<exists>k. postfix scan junk pin = Rejected k)
        \<or> postfix scan junk pin = PFault \<and> (\<exists>e n. get_element (pf_in stf) = Some (e, n) \<and> e \<noteq> noElement
              \<and> doElement scan junk e n stf = Fault)"
    using postfix_reach[OF assms(2) False, where scan = scan] assms(1) by auto
  have "sizes_ok (length pin) (conf stf)" using sizes_reach[OF r] by simp
  then have room: "length (pf_stack stf) + length (pf_in stf) \<le> length pin" by (simp add: conf_def)
  have "pf_in stf \<noteq> []" if "get_element (pf_in stf) = Some (e, n)" for e n
    using that by (auto simp: get_element_def)
  then have "doElement scan junk e n stf \<noteq> Fault" if "get_element (pf_in stf) = Some (e, n)" for e n
    using that doElement_Fault[of scan junk e n stf] room assms by (cases "pf_in stf") auto
  then show ?thesis using o by (auto simp: pfEnd_def split: if_splits option.splits)
qed

text \<open>C7. Inputs of up to 79 characters can neither overflow the 80-entry operator stack of \<open>postfix\<close>
  nor walk below it, provided the entry \<open>stack[0]\<close>, which the code reads but never sets, does not happen to
  hold an open parenthesis.\<close>

theorem postfix_no_fault:
  assumes "length pin \<le> 79" and "junk \<noteq> CHR ''(''"
  shows "postfix scan junk pin \<noteq> PFault"
  by (rule pf_no_fault[OF assms])

theorem postfix_no_fault_witness: "postfix (\<lambda>_. 0 :: nat) CHR ''x'' ''((A)'' \<noteq> PFault"
  by (rule postfix_no_fault) simp_all



text \<open>The code \<open>postfix\<close> writes for an accepted input of \<open>n\<close> characters is at most
  \<open>(11 * n + 9) / 2\<close> bytes long, the size a caller's buffer must have.\<close>

lemma code_size_le:
  assumes "postfix scan junk pin = Compiled code" and "junk \<noteq> CHR ''(''"
  shows "2 * code_size code \<le> 11 * length pin + 9"
proof (cases "pin = []")
  case True
  then show ?thesis using assms(1) by (simp add: postfix_def code_size_def)
next
  case False
  have "length pin < 100" using assms(1) by (simp add: postfix_def split: if_splits)
  then obtain stf where r: "pstep\<^sup>*\<^sup>* (map toupper_c pin, [], [], True) (conf stf)" and e: "pfEnd stf = Compiled code"
    using postfix_reach[OF assms(2) False, where scan = scan] assms(1) by auto
  have "code_size code = bytes code + 1" by (simp add: code_size_def bytes_def)
  then show ?thesis using pfEnd_Compiled[OF e] sizes_reach[OF r] by (simp add: conf_def)
qed

text \<open>A conditional chain of the 39 characters a \<open>CALC\<close> field holds: 209 bytes of code.\<close>

definition calcChain :: string where
  "calcChain = ''1?1:1?1:1?1:1?1:1?1:1?1:1?1:1?1:1?1:1?1''"

text \<open>The code of a sum of ones, written without blanks: the loop on the text behind the first one.\<close>

definition sumTail :: "nat \<Rightarrow> string" where
  "sumTail k = concat (replicate k ''+1'')"

definition sumText :: "nat \<Rightarrow> string" where
  "sumText k = ''1'' @ sumTail k"

lemma sumTail_Suc: "sumTail (Suc k) = CHR ''+'' # CHR ''1'' # sumTail k"
  by (simp add: sumTail_def)

lemma length_sumText [simp]: "length (sumText k) = 2 * k + 1"
  by (simp add: sumText_def sumTail_def length_concat sum_list_replicate)

lemma scanConst_sum: "scanConst (CHR ''1'' # sumTail k) = (''1'', sumTail k)"
  by (cases k) (simp_all add: sumTail_def isDigit_def)

lemma sum_first:
  "filter (\<lambda>e. take 1 (element e) = [CHR ''+'']) elements = [el ''+'' 4 4 BINARY_OPERATOR ADD]"
  "filter (\<lambda>e. take 1 (element e) = [CHR ''1'']) elements = [el ''1'' 0 0 FLOAT_PT_CONST CONSTANT]"
  by code_simp+

lemma get_sum:
  "get_element (CHR ''+'' # r) = Some (el ''+'' 4 4 BINARY_OPERATOR ADD, 1)"
  "get_element (CHR ''1'' # r) = Some (el ''1'' 0 0 FLOAT_PT_CONST CONSTANT, 1)"
  unfolding get_element_def find_element_def
  by (simp_all add: find_loop_first[OF elements_nonempty] sum_first startsWith_def del: One_nat_def)

lemma sum_one:
  "pfLoop scan junk (pst (CHR ''1'' # sumTail k) out ts True nw) =
   pfLoop scan junk (pst (sumTail k) (out @ [Const (scan ''1'')]) ts False False)"
  by (subst pfLoop.simps) (simp add: get_sum doElement_def doConst_def scanConst_sum emit_def
      del: pfLoop.simps scanConst.simps)

lemma sum_loop:
  assumes "ts = [] \<or> ts = [el ''+'' 4 4 BINARY_OPERATOR ADD]"
  shows "\<exists>code. pfLoop scan junk (pst (sumTail k) out ts False False) = Compiled code
     \<and> bytes code = bytes out + length ts + 10 * k"
  using assms
proof (induction k arbitrary: out ts)
  case 0
  have "flushOps ts out = Some (out @ opcodes ts)" using 0 by (auto simp: isParen_def)
  then show ?case
    by (subst pfLoop.simps) (simp add: sumTail_def get_element_def pfEnd_def del: pfLoop.simps)
next
  case (Suc k)
  let ?e = "el ''+'' 4 4 BINARY_OPERATOR ADD"
  have "pfLoop scan junk (pst (sumTail (Suc k)) out ts False False) =
      pfLoop scan junk (pst (CHR ''1'' # sumTail k) (out @ opcodes ts) [?e] True False)"
    using Suc.prems
    by (subst pfLoop.simps)
      (auto simp: sumTail_Suc get_sum doElement_def doBinary_def popOps_def push_def simp del: pfLoop.simps)
  also have "\<dots> = pfLoop scan junk (pst (sumTail k) (out @ opcodes ts @ [Const (scan ''1'')]) [?e] False False)"
    by (simp add: sum_one del: pfLoop.simps)
  finally show ?case using Suc.IH[of "[?e]" "out @ opcodes ts @ [Const (scan ''1'')]"]
    by (auto simp del: pfLoop.simps)
qed

lemma sum_code:
  assumes "k < 50"
  shows "\<exists>code. postfix scan junk (sumText k) = Compiled code \<and> code_size code = 10 * k + 10"
proof -
  have up: "map toupper_c (sumText k) = CHR ''1'' # sumTail k"
    by (induction k) (simp_all add: sumText_def sumTail_def toupper_c_def)
  have "postfix scan junk (sumText k) = pfLoop scan junk (pst (CHR ''1'' # sumTail k) [] [] True True)"
    using assms up by (simp add: postfix_def pfStart_def Let_def del: pfLoop.simps)
  also have "\<dots> = pfLoop scan junk (pst (sumTail k) [Const (scan ''1'')] [] False False)"
    by (simp add: sum_one del: pfLoop.simps)
  finally obtain code where c: "postfix scan junk (sumText k) = Compiled code" "bytes code = 9 + 10 * k"
    using sum_loop[of "[]" scan junk k "[Const (scan ''1'')]"] by auto
  moreover have "code_size code = bytes code + 1" by (simp add: code_size_def bytes_def)
  ultimately show ?thesis by simp
qed

text \<open>C9. How large the code is that \<open>postfix\<close> leaves in its caller's buffer, of a size it is not told: for an accepted
  text of \<open>n\<close> characters (\<open>stack[0]\<close> not holding an open parenthesis) at most \<open>(11 * n + 9) / 2\<close> bytes; and
  a sum of ones of \<open>n\<close> characters is accepted and takes \<open>5 * n + 5\<close>, so no buffer of less than that is safe for
  text of \<open>n\<close> characters.\<close>

theorem postfix_code_bounds:
  assumes "junk \<noteq> CHR ''(''" and "k < 50"
  shows "(\<forall>code. postfix scan junk pin = Compiled code \<longrightarrow> 2 * code_size code \<le> 11 * length pin + 9)
    \<and> length (sumText k) = 2 * k + 1
    \<and> (\<exists>code. postfix scan junk (sumText k) = Compiled code \<and> code_size code = 5 * length (sumText k) + 5)"
  using code_size_le[of scan junk pin] sum_code[OF assms(2), of scan junk] assms(1) by auto

theorem postfix_code_bounds_witness:
  "\<exists>code. postfix (\<lambda>_. 0 :: nat) CHR ''x'' (sumText 20) = Compiled code \<and> code_size code = 210 \<and> length (sumText 20) = 41
     \<and> 2 * code_size code \<le> 11 * length (sumText 20) + 9"
  using postfix_code_bounds[of "CHR ''x''" 20 "\<lambda>_. 0 :: nat" "sumText 20"] by auto

text \<open>The calc record gives \<open>postfix\<close> 200 bytes for up to 39 characters, access security 184 bytes for any text: a
  conditional chain of 39 characters compiles to 209 bytes, and a sum of 37 to 190.\<close>

lemma postfix_overflows_buffers:
  "(\<exists>code. postfix (\<lambda>_. ()) CHR ''x'' calcChain = Compiled code \<and> length calcChain < 40 \<and> 200 < code_size code)
   \<and> (\<exists>code. postfix (\<lambda>_. ()) CHR ''x'' (sumText 18) = Compiled code \<and> 184 < code_size code)"
proof -
  have a: "(case postfix (\<lambda>_. ()) CHR ''x'' calcChain of
      Compiled c \<Rightarrow> length calcChain < 40 \<and> 200 < code_size c | _ \<Rightarrow> False)"
    by code_simp
  have e: "(case r of Compiled c \<Rightarrow> P c | _ \<Rightarrow> False) \<longleftrightarrow> (\<exists>c. r = Compiled c \<and> P c)" for r :: "unit pfresult" and P
    by (cases r) auto
  obtain code where "postfix (\<lambda>_. ()) CHR ''x'' (sumText 18) = Compiled code" "code_size code = 190"
    using sum_code[of 18 "\<lambda>_. ()" "CHR ''x''"] by auto
  with a show ?thesis unfolding e by force
qed

text \<open>The table gives \<open>MAX\<close>, \<open>MIN\<close> and \<open>ATAN2\<close> the type of a one-argument operator, so \<open>postfix\<close>
  accepts them with one argument, and \<open>calcPerform\<close> then reads a value that was never pushed.\<close>

theorem postfix_accepts_short_call:
  "\<exists>code. postfix (scan :: string \<Rightarrow> 'd::equal) CHR ''x'' ''MAX(A)'' = Compiled code \<and> calcPerform F arg (Some code) seed = None"
proof -
  have "postfix scan CHR ''x'' ''MAX(A)'' = Compiled [Op FETCH_A, Op MAX_CODE]" by code_simp
  moreover have "calcPerform F arg (Some [Op FETCH_A, Op MAX_CODE]) seed = None"
    by (simp add: calcPerform_def simpleOp_def fetch_def unaryFun_def binaryFun_def pushVal_def binary_def)
  ultimately show ?thesis by blast
qed

end
