(* ===== verification/AsLib.thy ===== *)
theory AsLib
  imports GpHash CalcPerform
begin

text \<open>
  Access security, \<open>base/src/as/asLibRoutines.c\<close> with the actions of its grammar \<open>asLib.y\<close>: the
  configuration (user and host access groups, access security groups with their rules), the members
  and clients, and the computation of access rights. Access and host groups are pointed to by their
  names, which a configuration never holds twice; members and clients by their addresses. Group
  membership is looked up in the hash directory of \<open>GpHash\<close>, calculations run on \<open>CalcPerform\<close>.
\<close>

unbundle bit_operations_syntax

section \<open>Data\<close>

datatype asAccessRights = asNOACCESS | asREAD | asWRITE

fun rightsRank :: "asAccessRights \<Rightarrow> nat" where
  "rightsRank asNOACCESS = 0"
| "rightsRank asREAD = 1"
| "rightsRank asWRITE = 2"

lemma rightsRank_inj: "rightsRank a = rightsRank b \<Longrightarrow> a = b"
  by (cases a; cases b) auto

text \<open>The rights are ordered as the constants of the C enumeration.\<close>

instantiation asAccessRights :: linorder
begin

definition less_eq_asAccessRights :: "asAccessRights \<Rightarrow> asAccessRights \<Rightarrow> bool" where
  "less_eq_asAccessRights a b \<longleftrightarrow> rightsRank a \<le> rightsRank b"

definition less_asAccessRights :: "asAccessRights \<Rightarrow> asAccessRights \<Rightarrow> bool" where
  "less_asAccessRights a b \<longleftrightarrow> rightsRank a < rightsRank b"

instance
  by standard (auto simp: less_eq_asAccessRights_def less_asAccessRights_def rightsRank_inj)

end

datatype asStatus = S_ok | S_clientsExist | S_noUag | S_noHag | S_badConfig | S_badCalc | S_asNotActive
  | S_badMember | S_badClient | S_badAsg | S_noMemory | S_logicError

text \<open>The address of a user or host access group.\<close>

datatype grp = UagP string | HagP string

record 'd asgrule =
  r_access :: asAccessRights
  r_level :: int
  r_inpUsed :: int
  r_result :: int
  r_calc :: "string option"
  r_rpcl :: "'d instr list option"
  r_uagList :: "string list"
  r_hagList :: "string list"
  r_trapMask :: int

record asginp =
  i_inp :: string
  i_index :: int

record 'd asg =
  a_name :: string
  a_inpList :: "asginp list"
  a_ruleList :: "'d asgrule list"
  a_memberList :: "addr list"
  a_pavalue :: "nat \<Rightarrow> 'd"
  a_inpBad :: int
  a_inpChanged :: int

record 'd asbase =
  b_uagList :: "(string \<times> string list) list"
  b_hagList :: "(string \<times> string list) list"
  b_asgList :: "'d asg list"
  b_phash :: "grp gph option"

record asgmember =
  m_pasg :: "string option"
  m_clientList :: "addr list"
  m_asgName :: string
  m_userPvt :: ptr

record asgclient =
  c_pasgMember :: "addr option"
  c_user :: string
  c_host :: string
  c_userPvt :: ptr
  c_pcallback :: "addr option"
  c_level :: int
  c_access :: asAccessRights
  c_trapMask :: int

text \<open>
  The state of the module. \<open>as_lock\<close> counts how often the mutex is held, \<open>as_calls\<close> is the sequence of
  client callbacks made (callback and client), \<open>as_seed\<close> the state of the random numbers.
\<close>

record 'd asstate =
  as_base :: "'d asbase option"
  as_basenew :: "'d asbase option"
  as_active :: bool
  as_members :: "addr \<rightharpoonup> asgmember"
  as_clients :: "addr \<rightharpoonup> asgclient"
  as_lock :: int
  as_calls :: "(addr \<times> addr) list"
  as_seed :: "16 word"

text \<open>What the calculations need: the arithmetic, the reading of constants, \<open>stack[0]\<close> of \<open>postfix\<close>.\<close>

record 'd asenv =
  e_fpu :: "'d fpu"
  e_scan :: "string \<Rightarrow> 'd"
  e_junk :: char

definition LOCK :: "'d asstate \<Rightarrow> 'd asstate" where
  "LOCK st = st\<lparr>as_lock := as_lock st + 1\<rparr>"

definition UNLOCK :: "'d asstate \<Rightarrow> 'd asstate" where
  "UNLOCK st = st\<lparr>as_lock := as_lock st - 1\<rparr>"

section \<open>Building a configuration\<close>

text \<open>Insert in alphabetic order; \<open>None\<close> when the name is already there.\<close>

fun insertNamed :: "('n \<Rightarrow> string) \<Rightarrow> 'n \<Rightarrow> 'n list \<Rightarrow> 'n list option" where
  "insertNamed nm x [] = Some [x]"
| "insertNamed nm x (pnext # rest) =
     (let cmpvalue = strcmp (nm x) (nm pnext) in
      if cmpvalue < 0 then Some (x # pnext # rest)
      else if cmpvalue = 0 then None
      else map_option ((#) pnext) (insertNamed nm x rest))"

definition asUagAdd :: "string \<Rightarrow> 'd asbase \<Rightarrow> string option \<times> 'd asbase" where
  "asUagAdd uagName b =
     (case insertNamed fst (uagName, []) (b_uagList b) of
        None \<Rightarrow> (None, b)
      | Some us \<Rightarrow> (Some uagName, b\<lparr>b_uagList := us\<rparr>))"

text \<open>Append a name to the list of the group \<open>g\<close>.\<close>

definition addName :: "string \<Rightarrow> string \<Rightarrow> (string \<times> string list) list \<Rightarrow> (string \<times> string list) list" where
  "addName g x gs = map (\<lambda>(n, xs). if n = g then (n, xs @ [x]) else (n, xs)) gs"

definition asUagAddUser :: "string option \<Rightarrow> string \<Rightarrow> 'd asbase \<Rightarrow> 'd asbase" where
  "asUagAddUser puag user b =
     (case puag of None \<Rightarrow> b | Some g \<Rightarrow> b\<lparr>b_uagList := addName g user (b_uagList b)\<rparr>)"

definition asHagAdd :: "string \<Rightarrow> 'd asbase \<Rightarrow> string option \<times> 'd asbase" where
  "asHagAdd hagName b =
     (case insertNamed fst (hagName, []) (b_hagList b) of
        None \<Rightarrow> (None, b)
      | Some hs \<Rightarrow> (Some hagName, b\<lparr>b_hagList := hs\<rparr>))"

definition asHagAddHost :: "string option \<Rightarrow> string \<Rightarrow> 'd asbase \<Rightarrow> 'd asbase" where
  "asHagAddHost phag host b =
     (case phag of
        None \<Rightarrow> b
      | Some g \<Rightarrow> b\<lparr>b_hagList := addName g (map tolower_c host) (b_hagList b)\<rparr>)"

definition newAsg :: "'d \<Rightarrow> string \<Rightarrow> 'd asg" where
  "newAsg zero asgName = \<lparr>a_name = asgName, a_inpList = [], a_ruleList = [], a_memberList = [],
     a_pavalue = (\<lambda>_. zero), a_inpBad = 0, a_inpChanged = 0\<rparr>"

text \<open>A second definition is accepted for a \<open>DEFAULT\<close> group that is still empty.\<close>

definition asAsgAdd :: "'d \<Rightarrow> string \<Rightarrow> 'd asbase \<Rightarrow> string option \<times> 'd asbase" where
  "asAsgAdd zero asgName b =
     (case insertNamed a_name (newAsg zero asgName) (b_asgList b) of
        Some as \<Rightarrow> (Some asgName, b\<lparr>b_asgList := as\<rparr>)
      | None \<Rightarrow>
          (if asgName = ''DEFAULT'' \<and> (\<exists>a \<in> set (b_asgList b). a_name a = asgName
                \<and> a_inpList a = [] \<and> a_ruleList a = [])
           then (Some asgName, b) else (None, b)))"

definition updAsg :: "string \<Rightarrow> ('d asg \<Rightarrow> 'd asg) \<Rightarrow> 'd asbase \<Rightarrow> 'd asbase" where
  "updAsg g f b = b\<lparr>b_asgList := map (\<lambda>a. if a_name a = g then f a else a) (b_asgList b)\<rparr>"

definition asAsgAddInp :: "string option \<Rightarrow> string \<Rightarrow> int \<Rightarrow> 'd asbase \<Rightarrow> 'd asbase" where
  "asAsgAddInp pasg inp inpIndex b =
     (case pasg of
        None \<Rightarrow> b
      | Some g \<Rightarrow> updAsg g (\<lambda>a. a\<lparr>a_inpList := a_inpList a @ [\<lparr>i_inp = inp, i_index = inpIndex\<rparr>]\<rparr>) b)"

text \<open>A rule is pointed to by its group and its position in the rule list.\<close>

type_synonym rulep = "(string \<times> nat) option"

definition newRule :: "asAccessRights \<Rightarrow> int \<Rightarrow> 'd asgrule" where
  "newRule access level = \<lparr>r_access = access, r_level = level, r_inpUsed = 0, r_result = 0, r_calc = None,
     r_rpcl = None, r_uagList = [], r_hagList = [], r_trapMask = 0\<rparr>"

definition asAsgAddRule :: "string option \<Rightarrow> asAccessRights \<Rightarrow> int \<Rightarrow> 'd asbase \<Rightarrow> rulep \<times> 'd asbase" where
  "asAsgAddRule pasg access level b =
     (case pasg of
        None \<Rightarrow> (None, b)
      | Some g \<Rightarrow>
          (case find (\<lambda>a. a_name a = g) (b_asgList b) of
             None \<Rightarrow> (None, b)
           | Some a \<Rightarrow> (Some (g, length (a_ruleList a)),
               updAsg g (\<lambda>a. a\<lparr>a_ruleList := a_ruleList a @ [newRule access level]\<rparr>) b)))"

definition updRule :: "rulep \<Rightarrow> ('d asgrule \<Rightarrow> 'd asgrule) \<Rightarrow> 'd asbase \<Rightarrow> 'd asbase" where
  "updRule rp f b =
     (case rp of
        None \<Rightarrow> b
      | Some (g, i) \<Rightarrow> updAsg g (\<lambda>a. a\<lparr>a_ruleList :=
          (if i < length (a_ruleList a) then (a_ruleList a)[i := f (a_ruleList a ! i)] else a_ruleList a)\<rparr>) b)"

definition asAsgAddRuleOptions :: "rulep \<Rightarrow> int \<Rightarrow> 'd asbase \<Rightarrow> 'd asbase" where
  "asAsgAddRuleOptions rp trapMask b = updRule rp (\<lambda>r. r\<lparr>r_trapMask := trapMask\<rparr>) b"

definition asAsgRuleUagAdd :: "rulep \<Rightarrow> string \<Rightarrow> 'd asbase \<Rightarrow> asStatus \<times> 'd asbase" where
  "asAsgRuleUagAdd rp nm b =
     (if rp = None then (S_ok, b)
      else if nm \<notin> fst ` set (b_uagList b) then (S_noUag, b)
      else (S_ok, updRule rp (\<lambda>r. r\<lparr>r_uagList := r_uagList r @ [nm]\<rparr>) b))"

definition asAsgRuleHagAdd :: "rulep \<Rightarrow> string \<Rightarrow> 'd asbase \<Rightarrow> asStatus \<times> 'd asbase" where
  "asAsgRuleHagAdd rp nm b =
     (if rp = None then (S_ok, b)
      else if nm \<notin> fst ` set (b_hagList b) then (S_noHag, b)
      else (S_ok, updRule rp (\<lambda>r. r\<lparr>r_hagList := r_hagList r @ [nm]\<rparr>) b))"

text \<open>The mask of inputs whose letter, upper or lower case, occurs anywhere in the text.\<close>

definition letterMask :: "string \<Rightarrow> int" where
  "letterMask calc = fold (\<lambda>i m. if char_of (65 + i :: nat) \<in> set calc \<or> char_of (97 + i :: nat) \<in> set calc
     then m OR push_bit i 1 else m) [0..<12] 0"

text \<open>\<open>None\<close> is a fault inside \<open>postfix\<close>.\<close>

definition asAsgRuleCalc :: "'d asenv \<Rightarrow> rulep \<Rightarrow> string \<Rightarrow> 'd asbase \<Rightarrow> (asStatus \<times> 'd asbase) option" where
  "asAsgRuleCalc env rp calc b =
     (if rp = None then Some (S_ok, b)
      else case postfix (e_scan env) (e_junk env) calc of
        PFault \<Rightarrow> None
      | Compiled code \<Rightarrow> Some (S_ok, updRule rp (\<lambda>r. r\<lparr>r_calc := Some calc, r_rpcl := Some code,
            r_inpUsed := r_inpUsed r OR letterMask calc\<rparr>) b)
      | _ \<Rightarrow> Some (S_badCalc, updRule rp (\<lambda>r. r\<lparr>r_calc := None, r_rpcl := None\<rparr>) b))"

section \<open>The grammar's actions\<close>

text \<open>
  The actions in the order the parser runs them; \<open>PSyntax\<close> is a syntax error. \<open>yy_failed\<close> is set by
  every \<open>yyerror\<close>.
\<close>

datatype pact = PUag string | PUagUser string | PHag string | PHagHost string | PAsg string
  | PInp string int | PRule int string | PRuleOption string | PRuleUag string | PRuleHag string
  | PCalc string | PSyntax

record 'd yystate =
  yy_uag :: "string option"
  yy_hag :: "string option"
  yy_asg :: "string option"
  yy_rule :: rulep
  yy_failed :: bool
  yy_base :: "'d asbase"

definition yyerrorIf :: "bool \<Rightarrow> 'd yystate \<Rightarrow> 'd yystate" where
  "yyerrorIf bad y = y\<lparr>yy_failed := yy_failed y \<or> bad\<rparr>"

fun parseAct :: "'d asenv \<Rightarrow> pact \<Rightarrow> 'd yystate \<Rightarrow> 'd yystate option" where
  "parseAct env (PUag nm) y =
     (let (u, b) = asUagAdd nm (yy_base y) in Some (yyerrorIf (u = None) (y\<lparr>yy_uag := u, yy_base := b\<rparr>)))"
| "parseAct env (PUagUser nm) y = Some (y\<lparr>yy_base := asUagAddUser (yy_uag y) nm (yy_base y)\<rparr>)"
| "parseAct env (PHag nm) y =
     (let (h, b) = asHagAdd nm (yy_base y) in Some (yyerrorIf (h = None) (y\<lparr>yy_hag := h, yy_base := b\<rparr>)))"
| "parseAct env (PHagHost nm) y = Some (y\<lparr>yy_base := asHagAddHost (yy_hag y) nm (yy_base y)\<rparr>)"
| "parseAct env (PAsg nm) y =
     (let (a, b) = asAsgAdd (f_of_int (e_fpu env) 0) nm (yy_base y)
      in Some (yyerrorIf (a = None) (y\<lparr>yy_asg := a, yy_base := b\<rparr>)))"
| "parseAct env (PInp inp ind) y = Some (y\<lparr>yy_base := asAsgAddInp (yy_asg y) inp ind (yy_base y)\<rparr>)"
| "parseAct env (PRule level access) y =
     (let rights = (if access = ''READ'' then asREAD else if access = ''WRITE'' then asWRITE else asNOACCESS);
          (r, b) = asAsgAddRule (yy_asg y) rights level (yy_base y)
      in Some (yyerrorIf (access \<notin> {''NONE'', ''READ'', ''WRITE''}) (y\<lparr>yy_rule := r, yy_base := b\<rparr>)))"
| "parseAct env (PRuleOption opt) y =
     (if opt = ''TRAPWRITE'' then Some (y\<lparr>yy_base := asAsgAddRuleOptions (yy_rule y) 1 (yy_base y)\<rparr>)
      else Some (yyerrorIf (opt \<noteq> ''NOTRAPWRITE'') y))"
| "parseAct env (PRuleUag nm) y =
     (let (s, b) = asAsgRuleUagAdd (yy_rule y) nm (yy_base y)
      in Some (yyerrorIf (s \<noteq> S_ok) (y\<lparr>yy_base := b\<rparr>)))"
| "parseAct env (PRuleHag nm) y =
     (let (s, b) = asAsgRuleHagAdd (yy_rule y) nm (yy_base y)
      in Some (yyerrorIf (s \<noteq> S_ok) (y\<lparr>yy_base := b\<rparr>)))"
| "parseAct env (PCalc calc) y = do {
     (s, b) \<leftarrow> asAsgRuleCalc env (yy_rule y) calc (yy_base y);
     Some (yyerrorIf (s \<noteq> S_ok) (y\<lparr>yy_base := b\<rparr>)) }"
| "parseAct env PSyntax y = Some (yyerrorIf True y)"

text \<open>\<open>myParse\<close> stops at a syntax error; the result is whether the configuration is good.\<close>

fun myParse :: "'d asenv \<Rightarrow> pact list \<Rightarrow> 'd yystate \<Rightarrow> (bool \<times> 'd asbase) option" where
  "myParse env [] y = Some (\<not> yy_failed y, yy_base y)"
| "myParse env (a # acts) y =
     (if a = PSyntax then Some (False, yy_base y)
      else do { y' \<leftarrow> parseAct env a y; myParse env acts y' })"

section \<open>Computing access rights\<close>

text \<open>Is the name in one of the groups? The search ends at the first that has it.\<close>

fun anyGroup :: "grp gph option \<Rightarrow> string \<Rightarrow> grp list \<Rightarrow> bool option" where
  "anyGroup phash nm [] = Some False"
| "anyGroup phash nm (g # gs) = do {
     pgphentry \<leftarrow> gphFind phash nm g;
     if pgphentry \<noteq> None then Some True else anyGroup phash nm gs }"

text \<open>One turn of the rule loop: the access and trap mask so far, and the rule.\<close>

definition ruleTurn :: "grp gph option \<Rightarrow> int \<Rightarrow> asgclient \<Rightarrow> asAccessRights \<times> int \<Rightarrow> 'd asgrule \<Rightarrow>
    (asAccessRights \<times> int) option" where
  "ruleTurn phash inpBad c acc r =
     (let (access, trapMask) = acc in
      if access \<ge> r_access r then Some acc
      else if c_level c > r_level r then Some acc
      else do {
        uagOk \<leftarrow> (if r_uagList r = [] then Some True else anyGroup phash (c_user c) (map UagP (r_uagList r)));
        if \<not> uagOk then Some acc
        else do {
          hagOk \<leftarrow> (if r_hagList r = [] then Some True else anyGroup phash (c_host c) (map HagP (r_hagList r)));
          if \<not> hagOk then Some acc
          else if r_calc r = None \<or> (inpBad AND r_inpUsed r = 0 \<and> r_result r = 1)
          then Some (r_access r, r_trapMask r)
          else Some acc } })"

fun ruleLoop :: "grp gph option \<Rightarrow> int \<Rightarrow> asgclient \<Rightarrow> 'd asgrule list \<Rightarrow> asAccessRights \<times> int \<Rightarrow>
    (asAccessRights \<times> int) option" where
  "ruleLoop phash inpBad c [] acc = Some acc"
| "ruleLoop phash inpBad c (r # rs) acc =
     (if fst acc = asWRITE then Some acc
      else do { acc' \<leftarrow> ruleTurn phash inpBad c acc r; ruleLoop phash inpBad c rs acc' })"

definition findAsg :: "string \<Rightarrow> 'd asbase \<Rightarrow> 'd asg option" where
  "findAsg g b = find (\<lambda>a. a_name a = g) (b_asgList b)"

text \<open>\<open>None\<close> outside is a fault (a dangling pointer).\<close>

definition asComputePvt :: "addr option \<Rightarrow> 'd asstate \<Rightarrow> (asStatus \<times> 'd asstate) option" where
  "asComputePvt cp st =
     (if \<not> as_active st then Some (S_asNotActive, st)
      else case cp of
        None \<Rightarrow> Some (S_badClient, st)
      | Some ca \<Rightarrow> do {
          c \<leftarrow> as_clients st ca;
          case c_pasgMember c of
            None \<Rightarrow> Some (S_badMember, st)
          | Some ma \<Rightarrow> do {
              mem \<leftarrow> as_members st ma;
              case m_pasg mem of
                None \<Rightarrow> Some (S_badAsg, st)
              | Some g \<Rightarrow> do {
                  b \<leftarrow> as_base st;
                  a \<leftarrow> findAsg g b;
                  (access, trapMask) \<leftarrow> ruleLoop (b_phash b) (a_inpBad a) c (a_ruleList a) (asNOACCESS, 0);
                  let st1 = st\<lparr>as_clients := (as_clients st)(ca \<mapsto> c\<lparr>c_access := access, c_trapMask := trapMask\<rparr>)\<rparr>;
                  Some (S_ok,
                    (case c_pcallback c of
                       None \<Rightarrow> st1
                     | Some f \<Rightarrow> if c_access c \<noteq> access then st1\<lparr>as_calls := as_calls st @ [(f, ca)]\<rparr> else st1)) } } })"

text \<open>The loops over the clients of a member and the members of a group.\<close>

fun computeClients :: "addr list \<Rightarrow> 'd asstate \<Rightarrow> 'd asstate option" where
  "computeClients [] st = Some st"
| "computeClients (ca # cs) st = do { (_, st') \<leftarrow> asComputePvt (Some ca) st; computeClients cs st' }"

fun computeMembers :: "addr list \<Rightarrow> 'd asstate \<Rightarrow> 'd asstate option" where
  "computeMembers [] st = Some st"
| "computeMembers (ma # ms) st = do {
     mem \<leftarrow> as_members st ma;
     st' \<leftarrow> computeClients (m_clientList mem) st;
     computeMembers ms st' }"

text \<open>\<open>(result > .99) \<and> (result < 1.01)\<close>.\<close>

definition nearOne :: "'d fpu \<Rightarrow> 'd \<Rightarrow> bool" where
  "nearOne F x = (f_lt F (f_div F (f_of_int F 99) (f_of_int F 100)) x
     \<and> f_lt F x (f_div F (f_of_int F 101) (f_of_int F 100)))"

text \<open>The rule loop of \<open>asComputeAsgPvt\<close>: run the calculations whose inputs have changed.\<close>

definition calcRule :: "'d asenv \<Rightarrow> (nat \<Rightarrow> 'd) \<Rightarrow> int \<Rightarrow> 'd asgrule \<Rightarrow> 16 word \<Rightarrow> ('d asgrule \<times> 16 word) option" where
  "calcRule env pavalue changed r seed =
     (if r_calc r \<noteq> None \<and> changed AND r_inpUsed r \<noteq> 0
      then do {
        (status, result, seed') \<leftarrow> calcPerform (e_fpu env) pavalue (r_rpcl r) seed;
        Some (r\<lparr>r_result := (if status \<noteq> 0 then 0
                             else case result of None \<Rightarrow> 0
                                | Some v \<Rightarrow> if nearOne (e_fpu env) v then 1 else 0)\<rparr>, seed') }
      else Some (r, seed))"

fun calcRules :: "'d asenv \<Rightarrow> (nat \<Rightarrow> 'd) \<Rightarrow> int \<Rightarrow> 'd asgrule list \<Rightarrow> 16 word \<Rightarrow>
    ('d asgrule list \<times> 16 word) option" where
  "calcRules env pavalue changed [] seed = Some ([], seed)"
| "calcRules env pavalue changed (r # rs) seed = do {
     (r', seed') \<leftarrow> calcRule env pavalue changed r seed;
     (rs', seed'') \<leftarrow> calcRules env pavalue changed rs seed';
     Some (r' # rs', seed'') }"

definition asComputeAsgPvt :: "'d asenv \<Rightarrow> string \<Rightarrow> 'd asstate \<Rightarrow> (asStatus \<times> 'd asstate) option" where
  "asComputeAsgPvt env g st =
     (if \<not> as_active st then Some (S_asNotActive, st)
      else do {
        b \<leftarrow> as_base st;
        a \<leftarrow> findAsg g b;
        (rules, seed) \<leftarrow> calcRules env (a_pavalue a) (a_inpChanged a) (a_ruleList a) (as_seed st);
        st' \<leftarrow> computeMembers (a_memberList a)
                 (st\<lparr>as_base := Some (updAsg g (\<lambda>a. a\<lparr>a_ruleList := rules, a_inpChanged := 0\<rparr>) b),
                    as_seed := seed\<rparr>);
        Some (S_ok, st') })"

fun computeAsgs :: "'d asenv \<Rightarrow> string list \<Rightarrow> 'd asstate \<Rightarrow> 'd asstate option" where
  "computeAsgs env [] st = Some st"
| "computeAsgs env (g # gs) st = do { (_, st') \<leftarrow> asComputeAsgPvt env g st; computeAsgs env gs st' }"

definition asComputeAllAsgPvt :: "'d asenv \<Rightarrow> 'd asstate \<Rightarrow> (asStatus \<times> 'd asstate) option" where
  "asComputeAllAsgPvt env st =
     (if \<not> as_active st then Some (S_asNotActive, st)
      else do {
        b \<leftarrow> as_base st;
        st' \<leftarrow> computeAsgs env (map a_name (b_asgList b)) st;
        Some (S_ok, st') })"

definition asComputeAllAsg :: "'d asenv \<Rightarrow> 'd asstate \<Rightarrow> (asStatus \<times> 'd asstate) option" where
  "asComputeAllAsg env st =
     (if \<not> as_active st then Some (S_asNotActive, st)
      else do { (s, st') \<leftarrow> asComputeAllAsgPvt env (LOCK st); Some (s, UNLOCK st') })"

definition asComputeAsg :: "'d asenv \<Rightarrow> string \<Rightarrow> 'd asstate \<Rightarrow> (asStatus \<times> 'd asstate) option" where
  "asComputeAsg env g st =
     (if \<not> as_active st then Some (S_asNotActive, st)
      else do { (s, st') \<leftarrow> asComputeAsgPvt env g (LOCK st); Some (s, UNLOCK st') })"

definition asCompute :: "addr option \<Rightarrow> 'd asstate \<Rightarrow> (asStatus \<times> 'd asstate) option" where
  "asCompute cp st =
     (if \<not> as_active st then Some (S_asNotActive, st)
      else do { (s, st') \<leftarrow> asComputePvt cp (LOCK st); Some (s, UNLOCK st') })"

section \<open>Members\<close>

definition newMember :: asgmember where
  "newMember = \<lparr>m_pasg = None, m_clientList = [], m_asgName = [], m_userPvt = None\<rparr>"

text \<open>The search for the group: by name, then \<open>DEFAULT\<close>.\<close>

definition memberGroup :: "string \<Rightarrow> 'd asbase \<Rightarrow> string option" where
  "memberGroup asgName b =
     (if findAsg asgName b \<noteq> None then Some asgName
      else if findAsg ''DEFAULT'' b \<noteq> None then Some ''DEFAULT'' else None)"

text \<open>
  \<open>pmem\<close> is \<open>*pasMemberPvt\<close>, \<open>new\<close> the address \<open>asCalloc\<close> would return. The result also has the new
  \<open>*pasMemberPvt\<close>.
\<close>

definition asAddMemberPvt :: "addr \<Rightarrow> ptr \<Rightarrow> string \<Rightarrow> 'd asstate \<Rightarrow> (asStatus \<times> ptr \<times> 'd asstate) option" where
  "asAddMemberPvt new pmem asgName st = do {
     let ma = (case pmem of Some a \<Rightarrow> a | None \<Rightarrow> new);
     mem0 \<leftarrow> (case pmem of Some a \<Rightarrow> as_members st a | None \<Rightarrow> Some newMember);
     let mem = mem0\<lparr>m_asgName := asgName\<rparr>;
     let st1 = st\<lparr>as_members := (as_members st)(ma \<mapsto> mem)\<rparr>;
     b \<leftarrow> as_base st;
     case memberGroup asgName b of
       None \<Rightarrow> Some (S_logicError, Some ma, st1)
     | Some g \<Rightarrow> do {
         st' \<leftarrow> computeClients (m_clientList mem)
                 (st1\<lparr>as_members := (as_members st)(ma \<mapsto> mem\<lparr>m_pasg := Some g\<rparr>),
                      as_base := Some (updAsg g (\<lambda>a. a\<lparr>a_memberList := a_memberList a @ [ma]\<rparr>) b)\<rparr>);
         Some (S_ok, Some ma, st') } }"

definition asAddMember :: "addr \<Rightarrow> ptr \<Rightarrow> string \<Rightarrow> 'd asstate \<Rightarrow> (asStatus \<times> ptr \<times> 'd asstate) option" where
  "asAddMember new pmem asgName st =
     (if \<not> as_active st then Some (S_asNotActive, pmem, st)
      else do { (s, p, st') \<leftarrow> asAddMemberPvt new pmem asgName (LOCK st); Some (s, p, UNLOCK st') })"

text \<open>Take a member off the list of its group.\<close>

definition unlinkMember :: "addr \<Rightarrow> string \<Rightarrow> 'd asstate \<Rightarrow> 'd asstate option" where
  "unlinkMember ma g st = do {
     b \<leftarrow> as_base st;
     Some (st\<lparr>as_base := Some (updAsg g (\<lambda>a. a\<lparr>a_memberList := remove1 ma (a_memberList a)\<rparr>) b)\<rparr>) }"

text \<open>The early return for a member with clients comes after \<open>LOCK\<close> and before any \<open>UNLOCK\<close>.\<close>

definition asRemoveMember :: "ptr \<Rightarrow> 'd asstate \<Rightarrow> (asStatus \<times> ptr \<times> 'd asstate) option" where
  "asRemoveMember pmem st =
     (if \<not> as_active st then Some (S_asNotActive, pmem, st)
      else case pmem of
        None \<Rightarrow> Some (S_badMember, None, st)
      | Some ma \<Rightarrow> do {
          let st1 = LOCK st;
          mem \<leftarrow> as_members st1 ma;
          if 0 < length (m_clientList mem) then Some (S_clientsExist, pmem, st1)
          else case m_pasg mem of
            None \<Rightarrow> Some (S_logicError, pmem, UNLOCK st1)
          | Some g \<Rightarrow> do {
              st2 \<leftarrow> unlinkMember ma g st1;
              Some (S_ok, None, UNLOCK (st2\<lparr>as_members := (as_members st2)(ma := None)\<rparr>)) } })"

definition asChangeGroup :: "ptr \<Rightarrow> string \<Rightarrow> 'd asstate \<Rightarrow> (asStatus \<times> ptr \<times> 'd asstate) option" where
  "asChangeGroup pmem newAsgName st =
     (if \<not> as_active st then Some (S_asNotActive, pmem, st)
      else case pmem of
        None \<Rightarrow> Some (S_badMember, None, st)
      | Some ma \<Rightarrow> do {
          let st1 = LOCK st;
          mem \<leftarrow> as_members st1 ma;
          case m_pasg mem of
            None \<Rightarrow> Some (S_logicError, pmem, UNLOCK st1)
          | Some g \<Rightarrow> do {
              st2 \<leftarrow> unlinkMember ma g st1;
              (s, p, st3) \<leftarrow> asAddMemberPvt ma pmem newAsgName st2;
              Some (s, p, UNLOCK st3) } })"

definition asGetMemberPvt :: "ptr \<Rightarrow> 'd asstate \<Rightarrow> ptr option" where
  "asGetMemberPvt pmem st =
     (if \<not> as_active st then Some None
      else case pmem of
        None \<Rightarrow> Some None
      | Some ma \<Rightarrow> do { mem \<leftarrow> as_members st ma; Some (m_userPvt mem) })"

definition asPutMemberPvt :: "ptr \<Rightarrow> ptr \<Rightarrow> 'd asstate \<Rightarrow> 'd asstate option" where
  "asPutMemberPvt pmem userPvt st =
     (if \<not> as_active st then Some st
      else case pmem of
        None \<Rightarrow> Some st
      | Some ma \<Rightarrow> do {
          mem \<leftarrow> as_members st ma;
          Some (st\<lparr>as_members := (as_members st)(ma \<mapsto> mem\<lparr>m_userPvt := userPvt\<rparr>)\<rparr>) })"

section \<open>Clients\<close>

text \<open>\<open>new\<close> is what \<open>freeListCalloc\<close> returns. The host name is lower-cased in place.\<close>

definition asAddClient :: "ptr \<Rightarrow> ptr \<Rightarrow> int \<Rightarrow> string \<Rightarrow> string \<Rightarrow> 'd asstate \<Rightarrow>
    (asStatus \<times> ptr \<times> 'd asstate) option" where
  "asAddClient new pmem asl user host st =
     (if \<not> as_active st then Some (S_asNotActive, None, st)
      else case pmem of
        None \<Rightarrow> Some (S_badMember, None, st)
      | Some ma \<Rightarrow>
          (case new of
             None \<Rightarrow> Some (S_noMemory, None, st)
           | Some ca \<Rightarrow> do {
               let c = \<lparr>c_pasgMember = pmem, c_user = user, c_host = map tolower_c host, c_userPvt = None,
                        c_pcallback = None, c_level = asl, c_access = asNOACCESS, c_trapMask = 0\<rparr>;
               let st1 = LOCK (st\<lparr>as_clients := (as_clients st)(ca \<mapsto> c)\<rparr>);
               mem \<leftarrow> as_members st1 ma;
               (s, st2) \<leftarrow> asComputePvt (Some ca)
                  (st1\<lparr>as_members := (as_members st1)(ma \<mapsto> mem\<lparr>m_clientList := m_clientList mem @ [ca]\<rparr>)\<rparr>);
               Some (s, Some ca, UNLOCK st2) }))"

definition asChangeClient :: "ptr \<Rightarrow> int \<Rightarrow> string \<Rightarrow> string \<Rightarrow> 'd asstate \<Rightarrow> (asStatus \<times> 'd asstate) option" where
  "asChangeClient cp asl user host st =
     (if \<not> as_active st then Some (S_asNotActive, st)
      else case cp of
        None \<Rightarrow> Some (S_badClient, st)
      | Some ca \<Rightarrow> do {
          c \<leftarrow> as_clients st ca;
          (s, st') \<leftarrow> asComputePvt cp (LOCK (st\<lparr>as_clients := (as_clients st)
             (ca \<mapsto> c\<lparr>c_level := asl, c_user := user, c_host := host\<rparr>)\<rparr>));
          Some (s, UNLOCK st') })"

definition asRemoveClient :: "ptr \<Rightarrow> 'd asstate \<Rightarrow> (asStatus \<times> ptr \<times> 'd asstate) option" where
  "asRemoveClient cp st =
     (if \<not> as_active st then Some (S_asNotActive, cp, st)
      else case cp of
        None \<Rightarrow> Some (S_badClient, None, st)
      | Some ca \<Rightarrow> do {
          let st1 = LOCK st;
          c \<leftarrow> as_clients st1 ca;
          case c_pasgMember c of
            None \<Rightarrow> Some (S_logicError, cp, UNLOCK st1)
          | Some ma \<Rightarrow> do {
              mem \<leftarrow> as_members st1 ma;
              Some (S_ok, None, UNLOCK (st1\<lparr>
                as_members := (as_members st1)(ma \<mapsto> mem\<lparr>m_clientList := remove1 ca (m_clientList mem)\<rparr>),
                as_clients := (as_clients st1)(ca := None)\<rparr>)) } })"

text \<open>The callback is made at once.\<close>

definition asRegisterClientCallback :: "ptr \<Rightarrow> addr \<Rightarrow> 'd asstate \<Rightarrow> (asStatus \<times> 'd asstate) option" where
  "asRegisterClientCallback cp pcallback st =
     (if \<not> as_active st then Some (S_asNotActive, st)
      else case cp of
        None \<Rightarrow> Some (S_badClient, st)
      | Some ca \<Rightarrow> do {
          let st1 = LOCK st;
          c \<leftarrow> as_clients st1 ca;
          Some (S_ok, UNLOCK (st1\<lparr>as_clients := (as_clients st1)(ca \<mapsto> c\<lparr>c_pcallback := Some pcallback\<rparr>),
                                  as_calls := as_calls st1 @ [(pcallback, ca)]\<rparr>)) })"

definition asGetClientPvt :: "ptr \<Rightarrow> 'd asstate \<Rightarrow> ptr option" where
  "asGetClientPvt cp st =
     (if \<not> as_active st then Some None
      else case cp of
        None \<Rightarrow> Some None
      | Some ca \<Rightarrow> do { c \<leftarrow> as_clients st ca; Some (c_userPvt c) })"

definition asPutClientPvt :: "ptr \<Rightarrow> ptr \<Rightarrow> 'd asstate \<Rightarrow> 'd asstate option" where
  "asPutClientPvt cp userPvt st =
     (if \<not> as_active st then Some st
      else case cp of
        None \<Rightarrow> Some st
      | Some ca \<Rightarrow> do {
          let st1 = LOCK st;
          c \<leftarrow> as_clients st1 ca;
          Some (UNLOCK (st1\<lparr>as_clients := (as_clients st1)(ca \<mapsto> c\<lparr>c_userPvt := userPvt\<rparr>)\<rparr>)) })"

text \<open>The macros \<open>asCheckGet\<close> and \<open>asCheckPut\<close>: everything is allowed while the module is not active.\<close>

definition asCheckGet :: "addr \<Rightarrow> 'd asstate \<Rightarrow> bool option" where
  "asCheckGet ca st =
     (if as_active st then do { c \<leftarrow> as_clients st ca; Some (asREAD \<le> c_access c) } else Some True)"

definition asCheckPut :: "addr \<Rightarrow> 'd asstate \<Rightarrow> bool option" where
  "asCheckPut ca st =
     (if as_active st then do { c \<leftarrow> as_clients st ca; Some (asWRITE \<le> c_access c) } else Some True)"

section \<open>Installing a configuration\<close>

text \<open>Hash the names of the user groups, then of the host groups; a duplicate name is only reported.\<close>

fun hashNames :: "(string \<times> grp) list \<Rightarrow> grp gph option \<Rightarrow> grp gph option option" where
  "hashNames [] t = Some t"
| "hashNames ((nm, g) # rest) t = do { (_, t') \<leftarrow> gphAdd t nm g; hashNames rest t' }"

definition groupKeys :: "'d asbase \<Rightarrow> (string \<times> grp) list" where
  "groupKeys b = concat (map (\<lambda>(g, xs). map (\<lambda>x. (x, UagP g)) xs) (b_uagList b))
     @ concat (map (\<lambda>(g, xs). map (\<lambda>x. (x, HagP g)) xs) (b_hagList b))"

text \<open>Move the members of the old configuration, group by group, into the new one.\<close>

fun moveMembers :: "addr list \<Rightarrow> 'd asstate \<Rightarrow> 'd asstate option" where
  "moveMembers [] st = Some st"
| "moveMembers (ma # ms) st = do {
     mem \<leftarrow> as_members st ma;
     (_, _, st') \<leftarrow> asAddMemberPvt ma (Some ma) (m_asgName mem) st;
     moveMembers ms st' }"

definition emptyBase :: "'d asbase" where
  "emptyBase = \<lparr>b_uagList = [], b_hagList = [], b_asgList = [], b_phash = None\<rparr>"

definition asInitialize :: "'d asenv \<Rightarrow> pact list \<Rightarrow> 'd asstate \<Rightarrow> (asStatus \<times> 'd asstate) option" where
  "asInitialize env acts st0 = do {
     let st = LOCK st0;
     let (_, b0) = asAsgAdd (f_of_int (e_fpu env) 0) ''DEFAULT'' emptyBase;
     (ok, b1) \<leftarrow> myParse env acts
        \<lparr>yy_uag = None, yy_hag = None, yy_asg = None, yy_rule = None, yy_failed = False, yy_base = b0\<rparr>;
     if \<not> ok then Some (S_badConfig, UNLOCK (st\<lparr>as_basenew := Some b1\<rparr>))
     else do {
       t \<leftarrow> hashNames (groupKeys b1) (gphInitPvt 256);
       let b = b1\<lparr>b_phash := t\<rparr>;
       let st1 = st\<lparr>as_basenew := Some b, as_base := Some b\<rparr>;
       st2 \<leftarrow> (case as_base st of
                None \<Rightarrow> Some st1
              | Some old \<Rightarrow> moveMembers (concat (map a_memberList (b_asgList old))) st1);
       Some (S_ok, UNLOCK (st2\<lparr>as_active := True\<rparr>)) } }"

end
