(* ===== verification/AsProofs.thy ===== *)
theory AsProofs
  imports AsLib
begin

text \<open>
  What access security promises: the rights of a client are the strongest of the rules that match
  it, group membership is exactly that of the configuration, and after every operation the rights of
  every client are the ones the current configuration gives.
\<close>

section \<open>Rights from rules\<close>

text \<open>Is the name a member of the group, by the lists of the configuration?\<close>

definition inGroup :: "'d asbase \<Rightarrow> string \<Rightarrow> grp \<Rightarrow> bool" where
  "inGroup b nm g \<longleftrightarrow> (nm, g) \<in> set (groupKeys b)"

text \<open>A rule matches a client: level, one user group, one host group, and the calculation.\<close>

definition ruleMatches :: "'d asbase \<Rightarrow> int \<Rightarrow> asgclient \<Rightarrow> 'd asgrule \<Rightarrow> bool" where
  "ruleMatches b inpBad c r \<longleftrightarrow> c_level c \<le> r_level r
     \<and> (r_uagList r = [] \<or> (\<exists>u \<in> set (r_uagList r). inGroup b (c_user c) (UagP u)))
     \<and> (r_hagList r = [] \<or> (\<exists>h \<in> set (r_hagList r). inGroup b (c_host c) (HagP h)))
     \<and> (r_calc r = None \<or> (inpBad AND r_inpUsed r = 0 \<and> r_result r = 1))"

text \<open>
  The rights a list of rules grants: the maximum over the matching ones, none without a match, and the
  trap mask of the first matching rule that has this maximum.
\<close>

definition grantedAccess :: "'d asbase \<Rightarrow> int \<Rightarrow> asgclient \<Rightarrow> 'd asgrule list \<Rightarrow> asAccessRights" where
  "grantedAccess b inpBad c rs = Max (insert asNOACCESS (r_access ` {r \<in> set rs. ruleMatches b inpBad c r}))"

definition grantedTrap :: "'d asbase \<Rightarrow> int \<Rightarrow> asgclient \<Rightarrow> 'd asgrule list \<Rightarrow> int" where
  "grantedTrap b inpBad c rs =
     (if grantedAccess b inpBad c rs = asNOACCESS then 0
      else case find (\<lambda>r. ruleMatches b inpBad c r \<and> r_access r = grantedAccess b inpBad c rs) rs of
             None \<Rightarrow> 0 | Some r \<Rightarrow> r_trapMask r)"

text \<open>The hash table of a configuration answers membership.\<close>

definition base_ok :: "'d asbase \<Rightarrow> bool" where
  "base_ok b \<longleftrightarrow> (\<forall>nm g. gphFind (b_phash b) nm g \<noteq> None
     \<and> (gphFind (b_phash b) nm g \<noteq> Some None \<longleftrightarrow> inGroup b nm g))"

lemma anyGroup_ok: "base_ok b \<Longrightarrow> anyGroup (b_phash b) nm gs = Some (\<exists>g \<in> set gs. inGroup b nm g)"
proof (induction gs)
  case (Cons g gs)
  obtain r where "gphFind (b_phash b) nm g = Some r" "r \<noteq> None \<longleftrightarrow> inGroup b nm g"
    using Cons.prems unfolding base_ok_def by (metis not_None_eq option.inject)
  then show ?case using Cons by auto
qed simp

lemma rights_cases: "asNOACCESS \<le> (a :: asAccessRights)" "a \<le> asWRITE"
  by (cases a; simp add: less_eq_asAccessRights_def)+

lemma ruleTurn_ok:
  assumes "base_ok b"
  shows "ruleTurn (b_phash b) inpBad c (access, t) r =
    Some (if access < r_access r \<and> ruleMatches b inpBad c r then (r_access r, r_trapMask r) else (access, t))"
  using anyGroup_ok[OF assms]
  by (auto simp: ruleTurn_def ruleMatches_def not_le not_less)

lemma Max_drop:
  fixes a r :: "'x :: linorder"
  assumes "finite S" and "r \<le> a"
  shows "Max (insert a (insert r S)) = Max (insert a S)" "a \<le> Max (insert a S)"
proof -
  show le: "a \<le> Max (insert a S)" using assms(1) by (intro Max_ge) auto
  have "Max (insert r (insert a S)) = max r (Max (insert a S))" using assms(1) by (intro Max_insert) auto
  also have "\<dots> = Max (insert a S)" using order_trans[OF assms(2) le] by (rule max_absorb2)
  finally show "Max (insert a (insert r S)) = Max (insert a S)" by (simp only: insert_commute[of a r S])
qed

text \<open>The first rule, from the left, that reaches the maximum.\<close>

definition bestOf :: "'d asbase \<Rightarrow> int \<Rightarrow> asgclient \<Rightarrow> asAccessRights \<times> int \<Rightarrow> 'd asgrule list \<Rightarrow> asAccessRights \<times> int" where
  "bestOf b inpBad c acc rs =
     (let m = Max (insert (fst acc) (r_access ` {r \<in> set rs. ruleMatches b inpBad c r}))
      in (m, if m = fst acc then snd acc
             else case find (\<lambda>r. ruleMatches b inpBad c r \<and> r_access r = m) rs of
                    None \<Rightarrow> snd acc | Some r \<Rightarrow> r_trapMask r))"

lemma match_set_Cons:
  "{x \<in> set (r # rs). ruleMatches b n c x} =
    (if ruleMatches b n c r then insert r {x \<in> set rs. ruleMatches b n c x} else {x \<in> set rs. ruleMatches b n c x})"
  by auto

lemma bestOf_skip:
  assumes "\<not> (access < r_access r \<and> ruleMatches b inpBad c r)"
  shows "bestOf b inpBad c (access, t) (r # rs) = bestOf b inpBad c (access, t) rs"
proof (cases "ruleMatches b inpBad c r")
  case True
  then have le: "r_access r \<le> access" using assms by simp
  define S where "S = r_access ` {x \<in> set rs. ruleMatches b inpBad c x}"
  have S: "finite S" by (simp add: S_def)
  have m: "Max (insert access (insert (r_access r) S)) = Max (insert access S)" "access \<le> Max (insert access S)"
    using Max_drop[OF S le] by auto
  have eq: "r_access r = Max (insert access S) \<Longrightarrow> Max (insert access S) = access"
    using le m(2) by (metis order_antisym)
  have "r_access ` {x \<in> set (r # rs). ruleMatches b inpBad c x} = insert (r_access r) S"
    using True by (auto simp: S_def)
  then show ?thesis using True m(1) eq unfolding bestOf_def S_def[symmetric] by (simp add: Let_def)
next
  case False
  then have "{x \<in> set (r # rs). ruleMatches b inpBad c x} = {x \<in> set rs. ruleMatches b inpBad c x}" by auto
  then show ?thesis using False unfolding bestOf_def by (simp add: Let_def)
qed

lemma bestOf_take:
  assumes "access < r_access r" and "ruleMatches b inpBad c r"
  shows "bestOf b inpBad c (access, t) (r # rs) = bestOf b inpBad c (r_access r, r_trapMask r) rs"
proof -
  define S where "S = r_access ` {x \<in> set rs. ruleMatches b inpBad c x}"
  have S: "finite S" by (simp add: S_def)
  have le: "r_access r \<le> Max (insert (r_access r) S)" using Max_drop(2)[OF S order_refl] .
  have m: "Max (insert access (insert (r_access r) S)) = Max (insert (r_access r) S)"
    unfolding insert_commute[of access] by (rule Max_drop(1)[OF S less_imp_le[OF assms(1)]])
  have ne: "Max (insert (r_access r) S) \<noteq> access" using assms(1) le by (metis leD)
  have found: "\<exists>x. find (\<lambda>x. ruleMatches b inpBad c x \<and> r_access x = Max (insert (r_access r) S)) rs = Some x"
    if "Max (insert (r_access r) S) \<noteq> r_access r"
  proof -
    have "Max (insert (r_access r) S) \<in> insert (r_access r) S" using S by (intro Max_in) auto
    then have "Max (insert (r_access r) S) \<in> S" using that by blast
    then obtain x where "x \<in> set rs" "ruleMatches b inpBad c x" "r_access x = Max (insert (r_access r) S)"
      by (auto simp: S_def)
    then show ?thesis by (metis (mono_tags, lifting) find_None_iff not_None_eq)
  qed
  have "r_access ` {x \<in> set (r # rs). ruleMatches b inpBad c x} = insert (r_access r) S"
    using assms(2) by (auto simp: S_def)
  then show ?thesis using assms(2) m ne found unfolding bestOf_def S_def[symmetric]
    by (auto simp: Let_def)
qed

lemma bestOf_write: "bestOf b inpBad c (asWRITE, t) rs = (asWRITE, t)"
proof -
  have "Max (insert asWRITE (r_access ` {x \<in> set rs. ruleMatches b inpBad c x})) = asWRITE"
    using rights_cases(2) by (intro Max_eqI) auto
  then show ?thesis by (simp add: bestOf_def)
qed

lemma ruleLoop_bestOf:
  "base_ok b \<Longrightarrow> ruleLoop (b_phash b) inpBad c rs acc = Some (bestOf b inpBad c acc rs)"
proof (induction rs arbitrary: acc)
  case Nil
  then show ?case by (simp add: bestOf_def prod_eq_iff)
next
  case (Cons r rs)
  obtain access t where acc: "acc = (access, t)" by force
  show ?case
    using Cons bestOf_write[of b inpBad c t "r # rs"] bestOf_take[of access r b inpBad c t rs]
      bestOf_skip[of access r b inpBad c t rs]
    by (auto simp: acc ruleTurn_ok[OF Cons.prems])
qed

lemma bestOf_granted:
  "bestOf b inpBad c (asNOACCESS, 0) rs = (grantedAccess b inpBad c rs, grantedTrap b inpBad c rs)"
  by (simp add: bestOf_def grantedAccess_def grantedTrap_def Let_def split: option.split)

lemma ruleLoop_ok:
  "base_ok b \<Longrightarrow> ruleLoop (b_phash b) inpBad c rs (asNOACCESS, 0) =
    Some (grantedAccess b inpBad c rs, grantedTrap b inpBad c rs)"
  by (simp add: ruleLoop_bestOf bestOf_granted)

section \<open>Group membership\<close>

lemma hashNames_trun:
  "gph_inv t \<Longrightarrow> \<exists>t'. hashNames ks (Some t) = Some (Some t') \<and> trun gph_add gph_del t (map TAdd ks) = Some t'"
proof (induction ks arbitrary: t)
  case (Cons k ks)
  obtain nm g where k: "k = (nm, g)" by force
  obtain r t1 where a: "gphAdd (Some t) nm g = Some (r, Some t1)" "gph_inv t1"
    using gphAdd_ok[OF Cons.prems, of nm g] by blast
  then show ?case using Cons.IH[OF a(2)] by (simp add: k gph_add_def)
qed simp

lemma tkeys_adds: "tkeys K (map TAdd ks) = set ks \<union> K"
  by (induction ks arbitrary: K) auto

lemma gphInit_256: "\<exists>t. gphInitPvt 256 = Some t"
  by (simp add: gphInitPvt_def allowSize_def)

lemma hashNames_ok:
  "\<exists>t. hashNames ks (gphInitPvt 256) = Some (Some t)
     \<and> (\<forall>nm g. gphFind (Some t) nm g = Some (if (nm, g) \<in> set ks then Some (gph_entry (nm, g)) else None))"
proof -
  obtain t0 :: "grp gph" where t0: "gphInitPvt 256 = Some t0" using gphInit_256 by blast
  obtain t where t: "hashNames ks (Some t0) = Some (Some t)" "trun gph_add gph_del t0 (map TAdd ks) = Some t"
    using hashNames_trun[OF gphInit_ok(1)[OF t0]] by blast
  have "\<forall>k. gph_find t0 k = Some (if k \<in> {} then Some (gph_entry k) else None)"
    using gphInit_ok(2)[OF t0] by (simp add: gph_find_def)
  from gphdir.run_keys[OF gphInit_ok(1)[OF t0] this, of "map TAdd ks"] t
  have "\<forall>k. gph_find t k = Some (if k \<in> set ks then Some (gph_entry k) else None)" by (simp add: tkeys_adds)
  then show ?thesis using t t0 by (auto simp: gph_find_def)
qed

end
