(* ===== verification/AsRights.thy ===== *)
theory AsRights
  imports AsProofs
begin

text \<open>
  Recomputing rights: what one call of \<open>asComputePvt\<close> does to a client that is linked to a group, and
  what the loops over the clients of a member and over the members of a group amount to.
\<close>

section \<open>Groups of a configuration\<close>

lemma findAsg_name: "findAsg g b = Some a \<Longrightarrow> a_name a = g \<and> a \<in> set (b_asgList b)"
  by (auto simp: findAsg_def find_Some_iff)

lemma find_name_map:
  "(\<And>a. a_name (f a) = a_name a) \<Longrightarrow>
   find (\<lambda>a. a_name a = g) (map (\<lambda>a. if a_name a = h then f a else a) as) =
   map_option (\<lambda>a. if g = h then f a else a) (find (\<lambda>a. a_name a = g) as)"
  by (induction as) auto

lemma findAsg_updAsg:
  "(\<And>a. a_name (f a) = a_name a) \<Longrightarrow>
   findAsg g (updAsg h f b) = map_option (\<lambda>a. if g = h then f a else a) (findAsg g b)"
  by (simp add: findAsg_def updAsg_def find_name_map)

lemma find_name_distinct:
  "distinct (map a_name as) \<Longrightarrow> a \<in> set as \<Longrightarrow> find (\<lambda>x. a_name x = a_name a) as = Some a"
  by (induction as) force+

lemma findAsg_distinct:
  "distinct (map a_name (b_asgList b)) \<Longrightarrow> a \<in> set (b_asgList b) \<Longrightarrow> findAsg (a_name a) b = Some a"
  by (simp add: findAsg_def find_name_distinct)

lemma updAsg_fields [simp]:
  "b_phash (updAsg g f b) = b_phash b" "b_uagList (updAsg g f b) = b_uagList b"
  "b_hagList (updAsg g f b) = b_hagList b" "groupKeys (updAsg g f b) = groupKeys b"
  "inGroup (updAsg g f b) nm h = inGroup b nm h" "base_ok (updAsg g f b) = base_ok b"
  by (simp_all add: updAsg_def groupKeys_def inGroup_def base_ok_def)

lemma updAsg_names:
  "(\<And>a. a_name (f a) = a_name a) \<Longrightarrow> map a_name (b_asgList (updAsg g f b)) = map a_name (b_asgList b)"
  by (auto simp: updAsg_def)

section \<open>The rights of one client\<close>

text \<open>The rights the configuration gives a client in a group.\<close>

definition rightsOf :: "'d asbase \<Rightarrow> 'd asg \<Rightarrow> asgclient \<Rightarrow> asAccessRights \<times> int" where
  "rightsOf b a c = (grantedAccess b (a_inpBad a) c (a_ruleList a), grantedTrap b (a_inpBad a) c (a_ruleList a))"

definition setRights :: "'d asbase \<Rightarrow> 'd asg \<Rightarrow> asgclient \<Rightarrow> asgclient" where
  "setRights b a c = c\<lparr>c_access := fst (rightsOf b a c), c_trapMask := snd (rightsOf b a c)\<rparr>"

definition hasRights :: "'d asbase \<Rightarrow> 'd asg \<Rightarrow> asgclient \<Rightarrow> bool" where
  "hasRights b a c \<longleftrightarrow> (c_access c, c_trapMask c) = rightsOf b a c"

text \<open>The call that tells a client its access has changed.\<close>

definition notice :: "addr \<Rightarrow> 'd asbase \<Rightarrow> 'd asg \<Rightarrow> asgclient \<Rightarrow> (addr \<times> addr) list" where
  "notice ca b a c =
     (case c_pcallback c of None \<Rightarrow> [] | Some f \<Rightarrow> if c_access c \<noteq> fst (rightsOf b a c) then [(f, ca)] else [])"

lemma matches_cong:
  "c_level c' = c_level c \<Longrightarrow> c_user c' = c_user c \<Longrightarrow> c_host c' = c_host c \<Longrightarrow>
   ruleMatches b n c' r = ruleMatches b n c r"
  by (simp add: ruleMatches_def)

lemma rightsOf_client:
  "c_level c' = c_level c \<Longrightarrow> c_user c' = c_user c \<Longrightarrow> c_host c' = c_host c \<Longrightarrow> rightsOf b a c' = rightsOf b a c"
  by (simp add: rightsOf_def grantedAccess_def grantedTrap_def matches_cong[of c' c])

lemma matches_updAsg [simp]: "ruleMatches (updAsg g f b) n c r = ruleMatches b n c r"
  by (simp add: ruleMatches_def)

lemma rightsOf_updAsg [simp]: "rightsOf (updAsg g f b) a c = rightsOf b a c"
  by (simp add: rightsOf_def grantedAccess_def grantedTrap_def)

lemma rightsOf_asg:
  "a_inpBad a' = a_inpBad a \<Longrightarrow> a_ruleList a' = a_ruleList a \<Longrightarrow> rightsOf b a' c = rightsOf b a c"
  by (simp add: rightsOf_def)

lemma rightsOf_setRights [simp]: "rightsOf b a (setRights b' a' c) = rightsOf b a c"
  by (rule rightsOf_client) (simp_all add: setRights_def)

lemma setRights_fields [simp]:
  "c_pasgMember (setRights b a c) = c_pasgMember c" "c_user (setRights b a c) = c_user c"
  "c_host (setRights b a c) = c_host c" "c_level (setRights b a c) = c_level c"
  "c_pcallback (setRights b a c) = c_pcallback c" "c_userPvt (setRights b a c) = c_userPvt c"
  by (simp_all add: setRights_def)

lemma hasRights_setRights [simp]: "hasRights b a (setRights b a c)"
  using rightsOf_setRights[of b a b a c] by (simp add: hasRights_def) (simp add: setRights_def)

lemma setRights_id: "hasRights b a c \<Longrightarrow> setRights b a c = c"
proof -
  assume "hasRights b a c"
  then have "fst (rightsOf b a c) = c_access c" "snd (rightsOf b a c) = c_trapMask c"
    unfolding hasRights_def by (metis fst_conv, metis snd_conv)
  then show ?thesis by (simp add: setRights_def)
qed

text \<open>The client is linked through its member to the group \<open>a\<close> of the installed configuration.\<close>

definition linked :: "'d asstate \<Rightarrow> addr \<Rightarrow> asgclient \<Rightarrow> 'd asbase \<Rightarrow> 'd asg \<Rightarrow> bool" where
  "linked st ca c b a \<longleftrightarrow> as_active st \<and> as_base st = Some b \<and> as_clients st ca = Some c
     \<and> (\<exists>ma mem g. c_pasgMember c = Some ma \<and> as_members st ma = Some mem \<and> m_pasg mem = Some g
          \<and> findAsg g b = Some a)"

lemma asComputePvt_linked:
  assumes "base_ok b" and "linked st ca c b a"
  shows "asComputePvt (Some ca) st = Some (S_ok,
    st\<lparr>as_clients := (as_clients st)(ca \<mapsto> setRights b a c), as_calls := as_calls st @ notice ca b a c\<rparr>)"
  using assms
  by (auto simp: linked_def asComputePvt_def ruleLoop_ok rightsOf_def setRights_def notice_def Let_def
      split: option.split)

section \<open>The clients of a member, the members of a group\<close>

definition recompute :: "'d asbase \<Rightarrow> 'd asg \<Rightarrow> addr set \<Rightarrow> (addr \<rightharpoonup> asgclient) \<Rightarrow> (addr \<rightharpoonup> asgclient)" where
  "recompute b a S m = (\<lambda>ca. if ca \<in> S then map_option (setRights b a) (m ca) else m ca)"

lemma recompute_dom [simp]: "recompute b a S m ca = None \<longleftrightarrow> m ca = None"
  by (simp add: recompute_def)

lemma recompute_empty [simp]: "recompute b a {} m = m"
  by (simp add: recompute_def)

lemma setRights_twice [simp]: "setRights b a (setRights b a c) = setRights b a c"
  by (rule setRights_id) simp

lemma map_option_setRights [simp]: "map_option (setRights b a) (map_option (setRights b a) x) = map_option (setRights b a) x"
  by (cases x) simp_all

lemma recompute_Un: "recompute b a S (recompute b a R m) = recompute b a (R \<union> S) m"
  by (auto simp: recompute_def fun_eq_iff)

lemma recompute_one: "m ca = Some c \<Longrightarrow> m(ca \<mapsto> setRights b a c) = recompute b a {ca} m"
  by (auto simp: recompute_def fun_eq_iff)

lemma recompute_Some:
  "recompute b a S m ca = Some c' \<longleftrightarrow> (\<exists>c. m ca = Some c \<and> c' = (if ca \<in> S then setRights b a c else c))"
  by (auto simp: recompute_def)

lemma computeClients_ok:
  assumes "base_ok b" and "as_active st" and "as_base st = Some b"
    and "as_members st ma = Some mem" and "m_pasg mem = Some g" and "findAsg g b = Some a"
    and "\<forall>ca \<in> set cs. \<exists>c. as_clients st ca = Some c \<and> c_pasgMember c = Some ma"
  shows "\<exists>calls. computeClients cs st = Some (st\<lparr>as_clients := recompute b a (set cs) (as_clients st),
     as_calls := as_calls st @ calls\<rparr>)"
  using assms(2-7)
proof (induction cs arbitrary: st)
  case Nil
  then show ?case by (auto intro: exI[of _ "[]"])
next
  case (Cons ca cs)
  obtain c where c: "as_clients st ca = Some c" "c_pasgMember c = Some ma" using Cons.prems(6) by auto
  have l: "linked st ca c b a" using Cons.prems c by (auto simp: linked_def)
  let ?st = "st\<lparr>as_clients := (as_clients st)(ca \<mapsto> setRights b a c), as_calls := as_calls st @ notice ca b a c\<rparr>"
  have "\<forall>ka \<in> set cs. \<exists>k. as_clients ?st ka = Some k \<and> c_pasgMember k = Some ma"
    using Cons.prems(6) c by auto
  then obtain calls where calls: "computeClients cs ?st = Some (?st\<lparr>as_clients := recompute b a (set cs) (as_clients ?st),
     as_calls := as_calls ?st @ calls\<rparr>)"
    using Cons.IH[of ?st, OF _ _ _ Cons.prems(4,5)] Cons.prems(1-3) by (simp del: fun_upd_apply) blast
  have "recompute b a (insert ca (set cs)) (as_clients st) = recompute b a (set cs) ((as_clients st)(ca \<mapsto> setRights b a c))"
    by (simp add: recompute_one[where m = "as_clients st", OF c(1)] recompute_Un)
  then show ?case
    using calls by (intro exI[of _ "notice ca b a c @ calls"]) (simp add: asComputePvt_linked[OF assms(1) l])
qed

text \<open>The members all belong to the group \<open>g\<close>, and their lists name clients of theirs.\<close>

definition owns :: "'d asstate \<Rightarrow> addr \<Rightarrow> asgmember \<Rightarrow> bool" where
  "owns st ma mem \<longleftrightarrow> (\<forall>ca \<in> set (m_clientList mem). \<exists>c. as_clients st ca = Some c \<and> c_pasgMember c = Some ma)"

definition groupOf :: "'d asstate \<Rightarrow> string \<Rightarrow> addr list \<Rightarrow> bool" where
  "groupOf st g ms \<longleftrightarrow>
     (\<forall>ma \<in> set ms. \<exists>mem. as_members st ma = Some mem \<and> m_pasg mem = Some g \<and> owns st ma mem)"

lemma recompute_owner: "m ca = Some c \<Longrightarrow> \<exists>c'. recompute b a S m ca = Some c' \<and> c_pasgMember c' = c_pasgMember c"
  by (simp add: recompute_def)

lemma owns_recompute: "owns st ma mem \<Longrightarrow> as_clients st' = recompute b a S (as_clients st) \<Longrightarrow> owns st' ma mem"
  unfolding owns_def using recompute_owner by metis

lemma groupOf_recompute:
  assumes "groupOf st g ms" and "as_clients st' = recompute b a S (as_clients st)" and "as_members st' = as_members st"
  shows "groupOf st' g ms"
  using assms(1) owns_recompute[OF _ assms(2)] by (auto simp: groupOf_def assms(3))

definition clientsOf :: "'d asstate \<Rightarrow> addr list \<Rightarrow> addr set" where
  "clientsOf st ms = {ca. \<exists>ma \<in> set ms. \<exists>mem. as_members st ma = Some mem \<and> ca \<in> set (m_clientList mem)}"

lemma computeMembers_ok:
  assumes "base_ok b" and "as_active st" and "as_base st = Some b" and "findAsg g b = Some a"
    and "groupOf st g ms"
  shows "\<exists>calls. computeMembers ms st = Some (st\<lparr>as_clients := recompute b a (clientsOf st ms) (as_clients st),
     as_calls := as_calls st @ calls\<rparr>)"
  using assms(2-5)
proof (induction ms arbitrary: st)
  case Nil
  then show ?case by (auto simp: clientsOf_def intro: exI[of _ "[]"])
next
  case (Cons ma ms)
  obtain mem where mem: "as_members st ma = Some mem" "m_pasg mem = Some g" "owns st ma mem"
    using Cons.prems(4) by (auto simp: groupOf_def)
  let ?S = "set (m_clientList mem)"
  obtain calls1 where 1: "computeClients (m_clientList mem) st =
      Some (st\<lparr>as_clients := recompute b a ?S (as_clients st), as_calls := as_calls st @ calls1\<rparr>)"
    using computeClients_ok[OF assms(1) Cons.prems(1,2) mem(1,2) Cons.prems(3) mem(3)[unfolded owns_def]]
    by blast
  let ?st = "st\<lparr>as_clients := recompute b a ?S (as_clients st), as_calls := as_calls st @ calls1\<rparr>"
  have "groupOf st g ms" using Cons.prems(4) by (simp add: groupOf_def)
  then have "groupOf ?st g ms" by (rule groupOf_recompute) simp_all
  then obtain calls2 where 2: "computeMembers ms ?st =
      Some (?st\<lparr>as_clients := recompute b a (clientsOf ?st ms) (as_clients ?st), as_calls := as_calls ?st @ calls2\<rparr>)"
    using Cons.IH[of ?st] Cons.prems by auto
  have "?S \<union> clientsOf ?st ms = clientsOf st (ma # ms)" using mem(1) by (auto simp: clientsOf_def)
  then show ?case
    using 1 2 mem(1) by (intro exI[of _ "calls1 @ calls2"]) (simp add: recompute_Un)
qed

end
