(* ===== verification/AsCa.thy ===== *)
theory AsCa
  imports AsRights
begin

text \<open>
  The channel access client of access security, \<open>base/src/as/asCa.c\<close>: the callbacks that bring the
  values of the inputs into the groups, and the start-up phase of its task. The calls into channel
  access (\<open>ca_state\<close>, \<open>ca_read_access\<close>, the event data) are the fields of \<open>caevent\<close>; the printing
  under \<open>asCaDebug\<close> is left out.
\<close>

section \<open>Callbacks\<close>

definition inpBit :: "int \<Rightarrow> int" where
  "inpBit ind = push_bit (nat ind) 1"

text \<open>What an event brings: its status, whether the channel is the one of the input, its state, the data.\<close>

record 'd caevent =
  ev_normal :: bool
  ev_sameChannel :: bool
  ev_connected :: bool
  ev_readAccess :: bool
  ev_invalid :: bool
  ev_value :: 'd

definition setAsg :: "string \<Rightarrow> ('d asg \<Rightarrow> 'd asg) \<Rightarrow> 'd asstate \<Rightarrow> 'd asstate option" where
  "setAsg g f st = do { b \<leftarrow> as_base st; Some (st\<lparr>as_base := Some (updAsg g f b)\<rparr>) }"

text \<open>The recomputation at the end of a callback, put off while the channels are being opened.\<close>

definition computeUnless :: "'d asenv \<Rightarrow> bool \<Rightarrow> string \<Rightarrow> 'd asstate \<Rightarrow> 'd asstate option" where
  "computeUnless env caInitializing g st =
     (if caInitializing then Some st else do { (_, st') \<leftarrow> asComputeAsg env g st; Some st' })"

text \<open>Mark an input bad that was good.\<close>

definition makeBad :: "'d asenv \<Rightarrow> bool \<Rightarrow> string \<Rightarrow> int \<Rightarrow> 'd asstate \<Rightarrow> 'd asstate option" where
  "makeBad env caInitializing g ind st = do {
     b \<leftarrow> as_base st;
     a \<leftarrow> findAsg g b;
     if a_inpBad a AND inpBit ind = 0
     then do {
       st1 \<leftarrow> setAsg g (\<lambda>a. a\<lparr>a_inpBad := a_inpBad a OR inpBit ind\<rparr>) st;
       computeUnless env caInitializing g st1 }
     else Some st }"

definition connectCallback :: "'d asenv \<Rightarrow> bool \<Rightarrow> string \<Rightarrow> int \<Rightarrow> bool \<Rightarrow> 'd asstate \<Rightarrow> 'd asstate option" where
  "connectCallback env caInitializing g ind connected st =
     (if connected then Some st else makeBad env caInitializing g ind st)"

definition eventCallback :: "'d asenv \<Rightarrow> bool \<Rightarrow> string \<Rightarrow> int \<Rightarrow> 'd caevent \<Rightarrow> 'd asstate \<Rightarrow> 'd asstate option" where
  "eventCallback env caInitializing g ind ev st =
     (if \<not> ev_normal ev then Some st
      else if \<not> ev_sameChannel ev then Some st
      else if \<not> ev_connected ev \<or> \<not> ev_readAccess ev then makeBad env caInitializing g ind st
      else do {
        st1 \<leftarrow> (if ev_invalid ev
                then setAsg g (\<lambda>a. a\<lparr>a_inpBad := a_inpBad a OR inpBit ind\<rparr>) st
                else setAsg g (\<lambda>a. a\<lparr>a_inpBad := a_inpBad a AND NOT (inpBit ind),
                                     a_pavalue := (a_pavalue a)(nat ind := ev_value ev)\<rparr>) st);
        st2 \<leftarrow> setAsg g (\<lambda>a. a\<lparr>a_inpChanged := a_inpChanged a OR inpBit ind\<rparr>) st1;
        computeUnless env caInitializing g st2 })"

section \<open>Opening the channels\<close>

text \<open>The callbacks channel access makes, each for the input \<open>ind\<close> of the group \<open>g\<close>.\<close>

datatype 'd cacall = Connection string int bool | Event string int "'d caevent"

fun caCallback :: "'d asenv \<Rightarrow> bool \<Rightarrow> 'd cacall \<Rightarrow> 'd asstate \<Rightarrow> 'd asstate option" where
  "caCallback env ini (Connection g ind connected) st = connectCallback env ini g ind connected st"
| "caCallback env ini (Event g ind ev) st = eventCallback env ini g ind ev st"

fun caCallbacks :: "'d asenv \<Rightarrow> bool \<Rightarrow> 'd cacall list \<Rightarrow> 'd asstate \<Rightarrow> 'd asstate option" where
  "caCallbacks env ini [] st = Some st"
| "caCallbacks env ini (e # es) st = do { st' \<leftarrow> caCallback env ini e st; caCallbacks env ini es st' }"

text \<open>
  One turn of the loops over the groups and their inputs: the input starts bad, then
  \<open>ca_search_and_connect\<close> and \<open>ca_add_event\<close> make whatever callbacks they make (\<open>calls\<close>, one list per
  input), perhaps for other inputs.
\<close>

fun openChannels :: "'d asenv \<Rightarrow> (string \<times> int) list \<Rightarrow> 'd cacall list list \<Rightarrow> 'd asstate \<Rightarrow> 'd asstate option" where
  "openChannels env [] calls st = Some st"
| "openChannels env ((g, ind) # chans) calls st = do {
     st1 \<leftarrow> setAsg g (\<lambda>a. a\<lparr>a_inpBad := a_inpBad a OR inpBit ind\<rparr>) st;
     st2 \<leftarrow> caCallbacks env True (case calls of [] \<Rightarrow> [] | es # _ \<Rightarrow> es) st1;
     openChannels env chans (tl calls) st2 }"

definition channelsOf :: "'d asbase \<Rightarrow> (string \<times> int) list" where
  "channelsOf b = concat (map (\<lambda>a. map (\<lambda>i. (a_name a, i_index i)) (a_inpList a)) (b_asgList b))"

definition asCaTaskStart :: "'d asenv \<Rightarrow> 'd cacall list list \<Rightarrow> 'd asstate \<Rightarrow> 'd asstate option" where
  "asCaTaskStart env calls st = do {
     b \<leftarrow> as_base st;
     st1 \<leftarrow> openChannels env (channelsOf b) calls st;
     (_, st2) \<leftarrow> asComputeAllAsg env st1;
     Some st2 }"

end
