(* ===== verification/AsOps.thy ===== *)
theory AsOps
  imports AsCa
begin

text \<open>
  The invariant of access security and its preservation. The maps of members and clients and the
  configuration are kept apart, so that each operation only shows how it changes them.
\<close>

section \<open>The invariant\<close>

text \<open>The group a member points to.\<close>

definition memGroup :: "(addr \<rightharpoonup> asgmember) \<Rightarrow> addr \<Rightarrow> string option" where
  "memGroup mems ma = Option.bind (mems ma) m_pasg"

definition base_wf :: "'d asbase \<Rightarrow> bool" where
  "base_wf b \<longleftrightarrow> base_ok b \<and> distinct (map a_name (b_asgList b)) \<and> findAsg ''DEFAULT'' b \<noteq> None"

text \<open>
  Clients and members point to each other: \<open>ls\<close> are the client lists of the members, \<open>owners\<close> the
  member pointers of the clients.
\<close>

definition linked_lists :: "(addr \<rightharpoonup> addr list) \<Rightarrow> (addr \<rightharpoonup> ptr) \<Rightarrow> bool" where
  "linked_lists ls owners \<longleftrightarrow>
     (\<forall>ma l. ls ma = Some l \<longrightarrow> distinct l \<and> (\<forall>ca \<in> set l. owners ca = Some (Some ma)))
   \<and> (\<forall>ca p. owners ca = Some p \<longrightarrow> (\<exists>ma l. p = Some ma \<and> ls ma = Some l \<and> ca \<in> set l))"

definition listsOf :: "(addr \<rightharpoonup> asgmember) \<Rightarrow> addr \<rightharpoonup> addr list" where
  "listsOf mems = (\<lambda>ma. map_option m_clientList (mems ma))"

definition ownersOf :: "(addr \<rightharpoonup> asgclient) \<Rightarrow> addr \<rightharpoonup> ptr" where
  "ownersOf cls = (\<lambda>ca. map_option c_pasgMember (cls ca))"

definition links :: "(addr \<rightharpoonup> asgmember) \<Rightarrow> (addr \<rightharpoonup> asgclient) \<Rightarrow> bool" where
  "links mems cls \<longleftrightarrow> linked_lists (listsOf mems) (ownersOf cls)"

text \<open>The members in \<open>M\<close>, and only they, are on the list of the group they point to, once.\<close>

definition seated :: "addr set \<Rightarrow> (addr \<rightharpoonup> asgmember) \<Rightarrow> 'd asbase \<Rightarrow> bool" where
  "seated M mems b \<longleftrightarrow> (\<forall>ma \<in> M. \<exists>g. memGroup mems ma = Some g \<and> findAsg g b \<noteq> None)
     \<and> (\<forall>g a. findAsg g b = Some a \<longrightarrow> distinct (a_memberList a)
          \<and> (\<forall>ma. ma \<in> set (a_memberList a) \<longleftrightarrow> ma \<in> M \<and> memGroup mems ma = Some g))"

text \<open>The rights of the clients of the members in \<open>M\<close>, for the groups in \<open>Q\<close>, are what the configuration gives.\<close>

definition current :: "string set \<Rightarrow> addr set \<Rightarrow> (addr \<rightharpoonup> asgmember) \<Rightarrow> (addr \<rightharpoonup> asgclient) \<Rightarrow> 'd asbase \<Rightarrow> bool" where
  "current Q M mems cls b \<longleftrightarrow> (\<forall>ca c ma g a. cls ca = Some c \<longrightarrow> c_pasgMember c = Some ma \<longrightarrow> ma \<in> M \<longrightarrow>
     memGroup mems ma = Some g \<longrightarrow> g \<in> Q \<longrightarrow> findAsg g b = Some a \<longrightarrow> hasRights b a c)"

definition as_struct :: "addr set \<Rightarrow> 'd asbase \<Rightarrow> 'd asstate \<Rightarrow> bool" where
  "as_struct M b st \<longleftrightarrow> as_active st \<and> as_base st = Some b \<and> base_wf b
     \<and> links (as_members st) (as_clients st) \<and> seated M (as_members st) b"

definition as_inv :: "'d asstate \<Rightarrow> bool" where
  "as_inv st \<longleftrightarrow> (\<exists>b. as_struct (dom (as_members st)) b st
     \<and> current UNIV (dom (as_members st)) (as_members st) (as_clients st) b)"

lemma base_wf_updAsg:
  "(\<And>a. a_name (f a) = a_name a) \<Longrightarrow> base_wf (updAsg g f b) = base_wf b"
  unfolding base_wf_def by (simp add: updAsg_names findAsg_updAsg)

lemma seated_found: "seated M mems b \<Longrightarrow> ma \<in> M \<Longrightarrow> memGroup mems ma = Some g \<Longrightarrow> \<exists>a. findAsg g b = Some a"
  unfolding seated_def by (metis not_None_eq option.inject)

lemma memGroup_upd: "memGroup (mems(ma \<mapsto> mem)) k = (if k = ma then m_pasg mem else memGroup mems k)"
  by (simp add: memGroup_def)

lemma memGroup_same:
  "mems ma = Some mem \<Longrightarrow> m_pasg mem' = m_pasg mem \<Longrightarrow> memGroup (mems(ma \<mapsto> mem')) = memGroup mems"
  by (auto simp: memGroup_def fun_eq_iff)

section \<open>How updates change the parts\<close>

lemma linked_listsI:
  assumes "\<And>ma l. ls ma = Some l \<Longrightarrow> distinct l"
    and "\<And>ma l ca. ls ma = Some l \<Longrightarrow> ca \<in> set l \<Longrightarrow> owners ca = Some (Some ma)"
    and "\<And>ca p. owners ca = Some p \<Longrightarrow> \<exists>ma l. p = Some ma \<and> ls ma = Some l \<and> ca \<in> set l"
  shows "linked_lists ls owners"
  using assms unfolding linked_lists_def by blast

lemma linked_listsD:
  assumes "linked_lists ls owners"
  shows "ls ma = Some l \<Longrightarrow> distinct l"
    and "ls ma = Some l \<Longrightarrow> ca \<in> set l \<Longrightarrow> owners ca = Some (Some ma)"
    and "owners ca = Some p \<Longrightarrow> \<exists>ma l. p = Some ma \<and> ls ma = Some l \<and> ca \<in> set l"
  using assms unfolding linked_lists_def by blast+

lemma linked_lists_newList: "linked_lists ls owners \<Longrightarrow> ls ma = None \<Longrightarrow> linked_lists (ls(ma \<mapsto> [])) owners"
  using linked_listsD by (intro linked_listsI) (auto split: if_splits; metis option.distinct(1))+

lemma linked_lists_delList:
  assumes l: "linked_lists ls owners" and e: "ls ma = Some []"
  shows "linked_lists (ls(ma := None)) owners"
proof (rule linked_listsI)
  fix ca p assume "owners ca = Some p"
  then obtain k l where k: "p = Some k" "ls k = Some l" "ca \<in> set l" using linked_listsD(3)[OF l] by blast
  then have "k \<noteq> ma" using e by auto
  then show "\<exists>ma' l. p = Some ma' \<and> (ls(ma := None)) ma' = Some l \<and> ca \<in> set l" using k by auto
qed (use linked_listsD[OF l] in \<open>auto split: if_splits\<close>)

lemma linked_lists_add:
  assumes l: "linked_lists ls owners" and m: "ls ma = Some xs" and n: "owners ca = None"
  shows "linked_lists (ls(ma \<mapsto> xs @ [ca])) (owners(ca \<mapsto> Some ma))"
proof (rule linked_listsI)
  have new: "ca \<notin> set l" if "ls k = Some l" for k l
    using linked_listsD(2)[OF \<open>linked_lists ls owners\<close> that] n by fastforce
  fix k l assume k: "(ls(ma \<mapsto> xs @ [ca])) k = Some l"
  show "distinct l"
    using k new[OF m] linked_listsD(1)[OF assms(1)] m by (auto split: if_splits)
  fix x assume "x \<in> set l"
  then show "(owners(ca \<mapsto> Some ma)) x = Some (Some k)"
    using k new linked_listsD(2)[OF assms(1)] m by (auto split: if_splits)
next
  fix x p assume x: "(owners(ca \<mapsto> Some ma)) x = Some p"
  show "\<exists>k l. p = Some k \<and> (ls(ma \<mapsto> xs @ [ca])) k = Some l \<and> x \<in> set l"
  proof (cases "x = ca")
    case False
    then obtain k l where "p = Some k" "ls k = Some l" "x \<in> set l"
      using x linked_listsD(3)[OF assms(1), of x p] by auto
    then show ?thesis using m by (cases "k = ma") auto
  qed (use x in auto)
qed

lemma linked_lists_remove:
  assumes l: "linked_lists ls owners" and m: "ls ma = Some xs" and o: "owners ca = Some (Some ma)"
  shows "linked_lists (ls(ma \<mapsto> remove1 ca xs)) (owners(ca := None))"
proof (rule linked_listsI)
  have d: "distinct xs" by (rule linked_listsD(1)[OF l m])
  have other: "ca \<notin> set l" if "ls k = Some l" "k \<noteq> ma" for k l
    using linked_listsD(2)[OF \<open>linked_lists ls owners\<close> that(1), of ca] o that(2) by auto
  fix k l assume k: "(ls(ma \<mapsto> remove1 ca xs)) k = Some l"
  show "distinct l" using k d linked_listsD(1)[OF assms(1)] by (auto split: if_splits)
  fix x assume "x \<in> set l"
  then show "(owners(ca := None)) x = Some (Some k)"
    using k d m other linked_listsD(2)[OF assms(1)] by (auto split: if_splits)
next
  fix x p assume "(owners(ca := None)) x = Some p"
  then have x: "x \<noteq> ca" "owners x = Some p" by (auto split: if_splits)
  then obtain k l where "p = Some k" "ls k = Some l" "x \<in> set l"
    using linked_listsD(3)[OF assms(1), of x p] by auto
  then show "\<exists>k l. p = Some k \<and> (ls(ma \<mapsto> remove1 ca xs)) k = Some l \<and> x \<in> set l"
    using x(1) m by (cases "k = ma") auto
qed

lemma listsOf_upd [simp]: "listsOf (mems(ma \<mapsto> mem)) = (listsOf mems)(ma \<mapsto> m_clientList mem)"
  "listsOf (mems(ma := None)) = (listsOf mems)(ma := None)"
  by (auto simp: listsOf_def fun_eq_iff)

lemma ownersOf_upd [simp]: "ownersOf (cls(ca \<mapsto> c)) = (ownersOf cls)(ca \<mapsto> c_pasgMember c)"
  "ownersOf (cls(ca := None)) = (ownersOf cls)(ca := None)"
  by (auto simp: ownersOf_def fun_eq_iff)

lemma ownersOf_recompute [simp]: "ownersOf (recompute b a S cls) = ownersOf cls"
  by (auto simp: ownersOf_def recompute_def fun_eq_iff option.map_comp comp_def)

lemma links_recompute [simp]: "links mems (recompute b a S cls) = links mems cls"
  by (simp add: links_def)

lemma links_client:
  "cls ca = Some c \<Longrightarrow> c_pasgMember c' = c_pasgMember c \<Longrightarrow> links mems (cls(ca \<mapsto> c')) = links mems cls"
proof -
  assume "cls ca = Some c" "c_pasgMember c' = c_pasgMember c"
  then have "ownersOf (cls(ca \<mapsto> c')) = ownersOf cls" by (auto simp: ownersOf_def fun_eq_iff)
  then show ?thesis by (simp only: links_def)
qed

lemma links_member:
  "mems ma = Some mem \<Longrightarrow> m_clientList mem' = m_clientList mem \<Longrightarrow> links (mems(ma \<mapsto> mem')) cls = links mems cls"
proof -
  assume "mems ma = Some mem" "m_clientList mem' = m_clientList mem"
  then have "listsOf (mems(ma \<mapsto> mem')) = listsOf mems" by (auto simp: listsOf_def fun_eq_iff)
  then show ?thesis by (simp only: links_def)
qed

lemma links_newMember:
  "links mems cls \<Longrightarrow> mems ma = None \<Longrightarrow> m_clientList mem = [] \<Longrightarrow> links (mems(ma \<mapsto> mem)) cls"
  using linked_lists_newList[of "listsOf mems"] by (simp add: links_def) (simp add: listsOf_def)

lemma links_delMember:
  "links mems cls \<Longrightarrow> mems ma = Some mem \<Longrightarrow> m_clientList mem = [] \<Longrightarrow> links (mems(ma := None)) cls"
  using linked_lists_delList[of "listsOf mems"] by (simp add: links_def) (simp add: listsOf_def)

lemma links_addClient:
  assumes "links mems cls" and "mems ma = Some mem" and "cls ca = None" and "c_pasgMember c = Some ma"
    and "m_clientList mem' = m_clientList mem @ [ca]"
  shows "links (mems(ma \<mapsto> mem')) (cls(ca \<mapsto> c))"
  using linked_lists_add[of "listsOf mems" "ownersOf cls" ma "m_clientList mem" ca] assms
  by (simp add: links_def) (simp add: listsOf_def ownersOf_def)

lemma links_delClient:
  assumes "links mems cls" and "cls ca = Some c" and "c_pasgMember c = Some ma" and "mems ma = Some mem"
    and "m_clientList mem' = remove1 ca (m_clientList mem)"
  shows "links (mems(ma \<mapsto> mem')) (cls(ca := None))"
  using linked_lists_remove[of "listsOf mems" "ownersOf cls" ma "m_clientList mem" ca] assms
  by (simp add: links_def) (simp add: listsOf_def ownersOf_def)

lemma links_owns: "links mems cls \<Longrightarrow> as_clients st = cls \<Longrightarrow> mems ma = Some mem \<Longrightarrow> owns st ma mem"
  using linked_listsD(2)[of "listsOf mems" "ownersOf cls" ma "m_clientList mem"]
  by (auto simp: links_def owns_def listsOf_def ownersOf_def)

lemma links_listed:
  "links mems cls \<Longrightarrow> cls ca = Some c \<Longrightarrow> c_pasgMember c = Some ma \<Longrightarrow> \<exists>mem. mems ma = Some mem \<and> ca \<in> set (m_clientList mem)"
  using linked_listsD(3)[of "listsOf mems" "ownersOf cls" ca "c_pasgMember c"]
  by (auto simp: links_def listsOf_def ownersOf_def)

lemma links_owner: "links mems cls \<Longrightarrow> cls ca = Some c \<Longrightarrow> \<exists>ma mem. c_pasgMember c = Some ma \<and> mems ma = Some mem"
  using linked_listsD(3)[of "listsOf mems" "ownersOf cls" ca "c_pasgMember c"]
  by (auto simp: links_def listsOf_def ownersOf_def)

text \<open>Members and groups.\<close>

lemma seated_cong:
  "\<forall>ma \<in> M. memGroup mems' ma = memGroup mems ma \<Longrightarrow> seated M mems' b = seated M mems b"
  unfolding seated_def by auto

lemma seated_D:
  assumes "seated M mems b" and "findAsg g b = Some a"
  shows "distinct (a_memberList a)" "ma \<in> set (a_memberList a) \<longleftrightarrow> ma \<in> M \<and> memGroup mems ma = Some g"
  using assms unfolding seated_def by blast+

lemma seated_updAsg:
  assumes n: "\<And>a. a_name (f a) = a_name a" and l: "\<And>a. a_memberList (f a) = a_memberList a"
    and s: "seated M mems b"
  shows "seated M mems (updAsg g f b)"
  unfolding seated_def
proof (intro conjI allI impI ballI)
  fix k assume "k \<in> M"
  then show "\<exists>h. memGroup mems k = Some h \<and> findAsg h (updAsg g f b) \<noteq> None"
    using s unfolding seated_def by (simp add: findAsg_updAsg[OF n])
next
  fix h x assume "findAsg h (updAsg g f b) = Some x"
  then obtain y where y: "findAsg h b = Some y" "a_memberList x = a_memberList y"
    using l by (auto simp: findAsg_updAsg[OF n])
  show "distinct (a_memberList x)" using seated_D(1)[OF s y(1)] y(2) by simp
  fix k show "k \<in> set (a_memberList x) \<longleftrightarrow> k \<in> M \<and> memGroup mems k = Some h"
    using seated_D(2)[OF s y(1)] y(2) by simp
qed

lemma seated_add:
  assumes s: "seated M mems b" and n: "ma \<notin> M" and g: "findAsg g b = Some a" "m_pasg mem = Some g"
  shows "seated (insert ma M) (mems(ma \<mapsto> mem)) (updAsg g (\<lambda>a. a\<lparr>a_memberList := a_memberList a @ [ma]\<rparr>) b)"
  unfolding seated_def
proof (intro conjI allI impI ballI)
  fix k assume "k \<in> insert ma M"
  then show "\<exists>h. memGroup (mems(ma \<mapsto> mem)) k = Some h
      \<and> findAsg h (updAsg g (\<lambda>a. a\<lparr>a_memberList := a_memberList a @ [ma]\<rparr>) b) \<noteq> None"
    using s g unfolding seated_def by (auto simp: memGroup_upd findAsg_updAsg)
next
  fix h x assume h: "findAsg h (updAsg g (\<lambda>a. a\<lparr>a_memberList := a_memberList a @ [ma]\<rparr>) b) = Some x"
  then obtain y where y: "findAsg h b = Some y" "x = (if h = g then y\<lparr>a_memberList := a_memberList y @ [ma]\<rparr> else y)"
    by (auto simp: findAsg_updAsg)
  have ny: "ma \<notin> set (a_memberList y)" using seated_D(2)[OF s y(1)] n by simp
  show "distinct (a_memberList x)" using seated_D(1)[OF s y(1)] ny by (simp add: y(2))
  fix k show "k \<in> set (a_memberList x) \<longleftrightarrow> k \<in> insert ma M \<and> memGroup (mems(ma \<mapsto> mem)) k = Some h"
    using seated_D(2)[OF s y(1), of k] n g(2) by (auto simp: y(2) memGroup_upd)
qed

lemma seated_remove:
  assumes s: "seated M mems b" and m: "memGroup mems ma = Some g"
  shows "seated (M - {ma}) mems (updAsg g (\<lambda>a. a\<lparr>a_memberList := remove1 ma (a_memberList a)\<rparr>) b)"
  unfolding seated_def
proof (intro conjI allI impI ballI)
  fix k assume "k \<in> M - {ma}"
  then show "\<exists>h. memGroup mems k = Some h
      \<and> findAsg h (updAsg g (\<lambda>a. a\<lparr>a_memberList := remove1 ma (a_memberList a)\<rparr>) b) \<noteq> None"
    using s unfolding seated_def by (simp add: findAsg_updAsg)
next
  fix h x assume h: "findAsg h (updAsg g (\<lambda>a. a\<lparr>a_memberList := remove1 ma (a_memberList a)\<rparr>) b) = Some x"
  then obtain y where y: "findAsg h b = Some y" "x = (if h = g then y\<lparr>a_memberList := remove1 ma (a_memberList y)\<rparr> else y)"
    by (auto simp: findAsg_updAsg)
  have d: "distinct (a_memberList y)" by (rule seated_D(1)[OF s y(1)])
  then show "distinct (a_memberList x)" by (simp add: y(2))
  fix k show "k \<in> set (a_memberList x) \<longleftrightarrow> k \<in> M - {ma} \<and> memGroup mems k = Some h"
    using seated_D(2)[OF s y(1), of k] d m by (auto simp: y(2))
qed

text \<open>Currency of the rights.\<close>

lemma currentI:
  assumes "\<And>ca c ma g a. cls ca = Some c \<Longrightarrow> c_pasgMember c = Some ma \<Longrightarrow> ma \<in> M \<Longrightarrow>
     memGroup mems ma = Some g \<Longrightarrow> g \<in> Q \<Longrightarrow> findAsg g b = Some a \<Longrightarrow> hasRights b a c"
  shows "current Q M mems cls b"
  using assms unfolding current_def by blast

lemma currentD:
  "current Q M mems cls b \<Longrightarrow> cls ca = Some c \<Longrightarrow> c_pasgMember c = Some ma \<Longrightarrow> ma \<in> M \<Longrightarrow>
     memGroup mems ma = Some g \<Longrightarrow> g \<in> Q \<Longrightarrow> findAsg g b = Some a \<Longrightarrow> hasRights b a c"
  unfolding current_def by blast

lemma current_mono: "current Q M mems cls b \<Longrightarrow> Q' \<subseteq> Q \<Longrightarrow> M' \<subseteq> M \<Longrightarrow> current Q' M' mems cls b"
  unfolding current_def by blast

lemma current_cong:
  "current Q M mems cls b \<Longrightarrow> \<forall>ma \<in> M. memGroup mems' ma = memGroup mems ma \<Longrightarrow> current Q M mems' cls b"
  unfolding current_def by metis

lemma hasRights_asg:
  "a_inpBad a' = a_inpBad a \<Longrightarrow> a_ruleList a' = a_ruleList a \<Longrightarrow> hasRights b a' c = hasRights b a c"
  by (simp add: hasRights_def rightsOf_asg[of a' a])

lemma hasRights_updAsg [simp]: "hasRights (updAsg g f b) a c = hasRights b a c"
  by (simp add: hasRights_def)

text \<open>A change of the group \<open>g\<close> that keeps rules and inputs, or one in a group that does not matter.\<close>

lemma current_updAsg:
  assumes n: "\<And>a. a_name (f a) = a_name a"
    and k: "g \<in> Q \<Longrightarrow> \<forall>a. a_inpBad (f a) = a_inpBad a \<and> a_ruleList (f a) = a_ruleList a"
    and c: "current Q M mems cls b"
  shows "current Q M mems cls (updAsg g f b)"
proof (rule currentI)
  fix ca c ma h x assume h: "cls ca = Some c" "c_pasgMember c = Some ma" "ma \<in> M" "memGroup mems ma = Some h"
    "h \<in> Q" "findAsg h (updAsg g f b) = Some x"
  then obtain y where y: "findAsg h b = Some y" "x = (if h = g then f y else y)"
    by (auto simp: findAsg_updAsg[OF n])
  have "hasRights b x c = hasRights b y c" using k h(5) y(2) hasRights_asg[of x y] by auto
  then show "hasRights (updAsg g f b) x c" using currentD[OF c h(1-5) y(1)] by simp
qed

lemma current_client:
  assumes c: "current Q M mems cls b"
    and r: "\<And>ma g a. c_pasgMember c' = Some ma \<Longrightarrow> ma \<in> M \<Longrightarrow> memGroup mems ma = Some g \<Longrightarrow> g \<in> Q \<Longrightarrow>
       findAsg g b = Some a \<Longrightarrow> hasRights b a c'"
  shows "current Q M mems (cls(ca \<mapsto> c')) b"
proof (rule currentI)
  fix k c'' ma g a assume "(cls(ca \<mapsto> c')) k = Some c''" "c_pasgMember c'' = Some ma" "ma \<in> M"
    "memGroup mems ma = Some g" "g \<in> Q" "findAsg g b = Some a"
  then show "hasRights b a c''" using currentD[OF c] r by (cases "k = ca") auto
qed

lemma current_delClient: "current Q M mems cls b \<Longrightarrow> current Q M mems (cls(ca := None)) b"
  unfolding current_def by (auto split: if_splits)

text \<open>Recomputing every client of the members of \<open>N\<close> in the group \<open>g\<close> makes them current.\<close>

lemma current_recompute:
  assumes c: "current Q M mems cls b" and g: "findAsg g b = Some a"
    and cov: "\<And>ca c ma. cls ca = Some c \<Longrightarrow> c_pasgMember c = Some ma \<Longrightarrow> ma \<in> N \<Longrightarrow> memGroup mems ma = Some g \<Longrightarrow> ca \<in> S"
    and tgt: "\<And>ma h. ma \<in> M' \<Longrightarrow> memGroup mems ma = Some h \<Longrightarrow> h \<in> Q' \<Longrightarrow> ma \<in> N \<and> h = g \<or> ma \<in> M \<and> h \<in> Q"
    and own: "\<And>ca c. ca \<in> S \<Longrightarrow> cls ca = Some c \<Longrightarrow> \<exists>ma. c_pasgMember c = Some ma \<and> memGroup mems ma = Some g"
  shows "current Q' M' mems (recompute b a S cls) b"
proof (rule currentI)
  fix ca c' ma h x assume h: "recompute b a S cls ca = Some c'" "c_pasgMember c' = Some ma" "ma \<in> M'"
    "memGroup mems ma = Some h" "h \<in> Q'" "findAsg h b = Some x"
  then obtain c where c0: "cls ca = Some c" "c' = (if ca \<in> S then setRights b a c else c)"
    by (auto simp: recompute_Some)
  then have p: "c_pasgMember c = Some ma" using h(2) by (simp split: if_splits)
  show "hasRights b x c'"
  proof (cases "ca \<in> S")
    case True
    then have "h = g" using own[OF True c0(1)] p h(4) by auto
    then show ?thesis using True c0(2) g h(6) by simp
  next
    case False
    then have "\<not> (ma \<in> N \<and> h = g)" using cov[OF c0(1) p] h(4) by blast
    then have "ma \<in> M" "h \<in> Q" using tgt[OF h(3-5)] by blast+
    then show ?thesis using currentD[OF c c0(1) p _ h(4) _ h(6)] False c0(2) by simp
  qed
qed

end
