(* ===== verification/AsInv.thy ===== *)
theory AsInv
  imports AsOps
begin

text \<open>
  Every operation of access security keeps the invariant of \<open>AsOps\<close>: one lemma per operation, each
  saying that the call returns, that the mutex is released, and what the new state is.
\<close>

section \<open>Moving members\<close>

text \<open>Two configurations that differ in their member lists at most.\<close>

definition bare :: "'d asg \<Rightarrow> 'd asg" where
  "bare a = a\<lparr>a_memberList := []\<rparr>"

definition sameRules :: "'d asbase \<Rightarrow> 'd asbase \<Rightarrow> bool" where
  "sameRules b b' \<longleftrightarrow> b_uagList b' = b_uagList b \<and> b_hagList b' = b_hagList b \<and> b_phash b' = b_phash b
     \<and> map bare (b_asgList b') = map bare (b_asgList b)"

text \<open>Configurations with the same rules have the same groups.\<close>

lemma sameRules_names: "sameRules b b' \<Longrightarrow> map a_name (b_asgList b') = map a_name (b_asgList b)"
proof -
  assume "sameRules b b'"
  then have "map a_name (map bare (b_asgList b')) = map a_name (map bare (b_asgList b))" by (simp add: sameRules_def)
  then show ?thesis by (simp add: bare_def comp_def)
qed

lemma findAsg_None: "findAsg g b = None \<longleftrightarrow> g \<notin> set (map a_name (b_asgList b))"
  by (auto simp: findAsg_def find_None_iff)

lemma sameRules_group: "sameRules b b' \<Longrightarrow> memberGroup nm b' = memberGroup nm b"
  by (simp only: memberGroup_def findAsg_None sameRules_names)

text \<open>A client but for the rights computed for it.\<close>

definition sansRights :: "asgclient \<Rightarrow> asgclient" where
  "sansRights c = c\<lparr>c_access := asNOACCESS, c_trapMask := 0\<rparr>"

lemma sansRights_recompute: "map_option sansRights (recompute b a S m ca) = map_option sansRights (m ca)"
  by (cases "m ca") (simp_all add: recompute_def setRights_def sansRights_def)

lemma sameRules_trans: "sameRules b b' \<Longrightarrow> sameRules b' b'' \<Longrightarrow> sameRules b b''"
  by (simp add: sameRules_def)

lemma sameRules_updAsg: "(\<And>a. bare (f a) = bare a) \<Longrightarrow> sameRules b (updAsg g f b)"
  by (auto simp: sameRules_def updAsg_def)

lemma base_wf_memberGroup:
  "base_wf b \<Longrightarrow> \<exists>g a. memberGroup nm b = Some g \<and> findAsg g b = Some a"
  by (auto simp: base_wf_def memberGroup_def)

lemma as_structD:
  assumes "as_struct M b st"
  shows "as_active st" "as_base st = Some b" "base_wf b" "base_ok b"
    "links (as_members st) (as_clients st)" "seated M (as_members st) b"
  using assms by (simp_all add: as_struct_def base_wf_def)

lemma asAddMemberPvt_ok:
  assumes st: "as_struct M b st" and m: "as_members st ma = Some mem" "ma \<notin> M"
    and c: "current Q M (as_members st) (as_clients st) b"
  shows "\<exists>b' st'. asAddMemberPvt x (Some ma) nm st = Some (S_ok, Some ma, st')
    \<and> as_struct (insert ma M) b' st' \<and> current Q (insert ma M) (as_members st') (as_clients st') b'
    \<and> as_members st' = (as_members st)(ma \<mapsto> mem\<lparr>m_asgName := nm, m_pasg := memberGroup nm b\<rparr>)
    \<and> sameRules b b' \<and> as_lock st' = as_lock st
    \<and> (\<forall>ca. map_option sansRights (as_clients st' ca) = map_option sansRights (as_clients st ca))"
proof -
  note s = as_structD[OF st]
  obtain g a where g: "memberGroup nm b = Some g" "findAsg g b = Some a" using base_wf_memberGroup[OF s(3)] by blast
  define f where "f = (\<lambda>a :: 'a asg. a\<lparr>a_memberList := a_memberList a @ [ma]\<rparr>)"
  define b' where "b' = updAsg g f b"
  define mem' where "mem' = mem\<lparr>m_asgName := nm, m_pasg := Some g\<rparr>"
  define mems where "mems = (as_members st)(ma \<mapsto> mem')"
  have fn: "\<And>a. a_name (f a) = a_name a" by (simp add: f_def)
  have fb': "findAsg g b' = Some (f a)" using g(2) by (simp add: b'_def findAsg_updAsg[OF fn])
  have l': "links mems (as_clients st)"
    using s(5) links_member[where mems = "as_members st" and ma = ma and mem = mem and mem' = mem'] m(1) by (simp add: mems_def mem'_def)
  have own: "\<forall>ca \<in> set (m_clientList mem). \<exists>c. as_clients st ca = Some c \<and> c_pasgMember c = Some ma"
    using links_owns[OF s(5) refl m(1)] by (simp add: owns_def)
  let ?st1 = "st\<lparr>as_members := mems, as_base := Some b'\<rparr>"
  let ?S = "set (m_clientList mem)"
  obtain calls where calls: "computeClients (m_clientList mem) ?st1 =
      Some (?st1\<lparr>as_clients := recompute b' (f a) ?S (as_clients st), as_calls := as_calls st @ calls\<rparr>)"
    using computeClients_ok[of b' ?st1 ma mem' g "f a" "m_clientList mem"] own s(1,4) fb'
    by (auto simp: b'_def mems_def mem'_def)
  let ?st' = "?st1\<lparr>as_clients := recompute b' (f a) ?S (as_clients st), as_calls := as_calls st @ calls\<rparr>"
  have run: "asAddMemberPvt x (Some ma) nm st = Some (S_ok, Some ma, ?st')"
    using calls s(2) m(1) g(1) by (simp add: asAddMemberPvt_def Let_def b'_def mems_def mem'_def f_def)
  have seat: "seated (insert ma M) mems b'"
    unfolding mems_def b'_def f_def by (rule seated_add[OF s(6) m(2) g(2)]) (simp add: mem'_def)
  have cur0: "current Q M mems (as_clients st) b'"
  proof -
    have "current Q M mems (as_clients st) b"
      by (rule current_cong[OF c]) (use m(2) in \<open>auto simp: mems_def memGroup_upd\<close>)
    then show ?thesis unfolding b'_def by (intro current_updAsg) (simp_all add: f_def)
  qed
  have cur: "current Q (insert ma M) mems (recompute b' (f a) ?S (as_clients st)) b'"
  proof (rule current_recompute[OF cur0 fb', where N = "{ma}"])
    fix ca c k assume "as_clients st ca = Some c" "c_pasgMember c = Some k" "k \<in> {ma}"
    then show "ca \<in> ?S" using links_listed[OF s(5)] m(1) by fastforce
  next
    fix k h assume "k \<in> insert ma M" "memGroup mems k = Some h" "h \<in> Q"
    then show "k \<in> {ma} \<and> h = g \<or> k \<in> M \<and> h \<in> Q" by (auto simp: mems_def memGroup_upd mem'_def)
  next
    fix ca c assume "ca \<in> ?S" "as_clients st ca = Some c"
    then show "\<exists>k. c_pasgMember c = Some k \<and> memGroup mems k = Some g"
      using own by (auto simp: mems_def memGroup_upd mem'_def)
  qed
  have "as_struct (insert ma M) b' ?st'"
    using s(1,3) l' seat base_wf_updAsg[OF fn] by (simp add: as_struct_def b'_def)
  moreover have "sameRules b b'" unfolding b'_def by (rule sameRules_updAsg) (simp add: bare_def f_def)
  ultimately show ?thesis
    using run cur g(1) by (intro exI[of _ b'] exI[of _ ?st']) (simp add: mems_def mem'_def sansRights_recompute)
qed

text \<open>A new member is one without clients that exists already.\<close>

lemma asAddMemberPvt_new:
  "asAddMemberPvt new None nm st = asAddMemberPvt x (Some new) nm (st\<lparr>as_members := (as_members st)(new \<mapsto> newMember)\<rparr>)"
  by (simp add: asAddMemberPvt_def Let_def cong: option.case_cong)

lemma as_struct_lock [simp]: "as_struct M b (LOCK st) = as_struct M b st" "as_struct M b (UNLOCK st) = as_struct M b st"
  by (simp_all add: as_struct_def LOCK_def UNLOCK_def)

lemma lock_fields [simp]:
  "as_members (LOCK st) = as_members st" "as_clients (LOCK st) = as_clients st" "as_base (LOCK st) = as_base st"
  "as_active (LOCK st) = as_active st" "as_calls (LOCK st) = as_calls st" "as_seed (LOCK st) = as_seed st"
  "as_members (UNLOCK st) = as_members st" "as_clients (UNLOCK st) = as_clients st" "as_base (UNLOCK st) = as_base st"
  "as_active (UNLOCK st) = as_active st" "as_calls (UNLOCK st) = as_calls st" "as_seed (UNLOCK st) = as_seed st"
  "as_lock (LOCK st) = as_lock st + 1" "as_lock (UNLOCK st) = as_lock st - 1"
  by (simp_all add: LOCK_def UNLOCK_def)

lemma as_invD:
  assumes "as_inv st"
  obtains b where "as_struct (dom (as_members st)) b st"
    "current UNIV (dom (as_members st)) (as_members st) (as_clients st) b"
  using assms as_inv_def by blast

lemma as_invI:
  "as_struct M b st \<Longrightarrow> M = dom (as_members st) \<Longrightarrow> current UNIV M (as_members st) (as_clients st) b \<Longrightarrow> as_inv st"
  by (auto simp: as_inv_def)

lemma asAddMember_inv:
  assumes "as_inv st" and "as_members st new = None"
  shows "\<exists>st'. asAddMember new None nm st = Some (S_ok, Some new, st') \<and> as_inv st' \<and> as_lock st' = as_lock st"
proof -
  obtain b where b: "as_struct (dom (as_members st)) b st"
      "current UNIV (dom (as_members st)) (as_members st) (as_clients st) b" using as_invD[OF assms(1)] .
  note s = as_structD[OF b(1)]
  let ?st1 = "(LOCK st)\<lparr>as_members := (as_members st)(new \<mapsto> newMember)\<rparr>"
  let ?M = "dom (as_members st)"
  have same: "\<forall>ma \<in> ?M. memGroup ((as_members st)(new \<mapsto> newMember)) ma = memGroup (as_members st) ma"
    using assms(2) by (auto simp: memGroup_upd)
  have 1: "as_struct ?M b ?st1"
    using s seated_cong[OF same, of b] links_newMember[OF s(5) assms(2), of newMember]
    by (simp add: as_struct_def LOCK_def newMember_def)
  have 2: "current UNIV ?M (as_members ?st1) (as_clients ?st1) b"
    using current_cong[OF b(2) same] by simp
  have nd: "new \<notin> ?M" using assms(2) by blast
  obtain b' st' where r: "asAddMemberPvt new (Some new) nm ?st1 = Some (S_ok, Some new, st')"
    "as_struct (insert new ?M) b' st'" "current UNIV (insert new ?M) (as_members st') (as_clients st') b'"
    "as_members st' = (as_members ?st1)(new \<mapsto> newMember\<lparr>m_asgName := nm, m_pasg := memberGroup nm b\<rparr>)"
    "as_lock st' = as_lock ?st1"
    using asAddMemberPvt_ok[OF 1 _ nd 2, of newMember new nm] by auto
  have "asAddMemberPvt new None nm (LOCK st) = Some (S_ok, Some new, st')"
    using r(1) asAddMemberPvt_new[of new nm "LOCK st" new] by simp
  then have "asAddMember new None nm st = Some (S_ok, Some new, UNLOCK st')" using s(1) by (simp add: asAddMember_def)
  moreover have "as_inv (UNLOCK st')" using r(2-4) by (intro as_invI[of "insert new ?M" b']) auto
  ultimately show ?thesis using r(5) by auto
qed

lemma bare_memberList [simp]: "bare (a\<lparr>a_memberList := l\<rparr>) = bare a"
  by (simp add: bare_def)

lemma unlinkMember_ok:
  assumes st: "as_struct M b st" and g: "memGroup (as_members st) ma = Some g"
    and c: "current Q M (as_members st) (as_clients st) b"
  shows "\<exists>b'. unlinkMember ma g st = Some (st\<lparr>as_base := Some b'\<rparr>)
    \<and> as_struct (M - {ma}) b' (st\<lparr>as_base := Some b'\<rparr>)
    \<and> current Q (M - {ma}) (as_members st) (as_clients st) b' \<and> sameRules b b'"
proof -
  note s = as_structD[OF st]
  define f where "f = (\<lambda>a :: 'a asg. a\<lparr>a_memberList := remove1 ma (a_memberList a)\<rparr>)"
  have fn: "\<And>a. a_name (f a) = a_name a" "\<And>a. bare (f a) = bare a" by (simp_all add: f_def)
  let ?b = "updAsg g f b"
  have "unlinkMember ma g st = Some (st\<lparr>as_base := Some ?b\<rparr>)" using s(2) by (simp add: unlinkMember_def f_def)
  moreover have "seated (M - {ma}) (as_members st) ?b" unfolding f_def by (rule seated_remove[OF s(6) g])
  moreover have "current Q (M - {ma}) (as_members st) (as_clients st) ?b"
    by (intro current_updAsg current_mono[OF c]) (auto simp: f_def)
  moreover have "sameRules b ?b" by (rule sameRules_updAsg) (rule fn(2))
  ultimately show ?thesis
    using s base_wf_updAsg[OF fn(1)] by (intro exI[of _ ?b]) (simp add: as_struct_def)
qed

lemma member_group:
  assumes "as_struct (dom (as_members st)) b st" and "as_members st ma = Some mem"
  shows "\<exists>g. m_pasg mem = Some g \<and> memGroup (as_members st) ma = Some g"
proof -
  have "\<exists>g. memGroup (as_members st) ma = Some g"
    using as_structD(6)[OF assms(1)] assms(2) unfolding seated_def by blast
  then show ?thesis using assms(2) by (simp add: memGroup_def)
qed

text \<open>A member without clients is removed; otherwise the call fails and, as the code stands, keeps the mutex.\<close>

lemma asRemoveMember_inv:
  assumes i: "as_inv st" and m: "as_members st ma = Some mem"
  shows "if m_clientList mem = []
    then \<exists>st'. asRemoveMember (Some ma) st = Some (S_ok, None, st') \<and> as_inv st' \<and> as_lock st' = as_lock st
           \<and> as_members st' = (as_members st)(ma := None)
    else asRemoveMember (Some ma) st = Some (S_clientsExist, Some ma, LOCK st)"
proof (cases "m_clientList mem = []")
  case True
  obtain b where b: "as_struct (dom (as_members st)) b st"
      "current UNIV (dom (as_members st)) (as_members st) (as_clients st) b" using as_invD[OF i] .
  obtain g where g: "m_pasg mem = Some g" "memGroup (as_members st) ma = Some g" using member_group[OF b(1) m] by blast
  let ?M = "dom (as_members st)" and ?mems = "(as_members st)(ma := None)"
  obtain b' where u: "unlinkMember ma g (LOCK st) = Some ((LOCK st)\<lparr>as_base := Some b'\<rparr>)"
     "as_struct (?M - {ma}) b' ((LOCK st)\<lparr>as_base := Some b'\<rparr>)"
     "current UNIV (?M - {ma}) (as_members st) (as_clients st) b'"
    using unlinkMember_ok[of ?M b "LOCK st" ma g UNIV] b g(2) by auto
  have same: "\<forall>k \<in> ?M - {ma}. memGroup ?mems k = memGroup (as_members st) k" by (simp add: memGroup_def)
  let ?st' = "UNLOCK ((LOCK st)\<lparr>as_base := Some b', as_members := ?mems\<rparr>)"
  note s = as_structD[OF u(2)]
  have "as_struct (?M - {ma}) b' ?st'"
    using s seated_cong[OF same, of b'] links_delMember[of "as_members st" "as_clients st" ma mem] m True
    by (simp add: as_struct_def)
  moreover have "current UNIV (?M - {ma}) ?mems (as_clients st) b'" by (rule current_cong[OF u(3) same])
  ultimately have inv: "as_inv ?st'" by (intro as_invI[of "?M - {ma}" b' ?st']) simp_all
  have run: "asRemoveMember (Some ma) st = Some (S_ok, None, ?st')"
    using as_structD(1)[OF b(1)] m True g(1) u(1) by (simp add: asRemoveMember_def Let_def)
  show ?thesis unfolding if_P[OF True] by (intro exI[of _ ?st'] conjI run inv) simp_all
next
  case False
  obtain b where "as_struct (dom (as_members st)) b st" using as_invD[OF i] by metis
  then show ?thesis using m False as_structD(1) by (auto simp: asRemoveMember_def Let_def)
qed

lemma asChangeGroup_inv:
  assumes i: "as_inv st" and m: "as_members st ma = Some mem"
  shows "\<exists>st'. asChangeGroup (Some ma) nm st = Some (S_ok, Some ma, st') \<and> as_inv st' \<and> as_lock st' = as_lock st"
proof -
  obtain b where b: "as_struct (dom (as_members st)) b st"
      "current UNIV (dom (as_members st)) (as_members st) (as_clients st) b" using as_invD[OF i] .
  obtain g where g: "m_pasg mem = Some g" "memGroup (as_members st) ma = Some g" using member_group[OF b(1) m] by blast
  let ?M = "dom (as_members st)"
  obtain b' where u: "unlinkMember ma g (LOCK st) = Some ((LOCK st)\<lparr>as_base := Some b'\<rparr>)"
     "as_struct (?M - {ma}) b' ((LOCK st)\<lparr>as_base := Some b'\<rparr>)"
     "current UNIV (?M - {ma}) (as_members st) (as_clients st) b'"
    using unlinkMember_ok[of ?M b "LOCK st" ma g UNIV] b g(2) by auto
  let ?st2 = "(LOCK st)\<lparr>as_base := Some b'\<rparr>"
  obtain b'' st' where a: "asAddMemberPvt ma (Some ma) nm ?st2 = Some (S_ok, Some ma, st')"
    "as_struct (insert ma (?M - {ma})) b'' st'"
    "current UNIV (insert ma (?M - {ma})) (as_members st') (as_clients st') b''"
    "as_members st' = (as_members st)(ma \<mapsto> mem\<lparr>m_asgName := nm, m_pasg := memberGroup nm b'\<rparr>)"
    "as_lock st' = as_lock ?st2"
    using asAddMemberPvt_ok[OF u(2), of ma mem UNIV ma nm] m u(3) by auto
  have "as_inv (UNLOCK st')" using a(2-4) m by (intro as_invI[of "insert ma (?M - {ma})" b'']) auto
  moreover have "asChangeGroup (Some ma) nm st = Some (S_ok, Some ma, UNLOCK st')"
    using as_structD(1)[OF b(1)] m g(1) u(1) a(1) by (simp add: asChangeGroup_def Let_def)
  ultimately show ?thesis using a(5) by auto
qed

section \<open>Clients\<close>

lemma asComputePvt_fresh:
  assumes st: "as_struct (dom (as_members st)) b st" and c: "as_clients st ca = Some c"
    and o: "current UNIV (dom (as_members st)) (as_members st) ((as_clients st)(ca := None)) b"
  shows "\<exists>st'. asComputePvt (Some ca) st = Some (S_ok, st') \<and> as_inv st' \<and> as_lock st' = as_lock st
    \<and> as_members st' = as_members st
    \<and> (\<exists>a. linked st ca c b a \<and> as_clients st' = (as_clients st)(ca \<mapsto> setRights b a c))"
proof -
  note s = as_structD[OF st]
  let ?M = "dom (as_members st)"
  obtain ma mem where ma: "c_pasgMember c = Some ma" "as_members st ma = Some mem" using links_owner[OF s(5) c] by blast
  obtain g where g: "m_pasg mem = Some g" "memGroup (as_members st) ma = Some g" using member_group[OF st ma(2)] by blast
  obtain a where a: "findAsg g b = Some a" using seated_found[OF s(6) _ g(2)] ma(2) by blast
  have l: "linked st ca c b a" using s(1,2) c ma g(1) a by (auto simp: linked_def)
  let ?c = "setRights b a c"
  let ?st = "st\<lparr>as_clients := (as_clients st)(ca \<mapsto> ?c), as_calls := as_calls st @ notice ca b a c\<rparr>"
  have "current UNIV ?M (as_members st) (((as_clients st)(ca := None))(ca \<mapsto> ?c)) b"
    by (rule current_client[OF o]) (use ma g a in \<open>auto simp: memGroup_def\<close>)
  then have "current UNIV ?M (as_members st) ((as_clients st)(ca \<mapsto> ?c)) b" by simp
  moreover have "as_struct ?M b ?st"
    using s links_client[where cls = "as_clients st" and ca = ca and c = c and c' = ?c] c by (simp add: as_struct_def)
  ultimately have "as_inv ?st" by (intro as_invI[of ?M b ?st]) simp_all
  then show ?thesis using asComputePvt_linked[OF s(4) l] l by auto
qed

lemma asCompute_inv:
  assumes i: "as_inv st" and c: "as_clients st ca = Some c"
  shows "\<exists>st'. asCompute (Some ca) st = Some (S_ok, st') \<and> as_inv st' \<and> as_lock st' = as_lock st"
proof -
  obtain b where b: "as_struct (dom (as_members st)) b st"
      "current UNIV (dom (as_members st)) (as_members st) (as_clients st) b" using as_invD[OF i] .
  obtain st' where "asComputePvt (Some ca) (LOCK st) = Some (S_ok, st')" "as_inv st'" "as_lock st' = as_lock (LOCK st)"
    using asComputePvt_fresh[of "LOCK st" b ca c] b c current_delClient[OF b(2)] by auto
  moreover have "as_inv (UNLOCK st')" using \<open>as_inv st'\<close> by (simp add: as_inv_def)
  ultimately show ?thesis using as_structD(1)[OF b(1)] by (auto simp: asCompute_def)
qed

lemma asAddClient_inv:
  assumes i: "as_inv st" and m: "as_members st ma = Some mem" and n: "as_clients st ca = None"
  shows "\<exists>st'. asAddClient (Some ca) (Some ma) asl user host st = Some (S_ok, Some ca, st') \<and> as_inv st'
    \<and> as_lock st' = as_lock st"
proof -
  obtain b where b: "as_struct (dom (as_members st)) b st"
      "current UNIV (dom (as_members st)) (as_members st) (as_clients st) b" using as_invD[OF i] .
  note s = as_structD[OF b(1)]
  define c where "c = \<lparr>c_pasgMember = Some ma, c_user = user, c_host = map tolower_c host, c_userPvt = None,
    c_pcallback = None, c_level = asl, c_access = asNOACCESS, c_trapMask = 0\<rparr>"
  define mem' where "mem' = mem\<lparr>m_clientList := m_clientList mem @ [ca]\<rparr>"
  let ?mems = "(as_members st)(ma \<mapsto> mem')" and ?M = "dom (as_members st)"
  let ?st = "(LOCK (st\<lparr>as_clients := (as_clients st)(ca \<mapsto> c)\<rparr>))\<lparr>as_members := ?mems\<rparr>"
  have grp: "memGroup ?mems = memGroup (as_members st)" by (rule memGroup_same[where mem = mem]) (simp_all add: m mem'_def)
  have dm: "dom ?mems = ?M" using m by auto
  have l: "links ?mems ((as_clients st)(ca \<mapsto> c))"
    by (rule links_addClient[OF s(5) m n]) (simp_all add: c_def mem'_def)
  have "seated ?M ?mems b" using s(6) seated_cong[of ?M ?mems "as_members st" b] grp by simp
  then have st1: "as_struct (dom (as_members ?st)) b ?st" using s l dm by (simp add: as_struct_def LOCK_def)
  have "current UNIV ?M ?mems (as_clients st) b" by (rule current_cong[OF b(2)]) (simp add: grp)
  then have c1: "current UNIV (dom (as_members ?st)) (as_members ?st) ((as_clients ?st)(ca := None)) b"
    using current_delClient dm by (simp add: LOCK_def)
  obtain st' where r: "asComputePvt (Some ca) ?st = Some (S_ok, st')" "as_inv st'" "as_lock st' = as_lock ?st"
    using asComputePvt_fresh[OF st1 _ c1, of c] by (auto simp: LOCK_def)
  have "asAddClient (Some ca) (Some ma) asl user host st = Some (S_ok, Some ca, UNLOCK st')"
    using s(1) m r(1) by (simp add: asAddClient_def Let_def c_def mem'_def)
  moreover have "as_inv (UNLOCK st')" using r(2) by (simp add: as_inv_def)
  ultimately show ?thesis using r(3) by (auto simp: LOCK_def)
qed

lemma asChangeClient_inv:
  assumes i: "as_inv st" and n: "as_clients st ca = Some c"
  shows "\<exists>st'. asChangeClient (Some ca) asl user host st = Some (S_ok, st') \<and> as_inv st' \<and> as_lock st' = as_lock st"
proof -
  obtain b where b: "as_struct (dom (as_members st)) b st"
      "current UNIV (dom (as_members st)) (as_members st) (as_clients st) b" using as_invD[OF i] .
  note s = as_structD[OF b(1)]
  define c' where "c' = c\<lparr>c_level := asl, c_user := user, c_host := host\<rparr>"
  let ?st = "LOCK (st\<lparr>as_clients := (as_clients st)(ca \<mapsto> c')\<rparr>)"
  have st1: "as_struct (dom (as_members ?st)) b ?st"
    using s links_client[where cls = "as_clients st" and ca = ca and c = c and c' = c'] n
    by (simp add: as_struct_def c'_def)
  have c1: "current UNIV (dom (as_members ?st)) (as_members ?st) ((as_clients ?st)(ca := None)) b"
    using current_delClient[OF b(2)] by simp
  obtain st' where r: "asComputePvt (Some ca) ?st = Some (S_ok, st')" "as_inv st'" "as_lock st' = as_lock ?st"
    using asComputePvt_fresh[OF st1 _ c1, of c'] by auto
  have "asChangeClient (Some ca) asl user host st = Some (S_ok, UNLOCK st')"
    using s(1) n r(1) by (simp add: asChangeClient_def c'_def)
  moreover have "as_inv (UNLOCK st')" using r(2) by (simp add: as_inv_def)
  ultimately show ?thesis using r(3) by (auto simp: LOCK_def)
qed

lemma asRemoveClient_inv:
  assumes i: "as_inv st" and n: "as_clients st ca = Some c"
  shows "\<exists>st'. asRemoveClient (Some ca) st = Some (S_ok, None, st') \<and> as_inv st' \<and> as_lock st' = as_lock st"
proof -
  obtain b where b: "as_struct (dom (as_members st)) b st"
      "current UNIV (dom (as_members st)) (as_members st) (as_clients st) b" using as_invD[OF i] .
  note s = as_structD[OF b(1)]
  obtain ma mem where m: "c_pasgMember c = Some ma" "as_members st ma = Some mem" using links_owner[OF s(5) n] by blast
  define mem' where "mem' = mem\<lparr>m_clientList := remove1 ca (m_clientList mem)\<rparr>"
  let ?mems = "(as_members st)(ma \<mapsto> mem')" and ?cls = "(as_clients st)(ca := None)" and ?M = "dom (as_members st)"
  let ?st = "UNLOCK ((LOCK st)\<lparr>as_members := ?mems, as_clients := ?cls\<rparr>)"
  have grp: "memGroup ?mems = memGroup (as_members st)" by (rule memGroup_same[where mem = mem]) (simp_all add: m mem'_def)
  have dm: "dom ?mems = ?M" using m(2) by auto
  have l: "links ?mems ?cls" by (rule links_delClient[OF s(5) n m]) (simp add: mem'_def)
  have "seated ?M ?mems b" using s(6) seated_cong[of ?M ?mems "as_members st" b] grp by simp
  then have "as_struct ?M b ?st" using s l by (simp add: as_struct_def)
  moreover have "current UNIV ?M ?mems ?cls b"
    by (intro current_cong[OF current_delClient[OF b(2)]]) (simp add: grp)
  ultimately have "as_inv ?st" by (intro as_invI[of ?M b ?st]) (simp_all add: dm[simplified])
  moreover have "asRemoveClient (Some ca) st = Some (S_ok, None, ?st)"
    using s(1) n m by (simp add: asRemoveClient_def Let_def mem'_def)
  ultimately show ?thesis by auto
qed

text \<open>Changes of a client or member that no right depends on.\<close>

lemma as_inv_client:
  assumes i: "as_inv st" and n: "as_clients st ca = Some c"
    and k: "c_pasgMember c' = c_pasgMember c" "c_user c' = c_user c" "c_host c' = c_host c" "c_level c' = c_level c"
      "c_access c' = c_access c" "c_trapMask c' = c_trapMask c"
  shows "as_inv (st\<lparr>as_clients := (as_clients st)(ca \<mapsto> c')\<rparr>)"
proof -
  obtain b where b: "as_struct (dom (as_members st)) b st"
      "current UNIV (dom (as_members st)) (as_members st) (as_clients st) b" using as_invD[OF i] .
  let ?st = "st\<lparr>as_clients := (as_clients st)(ca \<mapsto> c')\<rparr>"
  have same: "hasRights bb a c' = hasRights bb a c" for bb :: "'a asbase" and a
    using k rightsOf_client[of c' c bb a] by (simp add: hasRights_def)
  have "current UNIV (dom (as_members st)) (as_members st) ((as_clients st)(ca \<mapsto> c')) b"
    by (rule current_client[OF b(2)]) (use same currentD[OF b(2) n] k(1) in auto)
  moreover have "as_struct (dom (as_members st)) b ?st"
    using as_structD[OF b(1)] links_client[where cls = "as_clients st" and ca = ca and c = c and c' = c'] n k(1)
    by (simp add: as_struct_def)
  ultimately show ?thesis by (intro as_invI[of "dom (as_members st)" b ?st]) simp_all
qed

lemma as_inv_member:
  assumes i: "as_inv st" and m: "as_members st ma = Some mem" and k: "m_pasg mem' = m_pasg mem" "m_clientList mem' = m_clientList mem"
  shows "as_inv (st\<lparr>as_members := (as_members st)(ma \<mapsto> mem')\<rparr>)"
proof -
  obtain b where b: "as_struct (dom (as_members st)) b st"
      "current UNIV (dom (as_members st)) (as_members st) (as_clients st) b" using as_invD[OF i] .
  let ?mems = "(as_members st)(ma \<mapsto> mem')" and ?M = "dom (as_members st)"
  have grp: "memGroup ?mems = memGroup (as_members st)" by (rule memGroup_same[where mem = mem]) (use m k in simp_all)
  have "current UNIV ?M ?mems (as_clients st) b" by (rule current_cong[OF b(2)]) (simp add: grp)
  moreover have "seated ?M ?mems b" using as_structD(6)[OF b(1)] seated_cong[of ?M ?mems "as_members st" b] grp by simp
  then have "as_struct ?M b (st\<lparr>as_members := ?mems\<rparr>)"
    using as_structD[OF b(1)] links_member[where mems = "as_members st" and ma = ma and mem = mem and mem' = mem'] m k(2)
    by (simp add: as_struct_def)
  moreover have "dom ?mems = ?M" using m by auto
  ultimately show ?thesis by (intro as_invI[of ?M b]) simp_all
qed

lemma as_inv_lock [simp]: "as_inv (LOCK st) = as_inv st" "as_inv (UNLOCK st) = as_inv st"
  by (simp_all add: as_inv_def)

lemma as_inv_calls [simp]: "as_inv (st\<lparr>as_calls := l\<rparr>) = as_inv st"
  by (simp add: as_inv_def as_struct_def)

lemma as_inv_active: "as_inv st \<Longrightarrow> as_active st"
  using as_structD(1) by (metis as_invD)

lemma asRegisterClientCallback_inv:
  assumes i: "as_inv st" and c: "as_clients st ca = Some c"
  shows "\<exists>st'. asRegisterClientCallback (Some ca) f st = Some (S_ok, st') \<and> as_inv st' \<and> as_lock st' = as_lock st"
  using as_inv_client[of "LOCK st" ca c "c\<lparr>c_pcallback := Some f\<rparr>"] i c as_inv_active[OF i]
  by (simp add: asRegisterClientCallback_def Let_def)

lemma asPutClientPvt_inv:
  assumes i: "as_inv st" and c: "as_clients st ca = Some c"
  shows "\<exists>st'. asPutClientPvt (Some ca) p st = Some st' \<and> as_inv st' \<and> as_lock st' = as_lock st"
  using as_inv_client[of "LOCK st" ca c "c\<lparr>c_userPvt := p\<rparr>"] i c as_inv_active[OF i]
  by (simp add: asPutClientPvt_def Let_def)

lemma asPutMemberPvt_inv:
  assumes i: "as_inv st" and m: "as_members st ma = Some mem"
  shows "\<exists>st'. asPutMemberPvt (Some ma) p st = Some st' \<and> as_inv st' \<and> as_lock st' = as_lock st"
  using as_inv_member[of st ma mem "mem\<lparr>m_userPvt := p\<rparr>"] i m as_inv_active[OF i]
  by (simp add: asPutMemberPvt_def)

end
