(* ===== verification/AsSystem.thy ===== *)
theory AsSystem
  imports AsInv
begin

text \<open>
  Access security as a whole: recomputation of groups, the input callbacks, the installation of a new
  configuration, and the system of all operations with its reachable states.
\<close>

section \<open>Recomputing groups\<close>

text \<open>The calculations of a configuration never fault, whatever their inputs are.\<close>

definition calcs_total :: "'d asenv \<Rightarrow> 'd asbase \<Rightarrow> bool" where
  "calcs_total env b \<longleftrightarrow> (\<forall>g a. findAsg g b = Some a \<longrightarrow> (\<forall>r \<in> set (a_ruleList a). r_calc r \<noteq> None \<longrightarrow>
     (\<forall>args seed. calcPerform (e_fpu env) args (r_rpcl r) seed \<noteq> None)))"

lemma calcRule_ok:
  assumes "r_calc r \<noteq> None \<longrightarrow> (\<forall>args seed. calcPerform (e_fpu env) args (r_rpcl r) seed \<noteq> None)"
  shows "\<exists>r' seed'. calcRule env pv ch r seed = Some (r', seed') \<and> r_calc r' = r_calc r \<and> r_rpcl r' = r_rpcl r"
proof (cases "r_calc r \<noteq> None \<and> ch AND r_inpUsed r \<noteq> 0")
  case True
  then obtain x where "calcPerform (e_fpu env) pv (r_rpcl r) seed = Some x" using assms by fastforce
  then show ?thesis using True by (cases x) (simp add: calcRule_def)
qed (auto simp: calcRule_def)

lemma calcRules_ok:
  assumes "\<forall>r \<in> set rs. r_calc r \<noteq> None \<longrightarrow> (\<forall>args seed. calcPerform (e_fpu env) args (r_rpcl r) seed \<noteq> None)"
  shows "\<exists>rules seed'. calcRules env pv ch rs seed = Some (rules, seed')
    \<and> map (\<lambda>r. (r_calc r, r_rpcl r)) rules = map (\<lambda>r. (r_calc r, r_rpcl r)) rs"
  using assms
proof (induction rs arbitrary: seed)
  case (Cons r rs)
  obtain r' seed' where 1: "calcRule env pv ch r seed = Some (r', seed')" "r_calc r' = r_calc r" "r_rpcl r' = r_rpcl r"
    using calcRule_ok[of r env pv ch seed] Cons.prems by auto
  obtain rules seed'' where 2: "calcRules env pv ch rs seed' = Some (rules, seed'')"
    "map (\<lambda>r. (r_calc r, r_rpcl r)) rules = map (\<lambda>r. (r_calc r, r_rpcl r)) rs"
    using Cons.IH[of seed'] Cons.prems by auto
  show ?case using 1 2 by (intro exI[of _ "r' # rules"] exI[of _ seed'']) simp
qed simp

lemma calcs_updAsg:
  assumes n: "\<And>a. a_name (f a) = a_name a" and t: "calcs_total env b"
    and r: "\<And>a. findAsg g b = Some a \<Longrightarrow> (\<lambda>r. (r_calc r, r_rpcl r)) ` set (a_ruleList (f a))
        = (\<lambda>r. (r_calc r, r_rpcl r)) ` set (a_ruleList a)"
  shows "calcs_total env (updAsg g f b)"
  unfolding calcs_total_def
proof (intro allI impI ballI)
  fix h x q args seed assume h: "findAsg h (updAsg g f b) = Some x" "q \<in> set (a_ruleList x)" "r_calc q \<noteq> None"
  then obtain y where y: "findAsg h b = Some y" "x = (if h = g then f y else y)" by (auto simp: findAsg_updAsg[OF n])
  have "(r_calc q, r_rpcl q) \<in> (\<lambda>r. (r_calc r, r_rpcl r)) ` set (a_ruleList x)" using h(2) by blast
  also have "\<dots> = (\<lambda>r. (r_calc r, r_rpcl r)) ` set (a_ruleList y)" using y r by auto
  finally obtain p where "p \<in> set (a_ruleList y)" "r_calc p = r_calc q" "r_rpcl p = r_rpcl q" by auto
  then show "calcPerform (e_fpu env) args (r_rpcl q) seed \<noteq> None" using t y(1) h(3) unfolding calcs_total_def by metis
qed

text \<open>A state with its configuration, where the rights in the groups \<open>Q\<close> are current.\<close>

definition as_at :: "'d asenv \<Rightarrow> string set \<Rightarrow> 'd asbase \<Rightarrow> 'd asstate \<Rightarrow> bool" where
  "as_at env Q b st \<longleftrightarrow> as_struct (dom (as_members st)) b st \<and> calcs_total env b
     \<and> current Q (dom (as_members st)) (as_members st) (as_clients st) b"

text \<open>What the operations of this section leave alone: members, groups by name, the mutex.\<close>

definition sameNames :: "'d asbase \<Rightarrow> 'd asbase \<Rightarrow> bool" where
  "sameNames b b' \<longleftrightarrow> (\<forall>g. findAsg g b' = None \<longleftrightarrow> findAsg g b = None)"

definition keeps :: "'d asstate \<Rightarrow> 'd asbase \<Rightarrow> 'd asstate \<Rightarrow> 'd asbase \<Rightarrow> bool" where
  "keeps st b st' b' \<longleftrightarrow> as_lock st' = as_lock st \<and> as_members st' = as_members st \<and> sameNames b b'"

lemma keeps_trans: "keeps st b st' b' \<Longrightarrow> keeps st' b' st'' b'' \<Longrightarrow> keeps st b st'' b''"
  by (auto simp: keeps_def sameNames_def)

lemma keeps_refl: "keeps st b st b"
  by (simp add: keeps_def sameNames_def)

lemma sameNames_updAsg: "(\<And>a. a_name (f a) = a_name a) \<Longrightarrow> sameNames b (updAsg g f b)"
  by (simp add: sameNames_def findAsg_updAsg)

lemma as_at_mono: "as_at env Q b st \<Longrightarrow> Q' \<subseteq> Q \<Longrightarrow> as_at env Q' b st"
  unfolding as_at_def using current_mono by blast

lemma as_at_lock [simp]: "as_at env Q b (LOCK st) = as_at env Q b st" "as_at env Q b (UNLOCK st) = as_at env Q b st"
  by (simp_all add: as_at_def)

text \<open>A change of one group that keeps its name, its members and the calculations.\<close>

lemma as_at_setAsg:
  assumes a: "as_at env Q b st" and n: "\<And>a. a_name (f a) = a_name a" "\<And>a. a_memberList (f a) = a_memberList a"
    "\<And>a. a_ruleList (f a) = a_ruleList a"
  shows "\<exists>b' st'. setAsg g f st = Some st' \<and> as_at env (Q - {g}) b' st' \<and> keeps st b st' b' \<and> b' = updAsg g f b"
proof -
  have s: "as_struct (dom (as_members st)) b st" "calcs_total env b"
    "current Q (dom (as_members st)) (as_members st) (as_clients st) b" using a by (simp_all add: as_at_def)
  note t = as_structD[OF s(1)]
  let ?b = "updAsg g f b"
  have "current (Q - {g}) (dom (as_members st)) (as_members st) (as_clients st) ?b"
    by (intro current_updAsg n current_mono[OF s(3)]) auto
  moreover have "calcs_total env ?b" by (rule calcs_updAsg[OF n(1) s(2)]) (simp_all add: n(3))
  moreover have "seated (dom (as_members st)) (as_members st) ?b" by (rule seated_updAsg[OF n(1,2) t(6)])
  ultimately have "as_at env (Q - {g}) ?b (st\<lparr>as_base := Some ?b\<rparr>)"
    using t base_wf_updAsg[OF n(1)] by (simp add: as_at_def as_struct_def)
  then show ?thesis using t(2) sameNames_updAsg[OF n(1)] by (simp add: setAsg_def keeps_def)
qed

lemma asComputeAsgPvt_ok:
  assumes a: "as_at env Q b st" and g: "findAsg g b = Some a"
  shows "\<exists>b' st'. asComputeAsgPvt env g st = Some (S_ok, st') \<and> as_at env (insert g Q) b' st' \<and> keeps st b st' b'"
proof -
  let ?M = "dom (as_members st)" and ?mems = "as_members st"
  have s: "as_struct ?M b st" "calcs_total env b" "current Q ?M ?mems (as_clients st) b"
    using a by (simp_all add: as_at_def)
  note t = as_structD[OF s(1)]
  obtain rules seed where r: "calcRules env (a_pavalue a) (a_inpChanged a) (a_ruleList a) (as_seed st) = Some (rules, seed)"
    "map (\<lambda>r. (r_calc r, r_rpcl r)) rules = map (\<lambda>r. (r_calc r, r_rpcl r)) (a_ruleList a)"
    using calcRules_ok[of "a_ruleList a" env "a_pavalue a" "a_inpChanged a" "as_seed st"] s(2) g
    unfolding calcs_total_def by blast
  define f where "f = (\<lambda>a :: 'a asg. a\<lparr>a_ruleList := rules, a_inpChanged := 0\<rparr>)"
  have n: "\<And>a. a_name (f a) = a_name a" "\<And>a. a_memberList (f a) = a_memberList a" by (simp_all add: f_def)
  let ?b = "updAsg g f b" and ?S = "clientsOf st (a_memberList a)"
  let ?st1 = "st\<lparr>as_base := Some ?b, as_seed := seed\<rparr>"
  have gb: "findAsg g ?b = Some (f a)" using g by (simp add: findAsg_updAsg[OF n(1)])
  have grp: "groupOf ?st1 g (a_memberList a)"
    unfolding groupOf_def
  proof
    fix ma assume "ma \<in> set (a_memberList a)"
    then have "memGroup ?mems ma = Some g" using seated_D(2)[OF t(6) g] by blast
    then obtain mem where m: "?mems ma = Some mem" "m_pasg mem = Some g" by (auto simp: memGroup_def bind_eq_Some_conv)
    then show "\<exists>mem. as_members ?st1 ma = Some mem \<and> m_pasg mem = Some g \<and> owns ?st1 ma mem"
      using links_owns[OF t(5), of ?st1 ma mem] by simp
  qed
  obtain calls where c: "computeMembers (a_memberList a) ?st1 =
      Some (?st1\<lparr>as_clients := recompute ?b (f a) (clientsOf ?st1 (a_memberList a)) (as_clients ?st1),
         as_calls := as_calls ?st1 @ calls\<rparr>)"
    using computeMembers_ok[of ?b ?st1 g "f a" "a_memberList a"] t(1,4) gb grp by auto
  have cl: "clientsOf ?st1 (a_memberList a) = ?S" by (simp add: clientsOf_def)
  let ?st' = "?st1\<lparr>as_clients := recompute ?b (f a) ?S (as_clients st), as_calls := as_calls st @ calls\<rparr>"
  have run: "asComputeAsgPvt env g st = Some (S_ok, ?st')"
    using t(1,2) g r(1) c cl by (simp add: asComputeAsgPvt_def f_def)
  have cur0: "current (Q - {g}) ?M ?mems (as_clients st) ?b"
    by (intro current_updAsg n current_mono[OF s(3)]) auto
  have cur: "current (insert g Q) ?M ?mems (recompute ?b (f a) ?S (as_clients st)) ?b"
  proof (rule current_recompute[OF cur0 gb, where N = ?M])
    fix ca c ma assume "as_clients st ca = Some c" "c_pasgMember c = Some ma" "ma \<in> ?M" "memGroup ?mems ma = Some g"
    then show "ca \<in> ?S" using links_listed[OF t(5)] seated_D(2)[OF t(6) g] unfolding clientsOf_def by blast
  next
    fix ca c assume ca: "ca \<in> ?S" "as_clients st ca = Some c"
    then obtain ma mem where m: "ma \<in> set (a_memberList a)" "?mems ma = Some mem" "ca \<in> set (m_clientList mem)"
      unfolding clientsOf_def by blast
    then have "c_pasgMember c = Some ma" using links_owns[OF t(5) refl m(2)] ca(2) unfolding owns_def by auto
    then show "\<exists>ma. c_pasgMember c = Some ma \<and> memGroup ?mems ma = Some g" using seated_D(2)[OF t(6) g] m(1) by blast
  qed auto
  have "calcs_total env ?b"
  proof (rule calcs_updAsg[OF n(1) s(2)])
    fix x assume "findAsg g b = Some x"
    then have "x = a" using g by simp
    then show "(\<lambda>r. (r_calc r, r_rpcl r)) ` set (a_ruleList (f x)) = (\<lambda>r. (r_calc r, r_rpcl r)) ` set (a_ruleList x)"
      using arg_cong[OF r(2), of set] by (simp add: f_def)
  qed
  moreover have "seated ?M ?mems ?b" by (rule seated_updAsg[OF n(1,2) t(6)])
  ultimately have "as_at env (insert g Q) ?b ?st'"
    using t cur base_wf_updAsg[OF n(1)] by (simp add: as_at_def as_struct_def)
  moreover have "keeps st b ?st' ?b" using sameNames_updAsg[OF n(1)] by (simp add: keeps_def)
  ultimately show ?thesis using run by blast
qed

lemma computeAsgs_ok:
  "as_at env Q b st \<Longrightarrow> \<forall>g \<in> set gs. findAsg g b \<noteq> None \<Longrightarrow>
   \<exists>b' st'. computeAsgs env gs st = Some st' \<and> as_at env (set gs \<union> Q) b' st' \<and> keeps st b st' b'"
proof (induction gs arbitrary: Q b st)
  case Nil
  then show ?case using keeps_refl by auto
next
  case (Cons g gs)
  obtain a where "findAsg g b = Some a" using Cons.prems(2) by auto
  then obtain b1 st1 where 1: "asComputeAsgPvt env g st = Some (S_ok, st1)" "as_at env (insert g Q) b1 st1" "keeps st b st1 b1"
    using asComputeAsgPvt_ok[OF Cons.prems(1)] by blast
  have "\<forall>h \<in> set gs. findAsg h b1 \<noteq> None" using Cons.prems(2) 1(3) by (auto simp: keeps_def sameNames_def)
  then obtain b2 st2 where 2: "computeAsgs env gs st1 = Some st2" "as_at env (set gs \<union> insert g Q) b2 st2" "keeps st1 b1 st2 b2"
    using Cons.IH[OF 1(2)] by blast
  then show ?case using 1 keeps_trans[OF 1(3) 2(3)] by auto
qed

lemma as_at_all:
  assumes "as_at env Q b st" and "set (map a_name (b_asgList b)) \<subseteq> Q"
  shows "as_at env UNIV b st"
proof -
  have "g \<in> Q" if "findAsg g b = Some a" for g a using findAsg_name[OF that] assms(2) by auto
  then have "current UNIV M mems cls b" if "current Q M mems cls b" for M mems cls
    using that unfolding current_def by blast
  then show ?thesis using assms(1) unfolding as_at_def by blast
qed

lemma asComputeAllAsg_ok:
  assumes a: "as_at env Q b st"
  shows "\<exists>b' st'. asComputeAllAsg env st = Some (S_ok, st') \<and> as_at env UNIV b' st' \<and> keeps st b st' b'"
proof -
  have s: "as_struct (dom (as_members st)) b st" using a by (simp add: as_at_def)
  note t = as_structD[OF s]
  let ?gs = "map a_name (b_asgList b)"
  have "findAsg g b \<noteq> None" if "g \<in> set ?gs" for g
    using that t(3) findAsg_distinct unfolding base_wf_def by fastforce
  then obtain b' st' where r: "computeAsgs env ?gs (LOCK st) = Some st'" "as_at env (set ?gs \<union> Q) b' st'" "keeps (LOCK st) b st' b'"
    using computeAsgs_ok[of env Q b "LOCK st" ?gs] a by auto
  have "set (map a_name (b_asgList b')) \<subseteq> set ?gs"
  proof
    fix g assume g: "g \<in> set (map a_name (b_asgList b'))"
    have s': "as_struct (dom (as_members st')) b' st'" using r(2) by (simp add: as_at_def)
    have "findAsg g b' \<noteq> None" using g as_structD(3)[OF s'] findAsg_distinct unfolding base_wf_def by fastforce
    then obtain a where "findAsg g b = Some a" using r(3) unfolding keeps_def sameNames_def by auto
    from findAsg_name[OF this] show "g \<in> set ?gs" by auto
  qed
  then have "as_at env UNIV b' (UNLOCK st')" using as_at_all[OF r(2)] by auto
  moreover have "keeps st b (UNLOCK st') b'" using r(3) by (simp add: keeps_def)
  ultimately show ?thesis
    using r(1) t(1,2)
    by (intro exI[of _ b'] exI[of _ "UNLOCK st'"]) (simp add: asComputeAllAsg_def asComputeAllAsgPvt_def)
qed

lemma asComputeAsg_ok:
  assumes a: "as_at env Q b st" and g: "findAsg g b = Some a"
  shows "\<exists>b' st'. asComputeAsg env g st = Some (S_ok, st') \<and> as_at env (insert g Q) b' st' \<and> keeps st b st' b'"
proof -
  have act: "as_active st" using a by (simp add: as_at_def as_struct_def)
  obtain b' st' where "asComputeAsgPvt env g (LOCK st) = Some (S_ok, st')" "as_at env (insert g Q) b' st'" "keeps (LOCK st) b st' b'"
    using asComputeAsgPvt_ok[of env Q b "LOCK st" g a] a g by auto
  then show ?thesis using act by (intro exI[of _ b'] exI[of _ "UNLOCK st'"]) (simp add: asComputeAsg_def keeps_def)
qed

section \<open>The callbacks\<close>

text \<open>While channels are being opened only the structure is kept, afterwards the rights are as current as before.\<close>

definition stillCurrent :: "bool \<Rightarrow> string set \<Rightarrow> string set" where
  "stillCurrent ini Q = (if ini then {} else Q)"

definition callOk :: "'d asbase \<Rightarrow> 'd cacall \<Rightarrow> bool" where
  "callOk b e = (case e of Connection g _ _ \<Rightarrow> findAsg g b \<noteq> None | Event g _ _ \<Rightarrow> findAsg g b \<noteq> None)"

lemma computeUnless_ok:
  assumes a: "as_at env (Q - {g}) b st" and g: "findAsg g b \<noteq> None"
  shows "\<exists>b' st'. computeUnless env ini g st = Some st' \<and> as_at env (stillCurrent ini Q) b' st' \<and> keeps st b st' b'"
proof (cases ini)
  case True
  then show ?thesis using as_at_mono[OF a, of "{}"] keeps_refl by (auto simp: computeUnless_def stillCurrent_def)
next
  case False
  obtain x where x: "findAsg g b = Some x" using g by auto
  obtain b' st' where r: "asComputeAsg env g st = Some (S_ok, st')" "as_at env (insert g (Q - {g})) b' st'" "keeps st b st' b'"
    using asComputeAsg_ok[OF a x] by blast
  have "as_at env Q b' st'" by (rule as_at_mono[OF r(2)]) auto
  then show ?thesis using False r by (auto simp: computeUnless_def stillCurrent_def)
qed

lemma setAsg_compute_ok:
  assumes a: "as_at env Q b st" and g: "findAsg g b \<noteq> None"
    and n: "\<And>a. a_name (f a) = a_name a" "\<And>a. a_memberList (f a) = a_memberList a" "\<And>a. a_ruleList (f a) = a_ruleList a"
  shows "\<exists>b' st'. do { st1 \<leftarrow> setAsg g f st; computeUnless env ini g st1 } = Some st'
    \<and> as_at env (stillCurrent ini Q) b' st' \<and> keeps st b st' b'"
proof -
  obtain b1 st1 where 1: "setAsg g f st = Some st1" "as_at env (Q - {g}) b1 st1" "keeps st b st1 b1"
    using as_at_setAsg[OF a n, of g] by blast
  have "findAsg g b1 \<noteq> None" using g 1(3) by (simp add: keeps_def sameNames_def)
  then obtain b2 st2 where "computeUnless env ini g st1 = Some st2" "as_at env (stillCurrent ini Q) b2 st2" "keeps st1 b1 st2 b2"
    using computeUnless_ok[OF 1(2)] by blast
  then show ?thesis using 1 keeps_trans by fastforce
qed

lemma makeBad_ok:
  assumes a: "as_at env Q b st" and g: "findAsg g b \<noteq> None"
  shows "\<exists>b' st'. makeBad env ini g ind st = Some st' \<and> as_at env (stillCurrent ini Q) b' st' \<and> keeps st b st' b'"
proof -
  obtain x where x: "findAsg g b = Some x" using g by auto
  have b: "as_base st = Some b" using a by (simp add: as_at_def as_struct_def)
  have "as_at env (stillCurrent ini Q) b st" by (rule as_at_mono[OF a]) (simp add: stillCurrent_def)
  then show ?thesis
    using setAsg_compute_ok[OF a g, of "\<lambda>a. a\<lparr>a_inpBad := a_inpBad a OR inpBit ind\<rparr>" ini] x b keeps_refl
    by (auto simp: makeBad_def)
qed

lemma eventCallback_good:
  assumes a: "as_at env Q b st" and g: "findAsg g b \<noteq> None" and e: "ev_normal ev" "ev_sameChannel ev" "ev_connected ev" "ev_readAccess ev"
  shows "\<exists>b' st'. eventCallback env ini g ind ev st = Some st' \<and> as_at env (stillCurrent ini Q) b' st' \<and> keeps st b st' b'"
proof -
  define f where "f = (\<lambda>a :: 'a asg. if ev_invalid ev then a\<lparr>a_inpBad := a_inpBad a OR inpBit ind\<rparr>
     else a\<lparr>a_inpBad := a_inpBad a AND NOT (inpBit ind), a_pavalue := (a_pavalue a)(nat ind := ev_value ev)\<rparr>)"
  have n: "\<And>a. a_name (f a) = a_name a" "\<And>a. a_memberList (f a) = a_memberList a" "\<And>a. a_ruleList (f a) = a_ruleList a"
    by (simp_all add: f_def)
  obtain b1 st1 where 1: "setAsg g f st = Some st1" "as_at env (Q - {g}) b1 st1" "keeps st b st1 b1"
    using as_at_setAsg[OF a n, of g] by blast
  have "findAsg g b1 \<noteq> None" using g 1(3) by (simp add: keeps_def sameNames_def)
  then obtain b2 st2 where 2: "do { st2 \<leftarrow> setAsg g (\<lambda>a. a\<lparr>a_inpChanged := a_inpChanged a OR inpBit ind\<rparr>) st1;
       computeUnless env ini g st2 } = Some st2" "as_at env (stillCurrent ini (Q - {g})) b2 st2" "keeps st1 b1 st2 b2"
    using setAsg_compute_ok[OF 1(2), of g "\<lambda>a. a\<lparr>a_inpChanged := a_inpChanged a OR inpBit ind\<rparr>" ini] by auto
  have run: "eventCallback env ini g ind ev st = Some st2"
    using e 1(1) 2(1) by (cases "ev_invalid ev") (simp_all add: eventCallback_def f_def)
  show ?thesis
  proof (cases "ini \<or> g \<notin> Q")
    case True
    then have "stillCurrent ini (Q - {g}) = stillCurrent ini Q" by (auto simp: stillCurrent_def)
    then show ?thesis using run 2 keeps_trans[OF 1(3) 2(3)] by auto
  next
    case False
    obtain st1' where s: "setAsg g (\<lambda>a. a\<lparr>a_inpChanged := a_inpChanged a OR inpBit ind\<rparr>) st1 = Some st1'"
      "computeUnless env ini g st1' = Some st2" using 2(1) by (auto simp: bind_eq_Some_conv)
    obtain b1' where b1': "as_at env (Q - {g} - {g}) b1' st1'" "keeps st1 b1 st1' b1'"
      using as_at_setAsg[OF 1(2), of "\<lambda>a. a\<lparr>a_inpChanged := a_inpChanged a OR inpBit ind\<rparr>" g] s(1) by auto
    have "findAsg g b1' \<noteq> None" using g 1(3) b1'(2) by (simp add: keeps_def sameNames_def)
    moreover have "as_at env (Q - {g}) b1' st1'" using b1'(1) by simp
    ultimately obtain b3 where "as_at env (stillCurrent ini Q) b3 st2" "keeps st1' b1' st2 b3"
      using computeUnless_ok[of env Q g b1' st1' ini] s(2) by auto
    then show ?thesis using run keeps_trans[OF keeps_trans[OF 1(3) b1'(2)]] by blast
  qed
qed

lemma caCallback_ok:
  assumes a: "as_at env Q b st" and e: "callOk b e"
  shows "\<exists>b' st'. caCallback env ini e st = Some st' \<and> as_at env (stillCurrent ini Q) b' st' \<and> keeps st b st' b'"
proof -
  have same: "as_at env (stillCurrent ini Q) b st" by (rule as_at_mono[OF a]) (simp add: stillCurrent_def)
  show ?thesis
  proof (cases e)
    case (Connection g ind connected)
    then show ?thesis
      using makeBad_ok[OF a, of g ini ind] e same keeps_refl
      by (cases connected) (auto simp: callOk_def connectCallback_def)
  next
    case (Event g ind ev)
    then have g: "findAsg g b \<noteq> None" using e by (simp add: callOk_def)
    show ?thesis
    proof (cases "ev_normal ev \<and> ev_sameChannel ev \<and> ev_connected ev \<and> ev_readAccess ev")
      case True
      then show ?thesis using eventCallback_good[OF a g] Event by auto
    next
      case False
      then show ?thesis
        using makeBad_ok[OF a g, of ini ind] same keeps_refl Event by (auto simp: eventCallback_def)
    qed
  qed
qed

lemma callOk_keeps: "keeps st b st' b' \<Longrightarrow> callOk b' e = callOk b e"
  by (simp add: keeps_def sameNames_def callOk_def split: cacall.split)

lemma caCallbacks_ok:
  "as_at env Q b st \<Longrightarrow> \<forall>e \<in> set es. callOk b e \<Longrightarrow>
   \<exists>b' st'. caCallbacks env True es st = Some st' \<and> as_at env {} b' st' \<and> keeps st b st' b'"
proof (induction es arbitrary: Q b st)
  case Nil
  then show ?case using as_at_mono[of env Q b st "{}"] keeps_refl by auto
next
  case (Cons e es)
  obtain b1 st1 where 1: "caCallback env True e st = Some st1" "as_at env (stillCurrent True Q) b1 st1" "keeps st b st1 b1"
    using caCallback_ok[OF Cons.prems(1), of e True] Cons.prems(2) by auto
  have "\<forall>e \<in> set es. callOk b1 e" using Cons.prems(2) callOk_keeps[OF 1(3)] by simp
  from Cons.IH[OF 1(2) this] show ?case using 1 keeps_trans by fastforce
qed

lemma openChannels_ok:
  "as_at env Q b st \<Longrightarrow> \<forall>(g, ind) \<in> set chans. findAsg g b \<noteq> None \<Longrightarrow> \<forall>es \<in> set calls. \<forall>e \<in> set es. callOk b e \<Longrightarrow>
   \<exists>b' st'. openChannels env chans calls st = Some st' \<and> as_at env {} b' st' \<and> keeps st b st' b'"
proof (induction chans arbitrary: Q b st calls)
  case Nil
  then show ?case using as_at_mono[OF Nil.prems(1), of "{}"] keeps_refl[of st b] by auto
next
  case (Cons ch chans)
  obtain g ind where ch: "ch = (g, ind)" by force
  let ?es = "case calls of [] \<Rightarrow> [] | es # _ \<Rightarrow> es"
  obtain b1 st1 where 1: "setAsg g (\<lambda>a. a\<lparr>a_inpBad := a_inpBad a OR inpBit ind\<rparr>) st = Some st1"
    "as_at env (Q - {g}) b1 st1" "keeps st b st1 b1"
    using as_at_setAsg[OF Cons.prems(1), of "\<lambda>a. a\<lparr>a_inpBad := a_inpBad a OR inpBit ind\<rparr>" g] by auto
  have "\<forall>e \<in> set ?es. callOk b1 e" using Cons.prems(3) callOk_keeps[OF 1(3)] by (cases calls) auto
  then obtain b2 st2 where 2: "caCallbacks env True ?es st1 = Some st2" "as_at env {} b2 st2" "keeps st1 b1 st2 b2"
    using caCallbacks_ok[OF 1(2)] by blast
  note k = keeps_trans[OF 1(3) 2(3)]
  have a: "\<forall>(g, ind) \<in> set chans. findAsg g b2 \<noteq> None" using Cons.prems(2) k by (auto simp: keeps_def sameNames_def)
  have c: "\<forall>es \<in> set (tl calls). \<forall>e \<in> set es. callOk b2 e"
    using Cons.prems(3) callOk_keeps[OF k] by (cases calls) auto
  show ?case using Cons.IH[OF 2(2) a c] ch 1(1) 2(1) keeps_trans[OF k] by fastforce
qed

text \<open>Whatever the callbacks were, after the start-up the rights are current.\<close>

lemma asCaTaskStart_ok:
  assumes a: "as_at env Q b st" and c: "\<forall>es \<in> set calls. \<forall>e \<in> set es. callOk b e"
  shows "\<exists>b' st'. asCaTaskStart env calls st = Some st' \<and> as_at env UNIV b' st' \<and> keeps st b st' b'"
proof -
  have s: "as_base st = Some b" "distinct (map a_name (b_asgList b))"
    using a by (simp_all add: as_at_def as_struct_def base_wf_def)
  have "findAsg g b \<noteq> None" if "(g, ind) \<in> set (channelsOf b)" for g ind
    using that findAsg_distinct[OF s(2)] by (fastforce simp: channelsOf_def)
  then have g: "\<forall>(g, ind) \<in> set (channelsOf b). findAsg g b \<noteq> None" by blast
  obtain b1 st1 where 1: "openChannels env (channelsOf b) calls st = Some st1" "as_at env {} b1 st1" "keeps st b st1 b1"
    using openChannels_ok[OF a g c] by blast
  obtain b2 st2 where 2: "asComputeAllAsg env st1 = Some (S_ok, st2)" "as_at env UNIV b2 st2" "keeps st1 b1 st2 b2"
    using asComputeAllAsg_ok[OF 1(2)] by blast
  then show ?thesis using 1 s(1) keeps_trans[OF 1(3) 2(3)] by (auto simp: asCaTaskStart_def)
qed

end
