(* ===== verification/AsConfig.thy ===== *)
theory AsConfig
  imports AsSystem
begin

text \<open>
  Installing a configuration: the groups the grammar's actions build are sorted by name and without
  duplicates, and \<open>asInitialize\<close> either installs a good configuration with every member moved into it,
  or leaves everything as it was.
\<close>

section \<open>Building\<close>

abbreviation byName :: "('n \<Rightarrow> string) \<Rightarrow> 'n \<Rightarrow> 'n \<Rightarrow> bool" where
  "byName nm x y \<equiv> strcmp (nm x) (nm y) < 0"

lemma insertNamed_sorted:
  "sorted_wrt (byName nm) xs \<Longrightarrow> insertNamed nm x xs = Some ys \<Longrightarrow>
   sorted_wrt (byName nm) ys \<and> set ys = insert x (set xs)"
proof (induction xs arbitrary: ys)
  case (Cons p rest)
  consider "strcmp (nm x) (nm p) < 0" | "strcmp (nm x) (nm p) = 0" | "strcmp (nm x) (nm p) > 0" by linarith
  then show ?case
  proof cases
    case 1
    then show ?thesis using Cons.prems strcmp_less_trans[OF 1] by auto
  next
    case 2
    then show ?thesis using Cons.prems(2) by (simp add: Let_def)
  next
    case 3
    then obtain zs where z: "insertNamed nm x rest = Some zs" "ys = p # zs" using Cons.prems(2) by (auto simp: Let_def split: if_splits)
    have "sorted_wrt (byName nm) zs \<and> set zs = insert x (set rest)" using Cons z(1) by auto
    moreover have "strcmp (nm p) (nm x) < 0" using 3 by (simp add: strcmp_antisym)
    ultimately show ?thesis using Cons.prems(1) z(2) by auto
  qed
qed auto

lemma insertNamed_None:
  "sorted_wrt (byName nm) xs \<Longrightarrow> insertNamed nm x xs = None \<longleftrightarrow> nm x \<in> nm ` set xs"
proof (induction xs)
  case (Cons p rest)
  have "nm x \<noteq> nm y" if "strcmp (nm x) (nm p) < 0" "y \<in> set (p # rest)" for y
  proof (cases "y = p")
    case False
    then have "strcmp (nm x) (nm y) < 0" using Cons.prems that(2) strcmp_less_trans[OF that(1)] by auto
    then show ?thesis by auto
  qed (use that(1) in auto)
  then show ?case using Cons by (auto simp: Let_def)
qed simp

lemma sorted_distinct: "sorted_wrt (byName nm) xs \<Longrightarrow> distinct (map nm xs)"
proof (induction xs)
  case (Cons x xs)
  have "nm x \<noteq> nm y" if "y \<in> set xs" for y
  proof -
    have "strcmp (nm x) (nm y) < 0" using Cons.prems that by simp
    then show ?thesis by auto
  qed
  then show ?case using Cons by auto
qed simp

definition parse_inv :: "'d asbase \<Rightarrow> bool" where
  "parse_inv b \<longleftrightarrow> sorted_wrt (byName a_name) (b_asgList b) \<and> ''DEFAULT'' \<in> a_name ` set (b_asgList b)
     \<and> (\<forall>a \<in> set (b_asgList b). a_memberList a = [])"

lemma parse_inv_updAsg:
  assumes "parse_inv b" and n: "\<And>a. a_name (f a) = a_name a" "\<And>a. a_memberList (f a) = a_memberList a"
  shows "parse_inv (updAsg g f b)"
proof -
  have "a_name ` set (b_asgList (updAsg g f b)) = a_name ` set (b_asgList b)"
    using arg_cong[OF updAsg_names[OF n(1)], of set] by (metis list.set_map)
  moreover have "sorted_wrt (byName a_name) (b_asgList (updAsg g f b))"
    using assms(1) n(1) by (auto simp: parse_inv_def updAsg_def sorted_wrt_map elim!: sorted_wrt_mono_rel[rotated])
  ultimately show ?thesis using assms(1) n(2) by (auto simp: parse_inv_def updAsg_def)
qed

lemma parse_inv_groups [simp]:
  "parse_inv (b\<lparr>b_uagList := us\<rparr>) = parse_inv b" "parse_inv (b\<lparr>b_hagList := us\<rparr>) = parse_inv b"
  "parse_inv (b\<lparr>b_phash := t\<rparr>) = parse_inv b"
  by (simp_all add: parse_inv_def)

lemma parse_inv_asAsgAdd:
  assumes "parse_inv b"
  shows "parse_inv (snd (asAsgAdd z nm b))"
  using assms insertNamed_sorted[of a_name "b_asgList b" "newAsg z nm"]
  by (auto simp: asAsgAdd_def parse_inv_def newAsg_def split: option.split)

lemma parse_inv_updRule: "parse_inv b \<Longrightarrow> parse_inv (updRule rp f b)"
  by (auto simp: updRule_def intro: parse_inv_updAsg split: option.split)

lemma parse_inv_asAsgAddRule: "parse_inv b \<Longrightarrow> parse_inv (snd (asAsgAddRule p ac lv b))"
  by (auto simp: asAsgAddRule_def intro!: parse_inv_updAsg split: option.split)

lemma parse_inv_simple:
  "parse_inv b \<Longrightarrow> parse_inv (snd (asUagAdd nm b))" "parse_inv b \<Longrightarrow> parse_inv (snd (asHagAdd nm b))"
  "parse_inv b \<Longrightarrow> parse_inv (asUagAddUser pu nm b)" "parse_inv b \<Longrightarrow> parse_inv (asHagAddHost ph nm b)"
  "parse_inv b \<Longrightarrow> parse_inv (snd (asAsgRuleUagAdd rp nm b))" "parse_inv b \<Longrightarrow> parse_inv (snd (asAsgRuleHagAdd rp nm b))"
  "parse_inv b \<Longrightarrow> parse_inv (asAsgAddRuleOptions rp m b)"
  by (auto simp: asUagAdd_def asHagAdd_def asUagAddUser_def asHagAddHost_def asAsgRuleUagAdd_def asAsgRuleHagAdd_def
      asAsgAddRuleOptions_def parse_inv_updRule split: option.split)

lemma parse_inv_asAsgAddInp: "parse_inv b \<Longrightarrow> parse_inv (asAsgAddInp p inp ind b)"
  by (auto simp: asAsgAddInp_def intro!: parse_inv_updAsg split: option.split)

lemma parse_inv_asAsgRuleCalc: "parse_inv b \<Longrightarrow> asAsgRuleCalc env rp calc b = Some (s, b') \<Longrightarrow> parse_inv b'"
  by (auto simp: asAsgRuleCalc_def parse_inv_updRule split: if_splits pfresult.splits)

lemma parseAct_inv:
  assumes "parseAct env act y = Some y'" and "parse_inv (yy_base y)"
  shows "parse_inv (yy_base y')"
  using assms parse_inv_simple[OF assms(2)] parse_inv_asAsgAdd[OF assms(2)] parse_inv_asAsgAddRule[OF assms(2)]
    parse_inv_asAsgAddInp[OF assms(2)] parse_inv_asAsgRuleCalc[OF assms(2)]
  by (cases act) (auto simp: yyerrorIf_def Let_def bind_eq_Some_conv split: prod.splits if_splits, (metis snd_conv)+)

lemma myParse_inv: "myParse env acts y = Some (ok, b) \<Longrightarrow> parse_inv (yy_base y) \<Longrightarrow> parse_inv b"
proof (induction acts arbitrary: y)
  case (Cons act acts)
  then show ?case using parseAct_inv[of env act y] by (auto simp: bind_eq_Some_conv split: if_splits)
qed simp

section \<open>Installing\<close>

lemma moveMembers_ok:
  "as_struct M b st \<Longrightarrow> current Q M (as_members st) (as_clients st) b \<Longrightarrow>
   distinct ms \<Longrightarrow> set ms \<inter> M = {} \<Longrightarrow> set ms \<subseteq> dom (as_members st) \<Longrightarrow>
   \<exists>b' st'. moveMembers ms st = Some st' \<and> as_struct (set ms \<union> M) b' st'
     \<and> current Q (set ms \<union> M) (as_members st') (as_clients st') b' \<and> sameRules b b'
     \<and> as_members st' = (\<lambda>ma. if ma \<in> set ms
          then map_option (\<lambda>mem. mem\<lparr>m_pasg := memberGroup (m_asgName mem) b\<rparr>) (as_members st ma) else as_members st ma)
     \<and> as_lock st' = as_lock st
     \<and> (\<forall>ca. map_option sansRights (as_clients st' ca) = map_option sansRights (as_clients st ca))"
proof (induction ms arbitrary: M b st)
  case Nil
  then show ?case by (auto simp: sameRules_def)
next
  case (Cons ma ms)
  obtain mem where m: "as_members st ma = Some mem" using Cons.prems(5) by auto
  have n: "ma \<notin> M" using Cons.prems(4) by auto
  obtain b1 st1 where 1: "asAddMemberPvt ma (Some ma) (m_asgName mem) st = Some (S_ok, Some ma, st1)"
    "as_struct (insert ma M) b1 st1" "current Q (insert ma M) (as_members st1) (as_clients st1) b1"
    "as_members st1 = (as_members st)(ma \<mapsto> mem\<lparr>m_asgName := m_asgName mem, m_pasg := memberGroup (m_asgName mem) b\<rparr>)"
    "sameRules b b1" "as_lock st1 = as_lock st"
    "\<And>ca. map_option sansRights (as_clients st1 ca) = map_option sansRights (as_clients st ca)"
    using asAddMemberPvt_ok[OF Cons.prems(1) m n Cons.prems(2), of ma "m_asgName mem"] by blast
  have dm: "dom (as_members st1) = dom (as_members st)" using 1(4) m by auto
  have p: "distinct ms" "set ms \<inter> insert ma M = {}" "set ms \<subseteq> dom (as_members st1)"
    using Cons.prems(3-5) dm by auto
  obtain b2 st2 where 2: "moveMembers ms st1 = Some st2" "as_struct (set ms \<union> insert ma M) b2 st2"
    "current Q (set ms \<union> insert ma M) (as_members st2) (as_clients st2) b2" "sameRules b1 b2"
    "as_members st2 = (\<lambda>ma. if ma \<in> set ms
          then map_option (\<lambda>mem. mem\<lparr>m_pasg := memberGroup (m_asgName mem) b1\<rparr>) (as_members st1 ma) else as_members st1 ma)"
    "as_lock st2 = as_lock st1"
    "\<And>ca. map_option sansRights (as_clients st2 ca) = map_option sansRights (as_clients st1 ca)"
    using Cons.IH[OF 1(2,3) p] by blast
  have mm: "as_members st2 = (\<lambda>x. if x \<in> set (ma # ms)
      then map_option (\<lambda>mem. mem\<lparr>m_pasg := memberGroup (m_asgName mem) b\<rparr>) (as_members st x) else as_members st x)"
    using 2(5) 1(4) m Cons.prems(3) by (auto simp: fun_eq_iff sameRules_group[OF 1(5)])
  show ?case
    using m 1(1,5,6,7) 2(1-4,6,7) mm sameRules_trans[OF 1(5) 2(4)] by (intro exI[of _ b2] exI[of _ st2]) simp
qed

text \<open>The module before the first configuration.\<close>

definition fresh :: "'d asstate \<Rightarrow> bool" where
  "fresh st \<longleftrightarrow> \<not> as_active st \<and> as_base st = None \<and> as_members st = Map.empty \<and> as_clients st = Map.empty"

definition as_ok :: "'d asstate \<Rightarrow> bool" where
  "as_ok st \<longleftrightarrow> fresh st \<or> as_inv st"

text \<open>What the parser is given: the empty configuration with the group \<open>DEFAULT\<close>.\<close>

definition parseStart :: "'d asenv \<Rightarrow> 'd yystate" where
  "parseStart env = \<lparr>yy_uag = None, yy_hag = None, yy_asg = None, yy_rule = None, yy_failed = False,
     yy_base = snd (asAsgAdd (f_of_int (e_fpu env) 0) ''DEFAULT'' emptyBase)\<rparr>"

lemma parseStart_inv: "parse_inv (yy_base (parseStart env))"
  by (simp add: parseStart_def asAsgAdd_def emptyBase_def parse_inv_def newAsg_def)

lemma asInitialize_alt:
  "asInitialize env acts st0 = do {
     (ok, b1) \<leftarrow> myParse env acts (parseStart env);
     if \<not> ok then Some (S_badConfig, UNLOCK ((LOCK st0)\<lparr>as_basenew := Some b1\<rparr>))
     else do {
       t \<leftarrow> hashNames (groupKeys b1) (gphInitPvt 256);
       st2 \<leftarrow> (case as_base (LOCK st0) of
                None \<Rightarrow> Some ((LOCK st0)\<lparr>as_basenew := Some (b1\<lparr>b_phash := t\<rparr>), as_base := Some (b1\<lparr>b_phash := t\<rparr>)\<rparr>)
              | Some old \<Rightarrow> moveMembers (concat (map a_memberList (b_asgList old)))
                  ((LOCK st0)\<lparr>as_basenew := Some (b1\<lparr>b_phash := t\<rparr>), as_base := Some (b1\<lparr>b_phash := t\<rparr>)\<rparr>));
       Some (S_ok, UNLOCK (st2\<lparr>as_active := True\<rparr>)) } }"
  by (simp add: asInitialize_def parseStart_def Let_def split_def cong: if_cong)

lemma newBase_wf:
  assumes "parse_inv b1"
  shows "\<exists>t. hashNames (groupKeys b1) (gphInitPvt 256) = Some (Some t) \<and> base_wf (b1\<lparr>b_phash := Some t\<rparr>)
    \<and> seated {} mems (b1\<lparr>b_phash := Some t\<rparr>)"
proof -
  obtain t where t: "hashNames (groupKeys b1) (gphInitPvt 256) = Some (Some t)"
    "\<forall>nm g. gphFind (Some t) nm g = Some (if (nm, g) \<in> set (groupKeys b1) then Some (gph_entry (nm, g)) else None)"
    using hashNames_ok by blast
  let ?b = "b1\<lparr>b_phash := Some t\<rparr>"
  have k: "groupKeys ?b = groupKeys b1" by (simp add: groupKeys_def)
  have "base_ok ?b" using t(2) by (auto simp: base_ok_def inGroup_def k)
  moreover have "distinct (map a_name (b_asgList ?b))" using assms sorted_distinct[of a_name "b_asgList b1"] by (simp add: parse_inv_def)
  moreover have "findAsg ''DEFAULT'' ?b \<noteq> None" using assms by (auto simp: findAsg_def parse_inv_def find_None_iff)
  moreover have "seated {} mems ?b" using assms findAsg_name by (fastforce simp: seated_def parse_inv_def)
  ultimately show ?thesis using t(1) unfolding base_wf_def by blast
qed

lemma oldMembers:
  assumes "as_struct (dom (as_members st)) b st"
  shows "distinct (concat (map a_memberList (b_asgList b)))" "set (concat (map a_memberList (b_asgList b))) = dom (as_members st)"
proof -
  note s = as_structD[OF assms]
  have d: "distinct (map a_name (b_asgList b))" using s(3) by (simp add: base_wf_def)
  have f: "findAsg (a_name a) b = Some a" if "a \<in> set (b_asgList b)" for a using findAsg_distinct[OF d that] .
  have disj: "set (a_memberList a) \<inter> set (a_memberList a') = {}"
    if "a \<in> set (b_asgList b)" "a' \<in> set (b_asgList b)" "a_name a \<noteq> a_name a'" for a a'
    using seated_D(2)[OF s(6) f[OF that(1)]] seated_D(2)[OF s(6) f[OF that(2)]] that(3) by auto
  have each: "distinct (a_memberList a)" if "a \<in> set (b_asgList b)" for a by (rule seated_D(1)[OF s(6) f[OF that]])
  have "distinct (concat (map a_memberList as))" if "set as \<subseteq> set (b_asgList b)" "distinct (map a_name as)" for as
    using that
  proof (induction as)
    case (Cons a as)
    have "set (a_memberList a) \<inter> set (a_memberList a') = {}" if "a' \<in> set as" for a'
      using disj[of a a'] Cons.prems that by force
    then have "set (a_memberList a) \<inter> set (concat (map a_memberList as)) = {}" by auto
    then show ?case using Cons each by simp
  qed simp
  then show "distinct (concat (map a_memberList (b_asgList b)))" using d by blast
  have "ma \<in> set (concat (map a_memberList (b_asgList b))) \<longleftrightarrow> ma \<in> dom (as_members st)" for ma
  proof
    assume "ma \<in> set (concat (map a_memberList (b_asgList b)))"
    then obtain a where "a \<in> set (b_asgList b)" "ma \<in> set (a_memberList a)" by auto
    then show "ma \<in> dom (as_members st)" using seated_D(2)[OF s(6) f] by blast
  next
    assume ma: "ma \<in> dom (as_members st)"
    then obtain g a where g: "memGroup (as_members st) ma = Some g" "findAsg g b = Some a"
      using s(6) unfolding seated_def by (metis not_None_eq)
    then have "ma \<in> set (a_memberList a)" using seated_D(2)[OF s(6) g(2)] ma by blast
    then show "ma \<in> set (concat (map a_memberList (b_asgList b)))" using findAsg_name[OF g(2)] by auto
  qed
  then show "set (concat (map a_memberList (b_asgList b))) = dom (as_members st)" by blast
qed

text \<open>A bad configuration changes nothing but the pointer to the unfinished one.\<close>

lemma asInitialize_bad:
  assumes "myParse env acts (parseStart env) = Some (False, b1)"
  shows "asInitialize env acts st = Some (S_badConfig, st\<lparr>as_basenew := Some b1\<rparr>)"
  using assms by (simp add: asInitialize_alt LOCK_def UNLOCK_def)

text \<open>A good one is installed: its groups and rules as parsed, all members and clients kept, rights recomputed.\<close>

lemma asInitialize_good:
  assumes p: "myParse env acts (parseStart env) = Some (True, b1)" and ok: "as_ok st"
  shows "\<exists>st' b. asInitialize env acts st = Some (S_ok, st') \<and> as_inv st' \<and> as_base st' = Some b
    \<and> (\<exists>t. sameRules (b1\<lparr>b_phash := t\<rparr>) b) \<and> as_lock st' = as_lock st
    \<and> as_members st' = (\<lambda>ma. map_option (\<lambda>mem. mem\<lparr>m_pasg := memberGroup (m_asgName mem) b\<rparr>) (as_members st ma))
    \<and> (\<forall>ca. map_option sansRights (as_clients st' ca) = map_option sansRights (as_clients st ca))"
proof -
  have pi: "parse_inv b1" by (rule myParse_inv[OF p parseStart_inv])
  obtain t where t: "hashNames (groupKeys b1) (gphInitPvt 256) = Some (Some t)" "base_wf (b1\<lparr>b_phash := Some t\<rparr>)"
    "seated {} (as_members st) (b1\<lparr>b_phash := Some t\<rparr>)" using newBase_wf[OF pi] by blast
  let ?b = "b1\<lparr>b_phash := Some t\<rparr>"
  let ?st1 = "(LOCK st)\<lparr>as_basenew := Some ?b, as_base := Some ?b\<rparr>"
  have cur0: "current UNIV {} mems cls ?b" for mems cls by (simp add: current_def)
  show ?thesis
  proof (cases "fresh st")
    case True
    let ?st' = "UNLOCK (?st1\<lparr>as_active := True\<rparr>)"
    have e: "as_members st = Map.empty" "as_clients st = Map.empty" "as_base st = None" using True by (auto simp: fresh_def)
    have "links Map.empty Map.empty" by (simp add: links_def linked_lists_def listsOf_def ownersOf_def)
    then have "as_struct {} ?b ?st'" using t(2,3) e by (simp add: as_struct_def)
    then have "as_inv ?st'" by (rule as_invI) (simp_all add: e cur0)
    moreover have "asInitialize env acts st = Some (S_ok, ?st')" using p t(1) e(3) by (simp add: asInitialize_alt)
    moreover have "sameRules ?b ?b" by (simp add: sameRules_def)
    ultimately show ?thesis
      by (intro exI[of _ ?st'] exI[of _ ?b] conjI) (auto simp: LOCK_def UNLOCK_def e)
  next
    case False
    then have "as_inv st" using ok by (simp add: as_ok_def)
    then obtain old where o: "as_struct (dom (as_members st)) old st" by (metis as_invD)
    note s = as_structD[OF o] and om = oldMembers[OF o]
    let ?ms = "concat (map a_memberList (b_asgList old))"
    have st1: "as_struct {} ?b ?st1" using s t(2,3) by (simp add: as_struct_def)
    obtain b' st2 where r: "moveMembers ?ms ?st1 = Some st2" "as_struct (set ?ms \<union> {}) b' st2"
      "current UNIV (set ?ms \<union> {}) (as_members st2) (as_clients st2) b'" "sameRules ?b b'"
      "as_members st2 = (\<lambda>ma. if ma \<in> set ?ms
          then map_option (\<lambda>mem. mem\<lparr>m_pasg := memberGroup (m_asgName mem) ?b\<rparr>) (as_members ?st1 ma) else as_members ?st1 ma)"
      "as_lock st2 = as_lock ?st1"
      "\<And>ca. map_option sansRights (as_clients st2 ca) = map_option sansRights (as_clients ?st1 ca)"
      using moveMembers_ok[OF st1 cur0 om(1)] om(2) by (auto simp del: set_concat)
    let ?st' = "UNLOCK (st2\<lparr>as_active := True\<rparr>)"
    have sr: "as_struct (set ?ms) b' ?st'" using r(2) by (simp add: as_struct_def)
    have mems: "as_members ?st' = (\<lambda>ma. map_option (\<lambda>mem. mem\<lparr>m_pasg := memberGroup (m_asgName mem) b'\<rparr>) (as_members st ma))"
      unfolding sameRules_group[OF r(4)] using r(5) om(2) by (auto simp: fun_eq_iff domIff simp del: set_concat)
    then have "dom (as_members ?st') = dom (as_members st)" by (auto simp: dom_def)
    then have "set ?ms = dom (as_members ?st')" using om(2) by simp
    with sr have inv: "as_inv ?st'" using r(3) by (intro as_invI[of "set ?ms" b']) simp_all
    have run: "asInitialize env acts st = Some (S_ok, ?st')" using p t(1) s(2) r(1) by (simp add: asInitialize_alt)
    show ?thesis
      using r(2,4,6,7) mems
      by (intro exI[of _ ?st'] exI[of _ b'] conjI run inv exI[of _ "Some t"]) (simp_all add: as_struct_def)
  qed
qed

end
