(* ===== verification/AsSecurity.thy ===== *)
theory AsSecurity
  imports AsConfig
begin

text \<open>
  The system of all operations of access security, its reachable states, and what it promises: at any
  reachable state the module answers access questions exactly as the installed configuration says.
\<close>

section \<open>Operations and runs\<close>

datatype 'd asop = OInitialize "pact list"
  | OAddMember addr ptr string | ORemoveMember ptr | OChangeGroup ptr string | OPutMemberPvt ptr ptr
  | OAddClient ptr ptr int string string | OChangeClient ptr int string string | ORemoveClient ptr
  | ORegister ptr addr | OPutClientPvt ptr ptr
  | OCompute ptr | OComputeAsg string | OComputeAllAsg
  | OCallback "'d cacall" | OStartCa "'d cacall list list"

fun asStep :: "'d asenv \<Rightarrow> 'd asop \<Rightarrow> 'd asstate \<Rightarrow> 'd asstate option" where
  "asStep env (OInitialize acts) st = map_option snd (asInitialize env acts st)"
| "asStep env (OAddMember new pmem nm) st = map_option (snd \<circ> snd) (asAddMember new pmem nm st)"
| "asStep env (ORemoveMember pmem) st = map_option (snd \<circ> snd) (asRemoveMember pmem st)"
| "asStep env (OChangeGroup pmem nm) st = map_option (snd \<circ> snd) (asChangeGroup pmem nm st)"
| "asStep env (OPutMemberPvt pmem p) st = asPutMemberPvt pmem p st"
| "asStep env (OAddClient new pmem asl user host) st = map_option (snd \<circ> snd) (asAddClient new pmem asl user host st)"
| "asStep env (OChangeClient cp asl user host) st = map_option snd (asChangeClient cp asl user host st)"
| "asStep env (ORemoveClient cp) st = map_option (snd \<circ> snd) (asRemoveClient cp st)"
| "asStep env (ORegister cp f) st = map_option snd (asRegisterClientCallback cp f st)"
| "asStep env (OPutClientPvt cp p) st = asPutClientPvt cp p st"
| "asStep env (OCompute cp) st = map_option snd (asCompute cp st)"
| "asStep env (OComputeAsg g) st = map_option snd (asComputeAsg env g st)"
| "asStep env OComputeAllAsg st = map_option snd (asComputeAllAsg env st)"
| "asStep env (OCallback e) st = caCallback env False e st"
| "asStep env (OStartCa calls) st = asCaTaskStart env calls st"

text \<open>
  What a caller must respect: pointers are \<open>NULL\<close> or name something that exists, a new address is one
  that is not in use, the parser does not fault, and the calculations of the configuration do not fault
  when they are run.
\<close>

definition memberPtr :: "ptr \<Rightarrow> 'd asstate \<Rightarrow> bool" where
  "memberPtr p st \<longleftrightarrow> (\<forall>ma. p = Some ma \<longrightarrow> as_members st ma \<noteq> None)"

definition clientPtr :: "ptr \<Rightarrow> 'd asstate \<Rightarrow> bool" where
  "clientPtr p st \<longleftrightarrow> (\<forall>ca. p = Some ca \<longrightarrow> as_clients st ca \<noteq> None)"

definition calcsOk :: "'d asenv \<Rightarrow> 'd asstate \<Rightarrow> bool" where
  "calcsOk env st \<longleftrightarrow> (case as_base st of None \<Rightarrow> True | Some b \<Rightarrow> calcs_total env b)"

definition hasGroup :: "'d asstate \<Rightarrow> string \<Rightarrow> bool" where
  "hasGroup st g \<longleftrightarrow> (case as_base st of None \<Rightarrow> False | Some b \<Rightarrow> findAsg g b \<noteq> None)"

definition callsOk :: "'d asstate \<Rightarrow> 'd cacall list \<Rightarrow> bool" where
  "callsOk st es \<longleftrightarrow> (case as_base st of None \<Rightarrow> False | Some b \<Rightarrow> \<forall>e \<in> set es. callOk b e)"

fun fits :: "'d asenv \<Rightarrow> 'd asop \<Rightarrow> 'd asstate \<Rightarrow> bool" where
  "fits env (OInitialize acts) st \<longleftrightarrow> myParse env acts (parseStart env) \<noteq> None"
| "fits env (OAddMember new pmem nm) st \<longleftrightarrow> pmem = None \<and> as_members st new = None"
| "fits env (ORemoveMember pmem) st \<longleftrightarrow> memberPtr pmem st"
| "fits env (OChangeGroup pmem nm) st \<longleftrightarrow> memberPtr pmem st"
| "fits env (OPutMemberPvt pmem p) st \<longleftrightarrow> memberPtr pmem st"
| "fits env (OAddClient new pmem asl user host) st \<longleftrightarrow> memberPtr pmem st \<and> (\<forall>ca. new = Some ca \<longrightarrow> as_clients st ca = None)"
| "fits env (OChangeClient cp asl user host) st \<longleftrightarrow> clientPtr cp st"
| "fits env (ORemoveClient cp) st \<longleftrightarrow> clientPtr cp st"
| "fits env (ORegister cp f) st \<longleftrightarrow> clientPtr cp st"
| "fits env (OPutClientPvt cp p) st \<longleftrightarrow> clientPtr cp st"
| "fits env (OCompute cp) st \<longleftrightarrow> clientPtr cp st"
| "fits env (OComputeAsg g) st \<longleftrightarrow> (as_active st \<longrightarrow> hasGroup st g) \<and> calcsOk env st"
| "fits env OComputeAllAsg st \<longleftrightarrow> calcsOk env st"
| "fits env (OCallback e) st \<longleftrightarrow> callsOk st [e] \<and> calcsOk env st"
| "fits env (OStartCa calls) st \<longleftrightarrow> as_active st \<and> callsOk st (concat calls) \<and> calcsOk env st"

inductive as_reach :: "'d asenv \<Rightarrow> 'd asstate \<Rightarrow> bool" for env where
  init: "fresh st \<Longrightarrow> as_reach env st"
| step: "as_reach env st \<Longrightarrow> fits env op st \<Longrightarrow> asStep env op st = Some st' \<Longrightarrow> as_reach env st'"

text \<open>The one call that keeps the mutex.\<close>

definition leaks :: "'d asop \<Rightarrow> 'd asstate \<Rightarrow> bool" where
  "leaks op st \<longleftrightarrow> as_active st \<and> (\<exists>ma mem. op = ORemoveMember (Some ma) \<and> as_members st ma = Some mem \<and> m_clientList mem \<noteq> [])"

section \<open>Every operation keeps the invariant\<close>

lemma fresh_step:
  assumes f: "fresh st" and k: "fits env op st"
  shows "\<exists>st'. asStep env op st = Some st' \<and> as_ok st' \<and> as_lock st' = as_lock st"
proof (cases "\<exists>acts. op = OInitialize acts")
  case True
  then obtain acts where op: "op = OInitialize acts" by blast
  obtain ok b1 where p: "myParse env acts (parseStart env) = Some (ok, b1)" using k op by auto
  show ?thesis
  proof (cases ok)
    case True
    then show ?thesis using asInitialize_good[of env acts b1 st] p f op by (auto simp: as_ok_def)
  next
    case False
    then have "asInitialize env acts st = Some (S_badConfig, st\<lparr>as_basenew := Some b1\<rparr>)"
      using p by (intro asInitialize_bad) simp
    then show ?thesis using f op by (simp add: as_ok_def fresh_def)
  qed
next
  case False
  then have "asStep env op st = Some st"
    using f k by (cases op) (auto simp: fresh_def callsOk_def asAddMember_def asRemoveMember_def asChangeGroup_def
      asPutMemberPvt_def asAddClient_def asChangeClient_def asRemoveClient_def asRegisterClientCallback_def
      asPutClientPvt_def asCompute_def asComputeAsg_def asComputeAllAsg_def)
  then show ?thesis using f by (simp add: as_ok_def)
qed

lemma as_inv_at: "as_inv st \<Longrightarrow> calcsOk env st \<Longrightarrow> \<exists>b. as_base st = Some b \<and> as_at env UNIV b st"
  unfolding as_inv_def as_at_def calcsOk_def using as_structD(2) by fastforce

lemma as_at_inv: "as_at env UNIV b st \<Longrightarrow> as_inv st"
  unfolding as_inv_def as_at_def by blast

lemma basenew_inv [simp]: "as_inv (st\<lparr>as_basenew := x\<rparr>) = as_inv st"
  by (simp add: as_inv_def as_struct_def)

lemma inv_step_compute:
  assumes i: "as_inv st" and k: "fits env op st"
    and op: "(\<exists>g. op = OComputeAsg g) \<or> op = OComputeAllAsg \<or> (\<exists>e. op = OCallback e) \<or> (\<exists>c. op = OStartCa c)"
  shows "\<exists>st'. asStep env op st = Some st' \<and> as_inv st' \<and> as_lock st' = as_lock st"
proof -
  have "calcsOk env st" using op k by auto
  then obtain b where b: "as_base st = Some b" "as_at env UNIV b st" using as_inv_at[OF i] by blast
  have act: "as_active st" by (rule as_inv_active[OF i])
  from op consider g where "op = OComputeAsg g" | "op = OComputeAllAsg" | e where "op = OCallback e" | c where "op = OStartCa c"
    by blast
  then show ?thesis
  proof cases
    case 1
    then obtain a where "findAsg g b = Some a" using k b(1) act by (auto simp: hasGroup_def)
    from asComputeAsg_ok[OF b(2) this] show ?thesis using 1 as_at_inv by (fastforce simp: keeps_def)
  next
    case 2
    then show ?thesis using asComputeAllAsg_ok[OF b(2)] as_at_inv by (fastforce simp: keeps_def)
  next
    case 3
    then have "callOk b e" using k b(1) by (simp add: callsOk_def)
    from caCallback_ok[OF b(2) this, of False] show ?thesis using 3 as_at_inv by (fastforce simp: keeps_def stillCurrent_def)
  next
    case 4
    then have "\<forall>es \<in> set c. \<forall>e \<in> set es. callOk b e" using k b(1) by (simp add: callsOk_def)
    from asCaTaskStart_ok[OF b(2) this] show ?thesis using 4 as_at_inv by (fastforce simp: keeps_def)
  qed
qed

lemma inv_step_member:
  assumes i: "as_inv st" and k: "fits env op st"
    and op: "(\<exists>n p g. op = OAddMember n p g) \<or> (\<exists>p. op = ORemoveMember p) \<or> (\<exists>p g. op = OChangeGroup p g)
      \<or> (\<exists>p u. op = OPutMemberPvt p u)"
  shows "\<exists>st'. asStep env op st = Some st' \<and> as_inv st' \<and> as_lock st' = as_lock st + (if leaks op st then 1 else 0)"
proof -
  have act: "as_active st" by (rule as_inv_active[OF i])
  from op consider n g where "op = OAddMember n None g" | "op = ORemoveMember None" | "\<exists>g. op = OChangeGroup None g"
    | "\<exists>u. op = OPutMemberPvt None u" | ma where "op = ORemoveMember (Some ma)" | ma g where "op = OChangeGroup (Some ma) g"
    | ma u where "op = OPutMemberPvt (Some ma) u"
    using k by (metis fits.simps(2) option.exhaust)
  then show ?thesis
  proof cases
    case 1
    then show ?thesis using asAddMember_inv[OF i, of n g] k by (fastforce simp: leaks_def)
  next
    case 5
    then obtain mem where m: "as_members st ma = Some mem" using k by (auto simp: memberPtr_def)
    show ?thesis
    proof (cases "m_clientList mem = []")
      case True
      then show ?thesis using asRemoveMember_inv[OF i m] 5 m by (auto simp: leaks_def)
    next
      case False
      then show ?thesis using asRemoveMember_inv[OF i m] 5 m i act by (simp add: leaks_def)
    qed
  next
    case 6
    then obtain mem where m: "as_members st ma = Some mem" using k by (auto simp: memberPtr_def)
    then show ?thesis using asChangeGroup_inv[OF i m, of g] 6 by (fastforce simp: leaks_def)
  next
    case 7
    then obtain mem where m: "as_members st ma = Some mem" using k by (auto simp: memberPtr_def)
    then show ?thesis using asPutMemberPvt_inv[OF i m, of u] 7 by (fastforce simp: leaks_def)
  qed (use i act in \<open>auto simp: asRemoveMember_def asChangeGroup_def asPutMemberPvt_def leaks_def\<close>)
qed

text \<open>A \<open>NULL\<close> pointer is answered with a status and changes nothing.\<close>

lemma null_client:
  assumes "as_active st"
  shows "asStep env (OChangeClient None a u h) st = Some st" "asStep env (ORemoveClient None) st = Some st"
    "asStep env (ORegister None f) st = Some st" "asStep env (OPutClientPvt None p) st = Some st"
    "asStep env (OAddClient n None a u h) st = Some st" "asStep env (OAddClient None (Some ma) a u h) st = Some st"
    "asStep env (OCompute None) st = Some (UNLOCK (LOCK st))"
  using assms by (simp_all add: asChangeClient_def asRemoveClient_def asRegisterClientCallback_def asPutClientPvt_def
      asAddClient_def asCompute_def asComputePvt_def)

lemma UNLOCK_LOCK [simp]: "UNLOCK (LOCK st) = st"
  by (simp add: LOCK_def UNLOCK_def)

lemma inv_step_addClient:
  assumes i: "as_inv st" and k: "fits env (OAddClient n p a u h) st"
  shows "\<exists>st'. asStep env (OAddClient n p a u h) st = Some st' \<and> as_inv st' \<and> as_lock st' = as_lock st"
proof -
  note nul = null_client[OF as_inv_active[OF i]]
  show ?thesis
  proof (cases p)
    case None
    then show ?thesis using nul(5) i by (simp del: asStep.simps)
  next
    case (Some ma)
    show ?thesis
    proof (cases n)
      case None
      then show ?thesis using Some nul(6) i by (simp del: asStep.simps)
    next
      case n: (Some ca)
      obtain mem where "as_members st ma = Some mem" using k Some by (auto simp: memberPtr_def)
      then obtain st' where "asAddClient (Some ca) (Some ma) a u h st = Some (S_ok, Some ca, st')" "as_inv st'"
        "as_lock st' = as_lock st" using asAddClient_inv[OF i, of ma mem ca a u h] k n by auto
      then show ?thesis using Some n by simp
    qed
  qed
qed

lemma inv_step_client:
  assumes i: "as_inv st" and k: "clientPtr p st"
    and op: "op \<in> {OChangeClient p a u h, ORemoveClient p, ORegister p f, OPutClientPvt p q, OCompute p}"
  shows "\<exists>st'. asStep env op st = Some st' \<and> as_inv st' \<and> as_lock st' = as_lock st"
proof (cases p)
  case None
  then have "asStep env op st = Some st" using null_client[OF as_inv_active[OF i]] op by (auto simp del: asStep.simps)
  then show ?thesis using i by simp
next
  case (Some ca)
  then obtain c where c: "as_clients st ca = Some c" using k by (auto simp: clientPtr_def)
  obtain s1 where 1: "asChangeClient p a u h st = Some (S_ok, s1)" "as_inv s1" "as_lock s1 = as_lock st"
    using asChangeClient_inv[OF i c, of a u h] Some by blast
  obtain s2 where 2: "asRemoveClient p st = Some (S_ok, None, s2)" "as_inv s2" "as_lock s2 = as_lock st"
    using asRemoveClient_inv[OF i c] Some by blast
  obtain s3 where 3: "asRegisterClientCallback p f st = Some (S_ok, s3)" "as_inv s3" "as_lock s3 = as_lock st"
    using asRegisterClientCallback_inv[OF i c, of f] Some by blast
  obtain s4 where 4: "asPutClientPvt p q st = Some s4" "as_inv s4" "as_lock s4 = as_lock st"
    using asPutClientPvt_inv[OF i c, of q] Some by blast
  obtain s5 where 5: "asCompute p st = Some (S_ok, s5)" "as_inv s5" "as_lock s5 = as_lock st"
    using asCompute_inv[OF i c] Some by blast
  from op consider "op = OChangeClient p a u h" | "op = ORemoveClient p" | "op = ORegister p f" | "op = OPutClientPvt p q"
    | "op = OCompute p" by blast
  then show ?thesis by cases (simp_all add: 1 2 3 4 5)
qed

lemma inv_step_init:
  assumes i: "as_inv st" and k: "fits env (OInitialize acts) st"
  shows "\<exists>st'. asStep env (OInitialize acts) st = Some st' \<and> as_inv st' \<and> as_lock st' = as_lock st"
proof -
  obtain ok b1 where p: "myParse env acts (parseStart env) = Some (ok, b1)" using k by auto
  show ?thesis
  proof (cases ok)
    case True
    then show ?thesis using asInitialize_good[of env acts b1 st] p i by (auto simp: as_ok_def)
  next
    case False
    then show ?thesis using asInitialize_bad[of env acts b1 st] p i by simp
  qed
qed

lemma as_ok_step:
  assumes ok: "as_ok st" and k: "fits env op st"
  shows "\<exists>st'. asStep env op st = Some st' \<and> as_ok st' \<and> as_lock st' = as_lock st + (if leaks op st then 1 else 0)"
proof (cases "fresh st")
  case True
  then have "\<not> leaks op st" by (simp add: leaks_def fresh_def)
  then show ?thesis using fresh_step[OF True k] by auto
next
  case False
  then have i: "as_inv st" using ok by (simp add: as_ok_def)
  have "\<exists>st'. asStep env op st = Some st' \<and> as_inv st' \<and> as_lock st' = as_lock st + (if leaks op st then 1 else 0)"
  proof (cases op)
    case (OInitialize acts)
    then show ?thesis using inv_step_init[OF i, of env acts] k by (simp add: leaks_def)
  next
    case (OAddClient n p a u h)
    then show ?thesis using inv_step_addClient[OF i, of env n p a u h] k by (simp add: leaks_def)
  next
    case (OChangeClient p a u h)
    then show ?thesis using inv_step_client[OF i, of p op a u h] k by (simp add: leaks_def)
  next
    case (ORemoveClient p)
    then show ?thesis using inv_step_client[OF i, of p op] k by (simp add: leaks_def)
  next
    case (ORegister p f)
    then show ?thesis using inv_step_client[OF i, of p op _ _ _ f] k by (simp add: leaks_def)
  next
    case (OPutClientPvt p q)
    then show ?thesis using inv_step_client[OF i, of p op _ _ _ _ q] k by (simp add: leaks_def)
  next
    case (OCompute p)
    then show ?thesis using inv_step_client[OF i, of p op] k by (simp add: leaks_def)
  next
    case (OComputeAsg g)
    then show ?thesis using inv_step_compute[OF i k] by (simp add: leaks_def)
  next
    case OComputeAllAsg
    then show ?thesis using inv_step_compute[OF i k] by (simp add: leaks_def)
  next
    case (OCallback e)
    then show ?thesis using inv_step_compute[OF i k] by (simp add: leaks_def)
  next
    case (OStartCa c)
    then show ?thesis using inv_step_compute[OF i k] by (simp add: leaks_def)
  qed (rule inv_step_member[OF i k]; simp)+
  then show ?thesis by (auto simp: as_ok_def)
qed

lemma reach_ok: "as_reach env st \<Longrightarrow> as_ok st"
proof (induction rule: as_reach.induct)
  case (init st)
  then show ?case by (simp add: as_ok_def)
next
  case (step st op st')
  then show ?case using as_ok_step[OF step.IH step.hyps(2)] by auto
qed

end
