(* ===== verification/AsProps.thy ===== *)
theory AsProps
  imports AsSecurity CalcSafety
begin

text \<open>
  What access security promises, over all reachable states and for the single operations, with a
  configuration the statements are applied to.
\<close>

section \<open>A run\<close>

text \<open>
  A configuration with a user group, a host group and a rule that needs both; a member in the group
  \<open>motors\<close>, and a client that is allowed to write.
\<close>

definition demoEnv :: "int asenv" where
  "demoEnv = \<lparr>e_fpu = intFpu, e_scan = demoScan, e_junk = CHR ''x''\<rparr>"

definition demoConf :: "pact list" where
  "demoConf = [PUag ''ops'', PUagUser ''anna'', PHag ''room'', PHagHost ''HOSTA'',
     PAsg ''motors'', PRule 1 ''READ'', PRule 1 ''WRITE'', PRuleUag ''ops'', PRuleHag ''room'']"

definition fresh0 :: "int asstate" where
  "fresh0 = \<lparr>as_base = None, as_basenew = None, as_active = False, as_members = Map.empty, as_clients = Map.empty,
     as_lock = 0, as_calls = [], as_seed = 0\<rparr>"

definition demo1 :: "int asstate" where "demo1 = the (asStep demoEnv (OInitialize demoConf) fresh0)"
definition demo2 :: "int asstate" where "demo2 = the (asStep demoEnv (OAddMember 1 None ''motors'') demo1)"
definition demo3 :: "int asstate" where "demo3 = the (asStep demoEnv (OAddClient (Some 7) (Some 1) 1 ''anna'' ''HostA'') demo2)"

lemma is_SomeI: "(case x of None \<Rightarrow> False | Some _ \<Rightarrow> True) \<Longrightarrow> x = Some (the x)"
  by (cases x) auto

lemma demo_parse: "case myParse demoEnv demoConf (parseStart demoEnv) of None \<Rightarrow> False | Some (ok, _) \<Rightarrow> ok"
  by code_simp

lemma demo_steps:
  "asStep demoEnv (OInitialize demoConf) fresh0 = Some demo1"
  "asStep demoEnv (OAddMember 1 None ''motors'') demo1 = Some demo2"
  "asStep demoEnv (OAddClient (Some 7) (Some 1) 1 ''anna'' ''HostA'') demo2 = Some demo3"
proof -
  show "asStep demoEnv (OInitialize demoConf) fresh0 = Some demo1"
    unfolding demo1_def by (rule is_SomeI) code_simp
  show "asStep demoEnv (OAddMember 1 None ''motors'') demo1 = Some demo2"
    unfolding demo2_def by (rule is_SomeI) code_simp
  show "asStep demoEnv (OAddClient (Some 7) (Some 1) 1 ''anna'' ''HostA'') demo2 = Some demo3"
    unfolding demo3_def by (rule is_SomeI) code_simp
qed

lemma fresh0: "fresh fresh0"
  by (simp add: fresh_def fresh0_def)

lemma demo_fits:
  "fits demoEnv (OInitialize demoConf) fresh0"
  "fits demoEnv (OAddMember 1 None ''motors'') demo1"
  "fits demoEnv (OAddClient (Some 7) (Some 1) 1 ''anna'' ''HostA'') demo2"
proof -
  show "fits demoEnv (OInitialize demoConf) fresh0" using demo_parse by (auto split: option.splits)
  have "Option.is_none (as_members demo1 1)" unfolding demo1_def by code_simp
  then show "fits demoEnv (OAddMember 1 None ''motors'') demo1" by (simp add: Option.is_none_def)
  have "\<not> Option.is_none (as_members demo2 1)" "Option.is_none (as_clients demo2 7)"
    unfolding demo2_def demo1_def by code_simp+
  then show "fits demoEnv (OAddClient (Some 7) (Some 1) 1 ''anna'' ''HostA'') demo2"
    by (simp add: memberPtr_def Option.is_none_def)
qed

lemma demo_reach: "as_reach demoEnv demo1" "as_reach demoEnv demo2" "as_reach demoEnv demo3"
proof -
  show 1: "as_reach demoEnv demo1" by (rule as_reach.step[OF as_reach.init[OF fresh0] demo_fits(1) demo_steps(1)])
  show 2: "as_reach demoEnv demo2" by (rule as_reach.step[OF 1 demo_fits(2) demo_steps(2)])
  show "as_reach demoEnv demo3" by (rule as_reach.step[OF 2 demo_fits(3) demo_steps(3)])
qed

lemma demo_client: "\<exists>c. as_clients demo3 7 = Some c \<and> c_user c = ''anna'' \<and> c_host c = ''hosta''"
proof -
  have "case as_clients demo3 7 of None \<Rightarrow> False | Some c \<Rightarrow> c_user c = ''anna'' \<and> c_host c = ''hosta''"
    unfolding demo3_def demo2_def demo1_def by code_simp
  then show ?thesis by (auto split: option.splits)
qed

section \<open>Properties\<close>

lemma as_inv_current:
  assumes "as_inv st" and "as_clients st ca = Some c"
  shows "\<exists>b a. linked st ca c b a \<and> (c_access c, c_trapMask c) = rightsOf b a c"
proof -
  obtain b where b: "as_struct (dom (as_members st)) b st"
      "current UNIV (dom (as_members st)) (as_members st) (as_clients st) b" using as_invD[OF assms(1)] .
  note s = as_structD[OF b(1)]
  obtain ma mem where ma: "c_pasgMember c = Some ma" "as_members st ma = Some mem" using links_owner[OF s(5) assms(2)] by blast
  obtain g where g: "m_pasg mem = Some g" "memGroup (as_members st) ma = Some g" using member_group[OF b(1) ma(2)] by blast
  obtain a where a: "findAsg g b = Some a" using seated_found[OF s(6) _ g(2)] ma(2) by blast
  have "hasRights b a c" using currentD[OF b(2) assms(2) ma(1) _ g(2) _ a] ma(2) by auto
  moreover have "linked st ca c b a" using s(1,2) assms(2) ma g(1) a by (auto simp: linked_def)
  ultimately show ?thesis unfolding hasRights_def by blast
qed

lemma granted_ge:
  assumes "asNOACCESS < r"
  shows "r \<le> grantedAccess b n c rs \<longleftrightarrow> (\<exists>x \<in> set rs. ruleMatches b n c x \<and> r \<le> r_access x)"
proof -
  have "r \<le> grantedAccess b n c rs \<longleftrightarrow>
      (\<exists>y \<in> insert asNOACCESS (r_access ` {x \<in> set rs. ruleMatches b n c x}). r \<le> y)"
    unfolding grantedAccess_def by (rule Max_ge_iff) auto
  then show ?thesis using assms by (auto simp: not_le)
qed

text \<open>C10. In every state the module can reach from its start, through any sequence of operations and
  input events, the rights kept with a client are those the installed configuration gives it now, and
  the two access checks answer exactly that: a write (read) is allowed iff some rule that grants it
  matches the client's level, user, host and calculation.\<close>

theorem access_checks_exact:
  assumes "as_reach env st" and "as_clients st ca = Some c"
  shows "\<exists>b a. linked st ca c b a \<and> (c_access c, c_trapMask c) = rightsOf b a c
    \<and> asCheckPut ca st = Some (\<exists>r \<in> set (a_ruleList a). ruleMatches b (a_inpBad a) c r \<and> r_access r = asWRITE)
    \<and> asCheckGet ca st = Some (\<exists>r \<in> set (a_ruleList a). ruleMatches b (a_inpBad a) c r \<and> asREAD \<le> r_access r)"
proof -
  have "as_ok st" by (rule reach_ok[OF assms(1)])
  then have i: "as_inv st" using assms(2) by (auto simp: as_ok_def fresh_def)
  obtain b a where ba: "linked st ca c b a" "(c_access c, c_trapMask c) = rightsOf b a c"
    using as_inv_current[OF i assms(2)] by blast
  have acc: "c_access c = grantedAccess b (a_inpBad a) c (a_ruleList a)" using ba(2) by (simp add: rightsOf_def)
  have w: "asWRITE \<le> x \<longleftrightarrow> x = asWRITE" for x by (cases x) (simp_all add: less_eq_asAccessRights_def)
  have lt: "asNOACCESS < asREAD" "asNOACCESS < asWRITE" by (simp_all add: less_asAccessRights_def)
  show ?thesis
    using ba assms(2) as_inv_active[OF i] granted_ge[OF lt(1), of b "a_inpBad a" c "a_ruleList a"]
      granted_ge[OF lt(2), of b "a_inpBad a" c "a_ruleList a"]
    by (intro exI[of _ b] exI[of _ a]) (simp add: asCheckPut_def asCheckGet_def acc w)
qed

theorem access_checks_exact_witness: "\<exists>c. as_clients demo3 7 = Some c \<and> asCheckPut 7 demo3 = Some True"
proof -
  obtain c where c: "as_clients demo3 7 = Some c" using demo_client by blast
  obtain x where x: "asCheckPut 7 demo3 = Some x" using access_checks_exact[OF demo_reach(3) c] by blast
  have "case asCheckPut 7 demo3 of None \<Rightarrow> False | Some x \<Rightarrow> x"
    unfolding demo3_def demo2_def demo1_def by code_simp
  then show ?thesis using c x by simp
qed

text \<open>The parser runs \<open>postfix\<close> on the texts of the calculations: it does not fault on those of up to 79 characters.\<close>

lemma myParse_total:
  assumes "e_junk env \<noteq> CHR ''(''" and "\<forall>calc. PCalc calc \<in> set acts \<longrightarrow> length calc \<le> 79"
  shows "myParse env acts y \<noteq> None"
  using assms(2)
proof (induction acts arbitrary: y)
  case (Cons act acts)
  have "parseAct env act y \<noteq> None"
  proof (cases act)
    case (PCalc calc)
    then have "length calc \<le> 79" using Cons.prems by simp
    then have "postfix (e_scan env) (e_junk env) calc \<noteq> PFault" by (rule pf_no_fault[OF _ assms(1)])
    then show ?thesis
      using PCalc by (auto simp: asAsgRuleCalc_def bind_eq_None_conv split: pfresult.splits)
  qed (auto simp: Let_def split: prod.splits)
  then show ?case using Cons by (auto simp del: parseAct.simps)
qed simp

text \<open>C11. In every reachable state every operation that respects \<open>fits\<close> returns, leads to a state that again
  satisfies the invariant, and leaves the mutex as it found it, except \<open>asRemoveMember\<close> on a member that still
  has clients. What \<open>fits\<close> asks for: pointers are \<open>NULL\<close> or name a member or client that exists, and new ones get an
  address not in use; \<open>asAddMember\<close> is called for a new member only (with an existing one the code puts it in a
  second list); the parser of a configuration does not fault (\<open>myParse_total\<close> gives this for calculations of up to 79 characters); and where
  calculations are run, the group asked for exists and no calculation of the configuration leaves its value stack,
  as an accepted \<open>MAX(A)\<close> would.\<close>

theorem asStep_keeps_invariant:
  assumes "as_reach env st" and "fits env op st"
  shows "\<exists>st'. asStep env op st = Some st' \<and> as_reach env st' \<and> (as_active st' \<longrightarrow> as_inv st')
    \<and> as_lock st' = as_lock st + (if leaks op st then 1 else 0)"
proof -
  obtain st' where r: "asStep env op st = Some st'" "as_ok st'" "as_lock st' = as_lock st + (if leaks op st then 1 else 0)"
    using as_ok_step[OF reach_ok[OF assms(1)] assms(2)] by blast
  then show ?thesis using as_reach.step[OF assms r(1)] by (auto simp: as_ok_def fresh_def)
qed

theorem asStep_keeps_invariant_witness:
  "\<exists>st'. asStep demoEnv (OChangeGroup (Some 1) ''DEFAULT'') demo3 = Some st' \<and> as_reach demoEnv st' \<and> as_lock st' = as_lock demo3"
proof -
  have "\<not> Option.is_none (as_members demo3 1)" unfolding demo3_def demo2_def demo1_def by code_simp
  then have "fits demoEnv (OChangeGroup (Some 1) ''DEFAULT'') demo3" by (simp add: memberPtr_def Option.is_none_def)
  from asStep_keeps_invariant[OF demo_reach(3) this] show ?thesis by (auto simp: leaks_def)
qed

text \<open>Where a configuration puts a member: in the group of its name if there is one, else in \<open>DEFAULT\<close>.\<close>

definition groupFor :: "'d asbase \<Rightarrow> string \<Rightarrow> string" where
  "groupFor b nm = (if nm \<in> a_name ` set (b_asgList b) then nm else ''DEFAULT'')"

lemma memberGroup_groupFor:
  assumes "base_wf b" and "sameRules b' b"
  shows "memberGroup nm b = Some (groupFor b' nm)"
  using assms(1) arg_cong[OF sameRules_names[OF assms(2)], of set]
  by (auto simp: memberGroup_def findAsg_None groupFor_def base_wf_def)

text \<open>C12. \<open>asInitialize\<close> is atomic: a configuration with an error is refused and the one in force, with
  all members, clients and rights, stays; a good one is installed with the rules and groups as parsed:
  every member is moved to the group its name asks for, or to \<open>DEFAULT\<close> when the new configuration has none of
  that name, and stands in the list of that group alone; members and clients are otherwise unchanged but for the
  recomputed rights of the clients; and membership in the hash table is exactly that of the lists.\<close>

theorem asInitialize_atomic:
  assumes "as_reach env st" and "myParse env acts (parseStart env) = Some (ok, b1)"
  shows "\<exists>s st'. asInitialize env acts st = Some (s, st') \<and> as_lock st' = as_lock st \<and>
    (if ok then s = S_ok \<and> as_inv st'
        \<and> as_members st' = (\<lambda>ma. map_option (\<lambda>mem. mem\<lparr>m_pasg := Some (groupFor b1 (m_asgName mem))\<rparr>) (as_members st ma))
        \<and> (\<forall>ca. map_option sansRights (as_clients st' ca) = map_option sansRights (as_clients st ca))
        \<and> (\<exists>b t. as_base st' = Some b \<and> sameRules (b1\<lparr>b_phash := t\<rparr>) b
             \<and> (\<forall>a \<in> set (b_asgList b). \<forall>ma. ma \<in> set (a_memberList a) \<longleftrightarrow>
                   (\<exists>mem. as_members st ma = Some mem \<and> groupFor b1 (m_asgName mem) = a_name a))
             \<and> (\<forall>nm g. gphFind (b_phash b) nm g \<noteq> None \<and> (gphFind (b_phash b) nm g \<noteq> Some None \<longleftrightarrow> (nm, g) \<in> set (groupKeys b1))))
     else s = S_badConfig \<and> st' = st\<lparr>as_basenew := Some b1\<rparr>)"
proof (cases ok)
  case True
  then have p: "myParse env acts (parseStart env) = Some (True, b1)" using assms(2) by simp
  obtain st' b where r: "asInitialize env acts st = Some (S_ok, st')" "as_inv st'" "as_base st' = Some b"
    "\<exists>t. sameRules (b1\<lparr>b_phash := t\<rparr>) b" "as_lock st' = as_lock st"
    "as_members st' = (\<lambda>ma. map_option (\<lambda>mem. mem\<lparr>m_pasg := memberGroup (m_asgName mem) b\<rparr>) (as_members st ma))"
    "\<forall>ca. map_option sansRights (as_clients st' ca) = map_option sansRights (as_clients st ca)"
    using asInitialize_good[OF p reach_ok[OF assms(1)]] by blast
  have str: "as_struct (dom (as_members st')) b st'" using r(2,3) by (auto simp: as_inv_def as_struct_def)
  note s = as_structD[OF str]
  have gf: "memberGroup nm b = Some (groupFor b1 nm)" for nm
  proof -
    obtain t where "sameRules (b1\<lparr>b_phash := t\<rparr>) b" using r(4) by blast
    from memberGroup_groupFor[OF s(3) this] show ?thesis by (simp add: groupFor_def)
  qed
  have mems: "as_members st' = (\<lambda>ma. map_option (\<lambda>mem. mem\<lparr>m_pasg := Some (groupFor b1 (m_asgName mem))\<rparr>) (as_members st ma))"
    using r(6) by (simp add: gf)
  have lists: "\<forall>a \<in> set (b_asgList b). \<forall>ma. ma \<in> set (a_memberList a) \<longleftrightarrow>
      (\<exists>mem. as_members st ma = Some mem \<and> groupFor b1 (m_asgName mem) = a_name a)"
  proof (intro ballI allI)
    fix a ma assume a: "a \<in> set (b_asgList b)"
    have "findAsg (a_name a) b = Some a" using findAsg_distinct a s(3) by (auto simp: base_wf_def)
    from seated_D(2)[OF s(6) this] show "ma \<in> set (a_memberList a) \<longleftrightarrow>
      (\<exists>mem. as_members st ma = Some mem \<and> groupFor b1 (m_asgName mem) = a_name a)"
      by (auto simp: mems memGroup_def domIff bind_eq_Some_conv)
  qed
  have "base_ok b" by (rule s(4))
  moreover have "groupKeys b = groupKeys b1" using r(4) by (auto simp: sameRules_def groupKeys_def)
  ultimately have "\<forall>nm g. gphFind (b_phash b) nm g \<noteq> None
      \<and> (gphFind (b_phash b) nm g \<noteq> Some None \<longleftrightarrow> (nm, g) \<in> set (groupKeys b1))"
    unfolding base_ok_def inGroup_def by simp
  then have "\<exists>b t. as_base st' = Some b \<and> sameRules (b1\<lparr>b_phash := t\<rparr>) b
      \<and> (\<forall>a \<in> set (b_asgList b). \<forall>ma. ma \<in> set (a_memberList a) \<longleftrightarrow>
                   (\<exists>mem. as_members st ma = Some mem \<and> groupFor b1 (m_asgName mem) = a_name a))
      \<and> (\<forall>nm g. gphFind (b_phash b) nm g \<noteq> None \<and> (gphFind (b_phash b) nm g \<noteq> Some None \<longleftrightarrow> (nm, g) \<in> set (groupKeys b1)))"
    using r(3,4) lists by blast
  then show ?thesis unfolding if_P[OF True] using r(1,2,5,7) mems by blast
next
  case False
  then show ?thesis using asInitialize_bad[of env acts b1 st] assms(2) by simp
qed

theorem asInitialize_atomic_witness:
  "\<exists>st1 st2. asInitialize demoEnv [PAsg ''motors'', PAsg ''motors''] demo3 = Some (S_badConfig, st1) \<and> as_base st1 = as_base demo3
     \<and> asInitialize demoEnv [PAsg ''pumps''] demo3 = Some (S_ok, st2)
     \<and> map_option m_pasg (as_members demo3 1) = Some (Some ''motors'') \<and> map_option m_pasg (as_members st2 1) = Some (Some ''DEFAULT'')"
proof -
  have "case myParse demoEnv [PAsg ''motors'', PAsg ''motors''] (parseStart demoEnv) of None \<Rightarrow> False | Some (ok, _) \<Rightarrow> \<not> ok"
    by code_simp
  then obtain b1 where 1: "myParse demoEnv [PAsg ''motors'', PAsg ''motors''] (parseStart demoEnv) = Some (False, b1)"
    by (auto split: option.splits)
  have "case myParse demoEnv [PAsg ''pumps''] (parseStart demoEnv) of None \<Rightarrow> False
    | Some (ok, b) \<Rightarrow> ok \<and> list_all (\<lambda>a. a_name a \<noteq> ''motors'') (b_asgList b)"
    by code_simp
  then obtain b2 where 2: "myParse demoEnv [PAsg ''pumps''] (parseStart demoEnv) = Some (True, b2)"
    "list_all (\<lambda>a. a_name a \<noteq> ''motors'') (b_asgList b2)"
    by (auto simp del: myParse.simps split: option.splits)
  have g: "groupFor b2 ''motors'' = ''DEFAULT''" using 2(2) by (auto simp: groupFor_def list_all_iff)
  have "case as_members demo3 1 of None \<Rightarrow> False | Some mem \<Rightarrow> m_asgName mem = ''motors'' \<and> m_pasg mem = Some ''motors''"
    unfolding demo3_def demo2_def demo1_def by code_simp
  then show ?thesis
    using asInitialize_atomic[OF demo_reach(3) 1] asInitialize_atomic[OF demo_reach(3) 2(1)] g
    by (auto split: option.splits)
qed

text \<open>C13. One computation of a client's rights: the access is the strongest of the matching rules, none
  without a match, the trap mask is that of the first rule reaching it, nothing else changes, and the
  client's callback is made exactly when its access changed.\<close>

theorem asComputePvt_spec:
  assumes "as_reach env st" and "as_clients st ca = Some c"
  shows "\<exists>b a. linked st ca c b a \<and> asComputePvt (Some ca) st = Some (S_ok,
      st\<lparr>as_clients := (as_clients st)(ca \<mapsto> c\<lparr>c_access := grantedAccess b (a_inpBad a) c (a_ruleList a),
           c_trapMask := grantedTrap b (a_inpBad a) c (a_ruleList a)\<rparr>),
         as_calls := as_calls st @ (case c_pcallback c of None \<Rightarrow> []
           | Some f \<Rightarrow> if c_access c \<noteq> grantedAccess b (a_inpBad a) c (a_ruleList a) then [(f, ca)] else [])\<rparr>)"
proof -
  have i: "as_inv st" using reach_ok[OF assms(1)] assms(2) by (auto simp: as_ok_def fresh_def)
  obtain b a where ba: "linked st ca c b a" using as_inv_current[OF i assms(2)] by blast
  have "base_ok b" using i ba by (auto simp: as_inv_def as_struct_def base_wf_def linked_def)
  from asComputePvt_linked[OF this ba, unfolded setRights_def rightsOf_def notice_def fst_conv snd_conv]
  show ?thesis using ba by blast
qed

theorem asComputePvt_spec_witness: "\<exists>st'. asComputePvt (Some 7) demo3 = Some (S_ok, st')"
  using demo_client asComputePvt_spec[OF demo_reach(3), of 7] by blast

text \<open>Removing a member that still has clients is refused, and the call returns with the mutex of
  the module held once more than before.\<close>

theorem asRemoveMember_keeps_lock:
  assumes "as_reach env st" and "as_active st" and "as_members st ma = Some mem" and "m_clientList mem \<noteq> []"
  shows "\<exists>st'. asRemoveMember (Some ma) st = Some (S_clientsExist, Some ma, st') \<and> as_lock st' = as_lock st + 1"
proof -
  have "as_inv st" using reach_ok[OF assms(1)] assms(2) by (simp add: as_ok_def fresh_def)
  from asRemoveMember_inv[OF this assms(3)] show ?thesis using assms(4) by simp
qed

theorem asRemoveMember_keeps_lock_witness:
  "\<exists>st'. asRemoveMember (Some 1) demo3 = Some (S_clientsExist, Some 1, st') \<and> as_lock st' = as_lock demo3 + 1"
proof -
  have "case as_members demo3 1 of None \<Rightarrow> False | Some mem \<Rightarrow> as_active demo3 \<and> m_clientList mem = [7]"
    unfolding demo3_def demo2_def demo1_def by code_simp
  then obtain mem where "as_members demo3 1 = Some mem" "as_active demo3" "m_clientList mem \<noteq> []"
    by (auto split: option.splits)
  with asRemoveMember_keeps_lock[OF demo_reach(3)] show ?thesis by blast
qed

text \<open>\<open>asChangeClient\<close> stores the host name as it is given, while \<open>asAddClient\<close> and the host groups
  store it in lower case: a client that was admitted with the host \<open>HostA\<close> loses the access its host
  group gives when it is changed to the same user, host and level.\<close>

theorem asChangeClient_host_case:
  "\<exists>st. asChangeClient (Some 7) 1 ''anna'' ''HostA'' demo3 = Some (S_ok, st)
     \<and> asCheckPut 7 demo3 = Some True \<and> asCheckPut 7 st = Some False"
proof -
  have "case asChangeClient (Some 7) 1 ''anna'' ''HostA'' demo3 of None \<Rightarrow> False
    | Some (s, st) \<Rightarrow> s = S_ok \<and> asCheckPut 7 demo3 = Some True \<and> asCheckPut 7 st = Some False"
    unfolding demo3_def demo2_def demo1_def by code_simp
  then show ?thesis by (auto split: option.splits)
qed

end
