(* ===== verification/EpicsString.thy ===== *)
theory EpicsString
  imports Prelude
begin

text \<open>
  The string routines of \<open>base/src/libCom/misc/epicsString.c\<close>. A C string is the list of its characters
  before the terminating NUL; a pointer into one is the rest of the list. \<open>None\<close> is a read past the
  terminator or a write outside the buffer. Not modelled: \<open>epicsStrDup\<close>, which only copies.
\<close>

section \<open>Characters\<close>

text \<open>\<open>toupper\<close> and \<open>isprint\<close> in the C locale; a plain \<open>char\<close> is signed.\<close>

definition upper :: "char \<Rightarrow> char" where
  "upper c = (if 97 \<le> (of_char c :: nat) \<and> (of_char c :: nat) \<le> 122 then char_of (of_char c - 32 :: nat) else c)"

definition cval :: "char \<Rightarrow> int" where
  "cval c = (if (of_char c :: nat) < 128 then int (of_char c) else int (of_char c) - 256)"

definition isprint :: "char \<Rightarrow> bool" where
  "isprint c \<longleftrightarrow> 32 \<le> (of_char c :: nat) \<and> (of_char c :: nat) < 127"

definition isoct :: "char \<Rightarrow> bool" where
  "isoct c \<longleftrightarrow> 48 \<le> (of_char c :: nat) \<and> (of_char c :: nat) \<le> 55"

definition digitval :: "char \<Rightarrow> nat" where
  "digitval c = (let n = of_char c :: nat in
     if 48 \<le> n \<and> n \<le> 57 then n - 48 else if 97 \<le> n \<and> n \<le> 102 then n - 87 else if 65 \<le> n \<and> n \<le> 70 then n - 55 else 16)"

definition isxdigit :: "char \<Rightarrow> bool" where
  "isxdigit c \<longleftrightarrow> digitval c < 16"

text \<open>The value of a digit string in the base \<open>r\<close>, as \<open>sscanf\<close> reads it.\<close>

definition numval :: "nat \<Rightarrow> string \<Rightarrow> nat" where
  "numval r ds = fold (\<lambda>c n. r * n + digitval c) ds 0"

section \<open>Escapes\<close>

text \<open>The one-character escapes: the letter in the text, and the character it stands for.\<close>

definition letterEscapes :: "(char \<times> char) list" where
  "letterEscapes = [(CHR ''a'', CHR 0x07), (CHR ''b'', CHR 0x08), (CHR ''f'', CHR 0x0C), (CHR ''n'', CHR 0x0A),
     (CHR ''r'', CHR 0x0D), (CHR ''t'', CHR 0x09), (CHR ''v'', CHR 0x0B), (CHR 0x5C, CHR 0x5C), (CHR ''?'', CHR ''?''),
     (CHR 0x27, CHR 0x27), (CHR 0x22, CHR 0x22)]"

text \<open>
  The result is the bytes written and the count returned. \<open>junk\<close> is the uninitialised \<open>ival\<close> that a
  \<open>\x\<close> without digits stores.
\<close>

function dbTranslateEscape :: "nat \<Rightarrow> string \<Rightarrow> (string \<times> nat) option" where
  "dbTranslateEscape junk [] = Some ([], 0)"
| "dbTranslateEscape junk (c # pfrom) =
     (if c \<noteq> CHR 0x5C then map_option (\<lambda>(to, nto). (c # to, nto + 1)) (dbTranslateEscape junk pfrom)
      else case pfrom of
        [] \<Rightarrow> None
      | d # rest \<Rightarrow>
          (case map_of letterEscapes d of
             Some e \<Rightarrow> map_option (\<lambda>(to, nto). (e # to, nto + 1)) (dbTranslateEscape junk rest)
           | None \<Rightarrow>
               if isoct d
               then let strval = takeWhile isoct (take 3 pfrom)
                    in map_option (\<lambda>(to, nto). (char_of (numval 8 strval) # to, nto + 1))
                         (dbTranslateEscape junk (drop (length strval) pfrom))
               else if d = CHR ''x''
               then let strval = takeWhile isxdigit (take 2 rest);
                        ival = (if strval = [] then junk else numval 16 strval)
                    in map_option (\<lambda>(to, nto). (char_of ival # to, nto + 1))
                         (dbTranslateEscape junk (drop (length strval) rest))
               else map_option (\<lambda>(to, nto). (d # to, nto)) (dbTranslateEscape junk rest)))"
  by pat_completeness auto
termination
  by (relation "measure (\<lambda>(_, pfrom). length pfrom)") (auto simp: less_Suc_eq_le)

text \<open>\<open>\\%03o\<close> of a byte.\<close>

definition octal3 :: "char \<Rightarrow> string" where
  "octal3 c = (let n = of_char c :: nat in CHR 0x5C # map (\<lambda>d. char_of (48 + d)) [n div 64, n div 8 mod 8, n mod 8])"

text \<open>What is printed for one character; the question mark is not escaped.\<close>

definition escapeChar :: "char \<Rightarrow> string" where
  "escapeChar c = (if c = CHR ''?'' then ''?'' else
     case map_of (map (\<lambda>(d, e). (e, d)) letterEscapes) c of
       Some d \<Rightarrow> [CHR 0x5C, d]
     | None \<Rightarrow> if isprint c then [c] else octal3 c)"

text \<open>\<open>s\<close> is the memory at \<open>s\<close>; the result is the text printed and the count returned.\<close>

fun epicsStrPrintEscaped :: "string \<Rightarrow> nat \<Rightarrow> (string \<times> nat) option" where
  "epicsStrPrintEscaped s 0 = Some ([], 0)"
| "epicsStrPrintEscaped [] (Suc n) = None"
| "epicsStrPrintEscaped (c # s) (Suc n) =
     map_option (\<lambda>(out, nout). (escapeChar c @ out, length (escapeChar c) + nout)) (epicsStrPrintEscaped s n)"

text \<open>
  \<open>snprintf\<close> of a text at the position \<open>pos\<close> of a buffer: with room \<open>n\<close> it stores up to \<open>n - 1\<close>
  characters and a NUL and returns the length of the whole text.
\<close>

definition putAt :: "nat \<Rightarrow> string \<Rightarrow> string \<Rightarrow> string" where
  "putAt pos w buf = take pos buf @ w @ drop (pos + length w) buf"

definition snprintfAt :: "string \<Rightarrow> int \<Rightarrow> nat \<Rightarrow> string \<Rightarrow> string option" where
  "snprintfAt buf pos n txt =
     (if n = 0 then Some buf
      else let w = take (n - 1) txt @ [CHR 0x00]
           in if pos < 0 \<or> length buf < nat pos + length w then None
              else Some (putAt (nat pos) w buf))"

text \<open>The loop state: position and room left (\<open>outpos\<close>, \<open>maxout\<close>) and the count so far.\<close>

fun snEscLoop :: "nat \<Rightarrow> string \<Rightarrow> nat \<Rightarrow> string \<Rightarrow> int \<Rightarrow> nat \<Rightarrow> nat \<Rightarrow> (string \<times> nat) option" where
  "snEscLoop outsize inbuf 0 buf outpos maxout nout = Some (buf, nout)"
| "snEscLoop outsize [] (Suc inlen) buf outpos maxout nout = None"
| "snEscLoop outsize (c # inbuf) (Suc inlen) buf outpos maxout nout = do {
     buf' \<leftarrow> snprintfAt buf outpos maxout (escapeChar c);
     let len = length (escapeChar c);
     if nout + len < outsize
     then snEscLoop outsize inbuf inlen buf' (outpos + int len) (maxout - len) (nout + len)
     else snEscLoop outsize inbuf inlen buf' (outpos + int maxout - 1) 1 (nout + len) }"

definition epicsStrSnPrintEscaped :: "string \<Rightarrow> nat \<Rightarrow> string \<Rightarrow> nat \<Rightarrow> (string \<times> nat) option" where
  "epicsStrSnPrintEscaped outbuf outsize inbuf inlen = snEscLoop outsize inbuf inlen outbuf 0 outsize 0"

section \<open>Comparison\<close>

fun epicsStrCaseCmp :: "string \<Rightarrow> string \<Rightarrow> int" where
  "epicsStrCaseCmp [] s2 = (if s2 = [] then 0 else 1)"
| "epicsStrCaseCmp (c # s1) [] = - 1"
| "epicsStrCaseCmp (c # s1) (d # s2) =
     (let nexts1 = cval (upper c); nexts2 = cval (upper d) in
      if nexts1 < nexts2 then - 1 else if nexts1 > nexts2 then 1 else epicsStrCaseCmp s1 s2)"

text \<open>The count \<open>n\<close> after its conversion to \<open>size_t\<close>.\<close>

fun epicsStrnCaseCmp :: "string \<Rightarrow> string \<Rightarrow> nat \<Rightarrow> int" where
  "epicsStrnCaseCmp s1 s2 0 = 0"
| "epicsStrnCaseCmp [] s2 (Suc n) = (if s2 = [] then 0 else 1)"
| "epicsStrnCaseCmp (c # s1) [] (Suc n) = - 1"
| "epicsStrnCaseCmp (c # s1) (d # s2) (Suc n) =
     (let nexts1 = cval (upper c); nexts2 = cval (upper d) in
      if nexts1 < nexts2 then - 1 else if nexts1 > nexts2 then 1 else epicsStrnCaseCmp s1 s2 n)"

section \<open>Matching\<close>

text \<open>The first loop, up to the first star.\<close>

fun globPrefix :: "string \<Rightarrow> string \<Rightarrow> (string \<times> string) option" where
  "globPrefix [] pattern = Some ([], pattern)"
| "globPrefix (c # str) [] = None"
| "globPrefix (c # str) (q # pattern) =
     (if q = CHR ''*'' then Some (c # str, q # pattern)
      else if q \<noteq> c \<and> q \<noteq> CHR ''?'' then None
      else globPrefix str pattern)"

text \<open>
  The second loop, on \<open>str\<close>, \<open>pattern\<close>, \<open>cp\<close> and \<open>mp\<close>; \<open>Some (Inl r)\<close> is a \<open>return r\<close> inside it,
  \<open>Some (Inr pattern)\<close> its normal end, \<open>None\<close> the use of the null pointer \<open>mp\<close>.
\<close>

function globLoop :: "string \<Rightarrow> string \<Rightarrow> string \<Rightarrow> string option \<Rightarrow> (bool + string) option" where
  "globLoop [] pattern cp mp = Some (Inr pattern)"
| "globLoop (c # str) pattern cp mp =
     (if pattern \<noteq> [] \<and> hd pattern = CHR ''*'' then
        (if tl pattern = [] then Some (Inl True)
         else globLoop (c # str) (tl pattern) str (Some (tl pattern)))
      else if pattern \<noteq> [] \<and> (hd pattern = c \<or> hd pattern = CHR ''?'') then globLoop str (tl pattern) cp mp
      else case mp of
        None \<Rightarrow> None
      | Some m \<Rightarrow> globLoop cp m (tl cp) mp)"
  by pat_completeness auto
termination
  by (relation "measures [\<lambda>(str, pattern, cp, mp). max (length pattern) (case mp of None \<Rightarrow> 0 | Some m \<Rightarrow> length m),
        \<lambda>(str, pattern, cp, mp). length cp, \<lambda>(str, pattern, cp, mp). length str]")
     (auto simp: neq_Nil_conv, (case_tac cp; auto)+)

definition epicsStrGlobMatch :: "string \<Rightarrow> string \<Rightarrow> bool option" where
  "epicsStrGlobMatch str pattern =
     (case globPrefix str pattern of
        None \<Rightarrow> Some False
      | Some (s, p) \<Rightarrow> do {
          r \<leftarrow> globLoop s p [] None;
          Some (case r of Inl b \<Rightarrow> b | Inr q \<Rightarrow> dropWhile (\<lambda>c. c = CHR ''*'') q = []) })"

section \<open>Tokens\<close>

text \<open>Is the character a delimiter? The \<open>for\<close> and \<open>do\<close> loops over \<open>delim\<close>.\<close>

fun inSpan :: "char \<Rightarrow> string \<Rightarrow> bool" where
  "inSpan c [] = False"
| "inSpan c (sc # spanp) = (if c = sc then True else inSpan c spanp)"

fun skipDelims :: "string \<Rightarrow> string \<Rightarrow> string" where
  "skipDelims delim [] = []"
| "skipDelims delim (c # s) = (if inSpan c delim then skipDelims delim s else c # s)"

text \<open>The token, and the rest after its delimiter (\<open>NULL\<close> at the end of the string).\<close>

fun scanToken :: "string \<Rightarrow> string \<Rightarrow> string \<times> string option" where
  "scanToken delim [] = ([], None)"
| "scanToken delim (c # s) =
     (if inSpan c delim then ([], Some s) else (let (tok, lasts) = scanToken delim s in (c # tok, lasts)))"

text \<open>The result is the token and the new \<open>*lasts\<close>.\<close>

definition epicsStrtok_r :: "string option \<Rightarrow> string \<Rightarrow> string option \<Rightarrow> string option \<times> string option" where
  "epicsStrtok_r s delim lasts =
     (case (if s = None then lasts else s) of
        None \<Rightarrow> (None, None)
      | Some str \<Rightarrow>
          (case skipDelims delim str of
             [] \<Rightarrow> (None, None)
           | t \<Rightarrow> let (tok, l) = scanToken delim t in (Some tok, l)))"

end
