(* ===== verification/EpicsStringProofs.thy ===== *)
theory EpicsStringProofs
  imports EpicsString
begin

text \<open>
  The string routines: escaping and unescaping are inverse, the bounded printer is the unbounded one
  cut off, the comparison is a total order on strings up to case, the matcher decides the meaning of
  the patterns, and the tokenizer splits.
\<close>

section \<open>Escapes\<close>

lemma isoct_letter: "isoct d \<Longrightarrow> map_of letterEscapes d = None"
proof -
  assume d: "isoct d"
  have "list_all (\<lambda>x. \<not> isoct x) (map fst letterEscapes)" by code_simp
  then have "d \<notin> set (map fst letterEscapes)" using d by (auto simp: list_all_iff)
  then show ?thesis by (simp add: map_of_eq_None_iff)
qed

lemma letter_back: "map_of (map (\<lambda>(d, e). (e, d)) letterEscapes) c = Some d \<Longrightarrow> map_of letterEscapes d = Some c"
proof -
  assume "map_of (map (\<lambda>(d, e). (e, d)) letterEscapes) c = Some d"
  then have "(d, c) \<in> set letterEscapes" by (auto dest: map_of_SomeD)
  moreover have "distinct (map fst letterEscapes)" by code_simp
  ultimately show ?thesis by simp
qed

lemma letter_none: "map_of (map (\<lambda>(d, e). (e, d)) letterEscapes) c = None \<Longrightarrow> c \<noteq> CHR 0x5C"
proof -
  assume n: "map_of (map (\<lambda>(d, e). (e, d)) letterEscapes) c = None"
  have "\<not> Option.is_none (map_of (map (\<lambda>(d, e). (e, d)) letterEscapes) (CHR 0x5C))" by code_simp
  then show ?thesis using n by (auto simp: Option.is_none_def)
qed

lemma octdigit:
  assumes "d < 8"
  shows "isoct (char_of (48 + d :: nat))" "digitval (char_of (48 + d :: nat)) = d"
proof -
  have "(of_char (char_of (48 + d :: nat)) :: nat) = 48 + d" using assms by simp
  then show "isoct (char_of (48 + d :: nat))" "digitval (char_of (48 + d :: nat)) = d"
    using assms by (simp_all only: isoct_def digitval_def Let_def) simp_all
qed

lemma octal3_ok:
  obtains d1 d2 d3 where "octal3 c = [CHR 0x5C, d1, d2, d3]" "isoct d1" "isoct d2" "isoct d3"
    "char_of (numval 8 [d1, d2, d3]) = c"
proof -
  define n where "n = (of_char c :: nat)"
  have n: "n < 256" by (simp add: n_def)
  define a b e where "a = n div 64" and "b = n div 8 mod 8" and "e = n mod 8"
  have lt: "a < 8" "b < 8" "e < 8" using n by (simp_all add: a_def b_def e_def)
  have "n div 8 div 8 = a" by (simp add: a_def div_mult2_eq[symmetric])
  then have "8 * a + b = n div 8" using mult_div_mod_eq[of 8 "n div 8"] by (simp add: b_def)
  then have sum: "8 * (8 * a + b) + e = n" using mult_div_mod_eq[of 8 n] by (simp add: e_def)
  have o: "octal3 c = [CHR 0x5C, char_of (48 + a), char_of (48 + b), char_of (48 + e)]"
    unfolding octal3_def Let_def a_def b_def e_def n_def by (simp only: list.map)
  have "numval 8 [char_of (48 + a), char_of (48 + b), char_of (48 + e)] = n"
    unfolding numval_def using octdigit(2)[OF lt(1)] octdigit(2)[OF lt(2)] octdigit(2)[OF lt(3)] sum by simp
  then have "char_of (numval 8 [char_of (48 + a), char_of (48 + b), char_of (48 + e)]) = c" by (simp only: n_def char_of_char)
  then show thesis by (rule that[OF o octdigit(1)[OF lt(1)] octdigit(1)[OF lt(2)] octdigit(1)[OF lt(3)]])
qed

lemma translate_plain:
  "c \<noteq> CHR 0x5C \<Longrightarrow> dbTranslateEscape junk (c # s) = map_option (\<lambda>(to, nto). (c # to, nto + 1)) (dbTranslateEscape junk s)"
  by simp

lemma translate_octal:
  assumes "isoct d" "isoct e" "isoct f"
  shows "dbTranslateEscape junk (CHR 0x5C # d # e # f # s) =
    map_option (\<lambda>(to, nto). (char_of (numval 8 [d, e, f]) # to, nto + 1)) (dbTranslateEscape junk s)"
  using assms isoct_letter[OF assms(1)] by (simp add: Let_def)

lemma translate_escapeChar:
  "dbTranslateEscape junk (escapeChar c @ s) = map_option (\<lambda>(to, nto). (c # to, nto + 1)) (dbTranslateEscape junk s)"
proof (cases "c = CHR ''?''")
  case True
  then show ?thesis by (simp add: escapeChar_def translate_plain del: dbTranslateEscape.simps)
next
  case False
  show ?thesis
  proof (cases "map_of (map (\<lambda>(d, e). (e, d)) letterEscapes) c")
    case (Some d)
    then show ?thesis using letter_back[OF Some] False by (simp add: escapeChar_def)
  next
    case None
    have e: "escapeChar c = (if isprint c then [c] else octal3 c)" using None False by (simp add: escapeChar_def)
    show ?thesis
    proof (cases "isprint c")
      case True
      then show ?thesis using e letter_none[OF None] by (simp add: translate_plain del: dbTranslateEscape.simps)
    next
      case False
      obtain d1 d2 d3 where d: "octal3 c = [CHR 0x5C, d1, d2, d3]" "isoct d1" "isoct d2" "isoct d3"
        "char_of (numval 8 [d1, d2, d3]) = c" by (rule octal3_ok)
      show ?thesis using e False d(1,5) translate_octal[OF d(2-4), of junk s] by (simp del: dbTranslateEscape.simps)
    qed
  qed
qed

lemma printEscaped_value:
  "n \<le> length s \<Longrightarrow> epicsStrPrintEscaped s n =
    Some (concat (map escapeChar (take n s)), length (concat (map escapeChar (take n s))))"
  by (induction s n rule: epicsStrPrintEscaped.induct) auto

section \<open>The bounded printer\<close>

text \<open>The buffer after the text \<open>done\<close> has been printed into its first \<open>room\<close> bytes.\<close>

definition printed :: "nat \<Rightarrow> string \<Rightarrow> string \<Rightarrow> string" where
  "printed room msg buf = putAt 0 (take (room - 1) msg @ [CHR 0x00]) buf"

lemma snprintfAt_ok:
  "0 < n \<Longrightarrow> pos + length (take (n - 1) msg @ [CHR 0x00]) \<le> length buf \<Longrightarrow>
   snprintfAt buf (int pos) n msg = Some (putAt pos (take (n - 1) msg @ [CHR 0x00]) buf)"
  by (simp add: snprintfAt_def Let_def)

lemma snEscLoop_ok:
  assumes "0 < room" and "room \<le> length buf"
  shows "inlen \<le> length inbuf \<Longrightarrow> b = take (room - 1) msg @ y \<Longrightarrow>
    tl y = drop (min (length msg) (room - 1) + 1) buf \<Longrightarrow> y \<noteq> [] \<Longrightarrow>
    (inlen = 0 \<Longrightarrow> hd y = CHR 0x00) \<Longrightarrow>
    snEscLoop room inbuf inlen b (int (min (length msg) (room - 1))) (room - min (length msg) (room - 1)) (length msg)
     = Some (printed room (msg @ concat (map escapeChar (take inlen inbuf))) buf, length (msg @ concat (map escapeChar (take inlen inbuf))))"
proof (induction inlen arbitrary: inbuf b msg y)
  case 0
  have "y = CHR 0x00 # drop (min (length msg) (room - 1) + 1) buf" using "0.prems"(3-5) by (cases y) auto
  moreover have "take (min (length msg) (room - 1)) msg = take (room - 1) msg" by (simp add: min_def)
  ultimately show ?case using "0.prems"(2) by (simp add: printed_def putAt_def)
next
  case (Suc inlen)
  obtain c rest where c: "inbuf = c # rest" using Suc.prems(1) by (cases inbuf) auto
  let ?e = "escapeChar c" and ?p = "min (length msg) (room - 1)"
  let ?w = "take (room - ?p - 1) ?e @ [CHR 0x00]"
  have p: "?p < room" using assms(1) by linarith
  have ly: "length y = length buf - ?p" using Suc.prems(3,4) assms(2) p by (cases y) auto
  have lb: "length b = length buf" using Suc.prems(2) ly assms(2) p by auto
  have lw: "?p + length ?w \<le> length buf" using p assms(2) by auto
  have tp: "length (take (room - 1) msg) = ?p" by simp
  have mt: "take ?p msg = take (room - 1) msg" by (simp add: min_def)
  have put: "putAt ?p ?w b = take (room - 1) msg @ ?w @ drop (length ?w) y"
    unfolding putAt_def Suc.prems(2) using tp mt by simp
  have sn: "snprintfAt b (int ?p) (room - ?p) ?e = Some (take (room - 1) msg @ ?w @ drop (length ?w) y)"
    using snprintfAt_ok[of "room - ?p" ?p ?e b] p lw unfolding lb put by (simp only: zero_less_diff simp_thms)
  let ?t = "msg @ ?e"
  let ?y = "CHR 0x00 # drop (length ?w) y"
  have tk: "take (room - 1) msg @ ?w @ drop (length ?w) y = take (room - 1) ?t @ ?y"
  proof -
    have "take (room - ?p - 1) ?e = take (room - 1 - length msg) ?e" by (simp add: min_def)
    then show ?thesis by simp
  qed
  have q: "min (length ?t) (room - 1) = ?p + length (take (room - ?p - 1) ?e)" by auto
  have dr: "drop (length ?w) y = drop (length ?w - 1) (tl y)" by (simp add: drop_Suc)
  have ty: "tl ?y = drop (min (length ?t) (room - 1) + 1) buf"
    unfolding list.sel(3) dr Suc.prems(3) q by (simp add: add.commute)
  define B where "B = take (room - 1) ?t @ ?y"
  have snB: "snprintfAt b (int ?p) (room - ?p) ?e = Some B" using sn tk by (simp only: B_def)
  have cont: "(if length msg + length ?e < room
      then snEscLoop room rest inlen B (int ?p + int (length ?e)) (room - ?p - length ?e) (length msg + length ?e)
      else snEscLoop room rest inlen B (int ?p + int (room - ?p) - 1) 1 (length msg + length ?e))
    = snEscLoop room rest inlen B (int (min (length ?t) (room - 1))) (room - min (length ?t) (room - 1)) (length ?t)"
  proof (cases "length msg + length ?e < room")
    case True
    then have "?p = length msg" "min (length ?t) (room - 1) = length msg + length ?e" by auto
    then show ?thesis using True by simp
  next
    case False
    then have "min (length ?t) (room - 1) = room - 1" by auto
    moreover have "int ?p + int (room - ?p) - 1 = int (room - 1)" using p assms(1) by linarith
    moreover have "room - (room - 1) = 1" using assms(1) by simp
    ultimately show ?thesis using False by simp
  qed
  have "inlen \<le> length rest" using Suc.prems(1) c by simp
  from Suc.IH[OF this B_def ty] have ih: "snEscLoop room rest inlen B
      (int (min (length ?t) (room - 1))) (room - min (length ?t) (room - 1)) (length ?t)
     = Some (printed room (?t @ concat (map escapeChar (take inlen rest))) buf, length (?t @ concat (map escapeChar (take inlen rest))))"
    by simp
  show ?case
    unfolding c snEscLoop.simps snB Let_def Option.bind.simps
    by (simp only: cont ih take_Suc_Cons list.map concat.simps append_assoc)
qed

section \<open>Comparison\<close>

lemma cval_inj [simp]: "cval c = cval d \<longleftrightarrow> c = d"
proof
  assume e: "cval c = cval d"
  define n m where "n = (of_char c :: nat)" and "m = (of_char d :: nat)"
  have "n < 256" "m < 256" by (simp_all add: n_def m_def)
  moreover have "(if n < 128 then int n else int n - 256) = (if m < 128 then int m else int m - 256)"
    using e by (simp only: cval_def n_def m_def)
  ultimately have "n = m" by (simp split: if_splits)
  then show "c = d" by (simp add: n_def m_def)
qed simp

lemma caseCmp_Cons [simp]: "epicsStrCaseCmp (c # s) (d # t) =
    (if cval (upper c) < cval (upper d) then - 1 else if cval (upper d) < cval (upper c) then 1 else epicsStrCaseCmp s t)"
  by (simp add: Let_def)

declare epicsStrCaseCmp.simps(3) [simp del]

lemma caseCmp_zero: "epicsStrCaseCmp s t = 0 \<longleftrightarrow> map upper s = map upper t"
proof (induction s arbitrary: t)
  case (Cons c s)
  show ?case
  proof (cases t)
    case t: (Cons d t')
    consider "cval (upper c) < cval (upper d)" | "cval (upper d) < cval (upper c)" | "upper c = upper d"
      using cval_inj linorder_neqE by blast
    then show ?thesis unfolding t by cases (auto simp: Cons.IH)
  qed simp
qed simp

lemma caseCmp_anti: "epicsStrCaseCmp t s = - epicsStrCaseCmp s t"
proof (induction s arbitrary: t)
  case Nil
  then show ?case by (cases t) auto
next
  case (Cons c s)
  then show ?case by (cases t) auto
qed

lemma caseCmp_trans: "epicsStrCaseCmp s t < 0 \<Longrightarrow> epicsStrCaseCmp t u < 0 \<Longrightarrow> epicsStrCaseCmp s u < 0"
proof (induction s arbitrary: t u)
  case Nil
  then show ?case by (auto split: if_splits)
next
  case (Cons c s)
  show ?case
  proof (cases u)
    case u: (Cons e u')
    show ?thesis
    proof (cases t)
      case Nil
      then show ?thesis using Cons.prems(2) u by simp
    next
      case t: (Cons d t')
      show ?thesis using Cons.prems Cons.IH[of t' u'] unfolding u t by (auto split: if_splits)
    qed
  qed simp
qed

lemma strnCaseCmp_take: "epicsStrnCaseCmp s t n = epicsStrCaseCmp (take n s) (take n t)"
proof (induction n arbitrary: s t)
  case (Suc n)
  then show ?case by (cases s; cases t) (simp_all add: Let_def)
qed simp

section \<open>Matching\<close>

text \<open>What a pattern means: a star is any run of characters, a question mark any character.\<close>

fun matches :: "string \<Rightarrow> string \<Rightarrow> bool" where
  "matches [] s = (s = [])"
| "matches (q # p) s =
     (if q = CHR ''*'' then (\<exists>k \<le> length s. matches p (drop k s))
      else (case s of [] \<Rightarrow> False | c # t \<Rightarrow> (q = c \<or> q = CHR ''?'') \<and> matches p t))"

definition starfree :: "string \<Rightarrow> bool" where
  "starfree u \<longleftrightarrow> CHR ''*'' \<notin> set u"

lemma matches_star_drop:
  assumes "matches (CHR ''*'' # p) (drop k s)"
  shows "matches (CHR ''*'' # p) s"
proof -
  obtain j where "j \<le> length (drop k s)" "matches p (drop j (drop k s))" using assms by auto
  then have "matches p (drop (min (k + j) (length s)) s)" by (auto simp: min_def add.commute)
  then show ?thesis by (auto intro!: exI[of _ "min (k + j) (length s)"])
qed

lemma matches_prefix: "starfree u \<Longrightarrow> matches (u @ p) s \<Longrightarrow> length u \<le> length s \<and> matches p (drop (length u) s)"
proof (induction u arbitrary: s)
  case (Cons q u)
  then show ?case by (cases s) (auto simp: starfree_def)
qed simp

lemma matches_literals: "matches p s \<Longrightarrow> length (filter (\<lambda>q. q \<noteq> CHR ''*'') p) \<le> length s"
proof (induction p s rule: matches.induct)
  case (2 q p s)
  show ?case
  proof (cases "q = CHR ''*''")
    case True
    then obtain k where "k \<le> length s" "matches p (drop k s)" using "2.prems" by auto
    then have "length (filter (\<lambda>q. q \<noteq> CHR ''*'') p) \<le> length (drop k s)" using "2.IH"(1)[OF True] by blast
    then show ?thesis using True by simp
  next
    case False
    then obtain c t where "s = c # t" "matches p t" using "2.prems" by (auto split: list.splits)
    then show ?thesis using "2.IH"(2)[OF False] False by simp
  qed
qed simp

lemma dropWhile_stars: "dropWhile (\<lambda>c. c = CHR ''*'') p = [] \<longleftrightarrow> matches p []"
  by (induction p) auto

lemma globPrefix_ok:
  "case globPrefix s p of None \<Rightarrow> \<not> matches p s
   | Some (s', p') \<Rightarrow> (matches p s \<longleftrightarrow> matches p' s') \<and> (s' \<noteq> [] \<longrightarrow> p' \<noteq> [] \<and> hd p' = CHR ''*'')"
proof (induction s p rule: globPrefix.induct)
  case (3 c s q p)
  show ?case
  proof (cases "q = CHR ''*''")
    case False
    then show ?thesis using "3.IH" by (auto split: option.splits)
  qed simp
qed auto

text \<open>
  The second loop: \<open>mp\<close> is what follows the last star met, \<open>whole\<close> the text it is being tried on. When
  the trial fails, it moves one character on.
\<close>

lemma matches_any_star:
  assumes "starfree u" and "matches (u @ CHR ''*'' # p) (drop k whole)"
  shows "matches (CHR ''*'' # p) (drop (length u) whole)"
proof -
  have "matches (CHR ''*'' # p) (drop (length u) (drop k whole))" using matches_prefix[OF assms] by blast
  then have "matches (CHR ''*'' # p) (drop k (drop (length u) whole))" by (simp add: add.commute)
  then show ?thesis by (rule matches_star_drop)
qed

lemma star_unfold: "matches (CHR ''*'' # p) (c # s) \<longleftrightarrow> matches p (c # s) \<or> matches (CHR ''*'' # p) s"
proof
  assume "matches (CHR ''*'' # p) (c # s)"
  then obtain k where k: "k \<le> Suc (length s)" "matches p (drop k (c # s))" by auto
  then show "matches p (c # s) \<or> matches (CHR ''*'' # p) s" by (cases k) auto
next
  assume "matches p (c # s) \<or> matches (CHR ''*'' # p) s"
  then show "matches (CHR ''*'' # p) (c # s)"
    using matches_star_drop[of p 1 "c # s"] by auto
qed

definition verdict :: "(bool + string) option \<Rightarrow> bool option" where
  "verdict r = map_option (\<lambda>x. case x of Inl b \<Rightarrow> b | Inr q \<Rightarrow> dropWhile (\<lambda>c. c = CHR ''*'') q = []) r"

lemma globLoop_ok:
  assumes "starfree u" and "mp = u @ p" and "s = drop (length u) whole" and "length u \<le> length whole" and "cp = tl whole"
  shows "verdict (globLoop s p cp (Some mp)) = Some (matches p s \<or> matches (CHR ''*'' # mp) cp)"
  using assms
proof (induction s p cp "Some mp" arbitrary: u mp whole rule: globLoop.induct)
  case (1 p cp)
  have "\<not> matches p [] \<Longrightarrow> \<not> matches (CHR ''*'' # mp) cp"
  proof
    assume n: "\<not> matches p []" and m: "matches (CHR ''*'' # mp) cp"
    have "length whole = length u" using "1.prems"(3,4) by simp
    then have l: "length cp = length u - 1" using "1.prems"(5) by simp
    obtain q where q: "q \<in> set p" "q \<noteq> CHR ''*''"
      using n unfolding dropWhile_stars[symmetric] by (auto simp: dropWhile_eq_Nil_conv)
    then have "filter (\<lambda>q. q \<noteq> CHR ''*'') p \<noteq> []" by (auto simp: filter_empty_conv)
    then have pos: "0 < length (filter (\<lambda>q. q \<noteq> CHR ''*'') p)" by simp
    have "filter (\<lambda>q. q \<noteq> CHR ''*'') u = u" using "1.prems"(1) by (auto simp: starfree_def filter_id_conv)
    then have "length (filter (\<lambda>q. q \<noteq> CHR ''*'') (CHR ''*'' # mp)) = length u + length (filter (\<lambda>q. q \<noteq> CHR ''*'') p)"
      using "1.prems"(2) by simp
    then have "length u + length (filter (\<lambda>q. q \<noteq> CHR ''*'') p) \<le> length u - 1"
      using matches_literals[OF m] l by (simp only:)
    then show False using pos by linarith
  qed
  then have e: "(matches p [] \<or> matches (CHR ''*'' # mp) cp) = matches p []" by blast
  have "verdict (globLoop [] p cp (Some mp)) = Some (matches p [])"
    by (simp only: verdict_def globLoop.simps option.map sum.case dropWhile_stars)
  then show ?case by (simp only: e)
next
  case (2 c s p cp)
  consider (star) "p \<noteq> []" "hd p = CHR ''*''" | (one) "p \<noteq> []" "hd p \<noteq> CHR ''*''" "hd p = c \<or> hd p = CHR ''?''"
    | (bad) "\<not> (p \<noteq> [] \<and> hd p = CHR ''*'')" "\<not> (p \<noteq> [] \<and> (hd p = c \<or> hd p = CHR ''?''))" by blast
  then show ?case
  proof cases
    case star
    then obtain q where q: "p = CHR ''*'' # q" by (cases p) auto
    have alt: "matches p (c # s)" if m: "matches (CHR ''*'' # mp) cp"
    proof -
      obtain k where k: "matches (u @ CHR ''*'' # q) (drop k cp)" using m "2.prems"(2) q by auto
      have "drop k cp = drop (Suc k) whole" using "2.prems"(5) by (simp add: drop_Suc)
      then show ?thesis using matches_any_star[OF "2.prems"(1), of q "Suc k" whole] k "2.prems"(3) q by simp
    qed
    show ?thesis
    proof (cases "q = []")
      case True
      have "matches [CHR ''*''] (c # s)" by (auto intro: exI[of _ "Suc (length s)"])
      then show ?thesis using q True by (simp add: verdict_def)
    next
      case False
      have "verdict (globLoop (c # s) q s (Some q)) = Some (matches q (c # s) \<or> matches (CHR ''*'' # q) s)"
        using "2.hyps"(1)[where u = "[]" and whole = "c # s"] star q False by (simp add: starfree_def)
      moreover have "globLoop (c # s) p cp (Some mp) = globLoop (c # s) q s (Some q)" using q False by simp
      moreover have "matches (CHR ''*'' # q) (c # s) \<longleftrightarrow> matches q (c # s) \<or> matches (CHR ''*'' # q) s" by (rule star_unfold)
      ultimately show ?thesis using alt q by simp metis
    qed
  next
    case one
    then obtain d q where q: "p = d # q" "d \<noteq> CHR ''*''" "d = c \<or> d = CHR ''?''" by (cases p) auto
    have whole: "s = drop (length (u @ [d])) whole"
      using "2.prems"(3) by (metis One_nat_def add.commute drop_drop length_append length_Cons list.size(3) drop_Suc_Cons drop0)
    have "length u < length whole" using "2.prems"(3) by (metis drop_eq_Nil2 leI list.discI)
    then have "verdict (globLoop s q cp (Some mp)) = Some (matches q s \<or> matches (CHR ''*'' # mp) cp)"
      using "2.hyps"(2)[where u = "u @ [d]" and whole = whole] "2.prems" whole q one by (simp add: starfree_def)
    then show ?thesis using q by auto
  next
    case bad
    then have nm: "\<not> matches p (c # s)" by (cases p) auto
    have run: "globLoop (c # s) p cp (Some mp) = globLoop cp mp (tl cp) (Some mp)"
      by (rule trans[OF globLoop.simps(2)], simp only: if_not_P[OF bad(1)] if_not_P[OF bad(2)] option.case)
    have "verdict (globLoop cp mp (tl cp) (Some mp)) = Some (matches mp cp \<or> matches (CHR ''*'' # mp) (tl cp))"
      using "2.hyps"(3)[where u = "[]" and whole = cp] bad by (simp add: starfree_def)
    moreover have "matches mp cp \<or> matches (CHR ''*'' # mp) (tl cp) \<longleftrightarrow> matches (CHR ''*'' # mp) cp"
      by (cases cp) (use star_unfold in auto)
    ultimately show ?thesis using run nm by simp
  qed
qed

section \<open>Tokens\<close>

text \<open>The pieces between delimiters.\<close>

fun pieces :: "string \<Rightarrow> string \<Rightarrow> string list" where
  "pieces delim [] = [[]]"
| "pieces delim (c # s) =
     (if c \<in> set delim then [] # pieces delim s
      else (case pieces delim s of [] \<Rightarrow> [[c]] | p # ps \<Rightarrow> (c # p) # ps))"

text \<open>Call \<open>epicsStrtok_r\<close> until it returns \<open>NULL\<close>, at most \<open>n\<close> times.\<close>

fun strtokAll :: "nat \<Rightarrow> string option \<Rightarrow> string \<Rightarrow> string option \<Rightarrow> string list option" where
  "strtokAll 0 s delim lasts = None"
| "strtokAll (Suc n) s delim lasts =
     (case epicsStrtok_r s delim lasts of
        (None, _) \<Rightarrow> Some []
      | (Some tok, l) \<Rightarrow> map_option ((#) tok) (strtokAll n None delim l))"

lemma inSpan_set [simp]: "inSpan c delim \<longleftrightarrow> c \<in> set delim"
  by (induction delim) auto

lemma pieces_ne [simp]: "pieces delim s \<noteq> []"
  by (cases s) (auto split: list.splits)

lemma skip_pieces:
  "filter (\<lambda>t. t \<noteq> []) (pieces delim (skipDelims delim s)) = filter (\<lambda>t. t \<noteq> []) (pieces delim s)"
  by (induction s) auto

lemma skip_length: "length (skipDelims delim s) \<le> length s"
  by (induction s) auto

lemma skip_hd: "skipDelims delim s = c # t \<Longrightarrow> c \<notin> set delim"
  by (induction s) (auto split: if_splits)

lemma scan_pieces:
  "pieces delim s = fst (scanToken delim s) # (case snd (scanToken delim s) of None \<Rightarrow> [] | Some r \<Rightarrow> pieces delim r)"
  by (induction s) (auto split: list.splits prod.splits)

lemma scan_length: "snd (scanToken delim s) = Some r \<Longrightarrow> length r < length s"
  by (induction s arbitrary: r) (auto split: if_splits prod.splits)

lemma strtokAll_ok:
  "length s < n \<Longrightarrow> (if x = None then lasts else x) = Some s \<Longrightarrow>
   strtokAll n x delim lasts = Some (filter (\<lambda>t. t \<noteq> []) (pieces delim s))"
proof (induction n arbitrary: s x lasts)
  case (Suc n)
  show ?case
  proof (cases "skipDelims delim s")
    case Nil
    then have "filter (\<lambda>t. t \<noteq> []) (pieces delim s) = []" using skip_pieces[of delim s] by simp
    moreover have "epicsStrtok_r x delim lasts = (None, None)" using Suc.prems(2) Nil by (simp add: epicsStrtok_r_def)
    ultimately show ?thesis by simp
  next
    case (Cons c t)
    obtain tok l where tl: "scanToken delim (c # t) = (tok, l)" by force
    have e: "epicsStrtok_r x delim lasts = (Some tok, l)" using Suc.prems(2) Cons tl by (simp add: epicsStrtok_r_def)
    have ne: "tok \<noteq> []" using tl skip_hd[OF Cons] by (auto split: prod.splits)
    have "filter (\<lambda>t. t \<noteq> []) (pieces delim s) =
        tok # filter (\<lambda>t. t \<noteq> []) (case l of None \<Rightarrow> [] | Some r \<Rightarrow> pieces delim r)"
      using skip_pieces[of delim s] scan_pieces[of delim "c # t"] Cons tl ne by simp
    moreover have "strtokAll n None delim l = Some (filter (\<lambda>t. t \<noteq> []) (case l of None \<Rightarrow> [] | Some r \<Rightarrow> pieces delim r))"
    proof (cases l)
      case None
      have "0 < n" using Suc.prems(1) Cons skip_length[of delim s] by auto
      then obtain m where "n = Suc m" using gr0_conv_Suc by blast
      then show ?thesis using None by (simp add: epicsStrtok_r_def)
    next
      case (Some r)
      then have "length r < length (c # t)" using scan_length[of delim "c # t" r] tl by simp
      then have "length r < n" using Suc.prems(1) Cons skip_length[of delim s] by simp
      then show ?thesis using Suc.IH[of r None l] Some by simp
    qed
    ultimately show ?thesis using e by simp
  qed
qed simp

section \<open>Properties\<close>

text \<open>C14. Printing any bytes with escapes and translating the text back gives the bytes, with their
  number as the count, control characters, NULs and bytes above 127 included.\<close>

theorem escape_roundtrip:
  assumes "n \<le> length s" and "epicsStrPrintEscaped s n = Some (out, nout)"
  shows "nout = length out \<and> dbTranslateEscape junk out = Some (take n s, n)"
proof -
  have o: "out = concat (map escapeChar (take n s))" "nout = length out"
    using printEscaped_value[OF assms(1)] assms(2) by simp_all
  have "dbTranslateEscape junk (concat (map escapeChar xs)) = Some (xs, length xs)" for xs
    by (induction xs) (simp_all add: translate_escapeChar)
  then show ?thesis using o assms(1) by simp
qed

theorem escape_roundtrip_witness:
  "\<exists>out nout. epicsStrPrintEscaped [CHR ''a'', CHR 0x00, CHR ''7'', CHR 0xFF] 4 = Some (out, nout)
     \<and> dbTranslateEscape 0 out = Some ([CHR ''a'', CHR 0x00, CHR ''7'', CHR 0xFF], 4)"
proof -
  let ?s = "[CHR ''a'', CHR 0x00, CHR ''7'', CHR 0xFF]"
  obtain out nout where "epicsStrPrintEscaped ?s 4 = Some (out, nout)" using printEscaped_value[of 4 ?s] by simp
  with escape_roundtrip[OF _ this, of 0] show ?thesis by simp
qed

text \<open>The bounded printer stays inside a buffer of at least one byte, writes the text of the
  unbounded one cut to the size less one, ends it with a NUL, leaves the rest of the memory alone, and
  returns the length of the whole text.\<close>

theorem snprint_is_truncation:
  assumes "0 < outsize" and "outsize \<le> length buf" and "0 < inlen" and "inlen \<le> length inbuf"
    and "epicsStrPrintEscaped inbuf inlen = Some (out, nout)"
  shows "epicsStrSnPrintEscaped buf outsize inbuf inlen =
    Some (putAt 0 (take (outsize - 1) out @ [CHR 0x00]) buf, nout)"
proof -
  have o: "out = concat (map escapeChar (take inlen inbuf))" "nout = length out"
    using printEscaped_value[OF assms(4)] assms(5) by simp_all
  have "buf \<noteq> []" "tl buf = drop 1 buf" using assms(1,2) by (auto simp: drop_Suc)
  then show ?thesis
    using snEscLoop_ok[OF assms(1,2) assms(4), of buf "[]" buf] assms(3) o
    by (simp add: epicsStrSnPrintEscaped_def printed_def)
qed

theorem snprint_is_truncation_witness:
  "epicsStrSnPrintEscaped ''......'' 4 [CHR ''a'', CHR 0x0A, CHR 0x0A] 3 =
     Some ([CHR ''a'', CHR 0x5C, CHR ''n'', CHR 0x00, CHR ''.'', CHR ''.''], 5)"
proof -
  let ?s = "[CHR ''a'', CHR 0x0A, CHR 0x0A]"
  have "epicsStrPrintEscaped ?s 3 = Some ([CHR ''a'', CHR 0x5C, CHR ''n'', CHR 0x5C, CHR ''n''], 5)" by code_simp
  from snprint_is_truncation[OF _ _ _ _ this, of 4 "''......''"] show ?thesis by (simp add: putAt_def)
qed

text \<open>With a buffer size of zero the bounded printer steps back in front of the buffer after the first
  character and writes there with the second.\<close>

theorem snprint_zero_writes_before: "epicsStrSnPrintEscaped buf 0 (c # d # inbuf) (Suc (Suc n)) = None"
  by (simp add: epicsStrSnPrintEscaped_def snprintfAt_def Let_def)

text \<open>The count that \<open>dbTranslateEscape\<close> returns is short when a backslash stands before a character
  that needs no escape: the character is written but not counted.\<close>

theorem translate_count_short:
  "map_of letterEscapes d = None \<Longrightarrow> \<not> isoct d \<Longrightarrow> d \<noteq> CHR ''x'' \<Longrightarrow> CHR 0x5C \<notin> set s \<Longrightarrow>
   dbTranslateEscape junk (CHR 0x5C # d # s) = Some (d # s, length s)"
proof -
  assume a: "map_of letterEscapes d = None" "\<not> isoct d" "d \<noteq> CHR ''x''" "CHR 0x5C \<notin> set s"
  have "dbTranslateEscape junk s = Some (s, length s)" using a(4) by (induction s) auto
  then show ?thesis using a(1-3) by simp
qed

theorem translate_count_short_witness: "dbTranslateEscape 0 (CHR 0x5C # ''q1'') = Some (''q1'', 1)"
proof -
  have m: "Option.is_none (map_of letterEscapes (CHR ''q''))" and o: "\<not> isoct (CHR ''q'')" by code_simp+
  from translate_count_short[OF _ o, of "''1''" 0] m show ?thesis by (simp add: Option.is_none_def)
qed

text \<open>C15. The pattern matcher always returns, never uses its null pointer, and decides exactly whether
  the string is an instance of the pattern, although it remembers only the last star.\<close>

theorem globMatch_correct: "epicsStrGlobMatch s p = Some (matches p s)"
proof (cases "globPrefix s p")
  case None
  then show ?thesis using globPrefix_ok[where s = s and p = p] by (simp add: epicsStrGlobMatch_def)
next
  case (Some sp)
  obtain s' p' where sp: "sp = (s', p')" by force
  have m: "matches p s \<longleftrightarrow> matches p' s'" "s' \<noteq> [] \<longrightarrow> p' \<noteq> [] \<and> hd p' = CHR ''*''"
    using globPrefix_ok[where s = s and p = p] Some sp by auto
  have run: "epicsStrGlobMatch s p = verdict (globLoop s' p' [] None)"
    using Some sp by (cases "globLoop s' p' [] None") (simp_all add: epicsStrGlobMatch_def verdict_def)
  show ?thesis
  proof (cases s')
    case Nil
    have "verdict (globLoop [] p' [] None) = Some (matches p' [])"
      by (simp only: verdict_def globLoop.simps option.map sum.case dropWhile_stars)
    then show ?thesis using run m(1) Nil by simp
  next
    case (Cons c t)
    then obtain q where q: "p' = CHR ''*'' # q" using m(2) by (cases p') auto
    show ?thesis
    proof (cases "q = []")
      case True
      have "matches [CHR ''*''] (c # t)" by (auto intro: exI[of _ "Suc (length t)"])
      then show ?thesis using run m(1) Cons q True by (simp add: verdict_def)
    next
      case False
      have "globLoop s' p' [] None = globLoop (c # t) q t (Some q)" using Cons q False by simp
      moreover have "verdict (globLoop (c # t) q t (Some q)) = Some (matches q (c # t) \<or> matches (CHR ''*'' # q) t)"
        by (rule globLoop_ok[of "[]" q q "c # t" "c # t" t]) (simp_all add: starfree_def)
      ultimately show ?thesis using run m(1) Cons q star_unfold[of q c t] by metis
    qed
  qed
qed

text \<open>The comparison without case is a total order on strings up to case, in which a string stands
  after its extensions, and the bounded comparison is the same order on the first \<open>n\<close> characters.\<close>

theorem caseCmp_order:
  "(epicsStrCaseCmp s t = 0 \<longleftrightarrow> map upper s = map upper t) \<and> epicsStrCaseCmp t s = - epicsStrCaseCmp s t
   \<and> (u \<noteq> [] \<longrightarrow> epicsStrCaseCmp (s @ u) s = - 1)
   \<and> epicsStrnCaseCmp s t n = epicsStrCaseCmp (take n s) (take n t)
   \<and> (epicsStrCaseCmp s t < 0 \<and> epicsStrCaseCmp t v < 0 \<longrightarrow> epicsStrCaseCmp s v < 0)"
proof -
  have "u \<noteq> [] \<longrightarrow> epicsStrCaseCmp (s @ u) s = - 1" by (induction s) (auto simp: neq_Nil_conv)
  then show ?thesis using caseCmp_zero caseCmp_anti strnCaseCmp_take caseCmp_trans by blast
qed

theorem caseCmp_order_witness: "epicsStrCaseCmp ''abC'' ''ab'' = - 1 \<and> epicsStrCaseCmp ''abC'' ''B'' < 0"
  using caseCmp_order[of "''ab''" "''B''" "''C''" 0 "[]"] caseCmp_order[of "''abC''" "''ab''" "[]" 0 "''B''"]
  by (simp add: upper_def cval_def)

text \<open>C16. Calling \<open>epicsStrtok_r\<close> with the string and then with \<open>NULL\<close> yields the non-empty pieces between
  delimiters in their order, then \<open>NULL\<close>, after at most one call per character and one more.\<close>

theorem strtok_splits:
  "strtokAll (length s + 1) (Some s) delim lasts = Some (filter (\<lambda>t. t \<noteq> []) (pieces delim s))"
  by (rule strtokAll_ok) simp_all

end
