(* ===== verification/BucketLib.thy ===== *)
theory BucketLib
  imports Prelude
begin

text \<open>
  The resource-id hash table \<open>base/src/libCom/bucketLib\<close>. An item holds its id by value: the header
  demands that the id at the given address stays as it is while the item is in the table. \<open>None\<close> is a
  failed assertion or an index outside the table; whether the allocations succeed is an argument.
  Not modelled: \<open>bucketShow\<close>, which prints.
\<close>

unbundle bit_operations_syntax

section \<open>Data\<close>

text \<open>An id and its type in one (\<open>bidtUnsigned\<close>, \<open>bidtPointer\<close>, \<open>bidtString\<close>).\<close>

datatype buckId = UnsignedId "32 word" | PointerId "64 word" | StringId string

text \<open>A chain is the list of ids and application pointers from the head of the bucket.\<close>

record bucket =
  pTable :: "(buckId \<times> ptr) list list"
  hashIdMask :: "32 word"
  hashIdNBits :: nat
  nInUse :: "32 word"

datatype bucketStatus = S_bucket_success | S_bucket_noMemory | S_bucket_idInUse | S_bucket_uknId

section \<open>Hashing\<close>

text \<open>The folding loop over the id; it does not end when \<open>nbits\<close> is zero and the id is not.\<close>

partial_function (option) foldHash :: "nat \<Rightarrow> 64 word \<Rightarrow> 64 word \<Rightarrow> 64 word option" where
  "foldHash nbits src hashid =
     (if src = 0 then Some hashid else foldHash nbits (drop_bit nbits src) (hashid XOR src))"

definition bucketWordHash :: "bucket \<Rightarrow> 64 word \<Rightarrow> 32 word option" where
  "bucketWordHash pb src = do {
     hashid \<leftarrow> foldHash (hashIdNBits pb) (drop_bit (hashIdNBits pb) src) src;
     Some (ucast hashid AND hashIdMask pb) }"

text \<open>Characters are signed; the products and sums wrap.\<close>

definition charWord :: "char \<Rightarrow> 32 word" where
  "charWord c = scast (word_of_nat (of_char c) :: 8 word)"

fun strSum :: "string \<Rightarrow> 32 word \<Rightarrow> 32 word \<Rightarrow> 32 word" where
  "strSum [] i hashid = hashid"
| "strSum (c # pStr) i hashid = strSum pStr (i + 1) (hashid + charWord c * i)"

definition bucketStringHash :: "bucket \<Rightarrow> string \<Rightarrow> 32 word" where
  "bucketStringHash pb s = strSum s 1 0 mod (hashIdMask pb + 1)"

definition bucketHash :: "bucket \<Rightarrow> buckId \<Rightarrow> 32 word option" where
  "bucketHash pb pId =
     (case pId of
        UnsignedId u \<Rightarrow> bucketWordHash pb (ucast u)
      | PointerId p \<Rightarrow> bucketWordHash pb p
      | StringId s \<Rightarrow> Some (bucketStringHash pb s))"

section \<open>The table\<close>

text \<open>The index width: the loop over \<open>nbits\<close>, with the mask of its last turn.\<close>

function findBits :: "32 word \<Rightarrow> nat \<Rightarrow> 32 word \<Rightarrow> nat \<times> 32 word" where
  "findBits n nbits msk =
     (if nbits < 32
      then (let msk = push_bit nbits 1 - 1 in
            if (n - 1) AND NOT msk = 0 then (nbits, msk) else findBits n (nbits + 1) msk)
      else (nbits, msk))"
  by pat_completeness auto
termination
  by (relation "measure (\<lambda>(_, nbits, _). 32 - nbits)") auto

definition bucketCreate :: "bool \<Rightarrow> bool \<Rightarrow> 32 word \<Rightarrow> bucket option" where
  "bucketCreate memory tableMemory nHashTableEntries =
     (if nHashTableEntries \<le> 1 then None
      else let (nbits, msk) = findBits nHashTableEntries 0 0 in
        if nbits \<ge> 32 then None
        else if \<not> memory \<or> \<not> tableMemory then None
        else Some \<lparr>pTable = replicate (unat (msk + 1)) [], hashIdMask = msk, hashIdNBits = nbits, nInUse = 0\<rparr>)"

text \<open>The chain an id belongs to; the assertion on the hash, and the bound of the table.\<close>

definition chainOf :: "bucket \<Rightarrow> buckId \<Rightarrow> nat option" where
  "chainOf pb pId = do {
     hashid \<leftarrow> bucketHash pb pId;
     if hashid AND NOT (hashIdMask pb) \<noteq> 0 then None
     else if unat hashid < length (pTable pb) then Some (unat hashid) else None }"

text \<open>The compare routines: the position of the item with the id in a chain.\<close>

fun bucketCompare :: "(buckId \<times> ptr) list \<Rightarrow> buckId \<Rightarrow> nat option" where
  "bucketCompare [] pId = None"
| "bucketCompare (pi # ppi) pId = (if fst pi = pId then Some 0 else map_option Suc (bucketCompare ppi pId))"

definition bucketAddItem :: "bool \<Rightarrow> bucket \<Rightarrow> buckId \<Rightarrow> ptr \<Rightarrow> (bucketStatus \<times> bucket) option" where
  "bucketAddItem memory prb pId pApp =
     (if \<not> memory then Some (S_bucket_noMemory, prb)
      else do {
        i \<leftarrow> chainOf prb pId;
        if bucketCompare (pTable prb ! i) pId \<noteq> None then Some (S_bucket_idInUse, prb)
        else Some (S_bucket_success,
               prb\<lparr>pTable := (pTable prb)[i := (pId, pApp) # pTable prb ! i], nInUse := nInUse prb + 1\<rparr>) })"

definition bucketLookupAndRemoveItem :: "bucket \<Rightarrow> buckId \<Rightarrow> (ptr \<times> bucket) option" where
  "bucketLookupAndRemoveItem prb pId = do {
     i \<leftarrow> chainOf prb pId;
     case bucketCompare (pTable prb ! i) pId of
       None \<Rightarrow> Some (None, prb)
     | Some j \<Rightarrow>
         (let chain = pTable prb ! i in
          Some (snd (chain ! j), prb\<lparr>pTable := (pTable prb)[i := take j chain @ drop (Suc j) chain],
                                      nInUse := nInUse prb - 1\<rparr>)) }"

definition bucketRemoveItem :: "bucket \<Rightarrow> buckId \<Rightarrow> (bucketStatus \<times> bucket) option" where
  "bucketRemoveItem prb pId = do {
     (pApp, prb') \<leftarrow> bucketLookupAndRemoveItem prb pId;
     Some (if pApp \<noteq> None then S_bucket_success else S_bucket_uknId, prb') }"

definition bucketLookupItem :: "bucket \<Rightarrow> buckId \<Rightarrow> ptr option" where
  "bucketLookupItem pb pId = do {
     i \<leftarrow> chainOf pb pId;
     Some (case bucketCompare (pTable pb ! i) pId of None \<Rightarrow> None | Some j \<Rightarrow> snd (pTable pb ! i ! j)) }"

text \<open>\<open>bucketFree\<close> asserts that the table is empty.\<close>

definition bucketFree :: "bucket \<Rightarrow> unit option" where
  "bucketFree prb = (if nInUse prb = 0 then Some () else None)"

section \<open>Maps as an interface\<close>

text \<open>
  A table that behaves as a finite map from ids to application pointers: \<open>view\<close> is the map it stands
  for.
\<close>

locale id_map =
  fixes inv :: "'t \<Rightarrow> bool"
    and view :: "'t \<Rightarrow> 'k \<rightharpoonup> ptr"
    and add :: "bool \<Rightarrow> 't \<Rightarrow> 'k \<Rightarrow> ptr \<Rightarrow> (bucketStatus \<times> 't) option"
    and take_out :: "'t \<Rightarrow> 'k \<Rightarrow> (ptr \<times> 't) option"
    and look :: "'t \<Rightarrow> 'k \<Rightarrow> ptr option"
  assumes add_ok: "inv t \<Longrightarrow> \<exists>t'. add m t k v = Some (if \<not> m then S_bucket_noMemory
        else if view t k \<noteq> None then S_bucket_idInUse else S_bucket_success, t')
      \<and> inv t' \<and> view t' = (if m \<and> view t k = None then (view t)(k \<mapsto> v) else view t)"
    and take_ok: "inv t \<Longrightarrow> \<exists>t'. take_out t k = Some (Option.bind (view t k) id, t') \<and> inv t' \<and> view t' = (view t)(k := None)"
    and look_ok: "inv t \<Longrightarrow> look t k = Some (Option.bind (view t k) id)"

datatype 'k mapop = MAdd bool 'k ptr | MTake 'k | MLook 'k

datatype mapres = RStatus bucketStatus | RItem ptr

text \<open>The operations on a map, and on a table.\<close>

fun specOp :: "'k mapop \<Rightarrow> ('k \<rightharpoonup> ptr) \<Rightarrow> mapres \<times> ('k \<rightharpoonup> ptr)" where
  "specOp (MAdd m k v) f =
     (if \<not> m then (RStatus S_bucket_noMemory, f)
      else if f k \<noteq> None then (RStatus S_bucket_idInUse, f) else (RStatus S_bucket_success, f(k \<mapsto> v)))"
| "specOp (MTake k) f = (RItem (Option.bind (f k) id), f(k := None))"
| "specOp (MLook k) f = (RItem (Option.bind (f k) id), f)"

fun specRun :: "'k mapop list \<Rightarrow> ('k \<rightharpoonup> ptr) \<Rightarrow> mapres list \<times> ('k \<rightharpoonup> ptr)" where
  "specRun [] f = ([], f)"
| "specRun (op # ops) f = (let (r, f') = specOp op f; (rs, f'') = specRun ops f' in (r # rs, f''))"

definition tableOp :: "(bool \<Rightarrow> 't \<Rightarrow> 'k \<Rightarrow> ptr \<Rightarrow> (bucketStatus \<times> 't) option) \<Rightarrow> ('t \<Rightarrow> 'k \<Rightarrow> (ptr \<times> 't) option) \<Rightarrow>
    ('t \<Rightarrow> 'k \<Rightarrow> ptr option) \<Rightarrow> 'k mapop \<Rightarrow> 't \<Rightarrow> (mapres \<times> 't) option" where
  "tableOp add take_out look op t =
     (case op of
        MAdd m k v \<Rightarrow> map_option (\<lambda>(s, t'). (RStatus s, t')) (add m t k v)
      | MTake k \<Rightarrow> map_option (\<lambda>(p, t'). (RItem p, t')) (take_out t k)
      | MLook k \<Rightarrow> map_option (\<lambda>p. (RItem p, t)) (look t k))"

fun tableRun :: "('k mapop \<Rightarrow> 't \<Rightarrow> (mapres \<times> 't) option) \<Rightarrow> 'k mapop list \<Rightarrow> 't \<Rightarrow> (mapres list \<times> 't) option" where
  "tableRun f [] t = Some ([], t)"
| "tableRun f (op # ops) t = do { (r, t') \<leftarrow> f op t; (rs, t'') \<leftarrow> tableRun f ops t'; Some (r # rs, t'') }"

context id_map
begin

lemma op_refines:
  "inv t \<Longrightarrow> \<exists>t'. tableOp add take_out look op t = Some (fst (specOp op (view t)), t') \<and> inv t' \<and> view t' = snd (specOp op (view t))"
proof (cases op)
  case (MAdd m k v)
  assume i: "inv t"
  obtain t' where t': "add m t k v = Some (if \<not> m then S_bucket_noMemory
        else if view t k \<noteq> None then S_bucket_idInUse else S_bucket_success, t')" "inv t'"
      "view t' = (if m \<and> view t k = None then (view t)(k \<mapsto> v) else view t)" using add_ok[OF i] by blast
  then show ?thesis using MAdd by (cases m; cases "view t k") (simp_all add: tableOp_def)
next
  case (MTake k)
  assume i: "inv t"
  then show ?thesis using MTake take_ok[OF i, of k] by (auto simp: tableOp_def)
next
  case (MLook k)
  assume i: "inv t"
  then show ?thesis using MLook look_ok[OF i, of k] by (simp add: tableOp_def)
qed

lemma run_refines:
  "inv t \<Longrightarrow> \<exists>t'. tableRun (tableOp add take_out look) ops t = Some (fst (specRun ops (view t)), t') \<and> inv t'
     \<and> view t' = snd (specRun ops (view t))"
proof (induction ops arbitrary: t)
  case (Cons op ops)
  obtain t1 where 1: "tableOp add take_out look op t = Some (fst (specOp op (view t)), t1)" "inv t1"
    "view t1 = snd (specOp op (view t))" using op_refines[OF Cons.prems] by blast
  obtain t2 where 2: "tableRun (tableOp add take_out look) ops t1 = Some (fst (specRun ops (view t1)), t2)" "inv t2"
    "view t2 = snd (specRun ops (view t1))" using Cons.IH[OF 1(2)] by blast
  then show ?case using 1 by (intro exI[of _ t2]) (simp add: Let_def split_def)
qed simp

end

end
