(* ===== verification/BucketProofs.thy ===== *)
theory BucketProofs
  imports BucketLib
begin

text \<open>
  The hash table is a finite map: hashing terminates inside the table, every chain holds the items of
  its own hash once, and the operations are those of the map.
\<close>

section \<open>Hashing\<close>

lemma foldHash_total: "0 < n \<Longrightarrow> \<exists>h. foldHash n src hashid = Some h"
proof (induction "unat src" arbitrary: src hashid rule: less_induct)
  case less
  show ?case
  proof (cases "src = 0")
    case True
    then show ?thesis by (simp add: foldHash.simps)
  next
    case False
    then have pos: "0 < unat src" by (simp add: unat_gt_0)
    have "(2::nat) ^ 1 \<le> 2 ^ n" using less.prems by (intro power_increasing) auto
    then have "unat src div 2 ^ n < unat src" using pos by (intro div_less_dividend) auto
    moreover have "unat (drop_bit n src) = unat src div 2 ^ n"
      using unat_drop_bit_eq[of n src] drop_bit_eq_div[of n "unat src"] by (rule trans)
    ultimately have "unat (drop_bit n src) < unat src" by simp
    then obtain h where "foldHash n (drop_bit n src) (hashid XOR src) = Some h" using less.hyps less.prems by blast
    then show ?thesis using False by (subst foldHash.simps) simp
  qed
qed

text \<open>The shape of a table that \<open>bucketCreate\<close> made.\<close>

definition geometry :: "bucket \<Rightarrow> bool" where
  "geometry pb \<longleftrightarrow> 0 < hashIdNBits pb \<and> hashIdNBits pb < 32 \<and> hashIdMask pb = mask (hashIdNBits pb)
     \<and> length (pTable pb) = 2 ^ hashIdNBits pb"

lemma and_mask_bounds:
  fixes w :: "32 word"
  assumes "n < 32"
  shows "unat (w AND mask n) < 2 ^ n" "(w AND mask n) AND NOT (mask n) = 0"
proof -
  have e: "w AND mask n = take_bit n w" by (simp add: take_bit_eq_mask)
  have "unat (take_bit n w) = take_bit n (unat w)" by (rule unsigned_take_bit_eq)
  then show "unat (w AND mask n) < 2 ^ n" using e take_bit_nat_less_exp[of n "unat w"] by simp
  show "(w AND mask n) AND NOT (mask n) = 0" by (simp add: and.assoc)
qed

lemma mod_mask:
  fixes w :: "32 word"
  assumes "n < 32"
  shows "w mod (mask n + 1) = w AND mask n"
proof -
  have "(mask n + 1 :: 32 word) = 2 ^ n" by (simp add: mask_eq_decr_exp)
  then show ?thesis by (simp only: take_bit_eq_mod[symmetric] take_bit_eq_mask)
qed

lemma bucketHash_masked:
  assumes "geometry pb"
  shows "\<exists>w. bucketHash pb k = Some (w AND mask (hashIdNBits pb))"
proof -
  have g: "0 < hashIdNBits pb" "hashIdNBits pb < 32" "hashIdMask pb = mask (hashIdNBits pb)"
    using assms by (simp_all add: geometry_def)
  have w: "\<exists>w. bucketWordHash pb x = Some (w AND mask (hashIdNBits pb))" for x
    using foldHash_total[OF g(1), of "drop_bit (hashIdNBits pb) x" x] g(3) by (auto simp: bucketWordHash_def)
  show ?thesis
  proof (cases k)
    case (UnsignedId u)
    then show ?thesis using w[of "ucast u"] by (simp add: bucketHash_def)
  next
    case (PointerId p)
    then show ?thesis using w[of p] by (simp add: bucketHash_def)
  next
    case (StringId s)
    then show ?thesis using mod_mask[OF g(2), of "strSum s 1 0"] g(3) by (auto simp: bucketHash_def bucketStringHash_def)
  qed
qed

lemma chainOf_ok:
  assumes "geometry pb"
  shows "\<exists>i. chainOf pb k = Some i \<and> i < length (pTable pb)"
proof -
  obtain w where w: "bucketHash pb k = Some (w AND mask (hashIdNBits pb))" using bucketHash_masked[OF assms] by blast
  have g: "hashIdNBits pb < 32" "hashIdMask pb = mask (hashIdNBits pb)" "length (pTable pb) = 2 ^ hashIdNBits pb"
    using assms by (simp_all add: geometry_def)
  show ?thesis using and_mask_bounds[OF g(1), of w] w g(2,3) by (simp add: chainOf_def)
qed

lemma bucketHash_cong:
  "hashIdMask pb' = hashIdMask pb \<Longrightarrow> hashIdNBits pb' = hashIdNBits pb \<Longrightarrow> bucketHash pb' k = bucketHash pb k"
  by (simp add: bucketHash_def bucketWordHash_def bucketStringHash_def split: buckId.split)

lemma chainOf_cong:
  "hashIdMask pb' = hashIdMask pb \<Longrightarrow> hashIdNBits pb' = hashIdNBits pb \<Longrightarrow> length (pTable pb') = length (pTable pb) \<Longrightarrow>
   chainOf pb' k = chainOf pb k"
  by (simp add: chainOf_def bucketHash_cong[of pb' pb] cong: if_cong)

section \<open>Creating a table\<close>

lemma findBits_ok:
  "findBits n k m = (nbits, msk) \<Longrightarrow> nbits < 32 \<Longrightarrow> msk = mask nbits \<and> (n - 1) AND NOT msk = 0 \<and> k \<le> nbits"
proof (induction n k m rule: findBits.induct)
  case (1 n k m)
  show ?case
  proof (cases "k < 32 \<and> (n - 1) AND NOT (push_bit k 1 - 1) \<noteq> 0")
    case True
    then have "findBits n (k + 1) (push_bit k 1 - 1) = (nbits, msk)" using "1.prems"(1) by (simp add: Let_def)
    then show ?thesis using "1.IH"[OF _ refl] True "1.prems"(2) by auto
  next
    case False
    then show ?thesis using "1.prems" by (auto simp: Let_def mask_eq_decr_exp push_bit_eq_mult split: if_splits)
  qed
qed

declare findBits.simps [simp del]

section \<open>The table as a map\<close>

definition allItems :: "bucket \<Rightarrow> (buckId \<times> ptr) list" where
  "allItems pb = concat (pTable pb)"

definition bucket_inv :: "bucket \<Rightarrow> bool" where
  "bucket_inv pb \<longleftrightarrow> geometry pb
     \<and> (\<forall>i < length (pTable pb). distinct (map fst (pTable pb ! i)) \<and> (\<forall>x \<in> set (pTable pb ! i). chainOf pb (fst x) = Some i))
     \<and> nInUse pb = of_nat (length (allItems pb))"

text \<open>The map a table stands for.\<close>

definition bucket_view :: "bucket \<Rightarrow> buckId \<rightharpoonup> ptr" where
  "bucket_view pb k = Option.bind (chainOf pb k) (\<lambda>i. map_of (pTable pb ! i) k)"

lemma compare_map_of:
  "bucketCompare xs k = None \<longleftrightarrow> map_of xs k = None"
  "bucketCompare xs k = Some j \<Longrightarrow> j < length xs \<and> fst (xs ! j) = k \<and> map_of xs k = Some (snd (xs ! j))"
proof -
  show "bucketCompare xs k = None \<longleftrightarrow> map_of xs k = None" by (induction xs) auto
  show "bucketCompare xs k = Some j \<Longrightarrow> j < length xs \<and> fst (xs ! j) = k \<and> map_of xs k = Some (snd (xs ! j))"
    by (induction xs arbitrary: j) (auto split: if_splits)
qed

lemma map_of_remove:
  "distinct (map fst xs) \<Longrightarrow> bucketCompare xs k = Some j \<Longrightarrow> map_of (take j xs @ drop (Suc j) xs) = (map_of xs)(k := None)"
proof (induction xs arbitrary: j)
  case (Cons x xs)
  show ?case
  proof (cases "fst x = k")
    case True
    then have "map_of xs k = None" using Cons.prems(1) by (auto simp: map_of_eq_None_iff)
    then show ?thesis using True Cons.prems(2) by (cases x) (auto simp: fun_eq_iff)
  next
    case False
    then obtain j' where "j = Suc j'" "bucketCompare xs k = Some j'" using Cons.prems(2) by auto
    then show ?thesis using Cons False by (cases x) (auto simp: fun_upd_twist)
  qed
qed simp

lemma length_concat_update:
  "i < length t \<Longrightarrow> length (concat (t[i := c])) + length (t ! i) = length (concat t) + length c"
proof (induction t arbitrary: i)
  case (Cons x t)
  then show ?case by (cases i) auto
qed simp

text \<open>Replacing one chain by another one for the same hash.\<close>

lemma chain_update:
  assumes inv: "bucket_inv pb" and i: "chainOf pb k = Some i" "i < length (pTable pb)"
    and c: "distinct (map fst c)" "\<forall>x \<in> set c. chainOf pb (fst x) = Some i"
    and n: "n = of_nat (length (concat ((pTable pb)[i := c])))"
    and m: "map_of c = (map_of (pTable pb ! i))(k := v)"
  shows "bucket_inv (pb\<lparr>pTable := (pTable pb)[i := c], nInUse := n\<rparr>)"
    and "bucket_view (pb\<lparr>pTable := (pTable pb)[i := c], nInUse := n\<rparr>) = (bucket_view pb)(k := v)"
proof -
  let ?pb = "pb\<lparr>pTable := (pTable pb)[i := c], nInUse := n\<rparr>"
  have ch: "chainOf ?pb x = chainOf pb x" for x by (rule chainOf_cong) simp_all
  have g: "geometry ?pb" using inv by (simp add: bucket_inv_def geometry_def)
  have "distinct (map fst (pTable ?pb ! j)) \<and> (\<forall>x \<in> set (pTable ?pb ! j). chainOf ?pb (fst x) = Some j)"
    if "j < length (pTable ?pb)" for j
    using inv that c unfolding bucket_inv_def ch by (cases "j = i") auto
  then show "bucket_inv ?pb" using g n unfolding bucket_inv_def allItems_def by simp
  show "bucket_view ?pb = (bucket_view pb)(k := v)"
  proof
    fix x
    obtain j where j: "chainOf pb x = Some j" using chainOf_ok[of pb x] inv by (auto simp: bucket_inv_def)
    show "bucket_view ?pb x = ((bucket_view pb)(k := v)) x"
    proof (cases "j = i")
      case True
      then show ?thesis using j i(2) m by (simp add: bucket_view_def ch)
    next
      case False
      then have "x \<noteq> k" using i(1) j by auto
      then show ?thesis using j False i(2) by (simp add: bucket_view_def ch)
    qed
  qed
qed

interpretation bucketmap: id_map bucket_inv bucket_view bucketAddItem bucketLookupAndRemoveItem bucketLookupItem
proof
  fix t :: bucket and k :: buckId and m :: bool and v :: ptr
  assume inv: "bucket_inv t"
  obtain i where i: "chainOf t k = Some i" "i < length (pTable t)" using chainOf_ok[of t k] inv by (auto simp: bucket_inv_def)
  have d: "distinct (map fst (pTable t ! i))" "\<forall>x \<in> set (pTable t ! i). chainOf t (fst x) = Some i"
    and u: "nInUse t = of_nat (length (concat (pTable t)))"
    using inv i(2) by (simp_all add: bucket_inv_def allItems_def)
  have v: "bucket_view t k = map_of (pTable t ! i) k" using i(1) by (simp add: bucket_view_def)
  show "\<exists>t'. bucketAddItem m t k v = Some (if \<not> m then S_bucket_noMemory
        else if bucket_view t k \<noteq> None then S_bucket_idInUse else S_bucket_success, t')
      \<and> bucket_inv t' \<and> bucket_view t' = (if m \<and> bucket_view t k = None then (bucket_view t)(k \<mapsto> v) else bucket_view t)"
  proof (cases "m \<and> bucket_view t k = None")
    case True
    then have none: "bucketCompare (pTable t ! i) k = None" using v compare_map_of(1) by simp
    let ?c = "(k, v) # pTable t ! i"
    have nk: "k \<notin> fst ` set (pTable t ! i)" using True v by (simp add: map_of_eq_None_iff)
    have n: "nInUse t + 1 = of_nat (length (concat ((pTable t)[i := ?c])))"
      using length_concat_update[OF i(2), of ?c] u by simp
    have "distinct (map fst ?c)" "\<forall>x \<in> set ?c. chainOf t (fst x) = Some i" using d nk i(1) by auto
    note upd = chain_update[OF inv i this n, of "Some v"]
    have "bucketAddItem m t k v = Some (S_bucket_success, t\<lparr>pTable := (pTable t)[i := ?c], nInUse := nInUse t + 1\<rparr>)"
      using True i(1) none by (simp add: bucketAddItem_def)
    then show ?thesis using upd True by auto
  next
    case False
    then show ?thesis
    proof (cases m)
      case True
      then have "bucketCompare (pTable t ! i) k \<noteq> None" "bucket_view t k \<noteq> None" using False v compare_map_of(1) by auto
      then show ?thesis using True i(1) inv by (auto simp: bucketAddItem_def)
    qed (simp add: bucketAddItem_def inv)
  qed
  show "\<exists>t'. bucketLookupAndRemoveItem t k = Some (Option.bind (bucket_view t k) id, t') \<and> bucket_inv t'
      \<and> bucket_view t' = (bucket_view t)(k := None)"
  proof (cases "bucketCompare (pTable t ! i) k")
    case None
    then have "bucket_view t k = None" using v compare_map_of(1) by simp
    then show ?thesis using None i(1) inv by (auto simp: bucketLookupAndRemoveItem_def fun_upd_idem_iff)
  next
    case (Some j)
    note cj = compare_map_of(2)[OF Some]
    let ?c = "take j (pTable t ! i) @ drop (Suc j) (pTable t ! i)"
    have "distinct (map fst (take j (pTable t ! i) @ pTable t ! i ! j # drop (Suc j) (pTable t ! i)))"
      using d(1) id_take_nth_drop[of j "pTable t ! i"] cj by metis
    then have dc: "distinct (map fst ?c)" by (auto simp: image_iff)
    have sc: "\<forall>x \<in> set ?c. chainOf t (fst x) = Some i" using d(2) by (auto dest: in_set_takeD in_set_dropD)
    have lc: "length ?c + 1 = length (pTable t ! i)" using cj by auto
    then have "length (concat ((pTable t)[i := ?c])) + 1 = length (concat (pTable t))"
      using length_concat_update[OF i(2), of ?c] by linarith
    then have n: "nInUse t - 1 = of_nat (length (concat ((pTable t)[i := ?c])))" unfolding u by (metis add_diff_cancel_right' of_nat_1 of_nat_add)
    note upd = chain_update[OF inv i dc sc n map_of_remove[OF d(1) Some]]
    have "bucketLookupAndRemoveItem t k = Some (snd (pTable t ! i ! j), t\<lparr>pTable := (pTable t)[i := ?c], nInUse := nInUse t - 1\<rparr>)"
      using i(1) Some by (simp add: bucketLookupAndRemoveItem_def Let_def)
    then show ?thesis using upd cj v by auto
  qed
  show "bucketLookupItem t k = Some (Option.bind (bucket_view t k) id)"
    using i(1) v compare_map_of(1)[of "pTable t ! i" k] compare_map_of(2)[of "pTable t ! i" k]
    by (cases "bucketCompare (pTable t ! i) k") (auto simp: bucketLookupItem_def)
qed

text \<open>A new table is empty, and as wide as was asked for.\<close>

lemma bucketCreate_ok:
  assumes "bucketCreate True True n = Some pb"
  shows "bucket_inv pb \<and> bucket_view pb = Map.empty \<and> unat n \<le> length (pTable pb)"
proof -
  obtain nbits msk where f: "findBits n 0 0 = (nbits, msk)" by force
  have c: "\<not> n \<le> 1" "nbits < 32" and pb: "pb = \<lparr>pTable = replicate (unat (msk + 1)) [], hashIdMask = msk, hashIdNBits = nbits, nInUse = 0\<rparr>"
    using assms f by (auto simp: bucketCreate_def Let_def split: if_splits)
  have m: "msk = mask nbits" "(n - 1) AND NOT msk = 0" using findBits_ok[OF f c(2)] by blast+
  have n1: "n - 1 \<noteq> 0" using c(1) by auto
  have p: "msk + 1 = 2 ^ nbits" by (simp add: m(1) mask_eq_decr_exp)
  have "(2::nat) ^ nbits < 2 ^ 32" using c(2) by (intro power_strict_increasing) auto
  then have "unat (of_nat (2 ^ nbits) :: 32 word) = 2 ^ nbits" by (subst unat_of_nat) (simp add: take_bit_eq_mod)
  then have len: "length (pTable pb) = 2 ^ nbits" using p by (simp add: pb)
  have tb: "take_bit nbits (n - 1) = n - 1"
  proof -
    have "(n - 1) AND mask nbits = n - 1"
      using m by (metis and.right_neutral bit.conj_disj_distrib bit.disj_cancel_right or.right_neutral)
    then show ?thesis by (simp add: take_bit_eq_mask)
  qed
  then have "nbits \<noteq> 0" using n1 by (metis take_bit_0)
  then have g: "geometry pb" using c(2) m(1) len by (simp add: geometry_def pb)
  have "unat (n - 1) < 2 ^ nbits" using tb by (metis take_bit_nat_less_exp unsigned_take_bit_eq)
  moreover have "unat n = unat (n - 1) + 1"
  proof -
    have "n \<noteq> 0" using c(1) by auto
    then show ?thesis using unat_minus_one[of n] unat_gt_0[of n] by simp
  qed
  ultimately have "unat n \<le> length (pTable pb)" using len by simp
  moreover have "bucket_inv pb" using g by (simp add: bucket_inv_def pb allItems_def)
  moreover have "bucket_view pb = Map.empty"
  proof
    fix k
    obtain i where "chainOf pb k = Some i" "i < length (pTable pb)" using chainOf_ok[OF g] by blast
    then show "bucket_view pb k = None" by (simp add: bucket_view_def pb)
  qed
  ultimately show ?thesis by blast
qed

section \<open>Properties\<close>

text \<open>The operations of one run, for the model's table.\<close>

definition bucketOp :: "buckId mapop \<Rightarrow> bucket \<Rightarrow> (mapres \<times> bucket) option" where
  "bucketOp = tableOp bucketAddItem bucketLookupAndRemoveItem bucketLookupItem"

text \<open>C17. For every table \<open>bucketCreate\<close> makes and every sequence of additions (with or without memory),
  removals and lookups, by unsigned, pointer and string ids that may collide, no assertion fails, the
  hash loop ends inside the table, and all results are those of a finite map; the table has at least
  the number of entries asked for.\<close>

theorem bucket_is_map:
  assumes "bucketCreate True True n = Some pb"
  shows "\<exists>pb'. tableRun bucketOp ops pb = Some (fst (specRun ops Map.empty), pb')
    \<and> (\<forall>k. bucketLookupItem pb' k = Some (Option.bind (snd (specRun ops Map.empty) k) id))
    \<and> unat n \<le> length (pTable pb)"
proof -
  note c = bucketCreate_ok[OF assms]
  obtain pb' where r: "tableRun bucketOp ops pb = Some (fst (specRun ops (bucket_view pb)), pb')" "bucket_inv pb'"
    "bucket_view pb' = snd (specRun ops (bucket_view pb))"
    using bucketmap.run_refines[of pb ops] c unfolding bucketOp_def by blast
  then show ?thesis using c bucketmap.look_ok[OF r(2)] by auto
qed

theorem bucket_is_map_witness:
  "\<exists>pb pb'. bucketCreate True True 3 = Some pb
     \<and> tableRun bucketOp [MAdd True (UnsignedId 1) (Some 10), MAdd True (UnsignedId 5) (Some 11), MTake (UnsignedId 1)] pb
        = Some ([RStatus S_bucket_success, RStatus S_bucket_success, RItem (Some 10)], pb')"
proof -
  have "\<not> Option.is_none (bucketCreate True True 3)" by code_simp
  then obtain pb where pb: "bucketCreate True True 3 = Some pb" by (auto simp: Option.is_none_def)
  from bucket_is_map[OF this, of "[MAdd True (UnsignedId 1) (Some 10), MAdd True (UnsignedId 5) (Some 11), MTake (UnsignedId 1)]"]
  show ?thesis using pb by (auto simp: Let_def)
qed

text \<open>Removing an item whose application pointer is \<open>NULL\<close> removes it and reports an unknown id.\<close>

theorem remove_null_item:
  assumes "bucket_inv pb" and "bucket_view pb k = Some None"
  shows "\<exists>pb'. bucketRemoveItem pb k = Some (S_bucket_uknId, pb') \<and> bucket_inv pb' \<and> bucket_view pb' k = None"
proof -
  obtain pb' where r: "bucketLookupAndRemoveItem pb k = Some (Option.bind (bucket_view pb k) id, pb')" "bucket_inv pb'"
    "bucket_view pb' = (bucket_view pb)(k := None)" using bucketmap.take_ok[OF assms(1)] by blast
  then show ?thesis using assms(2) by (auto simp: bucketRemoveItem_def)
qed

theorem remove_null_item_witness:
  "\<exists>pb pb'. bucketRemoveItem pb (StringId ''x'') = Some (S_bucket_uknId, pb') \<and> bucket_view pb (StringId ''x'') = Some None"
proof -
  have "\<not> Option.is_none (bucketCreate True True 3)" by code_simp
  then obtain pb where "bucketCreate True True 3 = Some pb" by (auto simp: Option.is_none_def)
  then have c: "bucket_inv pb" "bucket_view pb = Map.empty" using bucketCreate_ok by blast+
  obtain pb1 where "bucket_inv pb1" "bucket_view pb1 = [StringId ''x'' \<mapsto> None]"
    using bucketmap.add_ok[OF c(1), of True "StringId ''x''" None] c(2) by auto
  with remove_null_item[of pb1 "StringId ''x''"] show ?thesis by auto
qed

end
