(* ===== verification/DbEvent.thy ===== *)
theory DbEvent
  imports Prelude
begin

text \<open>
  Delivery of field changes to subscribers, \<open>base/src/db/dbEvent.c\<close>. A subscription belongs to one of
  the event queues of its event user; posting puts the value of its field into the ring of that queue,
  and the event task takes the entries out and calls the subscriber. The state holds one event user
  with its queues (\<open>firstque\<close> and the chain of \<open>nextque\<close>), the subscriptions by address, the records,
  the memory of the fields, and where the event task and the threads that wait in \<open>db_cancel_event\<close>
  stand. Operations are the critical sections of the code; \<open>None\<close> is a failed assertion, an index out of
  range or the use of a subscription that is not allocated. Not modelled: \<open>dbel\<close>, which prints, and the
  creation of the mutexes and events.
\<close>

section \<open>Data\<close>

abbreviation EVENTSPERQUE :: nat where "EVENTSPERQUE \<equiv> 32"
abbreviation EVENTENTRIES :: nat where "EVENTENTRIES \<equiv> 4"
abbreviation EVENTQUESIZE :: nat where "EVENTQUESIZE \<equiv> 128"

text \<open>What is read back from an \<open>unsigned short\<close> or an \<open>unsigned long\<close> a value was stored in.\<close>

definition ushort :: "nat \<Rightarrow> nat" where "ushort n = unat (word_of_nat n :: 16 word)"
definition ulong :: "nat \<Rightarrow> nat" where "ulong n = unat (word_of_nat n :: 32 word)"
definition ushortMinus :: "nat \<Rightarrow> nat \<Rightarrow> nat" where "ushortMinus a b = unat (word_of_nat a - word_of_nat b :: 16 word)"

lemma ushort_mod: "ushort n = n mod 65536"
  by (simp add: ushort_def unat_of_nat)

lemma ulong_mod: "ulong n = n mod 4294967296"
  by (simp add: ulong_def unat_of_nat)

lemma ushortMinus_eq: "b \<le> a \<Longrightarrow> a < 65536 \<Longrightarrow> ushortMinus a b = a - b"
proof -
  assume a: "b \<le> a" "a < 65536"
  then have d: "word_of_nat a - word_of_nat b = (word_of_nat (a - b) :: 16 word)" by simp
  show ?thesis unfolding ushortMinus_def d unat_of_nat using a by simp
qed

text \<open>The bytes of the union \<open>native_value\<close> are a list of eight.\<close>

record db_field_log =
  l_stat :: "16 word"
  l_sevr :: "16 word"
  l_time :: "32 word \<times> 32 word"
  l_field :: "8 word list"

record dbaddr =
  precord :: addr
  pfield :: addr
  no_elements :: int
  field_size :: nat

text \<open>A callback is a pointer to its code; \<open>ev_que\<close> is the position of the queue in the chain.\<close>

record evSubscrip =
  paddr :: dbaddr
  user_sub :: ptr
  user_arg :: addr
  ev_que :: nat
  pLastLog :: "nat option"
  npend :: nat
  nreplace :: nat
  select :: int
  valque :: bool
  callBackInProgress :: bool
  enabled :: bool

text \<open>An entry of the ring: \<open>EVENTQEMPTY\<close>, a subscription, or \<open>&canceledEvent\<close>.\<close>

datatype slot = QEmpty | QEvent addr | QCanceled

record event_que =
  q_valque :: "db_field_log list"
  evque :: "slot list"
  putix :: nat
  getix :: nat
  quota :: nat
  nDuplicates :: nat
  nCanceled :: nat

record dbCommon =
  mlis :: "addr list"
  r_stat :: "16 word"
  r_sevr :: "16 word"
  r_time :: "32 word \<times> 32 word"

text \<open>
  Where the event task stands: not started, waiting for \<open>ppendsem\<close>, between its two looks at
  \<open>extra_labor\<close>, about to read the queue at a position, inside the callback of a subscription read
  from a queue, or ended.
\<close>

datatype taskpc = TOff | TWait | TLabor | TRead nat | TCall nat addr | TExit

text \<open>The calls into user code, in order.\<close>

datatype usercall =
    Deliver (d_event: addr) (d_sub: addr) (d_arg: addr) (d_addr: dbaddr) (d_remaining: bool) (d_log: "db_field_log option")
  | Labor addr addr
  | Overflow ptr addr nat

text \<open>
  The event user with everything around it; \<open>closing\<close> are the subscriptions whose \<open>db_cancel_event\<close>
  waits for \<open>pflush_sem\<close>. Both semaphores are binary. \<open>signals\<close> counts the threads that have done what the
  event task is to be told of, and have left the lock, but have not signalled \<open>ppendsem\<close> yet.
\<close>

record dbev =
  queues :: "event_que list"
  subs :: "addr \<rightharpoonup> evSubscrip"
  recs :: "addr \<Rightarrow> dbCommon"
  bytesAt :: "addr \<Rightarrow> 8 word"
  pSuicideEvent :: ptr
  queovr :: nat
  overflow_sub :: ptr
  overflow_arg :: addr
  extralabor_sub :: ptr
  extralabor_arg :: addr
  extra_labor :: bool
  extraLaborBusy :: bool
  flowCtrlMode :: bool
  pendexit :: bool
  ppendsem :: bool
  signals :: nat
  pflush_sem :: bool
  task :: taskpc
  closing :: "addr list"
  calls :: "usercall list"

section \<open>Access\<close>

definition queAt :: "nat \<Rightarrow> dbev \<Rightarrow> event_que option" where
  "queAt i st = (if i < length (queues st) then Some (queues st ! i) else None)"

definition setQue :: "nat \<Rightarrow> event_que \<Rightarrow> dbev \<Rightarrow> dbev" where
  "setQue i q st = st\<lparr>queues := (queues st)[i := q]\<rparr>"

definition setSub :: "addr \<Rightarrow> evSubscrip \<Rightarrow> dbev \<Rightarrow> dbev" where
  "setSub e s st = st\<lparr>subs := (subs st)(e \<mapsto> s)\<rparr>"

definition slotAt :: "event_que \<Rightarrow> nat \<Rightarrow> slot option" where
  "slotAt q ix = (if ix < length (evque q) then Some (evque q ! ix) else None)"

definition logAt :: "event_que \<Rightarrow> nat \<Rightarrow> db_field_log option" where
  "logAt q ix = (if ix < length (q_valque q) then Some (q_valque q ! ix) else None)"

definition RNGINC :: "nat \<Rightarrow> nat" where
  "RNGINC old = (if old \<ge> EVENTQUESIZE - 1 then 0 else old + 1)"

definition ringSpace :: "event_que \<Rightarrow> nat option" where
  "ringSpace pevq = do {
     s \<leftarrow> slotAt pevq (putix pevq);
     Some (if s = QEmpty
           then (if getix pevq > putix pevq then getix pevq - putix pevq
                 else EVENTQUESIZE + getix pevq - putix pevq)
           else 0) }"

section \<open>Subscriptions\<close>

definition noLog :: db_field_log where
  "noLog = \<lparr>l_stat = 0, l_sevr = 0, l_time = (0, 0), l_field = replicate 8 0\<rparr>"

text \<open>A queue from \<open>freeListCalloc\<close>.\<close>

definition newQue :: event_que where
  "newQue = \<lparr>q_valque = replicate EVENTQUESIZE noLog, evque = replicate EVENTQUESIZE QEmpty, putix = 0, getix = 0,
     quota = 0, nDuplicates = 0, nCanceled = 0\<rparr>"

text \<open>\<open>db_init_events\<close>: the event user of one client, around the given records and memory.\<close>

definition db_init_events :: "(addr \<Rightarrow> dbCommon) \<Rightarrow> (addr \<Rightarrow> 8 word) \<Rightarrow> dbev" where
  "db_init_events rs bs =
     \<lparr>queues = [newQue], subs = Map.empty, recs = rs, bytesAt = bs, pSuicideEvent = None, queovr = 0,
      overflow_sub = None, overflow_arg = 0, extralabor_sub = None, extralabor_arg = 0, extra_labor = False,
      extraLaborBusy = False, flowCtrlMode = False, pendexit = False, ppendsem = False, signals = 0, pflush_sem = False,
      task = TOff, closing = [], calls = []\<rparr>"

text \<open>The first queue of the chain with quota left, and its position.\<close>

fun findQue :: "event_que list \<Rightarrow> nat option" where
  "findQue [] = None"
| "findQue (evq # nextque) =
     (if quota evq + nCanceled evq < EVENTQUESIZE - EVENTENTRIES then Some 0
      else map_option Suc (findQue nextque))"

text \<open>
  \<open>pevent\<close> is what \<open>freeListCalloc\<close> returns for the subscription, \<open>queMem\<close> whether the memory and the
  mutex of another queue can be had.
\<close>

definition db_add_event :: "ptr \<Rightarrow> bool \<Rightarrow> dbaddr \<Rightarrow> ptr \<Rightarrow> addr \<Rightarrow> int \<Rightarrow> dbev \<Rightarrow> (ptr \<times> dbev) option" where
  "db_add_event pevent queMem pa usub uarg sel st =
     (if sel = 0 \<or> sel > 255 then Some (None, st)
      else case pevent of
        None \<Rightarrow> Some (None, st)
      | Some e \<Rightarrow>
          (case (case findQue (queues st) of
                   Some i \<Rightarrow> Some (i, st)
                 | None \<Rightarrow> if queMem then Some (length (queues st), st\<lparr>queues := queues st @ [newQue]\<rparr>) else None) of
             None \<Rightarrow> Some (None, st)
           | Some (i, st1) \<Rightarrow> do {
               q \<leftarrow> queAt i st1;
               let s = \<lparr>paddr = pa, user_sub = usub, user_arg = uarg, ev_que = i, pLastLog = None, npend = 0,
                        nreplace = 0, select = sel, valque = (no_elements pa = 1 \<and> field_size pa \<le> 8),
                        callBackInProgress = False, enabled = False\<rparr>;
               Some (Some e, setSub e s (setQue i (q\<lparr>quota := ushort (quota q + EVENTENTRIES)\<rparr>) st1)) }))"

definition db_event_enable :: "addr \<Rightarrow> dbev \<Rightarrow> dbev option" where
  "db_event_enable es st = do {
     s \<leftarrow> subs st es;
     let r = precord (paddr s);
     Some (if enabled s then st
           else setSub es (s\<lparr>enabled := True\<rparr>)
             (st\<lparr>recs := (recs st)(r := (recs st r)\<lparr>mlis := mlis (recs st r) @ [es]\<rparr>)\<rparr>)) }"

definition db_event_disable :: "addr \<Rightarrow> dbev \<Rightarrow> dbev option" where
  "db_event_disable es st = do {
     s \<leftarrow> subs st es;
     let r = precord (paddr s);
     Some (if enabled s
           then setSub es (s\<lparr>enabled := False\<rparr>)
             (st\<lparr>recs := (recs st)(r := (recs st r)\<lparr>mlis := remove1 es (mlis (recs st r))\<rparr>)\<rparr>)
           else st) }"

text \<open>Take the entry at \<open>index\<close> out of the ring, leaving the placeholder.\<close>

definition event_remove :: "nat \<Rightarrow> nat \<Rightarrow> slot \<Rightarrow> dbev \<Rightarrow> dbev option" where
  "event_remove i index placeHolder st = do {
     q \<leftarrow> queAt i st;
     pEvent \<leftarrow> slotAt q index;
     case pEvent of
       QEvent e \<Rightarrow> do {
         s \<leftarrow> subs st e;
         let q1 = q\<lparr>evque := (evque q)[index := placeHolder]\<rparr>;
         if npend s = 1
         then Some (setSub e (s\<lparr>pLastLog := None, npend := 0\<rparr>) (setQue i q1 st))
         else if npend s > 1 \<and> nDuplicates q \<ge> 1
         then Some (setSub e (s\<lparr>npend := npend s - 1\<rparr>) (setQue i (q1\<lparr>nDuplicates := nDuplicates q - 1\<rparr>) st))
         else None }
     | _ \<Rightarrow> None }"

section \<open>Cancelling\<close>

text \<open>The loop that takes the entries of the event out of the ring.\<close>

partial_function (option) purgeLoop :: "addr \<Rightarrow> nat \<Rightarrow> nat \<Rightarrow> dbev \<Rightarrow> dbev option" where
  "purgeLoop pevent i ix st = do {
     q \<leftarrow> queAt i st;
     s \<leftarrow> slotAt q ix;
     if s = QEmpty then Some st
     else do {
       st1 \<leftarrow> (if s = QEvent pevent
              then if word_of_nat (nCanceled q) < (65535 :: 16 word)
                   then event_remove i ix QCanceled (setQue i (q\<lparr>nCanceled := nCanceled q + 1\<rparr>) st)
                   else None
              else Some st);
       if RNGINC ix = getix q then Some st1 else purgeLoop pevent i (RNGINC ix) st1 } }"

declare purgeLoop.simps [code]

text \<open>
  \<open>db_cancel_event\<close> up to the wait, with the queue locked: the callback is cleared and the ring purged.
  \<open>self\<close> tells whether the caller is the event task.
\<close>

definition cancelPurge :: "bool \<Rightarrow> addr \<Rightarrow> dbev \<Rightarrow> dbev option" where
  "cancelPurge self es st = do {
     s \<leftarrow> subs st es;
     q \<leftarrow> queAt (ev_que s) st;
     st1 \<leftarrow> purgeLoop es (ev_que s) (getix q) (setSub es (s\<lparr>user_sub := None\<rparr>) st);
     s1 \<leftarrow> subs st1 es;
     if npend s1 = 0 then Some (if self then st1\<lparr>pSuicideEvent := Some es\<rparr> else st1) else None }"

text \<open>The end of \<open>db_cancel_event\<close>: the quota is given back and the block freed.\<close>

definition cancelEnd :: "addr \<Rightarrow> dbev \<Rightarrow> dbev option" where
  "cancelEnd es st = do {
     s \<leftarrow> subs st es;
     q \<leftarrow> queAt (ev_que s) st;
     Some ((setQue (ev_que s) (q\<lparr>quota := ushortMinus (quota q) EVENTENTRIES\<rparr>) st)\<lparr>subs := (subs st)(es := None)\<rparr>) }"

text \<open>One look at \<open>callBackInProgress\<close> by a thread in \<open>db_cancel_event\<close>: it ends the call, or waits.\<close>

definition cancelTry :: "addr \<Rightarrow> dbev \<Rightarrow> dbev option" where
  "cancelTry es st = do {
     s \<leftarrow> subs st es;
     if callBackInProgress s then Some (st\<lparr>closing := closing st @ [es]\<rparr>) else cancelEnd es st }"

definition db_cancel_event :: "bool \<Rightarrow> addr \<Rightarrow> dbev \<Rightarrow> dbev option" where
  "db_cancel_event self es st = do {
     st1 \<leftarrow> db_event_disable es st;
     st2 \<leftarrow> cancelPurge self es st1;
     if self then cancelEnd es st2 else cancelTry es st2 }"

text \<open>A waiting thread gets the semaphore and looks again.\<close>

definition cancelWake :: "addr \<Rightarrow> dbev \<Rightarrow> dbev option" where
  "cancelWake es st = cancelTry es (st\<lparr>pflush_sem := False, closing := remove1 es (closing st)\<rparr>)"

section \<open>Posting\<close>

text \<open>The alarm state, the time stamp and the first bytes of the field are copied into the log.\<close>

definition fillLog :: "dbaddr \<Rightarrow> dbev \<Rightarrow> db_field_log \<Rightarrow> db_field_log" where
  "fillLog pa st l =
     (let r = recs st (precord pa) in
      l\<lparr>l_stat := r_stat r, l_sevr := r_sevr r, l_time := r_time r,
        l_field := map (bytesAt st) [pfield pa..<pfield pa + field_size pa] @ drop (field_size pa) (l_field l)\<rparr>)"

definition storeLog :: "addr \<Rightarrow> nat \<Rightarrow> dbev \<Rightarrow> dbev option" where
  "storeLog event ix st = do {
     s \<leftarrow> subs st event;
     if valque s
     then do {
       q \<leftarrow> queAt (ev_que s) st;
       l \<leftarrow> logAt q ix;
       Some (setSub event (s\<lparr>pLastLog := Some ix\<rparr>)
         (setQue (ev_que s) (q\<lparr>q_valque := (q_valque q)[ix := fillLog (paddr s) st l]\<rparr>) st)) }
     else Some st }"

definition db_post_single_event_private :: "addr \<Rightarrow> dbev \<Rightarrow> dbev option" where
  "db_post_single_event_private event st = do {
     s \<leftarrow> subs st event;
     q \<leftarrow> queAt (ev_que s) st;
     if \<not> valque s \<and> npend s > 0 then Some st
     else do {
       rngSpace \<leftarrow> ringSpace q;
       if npend s > 0 \<and> (flowCtrlMode st \<or> rngSpace \<le> EVENTSPERQUE)
       then (let st1 = setSub event (s\<lparr>nreplace := ulong (nreplace s + 1)\<rparr>) st in
             case pLastLog s of None \<Rightarrow> Some st1 | Some ix \<Rightarrow> storeLog event ix st1)
       else do {
         sl \<leftarrow> slotAt q (putix q);
         if sl = QEmpty
         then do {
           let q1 = q\<lparr>evque := (evque q)[putix q := QEvent event],
                      nDuplicates := (if npend s > 0 then ushort (nDuplicates q + 1) else nDuplicates q),
                      putix := RNGINC (putix q)\<rparr>;
           st1 \<leftarrow> storeLog event (putix q) (setSub event (s\<lparr>npend := ulong (npend s + 1)\<rparr>) (setQue (ev_que s) q1 st));
           Some (if rngSpace = EVENTQUESIZE then st1\<lparr>signals := signals st1 + 1\<rparr> else st1) }
         else Some (st\<lparr>queovr := ulong (queovr st + 1)\<rparr>) } } }"

text \<open>
  The last step of posting, of closing, of the changes of flow control and of posting extra labor: the
  call of \<open>epicsEventSignal\<close>, which the code makes after it has released the lock. Any step of another
  thread or of the task can come before it.
\<close>

definition signalTask :: "dbev \<Rightarrow> dbev" where
  "signalTask st = st\<lparr>ppendsem := True, signals := signals st - 1\<rparr>"

definition postAndSignal :: "addr \<Rightarrow> dbev \<Rightarrow> dbev option" where
  "postAndSignal event st = do {
     st1 \<leftarrow> db_post_single_event_private event st;
     Some (if signals st < signals st1 then signalTask st1 else st1) }"

text \<open>Post to the monitors of a record on the given field (all of them for \<open>NULL\<close>) that selected the mask.\<close>

fun postLoop :: "ptr \<Rightarrow> int \<Rightarrow> addr list \<Rightarrow> dbev \<Rightarrow> dbev option" where
  "postLoop pField caEventMask [] st = Some st"
| "postLoop pField caEventMask (event # es) st = do {
     s \<leftarrow> subs st event;
     st1 \<leftarrow> (if (pField = None \<or> pField = Some (pfield (paddr s))) \<and> and caEventMask (select s) \<noteq> 0
            then postAndSignal event st else Some st);
     postLoop pField caEventMask es st1 }"

definition db_post_events :: "addr \<Rightarrow> ptr \<Rightarrow> int \<Rightarrow> dbev \<Rightarrow> dbev option" where
  "db_post_events pRecord pField caEventMask st =
     (if mlis (recs st pRecord) = [] then Some st else postLoop pField caEventMask (mlis (recs st pRecord)) st)"

section \<open>Reading\<close>

text \<open>
  The loop of \<open>event_read\<close> with the queue locked, up to the next callback (the subscription called) or to
  the end of the ring (\<open>None\<close> inside).
\<close>

partial_function (option) readLoop :: "nat \<Rightarrow> dbev \<Rightarrow> (ptr \<times> dbev) option" where
  "readLoop i st = do {
     q \<leftarrow> queAt i st;
     sl \<leftarrow> slotAt q (getix q);
     fl \<leftarrow> logAt q (getix q);
     case sl of
       QEmpty \<Rightarrow> Some (None, st)
     | QCanceled \<Rightarrow>
         if nCanceled q > 0
         then readLoop i (setQue i (q\<lparr>evque := (evque q)[getix q := QEmpty], getix := RNGINC (getix q),
                                      nCanceled := nCanceled q - 1\<rparr>) st)
         else None
     | QEvent event \<Rightarrow> do {
         s \<leftarrow> subs st event;
         st1 \<leftarrow> event_remove i (getix q) QEmpty st;
         q1 \<leftarrow> queAt i st1;
         let st2 = setQue i (q1\<lparr>getix := RNGINC (getix q1)\<rparr>) st1;
         case user_sub s of
           None \<Rightarrow> readLoop i st2
         | Some f \<Rightarrow> do {
             s1 \<leftarrow> subs st2 event;
             q2 \<leftarrow> queAt i st2;
             sl2 \<leftarrow> slotAt q2 (getix q2);
             Some (Some event, (setSub event (s1\<lparr>callBackInProgress := True\<rparr>) st2)
               \<lparr>calls := calls st2 @ [Deliver event f (user_arg s1) (paddr s1) (sl2 \<noteq> QEmpty)
                                       (if valque s then Some fl else None)]\<rparr>) } } }"

declare readLoop.simps [code]

text \<open>After the callback: a suicide is acknowledged, a waiting canceller is signalled.\<close>

definition callbackDone :: "addr \<Rightarrow> dbev \<Rightarrow> dbev option" where
  "callbackDone event st =
     (if pSuicideEvent st = Some event then Some (st\<lparr>pSuicideEvent := None\<rparr>)
      else do {
        s \<leftarrow> subs st event;
        let st1 = setSub event (s\<lparr>callBackInProgress := False\<rparr>) st;
        Some (if user_sub s = None \<and> npend s = 0 then st1\<lparr>pflush_sem := True\<rparr> else st1) })"

text \<open>The part of \<open>event_read\<close> before its loop: in flow control mode only duplicates are drained.\<close>

definition event_read :: "nat \<Rightarrow> dbev \<Rightarrow> (ptr \<times> dbev) option" where
  "event_read i st = do {
     q \<leftarrow> queAt i st;
     if flowCtrlMode st \<and> nDuplicates q = 0 then Some (None, st) else readLoop i st }"

section \<open>The event task\<close>

text \<open>Where the task goes on after reading at position \<open>i\<close>.\<close>

definition afterRead :: "nat \<Rightarrow> ptr \<times> dbev \<Rightarrow> dbev" where
  "afterRead i r = (case r of (None, st) \<Rightarrow> st\<lparr>task := TRead (i + 1)\<rparr> | (Some e, st) \<Rightarrow> st\<lparr>task := TCall i e\<rparr>)"

definition doLabor :: "dbev \<Rightarrow> dbev" where
  "doLabor st =
     (case extralabor_sub st of
        None \<Rightarrow> st
      | Some f \<Rightarrow> if extra_labor st
                  then st\<lparr>extra_labor := False, calls := calls st @ [Labor f (extralabor_arg st)]\<rparr>
                  else st)"

definition reportOverflow :: "dbev \<Rightarrow> dbev" where
  "reportOverflow st =
     (if queovr st \<noteq> 0
      then st\<lparr>calls := calls st @ [Overflow (overflow_sub st) (overflow_arg st) (queovr st)], queovr := 0\<rparr>
      else st)"

text \<open>One step of \<open>event_task\<close>; \<open>None\<close> also when it cannot run.\<close>

definition event_task :: "dbev \<Rightarrow> dbev option" where
  "event_task st =
     (case task st of
        TWait \<Rightarrow> if ppendsem st
                 then Some ((doLabor (st\<lparr>ppendsem := False, extraLaborBusy := True\<rparr>))\<lparr>task := TLabor\<rparr>)
                 else None
      | TLabor \<Rightarrow> Some ((doLabor (st\<lparr>extraLaborBusy := False\<rparr>))\<lparr>task := TRead 0\<rparr>)
      | TRead i \<Rightarrow>
          if i < length (queues st) then map_option (afterRead i) (event_read i st)
          else Some ((reportOverflow st)\<lparr>task := (if pendexit st then TExit else TWait)\<rparr>)
      | TCall i e \<Rightarrow> do { st1 \<leftarrow> callbackDone e st; map_option (afterRead i) (readLoop i st1) }
      | _ \<Rightarrow> None)"

section \<open>The other operations\<close>

definition db_start_events :: "bool \<Rightarrow> dbev \<Rightarrow> dbev" where
  "db_start_events created st =
     (if task st \<noteq> TOff then st else st\<lparr>pendexit := False, task := (if created then TWait else TOff)\<rparr>)"

definition db_close_events :: "dbev \<Rightarrow> dbev" where
  "db_close_events st = st\<lparr>pendexit := True, signals := signals st + 1\<rparr>"

definition db_event_flow_ctrl_mode_on :: "dbev \<Rightarrow> dbev" where
  "db_event_flow_ctrl_mode_on st = st\<lparr>flowCtrlMode := True, signals := signals st + 1\<rparr>"

definition db_event_flow_ctrl_mode_off :: "dbev \<Rightarrow> dbev" where
  "db_event_flow_ctrl_mode_off st = st\<lparr>flowCtrlMode := False, signals := signals st + 1\<rparr>"

definition db_add_overflow_event :: "ptr \<Rightarrow> addr \<Rightarrow> dbev \<Rightarrow> dbev" where
  "db_add_overflow_event f arg st = st\<lparr>overflow_sub := f, overflow_arg := arg\<rparr>"

definition db_add_extra_labor_event :: "ptr \<Rightarrow> addr \<Rightarrow> dbev \<Rightarrow> dbev" where
  "db_add_extra_labor_event f arg st = st\<lparr>extralabor_sub := f, extralabor_arg := arg\<rparr>"

definition db_post_extra_labor :: "dbev \<Rightarrow> dbev" where
  "db_post_extra_labor st = (if extra_labor st then st else st\<lparr>extra_labor := True, signals := signals st + 1\<rparr>)"

text \<open>Whether \<open>db_flush_extra_labor_event\<close> has to sleep on.\<close>

definition db_flush_extra_labor_event :: "dbev \<Rightarrow> bool" where
  "db_flush_extra_labor_event st \<longleftrightarrow> extraLaborBusy st"

section \<open>The system\<close>

text \<open>
  The operations of the threads around the event task, one step of the task, and the writes of record
  processing. \<open>OCancel\<close> is \<open>db_cancel_event\<close> from another thread (its two critical sections are
  \<open>ODisable\<close> and \<open>OCancel\<close> when others come between them), \<open>OCancelSelf\<close> from a callback, \<open>OWake\<close> the
  end of a wait. \<open>db_post_single_event\<close> and each turn of the loop of \<open>db_post_events\<close> is an \<open>OPost\<close>, followed
  by an \<open>OSignal\<close> when the ring was empty; so are \<open>OClose\<close>, \<open>OFlowOn\<close>, \<open>OFlowOff\<close> and \<open>OPostLabor\<close>.
\<close>

datatype evop = OAdd ptr bool dbaddr ptr addr int | OEnable addr | ODisable addr | OPost addr
  | OSignal | OCancel addr | OCancelSelf addr | OWake addr | OTask | OStart bool | OClose | OFlowOn | OFlowOff
  | OAddLabor ptr addr | OPostLabor | OAddOverflow ptr addr
  | OWriteField addr "8 word" | OWriteRecord addr "16 word" "16 word" "32 word \<times> 32 word"

fun evStep :: "evop \<Rightarrow> dbev \<Rightarrow> dbev option" where
  "evStep (OAdd new m pa f arg sel) st = map_option snd (db_add_event new m pa f arg sel st)"
| "evStep (OEnable e) st = db_event_enable e st"
| "evStep (ODisable e) st = db_event_disable e st"
| "evStep (OPost e) st = db_post_single_event_private e st"
| "evStep OSignal st = Some (signalTask st)"
| "evStep (OCancel e) st = db_cancel_event False e st"
| "evStep (OCancelSelf e) st = db_cancel_event True e st"
| "evStep (OWake e) st = cancelWake e st"
| "evStep OTask st = event_task st"
| "evStep (OStart created) st = Some (db_start_events created st)"
| "evStep OClose st = Some (db_close_events st)"
| "evStep OFlowOn st = Some (db_event_flow_ctrl_mode_on st)"
| "evStep OFlowOff st = Some (db_event_flow_ctrl_mode_off st)"
| "evStep (OAddLabor f arg) st = Some (db_add_extra_labor_event f arg st)"
| "evStep OPostLabor st = Some (db_post_extra_labor st)"
| "evStep (OAddOverflow f arg) st = Some (db_add_overflow_event f arg st)"
| "evStep (OWriteField p b) st = Some (st\<lparr>bytesAt := (bytesAt st)(p := b)\<rparr>)"
| "evStep (OWriteRecord r sta sev tm) st =
     Some (st\<lparr>recs := (recs st)(r := (recs st r)\<lparr>r_stat := sta, r_sevr := sev, r_time := tm\<rparr>)\<rparr>)"

text \<open>
  What the callers must respect: memory handed out is not in use, a subscription is used while it is
  allocated and not after its cancellation has begun, a callback that cancels cancels its own
  subscription, and the task runs when it can. Nothing is used after the task has freed it all.
\<close>

definition live :: "addr \<Rightarrow> dbev \<Rightarrow> bool" where
  "live e st \<longleftrightarrow> subs st e \<noteq> None \<and> e \<notin> set (closing st)"

definition canRun :: "dbev \<Rightarrow> bool" where
  "canRun st \<longleftrightarrow> task st \<noteq> TOff \<and> task st \<noteq> TExit \<and> (task st = TWait \<longrightarrow> ppendsem st)"

fun evFits :: "evop \<Rightarrow> dbev \<Rightarrow> bool" where
  "evFits (OAdd new m pa f arg sel) st \<longleftrightarrow> (case new of None \<Rightarrow> True | Some e \<Rightarrow> subs st e = None)"
| "evFits (OEnable e) st \<longleftrightarrow> live e st"
| "evFits (ODisable e) st \<longleftrightarrow> live e st"
| "evFits (OPost e) st \<longleftrightarrow> live e st"
| "evFits OSignal st \<longleftrightarrow> 0 < signals st"
| "evFits (OCancel e) st \<longleftrightarrow> live e st"
| "evFits (OCancelSelf e) st \<longleftrightarrow> live e st \<and> pSuicideEvent st = None \<and> (case task st of TCall i x \<Rightarrow> x = e | _ \<Rightarrow> False)"
| "evFits (OWake e) st \<longleftrightarrow> pflush_sem st \<and> e \<in> set (closing st)"
| "evFits OTask st \<longleftrightarrow> canRun st"
| "evFits _ st \<longleftrightarrow> True"

text \<open>
  The reachable states. With \<open>one\<close> a thread begins to cancel only when no other one waits.
\<close>

inductive ev_reach :: "bool \<Rightarrow> dbev \<Rightarrow> bool" for one where
  init: "(\<And>r. mlis (rs r) = []) \<Longrightarrow> ev_reach one (db_init_events rs bs)"
| step: "ev_reach one st \<Longrightarrow> task st \<noteq> TExit \<Longrightarrow> evFits op st \<Longrightarrow> (one \<longrightarrow> (\<forall>e. op = OCancel e \<longrightarrow> closing st = [])) \<Longrightarrow>
     evStep op st = Some st' \<Longrightarrow> ev_reach one st'"

text \<open>A run of operations.\<close>

fun evRun :: "evop list \<Rightarrow> dbev \<Rightarrow> dbev option" where
  "evRun [] st = Some st"
| "evRun (op # ops) st = do { st' \<leftarrow> evStep op st; evRun ops st' }"

end
