(* ===== verification/DbEventRing.thy ===== *)
theory DbEventRing
  imports DbEvent
begin

text \<open>
  The ring of an event queue as a list of entries, oldest first: what each access to \<open>evque\<close>, \<open>valque\<close>,
  \<open>putix\<close> and \<open>getix\<close> is on that list.
\<close>

section \<open>Positions\<close>

lemma RNGINC_mod: "ix < 128 \<Longrightarrow> RNGINC ix = (ix + 1) mod 128"
  by (cases "ix = 127") (simp_all add: RNGINC_def)

lemma RNGINC_less [simp]: "RNGINC ix < 128"
  by (simp add: RNGINC_def)

lemma RNGINC_pos: "RNGINC ((g + k) mod 128) = (g + Suc k) mod 128"
  using RNGINC_mod[of "(g + k) mod 128"] by (simp add: mod_Suc_eq)

lemma pos_inj: "j < 128 \<Longrightarrow> k < 128 \<Longrightarrow> (g + j) mod 128 = (g + k) mod 128 \<longleftrightarrow> j = (k::nat)"
proof
  assume jk: "j < 128" "k < 128" and eq: "(g + j) mod 128 = (g + k) mod 128"
  have "int j mod 128 = int k mod 128"
  proof -
    have "(int g + int j) mod 128 = (int g + int k) mod 128" using eq
      by (metis of_nat_add of_nat_mod of_nat_numeral)
    then show ?thesis by (metis add_diff_cancel_left' mod_diff_left_eq)
  qed
  then show "j = k" using jk by simp
qed simp

section \<open>The entries\<close>

type_synonym entry = "slot \<times> db_field_log"

definition ring_rep :: "db_field_log list \<Rightarrow> slot list \<Rightarrow> nat \<Rightarrow> nat \<Rightarrow> entry list \<Rightarrow> bool" where
  "ring_rep v e p g xs \<longleftrightarrow> length v = 128 \<and> length e = 128 \<and> g < 128 \<and> length xs \<le> 128 \<and> p = (g + length xs) mod 128
     \<and> (\<forall>k < 128. e ! ((g + k) mod 128) = (if k < length xs then fst (xs ! k) else QEmpty))
     \<and> (\<forall>k < length xs. v ! ((g + k) mod 128) = snd (xs ! k))
     \<and> (\<forall>k < length xs. fst (xs ! k) \<noteq> QEmpty)"

abbreviation rep :: "event_que \<Rightarrow> entry list \<Rightarrow> bool" where
  "rep q xs \<equiv> ring_rep (q_valque q) (evque q) (putix q) (getix q) xs"

text \<open>The entries of a queue, read off the ring.\<close>

definition view :: "event_que \<Rightarrow> entry list" where
  "view q = takeWhile (\<lambda>x. fst x \<noteq> QEmpty)
     (map (\<lambda>k. (evque q ! ((getix q + k) mod 128), q_valque q ! ((getix q + k) mod 128))) [0..<128])"

lemma takeWhile_split: "\<forall>x \<in> set xs. P x \<Longrightarrow> takeWhile P ys = [] \<Longrightarrow> takeWhile P (xs @ ys) = xs"
  by (simp add: takeWhile_append2)

lemma rep_view: "rep q xs \<Longrightarrow> view q = xs"
proof -
  assume r: "rep q xs"
  let ?f = "\<lambda>k. (evque q ! ((getix q + k) mod 128), q_valque q ! ((getix q + k) mod 128))"
  have 1: "map ?f [0..<length xs] = xs" using r
    by (intro nth_equalityI) (auto simp: ring_rep_def prod_eq_iff)
  have "map ?f [0..<128] = xs @ map ?f [length xs..<128]"
  proof -
    have "length xs \<le> 128" using r by (simp add: ring_rep_def)
    then have "[0..<128] = [0..<length xs] @ [length xs..<128]" using upt_add_eq_append[of 0 "length xs" "128 - length xs"]
      by (simp only: add_0 le_add_diff_inverse le0 simp_thms)
    then have "map ?f [0..<128] = map ?f [0..<length xs] @ map ?f [length xs..<128]" by (simp only: map_append)
    then show ?thesis by (simp only: 1)
  qed
  moreover have "\<forall>x \<in> set xs. fst x \<noteq> QEmpty" using r by (force simp: ring_rep_def in_set_conv_nth)
  moreover have "takeWhile (\<lambda>x. fst x \<noteq> QEmpty) (map ?f [length xs..<128]) = []"
  proof (cases "length xs < 128")
    case True
    then have "[length xs..<128] = length xs # [Suc (length xs)..<128]" by (simp only: upt_conv_Cons)
    moreover have "evque q ! ((getix q + length xs) mod 128) = QEmpty" using True r unfolding ring_rep_def by auto
    ultimately show ?thesis by (simp only: list.map takeWhile.simps fst_conv) simp
  qed simp
  ultimately show ?thesis unfolding view_def by (simp only: takeWhile_split)
qed

lemma rep_lens: "rep q xs \<Longrightarrow> length (evque q) = 128 \<and> length (q_valque q) = 128 \<and> getix q < 128 \<and> putix q < 128 \<and> length xs \<le> 128"
  by (auto simp: ring_rep_def)

lemma rep_slot: "rep q xs \<Longrightarrow> k < 128 \<Longrightarrow>
    slotAt q ((getix q + k) mod 128) = Some (if k < length xs then fst (xs ! k) else QEmpty)"
  by (simp add: ring_rep_def slotAt_def)

lemma rep_log: "rep q xs \<Longrightarrow> k < length xs \<Longrightarrow> logAt q ((getix q + k) mod 128) = Some (snd (xs ! k))"
  by (simp add: ring_rep_def logAt_def)

lemma rep_front: "rep q xs \<Longrightarrow> slotAt q (getix q) = Some (case xs of [] \<Rightarrow> QEmpty | x # _ \<Rightarrow> fst x)"
  using rep_slot[of q xs 0] by (auto simp: ring_rep_def split: list.splits)

lemma rep_front_log: "rep q xs \<Longrightarrow> \<exists>l. logAt q (getix q) = Some l \<and> (\<forall>x ys. xs = x # ys \<longrightarrow> l = snd x)"
  using rep_log[of q xs 0] by (cases xs) (auto simp: ring_rep_def logAt_def)

lemma rep_back: "rep q xs \<Longrightarrow> slotAt q (putix q) = Some (if length xs = 128 then fst (hd xs) else QEmpty)"
proof -
  assume r: "rep q xs"
  show ?thesis
  proof (cases "length xs = 128")
    case True
    then have "putix q = getix q" using r by (simp add: ring_rep_def)
    then show ?thesis using rep_front[OF r] True by (cases xs) auto
  next
    case False
    then have "length xs < 128" "putix q = (getix q + length xs) mod 128" using r by (auto simp: ring_rep_def)
    then show ?thesis using rep_slot[OF r, of "length xs"] False by simp
  qed
qed

lemma rep_nonempty: "rep q xs \<Longrightarrow> x \<in> set xs \<Longrightarrow> fst x \<noteq> QEmpty"
  by (force simp: ring_rep_def in_set_conv_nth)

text \<open>The space is what the list leaves of the 128 places.\<close>

lemma rep_space: "rep q xs \<Longrightarrow> ringSpace q = Some (128 - length xs)"
proof -
  assume r: "rep q xs"
  have b: "slotAt q (putix q) = Some (if length xs = 128 then fst (hd xs) else QEmpty)" by (rule rep_back[OF r])
  have p: "putix q = (getix q + length xs) mod 128" "getix q < 128" "length xs \<le> 128" using r by (auto simp: ring_rep_def)
  show ?thesis
  proof (cases "length xs = 128")
    case True
    then have "fst (hd xs) \<noteq> QEmpty" using rep_nonempty[OF r, of "hd xs"] by (cases xs) auto
    then show ?thesis using True by (simp add: ringSpace_def b)
  next
    case False
    have "putix q = (if getix q + length xs < 128 then getix q + length xs else getix q + length xs - 128)"
      using p by (simp add: mod_if)
    moreover have "ringSpace q = Some (if getix q > putix q then getix q - putix q else 128 + getix q - putix q)"
      using False by (simp add: ringSpace_def b)
    ultimately show ?thesis using False p by (simp split: if_splits)
  qed
qed

section \<open>Changing the ring\<close>

lemma rep_push:
  assumes "rep q xs" "length xs < 128" "s \<noteq> QEmpty"
  shows "ring_rep (q_valque q) ((evque q)[putix q := s]) (RNGINC (putix q)) (getix q) (xs @ [(s, q_valque q ! putix q)])"
proof -
  have p: "putix q = (getix q + length xs) mod 128" "getix q < 128" "length (evque q) = 128" using assms by (auto simp: ring_rep_def)
  have e: "(evque q)[putix q := s] ! ((getix q + k) mod 128) = (if k = length xs then s else evque q ! ((getix q + k) mod 128))"
    if "k < 128" for k using that assms(2) p by (simp add: nth_list_update pos_inj)
  have r: "RNGINC (putix q) = (getix q + Suc (length xs)) mod 128" unfolding p(1) by (rule RNGINC_pos)
  have al: "evque q ! ((getix q + k) mod 128) = (if k < length xs then fst (xs ! k) else QEmpty)" if "k < 128" for k
    using assms(1) that unfolding ring_rep_def by blast
  have vl: "q_valque q ! ((getix q + k) mod 128) = snd (xs ! k) \<and> fst (xs ! k) \<noteq> QEmpty" if "k < length xs" for k
    using assms(1) that unfolding ring_rep_def by blast
  have x: "(xs @ [y]) ! k = (if k < length xs then xs ! k else y)" if "k < Suc (length xs)" for k y
    using that by (auto simp: nth_append less_Suc_eq)
  have "length (q_valque q) = 128" using assms(1) by (simp add: ring_rep_def)
  then show ?thesis unfolding ring_rep_def using assms(2,3) p r
    by (intro conjI allI impI) (auto simp: e[unfolded p(1)] al vl x less_Suc_eq)
qed

lemma rep_store:
  assumes "rep q xs" "k < length xs"
  shows "ring_rep ((q_valque q)[(getix q + k) mod 128 := l]) (evque q) (putix q) (getix q) (xs[k := (fst (xs ! k), l)])"
proof -
  have e: "(q_valque q)[(getix q + k) mod 128 := l] ! ((getix q + j) mod 128) =
      (if j = k then l else q_valque q ! ((getix q + j) mod 128))" if "j < length xs" for j
    using that assms by (simp add: ring_rep_def nth_list_update pos_inj)
  have x: "xs[k := y] ! j = (if j = k then y else xs ! j)" for j y using assms by (simp add: nth_list_update)
  show ?thesis using assms unfolding ring_rep_def
    by (intro conjI allI impI) (auto simp: e x)
qed

lemma rep_mark:
  assumes "rep q xs" "k < length xs" "s \<noteq> QEmpty"
  shows "ring_rep (q_valque q) ((evque q)[(getix q + k) mod 128 := s]) (putix q) (getix q) (xs[k := (s, snd (xs ! k))])"
proof -
  have e: "(evque q)[(getix q + k) mod 128 := s] ! ((getix q + j) mod 128) =
      (if j = k then s else evque q ! ((getix q + j) mod 128))" if "j < 128" for j
    using that assms by (simp add: ring_rep_def nth_list_update pos_inj)
  have x: "xs[k := y] ! j = (if j = k then y else xs ! j)" for j y using assms by (simp add: nth_list_update)
  show ?thesis using assms unfolding ring_rep_def
    by (intro conjI allI impI) (auto simp: e x)
qed

lemma rep_pop:
  assumes "rep q (x # xs)"
  shows "ring_rep (q_valque q) ((evque q)[getix q := QEmpty]) (putix q) (RNGINC (getix q)) xs"
proof -
  have g: "getix q < 128" "length (evque q) = 128" "Suc (length xs) \<le> 128" using assms by (auto simp: ring_rep_def)
  have r: "RNGINC (getix q) = (getix q + 1) mod 128" using g RNGINC_mod by simp
  have s: "(RNGINC (getix q) + k) mod 128 = (getix q + Suc k) mod 128" for k
    unfolding r by (metis add.assoc mod_add_left_eq plus_1_eq_Suc)
  have e: "(evque q)[getix q := QEmpty] ! ((getix q + Suc k) mod 128) =
      (if k < length xs then fst (xs ! k) else QEmpty)" if k: "k < 128" for k
  proof (cases "k = 127")
    case True
    then have "(getix q + Suc k) mod 128 = getix q" using g by simp
    then show ?thesis using True g by simp
  next
    case False
    then have "(getix q + Suc k) mod 128 \<noteq> getix q" using k g pos_inj[of "Suc k" 0 "getix q"] by simp
    moreover have al: "\<forall>k < 128. evque q ! ((getix q + k) mod 128) = (if k < length (x # xs) then fst ((x # xs) ! k) else QEmpty)"
      using assms unfolding ring_rep_def by blast
    have "evque q ! ((getix q + Suc k) mod 128) = (if k < length xs then fst (xs ! k) else QEmpty)"
      using al[rule_format, of "Suc k"] k False by simp
    ultimately show ?thesis by simp
  qed
  have vl: "q_valque q ! ((getix q + Suc k) mod 128) = snd (xs ! k) \<and> fst (xs ! k) \<noteq> QEmpty" if "k < length xs" for k
  proof -
    have "\<forall>k < length (x # xs). q_valque q ! ((getix q + k) mod 128) = snd ((x # xs) ! k) \<and> fst ((x # xs) ! k) \<noteq> QEmpty"
      using assms unfolding ring_rep_def by blast
    from this[rule_format, of "Suc k"] show ?thesis using that by simp
  qed
  have "putix q = (getix q + Suc (length xs)) mod 128" "length (q_valque q) = 128" using assms by (simp_all add: ring_rep_def)
  then show ?thesis unfolding ring_rep_def s using g e vl by simp
qed

lemma rep_new: "rep newQue []"
  by (simp add: ring_rep_def newQue_def)

section \<open>Events among the entries\<close>

text \<open>The subscriptions of the entries, and the places of cancelled ones.\<close>

definition evl :: "entry list \<Rightarrow> addr list" where
  "evl xs = concat (map (\<lambda>(s, l). case s of QEvent e \<Rightarrow> [e] | _ \<Rightarrow> []) xs)"

definition cancels :: "entry list \<Rightarrow> nat" where
  "cancels xs = length (filter (\<lambda>x. fst x = QCanceled) xs)"

lemma evl_simps [simp]:
  "evl [] = []" "evl (x # xs) = (case fst x of QEvent e \<Rightarrow> e # evl xs | _ \<Rightarrow> evl xs)" "evl (xs @ ys) = evl xs @ evl ys"
  by (auto simp: evl_def split: prod.splits slot.splits)

lemma cancels_simps [simp]:
  "cancels [] = 0" "cancels (x # xs) = (if fst x = QCanceled then 1 else 0) + cancels xs" "cancels (xs @ ys) = cancels xs + cancels ys"
  by (auto simp: cancels_def)

lemma entries_split: "(\<And>x. x \<in> set xs \<Longrightarrow> fst x \<noteq> QEmpty) \<Longrightarrow> length xs = length (evl xs) + cancels xs"
  by (induction xs) (auto split: slot.splits)

lemma evl_update: "k < length xs \<Longrightarrow> fst (xs ! k) = s \<Longrightarrow> evl (xs[k := (s, l)]) = evl xs"
proof (induction xs arbitrary: k)
  case (Cons x xs)
  then show ?case by (cases k) (auto split: slot.splits)
qed simp

lemma cancels_update: "k < length xs \<Longrightarrow> fst (xs ! k) = s \<Longrightarrow> cancels (xs[k := (s, l)]) = cancels xs"
proof (induction xs arbitrary: k)
  case (Cons x xs)
  then show ?case by (cases k) auto
qed simp

lemma evl_at: "e \<in> set (evl xs) \<longleftrightarrow> (\<exists>k < length xs. fst (xs ! k) = QEvent e)"
proof (induction xs)
  case (Cons x xs)
  then show ?case by (cases "fst x") (auto simp: less_Suc_eq_0_disj)
qed simp

text \<open>Cancelling marks the entries of the subscription.\<close>

definition mark :: "addr \<Rightarrow> entry list \<Rightarrow> entry list" where
  "mark e xs = map (\<lambda>(s, l). (if s = QEvent e then QCanceled else s, l)) xs"

lemma mark_simps [simp]:
  "mark e [] = []" "mark e (x # xs) = (if fst x = QEvent e then (QCanceled, snd x) else x) # mark e xs"
  "length (mark e xs) = length xs"
  by (auto simp: mark_def split: prod.splits)

lemma evl_mark: "evl (mark e xs) = filter (\<lambda>x. x \<noteq> e) (evl xs)"
  by (induction xs) (auto split: slot.splits)

lemma cancels_mark: "cancels (mark e xs) = cancels xs + count_list (evl xs) e"
  by (induction xs) (auto split: slot.splits)

lemma mark_nth: "k < length xs \<Longrightarrow> e' \<noteq> e \<Longrightarrow> fst (mark e xs ! k) = QEvent e' \<longleftrightarrow> fst (xs ! k) = QEvent e'"
  by (auto simp: mark_def split: prod.splits)

text \<open>The last entry of a subscription.\<close>

definition lastAt :: "addr \<Rightarrow> entry list \<Rightarrow> nat \<Rightarrow> bool" where
  "lastAt e xs k \<longleftrightarrow> k < length xs \<and> fst (xs ! k) = QEvent e \<and> (\<forall>j < length xs. k < j \<longrightarrow> fst (xs ! j) \<noteq> QEvent e)"

lemma lastAt_push: "lastAt e xs k \<Longrightarrow> e' \<noteq> e \<Longrightarrow> lastAt e (xs @ [(QEvent e', l)]) k"
  by (auto simp: lastAt_def nth_append less_Suc_eq)

lemma lastAt_push_same: "lastAt e (xs @ [(QEvent e, l)]) (length xs)"
  by (auto simp: lastAt_def nth_append)

lemma lastAt_store: "lastAt e xs k \<Longrightarrow> j < length xs \<Longrightarrow> fst (xs ! j) = s \<Longrightarrow> lastAt e (xs[j := (s, l)]) k"
  by (auto simp: lastAt_def nth_list_update)

lemma lastAt_mark: "lastAt e' xs k \<Longrightarrow> e' \<noteq> e \<Longrightarrow> lastAt e' (mark e xs) k"
  by (auto simp: lastAt_def mark_nth)

lemma lastAt_Cons: "lastAt e (x # xs) k \<Longrightarrow> e \<in> set (evl xs) \<Longrightarrow> \<exists>j. k = Suc j \<and> lastAt e xs j"
proof -
  assume l: "lastAt e (x # xs) k" and e: "e \<in> set (evl xs)"
  then obtain j where j: "j < length xs" "fst (xs ! j) = QEvent e" by (auto simp: evl_at)
  then have "\<not> k < Suc j" using l by (force simp: lastAt_def)
  then obtain j' where "k = Suc j'" by (cases k) auto
  then show ?thesis using l by (force simp: lastAt_def)
qed

end
