(* ===== verification/DbEventInv.thy ===== *)
theory DbEventInv
  imports DbEventRing
begin

text \<open>
  The invariant between the rings and the subscriptions: the counters of a queue count what is in its
  ring, \<open>npend\<close> counts the entries of a subscription, \<open>pLastLog\<close> points to the last one, and the quota
  is four times the number of subscriptions. Every operation returns and keeps it.
\<close>

section \<open>The invariant\<close>

definition logOk :: "addr \<Rightarrow> evSubscrip \<Rightarrow> nat \<Rightarrow> entry list \<Rightarrow> bool" where
  "logOk e s g xs \<longleftrightarrow> npend s = count_list (evl xs) e \<and> (npend s = 0 \<longrightarrow> pLastLog s = None)
     \<and> (0 < npend s \<and> valque s \<longrightarrow> (\<exists>k. lastAt e xs k \<and> pLastLog s = Some ((g + k) mod 128)))"

definition members :: "(addr \<rightharpoonup> evSubscrip) \<Rightarrow> nat \<Rightarrow> addr set" where
  "members sb i = {e. \<exists>s. sb e = Some s \<and> ev_que s = i}"

definition countsOk :: "event_que \<Rightarrow> entry list \<Rightarrow> bool" where
  "countsOk q xs \<longleftrightarrow> nCanceled q = cancels xs \<and> nDuplicates q + card (set (evl xs)) = length (evl xs) \<and> nDuplicates q \<le> 95"

definition queOk :: "(addr \<rightharpoonup> evSubscrip) \<Rightarrow> nat \<Rightarrow> event_que \<Rightarrow> bool" where
  "queOk sb i q \<longleftrightarrow> rep q (view q) \<and> countsOk q (view q) \<and> set (evl (view q)) \<subseteq> members sb i
     \<and> quota q = 4 * card (members sb i) \<and> quota q \<le> 124"

definition rings_ok :: "event_que list \<Rightarrow> (addr \<rightharpoonup> evSubscrip) \<Rightarrow> bool" where
  "rings_ok qs sb \<longleftrightarrow> finite (dom sb) \<and> (\<forall>i < length qs. queOk sb i (qs ! i))
     \<and> (\<forall>e s. sb e = Some s \<longrightarrow> ev_que s < length qs \<and> logOk e s (getix (qs ! ev_que s)) (view (qs ! ev_que s)))"

lemma members_iff: "e \<in> members sb i \<longleftrightarrow> (\<exists>s. sb e = Some s \<and> ev_que s = i)"
  by (simp add: members_def)

lemma members_finite: "finite (dom sb) \<Longrightarrow> finite (members sb i)"
  by (rule finite_subset[of _ "dom sb"]) (auto simp: members_def)

lemma members_cong: "(\<And>e. map_option ev_que (sb' e) = map_option ev_que (sb e)) \<Longrightarrow> members sb' = members sb"
proof (rule ext, rule set_eqI)
  fix i e
  assume "\<And>e. map_option ev_que (sb' e) = map_option ev_que (sb e)"
  from this[of e] show "e \<in> members sb' i \<longleftrightarrow> e \<in> members sb i"
    by (cases "sb e"; cases "sb' e") (auto simp: members_iff)
qed

section \<open>Entries of one subscription\<close>

lemma evl_alt: "evl xs = concat (map (\<lambda>s. case s of QEvent e \<Rightarrow> [e] | _ \<Rightarrow> []) (map fst xs))"
  by (simp add: evl_def comp_def split_def)

lemma cancels_alt: "cancels xs = length (filter (\<lambda>s. s = QCanceled) (map fst xs))"
  by (simp add: cancels_def filter_map comp_def)

lemma evl_fst: "map fst xs = map fst ys \<Longrightarrow> evl xs = evl ys"
  unfolding evl_alt by (rule arg_cong)

lemma cancels_fst: "map fst xs = map fst ys \<Longrightarrow> cancels xs = cancels ys"
  unfolding cancels_alt by (rule arg_cong)

lemma lastAt_fst: "map fst xs = map fst ys \<Longrightarrow> lastAt e xs k \<longleftrightarrow> lastAt e ys k"
proof -
  assume m: "map fst xs = map fst ys"
  then have l: "length xs = length ys" by (metis length_map)
  have "fst (xs ! j) = fst (ys ! j)" if "j < length ys" for j using m l that by (metis nth_map)
  then show ?thesis using l by (auto simp: lastAt_def)
qed

lemma logOk_fst: "map fst xs = map fst ys \<Longrightarrow> logOk e s g xs \<longleftrightarrow> logOk e s g ys"
  using evl_fst[of xs ys] lastAt_fst[of xs ys] by (simp add: logOk_def)

lemma fst_store: "map fst (xs[k := (fst (xs ! k), l)]) = map fst xs"
  by (metis fst_conv list_update_id map_update list_update_beyond not_le nth_map)

lemma logOk_push_other: "logOk e s g xs \<Longrightarrow> e \<noteq> e' \<Longrightarrow> logOk e s g (xs @ [(QEvent e', l)])"
  using lastAt_push[of e xs _ e'] by (auto simp: logOk_def)

lemma logOk_push_same:
  "logOk e s g xs \<Longrightarrow> npend s' = Suc (npend s) \<Longrightarrow> valque s' = valque s \<Longrightarrow>
   (valque s \<Longrightarrow> pLastLog s' = Some ((g + length xs) mod 128)) \<Longrightarrow> logOk e s' g (xs @ [(QEvent e, l)])"
  using lastAt_push_same[of e xs l] by (auto simp: logOk_def)

lemma logOk_mark_other: "logOk e s g xs \<Longrightarrow> e \<noteq> e' \<Longrightarrow> logOk e s g (mark e' xs)"
proof -
  assume l: "logOk e s g xs" and ne: "e \<noteq> e'"
  have "count_list (evl (mark e' xs)) e = count_list (evl xs) e" unfolding evl_mark
    using ne by (induction "evl xs" arbitrary: xs) (auto simp: count_list_eq_length_filter intro!: arg_cong[of _ _ length] filter_cong)
  then show ?thesis using l lastAt_mark[of e xs _ e'] ne by (auto simp: logOk_def)
qed

lemma RNGINC_shift: "g < 128 \<Longrightarrow> (RNGINC g + k) mod 128 = (g + Suc k) mod 128"
  by (metis RNGINC_mod add.assoc mod_add_left_eq plus_1_eq_Suc)

lemma logOk_pop:
  assumes "logOk e s g (x # xs)" "g < 128" "fst x \<noteq> QEvent e"
  shows "logOk e s (RNGINC g) xs"
proof -
  have c: "count_list (evl xs) e = npend s" using assms by (auto simp: logOk_def split: slot.splits if_splits)
  have "\<exists>j. lastAt e xs j \<and> pLastLog s = Some ((RNGINC g + j) mod 128)" if n: "0 < npend s" "valque s"
  proof -
    obtain k where k: "lastAt e (x # xs) k" "pLastLog s = Some ((g + k) mod 128)" using assms(1) n by (auto simp: logOk_def)
    have "e \<in> set (evl xs)" using c n by (metis count_notin less_numeral_extra(3))
    then obtain j where "k = Suc j" "lastAt e xs j" using lastAt_Cons[OF k(1)] by blast
    then show ?thesis using k(2) RNGINC_shift[OF assms(2)] by auto
  qed
  then show ?thesis using assms(1) c by (auto simp: logOk_def)
qed

lemma logOk_pop_same:
  assumes "logOk e s g (x # xs)" "g < 128" "fst x = QEvent e" "npend s' = npend s - 1" "valque s' = valque s"
    "pLastLog s' = (if npend s = 1 then None else pLastLog s)"
  shows "logOk e s' (RNGINC g) xs"
proof -
  have c: "npend s = Suc (count_list (evl xs) e)" using assms by (auto simp: logOk_def)
  have "\<exists>j. lastAt e xs j \<and> pLastLog s = Some ((RNGINC g + j) mod 128)" if n: "1 < npend s" "valque s"
  proof -
    obtain k where k: "lastAt e (x # xs) k" "pLastLog s = Some ((g + k) mod 128)" using assms(1) n by (auto simp: logOk_def)
    have "e \<in> set (evl xs)" using c n by (metis Suc_eq_plus1 add.left_neutral count_notin less_irrefl)
    then obtain j where "k = Suc j" "lastAt e xs j" using lastAt_Cons[OF k(1)] by blast
    then show ?thesis using k(2) RNGINC_shift[OF assms(2)] by auto
  qed
  then show ?thesis using c assms(4-6) by (auto simp: logOk_def)
qed

section \<open>Changing one queue\<close>

lemma rings_change:
  assumes ok: "rings_ok qs sb" and i: "i < length qs" and r: "rep q' xs'" and c: "countsOk q' xs'"
    and quo: "quota q' = quota (qs ! i)" and dm: "dom sb' = dom sb" and mem: "set (evl xs') \<subseteq> members sb i"
    and new: "\<And>e s s'. sb e = Some s \<Longrightarrow> sb' e = Some s' \<Longrightarrow>
       ev_que s' = ev_que s \<and> (ev_que s \<noteq> i \<longrightarrow> s' = s) \<and> (ev_que s = i \<longrightarrow> logOk e s' (getix q') xs')"
  shows "rings_ok (qs[i := q']) sb'"
proof -
  have v: "view q' = xs'" by (rule rep_view[OF r])
  have eq: "map_option ev_que (sb' e) = map_option ev_que (sb e)" for e
  proof (cases "sb e")
    case None
    then have "e \<notin> dom sb'" unfolding dm by blast
    then have "sb' e = None" by blast
    then show ?thesis using None by simp
  next
    case (Some s)
    then have "e \<in> dom sb'" unfolding dm by blast
    then obtain s' where "sb' e = Some s'" by blast
    then show ?thesis using Some new by simp
  qed
  have m: "members sb' = members sb" by (rule members_cong) (rule eq)
  have "queOk sb' j (qs[i := q'] ! j)" if "j < length qs" for j
  proof (cases "j = i")
    case True
    have "queOk sb i (qs ! i)" using ok i by (simp add: rings_ok_def)
    then have "quota (qs ! i) = 4 * card (members sb i) \<and> quota (qs ! i) \<le> 124" unfolding queOk_def by blast
    then have "quota q' = 4 * card (members sb i) \<and> quota q' \<le> 124" unfolding quo .
    moreover have qi: "qs[i := q'] ! j = q'" using True i by simp
    ultimately show ?thesis unfolding queOk_def m qi v using r c mem True by blast
  next
    case False
    have "queOk sb j (qs ! j)" using ok that by (simp add: rings_ok_def)
    moreover have qj: "qs[i := q'] ! j = qs ! j" using False by simp
    ultimately show ?thesis unfolding queOk_def m qj by blast
  qed
  moreover have "ev_que s' < length qs \<and> logOk e s' (getix (qs[i := q'] ! ev_que s')) (view (qs[i := q'] ! ev_que s'))"
    if "sb' e = Some s'" for e s'
  proof -
    have "e \<in> dom sb" unfolding dm[symmetric] using that by (rule domI)
    then obtain s where s: "sb e = Some s" by blast
    have n: "ev_que s' = ev_que s \<and> (ev_que s \<noteq> i \<longrightarrow> s' = s) \<and> (ev_que s = i \<longrightarrow> logOk e s' (getix q') xs')"
      by (rule new[OF s that])
    show ?thesis
    proof (cases "ev_que s = i")
      case True
      then show ?thesis using n i v by simp
    next
      case False
      then show ?thesis using n ok s by (simp add: rings_ok_def)
    qed
  qed
  ultimately show ?thesis using ok dm by (simp add: rings_ok_def)
qed

text \<open>Fields of a subscription the rings do not depend on.\<close>

lemma rings_sub:
  assumes ok: "rings_ok qs sb" and s: "sb e = Some s" and eq: "ev_que s' = ev_que s" "npend s' = npend s"
    "pLastLog s' = pLastLog s" "valque s' = valque s"
  shows "rings_ok qs (sb(e \<mapsto> s'))"
proof -
  have m: "members (sb(e \<mapsto> s')) = members sb" by (rule members_cong) (simp add: s eq)
  show ?thesis unfolding rings_ok_def queOk_def m
  proof (intro conjI allI impI)
    show "finite (dom (sb(e \<mapsto> s')))" using ok by (simp add: rings_ok_def)
  qed (use ok s eq in \<open>auto simp: rings_ok_def queOk_def logOk_def split: if_splits\<close>)
qed

lemma rings_que: "rings_ok qs sb \<Longrightarrow> sb e = Some s \<Longrightarrow>
    ev_que s < length qs \<and> queOk sb (ev_que s) (qs ! ev_que s) \<and> rep (qs ! ev_que s) (view (qs ! ev_que s))
      \<and> logOk e s (getix (qs ! ev_que s)) (view (qs ! ev_que s))"
  unfolding rings_ok_def queOk_def by blast

lemma rings_at: "rings_ok qs sb \<Longrightarrow> i < length qs \<Longrightarrow> queOk sb i (qs ! i)"
  by (simp add: rings_ok_def)

lemma rings_event: "rings_ok qs sb \<Longrightarrow> i < length qs \<Longrightarrow> e \<in> set (evl (view (qs ! i))) \<Longrightarrow> \<exists>s. sb e = Some s \<and> ev_que s = i"
  by (auto simp: rings_ok_def queOk_def members_def)

end
