(* ===== verification/DbEventOps.thy ===== *)
theory DbEventOps
  imports DbEventInv
begin

text \<open>
  The operations on the rings: posting, cancelling and reading return on every state that satisfies the
  invariant, keep it, and do to the lists of entries what is described here.
\<close>

section \<open>The state\<close>

lemma state_simps [simp]:
  "queues (setSub e s st) = queues st" "subs (setQue i q st) = subs st"
  "queues (setQue i q st) = (queues st)[i := q]" "subs (setSub e s st) = (subs st)(e \<mapsto> s)"
  "recs (setSub e s st) = recs st" "recs (setQue i q st) = recs st"
  "bytesAt (setSub e s st) = bytesAt st" "bytesAt (setQue i q st) = bytesAt st"
  "pSuicideEvent (setSub e s st) = pSuicideEvent st" "pSuicideEvent (setQue i q st) = pSuicideEvent st"
  "queovr (setSub e s st) = queovr st" "queovr (setQue i q st) = queovr st"
  "flowCtrlMode (setSub e s st) = flowCtrlMode st" "flowCtrlMode (setQue i q st) = flowCtrlMode st"
  "pendexit (setSub e s st) = pendexit st" "pendexit (setQue i q st) = pendexit st"
  "signals (setSub e s st) = signals st" "signals (setQue i q st) = signals st"
  "ppendsem (setSub e s st) = ppendsem st" "ppendsem (setQue i q st) = ppendsem st"
  "pflush_sem (setSub e s st) = pflush_sem st" "pflush_sem (setQue i q st) = pflush_sem st"
  "task (setSub e s st) = task st" "task (setQue i q st) = task st"
  "closing (setSub e s st) = closing st" "closing (setQue i q st) = closing st"
  "calls (setSub e s st) = calls st" "calls (setQue i q st) = calls st"
  by (simp_all add: setSub_def setQue_def)

lemma state_merge [simp]:
  "setSub e s (setSub e t st) = setSub e s st" "setQue i q (setQue i r st) = setQue i q st"
  "setQue i q (setSub e s st) = setSub e s (setQue i q st)"
  by (simp_all add: setSub_def setQue_def)

lemma setSub_same: "subs st e = Some s \<Longrightarrow> setSub e s st = st"
  by (simp add: setSub_def map_upd_triv)

lemma setQue_same: "i < length (queues st) \<Longrightarrow> q = queues st ! i \<Longrightarrow> setQue i q st = st"
  by (simp add: setQue_def)

lemma queAt_in [simp]: "i < length (queues st) \<Longrightarrow> queAt i st = Some (queues st ! i)"
  by (simp add: queAt_def)

lemma queAt_setSub [simp]: "queAt i (setSub e s st) = queAt i st"
  by (simp add: queAt_def)

lemma queAt_setQue [simp]: "i < length (queues st) \<Longrightarrow> queAt i (setQue i q st) = Some q"
  by (simp add: queAt_def)

lemma fillLog_cong: "recs st' = recs st \<Longrightarrow> bytesAt st' = bytesAt st \<Longrightarrow> fillLog pa st' = fillLog pa st"
  by (rule ext) (simp add: fillLog_def)

text \<open>What the queues do not change in a subscription.\<close>

definition ctl :: "evSubscrip \<Rightarrow> evSubscrip" where
  "ctl s = s\<lparr>pLastLog := None, npend := 0, nreplace := 0\<rparr>"

lemma ctl_same: "ctl s' = ctl s \<Longrightarrow> paddr s' = paddr s \<and> user_sub s' = user_sub s \<and> user_arg s' = user_arg s
    \<and> ev_que s' = ev_que s \<and> select s' = select s \<and> valque s' = valque s
    \<and> callBackInProgress s' = callBackInProgress s \<and> enabled s' = enabled s"
  by (cases s; cases s') (simp add: ctl_def)

section \<open>Posting\<close>

text \<open>
  What posting does to the entries: nothing when a value is not queued and one entry is there, replace
  the last entry in flow control or when at most 32 places are free, add an entry, or count an overflow.
\<close>

definition postSpec :: "addr \<Rightarrow> bool \<Rightarrow> bool \<Rightarrow> (db_field_log \<Rightarrow> db_field_log) \<Rightarrow> entry list \<Rightarrow> entry list \<Rightarrow> bool \<Rightarrow> bool" where
  "postSpec e vq flow fill xs ys ov \<longleftrightarrow>
     (if \<not> vq \<and> e \<in> set (evl xs) then ys = xs \<and> \<not> ov
      else if e \<in> set (evl xs) \<and> (flow \<or> 96 \<le> length xs)
      then (\<exists>k. lastAt e xs k \<and> ys = xs[k := (QEvent e, fill (snd (xs ! k)))]) \<and> \<not> ov
      else if length xs < 128 then (\<exists>l. ys = xs @ [(QEvent e, if vq then fill l else l)]) \<and> \<not> ov
      else ys = xs \<and> ov)"

lemma count_pos: "0 < count_list xs x \<longleftrightarrow> x \<in> set xs"
  by (metis count_list_0_iff gr_zeroI less_numeral_extra(3))

lemma storeLog_eq:
  assumes "subs st e = Some s" "queAt (ev_que s) st = Some q" "ix < length (q_valque q)"
  shows "storeLog e ix st = Some (if valque s
     then setSub e (s\<lparr>pLastLog := Some ix\<rparr>) (setQue (ev_que s)
       (q\<lparr>q_valque := (q_valque q)[ix := fillLog (paddr s) st (q_valque q ! ix)]\<rparr>) st)
     else st)"
  using assms by (simp add: storeLog_def logAt_def)

lemma card_insert_evl: "card (insert e (set (evl xs))) = (if e \<in> set (evl xs) then card (set (evl xs)) else Suc (card (set (evl xs))))"
  by (simp add: insert_absorb)

lemma card_evl_less: "e \<in> set (evl xs) \<Longrightarrow> 0 < card (set (evl xs))"
  by (auto simp: card_gt_0_iff)

text \<open>The counters after one more entry.\<close>

lemma countsOk_push:
  assumes c: "countsOk q xs" and r: "rep q xs" and dup: "e \<in> set (evl xs) \<Longrightarrow> length xs < 96"
    and q': "nCanceled q' = nCanceled q" "nDuplicates q' = (if e \<in> set (evl xs) then ushort (nDuplicates q + 1) else nDuplicates q)"
  shows "countsOk q' (xs @ [(QEvent e, l)])"
proof -
  have len: "length xs = length (evl xs) + cancels xs" by (rule entries_split) (rule rep_nonempty[OF r])
  have n: "nDuplicates q + card (set (evl xs)) = length (evl xs)" "nDuplicates q \<le> 95" "nCanceled q = cancels xs"
    using c by (auto simp: countsOk_def)
  show ?thesis
  proof (cases "e \<in> set (evl xs)")
    case True
    then have "nDuplicates q < 95" using dup card_evl_less[OF True] n len by linarith
    then have "ushort (nDuplicates q + 1) = nDuplicates q + 1" by (simp add: ushort_mod)
    then show ?thesis using n q' True \<open>nDuplicates q < 95\<close> by (simp add: countsOk_def insert_absorb)
  next
    case False
    then show ?thesis using n q' by (simp add: countsOk_def)
  qed
qed

lemma npend_evl: "logOk e s g xs \<Longrightarrow> 0 < npend s \<longleftrightarrow> e \<in> set (evl xs)"
  by (auto simp: logOk_def count_pos)

lemma count_le_length: "count_list xs x \<le> length xs"
  by (induction xs) auto

lemma npend_le: "logOk e s g xs \<Longrightarrow> length xs \<le> 128 \<Longrightarrow> rep q xs \<Longrightarrow> npend s \<le> 128"
  using entries_split[of xs] count_le_length[of "evl xs" e] rep_nonempty[of q xs] by (auto simp: logOk_def)

theorem post_ok:
  assumes ok: "rings_ok (queues st) (subs st)" and s: "subs st e = Some s"
  defines "q \<equiv> queues st ! ev_que s"
  shows "\<exists>s' q' ov. db_post_single_event_private e st = Some ((setSub e s' (setQue (ev_que s) q' st))
       \<lparr>signals := (if view q = [] then signals st + 1 else signals st), queovr := (if ov then ulong (queovr st + 1) else queovr st)\<rparr>)
     \<and> ctl s' = ctl s \<and> getix q' = getix q \<and> rings_ok ((queues st)[ev_que s := q']) ((subs st)(e \<mapsto> s'))
     \<and> postSpec e (valque s) (flowCtrlMode st) (fillLog (paddr s) st) (view q) (view q') ov"
proof -
  let ?i = "ev_que s" and ?xs = "view q" and ?g = "getix q"
  have i: "?i < length (queues st)" and qo: "queOk (subs st) ?i q" and r: "rep q ?xs" and lo: "logOk e s ?g ?xs"
    using rings_que[OF ok s] by (auto simp: q_def)
  have co: "countsOk q ?xs" and mem: "set (evl ?xs) \<subseteq> members (subs st) ?i" using qo by (auto simp: queOk_def)
  have em: "e \<in> members (subs st) ?i" using s by (simp add: members_iff)
  have le: "length ?xs \<le> 128" and lv: "length (q_valque q) = 128" and pl: "putix q < 128" using rep_lens[OF r] by auto
  have np: "0 < npend s \<longleftrightarrow> e \<in> set (evl ?xs)" by (rule npend_evl[OF lo])
  have others: "logOk e' t (getix (queues st ! ?i)) ?xs" if "subs st e' = Some t" "ev_que t = ?i" for e' t
    using rings_que[OF ok that(1)] that(2) by (simp add: q_def)
  have q0: "queAt ?i st = Some q" using i by (simp add: q_def)
  have start: "db_post_single_event_private e st = (if \<not> valque s \<and> npend s > 0 then Some st
     else if npend s > 0 \<and> (flowCtrlMode st \<or> 96 \<le> length ?xs)
     then (let st1 = setSub e (s\<lparr>nreplace := ulong (nreplace s + 1)\<rparr>) st in
           case pLastLog s of None \<Rightarrow> Some st1 | Some ix \<Rightarrow> storeLog e ix st1)
     else if length ?xs < 128
     then do {
       st1 \<leftarrow> storeLog e (putix q) (setSub e (s\<lparr>npend := ulong (npend s + 1)\<rparr>) (setQue ?i
           (q\<lparr>evque := (evque q)[putix q := QEvent e],
              nDuplicates := (if npend s > 0 then ushort (nDuplicates q + 1) else nDuplicates q),
              putix := RNGINC (putix q)\<rparr>) st));
       Some (if ?xs = [] then st1\<lparr>signals := signals st1 + 1\<rparr> else st1) }
     else Some (st\<lparr>queovr := ulong (queovr st + 1)\<rparr>))"
  proof -
    have "slotAt q (putix q) = Some (if length ?xs = 128 then fst (hd ?xs) else QEmpty)" by (rule rep_back[OF r])
    moreover have "fst (hd ?xs) \<noteq> QEmpty" if "length ?xs = 128" using rep_nonempty[OF r, of "hd ?xs"] that by (cases ?xs) auto
    moreover have "(128 - length ?xs \<le> 32) = (96 \<le> length ?xs)" "(128 - length ?xs = 128) = (?xs = [])"
      using le by (auto simp flip: length_0_conv)
    ultimately show ?thesis using s q0 rep_space[OF r] le by (auto simp: db_post_single_event_private_def Let_def)
  qed
  consider (dup) "\<not> valque s" "e \<in> set (evl ?xs)"
    | (repl) "valque s" "e \<in> set (evl ?xs)" "flowCtrlMode st \<or> 96 \<le> length ?xs"
    | (push) "\<not> (e \<in> set (evl ?xs) \<and> (\<not> valque s \<or> flowCtrlMode st \<or> 96 \<le> length ?xs))" "length ?xs < 128"
    | (full) "\<not> (e \<in> set (evl ?xs) \<and> (\<not> valque s \<or> flowCtrlMode st \<or> 96 \<le> length ?xs))" "length ?xs = 128"
    using le by fastforce
  then show ?thesis
  proof cases
    case dup
    have "?xs \<noteq> []" using dup by auto
    then show ?thesis using dup np ok i s
      by (intro exI[of _ s] exI[of _ q] exI[of _ False])
         (simp add: start postSpec_def setSub_same setQue_same q_def map_upd_triv)
  next
    case repl
    then obtain k where k: "lastAt e ?xs k" "pLastLog s = Some ((?g + k) mod 128)" using lo np by (auto simp: logOk_def)
    let ?ix = "(?g + k) mod 128" and ?f = "fillLog (paddr s) st"
    have kl: "k < length ?xs" "fst (?xs ! k) = QEvent e" using k by (auto simp: lastAt_def)
    have vk: "q_valque q ! ?ix = snd (?xs ! k)" using r kl by (simp add: ring_rep_def)
    define s' where "s' = s\<lparr>nreplace := ulong (nreplace s + 1), pLastLog := Some ?ix\<rparr>"
    define q' where "q' = q\<lparr>q_valque := (q_valque q)[?ix := ?f (snd (?xs ! k))]\<rparr>"
    have "storeLog e ?ix (setSub e (s\<lparr>nreplace := ulong (nreplace s + 1)\<rparr>) st) = Some (setSub e s' (setQue ?i q' st))"
    proof -
      let ?s = "s\<lparr>nreplace := ulong (nreplace s + 1)\<rparr>"
      have 1: "subs (setSub e ?s st) e = Some ?s" "queAt (ev_que ?s) (setSub e ?s st) = Some q" "?ix < length (q_valque q)"
        using q0 lv by simp_all
      have "fillLog (paddr ?s) (setSub e ?s st) = ?f" by (rule trans[OF fillLog_cong[of _ st]]) simp_all
      then show ?thesis using storeLog_eq[OF 1] repl vk by (simp add: s'_def q'_def)
    qed
    then have st: "db_post_single_event_private e st = Some (setSub e s' (setQue ?i q' st))"
      using repl np k by (simp add: start Let_def)
    let ?ys = "?xs[k := (QEvent e, ?f (snd (?xs ! k)))]"
    have m: "map fst ?ys = map fst ?xs" using fst_store[of ?xs k] kl by simp
    have r': "rep q' ?ys" using rep_store[OF r kl(1), of "?f (snd (?xs ! k))"] kl by (simp add: q'_def)
    have lo': "logOk e s' ?g ?ys" using lo k unfolding logOk_fst[OF m] s'_def by (auto simp: logOk_def)
    have "rings_ok ((queues st)[?i := q']) ((subs st)(e \<mapsto> s'))"
    proof (rule rings_change[OF ok i r'])
      show "countsOk q' ?ys" using co evl_fst[OF m] cancels_fst[OF m] by (simp add: countsOk_def q'_def)
      show "set (evl ?ys) \<subseteq> members (subs st) ?i" using mem evl_fst[OF m] by simp
      show "dom ((subs st)(e \<mapsto> s')) = dom (subs st)" using s by auto
      show "quota q' = quota (queues st ! ?i)" by (simp add: q'_def q_def)
      fix e' t t'
      assume t: "subs st e' = Some t" "((subs st)(e \<mapsto> s')) e' = Some t'"
      show "ev_que t' = ev_que t \<and> (ev_que t \<noteq> ?i \<longrightarrow> t' = t) \<and> (ev_que t = ?i \<longrightarrow> logOk e' t' (getix q') ?ys)"
      proof (cases "e' = e")
        case True
        then have "t = s \<and> t' = s'" using t s by simp
        moreover have "ev_que s' = ev_que s \<and> getix q' = ?g" by (simp add: s'_def q'_def)
        ultimately show ?thesis using lo' True by simp
      next
        case False
        then show ?thesis using t others[OF t(1)] unfolding logOk_fst[OF m] by (simp add: q'_def q_def)
      qed
    qed
    moreover have "?xs \<noteq> []" using kl by auto
    ultimately show ?thesis using st repl k rep_view[OF r']
      by (intro exI[of _ s'] exI[of _ q'] exI[of _ False]) (auto simp: postSpec_def s'_def q'_def ctl_def)
  next
    case push
    define s1 where "s1 = s\<lparr>npend := Suc (npend s)\<rparr>"
    define s' where "s' = (if valque s then s1\<lparr>pLastLog := Some (putix q)\<rparr> else s1)"
    define q1 where "q1 = q\<lparr>evque := (evque q)[putix q := QEvent e],
              nDuplicates := (if npend s > 0 then ushort (nDuplicates q + 1) else nDuplicates q), putix := RNGINC (putix q)\<rparr>"
    let ?l = "q_valque q ! putix q" and ?f = "fillLog (paddr s) st"
    define q' where "q' = (if valque s then q1\<lparr>q_valque := (q_valque q)[putix q := ?f ?l]\<rparr> else q1)"
    have u: "ulong (npend s + 1) = Suc (npend s)" using npend_le[OF lo le r] by (simp add: ulong_mod)
    have sl: "storeLog e (putix q) (setSub e s1 (setQue ?i q1 st)) = Some (setSub e s' (setQue ?i q' st))"
    proof -
      let ?st = "setSub e s1 (setQue ?i q1 st)"
      have 1: "subs ?st e = Some s1" "queAt (ev_que s1) ?st = Some q1" "putix q < length (q_valque q1)"
        using i lv pl by (simp_all add: s1_def q1_def)
      have "fillLog (paddr s1) ?st = ?f" by (rule trans[OF fillLog_cong[of _ st]]) (simp_all add: s1_def)
      then show ?thesis using storeLog_eq[OF 1] by (simp add: s1_def s'_def q1_def q'_def)
    qed
    have st: "db_post_single_event_private e st = Some (if ?xs = [] then (setSub e s' (setQue ?i q' st))\<lparr>signals := signals st + 1\<rparr> else setSub e s' (setQue ?i q' st))"
    proof -
      have c1: "\<not> (\<not> valque s \<and> npend s > 0)" and c2: "\<not> (npend s > 0 \<and> (flowCtrlMode st \<or> 96 \<le> length ?xs))"
        using push(1) np by auto
      show ?thesis unfolding start if_not_P[OF c1] if_not_P[OF c2] if_P[OF push(2)] u s1_def[symmetric] q1_def[symmetric] sl
        by simp
    qed
    let ?y = "(QEvent e, if valque s then ?f ?l else ?l)"
    have p: "putix q = (?g + length ?xs) mod 128" using r by (simp add: ring_rep_def)
    have r1: "rep q1 (?xs @ [(QEvent e, ?l)])" using rep_push[OF r push(2)] by (simp add: q1_def)
    have r': "rep q' (?xs @ [?y])"
    proof (cases "valque s")
      case True
      have "getix q1 = ?g" "q_valque q1 = q_valque q" by (simp_all add: q1_def)
      then show ?thesis using rep_store[OF r1, of "length ?xs" "?f ?l"] True p by (simp add: q'_def)
    next
      case False
      then show ?thesis using r1 by (simp add: q'_def)
    qed
    have "rings_ok ((queues st)[?i := q']) ((subs st)(e \<mapsto> s'))"
    proof (rule rings_change[OF ok i r'])
      show "countsOk q' (?xs @ [?y])"
        by (rule countsOk_push[OF co r]) (use push np in \<open>auto simp: q'_def q1_def\<close>)
      show "set (evl (?xs @ [?y])) \<subseteq> members (subs st) ?i" using mem em by auto
      show "dom ((subs st)(e \<mapsto> s')) = dom (subs st)" using s by auto
      show "quota q' = quota (queues st ! ?i)" by (simp add: q'_def q1_def q_def)
      fix e' t t'
      assume t: "subs st e' = Some t" "((subs st)(e \<mapsto> s')) e' = Some t'"
      show "ev_que t' = ev_que t \<and> (ev_que t \<noteq> ?i \<longrightarrow> t' = t) \<and> (ev_que t = ?i \<longrightarrow> logOk e' t' (getix q') (?xs @ [?y]))"
      proof (cases "e' = e")
        case True
        have "logOk e s' ?g (?xs @ [?y])" by (rule logOk_push_same[OF lo]) (auto simp: s'_def s1_def p)
        moreover have "t = s \<and> t' = s'" using t s True by simp
        moreover have "ev_que s' = ev_que s \<and> getix q' = ?g" by (simp add: s'_def s1_def q'_def q1_def)
        ultimately show ?thesis using True by simp
      next
        case False
        have "getix q' = ?g" by (simp add: q'_def q1_def)
        then show ?thesis using t others[OF t(1)] False logOk_push_other[of e' t ?g ?xs e] by (simp add: q_def)
      qed
    qed
    then show ?thesis using st push rep_view[OF r']
      by (intro exI[of _ s'] exI[of _ q'] exI[of _ False])
         (auto simp: postSpec_def s'_def s1_def q'_def q1_def ctl_def)
  next
    case full
    then have ne: "?xs \<noteq> []" by auto
    have "db_post_single_event_private e st = Some (st\<lparr>queovr := ulong (queovr st + 1)\<rparr>)"
      unfolding start using full np by auto
    then show ?thesis using full ne ok i s
      by (intro exI[of _ s] exI[of _ q] exI[of _ True])
         (auto simp: postSpec_def setSub_same setQue_same q_def map_upd_triv)
  qed
qed

section \<open>Taking entries out\<close>

lemma card_count: "x \<in> set ys \<Longrightarrow> card (set ys) + (count_list ys x - 1) \<le> length ys"
proof (induction ys)
  case (Cons y ys)
  show ?case
  proof (cases "x \<in> set ys")
    case True
    have "0 < count_list ys x" using True by (simp add: count_pos)
    then show ?thesis using Cons.IH[OF True] card_insert_le[of "set ys" y] True
      by (cases "y \<in> set ys") (auto simp: insert_absorb)
  next
    case False
    then have "x = y" "count_list ys x = 0" using Cons.prems by (auto simp: count_notin)
    then show ?thesis using card_length[of ys] by (auto simp: card_insert_if)
  qed
qed simp

text \<open>The subscription and the counters of a queue without one of its entries.\<close>

definition dropped :: "evSubscrip \<Rightarrow> evSubscrip" where
  "dropped s = (if npend s = 1 then s\<lparr>pLastLog := None, npend := 0\<rparr> else s\<lparr>npend := npend s - 1\<rparr>)"

definition lessDup :: "evSubscrip \<Rightarrow> event_que \<Rightarrow> event_que" where
  "lessDup s q = (if npend s = 1 then q else q\<lparr>nDuplicates := nDuplicates q - 1\<rparr>)"

lemma dropped_simps [simp]:
  "ctl (dropped s) = ctl s" "npend (dropped s) = npend s - 1" "ev_que (dropped s) = ev_que s" "valque (dropped s) = valque s"
  "pLastLog (dropped s) = (if npend s = 1 then None else pLastLog s)" "user_sub (dropped s) = user_sub s"
  by (simp_all add: dropped_def ctl_def)

lemma lessDup_simps [simp]:
  "q_valque (lessDup s q) = q_valque q" "evque (lessDup s q) = evque q" "putix (lessDup s q) = putix q"
  "getix (lessDup s q) = getix q" "quota (lessDup s q) = quota q" "nCanceled (lessDup s q) = nCanceled q"
  by (simp_all add: lessDup_def)

lemma event_remove_eq:
  assumes "queAt i st = Some q" "slotAt q ix = Some (QEvent e)" "subs st e = Some s"
    "0 < npend s" "npend s \<noteq> 1 \<Longrightarrow> 0 < nDuplicates q"
  shows "event_remove i ix ph st =
    Some (setSub e (dropped s) (setQue i (lessDup s (q\<lparr>evque := (evque q)[ix := ph]\<rparr>)) st))"
  using assms by (cases "npend s = 1") (auto simp: event_remove_def dropped_def lessDup_def Let_def)

lemma dup_pos: "countsOk q xs \<Longrightarrow> logOk e s g xs \<Longrightarrow> e \<in> set (evl xs) \<Longrightarrow> npend s \<noteq> 1 \<Longrightarrow> 0 < nDuplicates q"
proof -
  assume c: "countsOk q xs" and l: "logOk e s g xs" and e: "e \<in> set (evl xs)" and n: "npend s \<noteq> 1"
  have np: "npend s = count_list (evl xs) e" "nDuplicates q + card (set (evl xs)) = length (evl xs)"
    using c l by (auto simp: countsOk_def logOk_def)
  have "0 < count_list (evl xs) e" using e by (simp add: count_pos)
  then have "2 \<le> count_list (evl xs) e" using np n by linarith
  then show ?thesis using card_count[OF e] np by linarith
qed

text \<open>The distinct subscriptions after one entry has gone.\<close>

lemma card_remove1:
  assumes "ys = as @ e # bs"
  shows "card (set (as @ bs)) = card (set ys) - (if count_list ys e = 1 then 1 else 0)"
proof (cases "e \<in> set (as @ bs)")
  case True
  then have "count_list ys e \<noteq> 1" using assms count_pos[of as e] count_pos[of bs e] by auto
  then show ?thesis using True assms by (auto simp: insert_absorb)
next
  case False
  then have "count_list ys e = 1" using assms by (auto simp: count_notin)
  then show ?thesis using False assms by (simp add: card_insert_if)
qed

lemma lessDup_counts:
  assumes c: "countsOk q xs" and l: "logOk e s g xs" and y: "evl xs = as @ e # bs" "evl xs' = as @ bs"
    and q': "nDuplicates q' = nDuplicates (lessDup s q)" "nCanceled q' = cancels xs'"
  shows "countsOk q' xs'"
proof -
  have e: "e \<in> set (evl xs)" using y by simp
  have n: "npend s = count_list (evl xs) e" "nDuplicates q + card (set (evl xs)) = length (evl xs)" "nDuplicates q \<le> 95"
    using c l by (auto simp: countsOk_def logOk_def)
  have k: "card (set (evl xs')) = card (set (evl xs)) - (if npend s = 1 then 1 else 0)"
    using card_remove1[OF y(1)] n(1) y(2) by simp
  have "0 < card (set (evl xs))" by (rule card_evl_less[OF e])
  moreover have "npend s \<noteq> 1 \<Longrightarrow> 0 < nDuplicates q" by (rule dup_pos[OF c l e])
  moreover have "length (evl xs) = Suc (length (evl xs'))" using y by simp
  ultimately show ?thesis using n k q' by (auto simp: countsOk_def lessDup_def)
qed

lemma set_evl_sub: "evl xs = as @ e # bs \<Longrightarrow> evl xs' = as @ bs \<Longrightarrow> set (evl xs') \<subseteq> set (evl xs)"
  by auto

section \<open>Cancelling\<close>

lemma evl_take: "k < length xs \<Longrightarrow> xs ! k = (QEvent e, l) \<Longrightarrow> evl xs = evl (take k xs) @ e # evl (drop (Suc k) xs)"
proof -
  assume k: "k < length xs" "xs ! k = (QEvent e, l)"
  have "evl xs = evl (take k xs @ xs ! k # drop (Suc k) xs)" using id_take_nth_drop[OF k(1)] by simp
  then show ?thesis using k(2) by simp
qed

lemma evl_cancel_at: "k < length xs \<Longrightarrow> evl (xs[k := (QCanceled, l)]) = evl (take k xs) @ evl (drop (Suc k) xs)"
  by (simp add: upd_conv_take_nth_drop)

lemma cancels_cancel_at: "k < length xs \<Longrightarrow> xs ! k = (QEvent e, l) \<Longrightarrow> cancels (xs[k := (QCanceled, l)]) = Suc (cancels xs)"
proof -
  assume k: "k < length xs" "xs ! k = (QEvent e, l)"
  have "cancels xs = cancels (take k xs @ xs ! k # drop (Suc k) xs)" using id_take_nth_drop[OF k(1)] by simp
  then show ?thesis using k by (simp add: upd_conv_take_nth_drop)
qed

lemma lastAt_cancel_other:
  "k < length xs \<Longrightarrow> xs ! k = (QEvent e, l) \<Longrightarrow> e' \<noteq> e \<Longrightarrow> lastAt e' (xs[k := (QCanceled, l)]) j \<longleftrightarrow> lastAt e' xs j"
  by (auto simp: lastAt_def nth_list_update split: if_splits) (metis fst_conv slot.inject(1))

lemma lastAt_cancel_first: "lastAt e xs j \<Longrightarrow> k \<noteq> j \<Longrightarrow> lastAt e (xs[k := (QCanceled, l)]) j"
  by (cases "k < length xs") (auto simp: lastAt_def nth_list_update split: if_splits)

lemma count_cancel: "k < length xs \<Longrightarrow> xs ! k = (QEvent e, l) \<Longrightarrow>
    count_list (evl (xs[k := (QCanceled, l)])) e' = count_list (evl xs) e' - (if e' = e then 1 else 0)"
  by (simp add: evl_take evl_cancel_at)

lemma logOk_cancel_other: "k < length xs \<Longrightarrow> xs ! k = (QEvent e, l) \<Longrightarrow> e' \<noteq> e \<Longrightarrow> logOk e' s g xs \<Longrightarrow>
    logOk e' s g (xs[k := (QCanceled, l)])"
  unfolding logOk_def by (simp add: count_cancel lastAt_cancel_other)

lemma logOk_cancel_same:
  assumes k: "k < length xs" "xs ! k = (QEvent e, l)" "\<And>j. j < k \<Longrightarrow> fst (xs ! j) \<noteq> QEvent e" and l: "logOk e s g xs"
  shows "logOk e (dropped s) g (xs[k := (QCanceled, l)])"
proof -
  have c: "npend s = count_list (evl xs) e" using l by (simp add: logOk_def)
  have "\<exists>j. lastAt e (xs[k := (QCanceled, l)]) j \<and> pLastLog s = Some ((g + j) mod 128)" if n: "1 < npend s" "valque s"
  proof -
    obtain j where j: "lastAt e xs j" "pLastLog s = Some ((g + j) mod 128)" using l n by (auto simp: logOk_def)
    have "k \<noteq> j"
    proof
      assume kj: "k = j"
      have "e \<in> set (evl (take k xs)) \<or> e \<in> set (evl (drop (Suc k) xs))"
        using n c evl_take[OF k(1,2)] by (auto simp flip: count_pos)
      then show False
      proof
        assume "e \<in> set (evl (take k xs))"
        then show False using k(3) by (auto simp: evl_at)
      next
        assume "e \<in> set (evl (drop (Suc k) xs))"
        then obtain m where "m < length xs - Suc k" "fst (xs ! (Suc k + m)) = QEvent e" by (auto simp: evl_at)
        then show False using j(1) kj by (auto simp: lastAt_def)
      qed
    qed
    then show ?thesis using lastAt_cancel_first[OF j(1)] j(2) by auto
  qed
  then show ?thesis using c count_cancel[OF k(1,2), of e] l by (auto simp: logOk_def)
qed

text \<open>One turn of the purge.\<close>

lemma purge_step:
  assumes ok: "rings_ok (queues st) (subs st)" and s: "subs st e = Some s"
  defines "q \<equiv> queues st ! ev_que s"
  assumes k: "k < length (view q)" "view q ! k = (QEvent e, l)" and first: "\<And>j. j < k \<Longrightarrow> fst (view q ! j) \<noteq> QEvent e"
  shows "word_of_nat (nCanceled q) < (65535 :: 16 word) \<and> (\<exists>q'. event_remove (ev_que s) ((getix q + k) mod 128) QCanceled
        (setQue (ev_que s) (q\<lparr>nCanceled := nCanceled q + 1\<rparr>) st) = Some (setSub e (dropped s) (setQue (ev_que s) q' st))
     \<and> getix q' = getix q \<and> rings_ok ((queues st)[ev_que s := q']) ((subs st)(e \<mapsto> dropped s))
     \<and> view q' = (view q)[k := (QCanceled, l)])"
proof -
  let ?i = "ev_que s" and ?xs = "view q" and ?ix = "(getix q + k) mod 128"
  have i: "?i < length (queues st)" and qo: "queOk (subs st) ?i q" and r: "rep q ?xs" and lo: "logOk e s (getix q) ?xs"
    using rings_que[OF ok s] by (auto simp: q_def)
  have co: "countsOk q ?xs" and mem: "set (evl ?xs) \<subseteq> members (subs st) ?i" using qo by (auto simp: queOk_def)
  have e: "e \<in> set (evl ?xs)" using evl_take[OF k] by simp
  have np: "0 < npend s" using npend_evl[OF lo] e by simp
  have len: "length ?xs \<le> 128" using rep_lens[OF r] by simp
  have "cancels ?xs \<le> length ?xs" by (simp add: cancels_def)
  then have nc: "word_of_nat (nCanceled q) < (65535 :: 16 word)" using co len
    by (simp add: countsOk_def word_less_nat_alt unat_of_nat)
  define q0 where "q0 = q\<lparr>nCanceled := nCanceled q + 1\<rparr>"
  define q' where "q' = lessDup s (q0\<lparr>evque := (evque q)[?ix := QCanceled]\<rparr>)"
  let ?ys = "?xs[k := (QCanceled, l)]"
  have ev: "event_remove ?i ?ix QCanceled (setQue ?i q0 st) = Some (setSub e (dropped s) (setQue ?i q' st))"
  proof -
    have "slotAt q0 ?ix = slotAt q ?ix" by (simp add: q0_def slotAt_def)
    then have "slotAt q0 ?ix = Some (QEvent e)" using rep_slot[OF r, of k] k len by simp
    then show ?thesis using event_remove_eq[of ?i "setQue ?i q0 st" q0 ?ix e s QCanceled] i s np dup_pos[OF co lo e]
      by (simp add: q'_def q0_def)
  qed
  have r': "rep q' ?ys" using rep_mark[OF r k(1), of QCanceled] k(2) by (simp add: q'_def q0_def)
  have "rings_ok ((queues st)[?i := q']) ((subs st)(e \<mapsto> dropped s))"
  proof (rule rings_change[OF ok i r'])
    show "countsOk q' ?ys"
    proof (rule lessDup_counts[OF co lo evl_take[OF k] evl_cancel_at[OF k(1)]])
      show "nDuplicates q' = nDuplicates (lessDup s q)" by (simp add: q'_def q0_def lessDup_def)
      show "nCanceled q' = cancels ?ys" using cancels_cancel_at[OF k] co by (simp add: q'_def q0_def countsOk_def)
    qed
    show "set (evl ?ys) \<subseteq> members (subs st) ?i" using set_evl_sub[OF evl_take[OF k] evl_cancel_at[OF k(1)]] mem by blast
    show "dom ((subs st)(e \<mapsto> dropped s)) = dom (subs st)" using s by auto
    show "quota q' = quota (queues st ! ?i)" by (simp add: q'_def q0_def q_def)
    have g: "getix q' = getix q" by (simp add: q'_def q0_def)
    fix e' t t'
    assume t: "subs st e' = Some t" "((subs st)(e \<mapsto> dropped s)) e' = Some t'"
    show "ev_que t' = ev_que t \<and> (ev_que t \<noteq> ?i \<longrightarrow> t' = t) \<and> (ev_que t = ?i \<longrightarrow> logOk e' t' (getix q') ?ys)"
    proof (cases "e' = e")
      case True
      then have "t = s" "t' = dropped s" using t s by simp_all
      then show ?thesis using logOk_cancel_same[OF k first lo] True g by simp
    next
      case False
      have "t' = t" using t False by simp
      moreover have "ev_que t = ?i \<Longrightarrow> logOk e' t (getix q) ?xs" using rings_que[OF ok t(1)] by (simp add: q_def)
      ultimately show ?thesis using logOk_cancel_other[OF k False] g by simp
    qed
  qed
  then show ?thesis using nc ev r' rep_view[OF r'] by (auto simp: q0_def q'_def)
qed

end
