(* ===== verification/DbEventCancel.thy ===== *)
theory DbEventCancel
  imports DbEventOps
begin

text \<open>
  Adding and cancelling subscriptions, and the reading loop, on states that satisfy the invariant of the
  rings.
\<close>

section \<open>Cancelling\<close>

lemma slotAt_cong: "evque q' = evque q \<Longrightarrow> slotAt q' ix = slotAt q ix"
  by (simp add: slotAt_def)

lemma mark_none: "e \<notin> set (evl xs) \<Longrightarrow> mark e xs = xs"
  by (induction xs) (auto split: slot.splits)

lemma mark_update: "k < length xs \<Longrightarrow> xs ! k = (QEvent e, l) \<Longrightarrow> mark e (xs[k := (QCanceled, l)]) = mark e xs"
  unfolding mark_def by (rule nth_equalityI) (auto simp: nth_list_update)

lemma getix_wrap: "g < 128 \<Longrightarrow> k < 128 \<Longrightarrow> RNGINC ((g + k) mod 128) = g \<longleftrightarrow> k = 127"
proof -
  assume g: "g < 128" and k: "k < 128"
  show ?thesis
  proof (cases "k = 127")
    case True
    then show ?thesis unfolding RNGINC_pos using g by simp
  next
    case False
    then show ?thesis unfolding RNGINC_pos using pos_inj[of "Suc k" 0 g] g k by simp
  qed
qed

lemma purge_loop:
  assumes "rings_ok (queues st) (subs st)" "subs st e = Some s" "k < 128" "k \<le> length (view (queues st ! ev_que s))"
    "\<And>j. j < k \<Longrightarrow> fst (view (queues st ! ev_que s) ! j) \<noteq> QEvent e"
  shows "\<exists>s' q'. purgeLoop e (ev_que s) ((getix (queues st ! ev_que s) + k) mod 128) st = Some (setSub e s' (setQue (ev_que s) q' st))
     \<and> ctl s' = ctl s \<and> npend s' = 0 \<and> pLastLog s' = None \<and> getix q' = getix (queues st ! ev_que s)
     \<and> rings_ok ((queues st)[ev_que s := q']) ((subs st)(e \<mapsto> s')) \<and> view q' = mark e (view (queues st ! ev_que s))"
  using assms
proof (induction "128 - k" arbitrary: k st s)
  case 0
  then show ?case by simp
next
  case (Suc n)
  let ?i = "ev_que s"
  define q where "q = queues st ! ev_que s"
  let ?xs = "view q" and ?ix = "(getix q + k) mod 128"
  have i: "?i < length (queues st)" and r: "rep q ?xs" and lo: "logOk e s (getix q) ?xs"
    using rings_que[OF Suc.prems(1,2)] by (auto simp: q_def)
  have len: "length ?xs \<le> 128" "getix q < 128" using rep_lens[OF r] by auto
  have q0: "queAt ?i st = Some q" using i by (simp add: q_def)
  have sl: "slotAt q ?ix = Some (if k < length ?xs then fst (?xs ! k) else QEmpty)" by (rule rep_slot[OF r Suc.prems(3)])
  have k: "k \<le> length ?xs" "\<And>j. j < k \<Longrightarrow> fst (?xs ! j) \<noteq> QEvent e" using Suc.prems(4,5) by (simp_all add: q_def)
  have "RNGINC ?ix = getix q \<longleftrightarrow> k = 127" by (rule getix_wrap[OF len(2) Suc.prems(3)])
  then have wrap: "Suc (getix q + k) mod 128 = getix q \<longleftrightarrow> k = 127" unfolding RNGINC_pos by simp
  have gm: "getix q mod 128 = getix q" using len(2) by simp
  have fin: "\<exists>s' q'. Some st = Some (setSub e s' (setQue ?i q' st)) \<and> ctl s' = ctl s \<and> npend s' = 0 \<and> pLastLog s' = None
     \<and> getix q' = getix q \<and> rings_ok ((queues st)[?i := q']) ((subs st)(e \<mapsto> s')) \<and> view q' = mark e ?xs"
    if no: "e \<notin> set (evl ?xs)"
  proof -
    have "npend s = 0" using npend_evl[OF lo] no by simp
    moreover then have "pLastLog s = None" using lo by (simp add: logOk_def)
    ultimately show ?thesis using Suc.prems(1,2) i mark_none[OF no]
      by (intro exI[of _ s] exI[of _ q]) (simp add: q_def setSub_same setQue_same map_upd_triv)
  qed
  show ?case
  proof (cases "k < length ?xs")
    case False
    then have "e \<notin> set (evl ?xs)" using k by (auto simp: evl_at)
    then show ?thesis using fin q0 sl False unfolding q_def[symmetric]
      by (simp add: purgeLoop.simps[of e ?i ?ix st])
  next
    case kl: True
    have ne: "fst (?xs ! k) \<noteq> QEmpty" using rep_nonempty[OF r, of "?xs ! k"] kl by simp
    show ?thesis
    proof (cases "fst (?xs ! k) = QEvent e")
      case False
      have k': "\<And>j. j < Suc k \<Longrightarrow> fst (?xs ! j) \<noteq> QEvent e" using k(2) False by (metis less_Suc_eq)
      have step: "purgeLoop e ?i ?ix st = (if k = 127 then Some st else purgeLoop e ?i ((getix q + Suc k) mod 128) st)"
        using q0 sl kl ne False by (simp add: purgeLoop.simps[of e ?i ?ix st] wrap gm RNGINC_pos)
      show ?thesis
      proof (cases "k = 127")
        case True
        then have "length ?xs = 128" using kl len by simp
        then have "e \<notin> set (evl ?xs)" using k' True by (auto simp: evl_at)
        then show ?thesis using fin step True unfolding q_def[symmetric] by simp
      next
        case False
        have a: "n = 128 - Suc k" "Suc k < 128" "Suc k \<le> length (view (queues st ! ev_que s))"
          using Suc.hyps(2) False Suc.prems(3) kl by (auto simp: q_def)
        show ?thesis using Suc.hyps(1)[OF a(1) Suc.prems(1,2) a(2,3)] k' step False unfolding q_def[symmetric] by simp
      qed
    next
      case True
      then obtain l where l: "?xs ! k = (QEvent e, l)" by (metis prod.collapse)
      obtain q' where nc: "word_of_nat (nCanceled q) < (65535 :: 16 word)" and ev: "event_remove ?i ?ix QCanceled (setQue ?i (q\<lparr>nCanceled := nCanceled q + 1\<rparr>) st)
            = Some (setSub e (dropped s) (setQue ?i q' st))"
          and g: "getix q' = getix q" and ok': "rings_ok ((queues st)[?i := q']) ((subs st)(e \<mapsto> dropped s))"
          and v: "view q' = ?xs[k := (QCanceled, l)]"
        using purge_step[OF Suc.prems(1,2), of k l] kl l k(2) unfolding q_def[symmetric] by blast
      let ?st = "setSub e (dropped s) (setQue ?i q' st)"
      have step: "purgeLoop e ?i ?ix st = (if k = 127 then Some ?st else purgeLoop e ?i ((getix q + Suc k) mod 128) ?st)"
        using q0 sl kl True nc ev by (simp add: purgeLoop.simps[of e ?i ?ix st] wrap gm RNGINC_pos)
      have m: "mark e (view q') = mark e ?xs" using mark_update[OF kl l] v by simp
      have k': "fst (view q' ! j) \<noteq> QEvent e" if "j < Suc k" for j
        using that k(2)[of j] kl by (cases "j = k") (auto simp: v)
      have lo': "logOk e (dropped s) (getix q') (view q')"
        using rings_que[OF ok', of e "dropped s"] i by simp
      show ?thesis
      proof (cases "k = 127")
        case True
        then have "length (view q') = 128" using kl len v by simp
        then have no: "e \<notin> set (evl (view q'))" using k' True by (auto simp: evl_at)
        then have "npend (dropped s) = 0" using npend_evl[OF lo'] by blast
        then show ?thesis using step True ok' g m mark_none[OF no] lo' unfolding q_def[symmetric]
          by (intro exI[of _ "dropped s"] exI[of _ q']) (simp add: logOk_def)
      next
        case False
        have q1: "queues ?st ! ev_que (dropped s) = q'" using i by simp
        have a: "n = 128 - Suc k" "rings_ok (queues ?st) (subs ?st)" "subs ?st e = Some (dropped s)" "Suc k < 128"
            "Suc k \<le> length (view (queues ?st ! ev_que (dropped s)))"
          using Suc.hyps(2) False Suc.prems(3) kl ok' v unfolding q1 by simp_all
        have k2: "\<And>j. j < Suc k \<Longrightarrow> fst (view (queues ?st ! ev_que (dropped s)) ! j) \<noteq> QEvent e" unfolding q1 by (rule k')
        show ?thesis using Suc.hyps(1)[OF a k2] step False g m i unfolding q_def[symmetric] q1 by simp
      qed
    qed
  qed
qed

lemma cancelPurge_ok:
  assumes ok: "rings_ok (queues st) (subs st)" and s: "subs st e = Some s"
  shows "\<exists>s' q'. cancelPurge self e st = Some ((setSub e s' (setQue (ev_que s) q' st))
        \<lparr>pSuicideEvent := (if self then Some e else pSuicideEvent st)\<rparr>)
     \<and> ctl s' = (ctl s)\<lparr>user_sub := None\<rparr> \<and> npend s' = 0 \<and> rings_ok ((queues st)[ev_que s := q']) ((subs st)(e \<mapsto> s'))
     \<and> view q' = mark e (view (queues st ! ev_que s))"
proof -
  let ?s = "s\<lparr>user_sub := None\<rparr>" and ?i = "ev_que s"
  let ?st = "setSub e ?s st" and ?q = "queues st ! ev_que s"
  have i: "?i < length (queues st)" and r: "rep ?q (view ?q)" using rings_que[OF ok s] by auto
  have ok1: "rings_ok (queues ?st) (subs ?st)" using rings_sub[OF ok s, of ?s] by simp
  have g: "getix ?q mod 128 = getix ?q" using rep_lens[OF r] by simp
  obtain s' q' where p: "purgeLoop e ?i (getix ?q) ?st = Some (setSub e s' (setQue ?i q' ?st))" "ctl s' = ctl ?s" "npend s' = 0"
      "rings_ok ((queues ?st)[?i := q']) ((subs ?st)(e \<mapsto> s'))" "view q' = mark e (view ?q)"
    using purge_loop[OF ok1, of e ?s 0] g by auto
  have "cancelPurge self e st = Some ((setSub e s' (setQue ?i q' st))\<lparr>pSuicideEvent := (if self then Some e else pSuicideEvent st)\<rparr>)"
    using s i p by (simp add: cancelPurge_def)
  moreover have "ctl ?s = (ctl s)\<lparr>user_sub := None\<rparr>" by (simp add: ctl_def)
  ultimately show ?thesis using p by auto
qed

text \<open>A subscription without entries can be freed.\<close>

lemma members_remove: "sb e = Some s \<Longrightarrow> members (sb(e := None)) i = members sb i - (if ev_que s = i then {e} else {})"
  by (auto simp: members_def)

lemma quota_back: "0 < c \<Longrightarrow> c \<le> 31 \<Longrightarrow> ushortMinus (4 * c) 4 = 4 * (c - 1)"
  by (cases c) (simp_all add: ushortMinus_eq)

lemma cancelEnd_ok:
  assumes ok: "rings_ok (queues st) (subs st)" and s: "subs st e = Some s" and n: "npend s = 0"
  shows "\<exists>q'. cancelEnd e st = Some ((setQue (ev_que s) q' st)\<lparr>subs := (subs st)(e := None)\<rparr>)
     \<and> rings_ok ((queues st)[ev_que s := q']) ((subs st)(e := None)) \<and> view q' = view (queues st ! ev_que s)
     \<and> nDuplicates q' = nDuplicates (queues st ! ev_que s)"
proof -
  let ?i = "ev_que s" and ?q = "queues st ! ev_que s"
  define q' where "q' = ?q\<lparr>quota := ushortMinus (quota ?q) 4\<rparr>"
  have i: "?i < length (queues st)" and qo: "queOk (subs st) ?i ?q" and lo: "logOk e s (getix ?q) (view ?q)"
    using rings_que[OF ok s] by auto
  have v: "view q' = view ?q" by (simp add: q'_def view_def)
  have fin: "finite (dom (subs st))" using ok by (simp add: rings_ok_def)
  have e: "e \<in> members (subs st) ?i" "e \<notin> set (evl (view ?q))" using s npend_evl[OF lo] n by (auto simp: members_iff)
  have m: "members ((subs st)(e := None)) j = members (subs st) j - (if ?i = j then {e} else {})" for j
    by (rule members_remove[of "subs st"]) (rule s)
  let ?c = "card (members (subs st) ?i)"
  have "0 < ?c" using e(1) members_finite[OF fin] by (auto simp: card_gt_0_iff)
  moreover have "quota ?q = 4 * ?c" "quota ?q \<le> 124" using qo unfolding queOk_def by blast+
  moreover have "card (members ((subs st)(e := None)) ?i) = ?c - 1" using e(1) members_finite[OF fin] unfolding m by simp
  ultimately have quo: "quota q' = 4 * card (members ((subs st)(e := None)) ?i)" "quota q' \<le> 124"
    using quota_back[of ?c] by (simp_all add: q'_def)
  have qi: "queOk ((subs st)(e := None)) ?i q'"
    using qo e(2) quo unfolding queOk_def v m by (auto simp: q'_def countsOk_def)
  have "queOk ((subs st)(e := None)) j ((queues st)[?i := q'] ! j)" if "j < length (queues st)" for j
  proof (cases "j = ?i")
    case True
    then show ?thesis using qi i by simp
  next
    case False
    then have nth: "(queues st)[?i := q'] ! j = queues st ! j" by simp
    have "queOk (subs st) j (queues st ! j)" by (rule rings_at[OF ok that])
    moreover have "members ((subs st)(e := None)) j = members (subs st) j" using m[of j] False by simp
    ultimately show ?thesis unfolding nth queOk_def by simp
  qed
  moreover have "logOk e' t (getix ((queues st)[?i := q'] ! ev_que t)) (view ((queues st)[?i := q'] ! ev_que t)) \<and> ev_que t < length (queues st)"
    if "subs st e' = Some t" for e' t
  proof (cases "ev_que t = ?i")
    case True
    then show ?thesis using rings_que[OF ok that] i v by (simp add: q'_def)
  next
    case False
    then show ?thesis using rings_que[OF ok that] by simp
  qed
  ultimately have "rings_ok ((queues st)[?i := q']) ((subs st)(e := None))"
    unfolding rings_ok_def using fin by (auto split: if_splits)
  then show ?thesis using s i v by (intro exI[of _ q']) (simp add: cancelEnd_def q'_def)
qed

section \<open>Adding\<close>

lemma findQue_some: "findQue qs = Some i \<Longrightarrow> i < length qs \<and> quota (qs ! i) + nCanceled (qs ! i) < 124"
  by (induction qs arbitrary: i) (auto split: if_splits)

lemma members_add: "sb e = None \<Longrightarrow> members (sb(e \<mapsto> s)) i = members sb i \<union> (if ev_que s = i then {e} else {})"
  by (auto simp: members_def)

lemma rings_new_que:
  assumes ok: "rings_ok qs sb"
  shows "rings_ok (qs @ [newQue]) sb"
proof -
  have v: "view newQue = []" by (rule rep_view[OF rep_new])
  have "members sb (length qs) = {}" using ok by (force simp: members_def rings_ok_def)
  moreover have f: "quota newQue = 0" "nDuplicates newQue = 0" "nCanceled newQue = 0" by (simp_all add: newQue_def)
  ultimately have "queOk sb (length qs) newQue" using rep_new by (simp add: queOk_def v countsOk_def f)
  then show ?thesis using ok unfolding rings_ok_def by (auto simp: nth_append less_Suc_eq)
qed

lemma rings_add:
  assumes ok: "rings_ok qs sb" and e: "sb e = None" and i: "ev_que s < length qs" and room: "quota (qs ! ev_que s) < 124"
    and n: "npend s = 0" "pLastLog s = None"
  defines "q' \<equiv> (qs ! ev_que s)\<lparr>quota := ushort (quota (qs ! ev_que s) + 4)\<rparr>"
  shows "rings_ok (qs[ev_que s := q']) (sb(e \<mapsto> s)) \<and> view q' = view (qs ! ev_que s)"
proof -
  let ?i = "ev_que s" and ?q = "qs ! ev_que s"
  have v: "view q' = view ?q" by (simp add: q'_def view_def)
  have fin: "finite (dom sb)" using ok by (simp add: rings_ok_def)
  have qo: "queOk sb ?i ?q" by (rule rings_at[OF ok i])
  have m: "members (sb(e \<mapsto> s)) j = members sb j \<union> (if ?i = j then {e} else {})" for j
    using members_add[of sb e s j] e by simp
  have ne: "e \<notin> members sb j" for j using e by (auto simp: members_def)
  have quo: "quota ?q = 4 * card (members sb ?i)" using qo by (simp add: queOk_def)
  then have "quota q' = 4 * card (members (sb(e \<mapsto> s)) ?i)" "quota q' \<le> 124"
    using room ne members_finite[OF fin] unfolding m by (auto simp: q'_def ushort_mod)
  then have qi: "queOk (sb(e \<mapsto> s)) ?i q'"
    using qo unfolding queOk_def v m by (auto simp: q'_def countsOk_def)
  have "queOk (sb(e \<mapsto> s)) j (qs[?i := q'] ! j)" if "j < length qs" for j
  proof (cases "j = ?i")
    case True
    then show ?thesis using qi i by simp
  next
    case False
    then have nth: "qs[?i := q'] ! j = qs ! j" by simp
    have "queOk sb j (qs ! j)" by (rule rings_at[OF ok that])
    moreover have "members (sb(e \<mapsto> s)) j = members sb j" using m[of j] False by simp
    ultimately show ?thesis unfolding nth queOk_def by simp
  qed
  moreover have "e \<notin> set (evl (view ?q))" using rings_event[OF ok i, of e] e by auto
  then have "logOk e s (getix q') (view q')" using n by (simp add: logOk_def v)
  moreover have "logOk e' t (getix (qs[?i := q'] ! ev_que t)) (view (qs[?i := q'] ! ev_que t)) \<and> ev_que t < length qs"
    if "sb e' = Some t" for e' t
  proof (cases "ev_que t = ?i")
    case True
    then show ?thesis using rings_que[OF ok that] i v by (simp add: q'_def)
  next
    case False
    then show ?thesis using rings_que[OF ok that] by simp
  qed
  ultimately show ?thesis unfolding rings_ok_def using fin i v by auto
qed

text \<open>The subscription \<open>db_add_event\<close> makes.\<close>

lemma add_ok:
  assumes ok: "rings_ok (queues st) (subs st)" and new: "\<And>e. pevent = Some e \<Longrightarrow> subs st e = None"
  shows "db_add_event pevent m pa f arg sel st = Some (None, st) \<or>
     (\<exists>e i st1 s q'. pevent = Some e \<and> (st1 = st \<or> st1 = st\<lparr>queues := queues st @ [newQue]\<rparr> \<and> i = length (queues st)) \<and> i < length (queues st1)
        \<and> db_add_event pevent m pa f arg sel st = Some (Some e, setSub e s (setQue i q' st1))
        \<and> s = \<lparr>paddr = pa, user_sub = f, user_arg = arg, ev_que = i, pLastLog = None, npend = 0, nreplace = 0, select = sel,
              valque = (no_elements pa = 1 \<and> field_size pa \<le> 8), callBackInProgress = False, enabled = False\<rparr>
        \<and> rings_ok ((queues st1)[i := q']) ((subs st)(e \<mapsto> s)) \<and> view q' = view (queues st1 ! i) \<and> nDuplicates q' = nDuplicates (queues st1 ! i))"
proof (cases "sel = 0 \<or> sel > 255 \<or> pevent = None")
  case True
  then show ?thesis by (auto simp: db_add_event_def)
next
  case False
  then obtain e where e: "pevent = Some e" by auto
  note se = new[OF e]
  have sel: "\<not> (sel = 0 \<or> sel > 255)" using False by simp
  let ?s = "\<lambda>i. \<lparr>paddr = pa, user_sub = f, user_arg = arg, ev_que = i, pLastLog = None, npend = 0, nreplace = 0, select = sel,
              valque = (no_elements pa = 1 \<and> field_size pa \<le> 8), callBackInProgress = False, enabled = False\<rparr>"
  show ?thesis
  proof (cases "findQue (queues st)")
    case (Some i)
    have i: "i < length (queues st)" "quota (queues st ! i) < 124" using findQue_some[OF Some] by auto
    have "rings_ok ((queues st)[ev_que (?s i) := (queues st ! ev_que (?s i))\<lparr>quota := ushort (quota (queues st ! ev_que (?s i)) + 4)\<rparr>])
        ((subs st)(e \<mapsto> ?s i)) \<and> view ((queues st ! ev_que (?s i))\<lparr>quota := ushort (quota (queues st ! ev_que (?s i)) + 4)\<rparr>) = view (queues st ! ev_que (?s i))"
      by (rule rings_add[where s = "?s i"]) (use ok se i in simp_all)
    then show ?thesis using Some e i sel
      by (intro disjI2 exI[of _ e] exI[of _ i] exI[of _ st] exI[of _ "?s i"]
            exI[of _ "(queues st ! i)\<lparr>quota := ushort (quota (queues st ! i) + 4)\<rparr>"]) (simp add: db_add_event_def Let_def)
  next
    case None
    show ?thesis
    proof (cases m)
      case False
      then show ?thesis using None e by (simp add: db_add_event_def)
    next
      case True
      let ?st = "st\<lparr>queues := queues st @ [newQue]\<rparr>" and ?i = "length (queues st)"
      have ok': "rings_ok (queues ?st) (subs st)" using rings_new_que[OF ok] by simp
      have q: "queues ?st ! ?i = newQue" by simp
      have "rings_ok ((queues ?st)[ev_que (?s ?i) := (queues ?st ! ev_que (?s ?i))\<lparr>quota := ushort (quota (queues ?st ! ev_que (?s ?i)) + 4)\<rparr>])
        ((subs st)(e \<mapsto> ?s ?i)) \<and> view ((queues ?st ! ev_que (?s ?i))\<lparr>quota := ushort (quota (queues ?st ! ev_que (?s ?i)) + 4)\<rparr>) = view (queues ?st ! ev_que (?s ?i))"
        by (rule rings_add[where s = "?s ?i"]) (use ok' se in \<open>simp_all add: newQue_def\<close>)
      then show ?thesis using None e True sel
        by (intro disjI2 exI[of _ e] exI[of _ ?i] exI[of _ ?st] exI[of _ "?s ?i"]
            exI[of _ "newQue\<lparr>quota := ushort (quota newQue + 4)\<rparr>"]) (simp add: db_add_event_def Let_def queAt_def)
    qed
  qed
qed

end
