(* ===== verification/DbEventRead.thy ===== *)
theory DbEventRead
  imports DbEventCancel
begin

text \<open>The reading loop of the event task on states that satisfy the invariant of the rings.\<close>

section \<open>One entry\<close>

lemma pop_cancel:
  assumes ok: "rings_ok qs sb" and i: "i < length qs" and v: "view (qs ! i) = (QCanceled, l) # xs"
  defines "q \<equiv> qs ! i"
  defines "q' \<equiv> q\<lparr>evque := (evque q)[getix q := QEmpty], getix := RNGINC (getix q), nCanceled := nCanceled q - 1\<rparr>"
  shows "0 < nCanceled q \<and> rings_ok (qs[i := q']) sb \<and> view q' = xs"
proof -
  have qo: "queOk sb i q" using rings_at[OF ok i] by (simp add: q_def)
  have r: "rep q ((QCanceled, l) # xs)" and co: "countsOk q ((QCanceled, l) # xs)" and mem: "set (evl xs) \<subseteq> members sb i"
    using qo v by (auto simp: queOk_def q_def)
  have g: "getix q < 128" using rep_lens[OF r] by simp
  have r': "rep q' xs" using rep_pop[OF r] by (simp add: q'_def)
  have "rings_ok (qs[i := q']) sb"
  proof (rule rings_change[OF ok i r'])
    show "countsOk q' xs" using co by (simp add: countsOk_def q'_def)
    show "set (evl xs) \<subseteq> members sb i" by (rule mem)
    show "quota q' = quota (qs ! i)" by (simp add: q'_def q_def)
    fix e t t'
    assume t: "sb e = Some t" "sb e = Some t'"
    have "logOk e t (RNGINC (getix q)) xs" if "ev_que t = i"
      by (rule logOk_pop[of e t "getix q" "(QCanceled, l)"]) (use rings_que[OF ok t(1)] that v g in \<open>auto simp: q_def\<close>)
    then show "ev_que t' = ev_que t \<and> (ev_que t \<noteq> i \<longrightarrow> t' = t) \<and> (ev_que t = i \<longrightarrow> logOk e t' (getix q') xs)"
      using t by (simp add: q'_def)
  qed simp
  then show ?thesis using co rep_view[OF r'] by (simp add: countsOk_def)
qed

lemma pop_event:
  assumes ok: "rings_ok (queues st) (subs st)" and i: "i < length (queues st)"
    and v: "view (queues st ! i) = (QEvent e, l) # xs" and s: "subs st e = Some s"
  defines "q \<equiv> queues st ! i"
  shows "ev_que s = i \<and> (\<exists>q1. event_remove i (getix q) QEmpty st = Some (setSub e (dropped s) (setQue i q1 st))
     \<and> rings_ok ((queues st)[i := q1\<lparr>getix := RNGINC (getix q1)\<rparr>]) ((subs st)(e \<mapsto> dropped s))
     \<and> view (q1\<lparr>getix := RNGINC (getix q1)\<rparr>) = xs)"
proof -
  have ei: "ev_que s = i" using rings_event[OF ok i, of e] v s by auto
  have qo: "queOk (subs st) i q" using rings_at[OF ok i] by (simp add: q_def)
  have r: "rep q ((QEvent e, l) # xs)" and co: "countsOk q ((QEvent e, l) # xs)" and mem: "set (evl xs) \<subseteq> members (subs st) i"
    using qo v by (auto simp: queOk_def q_def)
  have g: "getix q < 128" using rep_lens[OF r] by simp
  have lo: "logOk e s (getix q) ((QEvent e, l) # xs)" using rings_que[OF ok s] ei v by (simp add: q_def)
  have ein: "e \<in> set (evl ((QEvent e, l) # xs))" by simp
  define q1 where "q1 = lessDup s (q\<lparr>evque := (evque q)[getix q := QEmpty]\<rparr>)"
  let ?q' = "q1\<lparr>getix := RNGINC (getix q1)\<rparr>"
  have rm: "event_remove i (getix q) QEmpty st = Some (setSub e (dropped s) (setQue i q1 st))"
    unfolding q1_def
  proof (rule event_remove_eq)
    show "queAt i st = Some q" using i by (simp add: q_def)
    show "slotAt q (getix q) = Some (QEvent e)" using rep_front[OF r] by simp
    show "0 < npend s" using npend_evl[OF lo] by simp
    show "npend s \<noteq> 1 \<Longrightarrow> 0 < nDuplicates q" by (rule dup_pos[OF co lo ein])
  qed (rule s)
  have r': "rep ?q' xs" using rep_pop[OF r] by (simp add: q1_def)
  have "rings_ok ((queues st)[i := ?q']) ((subs st)(e \<mapsto> dropped s))"
  proof (rule rings_change[OF ok i r'])
    show "countsOk ?q' xs"
    proof (rule lessDup_counts[OF co lo, of "[]" "evl xs"])
      show "nCanceled ?q' = cancels xs" using co by (simp add: q1_def countsOk_def)
    qed (simp_all add: q1_def lessDup_def)
    show "set (evl xs) \<subseteq> members (subs st) i" by (rule mem)
    show "quota ?q' = quota (queues st ! i)" by (simp add: q1_def q_def)
    show "dom ((subs st)(e \<mapsto> dropped s)) = dom (subs st)" using s by auto
    fix e' t t'
    assume t: "subs st e' = Some t" "((subs st)(e \<mapsto> dropped s)) e' = Some t'"
    have gq: "getix ?q' = RNGINC (getix q)" by (simp add: q1_def)
    show "ev_que t' = ev_que t \<and> (ev_que t \<noteq> i \<longrightarrow> t' = t) \<and> (ev_que t = i \<longrightarrow> logOk e' t' (getix ?q') xs)"
    proof (cases "e' = e")
      case True
      then have "t = s" "t' = dropped s" using t s by simp_all
      moreover have "logOk e (dropped s) (RNGINC (getix q)) xs" by (rule logOk_pop_same[OF lo g]) simp_all
      ultimately show ?thesis using True ei unfolding gq by simp
    next
      case False
      have "t' = t" using t False by simp
      moreover have "logOk e' t (RNGINC (getix q)) xs" if "ev_que t = i"
        by (rule logOk_pop[of e' t "getix q" "(QEvent e, l)"]) (use rings_que[OF ok t(1)] that v g False in \<open>auto simp: q_def\<close>)
      ultimately show ?thesis unfolding gq by simp
    qed
  qed
  then show ?thesis using ei rm rep_view[OF r'] by auto
qed

section \<open>The loop\<close>

text \<open>
  What the loop does to the entries: cancelled places and subscriptions without a callback are skipped up
  to the first one with a callback.
\<close>

fun nextCall :: "(addr \<rightharpoonup> evSubscrip) \<Rightarrow> entry list \<Rightarrow> (addr \<times> db_field_log) option \<times> entry list" where
  "nextCall sb [] = (None, [])"
| "nextCall sb ((QEvent e, l) # xs) =
     (if Option.bind (sb e) user_sub \<noteq> None then (Some (e, l), xs) else nextCall sb xs)"
| "nextCall sb (_ # xs) = nextCall sb xs"

definition sameCtl :: "(addr \<rightharpoonup> evSubscrip) \<Rightarrow> (addr \<rightharpoonup> evSubscrip) \<Rightarrow> bool" where
  "sameCtl sb' sb \<longleftrightarrow> (\<forall>e. map_option ctl (sb' e) = map_option ctl (sb e))"

lemma sameCtl_refl [simp]: "sameCtl sb sb"
  by (simp add: sameCtl_def)

lemma sameCtl_trans: "sameCtl a b \<Longrightarrow> sameCtl b c \<Longrightarrow> sameCtl a c"
  by (simp add: sameCtl_def)

lemma sameCtl_upd: "sb e = Some s \<Longrightarrow> ctl s' = ctl s \<Longrightarrow> sameCtl (sb(e \<mapsto> s')) sb"
  by (simp add: sameCtl_def)

lemma sameCtl_user: "sameCtl sb' sb \<Longrightarrow> Option.bind (sb' e) user_sub = Option.bind (sb e) user_sub"
proof -
  assume "sameCtl sb' sb"
  then have "map_option ctl (sb' e) = map_option ctl (sb e)" by (simp add: sameCtl_def)
  then show ?thesis by (cases "sb' e"; cases "sb e") (auto dest: ctl_same)
qed

lemma nextCall_same: "sameCtl sb' sb \<Longrightarrow> nextCall sb' xs = nextCall sb xs"
  by (induction sb xs rule: nextCall.induct) (simp_all add: sameCtl_user)

text \<open>The callback the loop makes, and the flag it sets.\<close>

definition callsFor :: "(addr \<rightharpoonup> evSubscrip) \<Rightarrow> (addr \<times> db_field_log) option \<Rightarrow> bool \<Rightarrow> usercall list" where
  "callsFor sb c again = (case c of None \<Rightarrow> []
     | Some (e, l) \<Rightarrow> (case sb e of None \<Rightarrow> []
        | Some s \<Rightarrow> [Deliver e (the (user_sub s)) (user_arg s) (paddr s) again (if valque s then Some l else None)]))"

definition flagFor :: "(addr \<rightharpoonup> evSubscrip) \<Rightarrow> (addr \<times> db_field_log) option \<Rightarrow> addr \<rightharpoonup> evSubscrip" where
  "flagFor sb c = (case c of None \<Rightarrow> sb
     | Some (e, l) \<Rightarrow> (case sb e of None \<Rightarrow> sb | Some s \<Rightarrow> sb(e \<mapsto> s\<lparr>callBackInProgress := True\<rparr>)))"

lemma ctl_flag: "ctl (s\<lparr>callBackInProgress := b\<rparr>) = (ctl s)\<lparr>callBackInProgress := b\<rparr>"
  by (simp add: ctl_def)

lemma flagFor_same: "sameCtl sb' sb \<Longrightarrow> sameCtl (flagFor sb' c) (flagFor sb c)"
proof -
  assume sc: "sameCtl sb' sb"
  then have eq: "map_option ctl (sb' e) = map_option ctl (sb e)" for e by (simp add: sameCtl_def)
  show ?thesis
  proof (cases c)
    case (Some el)
    obtain e l where el: "el = (e, l)" by (cases el)
    show ?thesis using sc eq[of e] unfolding Some el
      by (cases "sb' e"; cases "sb e") (auto simp: flagFor_def sameCtl_def ctl_flag)
  qed (use sc in \<open>simp add: flagFor_def\<close>)
qed

lemma callsFor_same: "sameCtl sb' sb \<Longrightarrow> callsFor sb' c again = callsFor sb c again"
proof -
  assume "sameCtl sb' sb"
  then have eq: "map_option ctl (sb' e) = map_option ctl (sb e)" for e by (simp add: sameCtl_def)
  show ?thesis
  proof (cases c)
    case (Some el)
    obtain e l where el: "el = (e, l)" by (cases el)
    show ?thesis using eq[of e] unfolding Some el
      by (cases "sb' e"; cases "sb e") (auto simp: callsFor_def dest: ctl_same)
  qed (simp add: callsFor_def)
qed

lemma state_eq: "setSub e s (setQue i q st) = st\<lparr>queues := (queues st)[i := q], subs := (subs st)(e \<mapsto> s)\<rparr>"
  by (simp add: setSub_def setQue_def)

theorem readLoop_ok:
  assumes "rings_ok (queues st) (subs st)" "i < length (queues st)"
  shows "\<exists>q' sb'. readLoop i st = Some (map_option fst (fst (nextCall (subs st) (view (queues st ! i)))),
        st\<lparr>queues := (queues st)[i := q'], subs := sb',
           calls := calls st @ callsFor (subs st) (fst (nextCall (subs st) (view (queues st ! i)))) (view q' \<noteq> [])\<rparr>)
     \<and> view q' = snd (nextCall (subs st) (view (queues st ! i)))
     \<and> sameCtl sb' (flagFor (subs st) (fst (nextCall (subs st) (view (queues st ! i)))))
     \<and> rings_ok ((queues st)[i := q']) sb'"
  using assms
proof (induction "view (queues st ! i)" arbitrary: st)
  case Nil
  have r: "rep (queues st ! i) []" using rings_at[OF Nil.prems] Nil.hyps by (simp add: queOk_def)
  obtain fl where "logAt (queues st ! i) (getix (queues st ! i)) = Some fl" using rep_front_log[OF r] by blast
  then have "readLoop i st = Some (None, st)"
    using Nil.prems rep_front[OF r] by (simp add: readLoop.simps[of i st])
  then show ?case using Nil.prems Nil.hyps[symmetric]
    by (intro exI[of _ "queues st ! i"] exI[of _ "subs st"]) (simp add: callsFor_def flagFor_def)
next
  case (Cons x xs)
  let ?q = "queues st ! i"
  have v: "view ?q = x # xs" using Cons.hyps(2) by simp
  have r: "rep ?q (x # xs)" using rings_at[OF Cons.prems] v by (simp add: queOk_def)
  obtain k l where x: "x = (k, l)" by (cases x)
  have fl: "logAt ?q (getix ?q) = Some l" using rep_front_log[OF r] x by auto
  have q0: "queAt i st = Some ?q" using Cons.prems by simp
  have sl: "slotAt ?q (getix ?q) = Some k" using rep_front[OF r] x by simp
  show ?case
  proof (cases k)
    case QEmpty
    then show ?thesis using rep_nonempty[OF r, of x] x by simp
  next
    case QCanceled
    let ?q1 = "?q\<lparr>evque := (evque ?q)[getix ?q := QEmpty], getix := RNGINC (getix ?q), nCanceled := nCanceled ?q - 1\<rparr>"
    let ?st = "setQue i ?q1 st"
    have p: "0 < nCanceled ?q" "rings_ok ((queues st)[i := ?q1]) (subs st)" "view ?q1 = xs"
      using pop_cancel[OF Cons.prems, of l xs] v x QCanceled by auto
    have step: "readLoop i st = readLoop i ?st"
      using q0 sl fl QCanceled p(1) by (simp add: readLoop.simps[of i st])
    have n: "nextCall (subs st) (view ?q) = nextCall (subs st) xs" using v x QCanceled by simp
    have qi: "queues ?st ! i = ?q1" using Cons.prems(2) by simp
    have 1: "xs = view (queues ?st ! i)" "rings_ok (queues ?st) (subs ?st)" "i < length (queues ?st)"
      using p Cons.prems(2) unfolding qi by simp_all
    show ?thesis using Cons.hyps(1)[OF 1] unfolding step n qi p(3) by (simp add: setQue_def)
  next
    case (QEvent e)
    have "e \<in> set (evl (view ?q))" using v x QEvent by simp
    then obtain s where s: "subs st e = Some s" using rings_event[OF Cons.prems] by blast
    obtain q1 where rm: "event_remove i (getix ?q) QEmpty st = Some (setSub e (dropped s) (setQue i q1 st))"
        and ok1: "rings_ok ((queues st)[i := q1\<lparr>getix := RNGINC (getix q1)\<rparr>]) ((subs st)(e \<mapsto> dropped s))"
        and v1: "view (q1\<lparr>getix := RNGINC (getix q1)\<rparr>) = xs"
      using pop_event[OF Cons.prems _ s, of l xs] v x QEvent by auto
    let ?q2 = "q1\<lparr>getix := RNGINC (getix q1)\<rparr>"
    let ?st = "setSub e (dropped s) (setQue i ?q2 st)"
    have qi: "queues ?st ! i = ?q2" using Cons.prems(2) by simp
    have step: "readLoop i st = (case user_sub s of None \<Rightarrow> readLoop i ?st
        | Some f \<Rightarrow> do {
            s1 \<leftarrow> subs ?st e;
            q2 \<leftarrow> queAt i ?st;
            sl2 \<leftarrow> slotAt q2 (getix q2);
            Some (Some e, (setSub e (s1\<lparr>callBackInProgress := True\<rparr>) ?st)
               \<lparr>calls := calls ?st @ [Deliver e f (user_arg s1) (paddr s1) (sl2 \<noteq> QEmpty) (if valque s then Some l else None)]\<rparr>) })"
      using q0 sl fl QEvent s rm Cons.prems(2)
      by (cases "user_sub s") (simp_all add: readLoop.simps[of i st] Let_def)
    have ok2: "rings_ok (queues ?st) (subs ?st)" using ok1 by simp
    have sc: "sameCtl (subs ?st) (subs st)" using sameCtl_upd[of "subs st" e s "dropped s"] s by simp
    show ?thesis
    proof (cases "user_sub s")
      case None
      have n: "nextCall (subs st) (view ?q) = nextCall (subs st) xs" using v x QEvent s None by simp
      have 1: "xs = view (queues ?st ! i)" "i < length (queues ?st)"
        using v1 Cons.prems(2) unfolding qi by simp_all
      let ?c = "nextCall (subs st) xs"
      have nc: "nextCall (subs ?st) xs = ?c" by (rule nextCall_same[OF sc])
      obtain q' sb' where h: "readLoop i ?st = Some (map_option fst (fst ?c), ?st\<lparr>queues := (queues ?st)[i := q'], subs := sb',
             calls := calls ?st @ callsFor (subs ?st) (fst ?c) (view q' \<noteq> [])\<rparr>)"
          "view q' = snd ?c" "sameCtl sb' (flagFor (subs ?st) (fst ?c))" "rings_ok ((queues ?st)[i := q']) sb'"
        using Cons.hyps(1)[OF 1(1) ok2 1(2)] unfolding qi v1 nc by blast
      have "readLoop i st = Some (map_option fst (fst ?c), st\<lparr>queues := (queues st)[i := q'], subs := sb',
             calls := calls st @ callsFor (subs st) (fst ?c) (view q' \<noteq> [])\<rparr>)"
        using step None h(1) callsFor_same[OF sc] by (simp add: setSub_def setQue_def)
      moreover have "sameCtl sb' (flagFor (subs st) (fst ?c))"
        by (rule sameCtl_trans[OF h(3) flagFor_same[OF sc]])
      ultimately show ?thesis using h(2,4) unfolding n by (intro exI[of _ q'] exI[of _ sb']) simp
    next
      case (Some f)
      have n: "nextCall (subs st) (view ?q) = (Some (e, l), xs)" using v x QEvent s Some by simp
      let ?s = "(dropped s)\<lparr>callBackInProgress := True\<rparr>"
      have r2: "rep ?q2 xs" using rings_at[OF ok2, of i] Cons.prems(2) v1 by (simp add: queOk_def)
      have more: "slotAt ?q2 (getix ?q2) = Some (case xs of [] \<Rightarrow> QEmpty | x # _ \<Rightarrow> fst x)" by (rule rep_front[OF r2])
      have ne: "(case xs of [] \<Rightarrow> QEmpty | x # _ \<Rightarrow> fst x) \<noteq> QEmpty \<longleftrightarrow> xs \<noteq> []"
        using rep_nonempty[OF r2] by (cases xs) auto
      have same: "user_arg (dropped s) = user_arg s" "paddr (dropped s) = paddr s"
        using ctl_same[of "dropped s" s] by simp_all
      have rd: "readLoop i st = Some (Some e, st\<lparr>queues := (queues st)[i := ?q2], subs := (subs st)(e \<mapsto> ?s),
          calls := calls st @ callsFor (subs st) (Some (e, l)) (view ?q2 \<noteq> [])\<rparr>)"
        using step Some more ne Cons.prems(2) s same v1
        by (simp add: callsFor_def setSub_def setQue_def)
      have "sameCtl ((subs st)(e \<mapsto> ?s)) (flagFor (subs st) (Some (e, l)))"
        using s by (simp add: flagFor_def sameCtl_def ctl_flag)
      moreover have "rings_ok ((queues st)[i := ?q2]) ((subs st)(e \<mapsto> ?s))"
        using rings_sub[OF ok1, of e "dropped s" ?s] by simp
      ultimately show ?thesis using rd v1 unfolding n
        by (intro exI[of _ ?q2] exI[of _ "(subs st)(e \<mapsto> ?s)"]) simp
    qed
  qed
qed

end
