(* ===== verification/DbEventSystem.thy ===== *)
theory DbEventSystem
  imports DbEventRead
begin

text \<open>
  The event system as a whole: the invariant of the reachable states, and that every operation its
  callers may use returns and keeps it.
\<close>

section \<open>The invariant\<close>

text \<open>The list of monitors of a record holds its enabled subscriptions once each.\<close>

definition monitors_ok :: "(addr \<rightharpoonup> evSubscrip) \<Rightarrow> (addr \<Rightarrow> dbCommon) \<Rightarrow> bool" where
  "monitors_ok sb rs \<longleftrightarrow> (\<forall>r. distinct (mlis (rs r)) \<and>
     (\<forall>e. e \<in> set (mlis (rs r)) \<longleftrightarrow> (\<exists>s. sb e = Some s \<and> enabled s \<and> precord (paddr s) = r)))"

text \<open>
  \<open>callBackInProgress\<close> is set for the subscription whose callback runs, unless it has cancelled itself;
  then it is \<open>pSuicideEvent\<close>.
\<close>

definition callback_ok :: "(addr \<rightharpoonup> evSubscrip) \<Rightarrow> nat \<Rightarrow> taskpc \<Rightarrow> ptr \<Rightarrow> bool" where
  "callback_ok sb n t sui \<longleftrightarrow>
     (\<forall>e s. sb e = Some s \<longrightarrow> callBackInProgress s = ((\<exists>i. t = TCall i e) \<and> sui = None))
     \<and> (\<forall>i e. t = TCall i e \<longrightarrow> i < n \<and> (sui = None \<and> sb e \<noteq> None \<or> sui = Some e))
     \<and> ((\<forall>i e. t \<noteq> TCall i e) \<longrightarrow> sui = None)"

text \<open>A subscription whose cancellation waits has no callback and no entries any more.\<close>

definition closing_ok :: "(addr \<rightharpoonup> evSubscrip) \<Rightarrow> event_que list \<Rightarrow> addr list \<Rightarrow> bool" where
  "closing_ok sb qs cl \<longleftrightarrow> distinct cl \<and> (\<forall>e \<in> set cl. (\<exists>s. sb e = Some s \<and> user_sub s = None \<and> \<not> enabled s)
     \<and> (\<forall>q \<in> set qs. e \<notin> set (evl (view q))))"

text \<open>
  No lost wake-up: a queue with entries is one the task will still come to, or the task is held by flow
  control, or \<open>ppendsem\<close> is full, or a thread is about to signal it.
\<close>

fun willRead :: "taskpc \<Rightarrow> nat \<Rightarrow> bool" where
  "willRead TLabor i = True"
| "willRead (TRead j) i = (j \<le> i)"
| "willRead (TCall j e) i = (j \<le> i)"
| "willRead TExit i = True"
| "willRead _ i = False"

definition wake_ok :: "event_que list \<Rightarrow> bool \<Rightarrow> taskpc \<Rightarrow> bool" where
  "wake_ok qs awake t \<longleftrightarrow> (\<forall>i < length qs. view (qs ! i) \<noteq> [] \<longrightarrow> awake \<or> willRead t i)"

text \<open>With one canceller at a time, one that waits is in a callback or has been signalled.\<close>

definition waiter_ok :: "bool \<Rightarrow> (addr \<rightharpoonup> evSubscrip) \<Rightarrow> addr list \<Rightarrow> bool \<Rightarrow> bool" where
  "waiter_ok one sb cl signalled \<longleftrightarrow> (one \<longrightarrow> length cl \<le> 1 \<and>
     (\<forall>e \<in> set cl. \<forall>s. sb e = Some s \<longrightarrow> callBackInProgress s \<or> signalled))"

definition ev_ok :: "bool \<Rightarrow> dbev \<Rightarrow> bool" where
  "ev_ok one st \<longleftrightarrow> rings_ok (queues st) (subs st) \<and> monitors_ok (subs st) (recs st)
     \<and> callback_ok (subs st) (length (queues st)) (task st) (pSuicideEvent st)
     \<and> closing_ok (subs st) (queues st) (closing st)
     \<and> wake_ok (queues st) (flowCtrlMode st \<or> ppendsem st \<or> 0 < signals st) (task st)
     \<and> waiter_ok one (subs st) (closing st) (pflush_sem st)"

lemma ev_okD:
  assumes "ev_ok one st"
  shows "rings_ok (queues st) (subs st)" "monitors_ok (subs st) (recs st)"
    "callback_ok (subs st) (length (queues st)) (task st) (pSuicideEvent st)"
    "closing_ok (subs st) (queues st) (closing st)"
    "wake_ok (queues st) (flowCtrlMode st \<or> ppendsem st \<or> 0 < signals st) (task st)"
    "waiter_ok one (subs st) (closing st) (pflush_sem st)"
  using assms by (simp_all add: ev_ok_def)

section \<open>Parts that do not change\<close>

lemma sameCtl_some: "sameCtl sb' sb \<Longrightarrow> sb' e = Some s' \<Longrightarrow> \<exists>s. sb e = Some s \<and> ctl s' = ctl s"
proof -
  assume "sameCtl sb' sb" "sb' e = Some s'"
  then have "map_option ctl (sb e) = Some (ctl s')" by (metis option.simps(9) sameCtl_def)
  then show ?thesis by auto
qed

lemma sameCtl_sym: "sameCtl sb' sb \<Longrightarrow> sameCtl sb sb'"
  by (simp add: sameCtl_def)

lemma sameCtl_None: "sameCtl sb' sb \<Longrightarrow> sb' e = None \<longleftrightarrow> sb e = None"
proof -
  assume "sameCtl sb' sb"
  then have "map_option ctl (sb' e) = map_option ctl (sb e)" by (simp add: sameCtl_def)
  then show ?thesis by (metis option.map_disc_iff)
qed

lemma monitors_ctl:
  assumes "sameCtl sb' sb" "monitors_ok sb rs"
  shows "monitors_ok sb' rs"
proof -
  have "(\<exists>s. sb' e = Some s \<and> enabled s \<and> precord (paddr s) = r) \<longleftrightarrow> (\<exists>s. sb e = Some s \<and> enabled s \<and> precord (paddr s) = r)" for e r
  proof -
    have eq: "map_option ctl (sb' e) = map_option ctl (sb e)" using assms(1) by (simp add: sameCtl_def)
    show ?thesis using eq by (cases "sb' e"; cases "sb e") (auto dest!: ctl_same)
  qed
  then show ?thesis using assms(2) by (simp add: monitors_ok_def)
qed

lemma monitors_upd:
  assumes "monitors_ok sb rs" "sb e = Some s" "enabled s' = enabled s" "paddr s' = paddr s"
  shows "monitors_ok (sb(e \<mapsto> s')) rs"
proof -
  have "(\<exists>t. (sb(e \<mapsto> s')) x = Some t \<and> enabled t \<and> precord (paddr t) = r) \<longleftrightarrow> (\<exists>t. sb x = Some t \<and> enabled t \<and> precord (paddr t) = r)" for x r
    using assms(2-4) by (cases "x = e") simp_all
  then show ?thesis using assms(1) by (simp add: monitors_ok_def)
qed

lemma callback_ctl:
  assumes "sameCtl sb' sb" "callback_ok sb n t sui" "n \<le> n'"
  shows "callback_ok sb' n' t sui"
  unfolding callback_ok_def
proof (intro conjI allI impI)
  fix e s'
  assume "sb' e = Some s'"
  then obtain s where s: "sb e = Some s" "ctl s' = ctl s" using sameCtl_some[OF assms(1)] by blast
  then have "callBackInProgress s' = callBackInProgress s" using ctl_same[OF s(2)] by simp
  then show "callBackInProgress s' = ((\<exists>i. t = TCall i e) \<and> sui = None)" using assms(2) s(1) by (simp add: callback_ok_def)
next
  fix i e
  assume t: "t = TCall i e"
  show "i < n'" using t assms(2,3) by (auto simp: callback_ok_def)
  show "sui = None \<and> sb' e \<noteq> None \<or> sui = Some e" using t assms(2) sameCtl_None[OF assms(1)] by (auto simp: callback_ok_def)
qed (use assms(2) in \<open>simp add: callback_ok_def\<close>)

lemma closing_ctl:
  assumes "sameCtl sb' sb" "closing_ok sb qs cl" "\<And>q. q \<in> set qs' \<Longrightarrow> \<exists>q0 \<in> set qs. set (evl (view q)) \<subseteq> set (evl (view q0)) \<union> A"
    "A \<inter> set cl = {}"
  shows "closing_ok sb' qs' cl"
  unfolding closing_ok_def
proof (intro conjI ballI)
  show "distinct cl" using assms(2) by (simp add: closing_ok_def)
  fix e
  assume e: "e \<in> set cl"
  then obtain s where s: "sb e = Some s" "user_sub s = None" "\<not> enabled s" using assms(2) by (auto simp: closing_ok_def)
  then obtain s' where s': "sb' e = Some s'" "ctl s = ctl s'" using sameCtl_some[OF sameCtl_sym[OF assms(1)] s(1)] by blast
  then show "\<exists>s. sb' e = Some s \<and> user_sub s = None \<and> \<not> enabled s" using s ctl_same[OF s'(2)] by simp
  fix q
  assume "q \<in> set qs'"
  then show "e \<notin> set (evl (view q))" using assms(2,3,4) e unfolding closing_ok_def by blast
qed

lemma waiter_ctl:
  assumes "sameCtl sb' sb" "waiter_ok one sb cl sg"
  shows "waiter_ok one sb' cl sg"
proof -
  have "callBackInProgress s' \<or> sg" if "one" "e \<in> set cl" "sb' e = Some s'" for e s'
  proof -
    obtain s where "sb e = Some s" "ctl s' = ctl s" using sameCtl_some[OF assms(1) \<open>sb' e = Some s'\<close>] by blast
    then show ?thesis using assms(2) that ctl_same[of s' s] by (auto simp: waiter_ok_def)
  qed
  then show ?thesis using assms(2) by (auto simp: waiter_ok_def)
qed

lemma set_upd_que: "i < length qs \<Longrightarrow> q \<in> set (qs[i := q']) \<Longrightarrow> q = q' \<or> q \<in> set qs"
  using set_update_subset_insert[of qs i q'] by blast

section \<open>Effects on the other subscriptions\<close>

text \<open>The values of a subscription that are in the ring, oldest first.\<close>

definition pendLogs :: "addr \<Rightarrow> entry list \<Rightarrow> db_field_log list" where
  "pendLogs e xs = map snd (filter (\<lambda>x. fst x = QEvent e) xs)"

lemma pendLogs_simps [simp]:
  "pendLogs e [] = []" "pendLogs e (xs @ ys) = pendLogs e xs @ pendLogs e ys"
  "pendLogs e (x # xs) = (if fst x = QEvent e then snd x # pendLogs e xs else pendLogs e xs)"
  by (simp_all add: pendLogs_def)

lemma pendLogs_none: "pendLogs e xs = [] \<longleftrightarrow> e \<notin> set (evl xs)"
  by (induction xs) (auto split: slot.splits)

lemma pendLogs_update:
  "k < length xs \<Longrightarrow> fst (xs ! k) = QEvent e \<Longrightarrow> x \<noteq> e \<Longrightarrow> pendLogs x (xs[k := (QEvent e, l)]) = pendLogs x xs"
proof -
  assume k: "k < length xs" "fst (xs ! k) = QEvent e" "x \<noteq> e"
  have "pendLogs x xs = pendLogs x (take k xs @ xs ! k # drop (Suc k) xs)" using id_take_nth_drop[OF k(1)] by simp
  then show ?thesis using k by (simp add: upd_conv_take_nth_drop)
qed

lemma pendLogs_mark: "x \<noteq> e \<Longrightarrow> pendLogs x (mark e xs) = pendLogs x xs"
  by (induction xs) auto

lemma postSpec_pend: "postSpec e vq fl f xs ys ov \<Longrightarrow> x \<noteq> e \<Longrightarrow> pendLogs x ys = pendLogs x xs"
proof -
  assume p: "postSpec e vq fl f xs ys ov" and x: "x \<noteq> e"
  consider "ys = xs" | (repl) k where "lastAt e xs k" "ys = xs[k := (QEvent e, f (snd (xs ! k)))]"
    | l where "ys = xs @ [(QEvent e, l)]" using p by (auto simp: postSpec_def split: if_splits)
  then show ?thesis
  proof cases
    case repl
    then show ?thesis using pendLogs_update[of k xs e x] x by (simp add: lastAt_def)
  qed (use x in auto)
qed

text \<open>A step that concerns the subscription \<open>e\<close> leaves the others and what is in the rings for them alone.\<close>

definition frame :: "addr \<Rightarrow> dbev \<Rightarrow> dbev \<Rightarrow> bool" where
  "frame e st st' \<longleftrightarrow> calls st' = calls st \<and> task st' = task st \<and> flowCtrlMode st' = flowCtrlMode st
     \<and> length (queues st) \<le> length (queues st')
     \<and> (\<forall>x. x \<noteq> e \<longrightarrow> subs st' x = subs st x
        \<and> (\<forall>j < length (queues st). pendLogs x (view (queues st' ! j)) = pendLogs x (view (queues st ! j))))"

lemma frame_refl [simp]: "frame e st st"
  by (simp add: frame_def)

lemma frame_trans: "frame e st st1 \<Longrightarrow> frame e st1 st2 \<Longrightarrow> frame e st st2"
  by (simp add: frame_def)

lemma frame_upd:
  assumes "i < length (queues st)" "\<And>x. x \<noteq> e \<Longrightarrow> pendLogs x (view q') = pendLogs x (view (queues st ! i))"
    "queues st' = (queues st)[i := q']" "calls st' = calls st" "task st' = task st" "flowCtrlMode st' = flowCtrlMode st" "\<And>x. x \<noteq> e \<Longrightarrow> subs st' x = subs st x"
  shows "frame e st st'"
  using assms by (auto simp: frame_def nth_list_update)

text \<open>The rings hold as many entries as before.\<close>

definition sameLen :: "dbev \<Rightarrow> dbev \<Rightarrow> bool" where
  "sameLen st st' \<longleftrightarrow> length (queues st') = length (queues st)
     \<and> (\<forall>j < length (queues st). length (view (queues st' ! j)) = length (view (queues st ! j)))"

lemma sameLen_refl: "queues st' = queues st \<Longrightarrow> sameLen st st'"
  by (simp add: sameLen_def)

lemma sameLen_trans: "sameLen st st1 \<Longrightarrow> sameLen st1 st2 \<Longrightarrow> sameLen st st2"
  by (simp add: sameLen_def)

lemma sameLen_upd: "i < length (queues st) \<Longrightarrow> queues st' = (queues st)[i := q'] \<Longrightarrow>
    length (view q') = length (view (queues st ! i)) \<Longrightarrow> sameLen st st'"
  by (auto simp: sameLen_def nth_list_update)

section \<open>Posting\<close>

lemma postSpec_evl: "postSpec e vq fl f xs ys ov \<Longrightarrow> set (evl ys) \<subseteq> insert e (set (evl xs))"
proof -
  assume p: "postSpec e vq fl f xs ys ov"
  consider "ys = xs" | (repl) k where "lastAt e xs k" "ys = xs[k := (QEvent e, f (snd (xs ! k)))]"
    | l where "ys = xs @ [(QEvent e, l)]" using p by (auto simp: postSpec_def split: if_splits)
  then show ?thesis
  proof cases
    case repl
    then have "evl ys = evl xs" using evl_update[of k xs "QEvent e"] by (simp add: lastAt_def)
    then show ?thesis by auto
  qed auto
qed

lemma post_keeps:
  assumes ok: "ev_ok one st" and lv: "live e st"
  shows "\<exists>st'. db_post_single_event_private e st = Some st' \<and> ev_ok one st' \<and> frame e st st'"
proof -
  note o = ev_okD[OF ok]
  obtain s where s: "subs st e = Some s" using lv by (auto simp: live_def)
  let ?i = "ev_que s" and ?q = "queues st ! ev_que s"
  have i: "?i < length (queues st)" using rings_que[OF o(1) s] by simp
  obtain s' q' ov where p: "db_post_single_event_private e st = Some ((setSub e s' (setQue ?i q' st))
       \<lparr>signals := (if view ?q = [] then signals st + 1 else signals st), queovr := (if ov then ulong (queovr st + 1) else queovr st)\<rparr>)"
     "ctl s' = ctl s" "rings_ok ((queues st)[?i := q']) ((subs st)(e \<mapsto> s'))"
     "postSpec e (valque s) (flowCtrlMode st) (fillLog (paddr s) st) (view ?q) (view q') ov"
    using post_ok[OF o(1) s] by blast
  have sc: "sameCtl ((subs st)(e \<mapsto> s')) (subs st)" by (rule sameCtl_upd[of "subs st"]) (rule s, rule p(2))
  have "closing_ok ((subs st)(e \<mapsto> s')) ((queues st)[?i := q']) (closing st)"
  proof (rule closing_ctl[OF sc o(4)])
    show "{e} \<inter> set (closing st) = {}" using lv by (simp add: live_def)
    fix q
    assume "q \<in> set ((queues st)[?i := q'])"
    then show "\<exists>q0 \<in> set (queues st). set (evl (view q)) \<subseteq> set (evl (view q0)) \<union> {e}"
      using set_upd_que[OF i] postSpec_evl[OF p(4)] i by (metis Un_insert_right insert_is_Un nth_mem sup_bot_right sup_ge1)
  qed
  moreover have "wake_ok ((queues st)[?i := q']) (flowCtrlMode st \<or> ppendsem st \<or> 0 < signals st \<or> view ?q = []) (task st)"
    unfolding wake_ok_def
  proof (intro allI impI)
    fix j
    assume j: "j < length ((queues st)[?i := q'])" "view ((queues st)[?i := q'] ! j) \<noteq> []"
    show "(flowCtrlMode st \<or> ppendsem st \<or> 0 < signals st \<or> view ?q = []) \<or> willRead (task st) j"
      using o(5) j i by (cases "j = ?i") (auto simp: wake_ok_def)
  qed
  moreover have "frame e st ((setSub e s' (setQue ?i q' st))
       \<lparr>signals := (if view ?q = [] then signals st + 1 else signals st), queovr := (if ov then ulong (queovr st + 1) else queovr st)\<rparr>)"
    by (rule frame_upd[OF i, of e q']) (use postSpec_pend[OF p(4)] in simp_all)
  moreover have "0 < (if view ?q = [] then signals st + 1 else signals st) \<longleftrightarrow> 0 < signals st \<or> view ?q = []" by simp
  ultimately show ?thesis using p(1,3) monitors_ctl[OF sc o(2)] callback_ctl[OF sc o(3) le_refl] waiter_ctl[OF sc o(6)]
    by (intro exI[of _ "(setSub e s' (setQue ?i q' st))
       \<lparr>signals := (if view ?q = [] then signals st + 1 else signals st), queovr := (if ov then ulong (queovr st + 1) else queovr st)\<rparr>"])
       (simp add: ev_ok_def del: if_split_asm split del: if_split)
qed

end
