(* ===== verification/DbEventSteps.thy ===== *)
theory DbEventSteps
  imports DbEventSystem
begin

text \<open>
  Every operation of the event system returns and keeps the invariant; the reachable states satisfy it.
\<close>

section \<open>General steps\<close>

lemma ring_keeps:
  assumes ok: "ev_ok one st" and r: "rings_ok qs sb'" and sc: "sameCtl sb' (subs st)" and l: "length qs = length (queues st)"
    and sub: "\<And>i. i < length qs \<Longrightarrow> set (evl (view (qs ! i))) \<subseteq> set (evl (view (queues st ! i)))"
    and ne: "\<And>i. i < length qs \<Longrightarrow> view (qs ! i) \<noteq> [] \<Longrightarrow> view (queues st ! i) \<noteq> []"
  shows "ev_ok one (st\<lparr>queues := qs, subs := sb'\<rparr>)"
proof -
  note o = ev_okD[OF ok]
  have "closing_ok sb' qs (closing st)"
  proof (rule closing_ctl[OF sc o(4), of _ "{}"])
    fix q
    assume "q \<in> set qs"
    then obtain i where "i < length qs" "q = qs ! i" by (auto simp: in_set_conv_nth)
    then show "\<exists>q0 \<in> set (queues st). set (evl (view q)) \<subseteq> set (evl (view q0)) \<union> {}" using sub[of i] l by auto
  qed simp
  moreover have "wake_ok qs (flowCtrlMode st \<or> ppendsem st \<or> 0 < signals st) (task st)" using o(5) ne l by (auto simp: wake_ok_def)
  ultimately show ?thesis using r monitors_ctl[OF sc o(2)] callback_ctl[OF sc o(3) le_refl] waiter_ctl[OF sc o(6)] l
    by (simp add: ev_ok_def)
qed

lemma live_not_closing: "live e st \<Longrightarrow> e \<notin> set (closing st)"
  by (simp add: live_def)

text \<open>Clearing the callback of a subscription that is in use.\<close>

lemma clear_user_sub:
  assumes ok: "ev_ok one st" and lv: "live e st" and s: "subs st e = Some s"
  shows "ev_ok one (setSub e (s\<lparr>user_sub := None\<rparr>) st)"
proof -
  note o = ev_okD[OF ok]
  let ?s = "s\<lparr>user_sub := None\<rparr>"
  let ?sb = "(subs st)(e \<mapsto> ?s)"
  have "rings_ok (queues st) ?sb" by (rule rings_sub[OF o(1) s]) simp_all
  moreover have "monitors_ok ?sb (recs st)" by (rule monitors_upd[OF o(2) s]) simp_all
  moreover have "callback_ok ?sb (length (queues st)) (task st) (pSuicideEvent st)"
    using o(3) s by (auto simp: callback_ok_def)
  moreover have "closing_ok ?sb (queues st) (closing st)"
    using o(4) live_not_closing[OF lv] by (auto simp: closing_ok_def)
  moreover have "waiter_ok one ?sb (closing st) (pflush_sem st)"
    using o(6) live_not_closing[OF lv] by (auto simp: waiter_ok_def)
  ultimately show ?thesis using o(5) by (simp add: ev_ok_def)
qed

section \<open>Subscribing\<close>

lemma add_keeps:
  assumes ok: "ev_ok one st" and new: "\<And>e. pevent = Some e \<Longrightarrow> subs st e = None"
  shows "\<exists>r st'. db_add_event pevent m pa f arg sel st = Some (r, st') \<and> ev_ok one st' \<and> (\<forall>e. subs st e \<noteq> None \<longrightarrow>
     subs st' e = subs st e \<and> calls st' = calls st \<and> (\<forall>j < length (queues st). view (queues st' ! j) = view (queues st ! j)))"
proof -
  note o = ev_okD[OF ok]
  show ?thesis
  proof (cases "db_add_event pevent m pa f arg sel st = Some (None, st)")
    case True
    then show ?thesis using ok by blast
  next
    case False
    then obtain e i st1 s q' where e: "pevent = Some e"
      and st1: "st1 = st \<or> st1 = st\<lparr>queues := queues st @ [newQue]\<rparr> \<and> i = length (queues st)" and i: "i < length (queues st1)"
      and r: "db_add_event pevent m pa f arg sel st = Some (Some e, setSub e s (setQue i q' st1))"
      and s: "s = \<lparr>paddr = pa, user_sub = f, user_arg = arg, ev_que = i, pLastLog = None, npend = 0, nreplace = 0, select = sel,
              valque = (no_elements pa = 1 \<and> field_size pa \<le> 8), callBackInProgress = False, enabled = False\<rparr>"
      and rok: "rings_ok ((queues st1)[i := q']) ((subs st)(e \<mapsto> s))" and v: "view q' = view (queues st1 ! i)"
      using add_ok[OF o(1) new] by blast
    have se: "subs st e = None" by (rule new[OF e])
    have flags: "callBackInProgress s = False" "enabled s = False" by (simp_all add: s)
    let ?sb = "(subs st)(e \<mapsto> s)" and ?qs = "(queues st1)[i := q']"
    have v0: "view newQue = []" by (rule rep_view[OF rep_new])
    have views: "view (?qs ! j) = (if j < length (queues st) then view (queues st ! j) else [])" if "j < length ?qs" for j
      using st1 that i v v0 by (auto simp: nth_list_update nth_append)
    have len: "length (queues st) \<le> length ?qs" using st1 by auto
    have "monitors_ok ?sb (recs st)" using o(2) se flags by (auto simp: monitors_ok_def split: if_splits)
    moreover have "callback_ok ?sb (length ?qs) (task st) (pSuicideEvent st)"
      unfolding callback_ok_def
    proof (intro conjI allI impI)
      fix x t
      assume t: "?sb x = Some t"
      show "callBackInProgress t = ((\<exists>j. task st = TCall j x) \<and> pSuicideEvent st = None)"
      proof (cases "x = e")
        case True
        have "pSuicideEvent st \<noteq> None" if "task st = TCall j e" for j using o(3) that se by (auto simp: callback_ok_def)
        then show ?thesis using t True flags by auto
      next
        case False
        then show ?thesis using t o(3) by (simp add: callback_ok_def)
      qed
    next
      fix j x
      assume t: "task st = TCall j x"
      then have "j < length (queues st)" using o(3) by (simp add: callback_ok_def)
      then show "j < length ?qs" using len by linarith
      show "pSuicideEvent st = None \<and> ?sb x \<noteq> None \<or> pSuicideEvent st = Some x" using o(3) t by (auto simp: callback_ok_def)
    next
      assume "\<forall>j x. task st \<noteq> TCall j x"
      then show "pSuicideEvent st = None" using o(3) by (simp add: callback_ok_def)
    qed
    moreover have "closing_ok ?sb ?qs (closing st)"
    proof -
      have ne: "e \<notin> set (closing st)" using o(4) se by (auto simp: closing_ok_def)
      have "e' \<notin> set (evl (view q))" if qin: "q \<in> set ?qs" and ec: "e' \<in> set (closing st)" for q e'
      proof -
        obtain j where j: "j < length ?qs" "q = ?qs ! j" using qin unfolding in_set_conv_nth by blast
        show ?thesis
        proof (cases "j < length (queues st)")
          case True
          then have "view q = view (queues st ! j)" unfolding j(2) views[OF j(1)] by simp
          moreover have "queues st ! j \<in> set (queues st)" using True by simp
          ultimately show ?thesis using o(4) ec unfolding closing_ok_def by metis
        next
          case False
          then have "view q = []" unfolding j(2) views[OF j(1)] by simp
          then show ?thesis by simp
        qed
      qed
      then show ?thesis using o(4) ne by (auto simp: closing_ok_def)
    qed
    moreover have "wake_ok ?qs (flowCtrlMode st \<or> ppendsem st \<or> 0 < signals st) (task st)"
      unfolding wake_ok_def
    proof (intro allI impI)
      fix j
      assume j: "j < length ?qs" "view (?qs ! j) \<noteq> []"
      have "j < length (queues st) \<and> view (queues st ! j) \<noteq> []" using j(2) unfolding views[OF j(1)] by (simp split: if_splits)
      then show "(flowCtrlMode st \<or> ppendsem st \<or> 0 < signals st) \<or> willRead (task st) j" using o(5) by (simp add: wake_ok_def)
    qed
    moreover have "waiter_ok one ?sb (closing st) (pflush_sem st)"
      using o(6) flags o(4) se by (auto simp: waiter_ok_def closing_ok_def)
    ultimately have "ev_ok one (setSub e s (setQue i q' st1))" using st1 rok by (auto simp: ev_ok_def)
    moreover have "view ((queues st1)[i := q'] ! j) = view (queues st ! j)" if "j < length (queues st)" for j
      using views[of j] that len by simp
    moreover have "calls st1 = calls st" "subs st1 = subs st" using st1 by auto
    ultimately show ?thesis using r se by (intro exI[of _ "Some e"] exI[of _ "setSub e s (setQue i q' st1)"]) auto
  qed
qed

lemma monitors_rec:
  assumes m: "monitors_ok sb rs" and s: "sb e = Some s" and r: "r = precord (paddr s)" and pa: "paddr s' = paddr s"
    and l: "distinct l" "set l = (if enabled s' then insert e (set (mlis (rs r))) else set (mlis (rs r)) - {e})"
  shows "monitors_ok (sb(e \<mapsto> s')) (rs(r := (rs r)\<lparr>mlis := l\<rparr>))"
  unfolding monitors_ok_def
proof (intro allI conjI)
  fix r'
  show "distinct (mlis ((rs(r := (rs r)\<lparr>mlis := l\<rparr>)) r'))" using m l by (simp add: monitors_ok_def)
  fix x
  have mx: "x \<in> set (mlis (rs r')) \<longleftrightarrow> (\<exists>t. sb x = Some t \<and> enabled t \<and> precord (paddr t) = r')" for r'
    using m by (simp add: monitors_ok_def)
  show "x \<in> set (mlis ((rs(r := (rs r)\<lparr>mlis := l\<rparr>)) r')) \<longleftrightarrow>
      (\<exists>t. (sb(e \<mapsto> s')) x = Some t \<and> enabled t \<and> precord (paddr t) = r')"
    using mx[of r'] l(2) s r pa by (cases "x = e"; cases "r' = r") auto
qed

lemma enable_parts:
  assumes ok: "ev_ok one st" and lv: "live e st" and s: "subs st e = Some s" and b: "enabled s' = b"
    and same: "ev_que s' = ev_que s" "npend s' = npend s" "pLastLog s' = pLastLog s" "valque s' = valque s" "paddr s' = paddr s"
      "callBackInProgress s' = callBackInProgress s"
    and l: "distinct l" "set l = (if b then insert e (set (mlis (recs st (precord (paddr s))))) else set (mlis (recs st (precord (paddr s)))) - {e})"
  shows "ev_ok one (setSub e s' (st\<lparr>recs := (recs st)(precord (paddr s) := (recs st (precord (paddr s)))\<lparr>mlis := l\<rparr>)\<rparr>))"
proof -
  note o = ev_okD[OF ok]
  let ?sb = "(subs st)(e \<mapsto> s')"
  have "rings_ok (queues st) ?sb" by (rule rings_sub[OF o(1) s]) (simp_all add: same)
  moreover have "monitors_ok ?sb ((recs st)(precord (paddr s) := (recs st (precord (paddr s)))\<lparr>mlis := l\<rparr>))"
    by (rule monitors_rec[OF o(2) s]) (use l b same in auto)
  moreover have "callback_ok ?sb (length (queues st)) (task st) (pSuicideEvent st)"
    using o(3) s same by (auto simp: callback_ok_def)
  moreover have "closing_ok ?sb (queues st) (closing st)"
    using o(4) live_not_closing[OF lv] by (auto simp: closing_ok_def)
  moreover have "waiter_ok one ?sb (closing st) (pflush_sem st)"
    using o(6) live_not_closing[OF lv] by (auto simp: waiter_ok_def)
  ultimately show ?thesis using o(5) by (simp add: ev_ok_def)
qed

lemma enable_keeps:
  assumes ok: "ev_ok one st" and lv: "live e st"
  shows "\<exists>st'. db_event_enable e st = Some st' \<and> ev_ok one st' \<and> frame e st st' \<and> queues st' = queues st
     \<and> map_option ev_que (subs st' e) = map_option ev_que (subs st e)"
proof -
  note o = ev_okD[OF ok]
  obtain s where s: "subs st e = Some s" using lv by (auto simp: live_def)
  show ?thesis
  proof (cases "enabled s")
    case True
    then show ?thesis using ok s by (simp add: db_event_enable_def)
  next
    case False
    let ?r = "precord (paddr s)"
    have "e \<notin> set (mlis (recs st ?r))" using o(2) s False by (auto simp: monitors_ok_def)
    moreover have "distinct (mlis (recs st ?r))" using o(2) by (simp add: monitors_ok_def)
    ultimately have "ev_ok one (setSub e (s\<lparr>enabled := True\<rparr>) (st\<lparr>recs := (recs st)(?r := (recs st ?r)\<lparr>mlis := mlis (recs st ?r) @ [e]\<rparr>)\<rparr>))"
      by (intro enable_parts[OF ok lv s, where b = True]) simp_all
    then show ?thesis using s False by (simp add: db_event_enable_def Let_def frame_def)
  qed
qed

lemma disable_keeps:
  assumes ok: "ev_ok one st" and lv: "live e st" and s: "subs st e = Some s"
  shows "\<exists>st'. db_event_disable e st = Some st' \<and> ev_ok one st' \<and> live e st' \<and> queues st' = queues st \<and> task st' = task st
     \<and> pSuicideEvent st' = pSuicideEvent st \<and> closing st' = closing st \<and> frame e st st'
     \<and> subs st' e = Some (s\<lparr>enabled := False\<rparr>)"
proof -
  note o = ev_okD[OF ok]
  show ?thesis
  proof (cases "enabled s")
    case False
    then have "s\<lparr>enabled := False\<rparr> = s" by (cases s) simp
    then show ?thesis using ok s lv False by (simp add: db_event_disable_def)
  next
    case True
    let ?r = "precord (paddr s)"
    have d: "distinct (mlis (recs st ?r))" using o(2) by (simp add: monitors_ok_def)
    then have "ev_ok one (setSub e (s\<lparr>enabled := False\<rparr>) (st\<lparr>recs := (recs st)(?r := (recs st ?r)\<lparr>mlis := remove1 e (mlis (recs st ?r))\<rparr>)\<rparr>))"
      by (intro enable_parts[OF ok lv s, where b = False]) simp_all
    then show ?thesis using s True lv by (simp add: db_event_disable_def Let_def live_def frame_def)
  qed
qed

end
