(* ===== verification/DbEventReach.thy ===== *)
theory DbEventReach
  imports DbEventSteps
begin

text \<open>
  Cancellation and the event task keep the invariant of the event system; with that every reachable state
  satisfies it and no operation fails.
\<close>

section \<open>Cancelling\<close>

lemma end_keeps:
  assumes ok: "ev_ok one st" and s: "subs st e = Some s" and n: "npend s = 0" and en: "\<not> enabled s" and cl: "e \<notin> set (closing st)"
    and cb: "callback_ok ((subs st)(e := None)) (length (queues st)) (task st) sui"
  shows "\<exists>st'. cancelEnd e (st\<lparr>pSuicideEvent := sui\<rparr>) = Some st' \<and> ev_ok one st' \<and> frame e st st' \<and> subs st' e = None
     \<and> sameLen st st'"
proof -
  note o = ev_okD[OF ok]
  let ?st = "st\<lparr>pSuicideEvent := sui\<rparr>" and ?i = "ev_que s"
  have i: "?i < length (queues st)" using rings_que[OF o(1) s] by simp
  obtain q' where q': "cancelEnd e ?st = Some ((setQue ?i q' ?st)\<lparr>subs := (subs st)(e := None)\<rparr>)"
    "rings_ok ((queues st)[?i := q']) ((subs st)(e := None))" "view q' = view (queues st ! ?i)"
    using cancelEnd_ok[of ?st e s] o(1) s n by auto
  let ?sb = "(subs st)(e := None)" and ?qs = "(queues st)[?i := q']"
  have v: "view (?qs ! j) = view (queues st ! j)" if "j < length (queues st)" for j
    using that q'(3) by (cases "j = ?i") simp_all
  have "monitors_ok ?sb (recs st)" using o(2) s en by (auto simp: monitors_ok_def split: if_splits)
  moreover have "closing_ok ?sb ?qs (closing st)"
  proof -
    have "x \<notin> set (evl (view q))" if qin: "q \<in> set ?qs" and xc: "x \<in> set (closing st)" for q x
    proof -
      obtain j where j: "j < length (queues st)" "q = ?qs ! j" using qin unfolding in_set_conv_nth length_list_update by blast
      then have "view q = view (queues st ! j)" using v by simp
      then show ?thesis using o(4) xc j(1) unfolding closing_ok_def by (metis nth_mem)
    qed
    then show ?thesis using o(4) cl by (auto simp: closing_ok_def)
  qed
  moreover have "wake_ok ?qs (flowCtrlMode st \<or> ppendsem st \<or> 0 < signals st) (task st)" using o(5) v by (simp add: wake_ok_def)
  moreover have "waiter_ok one ?sb (closing st) (pflush_sem st)" using o(6) by (auto simp: waiter_ok_def)
  ultimately have "ev_ok one ((setQue ?i q' ?st)\<lparr>subs := ?sb\<rparr>)" using q'(2) cb by (simp add: ev_ok_def)
  moreover have "frame e st ((setQue ?i q' ?st)\<lparr>subs := ?sb\<rparr>)"
    by (rule frame_upd[OF i, of e q']) (simp_all add: q'(3))
  moreover have "sameLen st ((setQue ?i q' ?st)\<lparr>subs := ?sb\<rparr>)" by (rule sameLen_upd[OF i, where q' = q']) (simp_all add: q'(3))
  ultimately show ?thesis using q'(1) by (intro exI[of _ "(setQue ?i q' ?st)\<lparr>subs := ?sb\<rparr>"]) simp
qed

text \<open>The purge, and the state it leaves.\<close>

lemma purge_keeps:
  assumes ok: "ev_ok one st" and lv: "live e st" and s: "subs st e = Some s"
  shows "\<exists>s' st'. cancelPurge self e st = Some (st'\<lparr>pSuicideEvent := (if self then Some e else pSuicideEvent st)\<rparr>)
     \<and> ev_ok one st' \<and> subs st' e = Some s' \<and> ctl s' = (ctl s)\<lparr>user_sub := None\<rparr> \<and> npend s' = 0
     \<and> (\<forall>q \<in> set (queues st'). e \<notin> set (evl (view q)))
     \<and> task st' = task st \<and> closing st' = closing st \<and> pSuicideEvent st' = pSuicideEvent st \<and> live e st' \<and> frame e st st' \<and> sameLen st st'"
proof -
  let ?s = "s\<lparr>user_sub := None\<rparr>" and ?i = "ev_que s"
  let ?st = "setSub e ?s st"
  have ok1: "ev_ok one ?st" by (rule clear_user_sub[OF ok lv s])
  note o = ev_okD[OF ok]
  have i: "?i < length (queues st)" using rings_que[OF o(1) s] by simp
  obtain s' q' where p: "cancelPurge self e st = Some ((setSub e s' (setQue ?i q' st))
        \<lparr>pSuicideEvent := (if self then Some e else pSuicideEvent st)\<rparr>)"
     "ctl s' = (ctl s)\<lparr>user_sub := None\<rparr>" "npend s' = 0" "rings_ok ((queues st)[?i := q']) ((subs st)(e \<mapsto> s'))"
     "view q' = mark e (view (queues st ! ?i))" using cancelPurge_ok[OF o(1) s] by blast
  let ?qs = "(queues st)[?i := q']"
  have ev: "evl (view q') = filter (\<lambda>x. x \<noteq> e) (evl (view (queues st ! ?i)))" unfolding p(5) by (rule evl_mark)
  have "ev_ok one (?st\<lparr>queues := ?qs, subs := (subs st)(e \<mapsto> s')\<rparr>)"
  proof (rule ring_keeps[OF ok1])
    show "rings_ok ?qs ((subs st)(e \<mapsto> s'))" by (rule p(4))
    show "sameCtl ((subs st)(e \<mapsto> s')) (subs ?st)" using p(2) by (simp add: sameCtl_def ctl_def)
    show "length ?qs = length (queues ?st)" by simp
    fix j
    assume j: "j < length ?qs"
    show "set (evl (view (?qs ! j))) \<subseteq> set (evl (view (queues ?st ! j)))"
      using j ev by (cases "j = ?i") auto
    have "length (view q') = length (view (queues st ! ?i))" unfolding p(5) by simp
    then show "view (?qs ! j) \<noteq> [] \<Longrightarrow> view (queues ?st ! j) \<noteq> []"
      using j by (cases "j = ?i") auto
  qed
  moreover have st': "setSub e s' (setQue ?i q' st) = ?st\<lparr>queues := ?qs, subs := (subs st)(e \<mapsto> s')\<rparr>"
    by (simp add: setSub_def setQue_def)
  moreover have "e \<notin> set (evl (view q))" if q: "q \<in> set ?qs" for q
  proof -
    obtain j where j: "j < length (queues st)" "q = ?qs ! j" using q unfolding in_set_conv_nth length_list_update by blast
    show ?thesis
    proof (cases "j = ?i")
      case True
      then show ?thesis using j ev i by simp
    next
      case False
      then have qj: "q = queues st ! j" using j by simp
      show ?thesis using rings_event[OF o(1) j(1), of e] s False unfolding qj by auto
    qed
  qed
  moreover have "frame e st (setSub e s' (setQue ?i q' st))"
    by (rule frame_upd[OF i, of e q']) (simp_all add: p(5) pendLogs_mark)
  moreover have "sameLen st (setSub e s' (setQue ?i q' st))" by (rule sameLen_upd[OF i, where q' = q']) (simp_all add: p(5))
  ultimately show ?thesis using p(1-3) live_not_closing[OF lv]
    by (intro exI[of _ s'] exI[of _ "setSub e s' (setQue ?i q' st)"]) (simp add: live_def)
qed

lemma callback_free:
  assumes "callback_ok sb n t sui" "sb e = Some s" "\<not> callBackInProgress s"
  shows "callback_ok (sb(e := None)) n t sui"
proof -
  have "sui = None \<longrightarrow> (\<forall>i. t \<noteq> TCall i e)" using assms by (auto simp: callback_ok_def)
  then show ?thesis using assms(1) unfolding callback_ok_def by (auto split: if_splits)
qed

text \<open>A look at the flag: the canceller ends, or waits.\<close>

lemma try_keeps:
  assumes ok: "ev_ok one st" and s: "subs st e = Some s" "npend s = 0" "\<not> enabled s" "user_sub s = None"
    and cl: "e \<notin> set (closing st)" and v: "\<forall>q \<in> set (queues st). e \<notin> set (evl (view q))" and c1: "one \<Longrightarrow> closing st = []"
  shows "\<exists>st'. cancelTry e st = Some st' \<and> ev_ok one st' \<and> frame e st st' \<and> (\<not> callBackInProgress s \<longrightarrow> subs st' e = None)
     \<and> sameLen st st'"
proof (cases "callBackInProgress s")
  case True
  note o = ev_okD[OF ok]
  have "closing_ok (subs st) (queues st) (closing st @ [e])" using o(4) s cl v by (auto simp: closing_ok_def)
  moreover have "waiter_ok one (subs st) (closing st @ [e]) (pflush_sem st)" using c1 s True by (auto simp: waiter_ok_def)
  ultimately have "ev_ok one (st\<lparr>closing := closing st @ [e]\<rparr>)" using ok by (simp add: ev_ok_def)
  then show ?thesis using s True by (simp add: cancelTry_def frame_def sameLen_def)
next
  case False
  have "callback_ok ((subs st)(e := None)) (length (queues st)) (task st) (pSuicideEvent st)"
    by (rule callback_free[OF ev_okD(3)[OF ok] s(1) False])
  from end_keeps[OF ok s(1,2,3) cl this] show ?thesis using s False by (simp add: cancelTry_def)
qed

lemma cancel_keeps:
  assumes ok: "ev_ok one st" and lv: "live e st"
    and how: "self \<Longrightarrow> pSuicideEvent st = None \<and> (\<exists>i. task st = TCall i e)" "one \<Longrightarrow> \<not> self \<Longrightarrow> closing st = []"
  shows "\<exists>st'. db_cancel_event self e st = Some st' \<and> ev_ok one st' \<and> frame e st st' \<and> sameLen st st'
     \<and> ((\<forall>i x. task st \<noteq> TCall i x) \<longrightarrow> subs st' e = None)"
proof -
  obtain s where s: "subs st e = Some s" using lv by (auto simp: live_def)
  obtain st1 where d: "db_event_disable e st = Some st1" "ev_ok one st1" "live e st1" "task st1 = task st"
      "pSuicideEvent st1 = pSuicideEvent st" "closing st1 = closing st" "frame e st st1" "subs st1 e = Some (s\<lparr>enabled := False\<rparr>)"
      "queues st1 = queues st"
    using disable_keeps[OF ok lv s] by blast
  obtain s' st2 where p: "cancelPurge self e st1 = Some (st2\<lparr>pSuicideEvent := (if self then Some e else pSuicideEvent st1)\<rparr>)"
      "ev_ok one st2" "subs st2 e = Some s'" "ctl s' = (ctl (s\<lparr>enabled := False\<rparr>))\<lparr>user_sub := None\<rparr>" "npend s' = 0"
      "\<forall>q \<in> set (queues st2). e \<notin> set (evl (view q))"
      "task st2 = task st1" "closing st2 = closing st1" "pSuicideEvent st2 = pSuicideEvent st1" "live e st2" "frame e st1 st2" "sameLen st1 st2"
    using purge_keeps[OF d(2,3,8)] by blast
  have fr: "frame e st st2" by (rule frame_trans[OF d(7) p(11)])
  have sl: "sameLen st st2" using p(12) d(9) by (simp add: sameLen_def)
  have "ctl s' = ctl (s\<lparr>enabled := False, user_sub := None\<rparr>)" using p(4) by (simp add: ctl_def)
  then have s': "\<not> enabled s'" "user_sub s' = None" by (auto dest: ctl_same)
  have cl: "e \<notin> set (closing st2)" by (rule live_not_closing[OF p(10)])
  show ?thesis
  proof (cases self)
    case True
    obtain i where t: "task st2 = TCall i e" "pSuicideEvent st2 = None" using how(1)[OF True] p(7,9) d(4,5) by auto
    have c: "callback_ok (subs st2) (length (queues st2)) (task st2) None" using ev_okD(3)[OF p(2)] t by simp
    have "callback_ok ((subs st2)(e := None)) (length (queues st2)) (task st2) (Some e)"
      using c t unfolding callback_ok_def by (auto split: if_splits)
    from end_keeps[OF p(2,3,5) s'(1) cl this] obtain st3 where
      "cancelEnd e (st2\<lparr>pSuicideEvent := Some e\<rparr>) = Some st3" "ev_ok one st3" "frame e st2 st3" "sameLen st2 st3"
      "subs st3 e = None" by blast
    then show ?thesis using d(1) p(1) True frame_trans[OF fr] sameLen_trans[OF sl] by (auto simp: db_cancel_event_def)
  next
    case False
    have same: "st2\<lparr>pSuicideEvent := pSuicideEvent st1\<rparr> = st2" using p(9) by simp
    have "one \<Longrightarrow> closing st2 = []" using how(2) False p(8) d(6) by simp
    from try_keeps[OF p(2,3,5) s' cl p(6) this] obtain st3 where
      "cancelTry e st2 = Some st3" "ev_ok one st3" "frame e st2 st3" "sameLen st2 st3"
      "\<not> callBackInProgress s' \<longrightarrow> subs st3 e = None" by blast
    moreover have "(\<forall>i x. task st \<noteq> TCall i x) \<Longrightarrow> \<not> callBackInProgress s'"
      using ev_okD(3)[OF p(2)] p(3,7) d(4) by (auto simp: callback_ok_def)
    ultimately show ?thesis using d(1) p(1) False same frame_trans[OF fr] sameLen_trans[OF sl] by (auto simp: db_cancel_event_def)
  qed
qed

lemma wake_keeps:
  assumes ok: "ev_ok one st" and e: "e \<in> set (closing st)"
  shows "\<exists>st'. cancelWake e st = Some st' \<and> ev_ok one st' \<and> frame e st st'
     \<and> (\<forall>s. subs st e = Some s \<and> \<not> callBackInProgress s \<longrightarrow> subs st' e = None)"
proof -
  note o = ev_okD[OF ok]
  obtain s where s: "subs st e = Some s" "user_sub s = None" "\<not> enabled s" using o(4) e by (auto simp: closing_ok_def)
  have v: "\<forall>q \<in> set (queues st). e \<notin> set (evl (view q))" using o(4) e by (simp add: closing_ok_def)
  have "npend s = 0"
  proof -
    have i: "ev_que s < length (queues st)" and l: "logOk e s (getix (queues st ! ev_que s)) (view (queues st ! ev_que s))"
      using rings_que[OF o(1) s(1)] by auto
    have "e \<notin> set (evl (view (queues st ! ev_que s)))" using v i by simp
    then show ?thesis using npend_evl[OF l] by simp
  qed
  have d: "distinct (closing st)" using o(4) by (simp add: closing_ok_def)
  let ?st = "st\<lparr>pflush_sem := False, closing := remove1 e (closing st)\<rparr>"
  have one: "one \<Longrightarrow> remove1 e (closing st) = []"
  proof -
    assume one
    then have "length (closing st) \<le> 1" using o(6) by (simp add: waiter_ok_def)
    then have "closing st = [e]" using e by (cases "closing st") auto
    then show ?thesis by simp
  qed
  have "closing_ok (subs st) (queues st) (remove1 e (closing st))" using o(4) d by (auto simp: closing_ok_def dest: notin_set_remove1)
  moreover have "waiter_ok one (subs st) (remove1 e (closing st)) False" using one by (auto simp: waiter_ok_def)
  ultimately have "ev_ok one ?st" using ok by (simp add: ev_ok_def)
  then obtain st' where "cancelTry e ?st = Some st'" "ev_ok one st'" "frame e ?st st'" "\<not> callBackInProgress s \<longrightarrow> subs st' e = None"
    using try_keeps[of one ?st e s] s \<open>npend s = 0\<close> d v one by auto
  then show ?thesis using s(1) by (auto simp: cancelWake_def frame_def)
qed

section \<open>The event task\<close>

lemma flag_callback:
  assumes c: "callback_ok sb n (TRead i) None" and s: "sb e = Some s" and i: "i < n"
    and sc: "sameCtl sb' (sb(e \<mapsto> s\<lparr>callBackInProgress := True\<rparr>))"
  shows "callback_ok sb' n (TCall i e) None"
proof -
  have "callback_ok (sb(e \<mapsto> s\<lparr>callBackInProgress := True\<rparr>)) n (TCall i e) None"
    using c i by (auto simp: callback_ok_def)
  then show ?thesis by (rule callback_ctl[OF sc _ le_refl])
qed

lemma front_more: "\<exists>s pre. sb e = Some s \<and> user_sub s \<noteq> None \<and> xs = pre @ (QEvent e, l) # ys \<Longrightarrow>
   \<exists>s pre. sb e = Some s \<and> user_sub s \<noteq> None \<and> x # xs = pre @ (QEvent e, l) # ys"
  by (metis append_Cons)

lemma nextCall_some: "nextCall sb xs = (Some (e, l), ys) \<Longrightarrow> \<exists>s pre. sb e = Some s \<and> user_sub s \<noteq> None \<and> xs = pre @ (QEvent e, l) # ys"
proof (induction sb xs rule: nextCall.induct)
  case (2 sb x m xs)
  show ?case
  proof (cases "Option.bind (sb x) user_sub = None")
    case False
    then have "x = e" "m = l" "xs = ys" using "2.prems" by simp_all
    moreover obtain s where "sb x = Some s" "user_sub s \<noteq> None" using False by (cases "sb x") auto
    ultimately show ?thesis by auto
  next
    case True
    then have "nextCall sb xs = (Some (e, l), ys)" using "2.prems" by (simp del: Option.bind_eq_None_conv)
    from "2.IH"[OF _ this] True obtain s pre where "sb e = Some s" "user_sub s \<noteq> None" "xs = pre @ (QEvent e, l) # ys" by auto
    then have "sb e = Some s \<and> user_sub s \<noteq> None \<and> (QEvent x, m) # xs = ((QEvent x, m) # pre) @ (QEvent e, l) # ys" by simp
    then show ?thesis by blast
  qed
qed (simp_all only: nextCall.simps front_more, simp_all)

lemma nextCall_none: "nextCall sb xs = (None, ys) \<Longrightarrow> ys = []"
  by (induction sb xs rule: nextCall.induct) (auto split: if_splits)

text \<open>Reading a queue, from a state in which no callback is marked.\<close>

lemma read_keeps:
  assumes ok: "ev_ok one (st\<lparr>task := TRead i\<rparr>)" and i: "i < length (queues st)"
  shows "\<exists>r. readLoop i st = Some r \<and> ev_ok one (afterRead i r)"
proof -
  note o = ev_okD[OF ok, simplified]
  have sui: "pSuicideEvent st = None" using o(3) by (simp add: callback_ok_def)
  let ?nc = "nextCall (subs st) (view (queues st ! i))"
  obtain q' sb' where rd: "readLoop i st = Some (map_option fst (fst ?nc), st\<lparr>queues := (queues st)[i := q'], subs := sb',
           calls := calls st @ callsFor (subs st) (fst ?nc) (view q' \<noteq> [])\<rparr>)"
     "view q' = snd ?nc" "sameCtl sb' (flagFor (subs st) (fst ?nc))" "rings_ok ((queues st)[i := q']) sb'"
    using readLoop_ok[OF o(1) i] by blast
  let ?qs = "(queues st)[i := q']"
  have cl: "closing_ok sb (?qs) (closing st)" if sc: "sameCtl sb' sb" "sameCtl sb (subs st)" and sub: "set (evl (view q')) \<subseteq> set (evl (view (queues st ! i)))" for sb
  proof (rule closing_ctl[OF sc(2) o(4), of _ "{}"])
    fix q
    assume "q \<in> set ?qs"
    then show "\<exists>q0 \<in> set (queues st). set (evl (view q)) \<subseteq> set (evl (view q0)) \<union> {}"
      using set_upd_que[OF i] sub i by (metis Un_upper1 nth_mem subset_trans order_refl sup_bot_right)
  qed simp
  show ?thesis
  proof (cases "fst ?nc")
    case None
    then have v: "view q' = []" using rd(2) nextCall_none[of "subs st" "view (queues st ! i)" "snd ?nc"] by (metis prod.collapse)
    have sc: "sameCtl sb' (subs st)" using rd(3) None by (simp add: flagFor_def)
    have "callback_ok sb' (length (queues st)) (TRead (i + 1)) None" using callback_ctl[OF sc o(3) le_refl] sui
      by (simp add: callback_ok_def)
    moreover have "closing_ok sb' ?qs (closing st)" by (rule closing_ctl[OF sc cl[OF sc sameCtl_refl], of _ "{}"]) (use v in auto)
    moreover have "wake_ok ?qs (flowCtrlMode st \<or> ppendsem st \<or> 0 < signals st) (TRead (i + 1))"
      unfolding wake_ok_def
    proof (intro allI impI)
      fix j
      assume j: "j < length ?qs" "view (?qs ! j) \<noteq> []"
      then have "j \<noteq> i" using v i by auto
      then show "(flowCtrlMode st \<or> ppendsem st \<or> 0 < signals st) \<or> willRead (TRead (i + 1)) j" using o(5) j by (auto simp: wake_ok_def)
    qed
    ultimately show ?thesis using rd(1,4) None sui monitors_ctl[OF sc o(2)] waiter_ctl[OF sc o(6)]
      by (auto simp: ev_ok_def afterRead_def)
  next
    case (Some el)
    obtain e l where el: "el = (e, l)" by (cases el)
    have "?nc = (Some (e, l), view q')" using Some rd(2) unfolding el by (metis prod.collapse)
    then obtain s pre where s: "subs st e = Some s" "user_sub s \<noteq> None" "view (queues st ! i) = pre @ (QEvent e, l) # view q'"
      using nextCall_some by blast
    let ?sb = "(subs st)(e \<mapsto> s\<lparr>callBackInProgress := True\<rparr>)"
    have sc: "sameCtl sb' ?sb" using rd(3) Some s el by (simp add: flagFor_def)
    have ne: "e \<notin> set (closing st)" using o(4) s by (auto simp: closing_ok_def)
    have "callback_ok sb' (length (queues st)) (TCall i e) None" by (rule flag_callback[OF _ s(1) i sc]) (use o(3) sui in simp)
    moreover have "monitors_ok sb' (recs st)" by (rule monitors_ctl[OF sc monitors_upd[OF o(2) s(1)]]) simp_all
    moreover have "closing_ok sb' ?qs (closing st)"
    proof (rule closing_ctl[OF sc, of _ _ _ "{}"])
      have "closing_ok (subs st) ?qs (closing st)"
      proof (rule closing_ctl[OF sameCtl_refl o(4), of _ "{}"])
        fix q
        assume "q \<in> set ?qs"
        moreover have "set (evl (view q')) \<subseteq> set (evl (view (queues st ! i)))" unfolding s(3) by auto
        ultimately show "\<exists>q0 \<in> set (queues st). set (evl (view q)) \<subseteq> set (evl (view q0)) \<union> {}"
          using set_upd_que[OF i] i by (metis nth_mem order_refl sup_bot_right)
      qed simp
      then show "closing_ok ?sb ?qs (closing st)" using ne by (auto simp: closing_ok_def)
    qed auto
    moreover have "waiter_ok one sb' (closing st) (pflush_sem st)"
    proof (rule waiter_ctl[OF sc])
      show "waiter_ok one ?sb (closing st) (pflush_sem st)" using o(6) by (auto simp: waiter_ok_def)
    qed
    moreover have "wake_ok ?qs (flowCtrlMode st \<or> ppendsem st \<or> 0 < signals st) (TCall i e)"
      unfolding wake_ok_def
    proof (intro allI impI)
      fix j
      assume j: "j < length ?qs" "view (?qs ! j) \<noteq> []"
      show "(flowCtrlMode st \<or> ppendsem st \<or> 0 < signals st) \<or> willRead (TCall i e) j"
        using o(5) j i by (cases "j = i") (auto simp: wake_ok_def)
    qed
    ultimately show ?thesis using rd(1,4) Some el sui by (auto simp: ev_ok_def afterRead_def)
  qed
qed

end
