(* ===== verification/DbEventSafe.thy ===== *)
theory DbEventSafe
  imports DbEventReach
begin

text \<open>
  The reachable states of the event system: the invariant holds and every operation its callers may use
  returns.
\<close>

section \<open>The event task\<close>

lemma done_keeps:
  assumes ok: "ev_ok one st" and t: "task st = TCall i e"
  shows "\<exists>st1. callbackDone e st = Some st1 \<and> ev_ok one (st1\<lparr>task := TRead i\<rparr>) \<and> queues st1 = queues st"
proof -
  note o = ev_okD[OF ok]
  have wk: "wake_ok (queues st) (flowCtrlMode st \<or> ppendsem st \<or> 0 < signals st) (TRead i)" using o(5) t by (simp add: wake_ok_def)
  show ?thesis
  proof (cases "pSuicideEvent st = Some e")
    case True
    have "callback_ok (subs st) (length (queues st)) (TRead i) None" using o(3) True by (simp add: callback_ok_def)
    then have "ev_ok one (st\<lparr>pSuicideEvent := None, task := TRead i\<rparr>)" using ok wk by (simp add: ev_ok_def)
    then show ?thesis using True by (simp add: callbackDone_def)
  next
    case False
    then have sui: "pSuicideEvent st = None" and "subs st e \<noteq> None" using o(3) t by (auto simp: callback_ok_def)
    then obtain s where s: "subs st e = Some s" by auto
    let ?s = "s\<lparr>callBackInProgress := False\<rparr>"
    let ?sb = "(subs st)(e \<mapsto> ?s)" and ?fl = "pflush_sem st \<or> user_sub s = None \<and> npend s = 0"
    have eq: "callbackDone e st = Some ((setSub e ?s st)\<lparr>pflush_sem := ?fl\<rparr>)"
    proof -
      have 1: "(setSub e ?s st)\<lparr>pflush_sem := pflush_sem st\<rparr> = setSub e ?s st" by (simp add: setSub_def)
      have 2: "callbackDone e st = Some (if user_sub s = None \<and> npend s = 0 then (setSub e ?s st)\<lparr>pflush_sem := True\<rparr> else setSub e ?s st)"
        unfolding callbackDone_def using s False by (simp only: if_False bind.bind_lunit Let_def)
      show ?thesis unfolding 2 by (cases "user_sub s = None \<and> npend s = 0") (simp_all only: 1 simp_thms if_True if_False)
    qed
    have "rings_ok (queues st) ?sb" by (rule rings_sub[OF o(1) s]) simp_all
    moreover have "monitors_ok ?sb (recs st)" by (rule monitors_upd[OF o(2) s]) simp_all
    moreover have "callback_ok ?sb (length (queues st)) (TRead i) None" using o(3) t sui by (auto simp: callback_ok_def)
    moreover have "closing_ok ?sb (queues st) (closing st)" using o(4) s by (auto simp: closing_ok_def)
    moreover have "waiter_ok one ?sb (closing st) ?fl"
    proof -
      have "callBackInProgress x' \<or> ?fl" if one and x: "x \<in> set (closing st)" "?sb x = Some x'" for x x'
      proof (cases "x = e")
        case True
        have us: "user_sub s = None" using o(4) x(1) s True by (auto simp: closing_ok_def)
        have i: "ev_que s < length (queues st)" and l: "logOk e s (getix (queues st ! ev_que s)) (view (queues st ! ev_que s))"
          using rings_que[OF o(1) s] by auto
        have "e \<notin> set (evl (view (queues st ! ev_que s)))" using o(4) x(1) True i by (auto simp: closing_ok_def)
        then have "npend s = 0" using npend_evl[OF l] by simp
        then show ?thesis using us by simp
      next
        case False
        then show ?thesis using o(6) x \<open>one\<close> by (auto simp: waiter_ok_def)
      qed
      then show ?thesis using o(6) by (auto simp: waiter_ok_def)
    qed
    ultimately have "ev_ok one ((setSub e ?s st)\<lparr>pflush_sem := ?fl, task := TRead i\<rparr>)" using wk sui by (simp add: ev_ok_def)
    then show ?thesis using eq by simp
  qed
qed

lemma doLabor_simps [simp]:
  "queues (doLabor st) = queues st" "subs (doLabor st) = subs st" "recs (doLabor st) = recs st"
  "pSuicideEvent (doLabor st) = pSuicideEvent st" "closing (doLabor st) = closing st"
  "flowCtrlMode (doLabor st) = flowCtrlMode st" "ppendsem (doLabor st) = ppendsem st" "signals (doLabor st) = signals st" "pflush_sem (doLabor st) = pflush_sem st"
  by (simp_all add: doLabor_def split: option.splits)

lemma reportOverflow_simps [simp]:
  "queues (reportOverflow st) = queues st" "subs (reportOverflow st) = subs st" "recs (reportOverflow st) = recs st"
  "pSuicideEvent (reportOverflow st) = pSuicideEvent st" "closing (reportOverflow st) = closing st"
  "flowCtrlMode (reportOverflow st) = flowCtrlMode st" "ppendsem (reportOverflow st) = ppendsem st" "signals (reportOverflow st) = signals st"
  "pflush_sem (reportOverflow st) = pflush_sem st"
  by (simp_all add: reportOverflow_def)

lemma callback_idle: "callback_ok sb n t sui \<Longrightarrow> (\<And>i e. t \<noteq> TCall i e) \<Longrightarrow> (\<And>i e. t' \<noteq> TCall i e) \<Longrightarrow> callback_ok sb n t' sui"
  by (simp add: callback_ok_def)

lemma task_keeps:
  assumes ok: "ev_ok one st" and run: "canRun st"
  shows "\<exists>st'. event_task st = Some st' \<and> ev_ok one st'"
proof (cases "task st")
  case TWait
  note o = ev_okD[OF ok]
  have "callback_ok (subs st) (length (queues st)) TLabor (pSuicideEvent st)" by (rule callback_idle[OF o(3)]) (simp_all add: TWait)
  then show ?thesis using o run TWait by (simp add: event_task_def canRun_def ev_ok_def wake_ok_def)
next
  case TLabor
  note o = ev_okD[OF ok]
  have "callback_ok (subs st) (length (queues st)) (TRead 0) (pSuicideEvent st)" by (rule callback_idle[OF o(3)]) (simp_all add: TLabor)
  then show ?thesis using o TLabor by (simp add: event_task_def ev_ok_def wake_ok_def)
next
  case (TRead i)
  note o = ev_okD[OF ok]
  have sui: "pSuicideEvent st = None" using o(3) TRead by (simp add: callback_ok_def)
  have same: "st\<lparr>task := TRead i\<rparr> = st" using TRead by (metis dbev.surjective dbev.update_convs(18))
  show ?thesis
  proof (cases "i < length (queues st)")
    case False
    have aw: "flowCtrlMode st \<or> ppendsem st \<or> 0 < signals st" if "j < length (queues st)" "view (queues st ! j) \<noteq> []" for j
      using o(5) that False TRead by (force simp: wake_ok_def)
    let ?t = "if pendexit st then TExit else TWait"
    have "callback_ok (subs st) (length (queues st)) ?t (pSuicideEvent st)" by (rule callback_idle[OF o(3)]) (simp_all add: TRead)
    moreover have "wake_ok (queues st) (flowCtrlMode st \<or> ppendsem st \<or> 0 < signals st) ?t" using aw by (auto simp: wake_ok_def)
    ultimately have "ev_ok one ((reportOverflow st)\<lparr>task := ?t\<rparr>)" using o by (simp add: ev_ok_def)
    then show ?thesis using False TRead by (simp add: event_task_def)
  next
    case True
    show ?thesis
    proof (cases "flowCtrlMode st \<and> nDuplicates (queues st ! i) = 0")
      case skip: True
      have "callback_ok (subs st) (length (queues st)) (TRead (i + 1)) (pSuicideEvent st)" by (rule callback_idle[OF o(3)]) (simp_all add: TRead)
      then have "ev_ok one (st\<lparr>task := TRead (i + 1)\<rparr>)" using o skip by (simp add: ev_ok_def wake_ok_def)
      then show ?thesis using TRead True skip by (simp add: event_task_def event_read_def afterRead_def)
    next
      case False
      have "\<exists>r. readLoop i st = Some r \<and> ev_ok one (afterRead i r)"
        by (rule read_keeps) (use ok same True in simp_all)
      then show ?thesis using TRead True False by (auto simp: event_task_def event_read_def)
    qed
  qed
next
  case (TCall i e)
  obtain st1 where d: "callbackDone e st = Some st1" "ev_ok one (st1\<lparr>task := TRead i\<rparr>)" "queues st1 = queues st"
    using done_keeps[OF ok TCall] by blast
  have "i < length (queues st1)" using ev_okD(3)[OF ok] TCall d(3) by (simp add: callback_ok_def)
  from read_keeps[OF d(2) this] show ?thesis using TCall d(1) by (auto simp: event_task_def)
qed (use run in \<open>simp_all add: canRun_def\<close>)

section \<open>All operations\<close>

theorem evStep_keeps:
  assumes ok: "ev_ok one st" and fits: "evFits op st" and c: "one \<longrightarrow> (\<forall>e. op = OCancel e \<longrightarrow> closing st = [])"
  shows "\<exists>st'. evStep op st = Some st' \<and> ev_ok one st'"
proof (cases op)
  case (OAdd new m pa f arg sel)
  then show ?thesis using add_keeps[OF ok, of new m pa f arg sel] fits by (auto split: option.splits)
next
  case (OEnable e)
  then show ?thesis using enable_keeps[OF ok, of e] fits by auto
next
  case (ODisable e)
  then have lv: "live e st" using fits by simp
  then obtain s where "subs st e = Some s" by (auto simp: live_def)
  from disable_keeps[OF ok lv this] show ?thesis using ODisable by auto
next
  case (OPost e)
  then show ?thesis using post_keeps[OF ok, of e] fits by auto
next
  case (OCancel e)
  then show ?thesis using cancel_keeps[OF ok, of e False] fits c by auto
next
  case (OCancelSelf e)
  then show ?thesis using cancel_keeps[OF ok, of e True] fits by (auto split: taskpc.splits)
next
  case (OWake e)
  then show ?thesis using wake_keeps[OF ok, of e] fits by auto
next
  case OTask
  then show ?thesis using task_keeps[OF ok] fits by simp
next
  case (OStart created)
  note o = ev_okD[OF ok]
  have "ev_ok one (db_start_events created st)"
  proof (cases "task st = TOff")
    case True
    have "callback_ok (subs st) (length (queues st)) (if created then TWait else TOff) (pSuicideEvent st)"
      by (rule callback_idle[OF o(3)]) (simp_all add: True)
    then show ?thesis using o True by (simp add: db_start_events_def ev_ok_def wake_ok_def)
  qed (use ok in \<open>simp add: db_start_events_def\<close>)
  then show ?thesis using OStart by simp
next
  case OPostLabor
  then show ?thesis using ok by (simp add: db_post_extra_labor_def ev_ok_def wake_ok_def)
next
  case (OWriteRecord r a b t)
  have "monitors_ok (subs st) ((recs st)(r := (recs st r)\<lparr>r_stat := a, r_sevr := b, r_time := t\<rparr>))"
    using ev_okD(2)[OF ok] by (simp add: monitors_ok_def)
  then show ?thesis using ok OWriteRecord by (simp add: ev_ok_def)
qed (use ok in \<open>simp_all add: db_close_events_def db_event_flow_ctrl_mode_on_def db_event_flow_ctrl_mode_off_def
     db_add_overflow_event_def db_add_extra_labor_event_def signalTask_def ev_ok_def wake_ok_def\<close>)

lemma init_ok: "(\<And>r. mlis (rs r) = []) \<Longrightarrow> ev_ok one (db_init_events rs bs)"
proof -
  assume m: "\<And>r. mlis (rs r) = []"
  have v: "view newQue = []" by (rule rep_view[OF rep_new])
  have f: "quota newQue = 0" "nDuplicates newQue = 0" "nCanceled newQue = 0" by (simp_all add: newQue_def)
  have "rings_ok [newQue] Map.empty" using rep_new by (simp add: rings_ok_def queOk_def v f countsOk_def members_def)
  then show ?thesis using m
    by (simp add: ev_ok_def db_init_events_def monitors_ok_def callback_ok_def closing_ok_def wake_ok_def waiter_ok_def v)
qed

theorem ev_reach_ok: "ev_reach one st \<Longrightarrow> ev_ok one st"
proof (induction rule: ev_reach.induct)
  case (init rs bs)
  then show ?case by (rule init_ok)
next
  case (step st op st')
  then show ?case using evStep_keeps[of one st op] by auto
qed

text \<open>A run of operations that may all be used.\<close>

definition alone :: "bool \<Rightarrow> evop \<Rightarrow> dbev \<Rightarrow> bool" where
  "alone one op st \<longleftrightarrow> (case op of OCancel e \<Rightarrow> one \<longrightarrow> closing st = [] | _ \<Rightarrow> True)"

lemma aloneD: "alone one op st \<Longrightarrow> one \<longrightarrow> (\<forall>e. op = OCancel e \<longrightarrow> closing st = [])"
  by (auto simp: alone_def)

fun mayRun :: "bool \<Rightarrow> evop list \<Rightarrow> dbev \<Rightarrow> bool" where
  "mayRun one [] st \<longleftrightarrow> True"
| "mayRun one (op # ops) st \<longleftrightarrow> task st \<noteq> TExit \<and> evFits op st \<and> alone one op st
     \<and> (case evStep op st of None \<Rightarrow> True | Some st' \<Rightarrow> mayRun one ops st')"

lemma run_reach: "ev_reach one st \<Longrightarrow> mayRun one ops st \<Longrightarrow> \<exists>st'. evRun ops st = Some st' \<and> ev_reach one st'"
proof (induction ops arbitrary: st)
  case (Cons op ops)
  have f: "task st \<noteq> TExit" "evFits op st" "one \<longrightarrow> (\<forall>e. op = OCancel e \<longrightarrow> closing st = [])"
    using Cons.prems(2) aloneD[of one op st] by auto
  obtain st1 where st1: "evStep op st = Some st1" using evStep_keeps[OF ev_reach_ok[OF Cons.prems(1)] f(2,3)] by blast
  have "ev_reach one st1" by (rule ev_reach.step[OF Cons.prems(1) f st1])
  then show ?case using Cons.IH[of st1] Cons.prems(2) st1 by simp
qed auto

end
