(* ===== verification/DbEventHistory.thy ===== *)
theory DbEventHistory
  imports DbEventSafe
begin

text \<open>
  What a subscriber sees: the values delivered to it followed by those still in its ring are the values
  posted, in order; only posting changes them.
\<close>

section \<open>The history of a subscription\<close>

definition delivered :: "addr \<Rightarrow> usercall list \<Rightarrow> db_field_log list" where
  "delivered e cs = concat (map (\<lambda>c. case c of Deliver d f a p m (Some l) \<Rightarrow> if d = e then [l] else [] | _ \<Rightarrow> []) cs)"

lemma delivered_simps [simp]: "delivered e [] = []" "delivered e (cs @ ds) = delivered e cs @ delivered e ds"
  by (simp_all add: delivered_def)

definition pending :: "addr \<Rightarrow> dbev \<Rightarrow> db_field_log list" where
  "pending e st = (case subs st e of None \<Rightarrow> [] | Some s \<Rightarrow> pendLogs e (view (queues st ! ev_que s)))"

definition history :: "addr \<Rightarrow> dbev \<Rightarrow> db_field_log list" where
  "history e st = delivered e (calls st) @ pending e st"

text \<open>Subscriptions that are posted by value and have a callback.\<close>

definition receives :: "addr \<Rightarrow> dbev \<Rightarrow> bool" where
  "receives e st \<longleftrightarrow> (\<exists>s. subs st e = Some s \<and> valque s \<and> user_sub s \<noteq> None)"

lemma history_frame:
  assumes ok: "rings_ok (queues st) (subs st)" and f: "frame x st st'" and ne: "e \<noteq> x" and r: "receives e st"
  shows "history e st' = history e st \<and> subs st' e = subs st e"
proof -
  obtain s where s: "subs st e = Some s" using r by (auto simp: receives_def)
  have "ev_que s < length (queues st)" using rings_que[OF ok s] by simp
  then show ?thesis using f ne s by (simp add: frame_def history_def pending_def)
qed

section \<open>Reading\<close>

lemma nextCall_pend:
  "sb e = Some s \<Longrightarrow> user_sub s \<noteq> None \<Longrightarrow> nextCall sb xs = (c, ys) \<Longrightarrow>
   pendLogs e xs = (case c of None \<Rightarrow> [] | Some (d, l) \<Rightarrow> if d = e then [l] else []) @ pendLogs e ys"
proof (induction sb xs rule: nextCall.induct)
  case (2 sb x m xs)
  show ?case
  proof (cases "Option.bind (sb x) user_sub = None")
    case True
    then have "x \<noteq> e" "nextCall sb xs = (c, ys)" using "2.prems" by (auto simp del: Option.bind_eq_None_conv)
    then show ?thesis using "2.IH" True "2.prems"(1,2) by simp
  next
    case False
    then have "c = Some (x, m)" "ys = xs" using "2.prems"(3) by auto
    then show ?thesis by simp
  qed
qed auto

lemma delivered_callsFor:
  assumes "sb e = Some s" "valque s"
  shows "delivered e (callsFor sb c b) = (case c of None \<Rightarrow> [] | Some (d, l) \<Rightarrow> if d = e then [l] else [])"
  using assms by (auto simp: callsFor_def delivered_def split: option.splits)

lemma history_read:
  assumes ok: "rings_ok (queues st) (subs st)" and i: "i < length (queues st)" and r: "receives e st"
    and rd: "readLoop i st = Some (c, st')"
  shows "history e st' = history e st \<and> receives e st'"
proof -
  obtain s where s: "subs st e = Some s" "valque s" "user_sub s \<noteq> None" using r by (auto simp: receives_def)
  obtain p ys where nc: "nextCall (subs st) (view (queues st ! i)) = (p, ys)" by (cases "nextCall (subs st) (view (queues st ! i))")
  obtain q' sb' where st': "st' = st\<lparr>queues := (queues st)[i := q'], subs := sb', calls := calls st @ callsFor (subs st) p (view q' \<noteq> [])\<rparr>"
     "view q' = ys" "sameCtl sb' (flagFor (subs st) p)"
    using readLoop_ok[OF ok i] rd unfolding nc by auto
  have "\<exists>s'. sb' e = Some s' \<and> ev_que s' = ev_que s \<and> valque s' \<and> user_sub s' \<noteq> None"
  proof -
    obtain t where t: "flagFor (subs st) p e = Some t" "ev_que t = ev_que s" "valque t = valque s" "user_sub t = user_sub s"
    proof (cases p)
      case None
      then show ?thesis using that[of s] s(1) by (simp add: flagFor_def)
    next
      case (Some dl)
      obtain d l where dl: "dl = (d, l)" by (cases dl)
      show ?thesis
      proof (cases "d = e")
        case True
        then show ?thesis using that[of "s\<lparr>callBackInProgress := True\<rparr>"] s(1) Some dl by (simp add: flagFor_def)
      next
        case False
        then show ?thesis using that[of s] s(1) Some dl by (simp add: flagFor_def split: option.splits)
      qed
    qed
    obtain s' where "sb' e = Some s'" "ctl t = ctl s'" using sameCtl_some[OF sameCtl_sym[OF st'(3)] t(1)] by blast
    then show ?thesis using t s ctl_same[of t s'] by auto
  qed
  then obtain s' where s': "sb' e = Some s'" "ev_que s' = ev_que s" "valque s'" "user_sub s' \<noteq> None" by blast
  have pl: "pendLogs e (view (queues st ! i)) = delivered e (callsFor (subs st) p b) @ pendLogs e ys" for b
    using nextCall_pend[where sb = "subs st", OF s(1) s(3) nc] delivered_callsFor[where sb = "subs st" and e = e and s = s and c = p and b = b] s by simp
  have "history e st' = history e st"
  proof (cases "ev_que s = i")
    case True
    then show ?thesis using s s' i pl[of "view q' \<noteq> []"] st'(2) unfolding st'(1) by (simp add: history_def pending_def)
  next
    case False
    have "e \<notin> set (evl (view (queues st ! i)))" using rings_event[OF ok i, of e] s(1) False by auto
    then have "pendLogs e (view (queues st ! i)) = []" by (simp add: pendLogs_none)
    then have "delivered e (callsFor (subs st) p (view q' \<noteq> [])) = []" using pl by simp
    then show ?thesis using False s s' unfolding st'(1) by (simp add: history_def pending_def)
  qed
  then show ?thesis using s' unfolding st'(1) by (auto simp: receives_def)
qed

lemma history_done:
  assumes "callbackDone x st = Some st1" "receives e st"
  shows "history e st1 = history e st \<and> receives e st1 \<and> queues st1 = queues st"
proof (cases "pSuicideEvent st = Some x")
  case True
  then show ?thesis using assms by (auto simp: callbackDone_def history_def pending_def receives_def)
next
  case False
  then obtain s where s: "subs st x = Some s" and st1: "st1 = setSub x (s\<lparr>callBackInProgress := False\<rparr>) st
      \<or> st1 = (setSub x (s\<lparr>callBackInProgress := False\<rparr>) st)\<lparr>pflush_sem := True\<rparr>"
    using assms(1) by (auto simp: callbackDone_def Let_def split: Option.bind_splits if_splits)
  obtain t where t: "subs st e = Some t" "valque t" "user_sub t \<noteq> None" using assms(2) by (auto simp: receives_def)
  have "\<exists>t'. subs st1 e = Some t' \<and> ev_que t' = ev_que t \<and> valque t' \<and> user_sub t' \<noteq> None"
    using st1 s t by (cases "e = x") auto
  moreover have "queues st1 = queues st" "calls st1 = calls st" using st1 by auto
  ultimately show ?thesis using t by (auto simp: history_def pending_def receives_def)
qed

lemma history_after: "history e (afterRead i r) = history e (snd r) \<and> receives e (afterRead i r) = receives e (snd r)"
  by (cases r; cases "fst r") (auto simp: afterRead_def history_def pending_def receives_def split: option.splits)

lemma history_labor: "history e (doLabor st) = history e st \<and> receives e (doLabor st) = receives e st"
  by (auto simp: doLabor_def history_def pending_def receives_def delivered_def split: option.splits)

lemma history_overflow: "history e (reportOverflow st) = history e st \<and> receives e (reportOverflow st) = receives e st"
  by (auto simp: reportOverflow_def history_def pending_def receives_def delivered_def split: option.splits)

lemma history_fields: "queues st' = queues st \<Longrightarrow> subs st' = subs st \<Longrightarrow> calls st' = calls st \<Longrightarrow>
    history e st' = history e st \<and> receives e st' = receives e st"
  by (simp add: history_def pending_def receives_def split: option.splits)

lemma history_task:
  assumes ok: "ev_ok one st" and r: "receives e st" and t: "event_task st = Some st'"
  shows "history e st' = history e st \<and> receives e st'"
proof (cases "task st")
  case TWait
  then have "st' = (doLabor (st\<lparr>ppendsem := False, extraLaborBusy := True\<rparr>))\<lparr>task := TLabor\<rparr>"
    using t by (simp add: event_task_def split: if_splits)
  then show ?thesis using r history_labor[of e "st\<lparr>ppendsem := False, extraLaborBusy := True\<rparr>"]
      history_fields[of "st\<lparr>ppendsem := False, extraLaborBusy := True\<rparr>" st e]
      history_fields[of st' "doLabor (st\<lparr>ppendsem := False, extraLaborBusy := True\<rparr>)" e] by simp
next
  case TLabor
  then have "st' = (doLabor (st\<lparr>extraLaborBusy := False\<rparr>))\<lparr>task := TRead 0\<rparr>" using t by (simp add: event_task_def)
  then show ?thesis using r history_labor[of e "st\<lparr>extraLaborBusy := False\<rparr>"]
      history_fields[of "st\<lparr>extraLaborBusy := False\<rparr>" st e]
      history_fields[of st' "doLabor (st\<lparr>extraLaborBusy := False\<rparr>)" e] by simp
next
  case (TRead i)
  show ?thesis
  proof (cases "i < length (queues st)")
    case True
    show ?thesis
    proof (cases "flowCtrlMode st \<and> nDuplicates (queues st ! i) = 0")
      case skip: True
      then have "st' = afterRead i (None, st)" using t TRead True by (simp add: event_task_def event_read_def)
      then show ?thesis using r history_after[of e i "(None, st)"] by simp
    next
      case False
      then obtain c st1 where "readLoop i st = Some (c, st1)" "st' = afterRead i (c, st1)"
        using t TRead True by (auto simp: event_task_def event_read_def)
      then show ?thesis using history_read[OF ev_okD(1)[OF ok] True r] history_after[of e i "(c, st1)"] by simp
    qed
  next
    case False
    then have "st' = (reportOverflow st)\<lparr>task := (if pendexit st then TExit else TWait)\<rparr>"
      using t TRead by (simp add: event_task_def)
    then show ?thesis using r history_overflow[of e st] history_fields[of st' "reportOverflow st" e] by simp
  qed
next
  case (TCall i x)
  obtain st1 where d: "callbackDone x st = Some st1" "ev_ok one (st1\<lparr>task := TRead i\<rparr>)" "queues st1 = queues st"
    using done_keeps[OF ok TCall] by blast
  then obtain c st2 where rd: "readLoop i st1 = Some (c, st2)" "st' = afterRead i (c, st2)"
    using t TCall by (auto simp: event_task_def)
  have i: "i < length (queues st1)" using ev_okD(3)[OF ok] TCall d(3) by (simp add: callback_ok_def)
  have ok1: "rings_ok (queues st1) (subs st1)" using ev_okD(1)[OF d(2)] by simp
  have h: "history e st1 = history e st" "receives e st1" using history_done[OF d(1) r] by auto
  show ?thesis using history_read[OF ok1 i h(2) rd(1)] h(1) history_after[of e i "(c, st2)"] rd(2) by simp
qed (use t in \<open>simp_all add: event_task_def\<close>)

section \<open>All steps\<close>

lemma control_same:
  assumes "evStep op st = Some st'"
  shows "(case op of OSignal \<Rightarrow> True | OStart c \<Rightarrow> True | OClose \<Rightarrow> True | OFlowOn \<Rightarrow> True | OFlowOff \<Rightarrow> True | OAddLabor f a \<Rightarrow> True
     | OPostLabor \<Rightarrow> True | OAddOverflow f a \<Rightarrow> True | OWriteField p b \<Rightarrow> True | OWriteRecord r a b c \<Rightarrow> True | _ \<Rightarrow> False) \<longrightarrow>
     queues st' = queues st \<and> subs st' = subs st \<and> calls st' = calls st"
  using assms by (cases op) (auto simp: db_start_events_def db_close_events_def db_event_flow_ctrl_mode_on_def
     db_event_flow_ctrl_mode_off_def db_add_overflow_event_def db_add_extra_labor_event_def db_post_extra_labor_def
     signalTask_def)

text \<open>Only posting to a subscription and cancelling it change its history.\<close>

lemma history_step:
  assumes ok: "ev_ok one st" and r: "receives e st" and fits: "evFits op st" and c: "one \<longrightarrow> (\<forall>e. op = OCancel e \<longrightarrow> closing st = [])"
    and st': "evStep op st = Some st'" and op: "op \<notin> {OPost e, OCancel e, OCancelSelf e}"
  shows "history e st' = history e st \<and> receives e st'"
proof -
  note rok = ev_okD(1)[OF ok]
  obtain s where s: "subs st e = Some s" "valque s" "user_sub s \<noteq> None" using r by (auto simp: receives_def)
  have fr: ?thesis if "frame x st st'" "e \<noteq> x" for x
    using history_frame[OF rok that r] r by (simp add: receives_def)
  have rest: ?thesis if "queues st' = queues st" "subs st' = subs st" "calls st' = calls st"
    using history_fields[OF that] r by simp
  show ?thesis
  proof (cases op)
    case (OAdd new m pa f arg sel)
    have u: "subs st' e = subs st e" "calls st' = calls st" "\<forall>j < length (queues st). view (queues st' ! j) = view (queues st ! j)"
      using add_keeps[OF ok, of new m pa f arg sel] fits st' s(1) OAdd by (auto split: option.splits)
    have "ev_que s < length (queues st)" using rings_que[OF rok s(1)] by simp
    then show ?thesis using u s by (simp add: history_def pending_def receives_def)
  next
    case (OEnable x)
    obtain st1 where e: "db_event_enable x st = Some st1" "frame x st st1" "queues st1 = queues st"
        using enable_keeps[OF ok, of x] fits OEnable by auto
    then have st1: "st' = st1" using st' OEnable by simp
    show ?thesis
    proof (cases "e = x")
      case True
      have "\<exists>b. subs st' e = Some (s\<lparr>enabled := b\<rparr>)" and "calls st' = calls st"
        using st' OEnable s(1) True by (auto simp: db_event_enable_def Let_def intro: exI[of _ True] exI[of _ "enabled s"])
      then show ?thesis using e(3) st1 s by (auto simp: history_def pending_def receives_def)
    next
      case False
      then show ?thesis using fr e st1 by blast
    qed
  next
    case (ODisable x)
    then have lv: "live x st" using fits by simp
    then obtain t where t: "subs st x = Some t" by (auto simp: live_def)
    obtain st1 where e: "db_event_disable x st = Some st1" "frame x st st1" "queues st1 = queues st" "subs st1 x = Some (t\<lparr>enabled := False\<rparr>)"
        using disable_keeps[OF ok lv t] by blast
    then have st1: "st' = st1" using st' ODisable by simp
    show ?thesis
    proof (cases "e = x")
      case True
      then show ?thesis using e st1 s t by (auto simp: history_def pending_def receives_def frame_def)
    next
      case False
      then show ?thesis using fr e st1 by blast
    qed
  next
    case (OPost x)
    then show ?thesis using post_keeps[OF ok, of x] fits st' op fr[of x] by auto
  next
    case (OCancel x)
    then show ?thesis using cancel_keeps[OF ok, of x False] fits st' op c fr[of x] by auto
  next
    case (OCancelSelf x)
    then show ?thesis using cancel_keeps[OF ok, of x True] fits st' op fr[of x] by (auto split: taskpc.splits)
  next
    case (OWake x)
    then have x: "x \<in> set (closing st)" using fits by simp
    then have "e \<noteq> x" using ev_okD(4)[OF ok] s by (auto simp: closing_ok_def)
    then show ?thesis using wake_keeps[OF ok x] st' OWake fr[of x] by auto
  next
    case OTask
    then show ?thesis using history_task[OF ok r] st' by simp
  qed (use rest control_same[OF st'] in auto)
qed

lemma lastAt_split: "lastAt e xs k \<Longrightarrow> \<exists>as bs l. xs = as @ (QEvent e, l) # bs \<and> length as = k \<and> pendLogs e bs = []"
proof -
  assume l: "lastAt e xs k"
  then have k: "k < length xs" by (simp add: lastAt_def)
  have "xs = take k xs @ xs ! k # drop (Suc k) xs" by (rule id_take_nth_drop[OF k])
  moreover have "xs ! k = (QEvent e, snd (xs ! k))" using l by (simp add: lastAt_def prod_eq_iff)
  moreover have "pendLogs e (drop (Suc k) xs) = []" unfolding pendLogs_none evl_at using l by (auto simp: lastAt_def)
  moreover have "length (take k xs) = k" using k by simp
  ultimately show ?thesis by metis
qed

lemma ulong_changes: "ulong (n + 1) \<noteq> n"
proof
  assume n: "ulong (n + 1) = n"
  then have "n < 4294967296" unfolding ulong_mod by (metis mod_less_divisor zero_less_numeral)
  then show False using n by (cases "n + 1 < 4294967296") (auto simp: ulong_mod dest: less_antisym)
qed

text \<open>Posting appends the value, or replaces the last one that is pending.\<close>

lemma history_post:
  assumes ok: "ev_ok one st" and r: "receives e st" and s: "subs st e = Some s" and st': "evStep (OPost e) st = Some st'"
    and ov: "queovr st' = queovr st"
  shows "receives e st' \<and> (\<exists>l0. history e st' = history e st @ [fillLog (paddr s) st l0]
      \<or> pending e st \<noteq> [] \<and> history e st' = butlast (history e st) @ [fillLog (paddr s) st l0])"
proof -
  note rok = ev_okD(1)[OF ok]
  have vs: "valque s" "user_sub s \<noteq> None" using r s by (auto simp: receives_def)
  let ?i = "ev_que s" and ?q = "queues st ! ev_que s" and ?f = "fillLog (paddr s) st"
  have i: "?i < length (queues st)" using rings_que[OF rok s] by simp
  obtain s' q' b where p: "db_post_single_event_private e st = Some ((setSub e s' (setQue ?i q' st))
       \<lparr>signals := (if view ?q = [] then signals st + 1 else signals st), queovr := (if b then ulong (queovr st + 1) else queovr st)\<rparr>)"
     "ctl s' = ctl s" "postSpec e (valque s) (flowCtrlMode st) ?f (view ?q) (view q') b"
    using post_ok[OF rok s] by blast
  have same: "ev_que s' = ?i" "valque s'" "user_sub s' \<noteq> None" using ctl_same[OF p(2)] vs by auto
  have "ulong (queovr st + 1) \<noteq> queovr st" by (rule ulong_changes)
  have eq: "st' = (setSub e s' (setQue ?i q' st))\<lparr>signals := (if view ?q = [] then signals st + 1 else signals st),
     queovr := (if b then ulong (queovr st + 1) else queovr st)\<rparr>" using st' p(1) by simp
  have "\<not> b" using ov \<open>ulong (queovr st + 1) \<noteq> queovr st\<close> unfolding eq by (cases b) simp_all
  have h: "history e st' = delivered e (calls st) @ pendLogs e (view q')" "receives e st'"
    using same i unfolding eq by (simp_all add: history_def pending_def receives_def)
  have h0: "history e st = delivered e (calls st) @ pendLogs e (view ?q)" "pending e st = pendLogs e (view ?q)"
    using s by (auto simp: history_def pending_def)
  consider (repl) k where "lastAt e (view ?q) k" "view q' = (view ?q)[k := (QEvent e, ?f (snd (view ?q ! k)))]"
    | (push) l where "view q' = view ?q @ [(QEvent e, ?f l)]"
    using p(3) \<open>\<not> b\<close> vs(1) by (auto simp: postSpec_def split: if_splits)
  then show ?thesis
  proof cases
    case repl
    obtain as bs l where sp: "view ?q = as @ (QEvent e, l) # bs" "length as = k" "pendLogs e bs = []"
      using lastAt_split[OF repl(1)] by blast
    have "view q' = as @ (QEvent e, ?f l) # bs" using repl(2) sp by (simp add: nth_append list_update_append)
    then have "history e st' = butlast (history e st) @ [?f l]" "pending e st \<noteq> []"
      unfolding h(1) h0 sp(1) using sp(3) by (simp_all add: butlast_append)
    then show ?thesis using h(2) by blast
  next
    case push
    then show ?thesis using h h0 by auto
  qed
qed

lemma history_run:
  "ev_reach one st \<Longrightarrow> receives e st \<Longrightarrow> mayRun one ops st \<Longrightarrow> evRun ops st = Some st' \<Longrightarrow>
   set ops \<inter> {OPost e, OCancel e, OCancelSelf e} = {} \<Longrightarrow> history e st' = history e st \<and> receives e st'"
proof (induction ops arbitrary: st)
  case (Cons op ops)
  obtain st1 where st1: "evStep op st = Some st1" "evRun ops st1 = Some st'" using Cons.prems(4) by (auto split: Option.bind_splits)
  have f: "task st \<noteq> TExit" "evFits op st" "one \<longrightarrow> (\<forall>e. op = OCancel e \<longrightarrow> closing st = [])"
    using Cons.prems(3) aloneD[of one op st] by auto
  have 1: "history e st1 = history e st" "receives e st1"
    using history_step[OF ev_reach_ok[OF Cons.prems(1)] Cons.prems(2) f(2,3) st1(1)] Cons.prems(5) by auto
  have "ev_reach one st1" by (rule ev_reach.step[OF Cons.prems(1) f st1(1)])
  moreover have "mayRun one ops st1" using Cons.prems(3) st1(1) by simp
  ultimately show ?case using Cons.IH[of st1] 1 st1(2) Cons.prems(5) by simp
qed simp

end
