(* ===== verification/DbEventProps.thy ===== *)
theory DbEventProps
  imports DbEventHistory
begin

text \<open>The properties of the event system, with the runs they are applied to.\<close>

section \<open>Runs\<close>

text \<open>A record with a two-byte field, and subscriptions to it.\<close>

definition demoAddr :: dbaddr where
  "demoAddr = \<lparr>precord = 1, pfield = 100, no_elements = 1, field_size = 2\<rparr>"

definition demoStart :: dbev where
  "demoStart = db_init_events (\<lambda>_. \<lparr>mlis = [], r_stat = 0, r_sevr = 0, r_time = (0, 0)\<rparr>) (\<lambda>p. if p = 100 then 7 else 0)"

definition demoAdd :: "addr \<Rightarrow> evop" where
  "demoAdd e = OAdd (Some e) True demoAddr (Some 5) 9 1"

lemma demoStart_reach: "ev_reach one demoStart"
  unfolding demoStart_def by (rule ev_reach.init) simp

text \<open>A run from the start that reaches a state with a given observation.\<close>

lemma demo_state:
  assumes "mayRun one ops demoStart" "map_option f (evRun ops demoStart) = Some v"
  shows "\<exists>st. ev_reach one st \<and> evRun ops demoStart = Some st \<and> f st = v"
  using run_reach[OF demoStart_reach assms(1)] assms(2) by auto

lemma run_then: "evRun xs st = Some st1 \<Longrightarrow> evRun ys st1 = Some st2 \<Longrightarrow> evRun (xs @ ys) st = Some st2"
  by (induction xs arbitrary: st) (auto split: Option.bind_splits)

section \<open>Consequences of the invariant\<close>

lemma waiter_signalled: "ev_reach True st \<Longrightarrow> e \<in> set (closing st) \<Longrightarrow> subs st e = Some s \<Longrightarrow> \<not> callBackInProgress s \<Longrightarrow> pflush_sem st"
  using ev_okD(6)[OF ev_reach_ok] by (auto simp: waiter_ok_def)

text \<open>The places of the ring, by what is in them.\<close>

lemma ring_places:
  assumes "rings_ok qs sb" "i < length qs"
  shows "length (view (qs ! i)) = nCanceled (qs ! i) + nDuplicates (qs ! i) + card (set (evl (view (qs ! i))))"
proof -
  have r: "rep (qs ! i) (view (qs ! i))" and c: "countsOk (qs ! i) (view (qs ! i))"
    using rings_at[OF assms] by (auto simp: queOk_def)
  show ?thesis using entries_split[of "view (qs ! i)"] rep_nonempty[OF r] c by (simp add: countsOk_def)
qed

lemma post_fits:
  assumes ok: "ev_ok one st" and s: "subs st e = Some s" and st': "db_post_single_event_private e st = Some st'"
    and few: "nCanceled (queues st ! ev_que s) + quota (queues st ! ev_que s) div 4 \<le> 33"
  shows "queovr st' = queovr st"
proof -
  note rok = ev_okD(1)[OF ok]
  let ?q = "queues st ! ev_que s"
  have i: "ev_que s < length (queues st)" and qo: "queOk (subs st) (ev_que s) ?q" and lo: "logOk e s (getix ?q) (view ?q)"
    using rings_que[OF rok s] by auto
  obtain s' q' ov where p: "st' = (setSub e s' (setQue (ev_que s) q' st))
       \<lparr>signals := (if view ?q = [] then signals st + 1 else signals st), queovr := (if ov then ulong (queovr st + 1) else queovr st)\<rparr>"
     "postSpec e (valque s) (flowCtrlMode st) (fillLog (paddr s) st) (view ?q) (view q') ov"
    using post_ok[OF rok s] st' by auto
  have "\<not> ov"
  proof
    assume ov
    then have full: "128 \<le> length (view ?q)" and e: "e \<notin> set (evl (view ?q))"
      using p(2) by (auto simp: postSpec_def split: if_splits)
    have mem: "set (evl (view ?q)) \<subseteq> members (subs st) (ev_que s)" "quota ?q = 4 * card (members (subs st) (ev_que s))"
      and d: "nDuplicates ?q \<le> 95" using qo by (auto simp: queOk_def countsOk_def)
    have em: "e \<in> members (subs st) (ev_que s)" using s by (simp add: members_iff)
    have fin: "finite (members (subs st) (ev_que s))" using rok by (simp add: rings_ok_def members_finite)
    have "card (set (evl (view ?q))) < card (members (subs st) (ev_que s))"
      by (rule psubset_card_mono[OF fin]) (use mem(1) e em in blast)
    then show False using ring_places[OF rok i] full few d mem(2) by simp
  qed
  then show ?thesis using p(1) by simp
qed

section \<open>An overflow\<close>

text \<open>One subscription with 96 entries, and \<open>k\<close> places cancelled.\<close>

definition flooded :: "bool \<Rightarrow> nat \<Rightarrow> nat \<Rightarrow> dbev \<Rightarrow> bool" where
  "flooded one n k st \<longleftrightarrow> ev_reach one st \<and> task st = TWait \<and> \<not> flowCtrlMode st \<and> length (queues st) = 1 \<and> dom (subs st) = {1}
     \<and> receives 1 st \<and> length (pending 1 st) = n \<and> length (view (queues st ! 0)) = n + k"

lemma receives_live: "ev_ok one st \<Longrightarrow> receives e st \<Longrightarrow> live e st"
  using ev_okD(4) by (fastforce simp: receives_def live_def closing_ok_def)

lemma que0: "ev_ok one st \<Longrightarrow> length (queues st) = 1 \<Longrightarrow> subs st e = Some s \<Longrightarrow> ev_que s = 0"
  using rings_que[OF ev_okD(1), of one st e s] by simp

lemma flood_step:
  assumes f: "flooded one n 0 st" and n: "n < 96"
  shows "\<exists>st'. flooded one (Suc n) 0 st'"
proof -
  have re: "ev_reach one st" and t: "task st = TWait" and fl: "\<not> flowCtrlMode st" and l1: "length (queues st) = 1"
      and dm: "dom (subs st) = {1}" and rc: "receives 1 st" and pn: "length (pending 1 st) = n" and vl: "length (view (queues st ! 0)) = n"
    using f by (simp_all add: flooded_def)
  note ok = ev_reach_ok[OF re]
  have lv: "live 1 st" by (rule receives_live[OF ok rc])
  obtain s where s: "subs st 1 = Some s" "valque s" "user_sub s \<noteq> None" using rc by (auto simp: receives_def)
  have q0: "ev_que s = 0" by (rule que0[OF ok l1 s(1)])
  obtain s' q' ov where p: "db_post_single_event_private 1 st = Some ((setSub 1 s' (setQue 0 q' st))
       \<lparr>signals := (if view (queues st ! 0) = [] then signals st + 1 else signals st), queovr := (if ov then ulong (queovr st + 1) else queovr st)\<rparr>)"
     "ctl s' = ctl s" "postSpec 1 True False (fillLog (paddr s) st) (view (queues st ! 0)) (view q') ov"
    using post_ok[OF ev_okD(1)[OF ok] s(1)] q0 s(2) fl by auto
  obtain l where v: "view q' = view (queues st ! 0) @ [(QEvent 1, l)]" using p(3) vl n by (auto simp: postSpec_def)
  let ?st = "(setSub 1 s' (setQue 0 q' st))
       \<lparr>signals := (if view (queues st ! 0) = [] then signals st + 1 else signals st), queovr := (if ov then ulong (queovr st + 1) else queovr st)\<rparr>"
  have "ev_reach one ?st" by (rule ev_reach.step[OF re, of "OPost 1"]) (use t lv p(1) in simp_all)
  moreover have "ev_que s' = 0" "valque s'" "user_sub s' \<noteq> None" using ctl_same[OF p(2)] s q0 by auto
  ultimately have "flooded one (Suc n) 0 ?st" using t fl l1 dm v vl pn s(1) q0
    by (auto simp: flooded_def receives_def pending_def)
  then show ?thesis by blast
qed

text \<open>A second subscription comes, is posted to once, and goes.\<close>

definition guest :: evop where
  "guest = OAdd (Some 2) True demoAddr (Some 5) 9 1"

lemma guest_adds:
  assumes f: "flooded one 96 k st" and k: "k \<le> 32"
  shows "\<exists>st1. evStep guest st = Some st1 \<and> ev_reach one st1 \<and> task st1 = TWait \<and> \<not> flowCtrlMode st1 \<and> length (queues st1) = 1
     \<and> dom (subs st1) = {1, 2} \<and> receives 1 st1 \<and> receives 2 st1 \<and> pending 1 st1 = pending 1 st
     \<and> 2 \<notin> set (evl (view (queues st1 ! 0))) \<and> length (view (queues st1 ! 0)) = 96 + k"
proof -
  have re: "ev_reach one st" and t: "task st = TWait" and fl: "\<not> flowCtrlMode st" and l1: "length (queues st) = 1"
      and dm: "dom (subs st) = {1}" and rc: "receives 1 st" and pn: "length (pending 1 st) = 96" and vl: "length (view (queues st ! 0)) = 96 + k"
    using f by (simp_all add: flooded_def)
  note ok = ev_reach_ok[OF re]
  note rok = ev_okD(1)[OF ok]
  obtain s where s: "subs st 1 = Some s" "valque s" "user_sub s \<noteq> None" using rc by (auto simp: receives_def)
  have q0: "ev_que s = 0" by (rule que0[OF ok l1 s(1)])
  have u2: "subs st 2 = None" using dm by (metis domIff insertE num.distinct(1) numeral_eq_one_iff singletonD)
  let ?q = "queues st ! 0"
  have qo: "queOk (subs st) 0 ?q" by (rule rings_at[OF rok]) (simp add: l1)
  have mem: "members (subs st) 0 = {1}"
  proof -
    have "members (subs st) 0 \<subseteq> dom (subs st)" by (auto simp: members_def)
    then show ?thesis using dm s(1) q0 by (auto simp: members_iff)
  qed
  have quo: "quota ?q = 4" using qo mem by (simp add: queOk_def)
  have sub: "set (evl (view ?q)) \<subseteq> {1}" using qo mem by (simp add: queOk_def)
  have pq: "pending 1 st = pendLogs 1 (view ?q)" using s(1) q0 by (simp add: pending_def)
  have e1: "1 \<in> set (evl (view ?q))"
  proof -
    have "pendLogs 1 (view ?q) \<noteq> []" unfolding pq[symmetric] using pn by (metis list.size(3) zero_neq_numeral)
    then show ?thesis using pendLogs_none[of 1 "view ?q"] by blast
  qed
  have "set (evl (view ?q)) = {1}" using sub e1 by blast
  then have "card (set (evl (view ?q))) = 1" by simp
  moreover have "nDuplicates ?q + card (set (evl (view ?q))) = length (evl (view ?q))" using qo by (simp add: queOk_def countsOk_def)
  moreover have "96 \<le> length (evl (view ?q))"
  proof -
    have "length (pendLogs 1 xs) \<le> length (evl xs)" for xs by (induction xs) (auto split: slot.splits)
    from this[of "view ?q"] show ?thesis unfolding pq[symmetric] pn .
  qed
  ultimately have nc: "nCanceled ?q \<le> k" using ring_places[OF rok, of 0] l1 vl by simp
  have fq: "findQue (queues st) = Some 0" using l1 quo nc k by (cases "queues st") auto
  have add: "evStep guest st = Some (setSub 2 \<lparr>paddr = demoAddr, user_sub = Some 5, user_arg = 9, ev_que = 0, pLastLog = None, npend = 0,
        nreplace = 0, select = 1, valque = True, callBackInProgress = False, enabled = False\<rparr>
        (setQue 0 (?q\<lparr>quota := ushort (quota ?q + 4)\<rparr>) st))"
    using fq l1 by (simp add: guest_def db_add_event_def demoAddr_def)
  let ?q1 = "?q\<lparr>quota := ushort (quota ?q + 4)\<rparr>"
  have v1: "view ?q1 = view ?q" by (simp add: view_def)
  let ?st = "setSub 2 \<lparr>paddr = demoAddr, user_sub = Some 5, user_arg = 9, ev_que = 0, pLastLog = None, npend = 0,
        nreplace = 0, select = 1, valque = True, callBackInProgress = False, enabled = False\<rparr> (setQue 0 ?q1 st)"
  have "ev_reach one ?st" by (rule ev_reach.step[OF re _ _ _ add]) (use t u2 in \<open>simp_all add: guest_def\<close>)
  moreover have "2 \<notin> set (evl (view ?q))" using sub by auto
  moreover have "dom (subs ?st) = {1, 2}" using dm by auto
  ultimately show ?thesis using add t fl l1 v1 vl s q0 by (auto simp: receives_def pending_def)
qed

lemma guest_posts:
  assumes re: "ev_reach one st" and t: "task st = TWait" and fl: "\<not> flowCtrlMode st" and l1: "length (queues st) = 1"
    and rc: "receives 2 st" and no: "2 \<notin> set (evl (view (queues st ! 0)))" and len: "length (view (queues st ! 0)) \<le> 128"
  shows "\<exists>st1. evStep (OPost 2) st = Some st1 \<and> ev_reach one st1 \<and> (if length (view (queues st ! 0)) = 128 then queovr st1 \<noteq> queovr st
     else length (view (queues st1 ! 0)) = Suc (length (view (queues st ! 0))) \<and> frame 2 st st1 \<and> length (queues st1) = 1
       \<and> receives 2 st1 \<and> dom (subs st1) = dom (subs st))"
proof -
  note ok = ev_reach_ok[OF re]
  have lv: "live 2 st" by (rule receives_live[OF ok rc])
  obtain s where s: "subs st 2 = Some s" "valque s" "user_sub s \<noteq> None" using rc by (auto simp: receives_def)
  have q0: "ev_que s = 0" by (rule que0[OF ok l1 s(1)])
  obtain s' q' ov where p: "db_post_single_event_private 2 st = Some ((setSub 2 s' (setQue 0 q' st))
       \<lparr>signals := (if view (queues st ! 0) = [] then signals st + 1 else signals st), queovr := (if ov then ulong (queovr st + 1) else queovr st)\<rparr>)"
     "ctl s' = ctl s" "postSpec 2 True False (fillLog (paddr s) st) (view (queues st ! 0)) (view q') ov"
    using post_ok[OF ev_okD(1)[OF ok] s(1)] q0 s(2) fl by auto
  let ?st = "(setSub 2 s' (setQue 0 q' st))
       \<lparr>signals := (if view (queues st ! 0) = [] then signals st + 1 else signals st), queovr := (if ov then ulong (queovr st + 1) else queovr st)\<rparr>"
  have r: "ev_reach one ?st" by (rule ev_reach.step[OF re, of "OPost 2"]) (use t lv p(1) in simp_all)
  have fr: "frame 2 st ?st" using post_keeps[OF ok lv] p(1) by auto
  show ?thesis
  proof (cases "length (view (queues st ! 0)) = 128")
    case True
    then have ov using p(3) no by (simp add: postSpec_def)
    then show ?thesis using True p(1) r ulong_changes[of "queovr st"] by auto
  next
    case False
    then obtain l where "view q' = view (queues st ! 0) @ [(QEvent 2, l)]" using p(3) no len by (auto simp: postSpec_def)
    moreover have "valque s'" "user_sub s' \<noteq> None" using ctl_same[OF p(2)] s by auto
    moreover have "dom (subs ?st) = dom (subs st)" using s(1) by auto
    ultimately show ?thesis using False p(1) r fr l1 by (auto simp: receives_def)
  qed
qed

lemma guest_step:
  assumes f: "flooded one 96 k st" and k: "k < 32"
  shows "\<exists>st'. flooded one 96 (Suc k) st'"
proof -
  have rc: "receives 1 st" "length (pending 1 st) = 96" using f by (simp_all add: flooded_def)
  obtain st1 where a: "ev_reach one st1" "task st1 = TWait" "\<not> flowCtrlMode st1" "length (queues st1) = 1" "dom (subs st1) = {1, 2}"
      "receives 1 st1" "receives 2 st1" "pending 1 st1 = pending 1 st" "2 \<notin> set (evl (view (queues st1 ! 0)))"
      "length (view (queues st1 ! 0)) = 96 + k"
    using guest_adds[OF f] k by auto
  obtain st2 where p: "ev_reach one st2" "length (view (queues st2 ! 0)) = Suc (96 + k)" "frame 2 st1 st2" "length (queues st2) = 1"
      "receives 2 st2" "dom (subs st2) = {1, 2}"
    using guest_posts[OF a(1,2,3,4,7,9)] a(5,10) k by auto
  note ok1 = ev_reach_ok[OF a(1)] and ok2 = ev_reach_ok[OF p(1)]
  have h2: "pending 1 st2 = pending 1 st1" "receives 1 st2" "task st2 = TWait" "\<not> flowCtrlMode st2"
    using history_frame[OF ev_okD(1)[OF ok1] p(3) _ a(6)] p(3) a(2,3,6) by (auto simp: history_def frame_def receives_def)
  have lv: "live 2 st2" by (rule receives_live[OF ok2 p(5)])
  have cl: "closing st2 = []"
  proof -
    have "x \<notin> set (closing st2)" for x
    proof
      assume x: "x \<in> set (closing st2)"
      then have "x \<in> dom (subs st2)" using ev_okD(4)[OF ok2] by (auto simp: closing_ok_def)
      then have "x = 1 \<or> x = 2" using p(6) by simp
      then show False using x receives_live[OF ok2 p(5)] receives_live[OF ok2 h2(2)] by (auto simp: live_def)
    qed
    then show ?thesis by (metis list.set_intros(1) neq_Nil_conv)
  qed
  obtain st3 where c: "db_cancel_event False 2 st2 = Some st3" "frame 2 st2 st3" "sameLen st2 st3" "subs st3 2 = None"
    using cancel_keeps[OF ok2 lv, of False] h2(3) cl by auto
  have r3: "ev_reach one st3" by (rule ev_reach.step[OF p(1), of "OCancel 2"]) (use h2 lv c(1) cl in simp_all)
  have h3: "pending 1 st3 = pending 1 st2" "receives 1 st3" "task st3 = TWait" "\<not> flowCtrlMode st3"
    using history_frame[OF ev_okD(1)[OF ok2] c(2) _ h2(2)] c(2) h2 by (auto simp: history_def frame_def receives_def)
  have "dom (subs st3) = {1}"
  proof (rule set_eqI)
    fix x
    show "x \<in> dom (subs st3) \<longleftrightarrow> x \<in> {1}"
    proof (cases "x = 2")
      case True
      then show ?thesis using c(4) by auto
    next
      case False
      then have "x \<in> dom (subs st3) \<longleftrightarrow> x \<in> dom (subs st2)" using c(2) by (simp add: frame_def domIff)
      then show ?thesis using False p(6) by auto
    qed
  qed
  then have "flooded one 96 (Suc k) st3" using r3 h3 h2(1) a(8) rc c(3) p(2,4) by (simp add: flooded_def sameLen_def)
  then show ?thesis by blast
qed

lemma flooded_start: "\<exists>st. flooded one 0 0 st"
proof -
  let ?s = "\<lparr>paddr = demoAddr, user_sub = Some 5, user_arg = 9, ev_que = 0, pLastLog = None, npend = 0,
        nreplace = 0, select = 1, valque = True, callBackInProgress = False, enabled = False\<rparr>"
  let ?q = "newQue\<lparr>quota := ushort (quota newQue + 4)\<rparr>"
  let ?st = "setSub 1 ?s (setQue 0 ?q demoStart)"
  have nq: "quota newQue = 0" "nCanceled newQue = 0" by (simp_all add: newQue_def)
  have d: "queues demoStart = [newQue]" "task demoStart = TOff" "subs demoStart = Map.empty" "flowCtrlMode demoStart = False"
    "pendexit demoStart = False" by (simp_all add: demoStart_def db_init_events_def)
  have add: "evStep (demoAdd 1) demoStart = Some ?st"
    using nq d by (simp add: demoAdd_def db_add_event_def demoAddr_def)
  have r1: "ev_reach one ?st" by (rule ev_reach.step[OF demoStart_reach _ _ _ add]) (use d in \<open>simp_all add: demoAdd_def\<close>)
  have "ev_reach one (db_start_events True ?st)"
    by (rule ev_reach.step[OF r1, of "OStart True"]) (use d in simp_all)
  moreover have "view ?q = []"
  proof -
    have "view ?q = view newQue" by (simp add: view_def)
    then show ?thesis using rep_view[OF rep_new] by simp
  qed
  ultimately have "flooded one 0 0 (db_start_events True ?st)" using d
    by (auto simp: flooded_def db_start_events_def receives_def pending_def)
  then show ?thesis by blast
qed

lemma flooded_reachable: "n \<le> 96 \<Longrightarrow> \<exists>st. flooded one n 0 st"
proof (induction n)
  case (Suc n)
  then show ?case using flood_step[of one n] by auto
qed (rule flooded_start)

lemma guests_reachable: "k \<le> 32 \<Longrightarrow> \<exists>st. flooded one 96 k st"
proof (induction k)
  case (Suc k)
  then show ?case using guest_step[of one k] by auto
qed (rule flooded_reachable, simp)


section \<open>The task alone\<close>

text \<open>One turn of reading empties the ring, or takes at least one entry out and calls.\<close>

lemma nextCall_shorter: "fst (nextCall sb xs) = None \<and> snd (nextCall sb xs) = [] \<or>
    fst (nextCall sb xs) \<noteq> None \<and> length (snd (nextCall sb xs)) < length xs"
  by (induction sb xs rule: nextCall.induct) auto

lemma read_turn:
  assumes ok: "ev_ok one (st\<lparr>task := TRead i\<rparr>)" and i: "i < length (queues st)"
  shows "\<exists>st'. map_option (afterRead i) (readLoop i st) = Some st' \<and> ev_ok one st' \<and> length (queues st') = length (queues st)
     \<and> (task st' = TRead (i + 1) \<and> view (queues st' ! i) = []
        \<or> (\<exists>e. task st' = TCall i e) \<and> length (view (queues st' ! i)) < length (view (queues st ! i)))"
proof -
  let ?nc = "nextCall (subs st) (view (queues st ! i))"
  obtain q' sb' where rd: "readLoop i st = Some (map_option fst (fst ?nc), st\<lparr>queues := (queues st)[i := q'], subs := sb',
       calls := calls st @ callsFor (subs st) (fst ?nc) (view q' \<noteq> [])\<rparr>)" "view q' = snd ?nc"
    using readLoop_ok[OF _ i] ev_okD(1)[OF ok] by auto
  obtain r where r: "readLoop i st = Some r" "ev_ok one (afterRead i r)" using read_keeps[OF ok i] by blast
  show ?thesis
  proof (cases "fst ?nc")
    case None
    then show ?thesis using r rd i nextCall_shorter[of "subs st" "view (queues st ! i)"] by (auto simp: afterRead_def)
  next
    case (Some dl)
    then have "length (snd ?nc) < length (view (queues st ! i))" using nextCall_shorter[of "subs st" "view (queues st ! i)"] by auto
    then show ?thesis using r rd i Some by (auto simp: afterRead_def)
  qed
qed

lemma call_drains:
  "ev_ok one st \<Longrightarrow> task st = TCall i e \<Longrightarrow> \<exists>m st'. m \<le> length (view (queues st ! i)) + 1 \<and> evRun (replicate m OTask) st = Some st'
     \<and> task st' = TRead (i + 1) \<and> view (queues st' ! i) = []"
proof (induction "length (view (queues st ! i))" arbitrary: st e rule: less_induct)
  case less
  obtain st1 where d: "callbackDone e st = Some st1" "ev_ok one (st1\<lparr>task := TRead i\<rparr>)" "queues st1 = queues st"
    using done_keeps[OF less.prems] by blast
  have "i < length (queues st1)" using ev_okD(3)[OF less.prems(1)] less.prems(2) d(3) by (simp add: callback_ok_def)
  from read_turn[OF d(2) this] obtain st2 where st2: "event_task st = Some st2" "ev_ok one st2"
      "task st2 = TRead (i + 1) \<and> view (queues st2 ! i) = [] \<or>
       (\<exists>e. task st2 = TCall i e) \<and> length (view (queues st2 ! i)) < length (view (queues st ! i))"
    using less.prems(2) d(1,3) by (auto simp: event_task_def)
  from st2(3) show ?case
  proof (elim disjE conjE exE)
    assume "task st2 = TRead (i + 1)" "view (queues st2 ! i) = []"
    then show ?thesis using st2(1) by (intro exI[of _ 1] exI[of _ st2]) simp
  next
    fix e' assume c: "task st2 = TCall i e'" "length (view (queues st2 ! i)) < length (view (queues st ! i))"
    obtain m st' where m: "m \<le> length (view (queues st2 ! i)) + 1" "evRun (replicate m OTask) st2 = Some st'"
        "task st' = TRead (i + 1)" "view (queues st' ! i) = []" using less.hyps[OF c(2) st2(2) c(1)] by blast
    then show ?thesis using st2(1) c(2) by (intro exI[of _ "Suc m"] exI[of _ st']) simp
  qed
qed

lemma flooded_full: "flooded one 96 32 st \<Longrightarrow> \<exists>st1 st2. evStep guest st = Some st1 \<and> ev_reach one st1 \<and> receives 2 st1 \<and>
    evStep (OPost 2) st1 = Some st2 \<and> queovr st2 \<noteq> queovr st1 \<and> dom (subs st1) = {1, 2}"
proof -
  assume f: "flooded one 96 32 st"
  obtain st1 where a: "evStep guest st = Some st1" "ev_reach one st1" "task st1 = TWait" "\<not> flowCtrlMode st1" "length (queues st1) = 1"
      "dom (subs st1) = {1, 2}" "receives 2 st1" "2 \<notin> set (evl (view (queues st1 ! 0)))" "length (view (queues st1 ! 0)) = 128"
    using guest_adds[OF f] by auto
  then show ?thesis using guest_posts[OF a(2-5,7,8)] by auto
qed

section \<open>Properties\<close>

text \<open>C19. In every reachable state every operation its caller may use returns, and the invariant holds after it:
  the rings, the counters of duplicates, cancelled entries and quotas, the monitor lists, the flags of callbacks and
  the waits agree. No assertion fails and no freed subscription is used, however many threads cancel at once.\<close>
theorem event_operations_safe: "ev_reach False st \<Longrightarrow> evFits op st \<Longrightarrow> \<exists>st'. evStep op st = Some st' \<and> ev_ok False st'"
  using evStep_keeps[OF ev_reach_ok] by blast

lemma event_operations_safe_witness: "\<exists>st'. evStep (demoAdd 1) demoStart = Some st' \<and> ev_ok False st'"
  by (rule event_operations_safe[OF demoStart_reach]) (simp add: demoAdd_def demoStart_def db_init_events_def)

text \<open>C18. The last value posted to a subscription arrives, under every interleaving that follows: for a subscription whose value is
  kept in the queue (one element of at most eight bytes) and that has a callback, after a post that found room in the ring
  (\<open>queovr\<close> unchanged), and while the subscription is neither posted to again nor cancelled, the subscription stays and, once
  nothing is pending for it, the last value its callback got is the one posted, also when earlier ones were replaced in
  the ring. Without room the value is lost (\<open>overflow_reachable\<close>).\<close>
theorem latest_value_delivered:
  assumes "ev_reach one st" "task st \<noteq> TExit" "evFits (OPost e) st" "subs st e = Some s" "valque s" "user_sub s \<noteq> None"
    and "evStep (OPost e) st = Some st1" "queovr st1 = queovr st"
    and "mayRun one ops st1" "evRun ops st1 = Some st2" "set ops \<inter> {OPost e, OCancel e, OCancelSelf e} = {}"
  shows "receives e st2 \<and> (\<exists>l0. last (history e st2) = fillLog (paddr s) st l0
     \<and> (pending e st2 = [] \<longrightarrow> last (delivered e (calls st2)) = fillLog (paddr s) st l0))"
proof -
  have r: "receives e st" using assms(4-6) by (simp add: receives_def)
  have p: "receives e st1" "\<exists>l0. last (history e st1) = fillLog (paddr s) st l0"
    using history_post[OF ev_reach_ok[OF assms(1)] r assms(4,7,8)] by auto
  have "ev_reach one st1" by (rule ev_reach.step[OF assms(1-3) _ assms(7)]) simp
  then have h: "history e st2 = history e st1" "receives e st2" using history_run[OF _ p(1) assms(9-11)] by auto
  moreover have "pending e st2 = [] \<Longrightarrow> history e st2 = delivered e (calls st2)" by (simp add: history_def)
  ultimately show ?thesis using p(2) by auto
qed

lemma latest_value_delivered_witness:
  "\<exists>st2. evRun ([demoAdd 1, OEnable 1, OStart True, OPost 1, OSignal, OWriteField 100 9] @ [OPost 1] @ [OWriteField 100 3, OTask, OTask, OTask, OTask, OTask]) demoStart = Some st2
     \<and> take 2 (l_field (last (delivered 1 (calls st2)))) = [9, 0]"
proof -
  let ?a = "[demoAdd 1, OEnable 1, OStart True, OPost 1, OSignal, OWriteField 100 9]" and ?c = "[OWriteField 100 3, OTask, OTask, OTask, OTask, OTask]"
  have m: "mayRun True ?a demoStart" by code_simp
  have "map_option (\<lambda>st. (task st, evFits (OPost 1) st, map_option (\<lambda>s. (valque s, user_sub s, paddr s)) (subs st 1),
      bytesAt st 100, bytesAt st 101, map_option (\<lambda>st1. (queovr st1 = queovr st, mayRun True ?c st1,
      map_option (\<lambda>st2. pending 1 st2) (evRun ?c st1))) (evStep (OPost 1) st))) (evRun ?a demoStart)
     = Some (TWait, True, Some (True, Some 5, demoAddr), 9, 0, Some (True, True, Some []))" by code_simp
  from demo_state[OF m this] obtain st where st: "ev_reach True st" "evRun ?a demoStart = Some st" and
    f: "task st = TWait" "evFits (OPost 1) st" "map_option (\<lambda>s. (valque s, user_sub s, paddr s)) (subs st 1) = Some (True, Some 5, demoAddr)"
       "bytesAt st 100 = 9" "bytesAt st 101 = 0" "map_option (\<lambda>st1. (queovr st1 = queovr st, mayRun True ?c st1,
       map_option (\<lambda>st2. pending 1 st2) (evRun ?c st1))) (evStep (OPost 1) st) = Some (True, True, Some [])" by auto
  obtain s st1 st2 where s: "subs st 1 = Some s" "valque s" "user_sub s = Some 5" "paddr s = demoAddr"
    and r: "evStep (OPost 1) st = Some st1" "queovr st1 = queovr st" "mayRun True ?c st1" "evRun ?c st1 = Some st2" "pending 1 st2 = []"
    using f(3,6) by auto
  have "\<exists>l0. last (delivered 1 (calls st2)) = fillLog (paddr s) st l0"
    using latest_value_delivered[OF st(1) _ f(2) s(1,2) _ r(1-4)] f(1) s(3) r(5) by auto
  then have "take 2 (l_field (last (delivered 1 (calls st2)))) = [9, 0]"
    using s(4) f(4,5) by (auto simp: fillLog_def demoAddr_def upt_rec Let_def)
  moreover have "evRun [OPost 1] st = Some st1" using r(1) by simp
  ultimately show ?thesis using run_then[OF st(2) run_then[OF _ r(4)]] by blast
qed

text \<open>C20. No wake-up is lost, although the semaphore is signalled after the lock of the queue has been released: when the
  event task waits for its semaphore, the semaphore is empty and flow control is off, then every ring is empty, or a thread
  that has left the lock is about to signal the semaphore, and that step lets the task run.\<close>
theorem no_lost_wakeup:
  assumes "ev_reach one st" "task st = TWait" "\<not> ppendsem st" "\<not> flowCtrlMode st"
  shows "(\<forall>q \<in> set (queues st). view q = [])
     \<or> evFits OSignal st \<and> (\<exists>st'. evStep OSignal st = Some st' \<and> ev_reach one st' \<and> canRun st')"
proof (cases "0 < signals st")
  case True
  have "ev_reach one (signalTask st)" by (rule ev_reach.step[OF assms(1), of OSignal]) (use True assms(2) in simp_all)
  then show ?thesis using True assms(2) by (simp add: canRun_def signalTask_def)
next
  case False
  then show ?thesis using ev_okD(5)[OF ev_reach_ok[OF assms(1)]] assms(2-4) by (force simp: wake_ok_def in_set_conv_nth)
qed

lemma no_lost_wakeup_witness:
  "(\<exists>st. evRun [demoAdd 1, OStart True, OPost 1, OSignal, OTask, OTask, OTask, OTask, OTask] demoStart = Some st
     \<and> (\<forall>q \<in> set (queues st). view q = []) \<and> length (queues st) = 1)
   \<and> (\<exists>st st'. evRun [demoAdd 1, OStart True, OPost 1] demoStart = Some st \<and> view (queues st ! 0) \<noteq> [] \<and> \<not> canRun st
     \<and> evStep OSignal st = Some st' \<and> canRun st')"
proof
  let ?a = "[demoAdd 1, OStart True, OPost 1, OSignal, OTask, OTask, OTask, OTask, OTask]"
  have m: "mayRun True ?a demoStart" by code_simp
  have "map_option (\<lambda>st. (task st, ppendsem st, signals st, flowCtrlMode st, length (queues st))) (evRun ?a demoStart) = Some (TWait, False, 0, False, 1)"
    by code_simp
  from demo_state[OF m this] obtain st where st: "ev_reach True st" "evRun ?a demoStart = Some st" "task st = TWait" "\<not> ppendsem st"
      "signals st = 0" "\<not> flowCtrlMode st" "length (queues st) = 1" by auto
  have "\<not> evFits OSignal st" using st(5) by simp
  then show "\<exists>st. evRun ?a demoStart = Some st \<and> (\<forall>q \<in> set (queues st). view q = []) \<and> length (queues st) = 1"
    using no_lost_wakeup[OF st(1,3,4,6)] st(2,7) by blast
  let ?b = "[demoAdd 1, OStart True, OPost 1]"
  have m: "mayRun True ?b demoStart" by code_simp
  have "map_option (\<lambda>st. (task st, ppendsem st, flowCtrlMode st, length (queues st), view (queues st ! 0) = [])) (evRun ?b demoStart)
     = Some (TWait, False, False, 1, False)" by code_simp
  from demo_state[OF m this] obtain st where st: "ev_reach True st" "evRun ?b demoStart = Some st" "task st = TWait" "\<not> ppendsem st"
      "\<not> flowCtrlMode st" "length (queues st) = 1" "view (queues st ! 0) \<noteq> []" by auto
  have "\<not> (\<forall>q \<in> set (queues st). view q = [])" using st(6,7) by (metis nth_mem zero_less_one)
  with no_lost_wakeup[OF st(1,3-5)] obtain st' where "evStep OSignal st = Some st'" "canRun st'" by blast
  moreover have "\<not> canRun st" using st(3,4) by (simp add: canRun_def)
  ultimately show "\<exists>st st'. evRun ?b demoStart = Some st \<and> view (queues st ! 0) \<noteq> [] \<and> \<not> canRun st
    \<and> evStep OSignal st = Some st' \<and> canRun st'" using st(2,7) by blast
qed

text \<open>C21. When threads begin to cancel one at a time, a waiting canceller whose subscription is in no callback has been
  signalled, and waking it ends its call with the subscription freed.\<close>
theorem canceller_ends:
  "ev_reach True st \<Longrightarrow> e \<in> set (closing st) \<Longrightarrow> subs st e = Some s \<Longrightarrow> \<not> callBackInProgress s \<Longrightarrow>
   evFits (OWake e) st \<and> (\<exists>st'. evStep (OWake e) st = Some st' \<and> subs st' e = None)"
  using waiter_signalled[of st e s] wake_keeps[OF ev_reach_ok, of True st e] by auto

lemma canceller_ends_witness:
  "\<exists>st'. evRun ([demoAdd 1, OStart True, OPost 1, OSignal, OTask, OTask, OTask, OCancel 1, OTask] @ [OWake 1]) demoStart = Some st' \<and> subs st' 1 = None"
proof -
  let ?a = "[demoAdd 1, OStart True, OPost 1, OSignal, OTask, OTask, OTask, OCancel 1, OTask]"
  have m: "mayRun True ?a demoStart" by code_simp
  have "map_option (\<lambda>st. (closing st, map_option callBackInProgress (subs st 1))) (evRun ?a demoStart) = Some ([1], Some False)" by code_simp
  from demo_state[OF m this] obtain st where st: "ev_reach True st" "evRun ?a demoStart = Some st" "closing st = [1]"
      "map_option callBackInProgress (subs st 1) = Some False" by auto
  obtain s where s: "subs st 1 = Some s" "\<not> callBackInProgress s" using st(4) by auto
  obtain st' where st': "evStep (OWake 1) st = Some st'" "subs st' 1 = None" using canceller_ends[OF st(1) _ s] st(3) by auto
  then have "evRun [OWake 1] st = Some st'" by simp
  then show ?thesis using run_then[OF st(2)] st'(2) by blast
qed

text \<open>C22. With two threads cancelling at once this fails, since all of them wait on one binary semaphore: a run of
  permitted operations ends with a canceller waiting for an empty semaphore, its subscription in no callback, and an
  event task with nothing to do.\<close>
theorem two_cancellers_lost_wakeup:
  "\<exists>st s. ev_reach False st \<and> closing st = [1] \<and> subs st 1 = Some s \<and> \<not> callBackInProgress s \<and> \<not> pflush_sem st
     \<and> task st = TWait \<and> \<not> canRun st \<and> signals st = 0"
proof -
  let ?a = "[OStart True, demoAdd 1, demoAdd 2, OPost 1, OSignal, OPost 2, OTask, OTask, OTask, OCancel 1, OTask, OCancel 2, OWake 2, OTask, OTask, OWake 2]"
  have m: "mayRun False ?a demoStart" by code_simp
  have "map_option (\<lambda>st. (closing st, map_option callBackInProgress (subs st 1), pflush_sem st, task st, ppendsem st, signals st)) (evRun ?a demoStart)
     = Some ([1], Some False, False, TWait, False, 0)" by code_simp
  from demo_state[OF m this] show ?thesis by (auto simp: canRun_def)
qed

text \<open>C23. Overflow is impossible while at most 33 places of a ring are taken by the quota of its subscriptions and by
  cancelled entries together, which 33 or fewer subscriptions without cancellation ensure.\<close>
theorem no_overflow:
  assumes "ev_reach one st" "subs st e = Some s" "evStep (OPost e) st = Some st'"
    and "nCanceled (queues st ! ev_que s) + quota (queues st ! ev_que s) div EVENTENTRIES \<le> 33"
  shows "queovr st' = queovr st"
  using post_fits[OF ev_reach_ok[OF assms(1)] assms(2) _ assms(4)] assms(3) by simp

lemma no_overflow_witness: "\<exists>st st'. evRun [demoAdd 1, demoAdd 2, OPost 1] demoStart = Some st \<and> evStep (OPost 2) st = Some st' \<and> queovr st' = queovr st"
proof -
  let ?a = "[demoAdd 1, demoAdd 2, OPost 1]"
  have m: "mayRun True ?a demoStart" by code_simp
  have "map_option (\<lambda>st. (map_option ev_que (subs st 2), nCanceled (queues st ! 0), quota (queues st ! 0), evStep (OPost 2) st \<noteq> None)) (evRun ?a demoStart)
     = Some (Some 0, 0, 8, True)" by code_simp
  from demo_state[OF m this] obtain st s st' where "ev_reach True st" "evRun ?a demoStart = Some st" "subs st 2 = Some s" "ev_que s = 0"
      "nCanceled (queues st ! 0) = 0" "quota (queues st ! 0) = 8" "evStep (OPost 2) st = Some st'" by auto
  then show ?thesis using no_overflow[of True st 2 s st'] by auto
qed

text \<open>Overflow can occur although each ring keeps room for its subscriptions: the test for another queue counts
  a cancelled entry once and a subscription four times, but not the duplicates, so with two subscriptions
  alive a permitted run of additions, posts and cancellations fills a ring, and the next first post is lost.\<close>
theorem overflow_reachable:
  "\<exists>st st'. ev_reach one st \<and> dom (subs st) = {1, 2} \<and> evFits (OPost 2) st \<and> evStep (OPost 2) st = Some st' \<and> queovr st' \<noteq> queovr st"
proof -
  obtain st where "flooded one 96 32 st" using guests_reachable[of 32 one] by auto
  from flooded_full[OF this] show ?thesis using receives_live ev_reach_ok by (metis evFits.simps(4))
qed

text \<open>The event task, run alone, empties the ring it is at and moves on to the next one after at most one step for
  each entry and one more, whatever the entries are.\<close>
theorem queue_drained:
  assumes "ev_reach one st" "task st = TRead i" "i < length (queues st)" "\<not> flowCtrlMode st"
  shows "\<exists>m st'. m \<le> length (view (queues st ! i)) + 1 \<and> evRun (replicate m OTask) st = Some st'
     \<and> task st' = TRead (i + 1) \<and> view (queues st' ! i) = []"
proof -
  have same: "st\<lparr>task := TRead i\<rparr> = st" using assms(2) by (metis dbev.surjective dbev.update_convs(18))
  from read_turn[where one = one and st = st and i = i] obtain st1 where st1: "event_task st = Some st1" "ev_ok one st1"
      "task st1 = TRead (i + 1) \<and> view (queues st1 ! i) = [] \<or>
       (\<exists>e. task st1 = TCall i e) \<and> length (view (queues st1 ! i)) < length (view (queues st ! i))"
    using assms ev_reach_ok[OF assms(1)] same by (auto simp: event_task_def event_read_def)
  from st1(3) show ?thesis
  proof (elim disjE conjE exE)
    assume "task st1 = TRead (i + 1)" "view (queues st1 ! i) = []"
    then show ?thesis using st1(1) by (intro exI[of _ 1] exI[of _ st1]) simp
  next
    fix e assume c: "task st1 = TCall i e" "length (view (queues st1 ! i)) < length (view (queues st ! i))"
    obtain m st' where "m \<le> length (view (queues st1 ! i)) + 1" "evRun (replicate m OTask) st1 = Some st'"
        "task st' = TRead (i + 1)" "view (queues st' ! i) = []" using call_drains[OF st1(2) c(1)] by blast
    then show ?thesis using st1(1) c(2) by (intro exI[of _ "Suc m"] exI[of _ st']) simp
  qed
qed

lemma queue_drained_witness:
  "\<exists>st m st'. evRun [demoAdd 1, demoAdd 2, OStart True, OPost 1, OPost 2, OSignal, OPost 1, OTask, OTask] demoStart = Some st
     \<and> length (view (queues st ! 0)) = 3 \<and> m \<le> 4 \<and> evRun (replicate m OTask) st = Some st' \<and> view (queues st' ! 0) = []"
proof -
  let ?a = "[demoAdd 1, demoAdd 2, OStart True, OPost 1, OPost 2, OSignal, OPost 1, OTask, OTask]"
  have m: "mayRun True ?a demoStart" by code_simp
  have "map_option (\<lambda>st. (task st, length (queues st), flowCtrlMode st, length (view (queues st ! 0)))) (evRun ?a demoStart) = Some (TRead 0, 1, False, 3)" by code_simp
  from demo_state[OF m this] show ?thesis using queue_drained[of True _ 0] by force
qed

end
