(* ===== verification/DbLock.thy ===== *)
theory DbLock
  imports Prelude
begin

text \<open>
  The locks of the database, \<open>base/src/db/dbLock.c\<close>, with the routine that changes links while they
  are in use, \<open>dbPutFieldLink\<close> of \<open>base/src/db/dbAccess.c\<close>. Records that are connected by database links
  share a lock set; a record is processed under the mutex of its lock set, and changing a link takes the
  global lock and the record locks of the sets it touches. Each step is a critical section of
  \<open>lockSetModifyLock\<close> or the acquisition of a mutex, so the model has every interleaving of the threads;
  \<open>None\<close> is a failed assertion or a null pointer. The lists of nodes are lists of addresses (their
  operations are those of \<open>EllLib\<close>). Not modelled: \<open>dblsr\<close> and \<open>dbLockShowLocked\<close> apart from the mutexes
  they try, and \<open>dbLockSetAddrTrace\<close>.
\<close>

section \<open>Data\<close>

datatype listType = listTypeScanLock | listTypeRecordLock | listTypeFree

datatype lockSetState = lockSetStateFree | lockSetStateScanLock | lockSetStateRecordLock

text \<open>
  A lock set. Records stand for their lock records; \<open>lock\<close> is the thread that holds the mutex. Threads
  are named by addresses.
\<close>

record lockSet =
  lockRecordList :: "addr list"
  lock :: ptr
  ls_id :: "32 word"
  ls_type :: listType
  ls_state :: lockSetState
  thread_id :: ptr
  ls_precord :: ptr
  nRecursion :: int
  nWaiting :: int

text \<open>
  Where a thread stands. \<open>Scan\<close> and the next three are in \<open>dbScanLock\<close> of a record: at the head of the loop,
  waiting for the mutex of a lock set, holding it, and waiting for the global lock. The others are
  in \<open>dbPutFieldLink\<close> of a link field of a record: before the global lock, in \<open>dbLockSetRecordLock\<close> of the record
  (at its head, before the mutex, after it), before the switch on the old link, in \<open>dbLockSetSplit\<close> (with
  the merges of the record at hand and the records still to come), before the switch on the new link,
  in \<open>dbLockSetRecordLock\<close> of the target, before the merge, and before the global unlock. The plan of the call
  is \<open>None\<close> when it fails before it touches the old link, else the target of the new database link,
  if that is one.
\<close>

type_synonym plan = "ptr option"

datatype lockpc = Idle | Scan addr | ScanWait addr addr | ScanGot addr addr | ScanGlobal addr
  | PutGlobal addr nat plan
  | PutRec addr nat plan | PutRecWait addr nat plan addr | PutRecCheck addr nat plan addr
  | PutOld addr nat plan | PutSplit "(addr \<times> addr) list" "addr list" addr nat ptr | PutNew addr nat ptr
  | PutDst addr addr | PutDstWait addr addr addr | PutDstCheck addr addr addr
  | PutMerge addr addr | PutEnd

text \<open>
  The state: lock sets by address, the lock set of each record (outer \<open>None\<close> when the record has no lock
  record), the three lists, the link fields of each record (\<open>Some x\<close> for a database link to \<open>x\<close>), where the
  threads stand, and the records each thread holds, that is the calls of \<open>dbScanLock\<close> that have
  returned and are not undone. \<open>dbCalloc\<close> returns blocks not used before.
\<close>

record dblock =
  lockSets :: "addr \<rightharpoonup> lockSet"
  plockSet :: "addr \<rightharpoonup> ptr"
  lockSetList :: "listType \<Rightarrow> addr list"
  lockId :: "32 word"
  nextBlock :: addr
  globalLock :: ptr
  links :: "addr \<Rightarrow> ptr list"
  pcs :: "addr \<Rightarrow> lockpc"
  held :: "addr \<Rightarrow> addr list"

definition setLS :: "addr \<Rightarrow> lockSet \<Rightarrow> dblock \<Rightarrow> dblock" where
  "setLS p s st = st\<lparr>lockSets := (lockSets st)(p \<mapsto> s)\<rparr>"

definition goto :: "addr \<Rightarrow> lockpc \<Rightarrow> dblock \<Rightarrow> dblock" where
  "goto t c st = st\<lparr>pcs := (pcs st)(t := c)\<rparr>"

text \<open>\<open>ellAdd\<close> and \<open>ellDelete\<close> on \<open>lockSetList\<close>.\<close>

definition addTo :: "listType \<Rightarrow> addr \<Rightarrow> dblock \<Rightarrow> dblock" where
  "addTo ty p st = st\<lparr>lockSetList := (lockSetList st)(ty := lockSetList st ty @ [p])\<rparr>"

definition deleteFrom :: "listType \<Rightarrow> addr \<Rightarrow> dblock \<Rightarrow> dblock" where
  "deleteFrom ty p st = st\<lparr>lockSetList := (lockSetList st)(ty := remove1 p (lockSetList st ty))\<rparr>"

section \<open>Lock sets\<close>

definition allocLockSet :: "addr \<Rightarrow> listType \<Rightarrow> lockSetState \<Rightarrow> ptr \<Rightarrow> dblock \<Rightarrow> dblock option" where
  "allocLockSet plockRecord ty state thread st = do {
     (p, l, st1) \<leftarrow> (case lockSetList st listTypeFree of
         p # _ \<Rightarrow> do { s \<leftarrow> lockSets st p; Some (p, lock s, deleteFrom listTypeFree p st) }
       | [] \<Rightarrow> Some (nextBlock st, None, st\<lparr>nextBlock := nextBlock st + 1\<rparr>));
     _ \<leftarrow> plockSet st1 plockRecord;
     Some (addTo ty p (setLS p
       \<lparr>lockRecordList = [plockRecord], lock = l, ls_id = lockId st + 1, ls_type = ty, ls_state = state,
        thread_id = thread, ls_precord = None, nRecursion = 0, nWaiting = 0\<rparr>
       (st1\<lparr>lockId := lockId st + 1, plockSet := (plockSet st1)(plockRecord \<mapsto> Some p)\<rparr>))) }"

definition dbLockGetLockId :: "addr \<Rightarrow> dblock \<Rightarrow> 32 word option" where
  "dbLockGetLockId precord st = do {
     q \<leftarrow> plockSet st precord;
     case q of None \<Rightarrow> Some 0 | Some p \<Rightarrow> map_option ls_id (lockSets st p) }"

text \<open>The record joins a lock set.\<close>

definition addRecord :: "addr \<Rightarrow> addr \<Rightarrow> dblock \<Rightarrow> dblock option" where
  "addRecord r p st = do {
     s \<leftarrow> lockSets st p;
     Some (setLS p (s\<lparr>lockRecordList := lockRecordList s @ [r]\<rparr>) (st\<lparr>plockSet := (plockSet st)(r \<mapsto> Some p)\<rparr>)) }"

text \<open>The records of the second set move to the first, one by one.\<close>

fun moveRecords :: "addr \<Rightarrow> addr \<Rightarrow> addr list \<Rightarrow> dblock \<Rightarrow> dblock option" where
  "moveRecords p1 p2 [] st = Some st"
| "moveRecords p1 p2 (r # rs) st = do {
     s2 \<leftarrow> lockSets st p2;
     st' \<leftarrow> addRecord r p1 (setLS p2 (s2\<lparr>lockRecordList := remove1 r (lockRecordList s2)\<rparr>) st);
     moveRecords p1 p2 rs st' }"

definition dbLockSetMerge :: "addr \<Rightarrow> addr \<Rightarrow> dblock \<Rightarrow> dblock option" where
  "dbLockSetMerge pfirst psecond st =
     (if pfirst = psecond then Some st
      else do {
        q1 \<leftarrow> plockSet st pfirst;
        q2 \<leftarrow> plockSet st psecond;
        case (q1, q2) of
          (None, None) \<Rightarrow> None
        | (None, Some p2) \<Rightarrow> addRecord pfirst p2 st
        | (Some p1, None) \<Rightarrow> addRecord psecond p1 st
        | (Some p1, Some p2) \<Rightarrow>
            if p1 = p2 then Some st
            else do {
              s1 \<leftarrow> lockSets st p1;
              s2 \<leftarrow> lockSets st p2;
              if ls_type s1 = ls_type s2
              then do {
                st1 \<leftarrow> moveRecords p1 p2 (lockRecordList s2) st;
                t2 \<leftarrow> lockSets st1 p2;
                Some (addTo listTypeFree p2 (setLS p2 (t2\<lparr>ls_type := listTypeFree\<rparr>) (deleteFrom (ls_type t2) p2 st1))) }
              else None } })"

text \<open>
  The first critical section of \<open>dbLockSetSplit\<close>, with the records it takes out of the set; the second, done for
  each of them.
\<close>

definition dbLockSetSplit :: "addr \<Rightarrow> dblock \<Rightarrow> (addr list \<times> dblock) option" where
  "dbLockSetSplit psource st = do {
     q \<leftarrow> plockSet st psource;
     p \<leftarrow> q;
     s \<leftarrow> lockSets st p;
     if ls_state s = lockSetStateRecordLock \<and> ls_type s = listTypeRecordLock
     then Some (lockRecordList s,
       addTo listTypeFree p (setLS p (s\<lparr>lockRecordList := [], ls_state := lockSetStateFree, ls_type := listTypeFree\<rparr>)
         (deleteFrom (ls_type s) p (st\<lparr>plockSet := (\<lambda>r. if r \<in> set (lockRecordList s) then Some None else plockSet st r)\<rparr>))))
     else None }"

definition splitRecord :: "addr \<Rightarrow> addr \<Rightarrow> dblock \<Rightarrow> dblock option" where
  "splitRecord idself plockRecord st = do {
     q \<leftarrow> plockSet st plockRecord;
     if q = None then allocLockSet plockRecord listTypeRecordLock lockSetStateRecordLock (Some idself) st else Some st }"

text \<open>The targets of the database links of a record, in the order of its link fields.\<close>

definition linkMerges :: "addr \<Rightarrow> dblock \<Rightarrow> (addr \<times> addr) list" where
  "linkMerges r st = map (Pair r) (concat (map (\<lambda>l. case l of None \<Rightarrow> [] | Some x \<Rightarrow> [x]) (links st r)))"

section \<open>The scan lock\<close>

text \<open>\<open>dbScanLock\<close> returns.\<close>

definition entered :: "addr \<Rightarrow> addr \<Rightarrow> dblock \<Rightarrow> dblock" where
  "entered t r st = (goto t Idle st)\<lparr>held := (held st)(t := r # held st t)\<rparr>"

text \<open>One turn of its loop, up to the first wait.\<close>

definition dbScanLock :: "addr \<Rightarrow> addr \<Rightarrow> dblock \<Rightarrow> dblock option" where
  "dbScanLock idSelf precord st = do {
     q \<leftarrow> plockSet st precord;
     case q of
       None \<Rightarrow> Some (goto idSelf (ScanGlobal precord) st)
     | Some p \<Rightarrow> do {
         s \<leftarrow> lockSets st p;
         case ls_state s of
           lockSetStateFree \<Rightarrow>
             if lock s = None
             then Some (entered idSelf precord (setLS p (s\<lparr>lock := Some idSelf, nRecursion := 1, thread_id := Some idSelf,
                    ls_precord := Some precord, ls_state := lockSetStateScanLock\<rparr>) st))
             else None
         | lockSetStateScanLock \<Rightarrow>
             if thread_id s \<noteq> Some idSelf
             then Some (goto idSelf (ScanWait precord p) (setLS p (s\<lparr>nWaiting := nWaiting s + 1\<rparr>) st))
             else Some (entered idSelf precord (setLS p (s\<lparr>nRecursion := nRecursion s + 1\<rparr>) st))
         | lockSetStateRecordLock \<Rightarrow>
             if nRecursion s = 0 \<or> thread_id s \<noteq> Some idSelf
             then Some (goto idSelf (ScanGlobal precord) st)
             else Some (entered idSelf precord (setLS p (s\<lparr>nRecursion := nRecursion s + 1\<rparr>) st)) } }"

text \<open>The mutex is taken; the waiting thread looks at the lock set again.\<close>

definition takeMutex :: "addr \<Rightarrow> addr \<Rightarrow> lockpc \<Rightarrow> dblock \<Rightarrow> dblock option" where
  "takeMutex t p c st = do {
     s \<leftarrow> lockSets st p;
     if lock s = None then Some (goto t c (setLS p (s\<lparr>lock := Some t\<rparr>) st)) else None }"

definition scanResume :: "addr \<Rightarrow> addr \<Rightarrow> addr \<Rightarrow> dblock \<Rightarrow> dblock option" where
  "scanResume idSelf precord p st = do {
     s0 \<leftarrow> lockSets st p;
     let s = s0\<lparr>nWaiting := nWaiting s0 - 1\<rparr>;
     if ls_state s = lockSetStateRecordLock
     then Some (goto idSelf (ScanGlobal precord) (setLS p (s\<lparr>lock := None\<rparr>) st))
     else if ls_state s = lockSetStateScanLock
     then Some (entered idSelf precord (setLS p (s\<lparr>nRecursion := 1, thread_id := Some idSelf, ls_precord := Some precord\<rparr>) st))
     else None }"

definition dbScanUnlock :: "addr \<Rightarrow> addr \<Rightarrow> dblock \<Rightarrow> dblock option" where
  "dbScanUnlock idSelf precord st = do {
     q \<leftarrow> plockSet st precord;
     p \<leftarrow> q;
     s \<leftarrow> lockSets st p;
     if thread_id s = Some idSelf \<and> nRecursion s \<ge> 1
     then (let s1 = s\<lparr>nRecursion := nRecursion s - 1\<rparr>;
               s2 = (if nRecursion s1 = 0
                     then s1\<lparr>thread_id := None, ls_precord := None,
                             ls_state := (if ls_state s1 = lockSetStateScanLock \<and> nWaiting s1 = 0 then lockSetStateFree else ls_state s1),
                             lock := None\<rparr>
                     else s1) in
           Some ((setLS p s2 st)\<lparr>held := (held st)(idSelf := remove1 precord (held st idSelf))\<rparr>))
     else None }"

section \<open>The record lock\<close>

text \<open>
  \<open>dbLockSetRecordLock\<close> up to its loop, and the end of one turn of the loop. The first continuation is taken on
  return, the second to wait for the mutex of the set.
\<close>

definition dbLockSetRecordLock :: "addr \<Rightarrow> addr \<Rightarrow> lockpc \<Rightarrow> (addr \<Rightarrow> lockpc) \<Rightarrow> dblock \<Rightarrow> dblock option" where
  "dbLockSetRecordLock idSelf precord ret wait st = do {
     q \<leftarrow> plockSet st precord;
     p \<leftarrow> q;
     s \<leftarrow> lockSets st p;
     if ls_type s = listTypeRecordLock then Some (goto idSelf ret st)
     else if thread_id s \<noteq> Some idSelf
     then Some (goto idSelf (wait p) (setLS p (s\<lparr>ls_state := lockSetStateRecordLock\<rparr>) st))
     else None }"

definition recordLockCheck :: "addr \<Rightarrow> addr \<Rightarrow> lockpc \<Rightarrow> (addr \<Rightarrow> lockpc) \<Rightarrow> dblock \<Rightarrow> dblock option" where
  "recordLockCheck idSelf p ret wait st = do {
     s \<leftarrow> lockSets st p;
     if nWaiting s = 0 \<and> nRecursion s = 0
     then if ls_type s = listTypeScanLock \<and> ls_state s = lockSetStateRecordLock
          then Some (goto idSelf ret (setLS p (s\<lparr>ls_type := listTypeRecordLock, thread_id := Some idSelf, ls_precord := None\<rparr>)
                 (addTo listTypeRecordLock p (deleteFrom (ls_type s) p st))))
          else None
     else Some (goto idSelf (wait p) st) }"

section \<open>The global lock\<close>

text \<open>The loop of \<open>dbLockSetGblUnlock\<close> over the record-locked sets.\<close>

fun releaseSets :: "addr list \<Rightarrow> dblock \<Rightarrow> dblock option" where
  "releaseSets [] st = Some st"
| "releaseSets (p # ps) st = do {
     s \<leftarrow> lockSets st p;
     releaseSets ps (addTo listTypeScanLock p (setLS p
       (s\<lparr>ls_type := listTypeScanLock, ls_state := lockSetStateFree, thread_id := None, ls_precord := None,
          nRecursion := 0, nWaiting := 0\<rparr>) (deleteFrom listTypeRecordLock p st))) }"

definition dbLockSetGblUnlock :: "dblock \<Rightarrow> dblock option" where
  "dbLockSetGblUnlock st = map_option (\<lambda>st1. st1\<lparr>globalLock := None\<rparr>) (releaseSets (lockSetList st listTypeRecordLock) st)"

section \<open>Start-up\<close>

text \<open>The link loop of \<open>dbLockInitRecords\<close> and of \<open>dbLockSetSplit\<close>.\<close>

fun mergeAll :: "(addr \<times> addr) list \<Rightarrow> dblock \<Rightarrow> dblock option" where
  "mergeAll [] st = Some st"
| "mergeAll ((r, x) # ms) st = do { st1 \<leftarrow> dbLockSetMerge r x st; mergeAll ms st1 }"

text \<open>The main loop of \<open>dbLockInitRecords\<close>; \<open>named\<close> tells which records have a name.\<close>

fun initLoop :: "(addr \<Rightarrow> bool) \<Rightarrow> addr list \<Rightarrow> dblock \<Rightarrow> dblock option" where
  "initLoop named [] st = Some st"
| "initLoop named (r # rs) st =
     (if named r
      then do {
        q \<leftarrow> plockSet st r;
        st1 \<leftarrow> (if q = None then allocLockSet r listTypeScanLock lockSetStateFree None st else Some st);
        st2 \<leftarrow> mergeAll (linkMerges r st1) st1;
        initLoop named rs st2 }
      else initLoop named rs st)"

definition dbLockInitRecords :: "addr list \<Rightarrow> (addr \<Rightarrow> bool) \<Rightarrow> (addr \<Rightarrow> ptr list) \<Rightarrow> dblock option" where
  "dbLockInitRecords rs named lks = initLoop named rs
     \<lparr>lockSets = Map.empty, plockSet = (\<lambda>r. if r \<in> set rs then Some None else None), lockSetList = (\<lambda>_. []), lockId = 0,
      nextBlock = 1, globalLock = None, links = lks, pcs = (\<lambda>_. Idle), held = (\<lambda>_. [])\<rparr>"

section \<open>The threads\<close>

text \<open>The two switches of \<open>dbPutFieldLink\<close>, on the old and on the new link.\<close>

definition putOld :: "addr \<Rightarrow> addr \<Rightarrow> nat \<Rightarrow> plan \<Rightarrow> dblock \<Rightarrow> dblock option" where
  "putOld t r k act st =
     (case act of
        None \<Rightarrow> Some (goto t PutEnd st)
      | Some new \<Rightarrow>
          if k < length (links st r)
          then case links st r ! k of
                 None \<Rightarrow> Some (goto t (PutNew r k new) st)
               | Some x \<Rightarrow> do {
                   (rs, st1) \<leftarrow> dbLockSetSplit r (st\<lparr>links := (links st)(r := (links st r)[k := None])\<rparr>);
                   Some (goto t (PutSplit [] rs r k new) st1) }
          else None)"

definition putNew :: "addr \<Rightarrow> addr \<Rightarrow> nat \<Rightarrow> ptr \<Rightarrow> dblock \<Rightarrow> dblock" where
  "putNew t r k new st =
     (case new of
        None \<Rightarrow> goto t PutEnd st
      | Some x \<Rightarrow> goto t (PutDst r x) (st\<lparr>links := (links st)(r := (links st r)[k := Some x])\<rparr>))"

text \<open>The next step of a thread that is in a call.\<close>

definition lockStep :: "addr \<Rightarrow> dblock \<Rightarrow> dblock option" where
  "lockStep t st =
     (case pcs st t of
        Idle \<Rightarrow> None
      | Scan r \<Rightarrow> dbScanLock t r st
      | ScanWait r p \<Rightarrow> takeMutex t p (ScanGot r p) st
      | ScanGot r p \<Rightarrow> scanResume t r p st
      | ScanGlobal r \<Rightarrow> Some (goto t (Scan r) st)
      | PutGlobal r k act \<Rightarrow> Some (goto t (PutRec r k act) (st\<lparr>globalLock := Some t\<rparr>))
      | PutRec r k act \<Rightarrow> dbLockSetRecordLock t r (PutOld r k act) (PutRecWait r k act) st
      | PutRecWait r k act p \<Rightarrow> Some (goto t (PutRecCheck r k act p) st)
      | PutRecCheck r k act p \<Rightarrow> recordLockCheck t p (PutOld r k act) (PutRecWait r k act) st
      | PutOld r k act \<Rightarrow> putOld t r k act st
      | PutSplit ((a, b) # ms) rs r k new \<Rightarrow> map_option (goto t (PutSplit ms rs r k new)) (dbLockSetMerge a b st)
      | PutSplit [] (x # rs) r k new \<Rightarrow> map_option (\<lambda>st1. goto t (PutSplit (linkMerges x st1) rs r k new) st1) (splitRecord t x st)
      | PutSplit [] [] r k new \<Rightarrow> Some (goto t (PutNew r k new) st)
      | PutNew r k new \<Rightarrow> Some (putNew t r k new st)
      | PutDst r x \<Rightarrow> dbLockSetRecordLock t x (PutMerge r x) (PutDstWait r x) st
      | PutDstWait r x p \<Rightarrow> Some (goto t (PutDstCheck r x p) st)
      | PutDstCheck r x p \<Rightarrow> recordLockCheck t p (PutMerge r x) (PutDstWait r x) st
      | PutMerge r x \<Rightarrow> map_option (goto t PutEnd) (dbLockSetMerge r x st)
      | PutEnd \<Rightarrow> map_option (goto t Idle) (dbLockSetGblUnlock st))"

text \<open>
  Whether the step can be taken: the mutex it wants is free. Taking and releasing a mutex at once, as in the
  loop of \<open>dbLockSetRecordLock\<close> and for the global lock in \<open>dbScanLock\<close>, is one step; mutexes are recursive.
\<close>

definition mutexFree :: "addr \<Rightarrow> dblock \<Rightarrow> bool" where
  "mutexFree p st \<longleftrightarrow> (case lockSets st p of None \<Rightarrow> False | Some s \<Rightarrow> lock s = None)"

definition ready :: "addr \<Rightarrow> dblock \<Rightarrow> bool" where
  "ready t st \<longleftrightarrow>
     (case pcs st t of
        Idle \<Rightarrow> False
      | ScanWait r p \<Rightarrow> mutexFree p st
      | ScanGlobal r \<Rightarrow> globalLock st = None \<or> globalLock st = Some t
      | PutGlobal r k act \<Rightarrow> globalLock st = None
      | PutRecWait r k act p \<Rightarrow> mutexFree p st
      | PutDstWait r x p \<Rightarrow> mutexFree p st
      | _ \<Rightarrow> True)"

text \<open>
  The calls of the threads. \<open>KProbe\<close> and \<open>KProbeEnd\<close> are \<open>epicsMutexTryLock\<close> and \<open>epicsMutexUnlock\<close> of the
  mutex of a lock set in \<open>dblsr\<close>.
\<close>

datatype lkop = KScanLock addr addr | KScanUnlock addr addr | KPut addr addr nat plan | KStep addr
  | KProbe addr addr | KProbeEnd addr addr

fun lkExec :: "lkop \<Rightarrow> dblock \<Rightarrow> dblock option" where
  "lkExec (KScanLock t r) st = Some (goto t (Scan r) st)"
| "lkExec (KScanUnlock t r) st = dbScanUnlock t r st"
| "lkExec (KPut t r k act) st = Some (goto t (PutGlobal r k act) st)"
| "lkExec (KStep t) st = lockStep t st"
| "lkExec (KProbe t p) st = do {
     s \<leftarrow> lockSets st p;
     Some (if lock s = None then setLS p (s\<lparr>lock := Some t\<rparr>) st else st) }"
| "lkExec (KProbeEnd t p) st = do {
     s \<leftarrow> lockSets st p;
     Some (if lock s = Some t then setLS p (s\<lparr>lock := None\<rparr>) st else st) }"

text \<open>
  What the callers must respect: a thread is in one call at a time, unlocks what it holds, changes an existing link
  field of a record while it holds nothing. With \<open>one\<close> a thread that holds records locks only records
  of the same lock set.
\<close>

fun lkFits :: "bool \<Rightarrow> lkop \<Rightarrow> dblock \<Rightarrow> bool" where
  "lkFits one (KScanLock t r) st \<longleftrightarrow> pcs st t = Idle \<and> plockSet st r \<noteq> None
     \<and> (one \<longrightarrow> (\<forall>h \<in> set (held st t). plockSet st h = plockSet st r))"
| "lkFits one (KScanUnlock t r) st \<longleftrightarrow> pcs st t = Idle \<and> r \<in> set (held st t)"
| "lkFits one (KPut t r k act) st \<longleftrightarrow> pcs st t = Idle \<and> held st t = [] \<and> plockSet st r \<noteq> None \<and> k < length (links st r)
     \<and> (case act of Some (Some x) \<Rightarrow> plockSet st x \<noteq> None | _ \<Rightarrow> True)"
| "lkFits one (KStep t) st \<longleftrightarrow> ready t st"
| "lkFits one _ st \<longleftrightarrow> False"

text \<open>A database: records with names, links between them.\<close>

definition goodDb :: "addr list \<Rightarrow> (addr \<Rightarrow> bool) \<Rightarrow> (addr \<Rightarrow> ptr list) \<Rightarrow> bool" where
  "goodDb rs named lks \<longleftrightarrow> (\<forall>r \<in> set rs. named r \<and> (\<forall>x. Some x \<in> set (lks r) \<longrightarrow> x \<in> set rs)) \<and> (\<forall>r. r \<notin> set rs \<longrightarrow> lks r = [])"

inductive lk_reach :: "bool \<Rightarrow> dblock \<Rightarrow> bool" for one where
  init: "goodDb rs named lks \<Longrightarrow> dbLockInitRecords rs named lks = Some st \<Longrightarrow> lk_reach one st"
| step: "lk_reach one st \<Longrightarrow> lkFits one op st \<Longrightarrow> lkExec op st = Some st' \<Longrightarrow> lk_reach one st'"

text \<open>A run of operations.\<close>

fun lkRun :: "lkop list \<Rightarrow> dblock \<Rightarrow> dblock option" where
  "lkRun [] st = Some st"
| "lkRun (op # ops) st = do { st' \<leftarrow> lkExec op st; lkRun ops st' }"

end
