(* ===== verification/DbLockSets.thy ===== *)
theory DbLockSets
  imports DbLock
begin

text \<open>
  The store of lock sets: its well-formedness, the effect of allocating, merging and splitting on the lock set of
  every record, and how that compares with the graph of links.
\<close>

section \<open>Well-formed stores\<close>

definition lset :: "dblock \<Rightarrow> addr \<Rightarrow> ptr" where
  "lset st r = (case plockSet st r of None \<Rightarrow> None | Some q \<Rightarrow> q)"

definition joined :: "dblock \<Rightarrow> addr \<Rightarrow> addr \<Rightarrow> bool" where
  "joined st a b \<longleftrightarrow> lset st a \<noteq> None \<and> lset st a = lset st b"

definition store_ok :: "dblock \<Rightarrow> bool" where
  "store_ok st \<longleftrightarrow>
     (\<forall>p s. lockSets st p = Some s \<longrightarrow> p < nextBlock st \<and> distinct (lockRecordList s) \<and> p \<in> set (lockSetList st (ls_type s))
        \<and> (ls_type s = listTypeFree \<longrightarrow> lockRecordList s = []) \<and> (\<forall>r \<in> set (lockRecordList s). plockSet st r = Some (Some p)))
     \<and> (\<forall>r p. plockSet st r = Some (Some p) \<longrightarrow> (\<exists>s. lockSets st p = Some s \<and> r \<in> set (lockRecordList s)))
     \<and> (\<forall>ty. distinct (lockSetList st ty) \<and> (\<forall>p \<in> set (lockSetList st ty). \<exists>s. lockSets st p = Some s \<and> ls_type s = ty))"

lemma store_okD:
  assumes "store_ok st"
  shows "lockSets st p = Some s \<Longrightarrow> p < nextBlock st" "lockSets st p = Some s \<Longrightarrow> distinct (lockRecordList s)"
    "lockSets st p = Some s \<Longrightarrow> p \<in> set (lockSetList st (ls_type s))"
    "lockSets st p = Some s \<Longrightarrow> ls_type s = listTypeFree \<Longrightarrow> lockRecordList s = []"
    "lockSets st p = Some s \<Longrightarrow> r \<in> set (lockRecordList s) \<longleftrightarrow> plockSet st r = Some (Some p)"
    "plockSet st r = Some (Some p) \<Longrightarrow> \<exists>s. lockSets st p = Some s \<and> r \<in> set (lockRecordList s) \<and> ls_type s \<noteq> listTypeFree"
    "distinct (lockSetList st ty)" "p \<in> set (lockSetList st ty) \<Longrightarrow> \<exists>s. lockSets st p = Some s \<and> ls_type s = ty"
proof -
  have inv: "\<And>r p. plockSet st r = Some (Some p) \<Longrightarrow> \<exists>s. lockSets st p = Some s \<and> r \<in> set (lockRecordList s)"
    using assms unfolding store_ok_def by blast
  have each: "\<And>p s. lockSets st p = Some s \<Longrightarrow> p < nextBlock st \<and> distinct (lockRecordList s) \<and> p \<in> set (lockSetList st (ls_type s))
        \<and> (ls_type s = listTypeFree \<longrightarrow> lockRecordList s = []) \<and> (\<forall>r \<in> set (lockRecordList s). plockSet st r = Some (Some p))"
    using assms unfolding store_ok_def by blast
  show "lockSets st p = Some s \<Longrightarrow> p < nextBlock st" "lockSets st p = Some s \<Longrightarrow> distinct (lockRecordList s)"
    "lockSets st p = Some s \<Longrightarrow> p \<in> set (lockSetList st (ls_type s))"
    "lockSets st p = Some s \<Longrightarrow> ls_type s = listTypeFree \<Longrightarrow> lockRecordList s = []"
    using each by blast+
  show "lockSets st p = Some s \<Longrightarrow> r \<in> set (lockRecordList s) \<longleftrightarrow> plockSet st r = Some (Some p)"
    using each inv by fastforce
  show "plockSet st r = Some (Some p) \<Longrightarrow> \<exists>s. lockSets st p = Some s \<and> r \<in> set (lockRecordList s) \<and> ls_type s \<noteq> listTypeFree"
    using each inv by fastforce
  show "distinct (lockSetList st ty)" "p \<in> set (lockSetList st ty) \<Longrightarrow> \<exists>s. lockSets st p = Some s \<and> ls_type s = ty"
    using assms unfolding store_ok_def by blast+
qed

lemma lset_Some: "lset st r = Some p \<longleftrightarrow> plockSet st r = Some (Some p)"
  by (auto simp: lset_def split: option.splits)

text \<open>What the locking protocol keeps in a lock set, and what the operations on the store leave alone.\<close>

definition proto :: "lockSet \<Rightarrow> ptr \<times> lockSetState \<times> ptr \<times> int \<times> int" where
  "proto s = (lock s, ls_state s, thread_id s, nRecursion s, nWaiting s)"

definition rest :: "dblock \<Rightarrow> ptr \<times> (addr \<Rightarrow> ptr list) \<times> (addr \<Rightarrow> lockpc) \<times> (addr \<Rightarrow> addr list)" where
  "rest st = (globalLock st, links st, pcs st, held st)"

lemma lock_state_simps [simp]:
  "lockSets (setLS p s st) = (lockSets st)(p \<mapsto> s)" "plockSet (setLS p s st) = plockSet st" "lockSetList (setLS p s st) = lockSetList st"
  "nextBlock (setLS p s st) = nextBlock st" "globalLock (setLS p s st) = globalLock st" "links (setLS p s st) = links st"
  "pcs (setLS p s st) = pcs st" "held (setLS p s st) = held st"
  "lockSets (goto t c st) = lockSets st" "plockSet (goto t c st) = plockSet st" "lockSetList (goto t c st) = lockSetList st"
  "nextBlock (goto t c st) = nextBlock st" "globalLock (goto t c st) = globalLock st" "links (goto t c st) = links st"
  "pcs (goto t c st) = (pcs st)(t := c)" "held (goto t c st) = held st"
  by (simp_all add: setLS_def goto_def)

lemma list_simps [simp]:
  "lockSets (addTo ty p st) = lockSets st" "plockSet (addTo ty p st) = plockSet st" "nextBlock (addTo ty p st) = nextBlock st"
  "globalLock (addTo ty p st) = globalLock st" "links (addTo ty p st) = links st" "pcs (addTo ty p st) = pcs st" "held (addTo ty p st) = held st"
  "lockSets (deleteFrom ty p st) = lockSets st" "plockSet (deleteFrom ty p st) = plockSet st" "nextBlock (deleteFrom ty p st) = nextBlock st"
  "globalLock (deleteFrom ty p st) = globalLock st" "links (deleteFrom ty p st) = links st" "pcs (deleteFrom ty p st) = pcs st" "held (deleteFrom ty p st) = held st"
  "lockSetList (addTo ty p st) = (lockSetList st)(ty := lockSetList st ty @ [p])"
  "lockSetList (deleteFrom ty p st) = (lockSetList st)(ty := remove1 p (lockSetList st ty))"
  by (simp_all add: addTo_def deleteFrom_def)

lemma entered_simps [simp]:
  "lockSets (entered t r st) = lockSets st" "plockSet (entered t r st) = plockSet st" "lockSetList (entered t r st) = lockSetList st"
  "nextBlock (entered t r st) = nextBlock st" "globalLock (entered t r st) = globalLock st" "links (entered t r st) = links st"
  "pcs (entered t r st) = (pcs st)(t := Idle)" "held (entered t r st) = (held st)(t := r # held st t)"
  by (simp_all add: entered_def)

lemma rest_simps [simp]:
  "rest (setLS p s st) = rest st" "rest (addTo ty p st) = rest st" "rest (deleteFrom ty p st) = rest st"
  by (simp_all add: rest_def)

text \<open>Changing the protocol part of a lock set.\<close>

lemma store_cong:
  assumes ok: "store_ok st" and "plockSet st' = plockSet st" "lockSetList st' = lockSetList st" "nextBlock st' = nextBlock st"
    and same: "\<And>p. map_option (\<lambda>s. (lockRecordList s, ls_type s)) (lockSets st' p) = map_option (\<lambda>s. (lockRecordList s, ls_type s)) (lockSets st p)"
  shows "store_ok st'"
proof -
  have fw: "\<exists>s0. lockSets st p = Some s0 \<and> lockRecordList s0 = lockRecordList s \<and> ls_type s0 = ls_type s" if "lockSets st' p = Some s" for p s
    using same[of p] that by (cases "lockSets st p") auto
  have bw: "\<exists>s0. lockSets st' p = Some s0 \<and> lockRecordList s0 = lockRecordList s \<and> ls_type s0 = ls_type s" if "lockSets st p = Some s" for p s
    using same[of p] that by (cases "lockSets st' p") auto
  have 1: "p < nextBlock st' \<and> distinct (lockRecordList s) \<and> p \<in> set (lockSetList st' (ls_type s))
        \<and> (ls_type s = listTypeFree \<longrightarrow> lockRecordList s = []) \<and> (\<forall>r \<in> set (lockRecordList s). plockSet st' r = Some (Some p))"
    if s: "lockSets st' p = Some s" for p s
  proof -
    obtain s0 where s0: "lockSets st p = Some s0" "lockRecordList s0 = lockRecordList s" "ls_type s0 = ls_type s" using fw[OF s] by blast
    show ?thesis using store_okD(1-5)[OF ok s0(1)] s0(2,3) assms(2-4) by auto
  qed
  have 2: "\<exists>s. lockSets st' p = Some s \<and> r \<in> set (lockRecordList s)" if r: "plockSet st' r = Some (Some p)" for r p
  proof -
    obtain s where s: "lockSets st p = Some s" "r \<in> set (lockRecordList s)" using store_okD(6)[OF ok, of r p] r assms(2) by auto
    show ?thesis using bw[OF s(1)] s(2) by auto
  qed
  have 3: "\<exists>s. lockSets st' p = Some s \<and> ls_type s = ty" if p: "p \<in> set (lockSetList st' ty)" for p ty
  proof -
    obtain s where s: "lockSets st p = Some s" "ls_type s = ty" using store_okD(8)[OF ok, of p ty] p assms(3) by auto
    show ?thesis using bw[OF s(1)] s(2) by auto
  qed
  show ?thesis unfolding store_ok_def using 1 2 3 store_okD(7)[OF ok] assms(3) by simp
qed

lemma store_setLS:
  "store_ok st \<Longrightarrow> lockSets st p = Some s0 \<Longrightarrow> lockRecordList s = lockRecordList s0 \<Longrightarrow> ls_type s = ls_type s0 \<Longrightarrow> store_ok (setLS p s st)"
  by (rule store_cong) auto

lemma store_goto: "store_ok st \<Longrightarrow> store_ok (goto t c st)"
  by (rule store_cong) simp_all

lemma store_entered: "store_ok st \<Longrightarrow> store_ok (entered t r st)"
  by (rule store_cong) simp_all

text \<open>Moving a lock set between the lists.\<close>

lemma store_retype:
  assumes ok: "store_ok st" and s: "lockSets st p = Some s" and s': "lockRecordList s' = lockRecordList s" "ls_type s' = ty"
    and ty: "ty \<noteq> ls_type s" "ty = listTypeFree \<longrightarrow> lockRecordList s = []"
  shows "store_ok (addTo ty p (setLS p s' (deleteFrom (ls_type s) p st)))" (is "store_ok ?st")
proof -
  note d = store_okD[OF ok]
  have p: "p \<in> set (lockSetList st (ls_type s))" using d(3)[OF s] .
  have np: "p \<notin> set (lockSetList st y)" if "y \<noteq> ls_type s" for y using d(8)[of p y] s that by auto
  have 1: "q < nextBlock ?st \<and> distinct (lockRecordList x) \<and> q \<in> set (lockSetList ?st (ls_type x))
        \<and> (ls_type x = listTypeFree \<longrightarrow> lockRecordList x = []) \<and> (\<forall>r \<in> set (lockRecordList x). plockSet ?st r = Some (Some q))"
    if x: "lockSets ?st q = Some x" for q x
  proof (cases "q = p")
    case True
    then show ?thesis using x s' d(1,2,5)[OF s] ty by auto
  next
    case False
    then have x0: "lockSets st q = Some x" using x by simp
    have "q \<in> set (lockSetList ?st (ls_type x))" using d(3)[OF x0] False by auto
    then show ?thesis using d(1,2,4,5)[OF x0] by auto
  qed
  have 2: "\<exists>x. lockSets ?st q = Some x \<and> r \<in> set (lockRecordList x)" if r: "plockSet ?st r = Some (Some q)" for r q
  proof -
    obtain x where "lockSets st q = Some x" "r \<in> set (lockRecordList x)" using d(6)[of r q] r by auto
    then show ?thesis using s s'(1) by (cases "q = p") auto
  qed
  have 3: "distinct (lockSetList ?st y)" for y using d(7) np[of ty] ty(1) by auto
  have 4: "\<exists>x. lockSets ?st q = Some x \<and> ls_type x = y" if q: "q \<in> set (lockSetList ?st y)" for q y
  proof (cases "q = p")
    case True
    have "y = ty" using q True np[of y] d(7) by (auto split: if_splits)
    then show ?thesis using True s' by simp
  next
    case False
    then have "q \<in> set (lockSetList st y)" using q d(7) by (auto split: if_splits)
    then show ?thesis using d(8) False by auto
  qed
  show ?thesis unfolding store_ok_def using 1 2 3 4 by blast
qed


section \<open>Allocation\<close>

text \<open>A record without a lock set gets one of its own, new or from the free list.\<close>

lemma alloc_ok:
  assumes ok: "store_ok st" and r: "plockSet st r = Some None" and ty: "ty \<noteq> listTypeFree"
  shows "\<exists>p s st'. allocLockSet r ty state th st = Some st' \<and> store_ok st' \<and> rest st' = rest st \<and> plockSet st' = (plockSet st)(r \<mapsto> Some p)
     \<and> lockSets st' = (lockSets st)(p \<mapsto> s) \<and> proto s = (case lockSets st p of None \<Rightarrow> None | Some s0 \<Rightarrow> lock s0, state, th, 0, 0)
     \<and> ls_type s = ty \<and> lockRecordList s = [r] \<and> (\<forall>s0. lockSets st p = Some s0 \<longrightarrow> ls_type s0 = listTypeFree)"
proof -
  note d = store_okD[OF ok]
  have fin: "store_ok st'" if st': "plockSet st' = (plockSet st)(r \<mapsto> Some p)" "lockSets st' = (lockSets st)(p \<mapsto> s)"
      and s: "lockRecordList s = [r]" "ls_type s = ty" and p: "\<forall>s0. lockSets st p = Some s0 \<longrightarrow> ls_type s0 = listTypeFree"
      and n: "p < nextBlock st'" "nextBlock st \<le> nextBlock st'"
      and l: "lockSetList st' ty = lockSetList st ty @ [p]" "lockSetList st' listTypeFree = remove1 p (lockSetList st listTypeFree)"
        "\<And>y. y \<noteq> ty \<Longrightarrow> y \<noteq> listTypeFree \<Longrightarrow> lockSetList st' y = lockSetList st y" for st' p s
  proof -
    have np: "p \<notin> set (lockSetList st y)" if "y \<noteq> listTypeFree" for y using d(8)[of p y] p that by auto
    have 1: "q < nextBlock st' \<and> distinct (lockRecordList x) \<and> q \<in> set (lockSetList st' (ls_type x))
          \<and> (ls_type x = listTypeFree \<longrightarrow> lockRecordList x = []) \<and> (\<forall>r \<in> set (lockRecordList x). plockSet st' r = Some (Some q))"
      if x: "lockSets st' q = Some x" for q x
    proof (cases "q = p")
      case True
      then show ?thesis using x st' s ty n l by auto
    next
      case False
      then have x0: "lockSets st q = Some x" using x st' by simp
      have "q \<in> set (lockSetList st' (ls_type x))"
        using d(3)[OF x0] False l(1,2) l(3)[of "ls_type x"] by (cases "ls_type x = ty"; cases "ls_type x = listTypeFree") auto
      then show ?thesis using d(1)[OF x0] n d(2,4,5)[OF x0] r st' by auto
    qed
    have 2: "\<exists>x. lockSets st' q = Some x \<and> r' \<in> set (lockRecordList x)" if r': "plockSet st' r' = Some (Some q)" for r' q
    proof (cases "r' = r")
      case True
      then show ?thesis using r' st' s by simp
    next
      case False
      then obtain x where "lockSets st q = Some x" "r' \<in> set (lockRecordList x)" "ls_type x \<noteq> listTypeFree" using d(6)[of r' q] r' st' by auto
      then show ?thesis using p st' by auto
    qed
    have 3: "distinct (lockSetList st' y)" for y
      using d(7) np[OF ty] l(1,2) l(3)[of y] by (cases "y = ty"; cases "y = listTypeFree") auto
    have 4: "\<exists>x. lockSets st' q = Some x \<and> ls_type x = y" if q: "q \<in> set (lockSetList st' y)" for q y
    proof (cases "q = p")
      case True
      have "y = ty" using q True np[of y] d(7) l(1,2) l(3)[of y] by (cases "y = ty"; cases "y = listTypeFree") auto
      then show ?thesis using True s st' by simp
    next
      case False
      then have "q \<in> set (lockSetList st y)" using q d(7) l(1,2) l(3)[of y] by (cases "y = ty"; cases "y = listTypeFree") auto
      then show ?thesis using d(8) False st' by auto
    qed
    show ?thesis unfolding store_ok_def using 1 2 3 4 by blast
  qed
  show ?thesis
  proof (cases "lockSetList st listTypeFree")
    case Nil
    let ?p = "nextBlock st"
    have none: "lockSets st ?p = None" using d(1)[of ?p] by (cases "lockSets st ?p") auto
    let ?s = "\<lparr>lockRecordList = [r], lock = None, ls_id = lockId st + 1, ls_type = ty, ls_state = state,
        thread_id = th, ls_precord = None, nRecursion = 0, nWaiting = 0\<rparr>"
    let ?st = "addTo ty ?p (setLS ?p ?s (st\<lparr>nextBlock := ?p + 1, lockId := lockId st + 1, plockSet := (plockSet st)(r \<mapsto> Some ?p)\<rparr>))"
    have a: "allocLockSet r ty state th st = Some ?st" using Nil r by (simp add: allocLockSet_def)
    have "store_ok ?st" by (rule fin[where p = ?p and s = ?s]) (use none Nil ty in auto)
    then show ?thesis using a none by (intro exI[of _ ?p] exI[of _ ?s] exI[of _ ?st]) (simp add: rest_def proto_def)
  next
    case (Cons p ps)
    then obtain s0 where s0: "lockSets st p = Some s0" "ls_type s0 = listTypeFree" using d(8)[of p listTypeFree] by auto
    let ?s = "\<lparr>lockRecordList = [r], lock = lock s0, ls_id = lockId st + 1, ls_type = ty, ls_state = state,
        thread_id = th, ls_precord = None, nRecursion = 0, nWaiting = 0\<rparr>"
    let ?st = "addTo ty p (setLS p ?s ((deleteFrom listTypeFree p st)\<lparr>lockId := lockId st + 1, plockSet := (plockSet st)(r \<mapsto> Some p)\<rparr>))"
    have a: "allocLockSet r ty state th st = Some ?st" using Cons r s0 by (simp add: allocLockSet_def deleteFrom_def)
    have "store_ok ?st" by (rule fin[where p = p and s = ?s]) (use s0 Cons ty d(1)[OF s0(1)] in auto)
    then show ?thesis using a s0 by (intro exI[of _ p] exI[of _ ?s] exI[of _ ?st]) (simp add: rest_def proto_def)
  qed
qed

section \<open>Merging\<close>

lemma addRecord_ok:
  assumes ok: "store_ok st" and r: "plockSet st r = Some None" and s: "lockSets st p = Some s" and ty: "ls_type s \<noteq> listTypeFree"
  shows "\<exists>st'. addRecord r p st = Some st' \<and> store_ok st' \<and> rest st' = rest st \<and> plockSet st' = (plockSet st)(r \<mapsto> Some p)
     \<and> lockSets st' = (lockSets st)(p \<mapsto> s\<lparr>lockRecordList := lockRecordList s @ [r]\<rparr>)"
proof -
  note d = store_okD[OF ok]
  let ?s = "s\<lparr>lockRecordList := lockRecordList s @ [r]\<rparr>"
  let ?st = "setLS p ?s (st\<lparr>plockSet := (plockSet st)(r \<mapsto> Some p)\<rparr>)"
  have nr: "r \<notin> set (lockRecordList x)" if "lockSets st q = Some x" for q x using d(5)[OF that, of r] r by simp
  have 1: "q < nextBlock ?st \<and> distinct (lockRecordList x) \<and> q \<in> set (lockSetList ?st (ls_type x))
        \<and> (ls_type x = listTypeFree \<longrightarrow> lockRecordList x = []) \<and> (\<forall>r \<in> set (lockRecordList x). plockSet ?st r = Some (Some q))"
    if x: "lockSets ?st q = Some x" for q x
  proof (cases "q = p")
    case True
    then have "x = ?s" using x by simp
    moreover have "\<forall>y \<in> set (lockRecordList s). plockSet st y = Some (Some p)" using d(5)[OF s] by blast
    ultimately show ?thesis using True d(1-3)[OF s] nr[OF s] ty by simp
  next
    case False
    then have x0: "lockSets st q = Some x" using x by simp
    moreover have "\<forall>y \<in> set (lockRecordList x). plockSet st y = Some (Some q)" using d(5)[OF x0] by blast
    moreover have "\<forall>y \<in> set (lockRecordList x). y \<noteq> r" using nr[OF x0] by blast
    ultimately show ?thesis using d(1-4)[OF x0] False by simp
  qed
  have 2: "\<exists>x. lockSets ?st q = Some x \<and> r' \<in> set (lockRecordList x)" if r': "plockSet ?st r' = Some (Some q)" for r' q
  proof (cases "r' = r")
    case True
    then show ?thesis using r' by auto
  next
    case False
    then obtain x where "lockSets st q = Some x" "r' \<in> set (lockRecordList x)" using d(6)[of r' q] r' by auto
    then show ?thesis using s by (cases "q = p") auto
  qed
  have 3: "\<exists>x. lockSets ?st q = Some x \<and> ls_type x = y" if q: "q \<in> set (lockSetList ?st y)" for q y
  proof -
    obtain x where x: "lockSets st q = Some x" "ls_type x = y" using d(8)[of q y] q by auto
    show ?thesis
    proof (cases "q = p")
      case True
      then have "x = s" using x(1) s by simp
      then show ?thesis using True x(2) by simp
    qed (use x in simp)
  qed
  have 4: "distinct (lockSetList ?st y)" for y using d(7) by simp
  have "store_ok ?st" unfolding store_ok_def using 1 2 3 4 by blast
  then show ?thesis using s by (intro exI[of _ ?st]) (simp add: addRecord_def rest_def)
qed

lemma moveRecords_eq:
  "p1 \<noteq> p2 \<Longrightarrow> lockSets st p1 = Some s1 \<Longrightarrow> lockSets st p2 = Some s2 \<Longrightarrow> lockRecordList s2 = rs \<Longrightarrow>
   \<exists>st'. moveRecords p1 p2 rs st = Some st' \<and> lockSets st' = (lockSets st)(p1 \<mapsto> s1\<lparr>lockRecordList := lockRecordList s1 @ rs\<rparr>,
       p2 \<mapsto> s2\<lparr>lockRecordList := []\<rparr>)
     \<and> plockSet st' = (\<lambda>r. if r \<in> set rs then Some (Some p1) else plockSet st r) \<and> lockSetList st' = lockSetList st
     \<and> nextBlock st' = nextBlock st \<and> rest st' = rest st"
proof (induction rs arbitrary: st s1 s2)
  case Nil
  then show ?case by (intro exI[of _ st]) (auto simp: fun_upd_idem_iff intro!: ext)
next
  case (Cons r rs)
  let ?s1 = "s1\<lparr>lockRecordList := lockRecordList s1 @ [r]\<rparr>" and ?s2 = "s2\<lparr>lockRecordList := rs\<rparr>"
  let ?st = "setLS p1 ?s1 ((setLS p2 ?s2 st)\<lparr>plockSet := (plockSet st)(r \<mapsto> Some p1)\<rparr>)"
  have "moveRecords p1 p2 (r # rs) st = moveRecords p1 p2 rs ?st" using Cons.prems by (simp add: addRecord_def)
  moreover have "lockSets ?st p1 = Some ?s1" "lockSets ?st p2 = Some ?s2" "lockRecordList ?s2 = rs" using Cons.prems(1) by simp_all
  from Cons.IH[OF Cons.prems(1) this] obtain st' where m: "moveRecords p1 p2 rs ?st = Some st'"
     "lockSets st' = (lockSets ?st)(p1 \<mapsto> ?s1\<lparr>lockRecordList := lockRecordList ?s1 @ rs\<rparr>, p2 \<mapsto> ?s2\<lparr>lockRecordList := []\<rparr>)"
     "plockSet st' = (\<lambda>x. if x \<in> set rs then Some (Some p1) else plockSet ?st x)" "lockSetList st' = lockSetList ?st"
     "nextBlock st' = nextBlock ?st" "rest st' = rest ?st" by blast
  have "lockSets st' = (lockSets st)(p1 \<mapsto> s1\<lparr>lockRecordList := lockRecordList s1 @ r # rs\<rparr>, p2 \<mapsto> s2\<lparr>lockRecordList := []\<rparr>)"
    unfolding m(2) by (rule ext) simp
  moreover have "plockSet st' = (\<lambda>x. if x \<in> set (r # rs) then Some (Some p1) else plockSet st x)"
    unfolding m(3) by (rule ext) simp
  moreover have "rest st' = rest st" unfolding m(6) by (simp add: rest_def)
  moreover have "lockSetList st' = lockSetList st" "nextBlock st' = nextBlock st" unfolding m(4,5) by simp_all
  ultimately show ?case using m(1) by metis
qed

text \<open>
  Merging puts the sets of the two records together: the records in them get the same lock set, one that
  was there before, the other becomes free; all else in the lock sets stays.
\<close>

definition inEither :: "dblock \<Rightarrow> addr \<Rightarrow> addr \<Rightarrow> addr \<Rightarrow> bool" where
  "inEither st a b r \<longleftrightarrow> r = a \<or> r = b \<or> joined st r a \<or> joined st r b"

lemma merge_ok:
  assumes ok: "store_ok st" and dom: "plockSet st a \<noteq> None" "plockSet st b \<noteq> None" and a: "lset st a \<noteq> None \<or> lset st b \<noteq> None"
    and ty: "\<forall>p q s t. lset st a = Some p \<and> lset st b = Some q \<and> lockSets st p = Some s \<and> lockSets st q = Some t \<longrightarrow> ls_type s = ls_type t"
  shows "\<exists>p st'. dbLockSetMerge a b st = Some st' \<and> store_ok st' \<and> rest st' = rest st \<and> (lset st a = Some p \<or> lset st b = Some p)
     \<and> plockSet st' = (\<lambda>r. if inEither st a b r then Some (Some p) else plockSet st r)
     \<and> (\<forall>q. lockSets st' q = None \<longleftrightarrow> lockSets st q = None)
     \<and> (\<forall>q s s'. lockSets st q = Some s \<longrightarrow> lockSets st' q = Some s' \<longrightarrow> proto s' = proto s
          \<and> ls_type s' = (if q \<noteq> p \<and> (lset st a = Some q \<or> lset st b = Some q) then listTypeFree else ls_type s))"
proof -
  note d = store_okD[OF ok]
  have same: ?thesis if ab: "dbLockSetMerge a b st = Some st" and l: "lset st a = Some p" "lset st b = Some p" for p
  proof -
    have "plockSet st r = Some (Some p)" if "inEither st a b r" for r
      using that l by (auto simp: inEither_def joined_def lset_Some)
    then have "plockSet st = (\<lambda>r. if inEither st a b r then Some (Some p) else plockSet st r)" by auto
    then show ?thesis using ab ok l by (intro exI[of _ p] exI[of _ st]) auto
  qed
  have add: "\<exists>st'. addRecord x p st = Some st' \<and> store_ok st' \<and> rest st' = rest st
     \<and> plockSet st' = (\<lambda>r. if inEither st x y r then Some (Some p) else plockSet st r)
     \<and> (\<forall>q. lockSets st' q = None \<longleftrightarrow> lockSets st q = None)
     \<and> (\<forall>q s s'. lockSets st q = Some s \<longrightarrow> lockSets st' q = Some s' \<longrightarrow> proto s' = proto s \<and> ls_type s' = ls_type s)"
    if x: "plockSet st x = Some None" and y: "plockSet st y = Some (Some p)" for x y p
  proof -
    obtain s where s: "lockSets st p = Some s" "ls_type s \<noteq> listTypeFree" using d(6)[OF y] by blast
    obtain st' where st': "addRecord x p st = Some st'" "store_ok st'" "rest st' = rest st" "plockSet st' = (plockSet st)(x \<mapsto> Some p)"
        "lockSets st' = (lockSets st)(p \<mapsto> s\<lparr>lockRecordList := lockRecordList s @ [x]\<rparr>)"
      using addRecord_ok[OF ok x s] by blast
    have lx: "lset st x = None" "lset st y = Some p" using x y by (simp_all add: lset_def)
    then have "inEither st x y r \<longleftrightarrow> r = x \<or> plockSet st r = Some (Some p)" for r
      by (auto simp: inEither_def joined_def lset_Some[symmetric])
    then have "plockSet st' = (\<lambda>r. if inEither st x y r then Some (Some p) else plockSet st r)" using st'(4) by auto
    moreover have "proto s' = proto s0 \<and> ls_type s' = ls_type s0" if "lockSets st q = Some s0" "lockSets st' q = Some s'" for q s0 s'
      using that s st'(5) by (cases "q = p") (auto simp: proto_def)
    ultimately show ?thesis using st' s by (intro exI[of _ st']) auto
  qed
  have comm: "inEither st a b = inEither st b a" by (auto simp: inEither_def)
  obtain qa qb where q: "plockSet st a = Some qa" "plockSet st b = Some qb" using dom by auto
  then have l: "lset st a = qa" "lset st b = qb" by (simp_all add: lset_def)
  show ?thesis
  proof (cases "a = b")
    case True
    then obtain p where "lset st a = Some p" "lset st b = Some p" using a by auto
    then show ?thesis using same True by (simp add: dbLockSetMerge_def)
  next
    case ne: False
    consider (left) p where "qa = None" "qb = Some p" | (right) p where "qa = Some p" "qb = None"
      | (eq) p where "qa = Some p" "qb = Some p" | (two) p1 p2 where "qa = Some p1" "qb = Some p2" "p1 \<noteq> p2"
      using a l by (cases qa; cases qb) auto
    then show ?thesis
    proof cases
      case left
      then have "dbLockSetMerge a b st = addRecord a p st" using ne q by (simp add: dbLockSetMerge_def)
      then show ?thesis using add[of a b p] left q l by (intro exI[of _ p]) auto
    next
      case right
      then have "dbLockSetMerge a b st = addRecord b p st" using ne q by (simp add: dbLockSetMerge_def)
      then show ?thesis using add[of b a p] right q l comm by (intro exI[of _ p]) auto
    next
      case eq
      then show ?thesis using same[of p] l ne q by (simp add: dbLockSetMerge_def)
    next
      case two
      obtain s1 s2 where s: "lockSets st p1 = Some s1" "ls_type s1 \<noteq> listTypeFree" "lockSets st p2 = Some s2" "ls_type s2 \<noteq> listTypeFree"
        using d(6)[of a p1] d(6)[of b p2] q two by auto
      have t: "ls_type s1 = ls_type s2" using ty l two s by blast
      obtain st1 where m: "moveRecords p1 p2 (lockRecordList s2) st = Some st1" "lockSets st1 = (lockSets st)(p1 \<mapsto> s1\<lparr>lockRecordList := lockRecordList s1 @ lockRecordList s2\<rparr>,
           p2 \<mapsto> s2\<lparr>lockRecordList := []\<rparr>)"
         "plockSet st1 = (\<lambda>r. if r \<in> set (lockRecordList s2) then Some (Some p1) else plockSet st r)" "lockSetList st1 = lockSetList st"
         "nextBlock st1 = nextBlock st" "rest st1 = rest st"
        using moveRecords_eq[OF two(3) s(1,3) refl] by blast
      let ?s1 = "s1\<lparr>lockRecordList := lockRecordList s1 @ lockRecordList s2\<rparr>" and ?s2 = "s2\<lparr>lockRecordList := []\<rparr>"
      have r2: "r \<in> set (lockRecordList s2) \<longleftrightarrow> plockSet st r = Some (Some p2)" for r by (rule d(5)[OF s(3)])
      have r1: "r \<in> set (lockRecordList s1) \<longleftrightarrow> plockSet st r = Some (Some p1)" for r by (rule d(5)[OF s(1)])
      have ok1: "store_ok st1"
      proof -
        have 1: "q < nextBlock st1 \<and> distinct (lockRecordList x) \<and> q \<in> set (lockSetList st1 (ls_type x))
            \<and> (ls_type x = listTypeFree \<longrightarrow> lockRecordList x = []) \<and> (\<forall>r \<in> set (lockRecordList x). plockSet st1 r = Some (Some q))"
          if x: "lockSets st1 q = Some x" for q x
        proof -
          consider "q = p1" | "q = p2" | "q \<noteq> p1" "q \<noteq> p2" by blast
          then show ?thesis
          proof cases
            case 1
            then have "x = ?s1" using x m(2) two(3) by simp
            then show ?thesis using 1 d(1,2,3)[OF s(1)] d(2)[OF s(3)] r1 r2 two(3) s(2) m(3-5) by auto
          next
            case 2
            then have "x = ?s2" using x m(2) by simp
            then show ?thesis using 2 d(1,3)[OF s(3)] m(4,5) by auto
          next
            case 3
            then have x0: "lockSets st q = Some x" using x m(2) by simp
            then show ?thesis using d(1,2,3,4,5)[OF x0] r2 3 m(3-5) by auto
          qed
        qed
        have 2: "\<exists>x. lockSets st1 q = Some x \<and> r \<in> set (lockRecordList x)" if r: "plockSet st1 r = Some (Some q)" for r q
        proof (cases "r \<in> set (lockRecordList s2)")
          case True
          then show ?thesis using r m(2,3) two(3) by auto
        next
          case False
          then have r0: "plockSet st r = Some (Some q)" using r m(3) by simp
          then have "q \<noteq> p2" using False r2 by auto
          moreover obtain x where "lockSets st q = Some x" "r \<in> set (lockRecordList x)" using d(6)[OF r0] by auto
          ultimately show ?thesis using s m(2) by (cases "q = p1") auto
        qed
        have 3: "\<exists>x. lockSets st1 q = Some x \<and> ls_type x = y" if "q \<in> set (lockSetList st1 y)" for q y
          using d(8)[of q y] that s m(2,4) by (cases "q = p1"; cases "q = p2") auto
        have 4: "distinct (lockSetList st1 y)" for y using d(7) m(4) by simp
        show ?thesis unfolding store_ok_def using 1 2 3 4 by blast
      qed
      let ?st = "addTo listTypeFree p2 (setLS p2 (?s2\<lparr>ls_type := listTypeFree\<rparr>) (deleteFrom (ls_type ?s2) p2 st1))"
      have mg: "dbLockSetMerge a b st = Some ?st" using ne q two s t m(1,2) by (simp add: dbLockSetMerge_def)
      have "store_ok ?st" by (rule store_retype[OF ok1]) (use m(2) s in auto)
      moreover have "rest ?st = rest st" using m(6) by simp
      moreover have "plockSet ?st = (\<lambda>r. if inEither st a b r then Some (Some p1) else plockSet st r)"
      proof
        fix r
        have "inEither st a b r \<longleftrightarrow> plockSet st r = Some (Some p1) \<or> plockSet st r = Some (Some p2)"
          using l two q by (auto simp: inEither_def joined_def lset_Some[symmetric])
        then show "plockSet ?st r = (if inEither st a b r then Some (Some p1) else plockSet st r)" using m(3) r2 by auto
      qed
      moreover have "lockSets ?st q = None \<longleftrightarrow> lockSets st q = None" for q using m(2) s by auto
      moreover have "proto s' = proto s0 \<and> ls_type s' = (if q \<noteq> p1 \<and> (lset st a = Some q \<or> lset st b = Some q) then listTypeFree else ls_type s0)"
        if "lockSets st q = Some s0" "lockSets ?st q = Some s'" for q s0 s'
        using that l two s m(2) by (cases "q = p1"; cases "q = p2") (auto simp: proto_def)
      ultimately show ?thesis using mg l two by (intro exI[of _ p1] exI[of _ ?st]) auto
    qed
  qed
qed

end
