(* ===== verification/DbLockGraph.thy ===== *)
theory DbLockGraph
  imports DbLockSets
begin

text \<open>
  Lock sets and the graph of database links: what merging, splitting and releasing do to the partition of the
  records, and that start-up makes it the partition into connected components.
\<close>

section \<open>Splitting and releasing\<close>

lemma split_ok:
  assumes ok: "store_ok st" and r: "lset st r = Some p" and s: "lockSets st p = Some s"
    and ty: "ls_state s = lockSetStateRecordLock" "ls_type s = listTypeRecordLock"
  shows "\<exists>st'. dbLockSetSplit r st = Some (lockRecordList s, st') \<and> store_ok st' \<and> rest st' = rest st
     \<and> plockSet st' = (\<lambda>x. if plockSet st x = Some (Some p) then Some None else plockSet st x)
     \<and> lockSets st' = (lockSets st)(p \<mapsto> s\<lparr>lockRecordList := [], ls_state := lockSetStateFree, ls_type := listTypeFree\<rparr>)
     \<and> lockSetList st' listTypeRecordLock = remove1 p (lockSetList st listTypeRecordLock)"
proof -
  note d = store_okD[OF ok]
  let ?ps = "\<lambda>x. if x \<in> set (lockRecordList s) then Some None else plockSet st x"
  let ?st1 = "setLS p (s\<lparr>lockRecordList := []\<rparr>) (st\<lparr>plockSet := ?ps\<rparr>)"
  let ?s = "s\<lparr>lockRecordList := [], ls_state := lockSetStateFree, ls_type := listTypeFree\<rparr>"
  let ?st = "addTo listTypeFree p (setLS p ?s (deleteFrom (ls_type s) p (st\<lparr>plockSet := ?ps\<rparr>)))"
  have eq: "?ps = (\<lambda>x. if plockSet st x = Some (Some p) then Some None else plockSet st x)" using d(5)[OF s] by auto
  have ok1: "store_ok ?st1"
  proof -
    have 1: "q < nextBlock ?st1 \<and> distinct (lockRecordList x) \<and> q \<in> set (lockSetList ?st1 (ls_type x))
        \<and> (ls_type x = listTypeFree \<longrightarrow> lockRecordList x = []) \<and> (\<forall>r \<in> set (lockRecordList x). plockSet ?st1 r = Some (Some q))"
      if x: "lockSets ?st1 q = Some x" for q x
    proof (cases "q = p")
      case True
      then have "x = s\<lparr>lockRecordList := []\<rparr>" using x by simp
      then show ?thesis using True d(1,3)[OF s] by simp
    next
      case False
      then have x0: "lockSets st q = Some x" using x by simp
      moreover have "\<forall>y \<in> set (lockRecordList x). plockSet st y = Some (Some q)" using d(5)[OF x0] by blast
      moreover have "\<forall>y \<in> set (lockRecordList s). plockSet st y = Some (Some p)" using d(5)[OF s] by blast
      ultimately have "\<forall>y \<in> set (lockRecordList x). ?ps y = Some (Some q)" using False by auto
      then show ?thesis using d(1-4)[OF x0] by simp
    qed
    have 2: "\<exists>x. lockSets ?st1 q = Some x \<and> y \<in> set (lockRecordList x)" if y: "plockSet ?st1 y = Some (Some q)" for y q
    proof -
      have y0: "plockSet st y = Some (Some q)" "y \<notin> set (lockRecordList s)" using y by (simp_all split: if_splits)
      then have "q \<noteq> p" using d(5)[OF s, of y] by auto
      then show ?thesis using d(6)[OF y0(1)] by auto
    qed
    have 3: "\<exists>x. lockSets ?st1 q = Some x \<and> ls_type x = y" if q: "q \<in> set (lockSetList ?st1 y)" for q y
    proof -
      obtain x where x: "lockSets st q = Some x" "ls_type x = y" using d(8)[of q y] q by auto
      show ?thesis
      proof (cases "q = p")
        case True
        then have "x = s" using x(1) s by simp
        then show ?thesis using True x(2) by simp
      qed (use x in simp)
    qed
    have 4: "distinct (lockSetList ?st1 y)" for y using d(7) by simp
    show ?thesis unfolding store_ok_def using 1 2 3 4 by blast
  qed
  have "store_ok (addTo listTypeFree p (setLS p ?s (deleteFrom (ls_type (s\<lparr>lockRecordList := []\<rparr>)) p ?st1)))"
    by (rule store_retype[OF ok1]) (simp_all add: ty)
  moreover have "addTo listTypeFree p (setLS p ?s (deleteFrom (ls_type (s\<lparr>lockRecordList := []\<rparr>)) p ?st1)) = ?st"
    by (simp add: setLS_def addTo_def deleteFrom_def)
  ultimately have "store_ok ?st" by simp
  moreover have "rest ?st = rest st" by (simp add: rest_def)
  moreover have "dbLockSetSplit r st = Some (lockRecordList s, ?st)"
    using r s ty by (simp add: dbLockSetSplit_def lset_Some)
  moreover have "plockSet ?st = (\<lambda>x. if plockSet st x = Some (Some p) then Some None else plockSet st x)" using eq by simp
  ultimately show ?thesis using ty by (intro exI[of _ ?st]) simp
qed

definition released :: "lockSet \<Rightarrow> lockSet" where
  "released s = s\<lparr>ls_type := listTypeScanLock, ls_state := lockSetStateFree, thread_id := None, ls_precord := None, nRecursion := 0, nWaiting := 0\<rparr>"

lemma releaseSets_ok:
  "store_ok st \<Longrightarrow> distinct ps \<Longrightarrow> \<forall>p \<in> set ps. \<exists>s. lockSets st p = Some s \<and> ls_type s = listTypeRecordLock \<Longrightarrow>
   \<exists>st'. releaseSets ps st = Some st' \<and> store_ok st' \<and> rest st' = rest st \<and> plockSet st' = plockSet st
     \<and> lockSets st' = (\<lambda>q. if q \<in> set ps then map_option released (lockSets st q) else lockSets st q)"
proof (induction ps arbitrary: st)
  case Nil
  then show ?case by simp
next
  case (Cons p ps)
  obtain s where s: "lockSets st p = Some s" "ls_type s = listTypeRecordLock" using Cons.prems(3) by auto
  let ?st = "addTo listTypeScanLock p (setLS p (released s) (deleteFrom listTypeRecordLock p st))"
  have r: "releaseSets (p # ps) st = releaseSets ps ?st" using s by (simp add: released_def)
  have ok: "store_ok ?st" unfolding s(2)[symmetric] by (rule store_retype[OF Cons.prems(1) s(1)]) (simp_all add: released_def s)
  have "\<forall>q \<in> set ps. \<exists>x. lockSets ?st q = Some x \<and> ls_type x = listTypeRecordLock" using Cons.prems(2,3) by auto
  from Cons.IH[OF ok _ this] obtain st' where st': "releaseSets ps ?st = Some st'" "store_ok st'" "rest st' = rest ?st" "plockSet st' = plockSet ?st"
      "lockSets st' = (\<lambda>q. if q \<in> set ps then map_option released (lockSets ?st q) else lockSets ?st q)" using Cons.prems(2) by auto
  have "lockSets st' = (\<lambda>q. if q \<in> set (p # ps) then map_option released (lockSets st q) else lockSets st q)"
    unfolding st'(5) using Cons.prems(2) s by (intro ext) simp
  then show ?case using r st' by (intro exI[of _ st']) simp
qed

section \<open>The graph\<close>

definition edges :: "(addr \<Rightarrow> ptr list) \<Rightarrow> (addr \<times> addr) set" where
  "edges lks = {(r, x). Some x \<in> set (lks r)}"

definition conn :: "(addr \<times> addr) set \<Rightarrow> (addr \<times> addr) set" where
  "conn E = (E \<union> E\<inverse>)\<^sup>*"

lemma conn_refl: "(a, a) \<in> conn E"
  by (simp add: conn_def)

lemma conn_trans: "(a, b) \<in> conn E \<Longrightarrow> (b, c) \<in> conn E \<Longrightarrow> (a, c) \<in> conn E"
  by (simp add: conn_def)

lemma conn_sym: "(a, b) \<in> conn E \<Longrightarrow> (b, a) \<in> conn E"
  unfolding conn_def by (metis converse_converse converse_Un rtrancl_converseD sup_commute)

lemma conn_edge: "(a, b) \<in> E \<Longrightarrow> (a, b) \<in> conn E"
  by (auto simp: conn_def)

lemma conn_mono: "E \<subseteq> F \<Longrightarrow> (a, b) \<in> conn E \<Longrightarrow> (a, b) \<in> conn F"
  unfolding conn_def by (metis converse_mono in_mono rtrancl_mono sup.mono)

text \<open>A set of records closed under the edges is closed under connection, and connection inside it does not need others.\<close>

lemma conn_closed:
  assumes "(a, b) \<in> conn E" "\<And>x y. (x, y) \<in> E \<Longrightarrow> P x \<longleftrightarrow> P y" "P a"
  shows "P b"
  using assms(1)[unfolded conn_def] assms(3) by (induction) (use assms(2) in auto)

lemma conn_inside:
  assumes "(a, b) \<in> conn E" "\<And>x y. (x, y) \<in> E \<Longrightarrow> P x \<longleftrightarrow> P y" "P a" "\<And>x y. (x, y) \<in> E \<Longrightarrow> P x \<Longrightarrow> (x, y) \<in> F"
  shows "(a, b) \<in> conn F"
  using assms(1)[unfolded conn_def]
proof (induction)
  case base
  then show ?case by (rule conn_refl)
next
  case (step y z)
  have "(a, y) \<in> conn E" using step.hyps(1) by (simp add: conn_def)
  from conn_closed[where P = P, OF this assms(2,3)] have "P y" by blast
  then have "(y, z) \<in> conn F" using step.hyps(2) assms(2,4) conn_edge conn_sym by blast
  then show ?case using step.IH conn_trans by blast
qed

definition sound :: "(addr \<times> addr) set \<Rightarrow> dblock \<Rightarrow> bool" where
  "sound E st \<longleftrightarrow> (\<forall>a b. joined st a b \<longrightarrow> (a, b) \<in> conn E)"

lemma joined_sym: "joined st a b \<Longrightarrow> joined st b a"
  unfolding joined_def by metis

lemma joined_trans: "joined st a b \<Longrightarrow> joined st b c \<Longrightarrow> joined st a c"
  unfolding joined_def by metis

lemma joined_lset: "joined st a b \<Longrightarrow> lset st a \<noteq> None"
  unfolding joined_def by (rule conjunct1)

lemma joined_cong: "plockSet st' = plockSet st \<Longrightarrow> joined st' = joined st"
  by (auto simp: joined_def lset_def fun_eq_iff)

text \<open>Merging two records joins their sets and no others.\<close>

lemma merged_lset: "plockSet st' = (\<lambda>r. if inEither st a b r then Some (Some p) else plockSet st r) \<Longrightarrow>
    lset st' r = (if inEither st a b r then Some p else lset st r)"
  by (simp add: lset_def)

lemma merged_joined:
  assumes "plockSet st' = (\<lambda>r. if inEither st a b r then Some (Some p) else plockSet st r)" "lset st a = Some p \<or> lset st b = Some p"
  shows "joined st' x y \<longleftrightarrow> joined st x y \<or> inEither st a b x \<and> inEither st a b y"
proof -
  have p: "inEither st a b z" if "lset st z = Some p" for z using that assms(2) by (auto simp: inEither_def joined_def)
  have j: "inEither st a b x \<longleftrightarrow> inEither st a b y" if "joined st x y"
    using that joined_sym joined_trans unfolding inEither_def by blast
  show ?thesis using p[of x] p[of y] j by (auto simp: joined_def merged_lset[OF assms(1)])
qed

lemma sound_merged:
  assumes "sound E st" "(a, b) \<in> conn E" "plockSet st' = (\<lambda>r. if inEither st a b r then Some (Some p) else plockSet st r)"
    "lset st a = Some p \<or> lset st b = Some p"
  shows "sound E st'"
proof -
  have near: "(x, a) \<in> conn E" if i: "inEither st a b x" for x
  proof -
    have "x = a \<or> x = b \<or> (x, a) \<in> conn E \<or> (x, b) \<in> conn E" using i assms(1) unfolding inEither_def sound_def by blast
    then show ?thesis using conn_refl conn_sym[OF assms(2)] conn_trans by metis
  qed
  show ?thesis
    unfolding sound_def
  proof (intro allI impI)
    fix x y assume "joined st' x y"
    then consider "joined st x y" | "inEither st a b x" "inEither st a b y" unfolding merged_joined[OF assms(3,4)] by blast
    then show "(x, y) \<in> conn E"
    proof cases
      case 1
      then show ?thesis using assms(1) by (simp add: sound_def)
    next
      case 2
      show ?thesis by (rule conn_trans[OF near[OF 2(1)] conn_sym[OF near[OF 2(2)]]])
    qed
  qed
qed

text \<open>A record alone in a set of its own.\<close>

lemma alloc_joined:
  assumes "plockSet st r = Some None" "plockSet st' = (plockSet st)(r \<mapsto> Some p)" "\<And>x. lset st x \<noteq> Some p"
  shows "joined st' x y \<longleftrightarrow> joined st x y \<or> x = r \<and> y = r"
proof -
  have "lset st' z = (if z = r then Some p else lset st z)" for z using assms(2) by (simp add: lset_def)
  moreover have "lset st r = None" using assms(1) by (simp add: lset_def)
  ultimately show ?thesis using assms(3)[of x] assms(3)[of y] by (auto simp: joined_def)
qed

lemma alloc_fresh: "store_ok st \<Longrightarrow> \<forall>s0. lockSets st p = Some s0 \<longrightarrow> ls_type s0 = listTypeFree \<Longrightarrow> lset st x \<noteq> Some p"
  using store_okD(6)[of st x p] by (auto simp: lset_Some)

lemma sound_alloc:
  assumes "sound E st" "plockSet st r = Some None" "plockSet st' = (plockSet st)(r \<mapsto> Some p)" "\<And>x. lset st x \<noteq> Some p"
  shows "sound E st'"
  using assms(1) conn_refl unfolding sound_def alloc_joined[OF assms(2-4)] by blast

lemma set_linkMerges: "set (linkMerges r st) = {(r, x) |x. (r, x) \<in> edges (links st)}"
  by (force simp: linkMerges_def edges_def split: option.splits)

section \<open>Start-up\<close>

text \<open>The lock sets made at start-up are free.\<close>

definition unlocked :: "dblock \<Rightarrow> bool" where
  "unlocked st \<longleftrightarrow> (\<forall>q s. lockSets st q = Some s \<longrightarrow> proto s = (None, lockSetStateFree, None, 0, 0) \<and> ls_type s \<noteq> listTypeRecordLock)"

lemma unlockedD: "unlocked st \<Longrightarrow> lockSets st q = Some s \<Longrightarrow> proto s = (None, lockSetStateFree, None, 0, 0) \<and> ls_type s \<noteq> listTypeRecordLock"
  by (simp add: unlocked_def)

definition init_ok :: "addr set \<Rightarrow> (addr \<times> addr) set \<Rightarrow> (addr \<Rightarrow> ptr list) \<Rightarrow> dblock \<Rightarrow> bool" where
  "init_ok R E lks st \<longleftrightarrow> store_ok st \<and> unlocked st \<and> sound E st \<and> dom (plockSet st) = R \<and> rest st = (None, lks, \<lambda>_. Idle, \<lambda>_. [])"

lemma init_okD:
  assumes "init_ok R E lks st"
  shows "store_ok st" "unlocked st" "sound E st" "dom (plockSet st) = R" "rest st = (None, lks, \<lambda>_. Idle, \<lambda>_. [])"
  using assms by (simp_all add: init_ok_def)

lemma dom_Some: "dom m = R \<Longrightarrow> x \<in> R \<Longrightarrow> m x \<noteq> None"
  by auto

lemma init_merge:
  assumes i: "init_ok R E lks st" and r: "lset st r \<noteq> None" and e: "(r, x) \<in> E" and x: "r \<in> R" "x \<in> R"
  shows "\<exists>st'. dbLockSetMerge r x st = Some st' \<and> init_ok R E lks st' \<and> joined st' r x \<and> (\<forall>a b. joined st a b \<longrightarrow> joined st' a b)"
proof -
  note d = init_okD[OF i]
  have ty0: "ls_type s = ls_type t" if "lset st r = Some p" "lset st x = Some q" "lockSets st p = Some s" "lockSets st q = Some t" for p q s t
  proof -
    have "ls_type s \<noteq> listTypeFree" "ls_type t \<noteq> listTypeFree"
      using store_okD(6)[OF d(1), of r p] store_okD(6)[OF d(1), of x q] that by (auto simp: lset_Some)
    then show ?thesis using unlockedD[OF d(2)] that(3,4) by (cases "ls_type s"; cases "ls_type t") auto
  qed
  have ty: "\<forall>p q s t. lset st r = Some p \<and> lset st x = Some q \<and> lockSets st p = Some s \<and> lockSets st q = Some t \<longrightarrow> ls_type s = ls_type t"
    using ty0 by blast
  obtain p st' where m: "dbLockSetMerge r x st = Some st'" "store_ok st'" "rest st' = rest st" "lset st r = Some p \<or> lset st x = Some p"
     "plockSet st' = (\<lambda>y. if inEither st r x y then Some (Some p) else plockSet st y)"
     "\<forall>q. lockSets st' q = None \<longleftrightarrow> lockSets st q = None"
     "\<forall>q s s'. lockSets st q = Some s \<longrightarrow> lockSets st' q = Some s' \<longrightarrow> proto s' = proto s
          \<and> ls_type s' = (if q \<noteq> p \<and> (lset st r = Some q \<or> lset st x = Some q) then listTypeFree else ls_type s)"
    using merge_ok[OF d(1) dom_Some[OF d(4) x(1)] dom_Some[OF d(4) x(2)] _ ty] r by blast
  have "unlocked st'"
    unfolding unlocked_def
  proof (intro allI impI)
    fix q s' assume s': "lockSets st' q = Some s'"
    then have "lockSets st q \<noteq> None" using m(6) by (metis option.distinct(1))
    then obtain s where s: "lockSets st q = Some s" by blast
    then show "proto s' = (None, lockSetStateFree, None, 0, 0) \<and> ls_type s' \<noteq> listTypeRecordLock"
      using m(7) s' unlockedD[OF d(2) s] by (auto split: if_splits)
  qed
  moreover have "sound E st'" by (rule sound_merged[OF d(3) conn_edge[OF e] m(5,4)])
  moreover have "dom (plockSet st') = R"
  proof -
    have "plockSet st y \<noteq> None" if i: "inEither st r x y" for y
    proof -
      have "y = r \<or> y = x \<or> lset st y \<noteq> None" using i joined_lset unfolding inEither_def by blast
      then show ?thesis using x d(4) by (auto simp: lset_def split: option.splits)
    qed
    then show ?thesis unfolding m(5) using d(4) by (auto split: if_splits)
  qed
  ultimately have "init_ok R E lks st'" using m(2,3) d(5) by (simp add: init_ok_def)
  moreover have "joined st' r x" unfolding merged_joined[OF m(5,4)] by (simp add: inEither_def)
  moreover have "joined st a b \<Longrightarrow> joined st' a b" for a b unfolding merged_joined[OF m(5,4)] by simp
  ultimately show ?thesis using m(1) by blast
qed

lemma init_merges:
  "init_ok R E lks st \<Longrightarrow> lset st r \<noteq> None \<Longrightarrow> r \<in> R \<Longrightarrow> \<forall>m \<in> set ms. fst m = r \<and> m \<in> E \<and> snd m \<in> R \<Longrightarrow>
   \<exists>st'. mergeAll ms st = Some st' \<and> init_ok R E lks st' \<and> (\<forall>a b. joined st a b \<longrightarrow> joined st' a b) \<and> (\<forall>(a, b) \<in> set ms. joined st' a b)"
proof (induction ms arbitrary: st)
  case (Cons m ms)
  obtain x where m: "m = (r, x)" "(r, x) \<in> E" "x \<in> R" using Cons.prems(4) by (cases m) auto
  obtain st1 where st1: "dbLockSetMerge r x st = Some st1" "init_ok R E lks st1" "joined st1 r x" "\<forall>a b. joined st a b \<longrightarrow> joined st1 a b"
    using init_merge[OF Cons.prems(1,2) m(2) Cons.prems(3) m(3)] by blast
  have "lset st1 r \<noteq> None" by (rule joined_lset[OF st1(3)])
  from Cons.IH[OF st1(2) this Cons.prems(3)] obtain st' where "mergeAll ms st1 = Some st'" "init_ok R E lks st'"
      "\<forall>a b. joined st1 a b \<longrightarrow> joined st' a b" "\<forall>(a, b) \<in> set ms. joined st' a b" using Cons.prems(4) by auto
  then show ?case using st1 m(1) by (intro exI[of _ st']) auto
qed auto

lemma init_record:
  assumes i: "init_ok R E lks st" and r: "r \<in> R" and e: "\<And>x. (r, x) \<in> edges lks \<Longrightarrow> (r, x) \<in> E \<and> x \<in> R"
  shows "\<exists>st'. (do {
        q \<leftarrow> plockSet st r;
        st1 \<leftarrow> (if q = None then allocLockSet r listTypeScanLock lockSetStateFree None st else Some st);
        mergeAll (linkMerges r st1) st1 }) = Some st' \<and> init_ok R E lks st' \<and> lset st' r \<noteq> None
      \<and> (\<forall>a b. joined st a b \<longrightarrow> joined st' a b) \<and> (\<forall>x. (r, x) \<in> edges lks \<longrightarrow> joined st' r x)"
proof -
  note d = init_okD[OF i]
  obtain q where q: "plockSet st r = Some q" using d(4) r by auto
  obtain st1 where st1: "(if q = None then allocLockSet r listTypeScanLock lockSetStateFree None st else Some st) = Some st1"
     "init_ok R E lks st1" "lset st1 r \<noteq> None" "\<forall>a b. joined st a b \<longrightarrow> joined st1 a b"
  proof (cases q)
    case None
    then have r0: "plockSet st r = Some None" using q by simp
    obtain p s st1 where a: "allocLockSet r listTypeScanLock lockSetStateFree None st = Some st1" "store_ok st1" "rest st1 = rest st"
       "plockSet st1 = (plockSet st)(r \<mapsto> Some p)" "lockSets st1 = (lockSets st)(p \<mapsto> s)"
       "proto s = (case lockSets st p of None \<Rightarrow> None | Some s0 \<Rightarrow> lock s0, lockSetStateFree, None, 0, 0)"
       "ls_type s = listTypeScanLock" "\<forall>s0. lockSets st p = Some s0 \<longrightarrow> ls_type s0 = listTypeFree"
      using alloc_ok[OF d(1) r0, of listTypeScanLock lockSetStateFree None] by auto
    have f: "\<And>x. lset st x \<noteq> Some p" by (rule alloc_fresh[OF d(1) a(8)])
    have "proto s = (None, lockSetStateFree, None, 0, 0)"
      using a(6) unlockedD[OF d(2), of p] by (auto simp: proto_def split: option.splits)
    then have "unlocked st1" using d(2) a(5,7) by (simp add: unlocked_def)
    moreover have "sound E st1" by (rule sound_alloc[OF d(3) r0 a(4) f])
    ultimately have "init_ok R E lks st1" using a(2-4) d(4,5) r(1) by (auto simp: init_ok_def)
    moreover have "joined st x y \<Longrightarrow> joined st1 x y" for x y unfolding alloc_joined[OF r0 a(4) f] by simp
    moreover have "lset st1 r \<noteq> None" using a(4) by (simp add: lset_def)
    ultimately show ?thesis using that[of st1] a(1) None by simp
  next
    case (Some p)
    then show ?thesis using that[of st] i q by (simp add: lset_def)
  qed
  have l: "links st1 = lks" using init_okD(5)[OF st1(2)] by (simp add: rest_def)
  have "\<forall>m \<in> set (linkMerges r st1). fst m = r \<and> m \<in> E \<and> snd m \<in> R" using e by (auto simp: set_linkMerges l)
  from init_merges[OF st1(2,3) r this] obtain st' where st': "mergeAll (linkMerges r st1) st1 = Some st'" "init_ok R E lks st'"
      "\<forall>a b. joined st1 a b \<longrightarrow> joined st' a b" "\<forall>(a, b) \<in> set (linkMerges r st1). joined st' a b" by blast
  have "joined st1 r r" using st1(3) by (simp add: joined_def)
  then have "lset st' r \<noteq> None" using st'(3) joined_lset by blast
  moreover have "\<forall>x. (r, x) \<in> edges lks \<longrightarrow> joined st' r x" using st'(4) by (auto simp: set_linkMerges l)
  ultimately show ?thesis using q st1 st' by (intro exI[of _ st']) auto
qed

lemma initLoop_ok:
  "init_ok R E lks st \<Longrightarrow> set rs \<subseteq> R \<Longrightarrow> \<forall>r \<in> set rs. named r \<longrightarrow> (\<forall>x. (r, x) \<in> edges lks \<longrightarrow> (r, x) \<in> E \<and> x \<in> R) \<Longrightarrow>
   \<exists>st'. initLoop named rs st = Some st' \<and> init_ok R E lks st' \<and> (\<forall>a b. joined st a b \<longrightarrow> joined st' a b)
     \<and> (\<forall>r \<in> set rs. named r \<longrightarrow> lset st' r \<noteq> None \<and> (\<forall>x. (r, x) \<in> edges lks \<longrightarrow> joined st' r x))"
proof (induction rs arbitrary: st)
  case (Cons r rs)
  show ?case
  proof (cases "named r")
    case True
    have "r \<in> R" using Cons.prems(2) by simp
    moreover have "(r, x) \<in> E \<and> x \<in> R" if "(r, x) \<in> edges lks" for x using Cons.prems(3) True that by simp
    ultimately obtain st1 where st1:
       "(do { q \<leftarrow> plockSet st r;
        st1 \<leftarrow> (if q = None then allocLockSet r listTypeScanLock lockSetStateFree None st else Some st);
        mergeAll (linkMerges r st1) st1 }) = Some st1" "init_ok R E lks st1" "lset st1 r \<noteq> None"
       "\<forall>a b. joined st a b \<longrightarrow> joined st1 a b" "\<forall>x. (r, x) \<in> edges lks \<longrightarrow> joined st1 r x"
      using init_record[where r = r, OF Cons.prems(1)] by blast
    have eq: "initLoop named (r # rs) st = initLoop named rs st1"
      using st1(1) True by (auto split: Option.bind_splits)
    have sub: "set rs \<subseteq> R" "\<forall>r \<in> set rs. named r \<longrightarrow> (\<forall>x. (r, x) \<in> edges lks \<longrightarrow> (r, x) \<in> E \<and> x \<in> R)"
      using Cons.prems(2,3) by simp_all
    from Cons.IH[OF st1(2) sub] obtain st' where st': "initLoop named rs st1 = Some st'" "init_ok R E lks st'"
        "\<forall>a b. joined st1 a b \<longrightarrow> joined st' a b"
        "\<forall>r \<in> set rs. named r \<longrightarrow> lset st' r \<noteq> None \<and> (\<forall>x. (r, x) \<in> edges lks \<longrightarrow> joined st' r x)" by blast
    have "joined st1 r r" using st1(3) by (simp add: joined_def)
    then have "lset st' r \<noteq> None" using st'(3) joined_lset by blast
    then show ?thesis using eq st1 st' by (intro exI[of _ st']) auto
  next
    case False
    have sub: "set rs \<subseteq> R" "\<forall>r \<in> set rs. named r \<longrightarrow> (\<forall>x. (r, x) \<in> edges lks \<longrightarrow> (r, x) \<in> E \<and> x \<in> R)"
      using Cons.prems(2,3) by simp_all
    from Cons.IH[OF Cons.prems(1) sub] False show ?thesis by simp
  qed
qed auto

text \<open>The links of the records with a name.\<close>

definition namedEdges :: "addr list \<Rightarrow> (addr \<Rightarrow> bool) \<Rightarrow> (addr \<Rightarrow> ptr list) \<Rightarrow> (addr \<times> addr) set" where
  "namedEdges rs named lks = {(r, x) \<in> edges lks. r \<in> set rs \<and> named r}"

lemma init_partition:
  assumes t: "\<And>r x. (r, x) \<in> namedEdges rs named lks \<Longrightarrow> x \<in> set rs"
  shows "\<exists>st. dbLockInitRecords rs named lks = Some st \<and> init_ok (set rs) (namedEdges rs named lks) lks st
     \<and> (\<forall>r \<in> set rs. named r \<longrightarrow> lset st r \<noteq> None)
     \<and> (\<forall>a b. lset st a \<noteq> None \<longrightarrow> joined st a b \<longleftrightarrow> (a, b) \<in> conn (namedEdges rs named lks))"
proof -
  let ?E = "namedEdges rs named lks"
  let ?st = "\<lparr>lockSets = Map.empty, plockSet = (\<lambda>r. if r \<in> set rs then Some None else None), lockSetList = (\<lambda>_. []), lockId = 0,
      nextBlock = 1, globalLock = None, links = lks, pcs = (\<lambda>_. Idle), held = (\<lambda>_. [])\<rparr>"
  have none: "lset ?st r = None" for r by (simp add: lset_def)
  then have nj: "\<not> joined ?st a b" for a b by (simp add: joined_def)
  have "store_ok ?st" "unlocked ?st" "rest ?st = (None, lks, \<lambda>_. Idle, \<lambda>_. [])" "sound ?E ?st"
    using nj by (simp_all add: store_ok_def unlocked_def rest_def sound_def)
  moreover have "dom (plockSet ?st) = set rs" by (auto split: if_splits)
  ultimately have "init_ok (set rs) ?E lks ?st" by (simp add: init_ok_def)
  moreover have "\<forall>r \<in> set rs. named r \<longrightarrow> (\<forall>x. (r, x) \<in> edges lks \<longrightarrow> (r, x) \<in> ?E \<and> x \<in> set rs)"
    using t by (simp add: namedEdges_def)
  ultimately obtain st where st: "initLoop named rs ?st = Some st" "init_ok (set rs) ?E lks st"
     "\<forall>r \<in> set rs. named r \<longrightarrow> lset st r \<noteq> None \<and> (\<forall>x. (r, x) \<in> edges lks \<longrightarrow> joined st r x)"
    using initLoop_ok[where st = ?st, OF _ subset_refl] by blast
  have e: "joined st x y" if "(x, y) \<in> ?E" for x y using that st(3) by (auto simp: namedEdges_def)
  have "joined st a b \<longleftrightarrow> (a, b) \<in> conn ?E" if a: "lset st a \<noteq> None" for a b
  proof
    assume "joined st a b"
    then show "(a, b) \<in> conn ?E" using init_okD(3)[OF st(2)] by (simp add: sound_def)
  next
    assume c: "(a, b) \<in> conn ?E"
    have "joined st a x \<longleftrightarrow> joined st a y" if "(x, y) \<in> ?E" for x y
      using e[OF that] joined_sym joined_trans by blast
    from conn_closed[where P = "joined st a", OF c this] show "joined st a b" using a by (simp add: joined_def)
  qed
  then show ?thesis using st by (intro exI[of _ st]) (auto simp: dbLockInitRecords_def)
qed

end
