(* ===== verification/DbLockSystem.thy ===== *)
theory DbLockSystem
  imports DbLockGraph
begin

text \<open>
  The invariant of the lock sets and the threads that use them: the protocol of each set, the progress of the one
  thread that changes links, and the agreement of the sets with the links.
\<close>

section \<open>Threads at a lock set\<close>

fun scanAt :: "lockpc \<Rightarrow> ptr" where
  "scanAt (ScanWait r p) = Some p"
| "scanAt (ScanGot r p) = Some p"
| "scanAt _ = None"

fun gotAt :: "lockpc \<Rightarrow> ptr" where
  "gotAt (ScanGot r p) = Some p"
| "gotAt _ = None"

fun recAt :: "lockpc \<Rightarrow> ptr" where
  "recAt (PutRecWait r k a p) = Some p"
| "recAt (PutRecCheck r k a p) = Some p"
| "recAt (PutDstWait r x p) = Some p"
| "recAt (PutDstCheck r x p) = Some p"
| "recAt _ = None"

definition waits :: "(addr \<Rightarrow> lockpc) \<Rightarrow> addr \<Rightarrow> addr set" where
  "waits f p = {t. scanAt (f t) = Some p}"

definition got :: "(addr \<Rightarrow> lockpc) \<Rightarrow> addr \<Rightarrow> addr set" where
  "got f p = {t. gotAt (f t) = Some p}"

definition heldIn :: "(addr \<rightharpoonup> ptr) \<Rightarrow> (addr \<Rightarrow> addr list) \<Rightarrow> addr \<Rightarrow> addr \<Rightarrow> nat" where
  "heldIn ps h p t = length (filter (\<lambda>r. ps r = Some (Some p)) (h t))"

text \<open>The pc of the thread with the global lock.\<close>

definition phase :: "dblock \<Rightarrow> lockpc" where
  "phase st = (case globalLock st of None \<Rightarrow> Idle | Some u \<Rightarrow> pcs st u)"

text \<open>
  The protocol of one lock set, by the threads waiting and the thread just past the mutex, the records held in it, whether
  \<open>dbLockSetRecordLock\<close> is under way on it, and whether the global lock is held.
\<close>

definition set_ok :: "addr set \<Rightarrow> addr set \<Rightarrow> (addr \<Rightarrow> nat) \<Rightarrow> bool \<Rightarrow> bool \<Rightarrow> lockSet \<Rightarrow> bool" where
  "set_ok W G H recWait global s \<longleftrightarrow>
     finite W \<and> nWaiting s = int (card W) \<and> 0 \<le> nRecursion s
     \<and> (case lock s of
          None \<Rightarrow> G = {} \<and> nRecursion s = 0
        | Some t \<Rightarrow> G = {t} \<and> nRecursion s = 0 \<or> G = {} \<and> 0 < nRecursion s \<and> thread_id s = Some t)
     \<and> (\<forall>t. int (H t) = (if thread_id s = Some t then nRecursion s else 0))
     \<and> (case ls_type s of
          listTypeScanLock \<Rightarrow> (thread_id s \<noteq> None \<longrightarrow> 0 < nRecursion s)
            \<and> (case ls_state s of
                 lockSetStateFree \<Rightarrow> nRecursion s = 0 \<and> nWaiting s = 0
               | lockSetStateScanLock \<Rightarrow> 0 < nRecursion s \<or> 0 < nWaiting s
               | lockSetStateRecordLock \<Rightarrow> recWait)
        | listTypeRecordLock \<Rightarrow> nRecursion s = 0 \<and> nWaiting s = 0 \<and> ls_state s = lockSetStateRecordLock \<and> global
        | listTypeFree \<Rightarrow> nRecursion s = 0 \<and> nWaiting s = 0)"

definition sets_ok :: "dblock \<Rightarrow> bool" where
  "sets_ok st \<longleftrightarrow> (\<forall>p s. lockSets st p = Some s \<longrightarrow>
     set_ok (waits (pcs st) p) (got (pcs st) p) (heldIn (plockSet st) (held st) p) (recAt (phase st) = Some p) (globalLock st \<noteq> None) s)"

section \<open>The thread with the global lock\<close>

fun putting :: "lockpc \<Rightarrow> bool" where
  "putting Idle = False"
| "putting (Scan r) = False"
| "putting (ScanWait r p) = False"
| "putting (ScanGot r p) = False"
| "putting (ScanGlobal r) = False"
| "putting (PutGlobal r k a) = False"
| "putting _ = True"

fun waiting :: "lockpc \<Rightarrow> bool" where
  "waiting (PutGlobal r k a) = True"
| "waiting _ = False"

definition targetOk :: "dblock \<Rightarrow> ptr \<Rightarrow> bool" where
  "targetOk st new \<longleftrightarrow> (case new of None \<Rightarrow> True | Some x \<Rightarrow> plockSet st x \<noteq> None)"

definition planOk :: "dblock \<Rightarrow> plan \<Rightarrow> bool" where
  "planOk st a \<longleftrightarrow> (case a of None \<Rightarrow> True | Some new \<Rightarrow> targetOk st new)"

definition fieldOk :: "dblock \<Rightarrow> addr \<Rightarrow> nat \<Rightarrow> bool" where
  "fieldOk st r k \<longleftrightarrow> plockSet st r \<noteq> None \<and> k < length (links st r)"

fun args_ok :: "dblock \<Rightarrow> lockpc \<Rightarrow> bool" where
  "args_ok st Idle \<longleftrightarrow> True"
| "args_ok st (Scan r) \<longleftrightarrow> plockSet st r \<noteq> None"
| "args_ok st (ScanWait r p) \<longleftrightarrow> plockSet st r = Some (Some p)"
| "args_ok st (ScanGot r p) \<longleftrightarrow> plockSet st r = Some (Some p)"
| "args_ok st (ScanGlobal r) \<longleftrightarrow> plockSet st r \<noteq> None"
| "args_ok st (PutGlobal r k a) \<longleftrightarrow> fieldOk st r k \<and> planOk st a"
| "args_ok st (PutRec r k a) \<longleftrightarrow> fieldOk st r k \<and> planOk st a"
| "args_ok st (PutRecWait r k a p) \<longleftrightarrow> fieldOk st r k \<and> planOk st a"
| "args_ok st (PutRecCheck r k a p) \<longleftrightarrow> fieldOk st r k \<and> planOk st a"
| "args_ok st (PutOld r k a) \<longleftrightarrow> fieldOk st r k \<and> planOk st a"
| "args_ok st (PutSplit ms rs r k new) \<longleftrightarrow> fieldOk st r k \<and> targetOk st new"
| "args_ok st (PutNew r k new) \<longleftrightarrow> fieldOk st r k \<and> targetOk st new"
| "args_ok st (PutDst r x) \<longleftrightarrow> plockSet st r \<noteq> None \<and> plockSet st x \<noteq> None"
| "args_ok st (PutDstWait r x p) \<longleftrightarrow> plockSet st r \<noteq> None \<and> plockSet st x \<noteq> None"
| "args_ok st (PutDstCheck r x p) \<longleftrightarrow> plockSet st r \<noteq> None \<and> plockSet st x \<noteq> None"
| "args_ok st (PutMerge r x) \<longleftrightarrow> plockSet st r \<noteq> None \<and> plockSet st x \<noteq> None"
| "args_ok st PutEnd \<longleftrightarrow> True"

definition turn_ok :: "dblock \<Rightarrow> bool" where
  "turn_ok st \<longleftrightarrow> (\<forall>t. putting (pcs st t) \<longleftrightarrow> globalLock st = Some t) \<and> (\<forall>t. putting (pcs st t) \<or> waiting (pcs st t) \<longrightarrow> held st t = [])
     \<and> (\<forall>t. \<forall>h \<in> set (held st t). lset st h \<noteq> None) \<and> (\<forall>t. args_ok st (pcs st t))"

definition tyOf :: "dblock \<Rightarrow> addr \<Rightarrow> listType option" where
  "tyOf st p = map_option ls_type (lockSets st p)"

definition recLocked :: "dblock \<Rightarrow> addr \<Rightarrow> bool" where
  "recLocked st r \<longleftrightarrow> (\<exists>p. lset st r = Some p \<and> tyOf st p = Some listTypeRecordLock)"

definition waitOk :: "dblock \<Rightarrow> addr \<Rightarrow> addr \<Rightarrow> bool" where
  "waitOk st r p \<longleftrightarrow> lset st r = Some p \<and> map_option (\<lambda>s. (ls_type s, ls_state s)) (lockSets st p) = Some (listTypeScanLock, lockSetStateRecordLock)"

definition noRec :: "dblock \<Rightarrow> bool" where
  "noRec st \<longleftrightarrow> (\<forall>p. tyOf st p \<noteq> Some listTypeRecordLock)"

definition assigned :: "dblock \<Rightarrow> bool" where
  "assigned st \<longleftrightarrow> (\<forall>r. plockSet st r \<noteq> Some None)"

definition freeField :: "dblock \<Rightarrow> addr \<Rightarrow> nat \<Rightarrow> bool" where
  "freeField st r k \<longleftrightarrow> links st r ! k = None"

definition splitMerge :: "dblock \<Rightarrow> addr \<times> addr \<Rightarrow> bool" where
  "splitMerge st m \<longleftrightarrow> recLocked st (fst m) \<and> (lset st (snd m) = None \<or> recLocked st (snd m)) \<and> m \<in> edges (links st)"

fun put_ok :: "dblock \<Rightarrow> lockpc \<Rightarrow> bool" where
  "put_ok st Idle \<longleftrightarrow> noRec st \<and> assigned st"
| "put_ok st (PutRec r k a) \<longleftrightarrow> noRec st \<and> assigned st"
| "put_ok st (PutRecWait r k a p) \<longleftrightarrow> noRec st \<and> assigned st \<and> waitOk st r p"
| "put_ok st (PutRecCheck r k a p) \<longleftrightarrow> noRec st \<and> assigned st \<and> waitOk st r p"
| "put_ok st (PutOld r k a) \<longleftrightarrow> assigned st \<and> recLocked st r"
| "put_ok st (PutSplit ms rs r k new) \<longleftrightarrow> (\<forall>x. plockSet st x = Some None \<longrightarrow> x \<in> set rs)
     \<and> (\<forall>x \<in> set rs. plockSet st x \<noteq> None \<and> (lset st x = None \<or> recLocked st x)) \<and> (\<forall>m \<in> set ms. splitMerge st m)
     \<and> (r \<in> set rs \<or> recLocked st r) \<and> freeField st r k"
| "put_ok st (PutNew r k new) \<longleftrightarrow> assigned st \<and> recLocked st r \<and> freeField st r k"
| "put_ok st (PutDst r x) \<longleftrightarrow> assigned st \<and> recLocked st r \<and> (r, x) \<in> edges (links st)"
| "put_ok st (PutDstWait r x p) \<longleftrightarrow> assigned st \<and> recLocked st r \<and> waitOk st x p \<and> (r, x) \<in> edges (links st)"
| "put_ok st (PutDstCheck r x p) \<longleftrightarrow> assigned st \<and> recLocked st r \<and> waitOk st x p \<and> (r, x) \<in> edges (links st)"
| "put_ok st (PutMerge r x) \<longleftrightarrow> assigned st \<and> recLocked st r \<and> recLocked st x \<and> (r, x) \<in> edges (links st)"
| "put_ok st PutEnd \<longleftrightarrow> assigned st"
| "put_ok st _ \<longleftrightarrow> False"

text \<open>The links whose records are still to be put into one set.\<close>

fun pend :: "dblock \<Rightarrow> lockpc \<Rightarrow> addr \<Rightarrow> addr \<Rightarrow> bool" where
  "pend st (PutSplit ms rs r k new) a b \<longleftrightarrow> (a, b) \<in> set ms \<or> a \<in> set rs \<and> (lset st b = None \<or> recLocked st b)"
| "pend st (PutDst r x) a b \<longleftrightarrow> (a, b) = (r, x)"
| "pend st (PutDstWait r x p) a b \<longleftrightarrow> (a, b) = (r, x)"
| "pend st (PutDstCheck r x p) a b \<longleftrightarrow> (a, b) = (r, x)"
| "pend st (PutMerge r x) a b \<longleftrightarrow> (a, b) = (r, x)"
| "pend st _ a b \<longleftrightarrow> False"

definition comp_ok :: "dblock \<Rightarrow> lockpc \<Rightarrow> bool" where
  "comp_ok st c \<longleftrightarrow> sound (edges (links st)) st
     \<and> (\<forall>a b. (a, b) \<in> edges (links st) \<longrightarrow> plockSet st a \<noteq> None \<and> plockSet st b \<noteq> None \<and> (joined st a b \<or> pend st c a b))"

definition lk_ok :: "dblock \<Rightarrow> bool" where
  "lk_ok st \<longleftrightarrow> store_ok st \<and> sets_ok st \<and> turn_ok st \<and> put_ok st (phase st) \<and> comp_ok st (phase st)"

lemma lk_okD:
  assumes "lk_ok st"
  shows "store_ok st" "sets_ok st" "turn_ok st" "put_ok st (phase st)" "comp_ok st (phase st)"
  using assms by (simp_all add: lk_ok_def)

lemma set_at: "sets_ok st \<Longrightarrow> lockSets st p = Some s \<Longrightarrow>
    set_ok (waits (pcs st) p) (got (pcs st) p) (heldIn (plockSet st) (held st) p) (recAt (phase st) = Some p) (globalLock st \<noteq> None) s"
  by (simp add: sets_ok_def)

lemma turnD:
  assumes "turn_ok st"
  shows "putting (pcs st t) \<longleftrightarrow> globalLock st = Some t" "putting (pcs st t) \<or> waiting (pcs st t) \<Longrightarrow> held st t = []"
    "h \<in> set (held st t) \<Longrightarrow> lset st h \<noteq> None" "args_ok st (pcs st t)"
  using assms unfolding turn_ok_def by blast+

lemma turn_phase: "turn_ok st \<Longrightarrow> globalLock st = Some u \<Longrightarrow> phase st = pcs st u \<and> putting (pcs st u)"
  by (simp add: turn_ok_def phase_def)

text \<open>The facts of a set by its type.\<close>

lemma set_okD:
  assumes "set_ok W G H recWait global s"
  shows "finite W" "nWaiting s = int (card W)" "0 \<le> nRecursion s" "lock s = None \<Longrightarrow> G = {} \<and> nRecursion s = 0"
    "lock s = Some t \<Longrightarrow> G = {t} \<and> nRecursion s = 0 \<or> G = {} \<and> 0 < nRecursion s \<and> thread_id s = Some t"
    "int (H t) = (if thread_id s = Some t then nRecursion s else 0)"
    "ls_type s = listTypeScanLock \<Longrightarrow> thread_id s \<noteq> None \<Longrightarrow> 0 < nRecursion s"
    "ls_type s = listTypeScanLock \<Longrightarrow> ls_state s = lockSetStateFree \<Longrightarrow> nRecursion s = 0 \<and> nWaiting s = 0"
    "ls_type s = listTypeScanLock \<Longrightarrow> ls_state s = lockSetStateScanLock \<Longrightarrow> 0 < nRecursion s \<or> 0 < nWaiting s"
    "ls_type s = listTypeScanLock \<Longrightarrow> ls_state s = lockSetStateRecordLock \<Longrightarrow> recWait"
    "ls_type s = listTypeRecordLock \<Longrightarrow> ls_state s = lockSetStateRecordLock \<and> global"
    "ls_type s \<noteq> listTypeScanLock \<Longrightarrow> nRecursion s = 0 \<and> nWaiting s = 0"
  using assms by (auto simp: set_ok_def split: listType.splits)

lemma waits_upd: "waits (f(t := c)) p = (if scanAt c = Some p then insert t (waits f p) else waits f p - {t})"
  by (auto simp: waits_def)

lemma got_upd: "got (f(t := c)) p = (if gotAt c = Some p then insert t (got f p) else got f p - {t})"
  by (auto simp: got_def)

lemma heldIn_upd: "heldIn ps (h(t := hs)) p = (heldIn ps h p)(t := length (filter (\<lambda>r. ps r = Some (Some p)) hs))"
  by (auto simp: heldIn_def)

text \<open>A step of a thread from one pc to another leaves the threads at a set alone when neither is there.\<close>

lemma waits_same: "scanAt (f t) \<noteq> Some p \<Longrightarrow> scanAt c \<noteq> Some p \<Longrightarrow> waits (f(t := c)) p = waits f p"
  by (auto simp: waits_def)

lemma got_same: "gotAt (f t) \<noteq> Some p \<Longrightarrow> gotAt c \<noteq> Some p \<Longrightarrow> got (f(t := c)) p = got f p"
  by (auto simp: got_def)

lemma got_scan: "gotAt c = Some p \<Longrightarrow> scanAt c = Some p"
  by (cases c) auto

lemma put_not_scan: "putting c \<Longrightarrow> scanAt c = None \<and> gotAt c = None"
  by (cases c) auto

section \<open>Steps\<close>

text \<open>A step changes the set of no record but those of record-locked sets and those without a set.\<close>

definition stable :: "dblock \<Rightarrow> dblock \<Rightarrow> bool" where
  "stable st st' \<longleftrightarrow> (\<forall>r p. plockSet st r = Some (Some p) \<longrightarrow> tyOf st p \<noteq> Some listTypeRecordLock \<longrightarrow> plockSet st' r = Some (Some p))
     \<and> (\<forall>r. plockSet st' r = None \<longleftrightarrow> plockSet st r = None) \<and> (\<forall>r. length (links st' r) = length (links st r))"

lemma stable_refl: "plockSet st' = plockSet st \<Longrightarrow> links st' = links st \<Longrightarrow> stable st st'"
  by (simp add: stable_def)

text \<open>What every step of a thread does.\<close>

definition step_ok :: "addr \<Rightarrow> dblock \<Rightarrow> dblock \<Rightarrow> bool" where
  "step_ok t st st' \<longleftrightarrow> lk_ok st' \<and> stable st st' \<and> (\<forall>u. u \<noteq> t \<longrightarrow> pcs st' u = pcs st u \<and> held st' u = held st u)
     \<and> (putting (pcs st t) \<longrightarrow> held st' t = held st t)"

section \<open>Steps of the scan lock\<close>

text \<open>What the parts about the links depend on.\<close>

definition shape :: "dblock \<Rightarrow> (addr \<rightharpoonup> ptr) \<times> (addr \<Rightarrow> ptr list) \<times> (addr \<Rightarrow> (listType \<times> bool) option)" where
  "shape st = (plockSet st, links st, \<lambda>p. map_option (\<lambda>s. (ls_type s, ls_state s = lockSetStateRecordLock)) (lockSets st p))"

lemma shape_eqs:
  assumes "shape st' = shape st"
  shows "plockSet st' = plockSet st" "links st' = links st" "lset st' = lset st" "joined st' = joined st" "tyOf st' = tyOf st"
    "recLocked st' = recLocked st" "waitOk st' = waitOk st" "noRec st' = noRec st" "assigned st' = assigned st"
    "freeField st' = freeField st" "splitMerge st' = splitMerge st"
proof -
  show p: "plockSet st' = plockSet st" and l: "links st' = links st" using assms by (simp_all add: shape_def)
  show ls: "lset st' = lset st" using p by (simp add: lset_def fun_eq_iff)
  show "joined st' = joined st" using p by (rule joined_cong)
  have s: "map_option (\<lambda>s. (ls_type s, ls_state s = lockSetStateRecordLock)) (lockSets st' q)
      = map_option (\<lambda>s. (ls_type s, ls_state s = lockSetStateRecordLock)) (lockSets st q)" for q
    using assms by (simp add: shape_def fun_eq_iff)
  have ty: "tyOf st' q = tyOf st q" for q
    using s[of q] unfolding tyOf_def by (cases "lockSets st q"; cases "lockSets st' q") auto
  then show t: "tyOf st' = tyOf st" by blast
  show rl: "recLocked st' = recLocked st" using t ls by (auto simp: recLocked_def fun_eq_iff)
  have "waitOk st' r q = waitOk st r q" for r q
    using s[of q] ls unfolding waitOk_def by (cases "lockSets st q"; cases "lockSets st' q") auto
  then show "waitOk st' = waitOk st" by blast
  show "noRec st' = noRec st" "assigned st' = assigned st" using t p by (simp_all add: noRec_def assigned_def)
  show "freeField st' = freeField st" using l by (simp add: freeField_def fun_eq_iff)
  show "splitMerge st' = splitMerge st" unfolding fun_eq_iff splitMerge_def rl ls l by simp
qed

lemma put_shape: "shape st' = shape st \<Longrightarrow> put_ok st' c = put_ok st c"
  using shape_eqs[of st' st] by (cases c) simp_all

lemma comp_shape: "shape st' = shape st \<Longrightarrow> comp_ok st' c = comp_ok st c"
proof -
  assume s: "shape st' = shape st"
  note e = shape_eqs[OF s]
  have "pend st' c a b = pend st c a b" for a b using e by (cases c) simp_all
  then show ?thesis using e by (simp add: comp_ok_def sound_def)
qed

lemma args_cong:
  assumes "\<And>r. plockSet st' r = None \<longleftrightarrow> plockSet st r = None" "\<And>r. length (links st' r) = length (links st r)"
    and "\<And>r p. scanAt c = Some p \<Longrightarrow> plockSet st r = Some (Some p) \<Longrightarrow> plockSet st' r = Some (Some p)" "args_ok st c"
  shows "args_ok st' c"
proof -
  have t: "targetOk st' x = targetOk st x" for x using assms(1) by (cases x) (simp_all add: targetOk_def)
  have p: "planOk st' a = planOk st a" for a using t by (cases a) (simp_all add: planOk_def)
  have "fieldOk st' r k = fieldOk st r k" for r k using assms(1,2) by (simp add: fieldOk_def)
  then show ?thesis using assms t p by (cases c) simp_all
qed

lemma args_shape:
  assumes "shape st' = shape st"
  shows "args_ok st' c = args_ok st c"
proof
  note e = shape_eqs(1,2)[OF assms]
  show "args_ok st c \<Longrightarrow> args_ok st' c" by (rule args_cong) (simp_all add: e)
  show "args_ok st' c \<Longrightarrow> args_ok st c" by (rule args_cong) (simp_all add: e)
qed

text \<open>A thread without the global lock changes its pc, one lock set, and what it holds in it.\<close>

lemma scan_step:
  assumes ok: "lk_ok st" and s: "lockSets st p = Some s"
    and same: "plockSet st' = plockSet st" "links st' = links st" "globalLock st' = globalLock st" "lockSetList st' = lockSetList st" "nextBlock st' = nextBlock st"
    and upd: "lockSets st' = (lockSets st)(p \<mapsto> s')" "pcs st' = (pcs st)(t := c)" "held st' = (held st)(t := hs)"
    and s': "lockRecordList s' = lockRecordList s" "ls_type s' = ls_type s" "ls_state s' = lockSetStateRecordLock \<longleftrightarrow> ls_state s = lockSetStateRecordLock"
    and c: "\<not> putting (pcs st t)" "\<not> putting c" "\<not> waiting c" "args_ok st c"
    and at: "\<And>q. q \<noteq> p \<Longrightarrow> scanAt (pcs st t) \<noteq> Some q \<and> scanAt c \<noteq> Some q"
    and hs: "\<And>q. q \<noteq> p \<Longrightarrow> length (filter (\<lambda>r. plockSet st r = Some (Some q)) hs) = heldIn (plockSet st) (held st) q t"
      "\<And>h. h \<in> set hs \<Longrightarrow> lset st h \<noteq> None"
    and p: "set_ok (waits ((pcs st)(t := c)) p) (got ((pcs st)(t := c)) p)
       ((heldIn (plockSet st) (held st) p)(t := length (filter (\<lambda>r. plockSet st r = Some (Some p)) hs))) (recAt (phase st) = Some p) (globalLock st \<noteq> None) s'"
  shows "step_ok t st st'"
proof -
  note d = lk_okD[OF ok]
  have ph: "phase st' = phase st" using turnD(1)[OF d(3), of t] c(1) same(3) upd(2) by (auto simp: phase_def split: option.splits)
  have sh: "shape st' = shape st" using same(1,2) upd(1) s s' by (auto simp: shape_def fun_eq_iff)
  have "store_ok st'" by (rule store_cong[OF d(1) same(1,4,5)]) (use upd(1) s s' in auto)
  moreover have "sets_ok st'"
    unfolding sets_ok_def
  proof (intro allI impI)
    fix q x assume x: "lockSets st' q = Some x"
    show "set_ok (waits (pcs st') q) (got (pcs st') q) (heldIn (plockSet st') (held st') q) (recAt (phase st') = Some q) (globalLock st' \<noteq> None) x"
    proof (cases "q = p")
      case True
      then have "x = s'" using x upd(1) by simp
      then show ?thesis using p True unfolding ph same(1,3) upd(2,3) heldIn_upd by simp
    next
      case False
      then have x0: "lockSets st q = Some x" using x upd(1) by simp
      have g: "gotAt (pcs st t) \<noteq> Some q" "gotAt c \<noteq> Some q" using at[OF False] got_scan by blast+
      have "heldIn (plockSet st) ((held st)(t := hs)) q = heldIn (plockSet st) (held st) q"
        unfolding heldIn_upd hs(1)[OF False] by simp
      then show ?thesis using set_at[OF d(2) x0] at[OF False]
        unfolding ph same(1,3) upd(2,3) by (simp add: waits_same got_same[where f = "pcs st" and t = t, OF g])
    qed
  qed
  moreover have "turn_ok st'"
    using d(3) c same(3) upd(2,3) hs(2) shape_eqs(3)[OF sh] unfolding turn_ok_def args_shape[OF sh] by auto
  ultimately have "lk_ok st'" using d(4,5) by (simp add: lk_ok_def ph put_shape[OF sh] comp_shape[OF sh])
  then show ?thesis using same upd c(1) by (simp add: step_ok_def stable_def)
qed

lemma pc_step:
  assumes ok: "lk_ok st" and c: "\<not> putting (pcs st t)" "\<not> putting c" "args_ok st c" "waiting c \<Longrightarrow> held st t = []"
    and at: "scanAt (pcs st t) = None" "scanAt c = None"
  shows "step_ok t st (goto t c st)"
proof -
  note d = lk_okD[OF ok]
  have ph: "phase (goto t c st) = phase st" using turnD(1)[OF d(3), of t] c(1) by (auto simp: phase_def split: option.splits)
  have sh: "shape (goto t c st) = shape st" by (simp add: shape_def)
  have g: "gotAt (pcs st t) = None" "gotAt c = None" using at got_scan by (metis not_Some_eq)+
  have "waits ((pcs st)(t := c)) p = waits (pcs st) p" "got ((pcs st)(t := c)) p = got (pcs st) p" for p
    using waits_same[of "pcs st" t p c] got_same[of "pcs st" t p c] at g by simp_all
  then have "sets_ok (goto t c st)" using d(2) by (simp add: sets_ok_def ph)
  moreover have "turn_ok (goto t c st)"
    using d(3) c shape_eqs(3)[OF sh] unfolding turn_ok_def args_shape[OF sh] by auto
  ultimately have "lk_ok (goto t c st)" using store_goto[OF d(1)] d(4,5) by (simp add: lk_ok_def ph put_shape[OF sh] comp_shape[OF sh])
  then show ?thesis by (simp add: step_ok_def stable_def)
qed

end
