(* ===== verification/DbLockScan.thy ===== *)
theory DbLockScan
  imports DbLockSystem
begin

text \<open>The steps of \<open>dbScanLock\<close> and \<open>dbScanUnlock\<close> return and keep the invariant.\<close>

lemma got_waits: "got f p \<subseteq> waits f p"
  using got_scan by (auto simp: got_def waits_def)

lemma heldIn_same: "(heldIn ps h p)(t := length (filter (\<lambda>x. ps x = Some (Some p)) (h t))) = heldIn ps h p"
  by (simp add: heldIn_def fun_upd_idem)

lemma held_cons: "plockSet st r = Some (Some p) \<Longrightarrow>
   length (filter (\<lambda>x. plockSet st x = Some (Some q)) (r # held st t)) = (if q = p then Suc (heldIn (plockSet st) (held st) q t) else heldIn (plockSet st) (held st) q t)"
  by (auto simp: heldIn_def)

text \<open>A lock set with a record in it is not free.\<close>

lemma set_used:
  assumes "lk_ok st" "plockSet st r = Some (Some p)"
  obtains s where "lockSets st p = Some s" "ls_type s \<noteq> listTypeFree"
    "set_ok (waits (pcs st) p) (got (pcs st) p) (heldIn (plockSet st) (held st) p) (recAt (phase st) = Some p) (globalLock st \<noteq> None) s"
  using store_okD(6)[OF lk_okD(1)[OF assms(1)] assms(2)] set_at[OF lk_okD(2)[OF assms(1)]] by blast

lemma held_lset: "lk_ok st \<Longrightarrow> h \<in> set (held st t) \<Longrightarrow> lset st h \<noteq> None"
  using turnD(3)[OF lk_okD(3)] by blast

lemma scan_args: "lk_ok st \<Longrightarrow> args_ok st (pcs st t)"
  using turnD(4)[OF lk_okD(3)] .

lemma enter_ok:
  assumes ok: "lk_ok st" and r: "plockSet st r = Some (Some p)" and s: "lockSets st p = Some s"
    and c: "\<not> putting (pcs st t)" "\<And>q. q \<noteq> p \<Longrightarrow> scanAt (pcs st t) \<noteq> Some q"
    and s': "lockRecordList s' = lockRecordList s" "ls_type s' = ls_type s" "ls_state s' = lockSetStateRecordLock \<longleftrightarrow> ls_state s = lockSetStateRecordLock"
    and p: "set_ok (waits (pcs st) p - {t}) (got (pcs st) p - {t})
       ((heldIn (plockSet st) (held st) p)(t := Suc (heldIn (plockSet st) (held st) p t))) (recAt (phase st) = Some p) (globalLock st \<noteq> None) s'"
  shows "step_ok t st (entered t r (setLS p s' st))"
proof (rule scan_step[OF ok s, where t = t and c = Idle and hs = "r # held st t" and s' = s'])
  show "set_ok (waits ((pcs st)(t := Idle)) p) (got ((pcs st)(t := Idle)) p)
     ((heldIn (plockSet st) (held st) p)(t := length (filter (\<lambda>x. plockSet st x = Some (Some p)) (r # held st t))))
     (recAt (phase st) = Some p) (globalLock st \<noteq> None) s'"
    using p unfolding held_cons[OF r] waits_upd got_upd by simp
next
  fix q assume q: "q \<noteq> p"
  show "length (filter (\<lambda>x. plockSet st x = Some (Some q)) (r # held st t)) = heldIn (plockSet st) (held st) q t"
    unfolding held_cons[OF r] using q by simp
  show "scanAt (pcs st t) \<noteq> Some q \<and> scanAt Idle \<noteq> Some q" using c(2)[OF q] by simp
next
  show "\<And>h. h \<in> set (r # held st t) \<Longrightarrow> lset st h \<noteq> None" using held_lset[OF ok] r by (auto simp: lset_def)
qed (use c(1) s' in simp_all)

lemma scan_head:
  assumes ok: "lk_ok st" and pc: "pcs st t = Scan r"
  shows "\<exists>st'. dbScanLock t r st = Some st' \<and> step_ok t st st'"
proof -
  have dom: "plockSet st r \<noteq> None" using scan_args[OF ok, of t] pc by simp
  have glob: "step_ok t st (goto t (ScanGlobal r) st)" by (rule pc_step[OF ok]) (use pc dom in simp_all)
  show ?thesis
  proof (cases "lset st r")
    case None
    then have "plockSet st r = Some None" using dom by (auto simp: lset_def)
    then show ?thesis using glob by (simp add: dbScanLock_def)
  next
    case (Some p)
    then have r: "plockSet st r = Some (Some p)" by (simp add: lset_Some)
    obtain s where s: "lockSets st p = Some s" "ls_type s \<noteq> listTypeFree" and
      so: "set_ok (waits (pcs st) p) (got (pcs st) p) (heldIn (plockSet st) (held st) p) (recAt (phase st) = Some p) (globalLock st \<noteq> None) s"
      using set_used[OF ok r] .
    note d = set_okD[OF so]
    have nw: "t \<notin> waits (pcs st) p" "t \<notin> got (pcs st) p" using pc by (simp_all add: waits_def got_def)
    have recur: "step_ok t st (entered t r (setLS p (s\<lparr>nRecursion := nRecursion s + 1\<rparr>) st))" if "thread_id s = Some t" "0 < nRecursion s"
      by (rule enter_ok[OF ok r s(1)]) (use pc so that nw in \<open>auto simp: set_ok_def split: option.splits listType.splits lockSetState.splits\<close>)
    show ?thesis
    proof (cases "ls_state s")
      case lockSetStateFree
      have ty: "ls_type s = listTypeScanLock" using d(11) s(2) lockSetStateFree by (cases "ls_type s") auto
      have z: "nRecursion s = 0" "nWaiting s = 0" using d(8)[OF ty lockSetStateFree] by auto
      then have w: "waits (pcs st) p = {}" using d(1,2) by simp
      then have g: "got (pcs st) p = {}" using got_waits by blast
      have l: "lock s = None" using d(5) g z by (cases "lock s") auto
      have h: "heldIn (plockSet st) (held st) p u = 0" for u using d(6)[of u] z by (simp split: if_splits)
      let ?s = "s\<lparr>lock := Some t, nRecursion := 1, thread_id := Some t, ls_precord := Some r, ls_state := lockSetStateScanLock\<rparr>"
      have "step_ok t st (entered t r (setLS p ?s st))"
        by (rule enter_ok[OF ok r s(1)]) (use pc w g h z ty lockSetStateFree in \<open>simp_all add: set_ok_def\<close>)
      then show ?thesis using r s l lockSetStateFree by (simp add: dbScanLock_def)
    next
      case lockSetStateScanLock
      have ty: "ls_type s = listTypeScanLock" using d(11) s(2) lockSetStateScanLock by (cases "ls_type s") auto
      show ?thesis
      proof (cases "thread_id s = Some t")
        case True
        then have "0 < nRecursion s" using d(7)[OF ty] by simp
        then show ?thesis using recur True r s lockSetStateScanLock by (simp add: dbScanLock_def)
      next
        case False
        let ?s = "s\<lparr>nWaiting := nWaiting s + 1\<rparr>"
        let ?st = "goto t (ScanWait r p) (setLS p ?s st)"
        have "set_ok (insert t (waits (pcs st) p)) (got (pcs st) p) (heldIn (plockSet st) (held st) p) (recAt (phase st) = Some p) (globalLock st \<noteq> None) ?s"
          using so nw ty lockSetStateScanLock by (auto simp: set_ok_def split: option.splits)
        then have "set_ok (waits ((pcs st)(t := ScanWait r p)) p) (got ((pcs st)(t := ScanWait r p)) p)
           ((heldIn (plockSet st) (held st) p)(t := length (filter (\<lambda>x. plockSet st x = Some (Some p)) (held st t))))
           (recAt (phase st) = Some p) (globalLock st \<noteq> None) ?s"
          using nw(2) unfolding heldIn_same by (simp add: waits_upd got_upd)
        then have "step_ok t st ?st"
          by (intro scan_step[OF ok s(1), where t = t and c = "ScanWait r p" and hs = "held st t" and s' = ?s])
            (use pc r held_lset[OF ok] in \<open>auto simp: heldIn_def\<close>)
        then show ?thesis using False r s lockSetStateScanLock by (simp add: dbScanLock_def)
      qed
    next
      case lockSetStateRecordLock
      show ?thesis
      proof (cases "nRecursion s = 0 \<or> thread_id s \<noteq> Some t")
        case True
        then show ?thesis using glob r s lockSetStateRecordLock by (simp add: dbScanLock_def)
      next
        case False
        then have "0 < nRecursion s" using d(3) by simp
        then show ?thesis using recur False r s lockSetStateRecordLock by (simp add: dbScanLock_def)
      qed
    qed
  qed
qed

lemma mutex_ok:
  assumes ok: "lk_ok st" and pc: "pcs st t = ScanWait r p" and m: "mutexFree p st"
  shows "\<exists>st'. takeMutex t p (ScanGot r p) st = Some st' \<and> step_ok t st st'"
proof -
  have r: "plockSet st r = Some (Some p)" using scan_args[OF ok, of t] pc by simp
  obtain s where s: "lockSets st p = Some s" "ls_type s \<noteq> listTypeFree" and
    so: "set_ok (waits (pcs st) p) (got (pcs st) p) (heldIn (plockSet st) (held st) p) (recAt (phase st) = Some p) (globalLock st \<noteq> None) s"
    using set_used[OF ok r] .
  have l: "lock s = None" using m s by (simp add: mutexFree_def)
  let ?s = "s\<lparr>lock := Some t\<rparr>"
  have w: "insert t (waits (pcs st) p) = waits (pcs st) p" using pc by (auto simp: waits_def)
  have "set_ok (waits (pcs st) p) (insert t (got (pcs st) p)) (heldIn (plockSet st) (held st) p) (recAt (phase st) = Some p) (globalLock st \<noteq> None) ?s"
    using so l by (auto simp: set_ok_def split: listType.splits lockSetState.splits)
  then have "set_ok (waits ((pcs st)(t := ScanGot r p)) p) (got ((pcs st)(t := ScanGot r p)) p)
     ((heldIn (plockSet st) (held st) p)(t := length (filter (\<lambda>x. plockSet st x = Some (Some p)) (held st t))))
     (recAt (phase st) = Some p) (globalLock st \<noteq> None) ?s"
    using w unfolding heldIn_same by (simp add: waits_upd got_upd)
  then have "step_ok t st (goto t (ScanGot r p) (setLS p ?s st))"
    by (intro scan_step[OF ok s(1), where t = t and c = "ScanGot r p" and hs = "held st t" and s' = ?s])
      (use pc r held_lset[OF ok] in \<open>auto simp: heldIn_def\<close>)
  then show ?thesis using s l by (simp add: takeMutex_def)
qed

lemma resume_ok:
  assumes ok: "lk_ok st" and pc: "pcs st t = ScanGot r p"
  shows "\<exists>st'. scanResume t r p st = Some st' \<and> step_ok t st st'"
proof -
  have r: "plockSet st r = Some (Some p)" using scan_args[OF ok, of t] pc by simp
  obtain s where s: "lockSets st p = Some s" "ls_type s \<noteq> listTypeFree" and
    so: "set_ok (waits (pcs st) p) (got (pcs st) p) (heldIn (plockSet st) (held st) p) (recAt (phase st) = Some p) (globalLock st \<noteq> None) s"
    using set_used[OF ok r] .
  note d = set_okD[OF so]
  have t: "t \<in> waits (pcs st) p" "t \<in> got (pcs st) p" using pc by (simp_all add: waits_def got_def)
  have z: "lock s = Some t" "got (pcs st) p = {t}" "nRecursion s = 0" using d(4) d(5) t(2) by (cases "lock s"; force)+
  have pos: "0 < nWaiting s" using d(1,2) t(1) card_gt_0_iff[of "waits (pcs st) p"] by auto
  then have ty: "ls_type s = listTypeScanLock" using d(12) by force
  have cd: "card (waits (pcs st) p - {t}) = card (waits (pcs st) p) - 1" "0 < card (waits (pcs st) p)"
    using d(1,2) t(1) pos by simp_all
  have nt: "thread_id s = None" using d(7)[OF ty] z(3) by fastforce
  have h: "heldIn (plockSet st) (held st) p u = 0" for u using d(6)[of u] nt by simp
  show ?thesis
  proof (cases "ls_state s = lockSetStateRecordLock")
    case True
    let ?s = "s\<lparr>nWaiting := nWaiting s - 1, lock := None\<rparr>"
    have "set_ok (waits (pcs st) p - {t}) {} (heldIn (plockSet st) (held st) p) (recAt (phase st) = Some p) (globalLock st \<noteq> None) ?s"
      using so z ty nt True cd by (auto simp: set_ok_def)
    then have "set_ok (waits ((pcs st)(t := ScanGlobal r)) p) (got ((pcs st)(t := ScanGlobal r)) p)
       ((heldIn (plockSet st) (held st) p)(t := length (filter (\<lambda>x. plockSet st x = Some (Some p)) (held st t))))
       (recAt (phase st) = Some p) (globalLock st \<noteq> None) ?s"
      using z unfolding heldIn_same by (simp add: waits_upd got_upd)
    then have "step_ok t st (goto t (ScanGlobal r) (setLS p ?s st))"
      by (intro scan_step[OF ok s(1), where t = t and c = "ScanGlobal r" and hs = "held st t" and s' = ?s])
        (use pc r held_lset[OF ok] in \<open>auto simp: heldIn_def\<close>)
    then show ?thesis using s True by (simp add: scanResume_def)
  next
    case False
    have st: "ls_state s = lockSetStateScanLock" using d(8)[OF ty] pos False by (cases "ls_state s") auto
    let ?s = "s\<lparr>nWaiting := nWaiting s - 1, nRecursion := 1, thread_id := Some t, ls_precord := Some r\<rparr>"
    have "step_ok t st (entered t r (setLS p ?s st))"
      by (rule enter_ok[OF ok r s(1)]) (use pc z h ty st cd d(1,2) in \<open>auto simp: set_ok_def\<close>)
    then show ?thesis using s st by (simp add: scanResume_def)
  qed
qed

lemma filter_remove1: "x \<in> set xs \<Longrightarrow> length (filter P (remove1 x xs)) = (if P x then length (filter P xs) - 1 else length (filter P xs))"
proof (induction xs)
  case (Cons y ys)
  have "x \<in> set ys \<Longrightarrow> P x \<Longrightarrow> 0 < length (filter P ys)" by (auto simp: filter_empty_conv)
  then show ?case using Cons by auto
qed simp

lemma unlock_ok:
  assumes ok: "lk_ok st" and pc: "pcs st t = Idle" and h: "r \<in> set (held st t)"
  shows "\<exists>st'. dbScanUnlock t r st = Some st' \<and> step_ok t st st'"
proof -
  obtain p where "lset st r = Some p" using held_lset[OF ok h] by auto
  then have r: "plockSet st r = Some (Some p)" by (simp add: lset_Some)
  obtain s where s: "lockSets st p = Some s" "ls_type s \<noteq> listTypeFree" and
    so: "set_ok (waits (pcs st) p) (got (pcs st) p) (heldIn (plockSet st) (held st) p) (recAt (phase st) = Some p) (globalLock st \<noteq> None) s"
    using set_used[OF ok r] .
  note d = set_okD[OF so]
  let ?H = "heldIn (plockSet st) (held st) p"
  have pos: "0 < ?H t" using h r by (auto simp: heldIn_def filter_empty_conv)
  then have n: "thread_id s = Some t" "nRecursion s = int (?H t)" using d(6)[of t] by (auto split: if_splits)
  then have ty: "ls_type s = listTypeScanLock" using d(12) pos by force
  have g: "got (pcs st) p = {}" "lock s = Some t" using d(4,5) n pos by (cases "lock s"; force)+
  have hu: "u \<noteq> t \<Longrightarrow> ?H u = 0" for u using d(6)[of u] n(1) by auto
  let ?s1 = "s\<lparr>nRecursion := nRecursion s - 1\<rparr>"
  let ?s2 = "if nRecursion ?s1 = 0 then ?s1\<lparr>thread_id := None, ls_precord := None,
       ls_state := (if ls_state ?s1 = lockSetStateScanLock \<and> nWaiting ?s1 = 0 then lockSetStateFree else ls_state ?s1), lock := None\<rparr> else ?s1"
  let ?st = "(setLS p ?s2 st)\<lparr>held := (held st)(t := remove1 r (held st t))\<rparr>"
  have u: "dbScanUnlock t r st = Some ?st" using r s n pos by (simp add: dbScanUnlock_def Let_def)
  have H': "length (filter (\<lambda>x. plockSet st x = Some (Some p)) (remove1 r (held st t))) = ?H t - 1"
    unfolding filter_remove1[OF h] using r by (simp add: heldIn_def)
  have w0: "0 \<le> nWaiting s" using d(2) by simp
  have "set_ok (waits (pcs st) p) (got (pcs st) p) (?H(t := ?H t - 1)) (recAt (phase st) = Some p) (globalLock st \<noteq> None) ?s2"
  proof (cases "nRecursion s = 1")
    case True
    then show ?thesis using so n g ty hu w0 d(8) by (auto simp: set_ok_def split: lockSetState.splits)
  next
    case False
    then have n1: "1 < nRecursion s" using n pos by linarith
    then have eq: "?s2 = ?s1" by simp
    have "int ((?H(t := ?H t - 1)) u) = (if thread_id s = Some u then nRecursion s - 1 else 0)" for u
      using n pos hu[of u] by (auto simp: of_nat_diff)
    then show ?thesis unfolding eq using so n(1) g ty n1 by (simp add: set_ok_def split: lockSetState.splits)
  qed
  then have so': "set_ok (waits ((pcs st)(t := Idle)) p) (got ((pcs st)(t := Idle)) p)
       ((heldIn (plockSet st) (held st) p)(t := length (filter (\<lambda>x. plockSet st x = Some (Some p)) (remove1 r (held st t)))))
       (recAt (phase st) = Some p) (globalLock st \<noteq> None) ?s2"
    unfolding H' using pc by (simp add: fun_upd_idem)
  have "step_ok t st ?st"
  proof (rule scan_step[OF ok s(1), where t = t and c = Idle and hs = "remove1 r (held st t)" and s' = ?s2])
    show "\<And>q. q \<noteq> p \<Longrightarrow> length (filter (\<lambda>x. plockSet st x = Some (Some q)) (remove1 r (held st t))) = heldIn (plockSet st) (held st) q t"
      unfolding filter_remove1[OF h] using r by (simp add: heldIn_def)
    show "\<And>x. x \<in> set (remove1 r (held st t)) \<Longrightarrow> lset st x \<noteq> None" using held_lset[OF ok] by (meson in_set_remove1 notin_set_remove1)
    show "pcs ?st = (pcs st)(t := Idle)" using pc by (simp add: fun_upd_idem)
  qed (use pc so' in auto)
  then show ?thesis using u by blast
qed

end
