(* ===== verification/DbLockPut.thy ===== *)
theory DbLockPut
  imports DbLockScan
begin

text \<open>The steps of the thread that holds the global lock, in \<open>dbPutFieldLink\<close>, return and keep the invariant.\<close>

section \<open>Frames\<close>

text \<open>What the parts about the links depend on, apart from a set waited for.\<close>

lemma weak_eqs:
  assumes "plockSet st' = plockSet st" "links st' = links st" "tyOf st' = tyOf st"
  shows "lset st' = lset st" "joined st' = joined st" "recLocked st' = recLocked st" "noRec st' = noRec st" "assigned st' = assigned st"
    "freeField st' = freeField st" "splitMerge st' = splitMerge st" "comp_ok st' c = comp_ok st c" "args_ok st' c = args_ok st c"
proof -
  show ls: "lset st' = lset st" using assms(1) by (simp add: lset_def fun_eq_iff)
  show j: "joined st' = joined st" using assms(1) by (rule joined_cong)
  show rl: "recLocked st' = recLocked st" using assms(3) ls by (simp add: recLocked_def fun_eq_iff)
  show "noRec st' = noRec st" "assigned st' = assigned st" using assms by (simp_all add: noRec_def assigned_def)
  show "freeField st' = freeField st" using assms(2) by (simp add: freeField_def fun_eq_iff)
  show "splitMerge st' = splitMerge st" unfolding fun_eq_iff splitMerge_def rl ls assms(2) by simp
  have "pend st' c a b = pend st c a b" for a b using ls rl by (cases c) simp_all
  then show "comp_ok st' c = comp_ok st c" using assms(1,2) j by (simp add: comp_ok_def sound_def)
  have "targetOk st' x = targetOk st x" for x using assms(1) by (cases x) (simp_all add: targetOk_def)
  then have "planOk st' a = planOk st a" for a by (cases a) (simp_all add: planOk_def)
  moreover have "fieldOk st' r k = fieldOk st r k" for r k using assms by (simp add: fieldOk_def)
  ultimately show "args_ok st' c = args_ok st c" using assms \<open>\<And>x. targetOk st' x = targetOk st x\<close> by (cases c) simp_all
qed

lemma waits_scan:
  assumes "lk_ok st" "t \<in> waits (pcs st) p" "lockSets st p = Some s"
  shows "ls_type s = listTypeScanLock"
proof -
  note d = set_okD[OF set_at[OF lk_okD(2)[OF assms(1)] assms(3)]]
  have "0 < nWaiting s" using d(1,2) assms(2) card_gt_0_iff[of "waits (pcs st) p"] by auto
  then show ?thesis using d(12) by force
qed

lemma held_scan:
  assumes ok: "lk_ok st" and h: "h \<in> set (held st t)"
  obtains p s where "plockSet st h = Some (Some p)" "lockSets st p = Some s" "ls_type s = listTypeScanLock" "thread_id s = Some t" "0 < nRecursion s"
proof -
  obtain p where "lset st h = Some p" using held_lset[OF ok h] by auto
  then have p: "plockSet st h = Some (Some p)" by (simp add: lset_Some)
  obtain s where s: "lockSets st p = Some s" and so: "set_ok (waits (pcs st) p) (got (pcs st) p) (heldIn (plockSet st) (held st) p) (recAt (phase st) = Some p) (globalLock st \<noteq> None) s"
    using set_used[OF ok p] by blast
  note d = set_okD[OF so]
  have "0 < heldIn (plockSet st) (held st) p t" using h p by (auto simp: heldIn_def filter_empty_conv)
  then have n: "thread_id s = Some t" "0 < nRecursion s" using d(6)[of t] by (auto split: if_splits)
  then have "ls_type s = listTypeScanLock" using d(12) by force
  then show thesis using that p s n by blast
qed

lemma heldIn_stable:
  assumes ok: "lk_ok st" and s: "stable st st'" "held st' = held st"
  shows "heldIn (plockSet st') (held st') p = heldIn (plockSet st) (held st) p"
proof
  fix t
  have "plockSet st' h = plockSet st h" if h: "h \<in> set (held st t)" for h
  proof -
    obtain q x where "plockSet st h = Some (Some q)" "lockSets st q = Some x" "ls_type x = listTypeScanLock" using held_scan[OF ok h] by blast
    then show ?thesis using s(1) by (simp add: stable_def tyOf_def)
  qed
  then have "filter (\<lambda>r. plockSet st' r = Some (Some p)) (held st t) = filter (\<lambda>r. plockSet st r = Some (Some p)) (held st t)"
    by (intro filter_cong) simp_all
  then show "heldIn (plockSet st') (held st') p t = heldIn (plockSet st) (held st) p t" using s(2) by (simp add: heldIn_def)
qed

lemma args_stable:
  assumes ok: "lk_ok st" and s: "stable st st'"
  shows "args_ok st' (pcs st t)"
proof (rule args_cong)
  show "args_ok st (pcs st t)" by (rule scan_args[OF ok])
  fix r p assume a: "scanAt (pcs st t) = Some p" "plockSet st r = Some (Some p)"
  obtain x where x: "lockSets st p = Some x" using set_used[OF ok a(2)] by blast
  have "ls_type x = listTypeScanLock" by (rule waits_scan[OF ok _ x]) (use a(1) in \<open>auto simp: waits_def\<close>)
  then show "plockSet st' r = Some (Some p)" using s a(2) x by (simp add: stable_def tyOf_def)
qed (use s in \<open>simp_all add: stable_def\<close>)

text \<open>A step of the thread with the global lock.\<close>

lemma put_step:
  assumes ok: "lk_ok st" and g: "globalLock st = Some t"
    and st': "globalLock st' = Some t" "pcs st' = (pcs st)(t := c)" "held st' = held st" "store_ok st'" and c: "putting c"
    and s: "stable st st'"
    and sets: "\<And>p s. lockSets st' p = Some s \<Longrightarrow> set_ok (waits (pcs st) p) (got (pcs st) p) (heldIn (plockSet st) (held st) p) (recAt c = Some p) True s"
    and inv: "args_ok st' c" "put_ok st' c" "comp_ok st' c"
  shows "step_ok t st st'"
proof -
  note d = lk_okD[OF ok]
  have p: "putting (pcs st t)" using turnD(1)[OF d(3)] g by simp
  have ph: "phase st' = c" using st' by (simp add: phase_def)
  have "scanAt (pcs st t) = None" "scanAt c = None" "gotAt (pcs st t) = None" "gotAt c = None" using put_not_scan p c by auto
  then have "waits (pcs st') q = waits (pcs st) q" "got (pcs st') q = got (pcs st) q" for q
    unfolding st'(2) using waits_same[of "pcs st" t q c] got_same[of "pcs st" t q c] by simp_all
  then have "sets_ok st'" using sets st'(1) by (simp add: sets_ok_def ph heldIn_stable[OF ok s st'(3)])
  moreover have "turn_ok st'"
  proof -
    have "lset st' h \<noteq> None" if h: "h \<in> set (held st u)" for h u
    proof -
      obtain q x where "plockSet st h = Some (Some q)" "lockSets st q = Some x" "ls_type x = listTypeScanLock" using held_scan[OF ok h] by blast
      then have "plockSet st' h = Some (Some q)" using s by (simp add: stable_def tyOf_def)
      then show ?thesis by (simp add: lset_def)
    qed
    moreover have "args_ok st' (pcs st' u)" for u using args_stable[OF ok s] inv(1) st'(2) by simp
    moreover have "held st t = []" using turnD(2)[OF d(3)] p by blast
    ultimately show ?thesis using turnD(1,2)[OF d(3)] st' c g unfolding turn_ok_def by auto
  qed
  ultimately have "lk_ok st'" using st'(4) inv by (simp add: lk_ok_def ph)
  then show ?thesis using s st' by (simp add: step_ok_def)
qed

lemma set_ok_rec: "set_ok W G H rw gl s \<Longrightarrow> (ls_type s = listTypeScanLock \<Longrightarrow> ls_state s = lockSetStateRecordLock \<Longrightarrow> rw') \<Longrightarrow> set_ok W G H rw' True s"
  by (auto simp: set_ok_def split: listType.splits lockSetState.splits)

lemma phaseD: "lk_ok st \<Longrightarrow> globalLock st = Some t \<Longrightarrow> pcs st t = c \<Longrightarrow> phase st = c \<and> put_ok st c \<and> comp_ok st c \<and> args_ok st c \<and> held st t = []"
  using lk_okD[of st] turnD[OF lk_okD(3), of st t] turn_phase[OF lk_okD(3), of st t] by auto

text \<open>A step that changes the pc only.\<close>

lemma put_goto:
  assumes ok: "lk_ok st" and g: "globalLock st = Some t" "pcs st t = c0" and c: "putting c" "recAt c = recAt c0 \<or> recAt c0 = None"
    and inv: "args_ok st c" "put_ok st c" "comp_ok st c"
  shows "step_ok t st (goto t c st)"
proof (rule put_step[OF ok g(1), where c = c])
  have ph: "phase st = c0" using phaseD[OF ok g] by blast
  fix p s assume "lockSets (goto t c st) p = Some s"
  then have so: "set_ok (waits (pcs st) p) (got (pcs st) p) (heldIn (plockSet st) (held st) p) (recAt (phase st) = Some p) (globalLock st \<noteq> None) s"
    using set_at[OF lk_okD(2)[OF ok]] by simp
  show "set_ok (waits (pcs st) p) (got (pcs st) p) (heldIn (plockSet st) (held st) p) (recAt c = Some p) True s"
  proof (rule set_ok_rec[OF so])
    assume "ls_type s = listTypeScanLock" "ls_state s = lockSetStateRecordLock"
    then have "recAt c0 = Some p" using set_okD(10)[OF so] ph by simp
    then show "recAt c = Some p" using c(2) by auto
  qed
next
  have sh: "shape (goto t c st) = shape st" by (simp add: shape_def)
  show "args_ok (goto t c st) c" "put_ok (goto t c st) c" "comp_ok (goto t c st) c" unfolding args_shape[OF sh] put_shape[OF sh] comp_shape[OF sh] using inv by simp_all
qed (use ok g c store_goto[OF lk_okD(1)[OF ok]] in \<open>simp_all add: stable_refl\<close>)

section \<open>The global lock\<close>

lemma gbl_ok:
  assumes ok: "lk_ok st" and pc: "pcs st t = PutGlobal r k a" and g: "globalLock st = None"
  shows "step_ok t st (goto t (PutRec r k a) (st\<lparr>globalLock := Some t\<rparr>))" (is "step_ok t st ?st")
proof -
  note d = lk_okD[OF ok]
  have ph: "phase st = Idle" "phase ?st = PutRec r k a" using g by (simp_all add: phase_def)
  have sh: "shape ?st = shape st" by (simp add: shape_def)
  have "waits ((pcs st)(t := PutRec r k a)) p = waits (pcs st) p" "got ((pcs st)(t := PutRec r k a)) p = got (pcs st) p" for p
    using pc by (simp_all add: waits_same got_same)
  moreover have "set_ok (waits (pcs st) p) (got (pcs st) p) (heldIn (plockSet st) (held st) p) False True s" if s: "lockSets st p = Some s" for p s
  proof -
    have so: "set_ok (waits (pcs st) p) (got (pcs st) p) (heldIn (plockSet st) (held st) p) False False s"
      using set_at[OF d(2) s] g ph(1) by simp
    show ?thesis by (rule set_ok_rec[OF so]) (use set_okD(10)[OF so] in blast)
  qed
  ultimately have "sets_ok ?st" unfolding sets_ok_def ph by simp
  moreover have "turn_ok ?st"
  proof -
    have "args_ok st (PutRec r k a)" using scan_args[OF ok, of t] pc by simp
    moreover have "held st t = []" using turnD(2)[OF d(3), of t] pc by simp
    moreover have "\<not> putting (pcs st u)" for u using turnD(1)[OF d(3), of u] g by simp
    moreover have "waiting (pcs st u) \<Longrightarrow> held st u = []" for u using turnD(2)[OF d(3), of u] by blast
    moreover have "lset st h \<noteq> None" if "h \<in> set (held st u)" for h u by (rule turnD(3)[OF d(3) that])
    moreover have "args_ok st (pcs st u)" for u by (rule turnD(4)[OF d(3)])
    ultimately show ?thesis unfolding turn_ok_def args_shape[OF sh] shape_eqs(3)[OF sh] by simp
  qed
  moreover have "store_ok ?st" by (rule store_cong[OF d(1)]) simp_all
  moreover have "put_ok st (PutRec r k a)" "comp_ok st (PutRec r k a)" using d(4,5) unfolding ph(1) by (simp_all add: comp_ok_def)
  ultimately have "lk_ok ?st" unfolding lk_ok_def ph(2) put_shape[OF sh] comp_shape[OF sh] by blast
  then show ?thesis by (simp add: step_ok_def stable_def)
qed

lemma end_ok:
  assumes ok: "lk_ok st" and g: "globalLock st = Some t" and pc: "pcs st t = PutEnd"
  shows "\<exists>st'. map_option (goto t Idle) (dbLockSetGblUnlock st) = Some st' \<and> step_ok t st st'"
proof -
  note d = lk_okD[OF ok]
  have ph: "phase st = PutEnd" "assigned st" "comp_ok st PutEnd" "held st t = []" using phaseD[OF ok g pc] by simp_all
  let ?ps = "lockSetList st listTypeRecordLock"
  obtain st1 where r: "releaseSets ?ps st = Some st1" "store_ok st1" "rest st1 = rest st" "plockSet st1 = plockSet st"
      "lockSets st1 = (\<lambda>q. if q \<in> set ?ps then map_option released (lockSets st q) else lockSets st q)"
    using releaseSets_ok[OF d(1) store_okD(7)[OF d(1)]] store_okD(8)[OF d(1)] by blast
  let ?st = "goto t Idle (st1\<lparr>globalLock := None\<rparr>)"
  have rs: "links st1 = links st" "pcs st1 = pcs st" "held st1 = held st" using r(3) by (simp_all add: rest_def)
  have ph': "phase ?st = Idle" by (simp add: phase_def)
  have l: "lset ?st = lset st" "joined ?st = joined st" using r(4) by (simp_all add: lset_def joined_def fun_eq_iff)
  have inl: "q \<in> set ?ps \<longleftrightarrow> ls_type s = listTypeRecordLock" if "lockSets st q = Some s" for q s
    using store_okD(3)[OF d(1) that] store_okD(8)[OF d(1), of q listTypeRecordLock] that by auto
  have "noRec ?st"
    unfolding noRec_def tyOf_def
  proof
    fix q
    show "map_option ls_type (lockSets ?st q) \<noteq> Some listTypeRecordLock"
      using inl[of q] r(5) by (cases "lockSets st q") (auto simp: released_def)
  qed
  moreover have "assigned ?st" using ph(2) r(4) by (simp add: assigned_def)
  moreover have "comp_ok ?st Idle" using ph(3) r(4) rs(1) l by (simp add: comp_ok_def sound_def)
  moreover have "sets_ok ?st"
    unfolding sets_ok_def
  proof (intro allI impI)
    fix p s' assume s': "lockSets ?st p = Some s'"
    then obtain s where s: "lockSets st p = Some s" using r(5) by (auto split: if_splits)
    have so: "set_ok (waits (pcs st) p) (got (pcs st) p) (heldIn (plockSet st) (held st) p) False True s"
      using set_at[OF d(2) s] g ph(1) by simp
    note e = set_okD[OF so]
    have w: "waits (pcs ?st) p = waits (pcs st) p" "got (pcs ?st) p = got (pcs st) p" using pc rs by (simp_all add: waits_same got_same)
    have "set_ok (waits (pcs st) p) (got (pcs st) p) (heldIn (plockSet st) (held st) p) False False s'"
    proof (cases "ls_type s = listTypeRecordLock")
      case True
      then have "s' = released s" using s s' inl[OF s] r(5) by simp
      moreover have z: "nRecursion s = 0" "nWaiting s = 0" using e(12) True by simp_all
      then have wz: "waits (pcs st) p = {}" using e(1,2) by simp
      moreover from wz have gz: "got (pcs st) p = {}" using got_waits by blast
      moreover have "lock s = None" using e(5) z gz by (cases "lock s") auto
      moreover have "heldIn (plockSet st) (held st) p u = 0" for u using e(6)[of u] z by (simp split: if_splits)
      ultimately show ?thesis by (simp add: set_ok_def released_def)
    next
      case False
      then have "s' = s" using s s' inl[OF s] r(5) by simp
      then show ?thesis using so False by (auto simp: set_ok_def split: listType.splits)
    qed
    then show "set_ok (waits (pcs ?st) p) (got (pcs ?st) p) (heldIn (plockSet ?st) (held ?st) p) (recAt (phase ?st) = Some p) (globalLock ?st \<noteq> None) s'"
      unfolding w ph' using r(4) rs(3) by simp
  qed
  moreover have "turn_ok ?st"
  proof -
    have a: "args_ok ?st (pcs st u)" for u by (rule args_cong[OF _ _ _ scan_args[OF ok]]) (simp_all add: r(4) rs)
    show ?thesis
      unfolding turn_ok_def l(1)
    proof (intro conjI allI)
      fix u
      show "putting (pcs ?st u) \<longleftrightarrow> globalLock ?st = Some u" using turnD(1)[OF d(3), of u] g rs by simp
      show "putting (pcs ?st u) \<or> waiting (pcs ?st u) \<longrightarrow> held ?st u = []" using turnD(2)[OF d(3), of u] rs by simp
      show "\<forall>h \<in> set (held ?st u). lset st h \<noteq> None" using turnD(3)[OF d(3), of _ u] rs by simp
      show "args_ok ?st (pcs ?st u)" using a rs by simp
    qed
  qed
  moreover have "store_ok ?st" by (rule store_cong[OF r(2)]) simp_all
  ultimately have "lk_ok ?st" by (simp add: lk_ok_def ph')
  then have "step_ok t st ?st" using r(4) rs by (simp add: step_ok_def stable_def)
  then show ?thesis using r(1) by (simp add: dbLockSetGblUnlock_def)
qed

section \<open>The record lock\<close>

lemma setLS_tyOf: "lockSets st p = Some s \<Longrightarrow> ls_type s' = ls_type s \<Longrightarrow> tyOf (goto t c (setLS p s' st)) = tyOf st"
  by (auto simp: tyOf_def fun_eq_iff)

lemma rec_ok:
  assumes ok: "lk_ok st" and g: "globalLock st = Some t" "pcs st t = c0" "recAt c0 = None" and r: "lset st r = Some p"
    and ret: "recLocked st r \<Longrightarrow> putting ret \<and> args_ok st ret \<and> put_ok st ret \<and> comp_ok st ret"
    and wait: "putting (wait p) \<and> recAt (wait p) = Some p \<and> args_ok st (wait p) \<and> comp_ok st (wait p)"
      "\<And>st'. plockSet st' = plockSet st \<Longrightarrow> links st' = links st \<Longrightarrow> tyOf st' = tyOf st \<Longrightarrow> waitOk st' r p \<Longrightarrow> put_ok st' (wait p)"
  shows "\<exists>st'. dbLockSetRecordLock t r ret wait st = Some st' \<and> step_ok t st st'"
proof -
  have r': "plockSet st r = Some (Some p)" using r by (simp add: lset_Some)
  obtain s where s: "lockSets st p = Some s" "ls_type s \<noteq> listTypeFree" and
    so: "set_ok (waits (pcs st) p) (got (pcs st) p) (heldIn (plockSet st) (held st) p) (recAt (phase st) = Some p) (globalLock st \<noteq> None) s"
    using set_used[OF ok r'] .
  note d = set_okD[OF so]
  have ph: "phase st = c0" "held st t = []" using phaseD[OF ok g(1,2)] by simp_all
  show ?thesis
  proof (cases "ls_type s = listTypeRecordLock")
    case True
    then have "recLocked st r" using r s by (simp add: recLocked_def tyOf_def)
    then have "step_ok t st (goto t ret st)" using put_goto[OF ok g(1,2), of ret] ret g(3) by blast
    then show ?thesis using r' s True by (simp add: dbLockSetRecordLock_def)
  next
    case False
    then have ty: "ls_type s = listTypeScanLock" using s(2) by (cases "ls_type s") auto
    have "heldIn (plockSet st) (held st) p t = 0" using ph(2) by (simp add: heldIn_def)
    then have nt: "thread_id s \<noteq> Some t" using d(6)[of t] d(7)[OF ty] by fastforce
    let ?s = "s\<lparr>ls_state := lockSetStateRecordLock\<rparr>"
    let ?st = "goto t (wait p) (setLS p ?s st)"
    have ty': "tyOf ?st = tyOf st" by (rule setLS_tyOf[OF s(1)]) simp
    have "step_ok t st ?st"
    proof (rule put_step[OF ok g(1), where c = "wait p"])
      show "store_ok ?st" by (rule store_goto, rule store_setLS[OF lk_okD(1)[OF ok] s(1)]) simp_all
      show "stable st ?st" by (rule stable_refl) simp_all
      show "args_ok ?st (wait p)" "comp_ok ?st (wait p)" using wait(1) weak_eqs(8,9)[of ?st st "wait p", OF _ _ ty'] by simp_all
      have "waitOk ?st r p" using r ty by (simp add: waitOk_def lset_def)
      then show "put_ok ?st (wait p)" using wait(2)[of ?st] ty' by simp
      fix q x assume x: "lockSets ?st q = Some x"
      show "set_ok (waits (pcs st) q) (got (pcs st) q) (heldIn (plockSet st) (held st) q) (recAt (wait p) = Some q) True x"
      proof (cases "q = p")
        case True
        then have "x = ?s" using x by simp
        then show ?thesis using True so ty wait(1) by (auto simp: set_ok_def split: option.splits)
      next
        case False
        then have x0: "lockSets st q = Some x" using x by simp
        have "set_ok (waits (pcs st) q) (got (pcs st) q) (heldIn (plockSet st) (held st) q) False True x"
          using set_at[OF lk_okD(2)[OF ok] x0] g ph by simp
        then show ?thesis using set_ok_rec set_okD(10) by metis
      qed
    qed (use g wait(1) in simp_all)
    then show ?thesis using r' s False nt by (simp add: dbLockSetRecordLock_def)
  qed
qed

lemma check_ok:
  assumes ok: "lk_ok st" and g: "globalLock st = Some t" "pcs st t = c0" "recAt c0 = Some p" and w: "waitOk st r p"
    and wait: "putting (wait p) \<and> recAt (wait p) = Some p \<and> args_ok st (wait p) \<and> put_ok st (wait p) \<and> comp_ok st (wait p)"
    and ret: "putting ret" "args_ok st ret" "comp_ok st c0 \<Longrightarrow> comp_ok st ret" "recAt ret = None"
      "\<And>st'. plockSet st' = plockSet st \<Longrightarrow> links st' = links st \<Longrightarrow> tyOf st' = (tyOf st)(p \<mapsto> listTypeRecordLock) \<Longrightarrow> recLocked st' r \<Longrightarrow> put_ok st' ret"
      "\<And>st' a b. plockSet st' = plockSet st \<Longrightarrow> tyOf st' = (tyOf st)(p \<mapsto> listTypeRecordLock) \<Longrightarrow> pend st ret a b \<Longrightarrow> pend st' ret a b"
  shows "\<exists>st'. recordLockCheck t p ret wait st = Some st' \<and> step_ok t st st'"
proof -
  have r: "lset st r = Some p" and ts: "map_option (\<lambda>s. (ls_type s, ls_state s)) (lockSets st p) = Some (listTypeScanLock, lockSetStateRecordLock)"
    using w by (simp_all add: waitOk_def)
  obtain s where s: "lockSets st p = Some s" "ls_type s = listTypeScanLock" "ls_state s = lockSetStateRecordLock" using ts by auto
  have so: "set_ok (waits (pcs st) p) (got (pcs st) p) (heldIn (plockSet st) (held st) p) (recAt (phase st) = Some p) (globalLock st \<noteq> None) s"
    by (rule set_at[OF lk_okD(2)[OF ok] s(1)])
  note d = set_okD[OF so]
  have ph: "phase st = c0" "held st t = []" "comp_ok st c0" using phaseD[OF ok g(1,2)] by simp_all
  show ?thesis
  proof (cases "nWaiting s = 0 \<and> nRecursion s = 0")
    case False
    have "step_ok t st (goto t (wait p) st)" by (rule put_goto[OF ok g(1,2)]) (use wait g in simp_all)
    moreover have "recordLockCheck t p ret wait st = Some (goto t (wait p) st)" using s(1) False by (auto simp: recordLockCheck_def)
    ultimately show ?thesis by blast
  next
    case True
    let ?s = "s\<lparr>ls_type := listTypeRecordLock, thread_id := Some t, ls_precord := None\<rparr>"
    let ?ls = "setLS p ?s (addTo listTypeRecordLock p (deleteFrom (ls_type s) p st))"
    let ?st = "goto t ret ?ls"
    have ty': "tyOf ?st = (tyOf st)(p \<mapsto> listTypeRecordLock)" by (auto simp: tyOf_def fun_eq_iff)
    have "step_ok t st ?st"
    proof (rule put_step[OF ok g(1), where c = ret])
      have "store_ok (addTo listTypeRecordLock p (setLS p ?s (deleteFrom (ls_type s) p st)))"
        by (rule store_retype[OF lk_okD(1)[OF ok] s(1)]) (simp_all add: s)
      moreover have "addTo listTypeRecordLock p (setLS p ?s (deleteFrom (ls_type s) p st)) = ?ls"
        by (simp add: setLS_def addTo_def deleteFrom_def)
      ultimately show "store_ok ?st" by (simp add: store_goto)
      show "stable st ?st" by (rule stable_refl) simp_all
      show "args_ok ?st ret" by (rule args_cong[OF _ _ _ ret(2)]) simp_all
      have j: "joined ?st = joined st" by (rule joined_cong) simp
      have "comp_ok st ret" by (rule ret(3)[OF ph(3)])
      moreover have "pend ?st ret a b" if "pend st ret a b" for a b by (rule ret(6)[OF _ ty' that]) simp
      ultimately show "comp_ok ?st ret" unfolding comp_ok_def sound_def j by simp blast
      have "recLocked ?st r" using r ty' by (auto simp: recLocked_def lset_def)
      then show "put_ok ?st ret" using ret(5)[of ?st] ty' by simp
      fix q x assume x: "lockSets ?st q = Some x"
      show "set_ok (waits (pcs st) q) (got (pcs st) q) (heldIn (plockSet st) (held st) q) (recAt ret = Some q) True x"
      proof (cases "q = p")
        case q: True
        then have xs: "x = ?s" using x by simp
        have wz: "waits (pcs st) p = {}" using d(1,2) True by simp
        then have gz: "got (pcs st) p = {}" using got_waits by blast
        have "lock s = None" using d(5) True gz by (cases "lock s") auto
        moreover have "heldIn (plockSet st) (held st) p u = 0" for u using d(6)[of u] True by (simp split: if_splits)
        ultimately show ?thesis using q xs wz gz True s by (simp add: set_ok_def)
      next
        case False
        then have x0: "lockSets st q = Some x" using x by simp
        have sq: "set_ok (waits (pcs st) q) (got (pcs st) q) (heldIn (plockSet st) (held st) q) False True x"
          using set_at[OF lk_okD(2)[OF ok] x0] g ph False by simp
        show ?thesis by (rule set_ok_rec[OF sq]) (use set_okD(10)[OF sq] in blast)
      qed
    qed (use g ret(1) in simp_all)
    then show ?thesis using s True by (simp add: recordLockCheck_def)
  qed
qed

end
