(* ===== verification/DbLockLinks.thy ===== *)
theory DbLockLinks
  imports DbLockPut
begin

text \<open>The steps of \<open>dbPutFieldLink\<close> that change links and lock sets return and keep the invariant.\<close>

section \<open>The switch on the old link\<close>

lemma edges_upd: "k < length (lks r) \<Longrightarrow> edges (lks(r := (lks r)[k := None])) \<subseteq> edges lks"
  by (auto simp: edges_def set_conv_nth nth_list_update split: if_splits)

lemma edges_other: "r \<noteq> a \<Longrightarrow> (a, b) \<in> edges (lks(r := ls)) \<longleftrightarrow> (a, b) \<in> edges lks"
  by (simp add: edges_def)

lemma recLockedE:
  assumes "lk_ok st" "recLocked st r"
  obtains p s where "plockSet st r = Some (Some p)" "lset st r = Some p" "lockSets st p = Some s" "ls_type s = listTypeRecordLock"
    "ls_state s = lockSetStateRecordLock" "nRecursion s = 0" "nWaiting s = 0" "waits (pcs st) p = {}" "got (pcs st) p = {}" "lock s = None"
    "\<And>u. heldIn (plockSet st) (held st) p u = 0"
proof -
  obtain p where p: "lset st r = Some p" "tyOf st p = Some listTypeRecordLock" using assms(2) by (auto simp: recLocked_def)
  then obtain s where s: "lockSets st p = Some s" "ls_type s = listTypeRecordLock" by (auto simp: tyOf_def)
  have so: "set_ok (waits (pcs st) p) (got (pcs st) p) (heldIn (plockSet st) (held st) p) (recAt (phase st) = Some p) (globalLock st \<noteq> None) s"
    by (rule set_at[OF lk_okD(2)[OF assms(1)] s(1)])
  note d = set_okD[OF so]
  have z: "nRecursion s = 0" "nWaiting s = 0" using d(12) s(2) by simp_all
  then have w: "waits (pcs st) p = {}" using d(1,2) by simp
  then have g: "got (pcs st) p = {}" using got_waits by blast
  moreover have "lock s = None" using d(5) z g by (cases "lock s") auto
  moreover have "heldIn (plockSet st) (held st) p u = 0" for u using d(6)[of u] z by (simp split: if_splits)
  moreover have "ls_state s = lockSetStateRecordLock" using d(11)[OF s(2)] by simp
  moreover have "plockSet st r = Some (Some p)" using p(1) by (simp add: lset_Some)
  ultimately show thesis using that p(1) s z w by blast
qed

lemma set_at_put: "lk_ok st \<Longrightarrow> globalLock st = Some t \<Longrightarrow> recAt (phase st) = None \<Longrightarrow> lockSets st p = Some s \<Longrightarrow>
    set_ok (waits (pcs st) p) (got (pcs st) p) (heldIn (plockSet st) (held st) p) False True s"
  using set_at[OF lk_okD(2), of st p s] by simp

lemma old_split:
  assumes ok: "lk_ok st" and g: "globalLock st = Some t" "pcs st t = PutOld r k (Some new)" and l: "links st r ! k = Some x"
  shows "\<exists>rs st1. dbLockSetSplit r (st\<lparr>links := (links st)(r := (links st r)[k := None])\<rparr>) = Some (rs, st1)
     \<and> step_ok t st (goto t (PutSplit [] rs r k new) st1)"
proof -
  have ph: "phase st = PutOld r k (Some new)" "assigned st" "recLocked st r" "fieldOk st r k" "targetOk st new" "comp_ok st (PutOld r k (Some new))"
    using phaseD[OF ok g] by (simp_all add: planOk_def)
  obtain p s where p: "plockSet st r = Some (Some p)" "lset st r = Some p" "lockSets st p = Some s" "ls_type s = listTypeRecordLock"
    "ls_state s = lockSetStateRecordLock" "nRecursion s = 0" "nWaiting s = 0" "waits (pcs st) p = {}" "got (pcs st) p = {}" "lock s = None"
    "\<And>u. heldIn (plockSet st) (held st) p u = 0"
    using recLockedE[OF ok ph(3)] by blast
  let ?lks = "(links st)(r := (links st r)[k := None])"
  let ?cut = "st\<lparr>links := ?lks\<rparr>"
  have k: "k < length (links st r)" using ph(4) by (simp add: fieldOk_def)
  have ok0: "store_ok ?cut" by (rule store_cong[OF lk_okD(1)[OF ok]]) simp_all
  have p0: "lset ?cut r = Some p" "lockSets ?cut p = Some s" using p by (simp_all add: lset_def)
  obtain st1 where s1: "dbLockSetSplit r ?cut = Some (lockRecordList s, st1)" "store_ok st1" "rest st1 = rest ?cut"
     and "plockSet st1 = (\<lambda>x. if plockSet ?cut x = Some (Some p) then Some None else plockSet ?cut x)"
     and "lockSets st1 = (lockSets ?cut)(p \<mapsto> s\<lparr>lockRecordList := [], ls_state := lockSetStateFree, ls_type := listTypeFree\<rparr>)"
    using split_ok[OF ok0 p0 p(5,4)] by blast
  then have s2: "plockSet st1 = (\<lambda>x. if plockSet st x = Some (Some p) then Some None else plockSet st x)"
     "lockSets st1 = (lockSets st)(p \<mapsto> s\<lparr>lockRecordList := [], ls_state := lockSetStateFree, ls_type := listTypeFree\<rparr>)"
    by (simp_all cong: if_cong)
  have rs: "globalLock st1 = globalLock st" "links st1 = ?lks" "pcs st1 = pcs st" "held st1 = held st" using s1(3) by (simp_all add: rest_def)
  have inrs: "y \<in> set (lockRecordList s) \<longleftrightarrow> plockSet st y = Some (Some p)" for y by (rule store_okD(5)[OF lk_okD(1)[OF ok] p(3)])
  have ls: "lset st1 y = (if plockSet st y = Some (Some p) then None else lset st y)" for y using s2(1) by (simp add: lset_def)
  have j: "joined st1 a b \<longleftrightarrow> joined st a b \<and> lset st a \<noteq> Some p" for a b
    using lset_Some[of st a p] lset_Some[of st b p] by (auto simp: joined_def ls)
  let ?c = "PutSplit [] (lockRecordList s) r k new" and ?rs = "lockRecordList s"
  let ?st = "goto t ?c st1"
  have edge: "joined st a b" if "(a, b) \<in> edges (links st)" for a b using ph(6) that by (simp add: comp_ok_def)
  have e0: "edges ?lks \<subseteq> edges (links st)" using edges_upd[where lks = "links st" and r = r] k by simp
  have "step_ok t st ?st"
  proof (rule put_step[OF ok g(1), where c = ?c])
    show "stable st ?st"
      using s2(1) rs(2) p(3,4) by (auto simp: stable_def tyOf_def)
    show "args_ok ?st ?c" using ph(4,5) s2(1) rs(2) by (auto simp: fieldOk_def targetOk_def split: option.splits)
    show "put_ok ?st ?c"
      using ph(2) s2(1) rs(2) k inrs p(1) by (auto simp: lset_def assigned_def freeField_def)
    show "comp_ok ?st ?c"
      unfolding comp_ok_def
    proof (intro conjI allI impI)
      show "sound (edges (links ?st)) ?st"
        unfolding sound_def
      proof (intro allI impI)
        fix a b assume "joined ?st a b"
        then have ab: "joined st a b" "lset st a \<noteq> Some p" using j joined_cong[of ?st st1] by auto
        show "(a, b) \<in> conn (edges (links ?st))"
        proof (rule conn_inside[where E = "edges (links st)" and P = "\<lambda>z. lset st z = lset st a"])
          show "(a, b) \<in> conn (edges (links st))" using ph(6) ab(1) by (simp add: comp_ok_def sound_def)
          fix y z assume yz: "(y, z) \<in> edges (links st)"
          then show "lset st y = lset st a \<longleftrightarrow> lset st z = lset st a" using edge[OF yz] by (simp add: joined_def)
          assume "lset st y = lset st a"
          then have "y \<noteq> r" using ab(2) p(2) by auto
          then show "(y, z) \<in> edges (links ?st)" using yz rs(2) edges_other[of r y z] by simp
        qed simp
      qed
    next
      fix a b assume "(a, b) \<in> edges (links ?st)"
      then have ab: "(a, b) \<in> edges (links st)" using e0 rs(2) by auto
      then have d: "plockSet st a \<noteq> None" "plockSet st b \<noteq> None" using ph(6) by (auto simp: comp_ok_def)
      then show "plockSet ?st a \<noteq> None" "plockSet ?st b \<noteq> None" using s2(1) by auto
      show "joined ?st a b \<or> pend ?st ?c a b"
      proof (cases "lset st a = Some p")
        case True
        then have "lset st b = Some p" using edge[OF ab] by (simp add: joined_def)
        then show ?thesis using True inrs s2(1) by (simp add: lset_Some) (simp add: lset_def)
      next
        case False
        then have "joined st1 a b" using edge[OF ab] j by simp
        then show ?thesis using joined_cong[of ?st st1] by simp
      qed
    qed
    fix q y assume y: "lockSets ?st q = Some y"
    show "set_ok (waits (pcs st) q) (got (pcs st) q) (heldIn (plockSet st) (held st) q) (recAt ?c = Some q) True y"
    proof (cases "q = p")
      case True
      then have "y = s\<lparr>lockRecordList := [], ls_state := lockSetStateFree, ls_type := listTypeFree\<rparr>" using y s2(2) by simp
      then show ?thesis using True p by (simp add: set_ok_def)
    next
      case False
      then have "lockSets st q = Some y" using y s2(2) by simp
      then show ?thesis using set_at_put[OF ok g(1)] ph(1) by simp
    qed
  qed (use g rs store_goto[OF s1(2)] in simp_all)
  then show ?thesis using s1(1) by blast
qed

lemma old_ok:
  assumes ok: "lk_ok st" and g: "globalLock st = Some t" "pcs st t = PutOld r k a"
  shows "\<exists>st'. putOld t r k a st = Some st' \<and> step_ok t st st'"
proof -
  have ph: "phase st = PutOld r k a" "assigned st" "recLocked st r" "fieldOk st r k" "planOk st a" "comp_ok st (PutOld r k a)"
    using phaseD[OF ok g] by simp_all
  have k: "k < length (links st r)" using ph(4) by (simp add: fieldOk_def)
  have cs: "comp_ok st PutEnd" "comp_ok st (PutNew r k n)" for n using ph(6) by (simp_all add: comp_ok_def)
  show ?thesis
  proof (cases a)
    case None
    have "step_ok t st (goto t PutEnd st)" by (rule put_goto[OF ok g]) (use ph cs in simp_all)
    then show ?thesis using None by (simp add: putOld_def)
  next
    case (Some new)
    show ?thesis
    proof (cases "links st r ! k")
      case None
      have "step_ok t st (goto t (PutNew r k new) st)"
        by (rule put_goto[OF ok g]) (use ph cs None Some in \<open>simp_all add: freeField_def planOk_def\<close>)
      then show ?thesis using Some None k by (simp add: putOld_def)
    next
      case x: (Some x)
      obtain rs st1 where "dbLockSetSplit r (st\<lparr>links := (links st)(r := (links st r)[k := None])\<rparr>) = Some (rs, st1)"
         "step_ok t st (goto t (PutSplit [] rs r k new) st1)" using old_split[OF ok g(1) _ x] g(2) Some by blast
      then show ?thesis using Some x k by (simp add: putOld_def)
    qed
  qed
qed

section \<open>Merging\<close>

text \<open>Two records of record-locked sets, or one of them without a set.\<close>

lemma set_ok_free: "set_ok W G H rw gl s \<Longrightarrow> nRecursion s = 0 \<Longrightarrow> nWaiting s = 0 \<Longrightarrow> proto s' = proto s \<Longrightarrow> ls_type s' = listTypeFree \<Longrightarrow>
    set_ok W G H rw' gl' s'"
  by (cases "lock s") (simp_all add: set_ok_def proto_def)

lemma set_ok_proto: "set_ok W G H rw gl s \<Longrightarrow> proto s' = proto s \<Longrightarrow> ls_type s' = ls_type s \<Longrightarrow> set_ok W G H rw gl s'"
proof -
  assume a: "set_ok W G H rw gl s" "proto s' = proto s" "ls_type s' = ls_type s"
  then have e: "lock s' = lock s" "ls_state s' = ls_state s" "thread_id s' = thread_id s" "nRecursion s' = nRecursion s" "nWaiting s' = nWaiting s"
    by (simp_all add: proto_def)
  show ?thesis unfolding set_ok_def e a(3) by (rule a(1)[unfolded set_ok_def])
qed

lemma merge_step:
  assumes ok: "lk_ok st" and g: "globalLock st = Some t" "recAt (phase st) = None"
    and m: "recLocked st a" "plockSet st b \<noteq> None" "lset st b = None \<or> recLocked st b"
  shows "\<exists>p st'. dbLockSetMerge a b st = Some st' \<and> store_ok st' \<and> rest st' = rest st \<and> (lset st a = Some p \<or> lset st b = Some p)
     \<and> plockSet st' = (\<lambda>r. if inEither st a b r then Some (Some p) else plockSet st r)
     \<and> (\<forall>r. inEither st a b r \<or> recLocked st r \<longrightarrow> recLocked st' r) \<and> stable st st'
     \<and> (\<forall>q s. lockSets st' q = Some s \<longrightarrow> set_ok (waits (pcs st) q) (got (pcs st) q) (heldIn (plockSet st) (held st) q) False True s)"
proof -
  note d = lk_okD[OF ok]
  obtain pa where a: "plockSet st a = Some (Some pa)" "lset st a = Some pa" "tyOf st pa = Some listTypeRecordLock"
    using m(1) by (auto simp: recLocked_def lset_Some)
  have rec: "tyOf st q = Some listTypeRecordLock" if "lset st a = Some q \<or> lset st b = Some q" for q
    using that a m(3) by (auto simp: recLocked_def)
  have ty: "\<forall>p q s t. lset st a = Some p \<and> lset st b = Some q \<and> lockSets st p = Some s \<and> lockSets st q = Some t \<longrightarrow> ls_type s = ls_type t"
  proof (intro allI impI)
    fix p q s t assume h: "lset st a = Some p \<and> lset st b = Some q \<and> lockSets st p = Some s \<and> lockSets st q = Some t"
    then have "tyOf st p = Some listTypeRecordLock" "tyOf st q = Some listTypeRecordLock" using rec by blast+
    then show "ls_type s = ls_type t" using h by (simp add: tyOf_def)
  qed
  obtain p st' where mg: "dbLockSetMerge a b st = Some st'" "store_ok st'" "rest st' = rest st" "lset st a = Some p \<or> lset st b = Some p"
     "plockSet st' = (\<lambda>r. if inEither st a b r then Some (Some p) else plockSet st r)"
     "\<forall>q. lockSets st' q = None \<longleftrightarrow> lockSets st q = None"
     "\<forall>q s s'. lockSets st q = Some s \<longrightarrow> lockSets st' q = Some s' \<longrightarrow> proto s' = proto s
          \<and> ls_type s' = (if q \<noteq> p \<and> (lset st a = Some q \<or> lset st b = Some q) then listTypeFree else ls_type s)"
    using merge_ok[OF d(1) _ m(2) _ ty] a by auto
  have in_set: "inEither st a b r" if "lset st r = Some q" "lset st a = Some q \<or> lset st b = Some q" for r q
    using that by (auto simp: inEither_def joined_def)
  have ty': "tyOf st' q = (if q \<noteq> p \<and> (lset st a = Some q \<or> lset st b = Some q) then Some listTypeFree else tyOf st q)"
    if q: "tyOf st q \<noteq> None" for q
  proof -
    obtain s where s: "lockSets st q = Some s" using q by (auto simp: tyOf_def)
    then have "lockSets st' q \<noteq> None" using mg(6) by (metis option.distinct(1))
    then obtain s' where "lockSets st' q = Some s'" by blast
    then show ?thesis using mg(7) s by (simp add: tyOf_def)
  qed
  have p': "tyOf st' p = Some listTypeRecordLock" using ty'[of p] rec[OF mg(4)] by simp
  have "recLocked st' r" if ir: "inEither st a b r \<or> recLocked st r" for r
  proof (cases "inEither st a b r")
    case True
    then show ?thesis using p' by (simp add: recLocked_def merged_lset[OF mg(5)])
  next
    case False
    then obtain q where q: "lset st r = Some q" "tyOf st q = Some listTypeRecordLock" using ir by (auto simp: recLocked_def)
    then have "\<not> (lset st a = Some q \<or> lset st b = Some q)" using in_set False by blast
    then have "tyOf st' q = Some listTypeRecordLock" using ty'[of q] q(2) by auto
    then show ?thesis using False q(1) by (simp add: recLocked_def merged_lset[OF mg(5)])
  qed
  moreover have "stable st st'"
    unfolding stable_def
  proof (intro conjI allI impI)
    fix r q assume r: "plockSet st r = Some (Some q)" "tyOf st q \<noteq> Some listTypeRecordLock"
    have "\<not> inEither st a b r"
    proof
      assume "inEither st a b r"
      then have "lset st a = Some q \<or> lset st b = Some q" using r(1) by (auto simp: inEither_def joined_def lset_def)
      then show False using rec r(2) by blast
    qed
    then show "plockSet st' r = Some (Some q)" using mg(5) r(1) by simp
  next
    fix r
    show "plockSet st' r = None \<longleftrightarrow> plockSet st r = None"
    proof (cases "inEither st a b r")
      case True
      have "plockSet st r \<noteq> None"
      proof -
        have "r = a \<or> r = b \<or> lset st r \<noteq> None" using True joined_lset unfolding inEither_def by blast
        then show ?thesis using a m(2) by (auto simp: lset_def split: option.splits)
      qed
      then show ?thesis using True mg(5) by simp
    next
      case False
      then show ?thesis using mg(5) by simp
    qed
    show "length (links st' r) = length (links st r)" using mg(3) by (simp add: rest_def)
  qed
  moreover have "set_ok (waits (pcs st) q) (got (pcs st) q) (heldIn (plockSet st) (held st) q) False True s'" if s': "lockSets st' q = Some s'" for q s'
  proof -
    have "lockSets st q \<noteq> None" using mg(6) s' by (metis option.distinct(1))
    then obtain s where s: "lockSets st q = Some s" by blast
    have so: "set_ok (waits (pcs st) q) (got (pcs st) q) (heldIn (plockSet st) (held st) q) False True s" by (rule set_at_put[OF ok g s])
    have pr: "proto s' = proto s" using mg(7) s s' by blast
    show ?thesis
    proof (cases "q \<noteq> p \<and> (lset st a = Some q \<or> lset st b = Some q)")
      case True
      then have "ls_type s = listTypeRecordLock" using rec[of q] s by (simp add: tyOf_def)
      then have "nRecursion s = 0" "nWaiting s = 0" using set_okD(12)[OF so] by simp_all
      moreover have "ls_type s' = listTypeFree" using mg(7) s s' True by simp
      ultimately show ?thesis using set_ok_free[OF so _ _ pr] by blast
    next
      case False
      have "ls_type s' = (if q \<noteq> p \<and> (lset st a = Some q \<or> lset st b = Some q) then listTypeFree else ls_type s)" using mg(7) s s' by blast
      then have "ls_type s' = ls_type s" using False by simp
      then show ?thesis using set_ok_proto[OF so pr] by blast
    qed
  qed
  ultimately show ?thesis using mg(1-5) by blast
qed

lemma merged_none: "plockSet st' = (\<lambda>r. if inEither st a b r then Some (Some p) else plockSet st r) \<Longrightarrow> plockSet st' x = Some None \<Longrightarrow> plockSet st x = Some None"
  by (simp split: if_splits)

lemma merged_mono:
  assumes "plockSet st' = (\<lambda>r. if inEither st a b r then Some (Some p) else plockSet st r)" "\<forall>r. inEither st a b r \<or> recLocked st r \<longrightarrow> recLocked st' r"
    "lset st x = None \<or> recLocked st x"
  shows "lset st' x = None \<or> recLocked st' x"
  using assms merged_lset[OF assms(1), of x] by auto

lemma split_merge_ok:
  assumes ok: "lk_ok st" and g: "globalLock st = Some t" "pcs st t = PutSplit ((a, b) # ms) rs r k new"
  shows "\<exists>st'. map_option (goto t (PutSplit ms rs r k new)) (dbLockSetMerge a b st) = Some st' \<and> step_ok t st st'"
proof -
  let ?old = "PutSplit ((a, b) # ms) rs r k new" and ?c = "PutSplit ms rs r k new"
  have ph: "phase st = ?old" "\<And>x. plockSet st x = Some None \<Longrightarrow> x \<in> set rs" "\<And>x. x \<in> set rs \<Longrightarrow> plockSet st x \<noteq> None \<and> (lset st x = None \<or> recLocked st x)"
      "splitMerge st (a, b)" "\<And>m. m \<in> set ms \<Longrightarrow> splitMerge st m" "r \<in> set rs \<or> recLocked st r" "freeField st r k" "fieldOk st r k" "targetOk st new"
      "comp_ok st ?old"
    using phaseD[OF ok g] by auto
  have m: "recLocked st a" "lset st b = None \<or> recLocked st b" "(a, b) \<in> edges (links st)" using ph(4) by (simp_all add: splitMerge_def)
  have db: "plockSet st b \<noteq> None" using ph(10) m(3) by (auto simp: comp_ok_def)
  obtain p st1 where mg: "dbLockSetMerge a b st = Some st1" "store_ok st1" "rest st1 = rest st" "lset st a = Some p \<or> lset st b = Some p"
     "plockSet st1 = (\<lambda>r. if inEither st a b r then Some (Some p) else plockSet st r)"
     "\<forall>r. inEither st a b r \<or> recLocked st r \<longrightarrow> recLocked st1 r" "stable st st1"
     "\<forall>q s. lockSets st1 q = Some s \<longrightarrow> set_ok (waits (pcs st) q) (got (pcs st) q) (heldIn (plockSet st) (held st) q) False True s"
    using merge_step[OF ok g(1) _ m(1) db m(2)] ph(1) by auto
  have rs: "globalLock st1 = globalLock st" "links st1 = links st" "pcs st1 = pcs st" "held st1 = held st" using mg(3) by (simp_all add: rest_def)
  let ?st = "goto t ?c st1"
  have sh: "shape ?st = shape st1" by (simp add: shape_def)
  have "step_ok t st ?st"
  proof (rule put_step[OF ok g(1), where c = ?c])
    show "stable st ?st" using mg(7) by (simp add: stable_def)
    have "args_ok st ?c" using ph(8,9) by simp
    then show "args_ok ?st ?c" by (rule args_cong[rotated 3]) (use mg(7) in \<open>simp_all add: stable_def\<close>)
    have "splitMerge st1 m" if "m \<in> set ms" for m
      using ph(5)[OF that] mg(6) merged_mono[OF mg(5,6), of "snd m"] rs(2) by (auto simp: splitMerge_def)
    moreover have "x \<in> set rs" if "plockSet st1 x = Some None" for x using merged_none[OF mg(5) that] ph(2) by blast
    moreover have "plockSet st1 x \<noteq> None \<and> (lset st1 x = None \<or> recLocked st1 x)" if "x \<in> set rs" for x
      using ph(3)[OF that] merged_mono[OF mg(5,6), of x] mg(7) by (auto simp: stable_def)
    moreover have "r \<in> set rs \<or> recLocked st1 r" using ph(6) mg(6) by blast
    moreover have "freeField st1 r k" using ph(7) rs(2) by (simp add: freeField_def)
    ultimately have "put_ok st1 ?c" by simp
    then show "put_ok ?st ?c" unfolding put_shape[OF sh] .
    have "comp_ok st1 ?c"
      unfolding comp_ok_def rs(2)
    proof (intro conjI allI impI)
      show "sound (edges (links st)) st1"
        by (rule sound_merged[OF _ conn_edge[OF m(3)] mg(5,4)]) (use ph(10) in \<open>simp add: comp_ok_def\<close>)
      fix x y assume xy: "(x, y) \<in> edges (links st)"
      then have d: "plockSet st x \<noteq> None" "plockSet st y \<noteq> None" "joined st x y \<or> pend st ?old x y" using ph(10) by (auto simp: comp_ok_def)
      then show "plockSet st1 x \<noteq> None" "plockSet st1 y \<noteq> None" using mg(7) by (auto simp: stable_def)
      have "inEither st a b a" "inEither st a b b" by (simp_all add: inEither_def)
      then show "joined st1 x y \<or> pend st1 ?c x y"
        using d(3) merged_mono[OF mg(5,6), of y] unfolding merged_joined[OF mg(5,4)] by auto
    qed
    then show "comp_ok ?st ?c" unfolding comp_shape[OF sh] .
    show "\<And>q s. lockSets ?st q = Some s \<Longrightarrow> set_ok (waits (pcs st) q) (got (pcs st) q) (heldIn (plockSet st) (held st) q) (recAt ?c = Some q) True s"
      using mg(8) by simp
  qed (use g rs store_goto[OF mg(2)] in simp_all)
  then show ?thesis using mg(1) by simp
qed

lemma put_merge_ok:
  assumes ok: "lk_ok st" and g: "globalLock st = Some t" "pcs st t = PutMerge a b"
  shows "\<exists>st'. map_option (goto t PutEnd) (dbLockSetMerge a b st) = Some st' \<and> step_ok t st st'"
proof -
  have ph: "phase st = PutMerge a b" "assigned st" "recLocked st a" "recLocked st b" "(a, b) \<in> edges (links st)" "plockSet st b \<noteq> None" "comp_ok st (PutMerge a b)"
    using phaseD[OF ok g] by auto
  obtain p st1 where mg: "dbLockSetMerge a b st = Some st1" "store_ok st1" "rest st1 = rest st" "lset st a = Some p \<or> lset st b = Some p"
     "plockSet st1 = (\<lambda>r. if inEither st a b r then Some (Some p) else plockSet st r)" "stable st st1"
     "\<forall>q s. lockSets st1 q = Some s \<longrightarrow> set_ok (waits (pcs st) q) (got (pcs st) q) (heldIn (plockSet st) (held st) q) False True s"
    using merge_step[OF ok g(1) _ ph(3,6)] ph(1,4) by auto
  have rs: "globalLock st1 = globalLock st" "links st1 = links st" "pcs st1 = pcs st" "held st1 = held st" using mg(3) by (simp_all add: rest_def)
  let ?st = "goto t PutEnd st1"
  have sh: "shape ?st = shape st1" by (simp add: shape_def)
  have "step_ok t st ?st"
  proof (rule put_step[OF ok g(1), where c = PutEnd])
    show "stable st ?st" using mg(6) by (simp add: stable_def)
    have "put_ok st1 PutEnd" using ph(2) merged_none[OF mg(5)] unfolding assigned_def put_ok.simps by blast
    then show "put_ok ?st PutEnd" unfolding put_shape[OF sh] .
    have "comp_ok st1 PutEnd"
      unfolding comp_ok_def rs(2)
    proof (intro conjI allI impI)
      show "sound (edges (links st)) st1"
        by (rule sound_merged[OF _ conn_edge[OF ph(5)] mg(5,4)]) (use ph(7) in \<open>simp add: comp_ok_def\<close>)
      fix x y assume xy: "(x, y) \<in> edges (links st)"
      then have d: "plockSet st x \<noteq> None" "plockSet st y \<noteq> None" "joined st x y \<or> pend st (PutMerge a b) x y" using ph(7) by (auto simp: comp_ok_def)
      then show "plockSet st1 x \<noteq> None" "plockSet st1 y \<noteq> None" using mg(6) by (auto simp: stable_def)
      have "inEither st a b a" "inEither st a b b" by (simp_all add: inEither_def)
      then show "joined st1 x y \<or> pend st1 PutEnd x y" using d(3) unfolding merged_joined[OF mg(5,4)] by auto
    qed
    then show "comp_ok ?st PutEnd" unfolding comp_shape[OF sh] .
    show "\<And>q s. lockSets ?st q = Some s \<Longrightarrow> set_ok (waits (pcs st) q) (got (pcs st) q) (heldIn (plockSet st) (held st) q) (recAt PutEnd = Some q) True s"
      using mg(7) by simp
  qed (use g rs store_goto[OF mg(2)] in simp_all)
  then show ?thesis using mg(1) by simp
qed

end
