(* ===== verification/DbLockSafe.thy ===== *)
theory DbLockSafe
  imports DbLockLinks
begin

text \<open>Every step of every thread returns and keeps the invariant, so it holds in all reachable states.\<close>

section \<open>The remaining steps of changing a link\<close>

lemma split_record_ok:
  assumes ok: "lk_ok st" and g: "globalLock st = Some t" "pcs st t = PutSplit [] (x # rs) r k new"
  shows "\<exists>st1. splitRecord t x st = Some st1 \<and> step_ok t st (goto t (PutSplit (linkMerges x st1) rs r k new) st1)"
proof -
  let ?old = "PutSplit [] (x # rs) r k new"
  have ph: "phase st = ?old" "\<And>y. plockSet st y = Some None \<Longrightarrow> y = x \<or> y \<in> set rs"
      "\<And>y. y = x \<or> y \<in> set rs \<Longrightarrow> plockSet st y \<noteq> None \<and> (lset st y = None \<or> recLocked st y)"
      "r = x \<or> r \<in> set rs \<or> recLocked st r" "freeField st r k" "fieldOk st r k" "targetOk st new" "comp_ok st ?old"
    using phaseD[OF ok g] by auto
  note d = lk_okD[OF ok]
  obtain st1 where s1: "splitRecord t x st = Some st1" "store_ok st1" "rest st1 = rest st" "stable st st1" "recLocked st1 x"
     "\<And>y. y \<noteq> x \<Longrightarrow> plockSet st1 y = plockSet st y" "\<And>y. recLocked st y \<Longrightarrow> recLocked st1 y" "sound (edges (links st)) st1"
     "\<And>a b. joined st a b \<Longrightarrow> joined st1 a b"
     "\<And>q s. lockSets st1 q = Some s \<Longrightarrow> set_ok (waits (pcs st) q) (got (pcs st) q) (heldIn (plockSet st) (held st) q) False True s"
  proof (cases "lset st x")
    case None
    then have x: "plockSet st x = Some None" using ph(3)[of x] by (auto simp: lset_def)
    obtain p s st1 where a: "allocLockSet x listTypeRecordLock lockSetStateRecordLock (Some t) st = Some st1" "store_ok st1" "rest st1 = rest st"
       "plockSet st1 = (plockSet st)(x \<mapsto> Some p)" "lockSets st1 = (lockSets st)(p \<mapsto> s)"
       "proto s = (case lockSets st p of None \<Rightarrow> None | Some s0 \<Rightarrow> lock s0, lockSetStateRecordLock, Some t, 0, 0)"
       "ls_type s = listTypeRecordLock" "\<forall>s0. lockSets st p = Some s0 \<longrightarrow> ls_type s0 = listTypeFree"
      using alloc_ok[OF d(1) x, of listTypeRecordLock lockSetStateRecordLock "Some t"] by auto
    have f: "\<And>y. lset st y \<noteq> Some p" by (rule alloc_fresh[OF d(1) a(8)])
    have none: "waits (pcs st) p = {} \<and> heldIn (plockSet st) (held st) p u = 0 \<and> lock s = None" for u
    proof -
      have w: "v \<notin> waits (pcs st) p" for v
      proof
        assume "v \<in> waits (pcs st) p"
        then obtain y where "args_ok st (ScanWait y p) \<or> args_ok st (ScanGot y p)"
          using scan_args[OF ok, of v] by (cases "pcs st v") (auto simp: waits_def)
        then show False using f[of y] by (auto simp: lset_Some)
      qed
      have h: "heldIn (plockSet st) (held st) p u = 0" using f by (auto simp: heldIn_def filter_empty_conv lset_Some)
      have "lock s = None"
      proof (cases "lockSets st p")
        case None
        then show ?thesis using a(6) by (simp add: proto_def)
      next
        case (Some s0)
        then have t0: "ls_type s0 = listTypeFree" using a(8) by simp
        note e = set_okD[OF set_at[OF d(2) Some]]
        have "nRecursion s0 = 0" using e(12) t0 by simp
        moreover have "got (pcs st) p = {}" using w got_waits by blast
        ultimately have "lock s0 = None" using e(5) by (cases "lock s0") auto
        then show ?thesis using a(6) Some by (simp add: proto_def)
      qed
      then show ?thesis using w h by blast
    qed
    then have gz: "got (pcs st) p = {}" using got_waits by blast
    have so: "set_ok (waits (pcs st) p) (got (pcs st) p) (heldIn (plockSet st) (held st) p) False True s"
      using none gz a(6,7) by (simp add: set_ok_def proto_def)
    have rl: "recLocked st1 y" if y: "recLocked st y" for y
    proof -
      obtain q where q: "lset st y = Some q" "tyOf st q = Some listTypeRecordLock" using y by (auto simp: recLocked_def)
      then have "q \<noteq> p" "y \<noteq> x" using f[of y] None by auto
      then show ?thesis using q a(4,5) by (auto simp: recLocked_def tyOf_def lset_def)
    qed
    show ?thesis
    proof (rule that[of st1])
      show "splitRecord t x st = Some st1" using x a(1) by (simp add: splitRecord_def)
      show "stable st st1" using a(3,4) x by (auto simp: stable_def rest_def)
      show "recLocked st1 x" using a(4,5,7) by (simp add: recLocked_def tyOf_def lset_def)
      show "sound (edges (links st)) st1" by (rule sound_alloc[OF _ x a(4) f]) (use ph(8) in \<open>simp add: comp_ok_def\<close>)
      show "\<And>u v. joined st u v \<Longrightarrow> joined st1 u v" unfolding alloc_joined[OF x a(4) f] by simp
      fix q z assume z: "lockSets st1 q = Some z"
      show "set_ok (waits (pcs st) q) (got (pcs st) q) (heldIn (plockSet st) (held st) q) False True z"
      proof (cases "q = p")
        case True
        then show ?thesis using so z a(5) by simp
      next
        case False
        then have "lockSets st q = Some z" using z a(5) by simp
        then show ?thesis using set_at_put[OF ok g(1)] ph(1) by simp
      qed
    qed (use a rl in simp_all)
  next
    case (Some p)
    then have x: "plockSet st x = Some (Some p)" "recLocked st x" using ph(3)[of x] by (simp_all add: lset_Some[symmetric])
    show ?thesis
    proof (rule that[of st])
      show "splitRecord t x st = Some st" using x by (simp add: splitRecord_def)
      show "sound (edges (links st)) st" using ph(8) by (simp add: comp_ok_def)
      show "\<And>q s. lockSets st q = Some s \<Longrightarrow> set_ok (waits (pcs st) q) (got (pcs st) q) (heldIn (plockSet st) (held st) q) False True s"
        using set_at_put[OF ok g(1)] ph(1) by simp
    qed (use d(1) x in \<open>simp_all add: stable_def\<close>)
  qed
  have rs: "globalLock st1 = globalLock st" "links st1 = links st" "pcs st1 = pcs st" "held st1 = held st" using s1(3) by (simp_all add: rest_def)
  let ?ms = "linkMerges x st1"
  let ?c = "PutSplit ?ms rs r k new"
  let ?st = "goto t ?c st1"
  have sh: "shape ?st = shape st1" by (simp add: shape_def)
  have mono: "lset st1 y = None \<or> recLocked st1 y" if "lset st y = None \<or> recLocked st y" for y
    using that s1(5,7) s1(6)[of y] by (cases "y = x") (auto simp: lset_def)
  have target: "lset st b = None \<or> recLocked st b" if "(x, b) \<in> edges (links st)" for b
  proof -
    have "joined st x b \<or> pend st ?old x b" using ph(8) that unfolding comp_ok_def by blast
    then show ?thesis
    proof
      assume j: "joined st x b"
      then have "recLocked st x" using ph(3)[of x] joined_lset[OF j] by blast
      then show ?thesis using j by (auto simp: recLocked_def joined_def)
    qed simp
  qed
  have "step_ok t st ?st"
  proof (rule put_step[OF ok g(1), where c = ?c])
    show "stable st ?st" using s1(4) by (simp add: stable_def)
    have "args_ok st (PutSplit ?ms rs r k new)" using ph(6,7) by simp
    then show "args_ok ?st ?c" by (rule args_cong[rotated 3]) (use s1(4) in \<open>simp_all add: stable_def\<close>)
    have "y \<in> set rs" if y: "plockSet st1 y = Some None" for y
    proof -
      have "y \<noteq> x" using y s1(5) by (auto simp: recLocked_def lset_def)
      then show ?thesis using ph(2)[of y] s1(6)[of y] y by auto
    qed
    moreover have "plockSet st1 y \<noteq> None \<and> (lset st1 y = None \<or> recLocked st1 y)" if "y \<in> set rs" for y
      using ph(3)[of y] mono[of y] that s1(4) by (simp add: stable_def)
    moreover have "splitMerge st1 m" if mm: "m \<in> set ?ms" for m
    proof -
      obtain b where b: "m = (x, b)" "(x, b) \<in> edges (links st)" using mm rs(2) by (auto simp: set_linkMerges)
      show ?thesis using b s1(5) mono[OF target[OF b(2)]] rs(2) by (simp add: splitMerge_def)
    qed
    moreover have "r \<in> set rs \<or> recLocked st1 r" using ph(4) s1(5,7) by blast
    moreover have "freeField st1 r k" using ph(5) rs(2) by (simp add: freeField_def)
    ultimately have "put_ok st1 ?c" by simp
    then show "put_ok ?st ?c" unfolding put_shape[OF sh] .
    have "comp_ok st1 ?c"
      unfolding comp_ok_def rs(2)
    proof (intro conjI allI impI)
      show "sound (edges (links st)) st1" by (rule s1(8))
      fix a b assume ab: "(a, b) \<in> edges (links st)"
      then have e: "plockSet st a \<noteq> None" "plockSet st b \<noteq> None" "joined st a b \<or> pend st ?old a b" using ph(8) by (auto simp: comp_ok_def)
      then show "plockSet st1 a \<noteq> None" "plockSet st1 b \<noteq> None" using s1(4) by (auto simp: stable_def)
      show "joined st1 a b \<or> pend st1 ?c a b"
      proof (cases "a = x")
        case True
        then show ?thesis using ab rs(2) by (simp add: set_linkMerges)
      next
        case False
        then show ?thesis using e(3) s1(9) mono[of b] by auto
      qed
    qed
    then show "comp_ok ?st ?c" unfolding comp_shape[OF sh] .
    show "\<And>q s. lockSets ?st q = Some s \<Longrightarrow> set_ok (waits (pcs st) q) (got (pcs st) q) (heldIn (plockSet st) (held st) q) (recAt ?c = Some q) True s"
      using s1(10) by simp
  qed (use g rs store_goto[OF s1(2)] in simp_all)
  then show ?thesis using s1(1) by blast
qed

lemma split_done_ok:
  assumes ok: "lk_ok st" and g: "globalLock st = Some t" "pcs st t = PutSplit [] [] r k new"
  shows "step_ok t st (goto t (PutNew r k new) st)"
proof -
  have ph: "put_ok st (PutSplit [] [] r k new)" "comp_ok st (PutSplit [] [] r k new)" "args_ok st (PutSplit [] [] r k new)" using phaseD[OF ok g] by blast+
  show ?thesis by (rule put_goto[OF ok g]) (use ph in \<open>simp_all add: assigned_def comp_ok_def\<close>)
qed

lemma new_ok:
  assumes ok: "lk_ok st" and g: "globalLock st = Some t" "pcs st t = PutNew r k new"
  shows "step_ok t st (putNew t r k new st)"
proof -
  have ph: "phase st = PutNew r k new" "assigned st" "recLocked st r" "freeField st r k" "fieldOk st r k" "targetOk st new" "comp_ok st (PutNew r k new)"
    using phaseD[OF ok g] by simp_all
  show ?thesis
  proof (cases new)
    case None
    have "comp_ok st PutEnd" using ph(7) by (simp add: comp_ok_def)
    then have "step_ok t st (goto t PutEnd st)" by (intro put_goto[OF ok g]) (use ph in simp_all)
    then show ?thesis using None by (simp add: putNew_def)
  next
    case (Some x)
    let ?c = "PutDst r x"
    let ?lks = "(links st)(r := (links st r)[k := Some x])"
    let ?st = "goto t ?c (st\<lparr>links := ?lks\<rparr>)"
    have k: "k < length (links st r)" "links st r ! k = None" using ph(4,5) by (simp_all add: fieldOk_def freeField_def)
    have E: "edges ?lks = insert (r, x) (edges (links st))"
    proof (intro equalityI subsetI)
      fix e assume "e \<in> edges ?lks"
      then show "e \<in> insert (r, x) (edges (links st))" using k
        by (cases e) (auto simp: edges_def set_conv_nth nth_list_update split: if_splits)
    next
      fix e assume e: "e \<in> insert (r, x) (edges (links st))"
      show "e \<in> edges ?lks"
      proof (cases "e = (r, x)")
        case True
        have "Some x \<in> set ((links st r)[k := Some x])" using k(1) by (rule set_update_memI)
        then show ?thesis using True by (simp add: edges_def)
      next
        case False
        then obtain a b where ab: "e = (a, b)" "Some b \<in> set (links st a)" using e by (cases e) (auto simp: edges_def)
        show ?thesis
        proof (cases "a = r")
          case True
          then obtain i where i: "i < length (links st r)" "links st r ! i = Some b" using ab by (auto simp: in_set_conv_nth)
          then have "i \<noteq> k" using k(2) by auto
          then have "(links st r)[k := Some x] ! i = Some b" using i by simp
          then have "Some b \<in> set ((links st r)[k := Some x])" using i(1) by (metis length_list_update nth_mem)
          then show ?thesis using ab(1) True by (simp add: edges_def)
        next
          case False
          then show ?thesis using ab by (simp add: edges_def)
        qed
      qed
    qed
    have j: "joined ?st = joined st" by (rule joined_cong) simp
    have "step_ok t st ?st"
    proof (rule put_step[OF ok g(1), where c = ?c])
      show "store_ok ?st" by (rule store_cong[OF lk_okD(1)[OF ok]]) simp_all
      show "stable st ?st" by (simp add: stable_def)
      show "args_ok ?st ?c" using ph(5,6) Some by (simp add: fieldOk_def targetOk_def)
      have "recLocked ?st r" using ph(3) by (simp add: recLocked_def lset_def tyOf_def)
      then show "put_ok ?st ?c" using ph(2) E by (simp add: assigned_def)
      show "comp_ok ?st ?c"
        unfolding comp_ok_def
      proof (intro conjI allI impI)
        have "edges (links st) \<subseteq> edges (links ?st)" using E by auto
        then show "sound (edges (links ?st)) ?st" using ph(7) conn_mono unfolding sound_def j comp_ok_def by blast
        fix a b assume "(a, b) \<in> edges (links ?st)"
        then have ab: "(a, b) = (r, x) \<or> (a, b) \<in> edges (links st)" using E by simp
        then show "plockSet ?st a \<noteq> None" "plockSet ?st b \<noteq> None"
          using ph(5,6,7) Some by (auto simp: comp_ok_def fieldOk_def targetOk_def)
        show "joined ?st a b \<or> pend ?st ?c a b" using ab ph(7) unfolding j by (auto simp: comp_ok_def)
      qed
      show "\<And>q s. lockSets ?st q = Some s \<Longrightarrow> set_ok (waits (pcs st) q) (got (pcs st) q) (heldIn (plockSet st) (held st) q) (recAt ?c = Some q) True s"
        using set_at_put[OF ok g(1)] ph(1) by simp
    qed (use g in simp_all)
    then show ?thesis using Some by (simp add: putNew_def)
  qed
qed

section \<open>All steps\<close>

lemma assigned_set: "assigned st \<Longrightarrow> plockSet st r \<noteq> None \<Longrightarrow> \<exists>p. lset st r = Some p"
  unfolding assigned_def lset_Some by (metis option.exhaust)

lemma lockStep_ok:
  assumes ok: "lk_ok st" and rd: "ready t st"
  shows "\<exists>st'. lockStep t st = Some st' \<and> step_ok t st st'"
proof -
  note d = lk_okD[OF ok]
  have g: "globalLock st = Some t" if "putting (pcs st t)" using turnD(1)[OF d(3), of t] that by simp
  show ?thesis
  proof (cases "pcs st t")
    case Idle
    then show ?thesis using rd by (simp add: ready_def)
  next
    case (Scan r)
    then show ?thesis using scan_head[OF ok] by (simp add: lockStep_def)
  next
    case (ScanWait r p)
    then show ?thesis using mutex_ok[OF ok] rd by (simp add: lockStep_def ready_def)
  next
    case (ScanGot r p)
    then show ?thesis using resume_ok[OF ok] by (simp add: lockStep_def)
  next
    case (ScanGlobal r)
    have "step_ok t st (goto t (Scan r) st)" by (rule pc_step[OF ok]) (use ScanGlobal scan_args[OF ok, of t] in simp_all)
    then show ?thesis using ScanGlobal by (simp add: lockStep_def)
  next
    case (PutGlobal r k a)
    have "globalLock st = None" using rd PutGlobal by (simp add: ready_def)
    then show ?thesis using gbl_ok[OF ok PutGlobal] PutGlobal by (simp add: lockStep_def)
  next
    case (PutRec r k a)
    then have gt: "globalLock st = Some t" using g by simp
    have ph: "put_ok st (PutRec r k a)" "comp_ok st (PutRec r k a)" "args_ok st (PutRec r k a)" using phaseD[OF ok gt PutRec] by simp_all
    obtain p where p: "lset st r = Some p" using ph(1,3) assigned_set[of st r] by (auto simp: fieldOk_def)
    have "\<exists>st'. dbLockSetRecordLock t r (PutOld r k a) (PutRecWait r k a) st = Some st' \<and> step_ok t st st'"
    proof (rule rec_ok[OF ok gt PutRec _ p])
      show "recLocked st r \<Longrightarrow> putting (PutOld r k a) \<and> args_ok st (PutOld r k a) \<and> put_ok st (PutOld r k a) \<and> comp_ok st (PutOld r k a)"
        using ph by (simp add: comp_ok_def)
      fix st' :: dblock assume s: "plockSet st' = plockSet st" "links st' = links st" "tyOf st' = tyOf st" "waitOk st' r p"
      show "put_ok st' (PutRecWait r k a p)" using ph(1) s weak_eqs(4,5)[OF s(1-3)] by simp
    qed (use ph in \<open>simp_all add: comp_ok_def\<close>)
    then show ?thesis using PutRec by (simp add: lockStep_def)
  next
    case (PutRecWait r k a p)
    then have gt: "globalLock st = Some t" using g by simp
    have ph: "put_ok st (PutRecWait r k a p)" "comp_ok st (PutRecWait r k a p)" "args_ok st (PutRecWait r k a p)" using phaseD[OF ok gt PutRecWait] by simp_all
    have "step_ok t st (goto t (PutRecCheck r k a p) st)" by (rule put_goto[OF ok gt PutRecWait]) (use ph in \<open>simp_all add: comp_ok_def\<close>)
    then show ?thesis using PutRecWait by (simp add: lockStep_def)
  next
    case (PutRecCheck r k a p)
    then have gt: "globalLock st = Some t" using g by simp
    have ph: "put_ok st (PutRecCheck r k a p)" "comp_ok st (PutRecCheck r k a p)" "args_ok st (PutRecCheck r k a p)" using phaseD[OF ok gt PutRecCheck] by simp_all
    have w: "waitOk st r p" using ph(1) by simp
    have "\<exists>st'. recordLockCheck t p (PutOld r k a) (PutRecWait r k a) st = Some st' \<and> step_ok t st st'"
    proof (rule check_ok[OF ok gt PutRecCheck _ w])
      fix st' :: dblock assume s: "plockSet st' = plockSet st" "recLocked st' r"
      then show "put_ok st' (PutOld r k a)" using ph(1) by (simp add: assigned_def)
    qed (use ph in \<open>simp_all add: comp_ok_def\<close>)
    then show ?thesis using PutRecCheck by (simp add: lockStep_def)
  next
    case (PutOld r k a)
    then show ?thesis using old_ok[OF ok _ PutOld] g by (simp add: lockStep_def)
  next
    case (PutSplit ms rs r k new)
    then have gt: "globalLock st = Some t" using g by simp
    show ?thesis
    proof (cases ms)
      case Nil
      show ?thesis
      proof (cases rs)
        case Nil
        then show ?thesis using split_done_ok[OF ok gt] PutSplit \<open>ms = []\<close> by (simp add: lockStep_def)
      next
        case (Cons x rs')
        then show ?thesis using split_record_ok[OF ok gt, of x rs' r k new] PutSplit \<open>ms = []\<close> by (auto simp: lockStep_def)
      qed
    next
      case (Cons m ms')
      then show ?thesis using split_merge_ok[OF ok gt, of "fst m" "snd m" ms' rs r k new] PutSplit by (cases m) (simp add: lockStep_def)
    qed
  next
    case (PutNew r k new)
    then show ?thesis using new_ok[OF ok _ PutNew] g by (simp add: lockStep_def)
  next
    case (PutDst r x)
    then have gt: "globalLock st = Some t" using g by simp
    have ph: "put_ok st (PutDst r x)" "comp_ok st (PutDst r x)" "args_ok st (PutDst r x)" using phaseD[OF ok gt PutDst] by simp_all
    obtain p where p: "lset st x = Some p" using ph(1,3) assigned_set[of st x] by auto
    have "\<exists>st'. dbLockSetRecordLock t x (PutMerge r x) (PutDstWait r x) st = Some st' \<and> step_ok t st st'"
    proof (rule rec_ok[OF ok gt PutDst _ p])
      show "recLocked st x \<Longrightarrow> putting (PutMerge r x) \<and> args_ok st (PutMerge r x) \<and> put_ok st (PutMerge r x) \<and> comp_ok st (PutMerge r x)"
        using ph by (simp add: comp_ok_def)
      fix st' :: dblock assume s: "plockSet st' = plockSet st" "links st' = links st" "tyOf st' = tyOf st" "waitOk st' x p"
      show "put_ok st' (PutDstWait r x p)" using ph(1) s weak_eqs(3,5)[OF s(1-3)] by simp
    qed (use ph in \<open>simp_all add: comp_ok_def\<close>)
    then show ?thesis using PutDst by (simp add: lockStep_def)
  next
    case (PutDstWait r x p)
    then have gt: "globalLock st = Some t" using g by simp
    have ph: "put_ok st (PutDstWait r x p)" "comp_ok st (PutDstWait r x p)" "args_ok st (PutDstWait r x p)" using phaseD[OF ok gt PutDstWait] by simp_all
    have "step_ok t st (goto t (PutDstCheck r x p) st)" by (rule put_goto[OF ok gt PutDstWait]) (use ph in \<open>simp_all add: comp_ok_def\<close>)
    then show ?thesis using PutDstWait by (simp add: lockStep_def)
  next
    case (PutDstCheck r x p)
    then have gt: "globalLock st = Some t" using g by simp
    have ph: "put_ok st (PutDstCheck r x p)" "comp_ok st (PutDstCheck r x p)" "args_ok st (PutDstCheck r x p)" using phaseD[OF ok gt PutDstCheck] by simp_all
    have w: "waitOk st x p" using ph(1) by simp
    have "\<exists>st'. recordLockCheck t p (PutMerge r x) (PutDstWait r x) st = Some st' \<and> step_ok t st st'"
    proof (rule check_ok[OF ok gt PutDstCheck _ w])
      fix st' :: dblock assume s: "plockSet st' = plockSet st" "links st' = links st" "tyOf st' = (tyOf st)(p \<mapsto> listTypeRecordLock)" "recLocked st' x"
      have "recLocked st' r" using ph(1) s(1,3) by (auto simp: recLocked_def lset_def)
      then show "put_ok st' (PutMerge r x)" using ph(1) s by (simp add: assigned_def)
    qed (use ph in \<open>simp_all add: comp_ok_def\<close>)
    then show ?thesis using PutDstCheck by (simp add: lockStep_def)
  next
    case (PutMerge r x)
    then show ?thesis using put_merge_ok[OF ok _ PutMerge] g by (simp add: lockStep_def)
  next
    case PutEnd
    then show ?thesis using end_ok[OF ok _ PutEnd] g by (simp add: lockStep_def)
  qed
qed

text \<open>The thread of an operation.\<close>

fun threadOf :: "lkop \<Rightarrow> addr" where
  "threadOf (KScanLock t r) = t"
| "threadOf (KScanUnlock t r) = t"
| "threadOf (KPut t r k a) = t"
| "threadOf (KStep t) = t"
| "threadOf (KProbe t p) = t"
| "threadOf (KProbeEnd t p) = t"

lemma lkExec_ok:
  assumes ok: "lk_ok st" and f: "lkFits one op st"
  shows "\<exists>st'. lkExec op st = Some st' \<and> step_ok (threadOf op) st st'"
proof (cases op)
  case (KScanLock t r)
  have "step_ok t st (goto t (Scan r) st)" by (rule pc_step[OF ok]) (use f KScanLock in simp_all)
  then show ?thesis using KScanLock by simp
next
  case (KScanUnlock t r)
  then show ?thesis using unlock_ok[OF ok] f by simp
next
  case (KPut t r k a)
  have "planOk st a \<and> fieldOk st r k" using f KPut by (auto simp: planOk_def targetOk_def fieldOk_def split: option.splits)
  then have "step_ok t st (goto t (PutGlobal r k a) st)" by (intro pc_step[OF ok]) (use f KPut in simp_all)
  then show ?thesis using KPut by simp
next
  case (KStep t)
  then show ?thesis using lockStep_ok[OF ok] f by simp
qed (use f in simp_all)

section \<open>The start\<close>

lemma start_ok:
  assumes g: "goodDb rs named lks" and i: "dbLockInitRecords rs named lks = Some st"
  shows "lk_ok st"
proof -
  have E: "namedEdges rs named lks = edges lks"
  proof
    show "edges lks \<subseteq> namedEdges rs named lks"
    proof
      fix e assume e: "e \<in> edges lks"
      obtain a b where ab: "e = (a, b)" by (cases e)
      have "lks a \<noteq> []" using e ab by (auto simp: edges_def)
      then have "a \<in> set rs" "named a" using g by (auto simp: goodDb_def)
      then show "e \<in> namedEdges rs named lks" using e ab by (simp add: namedEdges_def)
    qed
  qed (auto simp: namedEdges_def)
  have tgt: "\<And>r x. (r, x) \<in> namedEdges rs named lks \<Longrightarrow> x \<in> set rs" using g by (auto simp: namedEdges_def edges_def goodDb_def)
  obtain st0 where s: "dbLockInitRecords rs named lks = Some st0" "init_ok (set rs) (namedEdges rs named lks) lks st0"
     "\<forall>r \<in> set rs. named r \<longrightarrow> lset st0 r \<noteq> None"
     "\<forall>a b. lset st0 a \<noteq> None \<longrightarrow> joined st0 a b \<longleftrightarrow> (a, b) \<in> conn (namedEdges rs named lks)"
    using init_partition[of rs named lks] tgt by blast
  have st: "st0 = st" using s(1) i by simp
  note d = init_okD[OF s(2)[unfolded st E]]
  have "\<forall>r \<in> set rs. named r" using g by (simp add: goodDb_def)
  then have nn: "\<forall>r \<in> set rs. lset st r \<noteq> None" using s(3) st by blast
  have rs: "globalLock st = None" "links st = lks" "pcs st = (\<lambda>_. Idle)" "held st = (\<lambda>_. [])" using d(5) by (simp_all add: rest_def)
  have ph: "phase st = Idle" using rs by (simp add: phase_def)
  have "sets_ok st"
    unfolding sets_ok_def
  proof (intro allI impI)
    fix p s assume p: "lockSets st p = Some s"
    have "proto s = (None, lockSetStateFree, None, 0, 0)" "ls_type s \<noteq> listTypeRecordLock" using unlockedD[OF d(2) p] by simp_all
    moreover have "waits (pcs st) p = {}" "got (pcs st) p = {}" using rs by (simp_all add: waits_def got_def)
    moreover have "heldIn (plockSet st) (held st) p t = 0" for t using rs by (simp add: heldIn_def)
    ultimately show "set_ok (waits (pcs st) p) (got (pcs st) p) (heldIn (plockSet st) (held st) p) (recAt (phase st) = Some p) (globalLock st \<noteq> None) s"
      by (simp add: set_ok_def proto_def split: listType.splits)
  qed
  moreover have "turn_ok st" using rs by (simp add: turn_ok_def)
  moreover have "noRec st" using unlockedD[OF d(2)] by (auto simp: noRec_def tyOf_def)
  moreover have "assigned st"
    unfolding assigned_def
  proof (intro allI notI)
    fix r assume r: "plockSet st r = Some None"
    then have "r \<in> set rs" using d(4) by auto
    then have "lset st r \<noteq> None" using nn by simp
    then show False using r by (simp add: lset_def)
  qed
  moreover have "comp_ok st Idle"
    unfolding comp_ok_def rs(2)
  proof (intro conjI allI impI)
    show "sound (edges lks) st" by (rule d(3))
    fix a b assume ab: "(a, b) \<in> edges lks"
    then have ne: "(a, b) \<in> namedEdges rs named lks" unfolding E .
    have in_rs: "a \<in> set rs" "b \<in> set rs" using ne tgt[OF ne] by (simp_all add: namedEdges_def)
    then show "plockSet st a \<noteq> None" "plockSet st b \<noteq> None" using dom_Some[OF d(4)] by blast+
    have "lset st a \<noteq> None" using nn in_rs(1) by simp
    then show "joined st a b \<or> pend st Idle a b" using s(4) conn_edge[OF ab] st E by simp
  qed
  ultimately show ?thesis using d(1) by (simp add: lk_ok_def ph)
qed

theorem lk_reach_ok: "lk_reach one st \<Longrightarrow> lk_ok st"
proof (induction rule: lk_reach.induct)
  case (init rs named lks st)
  then show ?case by (rule start_ok)
next
  case (step st op st')
  then show ?case using lkExec_ok[of st one op] by (auto simp: step_ok_def)
qed

end
