(* ===== verification/DbLockProps.thy ===== *)
theory DbLockProps
  imports DbLockSafe
begin

text \<open>The properties of the lock sets, and a small database on which they are tried.\<close>

section \<open>A database\<close>

text \<open>Records 1 and 3 have a link field; record 1 has a link to record 2.\<close>

definition demoLinks :: "addr \<Rightarrow> ptr list" where
  "demoLinks r = (if r = 1 then [Some 2] else if r = 3 then [None] else [])"

definition lkRunDemo :: "lkop list \<Rightarrow> dblock option" where
  "lkRunDemo ops = do { st \<leftarrow> dbLockInitRecords [1, 2, 3] (\<lambda>_. True) demoLinks; lkRun ops st }"

fun lkMay :: "bool \<Rightarrow> lkop list \<Rightarrow> dblock \<Rightarrow> bool" where
  "lkMay one [] st \<longleftrightarrow> True"
| "lkMay one (op # ops) st \<longleftrightarrow> lkFits one op st \<and> (case lkExec op st of None \<Rightarrow> False | Some st' \<Rightarrow> lkMay one ops st')"

definition demoMay :: "bool \<Rightarrow> lkop list \<Rightarrow> bool" where
  "demoMay one ops = (case dbLockInitRecords [1, 2, 3] (\<lambda>_. True) demoLinks of None \<Rightarrow> False | Some st \<Rightarrow> lkMay one ops st)"

lemma lkRun_reach: "lk_reach one st \<Longrightarrow> lkMay one ops st \<Longrightarrow> \<exists>st'. lkRun ops st = Some st' \<and> lk_reach one st'"
proof (induction ops arbitrary: st)
  case (Cons op ops)
  then show ?case by (auto split: option.splits intro: lk_reach.step)
qed simp

lemma demoDb: "goodDb [1, 2, 3] (\<lambda>_. True) demoLinks"
  by (simp add: goodDb_def demoLinks_def)

text \<open>A run from the start that reaches a state with a given observation.\<close>

lemma lock_demo_state:
  assumes "demoMay one ops" "map_option f (lkRunDemo ops) = Some v"
  shows "\<exists>st. lk_reach one st \<and> lkRunDemo ops = Some st \<and> f st = v"
proof -
  obtain st0 where s: "dbLockInitRecords [1, 2, 3] (\<lambda>_. True) demoLinks = Some st0" "lkMay one ops st0"
    using assms(1) by (auto simp: demoMay_def split: option.splits)
  then have "lk_reach one st0" using lk_reach.init[OF demoDb] by blast
  then show ?thesis using lkRun_reach[OF _ s(2)] s(1) assms(2) by (auto simp: lkRunDemo_def)
qed

section \<open>Consequences of the invariant\<close>

text \<open>With the global lock free, and at the two places where a link changes, the sets are the components of the links.\<close>

lemma comp_conn:
  assumes c: "comp_ok st c" and p: "\<And>a b. \<not> pend st c a b" and a: "lset st a \<noteq> None"
  shows "joined st a b \<longleftrightarrow> (a, b) \<in> conn (edges (links st))"
proof
  show "joined st a b \<Longrightarrow> (a, b) \<in> conn (edges (links st))" using c by (simp add: comp_ok_def sound_def)
next
  have e: "joined st x y" if "(x, y) \<in> edges (links st)" for x y using c p that by (auto simp: comp_ok_def)
  assume ab: "(a, b) \<in> conn (edges (links st))"
  have "joined st a x \<longleftrightarrow> joined st a y" if "(x, y) \<in> edges (links st)" for x y using e[OF that] joined_sym joined_trans by blast
  from conn_closed[where P = "joined st a", OF ab this] show "joined st a b" using a by (simp add: joined_def)
qed

lemma no_pend: "globalLock st = None \<Longrightarrow> \<not> pend st (phase st) a b"
  by (simp add: phase_def)

lemma held_same_thread:
  assumes ok: "lk_ok st" and h: "r1 \<in> set (held st t1)" "r2 \<in> set (held st t2)" and j: "joined st r1 r2"
  shows "t1 = t2"
proof -
  obtain p1 s1 where 1: "plockSet st r1 = Some (Some p1)" "lockSets st p1 = Some s1" "thread_id s1 = Some t1" using held_scan[OF ok h(1)] by metis
  obtain p2 s2 where 2: "plockSet st r2 = Some (Some p2)" "lockSets st p2 = Some s2" "thread_id s2 = Some t2" using held_scan[OF ok h(2)] by metis
  have "p1 = p2" using j 1(1) 2(1) by (simp add: joined_def lset_def)
  then show ?thesis using 1 2 by simp
qed

lemma recLocked_not_held:
  assumes ok: "lk_ok st" and r: "recLocked st r" and h: "h \<in> set (held st u)"
  shows "\<not> joined st r h"
proof
  assume j: "joined st r h"
  obtain p where p: "lset st r = Some p" "tyOf st p = Some listTypeRecordLock" using r by (auto simp: recLocked_def)
  obtain q s where q: "plockSet st h = Some (Some q)" "lockSets st q = Some s" "ls_type s = listTypeScanLock" using held_scan[OF ok h] by metis
  have "q = p" using j p(1) q(1) by (simp add: joined_def lset_def)
  then show False using p(2) q(2,3) by (simp add: tyOf_def)
qed

section \<open>What a step changes\<close>

lemma record_keeps: "addRecord r p st = Some st' \<Longrightarrow> links st' = links st \<and> held st' = held st"
  by (auto simp: addRecord_def split: Option.bind_splits)

lemma move_keeps: "moveRecords p1 p2 rs st = Some st' \<Longrightarrow> links st' = links st \<and> held st' = held st"
proof (induction rs arbitrary: st)
  case (Cons r rs)
  then show ?case by (auto split: Option.bind_splits dest!: record_keeps)
qed simp

lemma merge_keeps: "dbLockSetMerge a b st = Some st' \<Longrightarrow> links st' = links st \<and> held st' = held st"
  unfolding dbLockSetMerge_def by (auto split: if_splits Option.bind_splits option.splits dest!: record_keeps move_keeps)

lemma alloc_keeps: "allocLockSet r ty s0 th st = Some st' \<Longrightarrow> links st' = links st \<and> held st' = held st"
  unfolding allocLockSet_def by (auto split: Option.bind_splits list.splits)

lemma split_keeps: "splitRecord t x st = Some st' \<Longrightarrow> links st' = links st \<and> held st' = held st"
  unfolding splitRecord_def by (auto split: if_splits Option.bind_splits dest!: alloc_keeps)

lemma release_keeps: "releaseSets ps st = Some st' \<Longrightarrow> links st' = links st \<and> held st' = held st"
proof (induction ps arbitrary: st)
  case (Cons p ps)
  then show ?case by (auto split: Option.bind_splits)
qed simp

lemma entered_keeps [simp]: "links (entered t r st) = links st" "held (entered t r st) = (held st)(t := r # held st t)"
    "pcs (entered t r st) = (pcs st)(t := Idle)" "plockSet (entered t r st) = plockSet st"
  by (simp_all add: entered_def)

lemma scan_keeps:
  "dbScanLock t r st = Some st' \<Longrightarrow> links st' = links st \<and> (held st' = held st \<or> held st' = (held st)(t := r # held st t) \<and> pcs st' t = Idle)"
  unfolding dbScanLock_def by (auto split: if_splits Option.bind_splits option.splits lockSetState.splits)

lemma resume_keeps:
  "scanResume t r p st = Some st' \<Longrightarrow> links st' = links st \<and> (held st' = held st \<or> held st' = (held st)(t := r # held st t) \<and> pcs st' t = Idle)"
  unfolding scanResume_def by (auto simp: Let_def split: if_splits Option.bind_splits)

lemma mutex_keeps: "takeMutex t p c st = Some st' \<Longrightarrow> links st' = links st \<and> held st' = held st"
  unfolding takeMutex_def by (auto split: if_splits Option.bind_splits)

lemma reclock_keeps: "dbLockSetRecordLock t r c w st = Some st' \<Longrightarrow> links st' = links st \<and> held st' = held st"
  unfolding dbLockSetRecordLock_def by (auto split: if_splits Option.bind_splits)

lemma reccheck_keeps: "recordLockCheck t p c w st = Some st' \<Longrightarrow> links st' = links st \<and> held st' = held st"
  unfolding recordLockCheck_def by (auto split: if_splits Option.bind_splits)

lemma unlock_keeps: "dbScanUnlock t r st = Some st' \<Longrightarrow>
   links st' = links st \<and> plockSet st' = plockSet st \<and> pcs st' = pcs st \<and> held st' = (held st)(t := remove1 r (held st t))"
  unfolding dbScanUnlock_def by (auto simp: Let_def split: if_splits Option.bind_splits)

lemmas step_keeps = merge_keeps split_keeps release_keeps scan_keeps resume_keeps mutex_keeps reclock_keeps reccheck_keeps

text \<open>Links change only at the two switches of \<open>dbPutFieldLink\<close>, what a thread holds only when \<open>dbScanLock\<close> returns.\<close>

lemma lockStep_links:
  assumes "lockStep t st = Some st'" "links st' r \<noteq> links st r"
  shows "(\<exists>k new. pcs st t = PutOld r k (Some new)) \<or> (\<exists>k new. pcs st t = PutNew r k new)"
proof (cases "pcs st t")
  case (PutOld r' k a)
  then have "putOld t r' k a st = Some st'" using assms(1) by (simp add: lockStep_def)
  then show ?thesis using assms(2) PutOld
    by (auto simp: putOld_def dbLockSetSplit_def split: option.splits if_splits Option.bind_splits)
next
  case (PutNew r' k new)
  then show ?thesis using assms by (auto simp: lockStep_def putNew_def split: option.splits if_splits)
next
  case (PutSplit ms rs r' k new)
  then show ?thesis using assms by (cases ms; cases rs) (auto simp: lockStep_def dest!: step_keeps)
qed (use assms in \<open>auto simp: lockStep_def dbLockSetGblUnlock_def dest!: step_keeps\<close>)

lemma lockStep_held:
  assumes "lockStep t st = Some st'" "\<not> putting (pcs st t)" "held st' \<noteq> held st"
  obtains r where "pcs st t = Scan r \<or> (\<exists>p. pcs st t = ScanGot r p)" "held st' = (held st)(t := r # held st t)" "pcs st' t = Idle"
proof (cases "pcs st t")
  case (Scan r)
  then show ?thesis using assms(1,3) that by (auto simp: lockStep_def dest!: step_keeps)
next
  case (ScanGot r p)
  then show ?thesis using assms(1,3) that by (auto simp: lockStep_def dest!: step_keeps)
qed (use assms in \<open>auto simp: lockStep_def dest!: step_keeps\<close>)

section \<open>Threads that hold records of one set\<close>

definition oneSet :: "dblock \<Rightarrow> addr \<Rightarrow> bool" where
  "oneSet st t \<longleftrightarrow> held st t = [] \<or> (\<exists>p. (\<forall>h \<in> set (held st t). lset st h = Some p)
     \<and> (pcs st t = Idle \<or> (\<exists>r. pcs st t = Scan r \<and> lset st r = Some p)))"

text \<open>A set in which records are held keeps its records.\<close>

lemma held_stable:
  assumes ok: "lk_ok st" and h: "h \<in> set (held st t)" "lset st h = Some p" and s: "stable st st'" and r: "lset st r = Some p"
  shows "lset st' r = Some p"
proof -
  obtain s where "plockSet st h = Some (Some p)" "lockSets st p = Some s" "ls_type s = listTypeScanLock"
    using held_scan[OF ok h(1)] h(2) by (metis lset_Some option.inject)
  then have "tyOf st p \<noteq> Some listTypeRecordLock" by (simp add: tyOf_def)
  then show ?thesis using s r by (simp add: stable_def lset_Some)
qed

lemma oneSet_keep:
  assumes ok: "lk_ok st" and o: "oneSet st t" and s: "stable st st'" and same: "pcs st' t = pcs st t" "set (held st' t) \<subseteq> set (held st t)"
  shows "oneSet st' t"
proof (cases "held st' t = []")
  case False
  then obtain p where p: "\<And>h. h \<in> set (held st t) \<Longrightarrow> lset st h = Some p"
    and c: "pcs st t = Idle \<or> (\<exists>r. pcs st t = Scan r \<and> lset st r = Some p)" using o same(2) by (auto simp: oneSet_def)
  obtain h where h: "h \<in> set (held st t)" using False same(2) by (cases "held st' t") auto
  have k: "lset st' r = Some p" if "lset st r = Some p" for r using held_stable[OF ok h p[OF h] s that] .
  then have "\<forall>h \<in> set (held st' t). lset st' h = Some p" using p same(2) by blast
  moreover have "pcs st' t = Idle \<or> (\<exists>r. pcs st' t = Scan r \<and> lset st' r = Some p)" using c k same(1) by auto
  ultimately show ?thesis by (auto simp: oneSet_def)
qed (simp add: oneSet_def)

text \<open>A thread that holds a record of the set gets the lock at once.\<close>

lemma recursive_lock:
  assumes ok: "lk_ok st" and h: "h \<in> set (held st t)" "lset st h = lset st r" and d: "dbScanLock t r st = Some st'"
  shows "plockSet st' = plockSet st \<and> held st' = (held st)(t := r # held st t) \<and> pcs st' t = Idle"
proof -
  obtain p s where p: "plockSet st h = Some (Some p)" "lockSets st p = Some s" "ls_type s = listTypeScanLock" "thread_id s = Some t" "0 < nRecursion s"
    using held_scan[OF ok h(1)] by metis
  then have r: "plockSet st r = Some (Some p)" using h(2) by (metis lset_Some)
  have so: "ls_state s = lockSetStateFree \<longrightarrow> nRecursion s = 0" using set_okD(8)[OF set_at[OF lk_okD(2)[OF ok] p(2)] p(3)] by blast
  show ?thesis using d r p so by (auto simp: dbScanLock_def split: lockSetState.splits)
qed

lemma oneSet_step:
  assumes ok: "lk_ok st" and o: "oneSet st t" and l: "lockStep t st = Some st'" and so: "step_ok t st st'"
  shows "oneSet st' t"
proof -
  have ok': "lk_ok st'" and s: "stable st st'" using so by (simp_all add: step_ok_def)
  show ?thesis
  proof (cases "held st t = []")
    case True
    show ?thesis
    proof (cases "putting (pcs st t) \<or> held st' = held st")
      case True
      then have "held st' t = []" using so \<open>held st t = []\<close> by (auto simp: step_ok_def)
      then show ?thesis by (simp add: oneSet_def)
    next
      case False
      then obtain r where r: "held st' = (held st)(t := r # held st t)" "pcs st' t = Idle" using lockStep_held[OF l] by metis
      then have h: "held st' t = [r]" using \<open>held st t = []\<close> by simp
      then obtain p where "lset st' r = Some p" using held_lset[OF ok', of r t] by auto
      then show ?thesis using h r(2) by (auto simp: oneSet_def)
    qed
  next
    case False
    obtain h where h: "h \<in> set (held st t)" using False by (cases "held st t") auto
    obtain p where p: "\<And>x. x \<in> set (held st t) \<Longrightarrow> lset st x = Some p"
      and c: "pcs st t = Idle \<or> (\<exists>r. pcs st t = Scan r \<and> lset st r = Some p)" using o False by (auto simp: oneSet_def)
    have "pcs st t \<noteq> Idle" using l by (auto simp: lockStep_def)
    then obtain r where r: "pcs st t = Scan r" "lset st r = Some p" using c by auto
    have d: "dbScanLock t r st = Some st'" using l r(1) by (simp add: lockStep_def)
    have e: "plockSet st' = plockSet st" "held st' = (held st)(t := r # held st t)" "pcs st' t = Idle"
      using recursive_lock[OF ok h _ d] p[OF h] r(2) by simp_all
    have "lset st' x = lset st x" for x using e(1) by (simp add: lset_def)
    then show ?thesis using e p r(2) by (auto simp: oneSet_def)
  qed
qed

lemma oneSet_exec:
  assumes ok: "lk_ok st" and o: "\<forall>t. oneSet st t" and f: "lkFits True op st" and x: "lkExec op st = Some st'"
  shows "oneSet st' t"
proof -
  have so: "step_ok (threadOf op) st st'" using lkExec_ok[OF ok f] x by auto
  have s: "stable st st'" using so by (simp add: step_ok_def)
  show ?thesis
  proof (cases "t = threadOf op")
    case False
    then have "pcs st' t = pcs st t" "held st' t = held st t" using so by (auto simp: step_ok_def)
    then show ?thesis using oneSet_keep[OF ok _ s] o by simp
  next
    case True
    show ?thesis
    proof (cases op)
      case (KScanLock u r)
      then have st': "st' = goto t (Scan r) st" using x True by simp
      have h: "lset st y = lset st r" if "y \<in> set (held st t)" for y using f KScanLock True that by (simp add: lset_def)
      show ?thesis
      proof (cases "held st t = []")
        case False
        then obtain p where p: "\<forall>y \<in> set (held st t). lset st y = Some p" using o unfolding oneSet_def by blast
        have "lset st r = Some p" using h[of "hd (held st t)"] p False by simp
        moreover have "lset st' = lset st" using st' by (simp add: lset_def fun_eq_iff)
        ultimately have "(\<forall>y \<in> set (held st' t). lset st' y = Some p) \<and> pcs st' t = Scan r \<and> lset st' r = Some p" using p st' by simp
        then show ?thesis unfolding oneSet_def by blast
      qed (simp add: st' oneSet_def)
    next
      case (KScanUnlock u r)
      then have "dbScanUnlock t r st = Some st'" using x True by simp
      then have "pcs st' t = pcs st t" "set (held st' t) \<subseteq> set (held st t)" using unlock_keeps[of t r st st'] by (auto dest: set_remove1_subset[THEN subsetD])
      then show ?thesis using oneSet_keep[OF ok _ s] o by simp
    next
      case (KPut u r k a)
      then show ?thesis using x f True by (auto simp: oneSet_def)
    next
      case (KStep u)
      then have "threadOf op = t" "lockStep t st = Some st'" using x True by simp_all
      then show ?thesis using oneSet_step[OF ok] o so by blast
    qed (use f in simp_all)
  qed
qed

lemma start_idle:
  assumes g: "goodDb rs named lks" and i: "dbLockInitRecords rs named lks = Some st"
  shows "rest st = (None, lks, \<lambda>_. Idle, \<lambda>_. [])"
proof -
  have t: "x \<in> set rs" if "(r, x) \<in> namedEdges rs named lks" for r x
    using that g unfolding namedEdges_def edges_def goodDb_def by blast
  obtain st0 where s: "dbLockInitRecords rs named lks = Some st0" "init_ok (set rs) (namedEdges rs named lks) lks st0"
    using init_partition[of rs named lks] t by blast
  have "st0 = st" using s(1) i by simp
  then show ?thesis using init_okD(5)[OF s(2)] by simp
qed

lemma oneSet_reach: "lk_reach True st \<Longrightarrow> \<forall>t. oneSet st t"
proof (induction rule: lk_reach.induct)
  case (init rs named lks st)
  then have "held st = (\<lambda>_. [])" using start_idle[OF init] by (simp add: rest_def)
  then show ?case by (simp add: oneSet_def)
next
  case (step st op st')
  show ?case using oneSet_exec[OF lk_reach_ok[OF step.hyps(1)] step.IH step.hyps(2,3)] by blast
qed

text \<open>A mutex that is taken belongs to a thread that can go on, or that holds a record and is in no call.\<close>

lemma mutex_owner:
  assumes ok: "lk_ok st" and o: "\<forall>t. oneSet st t" and s: "lockSets st p = Some s" "\<not> mutexFree p st"
  shows "\<exists>u. ready u st \<or> pcs st u = Idle \<and> held st u \<noteq> []"
proof -
  obtain u where u: "lock s = Some u" using s by (auto simp: mutexFree_def)
  note d = set_okD[OF set_at[OF lk_okD(2)[OF ok] s(1)]]
  consider "got (pcs st) p = {u}" | "0 < nRecursion s" "thread_id s = Some u" using d(5)[OF u] by blast
  then show ?thesis
  proof cases
    case 1
    then have "u \<in> got (pcs st) p" by blast
    then have "\<exists>r. pcs st u = ScanGot r p" by (cases "pcs st u") (simp_all add: got_def)
    then have "ready u st" by (auto simp: ready_def)
    then show ?thesis by blast
  next
    case 2
    then have "held st u \<noteq> []" using d(6)[of u] by (auto simp: heldIn_def)
    moreover from this have "pcs st u = Idle \<or> (\<exists>r. pcs st u = Scan r)" using o unfolding oneSet_def by blast
    moreover have "\<exists>r. pcs st u = Scan r \<Longrightarrow> ready u st" by (auto simp: ready_def)
    ultimately show ?thesis by blast
  qed
qed

text \<open>A run leaves the threads alone that do nothing in it.\<close>

lemma run_others:
  "lk_ok st \<Longrightarrow> lkMay one ops st \<Longrightarrow> lkRun ops st = Some st' \<Longrightarrow> u \<notin> threadOf ` set ops \<Longrightarrow> pcs st' u = pcs st u \<and> held st' u = held st u"
proof (induction ops arbitrary: st)
  case (Cons op ops)
  then obtain st1 where x: "lkFits one op st" "lkExec op st = Some st1" "lkMay one ops st1" "lkRun ops st1 = Some st'"
    by (auto split: option.splits)
  have so: "step_ok (threadOf op) st st1" using lkExec_ok[OF Cons.prems(1) x(1)] x(2) by auto
  have "pcs st' u = pcs st1 u \<and> held st' u = held st1 u"
    by (rule Cons.IH) (use so x(3,4) Cons.prems(4) in \<open>auto simp: step_ok_def\<close>)
  then show ?case using so Cons.prems(4) by (simp add: step_ok_def)
qed simp

lemma demo_others:
  assumes "demoMay one ops" "lkRunDemo ops = Some st" "u \<notin> threadOf ` set ops"
  shows "pcs st u = Idle \<and> held st u = []"
proof -
  obtain st0 where s: "dbLockInitRecords [1, 2, 3] (\<lambda>_. True) demoLinks = Some st0" "lkMay one ops st0" "lkRun ops st0 = Some st"
    using assms(1,2) by (auto simp: demoMay_def lkRunDemo_def split: option.splits)
  have "pcs st u = pcs st0 u \<and> held st u = held st0 u" by (rule run_others[OF start_ok[OF demoDb s(1)] s(2,3) assms(3)])
  then show ?thesis using start_idle[OF demoDb s(1)] by (simp add: rest_def)
qed

section \<open>Properties\<close>

text \<open>C24. Two threads never hold records of one lock set at the same time, whatever the other threads do, links being
  changed included; and unless a link is being changed, two records held by different threads are not
  connected by database links.\<close>
theorem lock_exclusion:
  assumes "lk_reach one st" "r1 \<in> set (held st t1)" "r2 \<in> set (held st t2)" "t1 \<noteq> t2"
  shows "\<not> joined st r1 r2 \<and> (globalLock st = None \<longrightarrow> (r1, r2) \<notin> conn (edges (links st)))"
proof -
  note ok = lk_reach_ok[OF assms(1)]
  have "\<not> joined st r1 r2" using held_same_thread[OF ok assms(2,3)] assms(4) by blast
  then show ?thesis using comp_conn[OF lk_okD(5)[OF ok] no_pend held_lset[OF ok assms(2)]] by blast
qed

lemma lock_exclusion_witness:
  "\<exists>st. lkRunDemo [KScanLock 10 1, KStep 10, KScanLock 20 3, KStep 20] = Some st \<and> (1, 3) \<notin> conn (edges (links st))"
proof -
  let ?a = "[KScanLock 10 1, KStep 10, KScanLock 20 3, KStep 20]"
  have m: "demoMay True ?a" by code_simp
  have "map_option (\<lambda>st. (held st 10, held st 20, globalLock st)) (lkRunDemo ?a) = Some ([1], [3], None)" by code_simp
  from lock_demo_state[OF m this] show ?thesis using lock_exclusion[of True _ 1 10 3 20] by auto
qed

text \<open>C28. No step fails, for any interleaving of threads that scan-lock records and change links: every call they may make and
  every step they can take returns, so no assertion of the lock routines fails, and the invariant of the lock sets holds
  again. \<open>lkFits\<close> asks of them: a thread is in one call at a time, names records that have a lock set, unlocks what it holds,
  and holds no record when it changes a link; and nobody runs \<open>dblsr\<close> or \<open>dbLockShowLocked\<close>, whose probes of the mutexes can
  make the assertion of \<open>dbScanLock\<close> fail (\<open>dblsr_probe_crash\<close>).\<close>
theorem lock_steps_safe:
  assumes "lk_reach one st" "lkFits one op st"
  shows "\<exists>st'. lkExec op st = Some st' \<and> lk_ok st'"
  using lkExec_ok[OF lk_reach_ok[OF assms(1)] assms(2)] by (auto simp: step_ok_def)

lemma lock_steps_safe_witness:
  "\<exists>st st'. lkRunDemo [KScanLock 10 1, KStep 10] = Some st \<and> lkExec (KScanUnlock 10 1) st = Some st' \<and> lk_ok st'"
proof -
  let ?a = "[KScanLock 10 1, KStep 10]"
  have m: "demoMay True ?a" by code_simp
  have "map_option (lkFits True (KScanUnlock 10 1)) (lkRunDemo ?a) = Some True" by code_simp
  from lock_demo_state[OF m this] show ?thesis using lock_steps_safe[of True _ "KScanUnlock 10 1"] by auto
qed

text \<open>C29. \<open>dbLockInitRecords\<close> computes the connected components: it returns, every record with a name gets a lock set, and two
  records share one exactly when they are connected by the links of the named records.\<close>
theorem init_components:
  assumes "\<forall>(r, x) \<in> namedEdges rs named lks. x \<in> set rs"
  shows "\<exists>st. dbLockInitRecords rs named lks = Some st \<and> (\<forall>r \<in> set rs. named r \<longrightarrow> lset st r \<noteq> None)
     \<and> (\<forall>a b. lset st a \<noteq> None \<longrightarrow> joined st a b \<longleftrightarrow> (a, b) \<in> conn (namedEdges rs named lks))"
  using init_partition[of rs named lks] assms by blast

lemma init_components_witness:
  "\<exists>st. dbLockInitRecords [1, 2, 3] (\<lambda>_. True) demoLinks = Some st \<and> joined st 1 2 \<and> lset st 3 \<noteq> None"
proof -
  have e: "namedEdges [1, 2, 3] (\<lambda>_. True) demoLinks = {(1, 2)}" by (auto simp: namedEdges_def edges_def demoLinks_def split: if_splits)
  then obtain st where st: "dbLockInitRecords [1, 2, 3] (\<lambda>_. True) demoLinks = Some st" "\<forall>r \<in> set [1, 2, 3]. True \<longrightarrow> lset st r \<noteq> None"
      "\<forall>a b. lset st a \<noteq> None \<longrightarrow> joined st a b \<longleftrightarrow> (a, b) \<in> conn {(1, 2)}"
    using init_components[of "[1, 2, 3]" "\<lambda>_. True" demoLinks] unfolding e by auto
  then have "joined st 1 2" using conn_edge[of 1 2 "{(1, 2)}"] by simp
  then show ?thesis using st by auto
qed

text \<open>C25. Whenever the global lock is free the lock sets are the connected components of the links as they are now, after
  any number of links have been changed.\<close>
theorem locksets_are_components:
  assumes "lk_reach one st" "globalLock st = None" "plockSet st a \<noteq> None"
  shows "joined st a b \<longleftrightarrow> (a, b) \<in> conn (edges (links st))"
proof -
  note ok = lk_reach_ok[OF assms(1)]
  have "assigned st" using lk_okD(4)[OF ok] assms(2) by (simp add: phase_def)
  then have "\<exists>p. lset st a = Some p" using assigned_set assms(3) by blast
  then have "lset st a \<noteq> None" by auto
  then show ?thesis using comp_conn[OF lk_okD(5)[OF ok] no_pend[OF assms(2)]] by blast
qed

lemma locksets_are_components_witness:
  "\<exists>st. lkRunDemo (KPut 10 1 0 (Some (Some 3)) # replicate 14 (KStep 10)) = Some st \<and> joined st 1 3 \<and> (1, 2) \<notin> conn (edges (links st))"
proof -
  let ?a = "KPut 10 1 0 (Some (Some 3)) # replicate 14 (KStep 10)"
  have m: "demoMay True ?a" by code_simp
  have "map_option (\<lambda>st. (globalLock st, plockSet st 1, plockSet st 2, links st 1)) (lkRunDemo ?a) = Some (None, Some (Some 1), Some (Some 3), [Some 3])" by code_simp
  from lock_demo_state[OF m this] obtain st where st: "lk_reach True st" "lkRunDemo ?a = Some st" "globalLock st = None" "plockSet st 1 = Some (Some 1)"
      "plockSet st 2 = Some (Some 3)" "links st 1 = [Some 3]" by auto
  have "joined st 1 b \<longleftrightarrow> (1, b) \<in> conn (edges (links st))" for b using locksets_are_components[OF st(1,3), of 1 b] st(4) by simp
  moreover have "\<not> joined st 1 2" using st(4,5) by (simp add: joined_def lset_def)
  moreover have "(1, 3) \<in> conn (edges (links st))" using st(6) by (intro conn_edge) (simp add: edges_def)
  ultimately show ?thesis using st(2) by blast
qed

text \<open>C27. A link of a record changes only while no thread holds the record, a record of its lock set or a record
  connected to it.\<close>
theorem link_change_exclusive:
  assumes "lk_reach one st" "lkFits one op st" "lkExec op st = Some st'" "links st' r \<noteq> links st r" "h \<in> set (held st u)"
  shows "\<not> joined st r h \<and> (r, h) \<notin> conn (edges (links st))"
proof -
  note ok = lk_reach_ok[OF assms(1)]
  have "\<exists>t. op = KStep t" using assms(2-4) by (cases op) (auto dest!: unlock_keeps)
  then obtain t where t: "lockStep t st = Some st'" using assms(3) by auto
  then obtain c where c: "pcs st t = c" "(\<exists>k new. c = PutOld r k (Some new)) \<or> (\<exists>k new. c = PutNew r k new)"
    using lockStep_links[OF t assms(4)] by blast
  have "globalLock st = Some t" using turnD(1)[OF lk_okD(3)[OF ok], of t] c by auto
  note ph = phaseD[OF ok this c(1)]
  have r: "recLocked st r" using ph c(2) by auto
  then have j: "\<not> joined st r h" by (rule recLocked_not_held[OF ok _ assms(5)])
  have "lset st r \<noteq> None" using r by (auto simp: recLocked_def)
  then show ?thesis using comp_conn[of st c r h] ph c(2) j by auto
qed

lemma link_change_exclusive_witness:
  "\<exists>st. lkRunDemo (KScanLock 20 3 # KStep 20 # KPut 10 1 0 (Some (Some 3)) # replicate 4 (KStep 10)) = Some st \<and> (1, 3) \<notin> conn (edges (links st))"
proof -
  let ?a = "KScanLock 20 3 # KStep 20 # KPut 10 1 0 (Some (Some 3)) # replicate 4 (KStep 10)"
  have m: "demoMay True ?a" by code_simp
  have "map_option (\<lambda>st. (lkFits True (KStep 10) st, map_option (\<lambda>st'. links st' 1) (lkExec (KStep 10) st), links st 1, held st 20)) (lkRunDemo ?a)
      = Some (True, Some [None], [Some 2], [3])" by code_simp
  from lock_demo_state[OF m this] show ?thesis using link_change_exclusive[of True _ "KStep 10" _ 1 3 20] by auto
qed

text \<open>C26. No deadlock: as long as threads that hold records lock only records of the same set, whenever a thread is inside
  a call some thread can take a step, or some thread that holds a record is in no call and can unlock it.\<close>
theorem lock_progress:
  assumes "lk_reach True st" "pcs st t \<noteq> Idle"
  shows "\<exists>u. ready u st \<or> pcs st u = Idle \<and> held st u \<noteq> []"
proof -
  note ok = lk_reach_ok[OF assms(1)] and o = oneSet_reach[OF assms(1)]
  have m: ?thesis if "\<not> mutexFree p st" "lockSets st p \<noteq> None" for p using mutex_owner[OF ok o] that by blast
  show ?thesis
  proof (cases "globalLock st")
    case (Some u)
    have c: "putting (pcs st u)" "put_ok st (pcs st u)"
      using turn_phase[OF lk_okD(3)[OF ok] Some] lk_okD(4)[OF ok] by simp_all
    have w: "lockSets st p \<noteq> None" if "waitOk st r p" for r p using that by (auto simp: waitOk_def)
    have "ready u st \<or> (\<exists>p. \<not> mutexFree p st \<and> lockSets st p \<noteq> None)"
      using c w by (cases "pcs st u") (auto simp: ready_def)
    then show ?thesis using m by blast
  next
    case None
    then have n: "\<not> putting (pcs st t)" using turnD(1)[OF lk_okD(3)[OF ok]] by simp
    have w: "lockSets st p \<noteq> None" if "plockSet st r = Some (Some p)" for r p by (rule set_used[OF ok that]) simp
    have "ready t st \<or> (\<exists>p. \<not> mutexFree p st \<and> lockSets st p \<noteq> None)"
      using n w assms(2) None scan_args[OF ok, of t] by (cases "pcs st t") (auto simp: ready_def)
    then show ?thesis using m by blast
  qed
qed

lemma lock_progress_witness:
  "\<exists>st. lkRunDemo [KScanLock 10 1, KStep 10, KScanLock 20 2, KStep 20] = Some st \<and> (\<exists>u. ready u st \<or> pcs st u = Idle \<and> held st u \<noteq> [])"
proof -
  let ?a = "[KScanLock 10 1, KStep 10, KScanLock 20 2, KStep 20]"
  have m: "demoMay True ?a" by code_simp
  have "map_option (\<lambda>st. pcs st 20) (lkRunDemo ?a) = Some (ScanWait 2 1)" by code_simp
  from lock_demo_state[OF m this] show ?thesis using lock_progress[of _ 20] by auto
qed

text \<open>C30. The rule is needed: when a thread that holds a record scan-locks a record of another set, a run of permitted
  steps ends in a deadlock with a thread that changes a link. Two threads are inside calls, none can take a step, and no
  thread in no call holds a record.\<close>
theorem nested_locks_deadlock:
  "\<exists>st. lk_reach False st \<and> pcs st 10 = ScanGlobal 3 \<and> pcs st 20 = PutDstWait 3 1 1
     \<and> (\<forall>u. \<not> ready u st \<and> (if pcs st u = Idle then held st u = [] else u = 10 \<or> u = 20))"
proof -
  let ?a = "[KScanLock 10 1, KStep 10, KPut 20 3 0 (Some (Some 1)), KStep 20, KStep 20, KStep 20, KStep 20, KStep 20, KStep 20,
     KStep 20, KScanLock 10 3, KStep 10]"
  have m: "demoMay False ?a" by code_simp
  have "map_option (\<lambda>st. (pcs st 10, pcs st 20, ready 10 st, ready 20 st)) (lkRunDemo ?a)
     = Some (ScanGlobal 3, PutDstWait 3 1 1, False, False)" by code_simp
  from lock_demo_state[OF m this] obtain st where st: "lk_reach False st" "lkRunDemo ?a = Some st" "pcs st 10 = ScanGlobal 3"
    "pcs st 20 = PutDstWait 3 1 1" "\<not> ready 10 st" "\<not> ready 20 st" by auto
  have o: "pcs st u = Idle \<and> held st u = []" if "u \<noteq> 10" "u \<noteq> 20" for u using demo_others[OF m st(2), of u] that by simp
  have "\<not> ready u st" for u using o[of u] st(5,6) by (cases "u = 10"; cases "u = 20") (auto simp: ready_def)
  moreover have "if pcs st u = Idle then held st u = [] else u = 10 \<or> u = 20" for u
    using o[of u] st(3,4) by (cases "u = 10"; cases "u = 20") auto
  ultimately show ?thesis using st(1,3,4) by blast
qed

text \<open>\<open>dblsr\<close> can stop the program while no link is being changed: the mutex it tries without \<open>lockSetModifyLock\<close> may
  be held when a thread scan-locks a record of a free set, and the assertion of \<open>dbScanLock\<close> on \<open>epicsMutexTryLock\<close>
  fails. The same calls return when the probe ends first.\<close>
theorem dblsr_probe_crash:
  "lkRunDemo [KScanLock 10 1, KProbe 20 1, KStep 10] = None
   \<and> map_option (\<lambda>st. held st 10) (lkRunDemo [KScanLock 10 1, KProbe 20 1, KProbeEnd 20 1, KStep 10]) = Some [1]"
  by (rule conjI; code_simp)

end
