(* ===== verification/DbNotify.thy ===== *)
theory DbNotify
  imports Prelude
begin

text \<open>
  Put with completion, \<open>base/src/db/dbNotify.c\<close>: a \<open>putNotify\<close> writes a field, processes the record, and calls
  its user back when the record and all records processed because of it have completed. A record has at
  most one owner; other requests for it wait in its restart list. Each step is a critical section of the
  global notify lock; \<open>None\<close> is a failed assertion or a null pointer. The intrusive lists are lists of
  addresses with the \<open>isOnList\<close> flags of their nodes. Processing of records is up to the environment: it may
  mark records active, and reports the records it adds and completes. Not modelled: \<open>dbtpn\<close> and \<open>dbNotifyDump\<close>,
  a test command and printing.
\<close>

section \<open>Data\<close>

datatype putNotifyState = putNotifyNotActive | putNotifyWaitForRestart | putNotifyRestartCallbackRequested
  | putNotifyRestartInProgress | putNotifyPutInProgress | putNotifyUserCallbackRequested | putNotifyUserCallbackActive

datatype putNotifyStatus = putNotifyOK | putNotifyCanceled | putNotifyError | putNotifyPutDisabled

record putNotifyRecord =
  waitOnList :: bool
  restartList :: "addr list"

record putNotifyPvt =
  magic :: "32 word"
  pn_state :: putNotifyState
  cb_user :: ptr
  waitList :: "addr list"
  cancelWait :: bool
  userCallbackWait :: bool
  cancelEvent :: bool
  userCallbackEvent :: bool

definition MAGIC :: "32 word" where
  "MAGIC = 0xfedc0123"

text \<open>What the code asks of the field of \<open>paddr\<close>: whether it is \<open>DISP\<close>, a link, \<open>PROC\<close>, and whether a put processes a passive record.\<close>

record notifyField =
  is_disp :: bool
  is_link :: bool
  is_proc :: bool
  process_passive :: bool

record putNotify =
  restartOnList :: bool
  pn_record :: addr
  pn_field :: notifyField
  pn_status :: putNotifyStatus
  pputNotifyPvt :: ptr

text \<open>The fields of \<open>dbCommon\<close> the code uses; \<open>scan0\<close> tells a passive record.\<close>

record notifyRec =
  ppn :: ptr
  ppnr :: "putNotifyRecord option"
  pact :: bool
  disp :: bool
  scan0 :: bool

text \<open>
  Where a thread stands outside the lock: in the user callback of a \<open>putNotify\<close>, waiting in \<open>dbPutNotify\<close> for such a
  callback to return, or waiting in \<open>dbNotifyCancel\<close>, with the private structure it has in hand.
\<close>

datatype notifypc = NIdle | NUser addr addr | NPutWait addr addr | NCancelWait addr addr

text \<open>
  The state: \<open>putNotify\<close>s, private structures, records, the free list, the ring of the low priority callback task, where the threads
  stand, which thread waits on behalf of the user of a \<open>putNotify\<close>, and the calls of user callbacks made, the last one first. The ring
  holds the callbacks requested here, in order, and \<open>cbOthers\<close> requests of other code, whose place among them does not matter;
  \<open>cbOverflow\<close> is \<open>ringOverflow\<close>, and \<open>cbLost\<close> keeps the requests that were dropped, which no code reads.
\<close>

record notify =
  ntab :: "addr \<rightharpoonup> putNotify"
  pvts :: "addr \<rightharpoonup> putNotifyPvt"
  recs :: "addr \<rightharpoonup> notifyRec"
  pvtFreeList :: "addr list"
  nextPvt :: addr
  cbQueue :: "addr list"
  cbLost :: "addr list"
  cbOthers :: nat
  cbOverflow :: bool
  npcs :: "addr \<Rightarrow> notifypc"
  waitingOn :: "addr \<Rightarrow> ptr"
  userCalls :: "(addr \<times> putNotifyStatus) list"

definition setNote :: "addr \<Rightarrow> putNotify \<Rightarrow> notify \<Rightarrow> notify" where
  "setNote n x st = st\<lparr>ntab := (ntab st)(n \<mapsto> x)\<rparr>"

definition setPvt :: "addr \<Rightarrow> putNotifyPvt \<Rightarrow> notify \<Rightarrow> notify" where
  "setPvt p v st = st\<lparr>pvts := (pvts st)(p \<mapsto> v)\<rparr>"

definition setRec :: "addr \<Rightarrow> notifyRec \<Rightarrow> notify \<Rightarrow> notify" where
  "setRec r d st = st\<lparr>recs := (recs st)(r \<mapsto> d)\<rparr>"

definition setPc :: "addr \<Rightarrow> notifypc \<Rightarrow> notify \<Rightarrow> notify" where
  "setPc t c st = st\<lparr>npcs := (npcs st)(t := c)\<rparr>"

definition setWaiting :: "addr \<Rightarrow> ptr \<Rightarrow> notify \<Rightarrow> notify" where
  "setWaiting n w st = st\<lparr>waitingOn := (waitingOn st)(n := w)\<rparr>"

text \<open>The private structure of a \<open>putNotify\<close>, and a change of its fields.\<close>

definition pvtOf :: "addr \<Rightarrow> notify \<Rightarrow> (addr \<times> putNotifyPvt) option" where
  "pvtOf n st = do { x \<leftarrow> ntab st n; p \<leftarrow> pputNotifyPvt x; v \<leftarrow> pvts st p; Some (p, v) }"

definition updPvt :: "addr \<Rightarrow> (putNotifyPvt \<Rightarrow> putNotifyPvt) \<Rightarrow> notify \<Rightarrow> notify option" where
  "updPvt n f st = do { (p, v) \<leftarrow> pvtOf n st; Some (setPvt p (f v) st) }"

text \<open>
  \<open>callbackRequest\<close> of \<open>base/src/db/callback.c\<close>, for a callback of this module and for one of other code. A request is dropped
  when the ring has overflowed or is full; the ring has overflowed from then on, until the task takes a callback.
\<close>

definition callbackQueueSize :: nat where
  "callbackQueueSize = 2000"

definition ringFull :: "notify \<Rightarrow> bool" where
  "ringFull st \<longleftrightarrow> callbackQueueSize \<le> length (cbQueue st) + cbOthers st"

definition callbackRequest :: "addr \<Rightarrow> notify \<Rightarrow> notify" where
  "callbackRequest p st =
     (if cbOverflow st then st\<lparr>cbLost := cbLost st @ [p]\<rparr>
      else if \<not> ringFull st then st\<lparr>cbQueue := cbQueue st @ [p]\<rparr>
      else st\<lparr>cbLost := cbLost st @ [p], cbOverflow := True\<rparr>)"

definition otherRequest :: "notify \<Rightarrow> notify" where
  "otherRequest st =
     (if cbOverflow st then st
      else if \<not> ringFull st then st\<lparr>cbOthers := cbOthers st + 1\<rparr>
      else st\<lparr>cbOverflow := True\<rparr>)"

text \<open>\<open>ellSafeAdd\<close> and \<open>ellSafeDelete\<close> on the wait list of a \<open>putNotify\<close>.\<close>

definition waitAdd :: "addr \<Rightarrow> addr \<Rightarrow> notify \<Rightarrow> notify option" where
  "waitAdd n r st = do {
     d \<leftarrow> recs st r;
     w \<leftarrow> ppnr d;
     if \<not> waitOnList w
     then updPvt n (\<lambda>v. v\<lparr>waitList := waitList v @ [r]\<rparr>) (setRec r (d\<lparr>ppnr := Some (w\<lparr>waitOnList := True\<rparr>)\<rparr>) st)
     else None }"

definition waitDelete :: "addr \<Rightarrow> addr \<Rightarrow> notify \<Rightarrow> notify option" where
  "waitDelete n r st = do {
     d \<leftarrow> recs st r;
     w \<leftarrow> ppnr d;
     if waitOnList w
     then updPvt n (\<lambda>v. v\<lparr>waitList := remove1 r (waitList v)\<rparr>) (setRec r (d\<lparr>ppnr := Some (w\<lparr>waitOnList := False\<rparr>)\<rparr>) st)
     else None }"

text \<open>The same on the restart list of a record.\<close>

definition restartAdd :: "addr \<Rightarrow> addr \<Rightarrow> notify \<Rightarrow> notify option" where
  "restartAdd r n st = do {
     d \<leftarrow> recs st r;
     w \<leftarrow> ppnr d;
     x \<leftarrow> ntab st n;
     if \<not> restartOnList x
     then Some (setNote n (x\<lparr>restartOnList := True\<rparr>) (setRec r (d\<lparr>ppnr := Some (w\<lparr>restartList := restartList w @ [n]\<rparr>)\<rparr>) st))
     else None }"

definition restartDelete :: "addr \<Rightarrow> addr \<Rightarrow> notify \<Rightarrow> notify option" where
  "restartDelete r n st = do {
     d \<leftarrow> recs st r;
     w \<leftarrow> ppnr d;
     x \<leftarrow> ntab st n;
     if restartOnList x
     then Some (setNote n (x\<lparr>restartOnList := False\<rparr>) (setRec r (d\<lparr>ppnr := Some (w\<lparr>restartList := remove1 n (restartList w)\<rparr>)\<rparr>) st))
     else None }"

definition setOwner :: "addr \<Rightarrow> ptr \<Rightarrow> notify \<Rightarrow> notify option" where
  "setOwner r n st = do { d \<leftarrow> recs st r; Some (setRec r (d\<lparr>ppn := n\<rparr>) st) }"

section \<open>The local routines\<close>

definition putNotifyInit :: "addr \<Rightarrow> notify \<Rightarrow> notify option" where
  "putNotifyInit n st = do {
     x \<leftarrow> ntab st n;
     (p, v, st1) \<leftarrow> (case pvtFreeList st of
         p # ps \<Rightarrow> do { v \<leftarrow> pvts st p; Some (p, v, st\<lparr>pvtFreeList := ps\<rparr>) }
       | [] \<Rightarrow> Some (nextPvt st,
           \<lparr>magic = MAGIC, pn_state = putNotifyNotActive, cb_user = None, waitList = [], cancelWait = False, userCallbackWait = False,
            cancelEvent = False, userCallbackEvent = False\<rparr>, st\<lparr>nextPvt := nextPvt st + 1\<rparr>));
     Some (setNote n (x\<lparr>pn_status := putNotifyOK, pputNotifyPvt := Some p\<rparr>)
       (setPvt p (v\<lparr>pn_state := putNotifyNotActive, cb_user := Some n, waitList := [], cancelWait := False, userCallbackWait := False\<rparr>) st1)) }"

definition putNotifyCleanup :: "addr \<Rightarrow> notify \<Rightarrow> notify option" where
  "putNotifyCleanup n st = do {
     x \<leftarrow> ntab st n;
     (p, v) \<leftarrow> pvtOf n st;
     Some (setNote n (x\<lparr>pputNotifyPvt := None\<rparr>) (setPvt p (v\<lparr>pn_state := putNotifyNotActive\<rparr>) (st\<lparr>pvtFreeList := pvtFreeList st @ [p]\<rparr>))) }"

definition restartCheck :: "addr \<Rightarrow> notify \<Rightarrow> notify option" where
  "restartCheck r st = do {
     d \<leftarrow> recs st r;
     w \<leftarrow> ppnr d;
     _ \<leftarrow> ppn d;
     case restartList w of
       [] \<Rightarrow> setOwner r None st
     | f # _ \<Rightarrow> do {
         (p, v) \<leftarrow> pvtOf f st;
         if pn_state v = putNotifyWaitForRestart
         then do {
           st1 \<leftarrow> restartDelete r f st;
           st2 \<leftarrow> setOwner r (Some f) st1;
           Some (callbackRequest p (setPvt p (v\<lparr>pn_state := putNotifyRestartCallbackRequested\<rparr>) st2)) }
         else None } }"

text \<open>The user callback begins, and returns.\<close>

definition callUser :: "addr \<Rightarrow> addr \<Rightarrow> notify \<Rightarrow> notify option" where
  "callUser t n st = do {
     x \<leftarrow> ntab st n;
     p \<leftarrow> pputNotifyPvt x;
     Some (setPc t (NUser n p) (st\<lparr>userCalls := (n, pn_status x) # userCalls st\<rparr>)) }"

definition callUserEnd :: "addr \<Rightarrow> addr \<Rightarrow> addr \<Rightarrow> notify \<Rightarrow> notify option" where
  "callUserEnd t n p st = do {
     v \<leftarrow> pvts st p;
     let v1 = (if cancelWait v \<and> userCallbackWait v then v\<lparr>cancelWait := False, userCallbackWait := False\<rparr> else v);
     let st1 = setPvt p v1 st;
     map_option (setPc t NIdle)
       (if \<not> cancelWait v1 \<and> \<not> userCallbackWait v1 then putNotifyCleanup n st1
        else if cancelWait v1 then Some (setPvt p (v1\<lparr>cancelWait := False, cancelEvent := True\<rparr>) st1)
        else Some (setPvt p (v1\<lparr>userCallbackWait := False, userCallbackEvent := True\<rparr>) st1)) }"

text \<open>\<open>dbPut\<close> tells whether it succeeds, and whether the record is passive afterwards. When the lock is released a put in
  progress calls \<open>dbProcess\<close>.\<close>

type_synonym putResult = "bool \<times> bool"

definition putNotifyCommon :: "addr \<Rightarrow> addr \<Rightarrow> addr \<Rightarrow> putResult \<Rightarrow> notify \<Rightarrow> notify option" where
  "putNotifyCommon t n r ok st = do {
     d \<leftarrow> recs st r;
     (p, v) \<leftarrow> pvtOf n st;
     if ppn d \<noteq> None \<and> pn_state v \<noteq> putNotifyRestartCallbackRequested
     then restartAdd r n (setPvt p (v\<lparr>pn_state := putNotifyWaitForRestart\<rparr>) st)
     else if ppn d \<noteq> None \<and> ppn d \<noteq> Some n then None
     else if pact d
     then do {
       st1 \<leftarrow> setOwner r (Some n) st;
       st2 \<leftarrow> waitAdd n r st1;
       updPvt n (\<lambda>v. v\<lparr>pn_state := putNotifyRestartInProgress\<rparr>) st2 }
     else do {
       x \<leftarrow> ntab st n;
       let st1 = setNote n (x\<lparr>pn_status := (if fst ok then putNotifyOK else putNotifyError)\<rparr>) (setRec r (d\<lparr>scan0 := snd ok\<rparr>) st);
       if fst ok \<and> (is_proc (pn_field x) \<or> process_passive (pn_field x) \<and> snd ok)
       then do {
         st2 \<leftarrow> setOwner r (Some n) st1;
         st3 \<leftarrow> waitAdd n r st2;
         updPvt n (\<lambda>v. v\<lparr>pn_state := putNotifyPutInProgress\<rparr>) st3 }
       else do {
         st2 \<leftarrow> (if pn_state v = putNotifyRestartCallbackRequested then restartCheck r st1 else Some st1);
         st3 \<leftarrow> updPvt n (\<lambda>v. v\<lparr>pn_state := putNotifyUserCallbackActive\<rparr>) st2;
         d3 \<leftarrow> recs st3 r;
         if ppn d3 \<noteq> Some n then callUser t n st3 else None } } }"

text \<open>Run by the callback task, thread 0, for the first callback in its queue.\<close>

definition callbackTask :: addr where
  "callbackTask = 0"

definition notifyCallback :: "addr \<Rightarrow> putResult \<Rightarrow> notify \<Rightarrow> notify option" where
  "notifyCallback pcb ok st = do {
     v0 \<leftarrow> pvts st pcb;
     n \<leftarrow> cb_user v0;
     (p, v) \<leftarrow> pvtOf n st;
     x \<leftarrow> ntab st n;
     let r = pn_record x;
     d \<leftarrow> recs st r;
     _ \<leftarrow> ppnr d;
     if (pn_state v = putNotifyRestartCallbackRequested \<or> pn_state v = putNotifyUserCallbackRequested) \<and> waitList v = []
     then if cancelWait v
       then do {
         st1 \<leftarrow> (if pn_state v = putNotifyRestartCallbackRequested then restartCheck r st else Some st);
         updPvt n (\<lambda>v. v\<lparr>cancelEvent := True\<rparr>) st1 }
       else if pn_state v = putNotifyRestartCallbackRequested
       then putNotifyCommon callbackTask n r ok st
       else if ppn d \<noteq> Some n
       then callUser callbackTask n (setPvt p (v\<lparr>pn_state := putNotifyUserCallbackActive\<rparr>) st)
       else None
     else None }"

section \<open>The routines of the users\<close>

text \<open>The part of \<open>dbPutNotify\<close> from the second assertion on.\<close>

definition putStart :: "addr \<Rightarrow> addr \<Rightarrow> addr \<Rightarrow> putResult \<Rightarrow> notify \<Rightarrow> notify option" where
  "putStart t n r ok st = do {
     x \<leftarrow> ntab st n;
     if pputNotifyPvt x = None
     then do {
       st1 \<leftarrow> putNotifyInit n st;
       d \<leftarrow> recs st1 r;
       putNotifyCommon t n r ok
         (if ppnr d = None then setRec r (d\<lparr>ppnr := Some \<lparr>waitOnList = False, restartList = []\<rparr>\<rparr>) st1 else st1) }
     else None }"

text \<open>\<open>ok\<close> is the result of \<open>dbPut\<close> or \<open>dbPutField\<close>.\<close>

definition dbPutNotify :: "addr \<Rightarrow> addr \<Rightarrow> putResult \<Rightarrow> notify \<Rightarrow> notify option" where
  "dbPutNotify t n ok st = do {
     x \<leftarrow> ntab st n;
     let r = pn_record x;
     d \<leftarrow> recs st r;
     if disp d \<and> \<not> is_disp (pn_field x)
     then Some ((setNote n (x\<lparr>pn_status := putNotifyPutDisabled\<rparr>) st)\<lparr>userCalls := (n, putNotifyPutDisabled) # userCalls st\<rparr>)
     else if is_link (pn_field x)
     then (let s = (if fst ok then putNotifyOK else putNotifyError) in
           Some ((setNote n (x\<lparr>pn_status := s\<rparr>) st)\<lparr>userCalls := (n, s) # userCalls st\<rparr>))
     else case pputNotifyPvt x of
       None \<Rightarrow> putStart t n r ok st
     | Some p \<Rightarrow> do {
         v \<leftarrow> pvts st p;
         if magic v \<noteq> MAGIC then putStart t n r ok st
         else if pn_state v = putNotifyUserCallbackActive
         then Some (setWaiting n (Some t) (setPc t (NPutWait n p) (setPvt p (v\<lparr>userCallbackWait := True\<rparr>) st)))
         else None } }"

definition putWake :: "addr \<Rightarrow> addr \<Rightarrow> addr \<Rightarrow> putResult \<Rightarrow> notify \<Rightarrow> notify option" where
  "putWake t n p ok st = do {
     v \<leftarrow> pvts st p;
     x \<leftarrow> ntab st n;
     st1 \<leftarrow> putNotifyCleanup n (setWaiting n None (setPc t NIdle (setPvt p (v\<lparr>userCallbackEvent := False\<rparr>) st)));
     putStart t n (pn_record x) ok st1 }"

text \<open>The loop over the wait list in \<open>dbNotifyCancel\<close>.\<close>

fun cancelRecords :: "addr \<Rightarrow> addr list \<Rightarrow> notify \<Rightarrow> notify option" where
  "cancelRecords n [] st = Some st"
| "cancelRecords n (w # ws) st = do {
     st1 \<leftarrow> waitDelete n w st;
     st2 \<leftarrow> restartCheck w st1;
     cancelRecords n ws st2 }"

definition dbNotifyCancel :: "addr \<Rightarrow> addr \<Rightarrow> notify \<Rightarrow> notify option" where
  "dbNotifyCancel t n st = do {
     x \<leftarrow> ntab st n;
     let r = pn_record x;
     _ \<leftarrow> recs st r;
     case pputNotifyPvt x of
       None \<Rightarrow> Some st
     | Some p \<Rightarrow> do {
         v \<leftarrow> pvts st p;
         if pn_state v = putNotifyNotActive then Some st
         else if pn_state v = putNotifyUserCallbackRequested \<or> pn_state v = putNotifyRestartCallbackRequested
             \<or> pn_state v = putNotifyUserCallbackActive
         then Some (setWaiting n (Some t) (setPc t (NCancelWait n p) (setPvt p (v\<lparr>cancelWait := True\<rparr>) st)))
         else do {
           st1 \<leftarrow> (if pn_state v = putNotifyWaitForRestart
              then do {
                d \<leftarrow> recs st r;
                if ppn d \<noteq> None \<and> ppn d \<noteq> Some n then restartDelete r n st else None }
              else do {
                st1 \<leftarrow> cancelRecords n (waitList v) st;
                d \<leftarrow> recs st1 r;
                if ppn d = Some n then restartCheck r st1 else Some st1 });
           putNotifyCleanup n st1 } } }"

definition notifyCancelWake :: "addr \<Rightarrow> addr \<Rightarrow> addr \<Rightarrow> notify \<Rightarrow> notify option" where
  "notifyCancelWake t n p st = do {
     v \<leftarrow> pvts st p;
     putNotifyCleanup n (setWaiting n None (setPc t NIdle (setPvt p (v\<lparr>cancelEvent := False\<rparr>) st))) }"

section \<open>The routines of record processing\<close>

text \<open>\<open>n\<close> is the owner \<open>precord->ppn\<close> read before the lock is taken.\<close>

definition dbNotifyCompletion :: "addr \<Rightarrow> addr \<Rightarrow> notify \<Rightarrow> notify option" where
  "dbNotifyCompletion r n st = do {
     d \<leftarrow> recs st r;
     _ \<leftarrow> ppnr d;
     (p, v) \<leftarrow> pvtOf n st;
     if pn_state v \<noteq> putNotifyRestartInProgress \<and> pn_state v \<noteq> putNotifyPutInProgress then Some st
     else do {
       st1 \<leftarrow> waitDelete n r st;
       (_, v1) \<leftarrow> pvtOf n st1;
       if waitList v1 \<noteq> [] then restartCheck r st1
       else if pn_state v1 = putNotifyPutInProgress
       then map_option (callbackRequest p) (restartCheck r (setPvt p (v1\<lparr>pn_state := putNotifyUserCallbackRequested\<rparr>) st1))
       else Some (callbackRequest p (setPvt p (v1\<lparr>pn_state := putNotifyRestartCallbackRequested\<rparr>) st1)) } }"

text \<open>\<open>n\<close> is the owner \<open>pfrom->ppn\<close> and \<open>active\<close> the \<open>pto->pact\<close> read before the lock is taken; the owner is read again under the lock.\<close>

definition dbNotifyAdd :: "addr \<Rightarrow> bool \<Rightarrow> addr \<Rightarrow> addr \<Rightarrow> notify \<Rightarrow> notify option" where
  "dbNotifyAdd n active pfrom pto st = do {
     d \<leftarrow> recs st pto;
     if active then Some st
     else do {
       let d1 = (if ppnr d = None then d\<lparr>ppnr := Some \<lparr>waitOnList = False, restartList = []\<rparr>\<rparr> else d);
       let st1 = setRec pto d1 st;
       x \<leftarrow> ntab st1 n;
       (p, v) \<leftarrow> pvtOf n st1;
       if ppn d1 = None \<and> pn_state v = putNotifyPutInProgress \<and> pto \<noteq> pn_record x
       then do {
         df \<leftarrow> recs st1 pfrom;
         m \<leftarrow> ppn df;
         st2 \<leftarrow> setOwner pto (Some m) st1;
         waitAdd m pto st2 }
       else Some st1 } }"

section \<open>The system\<close>

text \<open>
  The operations: a call of the user, the callback task taking a callback, the end of a user callback, a thread woken
  by its event, a record added and a record done while processing, with what was read before the lock, a change of the fields
  of a record, and other code requesting a callback and the callback task serving it.
\<close>

datatype notifyop = NPut addr addr putResult | NCancel addr addr | NCallback putResult | NEnd addr | NWake addr putResult
  | NAdd addr bool addr addr | NDone addr addr | NRecord addr bool bool bool | NRequest | NServe

fun notifyExec :: "notifyop \<Rightarrow> notify \<Rightarrow> notify option" where
  "notifyExec (NPut t n ok) st = dbPutNotify t n ok st"
| "notifyExec (NCancel t n) st = dbNotifyCancel t n st"
| "notifyExec (NCallback ok) st = (case cbQueue st of [] \<Rightarrow> None | p # ps \<Rightarrow> notifyCallback p ok (st\<lparr>cbQueue := ps, cbOverflow := False\<rparr>))"
| "notifyExec (NEnd t) st = (case npcs st t of NUser n p \<Rightarrow> callUserEnd t n p st | _ \<Rightarrow> None)"
| "notifyExec (NWake t ok) st = (case npcs st t of NPutWait n p \<Rightarrow> putWake t n p ok st | NCancelWait n p \<Rightarrow> notifyCancelWake t n p st | _ \<Rightarrow> None)"
| "notifyExec (NAdd n a pfrom pto) st = dbNotifyAdd n a pfrom pto st"
| "notifyExec (NDone r n) st = dbNotifyCompletion r n st"
| "notifyExec (NRecord r a d s) st = do { x \<leftarrow> recs st r; Some (setRec r (x\<lparr>pact := a, disp := d, scan0 := s\<rparr>) st) }"
| "notifyExec NRequest st = Some (otherRequest st)"
| "notifyExec NServe st = (case cbOthers st of 0 \<Rightarrow> None | Suc k \<Rightarrow> Some (st\<lparr>cbOthers := k, cbOverflow := False\<rparr>))"

text \<open>The event a waiting thread waits for is full.\<close>

definition eventFull :: "addr \<Rightarrow> notify \<Rightarrow> bool" where
  "eventFull t st = (case npcs st t of
       NPutWait n p \<Rightarrow> (case pvts st p of None \<Rightarrow> False | Some v \<Rightarrow> userCallbackEvent v)
     | NCancelWait n p \<Rightarrow> (case pvts st p of None \<Rightarrow> False | Some v \<Rightarrow> cancelEvent v)
     | _ \<Rightarrow> False)"

text \<open>
  What the callers must respect: a thread makes one call at a time, not from a user callback; a \<open>putNotify\<close> is used
  by one thread at a time, and put again only when it is not active or its user callback is active. The routines of
  record processing find the owner they read before the lock still the owner when they have the lock: nothing in the code sees to
  that (see \<open>late_completion_crash\<close>).
\<close>

definition putAllowed :: "addr \<Rightarrow> notify \<Rightarrow> bool" where
  "putAllowed n st = (case ntab st n of None \<Rightarrow> False
     | Some x \<Rightarrow> recs st (pn_record x) \<noteq> None \<and> (case pputNotifyPvt x of None \<Rightarrow> True
       | Some p \<Rightarrow> (case pvts st p of None \<Rightarrow> False | Some v \<Rightarrow> pn_state v = putNotifyUserCallbackActive)))"

fun notifyFits :: "notifyop \<Rightarrow> notify \<Rightarrow> bool" where
  "notifyFits (NPut t n ok) st \<longleftrightarrow> t \<noteq> callbackTask \<and> npcs st t = NIdle \<and> waitingOn st n = None \<and> putAllowed n st"
| "notifyFits (NCancel t n) st \<longleftrightarrow> t \<noteq> callbackTask \<and> npcs st t = NIdle \<and> waitingOn st n = None \<and> ntab st n \<noteq> None"
| "notifyFits (NCallback ok) st \<longleftrightarrow> npcs st callbackTask = NIdle \<and> cbQueue st \<noteq> []"
| "notifyFits (NEnd t) st \<longleftrightarrow> (case npcs st t of NUser n p \<Rightarrow> True | _ \<Rightarrow> False)"
| "notifyFits (NWake t ok) st \<longleftrightarrow> eventFull t st"
| "notifyFits (NAdd n a pfrom pto) st \<longleftrightarrow> (case recs st pfrom of None \<Rightarrow> False | Some d \<Rightarrow> ppn d = Some n) \<and> recs st pto \<noteq> None"
| "notifyFits (NDone r n) st \<longleftrightarrow> (case recs st r of None \<Rightarrow> False | Some d \<Rightarrow> ppn d = Some n)"
| "notifyFits (NRecord r a d s) st \<longleftrightarrow> recs st r \<noteq> None"
| "notifyFits NRequest st \<longleftrightarrow> True"
| "notifyFits NServe st \<longleftrightarrow> npcs st callbackTask = NIdle \<and> cbOthers st \<noteq> 0"

text \<open>The start: records no \<open>putNotify\<close> has used, and \<open>putNotify\<close>s of existing records.\<close>

definition notifyStart :: "(addr \<rightharpoonup> notifyRec) \<Rightarrow> (addr \<rightharpoonup> putNotify) \<Rightarrow> notify" where
  "notifyStart rs ns = \<lparr>ntab = ns, pvts = Map.empty, recs = rs, pvtFreeList = [], nextPvt = 1, cbQueue = [], cbLost = [], cbOthers = 0, cbOverflow = False, npcs = (\<lambda>_. NIdle),
     waitingOn = (\<lambda>_. None), userCalls = []\<rparr>"

definition goodStart :: "(addr \<rightharpoonup> notifyRec) \<Rightarrow> (addr \<rightharpoonup> putNotify) \<Rightarrow> bool" where
  "goodStart rs ns \<longleftrightarrow> (\<forall>r d. rs r = Some d \<longrightarrow> ppn d = None \<and> ppnr d = None)
     \<and> (\<forall>n x. ns n = Some x \<longrightarrow> \<not> restartOnList x \<and> pputNotifyPvt x = None \<and> rs (pn_record x) \<noteq> None)"

inductive nt_reach :: "notify \<Rightarrow> bool" where
  init: "goodStart rs ns \<Longrightarrow> nt_reach (notifyStart rs ns)"
| step: "nt_reach st \<Longrightarrow> notifyFits op st \<Longrightarrow> notifyExec op st = Some st' \<Longrightarrow> nt_reach st'"

fun notifyRun :: "notifyop list \<Rightarrow> notify \<Rightarrow> notify option" where
  "notifyRun [] st = Some st"
| "notifyRun (op # ops) st = do { st' \<leftarrow> notifyExec op st; notifyRun ops st' }"

end
