(* ===== verification/DbNotifyInv.thy ===== *)
theory DbNotifyInv
  imports DbNotify "HOL-Library.Multiset"
begin

text \<open>
  The invariant of put notification, stated over what is seen of the state: the private structure of each \<open>putNotify\<close>,
  the records, the \<open>putNotify\<close>s, the callback queue and the threads. The lemmas here are about changes of
  single places of these; those on the operations follow from them.
\<close>

section \<open>What is seen of the state\<close>

text \<open>The state of an active \<open>putNotify\<close>; \<open>None\<close> also when its waiting user has been signalled, since only clean-up is left then.\<close>

definition actv :: "(addr \<times> putNotifyPvt) option \<Rightarrow> putNotifyState option" where
  "actv z = (case z of None \<Rightarrow> None | Some (p, v) \<Rightarrow> if cancelEvent v \<or> userCallbackEvent v then None else Some (pn_state v))"

definition wlv :: "(addr \<times> putNotifyPvt) option \<Rightarrow> addr list" where
  "wlv z = (case z of None \<Rightarrow> [] | Some (p, v) \<Rightarrow> waitList v)"

definition ownv :: "notifyRec option \<Rightarrow> ptr" where
  "ownv d = (case d of None \<Rightarrow> None | Some d \<Rightarrow> ppn d)"

definition rlv :: "notifyRec option \<Rightarrow> addr list" where
  "rlv d = (case d of None \<Rightarrow> [] | Some d \<Rightarrow> (case ppnr d of None \<Rightarrow> [] | Some w \<Rightarrow> restartList w))"

definition wfv :: "notifyRec option \<Rightarrow> bool" where
  "wfv d = (case d of None \<Rightarrow> False | Some d \<Rightarrow> (case ppnr d of None \<Rightarrow> False | Some w \<Rightarrow> waitOnList w))"

definition nrv :: "notifyRec option \<Rightarrow> bool" where
  "nrv d = (case d of None \<Rightarrow> False | Some d \<Rightarrow> ppnr d \<noteq> None)"

definition homev :: "putNotify option \<Rightarrow> addr" where
  "homev x = (case x of None \<Rightarrow> 0 | Some x \<Rightarrow> pn_record x)"

definition rfv :: "putNotify option \<Rightarrow> bool" where
  "rfv x = (case x of None \<Rightarrow> False | Some x \<Rightarrow> restartOnList x)"

lemma view_simps [simp]:
  "actv None = None" "actv (Some (p, v)) = (if cancelEvent v \<or> userCallbackEvent v then None else Some (pn_state v))"
  "wlv None = []" "wlv (Some (p, v)) = waitList v" "ownv None = None" "ownv (Some d) = ppn d"
  "rlv None = []" "rlv (Some d) = (case ppnr d of None \<Rightarrow> [] | Some w \<Rightarrow> restartList w)"
  "wfv None = False" "wfv (Some d) = (case ppnr d of None \<Rightarrow> False | Some w \<Rightarrow> waitOnList w)"
  "nrv None = False" "nrv (Some d) = (ppnr d \<noteq> None)"
  "homev None = 0" "homev (Some x) = pn_record x" "rfv None = False" "rfv (Some x) = restartOnList x"
  by (simp_all add: actv_def wlv_def ownv_def rlv_def wfv_def nrv_def homev_def rfv_def)

definition inProg :: "putNotifyState option \<Rightarrow> bool" where
  "inProg a \<longleftrightarrow> a = Some putNotifyRestartInProgress \<or> a = Some putNotifyPutInProgress"

definition requested :: "putNotifyState option \<Rightarrow> bool" where
  "requested a \<longleftrightarrow> a = Some putNotifyRestartCallbackRequested \<or> a = Some putNotifyUserCallbackRequested"

lemma inProg_simps [simp]:
  "inProg (Some putNotifyRestartInProgress)" "inProg (Some putNotifyPutInProgress)" "\<not> inProg None" "\<not> inProg (Some putNotifyNotActive)"
  "\<not> inProg (Some putNotifyWaitForRestart)" "\<not> inProg (Some putNotifyRestartCallbackRequested)"
  "\<not> inProg (Some putNotifyUserCallbackRequested)" "\<not> inProg (Some putNotifyUserCallbackActive)"
  "requested (Some putNotifyRestartCallbackRequested)" "requested (Some putNotifyUserCallbackRequested)"
  "\<not> requested None" "\<not> requested (Some putNotifyNotActive)" "\<not> requested (Some putNotifyWaitForRestart)" "\<not> requested (Some putNotifyRestartInProgress)"
  "\<not> requested (Some putNotifyPutInProgress)" "\<not> requested (Some putNotifyUserCallbackActive)"
  by (simp_all add: inProg_def requested_def)

type_synonym pview = "addr \<Rightarrow> (addr \<times> putNotifyPvt) option"

section \<open>Owners of records\<close>

text \<open>
  A record is owned by the \<open>putNotify\<close> on whose wait list it is, or by the one whose restart on it has been requested; those
  waiting for it are on its restart list. Records in \<open>X\<close> are about to be released. The arguments: who
  has a restart requested, who waits for one, the wait lists, the owners, the restart lists and the records of the \<open>putNotify\<close>s.
\<close>

definition core :: "addr set \<Rightarrow> (addr \<Rightarrow> bool) \<Rightarrow> (addr \<Rightarrow> bool) \<Rightarrow> (addr \<Rightarrow> addr list) \<Rightarrow> (addr \<Rightarrow> ptr) \<Rightarrow> (addr \<Rightarrow> addr list) \<Rightarrow> (addr \<Rightarrow> addr) \<Rightarrow> bool" where
  "core X A B W Ow L H \<longleftrightarrow>
     (\<forall>r n. Ow r = Some n \<longrightarrow> r \<in> X \<or> r \<in> set (W n) \<or> A n \<and> H n = r)
     \<and> (\<forall>r \<in> X. Ow r \<noteq> None \<and> (\<forall>n. r \<notin> set (W n) \<and> \<not> (A n \<and> H n = r)))
     \<and> (\<forall>n. distinct (W n) \<and> (\<forall>r \<in> set (W n). Ow r = Some n))
     \<and> (\<forall>r. distinct (L r) \<and> (L r \<noteq> [] \<longrightarrow> Ow r \<noteq> None) \<and> (\<forall>f. f \<in> set (L r) \<longleftrightarrow> B f \<and> H f = r))
     \<and> (\<forall>n. A n \<longrightarrow> Ow (H n) = Some n \<and> \<not> B n \<and> W n = [])
     \<and> (\<forall>n. B n \<longrightarrow> W n = [])"

lemma coreD:
  assumes "core X A B W Ow L H"
  shows "Ow r = Some n \<Longrightarrow> r \<in> X \<or> r \<in> set (W n) \<or> A n \<and> H n = r" "r \<in> X \<Longrightarrow> Ow r \<noteq> None" "r \<in> X \<Longrightarrow> r \<notin> set (W n)"
    "r \<in> X \<Longrightarrow> \<not> (A n \<and> H n = r)" "distinct (W n)" "r \<in> set (W n) \<Longrightarrow> Ow r = Some n" "distinct (L r)" "L r \<noteq> [] \<Longrightarrow> Ow r \<noteq> None"
    "f \<in> set (L r) \<longleftrightarrow> B f \<and> H f = r" "A n \<Longrightarrow> Ow (H n) = Some n \<and> \<not> B n \<and> W n = []" "B n \<Longrightarrow> W n = []"
  using assms unfolding core_def by blast+

lemma core_leave: "core X A B W Ow L H \<Longrightarrow> A n \<Longrightarrow> core (insert (H n) X) (A(n := False)) B W Ow L H"
  unfolding core_def by (auto; metis empty_iff list.set(1) option.inject option.distinct(1))

lemma core_release: "core X A B W Ow L H \<Longrightarrow> r \<in> X \<Longrightarrow> L r = [] \<Longrightarrow> core (X - {r}) A B W (Ow(r := None)) L H"
  unfolding core_def by (auto; metis empty_iff list.set(1) option.inject option.distinct(1))

lemma core_pass:
  assumes c: "core X A B W Ow L H" and r: "r \<in> X" "L r = f # fs"
  shows "core (X - {r}) (A(f := True)) (B(f := False)) W (Ow(r := Some f)) (L(r := fs)) H"
proof -
  have f: "B f" "H f = r" "f \<notin> set fs" "distinct fs" using coreD(9)[OF c, of f r] coreD(7)[OF c, of r] r(2) by auto
  have fs: "g \<in> set fs \<longleftrightarrow> B g \<and> H g = r \<and> g \<noteq> f" for g using coreD(9)[OF c, of g r] r(2) f by auto
  have w: "W f = []" using coreD(11)[OF c f(1)] .
  have n: "\<not> A f" using coreD(10)[OF c, of f] f(1) by blast
  have na: "\<not> (A m \<and> H m = r)" "r \<notin> set (W m)" for m using coreD(3,4)[OF c r(1)] by blast+
  show ?thesis
    unfolding core_def
  proof (intro conjI)
    show "\<forall>x n. (Ow(r := Some f)) x = Some n \<longrightarrow> x \<in> X - {r} \<or> x \<in> set (W n) \<or> (A(f := True)) n \<and> H n = x"
      using coreD(1)[OF c] f(2) by auto
    show "\<forall>x \<in> X - {r}. (Ow(r := Some f)) x \<noteq> None \<and> (\<forall>n. x \<notin> set (W n) \<and> \<not> ((A(f := True)) n \<and> H n = x))"
      using coreD(2,3,4)[OF c] f(2) by auto
    show "\<forall>n. distinct (W n) \<and> (\<forall>x \<in> set (W n). (Ow(r := Some f)) x = Some n)" using coreD(5,6)[OF c] na(2) by auto
    show "\<forall>x. distinct ((L(r := fs)) x) \<and> ((L(r := fs)) x \<noteq> [] \<longrightarrow> (Ow(r := Some f)) x \<noteq> None)
        \<and> (\<forall>g. g \<in> set ((L(r := fs)) x) \<longleftrightarrow> (B(f := False)) g \<and> H g = x)"
      using coreD(7,8,9)[OF c] f fs by auto
    show "\<forall>n. (A(f := True)) n \<longrightarrow> (Ow(r := Some f)) (H n) = Some n \<and> \<not> (B(f := False)) n \<and> W n = []"
      using coreD(10)[OF c] f(2) na(1) w by auto
    show "\<forall>n. (B(f := False)) n \<longrightarrow> W n = []" using coreD(11)[OF c] by auto
  qed
qed

lemma core_wdel: "core {} A B W Ow L H \<Longrightarrow> r \<in> set (W n) \<Longrightarrow> core {r} A B (W(n := remove1 r (W n))) Ow L H"
  unfolding core_def by (auto; metis empty_iff list.set(1) option.inject option.distinct(1))

lemma core_claim: "core X A B W Ow L H \<Longrightarrow> W n = [] \<Longrightarrow> \<not> A n \<Longrightarrow> \<not> B n \<Longrightarrow> X = {r} \<or> X = {} \<and> Ow r = None \<Longrightarrow>
    core {} A B (W(n := [r])) (Ow(r := Some n)) L H"
  unfolding core_def by (auto; metis empty_iff list.set(1) option.inject option.distinct(1))

lemma core_join: "core {} A B W Ow L H \<Longrightarrow> W n \<noteq> [] \<Longrightarrow> Ow r = None \<Longrightarrow> core {} A B (W(n := W n @ [r])) (Ow(r := Some n)) L H"
  unfolding core_def by (auto; metis empty_iff list.set(1) option.inject option.distinct(1))

lemma core_enq: "core {} A B W Ow L H \<Longrightarrow> \<not> A n \<Longrightarrow> \<not> B n \<Longrightarrow> W n = [] \<Longrightarrow> Ow (H n) \<noteq> None \<Longrightarrow>
    core {} A (B(n := True)) W Ow (L(H n := L (H n) @ [n])) H"
  unfolding core_def by (auto; metis empty_iff list.set(1) option.inject option.distinct(1))

lemma core_deq: "core {} A B W Ow L H \<Longrightarrow> B n \<Longrightarrow> core {} A (B(n := False)) W Ow (L(H n := remove1 n (L (H n)))) H"
  unfolding core_def by (auto; metis empty_iff list.set(1) option.inject option.distinct(1))

lemma core_request: "core X A B W Ow L H \<Longrightarrow> r \<in> X \<Longrightarrow> Ow r = Some n \<Longrightarrow> H n = r \<Longrightarrow> W n = [] \<Longrightarrow> \<not> B n \<Longrightarrow>
    core (X - {r}) (A(n := True)) B W Ow L H"
  unfolding core_def by (auto; metis empty_iff list.set(1) option.inject option.distinct(1))

section \<open>Threads and callbacks\<close>

text \<open>
  The private structures of the \<open>putNotify\<close>s with a callback requested are those in the queue and those whose request was dropped. The arguments: the private
  structures, who has a callback requested, whose user callback is active, whose \<open>dbNotifyCancel\<close> and
  whose \<open>dbPutNotify\<close> wait; then the requests, the threads and the waiting users.
\<close>

definition queued :: "(addr \<Rightarrow> ptr) \<Rightarrow> (addr \<Rightarrow> bool) \<Rightarrow> addr multiset \<Rightarrow> bool" where
  "queued pp rq Q \<longleftrightarrow> (\<forall>n m p. pp n = Some p \<and> pp m = Some p \<longrightarrow> n = m) \<and> (\<forall>p. count Q p \<le> 1)
     \<and> (\<forall>p \<in># Q. \<exists>n. pp n = Some p \<and> rq n) \<and> (\<forall>n. rq n \<longrightarrow> (\<exists>p \<in># Q. pp n = Some p))"

definition thr :: "(addr \<Rightarrow> ptr) \<Rightarrow> (addr \<Rightarrow> bool) \<Rightarrow> (addr \<Rightarrow> bool) \<Rightarrow> (addr \<Rightarrow> bool) \<Rightarrow> (addr \<Rightarrow> notifypc) \<Rightarrow> (addr \<Rightarrow> ptr) \<Rightarrow> bool" where
  "thr pp uc cw uw C Wt \<longleftrightarrow>
     (\<forall>n. uc n \<or> cw n \<or> uw n \<longrightarrow> pp n \<noteq> None)
     \<and> (\<forall>t n p. C t = NUser n p \<longrightarrow> pp n = Some p \<and> uc n)
     \<and> (\<forall>n. uc n \<longrightarrow> (\<exists>t p. C t = NUser n p))
     \<and> (\<forall>t u n p q. C t = NUser n p \<and> C u = NUser n q \<longrightarrow> t = u)
     \<and> (\<forall>t n p. C t = NCancelWait n p \<longrightarrow> Wt n = Some t \<and> pp n = Some p \<and> cw n)
     \<and> (\<forall>t n p. C t = NPutWait n p \<longrightarrow> Wt n = Some t \<and> pp n = Some p \<and> uw n)
     \<and> (\<forall>n t. Wt n = Some t \<longrightarrow> (\<exists>p. C t = NCancelWait n p \<or> C t = NPutWait n p))
     \<and> (\<forall>n. cw n \<or> uw n \<longrightarrow> Wt n \<noteq> None) \<and> (\<forall>n. \<not> (cw n \<and> uw n))"

lemma queuedD:
  assumes "queued pp rq Q"
  shows "pp n = Some p \<Longrightarrow> pp m = Some p \<Longrightarrow> n = m" "count Q p \<le> 1" "p \<in># Q \<Longrightarrow> \<exists>n. pp n = Some p \<and> rq n"
    "rq n \<Longrightarrow> \<exists>p \<in># Q. pp n = Some p"
  using assms unfolding queued_def by blast+

lemma queuedI:
  assumes "\<And>n m p. pp n = Some p \<Longrightarrow> pp m = Some p \<Longrightarrow> n = m" "\<And>p. count Q p \<le> 1" "\<And>p. p \<in># Q \<Longrightarrow> \<exists>n. pp n = Some p \<and> rq n"
    "\<And>n. rq n \<Longrightarrow> \<exists>p \<in># Q. pp n = Some p"
  shows "queued pp rq Q"
  using assms unfolding queued_def by blast

lemma queued_upd:
  assumes q: "queued pp rq Q" and n: "\<not> rq n" "\<forall>m. z \<noteq> None \<longrightarrow> pp m \<noteq> z"
  shows "queued (pp(n := z)) rq Q"
proof (rule queuedI)
  show "\<exists>m. (pp(n := z)) m = Some x \<and> rq m" if x: "x \<in># Q" for x
  proof -
    obtain m where "pp m = Some x" "rq m" using queuedD(3)[OF q x] by blast
    then show ?thesis using n by (intro exI[of _ m]) auto
  qed
  show "rq m \<Longrightarrow> \<exists>x \<in># Q. (pp(n := z)) m = Some x" for m using queuedD(4)[OF q, of m] n(1) by (cases "m = n") auto
  show "(pp(n := z)) m = Some x \<Longrightarrow> (pp(n := z)) k = Some x \<Longrightarrow> m = k" for m k x
    using queuedD(1)[OF q, of m x k] n(2) by (cases "m = n"; cases "k = n") auto
qed (rule queuedD(2)[OF q])

lemma queued_take:
  assumes q: "queued pp rq (add_mset p Q)" and n: "pp n = Some p"
  shows "queued pp (rq(n := False)) Q"
proof (rule queuedI)
  have d: "p \<notin># Q" using queuedD(2)[OF q, of p] by (simp add: not_in_iff)
  show "count Q x \<le> 1" for x using queuedD(2)[OF q, of x] by (simp split: if_splits)
  show "\<exists>m. pp m = Some x \<and> (rq(n := False)) m" if x: "x \<in># Q" for x
  proof -
    obtain m where m: "pp m = Some x" "rq m" using queuedD(3)[OF q, of x] x by auto
    have "x \<noteq> p" using x d by auto
    then show ?thesis using m n by (intro exI[of _ m]) auto
  qed
  show "(rq(n := False)) m \<Longrightarrow> \<exists>x \<in># Q. pp m = Some x" for m
    using queuedD(4)[OF q, of m] queuedD(1)[OF q, of m p n] n by (cases "m = n") auto
qed (rule queuedD(1)[OF q])

lemma queued_push:
  assumes q: "queued pp rq Q" and n: "\<not> rq n" "pp n = Some p"
  shows "queued pp (rq(n := True)) (add_mset p Q)"
proof (rule queuedI)
  have "p \<notin># Q" using queuedD(1,3)[OF q] n by metis
  then show "count (add_mset p Q) x \<le> 1" for x using queuedD(2)[OF q, of x] by (auto simp: not_in_iff)
  show "\<exists>m. pp m = Some x \<and> (rq(n := True)) m" if "x \<in># add_mset p Q" for x
    using queuedD(3)[OF q, of x] that n by (cases "x = p") auto
  show "(rq(n := True)) m \<Longrightarrow> \<exists>x \<in># add_mset p Q. pp m = Some x" for m using queuedD(4)[OF q, of m] n by (cases "m = n") auto
qed (rule queuedD(1)[OF q])

lemma thr_fresh: "thr pp uc cw uw C Wt \<Longrightarrow> pp n = None \<Longrightarrow> thr (pp(n := Some p)) uc cw uw C Wt"
  unfolding thr_def by (auto; metis)

lemma thr_drop: "thr pp uc cw uw C Wt \<Longrightarrow> \<not> uc n \<Longrightarrow> \<not> cw n \<Longrightarrow> \<not> uw n \<Longrightarrow> thr (pp(n := None)) uc cw uw C Wt"
  unfolding thr_def by (auto; metis)

lemma thr_signal: "thr pp uc cw uw C Wt \<Longrightarrow> C t = NUser n p \<Longrightarrow> thr pp (uc(n := False)) cw uw (C(t := NIdle)) Wt"
  unfolding thr_def by (auto; metis notifypc.distinct notifypc.inject)

lemma thr_wait_cancel: "thr pp uc cw uw C Wt \<Longrightarrow> C t = NIdle \<Longrightarrow> Wt n = None \<Longrightarrow> pp n = Some p \<Longrightarrow>
    thr pp uc (cw(n := True)) uw (C(t := NCancelWait n p)) (Wt(n := Some t))"
  unfolding thr_def by (auto; metis notifypc.distinct option.distinct(1))

lemma thr_wait_put: "thr pp uc cw uw C Wt \<Longrightarrow> C t = NIdle \<Longrightarrow> Wt n = None \<Longrightarrow> pp n = Some p \<Longrightarrow>
    thr pp uc cw (uw(n := True)) (C(t := NPutWait n p)) (Wt(n := Some t))"
  unfolding thr_def by (auto; metis notifypc.distinct option.distinct(1))

lemma thr_wake: "thr pp uc cw uw C Wt \<Longrightarrow> C t = NCancelWait n p \<or> C t = NPutWait n p \<Longrightarrow> \<not> uc n \<Longrightarrow>
    thr (pp(n := None)) uc (cw(n := False)) (uw(n := False)) (C(t := NIdle)) (Wt(n := None))"
  unfolding thr_def by (auto; metis notifypc.distinct notifypc.inject option.inject)

lemma thr_user: "thr pp uc cw uw C Wt \<Longrightarrow> C t = NIdle \<Longrightarrow> \<not> uc n \<Longrightarrow> pp n = Some p \<Longrightarrow> thr pp (uc(n := True)) cw uw (C(t := NUser n p)) Wt"
  unfolding thr_def by (auto; metis notifypc.distinct notifypc.inject)

section \<open>The whole\<close>

definition rcrv :: "(addr \<times> putNotifyPvt) option \<Rightarrow> bool" where
  "rcrv z \<longleftrightarrow> actv z = Some putNotifyRestartCallbackRequested"

definition wfrv :: "(addr \<times> putNotifyPvt) option \<Rightarrow> bool" where
  "wfrv z \<longleftrightarrow> actv z = Some putNotifyWaitForRestart"

definition ucav :: "(addr \<times> putNotifyPvt) option \<Rightarrow> bool" where
  "ucav z \<longleftrightarrow> actv z = Some putNotifyUserCallbackActive"

definition rqv :: "(addr \<times> putNotifyPvt) option \<Rightarrow> bool" where
  "rqv z \<longleftrightarrow> requested (actv z)"

definition cwv :: "(addr \<times> putNotifyPvt) option \<Rightarrow> bool" where
  "cwv z = (case z of None \<Rightarrow> False | Some (p, v) \<Rightarrow> cancelWait v \<or> cancelEvent v)"

definition uwv :: "(addr \<times> putNotifyPvt) option \<Rightarrow> bool" where
  "uwv z = (case z of None \<Rightarrow> False | Some (p, v) \<Rightarrow> userCallbackWait v \<or> userCallbackEvent v)"

definition ppv :: "(addr \<times> putNotifyPvt) option \<Rightarrow> ptr" where
  "ppv z = map_option fst z"

lemma part_simps [simp]:
  "\<not> rcrv None" "\<not> wfrv None" "\<not> ucav None" "\<not> rqv None" "\<not> cwv None" "\<not> uwv None" "ppv None = None" "ppv (Some (p, v)) = Some p"
  "cwv (Some (p, v)) \<longleftrightarrow> cancelWait v \<or> cancelEvent v" "uwv (Some (p, v)) \<longleftrightarrow> userCallbackWait v \<or> userCallbackEvent v"
  by (simp_all add: rcrv_def wfrv_def ucav_def rqv_def cwv_def uwv_def ppv_def)

text \<open>Leaving out the \<open>putNotify\<close>s in hand.\<close>

definition hand :: "addr set \<Rightarrow> (addr \<Rightarrow> bool) \<Rightarrow> addr \<Rightarrow> bool" where
  "hand Y f n \<longleftrightarrow> f n \<and> n \<notin> Y"

lemma hand_simps: "hand {} f = f" "hand (insert n Y) f = (hand Y f)(n := False)" "hand Y (f(n := b)) = (hand Y f)(n := b \<and> n \<notin> Y)"
  by (auto simp: hand_def fun_eq_iff)

text \<open>What holds for one \<open>putNotify\<close>.\<close>

definition loc :: "(addr \<times> putNotifyPvt) option \<Rightarrow> putNotify option \<Rightarrow> bool" where
  "loc z x \<longleftrightarrow> (rfv x \<longleftrightarrow> wfrv z) \<and> (case z of None \<Rightarrow> True | Some (p, v) \<Rightarrow>
     (waitList v \<noteq> [] \<longrightarrow> inProg (actv z)) \<and> (actv z = Some putNotifyRestartInProgress \<longrightarrow> set (waitList v) \<subseteq> {homev x})
     \<and> (cancelWait v \<longrightarrow> cancelEvent v \<or> rqv z \<or> ucav z) \<and> (userCallbackWait v \<longrightarrow> userCallbackEvent v \<or> ucav z))"

definition settled :: "(addr \<times> putNotifyPvt) option \<Rightarrow> bool" where
  "settled z \<longleftrightarrow> (case z of None \<Rightarrow> True | Some (p, v) \<Rightarrow> pn_state v \<noteq> putNotifyNotActive \<and> (inProg (actv z) \<longrightarrow> waitList v \<noteq> []))"

definition flagged :: "(addr \<rightharpoonup> notifyRec) \<Rightarrow> (addr \<Rightarrow> addr list) \<Rightarrow> bool" where
  "flagged R W \<longleftrightarrow> (\<forall>r. (ownv (R r) \<noteq> None \<longrightarrow> nrv (R r)) \<and> (wfv (R r) \<longleftrightarrow> (\<exists>n. r \<in> set (W n))))"

text \<open>With the records of \<open>X\<close> and the \<open>putNotify\<close>s of \<open>Y\<close> in hand.\<close>

definition seen :: "addr set \<Rightarrow> addr set \<Rightarrow> pview \<Rightarrow> (addr \<rightharpoonup> notifyRec) \<Rightarrow> (addr \<rightharpoonup> putNotify) \<Rightarrow> addr multiset \<Rightarrow> (addr \<Rightarrow> notifypc) \<Rightarrow> (addr \<Rightarrow> ptr) \<Rightarrow> bool" where
  "seen X Y P R N Q C Wt \<longleftrightarrow>
     core X (hand Y (rcrv \<circ> P)) (wfrv \<circ> P) (wlv \<circ> P) (ownv \<circ> R) (rlv \<circ> R) (homev \<circ> N)
     \<and> queued (ppv \<circ> P) (hand Y (rqv \<circ> P)) Q
     \<and> thr (ppv \<circ> P) (ucav \<circ> P) (cwv \<circ> P) (uwv \<circ> P) C Wt
     \<and> (\<forall>n. loc (P n) (N n)) \<and> flagged R (wlv \<circ> P)"

lemma seenD:
  assumes "seen X Y P R N Q C Wt"
  shows "core X (hand Y (rcrv \<circ> P)) (wfrv \<circ> P) (wlv \<circ> P) (ownv \<circ> R) (rlv \<circ> R) (homev \<circ> N)"
    "queued (ppv \<circ> P) (hand Y (rqv \<circ> P)) Q" "thr (ppv \<circ> P) (ucav \<circ> P) (cwv \<circ> P) (uwv \<circ> P) C Wt"
    "loc (P n) (N n)" "flagged R (wlv \<circ> P)"
  using assms unfolding seen_def by blast+

end
