(* ===== verification/DbNotifySeen.thy ===== *)
theory DbNotifySeen
  imports DbNotifyInv
begin

text \<open>The steps of put notification as changes of what is seen, each keeping \<open>seen\<close>.\<close>

lemma upd_same: "f z = f (g n) \<Longrightarrow> f \<circ> g(n := z) = f \<circ> g"
  by (auto simp: fun_eq_iff)

lemma in_hand [simp]: "n \<in> Y \<Longrightarrow> (hand Y f)(n := False) = hand Y f" "n \<in> Y \<Longrightarrow> hand Y (f(n := b)) = hand Y f" "n \<in> Y \<Longrightarrow> \<not> hand Y f n"
  by (auto simp: hand_def fun_eq_iff)

lemma hand_grab: "\<not> f n \<Longrightarrow> hand (insert n Y) f = hand Y f"
  by (auto simp: hand_def fun_eq_iff)

section \<open>Records and fields\<close>

lemma seen_rec:
  assumes "seen X Y P R N Q C Wt" "ownv (Some d) = ownv (R r)" "rlv (Some d) = rlv (R r)" "wfv (Some d) = wfv (R r)" "nrv (R r) \<Longrightarrow> nrv (Some d)"
  shows "seen X Y P (R(r \<mapsto> d)) N Q C Wt"
proof -
  have "flagged (R(r \<mapsto> d)) (wlv \<circ> P)" using seenD(5)[OF assms(1)] assms(2,4,5) by (auto simp: flagged_def)
  then show ?thesis using assms(1-3) by (simp add: seen_def upd_same)
qed

lemma seen_note:
  assumes "seen X Y P R N Q C Wt" "homev (Some x) = homev (N n)" "rfv (Some x) = rfv (N n)"
  shows "seen X Y P R (N(n \<mapsto> x)) Q C Wt"
proof -
  have "loc (P m) ((N(n \<mapsto> x)) m)" for m using seenD(4)[OF assms(1), of m] assms(2,3) by (cases "m = n") (auto simp: loc_def split: option.splits prod.splits)
  then show ?thesis using assms by (simp add: seen_def upd_same)
qed

lemma seen_grab: "seen X Y P R N Q C Wt \<Longrightarrow> \<not> rqv (P n) \<Longrightarrow> seen X (insert n Y) P R N Q C Wt"
  by (simp add: seen_def hand_grab rqv_def rcrv_def requested_def)

lemma seen_leave: "seen X (insert n Y) P R N Q C Wt \<Longrightarrow> \<not> rqv (P n) \<Longrightarrow> seen X Y P R N Q C Wt"
  by (simp add: seen_def hand_grab rqv_def rcrv_def requested_def)

section \<open>A \<open>putNotify\<close> in hand\<close>

definition quiet :: "putNotifyPvt \<Rightarrow> bool" where
  "quiet v \<longleftrightarrow> \<not> cancelWait v \<and> \<not> userCallbackWait v \<and> \<not> cancelEvent v \<and> \<not> userCallbackEvent v"

lemma quiet_parts: "quiet v \<Longrightarrow> actv (Some (p, v)) = Some (pn_state v)" "quiet v \<Longrightarrow> \<not> cwv (Some (p, v))" "quiet v \<Longrightarrow> \<not> uwv (Some (p, v))"
  by (simp_all add: quiet_def)

lemma quiet_loc: "quiet v \<Longrightarrow> loc (Some (p, v)) x \<longleftrightarrow> (rfv x \<longleftrightarrow> pn_state v = putNotifyWaitForRestart) \<and> (waitList v \<noteq> [] \<longrightarrow> inProg (Some (pn_state v)))
     \<and> (pn_state v = putNotifyRestartInProgress \<longrightarrow> set (waitList v) \<subseteq> {homev x})"
  by (simp add: loc_def quiet_def wfrv_def)

lemma loc_quiet: "loc (Some (p, v)) x \<Longrightarrow> actv (Some (p, v)) = Some a \<Longrightarrow> a \<noteq> putNotifyUserCallbackActive \<Longrightarrow> \<not> cancelWait v \<or> \<not> requested (Some a) \<Longrightarrow> quiet v"
  by (auto simp: loc_def quiet_def rqv_def ucav_def split: if_splits)

lemma seen_hand:
  assumes s: "seen X Y P R N Q C Wt" and n: "n \<in> Y" "P n = Some (p, v)" and v: "quiet v" "quiet v'"
    and st: "pn_state v \<noteq> putNotifyUserCallbackActive" "pn_state v' \<noteq> putNotifyUserCallbackActive" "pn_state v \<noteq> putNotifyWaitForRestart"
      "pn_state v' \<noteq> putNotifyWaitForRestart" "waitList v' = []" "waitList v = []"
  shows "seen X Y (P(n := Some (p, v'))) R N Q C Wt"
proof -
  have "loc (Some (p, v')) (N n)" using seenD(4)[OF s, of n] v st n(2) by (simp add: quiet_loc)
  then have "loc ((P(n := Some (p, v'))) m) (N m)" for m using seenD(4)[OF s, of m] by simp
  moreover have "wlv \<circ> P(n := Some (p, v')) = wlv \<circ> P" "wfrv \<circ> P(n := Some (p, v')) = wfrv \<circ> P" "ucav \<circ> P(n := Some (p, v')) = ucav \<circ> P"
    "cwv \<circ> P(n := Some (p, v')) = cwv \<circ> P" "uwv \<circ> P(n := Some (p, v')) = uwv \<circ> P" "ppv \<circ> P(n := Some (p, v')) = ppv \<circ> P"
    using n(2) v st by (intro upd_same; simp add: wfrv_def ucav_def quiet_def)+
  moreover have "hand Y (rcrv \<circ> P(n := Some (p, v'))) = hand Y (rcrv \<circ> P)" "hand Y (rqv \<circ> P(n := Some (p, v'))) = hand Y (rqv \<circ> P)"
    using n(1) by (simp_all add: fun_upd_comp)
  ultimately show ?thesis using s unfolding seen_def by simp
qed

text \<open>A change of one place, put together from its parts.\<close>

lemma seen_set:
  assumes s: "seen X Y P R N Q C Wt"
    and "core X' (hand Y' ((rcrv \<circ> P)(n := rcrv z))) ((wfrv \<circ> P)(n := wfrv z)) ((wlv \<circ> P)(n := wlv z)) (ownv \<circ> R') (rlv \<circ> R') (homev \<circ> N')"
    and "queued ((ppv \<circ> P)(n := ppv z)) (hand Y' ((rqv \<circ> P)(n := rqv z))) Q'"
    and "thr ((ppv \<circ> P)(n := ppv z)) ((ucav \<circ> P)(n := ucav z)) ((cwv \<circ> P)(n := cwv z)) ((uwv \<circ> P)(n := uwv z)) C' Wt'"
    and "loc z (N' n)" "\<forall>m. m \<noteq> n \<longrightarrow> N' m = N m" "flagged R' ((wlv \<circ> P)(n := wlv z))"
  shows "seen X' Y' (P(n := z)) R' N' Q' C' Wt'"
proof -
  have "loc ((P(n := z)) m) (N' m)" for m using seenD(4)[OF s, of m] assms(5,6) by simp
  then show ?thesis using assms(2-4,7) by (simp add: seen_def fun_upd_comp)
qed

lemma flaggedD: "flagged R W \<Longrightarrow> ownv (R r) \<noteq> None \<Longrightarrow> nrv (R r)" "flagged R W \<Longrightarrow> wfv (R r) \<longleftrightarrow> (\<exists>n. r \<in> set (W n))"
  unfolding flagged_def by blast+

lemma flag_same: "flagged R W \<Longrightarrow> wfv (Some d) = wfv (R r) \<Longrightarrow> nrv (Some d) \<Longrightarrow> flagged (R(r \<mapsto> d)) W"
  unfolding flagged_def by simp

lemma flag_add:
  assumes "flagged R W" "wfv (Some d)" "nrv (Some d)"
  shows "flagged (R(r \<mapsto> d)) (W(n := W n @ [r]))"
proof -
  have "(\<exists>m. x \<in> set ((W(n := W n @ [r])) m)) \<longleftrightarrow> x = r \<or> (\<exists>m. x \<in> set (W m))" for x by (auto split: if_splits)
  then show ?thesis using assms by (simp add: flagged_def)
qed

lemma flag_del:
  assumes "flagged R W" "\<not> wfv (Some d)" "nrv (Some d)" "distinct (W n)" "\<forall>m. m \<noteq> n \<longrightarrow> r \<notin> set (W m)"
  shows "flagged (R(r \<mapsto> d)) (W(n := remove1 r (W n)))"
proof -
  have "(\<exists>m. x \<in> set ((W(n := remove1 r (W n))) m)) \<longleftrightarrow> x \<noteq> r \<and> (\<exists>m. x \<in> set (W m))" for x
    using assms(4,5) by (auto split: if_splits)
  then show ?thesis using assms by (simp add: flagged_def)
qed

lemma claim_flag: "seen X Y P R N Q C Wt \<Longrightarrow> r \<in> X \<or> ownv (R r) = None \<Longrightarrow> \<not> wfv (R r) \<and> (\<forall>n. r \<notin> set (wlv (P n)))"
  using seenD(5)[of X Y P R N Q C Wt] coreD(3,6)[OF seenD(1), of X Y P R N Q C Wt r] by (force simp: flagged_def)

lemma seen_claim:
  assumes s: "seen X Y P R N Q C Wt" and n: "n \<in> Y" "P n = Some (p, v)" "quiet v" "waitList v = []" "pn_state v \<noteq> putNotifyUserCallbackActive"
      "pn_state v \<noteq> putNotifyWaitForRestart"
    and r: "R r = Some d" "ppnr d = Some w" "N n = Some x" "pn_record x = r" "X = {r} \<or> X = {} \<and> ppn d = None"
    and a: "inProg (Some a)"
  shows "seen {} Y (P(n := Some (p, v\<lparr>waitList := [r], pn_state := a\<rparr>))) (R(r \<mapsto> d\<lparr>ppn := Some n, ppnr := Some (w\<lparr>waitOnList := True\<rparr>)\<rparr>)) N Q C Wt"
proof -
  let ?z = "Some (p, v\<lparr>waitList := [r], pn_state := a\<rparr>)"
  have q: "actv ?z = Some a" "\<not> cwv ?z" "\<not> uwv ?z" "\<not> cwv (P n)" "\<not> uwv (P n)" "actv (P n) = Some (pn_state v)" using n(2,3) by (simp_all add: quiet_def)
  have f: "\<not> wfv (R r) \<and> (\<forall>m. r \<notin> set (wlv (P m)))" by (rule claim_flag[OF s]) (use r in auto)
  have c: "core {} (hand Y (rcrv \<circ> P)) (wfrv \<circ> P) ((wlv \<circ> P)(n := [r])) ((ownv \<circ> R)(r := Some n)) (rlv \<circ> R) (homev \<circ> N)"
    by (rule core_claim[OF seenD(1)[OF s]]) (use n r q(6) in \<open>auto simp: wfrv_def\<close>)
  have a2: "a \<noteq> putNotifyWaitForRestart" "a \<noteq> putNotifyUserCallbackActive" using a by auto
  have k: "(wfrv \<circ> P)(n := wfrv ?z) = wfrv \<circ> P" "(ucav \<circ> P)(n := ucav ?z) = ucav \<circ> P" "(cwv \<circ> P)(n := cwv ?z) = cwv \<circ> P"
     "(uwv \<circ> P)(n := uwv ?z) = uwv \<circ> P" "(ppv \<circ> P)(n := ppv ?z) = ppv \<circ> P"
    using n(2,5,6) a2 q by (auto simp: fun_eq_iff wfrv_def ucav_def)
  have rl: "rlv \<circ> R(r \<mapsto> d\<lparr>ppn := Some n, ppnr := Some (w\<lparr>waitOnList := True\<rparr>)\<rparr>) = rlv \<circ> R" using r(1,2) by (intro upd_same) simp
  have fl: "flagged (R(r \<mapsto> d\<lparr>ppn := Some n, ppnr := Some (w\<lparr>waitOnList := True\<rparr>)\<rparr>)) ((wlv \<circ> P)(n := [r]))"
    using flag_add[OF seenD(5)[OF s], of "d\<lparr>ppn := Some n, ppnr := Some (w\<lparr>waitOnList := True\<rparr>)\<rparr>" r n] n(2,4) by simp
  show ?thesis
  proof (rule seen_set[OF s])
    show "loc ?z (N n)" using seenD(4)[OF s, of n] n q a2 a r(3,4) by (auto simp: loc_def quiet_def wfrv_def)
  qed (use c k rl fl n(1) seenD(2,3)[OF s] in \<open>simp_all add: fun_upd_comp\<close>)
qed

lemma seen_enq:
  assumes s: "seen {} Y P R N Q C Wt" and n: "n \<in> Y" "P n = Some (p, v)" "quiet v" "waitList v = []" "pn_state v \<noteq> putNotifyUserCallbackActive"
      "pn_state v \<noteq> putNotifyWaitForRestart"
    and r: "R r = Some d" "ppnr d = Some w" "N n = Some x" "pn_record x = r" "ppn d \<noteq> None"
  shows "seen {} Y (P(n := Some (p, v\<lparr>pn_state := putNotifyWaitForRestart\<rparr>))) (R(r \<mapsto> d\<lparr>ppnr := Some (w\<lparr>restartList := restartList w @ [n]\<rparr>)\<rparr>))
    (N(n \<mapsto> x\<lparr>restartOnList := True\<rparr>)) Q C Wt"
proof -
  let ?z = "Some (p, v\<lparr>pn_state := putNotifyWaitForRestart\<rparr>)" and ?d = "d\<lparr>ppnr := Some (w\<lparr>restartList := restartList w @ [n]\<rparr>)\<rparr>"
  have q: "actv ?z = Some putNotifyWaitForRestart" "\<not> cwv ?z" "\<not> uwv ?z" "\<not> cwv (P n)" "\<not> uwv (P n)" "actv (P n) = Some (pn_state v)" using n(2,3) by (simp_all add: quiet_def)
  have c: "core {} (hand Y (rcrv \<circ> P)) ((wfrv \<circ> P)(n := True)) (wlv \<circ> P) (ownv \<circ> R) ((rlv \<circ> R)(r := rlv (R r) @ [n])) (homev \<circ> N)"
    using core_enq[OF seenD(1)[OF s], of n] n r q(6) by (simp add: wfrv_def)
  have k: "(wlv \<circ> P)(n := wlv ?z) = wlv \<circ> P" "(ucav \<circ> P)(n := ucav ?z) = ucav \<circ> P" "(cwv \<circ> P)(n := cwv ?z) = cwv \<circ> P"
     "(uwv \<circ> P)(n := uwv ?z) = uwv \<circ> P" "(ppv \<circ> P)(n := ppv ?z) = ppv \<circ> P" "wfrv ?z"
    using n q by (auto simp: fun_eq_iff wfrv_def ucav_def)
  have rl: "ownv \<circ> R(r \<mapsto> ?d) = ownv \<circ> R" "homev \<circ> N(n \<mapsto> x\<lparr>restartOnList := True\<rparr>) = homev \<circ> N" using r by (simp_all add: upd_same)
  have fl: "flagged (R(r \<mapsto> ?d)) (wlv \<circ> P)" using r(1,2) by (intro flag_same[OF seenD(5)[OF s]]) simp_all
  show ?thesis
  proof (rule seen_set[OF s])
    show "loc ?z ((N(n \<mapsto> x\<lparr>restartOnList := True\<rparr>)) n)" using n q by (auto simp: loc_def quiet_def wfrv_def)
  qed (use c k rl fl n(1) r(1,2) seenD(2,3)[OF s] in \<open>simp_all add: fun_upd_comp\<close>)
qed

lemma seen_user:
  assumes s: "seen X Y P R N Q C Wt" and n: "n \<in> Y" "P n = Some (p, v)" "quiet v" "waitList v = []" "pn_state v \<noteq> putNotifyUserCallbackActive"
      "pn_state v \<noteq> putNotifyWaitForRestart" and t: "C t = NIdle"
  shows "seen X Y (P(n := Some (p, v\<lparr>pn_state := putNotifyUserCallbackActive\<rparr>))) R N Q (C(t := NUser n p)) Wt"
proof -
  let ?z = "Some (p, v\<lparr>pn_state := putNotifyUserCallbackActive\<rparr>)"
  have k: "(wlv \<circ> P)(n := wlv ?z) = wlv \<circ> P" "(wfrv \<circ> P)(n := wfrv ?z) = wfrv \<circ> P" "(cwv \<circ> P)(n := cwv ?z) = cwv \<circ> P"
     "(uwv \<circ> P)(n := uwv ?z) = uwv \<circ> P" "(ppv \<circ> P)(n := ppv ?z) = ppv \<circ> P" "ucav ?z" "\<not> ucav (P n)"
    using n by (auto simp: fun_eq_iff wfrv_def ucav_def quiet_def)
  have t: "thr (ppv \<circ> P) ((ucav \<circ> P)(n := True)) (cwv \<circ> P) (uwv \<circ> P) (C(t := NUser n p)) Wt"
    by (rule thr_user[OF seenD(3)[OF s] t]) (use k n(2) in simp_all)
  show ?thesis
  proof (rule seen_set[OF s])
    show "loc ?z (N n)" using seenD(4)[OF s, of n] n by (auto simp: loc_def quiet_def wfrv_def)
  qed (use t k n(1) seenD(1,2,5)[OF s] in \<open>simp_all add: fun_upd_comp\<close>)
qed

section \<open>Releasing a record\<close>

lemma seen_release:
  assumes s: "seen X Y P R N Q C Wt" and r: "r \<in> X" "R r = Some d" "ppnr d = Some w" "restartList w = []"
  shows "seen (X - {r}) Y P (R(r \<mapsto> d\<lparr>ppn := None\<rparr>)) N Q C Wt"
proof -
  have rl: "rlv \<circ> R(r \<mapsto> d\<lparr>ppn := None\<rparr>) = rlv \<circ> R" using r by (intro upd_same) simp
  have fl: "flagged (R(r \<mapsto> d\<lparr>ppn := None\<rparr>)) (wlv \<circ> P)" using r by (intro flag_same[OF seenD(5)[OF s]]) simp_all
  have "core (X - {r}) (hand Y (rcrv \<circ> P)) (wfrv \<circ> P) (wlv \<circ> P) ((ownv \<circ> R)(r := None)) (rlv \<circ> R) (homev \<circ> N)"
    by (rule core_release[OF seenD(1)[OF s] r(1)]) (use r in simp)
  then show ?thesis using s rl fl by (simp add: seen_def fun_upd_comp)
qed

lemma waiter_facts:
  assumes s: "seen X Y P R N Q C Wt" and f: "f \<in> set (rlv (R r))"
  shows "\<exists>p v x. P f = Some (p, v) \<and> N f = Some x \<and> pn_state v = putNotifyWaitForRestart \<and> restartOnList x \<and> quiet v \<and> waitList v = [] \<and> pn_record x = r"
proof -
  have w: "wfrv (P f)" "homev (N f) = r" using coreD(9)[OF seenD(1)[OF s], of f r] f by simp_all
  obtain p v where v: "P f = Some (p, v)" "actv (Some (p, v)) = Some putNotifyWaitForRestart"
    using w(1) by (cases "P f") (auto simp: wfrv_def split: if_splits)
  have l: "loc (Some (p, v)) (N f)" using seenD(4)[OF s, of f] v(1) by simp
  then have "rfv (N f)" using v(2) by (simp add: loc_def wfrv_def)
  then obtain x where x: "N f = Some x" "restartOnList x" by (cases "N f") simp_all
  have "quiet v" by (rule loc_quiet[OF l v(2)]) simp_all
  moreover have "waitList v = []" using l v(2) by (auto simp: loc_def)
  ultimately show ?thesis using v x w(2) by (auto split: if_splits)
qed

lemma seen_pass:
  assumes s: "seen X Y P R N Q C Wt" and r: "r \<in> X" "R r = Some d" "ppnr d = Some w" "restartList w = f # fs"
    and f: "P f = Some (p, v)" "N f = Some x" "quiet v" "pn_state v = putNotifyWaitForRestart" "waitList v = []" "f \<notin> Y"
  shows "seen (X - {r}) Y (P(f := Some (p, v\<lparr>pn_state := putNotifyRestartCallbackRequested\<rparr>)))
    (R(r \<mapsto> d\<lparr>ppn := Some f, ppnr := Some (w\<lparr>restartList := fs\<rparr>)\<rparr>)) (N(f \<mapsto> x\<lparr>restartOnList := False\<rparr>)) (add_mset p Q) C Wt"
proof -
  let ?z = "Some (p, v\<lparr>pn_state := putNotifyRestartCallbackRequested\<rparr>)" and ?d = "d\<lparr>ppn := Some f, ppnr := Some (w\<lparr>restartList := fs\<rparr>)\<rparr>"
  have q: "actv ?z = Some putNotifyRestartCallbackRequested" "actv (P f) = Some putNotifyWaitForRestart" using f by (simp_all add: quiet_def)
  have c: "core (X - {r}) ((hand Y (rcrv \<circ> P))(f := True)) ((wfrv \<circ> P)(f := False)) (wlv \<circ> P) ((ownv \<circ> R)(r := Some f)) ((rlv \<circ> R)(r := fs)) (homev \<circ> N)"
    by (rule core_pass[OF seenD(1)[OF s] r(1)]) (use r in simp)
  have k: "(wlv \<circ> P)(f := wlv ?z) = wlv \<circ> P" "(ucav \<circ> P)(f := ucav ?z) = ucav \<circ> P" "(cwv \<circ> P)(f := cwv ?z) = cwv \<circ> P"
     "(uwv \<circ> P)(f := uwv ?z) = uwv \<circ> P" "(ppv \<circ> P)(f := ppv ?z) = ppv \<circ> P" "rcrv ?z" "rqv ?z" "\<not> wfrv ?z"
    using f q by (auto simp: fun_eq_iff wfrv_def ucav_def rcrv_def rqv_def)
  have rl: "homev \<circ> N(f \<mapsto> x\<lparr>restartOnList := False\<rparr>) = homev \<circ> N" using f(2) by (simp add: upd_same)
  have fl: "flagged (R(r \<mapsto> ?d)) (wlv \<circ> P)" using r by (intro flag_same[OF seenD(5)[OF s]]) simp_all
  have qu: "queued (ppv \<circ> P) ((hand Y (rqv \<circ> P))(f := True)) (add_mset p Q)"
    by (rule queued_push[OF seenD(2)[OF s]]) (use f q in \<open>simp_all add: hand_def rqv_def\<close>)
  show ?thesis
  proof (rule seen_set[OF s])
    show "loc ?z ((N(f \<mapsto> x\<lparr>restartOnList := False\<rparr>)) f)" using f q by (auto simp: loc_def quiet_def wfrv_def)
  qed (use c k rl fl qu f(6) seenD(3)[OF s] in \<open>simp_all add: fun_upd_comp hand_simps\<close>)
qed

section \<open>Wait lists\<close>

lemma seen_wdel:
  assumes s: "seen {} Y P R N Q C Wt" and n: "P n = Some (p, v)" "r \<in> set (waitList v)"
    and r: "R r = Some d" "ppnr d = Some w"
  shows "seen {r} Y (P(n := Some (p, v\<lparr>waitList := remove1 r (waitList v)\<rparr>))) (R(r \<mapsto> d\<lparr>ppnr := Some (w\<lparr>waitOnList := False\<rparr>)\<rparr>)) N Q C Wt"
proof -
  let ?z = "Some (p, v\<lparr>waitList := remove1 r (waitList v)\<rparr>)" and ?d = "d\<lparr>ppnr := Some (w\<lparr>waitOnList := False\<rparr>)\<rparr>"
  have W: "r \<in> set ((wlv \<circ> P) n)" using n by simp
  have c: "core {r} (hand Y (rcrv \<circ> P)) (wfrv \<circ> P) ((wlv \<circ> P)(n := remove1 r (waitList v))) (ownv \<circ> R) (rlv \<circ> R) (homev \<circ> N)"
    using core_wdel[OF seenD(1)[OF s] W] n(1) by (simp add: comp_def)
  have k: "(rcrv \<circ> P)(n := rcrv ?z) = rcrv \<circ> P" "(rqv \<circ> P)(n := rqv ?z) = rqv \<circ> P" "(wfrv \<circ> P)(n := wfrv ?z) = wfrv \<circ> P" "(ucav \<circ> P)(n := ucav ?z) = ucav \<circ> P"
     "(cwv \<circ> P)(n := cwv ?z) = cwv \<circ> P" "(uwv \<circ> P)(n := uwv ?z) = uwv \<circ> P" "(ppv \<circ> P)(n := ppv ?z) = ppv \<circ> P"
    using n by (auto simp: fun_eq_iff wfrv_def ucav_def rcrv_def rqv_def)
  have rl: "ownv \<circ> R(r \<mapsto> ?d) = ownv \<circ> R" "rlv \<circ> R(r \<mapsto> ?d) = rlv \<circ> R" using r by (simp_all add: upd_same)
  have one: "r \<notin> set (wlv (P m))" if "m \<noteq> n" for m
    using coreD(6)[OF seenD(1)[OF s], of r m] coreD(6)[OF seenD(1)[OF s], of r n] W that by auto
  have fl: "flagged (R(r \<mapsto> ?d)) ((wlv \<circ> P)(n := remove1 r (waitList v)))"
    using flag_del[OF seenD(5)[OF s], of ?d n r] coreD(5)[OF seenD(1)[OF s], of n] one n(1) by simp
  show ?thesis
  proof (rule seen_set[OF s])
    have "inProg (actv (P n))" using seenD(4)[OF s, of n] n by (auto simp: loc_def)
    then show "loc ?z (N n)" using seenD(4)[OF s, of n] n by (auto simp: loc_def wfrv_def rqv_def ucav_def dest: set_remove1_subset[THEN subsetD] split: if_splits)
  qed (use c k rl fl seenD(2,3)[OF s] in simp_all)
qed

lemma seen_join:
  assumes s: "seen {} Y P R N Q C Wt" and n: "P n = Some (p, v)" "actv (P n) = Some putNotifyPutInProgress" "waitList v \<noteq> []"
    and r: "R r = Some d" "ppn d = None" "ppnr d = Some w"
  shows "\<not> waitOnList w \<and> seen {} Y (P(n := Some (p, v\<lparr>waitList := waitList v @ [r]\<rparr>)))
    (R(r \<mapsto> d\<lparr>ppn := Some n, ppnr := Some (w\<lparr>waitOnList := True\<rparr>)\<rparr>)) N Q C Wt"
proof
  let ?z = "Some (p, v\<lparr>waitList := waitList v @ [r]\<rparr>)" and ?d = "d\<lparr>ppn := Some n, ppnr := Some (w\<lparr>waitOnList := True\<rparr>)\<rparr>"
  show "\<not> waitOnList w" using claim_flag[OF s, of r] r by simp
  have q: "actv ?z = Some putNotifyPutInProgress" using n(1,2) by (simp split: if_splits)
  have c: "core {} (hand Y (rcrv \<circ> P)) (wfrv \<circ> P) ((wlv \<circ> P)(n := waitList v @ [r])) ((ownv \<circ> R)(r := Some n)) (rlv \<circ> R) (homev \<circ> N)"
    using core_join[OF seenD(1)[OF s], of n r] n r by simp
  have k: "(rcrv \<circ> P)(n := rcrv ?z) = rcrv \<circ> P" "(rqv \<circ> P)(n := rqv ?z) = rqv \<circ> P" "(wfrv \<circ> P)(n := wfrv ?z) = wfrv \<circ> P" "(ucav \<circ> P)(n := ucav ?z) = ucav \<circ> P"
     "(cwv \<circ> P)(n := cwv ?z) = cwv \<circ> P" "(uwv \<circ> P)(n := uwv ?z) = uwv \<circ> P" "(ppv \<circ> P)(n := ppv ?z) = ppv \<circ> P"
    using n(1) by (auto simp: fun_eq_iff wfrv_def ucav_def rcrv_def rqv_def)
  have rl: "rlv \<circ> R(r \<mapsto> ?d) = rlv \<circ> R" using r by (intro upd_same) simp
  have fl: "flagged (R(r \<mapsto> ?d)) ((wlv \<circ> P)(n := waitList v @ [r]))"
    using flag_add[OF seenD(5)[OF s], of ?d r n] n(1) by simp
  show "seen {} Y (P(n := ?z)) (R(r \<mapsto> ?d)) N Q C Wt"
  proof (rule seen_set[OF s])
    show "loc ?z (N n)" using seenD(4)[OF s, of n] n q by (auto simp: loc_def wfrv_def rqv_def ucav_def split: if_splits)
  qed (use c k rl fl seenD(2,3)[OF s] in \<open>simp_all add: fun_upd_comp\<close>)
qed

section \<open>The life of a private structure\<close>

lemma seen_fresh:
  assumes s: "seen X Y P R N Q C Wt" and n: "P n = None" "\<forall>m. ppv (P m) \<noteq> Some p" "quiet v" "waitList v = []" "pn_state v = putNotifyNotActive"
  shows "seen X Y (P(n := Some (p, v))) R N Q C Wt"
proof -
  let ?z = "Some (p, v)"
  have k: "(rcrv \<circ> P)(n := rcrv ?z) = rcrv \<circ> P" "(rqv \<circ> P)(n := rqv ?z) = rqv \<circ> P" "(wfrv \<circ> P)(n := wfrv ?z) = wfrv \<circ> P" "(ucav \<circ> P)(n := ucav ?z) = ucav \<circ> P"
     "(cwv \<circ> P)(n := cwv ?z) = cwv \<circ> P" "(uwv \<circ> P)(n := uwv ?z) = uwv \<circ> P" "(wlv \<circ> P)(n := wlv ?z) = wlv \<circ> P"
    using n by (auto simp: fun_eq_iff wfrv_def ucav_def rcrv_def rqv_def quiet_def)
  have qu: "queued ((ppv \<circ> P)(n := Some p)) (hand Y (rqv \<circ> P)) Q"
    by (rule queued_upd[OF seenD(2)[OF s]]) (use n in \<open>simp_all add: hand_def\<close>)
  have th: "thr ((ppv \<circ> P)(n := Some p)) (ucav \<circ> P) (cwv \<circ> P) (uwv \<circ> P) C Wt"
    by (rule thr_fresh[OF seenD(3)[OF s]]) (use n in simp)
  show ?thesis
  proof (rule seen_set[OF s])
    show "loc ?z (N n)" using seenD(4)[OF s, of n] n by (auto simp: loc_def wfrv_def rqv_def ucav_def quiet_def)
  qed (use k qu th seenD(1,5)[OF s] in simp_all)
qed

text \<open>A \<open>putNotify\<close> in hand that is not active, or whose user has been signalled, goes.\<close>

lemma seen_gone:
  assumes s: "seen X Y P R N Q C Wt" and n: "wlv (P n) = []" "\<not> rqv (P n)" "\<not> wfrv (P n)"
    and th: "thr ((ppv \<circ> P)(n := None)) ((ucav \<circ> P)(n := False)) ((cwv \<circ> P)(n := False)) ((uwv \<circ> P)(n := False)) C' Wt'"
  shows "seen X Y (P(n := None)) R N Q C' Wt'"
proof -
  have "\<not> rcrv (P n)" using n(2) by (auto simp: rqv_def rcrv_def)
  then have k: "(rcrv \<circ> P)(n := rcrv None) = rcrv \<circ> P" "(rqv \<circ> P)(n := rqv None) = rqv \<circ> P" "(wfrv \<circ> P)(n := wfrv None) = wfrv \<circ> P"
     "(wlv \<circ> P)(n := wlv None) = wlv \<circ> P"
    using n by (auto simp: fun_eq_iff)
  have qu: "queued ((ppv \<circ> P)(n := None)) (hand Y (rqv \<circ> P)) Q"
    by (rule queued_upd[OF seenD(2)[OF s]]) (use n in \<open>simp_all add: hand_def\<close>)
  show ?thesis
  proof (rule seen_set[OF s])
    show "loc None (N n)" using seenD(4)[OF s, of n] n by (auto simp: loc_def)
  qed (use k qu th seenD(1,5)[OF s] in simp_all)
qed

lemma seen_drop:
  assumes s: "seen X Y P R N Q C Wt" and n: "P n = Some (p, v)" "quiet v" "waitList v = []" "\<not> requested (Some (pn_state v))"
    "pn_state v \<noteq> putNotifyUserCallbackActive" "pn_state v \<noteq> putNotifyWaitForRestart"
  shows "seen X Y (P(n := None)) R N Q C Wt"
proof (rule seen_gone[OF s])
  have k: "(ucav \<circ> P)(n := False) = ucav \<circ> P" "(cwv \<circ> P)(n := False) = cwv \<circ> P" "(uwv \<circ> P)(n := False) = uwv \<circ> P"
    using n by (auto simp: fun_eq_iff ucav_def quiet_def)
  show "thr ((ppv \<circ> P)(n := None)) ((ucav \<circ> P)(n := False)) ((cwv \<circ> P)(n := False)) ((uwv \<circ> P)(n := False)) C Wt"
    unfolding k by (rule thr_drop[OF seenD(3)[OF s]]) (use n in \<open>simp_all add: ucav_def quiet_def\<close>)
qed (use n in \<open>simp_all add: quiet_def rqv_def wfrv_def\<close>)

text \<open>A waiting \<open>putNotify\<close> leaves the restart list and goes.\<close>

lemma seen_unwait:
  assumes s: "seen {} Y P R N Q C Wt" and n: "P n = Some (p, v)" "quiet v" "pn_state v = putNotifyWaitForRestart"
    and r: "R (pn_record x) = Some d" "ppnr d = Some w" "N n = Some x"
  shows "seen {} Y (P(n := None)) (R(pn_record x \<mapsto> d\<lparr>ppnr := Some (w\<lparr>restartList := remove1 n (restartList w)\<rparr>)\<rparr>)) (N(n \<mapsto> x\<lparr>restartOnList := False\<rparr>)) Q C Wt"
proof -
  let ?d = "d\<lparr>ppnr := Some (w\<lparr>restartList := remove1 n (restartList w)\<rparr>)\<rparr>" and ?x = "x\<lparr>restartOnList := False\<rparr>"
  have q: "actv (P n) = Some putNotifyWaitForRestart" "waitList v = []" using n seenD(4)[OF s, of n] by (auto simp: quiet_def loc_def)
  have c: "core {} (hand Y (rcrv \<circ> P)) ((wfrv \<circ> P)(n := False)) (wlv \<circ> P) (ownv \<circ> R) ((rlv \<circ> R)(pn_record x := remove1 n (restartList w))) (homev \<circ> N)"
    using core_deq[OF seenD(1)[OF s], of n] q r by (simp add: wfrv_def)
  have k: "(rcrv \<circ> P)(n := False) = rcrv \<circ> P" "(rqv \<circ> P)(n := False) = rqv \<circ> P" "(ucav \<circ> P)(n := False) = ucav \<circ> P" "(cwv \<circ> P)(n := False) = cwv \<circ> P"
     "(uwv \<circ> P)(n := False) = uwv \<circ> P" "(wlv \<circ> P)(n := []) = wlv \<circ> P"
    using n q by (auto simp: fun_eq_iff rcrv_def rqv_def ucav_def quiet_def)
  have qu: "queued ((ppv \<circ> P)(n := None)) (hand Y (rqv \<circ> P)) Q"
    by (rule queued_upd[OF seenD(2)[OF s]]) (use q in \<open>simp_all add: hand_def rqv_def\<close>)
  have th: "thr ((ppv \<circ> P)(n := None)) (ucav \<circ> P) (cwv \<circ> P) (uwv \<circ> P) C Wt"
    by (rule thr_drop[OF seenD(3)[OF s]]) (use n q in \<open>simp_all add: ucav_def quiet_def\<close>)
  have rl: "ownv \<circ> R(pn_record x \<mapsto> ?d) = ownv \<circ> R" "homev \<circ> N(n \<mapsto> ?x) = homev \<circ> N" using r by (simp_all add: upd_same)
  have fl: "flagged (R(pn_record x \<mapsto> ?d)) (wlv \<circ> P)" using r by (intro flag_same[OF seenD(5)[OF s]]) simp_all
  show ?thesis
  proof (rule seen_set[OF s])
    show "loc None ((N(n \<mapsto> ?x)) n)" by (simp add: loc_def)
  qed (use c k qu th rl fl r in \<open>simp_all add: fun_upd_comp\<close>)
qed

section \<open>Threads\<close>

lemma seen_thr:
  assumes s: "seen X Y P R N Q C Wt" and n: "P n = Some (p, v)" "wlv z = waitList v" "ppv z = Some p" "\<not> rqv (P n)" "\<not> rqv z" "\<not> wfrv (P n)" "\<not> wfrv z"
    and th: "thr (ppv \<circ> P) ((ucav \<circ> P)(n := ucav z)) ((cwv \<circ> P)(n := cwv z)) ((uwv \<circ> P)(n := uwv z)) C' Wt'" and l: "loc z (N n)"
  shows "seen X Y (P(n := z)) R N Q C' Wt'"
proof -
  have "\<not> rcrv (P n)" "\<not> rcrv z" using n(4,5) by (auto simp: rqv_def rcrv_def)
  then have k: "(rcrv \<circ> P)(n := rcrv z) = rcrv \<circ> P" "(rqv \<circ> P)(n := rqv z) = rqv \<circ> P" "(wfrv \<circ> P)(n := wfrv z) = wfrv \<circ> P"
     "(wlv \<circ> P)(n := wlv z) = wlv \<circ> P" "(ppv \<circ> P)(n := ppv z) = ppv \<circ> P"
    using n by (auto simp: fun_eq_iff)
  show ?thesis by (rule seen_set[OF s]) (use k th l seenD(1,2,5)[OF s] in simp_all)
qed

text \<open>The user callback ends: nobody waits, or the waiting user is signalled.\<close>

lemma user_facts:
  assumes s: "seen X Y P R N Q C Wt" and t: "C t = NUser n p"
  obtains v where "P n = Some (p, v)" "pn_state v = putNotifyUserCallbackActive" "\<not> cancelEvent v" "\<not> userCallbackEvent v" "waitList v = []"
    "\<not> (cancelWait v \<and> userCallbackWait v)"
proof -
  have a: "(ppv \<circ> P) n = Some p" "(ucav \<circ> P) n" "\<not> ((cwv \<circ> P) n \<and> (uwv \<circ> P) n)" using seenD(3)[OF s] t unfolding thr_def by blast+
  obtain v where v: "P n = Some (p, v)" using a(1) by (auto simp: ppv_def)
  then have "pn_state v = putNotifyUserCallbackActive" "\<not> cancelEvent v" "\<not> userCallbackEvent v" using a(2) by (auto simp: ucav_def split: if_splits)
  moreover from this have "waitList v = []" using seenD(4)[OF s, of n] v by (auto simp: loc_def)
  moreover have "\<not> (cancelWait v \<and> userCallbackWait v)" using a(3) v by auto
  ultimately show thesis using that v by blast
qed

lemma seen_end:
  assumes s: "seen X Y P R N Q C Wt" and t: "C t = NUser n p" and v: "P n = Some (p, v)" "\<not> cancelWait v" "\<not> userCallbackWait v"
  shows "seen X Y (P(n := None)) R N Q (C(t := NIdle)) Wt"
proof -
  obtain v' where v': "P n = Some (p, v')" "pn_state v' = putNotifyUserCallbackActive" "\<not> cancelEvent v'" "\<not> userCallbackEvent v'" "waitList v' = []"
    using user_facts[OF s t] by metis
  have e: "v' = v" using v(1) v'(1) by simp
  have k: "(cwv \<circ> P)(n := False) = cwv \<circ> P" "(uwv \<circ> P)(n := False) = uwv \<circ> P" using v v' e by (auto simp: fun_eq_iff)
  show ?thesis
  proof (rule seen_gone[OF s])
    show "thr ((ppv \<circ> P)(n := None)) ((ucav \<circ> P)(n := False)) ((cwv \<circ> P)(n := False)) ((uwv \<circ> P)(n := False)) (C(t := NIdle)) Wt"
      unfolding k by (rule thr_drop[OF thr_signal[OF seenD(3)[OF s] t]]) (use v v' e in simp_all)
  qed (use v' in \<open>simp_all add: rqv_def wfrv_def\<close>)
qed

lemma seen_signal:
  assumes s: "seen X Y P R N Q C Wt" and t: "C t = NUser n p" and v: "P n = Some (p, v)"
    and v': "waitList v' = waitList v" "cancelWait v' \<or> cancelEvent v' \<longleftrightarrow> cancelWait v" "userCallbackWait v' \<or> userCallbackEvent v' \<longleftrightarrow> userCallbackWait v"
      "cancelEvent v' \<or> userCallbackEvent v'" "cancelWait v' \<longrightarrow> cancelEvent v'" "userCallbackWait v' \<longrightarrow> userCallbackEvent v'"
  shows "seen X Y (P(n := Some (p, v'))) R N Q (C(t := NIdle)) Wt"
proof -
  obtain w where w: "P n = Some (p, w)" "pn_state w = putNotifyUserCallbackActive" "\<not> cancelEvent w" "\<not> userCallbackEvent w" "waitList w = []"
    using user_facts[OF s t] by metis
  have e: "w = v" using v w(1) by simp
  have k: "(cwv \<circ> P)(n := cwv (Some (p, v'))) = cwv \<circ> P" "(uwv \<circ> P)(n := uwv (Some (p, v'))) = uwv \<circ> P" "\<not> ucav (Some (p, v'))"
    using v v' w e by (auto simp: fun_eq_iff ucav_def)
  have th: "thr (ppv \<circ> P) ((ucav \<circ> P)(n := False)) (cwv \<circ> P) (uwv \<circ> P) (C(t := NIdle)) Wt" by (rule thr_signal[OF seenD(3)[OF s] t])
  show ?thesis
  proof (rule seen_thr[OF s v])
    show "loc (Some (p, v')) (N n)" using seenD(4)[OF s, of n] v v' w e by (auto simp: loc_def wfrv_def)
  qed (use k th v v' w e in \<open>auto simp: rqv_def wfrv_def\<close>)
qed

text \<open>A user begins to wait.\<close>

lemma seen_wait_cancel:
  assumes s: "seen X Y P R N Q C Wt" and t: "C t = NIdle" "Wt n = None" and v: "P n = Some (p, v)" "requested (Some (pn_state v)) \<or> pn_state v = putNotifyUserCallbackActive"
  shows "seen X Y (P(n := Some (p, v\<lparr>cancelWait := True\<rparr>))) R N Q (C(t := NCancelWait n p)) (Wt(n := Some t))"
proof -
  let ?z = "Some (p, v\<lparr>cancelWait := True\<rparr>)"
  have w: "\<not> cwv (P n)" "\<not> uwv (P n)" using seenD(3)[OF s] t(2) unfolding thr_def by auto
  have k: "(rcrv \<circ> P)(n := rcrv ?z) = rcrv \<circ> P" "(rqv \<circ> P)(n := rqv ?z) = rqv \<circ> P" "(wfrv \<circ> P)(n := wfrv ?z) = wfrv \<circ> P" "(ucav \<circ> P)(n := ucav ?z) = ucav \<circ> P"
     "(wlv \<circ> P)(n := wlv ?z) = wlv \<circ> P" "(uwv \<circ> P)(n := uwv ?z) = uwv \<circ> P" "(ppv \<circ> P)(n := ppv ?z) = ppv \<circ> P" "cwv ?z"
    using v(1) by (auto simp: fun_eq_iff wfrv_def ucav_def rcrv_def rqv_def)
  have th: "thr (ppv \<circ> P) (ucav \<circ> P) ((cwv \<circ> P)(n := True)) (uwv \<circ> P) (C(t := NCancelWait n p)) (Wt(n := Some t))"
    by (rule thr_wait_cancel[OF seenD(3)[OF s] t]) (use v(1) in simp)
  show ?thesis
  proof (rule seen_set[OF s])
    show "loc ?z (N n)" using seenD(4)[OF s, of n] v w by (auto simp: loc_def wfrv_def rqv_def ucav_def split: if_splits)
  qed (use k th seenD(1,2,5)[OF s] in simp_all)
qed

lemma seen_wait_put:
  assumes s: "seen X Y P R N Q C Wt" and t: "C t = NIdle" "Wt n = None" and v: "P n = Some (p, v)" "pn_state v = putNotifyUserCallbackActive"
  shows "seen X Y (P(n := Some (p, v\<lparr>userCallbackWait := True\<rparr>))) R N Q (C(t := NPutWait n p)) (Wt(n := Some t))"
proof -
  let ?z = "Some (p, v\<lparr>userCallbackWait := True\<rparr>)"
  have w: "\<not> cwv (P n)" "\<not> uwv (P n)" using seenD(3)[OF s] t(2) unfolding thr_def by auto
  have k: "(rcrv \<circ> P)(n := rcrv ?z) = rcrv \<circ> P" "(rqv \<circ> P)(n := rqv ?z) = rqv \<circ> P" "(wfrv \<circ> P)(n := wfrv ?z) = wfrv \<circ> P" "(ucav \<circ> P)(n := ucav ?z) = ucav \<circ> P"
     "(wlv \<circ> P)(n := wlv ?z) = wlv \<circ> P" "(cwv \<circ> P)(n := cwv ?z) = cwv \<circ> P" "(ppv \<circ> P)(n := ppv ?z) = ppv \<circ> P" "uwv ?z"
    using v(1) by (auto simp: fun_eq_iff wfrv_def ucav_def rcrv_def rqv_def)
  have th: "thr (ppv \<circ> P) (ucav \<circ> P) (cwv \<circ> P) ((uwv \<circ> P)(n := True)) (C(t := NPutWait n p)) (Wt(n := Some t))"
    by (rule thr_wait_put[OF seenD(3)[OF s] t]) (use v(1) in simp)
  show ?thesis
  proof (rule seen_set[OF s])
    show "loc ?z (N n)" using seenD(4)[OF s, of n] v w by (auto simp: loc_def wfrv_def rqv_def ucav_def split: if_splits)
  qed (use k th seenD(1,2,5)[OF s] in simp_all)
qed

lemma seen_wake:
  assumes s: "seen X Y P R N Q C Wt" and t: "C t = NCancelWait n p \<or> C t = NPutWait n p" and v: "actv (P n) = None"
  shows "seen X Y (P(n := None)) R N Q (C(t := NIdle)) (Wt(n := None))"
proof (rule seen_gone[OF s])
  have u: "(ucav \<circ> P)(n := False) = ucav \<circ> P" using v by (auto simp: fun_eq_iff ucav_def)
  show "thr ((ppv \<circ> P)(n := None)) ((ucav \<circ> P)(n := False)) ((cwv \<circ> P)(n := False)) ((uwv \<circ> P)(n := False)) (C(t := NIdle)) (Wt(n := None))"
    unfolding u by (rule thr_wake[OF seenD(3)[OF s] t]) (use v in \<open>simp add: ucav_def\<close>)
  show "wlv (P n) = []" using seenD(4)[OF s, of n] v by (cases "P n") (auto simp: loc_def)
qed (use v in \<open>simp_all add: rqv_def wfrv_def\<close>)

section \<open>The callback queue\<close>

text \<open>The callback task takes a callback; a requested restart then puts the record in hand.\<close>

lemma seen_take:
  assumes s: "seen {} {} P R N (add_mset p Q) C Wt"
  obtains n v where "P n = Some (p, v)" "requested (actv (P n))" "pn_state v = putNotifyRestartCallbackRequested \<Longrightarrow> ownv (R (homev (N n))) = Some n"
    "seen (if pn_state v = putNotifyRestartCallbackRequested then {homev (N n)} else {}) {n} P R N Q C Wt"
proof -
  obtain n where n: "(ppv \<circ> P) n = Some p" "(rqv \<circ> P) n" using queuedD(3)[OF seenD(2)[OF s], of p] by (auto simp: hand_simps)
  obtain v where v: "P n = Some (p, v)" using n(1) by (auto simp: ppv_def)
  have r: "requested (actv (P n))" using n(2) by (simp add: rqv_def)
  then have a: "actv (P n) = Some (pn_state v)" using v by (auto split: if_splits)
  have q: "queued (ppv \<circ> P) (hand {n} (rqv \<circ> P)) Q" using queued_take[OF seenD(2)[OF s] n(1)] by (simp add: hand_simps comp_def)
  have "core (if pn_state v = putNotifyRestartCallbackRequested then {homev (N n)} else {}) (hand {n} (rcrv \<circ> P)) (wfrv \<circ> P) (wlv \<circ> P) (ownv \<circ> R) (rlv \<circ> R) (homev \<circ> N)"
  proof (cases "rcrv (P n)")
    case True
    then have "pn_state v = putNotifyRestartCallbackRequested" using a by (simp add: rcrv_def)
    then show ?thesis using core_leave[OF seenD(1)[OF s], of n] True by (simp add: hand_simps)
  next
    case False
    then have "pn_state v \<noteq> putNotifyRestartCallbackRequested" "hand {n} (rcrv \<circ> P) = rcrv \<circ> P" using a by (auto simp: rcrv_def hand_def fun_eq_iff)
    then show ?thesis using seenD(1)[OF s] by (simp add: hand_simps)
  qed
  then have "seen (if pn_state v = putNotifyRestartCallbackRequested then {homev (N n)} else {}) {n} P R N Q C Wt"
    using s q by (simp add: seen_def)
  moreover have "ownv (R (homev (N n))) = Some n" if "pn_state v = putNotifyRestartCallbackRequested"
    using coreD(10)[OF seenD(1)[OF s], of n] that a by (simp add: hand_simps rcrv_def)
  ultimately show thesis using that v r by blast
qed

text \<open>A callback is requested for the \<open>putNotify\<close> in hand.\<close>

lemma hand_back: "f n \<Longrightarrow> n \<notin> Y \<Longrightarrow> (hand (insert n Y) f)(n := True) = hand Y f"
  by (auto simp: hand_def fun_eq_iff)

lemma seen_push:
  assumes s: "seen X (insert n Y) P R N Q C Wt" and n: "n \<notin> Y" "P n = Some (p, v)" "actv (P n) = Some putNotifyUserCallbackRequested"
  shows "seen X Y P R N (add_mset p Q) C Wt"
proof -
  have "queued (ppv \<circ> P) ((hand (insert n Y) (rqv \<circ> P))(n := True)) (add_mset p Q)"
    by (rule queued_push[OF seenD(2)[OF s]]) (use n in \<open>simp_all add: hand_def\<close>)
  then have "queued (ppv \<circ> P) (hand Y (rqv \<circ> P)) (add_mset p Q)" using hand_back[of "rqv \<circ> P" n Y] n by (simp add: rqv_def)
  moreover have "hand (insert n Y) (rcrv \<circ> P) = hand Y (rcrv \<circ> P)" by (rule hand_grab) (use n in \<open>simp add: rcrv_def\<close>)
  ultimately show ?thesis using s by (simp add: seen_def)
qed

lemma seen_push_restart:
  assumes s: "seen {r} (insert n Y) P R N Q C Wt" and n: "n \<notin> Y" "P n = Some (p, v)" "actv (P n) = Some putNotifyRestartCallbackRequested"
    and r: "ownv (R r) = Some n" "homev (N n) = r" "waitList v = []"
  shows "seen {} Y P R N (add_mset p Q) C Wt"
proof -
  have "queued (ppv \<circ> P) ((hand (insert n Y) (rqv \<circ> P))(n := True)) (add_mset p Q)"
    by (rule queued_push[OF seenD(2)[OF s]]) (use n in \<open>simp_all add: hand_def\<close>)
  then have "queued (ppv \<circ> P) (hand Y (rqv \<circ> P)) (add_mset p Q)" using hand_back[of "rqv \<circ> P" n Y] n by (simp add: rqv_def)
  moreover have "core ({r} - {r}) ((hand (insert n Y) (rcrv \<circ> P))(n := True)) (wfrv \<circ> P) (wlv \<circ> P) (ownv \<circ> R) (rlv \<circ> R) (homev \<circ> N)"
    by (rule core_request[OF seenD(1)[OF s]]) (use n r in \<open>simp_all add: wfrv_def\<close>)
  ultimately show ?thesis using s hand_back[of "rcrv \<circ> P" n Y] n by (simp add: seen_def rcrv_def)
qed

text \<open>A waiting canceller is signalled.\<close>

lemma seen_cancelled:
  assumes s: "seen X (insert n Y) P R N Q C Wt" and n: "P n = Some (p, v)" "requested (actv (P n))" "cancelWait v"
  shows "seen X Y (P(n := Some (p, v\<lparr>cancelEvent := True\<rparr>))) R N Q C Wt"
proof -
  let ?z = "Some (p, v\<lparr>cancelEvent := True\<rparr>)"
  have a: "\<not> cancelEvent v" "\<not> userCallbackEvent v" using n(1,2) by (auto split: if_splits)
  have w: "waitList v = []" "\<not> wfrv (P n)" "\<not> ucav (P n)" using seenD(4)[OF s, of n] n(1,2) by (auto simp: loc_def wfrv_def ucav_def requested_def)
  have k: "(wfrv \<circ> P)(n := wfrv ?z) = wfrv \<circ> P" "(ucav \<circ> P)(n := ucav ?z) = ucav \<circ> P" "(cwv \<circ> P)(n := cwv ?z) = cwv \<circ> P"
     "(wlv \<circ> P)(n := wlv ?z) = wlv \<circ> P" "(uwv \<circ> P)(n := uwv ?z) = uwv \<circ> P" "(ppv \<circ> P)(n := ppv ?z) = ppv \<circ> P"
    using n w by (auto simp: fun_eq_iff wfrv_def ucav_def)
  have "seen X (insert n Y) (P(n := ?z)) R N Q C Wt"
  proof (rule seen_set[OF s])
    show "loc ?z (N n)" using seenD(4)[OF s, of n] n w by (auto simp: loc_def wfrv_def rqv_def ucav_def)
  qed (use k seenD(1,2,3,5)[OF s] in simp_all)
  then show ?thesis by (rule seen_leave) (simp add: rqv_def)
qed

end
