(* ===== verification/DbNotifySteps.thy ===== *)
theory DbNotifySteps
  imports DbNotifySeen
begin

text \<open>Every operation of put notification returns and keeps the invariant.\<close>

section \<open>The store of private structures\<close>

definition pv :: "notify \<Rightarrow> pview" where
  "pv st n = pvtOf n st"

definition nstore :: "notify \<Rightarrow> bool" where
  "nstore st \<longleftrightarrow>
     (\<forall>n x p. ntab st n = Some x \<and> pputNotifyPvt x = Some p \<longrightarrow> p \<notin> set (pvtFreeList st) \<and> (\<exists>v. pvts st p = Some v \<and> cb_user v = Some n))
     \<and> distinct (pvtFreeList st) \<and> (\<forall>p \<in> set (pvtFreeList st). \<exists>v. pvts st p = Some v \<and> \<not> cancelEvent v \<and> \<not> userCallbackEvent v)
     \<and> (\<forall>p v. pvts st p = Some v \<longrightarrow> p < nextPvt st \<and> magic v = MAGIC)
     \<and> (\<forall>n x. ntab st n = Some x \<longrightarrow> recs st (pn_record x) \<noteq> None)"

lemma nstoreD:
  assumes "nstore st"
  shows "ntab st n = Some x \<Longrightarrow> pputNotifyPvt x = Some p \<Longrightarrow> p \<notin> set (pvtFreeList st) \<and> (\<exists>v. pvts st p = Some v \<and> cb_user v = Some n)"
    "distinct (pvtFreeList st)" "p \<in> set (pvtFreeList st) \<Longrightarrow> \<exists>v. pvts st p = Some v \<and> \<not> cancelEvent v \<and> \<not> userCallbackEvent v"
    "pvts st p = Some v \<Longrightarrow> p < nextPvt st \<and> magic v = MAGIC" "ntab st n = Some x \<Longrightarrow> recs st (pn_record x) \<noteq> None"
  using assms unfolding nstore_def by blast+

lemma pv_Some: "pv st n = Some (p, v) \<longleftrightarrow> (\<exists>x. ntab st n = Some x \<and> pputNotifyPvt x = Some p \<and> pvts st p = Some v)"
  by (auto simp: pv_def pvtOf_def split: Option.bind_splits)

lemma pv_None:
  assumes s: "nstore st"
  shows "pv st n = None \<longleftrightarrow> (\<forall>x. ntab st n = Some x \<longrightarrow> pputNotifyPvt x = None)"
proof (cases "ntab st n")
  case None
  then show ?thesis by (simp add: pv_def pvtOf_def)
next
  case (Some x)
  show ?thesis
  proof (cases "pputNotifyPvt x")
    case None
    then show ?thesis using Some by (simp add: pv_def pvtOf_def)
  next
    case (Some p)
    then obtain v where "pvts st p = Some v" using nstoreD(1)[OF s \<open>ntab st n = Some x\<close>] by blast
    then show ?thesis using Some \<open>ntab st n = Some x\<close> by (simp add: pv_def pvtOf_def)
  qed
qed

lemma pv_same: "ntab st' = ntab st \<Longrightarrow> pvts st' = pvts st \<Longrightarrow> pv st' = pv st"
  by (simp add: pv_def pvtOf_def fun_eq_iff)

text \<open>The requests of this module, served or dropped.\<close>

definition reqs :: "notify \<Rightarrow> addr multiset" where
  "reqs st = mset (cbQueue st) + mset (cbLost st)"

lemma reqs_simps [simp]: "reqs (st\<lparr>userCalls := u\<rparr>) = reqs st" "reqs (st\<lparr>pvtFreeList := fl\<rparr>) = reqs st" "reqs (st\<lparr>nextPvt := k\<rparr>) = reqs st"
    "reqs (st\<lparr>cbOthers := j\<rparr>) = reqs st" "reqs (st\<lparr>cbOverflow := b\<rparr>) = reqs st" "reqs (st\<lparr>cbQueue := qs\<rparr>) = mset qs + mset (cbLost st)"
  by (simp_all add: reqs_def)

lemma setPvt_simps [simp]:
  "ntab (setPvt p v st) = ntab st" "pvts (setPvt p v st) = (pvts st)(p \<mapsto> v)" "recs (setPvt p v st) = recs st" "pvtFreeList (setPvt p v st) = pvtFreeList st" "nextPvt (setPvt p v st) = nextPvt st"
  "reqs (setPvt p v st) = reqs st" "npcs (setPvt p v st) = npcs st" "waitingOn (setPvt p v st) = waitingOn st" "userCalls (setPvt p v st) = userCalls st"
  by (simp_all add: setPvt_def reqs_def)

lemma setRec_simps [simp]:
  "ntab (setRec r d st) = ntab st" "pvts (setRec r d st) = pvts st" "recs (setRec r d st) = (recs st)(r \<mapsto> d)" "pvtFreeList (setRec r d st) = pvtFreeList st" "nextPvt (setRec r d st) = nextPvt st"
  "reqs (setRec r d st) = reqs st" "npcs (setRec r d st) = npcs st" "waitingOn (setRec r d st) = waitingOn st" "userCalls (setRec r d st) = userCalls st"
  by (simp_all add: setRec_def reqs_def)

lemma setNote_simps [simp]:
  "ntab (setNote n x st) = (ntab st)(n \<mapsto> x)" "pvts (setNote n x st) = pvts st" "recs (setNote n x st) = recs st" "pvtFreeList (setNote n x st) = pvtFreeList st" "nextPvt (setNote n x st) = nextPvt st"
  "reqs (setNote n x st) = reqs st" "npcs (setNote n x st) = npcs st" "waitingOn (setNote n x st) = waitingOn st" "userCalls (setNote n x st) = userCalls st"
  by (simp_all add: setNote_def reqs_def)

lemma setPc_simps [simp]:
  "ntab (setPc t c st) = ntab st" "pvts (setPc t c st) = pvts st" "recs (setPc t c st) = recs st" "pvtFreeList (setPc t c st) = pvtFreeList st" "nextPvt (setPc t c st) = nextPvt st"
  "reqs (setPc t c st) = reqs st" "npcs (setPc t c st) = (npcs st)(t := c)" "waitingOn (setPc t c st) = waitingOn st" "userCalls (setPc t c st) = userCalls st"
  by (simp_all add: setPc_def reqs_def)

lemma setWaiting_simps [simp]:
  "ntab (setWaiting n w st) = ntab st" "pvts (setWaiting n w st) = pvts st" "recs (setWaiting n w st) = recs st" "pvtFreeList (setWaiting n w st) = pvtFreeList st" "nextPvt (setWaiting n w st) = nextPvt st"
  "reqs (setWaiting n w st) = reqs st" "npcs (setWaiting n w st) = npcs st" "waitingOn (setWaiting n w st) = (waitingOn st)(n := w)" "userCalls (setWaiting n w st) = userCalls st"
  by (simp_all add: setWaiting_def reqs_def)

lemma callbackRequest_simps [simp]:
  "ntab (callbackRequest p st) = ntab st" "pvts (callbackRequest p st) = pvts st" "recs (callbackRequest p st) = recs st" "pvtFreeList (callbackRequest p st) = pvtFreeList st" "nextPvt (callbackRequest p st) = nextPvt st"
  "reqs (callbackRequest p st) = add_mset p (reqs st)" "npcs (callbackRequest p st) = npcs st" "waitingOn (callbackRequest p st) = waitingOn st" "userCalls (callbackRequest p st) = userCalls st"
  by (simp_all add: callbackRequest_def reqs_def)

lemma pv_simps [simp]:
  "pv (setRec r d st) = pv st" "pv (setPc t c st) = pv st" "pv (setWaiting n w st) = pv st" "pv (callbackRequest p st) = pv st"
  "pv (st\<lparr>cbQueue := q\<rparr>) = pv st" "pv (st\<lparr>userCalls := u\<rparr>) = pv st" "pv (st\<lparr>cbOthers := k\<rparr>) = pv st" "pv (st\<lparr>cbOverflow := b\<rparr>) = pv st"
  by (rule pv_same; simp)+

lemma nstore_simps [simp]:
  "nstore (setPc t c st) = nstore st" "nstore (setWaiting n w st) = nstore st" "nstore (callbackRequest p st) = nstore st"
  "nstore (st\<lparr>cbQueue := q\<rparr>) = nstore st" "nstore (st\<lparr>userCalls := u\<rparr>) = nstore st" "nstore (st\<lparr>cbOthers := k\<rparr>) = nstore st"
  "nstore (st\<lparr>cbOverflow := b\<rparr>) = nstore st"
  by (simp_all add: nstore_def)

lemma store_rec: "nstore st \<Longrightarrow> nstore (setRec r d st)"
  by (auto simp: nstore_def)

lemma store_note:
  assumes "nstore st" "ntab st n = Some x" "pputNotifyPvt x' = pputNotifyPvt x" "pn_record x' = pn_record x"
  shows "nstore (setNote n x' st)" "pv (setNote n x' st) = pv st"
proof -
  show "nstore (setNote n x' st)" using assms unfolding nstore_def by auto
  show "pv (setNote n x' st) = pv st" using assms by (auto simp: pv_def pvtOf_def fun_eq_iff)
qed

lemma store_pvt:
  assumes "nstore st" "pv st n = Some (p, v)" "cb_user v' = cb_user v" "magic v' = magic v"
  shows "nstore (setPvt p v' st)" "pv (setPvt p v' st) = (pv st)(n := Some (p, v'))"
proof -
  obtain x where x: "ntab st n = Some x" "pputNotifyPvt x = Some p" "pvts st p = Some v" using assms(2) by (auto simp: pv_Some)
  note d = nstoreD(1)[OF assms(1)]
  have f: "p \<notin> set (pvtFreeList st)" "cb_user v = Some n" using d[OF x(1,2)] x(3) by auto
  have o: "p' \<noteq> p" if "ntab st m = Some y" "pputNotifyPvt y = Some p'" "m \<noteq> n" for m y p'
    using d[OF that(1,2)] x(3) f(2) that(3) by auto
  have u: "m = n" if "ntab st m = Some y" "pputNotifyPvt y = Some p" for m y using d[OF that] x(3) f(2) by auto
  have "q \<notin> set (pvtFreeList st) \<and> (\<exists>w. ((pvts st)(p \<mapsto> v')) q = Some w \<and> cb_user w = Some m)"
    if "ntab st m = Some y" "pputNotifyPvt y = Some q" for m y q
    using d[OF that] u[of m y] that f(2) assms(3) by (cases "q = p") auto
  moreover have "\<exists>w. ((pvts st)(p \<mapsto> v')) q = Some w \<and> \<not> cancelEvent w \<and> \<not> userCallbackEvent w" if "q \<in> set (pvtFreeList st)" for q
    using nstoreD(3)[OF assms(1) that] that f(1) by auto
  moreover have "q < nextPvt st \<and> magic w = MAGIC" if "((pvts st)(p \<mapsto> v')) q = Some w" for q w
    using nstoreD(4)[OF assms(1)] that x(3) assms(4) by (auto split: if_splits)
  ultimately show "nstore (setPvt p v' st)" using nstoreD(2,5)[OF assms(1)] unfolding nstore_def setPvt_simps by blast
  have "pvtOf m (setPvt p v' st) = ((pv st)(n := Some (p, v'))) m" for m
    using x o[of m] by (cases "m = n") (auto simp: pv_def pvtOf_def split: Option.bind_splits)
  then show "pv (setPvt p v' st) = (pv st)(n := Some (p, v'))" by (auto simp: pv_def fun_eq_iff)
qed

lemma cleanup_ok:
  assumes s: "nstore st" and n: "pv st n = Some (p, v)" "\<not> cancelEvent v" "\<not> userCallbackEvent v" "ntab st n = Some x"
  shows "\<exists>st'. putNotifyCleanup n st = Some st' \<and> nstore st' \<and> pv st' = (pv st)(n := None) \<and> recs st' = recs st \<and> reqs st' = reqs st
     \<and> npcs st' = npcs st \<and> waitingOn st' = waitingOn st \<and> userCalls st' = userCalls st \<and> ntab st' = (ntab st)(n \<mapsto> x\<lparr>pputNotifyPvt := None\<rparr>)"
proof -
  let ?st = "setNote n (x\<lparr>pputNotifyPvt := None\<rparr>) (setPvt p (v\<lparr>pn_state := putNotifyNotActive\<rparr>) (st\<lparr>pvtFreeList := pvtFreeList st @ [p]\<rparr>))"
  have x: "pputNotifyPvt x = Some p" "pvts st p = Some v" using n(1,4) by (auto simp: pv_Some)
  note d = nstoreD(1)[OF s]
  have f: "p \<notin> set (pvtFreeList st)" "cb_user v = Some n" using d[OF n(4) x(1)] x(2) by auto
  have o: "p' \<noteq> p" if "ntab st m = Some y" "pputNotifyPvt y = Some p'" "m \<noteq> n" for m y p'
    using d[OF that(1,2)] x(2) f(2) that(3) by auto
  have "pvtOf m ?st = ((pv st)(n := None)) m" for m
    using o[of m] by (cases "m = n") (auto simp: pv_def pvtOf_def split: Option.bind_splits)
  then have p: "pv ?st = (pv st)(n := None)" by (auto simp: pv_def fun_eq_iff)
  have "nstore ?st" using s n(2-4) x f o unfolding nstore_def by (auto split: if_splits)
  moreover have "putNotifyCleanup n st = Some ?st" using n(1,4) by (simp add: putNotifyCleanup_def pv_def)
  ultimately show ?thesis using p by auto
qed

lemma init_note_ok:
  assumes s: "nstore st" and n: "ntab st n = Some x" "pputNotifyPvt x = None"
  shows "\<exists>st' p v. putNotifyInit n st = Some st' \<and> nstore st' \<and> pv st' = (pv st)(n := Some (p, v)) \<and> recs st' = recs st \<and> reqs st' = reqs st
     \<and> npcs st' = npcs st \<and> waitingOn st' = waitingOn st \<and> userCalls st' = userCalls st
     \<and> ntab st' = (ntab st)(n \<mapsto> x\<lparr>pn_status := putNotifyOK, pputNotifyPvt := Some p\<rparr>)
     \<and> quiet v \<and> waitList v = [] \<and> pn_state v = putNotifyNotActive \<and> (\<forall>m. ppv (pv st m) \<noteq> Some p)"
proof -
  obtain p v st1 where a: "(case pvtFreeList st of
         p # ps \<Rightarrow> do { v \<leftarrow> pvts st p; Some (p, v, st\<lparr>pvtFreeList := ps\<rparr>) }
       | [] \<Rightarrow> Some (nextPvt st,
           \<lparr>magic = MAGIC, pn_state = putNotifyNotActive, cb_user = None, waitList = [], cancelWait = False, userCallbackWait = False,
            cancelEvent = False, userCallbackEvent = False\<rparr>, st\<lparr>nextPvt := nextPvt st + 1\<rparr>)) = Some (p, v, st1)"
    and v: "magic v = MAGIC" "\<not> cancelEvent v" "\<not> userCallbackEvent v" "p < nextPvt st1"
    and st1: "ntab st1 = ntab st" "pvts st1 = pvts st" "recs st1 = recs st" "reqs st1 = reqs st" "npcs st1 = npcs st" "waitingOn st1 = waitingOn st"
      "userCalls st1 = userCalls st" "nstore st1" "p \<notin> set (pvtFreeList st1)" "pvts st p = None \<or> p \<in> set (pvtFreeList st)"
  proof (cases "pvtFreeList st")
    case Nil
    have "pvts st (nextPvt st) = None" using nstoreD(4)[OF s, of "nextPvt st"] by (cases "pvts st (nextPvt st)") auto
    moreover have "nstore (st\<lparr>nextPvt := nextPvt st + 1\<rparr>)" using s unfolding nstore_def by (auto simp: less_Suc_eq)
    ultimately show thesis using that Nil by simp
  next
    case (Cons q ps)
    obtain v where v: "pvts st q = Some v" "\<not> cancelEvent v" "\<not> userCallbackEvent v" using nstoreD(3)[OF s, of q] Cons by auto
    have "nstore (st\<lparr>pvtFreeList := ps\<rparr>)" using s Cons unfolding nstore_def by auto
    moreover have "q \<notin> set ps" using nstoreD(2)[OF s] Cons by simp
    moreover have "magic v = MAGIC" "q < nextPvt st" using nstoreD(4)[OF s v(1)] by blast+
    ultimately show thesis using that[of q v "st\<lparr>pvtFreeList := ps\<rparr>"] Cons v by simp
  qed
  let ?v = "v\<lparr>pn_state := putNotifyNotActive, cb_user := Some n, waitList := [], cancelWait := False, userCallbackWait := False\<rparr>"
  let ?st = "setNote n (x\<lparr>pn_status := putNotifyOK, pputNotifyPvt := Some p\<rparr>) (setPvt p ?v st1)"
  have o: "pputNotifyPvt y \<noteq> Some p" if "ntab st m = Some y" for m y
    using nstoreD(1)[OF s that, of p] st1(10) by auto
  have "pvtOf m ?st = ((pv st)(n := Some (p, ?v))) m" for m
    using o[of m] st1 by (cases "m = n") (auto simp: pv_def pvtOf_def split: Option.bind_splits)
  then have pv: "pv ?st = (pv st)(n := Some (p, ?v))" by (auto simp: pv_def fun_eq_iff)
  have "nstore ?st" using st1(8,9) n v o st1(1,3) nstoreD(5)[OF s n(1)] unfolding nstore_def by (auto split: if_splits)
  moreover have "ppv (pv st m) \<noteq> Some p" for m using o[of m] by (cases "pv st m") (auto simp: pv_Some)
  moreover have "putNotifyInit n st = Some ?st" using n a by (simp add: putNotifyInit_def)
  ultimately show ?thesis using pv st1 v by (intro exI[of _ ?st] exI[of _ p] exI[of _ ?v]) (simp add: quiet_def)
qed

section \<open>The invariant\<close>

definition nts :: "addr set \<Rightarrow> addr set \<Rightarrow> notify \<Rightarrow> bool" where
  "nts X Y st \<longleftrightarrow> nstore st \<and> seen X Y (pv st) (recs st) (ntab st) (reqs st) (npcs st) (waitingOn st)"

definition nt_ok :: "notify \<Rightarrow> bool" where
  "nt_ok st \<longleftrightarrow> nts {} {} st \<and> (\<forall>n. settled (pv st n))"

lemma ntsD: "nts X Y st \<Longrightarrow> nstore st" "nts X Y st \<Longrightarrow> seen X Y (pv st) (recs st) (ntab st) (reqs st) (npcs st) (waitingOn st)"
  by (simp_all add: nts_def)

lemma nt_okD: "nt_ok st \<Longrightarrow> nts {} {} st" "nt_ok st \<Longrightarrow> settled (pv st n)"
  by (simp_all add: nt_ok_def)

text \<open>
  The account of a \<open>putNotify\<close>: the calls of its user callback, and one more while a put is owed a call, that is from the put to
  the call, or while the user waits to put again.
\<close>

definition owe :: "(addr \<times> putNotifyPvt) option \<Rightarrow> bool" where
  "owe z \<longleftrightarrow> actv z \<noteq> None \<and> \<not> ucav z \<or> uwv z"

definition balance :: "addr \<Rightarrow> notify \<Rightarrow> nat" where
  "balance n st = length (filter (\<lambda>c. fst c = n) (userCalls st)) + (if owe (pv st n) then 1 else 0)"

lemma balance_same: "userCalls st' = userCalls st \<Longrightarrow> owe (pv st' n) = owe (pv st n) \<Longrightarrow> balance n st' = balance n st"
  by (simp add: balance_def)

text \<open>What \<open>restartCheck\<close> leaves alone.\<close>

definition keeps :: "notify \<Rightarrow> notify \<Rightarrow> bool" where
  "keeps st st' \<longleftrightarrow> npcs st' = npcs st \<and> waitingOn st' = waitingOn st \<and> userCalls st' = userCalls st
     \<and> (\<forall>m. map_option (\<lambda>x. (pn_record x, pn_field x, pn_status x, pputNotifyPvt x)) (ntab st' m)
          = map_option (\<lambda>x. (pn_record x, pn_field x, pn_status x, pputNotifyPvt x)) (ntab st m))
     \<and> (\<forall>m. \<not> wfrv (pv st m) \<longrightarrow> pv st' m = pv st m) \<and> (\<forall>m. settled (pv st m) \<longrightarrow> settled (pv st' m)) \<and> (\<forall>m. owe (pv st' m) = owe (pv st m))"

lemma keepsD:
  assumes "keeps st st'"
  shows "npcs st' = npcs st" "waitingOn st' = waitingOn st" "userCalls st' = userCalls st" "\<not> wfrv (pv st m) \<Longrightarrow> pv st' m = pv st m"
    "settled (pv st m) \<Longrightarrow> settled (pv st' m)" "owe (pv st' m) = owe (pv st m)" "balance m st' = balance m st"
    "ntab st n = Some x \<Longrightarrow> \<exists>y. ntab st' n = Some y \<and> pn_record y = pn_record x \<and> pn_field y = pn_field x \<and> pn_status y = pn_status x \<and> pputNotifyPvt y = pputNotifyPvt x"
proof -
  show "npcs st' = npcs st" "waitingOn st' = waitingOn st" "userCalls st' = userCalls st" "\<not> wfrv (pv st m) \<Longrightarrow> pv st' m = pv st m"
    "settled (pv st m) \<Longrightarrow> settled (pv st' m)" "owe (pv st' m) = owe (pv st m)"
    using assms unfolding keeps_def by blast+
  then show "balance m st' = balance m st" by (simp add: balance_def)
  assume x: "ntab st n = Some x"
  have "map_option (\<lambda>x. (pn_record x, pn_field x, pn_status x, pputNotifyPvt x)) (ntab st' n)
      = map_option (\<lambda>x. (pn_record x, pn_field x, pn_status x, pputNotifyPvt x)) (ntab st n)" using assms unfolding keeps_def by blast
  then show "\<exists>y. ntab st' n = Some y \<and> pn_record y = pn_record x \<and> pn_field y = pn_field x \<and> pn_status y = pn_status x \<and> pputNotifyPvt y = pputNotifyPvt x"
    using x by (cases "ntab st' n") auto
qed

lemma rec_swap: "(d :: notifyRec)\<lparr>ppnr := b, ppn := a\<rparr> = d\<lparr>ppn := a, ppnr := b\<rparr>"
  by (cases d) simp

lemma restart_ok:
  assumes s: "nts X Y st" and r: "r \<in> X" and y: "\<And>n. n \<in> Y \<Longrightarrow> \<not> wfrv (pv st n)"
  shows "\<exists>st'. restartCheck r st = Some st' \<and> nts (X - {r}) Y st' \<and> keeps st st' \<and> (\<forall>n. \<not> wfrv (pv st n) \<longrightarrow> ownv (recs st' r) \<noteq> Some n)
     \<and> recs st' r \<noteq> None"
proof -
  note n = ntsD[OF s]
  have o: "ownv (recs st r) \<noteq> None" using coreD(2)[OF seenD(1)[OF n(2)] r] by simp
  then have nr: "nrv (recs st r)" by (rule flaggedD(1)[OF seenD(5)[OF n(2)]])
  obtain d w q where d: "recs st r = Some d" "ppnr d = Some w" "ppn d = Some q" using o nr by (cases "recs st r") auto
  show ?thesis
  proof (cases "restartList w")
    case Nil
    let ?st = "setRec r (d\<lparr>ppn := None\<rparr>) st"
    have "restartCheck r st = Some ?st" using d Nil by (simp add: restartCheck_def setOwner_def)
    moreover have "nts (X - {r}) Y ?st" using seen_release[OF n(2) r d(1,2) Nil] store_rec[OF n(1)] by (simp add: nts_def)
    moreover have "keeps st ?st" by (simp add: keeps_def)
    ultimately show ?thesis by simp
  next
    case (Cons f fs)
    have fl: "f \<in> set (rlv (recs st r))" using d Cons by simp
    obtain p v x where f: "pv st f = Some (p, v)" "ntab st f = Some x" "pn_state v = putNotifyWaitForRestart" "restartOnList x" "quiet v" "waitList v = []"
      using waiter_facts[OF n(2) fl] by blast
    have wf: "wfrv (pv st f)" using f by (simp add: wfrv_def quiet_def)
    then have fY: "f \<notin> Y" using y by blast
    let ?v = "v\<lparr>pn_state := putNotifyRestartCallbackRequested\<rparr>" and ?d = "d\<lparr>ppn := Some f, ppnr := Some (w\<lparr>restartList := fs\<rparr>)\<rparr>" and ?x = "x\<lparr>restartOnList := False\<rparr>"
    let ?st1 = "setNote f ?x (setRec r (d\<lparr>ppnr := Some (w\<lparr>restartList := fs\<rparr>)\<rparr>) st)"
    let ?st = "callbackRequest p (setPvt p ?v (setRec r ?d ?st1))"
    have r1: "restartDelete r f st = Some ?st1" using d f Cons by (simp add: restartDelete_def)
    have rc: "restartCheck r st = Some ?st" using d f r1 Cons by (simp add: restartCheck_def setOwner_def pv_def[symmetric] rec_swap)
    have s1: "nstore (setRec r ?d ?st1)" "pv (setRec r ?d ?st1) = pv st"
      using store_note[OF store_rec[OF n(1)], where n = f and x = x and x' = ?x] f(2) store_rec by simp_all
    have s2: "nstore (setPvt p ?v (setRec r ?d ?st1))" "pv (setPvt p ?v (setRec r ?d ?st1)) = (pv st)(f := Some (p, ?v))"
      using store_pvt[OF s1(1), of f p v ?v] f(1) s1(2) by simp_all
    have "seen (X - {r}) Y ((pv st)(f := Some (p, ?v))) ((recs st)(r \<mapsto> ?d)) ((ntab st)(f \<mapsto> ?x)) (add_mset p (reqs st)) (npcs st) (waitingOn st)"
      by (rule seen_pass[OF n(2) r d(1,2) Cons f(1,2,5,3,6) fY])
    then have "nts (X - {r}) Y ?st" using s2 by (simp add: nts_def)
    moreover have "keeps st ?st" using s2(2) f wf by (auto simp: keeps_def settled_def owe_def wfrv_def ucav_def quiet_def)
    moreover have "\<forall>n. \<not> wfrv (pv st n) \<longrightarrow> ownv (recs ?st r) \<noteq> Some n" using wf by auto
    ultimately show ?thesis using rc by simp
  qed
qed

section \<open>The common part of putting\<close>

lemma updPvt_eq: "pv st n = Some (p, v) \<Longrightarrow> updPvt n f st = Some (setPvt p (f v) st)"
  by (simp add: updPvt_def pv_def)

lemma setPvt_twice: "setPvt p b (setPvt p a st) = setPvt p b st"
  by (simp add: setPvt_def)

lemma setRec_twice: "setRec r b (setRec r a st) = setRec r b st"
  by (simp add: setRec_def)

text \<open>The record of the put joins its wait list.\<close>

lemma put_claim:
  assumes s: "nts X {n} st" and v: "pv st n = Some (p, v)" "quiet v" "waitList v = []" "pn_state v \<noteq> putNotifyUserCallbackActive" "pn_state v \<noteq> putNotifyWaitForRestart"
    and r: "recs st r = Some d" "ppnr d = Some w" "ntab st n = Some x" "pn_record x = r" "X = {r} \<or> X = {} \<and> ppn d = None"
    and a: "a = putNotifyRestartInProgress \<or> a = putNotifyPutInProgress" and o: "\<forall>m. m \<noteq> n \<longrightarrow> settled (pv st m)"
  shows "\<exists>st'. (do { st1 \<leftarrow> setOwner r (Some n) st; st2 \<leftarrow> waitAdd n r st1; updPvt n (\<lambda>v. v\<lparr>pn_state := a\<rparr>) st2 }) = Some st'
     \<and> nt_ok st' \<and> (\<forall>m. balance m st' = balance m st \<or> m = n \<and> \<not> owe (pv st n))"
proof -
  note n = ntsD[OF s]
  have ia: "inProg (Some a)" using a by auto
  have f: "\<not> waitOnList w" using claim_flag[OF n(2), of r] r by auto
  let ?d = "d\<lparr>ppn := Some n, ppnr := Some (w\<lparr>waitOnList := True\<rparr>)\<rparr>" and ?v = "v\<lparr>waitList := [r], pn_state := a\<rparr>"
  let ?st = "setPvt p ?v (setRec r ?d st)"
  have e: "(do { st1 \<leftarrow> setOwner r (Some n) st; st2 \<leftarrow> waitAdd n r st1; updPvt n (\<lambda>v. v\<lparr>pn_state := a\<rparr>) st2 }) = Some ?st"
  proof -
    have "waitAdd n r (setRec r (d\<lparr>ppn := Some n\<rparr>) st) = Some (setPvt p (v\<lparr>waitList := [r]\<rparr>) (setRec r ?d st))"
      using r f v by (simp add: waitAdd_def updPvt_eq setRec_twice)
    moreover have "pv (setPvt p (v\<lparr>waitList := [r]\<rparr>) (setRec r ?d st)) n = Some (p, v\<lparr>waitList := [r]\<rparr>)"
      using store_pvt(2)[OF store_rec[OF n(1)], where n = n and p = p and v = v and v' = "v\<lparr>waitList := [r]\<rparr>"] v(1) by simp
    ultimately show ?thesis using r by (simp add: setOwner_def updPvt_eq setPvt_twice)
  qed
  have p: "nstore ?st" "pv ?st = (pv st)(n := Some (p, ?v))" using store_pvt[OF store_rec[OF n(1)], where n = n and p = p and v = v and v' = ?v] v(1) by simp_all
  have "seen {} {n} ((pv st)(n := Some (p, ?v))) ((recs st)(r \<mapsto> ?d)) (ntab st) (reqs st) (npcs st) (waitingOn st)"
    by (rule seen_claim[OF n(2) _ v r ia]) simp
  then have "seen {} {} ((pv st)(n := Some (p, ?v))) ((recs st)(r \<mapsto> ?d)) (ntab st) (reqs st) (npcs st) (waitingOn st)"
    by (rule seen_leave) (use a v(2) in \<open>auto simp: rqv_def quiet_def\<close>)
  then have "nts {} {} ?st" using p by (simp add: nts_def)
  moreover have "settled (pv ?st m)" for m using p(2) o a by (auto simp: settled_def)
  moreover have "balance m ?st = balance m st \<or> m = n \<and> \<not> owe (pv st n)" for m
    using p(2) v(1,2) a by (cases "m = n") (auto simp: balance_def owe_def quiet_def ucav_def)
  ultimately show ?thesis using e by (auto simp: nt_ok_def)
qed

lemma put_common_ok:
  assumes s: "nts X {n} st" and v: "pv st n = Some (p, v)" "quiet v" "waitList v = []"
    and r: "recs st r = Some d" "ppnr d = Some w" "ntab st n = Some x" "pn_record x = r" and t: "npcs st t = NIdle"
    and a: "pn_state v = putNotifyNotActive \<and> X = {} \<or> pn_state v = putNotifyRestartCallbackRequested \<and> X = {r} \<and> ppn d = Some n"
    and o: "\<forall>m. m \<noteq> n \<longrightarrow> settled (pv st m)"
  shows "\<exists>st'. putNotifyCommon t n r ok st = Some st' \<and> nt_ok st' \<and> (\<forall>m. balance m st' = balance m st)"
proof -
  note n = ntsD[OF s]
  have vs: "pn_state v \<noteq> putNotifyUserCallbackActive" "pn_state v \<noteq> putNotifyWaitForRestart" using a by auto
  have pvt: "pvtOf n st = Some (p, v)" using v(1) by (simp add: pv_def)
  have ow: "owe (pv st n)" using v a by (auto simp: owe_def quiet_def ucav_def)
  consider (wait) "ppn d \<noteq> None" "pn_state v = putNotifyNotActive" "X = {}" | (free) "X = {r} \<and> ppn d = Some n \<or> X = {} \<and> ppn d = None"
    using a by (cases "ppn d = None") blast+
  then show ?thesis
  proof cases
    case wait
    let ?v = "v\<lparr>pn_state := putNotifyWaitForRestart\<rparr>" and ?d = "d\<lparr>ppnr := Some (w\<lparr>restartList := restartList w @ [n]\<rparr>)\<rparr>" and ?x = "x\<lparr>restartOnList := True\<rparr>"
    let ?st = "setNote n ?x (setRec r ?d (setPvt p ?v st))"
    have "\<not> rfv (ntab st n)" using seenD(4)[OF n(2), of n] v vs by (auto simp: loc_def wfrv_def quiet_def)
    then have e: "putNotifyCommon t n r ok st = Some ?st" using wait pvt r by (simp add: putNotifyCommon_def restartAdd_def)
    have p1: "nstore (setPvt p ?v st)" "pv (setPvt p ?v st) = (pv st)(n := Some (p, ?v))" using store_pvt[OF n(1) v(1)] by simp_all
    have p: "nstore ?st" "pv ?st = (pv st)(n := Some (p, ?v))" using store_note[OF store_rec[OF p1(1)], where n = n and x = x and x' = ?x] r(3) p1(2) by simp_all
    have "seen {} {n} ((pv st)(n := Some (p, ?v))) ((recs st)(r \<mapsto> ?d)) ((ntab st)(n \<mapsto> ?x)) (reqs st) (npcs st) (waitingOn st)"
      by (rule seen_enq[OF n(2)[unfolded wait(3)] _ v vs r wait(1)]) simp
    then have "seen {} {} ((pv st)(n := Some (p, ?v))) ((recs st)(r \<mapsto> ?d)) ((ntab st)(n \<mapsto> ?x)) (reqs st) (npcs st) (waitingOn st)"
      by (rule seen_leave) (auto simp: rqv_def)
    then have "nts {} {} ?st" using p by (simp add: nts_def)
    moreover have "settled (pv ?st m)" for m using p(2) o by (auto simp: settled_def inProg_def)
    moreover have "balance m ?st = balance m st" for m using p(2) ow v(2) by (intro balance_same) (auto simp: owe_def quiet_def ucav_def)
    ultimately show ?thesis using e by (auto simp: nt_ok_def)
  next
    case free
    have fX: "X = {r} \<or> X = {} \<and> ppn d = None" using free by blast
    have c0: "\<not> (ppn d \<noteq> None \<and> pn_state v \<noteq> putNotifyRestartCallbackRequested)" "\<not> (ppn d \<noteq> None \<and> ppn d \<noteq> Some n)" using free a by auto
    show ?thesis
    proof (cases "pact d")
      case True
      then have e: "putNotifyCommon t n r ok st = (do { st1 \<leftarrow> setOwner r (Some n) st; st2 \<leftarrow> waitAdd n r st1; updPvt n (\<lambda>v. v\<lparr>pn_state := putNotifyRestartInProgress\<rparr>) st2 })"
        using c0 r(1) pvt by (cases "ppn d") (auto simp: putNotifyCommon_def)
      show ?thesis unfolding e using put_claim[OF s v vs r fX _ o, of putNotifyRestartInProgress] ow by blast
    next
      case act: False
      let ?x = "x\<lparr>pn_status := (if fst ok then putNotifyOK else putNotifyError)\<rparr>" and ?d = "d\<lparr>scan0 := snd ok\<rparr>"
      let ?st1 = "setNote n ?x (setRec r ?d st)"
      have p1: "nstore ?st1" "pv ?st1 = pv st" using store_note[OF store_rec[OF n(1)], where n = n and x = x and x' = ?x] r(3) by simp_all
      have "seen X {n} (pv st) ((recs st)(r \<mapsto> ?d)) (ntab st) (reqs st) (npcs st) (waitingOn st)" by (rule seen_rec[OF n(2)]) (use r in simp_all)
      then have "seen X {n} (pv st) ((recs st)(r \<mapsto> ?d)) ((ntab st)(n \<mapsto> ?x)) (reqs st) (npcs st) (waitingOn st)" by (rule seen_note) (use r in simp_all)
      then have s1: "nts X {n} ?st1" using p1 by (simp add: nts_def)
      have b1: "balance m ?st1 = balance m st" for m using p1(2) by (simp add: balance_def)
      show ?thesis
      proof (cases "fst ok \<and> (is_proc (pn_field x) \<or> process_passive (pn_field x) \<and> snd ok)")
        case True
        then have e: "putNotifyCommon t n r ok st = (do { st2 \<leftarrow> setOwner r (Some n) ?st1; st3 \<leftarrow> waitAdd n r st2; updPvt n (\<lambda>v. v\<lparr>pn_state := putNotifyPutInProgress\<rparr>) st3 })"
          using c0 r pvt act by (cases "ppn d") (auto simp: putNotifyCommon_def Let_def)
        have fX': "X = {r} \<or> X = {} \<and> ppn ?d = None" using fX by simp
        have "\<exists>st'. (do { st2 \<leftarrow> setOwner r (Some n) ?st1; st3 \<leftarrow> waitAdd n r st2; updPvt n (\<lambda>v. v\<lparr>pn_state := putNotifyPutInProgress\<rparr>) st3 }) = Some st'
           \<and> nt_ok st' \<and> (\<forall>m. balance m st' = balance m ?st1 \<or> m = n \<and> \<not> owe (pv ?st1 n))"
          by (rule put_claim[OF s1, of p v r ?d w ?x putNotifyPutInProgress]) (use v vs r fX' o p1(2) in simp_all)
        then show ?thesis unfolding e using ow b1 p1(2) by auto
      next
        case False
        have "\<exists>st2. (if pn_state v = putNotifyRestartCallbackRequested then restartCheck r ?st1 else Some ?st1) = Some st2 \<and> nts {} {n} st2 \<and> keeps ?st1 st2
            \<and> (\<exists>d2. recs st2 r = Some d2 \<and> ppn d2 \<noteq> Some n)"
        proof (cases "pn_state v = putNotifyRestartCallbackRequested")
          case True
          then have X: "X = {r}" using a by auto
          have nw: "\<not> wfrv (pv ?st1 n)" using v(1,2) vs p1(2) by (simp add: wfrv_def quiet_def)
          have "\<exists>st2. restartCheck r ?st1 = Some st2 \<and> nts (X - {r}) {n} st2 \<and> keeps ?st1 st2 \<and> (\<forall>n. \<not> wfrv (pv ?st1 n) \<longrightarrow> ownv (recs st2 r) \<noteq> Some n)
              \<and> recs st2 r \<noteq> None"
            by (rule restart_ok[OF s1]) (use X nw in auto)
          then obtain st2 where "restartCheck r ?st1 = Some st2" "nts (X - {r}) {n} st2" "keeps ?st1 st2" "ownv (recs st2 r) \<noteq> Some n" "recs st2 r \<noteq> None"
            using nw by blast
          then show ?thesis using True X by auto
        next
          case False
          then have "X = {}" "ppn d = None" using a free by auto
          then show ?thesis using False s1 by (simp add: keeps_def)
        qed
        then obtain st2 d2 where s2: "(if pn_state v = putNotifyRestartCallbackRequested then restartCheck r ?st1 else Some ?st1) = Some st2"
          "nts {} {n} st2" "keeps ?st1 st2" "recs st2 r = Some d2" "ppn d2 \<noteq> Some n" by blast
        have v2: "pv st2 n = Some (p, v)" using keepsD(4)[OF s2(3), of n] p1(2) v(1,2) vs by (simp add: wfrv_def quiet_def)
        obtain y where y: "ntab st2 n = Some y" "pputNotifyPvt y = Some p" using v2 by (auto simp: pv_Some)
        let ?v = "v\<lparr>pn_state := putNotifyUserCallbackActive\<rparr>"
        let ?st = "setPc t (NUser n p) ((setPvt p ?v st2)\<lparr>userCalls := (n, pn_status y) # userCalls st2\<rparr>)"
        have p3: "nstore (setPvt p ?v st2)" "pv (setPvt p ?v st2) = (pv st2)(n := Some (p, ?v))" using store_pvt[OF ntsD(1)[OF s2(2)] v2] by simp_all
        have p4: "nstore ?st" "pv ?st = (pv st2)(n := Some (p, ?v))" using p3 by simp_all
        have e: "putNotifyCommon t n r ok st = Some ?st"
          using c0 r pvt act False s2(1,4,5) y by (cases "ppn d") (auto simp: putNotifyCommon_def Let_def updPvt_eq[OF v2] callUser_def)
        have ti: "npcs st2 t = NIdle" using t keepsD(1)[OF s2(3)] by simp
        have "seen {} {n} ((pv st2)(n := Some (p, ?v))) (recs st2) (ntab st2) (reqs st2) ((npcs st2)(t := NUser n p)) (waitingOn st2)"
          by (rule seen_user[OF ntsD(2)[OF s2(2)] _ v2 v(2,3) vs ti]) simp
        then have "seen {} {} ((pv st2)(n := Some (p, ?v))) (recs st2) (ntab st2) (reqs st2) ((npcs st2)(t := NUser n p)) (waitingOn st2)"
          by (rule seen_leave) (auto simp: rqv_def)
        then have "nts {} {} ?st" using p4 by (simp add: nts_def)
        moreover have "settled (pv ?st m)" for m
          using keepsD(5)[OF s2(3), of m] p4(2) p1(2) o by (cases "m = n") (auto simp: settled_def inProg_def)
        moreover have "balance m ?st = balance m st" for m
          using p4(2) keepsD(3)[OF s2(3)] keepsD(6)[OF s2(3), of m] p1(2) ow v(2) by (cases "m = n") (auto simp: balance_def owe_def quiet_def ucav_def)
        ultimately show ?thesis using e by (auto simp: nt_ok_def)
      qed
    qed
  qed
qed

end
