(* ===== verification/DbNotifyGrows.thy ===== *)
theory DbNotifyGrows
  imports DbNotifySteps
begin

text \<open>The \<open>putNotifyRecord\<close> of a record is never taken away, and is there while a \<open>putNotify\<close> of the record is active.\<close>

section \<open>Records that have been used\<close>

text \<open>The record of an active \<open>putNotify\<close> has its \<open>putNotifyRecord\<close>, since none is ever taken away.\<close>

definition homed :: "notify \<Rightarrow> bool" where
  "homed st \<longleftrightarrow> (\<forall>n x. ntab st n = Some x \<longrightarrow> pputNotifyPvt x \<noteq> None \<longrightarrow> nrv (recs st (pn_record x)))"

definition grows :: "notify \<Rightarrow> notify \<Rightarrow> bool" where
  "grows st st' \<longleftrightarrow> (\<forall>r. nrv (recs st r) \<longrightarrow> nrv (recs st' r))
     \<and> (\<forall>n y. ntab st' n = Some y \<longrightarrow> (\<exists>x. ntab st n = Some x \<and> pn_record y = pn_record x \<and> (pputNotifyPvt y \<noteq> None \<longrightarrow> pputNotifyPvt x \<noteq> None \<or> nrv (recs st' (pn_record y)))))"

lemma grows_homed: "grows st st' \<Longrightarrow> homed st \<Longrightarrow> homed st'"
  unfolding grows_def homed_def by metis

lemma grows_trans: "grows a b \<Longrightarrow> grows b c \<Longrightarrow> grows a c"
  unfolding grows_def by metis

lemma grows_refl: "recs st' = recs st \<Longrightarrow> ntab st' = ntab st \<Longrightarrow> grows st st'"
  by (simp add: grows_def)

lemma grows_rec: "recs st r = Some d \<Longrightarrow> ppnr d = None \<or> ppnr d' \<noteq> None \<Longrightarrow> grows st (setRec r d' st)"
  by (auto simp: grows_def)

lemma grows_note: "ntab st n = Some x \<Longrightarrow> pn_record x' = pn_record x \<Longrightarrow> pputNotifyPvt x' = None \<or> pputNotifyPvt x \<noteq> None \<Longrightarrow> grows st (setNote n x' st)"
  by (auto simp: grows_def)

lemma grows_steps [simp]: "grows a (setPvt p v b) = grows a b" "grows a (setPc t c b) = grows a b" "grows a (setWaiting n w b) = grows a b"
    "grows a (callbackRequest p b) = grows a b" "grows a (b\<lparr>cbQueue := q\<rparr>) = grows a b" "grows a (b\<lparr>userCalls := u\<rparr>) = grows a b"
    "grows a (b\<lparr>pvtFreeList := fl\<rparr>) = grows a b" "grows a (b\<lparr>cbOthers := k\<rparr>) = grows a b" "grows a (b\<lparr>cbOverflow := o'\<rparr>) = grows a b" "grows st st"
  by (simp_all add: grows_def)

lemma grows_from [simp]: "grows (setPvt p v a) b = grows a b" "grows (setPc t c a) b = grows a b" "grows (setWaiting n w a) b = grows a b"
    "grows (callbackRequest p a) b = grows a b" "grows (a\<lparr>cbQueue := q\<rparr>) b = grows a b" "grows (a\<lparr>cbOverflow := o'\<rparr>) b = grows a b"
  by (simp_all add: grows_def)

lemma grows_owner: "setOwner r n st = Some st' \<Longrightarrow> grows st st'"
  by (auto simp: setOwner_def split: Option.bind_splits intro!: grows_rec)

lemma grows_upd: "updPvt n f st = Some st' \<Longrightarrow> grows st st'"
  by (auto simp: updPvt_def split: Option.bind_splits)

lemma grows_wadd: "waitAdd n r st = Some st' \<Longrightarrow> grows st st'"
  unfolding waitAdd_def updPvt_def by (auto split: Option.bind_splits if_splits intro!: grows_rec)

lemma grows_wdel: "waitDelete n r st = Some st' \<Longrightarrow> grows st st'"
  unfolding waitDelete_def updPvt_def by (auto split: Option.bind_splits if_splits intro!: grows_rec)

lemma grows_radd: "restartAdd r n st = Some st' \<Longrightarrow> grows st st'"
  unfolding restartAdd_def by (auto split: Option.bind_splits if_splits simp: grows_def)

lemma grows_rdel: "restartDelete r n st = Some st' \<Longrightarrow> grows st st'"
  unfolding restartDelete_def by (auto split: Option.bind_splits if_splits simp: grows_def)

lemma grows_cleanup: "putNotifyCleanup n st = Some st' \<Longrightarrow> grows st st'"
  unfolding putNotifyCleanup_def by (auto split: Option.bind_splits if_splits simp: grows_def)

lemma grows_restart: "restartCheck r st = Some st' \<Longrightarrow> grows st st'"
  unfolding restartCheck_def
  by (auto split: Option.bind_splits if_splits list.splits dest!: grows_rdel grows_owner)
    (blast intro: grows_trans)

lemma grows_call: "callUser t n st = Some st' \<Longrightarrow> grows st st'"
  unfolding callUser_def by (auto split: Option.bind_splits)

lemma grows_common: "putNotifyCommon t n r res st = Some st' \<Longrightarrow> grows st st'"
proof -
  assume e: "putNotifyCommon t n r res st = Some st'"
  obtain d p v where d: "recs st r = Some d" "pvtOf n st = Some (p, v)" using e by (auto simp: putNotifyCommon_def split: Option.bind_splits)
  consider (wait) "restartAdd r n (setPvt p (v\<lparr>pn_state := putNotifyWaitForRestart\<rparr>) st) = Some st'"
    | (act) st1 st2 where "setOwner r (Some n) st = Some st1" "waitAdd n r st1 = Some st2" "updPvt n (\<lambda>v. v\<lparr>pn_state := putNotifyRestartInProgress\<rparr>) st2 = Some st'"
    | (put) x st1 st2 st3 where "ntab st n = Some x" "st1 = setNote n (x\<lparr>pn_status := (if fst res then putNotifyOK else putNotifyError)\<rparr>) (setRec r (d\<lparr>scan0 := snd res\<rparr>) st)"
       "setOwner r (Some n) st1 = Some st2" "waitAdd n r st2 = Some st3" "updPvt n (\<lambda>v. v\<lparr>pn_state := putNotifyPutInProgress\<rparr>) st3 = Some st'"
    | (fin) x st1 st2 st3 where "ntab st n = Some x" "st1 = setNote n (x\<lparr>pn_status := (if fst res then putNotifyOK else putNotifyError)\<rparr>) (setRec r (d\<lparr>scan0 := snd res\<rparr>) st)"
       "(if pn_state v = putNotifyRestartCallbackRequested then restartCheck r st1 else Some st1) = Some st2"
       "updPvt n (\<lambda>v. v\<lparr>pn_state := putNotifyUserCallbackActive\<rparr>) st2 = Some st3" "callUser t n st3 = Some st'"
    using e d by (simp add: putNotifyCommon_def Let_def bind_eq_Some_conv split: if_split_asm; metis)
  then show ?thesis
  proof cases
    case wait
    then show ?thesis using grows_radd[OF wait] by (simp add: grows_def)
  next
    case act
    show ?thesis by (rule grows_trans[OF grows_trans[OF grows_owner[OF act(1)] grows_wadd[OF act(2)]] grows_upd[OF act(3)]])
  next
    case put
    have "grows st st1" unfolding put(2) by (rule grows_trans[OF grows_rec[OF d(1)] grows_note]) (use put(1) in auto)
    then show ?thesis by (rule grows_trans[OF _ grows_trans[OF grows_trans[OF grows_owner[OF put(3)] grows_wadd[OF put(4)]] grows_upd[OF put(5)]]])
  next
    case fin
    have "grows st st1" unfolding fin(2) by (rule grows_trans[OF grows_rec[OF d(1)] grows_note]) (use fin(1) in auto)
    moreover have "grows st1 st2" using fin(3) grows_restart by (auto split: if_splits)
    ultimately show ?thesis by (rule grows_trans[OF grows_trans grows_trans[OF grows_upd[OF fin(4)] grows_call[OF fin(5)]]])
  qed
qed

lemma grows_init: "putNotifyInit n st = Some st' \<Longrightarrow> nrv (recs st r) \<or> recs st' = recs st \<and> (\<forall>m. m \<noteq> n \<longrightarrow> ntab st' m = ntab st m)
    \<and> homev (ntab st' n) = homev (ntab st n)"
  unfolding putNotifyInit_def by (auto split: Option.bind_splits list.splits)

lemma grows_start:
  assumes e: "putStart t n r res st = Some st'" and r: "\<And>x. ntab st n = Some x \<Longrightarrow> pn_record x = r"
  shows "grows st st'"
proof -
  obtain x st1 d where x: "ntab st n = Some x" "putNotifyInit n st = Some st1" "recs st1 r = Some d"
    and c: "putNotifyCommon t n r res (if ppnr d = None then setRec r (d\<lparr>ppnr := Some \<lparr>waitOnList = False, restartList = []\<rparr>\<rparr>) st1 else st1) = Some st'"
    using e by (auto simp: putStart_def split: Option.bind_splits if_splits)
  let ?st2 = "if ppnr d = None then setRec r (d\<lparr>ppnr := Some \<lparr>waitOnList = False, restartList = []\<rparr>\<rparr>) st1 else st1"
  obtain p y where i: "recs st1 = recs st" "ntab st1 = (ntab st)(n \<mapsto> y)" "pn_record y = pn_record x"
    using x(1,2) by (auto simp: putNotifyInit_def split: Option.bind_splits list.splits)
  have "grows st ?st2" using i x r[OF x(1)] by (auto simp: grows_def)
  then show ?thesis using grows_common[OF c] grows_trans by blast
qed

lemma grows_put: "dbPutNotify t n res st = Some st' \<Longrightarrow> grows st st'"
  unfolding dbPutNotify_def
  by (auto simp: Let_def split: Option.bind_splits if_splits option.splits intro!: grows_note elim!: grows_start)

lemma grows_wake:
  assumes "putWake t n p res st = Some st'"
  shows "grows st st'"
proof -
  obtain v x st1 where x: "ntab st n = Some x" and c: "putNotifyCleanup n (setWaiting n None (setPc t NIdle (setPvt p (v\<lparr>userCallbackEvent := False\<rparr>) st))) = Some st1"
    and e: "putStart t n (pn_record x) res st1 = Some st'" using assms by (auto simp: putWake_def split: Option.bind_splits)
  have g: "grows st st1" using grows_cleanup[OF c] by simp
  moreover have "grows st1 st'"
  proof (rule grows_start[OF e])
    show "pn_record y = pn_record x" if "ntab st1 n = Some y" for y using g x that unfolding grows_def by fastforce
  qed
  ultimately show ?thesis by (rule grows_trans)
qed

lemma grows_loop: "cancelRecords n ws st = Some st' \<Longrightarrow> grows st st'"
proof (induction ws arbitrary: st)
  case (Cons w ws)
  then obtain st1 st2 where "waitDelete n w st = Some st1" "restartCheck w st1 = Some st2" "cancelRecords n ws st2 = Some st'"
    by (auto split: Option.bind_splits)
  then show ?case by (blast intro: grows_trans grows_wdel grows_restart Cons.IH)
qed simp

lemma grows_cancel: "dbNotifyCancel t n st = Some st' \<Longrightarrow> grows st st'"
  unfolding dbNotifyCancel_def
  by (auto simp: Let_def split: Option.bind_splits if_splits option.splits dest!: grows_cleanup grows_rdel grows_loop grows_restart)
    (blast intro: grows_trans)+

lemma grows_cb: "notifyCallback q res st = Some st' \<Longrightarrow> grows st st'"
  unfolding notifyCallback_def
  by (auto simp: Let_def split: Option.bind_splits if_splits dest!: grows_common grows_restart grows_upd grows_call)
    (blast intro: grows_trans)+

lemma grows_done: "dbNotifyCompletion r n st = Some st' \<Longrightarrow> grows st st'"
  unfolding dbNotifyCompletion_def
  by (auto split: Option.bind_splits if_splits dest!: grows_wdel grows_restart)
    (blast intro: grows_trans)+

lemma grows_add: "dbNotifyAdd n active pfrom r st = Some st' \<Longrightarrow> grows st st'"
proof -
  assume e: "dbNotifyAdd n active pfrom r st = Some st'"
  obtain d where d: "recs st r = Some d" using e by (auto simp: dbNotifyAdd_def split: Option.bind_splits)
  let ?d = "if ppnr d = None then d\<lparr>ppnr := Some \<lparr>waitOnList = False, restartList = []\<rparr>\<rparr> else d"
  define st1 where "st1 = setRec r ?d st"
  have g: "grows st st1" unfolding st1_def by (rule grows_rec[OF d]) auto
  have "st' = st \<or> st' = st1 \<or> (\<exists>m st2. setOwner r (Some m) st1 = Some st2 \<and> waitAdd m r st2 = Some st')"
    using e[unfolded dbNotifyAdd_def d Option.bind.simps Let_def, folded st1_def]
    by (auto simp del: if_split simp add: bind_eq_Some_conv split: if_split_asm)
  then show ?thesis using g by (auto intro: grows_trans[OF grows_trans[OF _ grows_owner] grows_wadd])
qed

end
