(* ===== verification/DbNotifySafe.thy ===== *)
theory DbNotifySafe
  imports DbNotifyGrows
begin

text \<open>The operations of the users, the callback task and record processing, and all reachable states.\<close>

section \<open>Putting\<close>

lemma putStart_ok:
  assumes ok: "nt_ok st" and n: "ntab st n = Some x" "pputNotifyPvt x = None" "pn_record x = r" and t: "npcs st t = NIdle"
  shows "\<exists>st'. putStart t n r res st = Some st' \<and> nt_ok st' \<and> (\<forall>m. balance m st' = balance m st + (if m = n then 1 else 0))"
proof -
  note s = ntsD[OF nt_okD(1)[OF ok]]
  obtain st1 p v where i: "putNotifyInit n st = Some st1" "nstore st1" "pv st1 = (pv st)(n := Some (p, v))" "recs st1 = recs st" "reqs st1 = reqs st"
     "npcs st1 = npcs st" "waitingOn st1 = waitingOn st" "userCalls st1 = userCalls st"
     "ntab st1 = (ntab st)(n \<mapsto> x\<lparr>pn_status := putNotifyOK, pputNotifyPvt := Some p\<rparr>)"
     "quiet v" "waitList v = []" "pn_state v = putNotifyNotActive" "\<forall>m. ppv (pv st m) \<noteq> Some p"
    using init_note_ok[OF s(1) n(1,2)] by blast
  obtain d where d: "recs st r = Some d" using nstoreD(5)[OF s(1) n(1)] n(3) by auto
  have pn: "pv st n = None" using pv_None[OF s(1), of n] n by simp
  have "seen {} {} ((pv st)(n := Some (p, v))) (recs st) (ntab st) (reqs st) (npcs st) (waitingOn st)"
    by (rule seen_fresh[OF s(2) pn i(13,10,11,12)])
  then have "seen {} {} (pv st1) (recs st1) (ntab st1) (reqs st1) (npcs st1) (waitingOn st1)"
    unfolding i(3-7,9) by (rule seen_note) (use n in simp_all)
  then have s1: "seen {} {n} (pv st1) (recs st1) (ntab st1) (reqs st1) (npcs st1) (waitingOn st1)"
    by (rule seen_grab) (use i in \<open>simp add: rqv_def quiet_def\<close>)
  let ?d = "if ppnr d = None then d\<lparr>ppnr := Some \<lparr>waitOnList = False, restartList = []\<rparr>\<rparr> else d"
  let ?st2 = "if ppnr d = None then setRec r (d\<lparr>ppnr := Some \<lparr>waitOnList = False, restartList = []\<rparr>\<rparr>) st1 else st1"
  have s2: "nts {} {n} ?st2"
    using seen_rec[OF s1, of "d\<lparr>ppnr := Some \<lparr>waitOnList = False, restartList = []\<rparr>\<rparr>" r] d i(2,4) store_rec[OF i(2)] s1 by (simp add: nts_def)
  have same: "pv ?st2 = pv st1" "npcs ?st2 = npcs st1" "ntab ?st2 = ntab st1" "recs ?st2 r = Some ?d" "userCalls ?st2 = userCalls st1"
    using d i(4) by simp_all
  obtain w where w: "ppnr ?d = Some w" by (cases "ppnr d") auto
  have "\<exists>st'. putNotifyCommon t n r res ?st2 = Some st' \<and> nt_ok st' \<and> (\<forall>m. balance m st' = balance m ?st2)"
  proof (rule put_common_ok[OF s2, of p v r ?d w])
    show "ntab ?st2 n = Some (x\<lparr>pn_status := putNotifyOK, pputNotifyPvt := Some p\<rparr>)" using same(3) i(9) by simp
    show "\<forall>m. m \<noteq> n \<longrightarrow> settled (pv ?st2 m)" using same(1) i(3) nt_okD(2)[OF ok] by simp
  qed (use same i w n(3) t in simp_all)
  then obtain st' where st': "putNotifyCommon t n r res ?st2 = Some st'" "nt_ok st'" "\<forall>m. balance m st' = balance m ?st2" by blast
  have "putStart t n r res st = Some st'" using n(1,2) i(1,4) d st'(1) by (simp add: putStart_def)
  moreover have "balance m st' = balance m st + (if m = n then 1 else 0)" for m
    using st'(3) same i pn by (auto simp: balance_def owe_def quiet_def ucav_def)
  ultimately show ?thesis using st'(2) by blast
qed

lemma thread_facts:
  assumes "seen X Y P R N Q C Wt"
  shows "C t = NCancelWait n p \<Longrightarrow> ppv (P n) = Some p \<and> Wt n = Some t" "C t = NPutWait n p \<Longrightarrow> ppv (P n) = Some p \<and> Wt n = Some t \<and> uwv (P n)"
    "uwv (P n) \<Longrightarrow> Wt n \<noteq> None" "cwv (P n) \<Longrightarrow> Wt n \<noteq> None" "\<not> (cwv (P n) \<and> uwv (P n))" "C t = NCancelWait n p \<Longrightarrow> cwv (P n)"
  using seenD(3)[OF assms] unfolding thr_def by auto

lemma put_ok_step:
  assumes ok: "nt_ok st" and f: "npcs st t = NIdle" "waitingOn st n = None" "putAllowed n st"
  shows "\<exists>st'. dbPutNotify t n res st = Some st' \<and> nt_ok st' \<and> (\<forall>m. balance m st' = balance m st + (if m = n then 1 else 0))"
proof -
  note s = ntsD[OF nt_okD(1)[OF ok]]
  obtain x where x: "ntab st n = Some x" "recs st (pn_record x) \<noteq> None" using f(3) by (auto simp: putAllowed_def split: option.splits)
  obtain d where d: "recs st (pn_record x) = Some d" using x(2) by blast
  have direct: ?thesis if e: "dbPutNotify t n res st = Some ((setNote n (x\<lparr>pn_status := a\<rparr>) st)\<lparr>userCalls := (n, a) # userCalls st\<rparr>)" for a
  proof -
    let ?st = "(setNote n (x\<lparr>pn_status := a\<rparr>) st)\<lparr>userCalls := (n, a) # userCalls st\<rparr>"
    have p: "nstore ?st" "pv ?st = pv st" using store_note[OF s(1) x(1), of "x\<lparr>pn_status := a\<rparr>"] by simp_all
    have "seen {} {} (pv st) (recs st) ((ntab st)(n \<mapsto> x\<lparr>pn_status := a\<rparr>)) (reqs st) (npcs st) (waitingOn st)"
      by (rule seen_note[OF s(2)]) (use x in simp_all)
    then have "nt_ok ?st" using p nt_okD(2)[OF ok] by (simp add: nt_ok_def nts_def)
    moreover have "balance m ?st = balance m st + (if m = n then 1 else 0)" for m using p by (simp add: balance_def)
    ultimately show ?thesis using e by blast
  qed
  consider (disabled) "disp d \<and> \<not> is_disp (pn_field x)" | (link) "\<not> (disp d \<and> \<not> is_disp (pn_field x))" "is_link (pn_field x)"
    | (put) "\<not> (disp d \<and> \<not> is_disp (pn_field x))" "\<not> is_link (pn_field x)" by blast
  then show ?thesis
  proof cases
    case disabled
    then show ?thesis by (intro direct[of putNotifyPutDisabled]) (simp add: dbPutNotify_def x(1) d)
  next
    case link
    then show ?thesis by (intro direct[of "if fst res then putNotifyOK else putNotifyError"]) (auto simp: dbPutNotify_def x(1) d Let_def)
  next
    case put
    show ?thesis
    proof (cases "pputNotifyPvt x")
      case None
      then have "dbPutNotify t n res st = putStart t n (pn_record x) res st" using put x(1) d by (auto simp: dbPutNotify_def Let_def)
      then show ?thesis using putStart_ok[OF ok x(1) None refl f(1)] by simp
    next
      case (Some p)
      then obtain v where v: "pvts st p = Some v" "pn_state v = putNotifyUserCallbackActive" using f(3) x(1) by (auto simp: putAllowed_def split: option.splits)
      have pn: "pv st n = Some (p, v)" using x(1) Some v(1) by (auto simp: pv_Some)
      let ?st = "setWaiting n (Some t) (setPc t (NPutWait n p) (setPvt p (v\<lparr>userCallbackWait := True\<rparr>) st))"
      have "magic v = MAGIC" using nstoreD(4)[OF s(1) v(1)] by blast
      then have e: "dbPutNotify t n res st = Some ?st" using put x(1) d Some v by (auto simp: dbPutNotify_def Let_def)
      have p: "nstore ?st" "pv ?st = (pv st)(n := Some (p, v\<lparr>userCallbackWait := True\<rparr>))"
        using store_pvt[OF s(1) pn, of "v\<lparr>userCallbackWait := True\<rparr>"] by simp_all
      have "seen {} {} ((pv st)(n := Some (p, v\<lparr>userCallbackWait := True\<rparr>))) (recs st) (ntab st) (reqs st) ((npcs st)(t := NPutWait n p)) ((waitingOn st)(n := Some t))"
        by (rule seen_wait_put[OF s(2) f(1,2) pn v(2)])
      moreover have "settled (pv ?st m)" for m using p(2) nt_okD(2)[OF ok, of m] v(2) by (cases "m = n") (auto simp: settled_def inProg_def)
      ultimately have "nt_ok ?st" using p by (simp add: nt_ok_def nts_def)
      moreover have "\<not> cwv (pv st n)" "\<not> uwv (pv st n)" using thread_facts(3,4)[OF s(2), of n] f(2) by auto
      then have "balance m ?st = balance m st + (if m = n then 1 else 0)" for m
        using p pn v(2) by (cases "m = n") (auto simp: balance_def owe_def ucav_def)
      ultimately show ?thesis using e by blast
    qed
  qed
qed

text \<open>A waiting user is woken.\<close>

lemma wake_facts:
  assumes ok: "nt_ok st" and e: "eventFull t st"
  obtains n p v x where "npcs st t = NPutWait n p \<or> npcs st t = NCancelWait n p" "pv st n = Some (p, v)" "actv (pv st n) = None" "ntab st n = Some x" "pvts st p = Some v"
    "pputNotifyPvt x = Some p" "npcs st t = NPutWait n p \<Longrightarrow> \<not> cancelEvent v" "npcs st t = NCancelWait n p \<Longrightarrow> \<not> userCallbackEvent v"
    "npcs st t = NCancelWait n p \<Longrightarrow> \<not> owe (pv st n)" "npcs st t = NPutWait n p \<Longrightarrow> owe (pv st n)"
proof -
  note s = ntsD[OF nt_okD(1)[OF ok]]
  obtain n p v where n: "npcs st t = NPutWait n p \<and> userCallbackEvent v \<or> npcs st t = NCancelWait n p \<and> cancelEvent v" "pvts st p = Some v"
    using e by (auto simp: eventFull_def split: notifypc.splits option.splits)
  have pp: "ppv (pv st n) = Some p" using n thread_facts(1,2)[OF s(2), of t n p] by auto
  obtain v' where v': "pv st n = Some (p, v')" using pp by (auto simp: ppv_def)
  obtain x where x: "ntab st n = Some x" "pputNotifyPvt x = Some p" "pvts st p = Some v'" using v' by (auto simp: pv_Some)
  have e: "v' = v" using n(2) x(3) by simp
  have ex: "\<not> ((cancelWait v \<or> cancelEvent v) \<and> (userCallbackWait v \<or> userCallbackEvent v))" using thread_facts(5)[OF s(2), of n] v' e by simp
  show thesis
    by (rule that[of n p v x]) (use n v' x e ex in \<open>auto simp: owe_def\<close>)
qed

lemma wake_clean:
  assumes ok: "nt_ok st" and c: "npcs st t = NPutWait n p \<or> npcs st t = NCancelWait n p" and v: "pv st n = Some (p, v)" "actv (pv st n) = None" "ntab st n = Some x"
    and v': "cb_user v' = cb_user v" "magic v' = magic v" "\<not> cancelEvent v'" "\<not> userCallbackEvent v'"
  shows "\<exists>st'. putNotifyCleanup n (setWaiting n None (setPc t NIdle (setPvt p v' st))) = Some st' \<and> nt_ok st' \<and> pv st' = (pv st)(n := None)
     \<and> userCalls st' = userCalls st \<and> npcs st' t = NIdle \<and> ntab st' n = Some (x\<lparr>pputNotifyPvt := None\<rparr>)"
proof -
  note s = ntsD[OF nt_okD(1)[OF ok]]
  let ?st1 = "setWaiting n None (setPc t NIdle (setPvt p v' st))"
  have p: "nstore ?st1" "pv ?st1 = (pv st)(n := Some (p, v'))" using store_pvt[OF s(1) v(1) v'(1,2)] by simp_all
  have "\<exists>st'. putNotifyCleanup n ?st1 = Some st' \<and> nstore st' \<and> pv st' = (pv ?st1)(n := None) \<and> recs st' = recs ?st1 \<and> reqs st' = reqs ?st1
     \<and> npcs st' = npcs ?st1 \<and> waitingOn st' = waitingOn ?st1 \<and> userCalls st' = userCalls ?st1 \<and> ntab st' = (ntab ?st1)(n \<mapsto> x\<lparr>pputNotifyPvt := None\<rparr>)"
    by (rule cleanup_ok[OF p(1), of n p v']) (use p(2) v v' in simp_all)
  then obtain st' where st': "putNotifyCleanup n ?st1 = Some st'" "nstore st'" "pv st' = (pv ?st1)(n := None)" "recs st' = recs st" "reqs st' = reqs st"
     "npcs st' = (npcs st)(t := NIdle)" "waitingOn st' = (waitingOn st)(n := None)" "userCalls st' = userCalls st" "ntab st' = (ntab st)(n \<mapsto> x\<lparr>pputNotifyPvt := None\<rparr>)"
    by auto
  have pv: "pv st' = (pv st)(n := None)" using st'(3) p(2) by simp
  have "seen {} {} ((pv st)(n := None)) (recs st) (ntab st) (reqs st) ((npcs st)(t := NIdle)) ((waitingOn st)(n := None))"
    by (rule seen_wake[OF s(2) _ v(2)]) (use c in blast)
  then have "seen {} {} (pv st') (recs st') (ntab st') (reqs st') (npcs st') (waitingOn st')"
    unfolding pv st'(4-7,9) by (rule seen_note) (use v(3) in simp_all)
  then have "nt_ok st'" using st'(2) pv nt_okD(2)[OF ok] by (simp add: nt_ok_def nts_def settled_def)
  then show ?thesis using st' pv by simp
qed

lemma wake_ok:
  assumes ok: "nt_ok st" and e: "eventFull t st"
  shows "\<exists>st'. notifyExec (NWake t res) st = Some st' \<and> nt_ok st' \<and> (\<forall>m. balance m st' = balance m st)"
proof -
  obtain n p v x where f: "npcs st t = NPutWait n p \<or> npcs st t = NCancelWait n p" "pv st n = Some (p, v)" "actv (pv st n) = None" "ntab st n = Some x" "pvts st p = Some v"
    "pputNotifyPvt x = Some p" "npcs st t = NPutWait n p \<Longrightarrow> \<not> cancelEvent v" "npcs st t = NCancelWait n p \<Longrightarrow> \<not> userCallbackEvent v"
    "npcs st t = NCancelWait n p \<Longrightarrow> \<not> owe (pv st n)" "npcs st t = NPutWait n p \<Longrightarrow> owe (pv st n)"
    using wake_facts[OF ok e] by blast
  from f(1) show ?thesis
  proof
    assume c: "npcs st t = NCancelWait n p"
    obtain st' where "putNotifyCleanup n (setWaiting n None (setPc t NIdle (setPvt p (v\<lparr>cancelEvent := False\<rparr>) st))) = Some st'" "nt_ok st'"
       "pv st' = (pv st)(n := None)" "userCalls st' = userCalls st"
      using wake_clean[OF ok f(1-4), of "v\<lparr>cancelEvent := False\<rparr>"] f(8)[OF c] by auto
    then show ?thesis using c f(5) f(9)[OF c] by (auto simp: notifyCancelWake_def balance_def owe_def)
  next
    assume c: "npcs st t = NPutWait n p"
    obtain st1 where s1: "putNotifyCleanup n (setWaiting n None (setPc t NIdle (setPvt p (v\<lparr>userCallbackEvent := False\<rparr>) st))) = Some st1" "nt_ok st1"
       "pv st1 = (pv st)(n := None)" "userCalls st1 = userCalls st" "npcs st1 t = NIdle" "ntab st1 n = Some (x\<lparr>pputNotifyPvt := None\<rparr>)"
      using wake_clean[OF ok f(1-4), of "v\<lparr>userCallbackEvent := False\<rparr>"] f(7)[OF c] by auto
    obtain st' where st': "putStart t n (pn_record x) res st1 = Some st'" "nt_ok st'" "\<forall>m. balance m st' = balance m st1 + (if m = n then 1 else 0)"
      using putStart_ok[OF s1(2,6), of "pn_record x" t res] s1(5) by auto
    have "balance m st' = balance m st" for m using st'(3) s1(3,4) f(10)[OF c] by (auto simp: balance_def owe_def)
    then show ?thesis using c f(4,5) s1(1) st'(1,2) by (auto simp: putWake_def)
  qed
qed

section \<open>Cancelling\<close>

lemma active_facts:
  assumes ok: "nt_ok st" and v: "pv st n = Some (p, v)" and f: "waitingOn st n = None"
  shows "actv (pv st n) = Some (pn_state v)" "pn_state v \<noteq> putNotifyNotActive"
    "quiet v" "pn_state v = putNotifyRestartInProgress \<or> pn_state v = putNotifyPutInProgress \<longleftrightarrow> waitList v \<noteq> []"
proof -
  note s = ntsD[OF nt_okD(1)[OF ok]]
  have w: "\<not> cwv (pv st n)" "\<not> uwv (pv st n)" using thread_facts(3,4)[OF s(2), of n] f by auto
  then show q: "quiet v" using v by (simp add: quiet_def)
  then show a: "actv (pv st n) = Some (pn_state v)" using v by (simp add: quiet_def)
  show "pn_state v \<noteq> putNotifyNotActive" using nt_okD(2)[OF ok, of n] v by (simp add: settled_def)
  show "pn_state v = putNotifyRestartInProgress \<or> pn_state v = putNotifyPutInProgress \<longleftrightarrow> waitList v \<noteq> []"
    using nt_okD(2)[OF ok, of n] seenD(4)[OF s(2), of n] v a by (auto simp: settled_def loc_def inProg_def)
qed

text \<open>A \<open>putNotify\<close> that is not waited for is cleaned up.\<close>

lemma clean_now:
  assumes st: "nstore st" and s: "seen {} {} ((pv st)(n := None)) (recs st) (ntab st) (reqs st) (npcs st) (waitingOn st)"
    and v: "pv st n = Some (p, v)" "quiet v" and o: "\<forall>m. m \<noteq> n \<longrightarrow> settled (pv st m)"
  shows "\<exists>st'. putNotifyCleanup n st = Some st' \<and> nt_ok st' \<and> pv st' = (pv st)(n := None) \<and> userCalls st' = userCalls st"
proof -
  obtain x where x: "ntab st n = Some x" using v(1) by (auto simp: pv_Some)
  obtain st' where st': "putNotifyCleanup n st = Some st'" "nstore st'" "pv st' = (pv st)(n := None)" "recs st' = recs st" "reqs st' = reqs st"
     "npcs st' = npcs st" "waitingOn st' = waitingOn st" "userCalls st' = userCalls st" "ntab st' = (ntab st)(n \<mapsto> x\<lparr>pputNotifyPvt := None\<rparr>)"
    using cleanup_ok[OF st v(1) _ _ x] v(2) by (auto simp: quiet_def)
  have "seen {} {} (pv st') (recs st') (ntab st') (reqs st') (npcs st') (waitingOn st')"
    unfolding st'(3-7,9) by (rule seen_note[OF s]) (use x in simp_all)
  then have "nt_ok st'" using st'(2,3) o by (simp add: nt_ok_def nts_def settled_def)
  then show ?thesis using st' by blast
qed

text \<open>The loop over the wait list.\<close>

lemma waitDelete_ok:
  assumes s: "nts {} Y st" and v: "pv st n = Some (p, v)" "r \<in> set (waitList v)"
  shows "\<exists>st'. waitDelete n r st = Some st' \<and> nts {r} Y st' \<and> pv st' = (pv st)(n := Some (p, v\<lparr>waitList := remove1 r (waitList v)\<rparr>))
     \<and> ntab st' = ntab st \<and> npcs st' = npcs st \<and> waitingOn st' = waitingOn st \<and> userCalls st' = userCalls st \<and> reqs st' = reqs st
     \<and> (\<forall>x. ownv (recs st' x) = ownv (recs st x))"
proof -
  note n = ntsD[OF s]
  have o: "ownv (recs st r) = Some n" using coreD(6)[OF seenD(1)[OF n(2)], of r n] v by simp
  have nr: "nrv (recs st r)" by (rule flaggedD(1)[OF seenD(5)[OF n(2)]]) (use o in simp)
  have "\<exists>m. r \<in> set ((wlv \<circ> pv st) m)" using v by (intro exI[of _ n]) simp
  then have wf: "wfv (recs st r)" using flaggedD(2)[OF seenD(5)[OF n(2)], of r] by simp
  obtain d w where d: "recs st r = Some d" "ppnr d = Some w" "waitOnList w" using nr wf by (cases "recs st r") auto
  let ?d = "d\<lparr>ppnr := Some (w\<lparr>waitOnList := False\<rparr>)\<rparr>" and ?v = "v\<lparr>waitList := remove1 r (waitList v)\<rparr>"
  let ?st = "setPvt p ?v (setRec r ?d st)"
  have e: "waitDelete n r st = Some ?st" using d v(1) by (simp add: waitDelete_def updPvt_eq)
  have p: "nstore ?st" "pv ?st = (pv st)(n := Some (p, ?v))"
    using store_pvt[OF store_rec[OF n(1)], where n = n and p = p and v = v and v' = ?v] v(1) by simp_all
  have "nts {r} Y ?st" using seen_wdel[OF n(2) v d(1,2)] p by (simp add: nts_def)
  then show ?thesis using e p d by simp
qed

lemma cancel_loop:
  "nts {} {} st \<Longrightarrow> pv st n = Some (p, v) \<Longrightarrow> quiet v \<Longrightarrow> inProg (Some (pn_state v)) \<Longrightarrow> waitList v = ws \<Longrightarrow> \<forall>m. m \<noteq> n \<longrightarrow> settled (pv st m) \<Longrightarrow>
   \<exists>st' v'. cancelRecords n ws st = Some st' \<and> nts {} {} st' \<and> pv st' n = Some (p, v') \<and> quiet v' \<and> pn_state v' = pn_state v \<and> waitList v' = []
     \<and> (\<forall>m. m \<noteq> n \<longrightarrow> settled (pv st' m)) \<and> (\<forall>m. m \<noteq> n \<longrightarrow> balance m st' = balance m st) \<and> userCalls st' = userCalls st
     \<and> (\<forall>x. ntab st n = Some x \<longrightarrow> (\<exists>y. ntab st' n = Some y \<and> pn_record y = pn_record x)) \<and> npcs st' = npcs st \<and> waitingOn st' = waitingOn st"
proof (induction ws arbitrary: st v)
  case Nil
  then show ?case by simp
next
  case (Cons w ws)
  obtain st1 where s1: "waitDelete n w st = Some st1" "nts {w} {} st1" "pv st1 = (pv st)(n := Some (p, v\<lparr>waitList := remove1 w (waitList v)\<rparr>))"
     "ntab st1 = ntab st" "npcs st1 = npcs st" "waitingOn st1 = waitingOn st" "userCalls st1 = userCalls st"
    using waitDelete_ok[OF Cons.prems(1,2), of w] Cons.prems(5) by auto
  have v1: "pv st1 n = Some (p, v\<lparr>waitList := ws\<rparr>)" using s1(3) Cons.prems(5) by simp
  obtain st2 where s2: "restartCheck w st1 = Some st2" "nts {} {} st2" "keeps st1 st2"
    using restart_ok[OF s1(2), of w] by auto
  have "\<not> wfrv (pv st1 n)" using v1 Cons.prems(3,4) by (auto simp: wfrv_def quiet_def)
  then have v2: "pv st2 n = Some (p, v\<lparr>waitList := ws\<rparr>)" using keepsD(4)[OF s2(3)] v1 by simp
  have o2: "\<forall>m. m \<noteq> n \<longrightarrow> settled (pv st2 m)" using keepsD(5)[OF s2(3)] s1(3) Cons.prems(6) by simp
  have q2: "quiet (v\<lparr>waitList := ws\<rparr>)" using Cons.prems(3) by (simp add: quiet_def)
  have b2: "balance m st2 = balance m st" if "m \<noteq> n" for m
    using keepsD(7)[OF s2(3), of m] s1(3,7) that by (simp add: balance_def)
  obtain st' v' where st': "cancelRecords n ws st2 = Some st'" "nts {} {} st'" "pv st' n = Some (p, v')" "quiet v'" "pn_state v' = pn_state v" "waitList v' = []"
     "\<forall>m. m \<noteq> n \<longrightarrow> settled (pv st' m)" "\<forall>m. m \<noteq> n \<longrightarrow> balance m st' = balance m st2" "userCalls st' = userCalls st2"
     "\<forall>x. ntab st2 n = Some x \<longrightarrow> (\<exists>y. ntab st' n = Some y \<and> pn_record y = pn_record x)" "npcs st' = npcs st2" "waitingOn st' = waitingOn st2"
    using Cons.IH[OF s2(2) v2 q2 _ _ o2] Cons.prems(4) by auto
  have "\<exists>y. ntab st' n = Some y \<and> pn_record y = pn_record x" if "ntab st n = Some x" for x
    using keepsD(8)[OF s2(3), of n x] st'(10) s1(4) that by metis
  then show ?case using s1(1,5-7) s2(1) keepsD(1-3)[OF s2(3)] st' b2 by simp
qed

lemma cancel_ok:
  assumes ok: "nt_ok st" and f: "npcs st t = NIdle" "waitingOn st n = None" "ntab st n = Some x"
  shows "\<exists>st'. dbNotifyCancel t n st = Some st' \<and> nt_ok st' \<and> (\<forall>m. m \<noteq> n \<longrightarrow> balance m st' = balance m st) \<and> balance n st' \<le> balance n st
     \<and> (npcs st' t = NIdle \<longrightarrow> pv st' n = None)"
proof -
  note s = ntsD[OF nt_okD(1)[OF ok]]
  obtain d where d: "recs st (pn_record x) = Some d" using nstoreD(5)[OF s(1) f(3)] by blast
  show ?thesis
  proof (cases "pputNotifyPvt x")
    case None
    then have "dbNotifyCancel t n st = Some st" "pv st n = None" using f(3) d pv_None[OF s(1), of n] by (simp_all add: dbNotifyCancel_def)
    then show ?thesis using ok by auto
  next
    case (Some p)
    obtain v where v: "pvts st p = Some v" using nstoreD(1)[OF s(1) f(3) Some] by blast
    have pn: "pv st n = Some (p, v)" using f(3) Some v by (auto simp: pv_Some)
    note a = active_facts[OF ok pn f(2)]
    have o: "\<forall>m. m \<noteq> n \<longrightarrow> settled (pv st m)" using nt_okD(2)[OF ok] by blast
    consider (busy) "requested (Some (pn_state v)) \<or> pn_state v = putNotifyUserCallbackActive" | (waiting) "pn_state v = putNotifyWaitForRestart"
      | (going) "pn_state v = putNotifyRestartInProgress \<or> pn_state v = putNotifyPutInProgress"
      using a(2) by (cases "pn_state v") auto
    then show ?thesis
    proof cases
      case busy
      let ?st = "setWaiting n (Some t) (setPc t (NCancelWait n p) (setPvt p (v\<lparr>cancelWait := True\<rparr>) st))"
      have e: "dbNotifyCancel t n st = Some ?st" using f(3) d Some v busy a(2) by (auto simp: dbNotifyCancel_def requested_def)
      have p: "nstore ?st" "pv ?st = (pv st)(n := Some (p, v\<lparr>cancelWait := True\<rparr>))"
        using store_pvt[OF s(1) pn, of "v\<lparr>cancelWait := True\<rparr>"] by simp_all
      have "nts {} {} ?st" using seen_wait_cancel[OF s(2) f(1,2) pn busy] p by (simp add: nts_def)
      moreover have "settled (pv ?st m)" for m using p(2) nt_okD(2)[OF ok, of m] pn by (cases "m = n") (auto simp: settled_def)
      moreover have "balance m ?st = balance m st" for m using p(2) pn by (intro balance_same) (auto simp: owe_def ucav_def)
      ultimately show ?thesis using e by (auto simp: nt_ok_def)
    next
      case waiting
      have wl: "n \<in> set (rlv (recs st (pn_record x)))" using coreD(9)[OF seenD(1)[OF s(2)], of n "pn_record x"] pn a(1) waiting f(3) by (simp add: wfrv_def)
      then obtain w where w: "ppnr d = Some w" "n \<in> set (restartList w)" using d by (cases "ppnr d") auto
      have rf: "restartOnList x" using seenD(4)[OF s(2), of n] pn a(1) waiting f(3) by (simp add: loc_def wfrv_def)
      have "rlv (recs st (pn_record x)) \<noteq> []" using wl by force
      then have "ownv (recs st (pn_record x)) \<noteq> None" using coreD(8)[OF seenD(1)[OF s(2)], of "pn_record x"] by simp
      then have pd: "ppn d \<noteq> None" using d by simp
      have pd2: "ppn d \<noteq> Some n"
      proof
        assume "ppn d = Some n"
        then have "pn_record x \<in> set (wlv (pv st n)) \<or> rcrv (pv st n)"
          using coreD(1)[OF seenD(1)[OF s(2)], of "pn_record x" n] d by (auto simp: hand_simps)
        then show False using pn a(1,4) waiting by (auto simp: rcrv_def)
      qed
      let ?d = "d\<lparr>ppnr := Some (w\<lparr>restartList := remove1 n (restartList w)\<rparr>)\<rparr>" and ?x = "x\<lparr>restartOnList := False\<rparr>"
      let ?st1 = "setNote n ?x (setRec (pn_record x) ?d st)"
      have e1: "restartDelete (pn_record x) n st = Some ?st1" using d w rf f(3) by (simp add: restartDelete_def)
      have p1: "nstore ?st1" "pv ?st1 = pv st"
        using store_note[OF store_rec[OF s(1)], where n = n and x = x and x' = ?x] f(3) by simp_all
      have "seen {} {} ((pv st)(n := None)) ((recs st)(pn_record x \<mapsto> ?d)) ((ntab st)(n \<mapsto> ?x)) (reqs st) (npcs st) (waitingOn st)"
        by (rule seen_unwait[OF s(2) pn a(3) waiting d w(1) f(3)])
      then obtain st' where st': "putNotifyCleanup n ?st1 = Some st'" "nt_ok st'" "pv st' = (pv st)(n := None)" "userCalls st' = userCalls st"
        using clean_now[OF p1(1), of n p v] p1(2) pn a(3) o by auto
      have "dbNotifyCancel t n st = Some st'" using f(3) d Some v waiting e1 pd pd2 st'(1) by (simp add: dbNotifyCancel_def)
      moreover have "m \<noteq> n \<longrightarrow> balance m st' = balance m st" "balance n st' \<le> balance n st" for m using st'(3,4) by (auto simp: balance_def owe_def)
      ultimately show ?thesis using st' by auto
    next
      case going
      have ip: "inProg (Some (pn_state v))" using going by (auto simp: inProg_def)
      obtain st1 v' where s1: "cancelRecords n (waitList v) st = Some st1" "nts {} {} st1" "pv st1 n = Some (p, v')" "quiet v'" "pn_state v' = pn_state v" "waitList v' = []"
         "\<forall>m. m \<noteq> n \<longrightarrow> settled (pv st1 m)" "\<forall>m. m \<noteq> n \<longrightarrow> balance m st1 = balance m st" "userCalls st1 = userCalls st"
         "\<exists>y. ntab st1 n = Some y \<and> pn_record y = pn_record x" "npcs st1 = npcs st" "waitingOn st1 = waitingOn st"
        using cancel_loop[OF nt_okD(1)[OF ok] pn a(3) ip refl o] f(3) by auto
      note n1 = ntsD[OF s1(2)]
      obtain d1 where d1: "recs st1 (pn_record x) = Some d1" using s1(10) nstoreD(5)[OF n1(1)] by fastforce
      have pd: "ppn d1 \<noteq> Some n"
      proof
        assume "ppn d1 = Some n"
        then have "pn_record x \<in> set (wlv (pv st1 n)) \<or> rcrv (pv st1 n)"
          using coreD(1)[OF seenD(1)[OF n1(2)], of "pn_record x" n] d1 by (auto simp: hand_simps)
        then show False using s1(3-6) going by (auto simp: rcrv_def quiet_def)
      qed
      have "seen {} {} ((pv st1)(n := None)) (recs st1) (ntab st1) (reqs st1) (npcs st1) (waitingOn st1)"
        by (rule seen_drop[OF n1(2) s1(3,4,6)]) (use s1(5) going in auto)
      then obtain st' where st': "putNotifyCleanup n st1 = Some st'" "nt_ok st'" "pv st' = (pv st1)(n := None)" "userCalls st' = userCalls st1"
        using clean_now[OF n1(1) _ s1(3,4,7)] by blast
      have "dbNotifyCancel t n st = Some st'" using f(3) d Some v going s1(1) d1 pd st'(1) by (auto simp: dbNotifyCancel_def)
      moreover have "m \<noteq> n \<longrightarrow> balance m st' = balance m st" for m using st'(3,4) s1(8) by (auto simp: balance_def owe_def)
      moreover have "balance n st' \<le> balance n st" using st'(3,4) s1(9) by (auto simp: balance_def owe_def)
      ultimately show ?thesis using st' by auto
    qed
  qed
qed

section \<open>The end of a user callback\<close>

lemma end_user_ok:
  assumes ok: "nt_ok st" and t: "npcs st t = NUser n p"
  shows "\<exists>st'. callUserEnd t n p st = Some st' \<and> nt_ok st' \<and> (\<forall>m. balance m st' = balance m st)"
proof -
  note s = ntsD[OF nt_okD(1)[OF ok]]
  obtain v where v: "pv st n = Some (p, v)" "pn_state v = putNotifyUserCallbackActive" "\<not> cancelEvent v" "\<not> userCallbackEvent v" "waitList v = []"
    "\<not> (cancelWait v \<and> userCallbackWait v)" using user_facts[OF s(2) t] by metis
  obtain x where x: "ntab st n = Some x" "pvts st p = Some v" using v(1) by (auto simp: pv_Some)
  have same: "setPvt p v st = st" using x(2) by (simp add: setPvt_def fun_upd_idem)
  show ?thesis
  proof (cases "cancelWait v \<or> userCallbackWait v")
    case False
    obtain st1 where st1: "putNotifyCleanup n st = Some st1" "nstore st1" "pv st1 = (pv st)(n := None)" "recs st1 = recs st" "reqs st1 = reqs st"
     "npcs st1 = npcs st" "waitingOn st1 = waitingOn st" "userCalls st1 = userCalls st" "ntab st1 = (ntab st)(n \<mapsto> x\<lparr>pputNotifyPvt := None\<rparr>)"
      using cleanup_ok[OF s(1) v(1,3,4) x(1)] by blast
    let ?st = "setPc t NIdle st1"
    have e: "callUserEnd t n p st = Some ?st" using x(2) False st1(1) same by (simp add: callUserEnd_def Let_def)
    have "seen {} {} ((pv st)(n := None)) (recs st) (ntab st) (reqs st) ((npcs st)(t := NIdle)) (waitingOn st)"
      by (rule seen_end[OF s(2) t v(1)]) (use False in simp_all)
    then have "seen {} {} (pv st1) (recs st1) (ntab st1) (reqs st1) ((npcs st1)(t := NIdle)) (waitingOn st1)"
      unfolding st1(3-7,9) by (rule seen_note) (use x in simp_all)
    then have "nt_ok ?st" using st1(2,3) nt_okD(2)[OF ok] by (simp add: nt_ok_def nts_def settled_def)
    moreover have "balance m ?st = balance m st" for m using st1(3,8) v False by (intro balance_same) (auto simp: owe_def ucav_def)
    ultimately show ?thesis using e by blast
  next
    case True
    let ?v = "if cancelWait v then v\<lparr>cancelWait := False, cancelEvent := True\<rparr> else v\<lparr>userCallbackWait := False, userCallbackEvent := True\<rparr>"
    let ?st = "setPc t NIdle (setPvt p ?v st)"
    have e: "callUserEnd t n p st = Some ?st" using x(2) True v(6) same by (auto simp: callUserEnd_def Let_def)
    have p: "nstore ?st" "pv ?st = (pv st)(n := Some (p, ?v))" using store_pvt[OF s(1) v(1), of ?v] by simp_all
    have "seen {} {} ((pv st)(n := Some (p, ?v))) (recs st) (ntab st) (reqs st) ((npcs st)(t := NIdle)) (waitingOn st)"
      by (rule seen_signal[OF s(2) t v(1)]) (use True v in auto)
    then have "nts {} {} ?st" using p by (simp add: nts_def)
    moreover have "settled (pv ?st m)" for m using p(2) nt_okD(2)[OF ok, of m] v(1,2) by (cases "m = n") (auto simp: settled_def)
    moreover have "balance m ?st = balance m st" for m using p(2) v True by (intro balance_same) (auto simp: owe_def ucav_def)
    ultimately show ?thesis using e by (auto simp: nt_ok_def)
  qed
qed

end
