(* ===== verification/DbNotifyReach.thy ===== *)
theory DbNotifyReach
  imports DbNotifySafe
begin

text \<open>The callback task and record processing; every step of put notification from a reachable state returns and keeps the invariant.\<close>

section \<open>The callback task\<close>

lemma callback_ok:
  assumes ok: "nt_ok st" and h: "homed st" and t: "npcs st callbackTask = NIdle" and q: "cbQueue st = q # qs"
  shows "\<exists>st'. notifyCallback q res (st\<lparr>cbQueue := qs, cbOverflow := False\<rparr>) = Some st' \<and> nt_ok st'
     \<and> (\<forall>m. balance m st' = balance m st \<or> cwv (pv st m) \<and> balance m st' \<le> balance m st)"
proof -
  note s = ntsD[OF nt_okD(1)[OF ok]]
  let ?s0 = "st\<lparr>cbQueue := qs, cbOverflow := False\<rparr>" and ?qs = "mset qs + mset (cbLost st)"
  have rq0: "reqs st = add_mset q ?qs" using q by (simp add: reqs_def)
  obtain n v where n: "pv st n = Some (q, v)" "requested (actv (pv st n))" "pn_state v = putNotifyRestartCallbackRequested \<Longrightarrow> ownv (recs st (homev (ntab st n))) = Some n"
    and sn: "seen (if pn_state v = putNotifyRestartCallbackRequested then {homev (ntab st n)} else {}) {n} (pv st) (recs st) (ntab st) ?qs (npcs st) (waitingOn st)"
    using seen_take[OF s(2)[unfolded rq0]] by metis
  obtain x where x: "ntab st n = Some x" "pputNotifyPvt x = Some q" "pvts st q = Some v" using n(1) by (auto simp: pv_Some)
  let ?r = "pn_record x" and ?X = "if pn_state v = putNotifyRestartCallbackRequested then {pn_record x} else {}"
  have s0: "nts ?X {n} ?s0" using sn x(1) s(1) by (simp add: nts_def split: if_split_asm)
  obtain d where d: "recs st ?r = Some d" using nstoreD(5)[OF s(1) x(1)] by blast
  have av: "actv (pv st n) = Some (pn_state v)" using n(1,2) by (auto split: if_splits)
  have rq: "requested (Some (pn_state v))" using n(2) av by simp
  have wl: "waitList v = []" using seenD(4)[OF sn, of n] n(1) av rq by (auto simp: loc_def requested_def)
  have nr: "ppnr d \<noteq> None"
  proof -
    have "nrv (recs st ?r)" using h x(1,2) by (simp add: homed_def)
    then show ?thesis using d by simp
  qed
  then obtain w where w: "ppnr d = Some w" by blast
  have cu: "cb_user v = Some n" using nstoreD(1)[OF s(1) x(1,2)] x(3) by auto
  have st: "pn_state v = putNotifyRestartCallbackRequested \<or> pn_state v = putNotifyUserCallbackRequested" using rq by (auto simp: requested_def)
  have pv0: "pvtOf n ?s0 = Some (q, v)" "pvts ?s0 q = Some v" "ntab ?s0 n = Some x" "recs ?s0 ?r = Some d" "pv ?s0 = pv st" using n(1) x d
    by (simp_all add: pv_def[symmetric])
  have ow: "owe (pv st n)" using av st by (auto simp: owe_def ucav_def)
  show ?thesis
  proof (cases "cancelWait v")
    case True
    have "\<exists>st1. (if pn_state v = putNotifyRestartCallbackRequested then restartCheck ?r ?s0 else Some ?s0) = Some st1 \<and> nts {} {n} st1 \<and> keeps ?s0 st1"
    proof (cases "pn_state v = putNotifyRestartCallbackRequested")
      case True
      have "\<exists>st1. restartCheck ?r ?s0 = Some st1 \<and> nts (?X - {?r}) {n} st1 \<and> keeps ?s0 st1 \<and> (\<forall>n. \<not> wfrv (pv ?s0 n) \<longrightarrow> ownv (recs st1 ?r) \<noteq> Some n) \<and> recs st1 ?r \<noteq> None"
        by (rule restart_ok[OF s0]) (use True av in \<open>auto simp: wfrv_def\<close>)
      then show ?thesis using True by auto
    next
      case False
      then show ?thesis using s0 by (simp add: keeps_def)
    qed
    then obtain st1 where s1: "(if pn_state v = putNotifyRestartCallbackRequested then restartCheck ?r ?s0 else Some ?s0) = Some st1" "nts {} {n} st1" "keeps ?s0 st1"
      by blast
    have v1: "pv st1 n = Some (q, v)" using keepsD(4)[OF s1(3), of n] n(1) av st by (auto simp: wfrv_def)
    let ?st = "setPvt q (v\<lparr>cancelEvent := True\<rparr>) st1"
    have e: "notifyCallback q res ?s0 = Some ?st" using pv0 cu d w st wl True s1(1) by (auto simp: notifyCallback_def Let_def updPvt_eq[OF v1])
    have p: "nstore ?st" "pv ?st = (pv st1)(n := Some (q, v\<lparr>cancelEvent := True\<rparr>))" using store_pvt[OF ntsD(1)[OF s1(2)] v1] by simp_all
    have "seen {} {} ((pv st1)(n := Some (q, v\<lparr>cancelEvent := True\<rparr>))) (recs st1) (ntab st1) (reqs st1) (npcs st1) (waitingOn st1)"
      by (rule seen_cancelled[OF ntsD(2)[OF s1(2)] v1]) (use n(1,2) v1 av rq True in \<open>auto split: if_splits\<close>)
    then have "nts {} {} ?st" using p by (simp add: nts_def)
    moreover have "settled (pv ?st m)" for m
      using keepsD(5)[OF s1(3), of m] p(2) nt_okD(2)[OF ok, of m] pv0(5) n(1) by (cases "m = n") (auto simp: settled_def)
    moreover have "balance m ?st = balance m st \<or> cwv (pv st m) \<and> balance m ?st \<le> balance m st" for m
      using keepsD(3,6)[OF s1(3)] p(2) n(1) ow True by (cases "m = n") (simp_all add: balance_def)
    ultimately show ?thesis using e by (auto simp: nt_ok_def)
  next
    case False
    have qv: "quiet v" by (rule loc_quiet[of q v "ntab st n" "pn_state v"]) (use seenD(4)[OF sn, of n] n(1) av False st in auto)
    show ?thesis
    proof (cases "pn_state v = putNotifyRestartCallbackRequested")
      case True
      have e: "notifyCallback q res ?s0 = putNotifyCommon callbackTask n ?r res ?s0"
        using pv0 cu d w st wl False True by (auto simp: notifyCallback_def Let_def)
      have "\<exists>st'. putNotifyCommon callbackTask n ?r res ?s0 = Some st' \<and> nt_ok st' \<and> (\<forall>m. balance m st' = balance m ?s0)"
      proof (rule put_common_ok[OF s0])
        show "pv ?s0 n = Some (q, v)" "ntab ?s0 n = Some x" "recs ?s0 ?r = Some d" using pv0 n(1) by simp_all
        show "\<forall>m. m \<noteq> n \<longrightarrow> settled (pv ?s0 m)" using nt_okD(2)[OF ok] pv0(5) by simp
        show "pn_state v = putNotifyNotActive \<and> ?X = {} \<or> pn_state v = putNotifyRestartCallbackRequested \<and> ?X = {?r} \<and> ppn d = Some n"
          using True n(3)[OF True] x(1) d by simp
      qed (use qv wl w t in simp_all)
      moreover have "balance m ?s0 = balance m st" for m using pv0(5) by (simp add: balance_def)
      ultimately show ?thesis unfolding e by auto
    next
      case F2: False
      then have ucr: "pn_state v = putNotifyUserCallbackRequested" using st by blast
      have sn2: "seen {} {n} (pv st) (recs st) (ntab st) ?qs (npcs st) (waitingOn st)" using sn F2 by simp
      have nown: "ppn d \<noteq> Some n" using coreD(1)[OF seenD(1)[OF sn2], of ?r n] d n(1) wl by auto
      let ?v = "v\<lparr>pn_state := putNotifyUserCallbackActive\<rparr>"
      let ?st = "setPc callbackTask (NUser n q) ((setPvt q ?v ?s0)\<lparr>userCalls := (n, pn_status x) # userCalls st\<rparr>)"
      have e: "notifyCallback q res ?s0 = Some ?st"
        using pv0 cu d w wl False ucr nown x by (auto simp: notifyCallback_def Let_def callUser_def)
      have p: "nstore ?st" "pv ?st = (pv st)(n := Some (q, ?v))" using store_pvt[OF ntsD(1)[OF s0], of n q v ?v] pv0(5) n(1) by simp_all
      have "seen {} {n} ((pv st)(n := Some (q, ?v))) (recs st) (ntab st) ?qs ((npcs st)(callbackTask := NUser n q)) (waitingOn st)"
        by (rule seen_user[OF sn2 _ n(1) qv wl _ _ t]) (use ucr in simp_all)
      then have "seen {} {} ((pv st)(n := Some (q, ?v))) (recs st) (ntab st) ?qs ((npcs st)(callbackTask := NUser n q)) (waitingOn st)"
        by (rule seen_leave) (auto simp: rqv_def)
      then have "nts {} {} ?st" using p by (simp add: nts_def)
      moreover have "settled (pv ?st m)" for m using p(2) nt_okD(2)[OF ok, of m] by (cases "m = n") (auto simp: settled_def inProg_def)
      moreover have "balance m ?st = balance m st" for m
        using p(2) ow qv by (cases "m = n") (auto simp: balance_def owe_def quiet_def ucav_def)
      ultimately show ?thesis using e by (auto simp: nt_ok_def)
    qed
  qed
qed

section \<open>Record processing\<close>

lemma owner_facts:
  assumes ok: "nt_ok st" and d: "recs st r = Some d" "ppn d = Some n"
  obtains p v x w where "pv st n = Some (p, v)" "ntab st n = Some x" "pputNotifyPvt x = Some p" "pvts st p = Some v" "ppnr d = Some w"
    "actv (pv st n) = Some (pn_state v)"
    "r \<in> set (waitList v) \<and> inProg (Some (pn_state v)) \<and> quiet v \<or> pn_state v = putNotifyRestartCallbackRequested"
proof -
  note s = ntsD[OF nt_okD(1)[OF ok]]
  have "nrv (recs st r)" by (rule flaggedD(1)[OF seenD(5)[OF s(2)]]) (use d in simp)
  then obtain w where w: "ppnr d = Some w" using d by auto
  have c: "r \<in> set (wlv (pv st n)) \<or> rcrv (pv st n)" using coreD(1)[OF seenD(1)[OF s(2)], of r n] d by (auto simp: hand_simps)
  then obtain p v where v: "pv st n = Some (p, v)" by (cases "pv st n") auto
  obtain x where x: "ntab st n = Some x" "pputNotifyPvt x = Some p" "pvts st p = Some v" using v by (auto simp: pv_Some)
  have l: "loc (Some (p, v)) (ntab st n)" using seenD(4)[OF s(2), of n] v by simp
  show thesis
  proof (cases "r \<in> set (waitList v)")
    case True
    then have i: "inProg (actv (Some (p, v)))" using l by (auto simp: loc_def)
    then have a: "actv (Some (p, v)) = Some (pn_state v)" by (auto split: if_splits)
    have "quiet v" by (rule loc_quiet[OF l a]) (use i a in \<open>auto simp: inProg_def\<close>)
    then show thesis using that v x w a i True by simp
  next
    case False
    then have "actv (Some (p, v)) = Some putNotifyRestartCallbackRequested" using c v by (simp add: rcrv_def)
    then show thesis using that v x w by (auto split: if_splits)
  qed
qed

lemma completion_ok:
  assumes ok: "nt_ok st" and d: "recs st r = Some d" "ppn d = Some n"
  shows "\<exists>st'. dbNotifyCompletion r n st = Some st' \<and> nt_ok st' \<and> (\<forall>m. balance m st' = balance m st)"
proof -
  note s = ntsD[OF nt_okD(1)[OF ok]]
  obtain p v x w where f: "pv st n = Some (p, v)" "ntab st n = Some x" "pputNotifyPvt x = Some p" "pvts st p = Some v" "ppnr d = Some w"
    "actv (pv st n) = Some (pn_state v)"
    "r \<in> set (waitList v) \<and> inProg (Some (pn_state v)) \<and> quiet v \<or> pn_state v = putNotifyRestartCallbackRequested"
    by (rule owner_facts[OF ok d])
  have pvt: "pvtOf n st = Some (p, v)" using f(1) by (simp add: pv_def)
  show ?thesis
  proof (cases "pn_state v = putNotifyRestartCallbackRequested")
    case True
    then have "dbNotifyCompletion r n st = Some st" using d f pvt by (simp add: dbNotifyCompletion_def)
    then show ?thesis using ok by blast
  next
    case False
    then have i: "r \<in> set (waitList v)" "inProg (Some (pn_state v))" "quiet v" using f(7) by blast+
    let ?v = "v\<lparr>waitList := remove1 r (waitList v)\<rparr>"
    obtain st1 where s1: "waitDelete n r st = Some st1" "nts {r} {} st1" "pv st1 = (pv st)(n := Some (p, ?v))" "ntab st1 = ntab st" "npcs st1 = npcs st"
      "userCalls st1 = userCalls st" "ownv (recs st1 r) = Some n"
      using waitDelete_ok[OF nt_okD(1)[OF ok] f(1) i(1)] d by auto
    note n1 = ntsD[OF s1(2)]
    have p1: "pvtOf n st1 = Some (p, ?v)" "pv st1 n = Some (p, ?v)" using s1(3) by (simp_all add: pv_def[symmetric])
    have q: "quiet ?v" "\<not> wfrv (pv st1 n)" "\<not> rqv (pv st1 n)" using i(2,3) p1(2) by (auto simp: quiet_def wfrv_def rqv_def inProg_def)
    have b1: "balance m st1 = balance m st" for m using s1(3,6) f(1) by (intro balance_same) (auto simp: owe_def ucav_def)
    have o1: "settled (pv st1 m)" if "m \<noteq> n" for m using nt_okD(2)[OF ok, of m] s1(3) that by simp
    have e: "dbNotifyCompletion r n st = (if waitList ?v \<noteq> [] then restartCheck r st1
       else if pn_state v = putNotifyPutInProgress
       then map_option (callbackRequest p) (restartCheck r (setPvt p (?v\<lparr>pn_state := putNotifyUserCallbackRequested\<rparr>) st1))
       else Some (callbackRequest p (setPvt p (?v\<lparr>pn_state := putNotifyRestartCallbackRequested\<rparr>) st1)))"
      using d f(5) pvt i(2) s1(1) p1(1) by (auto simp: dbNotifyCompletion_def inProg_def)
    show ?thesis
    proof (cases "waitList ?v = []")
      case more: False
      obtain st2 where s2: "restartCheck r st1 = Some st2" "nts {} {} st2" "keeps st1 st2" using restart_ok[OF s1(2), of r] by auto
      have "settled (pv st2 m)" for m
        using keepsD(4)[OF s2(3) q(2)] keepsD(5)[OF s2(3), of m] o1[of m] p1(2) nt_okD(2)[OF ok, of n] f(1) more by (cases "m = n") (auto simp: settled_def)
      then have "nt_ok st2" using s2(2) by (simp add: nt_ok_def)
      moreover have "balance m st2 = balance m st" for m using keepsD(7)[OF s2(3)] b1 by simp
      ultimately show ?thesis using e s2(1) more by auto
    next
      case empty: True
      have g: "seen {r} {n} (pv st1) (recs st1) (ntab st1) (reqs st1) (npcs st1) (waitingOn st1)" by (rule seen_grab[OF n1(2) q(3)])
      have nx: "pn_state v = putNotifyRestartInProgress \<or> pn_state v = putNotifyPutInProgress" using i(2) by (simp add: inProg_def)
      have h: "nts {r} {n} (setPvt p (?v\<lparr>pn_state := a\<rparr>) st1) \<and> pv (setPvt p (?v\<lparr>pn_state := a\<rparr>) st1) = (pv st1)(n := Some (p, ?v\<lparr>pn_state := a\<rparr>))"
        if a: "requested (Some a)" for a
      proof -
        have pv2: "nstore (setPvt p (?v\<lparr>pn_state := a\<rparr>) st1)" "pv (setPvt p (?v\<lparr>pn_state := a\<rparr>) st1) = (pv st1)(n := Some (p, ?v\<lparr>pn_state := a\<rparr>))"
          using store_pvt[OF n1(1) p1(2), of "?v\<lparr>pn_state := a\<rparr>"] by simp_all
        have "seen {r} {n} ((pv st1)(n := Some (p, ?v\<lparr>pn_state := a\<rparr>))) (recs st1) (ntab st1) (reqs st1) (npcs st1) (waitingOn st1)"
          by (rule seen_hand[OF g _ p1(2) q(1)]) (use a empty nx i(3) in \<open>auto simp: quiet_def\<close>)
        then show ?thesis using pv2 by (simp add: nts_def)
      qed
      show ?thesis
      proof (cases "pn_state v = putNotifyPutInProgress")
        case True
        let ?u = "?v\<lparr>pn_state := putNotifyUserCallbackRequested\<rparr>"
        let ?st2 = "setPvt p ?u st1"
        have s2: "nts {r} {n} ?st2" "pv ?st2 = (pv st1)(n := Some (p, ?u))" using h[of putNotifyUserCallbackRequested] by simp_all
        have nw: "\<not> wfrv (pv ?st2 n)" using s2(2) by (simp add: wfrv_def)
        obtain st3 where s3: "restartCheck r ?st2 = Some st3" "nts {} {n} st3" "keeps ?st2 st3"
          using restart_ok[OF s2(1), of r] nw by auto
        have v3: "pv st3 n = Some (p, ?u)" using keepsD(4)[OF s3(3) nw] s2(2) by simp
        have "seen {} {} (pv st3) (recs st3) (ntab st3) (add_mset p (reqs st3)) (npcs st3) (waitingOn st3)"
          by (rule seen_push[OF ntsD(2)[OF s3(2)] _ v3]) (use v3 i(3) in \<open>simp_all add: quiet_def\<close>)
        then have "nts {} {} (callbackRequest p st3)" using ntsD(1)[OF s3(2)] by (simp add: nts_def)
        moreover have "settled (pv st3 m)" for m
          using keepsD(5)[OF s3(3), of m] s2(2) o1[of m] v3 by (cases "m = n") (auto simp: settled_def)
        moreover have "balance m ?st2 = balance m st" for m using s2(2) p1(2) b1[of m] i(2,3) nx by (auto simp: balance_def owe_def ucav_def quiet_def)
        then have "balance m (callbackRequest p st3) = balance m st" for m using keepsD(7)[OF s3(3), of m] by (simp add: balance_def)
        ultimately show ?thesis using e empty True s3(1) by (auto simp: nt_ok_def)
      next
        case False
        then have rip: "pn_state v = putNotifyRestartInProgress" using nx by blast
        let ?u = "?v\<lparr>pn_state := putNotifyRestartCallbackRequested\<rparr>"
        let ?st2 = "setPvt p ?u st1"
        have s2: "nts {r} {n} ?st2" "pv ?st2 = (pv st1)(n := Some (p, ?u))" using h[of putNotifyRestartCallbackRequested] by simp_all
        have home: "homev (ntab st1 n) = r" using seenD(4)[OF s(2), of n] f(1,2,6) rip i(1) s1(4) by (auto simp: loc_def)
        have "seen {} {} (pv ?st2) (recs ?st2) (ntab ?st2) (add_mset p (reqs ?st2)) (npcs ?st2) (waitingOn ?st2)"
        proof (rule seen_push_restart[OF ntsD(2)[OF s2(1)]])
          show "pv ?st2 n = Some (p, ?u)" using s2(2) by simp
        qed (use s2(2) i(3) s1(7) home empty in \<open>simp_all add: quiet_def\<close>)
        then have "nts {} {} (callbackRequest p ?st2)" using ntsD(1)[OF s2(1)] by (simp add: nts_def)
        moreover have "settled (pv ?st2 m)" for m using s2(2) o1[of m] by (cases "m = n") (auto simp: settled_def)
        moreover have "balance m (callbackRequest p ?st2) = balance m st" for m
          using s2(2) p1(2) b1[of m] i(2,3) nx by (auto simp: balance_def owe_def ucav_def quiet_def)
        ultimately show ?thesis using e empty False by (auto simp: nt_ok_def)
      qed
    qed
  qed
qed

lemma join_ok:
  assumes ok: "nt_ok st" and d: "recs st pfrom = Some df" "ppn df = Some n" "recs st r = Some d"
  shows "\<exists>st'. dbNotifyAdd n active pfrom r st = Some st' \<and> nt_ok st' \<and> (\<forall>m. balance m st' = balance m st)"
proof (cases active)
  case True
  then show ?thesis using ok d(3) by (simp add: dbNotifyAdd_def)
next
  case False
  note s = ntsD[OF nt_okD(1)[OF ok]]
  obtain p v x w where f: "pv st n = Some (p, v)" "ntab st n = Some x" "pputNotifyPvt x = Some p" "pvts st p = Some v" "ppnr df = Some w"
    "actv (pv st n) = Some (pn_state v)"
    "pfrom \<in> set (waitList v) \<and> inProg (Some (pn_state v)) \<and> quiet v \<or> pn_state v = putNotifyRestartCallbackRequested"
    by (rule owner_facts[OF ok d(1,2)])
  let ?d = "if ppnr d = None then d\<lparr>ppnr := Some \<lparr>waitOnList = False, restartList = []\<rparr>\<rparr> else d"
  let ?st1 = "setRec r ?d st"
  have "seen {} {} (pv st) ((recs st)(r \<mapsto> ?d)) (ntab st) (reqs st) (npcs st) (waitingOn st)" by (rule seen_rec[OF s(2)]) (use d in simp_all)
  then have s1: "nts {} {} ?st1" using store_rec[OF s(1)] by (simp add: nts_def)
  have b1: "balance m ?st1 = balance m st" for m by (simp add: balance_def)
  obtain z where z: "ppnr ?d = Some z" by (cases "ppnr d") auto
  have pvt: "pvtOf n ?st1 = Some (p, v)" "pv ?st1 n = Some (p, v)" using f(1) by (simp_all add: pv_def[symmetric])
  have ok1: "nt_ok ?st1" using s1 nt_okD(2)[OF ok] by (simp add: nt_ok_def)
  show ?thesis
  proof (cases "ppn d = None \<and> pn_state v = putNotifyPutInProgress \<and> r \<noteq> pn_record x")
    case no: False
    then have "dbNotifyAdd n active pfrom r st = Some ?st1" using d(3) False f(2) pvt by (auto simp: dbNotifyAdd_def Let_def)
    then show ?thesis using ok1 b1 by blast
  next
    case True
    have wl: "waitList v \<noteq> []" "actv (pv ?st1 n) = Some putNotifyPutInProgress" using f(6,7) True by auto
    let ?d2 = "?d\<lparr>ppn := Some n, ppnr := Some (z\<lparr>waitOnList := True\<rparr>)\<rparr>" and ?v = "v\<lparr>waitList := waitList v @ [r]\<rparr>"
    let ?st = "setPvt p ?v (setRec r ?d2 st)"
    have j: "\<not> waitOnList z \<and> seen {} {} ((pv ?st1)(n := Some (p, ?v))) ((recs ?st1)(r \<mapsto> ?d2)) (ntab ?st1) (reqs ?st1) (npcs ?st1) (waitingOn ?st1)"
      by (rule seen_join[OF ntsD(2)[OF s1] pvt(2) wl(2,1)]) (use True z in auto)
    have p1: "nstore ?st" "pv ?st = (pv st)(n := Some (p, ?v))"
      using store_pvt[OF store_rec[OF s(1)], where n = n and p = p and v = v and v' = ?v] f(1) by simp_all
    have "waitAdd n r (setRec r (?d\<lparr>ppn := Some n\<rparr>) st) = Some ?st"
      using z j pvt(2) by (simp add: waitAdd_def updPvt_eq setRec_twice)
    moreover have "setOwner r (Some n) ?st1 = Some (setRec r (?d\<lparr>ppn := Some n\<rparr>) st)" by (simp add: setOwner_def setRec_twice)
    ultimately have "dbNotifyAdd n active pfrom r st = Some ?st" using d True False f(2) pvt by (auto simp: dbNotifyAdd_def Let_def)
    moreover have "nts {} {} ?st" using j p1 by (simp add: nts_def)
    moreover have "settled (pv ?st m)" for m using p1(2) nt_okD(2)[OF ok, of m] f(1) by (cases "m = n") (auto simp: settled_def)
    moreover have "balance m ?st = balance m st" for m using p1(2) f(1) by (intro balance_same) (auto simp: owe_def ucav_def)
    ultimately show ?thesis by (auto simp: nt_ok_def)
  qed
qed

section \<open>Every operation\<close>

lemma fields_ok:
  assumes ok: "nt_ok st" and d: "recs st r = Some x"
  shows "nt_ok (setRec r (x\<lparr>pact := a, disp := b, scan0 := c\<rparr>) st)" "balance m (setRec r (x\<lparr>pact := a, disp := b, scan0 := c\<rparr>) st) = balance m st"
proof -
  note s = ntsD[OF nt_okD(1)[OF ok]]
  have "seen {} {} (pv st) ((recs st)(r \<mapsto> x\<lparr>pact := a, disp := b, scan0 := c\<rparr>)) (ntab st) (reqs st) (npcs st) (waitingOn st)"
    by (rule seen_rec[OF s(2)]) (use d in simp_all)
  then show "nt_ok (setRec r (x\<lparr>pact := a, disp := b, scan0 := c\<rparr>) st)" using store_rec[OF s(1)] nt_okD(2)[OF ok] by (simp add: nt_ok_def nts_def)
  show "balance m (setRec r (x\<lparr>pact := a, disp := b, scan0 := c\<rparr>) st) = balance m st" by (simp add: balance_def)
qed

fun isPut :: "addr \<Rightarrow> notifyop \<Rightarrow> bool" where
  "isPut n (NPut t m res) \<longleftrightarrow> m = n"
| "isPut n _ \<longleftrightarrow> False"

text \<open>A put adds one to the account, and only a cancelled \<open>putNotify\<close> has less afterwards.\<close>

definition fair :: "notifyop \<Rightarrow> notify \<Rightarrow> notify \<Rightarrow> bool" where
  "fair op st st' \<longleftrightarrow> (\<forall>m. balance m st' = balance m st + (if isPut m op then 1 else 0)
     \<or> (cwv (pv st m) \<or> (\<exists>t. op = NCancel t m)) \<and> balance m st' \<le> balance m st)"

definition goodStep :: "notifyop \<Rightarrow> notify \<Rightarrow> bool" where
  "goodStep op st \<longleftrightarrow> (\<exists>st'. notifyExec op st = Some st' \<and> nt_ok st' \<and> homed st' \<and> fair op st st')"

lemma goodStepI:
  assumes "homed st" "\<exists>st'. notifyExec op st = Some st' \<and> nt_ok st' \<and> fair op st st'" "\<And>st'. notifyExec op st = Some st' \<Longrightarrow> grows st st'"
  shows "goodStep op st"
  using assms grows_homed unfolding goodStep_def by blast

lemma good_put:
  assumes ok: "nt_ok st" "homed st" and f: "notifyFits (NPut t n res) st"
  shows "goodStep (NPut t n res) st"
proof (rule goodStepI[OF ok(2)])
  obtain st' where "dbPutNotify t n res st = Some st'" "nt_ok st'" "\<forall>m. balance m st' = balance m st + (if m = n then 1 else 0)"
    using put_ok_step[OF ok(1), of t n res] f by auto
  then show "\<exists>st'. notifyExec (NPut t n res) st = Some st' \<and> nt_ok st' \<and> fair (NPut t n res) st st'" by (auto simp: fair_def)
qed (simp add: grows_put)

lemma good_cancel:
  assumes ok: "nt_ok st" "homed st" and f: "notifyFits (NCancel t n) st"
  shows "goodStep (NCancel t n) st"
proof (rule goodStepI[OF ok(2)])
  obtain x where x: "ntab st n = Some x" using f by auto
  obtain st' where "dbNotifyCancel t n st = Some st'" "nt_ok st'" "\<forall>m. m \<noteq> n \<longrightarrow> balance m st' = balance m st" "balance n st' \<le> balance n st"
    using cancel_ok[OF ok(1) _ _ x, of t] f by auto
  then show "\<exists>st'. notifyExec (NCancel t n) st = Some st' \<and> nt_ok st' \<and> fair (NCancel t n) st st'" by (auto simp: fair_def)
qed (simp add: grows_cancel)

lemma good_callback:
  assumes ok: "nt_ok st" "homed st" and f: "notifyFits (NCallback res) st"
  shows "goodStep (NCallback res) st"
proof (rule goodStepI[OF ok(2)])
  obtain q qs where q: "cbQueue st = q # qs" using f by (cases "cbQueue st") auto
  show "\<exists>st'. notifyExec (NCallback res) st = Some st' \<and> nt_ok st' \<and> fair (NCallback res) st st'"
    using callback_ok[OF ok _ q, of res] f q by (auto simp: fair_def)
  show "grows st st'" if "notifyExec (NCallback res) st = Some st'" for st' using grows_cb[of q res "st\<lparr>cbQueue := qs, cbOverflow := False\<rparr>"] that q by simp
qed

lemma grows_end: "callUserEnd t n p st = Some st' \<Longrightarrow> grows st st'"
  unfolding callUserEnd_def by (auto simp: Let_def bind_eq_Some_conv split: if_splits dest!: grows_cleanup)

lemma good_end:
  assumes ok: "nt_ok st" "homed st" and f: "notifyFits (NEnd t) st"
  shows "goodStep (NEnd t) st"
proof (rule goodStepI[OF ok(2)])
  obtain n p where n: "npcs st t = NUser n p" using f by (auto split: notifypc.splits)
  show "\<exists>st'. notifyExec (NEnd t) st = Some st' \<and> nt_ok st' \<and> fair (NEnd t) st st'"
    using end_user_ok[OF ok(1) n] n by (auto simp: fair_def)
  show "grows st st'" if "notifyExec (NEnd t) st = Some st'" for st' using that n by (auto intro: grows_end)
qed

lemma good_wake:
  assumes ok: "nt_ok st" "homed st" and f: "notifyFits (NWake t res) st"
  shows "goodStep (NWake t res) st"
proof (rule goodStepI[OF ok(2)])
  have e: "eventFull t st" using f by simp
  show "\<exists>st'. notifyExec (NWake t res) st = Some st' \<and> nt_ok st' \<and> fair (NWake t res) st st'" using wake_ok[OF ok(1) e, of res] by (auto simp: fair_def)
  show "grows st st'" if "notifyExec (NWake t res) st = Some st'" for st' using that
    by (auto simp: notifyCancelWake_def bind_eq_Some_conv split: notifypc.splits dest!: grows_wake grows_cleanup)
qed

lemma good_add:
  assumes ok: "nt_ok st" "homed st" and f: "notifyFits (NAdd n a p r) st"
  shows "goodStep (NAdd n a p r) st"
proof (rule goodStepI[OF ok(2)])
  obtain dp dr where d: "recs st p = Some dp" "ppn dp = Some n" "recs st r = Some dr" using f by (auto split: option.splits)
  show "\<exists>st'. notifyExec (NAdd n a p r) st = Some st' \<and> nt_ok st' \<and> fair (NAdd n a p r) st st'"
    using join_ok[OF ok(1) d, of a] by (auto simp: fair_def)
qed (simp add: grows_add)

lemma good_done:
  assumes ok: "nt_ok st" "homed st" and f: "notifyFits (NDone r n) st"
  shows "goodStep (NDone r n) st"
proof (rule goodStepI[OF ok(2)])
  obtain d where d: "recs st r = Some d" "ppn d = Some n" using f by (auto split: option.splits)
  show "\<exists>st'. notifyExec (NDone r n) st = Some st' \<and> nt_ok st' \<and> fair (NDone r n) st st'"
    using completion_ok[OF ok(1) d] by (auto simp: fair_def)
qed (simp add: grows_done)

text \<open>Other code only moves its own requests.\<close>

lemma other_parts [simp]:
  "nt_ok (st\<lparr>cbOthers := k\<rparr>) = nt_ok st" "nt_ok (st\<lparr>cbOverflow := b\<rparr>) = nt_ok st" "homed (st\<lparr>cbOthers := k\<rparr>) = homed st"
  "homed (st\<lparr>cbOverflow := b\<rparr>) = homed st" "balance m (st\<lparr>cbOthers := k\<rparr>) = balance m st" "balance m (st\<lparr>cbOverflow := b\<rparr>) = balance m st"
  by (simp_all add: nt_ok_def nts_def homed_def balance_def)

lemma good_other:
  assumes ok: "nt_ok st" "homed st"
  shows "goodStep NRequest st" "notifyFits NServe st \<Longrightarrow> goodStep NServe st"
proof -
  show "goodStep NRequest st" using ok by (auto simp: goodStep_def fair_def otherRequest_def)
  assume "notifyFits NServe st"
  then obtain k where "cbOthers st = Suc k" by (auto simp: gr0_conv_Suc)
  then show "goodStep NServe st" using ok by (simp add: goodStep_def fair_def)
qed

lemma good_fields:
  assumes ok: "nt_ok st" "homed st" and f: "notifyFits (NRecord r a b c) st"
  shows "goodStep (NRecord r a b c) st"
proof (rule goodStepI[OF ok(2)])
  obtain d where d: "recs st r = Some d" using f by auto
  show "\<exists>st'. notifyExec (NRecord r a b c) st = Some st' \<and> nt_ok st' \<and> fair (NRecord r a b c) st st'"
    using fields_ok[OF ok(1) d] d by (auto simp: fair_def)
  show "grows st st'" if "notifyExec (NRecord r a b c) st = Some st'" for st' using that d by (auto intro!: grows_rec)
qed

lemma step_good: "nt_ok st \<Longrightarrow> homed st \<Longrightarrow> notifyFits op st \<Longrightarrow> goodStep op st"
  by (cases op) (simp_all only: good_put good_cancel good_callback good_end good_wake good_add good_done good_fields good_other)

section \<open>Reachable states\<close>

lemma begin_ok:
  assumes g: "goodStart rs ns"
  shows "nt_ok (notifyStart rs ns)" "homed (notifyStart rs ns)" "balance n (notifyStart rs ns) = 0"
proof -
  let ?st = "notifyStart rs ns"
  have f: "ntab ?st = ns" "pvts ?st = Map.empty" "recs ?st = rs" "pvtFreeList ?st = []" "reqs ?st = {#}" "npcs ?st = (\<lambda>_. NIdle)" "waitingOn ?st = (\<lambda>_. None)"
    "userCalls ?st = []" by (simp_all add: notifyStart_def reqs_def)
  have p: "pv ?st = (\<lambda>_. None)" using g f by (auto simp: fun_eq_iff pv_def pvtOf_def goodStart_def split: Option.bind_splits)
  have st: "nstore ?st" using g f by (auto simp: nstore_def goodStart_def)
  have r: "ownv (rs r) = None" "rlv (rs r) = []" "\<not> wfv (rs r)" for r using g by (cases "rs r"; auto simp: goodStart_def)+
  have nf: "\<not> rfv (ns n)" for n using g by (cases "ns n") (auto simp: goodStart_def)
  have "seen {} {} (\<lambda>_. None) rs ns {#} (\<lambda>_. NIdle) (\<lambda>_. None)"
    unfolding seen_def by (intro conjI) (use r nf in \<open>simp_all add: core_def queued_def thr_def loc_def flagged_def hand_def comp_def\<close>)
  then show "nt_ok ?st" using st p f by (simp add: nt_ok_def nts_def settled_def)
  show "homed ?st" using g f by (auto simp: homed_def goodStart_def)
  show "balance n ?st = 0" using p f by (simp add: balance_def owe_def)
qed

lemma nt_reach_ok: "nt_reach st \<Longrightarrow> nt_ok st \<and> homed st"
proof (induction rule: nt_reach.induct)
  case (init rs ns)
  then show ?case using begin_ok by blast
next
  case (step st op st')
  then show ?case using step_good[of st op] by (auto simp: goodStep_def)
qed

end
