(* ===== verification/DbNotifyRing.thy ===== *)
theory DbNotifyRing
  imports DbNotifyReach
begin

text \<open>
  The ring of the callback task under the operations of put notification: a request is dropped only in an operation that leaves the
  ring full.
\<close>

section \<open>What an operation does to the ring\<close>

definition ringOk :: "notify \<Rightarrow> bool" where
  "ringOk st \<longleftrightarrow> (cbOverflow st \<longrightarrow> ringFull st)"

definition ringMoves :: "notify \<Rightarrow> notify \<Rightarrow> bool" where
  "ringMoves a st \<longleftrightarrow> cbOthers st = cbOthers a \<and> length (cbQueue a) \<le> length (cbQueue st)
     \<and> (ringOk a \<longrightarrow> ringOk st \<and> (cbLost st = cbLost a \<or> ringFull st))"

lemma ring_refl [simp]: "ringMoves st st"
  by (simp add: ringMoves_def)

lemma ring_parts [simp]:
  "cbQueue (setPvt p v st) = cbQueue st" "cbLost (setPvt p v st) = cbLost st" "cbOthers (setPvt p v st) = cbOthers st" "cbOverflow (setPvt p v st) = cbOverflow st"
  "cbQueue (setRec r d st) = cbQueue st" "cbLost (setRec r d st) = cbLost st" "cbOthers (setRec r d st) = cbOthers st" "cbOverflow (setRec r d st) = cbOverflow st"
  "cbQueue (setNote n x st) = cbQueue st" "cbLost (setNote n x st) = cbLost st" "cbOthers (setNote n x st) = cbOthers st" "cbOverflow (setNote n x st) = cbOverflow st"
  "cbQueue (setPc t c st) = cbQueue st" "cbLost (setPc t c st) = cbLost st" "cbOthers (setPc t c st) = cbOthers st" "cbOverflow (setPc t c st) = cbOverflow st"
  "cbQueue (setWaiting n w st) = cbQueue st" "cbLost (setWaiting n w st) = cbLost st" "cbOthers (setWaiting n w st) = cbOthers st" "cbOverflow (setWaiting n w st) = cbOverflow st"
  by (simp_all add: setPvt_def setRec_def setNote_def setPc_def setWaiting_def)

lemma ring_steps [simp]:
  "ringMoves a (setPvt p v st) = ringMoves a st" "ringMoves a (setRec r d st) = ringMoves a st" "ringMoves a (setNote n x st) = ringMoves a st"
  "ringMoves a (setPc t c st) = ringMoves a st" "ringMoves a (setWaiting n w st) = ringMoves a st" "ringMoves a (st\<lparr>userCalls := u\<rparr>) = ringMoves a st"
  "ringMoves a (st\<lparr>pvtFreeList := fl\<rparr>) = ringMoves a st" "ringMoves a (st\<lparr>nextPvt := k\<rparr>) = ringMoves a st"
  by (simp_all add: ringMoves_def ringOk_def ringFull_def)

lemma ring_request [intro]: "ringMoves a st \<Longrightarrow> ringMoves a (callbackRequest p st)"
  by (auto simp: ringMoves_def ringOk_def ringFull_def callbackRequest_def)

lemma ring_lists:
  "setOwner r x st = Some st' \<Longrightarrow> ringMoves a st \<Longrightarrow> ringMoves a st'" "updPvt m f st = Some st' \<Longrightarrow> ringMoves a st \<Longrightarrow> ringMoves a st'"
  "restartAdd r m st = Some st' \<Longrightarrow> ringMoves a st \<Longrightarrow> ringMoves a st'" "restartDelete r m st = Some st' \<Longrightarrow> ringMoves a st \<Longrightarrow> ringMoves a st'"
  "putNotifyCleanup m st = Some st' \<Longrightarrow> ringMoves a st \<Longrightarrow> ringMoves a st'"
  by (auto simp: setOwner_def updPvt_def restartAdd_def restartDelete_def putNotifyCleanup_def bind_eq_Some_conv split: if_splits)

lemma ring_waits: "waitAdd m r st = Some st' \<Longrightarrow> ringMoves a st \<Longrightarrow> ringMoves a st'" "waitDelete m r st = Some st' \<Longrightarrow> ringMoves a st \<Longrightarrow> ringMoves a st'"
  "putNotifyInit m st = Some st' \<Longrightarrow> ringMoves a st \<Longrightarrow> ringMoves a st'"
  by (auto simp: waitAdd_def waitDelete_def putNotifyInit_def bind_eq_Some_conv intro: ring_lists(2) split: if_splits list.splits)

lemma ring_restart: "restartCheck r st = Some st' \<Longrightarrow> ringMoves a st \<Longrightarrow> ringMoves a st'"
  unfolding restartCheck_def by (auto split: Option.bind_splits if_splits list.splits intro: ring_lists(1,4))
    (intro ring_request, simp, blast intro: ring_lists(1,4))

lemma ring_loop: "cancelRecords m ws st = Some st' \<Longrightarrow> ringMoves a st \<Longrightarrow> ringMoves a st'"
  by (induction ws arbitrary: st) (auto simp: bind_eq_Some_conv, blast intro: ring_waits(2) ring_restart)

lemma ring_call: "callUser t m st = Some st' \<Longrightarrow> ringMoves a st \<Longrightarrow> ringMoves a st'"
  by (auto simp: callUser_def bind_eq_Some_conv)

lemma ring_common: "putNotifyCommon t m r res st = Some st' \<Longrightarrow> ringMoves a st \<Longrightarrow> ringMoves a st'"
  by (auto simp: putNotifyCommon_def Let_def bind_eq_Some_conv elim!: ring_lists ring_waits ring_restart ring_call split: if_split_asm)

lemma ring_start: "putStart t m r res st = Some st' \<Longrightarrow> ringMoves a st \<Longrightarrow> ringMoves a st'"
  by (auto simp: putStart_def bind_eq_Some_conv elim!: ring_common ring_waits(3) split: if_split_asm)

lemma ring_put: "dbPutNotify t m res st = Some st' \<Longrightarrow> ringMoves a st \<Longrightarrow> ringMoves a st'"
  unfolding dbPutNotify_def
  by (auto simp: Let_def split: Option.bind_splits if_splits option.splits elim!: ring_start)

lemma ring_cancel: "dbNotifyCancel t m st = Some st' \<Longrightarrow> ringMoves a st \<Longrightarrow> ringMoves a st'"
  unfolding dbNotifyCancel_def
  by (auto simp: Let_def split: Option.bind_splits if_splits option.splits elim!: ring_loop ring_restart ring_lists(4,5))

lemma ring_callback: "notifyCallback q res st = Some st' \<Longrightarrow> ringMoves a st \<Longrightarrow> ringMoves a st'"
  unfolding notifyCallback_def
  by (auto simp: Let_def split: Option.bind_splits if_splits elim!: ring_restart ring_lists(2) ring_common ring_call)

lemma ring_end: "callUserEnd t m p st = Some st' \<Longrightarrow> ringMoves a st \<Longrightarrow> ringMoves a st'"
  unfolding callUserEnd_def
  by (auto simp: Let_def split: Option.bind_splits if_splits elim!: ring_lists(5))

lemma ring_wake: "putWake t m p res st = Some st' \<Longrightarrow> ringMoves a st \<Longrightarrow> ringMoves a st'" "notifyCancelWake t m p st = Some st' \<Longrightarrow> ringMoves a st \<Longrightarrow> ringMoves a st'"
  by (auto simp: putWake_def notifyCancelWake_def bind_eq_Some_conv elim!: ring_start ring_lists(5))

lemma ring_done: "dbNotifyCompletion r m st = Some st' \<Longrightarrow> ringMoves a st \<Longrightarrow> ringMoves a st'"
  unfolding dbNotifyCompletion_def
  by (auto split: Option.bind_splits if_splits intro!: ring_request elim!: ring_waits(2) ring_restart)

lemma ring_add: "dbNotifyAdd m b q r st = Some st' \<Longrightarrow> ringMoves a st \<Longrightarrow> ringMoves a st'"
  by (auto simp: dbNotifyAdd_def Let_def bind_eq_Some_conv elim!: ring_waits(1) ring_lists(1) split: if_split_asm)

text \<open>The callback task takes an entry first, which ends an overflow.\<close>

lemma ring_exec:
  assumes e: "notifyExec op st = Some st'" and ok: "ringOk st"
  shows "ringOk st' \<and> (cbLost st' = cbLost st \<or> ringFull st')"
proof -
  have m: "ringOk st' \<and> (cbLost st' = cbLost st \<or> ringFull st')" if "ringMoves st st'" using that ok by (simp add: ringMoves_def)
  show ?thesis
  proof (cases op)
    case (NPut t n res)
    then show ?thesis using e by (auto intro!: m ring_put[of t n res st st' st])
  next
    case (NCancel t n)
    then show ?thesis using e by (auto intro!: m ring_cancel[of t n st st' st])
  next
    case (NCallback res)
    then obtain q qs where q: "notifyCallback q res (st\<lparr>cbQueue := qs, cbOverflow := False\<rparr>) = Some st'" using e by (auto split: list.splits)
    have "ringMoves (st\<lparr>cbQueue := qs, cbOverflow := False\<rparr>) st'" by (rule ring_callback[OF q]) simp
    then show ?thesis by (simp add: ringMoves_def ringOk_def)
  next
    case (NEnd t)
    then show ?thesis using e by (auto split: notifypc.splits intro!: m elim!: ring_end)
  next
    case (NWake t res)
    then show ?thesis using e by (auto split: notifypc.splits intro!: m elim!: ring_wake)
  next
    case (NAdd n b q r)
    then show ?thesis using e by (auto intro!: m ring_add[of n b q r st st' st])
  next
    case (NDone r n)
    then show ?thesis using e by (auto intro!: m ring_done[of r n st st' st])
  next
    case (NRecord r x y z)
    then show ?thesis using e by (auto simp: bind_eq_Some_conv intro!: m)
  next
    case NRequest
    then show ?thesis using e ok by (auto simp: otherRequest_def ringOk_def ringFull_def)
  next
    case NServe
    then show ?thesis using e by (auto simp: ringOk_def split: nat.splits)
  qed
qed

section \<open>Runs with room in the ring\<close>

fun roomy :: "notifyop list \<Rightarrow> notify \<Rightarrow> bool" where
  "roomy [] st = (\<not> ringFull st)"
| "roomy (op # ops) st = (\<not> ringFull st \<and> (case notifyExec op st of None \<Rightarrow> True | Some st' \<Rightarrow> roomy ops st'))"

lemma roomy_now: "roomy ops st \<Longrightarrow> \<not> ringFull st"
  by (cases ops) auto

lemma roomy_keeps: "roomy ops st \<Longrightarrow> ringOk st \<Longrightarrow> notifyRun ops st = Some st' \<Longrightarrow> cbLost st' = cbLost st"
proof (induction ops arbitrary: st)
  case (Cons op ops)
  obtain st1 where s1: "notifyExec op st = Some st1" "roomy ops st1" "notifyRun ops st1 = Some st'" using Cons.prems(1,3) by (auto split: Option.bind_splits)
  have "ringOk st1" "cbLost st1 = cbLost st" using ring_exec[OF s1(1) Cons.prems(2)] roomy_now[OF s1(2)] by auto
  then show ?case using Cons.IH[OF s1(2) _ s1(3)] by simp
qed simp

lemma start_ring: "ringOk (notifyStart rs ns)" "cbLost (notifyStart rs ns) = []"
  by (simp_all add: notifyStart_def ringOk_def)

text \<open>Other code can fill the ring, and the task empties it.\<close>

lemma fill_ring: "nt_reach st \<Longrightarrow> cbQueue st = [] \<Longrightarrow> \<not> cbOverflow st \<Longrightarrow> cbOthers st + k \<le> callbackQueueSize \<Longrightarrow>
    nt_reach (st\<lparr>cbOthers := cbOthers st + k\<rparr>)"
proof (induction k)
  case (Suc k)
  have "nt_reach (st\<lparr>cbOthers := cbOthers st + k\<rparr>)" using Suc by simp
  then show ?case by (rule nt_reach.step[where op = NRequest]) (use Suc.prems in \<open>simp_all add: otherRequest_def ringFull_def\<close>)
qed simp

lemma serve_ring: "nt_reach st \<Longrightarrow> npcs st callbackTask = NIdle \<Longrightarrow> cbOthers st = Suc k \<Longrightarrow> nt_reach (st\<lparr>cbOthers := 0, cbOverflow := False\<rparr>)"
proof (induction k arbitrary: st)
  case 0
  show ?case by (rule nt_reach.step[OF 0(1), where op = NServe]) (use 0 in simp_all)
next
  case (Suc k)
  have "nt_reach (st\<lparr>cbOthers := Suc k, cbOverflow := False\<rparr>)"
    by (rule nt_reach.step[OF Suc.prems(1), where op = NServe]) (use Suc.prems in simp_all)
  from Suc.IH[OF this] show ?case using Suc.prems(2) by simp
qed

end
