(* ===== verification/DbNotifyProps.thy ===== *)
theory DbNotifyProps
  imports DbNotifyRing
begin

text \<open>What put notification promises, with runs on a small database as witnesses.\<close>

section \<open>Runs\<close>

text \<open>The operations of a run are permitted one after the other; the calls of the user callback of a \<open>putNotify\<close>, and its puts.\<close>

fun notifyPermitted :: "notifyop list \<Rightarrow> notify \<Rightarrow> bool" where
  "notifyPermitted [] st = True"
| "notifyPermitted (op # ops) st = (notifyFits op st \<and> (case notifyExec op st of None \<Rightarrow> True | Some st' \<Rightarrow> notifyPermitted ops st'))"

definition callsOf :: "addr \<Rightarrow> notify \<Rightarrow> nat" where
  "callsOf n st = length (filter (\<lambda>c. fst c = n) (userCalls st))"

definition putsOf :: "addr \<Rightarrow> notifyop list \<Rightarrow> nat" where
  "putsOf n ops = length (filter (isPut n) ops)"

lemma notify_run_reach: "nt_reach st \<Longrightarrow> notifyPermitted ops st \<Longrightarrow> \<exists>st'. notifyRun ops st = Some st' \<and> nt_reach st'"
proof (induction ops arbitrary: st)
  case (Cons op ops)
  have f: "notifyFits op st" using Cons.prems(2) by simp
  obtain st1 where s1: "notifyExec op st = Some st1" using step_good[OF _ _ f] nt_reach_ok[OF Cons.prems(1)] by (auto simp: goodStep_def)
  have "nt_reach st1" by (rule nt_reach.step[OF Cons.prems(1) f s1])
  then show ?case using Cons s1 by simp
qed simp

lemma run_most: "nt_reach st \<Longrightarrow> notifyPermitted ops st \<Longrightarrow> notifyRun ops st = Some st' \<Longrightarrow> balance n st' \<le> balance n st + putsOf n ops"
proof (induction ops arbitrary: st)
  case (Cons op ops)
  have f: "notifyFits op st" using Cons.prems(2) by simp
  obtain st1 where s1: "notifyExec op st = Some st1" "fair op st st1" using step_good[OF _ _ f] nt_reach_ok[OF Cons.prems(1)] by (auto simp: goodStep_def)
  have "balance n st' \<le> balance n st1 + putsOf n ops" using Cons.IH[OF nt_reach.step[OF Cons.prems(1) f s1(1)]] Cons.prems(2,3) s1(1) by simp
  moreover have "balance n st1 \<le> balance n st + (if isPut n op then 1 else 0)" using s1(2) by (auto simp: fair_def dest!: spec[of _ n])
  ultimately show ?case by (simp add: putsOf_def split: if_splits)
qed (simp add: putsOf_def)

text \<open>Only \<open>dbNotifyCancel\<close> makes a thread wait for a cancellation.\<close>

definition calm :: "addr \<Rightarrow> notify \<Rightarrow> bool" where
  "calm n st \<longleftrightarrow> (\<forall>t p. npcs st t \<noteq> NCancelWait n p)"

lemma calm_simps [simp]:
  "calm n (setNote m x st) = calm n st" "calm n (setPvt p v st) = calm n st" "calm n (setRec r d st) = calm n st" "calm n (setWaiting m w st) = calm n st"
  "calm n (callbackRequest p st) = calm n st" "calm n (st\<lparr>cbQueue := q\<rparr>) = calm n st" "calm n (st\<lparr>userCalls := u\<rparr>) = calm n st"
  "calm n (st\<lparr>cbOthers := k\<rparr>) = calm n st" "calm n (st\<lparr>cbOverflow := b\<rparr>) = calm n st"
  "calm n (st\<lparr>pvtFreeList := fl\<rparr>) = calm n st" "calm n (st\<lparr>nextPvt := k\<rparr>) = calm n st"
  by (simp_all add: calm_def)

lemma calm_pc: "calm n st \<Longrightarrow> (\<And>p. c \<noteq> NCancelWait n p) \<Longrightarrow> calm n (setPc t c st)"
  by (simp add: calm_def)

lemma calm_parts:
  "setOwner r a st = Some st' \<Longrightarrow> calm n st \<Longrightarrow> calm n st'" "updPvt m f st = Some st' \<Longrightarrow> calm n st \<Longrightarrow> calm n st'"
  "restartAdd r m st = Some st' \<Longrightarrow> calm n st \<Longrightarrow> calm n st'" "restartDelete r m st = Some st' \<Longrightarrow> calm n st \<Longrightarrow> calm n st'"
  "putNotifyCleanup m st = Some st' \<Longrightarrow> calm n st \<Longrightarrow> calm n st'"
  by (auto simp: setOwner_def updPvt_def restartAdd_def restartDelete_def putNotifyCleanup_def bind_eq_Some_conv split: if_splits)

lemma calm_waits: "waitAdd m r st = Some st' \<Longrightarrow> calm n st \<Longrightarrow> calm n st'" "waitDelete m r st = Some st' \<Longrightarrow> calm n st \<Longrightarrow> calm n st'"
  "putNotifyInit m st = Some st' \<Longrightarrow> calm n st \<Longrightarrow> calm n st'"
  by (auto simp: waitAdd_def waitDelete_def putNotifyInit_def bind_eq_Some_conv intro: calm_parts(2) split: if_splits list.splits)

lemma calm_restart: "restartCheck r st = Some st' \<Longrightarrow> calm n st \<Longrightarrow> calm n st'"
  unfolding restartCheck_def by (auto split: Option.bind_splits if_splits list.splits intro: calm_parts(1,4)) (blast intro: calm_parts(1,4))

lemma calm_loop: "cancelRecords m ws st = Some st' \<Longrightarrow> calm n st \<Longrightarrow> calm n st'"
  by (induction ws arbitrary: st) (auto simp: bind_eq_Some_conv, blast intro: calm_waits(2) calm_restart)

lemma calm_call: "callUser t m st = Some st' \<Longrightarrow> calm n st \<Longrightarrow> calm n st'"
  by (auto simp: callUser_def bind_eq_Some_conv intro!: calm_pc)

lemma calm_common: "putNotifyCommon t m r res st = Some st' \<Longrightarrow> calm n st \<Longrightarrow> calm n st'"
  by (auto simp: putNotifyCommon_def Let_def bind_eq_Some_conv elim!: calm_parts calm_waits calm_restart calm_call split: if_split_asm)

lemma calm_start: "putStart t m r res st = Some st' \<Longrightarrow> calm n st \<Longrightarrow> calm n st'"
  by (auto simp: putStart_def bind_eq_Some_conv elim!: calm_common calm_waits(3) split: if_split_asm)

lemma calm_put: "dbPutNotify t m res st = Some st' \<Longrightarrow> calm n st \<Longrightarrow> calm n st'"
  unfolding dbPutNotify_def
  by (auto simp: Let_def split: Option.bind_splits if_splits option.splits intro!: calm_pc elim!: calm_start)

lemma calm_cancel: "dbNotifyCancel t m st = Some st' \<Longrightarrow> m \<noteq> n \<Longrightarrow> calm n st \<Longrightarrow> calm n st'"
  unfolding dbNotifyCancel_def
  by (auto simp: Let_def split: Option.bind_splits if_splits option.splits intro!: calm_pc elim!: calm_loop calm_restart calm_parts(4,5))

lemma calm_callback: "notifyCallback q res st = Some st' \<Longrightarrow> calm n st \<Longrightarrow> calm n st'"
  unfolding notifyCallback_def
  by (auto simp: Let_def split: Option.bind_splits if_splits elim!: calm_restart calm_parts(2) calm_common calm_call)

lemma calm_end: "callUserEnd t m p st = Some st' \<Longrightarrow> calm n st \<Longrightarrow> calm n st'"
  unfolding callUserEnd_def
  by (auto simp: Let_def split: Option.bind_splits if_splits intro!: calm_pc elim!: calm_parts(5))

lemma calm_wake: "putWake t m p res st = Some st' \<Longrightarrow> calm n st \<Longrightarrow> calm n st'" "notifyCancelWake t m p st = Some st' \<Longrightarrow> calm n st \<Longrightarrow> calm n st'"
  by (auto simp: putWake_def notifyCancelWake_def bind_eq_Some_conv elim!: calm_start calm_parts(5) intro!: calm_pc)

lemma calm_done: "dbNotifyCompletion r m st = Some st' \<Longrightarrow> calm n st \<Longrightarrow> calm n st'"
  unfolding dbNotifyCompletion_def
  by (auto split: Option.bind_splits if_splits elim!: calm_waits(2) calm_restart)

lemma calm_add: "dbNotifyAdd m b q r st = Some st' \<Longrightarrow> calm n st \<Longrightarrow> calm n st'"
  by (auto simp: dbNotifyAdd_def Let_def bind_eq_Some_conv elim!: calm_waits(1) calm_parts(1) split: if_split_asm)

lemma calm_exec:
  assumes "notifyExec op st = Some st'" "\<And>t. op \<noteq> NCancel t n" "calm n st"
  shows "calm n st'"
proof (cases op)
  case (NCancel t m)
  then show ?thesis using assms by (auto intro: calm_cancel)
next
  case (NRequest)
  then show ?thesis using assms by (auto simp: otherRequest_def split: if_splits)
next
  case (NServe)
  then show ?thesis using assms by (auto split: nat.splits)
next
  case (NWake t res)
  then show ?thesis using assms by (auto split: notifypc.splits intro: calm_wake)
next
  case (NRecord r a b c)
  then show ?thesis using assms by (auto simp: bind_eq_Some_conv)
qed (use assms in \<open>auto split: list.splits notifypc.splits intro: calm_put calm_callback calm_end calm_done calm_add\<close>)

lemma calm_no_cancel:
  assumes "nt_reach st" "calm n st"
  shows "\<not> cwv (pv st n)"
proof
  note th = seenD(3)[OF ntsD(2)[OF nt_okD(1)[OF conjunct1[OF nt_reach_ok[OF assms(1)]]]]]
  assume c: "cwv (pv st n)"
  then obtain t where t: "waitingOn st n = Some t" "\<not> uwv (pv st n)" using th unfolding thr_def by (fastforce simp: comp_def)
  have "\<forall>n t. waitingOn st n = Some t \<longrightarrow> (\<exists>p. npcs st t = NCancelWait n p \<or> npcs st t = NPutWait n p)" using th unfolding thr_def by (elim conjE)
  then obtain p where "npcs st t = NCancelWait n p \<or> npcs st t = NPutWait n p" using t(1) by blast
  then have "npcs st t = NPutWait n p" using assms(2) by (auto simp: calm_def)
  then have "uwv (pv st n)" using th unfolding thr_def by auto
  then show False using t(2) by blast
qed

lemma run_exact: "nt_reach st \<Longrightarrow> calm n st \<Longrightarrow> notifyPermitted ops st \<Longrightarrow> notifyRun ops st = Some st' \<Longrightarrow> \<forall>t. NCancel t n \<notin> set ops \<Longrightarrow>
   balance n st' = balance n st + putsOf n ops"
proof (induction ops arbitrary: st)
  case (Cons op ops)
  have f: "notifyFits op st" using Cons.prems(3) by simp
  obtain st1 where s1: "notifyExec op st = Some st1" "fair op st st1" using step_good[OF _ _ f] nt_reach_ok[OF Cons.prems(1)] by (auto simp: goodStep_def)
  have nc: "op \<noteq> NCancel t n" for t using Cons.prems(5) by auto
  have c: "calm n st1" by (rule calm_exec[OF s1(1) nc Cons.prems(2)])
  have "balance n st' = balance n st1 + putsOf n ops"
    using Cons.IH[OF nt_reach.step[OF Cons.prems(1) f s1(1)] c] Cons.prems(3-5) s1(1) by simp
  moreover have "balance n st1 = balance n st + (if isPut n op then 1 else 0)"
    using s1(2) calm_no_cancel[OF Cons.prems(1,2)] nc unfolding fair_def by metis
  ultimately show ?case by (simp add: putsOf_def)
qed (simp add: putsOf_def)

section \<open>A small database\<close>

text \<open>Three passive records, the first two used by two \<open>putNotify\<close>s that process their record.\<close>

definition demoRecs :: "addr \<rightharpoonup> notifyRec" where
  "demoRecs r = (if r = 1 \<or> r = 2 \<or> r = 3 then Some \<lparr>ppn = None, ppnr = None, pact = False, disp = False, scan0 = True\<rparr> else None)"

definition demoNotes :: "addr \<rightharpoonup> putNotify" where
  "demoNotes n = (if n = 11 \<or> n = 12 then Some \<lparr>restartOnList = False, pn_record = 1,
     pn_field = \<lparr>is_disp = False, is_link = False, is_proc = False, process_passive = True\<rparr>, pn_status = putNotifyOK, pputNotifyPvt = None\<rparr> else None)"

definition demo :: notify where
  "demo = notifyStart demoRecs demoNotes"

lemma demo_good: "goodStart demoRecs demoNotes" "nt_reach demo"
proof -
  show "goodStart demoRecs demoNotes" by (simp add: goodStart_def demoRecs_def demoNotes_def)
  then show "nt_reach demo" unfolding demo_def by (rule nt_reach.init)
qed

lemma demo_run:
  assumes "notifyPermitted ops demo" "map_option f (notifyRun ops demo) = Some y"
  shows "\<exists>st. nt_reach st \<and> notifyRun ops demo = Some st \<and> f st = y"
  using notify_run_reach[OF demo_good(2) assms(1)] assms(2) by auto

section \<open>Properties\<close>

lemma reachD:
  assumes "nt_reach st"
  shows "nstore st" "seen {} {} (pv st) (recs st) (ntab st) (reqs st) (npcs st) (waitingOn st)" "settled (pv st n)"
  using ntsD[OF nt_okD(1)] nt_okD(2) nt_reach_ok[OF assms] by blast+

lemma queue_distinct:
  assumes "nt_reach st"
  shows "distinct (cbQueue st)"
proof -
  have "count (mset (cbQueue st)) p \<le> 1" for p using queuedD(2)[OF seenD(2)[OF reachD(2)[OF assms]], of p] by (simp add: reqs_def)
  then show ?thesis by (simp add: distinct_count_atmost_1 count_mset count_list_eq_length_filter le_Suc_eq flip: count_mset)
qed

lemma reach_owner:
  assumes r: "nt_reach st" and o: "ownv (recs st r) = Some n"
  shows "\<exists>p v x. pv st n = Some (p, v) \<and> ntab st n = Some x \<and> (r \<in> set (waitList v) \<and> (pn_state v = putNotifyRestartInProgress \<or> pn_state v = putNotifyPutInProgress)
     \<or> waitList v = [] \<and> pn_state v = putNotifyRestartCallbackRequested \<and> pn_record x = r \<and> p \<in># reqs st)"
proof -
  note s = reachD[OF r]
  obtain d where d: "recs st r = Some d" "ppn d = Some n" using o by (cases "recs st r") auto
  obtain p v x w where f: "pv st n = Some (p, v)" "ntab st n = Some x" "actv (pv st n) = Some (pn_state v)"
    "r \<in> set (waitList v) \<and> inProg (Some (pn_state v)) \<and> quiet v \<or> pn_state v = putNotifyRestartCallbackRequested"
    using owner_facts[OF _ d] nt_reach_ok[OF r] by metis
  show ?thesis
  proof (cases "pn_state v = putNotifyRestartCallbackRequested")
    case True
    have w: "waitList v = []" using seenD(4)[OF s(2), of n] f(1,3) True by (auto simp: loc_def)
    have "rqv (pv st n)" using f(3) True by (simp add: rqv_def)
    then have "p \<in># reqs st" using queuedD(4)[OF seenD(2)[OF s(2)], of n] f(1) by (auto simp: hand_simps)
    moreover have "pn_record x = r" using coreD(1)[OF seenD(1)[OF s(2)], of r n] d f(1,2) w by (auto simp: hand_simps)
    ultimately show ?thesis using f(1,2) w True by blast
  next
    case False
    then show ?thesis using f(1,2,4) unfolding inProg_def by auto
  qed
qed

text \<open>Where an active \<open>putNotify\<close> stands, when its request counts even if it was dropped.\<close>

lemma put_accounted:
  assumes "nt_reach st" "pvtOf n st = Some (p, v)"
  shows "(\<exists>r d. r \<in> set (waitList v) \<and> recs st r = Some d \<and> ppn d = Some n) \<or> p \<in># reqs st \<or> (\<exists>t. npcs st t = NUser n p)
     \<or> (\<exists>t. (npcs st t = NPutWait n p \<or> npcs st t = NCancelWait n p) \<and> eventFull t st)
     \<or> (\<exists>x d w m q u. ntab st n = Some x \<and> recs st (pn_record x) = Some d \<and> ppnr d = Some w \<and> n \<in> set (restartList w) \<and> ppn d = Some m \<and> m \<noteq> n
          \<and> pvtOf m st = Some (q, u) \<and> (pn_record x \<in> set (waitList u) \<or> q \<in># reqs st))"
proof -
  note s = reachD[OF assms(1)] and c = seenD(1)[OF reachD(2)[OF assms(1)]]
  have pn: "pv st n = Some (p, v)" using assms(2) by (simp add: pv_def)
  obtain x where x: "ntab st n = Some x" "pputNotifyPvt x = Some p" "pvts st p = Some v" using pn by (auto simp: pv_Some)
  show ?thesis
  proof (cases "actv (pv st n)")
    case None
    then have e: "cancelEvent v \<or> userCallbackEvent v" using pn by (simp split: if_splits)
    then obtain t where t: "waitingOn st n = Some t" using thread_facts(3,4)[OF s(2), of n] pn by auto
    have "\<forall>n t. waitingOn st n = Some t \<longrightarrow> (\<exists>p. npcs st t = NCancelWait n p \<or> npcs st t = NPutWait n p)"
      using seenD(3)[OF s(2)] unfolding thr_def by (elim conjE)
    then obtain p' where c': "npcs st t = NCancelWait n p' \<or> npcs st t = NPutWait n p'" using t by blast
    then have "p' = p" using thread_facts(1,2)[OF s(2), of t n p'] pn by auto
    moreover from this have "eventFull t st"
      using c' e x(3) thread_facts(2,6)[OF s(2), of t n p] thread_facts(5)[OF s(2), of n] pn by (auto simp: eventFull_def)
    ultimately show ?thesis using c' by blast
  next
    case (Some a)
    then have a: "a = pn_state v" using pn by (simp split: if_splits)
    consider (wait) "wfrv (pv st n)" | (req) "rqv (pv st n)" | (user) "ucav (pv st n)" | (prog) "inProg (actv (pv st n))" | (no) "pn_state v = putNotifyNotActive"
      using Some a by (cases "pn_state v") (auto simp: wfrv_def rqv_def ucav_def)
    then show ?thesis
    proof cases
      case wait
      let ?r = "pn_record x"
      have l: "n \<in> set (rlv (recs st ?r))" using coreD(9)[OF c, of n ?r] wait x(1) by simp
      obtain d where d: "recs st ?r = Some d" using nstoreD(5)[OF s(1) x(1)] by blast
      obtain w where w: "ppnr d = Some w" "n \<in> set (restartList w)" using l d by (cases "ppnr d") auto
      have "rlv (recs st ?r) \<noteq> []" using l by force
      then obtain m where m: "ownv (recs st ?r) = Some m" using coreD(8)[OF c, of ?r] by auto
      obtain q u y where o: "pv st m = Some (q, u)" "ntab st m = Some y" "?r \<in> set (waitList u) \<and> (pn_state u = putNotifyRestartInProgress \<or> pn_state u = putNotifyPutInProgress)
         \<or> waitList u = [] \<and> pn_state u = putNotifyRestartCallbackRequested \<and> pn_record y = ?r \<and> q \<in># reqs st"
        using reach_owner[OF assms(1) m] by (elim exE conjE) (rule that)
      have "m \<noteq> n" using o pn Some a wait by (auto simp: wfrv_def)
      then show ?thesis using x(1) d w m o by (auto simp: pv_def)
    next
      case req
      then show ?thesis using queuedD(4)[OF seenD(2)[OF s(2)], of n] pn by (auto simp: hand_simps)
    next
      case user
      have "\<forall>n. (ucav \<circ> pv st) n \<longrightarrow> (\<exists>t p. npcs st t = NUser n p)" using seenD(3)[OF s(2)] unfolding thr_def by (elim conjE)
      then obtain t p' where t: "npcs st t = NUser n p'" using user by auto
      then have "p' = p" using user_facts[OF s(2) t] pn by auto
      then show ?thesis using t by blast
    next
      case prog
      then have "waitList v \<noteq> []" using s(3)[of n] pn by (simp add: settled_def)
      then obtain r where r: "r \<in> set (waitList v)" by (cases "waitList v") auto
      then have "ownv (recs st r) = Some n" using coreD(6)[OF c, of r n] pn by simp
      then show ?thesis using r by (cases "recs st r") auto
    next
      case no
      then show ?thesis using s(3)[of n] pn by (simp add: settled_def)
    qed
  qed
qed

text \<open>C34. No assertion fails and no null pointer is followed: every permitted operation returns, for any interleaving of the
  users, the callback task and record processing, a ring that is full included. Permitted says that \<open>dbNotifyCompletion\<close> and \<open>dbNotifyAdd\<close>, which read
  the owner of a record before they take the lock, find it the owner still when they have it; \<open>late_completion_crash\<close> is a run where it is
  not, and the code follows a null pointer.\<close>
theorem notify_steps_return:
  assumes "nt_reach st" "notifyFits op st"
  shows "\<exists>st'. notifyExec op st = Some st' \<and> nt_reach st'"
  using step_good[OF _ _ assms(2)] nt_reach_ok[OF assms(1)] nt_reach.step[OF assms] by (auto simp: goodStep_def)

lemma notify_steps_return_witness:
  "\<exists>st st'. notifyRun [NPut 1 11 (True, True), NAdd 11 False 1 2, NPut 2 12 (True, True), NDone 2 11] demo = Some st \<and> notifyExec (NDone 1 11) st = Some st' \<and> nt_reach st'"
proof -
  let ?a = "[NPut 1 11 (True, True), NAdd 11 False 1 2, NPut 2 12 (True, True), NDone 2 11]"
  have m: "notifyPermitted ?a demo" by code_simp
  have "map_option (notifyFits (NDone 1 11)) (notifyRun ?a demo) = Some True" by code_simp
  from demo_run[OF m this] show ?thesis using notify_steps_return by blast
qed

text \<open>C33. A record has at most one owner, and the owner accounts for it: either it waits for the record to complete, and no other
  \<open>putNotify\<close> does, or its restart on the record has been requested, whether the request is in the queue or was dropped by a full ring. A record nobody owns is on no wait list and nobody waits to restart on it.\<close>
theorem record_owner:
  assumes "nt_reach st" "recs st r = Some d"
  shows "case ppn d of
      None \<Rightarrow> (\<forall>n p v. pvtOf n st = Some (p, v) \<longrightarrow> r \<notin> set (waitList v)) \<and> (\<forall>w. ppnr d = Some w \<longrightarrow> restartList w = [])
    | Some n \<Rightarrow> (\<exists>p v x. pvtOf n st = Some (p, v) \<and> ntab st n = Some x \<and>
          (r \<in> set (waitList v) \<and> (pn_state v = putNotifyRestartInProgress \<or> pn_state v = putNotifyPutInProgress)
           \<or> waitList v = [] \<and> pn_state v = putNotifyRestartCallbackRequested \<and> pn_record x = r \<and> p \<in> set (cbQueue st) \<union> set (cbLost st)))
        \<and> (\<forall>m q u. pvtOf m st = Some (q, u) \<and> r \<in> set (waitList u) \<longrightarrow> m = n)"
proof -
  note c = seenD(1)[OF reachD(2)[OF assms(1)]]
  have w: "ppn d = Some m" if "pvtOf m st = Some (q, u)" "r \<in> set (waitList u)" for m q u
    using coreD(6)[OF c, of r m] that assms(2) by (simp add: pv_def)
  have l: "restartList w = []" if "ppnr d = Some w" "ppn d = None" for w
    using coreD(8)[OF c, of r] that assms(2) by auto
  show ?thesis
  proof (cases "ppn d")
    case None
    then show ?thesis using w l by auto
  next
    case (Some n)
    have "ownv (recs st r) = Some n" using Some assms(2) by simp
    from reach_owner[OF assms(1) this] show ?thesis using Some w by (auto simp: pv_def reqs_def)
  qed
qed

lemma record_owner_witness:
  "\<exists>st d x. notifyRun [NPut 1 11 (True, True), NAdd 11 False 1 2, NPut 2 12 (True, True), NDone 2 11, NDone 1 11] demo = Some st \<and> recs st 1 = Some d \<and> ppn d = Some 12
     \<and> ntab st 12 = Some x \<and> pn_record x = 1"
proof -
  let ?a = "[NPut 1 11 (True, True), NAdd 11 False 1 2, NPut 2 12 (True, True), NDone 2 11, NDone 1 11]"
  have m: "notifyPermitted ?a demo" by code_simp
  have "map_option (\<lambda>st. (map_option ppn (recs st 1), map_option (map_option pn_record) (Some (ntab st 12)))) (notifyRun ?a demo) = Some (Some (Some 12), Some (Some 1))" by code_simp
  from demo_run[OF m this] obtain st d where st: "nt_reach st" "notifyRun ?a demo = Some st" "recs st 1 = Some d" "ppn d = Some 12" "map_option pn_record (ntab st 12) = Some 1"
    by auto
  have "\<exists>x. ntab st 12 = Some x" using record_owner[OF st(1,3)] st(4) by auto
  then show ?thesis using st by auto
qed

text \<open>C36. The lists are well formed: the flag of a node tells whether it is on a list, no list holds a node twice, the restart
  list of a record holds exactly the \<open>putNotify\<close>s of the record that wait to restart, and an active \<open>putNotify\<close> has a private structure of its
  own, not on the free list.\<close>
theorem notify_lists:
  assumes "nt_reach st"
  shows "(\<forall>r d w. recs st r = Some d \<and> ppnr d = Some w \<longrightarrow> distinct (restartList w)
          \<and> (\<forall>n. n \<in> set (restartList w) \<longleftrightarrow> (\<exists>x. ntab st n = Some x \<and> pn_record x = r \<and> restartOnList x))
          \<and> (waitOnList w \<longleftrightarrow> (\<exists>n p v. pvtOf n st = Some (p, v) \<and> r \<in> set (waitList v))))
     \<and> (\<forall>n x. ntab st n = Some x \<and> restartOnList x \<longrightarrow> (\<exists>p v. pvtOf n st = Some (p, v) \<and> pn_state v = putNotifyWaitForRestart))
     \<and> (\<forall>n p v. pvtOf n st = Some (p, v) \<longrightarrow> distinct (waitList v) \<and> p \<notin> set (pvtFreeList st) \<and> cb_user v = Some n)
     \<and> distinct (pvtFreeList st) \<and> distinct (cbQueue st)"
proof (intro conjI allI impI)
  note s = reachD[OF assms] and c = seenD(1)[OF reachD(2)[OF assms]]
  have rf: "rfv (ntab st n) = wfrv (pv st n)" for n using seenD(4)[OF s(2), of n] by (simp add: loc_def)
  show "distinct (pvtFreeList st)" "distinct (cbQueue st)" using nstoreD(2)[OF s(1)] queue_distinct[OF assms] by simp_all
  show "\<exists>p v. pvtOf n st = Some (p, v) \<and> pn_state v = putNotifyWaitForRestart" if "ntab st n = Some x \<and> restartOnList x" for n x
    using rf[of n] that by (cases "pv st n") (auto simp: pv_def wfrv_def split: if_splits)
  show "distinct (waitList v)" if "pvtOf n st = Some (p, v)" for n p v using coreD(5)[OF c, of n] that by (simp add: pv_def)
  show "p \<notin> set (pvtFreeList st)" "cb_user v = Some n" if "pvtOf n st = Some (p, v)" for n p v
    using nstoreD(1)[OF s(1), of n _ p] that by (fastforce simp: pv_def[symmetric] pv_Some)+
  fix r d w assume r: "recs st r = Some d \<and> ppnr d = Some w"
  show "distinct (restartList w)" using coreD(7)[OF c, of r] r by simp
  show "n \<in> set (restartList w) \<longleftrightarrow> (\<exists>x. ntab st n = Some x \<and> pn_record x = r \<and> restartOnList x)" for n
    using coreD(9)[OF c, of n r] rf[of n] r by (cases "ntab st n") auto
  have "wfv (recs st r) \<longleftrightarrow> (\<exists>n. r \<in> set ((wlv \<circ> pv st) n))" by (rule flaggedD(2)[OF seenD(5)[OF s(2)]])
  moreover have "r \<in> set (wlv (pv st n)) \<longleftrightarrow> (\<exists>p v. pvtOf n st = Some (p, v) \<and> r \<in> set (waitList v))" for n
    by (cases "pv st n") (auto simp: pv_def)
  ultimately show "waitOnList w \<longleftrightarrow> (\<exists>n p v. pvtOf n st = Some (p, v) \<and> r \<in> set (waitList v))" using r by simp
qed

lemma notify_lists_witness:
  "\<exists>st d w x. notifyRun [NPut 1 11 (True, True), NAdd 11 False 1 2, NPut 2 12 (True, True)] demo = Some st \<and> recs st 1 = Some d \<and> ppnr d = Some w \<and> restartList w = [12]
     \<and> ntab st 12 = Some x \<and> restartOnList x"
proof -
  let ?a = "[NPut 1 11 (True, True), NAdd 11 False 1 2, NPut 2 12 (True, True)]"
  have m: "notifyPermitted ?a demo" by code_simp
  have "map_option (\<lambda>st. map_option (\<lambda>d. map_option restartList (ppnr d)) (recs st 1)) (notifyRun ?a demo) = Some (Some (Some [12]))" by code_simp
  from demo_run[OF m this] obtain st d w where st: "nt_reach st" "notifyRun ?a demo = Some st" "recs st 1 = Some d" "ppnr d = Some w" "restartList w = [12]" by auto
  have "\<exists>x. ntab st 12 = Some x \<and> pn_record x = 1 \<and> restartOnList x" using notify_lists[OF st(1)] st(3-5) by (metis list.set_intros(1))
  then show ?thesis using st by blast
qed

text \<open>C31. No put is forgotten, as long as the ring of the callback task has room. In a run of permitted operations between which the
  ring is never full, an active \<open>putNotify\<close> owns a record that has not completed, has its callback in the queue, is in its user
  callback, has a user with a full event to wake it, or stands in the restart list of its record behind an owner
  that is not waiting for a restart itself: nobody waits in a circle. The condition is needed: see \<open>full_ring_forgets_put\<close>.\<close>
theorem no_put_forgotten:
  assumes "goodStart rs ns" "notifyPermitted ops (notifyStart rs ns)" "notifyRun ops (notifyStart rs ns) = Some st" "roomy ops (notifyStart rs ns)"
    "pvtOf n st = Some (p, v)"
  shows "(\<exists>r d. r \<in> set (waitList v) \<and> recs st r = Some d \<and> ppn d = Some n) \<or> p \<in> set (cbQueue st) \<or> (\<exists>t. npcs st t = NUser n p)
     \<or> (\<exists>t. (npcs st t = NPutWait n p \<or> npcs st t = NCancelWait n p) \<and> eventFull t st)
     \<or> (\<exists>x d w m q u. ntab st n = Some x \<and> recs st (pn_record x) = Some d \<and> ppnr d = Some w \<and> n \<in> set (restartList w) \<and> ppn d = Some m \<and> m \<noteq> n
          \<and> pvtOf m st = Some (q, u) \<and> (pn_record x \<in> set (waitList u) \<or> q \<in> set (cbQueue st)))"
proof -
  have "nt_reach st" using notify_run_reach[OF nt_reach.init[OF assms(1)] assms(2)] assms(3) by auto
  moreover have "cbLost st = []" using roomy_keeps[OF assms(4) start_ring(1) assms(3)] start_ring(2) by simp
  ultimately show ?thesis using put_accounted[OF _ assms(5)] by (auto simp: reqs_def)
qed

lemma no_put_forgotten_witness:
  "\<exists>st d w. notifyRun [NPut 1 11 (True, True), NAdd 11 False 1 2, NPut 2 12 (True, True)] demo = Some st \<and> recs st 1 = Some d \<and> ppnr d = Some w
     \<and> 12 \<in> set (restartList w) \<and> ppn d \<noteq> Some 12"
proof -
  let ?a = "[NPut 1 11 (True, True), NAdd 11 False 1 2, NPut 2 12 (True, True)]"
  have m: "notifyPermitted ?a demo" by code_simp
  have "map_option (\<lambda>st. (map_option (\<lambda>z. (fst z, waitList (snd z), pn_state (snd z), cancelEvent (snd z), userCallbackEvent (snd z))) (pvtOf 12 st),
      cbQueue st, map_option pn_record (ntab st 12))) (notifyRun ?a demo)
     = Some (Some (2, [], putNotifyWaitForRestart, False, False), [], Some 1)" by code_simp
  from demo_run[OF m this] obtain st v where st: "nt_reach st" "notifyRun ?a demo = Some st" "pvtOf 12 st = Some (2, v)" "waitList v = []" "cbQueue st = []"
    "map_option pn_record (ntab st 12) = Some 1" "pn_state v = putNotifyWaitForRestart" "\<not> cancelEvent v" "\<not> userCallbackEvent v" by auto
  have pv: "pv st 12 = Some (2, v)" using st(3) by (simp add: pv_def)
  then have "pvts st 2 = Some v" by (auto simp: pv_Some)
  then have e: "\<not> eventFull t st" if "npcs st t = NPutWait 12 2 \<or> npcs st t = NCancelWait 12 2" for t using that st(8,9) by (auto simp: eventFull_def)
  have u: "npcs st t \<noteq> NUser 12 2" for t using user_facts[OF reachD(2)[OF st(1)], of t 12 2] pv st(7) by fastforce
  have g: "roomy ?a demo" by code_simp
  from no_put_forgotten[OF demo_good(1) m[unfolded demo_def] st(2)[unfolded demo_def] g[unfolded demo_def] st(3)] show ?thesis using st e u by auto
qed

text \<open>With the ring full of requests of other code when its record completes, a put is forgotten: its callback stays requested, while the ring is
  empty again and has not overflowed, and no thread and no record is left that would do anything for it.\<close>

lemma full_ring_forgets_put:
  "\<exists>st p v. nt_reach st \<and> pvtOf 11 st = Some (p, v) \<and> pn_state v = putNotifyUserCallbackRequested \<and> waitList v = [] \<and> cbQueue st = [] \<and> cbOthers st = 0
     \<and> \<not> cbOverflow st \<and> npcs st callbackTask = NIdle \<and> npcs st 1 = NIdle"
proof -
  let ?full = "demo\<lparr>cbOthers := 2000\<rparr>" and ?a = "[NPut 1 11 (True, True), NDone 1 11]"
  have r: "nt_reach ?full" using fill_ring[OF demo_good(2), of 2000] by (simp add: demo_def notifyStart_def callbackQueueSize_def)
  have m: "notifyPermitted ?a ?full" by code_simp
  obtain st where st: "notifyRun ?a ?full = Some st" "nt_reach st" using notify_run_reach[OF r m] by blast
  have "map_option (\<lambda>st. (map_option (\<lambda>z. (fst z, pn_state (snd z), waitList (snd z))) (pvtOf 11 st), cbQueue st, cbOthers st, npcs st callbackTask, npcs st 1)) (notifyRun ?a ?full)
     = Some (Some (1, putNotifyUserCallbackRequested, []), [], 2000, NIdle, NIdle)" by code_simp
  then obtain v where v: "pvtOf 11 st = Some (1, v)" "pn_state v = putNotifyUserCallbackRequested" "waitList v = []" "cbQueue st = []" "cbOthers st = 2000"
    "npcs st callbackTask = NIdle" "npcs st 1 = NIdle" using st(1) by auto
  have "nt_reach (st\<lparr>cbOthers := 0, cbOverflow := False\<rparr>)" by (rule serve_ring[OF st(2) v(6), of 1999]) (simp add: v(5))
  then show ?thesis using v by (intro exI[of _ "st\<lparr>cbOthers := 0, cbOverflow := False\<rparr>"]) (simp add: pvtOf_def)
qed

text \<open>C32. One callback for each put. In a run of permitted operations a \<open>putNotify\<close> never has more calls of its user callback than it had
  puts; when it is not cancelled it lacks at most the call of the last put, and none when it is no longer active.\<close>
theorem one_callback_per_put:
  assumes "goodStart rs ns" "notifyPermitted ops (notifyStart rs ns)" "notifyRun ops (notifyStart rs ns) = Some st"
  shows "callsOf n st \<le> putsOf n ops
    \<and> ((\<forall>t. NCancel t n \<notin> set ops) \<longrightarrow> putsOf n ops \<le> callsOf n st + 1 \<and> (pvtOf n st = None \<longrightarrow> callsOf n st = putsOf n ops))"
proof (rule conjI[OF _ impI])
  have r: "nt_reach (notifyStart rs ns)" by (rule nt_reach.init[OF assms(1)])
  have b: "balance n st = callsOf n st + (if owe (pv st n) then 1 else 0)" by (simp add: balance_def callsOf_def)
  show "callsOf n st \<le> putsOf n ops" using run_most[OF r assms(2,3), of n] begin_ok(3)[OF assms(1), of n] b by simp
  assume c: "\<forall>t. NCancel t n \<notin> set ops"
  have "calm n (notifyStart rs ns)" by (simp add: calm_def notifyStart_def)
  from run_exact[OF r this assms(2,3) c] have "balance n st = putsOf n ops" using begin_ok(3)[OF assms(1), of n] by simp
  then show "putsOf n ops \<le> callsOf n st + 1 \<and> (pvtOf n st = None \<longrightarrow> callsOf n st = putsOf n ops)"
    using b by (cases "pv st n") (simp_all add: owe_def pv_def split: if_split_asm)
qed

lemma one_callback_per_put_witness:
  "\<exists>st. notifyRun [NPut 1 11 (True, True), NDone 1 11, NCallback (True, True), NPut 1 11 (False, True), NEnd 0, NWake 1 (False, True), NEnd 1] demo = Some st
     \<and> callsOf 11 st = 2 \<and> putsOf 11 [NPut 1 11 (True, True), NDone 1 11, NCallback (True, True), NPut 1 11 (False, True), NEnd 0, NWake 1 (False, True), NEnd 1] = 2"
proof -
  let ?a = "[NPut 1 11 (True, True), NDone 1 11, NCallback (True, True), NPut 1 11 (False, True), NEnd 0, NWake 1 (False, True), NEnd 1]"
  have m: "notifyPermitted ?a demo" by code_simp
  have "map_option (\<lambda>st. pvtOf 11 st = None) (notifyRun ?a demo) = Some True" by code_simp
  from demo_run[OF m this] obtain st where st: "notifyRun ?a demo = Some st" "pvtOf 11 st = None" by auto
  have "putsOf 11 ?a = 2" by (simp add: putsOf_def)
  then show ?thesis using one_callback_per_put[OF demo_good(1) m[unfolded demo_def] st(1)[unfolded demo_def], of 11] st by auto
qed



text \<open>C37. Putting and cancelling while the user callback runs starves both callers: \<open>callUser\<close> calls it illegal, resets both flags, frees
  the private structure and signals neither, so both go on waiting for events of a structure that is on the free list.\<close>
theorem put_and_cancel_starve:
  assumes "pvtOf n st = Some (p, v)" "npcs st t = NUser n p" "cancelWait v" "userCallbackWait v" "\<not> cancelEvent v" "\<not> userCallbackEvent v"
    "npcs st a = NPutWait n p" "npcs st b = NCancelWait n p"
  shows "\<exists>st'. notifyExec (NEnd t) st = Some st' \<and> npcs st' a = NPutWait n p \<and> npcs st' b = NCancelWait n p \<and> \<not> eventFull a st' \<and> \<not> eventFull b st'
     \<and> pvtOf n st' = None \<and> p \<in> set (pvtFreeList st')"
proof -
  obtain x where x: "ntab st n = Some x" "pputNotifyPvt x = Some p" "pvts st p = Some v" using assms(1) by (auto simp: pv_def[symmetric] pv_Some)
  have "t \<noteq> a" "t \<noteq> b" using assms(2,7,8) by auto
  then show ?thesis using assms x by (auto simp: callUserEnd_def Let_def putNotifyCleanup_def pvtOf_def eventFull_def)
qed

lemma put_and_cancel_starve_witness:
  "\<exists>st st'. notifyRun [NPut 1 11 (True, True), NDone 1 11, NCallback (True, True), NPut 1 11 (True, True), NCancel 2 11] demo = Some st
     \<and> notifyExec (NEnd 0) st = Some st' \<and> \<not> eventFull 1 st' \<and> \<not> eventFull 2 st'"
proof -
  let ?a = "[NPut 1 11 (True, True), NDone 1 11, NCallback (True, True), NPut 1 11 (True, True), NCancel 2 11]"
  have "map_option (\<lambda>st. (map_option (\<lambda>z. (fst z, cancelWait (snd z), userCallbackWait (snd z), cancelEvent (snd z), userCallbackEvent (snd z))) (pvtOf 11 st),
      npcs st 0, npcs st 1, npcs st 2)) (notifyRun ?a demo)
     = Some (Some (1, True, True, False, False), NUser 11 1, NPutWait 11 1, NCancelWait 11 1)" by code_simp
  then obtain st v where st: "notifyRun ?a demo = Some st" "pvtOf 11 st = Some (1, v)" "cancelWait v" "userCallbackWait v" "\<not> cancelEvent v" "\<not> userCallbackEvent v"
    "npcs st 0 = NUser 11 1" "npcs st 1 = NPutWait 11 1" "npcs st 2 = NCancelWait 11 1" by auto
  from put_and_cancel_starve[OF st(2,7,3-6,8,9)] show ?thesis using st(1) by blast
qed

text \<open>When the scan locks do not exclude each other, since groups can span lock sets, a completion that read the owner before the owner was
  cancelled follows a null pointer. It is the one operation of the run that is not permitted.\<close>

lemma late_completion_crash:
  "notifyRun [NPut 1 11 (True, True), NAdd 11 False 1 2, NCancel 2 11, NDone 2 11] demo = None"
  "notifyPermitted [NPut 1 11 (True, True), NAdd 11 False 1 2, NCancel 2 11] demo"
  "map_option (notifyFits (NDone 2 11)) (notifyRun [NPut 1 11 (True, True), NAdd 11 False 1 2] demo) = Some True"
  by code_simp+

end
