(* ===== verification/MacLib.thy ===== *)
theory MacLib
  imports Prelude
begin

text \<open>
  Macro substitution, \<open>base/src/libCom/macLib\<close>: definitions of macros in nested scopes, and the expansion of references
  \<open>$(name)\<close>, \<open>${name}\<close> and \<open>$(name=default)\<close>. A string is the list of its characters before the NUL; a pointer into it is
  an index. \<open>None\<close> is a read past the NUL or of a null value, a write past an array, or a loop that does not end.
  Allocation is assumed to succeed, handles to be valid, and lengths to fit the type \<open>int\<close>. \<open>trans_c\<close> is the routine \<open>trans\<close>. Not
  modelled: debug output, messages (and with them the type field), \<open>macReportMacros\<close>, which prints, and \<open>macDeleteHandle\<close>, which frees.
\<close>

section \<open>Data\<close>

record macEntry =
  ename :: string
  rawv :: "string option"
  evalue :: "string option"
  eerror :: bool
  visited :: bool
  special :: bool
  elevel :: nat

text \<open>\<open>suppress\<close> and \<open>useEnv\<close> are the bits of \<open>flags\<close>; \<open>environ\<close> is what \<open>getenv\<close> sees.\<close>

record macHandle =
  dirty :: bool
  mlevel :: nat
  suppress :: bool
  useEnv :: bool
  environ :: "(string \<times> string) list"
  entries :: "macEntry list"

definition MAC_SIZE :: nat where
  "MAC_SIZE = 256"

definition NUL :: char where
  "NUL = CHR 0x00"

section \<open>Entries\<close>

definition macCreate :: "string \<Rightarrow> bool \<Rightarrow> macHandle \<Rightarrow> macHandle" where
  "macCreate name sp h = h\<lparr>entries := entries h @
     [\<lparr>ename = name, rawv = None, evalue = None, eerror = False, visited = False, special = sp, elevel = mlevel h\<rparr>]\<rparr>"

definition setEntry :: "nat \<Rightarrow> (macEntry \<Rightarrow> macEntry) \<Rightarrow> macHandle \<Rightarrow> macHandle" where
  "setEntry i f h = h\<lparr>entries := (entries h)[i := f (entries h ! i)]\<rparr>"

definition macRawval :: "nat \<Rightarrow> string \<Rightarrow> macHandle \<Rightarrow> macHandle" where
  "macRawval i v h = (setEntry i (\<lambda>e. e\<lparr>rawv := Some v\<rparr>) h)\<lparr>dirty := True\<rparr>"

definition macDelete :: "nat \<Rightarrow> macHandle \<Rightarrow> macHandle" where
  "macDelete i h = h\<lparr>entries := take i (entries h) @ drop (Suc i) (entries h), dirty := True\<rparr>"

text \<open>The search from the end of the list.\<close>

fun searchBack :: "string \<Rightarrow> bool \<Rightarrow> macEntry list \<Rightarrow> nat \<Rightarrow> nat option" where
  "searchBack name sp es 0 = None"
| "searchBack name sp es (Suc i) = (if special (es ! i) = sp \<and> ename (es ! i) = name then Some i else searchBack name sp es i)"

definition macLookup :: "string \<Rightarrow> bool \<Rightarrow> macHandle \<Rightarrow> nat option \<times> macHandle" where
  "macLookup name sp h = (case searchBack name sp (entries h) (length (entries h)) of
       Some i \<Rightarrow> (Some i, h)
     | None \<Rightarrow> if \<not> sp \<and> useEnv h
         then (case map_of (environ h) name of
                 None \<Rightarrow> (None, h)
               | Some v \<Rightarrow> (Some (length (entries h)), macRawval (length (entries h)) v (macCreate name False h)))
         else (None, h))"

section \<open>Expansion\<close>

text \<open>A write position: what has been written, and how many characters still fit. Characters that do not fit are dropped.\<close>

type_synonym dest = "string \<times> nat"

definition emitChars :: "string \<Rightarrow> dest \<Rightarrow> dest" where
  "emitChars cs v = (fst v @ take (snd v) cs, snd v - length cs)"

definition emitRef :: "string \<Rightarrow> dest \<Rightarrow> dest" where
  "emitRef name v = emitChars '')'' (emitChars name (emitChars ''$('' v))"

definition at_c :: "string \<Rightarrow> nat \<Rightarrow> char option" where
  "at_c s i = (if i < length s then Some (s ! i) else if i = length s then Some NUL else None)"

definition isQuote :: "char \<Rightarrow> bool" where
  "isQuote c \<longleftrightarrow> c = CHR 0x22 \<or> c = CHR 0x27"

text \<open>
  \<open>trans_c\<close>, from the top of its loop: the raw string and the index in it, the open quote, the write position, and whether the
  error flag of the entry has been set. \<open>discard\<close> tells that the level is positive. The number bounds the depth of calls and turns.
\<close>

primrec trans_c :: "nat \<Rightarrow> bool \<Rightarrow> string \<Rightarrow> string \<Rightarrow> nat \<Rightarrow> char option \<Rightarrow> dest \<Rightarrow> bool \<Rightarrow> macHandle \<Rightarrow> (nat \<times> dest \<times> bool \<times> macHandle) option" where
  "trans_c 0 discard term s r quote v err h = None"
| "trans_c (Suc k) discard term s r quote v err h = do {
     c \<leftarrow> at_c s r;
     if c = NUL \<or> c \<in> set term then Some (if c = NUL then r - 1 else r, v, err, h)
     else if discard \<and> (quote = Some c \<or> quote = None \<and> isQuote c)
     then trans_c k discard term s (Suc r) (if quote = None then Some c else None) v err h
     else do {
       let q = (if quote = Some c then None else if quote = None \<and> isQuote c then Some c else quote);
       n \<leftarrow> at_c s (Suc r);
       if q = Some (CHR 0x27) \<or> \<not> (c = CHR ''$'' \<and> (n = CHR ''('' \<or> n = CHR ''{''))
       then if c = CHR 0x5C \<and> n \<noteq> NUL
         then (let v1 = (if discard then v else emitChars [c] v) in
               if snd v1 > 0 then trans_c k discard term s (Suc (Suc r)) q (emitChars [n] v1) err h
               else trans_c k discard term s (Suc r) q v1 err h)
         else trans_c k discard term s (Suc r) q (emitChars [c] v) err h
       else do {
         let close = (if n = CHR ''('' then '')'' else ''}'');
         (r1, (name2, _), err1, h1) \<leftarrow> trans_c k True (''='' @ close) s (Suc (Suc r)) None ([], MAC_SIZE) err h;
         c1 \<leftarrow> at_c s r1;
         case macLookup name2 False h1 of
           (None, h2) \<Rightarrow>
             if c1 = CHR ''=''
             then do {
               (r2, v2, err2, h3) \<leftarrow> trans_c k True close s (Suc r1) None v err1 h2;
               trans_c k discard term s (Suc r2) q v2 err2 h3 }
             else trans_c k discard term s (Suc r1) q (emitRef name2 v) (err1 \<or> \<not> suppress h2) h2
         | (Some j, h2) \<Rightarrow>
             if visited (entries h2 ! j)
             then trans_c k discard term s (Suc r1) q (emitRef name2 v) True h2
             else do {
               (r2, h3) \<leftarrow> (if c1 = CHR ''=''
                 then do {
                   (r2, _, _, h3) \<leftarrow> trans_c k True close s (Suc r1) None ([], 0) False (h2\<lparr>suppress := True\<rparr>);
                   Some (r2, h3\<lparr>suppress := suppress h2\<rparr>) }
                 else Some (r1, h2));
               (v2, err2, h4) \<leftarrow> (if \<not> dirty h3
                 then do { x \<leftarrow> evalue (entries h3 ! j); Some (emitChars x v, err1, h3) }
                 else (case rawv (entries h3 ! j) of
                     None \<Rightarrow> Some (v, err1, h3)
                   | Some raw \<Rightarrow> do {
                       (_, v2, err2, h4) \<leftarrow> trans_c k True [] raw 0 None v err1 (setEntry j (\<lambda>e. e\<lparr>visited := True\<rparr>) h3);
                       Some (v2, err2, setEntry j (\<lambda>e. e\<lparr>visited := False\<rparr>) h4) }));
               trans_c k discard term s (Suc r2) q v2 err2 h4 } } } }"

text \<open>A depth that is always enough: the characters of the string, and those of every value not in use, of macros and of the environment.\<close>

definition potE :: "macEntry \<Rightarrow> nat" where
  "potE e = (if visited e then 0 else case rawv e of None \<Rightarrow> 0 | Some s \<Rightarrow> length s + 2)"

definition pot :: "macHandle \<Rightarrow> nat" where
  "pot h = sum_list (map potE (entries h))
     + (if useEnv h then sum_list (map (\<lambda>(n, v). if n \<in> ename ` set (filter (\<lambda>e. \<not> special e) (entries h)) then 0 else length v + 2) (environ h)) else 0)"

definition transFuel :: "macHandle \<Rightarrow> string \<Rightarrow> nat" where
  "transFuel h s = pot h + length s + 2"

text \<open>The loop of \<open>expand\<close> over the entries, which may grow by those of the environment.\<close>

primrec expandLoop :: "nat \<Rightarrow> nat \<Rightarrow> macHandle \<Rightarrow> macHandle option" where
  "expandLoop 0 i h = None"
| "expandLoop (Suc k) i h =
     (if i < length (entries h)
      then do {
        (out, err, h1) \<leftarrow> (case rawv (entries h ! i) of
            None \<Rightarrow> Some ([], False, h)
          | Some s \<Rightarrow> do {
              (_, (out, _), err, h1) \<leftarrow> trans_c (transFuel h s) True [] s 0 None ([], MAC_SIZE) False h;
              Some (out, err, h1) });
        expandLoop k (Suc i) (setEntry i (\<lambda>e. e\<lparr>evalue := Some out, eerror := err\<rparr>) h1) }
      else Some (h\<lparr>dirty := False\<rparr>))"

definition expandMacros :: "macHandle \<Rightarrow> macHandle option" where
  "expandMacros h = (if \<not> dirty h then Some h else expandLoop (length (entries h) + length (environ h) + 1) 0 h)"

text \<open>The result, the string written to the destination, and the handle.\<close>

definition macExpandString :: "string \<Rightarrow> nat \<Rightarrow> macHandle \<Rightarrow> (int \<times> string \<times> macHandle) option" where
  "macExpandString src maxlen h = do {
     h1 \<leftarrow> expandMacros h;
     (_, (out, _), err, h2) \<leftarrow> trans_c (transFuel h1 src) False [] src 0 None ([], maxlen) False h1;
     Some (if err then - int (length out) else int (length out), out, h2) }"

section \<open>The routines of the users\<close>

definition macSuppressWarning :: "bool \<Rightarrow> macHandle \<Rightarrow> macHandle" where
  "macSuppressWarning b h = h\<lparr>suppress := b\<rparr>"

partial_function (option) deleteAll :: "string \<Rightarrow> macHandle \<Rightarrow> macHandle option" where
  "deleteAll name h = (case macLookup name False h of
       (None, h1) \<Rightarrow> Some h1
     | (Some i, h1) \<Rightarrow> deleteAll name (macDelete i h1))"

declare deleteAll.simps [code]

definition macPutValue :: "string \<Rightarrow> string option \<Rightarrow> macHandle \<Rightarrow> (int \<times> macHandle) option" where
  "macPutValue name value h = (case value of
       None \<Rightarrow> do { h1 \<leftarrow> deleteAll name h; Some (0, h1) }
     | Some val \<Rightarrow>
         (let (found, h1) = macLookup name False h;
              isNew = (case found of None \<Rightarrow> True | Some i \<Rightarrow> elevel (entries h1 ! i) < mlevel h1)
          in Some (int (length val),
                   if isNew then macRawval (length (entries h1)) val (macCreate name False h1) else macRawval (the found) val h1)))"

text \<open>The result and the characters copied; \<open>None\<close> for a call without a buffer.\<close>

definition macGetValue :: "string \<Rightarrow> nat \<Rightarrow> macHandle \<Rightarrow> (int \<times> string option \<times> macHandle) option" where
  "macGetValue name maxlen h = (let (found, h1) = macLookup name False h in
     if maxlen = 0 then Some (if found = None then - 1 else 0, None, h1)
     else case found of
       None \<Rightarrow> Some (- int (if length name < maxlen then length name else maxlen), Some (take maxlen name), h1)
     | Some i \<Rightarrow> do {
         h2 \<leftarrow> expandMacros h1;
         x \<leftarrow> evalue (entries h2 ! i);
         let len = int (if length x < maxlen then length x else maxlen);
         Some (if eerror (entries h2 ! i) then - len else len, Some (take maxlen x), h2) })"

definition macPushScope :: "macHandle \<Rightarrow> int \<times> macHandle" where
  "macPushScope h = (0, macCreate ''<scope>'' True (h\<lparr>mlevel := mlevel h + 1\<rparr>))"

definition macPopScope :: "macHandle \<Rightarrow> int \<times> macHandle" where
  "macPopScope h =
     (if mlevel h = 0 then (- 1, h)
      else case searchBack ''<scope>'' True (entries h) (length (entries h)) of
        None \<Rightarrow> (- 1, h)
      | Some i \<Rightarrow> (0, h\<lparr>entries := take i (entries h), dirty := True, mlevel := mlevel h - 1\<rparr>))"

text \<open>An array of pairs, with the null pointers in it.\<close>

definition pairAt :: "string option list \<Rightarrow> nat \<Rightarrow> string option option" where
  "pairAt ps i = (if i < length ps then Some (ps ! i) else None)"

fun putPairs :: "string option list \<Rightarrow> macHandle \<Rightarrow> (nat \<times> macHandle) option" where
  "putPairs (Some n # v # ps) h = do { (_, h1) \<leftarrow> macPutValue n v h; (k, h2) \<leftarrow> putPairs ps h1; Some (Suc k, h2) }"
| "putPairs (None # ps) h = Some (0, h)"
| "putPairs _ h = None"

definition macCreateHandle :: "(string \<times> string) list \<Rightarrow> string option list option \<Rightarrow> macHandle option" where
  "macCreateHandle env pairs =
     (let h = \<lparr>dirty = False, mlevel = 0, suppress = False, useEnv = False, environ = env, entries = []\<rparr> in
      case pairs of
        None \<Rightarrow> Some h
      | Some ps \<Rightarrow> do {
          p0 \<leftarrow> pairAt ps 0;
          useE \<leftarrow> (if p0 \<noteq> Some '''' then Some False
                  else do { p1 \<leftarrow> pairAt ps 1;
                            if p1 \<noteq> Some ''environ'' then Some False else do { p3 \<leftarrow> pairAt ps 3; Some (p3 = None) } });
          if useE then Some (h\<lparr>useEnv := True\<rparr>) else map_option snd (putPairs ps h) })"

definition macInstallMacros :: "string option list option \<Rightarrow> macHandle \<Rightarrow> (nat \<times> macHandle) option" where
  "macInstallMacros pairs h = (case pairs of None \<Rightarrow> Some (0, h) | Some ps \<Rightarrow> putPairs ps h)"

section \<open>Expansion with the environment\<close>

text \<open>
  \<open>macEnvExpand\<close>: the buffer is doubled until the text fits. The routine passes the size of the buffer where the number of characters
  before the NUL is meant; the NUL of a text that fills it is written behind it. The result is the text, or a null pointer.
\<close>

partial_function (option) envLoop :: "string \<Rightarrow> nat \<Rightarrow> macHandle \<Rightarrow> string option option" where
  "envLoop str capacity h = do {
     (n, out, h1) \<leftarrow> macExpandString str (2 * capacity) h;
     if length out = 2 * capacity then None
     else if n \<ge> int (2 * capacity) - 1 then envLoop str (2 * capacity) h1
     else Some (if n < 0 then None else Some out) }"

declare envLoop.simps [code]

definition macEnvExpand :: "(string \<times> string) list \<Rightarrow> string \<Rightarrow> string option option" where
  "macEnvExpand env str = do {
     h \<leftarrow> macCreateHandle env (Some [Some '''', Some ''environ'', None, None]);
     envLoop str 200 h }"

end
