(* ===== verification/MacProofs.thy ===== *)
theory MacProofs
  imports MacLib
begin

text \<open>The expansion of macros ends, reads no string past its NUL, and stays in its destination.\<close>

section \<open>Looking up\<close>

lemma searchBack_Some: "searchBack name sp es k = Some i \<Longrightarrow> i < k \<and> special (es ! i) = sp \<and> ename (es ! i) = name"
  by (induction k) (auto split: if_splits)

lemma searchBack_None: "searchBack name sp es k = None \<longleftrightarrow> (\<forall>i < k. \<not> (special (es ! i) = sp \<and> ename (es ! i) = name))"
  by (induction k) (auto simp: less_Suc_eq)

lemma searchBack_cong: "(\<And>i. i < k \<Longrightarrow> special (es ! i) = special (fs ! i) \<and> ename (es ! i) = ename (fs ! i)) \<Longrightarrow> searchBack name sp es k = searchBack name sp fs k"
  by (induction k) auto

definition namesOf :: "macEntry list \<Rightarrow> string set" where
  "namesOf es = ename ` set (filter (\<lambda>e. \<not> special e) es)"

lemma search_names: "searchBack name False es (length es) = None \<longleftrightarrow> name \<notin> namesOf es"
  by (auto simp: searchBack_None namesOf_def in_set_conv_nth)

lemma setEntry_simps [simp]:
  "dirty (setEntry i f h) = dirty h" "mlevel (setEntry i f h) = mlevel h" "suppress (setEntry i f h) = suppress h" "useEnv (setEntry i f h) = useEnv h"
  "environ (setEntry i f h) = environ h" "entries (setEntry i f h) = (entries h)[i := f (entries h ! i)]"
  by (simp_all add: setEntry_def)

lemma create_simps [simp]:
  "dirty (macCreate n sp h) = dirty h" "mlevel (macCreate n sp h) = mlevel h" "suppress (macCreate n sp h) = suppress h" "useEnv (macCreate n sp h) = useEnv h"
  "environ (macCreate n sp h) = environ h"
  "entries (macCreate n sp h) = entries h @ [\<lparr>ename = n, rawv = None, evalue = None, eerror = False, visited = False, special = sp, elevel = mlevel h\<rparr>]"
  by (simp_all add: macCreate_def)

lemma rawval_simps [simp]:
  "dirty (macRawval i v h) = True" "mlevel (macRawval i v h) = mlevel h" "suppress (macRawval i v h) = suppress h" "useEnv (macRawval i v h) = useEnv h"
  "environ (macRawval i v h) = environ h" "entries (macRawval i v h) = (entries h)[i := (entries h ! i)\<lparr>rawv := Some v\<rparr>]"
  by (simp_all add: macRawval_def)

section \<open>The potential\<close>

definition envPot :: "string set \<Rightarrow> macHandle \<Rightarrow> nat" where
  "envPot ns h = (if useEnv h then sum_list (map (\<lambda>(n, v). if n \<in> ns then 0 else length v + 2) (environ h)) else 0)"

lemma pot_eq: "pot h = sum_list (map potE (entries h)) + envPot (namesOf (entries h)) h"
  by (simp add: pot_def envPot_def namesOf_def)

lemma envPot_insert: "useEnv h \<Longrightarrow> map_of (environ h) n = Some v \<Longrightarrow> n \<notin> ns \<Longrightarrow> envPot (insert n ns) h + length v + 2 \<le> envPot ns h"
proof -
  have mono: "sum_list (map (\<lambda>(m, v). if m \<in> insert n ns then 0 else length v + 2) es) \<le> sum_list (map (\<lambda>(m, v). if m \<in> ns then 0 else length v + 2) es)" for es :: "(string \<times> string) list"
    by (induction es) auto
  have "map_of es n = Some v \<Longrightarrow> n \<notin> ns \<Longrightarrow> sum_list (map (\<lambda>(m, v). if m \<in> insert n ns then 0 else length v + 2) es) + length v + 2
     \<le> sum_list (map (\<lambda>(m, v). if m \<in> ns then 0 else length v + 2) es)" for es :: "(string \<times> string) list"
  proof (induction es)
    case (Cons a es)
    then show ?case using mono[of es] by (cases a) (auto split: if_splits)
  qed simp
  then show "useEnv h \<Longrightarrow> map_of (environ h) n = Some v \<Longrightarrow> n \<notin> ns \<Longrightarrow> envPot (insert n ns) h + length v + 2 \<le> envPot ns h" by (simp add: envPot_def)
qed

lemma sum_update: "j < length es \<Longrightarrow> sum_list (map f (es[j := e])) + f (es ! j) = sum_list (map f es) + (f e :: nat)"
  by (induction es arbitrary: j) (auto simp: nth_Cons split: nat.splits)

lemma namesOf_update: "j < length es \<Longrightarrow> special e = special (es ! j) \<Longrightarrow> ename e = ename (es ! j) \<Longrightarrow> namesOf (es[j := e]) = namesOf es"
proof -
  assume a: "j < length es" "special e = special (es ! j)" "ename e = ename (es ! j)"
  have "x \<in> namesOf (es[j := e]) \<longleftrightarrow> x \<in> namesOf es" for x
    using a by (auto simp: namesOf_def in_set_conv_nth image_iff nth_list_update) (metis nth_list_update)+
  then show ?thesis by blast
qed

section \<open>What an expansion may change\<close>

definition wfm :: "macHandle \<Rightarrow> bool" where
  "wfm h \<longleftrightarrow> (\<not> dirty h \<longrightarrow> (\<forall>e \<in> set (entries h). \<not> special e \<longrightarrow> evalue e \<noteq> None))"

text \<open>The entries there can be: those there are, and those for the variables of the environment not yet used.\<close>

definition room :: "macHandle \<Rightarrow> nat" where
  "room h = length (entries h) + (if useEnv h then card (fst ` set (environ h) - namesOf (entries h)) else 0)"

definition ext :: "macHandle \<Rightarrow> macHandle \<Rightarrow> bool" where
  "ext h h' \<longleftrightarrow> suppress h' = suppress h \<and> mlevel h' = mlevel h \<and> useEnv h' = useEnv h \<and> environ h' = environ h \<and> pot h' \<le> pot h \<and> room h' \<le> room h
     \<and> (\<exists>es. entries h' = entries h @ es \<and> (dirty h' \<longleftrightarrow> dirty h \<or> es \<noteq> []) \<and> (es \<noteq> [] \<longrightarrow> useEnv h)
          \<and> (\<forall>e \<in> set es. \<not> special e \<and> \<not> visited e \<and> ename e \<in> fst ` set (environ h) \<and> rawv e \<noteq> None))"

lemma ext_refl: "ext h h"
  by (simp add: ext_def)

lemma ext_trans: "ext a b \<Longrightarrow> ext b c \<Longrightarrow> ext a c"
  unfolding ext_def by (auto simp: le_trans)

lemma extD:
  assumes "ext h h'"
  shows "suppress h' = suppress h" "pot h' \<le> pot h" "room h' \<le> room h" "length (entries h) \<le> length (entries h')" "j < length (entries h) \<Longrightarrow> entries h' ! j = entries h ! j"
  using assms by (auto simp: ext_def nth_append)

lemma lookup_ext:
  assumes "macLookup n False h = (f, h')"
  shows "ext h h'" "wfm h \<Longrightarrow> wfm h'" "f = None \<Longrightarrow> h' = h" "f = Some j \<Longrightarrow> j < length (entries h') \<and> \<not> special (entries h' ! j) \<and> ename (entries h' ! j) = n"
proof -
  have "ext h h' \<and> (wfm h \<longrightarrow> wfm h') \<and> (f = None \<longrightarrow> h' = h) \<and> (\<forall>j. f = Some j \<longrightarrow> j < length (entries h') \<and> \<not> special (entries h' ! j) \<and> ename (entries h' ! j) = n)"
  proof (cases "searchBack n False (entries h) (length (entries h))")
    case (Some i)
    then show ?thesis using assms searchBack_Some[OF Some] by (auto simp: macLookup_def ext_refl)
  next
    case None
    show ?thesis
    proof (cases "useEnv h \<and> map_of (environ h) n \<noteq> None")
      case True
      then obtain v where v: "map_of (environ h) n = Some v" "useEnv h" by blast
      let ?h = "macRawval (length (entries h)) v (macCreate n False h)"
      have e: "f = Some (length (entries h))" "h' = ?h" using assms None v by (simp_all add: macLookup_def)
      have nn: "n \<notin> namesOf (entries h)" using None search_names by blast
      have es: "entries ?h = entries h @ [\<lparr>ename = n, rawv = Some v, evalue = None, eerror = False, visited = False, special = False, elevel = mlevel h\<rparr>]"
        by simp
      have ns: "namesOf (entries ?h) = insert n (namesOf (entries h))" unfolding es by (auto simp: namesOf_def)
      have "envPot X ?h = envPot X h" for X by (simp add: envPot_def)
      then have "envPot (namesOf (entries ?h)) ?h + length v + 2 \<le> envPot (namesOf (entries h)) h"
        using envPot_insert[OF v(2,1) nn] unfolding ns by simp
      then have "pot ?h \<le> pot h" unfolding pot_eq es by (simp add: potE_def)
      moreover have "n \<in> fst ` set (environ h)" using v(1) by (force dest: map_of_SomeD)
      moreover have "card (fst ` set (environ h) - namesOf (entries ?h)) < card (fst ` set (environ h) - namesOf (entries h))"
        by (rule psubset_card_mono) (use calculation(2) nn ns in auto)
      then have "room ?h \<le> room h" using v(2) by (simp add: room_def)
      ultimately have "ext h ?h" using v(2) by (auto simp: ext_def)
      then show ?thesis using e by (auto simp: wfm_def)
    next
      case False
      then show ?thesis using assms None by (auto simp: macLookup_def ext_refl split: option.splits)
    qed
  qed
  then show "ext h h'" "wfm h \<Longrightarrow> wfm h'" "f = None \<Longrightarrow> h' = h" "f = Some j \<Longrightarrow> j < length (entries h') \<and> \<not> special (entries h' ! j) \<and> ename (entries h' ! j) = n"
    by blast+
qed

text \<open>A macro is marked while its value is expanded.\<close>

lemma mark_ok:
  assumes j: "j < length (entries h)" "\<not> visited (entries h ! j)" "\<not> special (entries h ! j)" "rawv (entries h ! j) = Some raw"
  shows "pot (setEntry j (\<lambda>e. e\<lparr>visited := True\<rparr>) h) + length raw + 2 = pot h"
    "ext (setEntry j (\<lambda>e. e\<lparr>visited := True\<rparr>) h) h4 \<Longrightarrow> ext h (setEntry j (\<lambda>e. e\<lparr>visited := False\<rparr>) h4)"
proof -
  let ?m = "setEntry j (\<lambda>e. e\<lparr>visited := True\<rparr>) h" and ?e = "(entries h ! j)\<lparr>visited := True\<rparr>"
  have nm: "namesOf (entries ?m) = namesOf (entries h)" using j(1) by (simp add: namesOf_update)
  have w: "sum_list (map potE (entries ?m)) + (length raw + 2) = sum_list (map potE (entries h))"
    using sum_update[OF j(1), of potE ?e] j(2,4) by (simp add: potE_def)
  show p: "pot ?m + length raw + 2 = pot h" using w nm by (simp add: pot_eq envPot_def)
  assume x: "ext ?m h4"
  let ?u = "setEntry j (\<lambda>e. e\<lparr>visited := False\<rparr>) h4"
  obtain es where es: "entries h4 = entries ?m @ es" "dirty h4 \<longleftrightarrow> dirty h \<or> es \<noteq> []" "es \<noteq> [] \<longrightarrow> useEnv h"
    "\<forall>e \<in> set es. \<not> special e \<and> \<not> visited e \<and> ename e \<in> fst ` set (environ h) \<and> rawv e \<noteq> None" using x by (auto simp: ext_def)
  have h4: "entries h4 ! j = ?e" "j < length (entries h4)" using es(1) j(1) by (simp_all add: nth_append)
  have "((entries h ! j)\<lparr>visited := True\<rparr>)\<lparr>visited := False\<rparr> = entries h ! j" using j(2) by (cases "entries h ! j") simp
  then have u: "entries ?u = entries h @ es" using es(1) h4 j(1) by (simp add: list_update_append)
  have nu: "namesOf (entries ?u) = namesOf (entries h4)" using h4 by (simp add: namesOf_update)
  have "sum_list (map potE (entries ?u)) = sum_list (map potE (entries h4)) + (length raw + 2)"
    using sum_update[OF h4(2), of potE "?e\<lparr>visited := False\<rparr>"] h4(1) j(2,4) by (simp add: potE_def)
  then have "pot ?u = pot h4 + length raw + 2" using nu by (simp add: pot_eq envPot_def)
  moreover have "pot h4 \<le> pot ?m" by (rule extD(2)[OF x])
  ultimately have "pot ?u \<le> pot h" using p by simp
  moreover have "room ?u = room h4" "room ?m = room h" using nu nm u es(1) by (simp_all add: room_def)
  ultimately show "ext h ?u" using x u es(2-4) by (simp add: ext_def)
qed

section \<open>Termination and bounds\<close>

definition grown :: "dest \<Rightarrow> dest \<Rightarrow> bool" where
  "grown v v' \<longleftrightarrow> (\<exists>w. fst v' = fst v @ w \<and> snd v = snd v' + length w)"

lemma grown_refl: "grown v v"
  by (simp add: grown_def)

lemma grown_trans: "grown a b \<Longrightarrow> grown b c \<Longrightarrow> grown a c"
  unfolding grown_def by fastforce

lemma grown_emit: "grown v w \<Longrightarrow> grown v (emitChars cs w)"
  unfolding grown_def emitChars_def by (elim exE conjE, intro exI[of _ "_ @ take (snd w) cs"]) auto

lemma grown_ref: "grown v (emitRef n v)"
  unfolding emitRef_def by (intro grown_emit grown_refl)

definition transPost :: "string \<Rightarrow> nat \<Rightarrow> dest \<Rightarrow> macHandle \<Rightarrow> (nat \<times> dest \<times> bool \<times> macHandle) option \<Rightarrow> bool" where
  "transPost s r v h res \<longleftrightarrow> (\<exists>r' v' err' h'. res = Some (r', v', err', h') \<and> ext h h' \<and> wfm h' \<and> r \<le> Suc r' \<and> (s \<noteq> [] \<longrightarrow> r' < length s) \<and> grown v v')"

lemma transPost_from: "transPost s r2 v2 h2 res \<Longrightarrow> ext h h2 \<Longrightarrow> r \<le> r2 \<Longrightarrow> grown v v2 \<Longrightarrow> transPost s r v h res"
  unfolding transPost_def by (blast intro: ext_trans grown_trans le_trans)

lemma at_c_simps: "at_c s r = Some c \<Longrightarrow> r \<le> length s" "at_c s r = Some c \<Longrightarrow> c \<noteq> NUL \<Longrightarrow> r < length s" "r \<le> length s \<Longrightarrow> \<exists>c. at_c s r = Some c"
  by (auto simp: at_c_def split: if_splits)

lemma at_c_next:
  assumes "at_c s r = Some c" "c \<noteq> NUL"
  shows "\<exists>n. at_c s (Suc r) = Some n \<and> (n \<noteq> NUL \<longrightarrow> Suc (Suc r) \<le> length s)"
proof -
  have "r < length s" by (rule at_c_simps(2)[OF assms])
  then show ?thesis by (cases "Suc r < length s") (simp_all add: at_c_def)
qed

text \<open>One turn of the loop: the kinds of characters.\<close>

lemma trans_stop: "at_c s r = Some c \<Longrightarrow> c = NUL \<or> c \<in> set tm \<Longrightarrow> trans_c (Suc k) d tm s r q v err h = Some (if c = NUL then r - 1 else r, v, err, h)"
  by simp

lemma trans_quote: "at_c s r = Some c \<Longrightarrow> c \<noteq> NUL \<Longrightarrow> c \<notin> set tm \<Longrightarrow> d \<and> (q = Some c \<or> q = None \<and> isQuote c) \<Longrightarrow>
   trans_c (Suc k) d tm s r q v err h = trans_c k d tm s (Suc r) (if q = None then Some c else None) v err h"
  by (simp split del: if_split)

definition nextQuote :: "char option \<Rightarrow> char \<Rightarrow> char option" where
  "nextQuote quote c = (if quote = Some c then None else if quote = None \<and> isQuote c then Some c else quote)"

lemma trans_plain:
  assumes "at_c s r = Some c" "c \<noteq> NUL" "c \<notin> set tm" "\<not> (d \<and> (q = Some c \<or> q = None \<and> isQuote c))" "at_c s (Suc r) = Some n"
    "nextQuote q c = Some (CHR 0x27) \<or> \<not> (c = CHR ''$'' \<and> (n = CHR ''('' \<or> n = CHR ''{''))"
  shows "trans_c (Suc k) d tm s r q v err h =
     (if c = CHR 0x5C \<and> n \<noteq> NUL
      then (let v1 = (if d then v else emitChars [c] v) in
            if snd v1 > 0 then trans_c k d tm s (Suc (Suc r)) (nextQuote q c) (emitChars [n] v1) err h
            else trans_c k d tm s (Suc r) (nextQuote q c) v1 err h)
      else trans_c k d tm s (Suc r) (nextQuote q c) (emitChars [c] v) err h)"
proof -
  have a: "(c = NUL \<or> c \<in> set tm) = False" "(d \<and> (q = Some c \<or> q = None \<and> isQuote c)) = False"
    "(nextQuote q c = Some (CHR 0x27) \<or> \<not> (c = CHR ''$'' \<and> (n = CHR ''('' \<or> n = CHR ''{''))) = True" using assms by blast+
  show ?thesis by (simp only: trans_c.simps(2) assms(1,5) a Option.bind.simps Let_def if_False if_True nextQuote_def[symmetric])
qed

text \<open>The value of a macro, as its reference puts it.\<close>

definition transValue :: "nat \<Rightarrow> nat \<Rightarrow> dest \<Rightarrow> bool \<Rightarrow> macHandle \<Rightarrow> (dest \<times> bool \<times> macHandle) option" where
  "transValue k j v err h = (if \<not> dirty h
     then do { x \<leftarrow> evalue (entries h ! j); Some (emitChars x v, err, h) }
     else (case rawv (entries h ! j) of
         None \<Rightarrow> Some (v, err, h)
       | Some raw \<Rightarrow> do {
           (_, v2, err2, h4) \<leftarrow> trans_c k True [] raw 0 None v err (setEntry j (\<lambda>e. e\<lparr>visited := True\<rparr>) h);
           Some (v2, err2, setEntry j (\<lambda>e. e\<lparr>visited := False\<rparr>) h4) }))"

definition transDefault :: "nat \<Rightarrow> string \<Rightarrow> string \<Rightarrow> nat \<Rightarrow> char \<Rightarrow> macHandle \<Rightarrow> (nat \<times> macHandle) option" where
  "transDefault k close s r1 c1 h2 = (if c1 = CHR ''=''
     then do {
       (r2, _, _, h3) \<leftarrow> trans_c k True close s (Suc r1) None ([], 0) False (h2\<lparr>suppress := True\<rparr>);
       Some (r2, h3\<lparr>suppress := suppress h2\<rparr>) }
     else Some (r1, h2))"

lemma trans_refer:
  assumes c: "at_c s r = Some c" "c \<noteq> NUL" "c \<notin> set tm" "\<not> (d \<and> (q = Some c \<or> q = None \<and> isQuote c))" "at_c s (Suc r) = Some n"
    and ref: "\<not> (nextQuote q c = Some (CHR 0x27) \<or> \<not> (c = CHR ''$'' \<and> (n = CHR ''('' \<or> n = CHR ''{'')))"
    and close: "close = (if n = CHR ''('' then '')'' else ''}'')"
    and name: "trans_c k True (''='' @ close) s (Suc (Suc r)) None ([], MAC_SIZE) err h = Some (r1, (name2, m), err1, h1)" "at_c s r1 = Some c1"
  shows "trans_c (Suc k) d tm s r q v err h = (case macLookup name2 False h1 of
       (None, h2) \<Rightarrow> if c1 = CHR ''=''
         then do { (r2, v2, err2, h3) \<leftarrow> trans_c k True close s (Suc r1) None v err1 h2; trans_c k d tm s (Suc r2) (nextQuote q c) v2 err2 h3 }
         else trans_c k d tm s (Suc r1) (nextQuote q c) (emitRef name2 v) (err1 \<or> \<not> suppress h2) h2
     | (Some j, h2) \<Rightarrow> if visited (entries h2 ! j) then trans_c k d tm s (Suc r1) (nextQuote q c) (emitRef name2 v) True h2
         else do {
           (r2, h3) \<leftarrow> transDefault k close s r1 c1 h2;
           (v2, err2, h4) \<leftarrow> transValue k j v err1 h3;
           trans_c k d tm s (Suc r2) (nextQuote q c) v2 err2 h4 })"
proof -
  have a: "(c = NUL \<or> c \<in> set tm) = False" "(d \<and> (q = Some c \<or> q = None \<and> isQuote c)) = False"
    "(nextQuote q c = Some (CHR 0x27) \<or> \<not> (c = CHR ''$'' \<and> (n = CHR ''('' \<or> n = CHR ''{''))) = False" using c ref by blast+
  show ?thesis
    by (simp only: trans_c.simps(2) c(1,5) a Option.bind.simps Let_def if_False nextQuote_def[symmetric] close[symmetric] name prod.case
        transDefault_def[symmetric] transValue_def[symmetric])
qed

lemma transValue_ok:
  assumes IH: "\<And>s tm r v err h. pot h + (length s - r) + 1 \<le> k \<Longrightarrow> r \<le> length s \<Longrightarrow> wfm h \<Longrightarrow> transPost s r v h (trans_c k True tm s r None v err h)"
    and h: "wfm h" "j < length (entries h)" "\<not> special (entries h ! j)" "\<not> visited (entries h ! j)" "pot h \<le> k"
  shows "\<exists>v2 err2 h4. transValue k j v err h = Some (v2, err2, h4) \<and> ext h h4 \<and> wfm h4 \<and> grown v v2"
proof (cases "dirty h")
  case False
  then obtain x where "evalue (entries h ! j) = Some x" using h(1-3) by (fastforce simp: wfm_def)
  then show ?thesis using False h(1) by (simp add: transValue_def ext_refl grown_emit[OF grown_refl])
next
  case d: True
  show ?thesis
  proof (cases "rawv (entries h ! j)")
    case None
    then show ?thesis using d h(1) by (simp add: transValue_def ext_refl grown_refl)
  next
    case (Some raw)
    note m = mark_ok[OF h(2,4,3) Some]
    let ?m = "setEntry j (\<lambda>e. e\<lparr>visited := True\<rparr>) h"
    have "wfm ?m" using d by (simp add: wfm_def)
    then have "transPost raw 0 v ?m (trans_c k True [] raw 0 None v err ?m)" using m(1) h(5) by (intro IH) auto
    then obtain r2 v2 err2 h4 where t: "trans_c k True [] raw 0 None v err ?m = Some (r2, v2, err2, h4)" "ext ?m h4" "wfm h4" "grown v v2"
      by (auto simp: transPost_def)
    have "dirty h4" using t(2) d by (auto simp: ext_def)
    then have "wfm (setEntry j (\<lambda>e. e\<lparr>visited := False\<rparr>) h4)" by (simp add: wfm_def)
    then show ?thesis using t m(2)[OF t(2)] d Some by (simp add: transValue_def)
  qed
qed

lemma suppress_wfm: "wfm (h\<lparr>suppress := b\<rparr>) = wfm h" "pot (h\<lparr>suppress := b\<rparr>) = pot h" "room (h\<lparr>suppress := b\<rparr>) = room h"
  by (simp_all add: wfm_def pot_def room_def)

lemma suppress_ext: "ext (h\<lparr>suppress := True\<rparr>) h3 \<Longrightarrow> ext h (h3\<lparr>suppress := suppress h\<rparr>)"
  by (simp add: ext_def suppress_wfm(2,3))

lemma transDefault_ok:
  assumes IH: "\<And>s tm r v err h. pot h + (length s - r) + 1 \<le> k \<Longrightarrow> r \<le> length s \<Longrightarrow> wfm h \<Longrightarrow> transPost s r v h (trans_c k True tm s r None v err h)"
    and h: "wfm h" "at_c s r1 = Some c1" "pot h + (length s - r1) \<le> k" "s \<noteq> [] \<longrightarrow> r1 < length s"
  shows "\<exists>r2 h3. transDefault k close s r1 c1 h = Some (r2, h3) \<and> ext h h3 \<and> wfm h3 \<and> r1 \<le> r2 \<and> (s \<noteq> [] \<longrightarrow> r2 < length s)"
proof (cases "c1 = CHR ''=''")
  case True
  then have r: "r1 < length s" using at_c_simps(2)[OF h(2)] by (simp add: NUL_def)
  have "transPost s (Suc r1) ([], 0) (h\<lparr>suppress := True\<rparr>) (trans_c k True close s (Suc r1) None ([], 0) False (h\<lparr>suppress := True\<rparr>))"
    by (rule IH) (use h(1,3) r suppress_wfm in auto)
  then obtain r2 v2 err2 h3 where "trans_c k True close s (Suc r1) None ([], 0) False (h\<lparr>suppress := True\<rparr>) = Some (r2, v2, err2, h3)"
    "ext (h\<lparr>suppress := True\<rparr>) h3" "wfm h3" "Suc r1 \<le> Suc r2" "s \<noteq> [] \<longrightarrow> r2 < length s" by (auto simp: transPost_def)
  then show ?thesis using True suppress_ext suppress_wfm by (simp add: transDefault_def)
next
  case False
  then show ?thesis using h(1,4) by (simp add: transDefault_def ext_refl)
qed

text \<open>With enough depth the loop returns; it ends inside the string, or at its NUL; what is written fits.\<close>

lemma trans_ok: "pot h + (length s - r) + 1 \<le> k \<Longrightarrow> r \<le> length s \<Longrightarrow> wfm h \<Longrightarrow> transPost s r v h (trans_c k d tm s r q v err h)"
proof (induction k arbitrary: d tm s r q v err h)
  case (Suc k)
  note IH = Suc.IH
  obtain c where c: "at_c s r = Some c" using at_c_simps(3)[OF Suc.prems(2)] by blast
  have go: "transPost s r v h (trans_c k d tm s r2 q2 v2 err2 h2)"
    if "Suc r \<le> r2" "r2 \<le> length s" "ext h h2" "wfm h2" "grown v v2" for r2 q2 v2 err2 h2
    by (rule transPost_from[OF IH that(3) _ that(5)]) (use that Suc.prems extD(2)[OF that(3)] in auto)
  show ?case
  proof (cases "c = NUL \<or> c \<in> set tm")
    case True
    have "c \<noteq> NUL \<longrightarrow> r < length s" using at_c_simps(2)[OF c] by blast
    then show ?thesis unfolding trans_stop[OF c True] using Suc.prems by (cases s) (auto simp: transPost_def ext_refl grown_refl)
  next
    case stop: False
    then have nn: "c \<noteq> NUL" "c \<notin> set tm" by auto
    have r1: "Suc r \<le> length s" using at_c_simps(2)[OF c nn(1)] by simp
    show ?thesis
    proof (cases "d \<and> (q = Some c \<or> q = None \<and> isQuote c)")
      case True
      show ?thesis unfolding trans_quote[OF c nn True] by (rule go) (use r1 Suc.prems in \<open>simp_all add: ext_refl grown_refl\<close>)
    next
      case nq: False
      obtain n where n: "at_c s (Suc r) = Some n" "n \<noteq> NUL \<longrightarrow> Suc (Suc r) \<le> length s" using at_c_next[OF c nn(1)] by blast
      show ?thesis
      proof (cases "nextQuote q c = Some (CHR 0x27) \<or> \<not> (c = CHR ''$'' \<and> (n = CHR ''('' \<or> n = CHR ''{''))")
        case True
        let ?v1 = "if d then v else emitChars [c] v"
        have g: "grown v ?v1" "grown v (emitChars [n] ?v1)" "grown v (emitChars [c] v)" by (simp_all add: grown_emit grown_refl)
        consider "trans_c (Suc k) d tm s r q v err h = trans_c k d tm s (Suc r) (nextQuote q c) (emitChars [c] v) err h"
           | "trans_c (Suc k) d tm s r q v err h = trans_c k d tm s (Suc r) (nextQuote q c) ?v1 err h"
           | "n \<noteq> NUL" "trans_c (Suc k) d tm s r q v err h = trans_c k d tm s (Suc (Suc r)) (nextQuote q c) (emitChars [n] ?v1) err h"
          unfolding trans_plain[OF c nn nq n(1) True] Let_def by (cases "c = CHR 0x5C \<and> n \<noteq> NUL"; cases "snd ?v1 > 0") simp_all
        then show ?thesis
        proof cases
          case 1
          show ?thesis unfolding 1 by (rule go[OF _ r1 ext_refl Suc.prems(3) g(3)]) simp
        next
          case 2
          show ?thesis unfolding 2 by (rule go[OF _ r1 ext_refl Suc.prems(3) g(1)]) simp
        next
          case 3
          show ?thesis unfolding 3(2) by (rule go[OF _ _ ext_refl Suc.prems(3) g(2)]) (use n(2) 3(1) in simp_all)
        qed
      next
        case ref: False
        define close where "close = (if n = CHR ''('' then '')'' else ''}'')"
        have r2: "Suc (Suc r) \<le> length s" using ref n(2) by (auto simp: NUL_def)
        have IHn: "transPost s r v h (trans_c k True tm s r None v err h)" if "pot h + (length s - r) + 1 \<le> k" "r \<le> length s" "wfm h" for s tm r v err h
          using IH that by blast
        have "transPost s (Suc (Suc r)) ([], MAC_SIZE) h (trans_c k True (''='' @ close) s (Suc (Suc r)) None ([], MAC_SIZE) err h)"
          by (rule IHn) (use Suc.prems r2 in auto)
        then obtain r1 name2 m err1 h1 where nm: "trans_c k True (''='' @ close) s (Suc (Suc r)) None ([], MAC_SIZE) err h = Some (r1, (name2, m), err1, h1)"
          and x: "ext h h1" "wfm h1" "Suc r \<le> r1" "r1 < length s" using r2 by (fastforce simp: transPost_def)
        obtain c1 where c1: "at_c s r1 = Some c1" using at_c_simps(3)[of r1 s] x(4) by auto
        note e = trans_refer[OF c nn nq n(1) ref close_def nm c1]
        obtain f h2 where l: "macLookup name2 False h1 = (f, h2)" by (cases "macLookup name2 False h1")
        have x2: "ext h h2" "wfm h2" using ext_trans[OF x(1) lookup_ext(1)[OF l]] lookup_ext(2)[OF l x(2)] by blast+
        have p2: "pot h2 + (length s - r1) \<le> k" using extD(2)[OF x2(1)] x(3) Suc.prems(1) by simp
        show ?thesis
        proof (cases f)
          case None
          show ?thesis
          proof (cases "c1 = CHR ''=''")
            case True
            have "transPost s (Suc r1) v h2 (trans_c k True close s (Suc r1) None v err1 h2)"
              by (rule IHn) (use p2 x(4) x2(2) in auto)
            then obtain r3 v3 err3 h3 where t: "trans_c k True close s (Suc r1) None v err1 h2 = Some (r3, v3, err3, h3)" "ext h2 h3" "wfm h3" "r1 \<le> r3" "r3 < length s" "grown v v3"
              using r2 by (fastforce simp: transPost_def)
            show ?thesis unfolding e l None prod.case option.case if_P[OF True] t(1) Option.bind.simps
              by (rule go) (use t x ext_trans[OF x2(1) t(2)] in auto)
          next
            case False
            show ?thesis unfolding e l None prod.case option.case if_not_P[OF False]
              by (rule go) (use x x2 grown_ref in auto)
          qed
        next
          case (Some j)
          have jj: "j < length (entries h2)" "\<not> special (entries h2 ! j)" using lookup_ext(4)[OF l Some] by blast+
          show ?thesis
          proof (cases "visited (entries h2 ! j)")
            case True
            show ?thesis unfolding e l Some prod.case option.case if_P[OF True] by (rule go) (use x x2 grown_ref in auto)
          next
            case vis: False
            obtain r3 h3 where t: "transDefault k close s r1 c1 h2 = Some (r3, h3)" "ext h2 h3" "wfm h3" "r1 \<le> r3" "s \<noteq> [] \<longrightarrow> r3 < length s"
              using transDefault_ok[of k h2 s r1 c1 close] IHn x2(2) c1 p2 x(4) by blast
            have j3: "j < length (entries h3)" "entries h3 ! j = entries h2 ! j" using extD(4,5)[OF t(2)] jj(1) by auto
            have "pot h3 \<le> k" using extD(2)[OF t(2)] p2 by simp
            then obtain v4 err4 h4 where u: "transValue k j v err1 h3 = Some (v4, err4, h4)" "ext h3 h4" "wfm h4" "grown v v4"
              using transValue_ok[of k h3 j v err1] IHn t(3) j3 jj vis by auto
            show ?thesis unfolding e l Some prod.case option.case if_not_P[OF vis] t(1) u(1) Option.bind.simps
              by (rule go) (use t u x r2 ext_trans[OF x2(1) ext_trans[OF t(2) u(2)]] in auto)
          qed
        qed
      qed
    qed
  qed
qed simp

lemma trans_whole:
  assumes "wfm h"
  shows "\<exists>r out m err h'. trans_c (transFuel h s) d tm s 0 None ([], n) False h = Some (r, (out, m), err, h') \<and> ext h h' \<and> wfm h' \<and> length out + m = n"
proof -
  have "transPost s 0 ([], n) h (trans_c (transFuel h s) d tm s 0 None ([], n) False h)" by (rule trans_ok) (use assms in \<open>auto simp: transFuel_def\<close>)
  then show ?thesis by (fastforce simp: transPost_def grown_def)
qed

section \<open>All values\<close>

text \<open>What the expansion of the values leaves alone.\<close>

definition bareEntry :: "macEntry \<Rightarrow> macEntry" where
  "bareEntry e = e\<lparr>evalue := None, eerror := False\<rparr>"

definition macFrame :: "macHandle \<Rightarrow> macHandle \<Rightarrow> bool" where
  "macFrame h h' \<longleftrightarrow> suppress h' = suppress h \<and> mlevel h' = mlevel h \<and> useEnv h' = useEnv h \<and> environ h' = environ h
     \<and> (\<exists>es. map bareEntry (entries h') = map bareEntry (entries h) @ es \<and> (es \<noteq> [] \<longrightarrow> useEnv h))"

lemma macFrame_trans: "macFrame a b \<Longrightarrow> macFrame b c \<Longrightarrow> macFrame a c"
  unfolding macFrame_def by auto

lemma ext_frame: "ext h h' \<Longrightarrow> macFrame h h'"
  unfolding ext_def macFrame_def by auto

lemma frame_value: "macFrame h (setEntry i (\<lambda>e. e\<lparr>evalue := x, eerror := b\<rparr>) h)"
proof -
  have "map bareEntry ((entries h)[i := (entries h ! i)\<lparr>evalue := x, eerror := b\<rparr>]) = map bareEntry (entries h)"
  proof (cases "i < length (entries h)")
    case True
    have "bareEntry ((entries h ! i)\<lparr>evalue := x, eerror := b\<rparr>) = bareEntry (entries h ! i)" by (simp add: bareEntry_def)
    then show ?thesis using True by (simp add: map_update list_update_id[of "map bareEntry (entries h)" i, simplified nth_map[OF True]])
  qed (simp add: list_update_beyond)
  then show ?thesis by (simp add: macFrame_def)
qed

definition valued :: "macEntry \<Rightarrow> bool" where
  "valued e \<longleftrightarrow> (\<exists>x. evalue e = Some x \<and> length x \<le> MAC_SIZE)"

lemma room_value: "i < length (entries h) \<Longrightarrow> room (setEntry i (\<lambda>e. e\<lparr>evalue := x, eerror := b\<rparr>) h) = room h"
  by (simp add: room_def namesOf_update)

lemma expandLoop_ok: "dirty h \<Longrightarrow> room h < k + i \<Longrightarrow> i \<le> length (entries h) \<Longrightarrow> \<forall>m < i. valued (entries h ! m) \<Longrightarrow>
   \<exists>h'. expandLoop k i h = Some h' \<and> \<not> dirty h' \<and> (\<forall>e \<in> set (entries h'). valued e) \<and> macFrame h h'"
proof (induction k arbitrary: i h)
  case 0
  then show ?case by (simp add: room_def)
next
  case (Suc k)
  show ?case
  proof (cases "i < length (entries h)")
    case False
    then have "i = length (entries h)" using Suc.prems(3) by simp
    then show ?thesis using Suc.prems(4) by (auto simp: in_set_conv_nth macFrame_def)
  next
    case True
    have w: "wfm h" using Suc.prems(1) by (simp add: wfm_def)
    obtain out err h1 where o: "(case rawv (entries h ! i) of None \<Rightarrow> Some ([], False, h)
          | Some s \<Rightarrow> do { (_, (out, _), err, h1) \<leftarrow> trans_c (transFuel h s) True [] s 0 None ([], MAC_SIZE) False h; Some (out, err, h1) }) = Some (out, err, h1)"
      and x: "ext h h1" "length out \<le> MAC_SIZE"
    proof (cases "rawv (entries h ! i)")
      case None
      then show thesis using that[of "[]" False h] by (simp add: ext_refl)
    next
      case (Some s)
      obtain r out m err h1 where "trans_c (transFuel h s) True [] s 0 None ([], MAC_SIZE) False h = Some (r, (out, m), err, h1)" "ext h h1" "length out + m = MAC_SIZE"
        using trans_whole[OF w] by blast
      then show thesis using that[of out err h1] Some by simp
    qed
    let ?h = "setEntry i (\<lambda>e. e\<lparr>evalue := Some out, eerror := err\<rparr>) h1"
    have l: "i < length (entries h1)" "\<And>m. m < i \<Longrightarrow> entries h1 ! m = entries h ! m" using extD(4,5)[OF x(1)] True by auto
    have "\<exists>h'. expandLoop k (Suc i) ?h = Some h' \<and> \<not> dirty h' \<and> (\<forall>e \<in> set (entries h'). valued e) \<and> macFrame ?h h'"
    proof (rule Suc.IH)
      show "dirty ?h" using x(1) Suc.prems(1) by (auto simp: ext_def)
      show "room ?h < k + Suc i" using room_value[OF l(1)] extD(3)[OF x(1)] Suc.prems(2) by simp
      show "\<forall>m < Suc i. valued (entries ?h ! m)" using l x(2) Suc.prems(4) by (auto simp: less_Suc_eq valued_def)
    qed (use l in simp)
    moreover have "macFrame h ?h" by (rule macFrame_trans[OF ext_frame[OF x(1)] frame_value])
    ultimately show ?thesis using True o macFrame_trans by auto
  qed
qed

lemma expand_ok:
  assumes "wfm h"
  shows "\<exists>h'. expandMacros h = Some h' \<and> \<not> dirty h' \<and> wfm h' \<and> macFrame h h'"
proof (cases "dirty h")
  case True
  have "card (fst ` set (environ h) - namesOf (entries h)) \<le> length (environ h)"
    by (metis card_length card_mono finite_set Diff_subset le_trans length_map set_map)
  then have "room h < (length (entries h) + length (environ h) + 1) + 0" by (simp add: room_def)
  from expandLoop_ok[OF True this] obtain h' where h': "expandLoop (length (entries h) + length (environ h) + 1) 0 h = Some h'" "\<not> dirty h'"
    "\<forall>e \<in> set (entries h'). valued e" "macFrame h h'" by auto
  have "wfm h'" using h'(3) by (fastforce simp: wfm_def valued_def)
  then show ?thesis using h' True by (auto simp: expandMacros_def)
next
  case False
  have "macFrame h h" by (simp add: macFrame_def)
  then show ?thesis using False assms by (simp add: expandMacros_def)
qed

lemma expandString_ok:
  assumes "wfm h"
  shows "\<exists>ret out h'. macExpandString src maxlen h = Some (ret, out, h') \<and> length out \<le> maxlen \<and> \<bar>ret\<bar> = int (length out) \<and> wfm h' \<and> macFrame h h'"
proof -
  obtain h1 where h1: "expandMacros h = Some h1" "wfm h1" "macFrame h h1" using expand_ok[OF assms] by blast
  obtain r out m err h2 where "trans_c (transFuel h1 src) False [] src 0 None ([], maxlen) False h1 = Some (r, (out, m), err, h2)" "ext h1 h2" "wfm h2" "length out + m = maxlen"
    using trans_whole[OF h1(2)] by blast
  then show ?thesis using h1 ext_frame macFrame_trans by (fastforce simp: macExpandString_def)
qed

end
