(* ===== verification/MacScope.thy ===== *)
theory MacScope
  imports MacProofs
begin

text \<open>The list of entries is a stack of maps, one for each open scope.\<close>

section \<open>The layout of the entries\<close>

definition ent :: "nat \<Rightarrow> string \<times> string \<Rightarrow> macEntry" where
  "ent l d = \<lparr>ename = fst d, rawv = Some (snd d), evalue = None, eerror = False, visited = False, special = False, elevel = l\<rparr>"

definition marker :: "nat \<Rightarrow> macEntry" where
  "marker l = \<lparr>ename = ''<scope>'', rawv = None, evalue = None, eerror = False, visited = False, special = True, elevel = l\<rparr>"

fun flat :: "(string \<times> string) list list \<Rightarrow> macEntry list" where
  "flat [] = []"
| "flat (s # ss) = (if ss = [] then [] else flat ss @ [marker (length ss)]) @ map (ent (length ss)) s"

definition scopes :: "(string \<times> string) list list \<Rightarrow> macHandle \<Rightarrow> bool" where
  "scopes segs h \<longleftrightarrow> segs \<noteq> [] \<and> map bareEntry (entries h) = flat segs \<and> mlevel h + 1 = length segs \<and> \<not> useEnv h \<and> (\<forall>s \<in> set segs. distinct (map fst s))"

lemma ent_simps [simp]: "special (ent l d) = False" "ename (ent l d) = fst d" "rawv (ent l d) = Some (snd d)" "elevel (ent l d) = l" "visited (ent l d) = False"
  "special (marker l) = True" "ename (marker l) = ''<scope>''" "bareEntry (ent l d) = ent l d" "bareEntry (marker l) = marker l"
  by (simp_all add: ent_def marker_def bareEntry_def)

lemma bareEntry_simps [simp]: "special (bareEntry e) = special e" "ename (bareEntry e) = ename e" "rawv (bareEntry e) = rawv e" "elevel (bareEntry e) = elevel e" "visited (bareEntry e) = visited e"
  by (simp_all add: bareEntry_def)

lemma search_bare: "searchBack n sp (map bareEntry es) (length es) = searchBack n sp es (length es)"
  by (rule searchBack_cong) simp

lemma search_append: "k \<le> length ys \<Longrightarrow> searchBack n sp (xs @ ys) (length xs + k)
    = (case searchBack n sp ys k of Some i \<Rightarrow> Some (length xs + i) | None \<Rightarrow> searchBack n sp xs (length xs))"
proof (induction k)
  case 0
  show ?case by (simp, rule searchBack_cong) (simp add: nth_append)
qed (auto simp: nth_append)

lemma search_last: "searchBack n sp (xs @ ys) (length (xs @ ys))
    = (case searchBack n sp ys (length ys) of Some i \<Rightarrow> Some (length xs + i) | None \<Rightarrow> searchBack n sp xs (length xs))"
  using search_append[of "length ys" ys n sp xs] by simp

lemma search_seg: "searchBack n False (map (ent l) s) (length s) = None \<longleftrightarrow> n \<notin> fst ` set s"
  "searchBack n False (map (ent l) s) (length s) = Some i \<Longrightarrow> i < length s \<and> fst (s ! i) = n"
  "searchBack n True (map (ent l) s) (length s) = None"
proof -
  show "searchBack n False (map (ent l) s) (length s) = None \<longleftrightarrow> n \<notin> fst ` set s" by (force simp: searchBack_None in_set_conv_nth)
  show "searchBack n False (map (ent l) s) (length s) = Some i \<Longrightarrow> i < length s \<and> fst (s ! i) = n" using searchBack_Some by fastforce
  show "searchBack n True (map (ent l) s) (length s) = None" by (simp add: searchBack_None)
qed

lemma map_of_nth: "distinct (map fst s) \<Longrightarrow> i < length s \<Longrightarrow> map_of s (fst (s ! i)) = Some (snd (s ! i))"
  by (metis distinct_map map_of_eq_Some_iff nth_mem prod.collapse)

text \<open>The value a name has: that of the innermost scope that defines it.\<close>

fun stackFind :: "string \<Rightarrow> (string \<rightharpoonup> string) list \<Rightarrow> string option" where
  "stackFind n [] = None"
| "stackFind n (m # ms) = (case m n of Some v \<Rightarrow> Some v | None \<Rightarrow> stackFind n ms)"

lemma search_flat:
  assumes "\<forall>s \<in> set segs. distinct (map fst s)"
  shows "searchBack n False (flat segs) (length (flat segs)) = None \<Longrightarrow> stackFind n (map map_of segs) = None"
    "searchBack n False (flat segs) (length (flat segs)) = Some i \<Longrightarrow> i < length (flat segs) \<and> stackFind n (map map_of segs) = rawv (flat segs ! i) \<and> rawv (flat segs ! i) \<noteq> None
       \<and> \<not> visited (flat segs ! i)"
proof -
  have "case searchBack n False (flat segs) (length (flat segs)) of None \<Rightarrow> stackFind n (map map_of segs) = None
    | Some i \<Rightarrow> i < length (flat segs) \<and> stackFind n (map map_of segs) = rawv (flat segs ! i) \<and> rawv (flat segs ! i) \<noteq> None \<and> \<not> visited (flat segs ! i)"
    using assms
  proof (induction segs)
    case (Cons s ss)
    let ?p = "if ss = [] then [] else flat ss @ [marker (length ss)]" and ?t = "map (ent (length ss)) s"
    have p: "searchBack n False ?p (length ?p) = searchBack n False (flat ss) (length (flat ss))"
      by (simp add: search_last del: length_append)
    show ?case
    proof (cases "searchBack n False ?t (length s)")
      case None
      then have "map_of s n = None" using search_seg(1) by (metis map_of_eq_None_iff)
      then show ?thesis using Cons p None by (auto simp: search_last nth_append simp del: length_append split: option.splits dest: searchBack_Some, simp)
    next
      case (Some i)
      then have i: "i < length s" "fst (s ! i) = n" using search_seg(2) by blast+
      then have "map_of s n = Some (snd (s ! i))" using map_of_nth[of s i] Cons.prems by simp
      then show ?thesis using Some i by (simp add: search_last nth_append del: length_append, simp)
    qed
  qed simp
  then show "searchBack n False (flat segs) (length (flat segs)) = None \<Longrightarrow> stackFind n (map map_of segs) = None"
    "searchBack n False (flat segs) (length (flat segs)) = Some i \<Longrightarrow> i < length (flat segs) \<and> stackFind n (map map_of segs) = rawv (flat segs ! i) \<and> rawv (flat segs ! i) \<noteq> None
       \<and> \<not> visited (flat segs ! i)"
    by simp_all
qed

section \<open>The operations\<close>

text \<open>What the operations do to the stack, innermost scope first.\<close>

fun stackPut :: "string \<Rightarrow> string option \<Rightarrow> (string \<rightharpoonup> string) list \<Rightarrow> (string \<rightharpoonup> string) list" where
  "stackPut n (Some v) (m # ms) = m(n \<mapsto> v) # ms"
| "stackPut n (Some v) [] = []"
| "stackPut n None ms = map (\<lambda>m. m(n := None)) ms"

text \<open>The operations of a user, with the state of the handle after them.\<close>

datatype macop = MPut string "string option" | MPush | MPop | MExpand string nat | MGet string nat | MSuppress bool

fun macExec :: "macop \<Rightarrow> macHandle \<Rightarrow> macHandle option" where
  "macExec (MPut n v) h = map_option snd (macPutValue n v h)"
| "macExec MPush h = Some (snd (macPushScope h))"
| "macExec MPop h = Some (snd (macPopScope h))"
| "macExec (MExpand s k) h = map_option (\<lambda>r. snd (snd r)) (macExpandString s k h)"
| "macExec (MGet n k) h = map_option (\<lambda>r. snd (snd r)) (macGetValue n k h)"
| "macExec (MSuppress b) h = Some (macSuppressWarning b h)"

fun stackExec :: "macop \<Rightarrow> (string \<rightharpoonup> string) list \<Rightarrow> (string \<rightharpoonup> string) list" where
  "stackExec (MPut n v) ms = stackPut n v ms"
| "stackExec MPush ms = Map.empty # ms"
| "stackExec MPop ms = (case ms of m # m' # rest \<Rightarrow> m' # rest | _ \<Rightarrow> ms)"
| "stackExec _ ms = ms"

fun macRun :: "macop list \<Rightarrow> macHandle \<Rightarrow> macHandle option" where
  "macRun [] h = Some h"
| "macRun (op # ops) h = do { h1 \<leftarrow> macExec op h; macRun ops h1 }"

definition stackRep :: "(string \<rightharpoonup> string) list \<Rightarrow> macHandle \<Rightarrow> bool" where
  "stackRep ms h \<longleftrightarrow> wfm h \<and> (\<exists>segs. scopes segs h \<and> ms = map map_of segs)"

lemma lookup_plain: "\<not> useEnv h \<Longrightarrow> macLookup n sp h = (searchBack n sp (entries h) (length (entries h)), h)"
  by (simp add: macLookup_def split: option.splits)

lemma scopes_search:
  assumes "scopes segs h"
  shows "searchBack n sp (entries h) (length (entries h)) = searchBack n sp (flat segs) (length (flat segs))" "length (entries h) = length (flat segs)"
    "i < length (entries h) \<Longrightarrow> bareEntry (entries h ! i) = flat segs ! i"
proof -
  have m: "map bareEntry (entries h) = flat segs" using assms by (simp add: scopes_def)
  show l: "length (entries h) = length (flat segs)" by (metis m length_map)
  show "searchBack n sp (entries h) (length (entries h)) = searchBack n sp (flat segs) (length (flat segs))" by (metis m l search_bare)
  show "i < length (entries h) \<Longrightarrow> bareEntry (entries h ! i) = flat segs ! i" by (metis m nth_map)
qed

lemma scopes_same: "scopes segs h \<Longrightarrow> macFrame h h' \<Longrightarrow> scopes segs h'"
  unfolding scopes_def macFrame_def by auto

text \<open>A new definition in the innermost scope, and a changed one.\<close>

lemma scopes_new:
  assumes "scopes (s # ss) h" "n \<notin> fst ` set s"
  shows "scopes ((s @ [(n, v)]) # ss) (macRawval (length (entries h)) v (macCreate n False h))"
  using assms by (auto simp: scopes_def bareEntry_def ent_def)

lemma scopes_change:
  assumes c: "scopes (s # ss) h" and i: "k < length s" "fst (s ! k) = n" "i + length s = length (entries h) + k"
  shows "scopes (s[k := (n, v)] # ss) (macRawval i v h)"
proof -
  let ?p = "if ss = [] then [] else flat ss @ [marker (length ss)]"
  have m: "map bareEntry (entries h) = ?p @ map (ent (length ss)) s" using c by (simp add: scopes_def)
  have l: "length (entries h) = length ?p + length s" using arg_cong[OF m, of length] by simp
  then have ie: "i = length ?p + k" using i(3) by simp
  have b: "bareEntry (entries h ! i) = ent (length ss) (s ! k)" using nth_map[of i "entries h" bareEntry] m l ie i(1) by (simp add: nth_append)
  have e: "bareEntry ((entries h ! i)\<lparr>rawv := Some v\<rparr>) = ent (length ss) (n, v)"
  proof -
    have "bareEntry ((entries h ! i)\<lparr>rawv := Some v\<rparr>) = (bareEntry (entries h ! i))\<lparr>rawv := Some v\<rparr>" by (simp add: bareEntry_def)
    then show ?thesis using b i(2) by (simp add: ent_def)
  qed
  have "map bareEntry (entries (macRawval i v h)) = (?p @ map (ent (length ss)) s)[i := ent (length ss) (n, v)]" using e m by (simp add: map_update)
  also have "\<dots> = ?p @ map (ent (length ss)) (s[k := (n, v)])" unfolding ie by (simp add: list_update_append map_update)
  finally have "map bareEntry (entries (macRawval i v h)) = flat (s[k := (n, v)] # ss)" by simp
  moreover have "map fst (s[k := (n, v)]) = map fst s" using i(1,2) by (metis fst_conv list_update_id map_update nth_map)
  ultimately show ?thesis using c by (simp add: scopes_def)
qed

lemma flat_levels: "e \<in> set (flat segs) \<Longrightarrow> elevel e < length segs"
proof (induction segs)
  case (Cons s ss)
  then show ?case by (auto simp: marker_def less_Suc_eq split: if_splits)
qed simp

lemma put_some:
  assumes r: "stackRep ms h"
  shows "\<exists>h'. macPutValue n (Some v) h = Some (int (length v), h') \<and> stackRep (stackPut n (Some v) ms) h'"
proof -
  obtain segs where c: "scopes segs h" "ms = map map_of segs" using r by (auto simp: stackRep_def)
  then obtain s ss where s: "segs = s # ss" by (cases segs) (auto simp: scopes_def)
  have e: "\<not> useEnv h" "mlevel h = length ss" using c(1) s by (simp_all add: scopes_def)
  let ?p = "if ss = [] then [] else flat ss @ [marker (length ss)]" and ?t = "map (ent (length ss)) s"
  let ?f = "searchBack n False (entries h) (length (entries h))"
  have f: "?f = (case searchBack n False ?t (length s) of Some i \<Rightarrow> Some (length ?p + i) | None \<Rightarrow> searchBack n False ?p (length ?p))"
    using scopes_search(1)[OF c(1), of n False] s search_last[of n False ?p ?t] by simp
  have l: "length (entries h) = length ?p + length s" using scopes_search(2)[OF c(1)] s by simp
  have new: "\<exists>h'. macPutValue n (Some v) h = Some (int (length v), h') \<and> stackRep (stackPut n (Some v) ms) h'"
    if "n \<notin> fst ` set s" "\<forall>i. ?f = Some i \<longrightarrow> elevel (entries h ! i) < mlevel h"
  proof -
    let ?h = "macRawval (length (entries h)) v (macCreate n False h)"
    have "macPutValue n (Some v) h = Some (int (length v), ?h)" using that(2) lookup_plain[OF e(1)] by (auto simp: macPutValue_def split: option.splits)
    moreover have "map_of (s @ [(n, v)]) = (map_of s)(n \<mapsto> v)"
    proof
      have "map_of s n = None" using that(1) by (simp add: map_of_eq_None_iff)
      then show "map_of (s @ [(n, v)]) x = ((map_of s)(n \<mapsto> v)) x" for x by (auto simp: map_add_def split: option.splits)
    qed
    moreover have "scopes ((s @ [(n, v)]) # ss) ?h" using scopes_new[of s ss h n v] c(1) s that(1) by simp
    ultimately show ?thesis using c(2) s unfolding stackRep_def by (auto simp: wfm_def intro!: exI[of _ "(s @ [(n, v)]) # ss"])
  qed
  show ?thesis
  proof (cases "searchBack n False ?t (length s)")
    case None
    have n: "n \<notin> fst ` set s" using None search_seg(1) by blast
    have "elevel (entries h ! i) < mlevel h" if "?f = Some i" for i
    proof -
      have i: "searchBack n False ?p (length ?p) = Some i" using f None that by simp
      then have i2: "i < length ?p" "\<not> special (?p ! i)" using searchBack_Some by blast+
      then have "ss \<noteq> []" "i < length (flat ss)" by (auto simp: nth_append less_Suc_eq split: if_splits)
      moreover from this have "bareEntry (entries h ! i) = flat ss ! i" using scopes_search(3)[OF c(1), of i] s l by (simp add: nth_append)
      ultimately have "elevel (entries h ! i) < length ss" using flat_levels[of "flat ss ! i" ss] by (metis bareEntry_simps(4) nth_mem)
      then show ?thesis using e by simp
    qed
    then show ?thesis using new[OF n] by blast
  next
    case (Some k)
    then have k: "k < length s" "fst (s ! k) = n" using search_seg(2) by blast+
    have fs: "?f = Some (length ?p + k)" using f Some by simp
    have "bareEntry (entries h ! (length ?p + k)) = ?t ! k" using scopes_search(3)[OF c(1), of "length ?p + k"] s l k(1) by (simp add: nth_append)
    then have lv: "elevel (entries h ! (length ?p + k)) = mlevel h" using e(2) k(1) by (metis bareEntry_simps(4) ent_simps(4) nth_map)
    let ?h = "macRawval (length ?p + k) v h"
    have "macPutValue n (Some v) h = Some (int (length v), ?h)" using fs lv lookup_plain[OF e(1)] by (simp add: macPutValue_def)
    moreover have "map_of (s[k := (n, v)]) = (map_of s)(n \<mapsto> v)"
    proof -
      have d: "distinct (map fst s)" using c(1) s by (simp add: scopes_def)
      show ?thesis using k d
      proof (induction s arbitrary: k)
        case (Cons a s)
        then show ?case by (cases k) (auto simp: fun_eq_iff, metis image_eqI nth_mem)
      qed simp
    qed
    moreover have "scopes (s[k := (n, v)] # ss) ?h" by (rule scopes_change[OF c(1)[unfolded s] k]) (simp add: l)
    ultimately show ?thesis using c(2) s unfolding stackRep_def by (auto simp: wfm_def intro!: exI[of _ "s[k := (n, v)] # ss"])
  qed
qed

lemma filter_delete: "i < length es \<Longrightarrow> \<not> P (es ! i) \<Longrightarrow> filter P (take i es @ drop (Suc i) es) = filter P es"
  using arg_cong[OF id_take_nth_drop[of i es], of "filter P"] by simp

lemma deleteAll_ok: "\<not> useEnv h \<Longrightarrow> \<exists>h'. deleteAll n h = Some h' \<and> entries h' = filter (\<lambda>e. special e \<or> ename e \<noteq> n) (entries h)
     \<and> mlevel h' = mlevel h \<and> useEnv h' = useEnv h \<and> (dirty h' \<or> h' = h)"
proof (induction "length (entries h)" arbitrary: h rule: less_induct)
  case less
  note l = lookup_plain[OF less.prems, of n False]
  show ?case
  proof (cases "searchBack n False (entries h) (length (entries h))")
    case None
    then have "\<forall>e \<in> set (entries h). special e \<or> ename e \<noteq> n" using searchBack_None by (metis in_set_conv_nth)
    then show ?thesis using None l by (subst deleteAll.simps) (simp add: filter_id_conv)
  next
    case (Some i)
    then have i: "i < length (entries h)" "\<not> special (entries h ! i)" "ename (entries h ! i) = n" using searchBack_Some by blast+
    let ?h = "macDelete i h"
    have d: "entries ?h = take i (entries h) @ drop (Suc i) (entries h)" "mlevel ?h = mlevel h" "useEnv ?h = useEnv h" "dirty ?h" by (simp_all add: macDelete_def)
    have "length (entries ?h) < length (entries h)" using d(1) i(1) by simp
    from less.hyps[OF this] d less.prems obtain h' where "deleteAll n ?h = Some h'" "entries h' = filter (\<lambda>e. special e \<or> ename e \<noteq> n) (entries ?h)"
      "mlevel h' = mlevel h" "useEnv h' = useEnv h" "dirty h'" by auto
    then show ?thesis using Some l d(1) filter_delete[of i "entries h" "\<lambda>e. special e \<or> ename e \<noteq> n"] i by (subst deleteAll.simps) simp
  qed
qed

lemma flat_filter: "filter (\<lambda>e. special e \<or> ename e \<noteq> n) (flat segs) = flat (map (filter (\<lambda>d. fst d \<noteq> n)) segs)"
proof (induction segs)
  case (Cons s ss)
  have "filter (\<lambda>e. special e \<or> ename e \<noteq> n) (map (ent l) s) = map (ent l) (filter (\<lambda>d. fst d \<noteq> n) s)" for l by (simp add: filter_map comp_def)
  then show ?case using Cons by simp
qed simp

lemma map_of_dropKey: "map_of (filter (\<lambda>d. fst d \<noteq> n) s) = (map_of s)(n := None)"
  by (induction s) (auto simp: fun_eq_iff)

lemma put_none:
  assumes r: "stackRep ms h"
  shows "\<exists>h'. macPutValue n None h = Some (0, h') \<and> stackRep (stackPut n None ms) h'"
proof -
  obtain segs where c: "scopes segs h" "ms = map map_of segs" "wfm h" using r by (auto simp: stackRep_def)
  have "\<not> useEnv h" using c(1) by (simp add: scopes_def)
  then obtain h' where h': "deleteAll n h = Some h'" "entries h' = filter (\<lambda>e. special e \<or> ename e \<noteq> n) (entries h)" "mlevel h' = mlevel h" "useEnv h' = useEnv h"
    "dirty h' \<or> h' = h" using deleteAll_ok by blast
  let ?segs = "map (filter (\<lambda>d. fst d \<noteq> n)) segs"
  have "map bareEntry (entries h') = filter (\<lambda>e. special e \<or> ename e \<noteq> n) (map bareEntry (entries h))" using h'(2) by (simp add: filter_map comp_def)
  then have "map bareEntry (entries h') = flat ?segs" using c(1) flat_filter by (simp add: scopes_def)
  moreover have "distinct (map fst (filter (\<lambda>d. fst d \<noteq> n) s))" if "s \<in> set segs" for s
    using c(1) that by (simp add: scopes_def distinct_map_filter)
  ultimately have "scopes ?segs h'" using c(1) h'(3,4) by (auto simp: scopes_def)
  moreover have "wfm h'" using h'(5) c(3) by (auto simp: wfm_def)
  moreover have "stackPut n None ms = map map_of ?segs" using c(2) by (simp add: comp_def map_of_dropKey)
  ultimately show ?thesis using h'(1) by (auto simp: macPutValue_def stackRep_def)
qed

lemma push_rep:
  assumes "stackRep ms h"
  shows "stackRep (Map.empty # ms) (snd (macPushScope h))"
proof -
  obtain segs where c: "scopes segs h" "ms = map map_of segs" "wfm h" using assms by (auto simp: stackRep_def)
  have "scopes ([] # segs) (snd (macPushScope h))" using c(1) by (auto simp: scopes_def macPushScope_def bareEntry_def marker_def)
  moreover have "wfm (snd (macPushScope h))" using c(3) by (auto simp: wfm_def macPushScope_def)
  ultimately show ?thesis using c(2) unfolding stackRep_def by (intro conjI exI[of _ "[] # segs"]) auto
qed

lemma pop_rep:
  assumes "stackRep ms h"
  shows "stackRep (case ms of m # m' # rest \<Rightarrow> m' # rest | _ \<Rightarrow> ms) (snd (macPopScope h))"
proof -
  obtain segs where c: "scopes segs h" "ms = map map_of segs" "wfm h" using assms by (auto simp: stackRep_def)
  then obtain s ss where s: "segs = s # ss" by (cases segs) (auto simp: scopes_def)
  have l: "mlevel h = length ss" using c(1) s by (simp add: scopes_def)
  show ?thesis
  proof (cases ss)
    case Nil
    then show ?thesis using assms l c(2) s by (simp add: macPopScope_def)
  next
    case (Cons t ts)
    have "searchBack ''<scope>'' True (flat segs) (length (flat segs)) = Some (length (flat ss))"
    proof -
      let ?a = "flat ss @ [marker (length ss)]" and ?b = "map (ent (length ss)) s"
      have "flat segs = ?a @ ?b" using Cons s by simp
      moreover have "searchBack ''<scope>'' True (?a @ ?b) (length (?a @ ?b)) = searchBack ''<scope>'' True ?a (length ?a)"
        unfolding search_last using search_seg(3) by simp
      moreover have "searchBack ''<scope>'' True ?a (length ?a) = Some (length (flat ss))" by simp
      ultimately show ?thesis by simp
    qed
    then have f: "searchBack ''<scope>'' True (entries h) (length (entries h)) = Some (length (flat ss))" using scopes_search(1)[OF c(1)] by simp
    have m: "map bareEntry (take (length (flat ss)) (entries h)) = flat ss" using c(1) Cons unfolding s by (simp add: scopes_def flip: take_map)
    have "scopes ss (snd (macPopScope h))" using c(1) f m l Cons s by (simp add: macPopScope_def scopes_def)
    moreover have "wfm (snd (macPopScope h))" using f l Cons by (simp add: macPopScope_def wfm_def)
    ultimately show ?thesis using c(2) s Cons unfolding stackRep_def by (intro conjI exI[of _ ss]) auto
  qed
qed

lemma frame_rep: "stackRep ms h \<Longrightarrow> macFrame h h' \<Longrightarrow> wfm h' \<Longrightarrow> stackRep ms h'"
  unfolding stackRep_def using scopes_same by blast

lemma get_ok:
  assumes "wfm h"
  shows "\<exists>ret out h'. macGetValue n k h = Some (ret, out, h') \<and> macFrame h h' \<and> wfm h'"
proof -
  obtain f h1 where l: "macLookup n False h = (f, h1)" by (cases "macLookup n False h")
  have h1: "macFrame h h1" "wfm h1" using ext_frame[OF lookup_ext(1)[OF l]] lookup_ext(2)[OF l assms] by blast+
  show ?thesis
  proof (cases "k = 0 \<or> f = None")
    case True
    then show ?thesis using l h1 by (cases f) (auto simp: macGetValue_def)
  next
    case False
    then obtain i where i: "f = Some i" by blast
    obtain h2 where h2: "expandMacros h1 = Some h2" "\<not> dirty h2" "wfm h2" "macFrame h1 h2" using expand_ok[OF h1(2)] by blast
    have j: "i < length (entries h1)" "\<not> special (entries h1 ! i)" using lookup_ext(4)[OF l i] by blast+
    obtain es where es: "map bareEntry (entries h2) = map bareEntry (entries h1) @ es" using h2(4) by (auto simp: macFrame_def)
    have i2: "i < length (entries h2)" using arg_cong[OF es, of length] j(1) by simp
    have "bareEntry (entries h2 ! i) = bareEntry (entries h1 ! i)" using arg_cong[OF es, of "\<lambda>xs. xs ! i"] j(1) i2 by (simp add: nth_append)
    then have "\<not> special (entries h2 ! i)" using j(2) by (metis bareEntry_simps(1))
    then obtain x where "evalue (entries h2 ! i) = Some x" using h2(2,3) i2 by (fastforce simp: wfm_def)
    then show ?thesis using False i l h2 macFrame_trans[OF h1(1) h2(4)] by (auto simp: macGetValue_def Let_def)
  qed
qed

lemma exec_rep:
  assumes "stackRep ms h"
  shows "\<exists>h'. macExec op h = Some h' \<and> stackRep (stackExec op ms) h'"
proof -
  have w: "wfm h" using assms by (simp add: stackRep_def)
  show ?thesis
  proof (cases op)
    case (MPut n v)
    then show ?thesis using put_some[OF assms, of n] put_none[OF assms, of n] by (cases v) (fastforce)+
  next
    case (MExpand src k)
    then show ?thesis using expandString_ok[OF w, of src k] frame_rep[OF assms] by fastforce
  next
    case (MGet n k)
    then show ?thesis using get_ok[OF w, of n k] frame_rep[OF assms] by fastforce
  next
    case (MSuppress b)
    have "scopes segs (macSuppressWarning b h) = scopes segs h" for segs by (simp add: scopes_def macSuppressWarning_def)
    then show ?thesis using MSuppress assms by (simp add: stackRep_def macSuppressWarning_def suppress_wfm(1))
  qed (use push_rep[OF assms] pop_rep[OF assms] in simp_all)
qed

lemma run_rep: "stackRep ms h \<Longrightarrow> \<exists>h'. macRun ops h = Some h' \<and> stackRep (foldl (\<lambda>ms op. stackExec op ms) ms ops) h'"
proof (induction ops arbitrary: ms h)
  case (Cons op ops)
  obtain h1 where "macExec op h = Some h1" "stackRep (stackExec op ms) h1" using exec_rep[OF Cons.prems] by blast
  then show ?case using Cons.IH by fastforce
qed simp

text \<open>The value of a name, as a reference finds it.\<close>

definition macBinding :: "string \<Rightarrow> macHandle \<Rightarrow> string option" where
  "macBinding n h = (case macLookup n False h of (None, _) \<Rightarrow> None | (Some i, h1) \<Rightarrow> rawv (entries h1 ! i))"

lemma rep_find:
  assumes "stackRep ms h"
  shows "macBinding n h = stackFind n ms" "length ms = mlevel h + 1"
    "macLookup n False h = (None, h) \<and> stackFind n ms = None
     \<or> (\<exists>j v. macLookup n False h = (Some j, h) \<and> stackFind n ms = Some v \<and> rawv (entries h ! j) = Some v \<and> \<not> visited (entries h ! j) \<and> j < length (entries h))"
proof -
  obtain segs where c: "scopes segs h" "ms = map map_of segs" using assms by (auto simp: stackRep_def)
  have e: "\<not> useEnv h" "\<forall>s \<in> set segs. distinct (map fst s)" "length segs = mlevel h + 1" using c(1) by (simp_all add: scopes_def)
  note f = search_flat[OF e(2), of n] and q = scopes_search[OF c(1)]
  show l: "length ms = mlevel h + 1" using c(2) e(3) by simp
  show t: "macLookup n False h = (None, h) \<and> stackFind n ms = None
     \<or> (\<exists>j v. macLookup n False h = (Some j, h) \<and> stackFind n ms = Some v \<and> rawv (entries h ! j) = Some v \<and> \<not> visited (entries h ! j) \<and> j < length (entries h))"
  proof (cases "searchBack n False (flat segs) (length (flat segs))")
    case None
    then show ?thesis using f(1) q(1) lookup_plain[OF e(1)] c(2) by simp
  next
    case (Some i)
    then have i: "i < length (flat segs)" "stackFind n ms = rawv (flat segs ! i)" "rawv (flat segs ! i) \<noteq> None" "\<not> visited (flat segs ! i)"
      using f(2) c(2) by blast+
    have "bareEntry (entries h ! i) = flat segs ! i" using q(3)[of i] q(2) i(1) by simp
    then have "rawv (entries h ! i) = rawv (flat segs ! i)" "visited (entries h ! i) = visited (flat segs ! i)" by (metis bareEntry_simps(3), metis bareEntry_simps(5))
    then show ?thesis using Some i q(1,2) lookup_plain[OF e(1)] by auto
  qed
  then show "macBinding n h = stackFind n ms" by (auto simp: macBinding_def)
qed

lemma fresh_rep: "macCreateHandle env None = Some h \<Longrightarrow> stackRep [Map.empty] h"
  unfolding stackRep_def by (intro conjI exI[of _ "[[]]"]) (auto simp: macCreateHandle_def scopes_def wfm_def)

end
