(* ===== verification/MacTemplate.thy ===== *)
theory MacTemplate
  imports MacScope
begin

text \<open>What the expansion gives, against a reference evaluation of texts with references to macros.\<close>

section \<open>Texts with references\<close>

datatype piece = Txt string | Ref string "string option"

definition refText :: "string \<Rightarrow> string" where
  "refText n = ''$('' @ n @ '')''"

definition refRest :: "string option \<Rightarrow> string" where
  "refRest d = (case d of None \<Rightarrow> '')'' | Some x \<Rightarrow> ''='' @ x @ '')'')"

fun printT :: "piece list \<Rightarrow> string" where
  "printT [] = []"
| "printT (Txt w # ps) = w @ printT ps"
| "printT (Ref n d # ps) = ''$('' @ n @ refRest d @ printT ps"

text \<open>Texts without characters that mean something to the expansion, and names and defaults that can stand in a reference.\<close>

definition plainText :: "string \<Rightarrow> bool" where
  "plainText w \<longleftrightarrow> set w \<inter> {NUL, CHR ''$'', CHR 0x22, CHR 0x27, CHR 0x5C} = {}"

definition plainName :: "string \<Rightarrow> bool" where
  "plainName n \<longleftrightarrow> plainText n \<and> CHR ''='' \<notin> set n \<and> CHR '')'' \<notin> set n \<and> length n \<le> MAC_SIZE"

definition plainDefault :: "string option \<Rightarrow> bool" where
  "plainDefault d \<longleftrightarrow> (case d of None \<Rightarrow> True | Some x \<Rightarrow> plainText x \<and> CHR '')'' \<notin> set x)"

fun plainPiece :: "piece \<Rightarrow> bool" where
  "plainPiece (Txt w) = plainText w"
| "plainPiece (Ref n d) = (plainName n \<and> plainDefault d)"

text \<open>Put values for the references; the flag tells that one of them is an error.\<close>

fun sub :: "(string \<Rightarrow> string option \<Rightarrow> string \<times> bool) \<Rightarrow> piece list \<Rightarrow> string \<times> bool" where
  "sub F [] = ([], False)"
| "sub F (Txt w # ps) = (w @ fst (sub F ps), snd (sub F ps))"
| "sub F (Ref n d # ps) = (fst (F n d) @ fst (sub F ps), snd (F n d) \<or> snd (sub F ps))"

text \<open>A reference without a value: its default, or else the reference itself, which is an error when warnings are wanted.\<close>

definition noValue :: "bool \<Rightarrow> string \<Rightarrow> string option \<Rightarrow> string \<times> bool" where
  "noValue warn n d = (case d of None \<Rightarrow> (refText n, warn) | Some x \<Rightarrow> (x, False))"

text \<open>A reference to a macro it is part of: the reference without its default, and then the rest of the reference as text.\<close>

definition recursive :: "string \<Rightarrow> string option \<Rightarrow> string" where
  "recursive n d = refText n @ (case d of None \<Rightarrow> [] | Some x \<Rightarrow> x @ '')'')"

lemma fewer_names: "map_of ms n = Some ps \<Longrightarrow> n \<notin> set V \<Longrightarrow> length (filter (\<lambda>d. fst d \<noteq> n \<and> fst d \<notin> set V) ms) < length (filter (\<lambda>d. fst d \<notin> set V) ms)"
proof (induction ms)
  case (Cons a ms)
  have "length (filter (\<lambda>d. fst d \<noteq> n \<and> fst d \<notin> set V) ms) \<le> length (filter (\<lambda>d. fst d \<notin> set V) ms)" by (induction ms) auto
  then show ?case using Cons by (cases a) (auto split: if_splits)
qed simp

text \<open>The value of a reference inside the values of the macros in \<open>V\<close>.\<close>

function refVal :: "bool \<Rightarrow> (string \<times> piece list) list \<Rightarrow> string list \<Rightarrow> string \<Rightarrow> string option \<Rightarrow> string \<times> bool" where
  "refVal warn ms V n d = (case map_of ms n of
       None \<Rightarrow> noValue warn n d
     | Some ps \<Rightarrow> if n \<in> set V then (recursive n d, True) else sub (refVal warn ms (n # V)) ps)"
  by pat_completeness auto

termination
  by (relation "measure (\<lambda>(warn, ms, V, n, d). length (filter (\<lambda>d. fst d \<notin> set V) ms))") (auto simp: fewer_names)

declare refVal.simps [simp del]

text \<open>The value of a macro, and of a reference in a text, which takes the value as it was computed, at most 256 characters and without its error.\<close>

definition valueOf :: "bool \<Rightarrow> (string \<times> piece list) list \<Rightarrow> piece list \<Rightarrow> string \<times> bool" where
  "valueOf warn ms ps = sub (refVal warn ms []) ps"

definition topVal :: "bool \<Rightarrow> (string \<times> piece list) list \<Rightarrow> string \<Rightarrow> string option \<Rightarrow> string \<times> bool" where
  "topVal warn ms n d = (case map_of ms n of None \<Rightarrow> noValue warn n d | Some ps \<Rightarrow> (take MAC_SIZE (fst (valueOf warn ms ps)), False))"

section \<open>Writing\<close>

lemma emit_append: "emitChars b (emitChars a v) = emitChars (a @ b) v"
  by (simp add: emitChars_def)

lemma emit_nil [simp]: "emitChars [] v = v"
  by (simp add: emitChars_def)

lemma emitRef_eq: "emitRef n v = emitChars (refText n) v"
  by (simp add: emitRef_def emit_append refText_def)

lemma at_mid [simp]: "at_c (pre @ c # post) (length pre) = Some c"
  by (simp add: at_c_def)

lemma at_end [simp]: "at_c s (length s) = Some NUL"
  by (simp add: at_c_def)

lemma trans_char:
  assumes "plainText [c]" "c \<notin> set tm"
  shows "trans_c (Suc k) d tm (pre @ c # post) (length pre) None v err h = trans_c k d tm (pre @ c # post) (Suc (length pre)) None (emitChars [c] v) err h"
proof -
  have p: "c \<noteq> NUL" "c \<noteq> CHR ''$''" "\<not> isQuote c" "c \<noteq> CHR 0x5C" using assms(1) by (auto simp: plainText_def isQuote_def)
  obtain n where n: "at_c (pre @ c # post) (Suc (length pre)) = Some n" using at_c_next[OF at_mid p(1)] by blast
  have q: "nextQuote None c = None" using p(3) by (simp add: nextQuote_def)
  have "trans_c (Suc k) d tm (pre @ c # post) (length pre) None v err h =
     (if c = CHR 0x5C \<and> n \<noteq> NUL
      then (let v1 = (if d then v else emitChars [c] v) in
            if snd v1 > 0 then trans_c k d tm (pre @ c # post) (Suc (Suc (length pre))) (nextQuote None c) (emitChars [n] v1) err h
            else trans_c k d tm (pre @ c # post) (Suc (length pre)) (nextQuote None c) v1 err h)
      else trans_c k d tm (pre @ c # post) (Suc (length pre)) (nextQuote None c) (emitChars [c] v) err h)"
    by (rule trans_plain[OF at_mid p(1) assms(2) _ n]) (use p q in auto)
  then show ?thesis using p(4) q by simp
qed

lemma trans_text:
  "trans_c k d tm (pre @ w @ post) (length pre) None v err h = Some res \<Longrightarrow> plainText w \<Longrightarrow> set w \<inter> set tm = {} \<Longrightarrow>
   \<exists>k'. trans_c k' d tm (pre @ w @ post) (length (pre @ w)) None (emitChars w v) err h = Some res"
proof (induction w arbitrary: pre k v)
  case (Cons c w)
  obtain k0 where k: "k = Suc k0" using Cons.prems(1) by (cases k) auto
  have "plainText [c]" "c \<notin> set tm" "plainText w" using Cons.prems by (auto simp: plainText_def)
  then have "trans_c k0 d tm ((pre @ [c]) @ w @ post) (length (pre @ [c])) None (emitChars [c] v) err h = Some res"
    using Cons.prems(1) trans_char[of c tm k0 d pre "w @ post" v err h] k by simp
  from Cons.IH[OF this \<open>plainText w\<close>] Cons.prems(3) show ?case by (simp add: emit_append)
qed auto

lemma trans_upto:
  assumes "trans_c k d tm (pre @ w @ c # post) (length pre) None v err h = Some res" "plainText w" "set w \<inter> set tm = {}" "c \<in> set tm" "c \<noteq> NUL"
  shows "res = (length pre + length w, emitChars w v, err, h)"
proof -
  obtain k' where k: "trans_c k' d tm (pre @ w @ c # post) (length (pre @ w)) None (emitChars w v) err h = Some res"
    using trans_text[OF assms(1-3)] by blast
  then obtain k0 where "k' = Suc k0" by (cases k') auto
  moreover have "at_c (pre @ w @ c # post) (length (pre @ w)) = Some c" using at_mid[of "pre @ w"] by simp
  ultimately show ?thesis using k assms(4,5) by simp
qed

text \<open>A reference, when the loop returns.\<close>

lemma trans_refer_None:
  assumes c: "at_c s r = Some c" "c \<noteq> NUL" "c \<notin> set tm" "\<not> (d \<and> (q = Some c \<or> q = None \<and> isQuote c))" "at_c s (Suc r) = Some n"
    and ref: "\<not> (nextQuote q c = Some (CHR 0x27) \<or> \<not> (c = CHR ''$'' \<and> (n = CHR ''('' \<or> n = CHR ''{'')))"
    and close: "close = (if n = CHR ''('' then '')'' else ''}'')"
    and name: "trans_c k True (''='' @ close) s (Suc (Suc r)) None ([], MAC_SIZE) err h = None"
  shows "trans_c (Suc k) d tm s r q v err h = None"
proof -
  have a: "(c = NUL \<or> c \<in> set tm) = False" "(d \<and> (q = Some c \<or> q = None \<and> isQuote c)) = False"
    "(nextQuote q c = Some (CHR 0x27) \<or> \<not> (c = CHR ''$'' \<and> (n = CHR ''('' \<or> n = CHR ''{''))) = False" using c ref by blast+
  show ?thesis
    by (simp only: trans_c.simps(2) c(1,5) a Option.bind.simps Let_def if_False nextQuote_def[symmetric] close[symmetric] name)
qed

text \<open>The loop runs to this end from a place of the text, with enough depth.\<close>

definition runs :: "bool \<Rightarrow> string \<Rightarrow> nat \<Rightarrow> dest \<Rightarrow> bool \<Rightarrow> macHandle \<Rightarrow> nat \<times> dest \<times> bool \<times> macHandle \<Rightarrow> bool" where
  "runs d s r v err h res \<longleftrightarrow> (\<exists>k. trans_c k d [] s r None v err h = Some res)"

lemma runsI: "trans_c k d [] s r None v err h = Some res \<Longrightarrow> runs d s r v err h res"
  unfolding runs_def by blast

lemma runs_text: "runs d (pre @ w @ post) (length pre) v err h res \<Longrightarrow> plainText w \<Longrightarrow> runs d (pre @ w @ post) (length (pre @ w)) (emitChars w v) err h res"
  unfolding runs_def by (elim exE, rule trans_text) (auto simp del: trans_c.simps)

text \<open>What a reference does, by what the name is found to be.\<close>

definition refStep :: "bool \<Rightarrow> string \<Rightarrow> nat \<Rightarrow> string \<Rightarrow> string option \<Rightarrow> dest \<Rightarrow> bool \<Rightarrow> macHandle \<Rightarrow> nat \<times> dest \<times> bool \<times> macHandle \<Rightarrow> bool" where
  "refStep d s r n x v err h res \<longleftrightarrow> (case macLookup n False h of
       (None, h2) \<Rightarrow> runs d s r (emitChars (fst (noValue (\<not> suppress h2) n x)) v) (err \<or> snd (noValue (\<not> suppress h2) n x)) h2 res
     | (Some j, h2) \<Rightarrow> if visited (entries h2 ! j) then runs d s r (emitChars (recursive n x) v) True h2 res
         else (\<exists>k v2 err2 h4. transValue k j v err h2 = Some (v2, err2, h4) \<and> runs d s r v2 err2 h4 res))"

lemma trans_ref:
  assumes t: "trans_c k d [] (pre @ ''$('' @ n @ refRest x @ post) (length pre) None v err h = Some res" and n: "plainName n" "plainDefault x"
  shows "refStep d (pre @ ''$('' @ n @ refRest x @ post) (length (pre @ ''$('' @ n @ refRest x)) n x v err h res"
proof -
  define s where "s = pre @ ''$('' @ n @ refRest x @ post"
  define r1 where "r1 = length pre + 2 + length n"
  define c1 where "c1 = (if x = None then CHR '')'' else CHR ''='')"
  obtain k0 where k: "k = Suc k0" using t by (cases k) auto
  have c: "at_c s (length pre) = Some (CHR ''$'')" "CHR ''$'' \<noteq> NUL" "CHR ''$'' \<notin> set []" "\<not> (d \<and> ((None :: char option) = Some (CHR ''$'') \<or> (None :: char option) = None \<and> isQuote (CHR ''$'')))"
    by (simp_all add: s_def NUL_def isQuote_def)
  have c2: "at_c s (Suc (length pre)) = Some (CHR ''('')" using at_mid[of "pre @ ''$''" "CHR ''(''"] by (simp add: s_def)
  have rf: "\<not> (nextQuote None (CHR ''$'') = Some (CHR 0x27) \<or> \<not> (CHR ''$'' = CHR ''$'' \<and> (CHR ''('' = CHR ''('' \<or> CHR ''('' = CHR ''{'')))"
    and nq: "nextQuote None (CHR ''$'') = None" by (simp_all add: nextQuote_def isQuote_def)
  have cl: "'')'' = (if CHR ''('' = CHR ''('' then '')'' else ''}'')" by simp
  have rr: "\<exists>rest. refRest x = c1 # rest" by (cases x) (simp_all add: refRest_def c1_def)
  then obtain rest where rest: "refRest x = c1 # rest" by blast
  have tk: "trans_c (Suc k0) d [] s (length pre) None v err h = Some res" using t unfolding k s_def .
  have "trans_c k0 True (''='' @ '')'') s (Suc (Suc (length pre))) None ([], MAC_SIZE) err h \<noteq> None"
  proof (rule notI)
    assume "trans_c k0 True (''='' @ '')'') s (Suc (Suc (length pre))) None ([], MAC_SIZE) err h = None"
    from trans_refer_None[OF c c2 rf cl this, of v] tk show False by (simp del: trans_c.simps)
  qed
  then obtain y where y: "trans_c k0 True (''='' @ '')'') s (Suc (Suc (length pre))) None ([], MAC_SIZE) err h = Some y" by blast
  have "y = (length (pre @ ''$('') + length n, emitChars n ([], MAC_SIZE), err, h)"
    by (rule trans_upto[of k0 True "''='' @ '')''" "pre @ ''$(''" n c1 "rest @ post"]) (use y n in \<open>simp_all add: s_def rest plainName_def c1_def NUL_def del: trans_c.simps\<close>)
  moreover have "emitChars n ([], MAC_SIZE) = (n, MAC_SIZE - length n)" using n by (simp add: emitChars_def plainName_def)
  ultimately have nm: "trans_c k0 True (''='' @ '')'') s (Suc (Suc (length pre))) None ([], MAC_SIZE) err h = Some (r1, (n, MAC_SIZE - length n), err, h)"
    using y by (simp add: r1_def del: trans_c.simps)
  have c1': "at_c s r1 = Some c1" using at_mid[of "pre @ ''$('' @ n" c1 "rest @ post"] by (simp add: s_def rest r1_def)
  note e = trans_refer[OF c c2 rf cl nm c1', unfolded nq]
  define r where "r = length (pre @ ''$('' @ n @ refRest x)"
  have rx: "x = None \<Longrightarrow> Suc r1 = r" by (simp add: r_def r1_def refRest_def)
  have dfl: "res2 = (r - 1, emitChars w v', err', h') \<and> Suc (r - 1) = r"
    if "x = Some w" "trans_c k' True '')'' s (Suc r1) None v' err' h' = Some res2" for w k' v' err' h' res2
  proof -
    have "res2 = (length (pre @ ''$('' @ n @ ''='') + length w, emitChars w v', err', h')"
      by (rule trans_upto[of k' True "'')''" "pre @ ''$('' @ n @ ''=''" w "CHR '')''" post])
        (use that n(2) in \<open>simp_all add: s_def refRest_def r1_def plainDefault_def NUL_def del: trans_c.simps\<close>)
    then show ?thesis using that(1) by (simp add: r_def refRest_def)
  qed
  obtain f h2 where lk: "macLookup n False h = (f, h2)" by (cases "macLookup n False h")
  have "refStep d s r n x v err h res"
  proof (cases f)
    case None
    show ?thesis
    proof (cases x)
      case x: None
      have "trans_c k0 d [] s (Suc r1) None (emitRef n v) (err \<or> \<not> suppress h2) h2 = Some res" using tk x None lk unfolding e by (simp add: c1_def del: trans_c.simps)
      then show ?thesis using lk None x rx by (auto simp: refStep_def noValue_def emitRef_eq del: trans_c.simps intro: runsI)
    next
      case (Some w)
      obtain res2 where t2: "trans_c k0 True '')'' s (Suc r1) None v err h2 = Some res2" "(case res2 of (r2, v2, err2, h3) \<Rightarrow> trans_c k0 d [] s (Suc r2) None v2 err2 h3) = Some res"
        using tk Some None lk unfolding e by (auto simp: c1_def bind_eq_Some_conv simp del: trans_c.simps)
      then have "trans_c k0 d [] s r None (emitChars w v) err h2 = Some res" using dfl[OF Some t2(1)] by (simp del: trans_c.simps)
      then show ?thesis using lk None Some by (auto simp: refStep_def noValue_def del: trans_c.simps intro: runsI)
    qed
  next
    case (Some j)
    show ?thesis
    proof (cases "visited (entries h2 ! j)")
      case True
      then have t2: "trans_c k0 d [] s (Suc r1) None (emitChars (refText n) v) True h2 = Some res" using tk lk Some unfolding e by (simp add: emitRef_eq del: trans_c.simps)
      show ?thesis
      proof (cases x)
        case None
        then show ?thesis using t2 lk Some True rx by (auto simp: refStep_def recursive_def del: trans_c.simps intro: runsI)
      next
        case w: (Some w)
        have "plainText (w @ '')'')" using n(2) w by (auto simp: plainDefault_def plainText_def NUL_def)
        moreover have "runs d ((pre @ ''$('' @ n @ ''='') @ (w @ '')'') @ post) (length (pre @ ''$('' @ n @ ''='')) (emitChars (refText n) v) True h2 res"
          using runsI[OF t2] w by (simp add: s_def r1_def refRest_def)
        ultimately have "runs d ((pre @ ''$('' @ n @ ''='') @ (w @ '')'') @ post) (length ((pre @ ''$('' @ n @ ''='') @ (w @ '')''))) (emitChars (w @ '')'') (emitChars (refText n) v)) True h2 res"
          by (rule runs_text[rotated])
        then have "runs d s r (emitChars (recursive n x) v) True h2 res" using w by (simp add: emit_append s_def r_def refRest_def recursive_def)
        then show ?thesis using lk Some True by (simp add: refStep_def)
      qed
    next
      case False
      have df: "transDefault k0 '')'' s r1 c1 h2 = Some (r2, h3) \<Longrightarrow> Suc r2 = r \<and> h3 = h2" for r2 h3
      proof (cases x)
        case None
        then show "transDefault k0 '')'' s r1 c1 h2 = Some (r2, h3) \<Longrightarrow> Suc r2 = r \<and> h3 = h2" using rx by (simp add: transDefault_def c1_def)
      next
        case (Some w)
        assume "transDefault k0 '')'' s r1 c1 h2 = Some (r2, h3)"
        then obtain v' err' h' where "trans_c k0 True '')'' s (Suc r1) None ([], 0) False (h2\<lparr>suppress := True\<rparr>) = Some (r2, v', err', h')" "h3 = h'\<lparr>suppress := suppress h2\<rparr>"
          using Some by (auto simp: transDefault_def c1_def bind_eq_Some_conv simp del: trans_c.simps)
        then show "Suc r2 = r \<and> h3 = h2" using dfl[OF Some] by fastforce
      qed
      obtain r2 h3 v2 err2 h4 where "transDefault k0 '')'' s r1 c1 h2 = Some (r2, h3)" "transValue k0 j v err h3 = Some (v2, err2, h4)"
        "trans_c k0 d [] s (Suc r2) None v2 err2 h4 = Some res"
        using tk lk Some False unfolding e by (auto simp: bind_eq_Some_conv simp del: trans_c.simps)
      then have "transValue k0 j v err h2 = Some (v2, err2, h4)" "runs d s r v2 err2 h4 res" using df by (auto intro: runsI simp del: trans_c.simps)
      then show ?thesis unfolding refStep_def lk Some prod.case option.case if_not_P[OF False] by blast
    qed
  qed
  then show ?thesis by (simp add: s_def r_def)
qed

section \<open>Texts\<close>

lemma runs_end: "runs d s (length s) v err h res \<Longrightarrow> res = (length s - 1, v, err, h)"
proof -
  assume "runs d s (length s) v err h res"
  then obtain k where k: "trans_c k d [] s (length s) None v err h = Some res" by (auto simp: runs_def simp del: trans_c.simps)
  then show "res = (length s - 1, v, err, h)" by (cases k) (auto simp: trans_stop[OF at_end] simp del: trans_c.simps(2))
qed

text \<open>When the references of a text give the values of \<open>F\<close>, the text gives its substitution.\<close>

lemma runs_pieces:
  assumes G: "\<And>s r n x v err res. plainPiece (Ref n x) \<Longrightarrow> refStep d s r n x v err h res \<Longrightarrow> runs d s r (emitChars (fst (F n x)) v) (err \<or> snd (F n x)) h res"
  shows "runs d (pre @ printT ps) (length pre) v err h res \<Longrightarrow> \<forall>p \<in> set ps. plainPiece p \<Longrightarrow>
    res = (length (pre @ printT ps) - 1, emitChars (fst (sub F ps)) v, err \<or> snd (sub F ps), h)"
proof (induction ps arbitrary: pre v err)
  case Nil
  then show ?case using runs_end[of d pre] by simp
next
  case (Cons p ps)
  show ?case
  proof (cases p)
    case (Txt w)
    have "runs d (pre @ w @ printT ps) (length (pre @ w)) (emitChars w v) err h res"
      by (rule runs_text) (use Cons.prems Txt in simp_all)
    then have "runs d ((pre @ w) @ printT ps) (length (pre @ w)) (emitChars w v) err h res" by simp
    from Cons.IH[OF this] Cons.prems(2) Txt show ?thesis by (simp add: emit_append)
  next
    case (Ref n x)
    obtain k where k: "trans_c k d [] (pre @ ''$('' @ n @ refRest x @ printT ps) (length pre) None v err h = Some res"
      using Cons.prems(1) Ref by (auto simp: runs_def simp del: trans_c.simps)
    have pl: "plainPiece (Ref n x)" using Cons.prems(2) Ref by simp
    then have "refStep d (pre @ ''$('' @ n @ refRest x @ printT ps) (length (pre @ ''$('' @ n @ refRest x)) n x v err h res"
      using trans_ref[OF k] by simp
    from G[OF pl this] have "runs d ((pre @ ''$('' @ n @ refRest x) @ printT ps) (length (pre @ ''$('' @ n @ refRest x)) (emitChars (fst (F n x)) v) (err \<or> snd (F n x)) h res"
      by simp
    from Cons.IH[OF this] Cons.prems(2) Ref show ?thesis by (simp add: emit_append disj_assoc)
  qed
qed

section \<open>Values that are not up to date\<close>

text \<open>The macros a handle defines, as texts, with those in \<open>V\<close> in use.\<close>

definition bound :: "(string \<times> piece list) list \<Rightarrow> string list \<Rightarrow> macHandle \<Rightarrow> bool" where
  "bound ms V h \<longleftrightarrow> \<not> useEnv h \<and> (\<forall>n. case map_of ms n of
       None \<Rightarrow> searchBack n False (entries h) (length (entries h)) = None
     | Some ps \<Rightarrow> (\<exists>j. searchBack n False (entries h) (length (entries h)) = Some j \<and> rawv (entries h ! j) = Some (printT ps)
          \<and> (visited (entries h ! j) \<longleftrightarrow> n \<in> set V) \<and> (\<forall>p \<in> set ps. plainPiece p)))"

lemma bound_None: "bound ms V h \<Longrightarrow> map_of ms n = None \<Longrightarrow> macLookup n False h = (None, h)"
  unfolding bound_def by (elim conjE allE[of _ n]) (simp add: lookup_plain)

lemma bound_Some:
  assumes "bound ms V h" "map_of ms n = Some ps"
  obtains j where "macLookup n False h = (Some j, h)" "searchBack n False (entries h) (length (entries h)) = Some j" "j < length (entries h)" "rawv (entries h ! j) = Some (printT ps)" "visited (entries h ! j) \<longleftrightarrow> n \<in> set V"
    "\<forall>p \<in> set ps. plainPiece p" "ename (entries h ! j) = n"
proof -
  have "case map_of ms n of
       None \<Rightarrow> searchBack n False (entries h) (length (entries h)) = None
     | Some ps \<Rightarrow> (\<exists>j. searchBack n False (entries h) (length (entries h)) = Some j \<and> rawv (entries h ! j) = Some (printT ps)
          \<and> (visited (entries h ! j) \<longleftrightarrow> n \<in> set V) \<and> (\<forall>p \<in> set ps. plainPiece p))" using assms(1) unfolding bound_def by blast
  then obtain j where j: "searchBack n False (entries h) (length (entries h)) = Some j" "rawv (entries h ! j) = Some (printT ps)"
    "visited (entries h ! j) \<longleftrightarrow> n \<in> set V" "\<forall>p \<in> set ps. plainPiece p" unfolding assms(2) option.case by blast
  have "\<not> useEnv h" using assms(1) by (simp add: bound_def)
  then show thesis using that[of j] j searchBack_Some[OF j(1)] lookup_plain by auto
qed

text \<open>A change of an entry that keeps names and raw values.\<close>

lemma search_update: "special (f (es ! i)) = special (es ! i) \<Longrightarrow> ename (f (es ! i)) = ename (es ! i) \<Longrightarrow> searchBack n sp (es[i := f (es ! i)]) k = searchBack n sp es k"
  by (rule searchBack_cong) (cases "i < length es"; auto simp: nth_list_update list_update_beyond)

lemma bound_mark:
  assumes b: "bound ms V h" and n: "searchBack n False (entries h) (length (entries h)) = Some j"
  shows "bound ms (n # V) (setEntry j (\<lambda>e. e\<lparr>visited := True\<rparr>) h)"
proof -
  have j: "j < length (entries h)" "ename (entries h ! j) = n" using searchBack_Some[OF n] by auto
  let ?h = "setEntry j (\<lambda>e. e\<lparr>visited := True\<rparr>) h"
  have u: "\<not> useEnv h" using b by (simp add: bound_def)
  have s: "searchBack m False (entries ?h) (length (entries ?h)) = searchBack m False (entries h) (length (entries h))" for m
    by (simp add: search_update)
  have "case map_of ms m of
       None \<Rightarrow> searchBack m False (entries ?h) (length (entries ?h)) = None
     | Some ps \<Rightarrow> (\<exists>i. searchBack m False (entries ?h) (length (entries ?h)) = Some i \<and> rawv (entries ?h ! i) = Some (printT ps)
          \<and> (visited (entries ?h ! i) \<longleftrightarrow> m \<in> set (n # V)) \<and> (\<forall>p \<in> set ps. plainPiece p))" for m
  proof (cases "map_of ms m")
    case None
    then have "macLookup m False h = (None, h)" by (rule bound_None[OF b])
    then show ?thesis using s[of m] lookup_plain[OF u, of m False] None by simp
  next
    case (Some ps)
    then obtain i where i: "searchBack m False (entries h) (length (entries h)) = Some i" "i < length (entries h)" "rawv (entries h ! i) = Some (printT ps)"
      "visited (entries h ! i) \<longleftrightarrow> m \<in> set V" "\<forall>p \<in> set ps. plainPiece p" "ename (entries h ! i) = m" using bound_Some[OF b] by blast
    then show ?thesis using Some j n s[of m] by (cases "i = j") (auto simp: nth_list_update)
  qed
  moreover have "\<not> useEnv ?h" using u by simp
  ultimately show ?thesis unfolding bound_def by blast
qed

lemma unmark:
  assumes "j < length (entries h)" "\<not> visited (entries h ! j)"
  shows "setEntry j (\<lambda>e. e\<lparr>visited := False\<rparr>) (setEntry j (\<lambda>e. e\<lparr>visited := True\<rparr>) h) = h"
proof -
  have e: "(entries h ! j)\<lparr>visited := False\<rparr> = entries h ! j" using assms(2) by (cases "entries h ! j") simp
  have "(entries h)[j := (entries h ! j)\<lparr>visited := False\<rparr>] = entries h" unfolding e by simp
  then show ?thesis using assms(1) by (simp add: setEntry_def)
qed

lemma value_dirty:
  "refStep d s r n x v err h res \<Longrightarrow> bound ms V h \<Longrightarrow> dirty h \<Longrightarrow> warn = (\<not> suppress h) \<Longrightarrow>
   runs d s r (emitChars (fst (refVal warn ms V n x)) v) (err \<or> snd (refVal warn ms V n x)) h res"
proof (induction warn ms V n x arbitrary: d s r v err h res rule: refVal.induct)
  case (1 warn ms V n x)
  show ?case
  proof (cases "map_of ms n")
    case None
    show ?thesis unfolding refVal.simps[of warn ms V n x] None option.case using bound_None[OF 1(3) None] 1(2,5) by (simp add: refStep_def)
  next
    case (Some ps)
    obtain j where j: "macLookup n False h = (Some j, h)" "searchBack n False (entries h) (length (entries h)) = Some j" "j < length (entries h)" "rawv (entries h ! j) = Some (printT ps)"
      "visited (entries h ! j) \<longleftrightarrow> n \<in> set V" "\<forall>p \<in> set ps. plainPiece p" using bound_Some[OF 1(3) Some] by blast
    show ?thesis
    proof (cases "n \<in> set V")
      case True
      then show ?thesis unfolding refVal.simps[of warn ms V n x] Some option.case using 1(2) j by (simp add: refStep_def)
    next
      case False
      let ?h = "setEntry j (\<lambda>e. e\<lparr>visited := True\<rparr>) h" and ?S = "sub (refVal warn ms (n # V)) ps"
      obtain k v2 err2 h4 where t: "transValue k j v err h = Some (v2, err2, h4)" "runs d s r v2 err2 h4 res"
        using 1(2) j False by (auto simp: refStep_def)
      obtain r2 h5 where t2: "trans_c k True [] (printT ps) 0 None v err ?h = Some (r2, v2, err2, h5)" "h4 = setEntry j (\<lambda>e. e\<lparr>visited := False\<rparr>) h5"
        using t(1) 1(4) j(4) by (auto simp: transValue_def bind_eq_Some_conv simp del: trans_c.simps)
      have G: "runs d s r (emitChars (fst (refVal warn ms (n # V) m y)) v) (err \<or> snd (refVal warn ms (n # V) m y)) ?h res"
        if "refStep d s r m y v err ?h res" for d s r m y v err res
        by (rule 1(1)[OF Some False that bound_mark[OF 1(3) j(2)]]) (use 1(4,5) in simp_all)
      have "runs True ([] @ printT ps) (length []) v err ?h (r2, v2, err2, h5)" using runsI[OF t2(1)] by simp
      from runs_pieces[of True ?h "refVal warn ms (n # V)", OF G this j(6)]
      have e: "v2 = emitChars (fst ?S) v" "err2 = (err \<or> snd ?S)" "h5 = ?h" by auto
      have "h4 = h" using t2(2) e(3) unmark[OF j(3)] j(5) False by simp
      then show ?thesis unfolding refVal.simps[of warn ms V n x] Some option.case using t(2) e False by simp
    qed
  qed
qed

end
