(* ===== verification/MacExpand.thy ===== *)
theory MacExpand
  imports MacTemplate
begin

text \<open>Values that are up to date, and the expansion of a text against its reference evaluation.\<close>

section \<open>What the values depend on\<close>

lemma ext_same: "ext h h' \<Longrightarrow> \<not> useEnv h \<Longrightarrow> h' = h"
  by (cases h; cases h') (auto simp: ext_def)

lemma sub_fst_cong: "(\<And>n x. fst (F n x) = fst (G n x)) \<Longrightarrow> fst (sub F ps) = fst (sub G ps)"
  by (induction F ps rule: sub.induct) auto

lemma refVal_warn: "fst (refVal w ms V n x) = fst (refVal w' ms V n x)"
proof (induction w ms V n x rule: refVal.induct)
  case (1 w ms V n x)
  show ?case
  proof (cases "map_of ms n")
    case None
    then show ?thesis unfolding refVal.simps[of _ ms V n x] by (simp add: noValue_def split: option.splits)
  next
    case (Some ps)
    have "fst (sub (refVal w ms (n # V)) ps) = fst (sub (refVal w' ms (n # V)) ps)" if "n \<notin> set V"
      by (rule sub_fst_cong) (use 1 Some that in blast)
    then show ?thesis unfolding refVal.simps[of _ ms V n x] using Some by simp
  qed
qed

lemma valueOf_warn: "fst (valueOf w ms ps) = fst (valueOf w' ms ps)"
  unfolding valueOf_def by (rule sub_fst_cong) (rule refVal_warn)

lemma bound_bare:
  assumes "bound ms V h" "useEnv h' = useEnv h" "map bareEntry (entries h') = map bareEntry (entries h)"
  shows "bound ms V h'"
proof -
  have l: "length (entries h') = length (entries h)" using arg_cong[OF assms(3), of length] by simp
  have s: "searchBack n False (entries h') (length (entries h')) = searchBack n False (entries h) (length (entries h))" for n
    using search_bare[of n False "entries h'"] search_bare[of n False "entries h"] assms(3) l by simp
  have b: "rawv (entries h' ! j) = rawv (entries h ! j) \<and> visited (entries h' ! j) = visited (entries h ! j)" if "j < length (entries h)" for j
  proof -
    have "bareEntry (entries h' ! j) = bareEntry (entries h ! j)" using arg_cong[OF assms(3), of "\<lambda>xs. xs ! j"] that l by simp
    then show ?thesis by (metis bareEntry_simps(3) bareEntry_simps(5))
  qed
  have "case map_of ms n of
       None \<Rightarrow> searchBack n False (entries h') (length (entries h')) = None
     | Some ps \<Rightarrow> (\<exists>j. searchBack n False (entries h') (length (entries h')) = Some j \<and> rawv (entries h' ! j) = Some (printT ps)
          \<and> (visited (entries h' ! j) \<longleftrightarrow> n \<in> set V) \<and> (\<forall>p \<in> set ps. plainPiece p))" for n
  proof (cases "map_of ms n")
    case None
    then show ?thesis using assms(1) s[of n] unfolding bound_def by (elim conjE allE[of _ n]) simp
  next
    case (Some ps)
    then obtain j where "searchBack n False (entries h) (length (entries h)) = Some j" "j < length (entries h)" "rawv (entries h ! j) = Some (printT ps)"
      "visited (entries h ! j) \<longleftrightarrow> n \<in> set V" "\<forall>p \<in> set ps. plainPiece p" using bound_Some[OF assms(1)] by blast
    then show ?thesis using Some s[of n] b by auto
  qed
  moreover have "\<not> useEnv h'" using assms(1,2) by (simp add: bound_def)
  ultimately show ?thesis unfolding bound_def by blast
qed

lemma bound_frame: "macFrame h h' \<Longrightarrow> \<not> useEnv h \<Longrightarrow> bound ms V h' \<longleftrightarrow> bound ms V h"
  unfolding macFrame_def by (auto elim!: bound_bare)

section \<open>The loop over the entries\<close>

definition upToDate :: "(string \<times> piece list) list \<Rightarrow> macEntry \<Rightarrow> bool" where
  "upToDate ms e \<longleftrightarrow> (\<forall>ps. rawv e = Some (printT ps) \<longrightarrow> (\<forall>p \<in> set ps. plainPiece p) \<longrightarrow> evalue e = Some (take MAC_SIZE (fst (valueOf True ms ps))))"

lemma value_loop:
  assumes "trans_c k True [] s 0 None ([], MAC_SIZE) False h = Some (r, (out, m), err, h1)" "bound ms [] h" "dirty h"
    and "s = printT ps" "\<forall>p \<in> set ps. plainPiece p"
  shows "out = take MAC_SIZE (fst (valueOf True ms ps))"
proof -
  let ?w = "\<not> suppress h"
  have "runs True ([] @ printT ps) (length []) ([], MAC_SIZE) False h (r, (out, m), err, h1)" using assms(1,4) runsI by simp
  from runs_pieces[of True h "refVal ?w ms []", OF value_dirty[OF _ assms(2,3) refl] this assms(5)]
  have "out = take MAC_SIZE (fst (sub (refVal ?w ms []) ps))" by (simp add: emitChars_def)
  then show ?thesis using valueOf_warn[of ?w ms ps True] by (simp add: valueOf_def)
qed

lemma expandLoop_values:
  "expandLoop k i h = Some h' \<Longrightarrow> dirty h \<Longrightarrow> bound ms [] h \<Longrightarrow> i \<le> length (entries h) \<Longrightarrow> \<forall>m < i. upToDate ms (entries h ! m) \<Longrightarrow>
   \<forall>e \<in> set (entries h'). upToDate ms e"
proof (induction k arbitrary: i h)
  case (Suc k)
  show ?case
  proof (cases "i < length (entries h)")
    case False
    then show ?thesis using Suc.prems by (auto simp: in_set_conv_nth)
  next
    case True
    have w: "wfm h" using Suc.prems(2) by (simp add: wfm_def)
    have u: "\<not> useEnv h" using Suc.prems(3) by (simp add: bound_def)
    obtain out err h1 where o: "(case rawv (entries h ! i) of None \<Rightarrow> Some ([], False, h)
          | Some s \<Rightarrow> do { (_, (out, _), err, h1) \<leftarrow> trans_c (transFuel h s) True [] s 0 None ([], MAC_SIZE) False h; Some (out, err, h1) }) = Some (out, err, h1)"
      and l: "expandLoop k (Suc i) (setEntry i (\<lambda>e. e\<lparr>evalue := Some out, eerror := err\<rparr>) h1) = Some h'"
      using Suc.prems(1) True by (auto simp: bind_eq_Some_conv simp del: trans_c.simps)
    have x: "h1 = h \<and> (\<forall>ps. rawv (entries h ! i) = Some (printT ps) \<longrightarrow> (\<forall>p \<in> set ps. plainPiece p) \<longrightarrow> out = take MAC_SIZE (fst (valueOf True ms ps)))"
    proof (cases "rawv (entries h ! i)")
      case (Some s)
      then obtain r m where t: "trans_c (transFuel h s) True [] s 0 None ([], MAC_SIZE) False h = Some (r, (out, m), err, h1)"
        using o by (auto simp: bind_eq_Some_conv simp del: trans_c.simps)
      moreover have "ext h h1" using trans_whole[OF w, of s True "[]" MAC_SIZE] t by auto
      ultimately show ?thesis using Some ext_same[OF _ u] value_loop[OF t Suc.prems(3,2)] by auto
    qed (use o in simp)
    let ?h = "setEntry i (\<lambda>e. e\<lparr>evalue := Some out, eerror := err\<rparr>) h"
    have "expandLoop k (Suc i) ?h = Some h'" using l x by simp
    then show ?thesis
    proof (rule Suc.IH)
      show "bound ms [] ?h" using bound_frame[OF frame_value u] Suc.prems(3) by blast
      have "upToDate ms ((entries h ! i)\<lparr>evalue := Some out, eerror := err\<rparr>)" using x by (simp add: upToDate_def)
      then show "\<forall>m < Suc i. upToDate ms (entries ?h ! m)" using Suc.prems(5) True by (auto simp: less_Suc_eq)
    qed (use Suc.prems(2) True in simp_all)
  qed
qed simp

section \<open>Values stay up to date\<close>

definition valuesCurrent :: "macHandle \<Rightarrow> bool" where
  "valuesCurrent h \<longleftrightarrow> (\<not> dirty h \<longrightarrow> (\<forall>ms. bound ms [] h \<longrightarrow> (\<forall>e \<in> set (entries h). upToDate ms e)))"

lemma expand_current:
  assumes "wfm h" "\<not> useEnv h" "valuesCurrent h" "expandMacros h = Some h'"
  shows "valuesCurrent h'" "\<not> dirty h'" "wfm h'" "macFrame h h'"
proof -
  show f: "\<not> dirty h'" "wfm h'" "macFrame h h'" using expand_ok[OF assms(1)] assms(4) by auto
  show "valuesCurrent h'"
  proof (cases "dirty h")
    case True
    then have l: "expandLoop (length (entries h) + length (environ h) + 1) 0 h = Some h'" using assms(4) by (simp add: expandMacros_def)
    have "\<forall>e \<in> set (entries h'). upToDate ms e" if "bound ms [] h'" for ms
      using expandLoop_values[OF l True, of ms] that bound_frame[OF f(3) assms(2)] by simp
    then show ?thesis by (simp add: valuesCurrent_def)
  next
    case False
    then show ?thesis using assms(3,4) by (simp add: expandMacros_def)
  qed
qed

lemma rep_env: "stackRep ms h \<Longrightarrow> \<not> useEnv h"
  by (auto simp: stackRep_def scopes_def)

lemma expandString_current:
  assumes "wfm h" "\<not> useEnv h" "valuesCurrent h" "macExpandString src k h = Some (ret, out, h')"
  shows "valuesCurrent h'"
proof -
  obtain h1 where h1: "expandMacros h = Some h1" using expand_ok[OF assms(1)] by blast
  note e = expand_current[OF assms(1-3) h1]
  have u: "\<not> useEnv h1" using e(4) assms(2) by (simp add: macFrame_def)
  obtain r m err where t: "trans_c (transFuel h1 src) False [] src 0 None ([], k) False h1 = Some (r, (out, m), err, h')"
    using assms(4) h1 by (auto simp: macExpandString_def bind_eq_Some_conv simp del: trans_c.simps)
  have "ext h1 h'" using trans_whole[OF e(3), of src False "[]" k] t by auto
  then have "h' = h1" by (rule ext_same[OF _ u])
  then show ?thesis using e(1) by simp
qed

lemma get_current:
  assumes "wfm h" "\<not> useEnv h" "valuesCurrent h" "macGetValue n k h = Some (ret, out, h')"
  shows "valuesCurrent h'"
proof -
  have l: "macLookup n False h = (fst (macLookup n False h), h)" using lookup_plain[OF assms(2)] by simp
  show ?thesis
  proof (cases "k = 0 \<or> fst (macLookup n False h) = None")
    case True
    then show ?thesis using assms(3,4) l by (cases "fst (macLookup n False h)") (auto simp: macGetValue_def split: if_splits)
  next
    case False
    then have "expandMacros h = Some h'" using assms(4) l by (auto simp: macGetValue_def bind_eq_Some_conv Let_def)
    then show ?thesis using expand_current(1)[OF assms(1-3)] by blast
  qed
qed

lemma push_current:
  assumes "\<not> useEnv h" "valuesCurrent h"
  shows "valuesCurrent (snd (macPushScope h))"
proof -
  let ?h = "snd (macPushScope h)"
  obtain m where m: "entries ?h = entries h @ [m]" "special m" "rawv m = None" "useEnv ?h = useEnv h" "dirty ?h = dirty h"
    by (simp add: macPushScope_def)
  have s: "searchBack n False (entries ?h) (length (entries ?h)) = searchBack n False (entries h) (length (entries h))" for n
    using search_last[of n False "entries h" "[m]"] m(2) unfolding m(1) by simp
  have "bound ms [] h" if b: "bound ms [] ?h" for ms
  proof -
    have "case map_of ms n of
       None \<Rightarrow> searchBack n False (entries h) (length (entries h)) = None
     | Some ps \<Rightarrow> (\<exists>j. searchBack n False (entries h) (length (entries h)) = Some j \<and> rawv (entries h ! j) = Some (printT ps)
          \<and> (visited (entries h ! j) \<longleftrightarrow> n \<in> set []) \<and> (\<forall>p \<in> set ps. plainPiece p))" for n
    proof (cases "map_of ms n")
      case None
      then show ?thesis using b s[of n] unfolding bound_def by (elim conjE allE[of _ n]) simp
    next
      case (Some ps)
      then obtain j where j: "searchBack n False (entries ?h) (length (entries ?h)) = Some j" "rawv (entries ?h ! j) = Some (printT ps)"
        "visited (entries ?h ! j) \<longleftrightarrow> n \<in> set []" "\<forall>p \<in> set ps. plainPiece p" using bound_Some[OF b] by metis
      have "j < length (entries h)" using j(1) s[of n] searchBack_Some by metis
      then show ?thesis using Some s[of n] j m(1) by (auto simp: nth_append)
    qed
    then show ?thesis using assms(1) unfolding bound_def by blast
  qed
  moreover have "upToDate ms m" for ms using m(3) by (simp add: upToDate_def)
  ultimately show ?thesis using assms(2) m by (auto simp: valuesCurrent_def)
qed

lemma bound_suppress: "bound ms V (macSuppressWarning b h) = bound ms V h"
  by (simp add: bound_def macSuppressWarning_def cong: option.case_cong)

lemma exec_current:
  assumes "stackRep ms h" "valuesCurrent h" "macExec op h = Some h'"
  shows "valuesCurrent h'"
proof -
  have w: "wfm h" "\<not> useEnv h" using assms(1) rep_env by (simp_all add: stackRep_def)
  have dc: "dirty h1 \<Longrightarrow> valuesCurrent h1" for h1 by (simp add: valuesCurrent_def)
  show ?thesis
  proof (cases op)
    case (MPut n v)
    show ?thesis
    proof (cases v)
      case None
      then obtain h1 where "deleteAll n h = Some h1" "h' = h1" using assms(3) MPut by (auto simp: macPutValue_def bind_eq_Some_conv)
      then have "dirty h' \<or> h' = h" using deleteAll_ok[OF w(2), of n] by auto
      then show ?thesis using dc assms(2) by blast
    next
      case (Some s)
      then have "dirty h'" using assms(3) MPut lookup_plain[OF w(2)] by (auto simp: macPutValue_def Let_def)
      then show ?thesis by (rule dc)
    qed
  next
    case MPush
    then show ?thesis using push_current[OF w(2) assms(2)] assms(3) by simp
  next
    case MPop
    have "dirty (snd (macPopScope h)) \<or> snd (macPopScope h) = h" by (simp add: macPopScope_def split: option.splits)
    then show ?thesis using dc assms(2,3) MPop by auto
  next
    case (MExpand src k)
    then show ?thesis using expandString_current[OF w assms(2)] assms(3) by auto
  next
    case (MGet n k)
    then show ?thesis using get_current[OF w assms(2)] assms(3) by auto
  next
    case (MSuppress b)
    have "valuesCurrent (macSuppressWarning b h) = valuesCurrent h" unfolding valuesCurrent_def bound_suppress by (simp add: macSuppressWarning_def)
    then show ?thesis using MSuppress assms(2,3) by simp
  qed
qed

lemma run_current: "stackRep ms h \<Longrightarrow> valuesCurrent h \<Longrightarrow> macRun ops h = Some h' \<Longrightarrow> valuesCurrent h'"
proof (induction ops arbitrary: ms h)
  case (Cons op ops)
  obtain h1 where h1: "macExec op h = Some h1" "macRun ops h1 = Some h'" using Cons.prems(3) by (auto simp: bind_eq_Some_conv)
  have "stackRep (stackExec op ms) h1" using exec_rep[OF Cons.prems(1), of op] h1(1) by simp
  then show ?case using Cons.IH h1(2) exec_current[OF Cons.prems(1,2) h1(1)] by blast
qed simp

section \<open>A text against values that are up to date\<close>

lemma value_clean:
  assumes "refStep d s r n x v err h res" "bound ms [] h" "\<not> dirty h" "valuesCurrent h"
  shows "runs d s r (emitChars (fst (topVal (\<not> suppress h) ms n x)) v) (err \<or> snd (topVal (\<not> suppress h) ms n x)) h res"
proof (cases "map_of ms n")
  case None
  then show ?thesis using bound_None[OF assms(2) None] assms(1) by (simp add: refStep_def topVal_def)
next
  case (Some ps)
  obtain j where j: "macLookup n False h = (Some j, h)" "j < length (entries h)" "rawv (entries h ! j) = Some (printT ps)"
    "\<not> visited (entries h ! j)" "\<forall>p \<in> set ps. plainPiece p" using bound_Some[OF assms(2) Some] by (metis empty_iff list.set(1))
  have "upToDate ms (entries h ! j)" using assms(2-4) j(2) by (simp add: valuesCurrent_def)
  then have "evalue (entries h ! j) = Some (take MAC_SIZE (fst (valueOf (\<not> suppress h) ms ps)))"
    using j(3,5) valueOf_warn[of True ms ps "\<not> suppress h"] by (simp add: upToDate_def)
  then show ?thesis using assms(1,3) j(1,4) Some by (auto simp: refStep_def transValue_def topVal_def)
qed

lemma expand_text:
  assumes "wfm h" "valuesCurrent h" "bound ms [] h" "\<forall>p \<in> set src. plainPiece p"
    and S: "S = sub (topVal (\<not> suppress h) ms) src"
  shows "\<exists>h'. macExpandString (printT src) maxlen h = Some (if snd S then - int (length (take maxlen (fst S))) else int (length (take maxlen (fst S))), take maxlen (fst S), h')"
proof -
  have u: "\<not> useEnv h" using assms(3) by (simp add: bound_def)
  obtain h1 where h1: "expandMacros h = Some h1" using expand_ok[OF assms(1)] by blast
  note e = expand_current[OF assms(1) u assms(2) h1]
  have s: "suppress h1 = suppress h" using e(4) by (simp add: macFrame_def)
  obtain r out m err h2 where t: "trans_c (transFuel h1 (printT src)) False [] (printT src) 0 None ([], maxlen) False h1 = Some (r, (out, m), err, h2)"
    using trans_whole[OF e(3)] by blast
  have b: "bound ms [] h1" using bound_frame[OF e(4) u] assms(3) by blast
  have "runs False ([] @ printT src) (length []) ([], maxlen) False h1 (r, (out, m), err, h2)" using runsI[OF t] by simp
  from runs_pieces[of False h1 "topVal (\<not> suppress h1) ms", OF value_clean[OF _ b e(2,1)] this assms(4)]
  have "out = take maxlen (fst S)" "err = snd S" by (simp_all add: emitChars_def S s)
  then show ?thesis using h1 t by (simp add: macExpandString_def del: trans_c.simps)
qed

lemma bindings_bound:
  assumes "stackRep st h" "\<And>n. macBinding n h = map_option printT (map_of ms n)" "\<forall>ps \<in> snd ` set ms. \<forall>p \<in> set ps. plainPiece p"
  shows "bound ms [] h"
proof -
  have u: "\<not> useEnv h" by (rule rep_env[OF assms(1)])
  have "case map_of ms n of
       None \<Rightarrow> searchBack n False (entries h) (length (entries h)) = None
     | Some ps \<Rightarrow> (\<exists>j. searchBack n False (entries h) (length (entries h)) = Some j \<and> rawv (entries h ! j) = Some (printT ps)
          \<and> (visited (entries h ! j) \<longleftrightarrow> n \<in> set []) \<and> (\<forall>p \<in> set ps. plainPiece p))" for n
  proof (cases "map_of ms n")
    case None
    then have "stackFind n st = None" using assms(2)[of n] rep_find(1)[OF assms(1)] by simp
    then show ?thesis using rep_find(3)[OF assms(1), of n] lookup_plain[OF u, of n False] None by auto
  next
    case (Some ps)
    then have "stackFind n st = Some (printT ps)" using assms(2)[of n] rep_find(1)[OF assms(1)] by simp
    then obtain j where "macLookup n False h = (Some j, h)" "rawv (entries h ! j) = Some (printT ps)" "\<not> visited (entries h ! j)"
      using rep_find(3)[OF assms(1), of n] by auto
    moreover have "\<forall>p \<in> set ps. plainPiece p" using assms(3) map_of_SomeD[OF Some] by force
    ultimately show ?thesis using lookup_plain[OF u, of n False] Some by simp
  qed
  then show ?thesis using u unfolding bound_def by blast
qed

lemma fresh_current: "macCreateHandle env None = Some h \<Longrightarrow> valuesCurrent h"
  by (auto simp: macCreateHandle_def valuesCurrent_def)

end
