(* ===== verification/MacUtil.thy ===== *)
theory MacUtil
  imports Prelude
begin

text \<open>
  The parser of macro definitions, \<open>macParseDefns\<close> of \<open>base/src/libCom/macLib/macUtil.c\<close>: a scan with four states that notes
  where names and values start and end, then the copy of these pieces and the removal of quotes and escapes from
  names. \<open>None\<close> is a write past the end of an array, or the use of a null handle. Allocation is assumed to succeed.
\<close>

datatype parseState = preName | inName | preValue | inValue

text \<open>The arrays \<open>ptr\<close>, \<open>end\<close> and \<open>del\<close> hold positions in the text.\<close>

record parsing =
  num :: nat
  startp :: "nat \<Rightarrow> nat"
  endp :: "nat \<Rightarrow> nat"
  del :: "nat \<Rightarrow> bool"
  pstate :: parseState

definition isspace_c :: "char \<Rightarrow> bool" where
  "isspace_c c \<longleftrightarrow> c = CHR 0x20 \<or> 9 \<le> (of_char c :: nat) \<and> (of_char c :: nat) \<le> 13"

fun trimEnd :: "string \<Rightarrow> nat \<Rightarrow> nat \<Rightarrow> nat" where
  "trimEnd defns p 0 = 0"
| "trimEnd defns p (Suc e) = (if Suc e > p \<and> isspace_c (defns ! e) then trimEnd defns p e else Suc e)"

text \<open>Writes to the arrays, which have \<open>numMax\<close> entries.\<close>

definition setStart :: "nat \<Rightarrow> nat \<Rightarrow> parsing \<Rightarrow> parsing option" where
  "setStart numMax c st = (if num st < numMax then Some (st\<lparr>startp := (startp st)(num st := c)\<rparr>) else None)"

definition setEnd :: "nat \<Rightarrow> string \<Rightarrow> nat \<Rightarrow> parsing \<Rightarrow> parsing option" where
  "setEnd numMax defns c st =
     (if num st < numMax then Some (st\<lparr>endp := (endp st)(num st := trimEnd defns (startp st (num st)) c), num := num st + 1\<rparr>) else None)"

definition setDel :: "nat \<Rightarrow> bool \<Rightarrow> parsing \<Rightarrow> parsing option" where
  "setDel numMax b st = (if num st < numMax then Some (st\<lparr>del := (del st)(num st := b)\<rparr>) else None)"

text \<open>The cases of the switch, each falling through to the next.\<close>

definition stepInValue :: "nat \<Rightarrow> string \<Rightarrow> nat \<Rightarrow> bool \<Rightarrow> parsing \<Rightarrow> parsing option" where
  "stepInValue numMax defns c plain st =
     (if \<not> plain \<or> defns ! c \<noteq> CHR '','' then Some st
      else do {
        st1 \<leftarrow> setEnd numMax defns c st;
        st2 \<leftarrow> setDel numMax False st1;
        Some (st2\<lparr>pstate := preName\<rparr>) })"

definition stepPreValue :: "nat \<Rightarrow> string \<Rightarrow> nat \<Rightarrow> bool \<Rightarrow> parsing \<Rightarrow> parsing option" where
  "stepPreValue numMax defns c plain st =
     (if plain \<and> isspace_c (defns ! c) then Some st
      else do { st1 \<leftarrow> setStart numMax c st; stepInValue numMax defns c plain (st1\<lparr>pstate := inValue\<rparr>) })"

definition stepInName :: "nat \<Rightarrow> string \<Rightarrow> nat \<Rightarrow> bool \<Rightarrow> parsing \<Rightarrow> parsing option" where
  "stepInName numMax defns c plain st =
     (if \<not> plain \<or> defns ! c \<noteq> CHR ''='' \<and> defns ! c \<noteq> CHR '','' then Some st
      else do {
        st1 \<leftarrow> setEnd numMax defns c st;
        st2 \<leftarrow> setDel numMax False st1;
        if defns ! c \<noteq> CHR '','' then Some (st2\<lparr>pstate := preValue\<rparr>)
        else do { st3 \<leftarrow> setDel numMax True (st2\<lparr>pstate := preValue\<rparr>); stepPreValue numMax defns c plain st3 } })"

definition stepPreName :: "nat \<Rightarrow> string \<Rightarrow> nat \<Rightarrow> bool \<Rightarrow> parsing \<Rightarrow> parsing option" where
  "stepPreName numMax defns c plain st =
     (if plain \<and> (isspace_c (defns ! c) \<or> defns ! c = CHR '','') then Some st
      else do { st1 \<leftarrow> setStart numMax c st; stepInName numMax defns c plain (st1\<lparr>pstate := inName\<rparr>) })"

definition parseStep :: "nat \<Rightarrow> string \<Rightarrow> nat \<Rightarrow> bool \<Rightarrow> parsing \<Rightarrow> parsing option" where
  "parseStep numMax defns c plain st = (case pstate st of
       preName \<Rightarrow> stepPreName numMax defns c plain st
     | inName \<Rightarrow> stepInName numMax defns c plain st
     | preValue \<Rightarrow> stepPreValue numMax defns c plain st
     | inValue \<Rightarrow> stepInValue numMax defns c plain st)"

text \<open>An open quote stays until it is closed; an escape skips the next character.\<close>

function parseLoop :: "nat \<Rightarrow> string \<Rightarrow> nat \<Rightarrow> char option \<Rightarrow> parsing \<Rightarrow> parsing option" where
  "parseLoop numMax defns c quote st =
     (if c < length defns
      then let ch = defns ! c;
               q = (if quote \<noteq> None then (if quote = Some ch then None else quote)
                    else if ch = CHR 0x27 \<or> ch = CHR 0x22 then Some ch else None);
               escape = (ch = CHR 0x5C \<and> c + 1 < length defns)
           in do {
             st1 \<leftarrow> parseStep numMax defns c (q = None \<and> \<not> escape) st;
             parseLoop numMax defns (if escape then c + 2 else c + 1) q st1 }
      else Some st)"
  by pat_completeness auto
termination
  by (relation "measure (\<lambda>(_, defns, c, _, _). length defns - c)") auto

definition tidyUp :: "nat \<Rightarrow> string \<Rightarrow> parsing \<Rightarrow> parsing option" where
  "tidyUp numMax defns st =
     (let c = length defns;
          value = (\<lambda>st. do { st1 \<leftarrow> setEnd numMax defns c st; setDel numMax False st1 }) in
      case pstate st of
        preName \<Rightarrow> Some st
      | inName \<Rightarrow> do { st1 \<leftarrow> setEnd numMax defns c st; st2 \<leftarrow> setDel numMax True st1; st3 \<leftarrow> setStart numMax c st2; value st3 }
      | preValue \<Rightarrow> do { st1 \<leftarrow> setStart numMax c st; value st1 }
      | inValue \<Rightarrow> value st)"

text \<open>Quotes and escapes are removed from a name.\<close>

fun unquote :: "char option \<Rightarrow> string \<Rightarrow> string" where
  "unquote q [] = []"
| "unquote q (c # s) =
     (if q = Some c then unquote None s
      else if q = None \<and> (c = CHR 0x27 \<or> c = CHR 0x22) then unquote (Some c) s
      else if c = CHR 0x5C then (case s of [] \<Rightarrow> [c] | d # t \<Rightarrow> d # unquote q t)
      else c # unquote q s)"

fun unquoteNames :: "string option list \<Rightarrow> string option list" where
  "unquoteNames (Some n # v # ps) = Some (unquote None n) # v # unquoteNames ps"
| "unquoteNames ps = ps"

definition macParseDefns :: "bool \<Rightarrow> string \<Rightarrow> (nat \<times> string option list) option" where
  "macParseDefns haveHandle defns =
     (let numMax = max (length defns) 4 in do {
        st1 \<leftarrow> parseLoop numMax defns 0 None
          \<lparr>num = 0, startp = (\<lambda>_. 0), endp = (\<lambda>_. 0), del = (\<lambda>_. False), pstate = preName\<rparr>;
        st \<leftarrow> tidyUp numMax defns st1;
        let slices = map (\<lambda>i. if del st i then None else Some (take (endp st i - startp st i) (drop (startp st i) defns))) [0..<num st];
        if haveHandle then Some (num st div 2, unquoteNames (slices @ [None, None])) else None })"

end
