(* ===== verification/MacParse.thy ===== *)
theory MacParse
  imports MacUtil
begin

text \<open>The parser reads back the definitions that were printed.\<close>

section \<open>Printing\<close>

fun printDefns :: "(string \<times> string) list \<Rightarrow> string" where
  "printDefns [] = []"
| "printDefns [(n, v)] = n @ ''='' @ v"
| "printDefns ((n, v) # ds) = n @ ''='' @ v @ '','' @ printDefns ds"

definition pairsOf :: "(string \<times> string) list \<Rightarrow> string option list" where
  "pairsOf ds = concat (map (\<lambda>(n, v). [Some n, Some v]) ds)"

text \<open>Characters that need no quotes.\<close>

definition simpleChar :: "char \<Rightarrow> bool" where
  "simpleChar c \<longleftrightarrow> c \<notin> {CHR 0x27, CHR 0x22, CHR 0x5C, CHR '',''} \<and> \<not> isspace_c c"

definition simpleDefn :: "string \<times> string \<Rightarrow> bool" where
  "simpleDefn d \<longleftrightarrow> fst d \<noteq> [] \<and> (\<forall>c \<in> set (fst d). simpleChar c \<and> c \<noteq> CHR ''='') \<and> (\<forall>c \<in> set (snd d). simpleChar c)"

lemma mid_nth [simp]: "(pre @ c # post) ! length pre = c"
  by simp

section \<open>The scan\<close>

definition sliceOf :: "string \<Rightarrow> parsing \<Rightarrow> nat \<Rightarrow> string option" where
  "sliceOf s st i = (if del st i then None else Some (take (endp st i - startp st i) (drop (startp st i) s)))"

definition slices :: "string \<Rightarrow> parsing \<Rightarrow> string option list" where
  "slices s st = map (sliceOf s st) [0..<num st]"

text \<open>A character that neither opens a quote nor is an escape.\<close>

lemma parse_turn:
  assumes "c \<notin> {CHR 0x27, CHR 0x22, CHR 0x5C}"
  shows "parseLoop N (pre @ c # post) (length pre) None st = do { st1 \<leftarrow> parseStep N (pre @ c # post) (length pre) True st; parseLoop N (pre @ c # post) (length (pre @ [c])) None st1 }"
  using assms by (subst parseLoop.simps) (simp add: Let_def)

lemma parse_name_rest:
  "pstate st = inName \<Longrightarrow> \<forall>c \<in> set w. simpleChar c \<and> c \<noteq> CHR ''='' \<Longrightarrow> parseLoop N (pre @ w @ post) (length pre) None st = parseLoop N (pre @ w @ post) (length (pre @ w)) None st"
proof (induction w arbitrary: pre)
  case (Cons c w)
  have "parseStep N (pre @ c # w @ post) (length pre) True st = Some st" using Cons.prems by (simp add: parseStep_def stepInName_def simpleChar_def)
  moreover have "c \<notin> {CHR 0x27, CHR 0x22, CHR 0x5C}" using Cons.prems by (simp add: simpleChar_def)
  ultimately show ?case using parse_turn[of c N pre "w @ post" st] Cons.IH[of "pre @ [c]"] Cons.prems by (simp del: parseLoop.simps)
qed simp

lemma parse_value_rest:
  "pstate st = inValue \<Longrightarrow> \<forall>c \<in> set w. simpleChar c \<Longrightarrow> parseLoop N (pre @ w @ post) (length pre) None st = parseLoop N (pre @ w @ post) (length (pre @ w)) None st"
proof (induction w arbitrary: pre)
  case (Cons c w)
  have "parseStep N (pre @ c # w @ post) (length pre) True st = Some st" using Cons.prems by (simp add: parseStep_def stepInValue_def simpleChar_def)
  moreover have "c \<notin> {CHR 0x27, CHR 0x22, CHR 0x5C}" using Cons.prems by (simp add: simpleChar_def)
  ultimately show ?case using parse_turn[of c N pre "w @ post" st] Cons.IH[of "pre @ [c]"] Cons.prems by (simp del: parseLoop.simps)
qed simp

text \<open>The end of a piece without white space.\<close>

lemma trim_none: "\<forall>c \<in> set w. simpleChar c \<Longrightarrow> trimEnd (pre @ w @ post) (length pre) (length (pre @ w)) = length (pre @ w)"
proof (induction w rule: rev_induct)
  case Nil
  then show ?case by (cases pre) simp_all
next
  case (snoc c w)
  have "(pre @ (w @ [c]) @ post) ! length (pre @ w) = c" using mid_nth[of "pre @ w" c post] by simp
  then show ?case using snoc.prems by (simp add: simpleChar_def)
qed

text \<open>A piece from the start that was noted to the place where it ends.\<close>

definition endPiece :: "nat \<Rightarrow> parseState \<Rightarrow> parsing \<Rightarrow> parsing" where
  "endPiece c p st = st\<lparr>endp := (endp st)(num st := c), num := num st + 1, del := (del st)(num st + 1 := False), pstate := p\<rparr>"

lemma pieces_end:
  assumes "startp st (num st) = length pre" "\<not> del st (num st)"
  shows "slices (pre @ w @ post) (endPiece (length (pre @ w)) p st) = slices (pre @ w @ post) st @ [Some w]"
  using assms by (simp add: slices_def endPiece_def sliceOf_def)

definition startPiece :: "nat \<Rightarrow> parseState \<Rightarrow> parsing \<Rightarrow> parsing" where
  "startPiece c p st = st\<lparr>startp := (startp st)(num st := c), pstate := p\<rparr>"

lemma startPiece_simps [simp]: "slices s (startPiece c p st) = slices s st" "num (startPiece c p st) = num st" "del (startPiece c p st) = del st"
  "k = num st \<Longrightarrow> startp (startPiece c p st) k = c" "pstate (startPiece c p st) = p"
  by (simp_all add: startPiece_def endPiece_def slices_def sliceOf_def[abs_def])

lemma endPiece_simps [simp]: "num (endPiece c p st) = Suc (num st)" "k = Suc (num st) \<Longrightarrow> \<not> del (endPiece c p st) k" "pstate (endPiece c p st) = p"
  by (simp_all add: endPiece_def)

lemma setEnd_piece:
  assumes "startp st (num st) = length pre" "\<forall>c \<in> set w. simpleChar c" "num st + 1 < N"
  shows "do { st1 \<leftarrow> setEnd N (pre @ w @ post) (length (pre @ w)) st; setDel N False st1 } = Some (endPiece (length (pre @ w)) (pstate st) st)"
  using trim_none[OF assms(2), of pre post] assms(1,3) by (simp add: setEnd_def setDel_def endPiece_def)

lemma parse_name:
  assumes st: "pstate st = preName" "num st + 1 < N" and n: "n \<noteq> []" "\<forall>c \<in> set n. simpleChar c \<and> c \<noteq> CHR ''=''"
  shows "parseLoop N (pre @ n @ ''='' @ post) (length pre) None st
    = parseLoop N (pre @ n @ ''='' @ post) (length (pre @ n @ ''='')) None (endPiece (length (pre @ n)) preValue (startPiece (length pre) inName st))"
proof -
  obtain c w where c: "n = c # w" using n(1) by (cases n) auto
  let ?s = "pre @ n @ ''='' @ post" and ?st = "startPiece (length pre) inName st"
  have "parseStep N (pre @ c # w @ ''='' @ post) (length pre) True st = Some ?st"
    using st n(2) c by (simp add: parseStep_def stepPreName_def stepInName_def setStart_def startPiece_def simpleChar_def)
  moreover have "c \<notin> {CHR 0x27, CHR 0x22, CHR 0x5C}" using n(2) c by (simp add: simpleChar_def)
  ultimately have "parseLoop N ?s (length pre) None st = parseLoop N ((pre @ [c]) @ w @ ''='' @ post) (length (pre @ [c])) None ?st"
    using parse_turn[of c N pre "w @ ''='' @ post" st] c by (simp del: parseLoop.simps)
  also have "\<dots> = parseLoop N ((pre @ n) @ CHR ''='' # post) (length (pre @ n)) None ?st"
    using parse_name_rest[of ?st w N "pre @ [c]" "''='' @ post"] n(2) c by (simp del: parseLoop.simps)
  also have "\<dots> = parseLoop N ((pre @ n) @ CHR ''='' # post) (length ((pre @ n) @ ''='')) None (endPiece (length (pre @ n)) preValue ?st)"
  proof -
    have "do { st1 \<leftarrow> setEnd N (pre @ n @ ''='' @ post) (length (pre @ n)) ?st; setDel N False st1 } = Some (endPiece (length (pre @ n)) (pstate ?st) ?st)"
      by (rule setEnd_piece) (use st n(2) in simp_all)
    then have "parseStep N ((pre @ n) @ CHR ''='' # post) (length (pre @ n)) True ?st = Some (endPiece (length (pre @ n)) preValue ?st)"
      using mid_nth[of "pre @ n" "CHR ''=''" post] by (auto simp: parseStep_def stepInName_def bind_eq_Some_conv endPiece_def simp del: mid_nth)
    then show ?thesis using parse_turn[of "CHR ''=''" N "pre @ n" post ?st] by (simp del: parseLoop.simps)
  qed
  finally show ?thesis by (simp del: parseLoop.simps)
qed

text \<open>The characters of a value.\<close>

lemma parse_value:
  assumes "pstate st = preValue" "num st < N" "v \<noteq> []" "\<forall>c \<in> set v. simpleChar c"
  shows "parseLoop N (pre @ v @ post) (length pre) None st = parseLoop N (pre @ v @ post) (length (pre @ v)) None (startPiece (length pre) inValue st)"
proof -
  obtain c w where c: "v = c # w" using assms(3) by (cases v) auto
  have "parseStep N (pre @ c # w @ post) (length pre) True st = Some (startPiece (length pre) inValue st)"
    using assms c by (simp add: parseStep_def stepPreValue_def stepInValue_def setStart_def startPiece_def simpleChar_def)
  moreover have "c \<notin> {CHR 0x27, CHR 0x22, CHR 0x5C}" using assms(4) c by (simp add: simpleChar_def)
  ultimately show ?thesis using parse_turn[of c N pre "w @ post" st] parse_value_rest[of "startPiece (length pre) inValue st" w N "pre @ [c]" post] assms(4) c
    by (simp del: parseLoop.simps)
qed

lemma parse_value_comma:
  assumes st: "pstate st = preValue" "num st + 1 < N" and v: "\<forall>c \<in> set v. simpleChar c"
  shows "parseLoop N (pre @ v @ '','' @ post) (length pre) None st
    = parseLoop N (pre @ v @ '','' @ post) (length (pre @ v @ '','')) None (endPiece (length (pre @ v)) preName (startPiece (length pre) inValue st))"
proof -
  let ?s = "pre @ v @ '','' @ post" and ?st = "startPiece (length pre) inValue st"
  have e: "do { st1 \<leftarrow> setEnd N (pre @ v @ '','' @ post) (length (pre @ v)) ?st; setDel N False st1 } = Some (endPiece (length (pre @ v)) inValue ?st)"
    using setEnd_piece[of ?st pre v N "'','' @ post"] st v by simp
  have comma: "((pre @ v) @ CHR '','' # post) ! length (pre @ v) = CHR '',''" by (rule mid_nth)
  have t: "parseLoop N ((pre @ v) @ CHR '','' # post) (length (pre @ v)) None st1 = parseLoop N ((pre @ v) @ CHR '','' # post) (length (pre @ v @ '','')) None (endPiece (length (pre @ v)) preName ?st)"
    if "parseStep N ((pre @ v) @ CHR '','' # post) (length (pre @ v)) True st1 = Some (endPiece (length (pre @ v)) preName ?st)" for st1
    using parse_turn[of "CHR '',''" N "pre @ v" post st1] that by (simp del: parseLoop.simps)
  have i: "stepInValue N ((pre @ v) @ CHR '','' # post) (length (pre @ v)) True ?st = Some (endPiece (length (pre @ v)) preName ?st)"
    using e comma by (auto simp: stepInValue_def bind_eq_Some_conv endPiece_def simp del: mid_nth)
  show ?thesis
  proof (cases "v = []")
    case True
    have "parseStep N ((pre @ v) @ CHR '','' # post) (length (pre @ v)) True st = Some (endPiece (length (pre @ v)) preName ?st)"
      using i st True by (simp add: parseStep_def stepPreValue_def setStart_def isspace_c_def startPiece_def)
    from t[OF this] show ?thesis using True by (simp del: parseLoop.simps)
  next
    case False
    have "parseStep N ((pre @ v) @ CHR '','' # post) (length (pre @ v)) True ?st = Some (endPiece (length (pre @ v)) preName ?st)"
      using i by (simp add: parseStep_def)
    from t[OF this] parse_value[OF st(1) _ False v, of N pre "'','' @ post"] st(2) show ?thesis by (simp del: parseLoop.simps)
  qed
qed

lemma parse_end: "parseLoop N s (length s) q st = Some st"
  by (subst parseLoop.simps) simp

lemma parse_value_end:
  assumes st: "pstate st = preValue" "num st + 1 < N" and v: "\<forall>c \<in> set v. simpleChar c"
  shows "\<exists>p. do { st1 \<leftarrow> parseLoop N (pre @ v) (length pre) None st; tidyUp N (pre @ v) st1 } = Some (endPiece (length (pre @ v)) p (startPiece (length pre) inValue st))"
proof (cases "v = []")
  case True
  have "do { st1 \<leftarrow> setEnd N (pre @ v @ []) (length (pre @ v)) (startPiece (length pre) preValue st); setDel N False st1 }
      = Some (endPiece (length (pre @ v)) preValue (startPiece (length pre) preValue st))"
    using setEnd_piece[of "startPiece (length pre) preValue st" pre v N "[]"] st v by simp
  moreover have "setStart N (length pre) st = Some (startPiece (length pre) preValue st)" using st by (cases st) (simp add: setStart_def startPiece_def)
  ultimately have "tidyUp N pre st = Some (endPiece (length pre) preValue (startPiece (length pre) preValue st))"
    using st True by (simp add: tidyUp_def Let_def)
  then show ?thesis using True parse_end[of N pre None st] by (intro exI[of _ preValue]) (simp add: endPiece_def startPiece_def del: parseLoop.simps)
next
  case False
  let ?st = "startPiece (length pre) inValue st"
  have "do { st1 \<leftarrow> setEnd N (pre @ v @ []) (length (pre @ v)) ?st; setDel N False st1 } = Some (endPiece (length (pre @ v)) inValue ?st)"
    using setEnd_piece[of ?st pre v N "[]"] st v by simp
  then have "tidyUp N (pre @ v) ?st = Some (endPiece (length (pre @ v)) inValue ?st)" by (simp add: tidyUp_def)
  moreover have "parseLoop N (pre @ v) (length pre) None st = Some ?st"
    using parse_value[OF st(1) _ False v, of N pre "[]"] st(2) parse_end[of N "pre @ v" None ?st] by (simp del: parseLoop.simps)
  ultimately show ?thesis by (intro exI[of _ inValue]) (simp del: parseLoop.simps)
qed

lemma parse_defns:
  "ds \<noteq> [] \<Longrightarrow> \<forall>d \<in> set ds. simpleDefn d \<Longrightarrow> pstate st = preName \<Longrightarrow> \<not> del st (num st) \<Longrightarrow> num st + 2 * length ds < N \<Longrightarrow>
   \<exists>st'. do { st1 \<leftarrow> parseLoop N (pre @ printDefns ds) (length pre) None st; tidyUp N (pre @ printDefns ds) st1 } = Some st'
     \<and> slices (pre @ printDefns ds) st' = slices (pre @ printDefns ds) st @ pairsOf ds \<and> num st' = num st + 2 * length ds"
proof (induction ds arbitrary: pre st rule: printDefns.induct)
  case (2 n v)
  let ?s = "pre @ n @ ''='' @ v" and ?p = "pre @ n @ ''=''"
  let ?st1 = "endPiece (length (pre @ n)) preValue (startPiece (length pre) inName st)"
  have d: "n \<noteq> []" "\<forall>c \<in> set n. simpleChar c \<and> c \<noteq> CHR ''=''" "\<forall>c \<in> set v. simpleChar c" using 2(2) by (simp_all add: simpleDefn_def)
  have a: "parseLoop N ?s (length pre) None st = parseLoop N ?s (length ?p) None ?st1" by (rule parse_name) (use 2 d in simp_all)
  obtain p where p: "do { st1 \<leftarrow> parseLoop N (?p @ v) (length ?p) None ?st1; tidyUp N (?p @ v) st1 } = Some (endPiece (length (?p @ v)) p (startPiece (length ?p) inValue ?st1))"
    using parse_value_end[of ?st1 N v ?p] 2(5) d(3) by auto
  have "slices ?s ?st1 = slices ?s st @ [Some n]" using pieces_end[of "startPiece (length pre) inName st" pre n "''='' @ v"] 2(4) by simp
  moreover have "slices ?s (endPiece (length (?p @ v)) p (startPiece (length ?p) inValue ?st1)) = slices ?s ?st1 @ [Some v]"
    using pieces_end[of "startPiece (length ?p) inValue ?st1" ?p v "[]"] by simp
  ultimately show ?case using a p by (simp add: pairsOf_def del: parseLoop.simps)
next
  case (3 n v d ds)
  let ?t = "printDefns (d # ds)"
  let ?s = "pre @ n @ ''='' @ v @ '','' @ ?t" and ?p = "pre @ n @ ''=''"
  let ?st1 = "endPiece (length (pre @ n)) preValue (startPiece (length pre) inName st)"
  let ?st2 = "endPiece (length (?p @ v)) preName (startPiece (length ?p) inValue ?st1)"
  have d: "n \<noteq> []" "\<forall>c \<in> set n. simpleChar c \<and> c \<noteq> CHR ''=''" "\<forall>c \<in> set v. simpleChar c" using 3(3) by (simp_all add: simpleDefn_def)
  have a: "parseLoop N ?s (length pre) None st = parseLoop N ?s (length ?p) None ?st1" by (rule parse_name) (use 3 d in simp_all)
  have b: "parseLoop N (?p @ v @ '','' @ ?t) (length ?p) None ?st1 = parseLoop N (?p @ v @ '','' @ ?t) (length (?p @ v @ '','')) None ?st2"
    by (rule parse_value_comma) (use 3 d in simp_all)
  have e: "slices ?s ?st1 = slices ?s st @ [Some n]" using pieces_end[of "startPiece (length pre) inName st" pre n "''='' @ v @ '','' @ ?t"] 3(5) by simp
  have f: "slices ?s ?st2 = slices ?s ?st1 @ [Some v]"
    using pieces_end[of "startPiece (length ?p) inValue ?st1" ?p v "'','' @ ?t"] by simp
  have "\<exists>st'. do { st1 \<leftarrow> parseLoop N ((?p @ v @ '','') @ ?t) (length (?p @ v @ '','')) None ?st2; tidyUp N ((?p @ v @ '','') @ ?t) st1 } = Some st'
     \<and> slices ((?p @ v @ '','') @ ?t) st' = slices ((?p @ v @ '','') @ ?t) ?st2 @ pairsOf (d # ds) \<and> num st' = num ?st2 + 2 * length (d # ds)"
    by (rule "3.IH") (use 3 in simp_all)
  moreover have q: "(?p @ v @ '','') @ ?t = ?s" "?p @ v @ '','' @ ?t = ?s" "pre @ printDefns ((n, v) # d # ds) = ?s" by simp_all
  ultimately obtain st' where s: "do { st1 \<leftarrow> parseLoop N ?s (length (?p @ v @ '','')) None ?st2; tidyUp N ?s st1 } = Some st'"
    "slices ?s st' = slices ?s ?st2 @ pairsOf (d # ds)" "num st' = num ?st2 + 2 * length (d # ds)" unfolding q(1) by blast
  have "slices ?s st' = slices ?s st @ pairsOf ((n, v) # d # ds)" using s(2) e f by (simp add: pairsOf_def)
  moreover have "num st' = num st + 2 * length ((n, v) # d # ds)" using s(3) by simp
  ultimately show ?case unfolding q(3) a b[unfolded q(2)] using s(1) by blast
qed simp

lemma printDefns_length: "ds \<noteq> [] \<Longrightarrow> \<forall>d \<in> set ds. simpleDefn d \<Longrightarrow> 3 * length ds \<le> length (printDefns ds) + 1"
proof (induction ds rule: printDefns.induct)
  case (2 n v)
  then show ?case by (cases n) (simp_all add: simpleDefn_def)
next
  case (3 n v d ds)
  then show ?case by (cases n) (simp_all add: simpleDefn_def)
qed simp

section \<open>Names\<close>

lemma unquote_plain: "\<forall>c \<in> set n. simpleChar c \<Longrightarrow> unquote None n = n"
  by (induction n) (simp_all add: simpleChar_def)

lemma unquote_pairs: "\<forall>d \<in> set ds. simpleDefn d \<Longrightarrow> unquoteNames (pairsOf ds @ [None, None]) = pairsOf ds @ [None, None]"
proof (induction ds)
  case (Cons d ds)
  obtain n v where d: "d = (n, v)" by (cases d)
  have "unquote None n = n" by (rule unquote_plain) (use Cons.prems d in \<open>simp add: simpleDefn_def\<close>)
  moreover have "pairsOf (d # ds) @ [None, None] = Some n # Some v # (pairsOf ds @ [None, None])" using d by (simp add: pairsOf_def)
  moreover have "unquoteNames (pairsOf ds @ [None, None]) = pairsOf ds @ [None, None]" using Cons by simp
  ultimately show ?case by (simp only: unquoteNames.simps)
qed (simp add: pairsOf_def)

lemma parse_all:
  assumes "\<forall>d \<in> set ds. simpleDefn d"
  shows "macParseDefns True (printDefns ds) = Some (length ds, pairsOf ds @ [None, None])"
proof (cases "ds = []")
  case True
  have "macParseDefns True [] = Some (0, [None, None])" by (simp add: macParseDefns_def tidyUp_def)
  then show ?thesis using True by (simp add: pairsOf_def)
next
  case False
  define N where "N = max (length (printDefns ds)) 4"
  define st where "st = \<lparr>num = 0, startp = (\<lambda>_. 0), endp = (\<lambda>_. 0), del = (\<lambda>_. False), pstate = preName\<rparr>"
  have "2 * length ds < N" using printDefns_length[OF False assms] by (simp add: N_def)
  then obtain st' where st': "do { st1 \<leftarrow> parseLoop N (printDefns ds) 0 None st; tidyUp N (printDefns ds) st1 } = Some st'"
    "slices (printDefns ds) st' = slices (printDefns ds) st @ pairsOf ds" "num st' = 2 * length ds"
    using parse_defns[OF False assms, of st N "[]"] by (auto simp: st_def simp del: parseLoop.simps)
  have "slices (printDefns ds) st' = pairsOf ds" using st'(2) by (simp add: slices_def st_def)
  then have "map (\<lambda>i. if del st' i then None else Some (take (endp st' i - startp st' i) (drop (startp st' i) (printDefns ds)))) [0..<num st'] = pairsOf ds"
    unfolding slices_def sliceOf_def[abs_def] .
  then show ?thesis using st'(1,3) unquote_pairs[OF assms]
    by (auto simp: macParseDefns_def N_def[symmetric] st_def[symmetric] bind_eq_Some_conv Let_def simp del: parseLoop.simps)
qed

end
