(* ===== verification/MacProps.thy ===== *)
theory MacProps
  imports MacExpand MacParse
begin

text \<open>The properties of macro substitution.\<close>

section \<open>Handles with the environment\<close>

text \<open>Whether or not a handle uses the environment, its operations keep its values defined.\<close>

lemma wfm_dirty: "dirty h \<Longrightarrow> wfm h"
  by (simp add: wfm_def)

lemma deleteAll_wfm:
  assumes "deleteAll n h = Some h'"
  shows "wfm h \<longrightarrow> wfm h'"
proof (induction rule: deleteAll.raw_induct[OF _ assms])
  case (1 f n h h')
  obtain i h1 where l: "macLookup n False h = (i, h1)" by (cases "macLookup n False h")
  then have h1: "wfm h \<longrightarrow> wfm h1" using lookup_ext(2) by blast
  show ?case
  proof (cases i)
    case None
    then show ?thesis using 1(2) l h1 by simp
  next
    case (Some j)
    have "wfm (macDelete j h1)" by (rule wfm_dirty) (simp add: macDelete_def)
    then show ?thesis using 1(1,2) l Some by fastforce
  qed
qed

lemma exec_wfm: "macExec op h = Some h' \<Longrightarrow> wfm h \<Longrightarrow> wfm h'"
proof -
  assume e: "macExec op h = Some h'" and w: "wfm h"
  show "wfm h'"
  proof (cases op)
    case (MPut n v)
    show ?thesis
    proof (cases v)
      case None
      then show ?thesis using e w MPut deleteAll_wfm by (auto simp: macPutValue_def bind_eq_Some_conv)
    next
      case (Some s)
      then have "dirty h'" using e MPut by (auto simp: macPutValue_def Let_def split: prod.splits)
      then show ?thesis by (rule wfm_dirty)
    qed
  next
    case MPush
    then show ?thesis using e w by (auto simp: macPushScope_def wfm_def)
  next
    case MPop
    have "dirty (snd (macPopScope h)) \<or> snd (macPopScope h) = h" by (simp add: macPopScope_def split: option.splits)
    then show ?thesis using e w MPop wfm_dirty by auto
  next
    case (MExpand src k)
    then show ?thesis using e expandString_ok[OF w, of src k] by auto
  next
    case (MGet n k)
    then show ?thesis using e get_ok[OF w, of n k] by auto
  next
    case (MSuppress b)
    then show ?thesis using e w by (auto simp: macSuppressWarning_def suppress_wfm(1))
  qed
qed

lemma run_wfm: "macRun ops h = Some h' \<Longrightarrow> wfm h \<Longrightarrow> wfm h'"
  by (induction ops arbitrary: h) (auto simp: bind_eq_Some_conv dest: exec_wfm)

lemma put_wfm: "macPutValue n v h = Some (r, h') \<Longrightarrow> wfm h \<Longrightarrow> wfm h'"
  using exec_wfm[of "MPut n v" h h'] by simp

lemma putPairs_wfm: "putPairs ps h = Some (k, h') \<Longrightarrow> wfm h \<Longrightarrow> wfm h'"
  by (induction ps h arbitrary: k h' rule: putPairs.induct) (auto simp: bind_eq_Some_conv, metis put_wfm)

lemma create_wfm: "macCreateHandle env pairs = Some h \<Longrightarrow> wfm h"
proof -
  have w: "wfm \<lparr>dirty = False, mlevel = 0, suppress = False, useEnv = b, environ = env, entries = []\<rparr>" for b by (simp add: wfm_def)
  show "macCreateHandle env pairs = Some h \<Longrightarrow> wfm h"
    using w[of True] w[of False] by (auto simp: macCreateHandle_def Let_def bind_eq_Some_conv dest: putPairs_wfm split: option.splits if_splits)
qed

section \<open>Properties\<close>

text \<open>C39. Every expansion returns: for any history of a handle, with or without the environment, with macros that refer to themselves,
  open quotes or references that are not closed, \<open>macExpandString\<close> ends, writes at most \<open>maxlen\<close> characters, and its result is
  plus or minus their number.\<close>

theorem mac_expand_returns:
  assumes "macCreateHandle env pairs = Some h0" "macRun ops h0 = Some h"
  shows "\<exists>ret out h'. macExpandString src maxlen h = Some (ret, out, h') \<and> length out \<le> maxlen \<and> \<bar>ret\<bar> = int (length out)"
  using expandString_ok[OF run_wfm[OF assms(2) create_wfm[OF assms(1)]], of src maxlen] by blast

theorem mac_expand_returns_witness:
  "\<exists>ret out h'. macExpandString ''$(A)$(HOME'' 7
       \<lparr>dirty = True, mlevel = 0, suppress = False, useEnv = True, environ = [(''HOME'', ''h'')],
        entries = [\<lparr>ename = ''A'', rawv = Some ''x$(A)'', evalue = None, eerror = False, visited = False, special = False, elevel = 0\<rparr>]\<rparr> = Some (ret, out, h')
     \<and> length out \<le> 7 \<and> \<bar>ret\<bar> = int (length out)"
  by (rule mac_expand_returns[where env = "[(''HOME'', ''h'')]" and pairs = "Some [Some '''', Some ''environ'', None, None]" and ops = "[MPut ''A'' (Some ''x$(A)'')]"
        and ?h0.0 = "\<lparr>dirty = False, mlevel = 0, suppress = False, useEnv = True, environ = [(''HOME'', ''h'')], entries = []\<rparr>"])
    (simp_all add: macCreateHandle_def pairAt_def macPutValue_def macLookup_def Let_def macRawval_def macCreate_def setEntry_def)





section \<open>Defects\<close>

text \<open>Names without a value fill the arrays faster than their size allows for.\<close>

lemma mac_defns_overflow: "macParseDefns True ''a,b,c'' = None"
  by code_simp

text \<open>A handle that is only the default is used.\<close>

lemma mac_defns_null_handle: "macParseDefns False s = None"
  by (simp add: macParseDefns_def Let_def)

text \<open>A variable of the environment cannot be deleted: the loop ends only when the lookup fails, and it puts the variable back.\<close>

lemma deleteAll_env:
  assumes "deleteAll n h = Some h'"
  shows "\<not> (useEnv h \<and> map_of (environ h) n \<noteq> None)"
proof (induction rule: deleteAll.raw_induct[OF _ assms])
  case (1 f n h h')
  obtain i h1 where l: "macLookup n False h = (i, h1)" by (cases "macLookup n False h")
  have e: "useEnv h1 = useEnv h" "environ h1 = environ h" using lookup_ext(1)[OF l] by (simp_all add: ext_def)
  show ?case
  proof (cases i)
    case None
    then show ?thesis using l by (auto simp: macLookup_def split: option.splits)
  next
    case (Some j)
    have "useEnv (macDelete j h1) = useEnv h" "environ (macDelete j h1) = environ h" using e by (simp_all add: macDelete_def)
    then show ?thesis using 1(1,2) l Some by fastforce
  qed
qed

lemma mac_delete_hangs: "useEnv h \<Longrightarrow> map_of (environ h) n \<noteq> None \<Longrightarrow> macPutValue n None h = None"
  using deleteAll_env by (cases "deleteAll n h") (auto simp: macPutValue_def)

text \<open>A reference without definition inside the value of a macro is not reported by the expansion of a text.\<close>

lemma mac_nested_undefined:
  "map_of ms n = Some ps \<Longrightarrow> snd (sub (topVal warn ms) [Ref n d]) = False"
  by (simp add: topVal_def)

text \<open>A text without references comes back from \<open>macEnvExpand\<close> when it has less than 400 characters; a longer one is written past the buffer.\<close>

lemma expand_plain:
  assumes "wfm h" "\<not> dirty h" "plainText str"
  shows "macExpandString str k h = Some (int (length (take k str)), take k str, h)"
proof -
  obtain r out m err h2 where t: "trans_c (transFuel h str) False [] str 0 None ([], k) False h = Some (r, (out, m), err, h2)"
    using trans_whole[OF assms(1)] by blast
  have "runs False ([] @ str @ []) (length []) ([], k) False h (r, (out, m), err, h2)" using runsI[OF t] by simp
  from runs_text[OF this assms(3)] have "runs False str (length str) (emitChars str ([], k)) False h (r, (out, m), err, h2)" by simp
  from runs_end[OF this] have "out = take k str" "err = False" "h2 = h" by (auto simp: emitChars_def)
  then show ?thesis using t assms(2) by (simp add: macExpandString_def expandMacros_def del: trans_c.simps)
qed

lemma mac_env_overflow:
  assumes "plainText str"
  shows "macEnvExpand env str = (if length str < 400 then Some (Some str) else None)"
proof -
  let ?h = "\<lparr>dirty = False, mlevel = 0, suppress = False, useEnv = True, environ = env, entries = []\<rparr>"
  have "wfm ?h" by (simp add: wfm_def)
  from expand_plain[OF this _ assms] have e: "macExpandString str k ?h = Some (int (length (take k str)), take k str, ?h)" for k by simp
  have "envLoop str 400 ?h = Some (Some str)" if "length str < 400"
    using that by (subst envLoop.simps) (simp add: e)
  then have "envLoop str 200 ?h = (if length str < 400 then Some (Some str) else None)"
    by (subst envLoop.simps) (auto simp: e min_def)
  then show ?thesis by (simp add: macEnvExpand_def macCreateHandle_def pairAt_def)
qed

end
