(* ===== verification/Spec2Isabelle.thy ===== *)
theory Spec2Isabelle
  imports EllLib RingBytes Allocators GpHash CalcSafety AsProps EpicsStringProofs BucketProofs DbEventProps DbLockProps DbNotifyProps MacProps
begin

text \<open>
  A verification development for the EPICS base input/output controller as ported to OpenVMS: the
  libraries of \<open>base/src/libCom\<close> the rest of the system is built on, and the parts of the controller
  above them.

  \<^bold>\<open>The program.\<close> An IOC keeps process variables in records, evaluates calculations, checks the access
  rights of every channel access client, and delivers changes of fields to subscribers. All of it
  rests on a few data structures of \<open>libCom\<close>: doubly linked lists (\<open>ellLib\<close>), a byte ring between a
  reader and a writer (\<open>epicsRingBytes\<close>), block allocators (\<open>freeListLib\<close>, \<open>dbmf\<close>), the name
  directory (\<open>gpHashLib\<close>), the resource table of the channel access server (\<open>bucketLib\<close>) and the
  string routines (\<open>epicsString\<close>). Macro substitution (\<open>macLib\<close>) prepares the text of databases and of commands. The calculation engine (\<open>postfix\<close>, \<open>calcPerform\<close>) serves the calc
  records and the rules of access security; access security (\<open>asLibRoutines\<close>) finds user and host
  groups in the name directory, runs calculations, and gets the values of its inputs from \<open>asCa\<close>.

  \<^bold>\<open>The theories.\<close>
  \<^item> \<open>Prelude\<close>: pointers (an address or \<open>NULL\<close> is an \<open>addr option\<close>), C strings and division, shared lemmas.
  \<^item> \<open>EllLib\<close> (\<open>ellLib.c\<close>): every operation over a store of nodes and headers with their link fields.
    A well-formed list determines its node addresses; each operation is shown to be an operation on
    that list, up to exact frame conditions.
  \<^item> \<open>RingBytes\<close> (\<open>epicsRingBytes.c\<close>): the ring, refined to a bounded queue of bytes.
  \<^item> \<open>Allocators\<close> (\<open>freeListLib.c\<close>, \<open>adjustment.c\<close>, \<open>dbmf.c\<close>): the chains of free blocks, and that
    blocks in use never overlap.
  \<^item> \<open>GpHash\<close> (\<open>gpHashLib.c\<close>): Pearson's hash and the directory, refined to a finite map.
  \<^item> \<open>Postfix\<close> (\<open>postfix.c\<close>) and \<open>CalcPerform\<close> (\<open>calcPerform.c\<close>): the compiler from text to postfix
    code and the interpreter. \<open>CalcProofs\<close> has expression trees, their text and value, and the proof
    that compiling the text and running the code gives the value; \<open>CalcSafety\<close> what holds for arbitrary
    text: bounds of the operator stack, of the value stack and of the size of the code.
  \<^item> \<open>AsLib\<close> (\<open>asLibRoutines.c\<close>, the actions of \<open>asLib.y\<close>) and \<open>AsCa\<close> (\<open>asCa.c\<close>): access security.
    \<open>AsProofs\<close> and \<open>AsRights\<close> relate the rule evaluation to a specification of rights, \<open>AsOps\<close> has the
    invariant between groups, members and clients, \<open>AsInv\<close> and \<open>AsSystem\<close> its preservation by each
    operation, \<open>AsConfig\<close> the installation of a configuration, \<open>AsSecurity\<close> the system of all operations
    and its reachable states, \<open>AsProps\<close> the properties.
  \<^item> \<open>EpicsString\<close>, \<open>EpicsStringProofs\<close> (\<open>epicsString.c\<close>): escapes, comparison, patterns, tokens.
  \<^item> \<open>BucketLib\<close>, \<open>BucketProofs\<close> (\<open>bucketLib.c\<close>): the table of resource ids, refined to a map.
  \<^item> \<open>DbEvent\<close> (\<open>dbEvent.c\<close>): subscriptions, the rings they are posted to, cancelling, and the event
    task, as steps of the threads that share an event user. \<open>DbEventRing\<close> views a ring as the list of its
    entries, \<open>DbEventInv\<close> has the invariant of the rings, \<open>DbEventOps\<close>, \<open>DbEventCancel\<close> and \<open>DbEventRead\<close>
    the effect of posting, purging and reading on that list; \<open>DbEventSystem\<close>, \<open>DbEventSteps\<close>, \<open>DbEventReach\<close>
    and \<open>DbEventSafe\<close> the invariant of the whole system and that every step keeps it; \<open>DbEventHistory\<close>
    what a subscriber has got and will get; \<open>DbEventProps\<close> the properties. The event that wakes the task is signalled after the queue
    lock is released, in a step of its own. A ring has 128 places. The
    fields of records are the few the event system reads, since the rest of \<open>dbCommon\<close> is generated.
  \<^item> \<open>DbLock\<close> (\<open>dbLock.c\<close>, and the change of a link in \<open>dbPutFieldLink\<close> of \<open>dbAccess.c\<close>): lock sets, and
    the threads that scan-lock records and change links. Each step of a thread is one critical
    section of \<open>lockSetModifyLock\<close> or one wait for a mutex, so runs are interleavings. \<open>DbLockSets\<close> and
    \<open>DbLockGraph\<close> relate the sets to the connected components of the links; \<open>DbLockSystem\<close> has the invariant of
    sets and threads, \<open>DbLockScan\<close>, \<open>DbLockPut\<close>, \<open>DbLockLinks\<close> and \<open>DbLockSafe\<close> its preservation by each step;
    \<open>DbLockProps\<close> the properties: exclusion, sets equal components, freedom from deadlock.
  \<^item> \<open>DbNotify\<close> (\<open>dbNotify.c\<close>, with \<open>callbackRequest\<close> of \<open>callback.c\<close>): puts that call their user back when the record and all records processed because of it have
    completed. A step is a critical section of the global notify lock. \<open>DbNotifyInv\<close> and \<open>DbNotifySeen\<close> have the
    invariant between records, their owners, wait and restart lists, the callback requests and the threads;
    \<open>DbNotifySteps\<close>, \<open>DbNotifyGrows\<close>, \<open>DbNotifySafe\<close> and \<open>DbNotifyReach\<close> its preservation by each operation; \<open>DbNotifyRing\<close> shows that
    requests are dropped only when the ring of the callback task, of 2000 places shared with other code, is full; \<open>DbNotifyProps\<close> the
    properties. What record processing reads before the lock is an argument of its operations. Which records processing visits, and when they complete, is up to the environment.
  \<^item> \<open>MacLib\<close> (\<open>macCore.c\<close>, \<open>macEnv.c\<close>) and \<open>MacUtil\<close> (\<open>macParseDefns\<close> of \<open>macUtil.c\<close>): macro substitution. The scan of a raw
    value calls itself for names, defaults and values; \<open>transFuel\<close> bounds its depth by the characters of the text and of all values not in
    use, and \<open>MacProofs\<close> shows that this is enough and that nothing is written past a buffer. \<open>MacScope\<close> relates the list of entries
    to a stack of maps; \<open>MacTemplate\<close> has texts with references and their reference evaluation, \<open>MacExpand\<close> the invariant that
    expanded values are up to date, \<open>MacParse\<close> the parser against a printer; \<open>MacProps\<close> the properties and defects. Names are
    cut at 256 characters and values too, as in the code.

  \<^bold>\<open>Conventions.\<close> A C function is a HOL function of its arguments and the state it reads, and returns
  its result with the new state. The outermost \<open>option\<close> of such a result is a fault of the C program: a
  use of a null or dangling pointer, an index out of range, a failed assertion. Status codes are data
  types. What the code takes from elsewhere (floating point, the memory of \<open>malloc\<close>, the events of
  channel access, whether an allocation succeeds) is an argument. Loops over data recurse on it; loops
  whose end is not evident are \<open>partial_function (option)\<close> or carry a measure, and the lemmas show that
  they return. Counters that can wrap are words, or have the wrap written out.

  \<^bold>\<open>Interfaces.\<close> What one part needs of another is a locale, interpreted on the model's definitions:
  queues, finite maps and directories each have one, and the clients' lemmas are proved inside.

  \<^bold>\<open>Not modelled.\<close> Printing (\<open>Dump\<close> and \<open>Show\<close> routines), memory that is only released at the end,
  mutexes whose critical section is a whole operation (operations are then atomic), creation of
  tasks, and reading of configuration text (access security starts from the actions of its grammar).
  The network parts (\<open>ca\<close>, \<open>cas\<close>, \<open>rsrv\<close>), the operating system layer, the static database, record and
  device support, \<open>asyn\<close> and the sequencer are outside this development; the parser generators under
  \<open>toolsComm\<close> are third-party.
\<close>

end
